(* ===== verification/Prelude.thy ===== *)
theory Prelude
  imports Main "HOL-Library.Word" "HOL-Library.Monad_Syntax"
begin

text \<open>
  Shared vocabulary of the development.

  C types: \<open>u8\<close>, \<open>u16\<close>, \<open>u32\<close> are the unsigned fixed-width integers (wrapping arithmetic);
  \<open>size_t\<close> of the 32-bit target is \<open>u32\<close> where a value can be the bit pattern of a negative
  error code, and the length of a list where it only measures a buffer; \<open>int\<close> and \<open>long\<close> are
  HOL's \<open>int\<close>, with every conversion between signed and unsigned written out
  (\<^term>\<open>word_of_int\<close>, \<^term>\<open>sint\<close>).

  A C pointer to \<open>n\<close> bytes is the list of those \<open>n\<close> bytes; a callee that writes through it
  returns the new list. An operation that may not return normally has an \<open>option\<close> result:
  \<^term>\<open>None\<close> stands for no defined return (an endless loop, a call through a null function
  pointer, a division by zero, an access outside a buffer), so a theorem that the result is
  \<^term>\<open>Some\<close> also says that none of these happens.
\<close>

unbundle bit_operations_syntax

section \<open>Types\<close>

type_synonym u8 = "8 word"
type_synonym u16 = "16 word"
type_synonym u32 = "32 word"
type_synonym bytes = "u8 list"

text \<open>The error numbers that the code stores into \<open>errno\<close>.\<close>

datatype errno = EFAULT | EROFS | ENOTDIR | ENOENT | EINVAL | ENOSPC | ENOSYS | EAGAIN

section \<open>Collections of facts\<close>

named_theorems buf_simps \<open>lengths and contents of buffer slices and updates\<close>
named_theorems word_nat_simps \<open>from word arithmetic to natural numbers\<close>

section \<open>Buffers\<close>

text \<open>\<open>slice xs i n\<close> is what \<open>&xs[i]\<close> holds for \<open>n\<close> bytes; \<open>splice xs i ys\<close> is \<open>xs\<close> after
  \<open>memcpy(&xs[i], ys, length ys)\<close>.\<close>

definition slice :: "'a list \<Rightarrow> nat \<Rightarrow> nat \<Rightarrow> 'a list" where
  "slice xs i n = take n (drop i xs)"

definition splice :: "'a list \<Rightarrow> nat \<Rightarrow> 'a list \<Rightarrow> 'a list" where
  "splice xs i ys = take i xs @ ys @ drop (i + length ys) xs"

text \<open>What \<open>malloc(n)\<close> returns holds bytes the program has not chosen: \<open>junk\<close> is their content.\<close>

definition malloc_bytes :: "(nat \<Rightarrow> u8) \<Rightarrow> nat \<Rightarrow> bytes" where
  "malloc_bytes junk n = map junk [0..<n]"

lemma length_malloc_bytes [simp]: "length (malloc_bytes junk n) = n"
  by (simp add: malloc_bytes_def)

lemma length_slice [buf_simps]: "i + n \<le> length xs \<Longrightarrow> length (slice xs i n) = n"
  by (simp add: slice_def)

lemma nth_slice [buf_simps]: "k < n \<Longrightarrow> i + n \<le> length xs \<Longrightarrow> slice xs i n ! k = xs ! (i + k)"
  by (simp add: slice_def)

lemma length_splice [buf_simps]:
  "i + length ys \<le> length xs \<Longrightarrow> length (splice xs i ys) = length xs"
  by (simp add: splice_def)

lemma nth_splice [buf_simps]:
  "i + length ys \<le> length xs \<Longrightarrow> k < length xs \<Longrightarrow>
   splice xs i ys ! k = (if i \<le> k \<and> k < i + length ys then ys ! (k - i) else xs ! k)"
  by (auto simp: splice_def nth_append min_def)

lemma slice_splice_same [buf_simps]:
  "i + length ys \<le> length xs \<Longrightarrow> slice (splice xs i ys) i (length ys) = ys"
  by (simp add: slice_def splice_def)

lemma slice_splice_disjoint:
  assumes "i + length ys \<le> length xs" and "j + n \<le> length xs"
    and "j + n \<le> i \<or> i + length ys \<le> j"
  shows "slice (splice xs i ys) j n = slice xs j n"
proof (rule nth_equalityI)
  show "length (slice (splice xs i ys) j n) = length (slice xs j n)"
    using assms by (simp add: buf_simps)
next
  fix k assume "k < length (slice (splice xs i ys) j n)"
  then have k: "k < n" using assms by (simp add: buf_simps)
  then show "slice (splice xs i ys) j n ! k = slice xs j n ! k"
    using assms by (auto simp: buf_simps)
qed

lemma slice_all [buf_simps]: "slice xs 0 (length xs) = xs"
  by (simp add: slice_def)

lemma slice_zero [simp]: "slice xs i 0 = []"
  by (simp add: slice_def)

lemma slice_append_slice: "slice xs i m @ slice xs (i + m) n = slice xs i (m + n)"
  by (simp add: slice_def take_add add.commute)

lemma slice_slice: "j + n \<le> m \<Longrightarrow> slice (slice xs i m) j n = slice xs (i + j) n"
  by (simp add: slice_def drop_take min_absorb2 add.commute)

text \<open>Slots of one size in an array do not overlap.\<close>

lemma slots_disjoint: "j \<noteq> i \<Longrightarrow> j * n + n \<le> i * n \<or> i * n + n \<le> j * (n::nat)"
proof -
  assume "j \<noteq> i"
  then have "Suc j \<le> i \<or> Suc i \<le> j" by auto
  then have "Suc j * n \<le> i * n \<or> Suc i * n \<le> j * n" by (meson mult_le_mono1)
  then show ?thesis by (simp add: add.commute)
qed

lemma slot_fits: "j < k \<Longrightarrow> k * n \<le> m \<Longrightarrow> j * n + n \<le> (m::nat)"
proof -
  assume "j < k" "k * n \<le> m"
  moreover have "Suc j * n \<le> k * n" using \<open>j < k\<close> by (intro mult_right_mono) auto
  ultimately show ?thesis by simp
qed

section \<open>Blocks\<close>

text \<open>The concatenation of blocks of one size, and how a byte range of it splits.\<close>

lemma length_concat_blocks:
  "(\<And>x. x \<in> set xs \<Longrightarrow> length (f x) = n) \<Longrightarrow> length (concat (map f xs)) = length xs * n"
  by (induction xs) auto

lemma slice_concat_block:
  assumes "\<And>j. a \<le> j \<Longrightarrow> j < b \<Longrightarrow> length (f j) = n" and "a + i < b"
  shows "slice (concat (map f [a..<b])) (i * n) n = f (a + i)"
  using assms
proof (induction i arbitrary: a)
  case 0
  then have "[a..<b] = a # [Suc a..<b]" by (simp add: upt_conv_Cons)
  then show ?case using 0 by (simp add: slice_def)
next
  case (Suc i)
  have ab: "a < b" using Suc.prems by simp
  have "slice (concat (map f [a..<b])) (Suc i * n) n
      = slice (concat (map f [Suc a..<b])) (i * n) n"
    using Suc.prems(1) [of a] ab by (simp add: upt_conv_Cons slice_def)
  also have "\<dots> = f (Suc a + i)"
    using Suc.prems by (intro Suc.IH) auto
  finally show ?case by simp
qed

lemma length_concat_equal: "\<forall>x \<in> set xs. length x = n \<Longrightarrow> length (concat xs) = length xs * n"
  by (induction xs) auto

lemma nth_concat_equal:
  assumes "\<forall>x \<in> set xs. length x = n" and "i < length xs * n"
  shows "concat xs ! i = xs ! (i div n) ! (i mod n)"
  using assms
proof (induction xs arbitrary: i)
  case (Cons x xs)
  show ?case
  proof (cases "i < n")
    case False
    then have n: "0 < n" "n \<le> i" "i - n < length xs * n" using Cons.prems by auto
    have "concat (x # xs) ! i = xs ! ((i - n) div n) ! ((i - n) mod n)"
      using Cons n by (simp add: nth_append)
    then show ?thesis using n by (simp add: le_div_geq le_mod_geq)
  qed (use Cons.prems in \<open>simp add: nth_append\<close>)
qed simp

section \<open>Words\<close>

lemma unat_add_no_wrap [word_nat_simps]:
  "unat (a :: u32) + unat b < 2 ^ 32 \<Longrightarrow> unat (a + b) = unat a + unat b"
  by (simp add: unat_word_ariths)

lemma unat_of_nat32 [word_nat_simps]: "n < 2 ^ 32 \<Longrightarrow> unat (of_nat n :: u32) = n"
  by (simp add: unat_of_nat)

lemma unat_sub_no_wrap [word_nat_simps]:
  "b \<le> (a :: u32) \<Longrightarrow> unat (a - b) = unat a - unat b"
  by (simp add: unat_sub word_le_nat_alt)

lemma sint_word_of_int32:
  assumes "- (2 ^ 31) \<le> x" and "x < 2 ^ 31"
  shows "sint (word_of_int x :: u32) = x"
  using assms by (simp add: int_word_sint)

lemma sint_of_nat32: "n < 2 ^ 31 \<Longrightarrow> sint (word_of_int (int n) :: u32) = int n"
  by (rule sint_word_of_int32) auto

lemma sint_small: "unat (w :: u32) < 2 ^ 31 \<Longrightarrow> sint w = int (unat w)"
  using sint_of_nat32 [of "unat w"] by simp

lemma unat_word_of_int_nat: "n < 2 ^ 32 \<Longrightarrow> unat (word_of_int (int n) :: u32) = n"
  by (simp add: unat_of_nat)

lemma unat_word_of_int32:
  "0 \<le> x \<Longrightarrow> x < 2 ^ 32 \<Longrightarrow> unat (word_of_int x :: u32) = nat x"
  by (simp add: unat_eq_nat_uint uint_word_of_int mod_pos_pos_trivial)

lemma unat_inj32: "unat (a :: u32) = unat b \<Longrightarrow> a = b"
proof -
  assume "unat a = unat b"
  then have "of_nat (unat a) = (of_nat (unat b) :: u32)" by simp
  then show ?thesis by simp
qed

lemma of_nat_div32:
  "a < 2 ^ 32 \<Longrightarrow> b < 2 ^ 32 \<Longrightarrow> of_nat a div of_nat b = (of_nat (a div b) :: u32)"
  by (rule unat_inj32) (simp add: unat_div word_nat_simps le_less_trans [OF div_le_dividend])

lemma of_nat_mod32:
  "a < 2 ^ 32 \<Longrightarrow> b < 2 ^ 32 \<Longrightarrow> of_nat a mod of_nat b = (of_nat (a mod b) :: u32)"
  by (rule unat_inj32) (simp add: unat_mod word_nat_simps le_less_trans [OF mod_less_eq_dividend])

lemma and_not_mask_unat:
  fixes w :: u32
  assumes "n < 32"
  shows "unat (w AND NOT (mask n)) = unat w div 2 ^ n * 2 ^ n"
proof -
  have "w AND NOT (mask n) = push_bit n (drop_bit n w)"
    by (rule bit_word_eqI) (auto simp: bit_simps)
  moreover have w: "unat w < 2 ^ 32" by (rule order_less_le_trans [OF unsigned_less]) simp
  then have "take_bit 32 (unat w) = unat w" by (simp add: take_bit_eq_mod)
  ultimately have "unat (w AND NOT (mask n)) = take_bit 32 (push_bit n (drop_bit n (unat w)))"
    by (simp add: unsigned_push_bit_eq unsigned_drop_bit_eq)
  moreover have "push_bit n (drop_bit n (unat w)) = unat w div 2 ^ n * 2 ^ n"
    by (simp add: push_bit_eq_mult drop_bit_eq_div)
  moreover have "unat w div 2 ^ n * 2 ^ n < 2 ^ 32"
    by (rule le_less_trans [OF div_times_less_eq_dividend w])
  ultimately show ?thesis by (simp add: take_bit_eq_mod)
qed

section \<open>First elements\<close>

lemma find_upt_Some:
  assumes "find P [a..<b] = Some i"
  shows "a \<le> i" and "i < b" and "P i" and "\<And>j. a \<le> j \<Longrightarrow> j < i \<Longrightarrow> \<not> P j"
proof -
  obtain n where n: "n < b - a" "i = a + n" "P i" "\<And>j. j < n \<Longrightarrow> \<not> P (a + j)"
    using assms by (auto simp: find_Some_iff)
  then show "a \<le> i" "i < b" "P i" by auto
  show "\<not> P j" if "a \<le> j" "j < i" for j
    using n(4) [of "j - a"] that n(2) by auto
qed

end
