(* ===== verification/Byte_Access.thy ===== *)
theory Byte_Access
  imports Prelude
begin

text \<open>
  Unaligned little-endian access (\<open>rboot/util.h\<close>): the \<open>write_*\<close> and \<open>read_*\<close> helpers with
  which every on-disk structure is read, and \<open>byte_swap\<close>. A read or write of \<open>k\<close> bytes at
  \<open>offset\<close> is defined for \<open>offset + k \<le> length buf\<close>; the callers of the model check it where
  the offset comes from the disk.
\<close>

section \<open>util.h\<close>

definition write_byte :: "u8 \<Rightarrow> bytes \<Rightarrow> nat \<Rightarrow> bytes" where
  "write_byte byte buf offset = buf[offset := byte]"

definition write_halfword :: "u16 \<Rightarrow> bytes \<Rightarrow> nat \<Rightarrow> bytes" where
  "write_halfword val buf offset =
     (buf[offset + 0 := ucast (val AND 0xff)])
         [offset + 1 := ucast (drop_bit 8 val AND 0xff)]"

definition write_word :: "u32 \<Rightarrow> bytes \<Rightarrow> nat \<Rightarrow> bytes" where
  "write_word val buf offset =
     (((buf[offset + 0 := ucast (val AND 0xff)])
           [offset + 1 := ucast (drop_bit 8 val AND 0xff)])
           [offset + 2 := ucast (drop_bit 16 val AND 0xff)])
           [offset + 3 := ucast (drop_bit 24 val AND 0xff)]"

definition read_byte :: "bytes \<Rightarrow> nat \<Rightarrow> u8" where
  "read_byte buf offset = buf ! offset"

definition read_halfword :: "bytes \<Rightarrow> nat \<Rightarrow> u16" where
  "read_halfword buf offset =
     (let b0 = ucast (buf ! (offset + 0)) AND 0xff;
          b1 = ucast (buf ! (offset + 1)) AND 0xff
      in b0 OR push_bit 8 b1)"

definition read_word :: "bytes \<Rightarrow> nat \<Rightarrow> u32" where
  "read_word buf offset =
     (let b0 = ucast (buf ! (offset + 0)) AND 0xff;
          b1 = ucast (buf ! (offset + 1)) AND 0xff;
          b2 = ucast (buf ! (offset + 2)) AND 0xff;
          b3 = ucast (buf ! (offset + 3)) AND 0xff
      in b0 OR push_bit 8 b1 OR push_bit 16 b2 OR push_bit 24 b3)"

definition byte_swap :: "u32 \<Rightarrow> u32" where
  "byte_swap x =
     (let b0 = x AND 0xff;
          b1 = drop_bit 8 x AND 0xff;
          b2 = drop_bit 16 x AND 0xff;
          b3 = drop_bit 24 x AND 0xff
      in push_bit 24 b0 OR push_bit 16 b1 OR push_bit 8 b2 OR b3)"

section \<open>Lemmas\<close>

lemma length_writes [buf_simps]:
  "length (write_byte b buf off) = length buf"
  "length (write_halfword h buf off) = length buf"
  "length (write_word w buf off) = length buf"
  by (simp_all add: write_byte_def write_halfword_def write_word_def)

lemma byte_mask: "(255 :: 'a::len word) = mask 8"
  by (simp add: mask_eq_exp_minus_1)

text \<open>A word is the combination of the bytes that \<open>write_word\<close> takes from it.\<close>

lemma word_from_bytes:
  fixes v :: u32
  shows "(v AND mask 8) OR push_bit 8 (drop_bit 8 v AND mask 8)
    OR push_bit 16 (drop_bit 16 v AND mask 8) OR push_bit 24 (drop_bit 24 v AND mask 8) = v"
proof (rule bit_word_eqI)
  fix n assume n: "n < LENGTH(32)"
  consider "n < 8" | "8 \<le> n" "n < 16" | "16 \<le> n" "n < 24" | "24 \<le> n" "n < 32"
    using n by fastforce
  then show "bit ((v AND mask 8) OR push_bit 8 (drop_bit 8 v AND mask 8)
    OR push_bit 16 (drop_bit 16 v AND mask 8) OR push_bit 24 (drop_bit 24 v AND mask 8)) n = bit v n"
    by cases (auto simp add: bit_simps)
qed

lemma halfword_from_bytes:
  fixes v :: u16
  shows "(v AND mask 8) OR push_bit 8 (drop_bit 8 v AND mask 8) = v"
proof (rule bit_word_eqI)
  fix n assume n: "n < LENGTH(16)"
  consider "n < 8" | "8 \<le> n" "n < 16" using n by fastforce
  then show "bit ((v AND mask 8) OR push_bit 8 (drop_bit 8 v AND mask 8)) n = bit v n"
    by cases (auto simp add: bit_simps)
qed

lemma byte_of_masked32: "ucast (ucast (v AND mask 8 :: u32) :: u8) AND mask 8 = (v AND mask 8 :: u32)"
  by (rule bit_word_eqI) (auto simp add: bit_simps)

lemma byte_of_masked16: "ucast (ucast (v AND mask 8 :: u16) :: u8) AND mask 8 = (v AND mask 8 :: u16)"
  by (rule bit_word_eqI) (auto simp add: bit_simps)

lemma read_write_word:
  "off + 4 \<le> length buf \<Longrightarrow> read_word (write_word v buf off) off = v"
  by (simp add: read_word_def write_word_def Let_def nth_list_update byte_mask byte_of_masked32
      word_from_bytes del: push_bit_and)

lemma read_write_halfword:
  "off + 2 \<le> length buf \<Longrightarrow> read_halfword (write_halfword v buf off) off = v"
  by (simp add: read_halfword_def write_halfword_def Let_def nth_list_update byte_mask
      byte_of_masked16 halfword_from_bytes del: push_bit_and)

lemma writes_frame:
  "k < off \<or> off + 4 \<le> k \<Longrightarrow> write_word v buf off ! k = buf ! k"
  "k < off \<or> off + 2 \<le> k \<Longrightarrow> write_halfword h buf off ! k = buf ! k"
  "k < off \<or> off + 1 \<le> k \<Longrightarrow> write_byte b buf off ! k = buf ! k"
  by (auto simp: write_word_def write_halfword_def write_byte_def)

lemma reads_local:
  "(\<And>k. off \<le> k \<Longrightarrow> k < off + 4 \<Longrightarrow> b ! k = b' ! k) \<Longrightarrow> read_word b off = read_word b' off"
  "(\<And>k. off \<le> k \<Longrightarrow> k < off + 2 \<Longrightarrow> b ! k = b' ! k) \<Longrightarrow> read_halfword b off = read_halfword b' off"
  "(\<And>k. off \<le> k \<Longrightarrow> k < off + 1 \<Longrightarrow> b ! k = b' ! k) \<Longrightarrow> read_byte b off = read_byte b' off"
  by (simp_all add: read_word_def read_halfword_def read_byte_def)

section \<open>The interface: cells of a buffer\<close>

text \<open>
  What the users of \<open>util.h\<close> rely on: a value written at an offset is read back there, a
  write changes only its own bytes and a read looks only at its own bytes.
\<close>

locale byte_cell =
  fixes rd :: "bytes \<Rightarrow> nat \<Rightarrow> 'v" and wr :: "'v \<Rightarrow> bytes \<Rightarrow> nat \<Rightarrow> bytes" and width :: nat
  assumes rd_wr: "off + width \<le> length buf \<Longrightarrow> rd (wr v buf off) off = v"
    and length_wr: "length (wr v buf off) = length buf"
    and wr_frame: "k < off \<or> off + width \<le> k \<Longrightarrow> wr v buf off ! k = buf ! k"
    and rd_local: "(\<And>k. off \<le> k \<Longrightarrow> k < off + width \<Longrightarrow> b ! k = b' ! k) \<Longrightarrow> rd b off = rd b' off"
begin

lemma rd_wr_other:
  assumes "off' + width \<le> off \<or> off + width \<le> off'"
  shows "rd (wr v buf off) off' = rd buf off'"
  using assms by (intro rd_local wr_frame) auto

text \<open>A sequence of writes at increasing multiples of the width, as the field by field
  filling of a structure: reading any field back gives what was stored into it.\<close>

definition wr_fields :: "'v list \<Rightarrow> bytes \<Rightarrow> nat \<Rightarrow> bytes" where
  "wr_fields vs buf off = fold (\<lambda>(i, v) b. wr v b (off + i * width)) (enumerate 0 vs) buf"

lemma wr_fields_snoc:
  "wr_fields (vs @ [v]) buf off = wr v (wr_fields vs buf off) (off + length vs * width)"
  by (simp add: wr_fields_def enumerate_append_eq)

lemma length_wr_fields: "length (wr_fields vs buf off) = length buf"
  by (induction vs rule: rev_induct) (simp_all add: wr_fields_snoc length_wr, simp add: wr_fields_def)

lemma rd_wr_fields:
  "off + length vs * width \<le> length buf \<Longrightarrow> i < length vs \<Longrightarrow>
   rd (wr_fields vs buf off) (off + i * width) = vs ! i"
proof (induction vs arbitrary: i rule: rev_induct)
  case Nil
  then show ?case by simp
next
  case (snoc v vs)
  show ?case
  proof (cases "i = length vs")
    case True
    with snoc.prems show ?thesis
      by (simp add: wr_fields_snoc rd_wr length_wr_fields algebra_simps)
  next
    case False
    with snoc.prems have i: "i < length vs" by simp
    then have "Suc i * width \<le> length vs * width" by (intro mult_right_mono) auto
    then have "off + i * width + width \<le> off + length vs * width" by simp
    then show ?thesis
      using snoc.IH [of i] snoc.prems i by (simp add: wr_fields_snoc rd_wr_other nth_append)
  qed
qed

end

interpretation word_cell: byte_cell read_word write_word 4
  by unfold_locales (auto simp: read_write_word writes_frame length_writes intro: reads_local)

interpretation halfword_cell: byte_cell read_halfword write_halfword 2
  by unfold_locales (auto simp: read_write_halfword writes_frame length_writes intro: reads_local)

interpretation single_cell: byte_cell read_byte write_byte 1
  by unfold_locales
    (auto simp: read_byte_def write_byte_def writes_frame length_writes intro: reads_local)

section \<open>Byte order\<close>

text \<open>\<open>byte_swap\<close> is the reading of a word stored in the opposite byte order.\<close>

lemma byte_swap_bits:
  "n < 32 \<Longrightarrow> bit (byte_swap x) n = bit x (24 - 8 * (n div 8) + n mod 8)"
proof -
  assume n: "n < 32"
  consider "n < 8" | "8 \<le> n" "n < 16" | "16 \<le> n" "n < 24" | "24 \<le> n" "n < 32"
    using n by fastforce
  then show ?thesis
  proof cases
    case 1
    then have "n div 8 = 0" "n mod 8 = n" by auto
    then show ?thesis using 1 by (auto simp: byte_swap_def Let_def byte_mask bit_simps add.commute)
  next
    case 2
    then have "n div 8 = 1" "n mod 8 = n - 8" by (auto simp: div_nat_eqI mod_if)
    then show ?thesis using 2 by (auto simp: byte_swap_def Let_def byte_mask bit_simps)
  next
    case 3
    then have "n div 8 = 2" "n mod 8 = n - 16"
      by (auto simp: div_nat_eqI mod_if)
    then show ?thesis using 3 by (auto simp: byte_swap_def Let_def byte_mask bit_simps)
  next
    case 4
    then have "n div 8 = 3" "n mod 8 = n - 24" by (auto simp: div_nat_eqI mod_if)
    then show ?thesis using 4 by (auto simp: byte_swap_def Let_def byte_mask bit_simps)
  qed
qed

lemma byte_swap_involutive: "byte_swap (byte_swap x) = x"
proof (rule bit_word_eqI)
  fix n assume "n < LENGTH(32)"
  then have n: "n < 32" by simp
  define q r where "q = n div 8" and "r = n mod 8"
  have qr: "q \<le> 3" "r < 8" "n = 8 * q + r" using n by (auto simp: q_def r_def)
  define m where "m = 24 - 8 * q + r"
  have m8: "m = 8 * (3 - q) + r" using qr by (simp add: m_def)
  then have "m div 8 = 3 - q" "m mod 8 = r" using qr by auto
  then have inv: "24 - 8 * (m div 8) + m mod 8 = n" and m: "m < 32"
    using qr m8 by auto
  have "bit (byte_swap (byte_swap x)) n = bit (byte_swap x) m"
    by (simp only: byte_swap_bits [OF n] m_def q_def r_def)
  also have "\<dots> = bit x n" by (simp only: byte_swap_bits [OF m] inv)
  finally show "bit (byte_swap (byte_swap x)) n = bit x n" .
qed

text \<open>The bits of a word are those of its bytes, least significant byte first.\<close>

lemma read_word_bits:
  "n < 32 \<Longrightarrow> bit (read_word buf off) n = bit (buf ! (off + n div 8)) (n mod 8)"
proof -
  assume n: "n < 32"
  consider "n < 8" | "8 \<le> n" "n < 16" | "16 \<le> n" "n < 24" | "24 \<le> n" "n < 32"
    using n by fastforce
  then show ?thesis
  proof cases
    case 1
    then have "n div 8 = 0" "n mod 8 = n" by auto
    then show ?thesis using 1 by (auto simp: read_word_def Let_def byte_mask bit_simps)
  next
    case 2
    then have "n div 8 = 1" "n mod 8 = n - 8" by (auto simp: div_nat_eqI mod_if)
    then show ?thesis using 2 by (auto simp: read_word_def Let_def byte_mask bit_simps)
  next
    case 3
    then have "n div 8 = 2" "n mod 8 = n - 16" by (auto simp: div_nat_eqI mod_if)
    then show ?thesis using 3 by (auto simp: read_word_def Let_def byte_mask bit_simps)
  next
    case 4
    then have "n div 8 = 3" "n mod 8 = n - 24" by (auto simp: div_nat_eqI mod_if)
    then show ?thesis using 4 by (auto simp: read_word_def Let_def byte_mask bit_simps)
  qed
qed

text \<open>C27: What the \<open>write_*\<close> helpers store at an offset inside the buffer (\<open>off + 4\<close>, \<open>off + 2\<close>,
  \<open>off + 1\<close> at most its length) the \<open>read_*\<close> helpers of the same width read back, and each of the
  three writers leaves every byte before and behind its field, and the length, unchanged.\<close>

theorem byte_access_roundtrip:
  "(off + 4 \<le> length buf \<longrightarrow> read_word (write_word w buf off) off = w
     \<and> write_word w buf off = take off buf @ slice (write_word w buf off) off 4 @ drop (off + 4) buf)
   \<and> (off + 2 \<le> length buf \<longrightarrow> read_halfword (write_halfword h buf off) off = h
     \<and> write_halfword h buf off = take off buf @ slice (write_halfword h buf off) off 2 @ drop (off + 2) buf)
   \<and> (off + 1 \<le> length buf \<longrightarrow> read_byte (write_byte b buf off) off = b
     \<and> write_byte b buf off = take off buf @ slice (write_byte b buf off) off 1 @ drop (off + 1) buf)"
proof -
  have frame: "out = take off buf @ slice out off n @ drop (off + n) buf"
    if "length out = length buf" "\<And>k. k < off \<or> off + n \<le> k \<Longrightarrow> out ! k = buf ! k" "off + n \<le> length buf"
    for out n
  proof -
    have "take off out = take off buf" and "drop (off + n) out = drop (off + n) buf"
      using that by (auto intro!: nth_equalityI)
    moreover have "out = take off out @ take n (drop off out) @ drop n (drop off out)"
      by (simp only: append_take_drop_id)
    ultimately show ?thesis by (simp add: slice_def add.commute)
  qed
  show ?thesis
    by (intro conjI impI frame word_cell.rd_wr halfword_cell.rd_wr single_cell.rd_wr word_cell.length_wr
        halfword_cell.length_wr single_cell.length_wr word_cell.wr_frame halfword_cell.wr_frame
        single_cell.wr_frame)
qed

theorem byte_access_roundtrip_witness:
  "read_word (write_word 0x12345678 [1, 2, 3, 4, 5, 6] 1) 1 = 0x12345678
   \<and> read_halfword (write_halfword 0x1234 [1, 2, 3, 4, 5, 6] 1) 1 = 0x1234
   \<and> take 1 (write_byte 9 [1, 2, 3, 4, 5, 6] 1) = [1]"
  using byte_access_roundtrip [of 1 "[1, 2, 3, 4, 5, 6]" "0x12345678" "0x1234" 9]
  by (simp add: write_byte_def)

text \<open>\<open>byte_swap\<close> converts between the byte orders: reading four bytes in reverse is the swap
  of reading them in order, for any four bytes, and swapping twice is the identity.\<close>

theorem byte_swap_reverses:
  "read_word [d, c, b, a] 0 = byte_swap (read_word [a, b, c, d] 0) \<and> byte_swap (byte_swap x) = x"
proof -
  have "read_word [d, c, b, a] 0 = byte_swap (read_word [a, b, c, d] 0)"
  proof (rule bit_word_eqI)
    fix n assume "n < LENGTH(32)"
    then have n: "n < 32" by simp
    define q r where "q = n div 8" and "r = n mod 8"
    have qr: "q \<le> 3" "r < 8" using n by (auto simp: q_def r_def)
    define m where "m = 24 - 8 * q + r"
    have m8: "m = 8 * (3 - q) + r" using qr by (simp add: m_def)
    then have m: "m div 8 = 3 - q" "m mod 8 = r" "m < 32" using qr by auto
    have "bit (byte_swap (read_word [a, b, c, d] 0)) n = bit (read_word [a, b, c, d] 0) m"
      by (simp only: byte_swap_bits [OF n] m_def q_def r_def)
    also have "\<dots> = bit ([a, b, c, d] ! (3 - q)) r" using read_word_bits [OF m(3)] m by simp
    also have "[a, b, c, d] ! (3 - q) = [d, c, b, a] ! q"
    proof -
      consider "q = 0" | "q = 1" | "q = 2" | "q = 3" using qr by linarith
      then show ?thesis by cases simp_all
    qed
    finally show "bit (read_word [d, c, b, a] 0) n = bit (byte_swap (read_word [a, b, c, d] 0)) n"
      using read_word_bits [OF n, of "[d, c, b, a]" 0] by (simp add: q_def r_def)
  qed
  then show ?thesis by (simp add: byte_swap_involutive)
qed

end
