(* ===== verification/Block_Layer.thy ===== *)
theory Block_Layer
  imports Byte_Access
begin

text \<open>
  The generic block device layer (\<open>rboot/block.h\<close>, \<open>rboot/block.c\<close>): \<open>struct block_device\<close>
  with its function pointers, and \<open>block_read\<close> and \<open>block_write\<close>, which cut a request into
  single-block calls of the driver.

  The type variable \<open>'s\<close> is the state the driver works on. A driver's \<open>read\<close> gets the buffer
  it may write (so \<open>buf_size\<close> is its length) and the block number, and returns the C return
  value, the buffer afterwards and the new state. \<open>block_store\<close> is the contract of a driver
  that stores blocks; it is proved of the block cache and of the partitions in their theories.
\<close>

section \<open>block.h\<close>

type_synonym 's dev_read = "bytes \<Rightarrow> u32 \<Rightarrow> 's \<Rightarrow> (int \<times> bytes \<times> 's) option"
type_synonym 's dev_write = "bytes \<Rightarrow> u32 \<Rightarrow> 's \<Rightarrow> (int \<times> 's) option"

record 's block_device =
  driver_name :: string
  device_name :: string
  device_id :: bytes
  supports_multiple_block_read :: bool
  supports_multiple_block_write :: bool
  dev_read :: "'s dev_read option"
  dev_write :: "'s dev_write option"
  block_size :: u32
  num_blocks :: u32

section \<open>block.c\<close>

text \<open>
  The \<open>do ... while(buf_size > 0)\<close> loop of \<open>block_read\<close>. \<open>buf\<close> is the part of the buffer from
  \<open>&buf[buf_offset]\<close> on, \<open>block_num\<close> is \<open>starting_block + block_offset\<close>; \<open>MAX_TRIES\<close> is 1, so the
  first negative return value is returned, converted to \<open>size_t\<close>. With a block size of 0 the C
  loop never ends: the result is then \<^term>\<open>None\<close>.
\<close>

partial_function (option) block_read_loop ::
  "'s dev_read \<Rightarrow> nat \<Rightarrow> bytes \<Rightarrow> u32 \<Rightarrow> nat \<Rightarrow> 's \<Rightarrow> (u32 \<times> bytes \<times> 's) option" where
  "block_read_loop rd bsize buf block_num buf_offset s =
     (let to_read = (if length buf > bsize then bsize else length buf) in
      do {
        (ret, chunk, s') \<leftarrow> rd (take to_read buf) block_num s;
        if ret < 0 then Some (word_of_int ret, chunk @ drop to_read buf, s')
        else (let rest = (if length buf < bsize then [] else drop bsize buf) in
          if rest = [] then Some (of_nat (buf_offset + to_read), chunk, s')
          else do {
            (r, rest', s'') \<leftarrow> block_read_loop rd bsize rest (block_num + 1) (buf_offset + to_read) s';
            Some (r, chunk @ rest', s'')
          })
      })"

definition block_read ::
  "'s block_device \<Rightarrow> bytes \<Rightarrow> u32 \<Rightarrow> 's \<Rightarrow> (u32 \<times> bytes \<times> 's) option" where
  "block_read dev buf starting_block s =
     (case dev_read dev of
        None \<Rightarrow> Some (0, buf, s)
      | Some rd \<Rightarrow>
          if supports_multiple_block_read dev then
            (if block_size dev = 0 then None
             else if length buf div unat (block_size dev) > 1 then
               do { (ret, buf', s') \<leftarrow> rd buf starting_block s;
                    Some (word_of_int ret, buf', s') }
             else block_read_loop rd (unat (block_size dev)) buf starting_block 0 s)
          else block_read_loop rd (unat (block_size dev)) buf starting_block 0 s)"

partial_function (option) block_write_loop ::
  "'s dev_write \<Rightarrow> nat \<Rightarrow> bytes \<Rightarrow> u32 \<Rightarrow> nat \<Rightarrow> 's \<Rightarrow> (u32 \<times> 's) option" where
  "block_write_loop wr bsize buf block_num buf_offset s =
     (let to_write = (if length buf > bsize then bsize else length buf) in
      do {
        (ret, s') \<leftarrow> wr (take to_write buf) block_num s;
        if ret < 0 then Some (word_of_int ret, s')
        else (let rest = (if length buf < bsize then [] else drop bsize buf) in
          if rest = [] then Some (of_nat (buf_offset + to_write), s')
          else block_write_loop wr bsize rest (block_num + 1) (buf_offset + to_write) s')
      })"

definition block_write ::
  "'s block_device \<Rightarrow> bytes \<Rightarrow> u32 \<Rightarrow> 's \<Rightarrow> (u32 \<times> 's) option" where
  "block_write dev buf starting_block s =
     (case dev_write dev of
        None \<Rightarrow> Some (0, s)
      | Some wr \<Rightarrow> block_write_loop wr (unat (block_size dev)) buf starting_block 0 s)"

section \<open>The contract of a driver\<close>

text \<open>
  \<open>content s b\<close> is what block \<open>b\<close> holds in state \<open>s\<close>; the device has \<open>nblocks\<close> blocks of
  \<open>bsize\<close> bytes. A read or write of \<open>k\<close> whole blocks inside the device transfers them all.
\<close>

definition store_blocks :: "(nat \<Rightarrow> bytes) \<Rightarrow> nat \<Rightarrow> nat \<Rightarrow> nat \<Rightarrow> bytes \<Rightarrow> nat \<Rightarrow> bytes" where
  "store_blocks c bsize b k buf =
     (\<lambda>i. if b \<le> i \<and> i < b + k then slice buf ((i - b) * bsize) bsize else c i)"

definition load_blocks :: "(nat \<Rightarrow> bytes) \<Rightarrow> nat \<Rightarrow> nat \<Rightarrow> bytes" where
  "load_blocks c b k = concat (map c [b..<b + k])"

text \<open>
  A client's requests and the array they are about: \<open>serve\<close> sends them to a driver, \<open>array_serve\<close>
  is the answer of an array of blocks. A request fits when it lies inside the device.
\<close>

datatype request = ReadReq nat u32 | WriteReq bytes u32

fun fits :: "nat \<Rightarrow> nat \<Rightarrow> request \<Rightarrow> bool" where
  "fits bsize n (ReadReq k b) \<longleftrightarrow> 0 < k \<and> unat b + k \<le> n \<and> k * bsize < 2 ^ 31"
| "fits bsize n (WriteReq buf b) \<longleftrightarrow> 0 < length buf div bsize \<and> length buf mod bsize = 0 \<and>
     unat b + length buf div bsize \<le> n \<and> length buf < 2 ^ 31"

fun serve :: "'s dev_read \<Rightarrow> 's dev_write \<Rightarrow> nat \<Rightarrow> request list \<Rightarrow> 's \<Rightarrow> (bytes list \<times> 's) option" where
  "serve rd wr bsize [] s = Some ([], s)"
| "serve rd wr bsize (ReadReq k b # rs) s = do {
     (ret, buf, s') \<leftarrow> rd (replicate (k * bsize) 0) b s;
     (outs, s'') \<leftarrow> serve rd wr bsize rs s';
     Some (take (nat ret) buf # outs, s'')
   }"
| "serve rd wr bsize (WriteReq buf b # rs) s = do {
     (ret, s') \<leftarrow> wr buf b s;
     (outs, s'') \<leftarrow> serve rd wr bsize rs s';
     Some (take (nat ret) buf # outs, s'')
   }"

fun array_serve :: "nat \<Rightarrow> request list \<Rightarrow> (nat \<Rightarrow> bytes) \<Rightarrow> bytes list" where
  "array_serve bsize [] c = []"
| "array_serve bsize (ReadReq k b # rs) c = load_blocks c (unat b) k # array_serve bsize rs c"
| "array_serve bsize (WriteReq buf b # rs) c =
     buf # array_serve bsize rs (store_blocks c bsize (unat b) (length buf div bsize) buf)"

lemma load_blocks_cong:
  "(\<And>i. b \<le> i \<Longrightarrow> i < b + k \<Longrightarrow> c i = c' i) \<Longrightarrow> load_blocks c b k = load_blocks c' b k"
  unfolding load_blocks_def by (intro arg_cong [where f = concat] map_cong) auto

lemma length_load_blocks:
  "(\<And>i. b \<le> i \<Longrightarrow> i < b + k \<Longrightarrow> length (c i) = n) \<Longrightarrow> length (load_blocks c b k) = k * n"
  unfolding load_blocks_def by (subst length_concat_blocks [where n = n]) auto

text \<open>Loading the blocks that were stored gives the buffer back.\<close>

lemma load_store_prefix:
  "length buf = k * n \<Longrightarrow> j \<le> k \<Longrightarrow> load_blocks (store_blocks c n b k buf) b j = take (j * n) buf"
proof (induction j)
  case 0
  then show ?case by (simp add: load_blocks_def)
next
  case (Suc j)
  have "load_blocks (store_blocks c n b k buf) b (Suc j) = take (j * n) buf @ slice buf (j * n) n"
    using Suc by (simp add: load_blocks_def store_blocks_def)
  also have "\<dots> = take (j * n + n) buf" by (simp only: slice_def take_add)
  also have "\<dots> = take (Suc j * n) buf" by (simp add: add.commute)
  finally show ?case .
qed

lemma load_store_blocks:
  "length buf = k * n \<Longrightarrow> load_blocks (store_blocks c n b k buf) b k = buf"
  by (simp add: load_store_prefix)

lemma array_serve_cong:
  assumes "\<forall>r \<in> set rs. fits bsize n r" and "\<forall>i < n. c i = c' i"
  shows "array_serve bsize rs c = array_serve bsize rs c'"
  using assms
proof (induction bsize rs c arbitrary: c' rule: array_serve.induct)
  case (1 bsize c)
  then show ?case by simp
next
  case (2 bsize k b rs c)
  then show ?case by (auto intro: load_blocks_cong)
next
  case (3 bsize buf b rs c)
  have "\<forall>i < n. store_blocks c bsize (unat b) (length buf div bsize) buf i
      = store_blocks c' bsize (unat b) (length buf div bsize) buf i"
    using 3 by (simp add: store_blocks_def)
  then show ?case using 3 by auto
qed

locale block_store =
  fixes rd :: "'s dev_read" and wr :: "'s dev_write"
    and bsize :: nat and nblocks :: nat
    and inv :: "'s \<Rightarrow> bool" and content :: "'s \<Rightarrow> nat \<Rightarrow> bytes"
  assumes bsize_pos: "inv s \<Longrightarrow> 0 < bsize"
    and nblocks_bound: "inv s \<Longrightarrow> nblocks < 2 ^ 32"
    and length_content: "inv s \<Longrightarrow> i < nblocks \<Longrightarrow> length (content s i) = bsize"
    and read_ok: "inv s \<Longrightarrow> 0 < k \<Longrightarrow> length buf = k * bsize \<Longrightarrow> unat b + k \<le> nblocks \<Longrightarrow>
      k * bsize < 2 ^ 31 \<Longrightarrow>
      \<exists>s'. rd buf b s = Some (int (k * bsize), load_blocks (content s) (unat b) k, s')
         \<and> inv s' \<and> content s' = content s"
    and write_ok: "inv s \<Longrightarrow> 0 < k \<Longrightarrow> length buf = k * bsize \<Longrightarrow> unat b + k \<le> nblocks \<Longrightarrow>
      k * bsize < 2 ^ 31 \<Longrightarrow>
      \<exists>s'. wr buf b s = Some (int (k * bsize), s') \<and> inv s'
         \<and> (\<forall>i < nblocks. content s' i = store_blocks (content s) bsize (unat b) k buf i)"
begin

lemma load_one: "load_blocks (content s) b (Suc 0) = content s b"
  by (simp add: load_blocks_def)

lemma loop_read:
  "inv s \<Longrightarrow> 0 < k \<Longrightarrow> length buf = k * bsize \<Longrightarrow> unat b + k \<le> nblocks \<Longrightarrow> off + k * bsize < 2 ^ 31 \<Longrightarrow>
   \<exists>s'. block_read_loop rd bsize buf b off s
         = Some (of_nat (off + k * bsize), load_blocks (content s) (unat b) k, s')
      \<and> inv s' \<and> content s' = content s"
proof (induction k arbitrary: buf b off s)
  case 0
  then show ?case by simp
next
  case (Suc k)
  have "1 * bsize \<le> Suc k * bsize" by (intro mult_right_mono) auto
  then have small: "1 * bsize < 2 ^ 31" and take: "length (take bsize buf) = 1 * bsize"
    using Suc.prems by simp_all
  obtain s1 where s1: "rd (take bsize buf) b s = Some (int bsize, content s (unat b), s1)"
    "inv s1" "content s1 = content s"
    using read_ok [OF Suc.prems(1) _ take _ small, of b] Suc.prems(1,4) by (auto simp: load_one)
  show ?case
  proof (cases "k = 0")
    case True
    with s1 Suc.prems show ?thesis
      by (subst block_read_loop.simps) (simp add: load_blocks_def)
  next
    case False
    have nb: "unat b + 1 < 2 ^ 32" using Suc.prems(4) nblocks_bound [OF Suc.prems(1)] by simp
    then have b1: "unat (b + 1) = unat b + 1" by (simp add: word_nat_simps)
    have rest: "length (drop bsize buf) = k * bsize" using Suc.prems(3) by simp
    then have ne: "drop bsize buf \<noteq> []" using False bsize_pos [OF Suc.prems(1)] by auto
    obtain s2 where s2: "block_read_loop rd bsize (drop bsize buf) (b + 1) (off + bsize) s1
        = Some (of_nat (off + bsize + k * bsize), load_blocks (content s1) (unat b + 1) k, s2)"
      "inv s2" "content s2 = content s1"
      using Suc.IH [OF s1(2) _ rest, of "b + 1" "off + bsize"] False Suc.prems(4,5) b1 by auto
    have long: "length buf > bsize" using rest ne by fastforce
    have "load_blocks (content s) (unat b) (Suc k)
        = content s (unat b) @ load_blocks (content s1) (unat b + 1) k"
      using s1(3) by (simp add: load_blocks_def upt_conv_Cons del: upt_Suc)
    then show ?thesis
      using s1 s2 ne long Suc.prems(3)
      by (subst block_read_loop.simps) (simp add: algebra_simps)
  qed
qed

lemma loop_write:
  "inv s \<Longrightarrow> 0 < k \<Longrightarrow> length buf = k * bsize \<Longrightarrow> unat b + k \<le> nblocks \<Longrightarrow> off + k * bsize < 2 ^ 31 \<Longrightarrow>
   \<exists>s'. block_write_loop wr bsize buf b off s = Some (of_nat (off + k * bsize), s') \<and> inv s'
      \<and> (\<forall>i < nblocks. content s' i = store_blocks (content s) bsize (unat b) k buf i)"
proof (induction k arbitrary: buf b off s)
  case 0
  then show ?case by simp
next
  case (Suc k)
  have "1 * bsize \<le> Suc k * bsize" by (intro mult_right_mono) auto
  then have small: "1 * bsize < 2 ^ 31" and take: "length (take bsize buf) = 1 * bsize"
    using Suc.prems by simp_all
  obtain s1 where s1: "wr (take bsize buf) b s = Some (int bsize, s1)" "inv s1"
    "\<forall>i < nblocks. content s1 i = store_blocks (content s) bsize (unat b) 1 (take bsize buf) i"
    using write_ok [OF Suc.prems(1) _ take _ small, of b] Suc.prems(4) by auto
  show ?case
  proof (cases "k = 0")
    case True
    with s1 Suc.prems show ?thesis
      by (subst block_write_loop.simps) simp
  next
    case False
    have nb: "unat b + 1 < 2 ^ 32" using Suc.prems(4) nblocks_bound [OF Suc.prems(1)] by simp
    then have b1: "unat (b + 1) = unat b + 1" by (simp add: word_nat_simps)
    have rest: "length (drop bsize buf) = k * bsize" using Suc.prems(3) by simp
    then have ne: "drop bsize buf \<noteq> []" using False bsize_pos [OF Suc.prems(1)] by auto
    obtain s2 where s2: "block_write_loop wr bsize (drop bsize buf) (b + 1) (off + bsize) s1
        = Some (of_nat (off + bsize + k * bsize), s2)" "inv s2"
      "\<forall>i < nblocks. content s2 i = store_blocks (content s1) bsize (unat b + 1) k (drop bsize buf) i"
      using Suc.IH [OF s1(2) _ rest, of "b + 1" "off + bsize"] False Suc.prems(4,5) b1 by auto
    have long: "length buf > bsize" using rest ne by fastforce
    have "store_blocks (content s1) bsize (unat b + 1) k (drop bsize buf) i
        = store_blocks (content s) bsize (unat b) (Suc k) buf i" if "i < nblocks" for i
    proof -
      consider "i < unat b \<or> unat b + Suc k \<le> i" | "i = unat b"
        | "unat b < i" "i < unat b + Suc k"
        by linarith
      then show ?thesis
      proof cases
        case 1
        then show ?thesis using that s1(3) by (auto simp: store_blocks_def)
      next
        case 2
        then show ?thesis using that s1(3) by (auto simp: store_blocks_def slice_def)
      next
        case 3
        then obtain j where "i = unat b + Suc j" "j < k"
          using less_imp_Suc_add [of "unat b" i] by auto
        then show ?thesis by (simp add: store_blocks_def slice_def add.commute)
      qed
    qed
    then show ?thesis
      using s1 s2 ne long Suc.prems(3)
      by (subst block_write_loop.simps) (simp add: algebra_simps)
  qed
qed

text \<open>A request that runs past the end of the device: the blocks before the end are in the buffer,
  the driver's negative return value is the result and the rest of the buffer is as before.\<close>

lemma loop_read_past_end:
  assumes fails: "\<And>s chunk. inv s \<Longrightarrow> rd chunk (of_nat nblocks) s = Some (ret, chunk, s)"
    and neg: "ret < 0"
  shows "inv s \<Longrightarrow> unat b + j = nblocks \<Longrightarrow> j * bsize < length buf \<Longrightarrow> off + length buf < 2 ^ 31 \<Longrightarrow>
    \<exists>s'. block_read_loop rd bsize buf b off s
      = Some (word_of_int ret, load_blocks (content s) (unat b) j @ drop (j * bsize) buf, s')
      \<and> inv s' \<and> content s' = content s"
proof (induction j arbitrary: buf b off s)
  case 0
  then have "of_nat (unat b) = (of_nat nblocks :: u32)" by simp
  then have "b = of_nat nblocks" by simp
  then show ?case
    using fails [OF 0(1)] neg 0 by (subst block_read_loop.simps) (auto simp: load_blocks_def)
next
  case (Suc j)
  have pos: "0 < bsize" by (rule bsize_pos [OF Suc.prems(1)])
  have long: "bsize < length buf" using Suc.prems(3) by simp
  then have take: "length (take bsize buf) = 1 * bsize" by simp
  obtain s1 where s1: "rd (take bsize buf) b s = Some (int bsize, content s (unat b), s1)"
    "inv s1" "content s1 = content s"
    using read_ok [OF Suc.prems(1) _ take, of b] Suc.prems(2,4) long by (auto simp: load_one)
  have "unat b + 1 < 2 ^ 32" using Suc.prems(2) nblocks_bound [OF Suc.prems(1)] by simp
  then have b1: "unat (b + 1) = unat b + 1" by (simp add: word_nat_simps)
  have rest: "j * bsize < length (drop bsize buf)" using Suc.prems(3) by simp
  obtain s2 where s2: "block_read_loop rd bsize (drop bsize buf) (b + 1) (off + bsize) s1
      = Some (word_of_int ret, load_blocks (content s1) (unat (b + 1)) j
          @ drop (j * bsize) (drop bsize buf), s2)"
    "inv s2" "content s2 = content s1"
    using Suc.IH [OF s1(2) _ rest, of "b + 1" "off + bsize"] b1 long Suc.prems(2,4) by auto
  have "load_blocks (content s) (unat b) (Suc j)
      = content s (unat b) @ load_blocks (content s1) (unat (b + 1)) j"
    using s1(3) b1 by (simp add: load_blocks_def upt_conv_Cons del: upt_Suc)
  then show ?case
    using s1 s2 long by (subst block_read_loop.simps) (simp add: add.commute)
qed

text \<open>The layer's own contract over such a driver: a request of whole blocks is satisfied
  completely, whether it goes to the driver in one call or block by block.\<close>

lemma layer_read:
  assumes "dev_read dev = Some rd" and "unat (block_size dev) = bsize"
    and "inv s" and "0 < k" and "length buf = k * bsize" and "unat b + k \<le> nblocks"
    and "k * bsize < 2 ^ 31"
  shows "\<exists>s'. block_read dev buf b s
      = Some (of_nat (k * bsize), load_blocks (content s) (unat b) k, s')
    \<and> inv s' \<and> content s' = content s"
proof (cases "supports_multiple_block_read dev \<and> length buf div unat (block_size dev) > 1")
  case True
  have "block_size dev \<noteq> 0" using assms(2) bsize_pos [OF assms(3)] by auto
  then show ?thesis
    using read_ok [OF assms(3-6) assms(7)] True assms(1) by (auto simp: block_read_def)
next
  case False
  have "block_size dev \<noteq> 0" using assms(2) bsize_pos [OF assms(3)] by auto
  then show ?thesis
    using loop_read [OF assms(3-6), of 0] False assms(1,2,7) by (auto simp: block_read_def)
qed

lemma layer_write:
  assumes "dev_write dev = Some wr" and "unat (block_size dev) = bsize"
    and "inv s" and "0 < k" and "length buf = k * bsize" and "unat b + k \<le> nblocks"
    and "k * bsize < 2 ^ 31"
  shows "\<exists>s'. block_write dev buf b s = Some (of_nat (k * bsize), s') \<and> inv s'
    \<and> (\<forall>i < nblocks. content s' i = store_blocks (content s) bsize (unat b) k buf i)"
  using loop_write [OF assms(3-6), of 0] assms(1,2,7) by (simp add: block_write_def)

text \<open>Any sequence of requests that fit is answered as by the array of the device's contents.\<close>

lemma serve_refines_array:
  "inv s \<Longrightarrow> \<forall>r \<in> set rs. fits bsize nblocks r \<Longrightarrow>
   \<exists>s'. serve rd wr bsize rs s = Some (array_serve bsize rs (content s), s') \<and> inv s'"
proof (induction rs arbitrary: s)
  case Nil
  then show ?case by simp
next
  case (Cons r rs)
  show ?case
  proof (cases r)
    case (ReadReq k b)
    then have fit: "0 < k" "unat b + k \<le> nblocks" "k * bsize < 2 ^ 31" using Cons.prems(2) by auto
    obtain s1 where s1: "rd (replicate (k * bsize) 0) b s
        = Some (int (k * bsize), load_blocks (content s) (unat b) k, s1)"
      "inv s1" "content s1 = content s"
      using read_ok [OF Cons.prems(1) fit(1) _ fit(2,3), of "replicate (k * bsize) 0"] by auto
    obtain s2 where "serve rd wr bsize rs s1 = Some (array_serve bsize rs (content s1), s2)" "inv s2"
      using Cons.IH [OF s1(2)] Cons.prems(2) by auto
    moreover have "length (load_blocks (content s) (unat b) k) = k * bsize"
      using length_content [OF Cons.prems(1)] fit by (intro length_load_blocks) auto
    ultimately show ?thesis using s1 ReadReq by (simp del: of_nat_mult)
  next
    case (WriteReq buf b)
    let ?k = "length buf div bsize"
    have fit: "0 < ?k" "unat b + ?k \<le> nblocks" and len: "length buf = ?k * bsize"
      and small: "?k * bsize < 2 ^ 31"
      using Cons.prems(2) WriteReq by (auto simp: mod_eq_0_iff_dvd)
    obtain s1 where s1: "wr buf b s = Some (int (?k * bsize), s1)" "inv s1"
      "\<forall>i < nblocks. content s1 i = store_blocks (content s) bsize (unat b) ?k buf i"
      using write_ok [OF Cons.prems(1) fit(1) len fit(2) small] by auto
    obtain s2 where s2: "serve rd wr bsize rs s1 = Some (array_serve bsize rs (content s1), s2)" "inv s2"
      using Cons.IH [OF s1(2)] Cons.prems(2) by auto
    have "array_serve bsize rs (content s1)
        = array_serve bsize rs (store_blocks (content s) bsize (unat b) ?k buf)"
      using s1(3) Cons.prems(2) by (intro array_serve_cong) auto
    then show ?thesis using s1(1) s2 WriteReq by (simp add: len [symmetric] del: of_nat_mult)
  qed
qed

end

section \<open>A device in memory\<close>

text \<open>The contract can be met: a list of blocks with the obvious driver. It serves the concrete
  runs of the theories that follow.\<close>

definition ram_read :: "nat \<Rightarrow> bytes list dev_read" where
  "ram_read bsize buf b s =
     (if unat b < length s \<and> unat b + length buf div bsize \<le> length s
      then Some (int (length buf), take (length buf) (concat (drop (unat b) s)), s)
      else Some (-1, buf, s))"

definition ram_write :: "nat \<Rightarrow> bytes list dev_write" where
  "ram_write bsize buf b s =
     (if unat b + length buf div bsize \<le> length s
      then Some (int (length buf), map (store_blocks ((!) s) bsize (unat b) (length buf div bsize) buf)
                                       [0..<length s])
      else Some (-1, s))"

definition ram_ok :: "nat \<Rightarrow> nat \<Rightarrow> bytes list \<Rightarrow> bool" where
  "ram_ok bsize n s \<longleftrightarrow> 0 < bsize \<and> n < 2 ^ 32 \<and> length s = n \<and> (\<forall>x \<in> set s. length x = bsize)"

lemma concat_drop_blocks:
  "\<forall>x \<in> set s. length x = n \<Longrightarrow> b + k \<le> length s \<Longrightarrow>
   take (k * n) (concat (drop b s)) = load_blocks ((!) s) b k"
proof (induction k arbitrary: b)
  case 0
  then show ?case by (simp add: load_blocks_def)
next
  case (Suc k)
  have b: "b < length s" using Suc.prems(2) by simp
  then have d: "drop b s = s ! b # drop (Suc b) s" by (simp add: Cons_nth_drop_Suc)
  have len: "length (s ! b) = n" using Suc.prems(1) b by simp
  have "take (k * n) (concat (drop (Suc b) s)) = load_blocks ((!) s) (Suc b) k"
    using Suc by (intro Suc.IH) auto
  then show ?case
    using len by (simp add: d load_blocks_def upt_conv_Cons del: upt_Suc)
qed

interpretation ram: block_store "ram_read bsize" "ram_write bsize" bsize n "ram_ok bsize n" "(!)"
  for bsize n
proof unfold_locales
  fix s assume inv: "ram_ok bsize n s"
  show "0 < bsize" "n < 2 ^ 32" using inv by (auto simp: ram_ok_def)
  fix i assume "i < n"
  then show "length (s ! i) = bsize" using inv by (auto simp: ram_ok_def)
next
  fix s :: "bytes list" and k and buf :: bytes and b :: u32
  assume inv: "ram_ok bsize n s" and k: "0 < k" "length buf = k * bsize" "unat b + k \<le> n"
    and small: "k * bsize < 2 ^ 31"
  have div: "length buf div bsize = k" using inv k by (simp add: ram_ok_def)
  show "\<exists>s'. ram_read bsize buf b s = Some (int (k * bsize), load_blocks ((!) s) (unat b) k, s')
      \<and> ram_ok bsize n s' \<and> (!) s' = (!) s"
    using inv k div concat_drop_blocks [of s bsize "unat b" k]
    by (simp add: ram_read_def ram_ok_def)
  have "length (store_blocks ((!) s) bsize (unat b) k buf i) = bsize" if "i < n" for i
    using that inv k slot_fits [of "i - unat b" k bsize "length buf"]
    by (auto simp: store_blocks_def ram_ok_def length_slice)
  then show "\<exists>s'. ram_write bsize buf b s = Some (int (k * bsize), s') \<and> ram_ok bsize n s' \<and>
      (\<forall>i<n. s' ! i = store_blocks ((!) s) bsize (unat b) k buf i)"
    using inv k div by (auto simp: ram_write_def ram_ok_def)
qed

section \<open>Properties\<close>

definition ram_dev :: "u32 \<Rightarrow> bytes list block_device" where
  "ram_dev bsize = \<lparr>driver_name = ''ram'', device_name = ''ram0'', device_id = [],
     supports_multiple_block_read = False, supports_multiple_block_write = False,
     dev_read = Some (ram_read (unat bsize)), dev_write = Some (ram_write (unat bsize)),
     block_size = bsize, num_blocks = 0\<rparr>"

text \<open>C10: Over a driver that stores blocks, \<open>block_write\<close> followed by \<open>block_read\<close> of the same
  whole blocks transfers every byte: both return the size of the request and the buffer that is
  read holds what was written, whether the requests reach the driver at once or block by block.\<close>

theorem block_write_then_read:
  assumes "block_store rd wr (unat (block_size dev)) n ok content"
    and "dev_read dev = Some rd" and "dev_write dev = Some wr" and "ok s"
    and "0 < k" and "length buf = k * unat (block_size dev)"
    and "length buf' = length buf" and "unat b + k \<le> n" and "length buf < 2 ^ 31"
  shows "\<exists>s1 s2. block_write dev buf b s = Some (of_nat (length buf), s1)
    \<and> block_read dev buf' b s1 = Some (of_nat (length buf), buf, s2) \<and> ok s2"
proof -
  let ?bs = "unat (block_size dev)"
  obtain s1 where s1: "block_write dev buf b s = Some (of_nat (k * ?bs), s1)" "ok s1"
    "\<forall>i < n. content s1 i = store_blocks (content s) ?bs (unat b) k buf i"
    using block_store.layer_write [OF assms(1,3) refl assms(4-6) assms(8)] assms(6,9) by auto
  obtain s2 where s2: "block_read dev buf' b s1
      = Some (of_nat (k * ?bs), load_blocks (content s1) (unat b) k, s2)" "ok s2"
    using block_store.layer_read [OF assms(1,2) refl s1(2) assms(5) _ assms(8)] assms(6,7,9) by auto
  have "load_blocks (content s1) (unat b) k
      = load_blocks (store_blocks (content s) ?bs (unat b) k buf) (unat b) k"
    using s1(3) assms(8) by (intro load_blocks_cong) auto
  also have "\<dots> = buf" by (rule load_store_blocks [OF assms(6)])
  finally show ?thesis using s1 s2 assms(6) by simp
qed

theorem block_write_then_read_witness:
  "\<exists>s1 s2. block_write (ram_dev 2) [5, 6, 7, 8] 1 [[0, 0], [1, 1], [2, 2]] = Some (4, s1)
    \<and> block_read (ram_dev 2) [0, 0, 0, 0] 1 s1 = Some (4, [5, 6, 7, 8], s2)"
proof -
  have "block_store (ram_read 2) (ram_write 2) (unat (block_size (ram_dev 2))) 3 (ram_ok 2 3) (!)"
    using ram.block_store_axioms [of 2 3] by (simp add: ram_dev_def)
  from block_write_then_read [OF this, where k = 2 and buf = "[5, 6, 7, 8]"
      and buf' = "[0, 0, 0, 0]" and s = "[[0, 0], [1, 1], [2, 2]]" and b = 1]
  show ?thesis by (auto simp: ram_dev_def ram_ok_def)
qed

text \<open>A block-by-block read that runs past the end of the device stops at the first block
  that does not exist: it returns the driver's negative value, as an unsigned number, the blocks
  that do exist are in the buffer and the bytes after them are unchanged.\<close>

theorem block_read_past_end:
  assumes "block_store rd wr (unat (block_size dev)) n ok content"
    and "dev_read dev = Some rd" and "\<not> supports_multiple_block_read dev"
    and "\<And>s chunk. ok s \<Longrightarrow> rd chunk (of_nat n) s = Some (ret, chunk, s)" and "ret < 0"
    and "ok s" and "unat b + j = n" and "j * unat (block_size dev) < length buf"
    and "length buf < 2 ^ 31"
  shows "\<exists>s'. block_read dev buf b s = Some (word_of_int ret,
      load_blocks (content s) (unat b) j @ drop (j * unat (block_size dev)) buf, s') \<and> ok s'"
  using block_store.loop_read_past_end [OF assms(1,4-8), of 0] assms(2,3,9)
  by (auto simp: block_read_def)

theorem block_read_past_end_witness:
  "\<exists>s'. block_read (ram_dev 2) [9, 9, 9, 9, 9, 9] 1 [[0, 0], [1, 1], [2, 2]]
    = Some (- 1, [1, 1, 2, 2, 9, 9], s')"
proof -
  have "block_store (ram_read 2) (ram_write 2) (unat (block_size (ram_dev 2))) 3 (ram_ok 2 3) (!)"
    using ram.block_store_axioms [of 2 3] by (simp add: ram_dev_def)
  from block_read_past_end [OF this, where ret = "-1" and b = 1 and j = 2
      and s = "[[0, 0], [1, 1], [2, 2]]" and buf = "[9, 9, 9, 9, 9, 9]"]
  show ?thesis by (auto simp: ram_dev_def ram_ok_def ram_read_def load_blocks_def)
qed

end
