(* ===== verification/Block_Cache.thy ===== *)
theory Block_Cache
  imports Block_Layer
begin

text \<open>
  The write-through block cache (\<open>rboot/block_cache.c\<close>). \<open>cache_dev\<close> is the part of
  \<open>struct cache_dev\<close> that is fixed by \<open>cache_init\<close>; \<open>cache_state\<close> is what the requests change:
  the tag array \<open>cached_blocks\<close>, the cache memory from \<open>cache_start\<close> on, \<open>errno\<close> and the state of
  the parent device. The main result is that a cache over a device that satisfies the driver
  contract satisfies the same contract with the same contents.
\<close>

section \<open>State\<close>

record 's cache_dev =
  cd_block_size :: u32
  cd_parent :: "'s block_device"
  cache_start :: u32
  cache_entries :: nat
  cache_mask :: u32

record 's cache_state =
  cached_blocks :: "u32 list"
  cache_mem :: bytes
  cache_errno :: "errno option"
  parent_state :: 's

section \<open>Operations\<close>

definition cache_idx :: "'s cache_dev \<Rightarrow> u32 \<Rightarrow> nat" where
  "cache_idx dev block_no = unat (block_no AND cache_mask dev)"

text \<open>
  A request larger than a block goes to the parent. Otherwise the line is filled from the parent
  unless its tag matches. The parent's return value becomes \<open>buf_size\<close>, an unsigned number, and
  that many bytes are copied to the caller: with a negative value, or one larger than the buffer,
  \<open>memcpy\<close> runs past both buffers.
\<close>

definition cache_read :: "'s cache_dev \<Rightarrow> 's cache_state dev_read" where
  "cache_read cd buf starting_block st =
     (if length buf > unat (cd_block_size cd) then
        (case dev_read (cd_parent cd) of
           None \<Rightarrow> None
         | Some rd \<Rightarrow> do {
             (ret, buf', ps) \<leftarrow> rd buf starting_block (parent_state st);
             Some (ret, buf', st\<lparr>parent_state := ps\<rparr>)
           })
      else
        (let idx = cache_idx cd starting_block;
             cache_buf = unat (cd_block_size cd) * idx
         in if cached_blocks st ! idx \<noteq> starting_block then
              (case dev_read (cd_parent cd) of
                 None \<Rightarrow> None
               | Some rd \<Rightarrow> do {
                   (bytes_read, line, ps) \<leftarrow>
                     rd (slice (cache_mem st) cache_buf (length buf)) starting_block (parent_state st);
                   let mem = splice (cache_mem st) cache_buf line;
                       tag = (if bytes_read = sint (cd_block_size cd) then starting_block
                              else 0xffffffff);
                       buf_size = unat (word_of_int bytes_read :: u32);
                       st' = st\<lparr>cached_blocks := (cached_blocks st)[idx := tag], cache_mem := mem,
                               parent_state := ps\<rparr>
                   in if buf_size > length buf then None
                      else Some (int buf_size, slice mem cache_buf buf_size @ drop buf_size buf, st')
                 })
            else Some (int (length buf), slice (cache_mem st) cache_buf (length buf), st)))"

text \<open>The \<open>for\<close> loop of \<open>cache_write\<close>, over the block indices of the request.\<close>

primrec cache_update ::
  "'s cache_dev \<Rightarrow> u32 \<Rightarrow> bytes \<Rightarrow> nat list \<Rightarrow> 's cache_state \<Rightarrow> 's cache_state option" where
  "cache_update cd starting_block buf [] st = Some st"
| "cache_update cd starting_block buf (i # is) st =
     (let idx = cache_idx cd (starting_block + of_nat i);
          bsize = unat (cd_block_size cd)
      in if cached_blocks st ! idx = starting_block + of_nat i then
           (if (i + 1) * bsize > length buf then None
            else cache_update cd starting_block buf is
                   (st\<lparr>cache_mem := splice (cache_mem st) (idx * bsize) (slice buf (i * bsize) bsize)\<rparr>))
         else cache_update cd starting_block buf is st)"

definition cache_write :: "'s cache_dev \<Rightarrow> 's cache_state dev_write" where
  "cache_write cd buf starting_block st =
     (if cd_block_size cd = 0 then None
      else if length buf mod unat (cd_block_size cd) \<noteq> 0 then
        Some (-1, st\<lparr>cache_errno := Some EFAULT\<rparr>)
      else case dev_write (cd_parent cd) of
        None \<Rightarrow> None
      | Some wr \<Rightarrow> do {
          (ret, ps) \<leftarrow> wr buf starting_block (parent_state st);
          let buf_size = word_of_int ret :: u32;
              block_count = sint (buf_size div cd_block_size cd)
          in do {
            st' \<leftarrow> cache_update cd starting_block buf [0..<nat block_count] (st\<lparr>parent_state := ps\<rparr>);
            Some (sint buf_size, st')
          }
        })"

text \<open>\<open>while(cache_entries >>= 1) lg2++;\<close>\<close>

fun log2_entries :: "nat \<Rightarrow> nat \<Rightarrow> nat" where
  "log2_entries entries lg2 =
     (if entries div 2 = 0 then lg2 else log2_entries (entries div 2) (Suc lg2))"

declare log2_entries.simps [simp del]

text \<open>
  \<open>oom\<close> says which of the three allocations (the structure, the name, the tag array) fail;
  \<open>dev = NULL\<close> is \<open>dev_null\<close>. \<open>mem\<close> is the memory of \<open>cache_length\<close> bytes at \<open>cache_start\<close>. On
  success the new device comes with the cache structure and the initial state over the
  parent's.
\<close>

definition cache_init ::
  "'s block_device option \<Rightarrow> bool \<Rightarrow> u32 \<Rightarrow> bytes \<Rightarrow> (nat \<Rightarrow> bool) \<Rightarrow> 's \<Rightarrow>
   (int \<times> ('s cache_state block_device \<times> 's cache_dev \<times> 's cache_state) option) option" where
  "cache_init parent_ptr dev_null start mem oom ps =
     (case parent_ptr of
        None \<Rightarrow> Some (-1, None)
      | Some parent \<Rightarrow>
          if dev_null then Some (-1, None)
          else if oom 0 then Some (-1, None)
          else if oom 1 then Some (-1, None)
          else if block_size parent = 0 then None
          else
            (let n = length mem div unat (block_size parent) in
             if n = 0 then Some (-1, None)
             else
               (let entries = 2 ^ log2_entries n 0;
                    cd = \<lparr>cd_block_size = block_size parent, cd_parent = parent,
                          cache_start = start, cache_entries = entries,
                          cache_mask = of_nat (entries - 1)\<rparr>
                in if oom 2 then Some (-1, None)
                   else Some (0, Some
                     (\<lparr>driver_name = ''block_cache'',
                       device_name = device_name parent @ '''',
                       device_id = [],
                       supports_multiple_block_read = supports_multiple_block_read parent,
                       supports_multiple_block_write = supports_multiple_block_write parent,
                       dev_read = map_option (\<lambda>_. cache_read cd) (dev_read parent),
                       dev_write = map_option (\<lambda>_. cache_write cd) (dev_write parent),
                       block_size = block_size parent,
                       num_blocks = num_blocks parent\<rparr>,
                      cd,
                      \<lparr>cached_blocks = replicate entries 0xffffffff, cache_mem = mem,
                       cache_errno = None, parent_state = ps\<rparr>)))))"

section \<open>The index of a block\<close>

lemma log2_entries_bounds:
  "0 < n \<Longrightarrow> 2 ^ log2_entries n k \<le> n * 2 ^ k \<and> n * 2 ^ k < 2 * 2 ^ log2_entries n k"
proof (induction n k rule: log2_entries.induct)
  case (1 n k)
  show ?case
  proof (cases "n div 2 = 0")
    case True
    with 1 have "n = 1" by auto
    with True show ?thesis by (simp add: log2_entries.simps)
  next
    case False
    let ?l = "log2_entries (n div 2) (Suc k)"
    have step: "log2_entries n k = ?l" using False by (subst log2_entries.simps) simp
    have IH: "2 ^ ?l \<le> (n div 2) * 2 ^ Suc k" "(n div 2) * 2 ^ Suc k < 2 * 2 ^ ?l"
      using 1 False by auto
    have "k < ?l"
    proof (rule ccontr)
      assume "\<not> k < ?l"
      then have "(2::nat) ^ ?l \<le> 2 ^ k" by simp
      moreover have "1 * 2 ^ k \<le> (n div 2) * 2 ^ k"
        using False by (intro mult_right_mono) auto
      moreover have "(n div 2) * 2 ^ k < 2 ^ ?l" using IH(2) by simp
      ultimately show False by linarith
    qed
    then obtain m where m: "?l = Suc k + m" using less_iff_Suc_add by auto
    then have "(n div 2) < 2 ^ Suc m"
      using IH(2) by (simp add: power_add)
    then have "n < 2 * 2 ^ Suc m" by auto
    moreover have "n * 2 ^ k < 2 * 2 ^ Suc m * 2 ^ k"
      using calculation by (intro mult_strict_right_mono) auto
    moreover have "2 ^ ?l \<le> n * 2 ^ k"
    proof -
      have "(n div 2) * 2 \<le> n" by simp
      then have "(n div 2) * 2 * 2 ^ k \<le> n * 2 ^ k" by (intro mult_right_mono) auto
      moreover have "(n div 2) * 2 * 2 ^ k = (n div 2) * 2 ^ Suc k" by simp
      ultimately show ?thesis using IH(1) by linarith
    qed
    ultimately show ?thesis using step m by (simp add: power_add)
  qed
qed

lemma mask_index:
  assumes "cache_mask cd = of_nat (2 ^ l - 1)" and "l < 32"
  shows "cache_idx cd b = unat b mod 2 ^ l"
proof -
  have "(of_nat (2 ^ l - 1) :: u32) = mask l"
    by (simp add: mask_eq_exp_minus_1 of_nat_diff)
  then have "b AND cache_mask cd = take_bit l b"
    using assms(1) by (simp add: take_bit_eq_mask)
  moreover have "unat (take_bit l b) = take_bit l (unat b)"
    by (simp add: unsigned_take_bit_eq)
  ultimately show ?thesis by (simp add: cache_idx_def) (simp add: take_bit_eq_mod)
qed

section \<open>Coherence\<close>

text \<open>
  The invariant: the shape fixed by \<open>cache_init\<close>, and every tag that is not the empty marker names
  a block of the device that belongs into its slot and whose line holds the parent's content.
  \<open>cache_inv\<close> carries the contract of the parent, so that the cache's own contract below is
  unconditional.
\<close>

definition line_of :: "'s cache_dev \<Rightarrow> 's cache_state \<Rightarrow> nat \<Rightarrow> bytes" where
  "line_of cd st j = slice (cache_mem st) (j * unat (cd_block_size cd)) (unat (cd_block_size cd))"

definition cache_shape :: "'s cache_dev \<Rightarrow> 's cache_state \<Rightarrow> bool" where
  "cache_shape cd st \<longleftrightarrow>
     (\<exists>l < 32. cache_entries cd = 2 ^ l \<and> cache_mask cd = of_nat (2 ^ l - 1)) \<and>
     length (cached_blocks st) = cache_entries cd \<and>
     cache_entries cd * unat (cd_block_size cd) \<le> length (cache_mem st)"

definition coherent :: "'s cache_dev \<Rightarrow> nat \<Rightarrow> (nat \<Rightarrow> bytes) \<Rightarrow> 's cache_state \<Rightarrow> bool" where
  "coherent cd n c st \<longleftrightarrow>
     (\<forall>j < cache_entries cd. cached_blocks st ! j \<noteq> 0xffffffff \<longrightarrow>
        unat (cached_blocks st ! j) < n \<and> cache_idx cd (cached_blocks st ! j) = j \<and>
        line_of cd st j = c (unat (cached_blocks st ! j)))"

definition parent_ok :: "'s cache_dev \<Rightarrow> nat \<Rightarrow> ('s \<Rightarrow> bool) \<Rightarrow> ('s \<Rightarrow> nat \<Rightarrow> bytes) \<Rightarrow> bool" where
  "parent_ok cd n pinv pcontent \<longleftrightarrow>
     (\<exists>rd wr. dev_read (cd_parent cd) = Some rd \<and> dev_write (cd_parent cd) = Some wr \<and>
        block_store rd wr (unat (cd_block_size cd)) n pinv pcontent)"

definition cache_inv ::
  "'s cache_dev \<Rightarrow> nat \<Rightarrow> ('s \<Rightarrow> bool) \<Rightarrow> ('s \<Rightarrow> nat \<Rightarrow> bytes) \<Rightarrow> 's cache_state \<Rightarrow> bool" where
  "cache_inv cd n pinv pcontent st \<longleftrightarrow>
     parent_ok cd n pinv pcontent \<and> unat (cd_block_size cd) < 2 ^ 31 \<and> pinv (parent_state st) \<and>
     cache_shape cd st \<and> coherent cd n (pcontent (parent_state st)) st"

lemma line_of_parent [simp]: "line_of cd (st\<lparr>parent_state := ps\<rparr>) j = line_of cd st j"
  by (simp add: line_of_def)

lemma cache_shape_idx:
  assumes "cache_shape cd st"
  shows "cache_idx cd b < cache_entries cd"
    and "cache_idx cd b < length (cached_blocks st)"
    and "cache_idx cd b * unat (cd_block_size cd) + unat (cd_block_size cd) \<le> length (cache_mem st)"
proof -
  obtain l where l: "l < 32" "cache_entries cd = 2 ^ l" "cache_mask cd = of_nat (2 ^ l - 1)"
    using assms by (auto simp: cache_shape_def)
  have "cache_idx cd b = unat b mod 2 ^ l" by (rule mask_index [OF l(3) l(1)])
  then show idx: "cache_idx cd b < cache_entries cd" using l by simp
  then show "cache_idx cd b < length (cached_blocks st)" using assms by (simp add: cache_shape_def)
  show "cache_idx cd b * unat (cd_block_size cd) + unat (cd_block_size cd) \<le> length (cache_mem st)"
    using assms by (intro slot_fits [OF idx]) (simp add: cache_shape_def)
qed

section \<open>Reading\<close>

lemma coherent_line:
  assumes "coherent cd n c st" and "j < cache_entries cd" and "cached_blocks st ! j \<noteq> 0xffffffff"
  shows "line_of cd st j = c (unat (cached_blocks st ! j))"
    and "unat (cached_blocks st ! j) < n"
    and "cache_idx cd (cached_blocks st ! j) = j"
  using assms by (auto simp: coherent_def)

text \<open>Replacing one line and its tag keeps the invariant when the line is the tag's block.\<close>

lemma coherent_fill:
  assumes "coherent cd n c st" and "cache_shape cd st"
    and "cache_idx cd b = idx" and "unat b < n" and "length line = unat (cd_block_size cd)"
    and "line = c (unat b)"
  shows "coherent cd n c (st\<lparr>cached_blocks := (cached_blocks st)[idx := b],
      cache_mem := splice (cache_mem st) (unat (cd_block_size cd) * idx) line, parent_state := ps\<rparr>)"
    (is "coherent cd n c ?st")
proof -
  let ?bs = "unat (cd_block_size cd)"
  have len: "length (cached_blocks st) = cache_entries cd"
    "cache_entries cd * ?bs \<le> length (cache_mem st)"
    using assms(2) by (auto simp: cache_shape_def)
  have fits: "idx * ?bs + ?bs \<le> length (cache_mem st)"
    using cache_shape_idx(3) [OF assms(2), of b] assms(3) by simp
  have "unat (cached_blocks ?st ! j) < n \<and> cache_idx cd (cached_blocks ?st ! j) = j \<and>
      line_of cd ?st j = c (unat (cached_blocks ?st ! j))"
    if j: "j < cache_entries cd" and tag: "cached_blocks ?st ! j \<noteq> 0xffffffff" for j
  proof (cases "j = idx")
    case True
    have "slice (splice (cache_mem st) (idx * ?bs) line) (idx * ?bs) (length line) = line"
      using fits assms(5) by (intro slice_splice_same) simp
    then show ?thesis
      using True assms j len by (simp add: line_of_def mult.commute)
  next
    case False
    have jfits: "j * ?bs + ?bs \<le> length (cache_mem st)" by (rule slot_fits [OF j len(2)])
    have "j * ?bs + ?bs \<le> idx * ?bs \<or> idx * ?bs + ?bs \<le> j * ?bs"
      by (rule slots_disjoint [OF False])
    then have "line_of cd ?st j = line_of cd st j"
      using fits jfits assms(5)
      by (simp add: line_of_def mult.commute slice_splice_disjoint)
    then show ?thesis
      using False j tag coherent_line [OF assms(1) j] by simp
  qed
  then show ?thesis by (simp add: coherent_def)
qed

lemma cache_shape_fill:
  "cache_shape cd st \<Longrightarrow> cache_idx cd b = idx \<Longrightarrow> length line = unat (cd_block_size cd) \<Longrightarrow>
   cache_shape cd (st\<lparr>cached_blocks := (cached_blocks st)[idx := t],
      cache_mem := splice (cache_mem st) (unat (cd_block_size cd) * idx) line, parent_state := ps\<rparr>)"
  using cache_shape_idx(3) [of cd st b] by (simp add: cache_shape_def length_splice mult.commute)

lemma cache_read_one:
  assumes inv: "cache_inv cd n pinv pcontent st"
    and buf: "length buf = unat (cd_block_size cd)" and b: "unat b < n"
  shows "\<exists>st'. cache_read cd buf b st
      = Some (int (unat (cd_block_size cd)), pcontent (parent_state st) (unat b), st')
    \<and> cache_inv cd n pinv pcontent st' \<and> pcontent (parent_state st') = pcontent (parent_state st)
    \<and> cached_blocks st' ! cache_idx cd b = b"
proof -
  let ?bs = "unat (cd_block_size cd)" and ?idx = "cache_idx cd b" and ?c = "pcontent (parent_state st)"
  obtain rd wr where par: "dev_read (cd_parent cd) = Some rd"
    and store: "block_store rd wr ?bs n pinv pcontent"
    using inv by (auto simp: cache_inv_def parent_ok_def)
  have pin: "pinv (parent_state st)" and shape: "cache_shape cd st" and coh: "coherent cd n ?c st"
    and small: "?bs < 2 ^ 31"
    using inv by (auto simp: cache_inv_def)
  note idx = cache_shape_idx [OF shape, of b]
  have pos: "0 < ?bs" and n32: "n < 2 ^ 32"
    using block_store.bsize_pos [OF store pin] block_store.nblocks_bound [OF store pin] by auto
  have nomark: "b \<noteq> 0xffffffff" using b n32 by auto
  show ?thesis
  proof (cases "cached_blocks st ! ?idx = b")
    case True
    then have "line_of cd st ?idx = ?c (unat b)"
      using coherent_line(1) [OF coh idx(1)] nomark by simp
    then show ?thesis
      using True buf inv by (simp add: cache_read_def Let_def line_of_def mult.commute)
  next
    case False
    let ?old = "slice (cache_mem st) (?bs * ?idx) ?bs"
    have "length ?old = 1 * ?bs" using idx(3) by (simp add: length_slice mult.commute)
    then obtain ps where ps: "rd ?old b (parent_state st) = Some (int ?bs, ?c (unat b), ps)"
      "pinv ps" "pcontent ps = ?c"
      using block_store.read_ok [OF store pin, of 1 ?old b] b small
      by (auto simp: load_blocks_def)
    have clen: "length (?c (unat b)) = ?bs"
      by (rule block_store.length_content [OF store pin b])
    let ?st = "st\<lparr>cached_blocks := (cached_blocks st)[?idx := b],
      cache_mem := splice (cache_mem st) (?bs * ?idx) (?c (unat b)), parent_state := ps\<rparr>"
    have sbs: "sint (cd_block_size cd) = int ?bs"
      using small by (rule sint_small)
    have "slice (splice (cache_mem st) (?bs * ?idx) (?c (unat b))) (?bs * ?idx) ?bs = ?c (unat b)"
      using slice_splice_same [of "?bs * ?idx" "?c (unat b)" "cache_mem st"] idx(3) clen
      by (simp add: mult.commute)
    then have run: "cache_read cd buf b st = Some (int ?bs, ?c (unat b), ?st)"
      using False par ps buf small sbs by (simp add: cache_read_def Let_def word_nat_simps)
    have "coherent cd n ?c ?st"
      using coherent_fill [OF coh shape refl b clen refl] by simp
    moreover have "cache_shape cd ?st"
      using cache_shape_fill [OF shape refl clen] by simp
    ultimately have "cache_inv cd n pinv pcontent ?st"
      using inv ps by (simp add: cache_inv_def)
    with run ps(3) idx(2) show ?thesis by simp
  qed
qed

lemma cache_read_blocks:
  assumes inv: "cache_inv cd n pinv pcontent st" and k: "0 < k"
    and buf: "length buf = k * unat (cd_block_size cd)" and b: "unat b + k \<le> n"
    and small: "k * unat (cd_block_size cd) < 2 ^ 31"
  shows "\<exists>st'. cache_read cd buf b st
      = Some (int (k * unat (cd_block_size cd)), load_blocks (pcontent (parent_state st)) (unat b) k, st')
    \<and> cache_inv cd n pinv pcontent st' \<and> pcontent (parent_state st') = pcontent (parent_state st)"
proof (cases "k = 1")
  case True
  then show ?thesis
    using cache_read_one [OF inv, of buf b] buf b by (force simp: load_blocks_def)
next
  case False
  obtain rd wr where par: "dev_read (cd_parent cd) = Some rd"
    and store: "block_store rd wr (unat (cd_block_size cd)) n pinv pcontent"
    using inv by (auto simp: cache_inv_def parent_ok_def)
  have pin: "pinv (parent_state st)" using inv by (simp add: cache_inv_def)
  have "1 * unat (cd_block_size cd) < k * unat (cd_block_size cd)"
    using False k block_store.bsize_pos [OF store pin] by (intro mult_strict_right_mono) auto
  then have "length buf > unat (cd_block_size cd)" using buf by simp
  moreover obtain ps where "rd buf b (parent_state st)
      = Some (int (k * unat (cd_block_size cd)), load_blocks (pcontent (parent_state st)) (unat b) k, ps)"
    "pinv ps" "pcontent ps = pcontent (parent_state st)"
    using block_store.read_ok [OF store pin k buf b small] by auto
  ultimately show ?thesis
    using inv par by (simp add: cache_read_def cache_inv_def cache_shape_def coherent_def line_of_def)
qed

section \<open>Writing\<close>

lemma cache_update_ok:
  assumes "cache_shape cd st" and "\<forall>i \<in> set is. i < k" and "distinct is"
    and "length buf = k * unat (cd_block_size cd)" and "unat b + k < 2 ^ 32"
    and "\<forall>j < cache_entries cd. cached_blocks st ! j \<noteq> 0xffffffff \<longrightarrow>
           cache_idx cd (cached_blocks st ! j) = j"
  shows "\<exists>st'. cache_update cd b buf is st = Some st' \<and> cached_blocks st' = cached_blocks st \<and>
      parent_state st' = parent_state st \<and> cache_shape cd st' \<and>
      (\<forall>j < cache_entries cd. line_of cd st' j =
         (if \<exists>i \<in> set is. cached_blocks st ! j = b + of_nat i
          then slice buf ((unat (cached_blocks st ! j) - unat b) * unat (cd_block_size cd))
                 (unat (cd_block_size cd))
          else line_of cd st j))"
  using assms
proof (induction "is" arbitrary: st)
  case Nil
  then show ?case by simp
next
  case (Cons i "is")
  let ?bs = "unat (cd_block_size cd)" and ?idx = "cache_idx cd (b + of_nat i)"
  have i: "i < k" and un: "unat (b + of_nat i) = unat b + i"
    using Cons.prems(2,5) by (auto simp: word_nat_simps)
  have slot: "j = ?idx" if "j < cache_entries cd" "cached_blocks st ! j = b + of_nat i" for j
  proof -
    have "unat (cached_blocks st ! j) \<noteq> unat (0xffffffff :: u32)"
      using that un i Cons.prems(5) by simp
    then show ?thesis using Cons.prems(6) that by auto
  qed
  show ?case
  proof (cases "cached_blocks st ! ?idx = b + of_nat i")
    case False
    then show ?thesis
      using slot Cons.IH [OF Cons.prems(1)] Cons.prems by auto
  next
    case True
    note idx = cache_shape_idx [OF Cons.prems(1), of "b + of_nat i"]
    let ?line = "slice buf (i * ?bs) ?bs"
    have "Suc i * ?bs \<le> k * ?bs" using i by (intro mult_right_mono) auto
    then have ok: "(i + 1) * ?bs \<le> length buf" using Cons.prems(4) by simp
    then have llen: "length ?line = ?bs" by (simp add: length_slice add.commute)
    let ?st = "st\<lparr>cache_mem := splice (cache_mem st) (?idx * ?bs) ?line\<rparr>"
    have shape: "cache_shape cd ?st"
      using Cons.prems(1) idx(3) llen by (simp add: cache_shape_def length_splice)
    have lines: "line_of cd ?st j = (if j = ?idx then ?line else line_of cd st j)"
      if "j < cache_entries cd" for j
    proof (cases "j = ?idx")
      case True
      then show ?thesis
        using slice_splice_same [of "?idx * ?bs" ?line "cache_mem st"] idx(3) llen
        by (simp add: line_of_def)
    next
      case False
      have "j * ?bs + ?bs \<le> length (cache_mem st)"
        using Cons.prems(1) by (intro slot_fits [OF that]) (simp add: cache_shape_def)
      moreover have "j * ?bs + ?bs \<le> ?idx * ?bs \<or> ?idx * ?bs + ?bs \<le> j * ?bs"
        by (rule slots_disjoint [OF False])
      ultimately show ?thesis
        using False idx(3) llen by (simp add: line_of_def slice_splice_disjoint)
    qed
    obtain st' where st': "cache_update cd b buf is ?st = Some st'"
      "cached_blocks st' = cached_blocks st" "parent_state st' = parent_state st"
      "cache_shape cd st'"
      "\<forall>j < cache_entries cd. line_of cd st' j =
         (if \<exists>i \<in> set is. cached_blocks st ! j = b + of_nat i
          then slice buf ((unat (cached_blocks st ! j) - unat b) * ?bs) ?bs
          else line_of cd ?st j)"
      using Cons.IH [OF shape] Cons.prems by auto
    have "line_of cd st' j =
        (if \<exists>i \<in> set (i # is). cached_blocks st ! j = b + of_nat i
         then slice buf ((unat (cached_blocks st ! j) - unat b) * ?bs) ?bs
         else line_of cd st j)" if j: "j < cache_entries cd" for j
    proof (cases "j = ?idx")
      case True
      then have "cached_blocks st ! j = b + of_nat i" using \<open>cached_blocks st ! ?idx = _\<close> by simp
      then show ?thesis using st'(5) lines j True un by auto
    next
      case False
      then have "cached_blocks st ! j \<noteq> b + of_nat i" using slot [OF j] by blast
      then show ?thesis using st'(5) lines j False by simp
    qed
    then show ?thesis using st' True ok by (simp add: Let_def)
  qed
qed

lemma cache_write_blocks:
  assumes inv: "cache_inv cd n pinv pcontent st" and k: "0 < k"
    and buf: "length buf = k * unat (cd_block_size cd)" and b: "unat b + k \<le> n"
    and small: "k * unat (cd_block_size cd) < 2 ^ 31"
  shows "\<exists>st'. cache_write cd buf b st = Some (int (k * unat (cd_block_size cd)), st')
    \<and> cache_inv cd n pinv pcontent st'
    \<and> (\<forall>i < n. pcontent (parent_state st') i
        = store_blocks (pcontent (parent_state st)) (unat (cd_block_size cd)) (unat b) k buf i)"
proof -
  let ?bs = "unat (cd_block_size cd)" and ?c = "pcontent (parent_state st)"
  obtain rd wr where par: "dev_write (cd_parent cd) = Some wr"
    and store: "block_store rd wr ?bs n pinv pcontent"
    using inv by (auto simp: cache_inv_def parent_ok_def)
  have pin: "pinv (parent_state st)" and shape: "cache_shape cd st" and coh: "coherent cd n ?c st"
    using inv by (auto simp: cache_inv_def)
  have pos: "0 < ?bs" and n32: "n < 2 ^ 32"
    using block_store.bsize_pos [OF store pin] block_store.nblocks_bound [OF store pin] by auto
  obtain ps where ps: "wr buf b (parent_state st) = Some (int (k * ?bs), ps)" "pinv ps"
    "\<forall>i < n. pcontent ps i = store_blocks ?c ?bs (unat b) k buf i"
    using block_store.write_ok [OF store pin k buf b small] by auto
  define m where "m = k * ?bs"
  define w :: u32 where "w = word_of_int (int m)"
  have uw: "unat w = k * ?bs"
    unfolding w_def m_def using small by (intro unat_word_of_int_nat) simp
  then have sw: "sint w = int (k * ?bs)" using small by (simp add: sint_small)
  have "unat (w div cd_block_size cd) = k" using uw pos by (simp add: unat_div)
  moreover have "k < 2 ^ 31"
  proof -
    have "k * 1 \<le> k * ?bs" using pos by (intro mult_left_mono) auto
    then have "k \<le> k * ?bs" by (simp only: mult_1_right)
    with small show ?thesis by linarith
  qed
  ultimately have count: "nat (sint (w div cd_block_size cd)) = k" by (simp add: sint_small)
  let ?st = "st\<lparr>parent_state := ps\<rparr>"
  have shape': "cache_shape cd ?st" using shape by (simp add: cache_shape_def)
  have tags: "\<forall>j < cache_entries cd. cached_blocks ?st ! j \<noteq> 0xffffffff \<longrightarrow>
      cache_idx cd (cached_blocks ?st ! j) = j"
    using coh by (simp add: coherent_def)
  obtain st' where st': "cache_update cd b buf [0..<k] ?st = Some st'"
    "cached_blocks st' = cached_blocks st" "parent_state st' = ps" "cache_shape cd st'"
    "\<forall>j < cache_entries cd. line_of cd st' j =
       (if \<exists>i \<in> {0..<k}. cached_blocks st ! j = b + of_nat i
        then slice buf ((unat (cached_blocks st ! j) - unat b) * ?bs) ?bs
        else line_of cd st j)"
    using cache_update_ok [OF shape' _ _ buf _ tags, of "[0..<k]" b] b n32 by (auto cong: if_cong)
  have "unat (cached_blocks st' ! j) < n \<and> cache_idx cd (cached_blocks st' ! j) = j \<and>
      line_of cd st' j = pcontent ps (unat (cached_blocks st' ! j))"
    if j: "j < cache_entries cd" and tag: "cached_blocks st' ! j \<noteq> 0xffffffff" for j
  proof -
    let ?t = "cached_blocks st ! j"
    have old: "unat ?t < n" "cache_idx cd ?t = j" "line_of cd st j = ?c (unat ?t)"
      using coherent_line [OF coh j] tag st'(2) by auto
    have "(\<exists>i \<in> {0..<k}. ?t = b + of_nat i) \<longleftrightarrow> unat b \<le> unat ?t \<and> unat ?t < unat b + k"
    proof
      assume "\<exists>i \<in> {0..<k}. ?t = b + of_nat i"
      then obtain i where "i < k" "?t = b + of_nat i" by auto
      then show "unat b \<le> unat ?t \<and> unat ?t < unat b + k" using b n32 by (simp add: word_nat_simps)
    next
      assume r: "unat b \<le> unat ?t \<and> unat ?t < unat b + k"
      then have "?t = b + of_nat (unat ?t - unat b)" by (simp add: of_nat_diff)
      then show "\<exists>i \<in> {0..<k}. ?t = b + of_nat i"
        using r by (intro bexI [of _ "unat ?t - unat b"]) auto
    qed
    then show ?thesis using st'(2,5) ps(3) old j by (simp add: store_blocks_def)
  qed
  then have "cache_inv cd n pinv pcontent st'"
    using inv st' ps(2) by (simp add: cache_inv_def coherent_def)
  moreover have "cache_write cd buf b st = Some (int m, st')"
  proof -
    have "wr buf b (parent_state st) = Some (int m, ps)" "sint w = int m" "length buf mod ?bs = 0"
      using ps(1) sw buf by (simp_all add: m_def)
    moreover have "cd_block_size cd \<noteq> 0" using pos by auto
    ultimately show ?thesis
      using par st'(1) count unfolding cache_write_def Let_def w_def by simp
  qed
  ultimately show ?thesis using ps(3) st'(3) by (auto simp: m_def)
qed

section \<open>The cache satisfies the driver contract\<close>

interpretation cache: block_store "cache_read cd" "cache_write cd" "unat (cd_block_size cd)" n
  "cache_inv cd n pinv pcontent" "\<lambda>st. pcontent (parent_state st)"
  for cd n pinv pcontent
proof unfold_locales
  fix st assume inv: "cache_inv cd n pinv pcontent st"
  then obtain rd wr where store: "block_store rd wr (unat (cd_block_size cd)) n pinv pcontent"
    and pin: "pinv (parent_state st)"
    by (auto simp: cache_inv_def parent_ok_def)
  show "0 < unat (cd_block_size cd)" by (rule block_store.bsize_pos [OF store pin])
  show "n < 2 ^ 32" by (rule block_store.nblocks_bound [OF store pin])
  fix i assume "i < n"
  then show "length (pcontent (parent_state st) i) = unat (cd_block_size cd)"
    by (rule block_store.length_content [OF store pin])
next
  fix st :: "'a cache_state" and k and buf :: bytes and b :: u32
  assume "cache_inv cd n pinv pcontent st" "0 < k" "length buf = k * unat (cd_block_size cd)"
    "unat b + k \<le> n" "k * unat (cd_block_size cd) < 2 ^ 31"
  note all = this
  show "\<exists>s'. cache_read cd buf b st = Some (int (k * unat (cd_block_size cd)),
      load_blocks (pcontent (parent_state st)) (unat b) k, s')
    \<and> cache_inv cd n pinv pcontent s' \<and> pcontent (parent_state s') = pcontent (parent_state st)"
    by (rule cache_read_blocks [OF all])
  show "\<exists>s'. cache_write cd buf b st = Some (int (k * unat (cd_block_size cd)), s')
    \<and> cache_inv cd n pinv pcontent s' \<and> (\<forall>i<n. pcontent (parent_state s') i =
      store_blocks (pcontent (parent_state st)) (unat (cd_block_size cd)) (unat b) k buf i)"
    by (rule cache_write_blocks [OF all])
qed

section \<open>Initialisation\<close>

text \<open>A cache over a lawful parent starts in the invariant: all its tags are the empty marker.\<close>

lemma cache_init_result:
  assumes "cache_init (Some parent) dev_null start mem oom ps = Some (0, Some (dev, cd, st))"
  shows "0 < length mem div unat (block_size parent)"
    and "cd = \<lparr>cd_block_size = block_size parent, cd_parent = parent, cache_start = start,
      cache_entries = 2 ^ log2_entries (length mem div unat (block_size parent)) 0,
      cache_mask = of_nat (2 ^ log2_entries (length mem div unat (block_size parent)) 0 - 1)\<rparr>"
    and "st = \<lparr>cached_blocks = replicate (cache_entries cd) 0xffffffff, cache_mem = mem,
      cache_errno = None, parent_state = ps\<rparr>"
    and "dev_read dev = map_option (\<lambda>_. cache_read cd) (dev_read parent)"
    and "dev_write dev = map_option (\<lambda>_. cache_write cd) (dev_write parent)"
    and "block_size dev = block_size parent \<and> num_blocks dev = num_blocks parent"
  using assms by (auto simp: cache_init_def Let_def split: if_splits)

lemma cache_init_bounds:
  assumes "cache_init (Some parent) dev_null start mem oom ps = Some (0, Some (dev, cd, st))"
    and "length mem < 2 ^ 32"
  shows "\<exists>l < 32. cache_entries cd = 2 ^ l"
    and "cache_entries cd * unat (block_size parent) \<le> length mem"
    and "length mem div unat (block_size parent) < 2 * cache_entries cd"
proof -
  let ?n = "length mem div unat (block_size parent)"
  note res = cache_init_result [OF assms(1)]
  have ent: "cache_entries cd = 2 ^ log2_entries ?n 0" using res(2) by simp
  have lg: "2 ^ log2_entries ?n 0 \<le> ?n" "?n < 2 * 2 ^ log2_entries ?n 0"
    using log2_entries_bounds [OF res(1), of 0] by auto
  have "?n \<le> length mem" by (rule div_le_dividend)
  then have "(2::nat) ^ log2_entries ?n 0 < 2 ^ 32" using lg assms(2) by linarith
  then have "log2_entries ?n 0 < 32" by (simp only: power_strict_increasing_iff)
  with ent show "\<exists>l < 32. cache_entries cd = 2 ^ l" by blast
  show "?n < 2 * cache_entries cd" using lg ent by simp
  have "2 ^ log2_entries ?n 0 * unat (block_size parent) \<le> ?n * unat (block_size parent)"
    using lg by (intro mult_right_mono) auto
  also have "\<dots> \<le> length mem" by (rule div_times_less_eq_dividend)
  finally show "cache_entries cd * unat (block_size parent) \<le> length mem" using ent by simp
qed

lemma cache_init_inv:
  assumes init: "cache_init (Some parent) dev_null start mem oom ps = Some (0, Some (dev, cd, st))"
    and mem: "length mem < 2 ^ 32" and bs: "unat (block_size parent) < 2 ^ 31"
    and par: "dev_read parent = Some rd" "dev_write parent = Some wr"
    and store: "block_store rd wr (unat (block_size parent)) n pinv pcontent" and ps: "pinv ps"
  shows "cache_inv cd n pinv pcontent st"
proof -
  note res = cache_init_result [OF init] and bounds = cache_init_bounds [OF init mem]
  have shape: "cache_shape cd st"
    using res(2,3) bounds by (auto simp: cache_shape_def)
  have par: "parent_ok cd n pinv pcontent"
    using res(2) par store by (auto simp: parent_ok_def)
  show ?thesis
    using shape par res(2,3) bs ps by (simp add: cache_inv_def coherent_def)
qed

section \<open>Properties\<close>

text \<open>A concrete cache of two lines of two bytes over a device of four blocks, for the witnesses.\<close>

definition demo_disk :: "bytes list" where
  "demo_disk = [[0, 1], [2, 3], [4, 5], [6, 7]]"

definition demo_parent :: "bytes list block_device" where
  "demo_parent = \<lparr>driver_name = ''ram'', device_name = ''ram0'', device_id = [],
     supports_multiple_block_read = True, supports_multiple_block_write = True,
     dev_read = Some (ram_read 2), dev_write = Some (ram_write 2), block_size = 2, num_blocks = 4\<rparr>"

definition demo_cd :: "bytes list cache_dev" where
  "demo_cd = \<lparr>cd_block_size = 2, cd_parent = demo_parent, cache_start = 0, cache_entries = 2,
     cache_mask = 1\<rparr>"

definition demo_st :: "bytes list cache_state" where
  "demo_st = \<lparr>cached_blocks = [0xffffffff, 0xffffffff], cache_mem = [9, 9, 9, 9, 9],
     cache_errno = None, parent_state = demo_disk\<rparr>"

lemma demo_store: "block_store (ram_read 2) (ram_write 2) (unat (2 :: u32)) 4 (ram_ok 2 4) (!)"
  using ram.block_store_axioms [of 2 4] by simp

lemma demo_ok: "ram_ok 2 4 demo_disk"
  by (simp add: ram_ok_def demo_disk_def)

lemma demo_log2: "log2_entries (Suc (Suc 0)) 0 = Suc 0"
  by (simp add: log2_entries.simps)

lemma replicate_two: "replicate 2 x = [x, x]"
  by (simp add: numeral_2_eq_2)

lemma demo_init:
  "\<exists>dev. cache_init (Some demo_parent) False 0 [9, 9, 9, 9, 9] (\<lambda>_. False) demo_disk
     = Some (0, Some (dev, demo_cd, demo_st))"
  by (simp add: cache_init_def demo_parent_def demo_cd_def demo_st_def demo_log2 Let_def
      replicate_two)

lemma demo_inv: "cache_inv demo_cd 4 (ram_ok 2 4) (!) demo_st"
proof -
  obtain dev where "cache_init (Some demo_parent) False 0 [9, 9, 9, 9, 9] (\<lambda>_. False) demo_disk
     = Some (0, Some (dev, demo_cd, demo_st))"
    using demo_init by auto
  then show ?thesis
    using demo_store demo_ok by (rule_tac cache_init_inv) (auto simp: demo_parent_def)
qed

text \<open>C4: The cache is transparent. Over a parent that stores blocks, any sequence of reads and
  writes of whole blocks (of any number of blocks each, hits and misses, evictions included) is
  answered by \<open>cache_read\<close> and \<open>cache_write\<close> exactly as an array holding the parent's blocks
  answers it, and the cache is coherent afterwards.\<close>

theorem cache_refines_array:
  assumes "cache_inv cd n pinv pcontent st"
    and "\<forall>r \<in> set rs. fits (unat (cd_block_size cd)) n r"
  shows "\<exists>st'. serve (cache_read cd) (cache_write cd) (unat (cd_block_size cd)) rs st
      = Some (array_serve (unat (cd_block_size cd)) rs (pcontent (parent_state st)), st')
    \<and> cache_inv cd n pinv pcontent st'"
  using assms by (rule cache.serve_refines_array)

theorem cache_refines_array_witness:
  "\<exists>st'. serve (cache_read demo_cd) (cache_write demo_cd) 2
      [ReadReq 1 0, WriteReq [8, 8] 2, ReadReq 1 2, ReadReq 3 0] demo_st
    = Some ([[0, 1], [8, 8], [8, 8], [0, 1, 2, 3, 8, 8]], st')"
proof -
  let ?rs = "[ReadReq 1 0, WriteReq [8, 8] 2, ReadReq 1 2, ReadReq 3 0]"
  have bs: "unat (cd_block_size demo_cd) = 2" by (simp add: demo_cd_def)
  have "\<forall>r \<in> set ?rs. fits (unat (cd_block_size demo_cd)) 4 r" by (simp add: bs)
  moreover have "array_serve 2 ?rs ((!) demo_disk) = [[0, 1], [8, 8], [8, 8], [0, 1, 2, 3, 8, 8]]"
    by code_simp
  moreover have "parent_state demo_st = demo_disk" by (simp add: demo_st_def)
  ultimately show ?thesis
    using cache_refines_array [OF demo_inv, of ?rs] by (auto simp only: bs)
qed

text \<open>C5: \<open>cache_init\<close> over such a parent gives a device whose read and write functions are the
  cache's, with the parent's geometry, in a state that satisfies the invariant; the number of
  lines is a power of two, the lines fit into the cache memory, and they use more than half of
  the blocks that fit into it.\<close>

theorem cache_init_establishes:
  assumes "cache_init (Some parent) dev_null start mem oom ps = Some (0, Some (dev, cd, st))"
    and "length mem < 2 ^ 32" and "unat (block_size parent) < 2 ^ 31"
    and "dev_read parent = Some rd" and "dev_write parent = Some wr"
    and "block_store rd wr (unat (block_size parent)) n pinv pcontent" and "pinv ps"
  shows "cache_inv cd n pinv pcontent st \<and> parent_state st = ps
    \<and> dev_read dev = Some (cache_read cd) \<and> dev_write dev = Some (cache_write cd)
    \<and> block_size dev = block_size parent \<and> num_blocks dev = num_blocks parent
    \<and> (\<exists>l < 32. cache_entries cd = 2 ^ l)
    \<and> cache_entries cd * unat (block_size parent) \<le> length mem
    \<and> length mem div unat (block_size parent) < 2 * cache_entries cd"
  using cache_init_inv [OF assms] cache_init_bounds [OF assms(1,2)] cache_init_result [OF assms(1)]
    assms(4,5)
  by simp

theorem cache_init_establishes_witness:
  "\<exists>dev cd st. cache_init (Some demo_parent) False 0 [9, 9, 9, 9, 9] (\<lambda>_. False) demo_disk
     = Some (0, Some (dev, cd, st)) \<and> cache_inv cd 4 (ram_ok 2 4) (!) st"
proof -
  obtain dev where init: "cache_init (Some demo_parent) False 0 [9, 9, 9, 9, 9] (\<lambda>_. False) demo_disk
     = Some (0, Some (dev, demo_cd, demo_st))"
    using demo_init by auto
  have "cache_inv demo_cd 4 (ram_ok 2 4) (!) demo_st"
    using cache_init_establishes [OF init, of "ram_read 2" "ram_write 2" 4 "ram_ok 2 4" "(!)"]
      demo_store demo_ok
    by (simp add: demo_parent_def)
  with init show ?thesis by blast
qed

text \<open>A block just read is served from the cache: a second read of it returns the same
  bytes and changes nothing, in particular it does not reach the parent device.\<close>

theorem cache_second_read_hits:
  assumes "cache_inv cd n pinv pcontent st" and "length buf = unat (cd_block_size cd)"
    and "length buf' = unat (cd_block_size cd)" and "unat b < n"
  shows "\<exists>st'. cache_read cd buf b st = Some (int (length buf), pcontent (parent_state st) (unat b), st')
    \<and> cache_read cd buf' b st' = Some (int (length buf), pcontent (parent_state st) (unat b), st')"
proof -
  obtain st' where st': "cache_read cd buf b st
      = Some (int (length buf), pcontent (parent_state st) (unat b), st')"
    "cache_inv cd n pinv pcontent st'"
    "pcontent (parent_state st') = pcontent (parent_state st)"
    "cached_blocks st' ! cache_idx cd b = b"
    using cache_read_one [OF assms(1,2,4)] assms(2) by auto
  note tag = st'(4)
  have "cache_shape cd st'" and "n < 2 ^ 32"
    using st'(2) block_store.nblocks_bound by (fastforce simp: cache_inv_def parent_ok_def)+
  then have "cache_idx cd b < cache_entries cd" and "b \<noteq> 0xffffffff"
    using cache_shape_idx(1) assms(4) by auto
  with tag have line: "line_of cd st' (cache_idx cd b) = pcontent (parent_state st') (unat b)"
    using coherent_line(1) [of cd n "pcontent (parent_state st')" st' "cache_idx cd b"] st'(2)
    by (simp add: cache_inv_def)
  have "cache_read cd buf' b st' = Some (int (length buf), pcontent (parent_state st) (unat b), st')"
    using tag line st'(3) assms(2,3) by (simp add: cache_read_def Let_def line_of_def mult.commute)
  with st'(1) show ?thesis by blast
qed

theorem cache_second_read_hits_witness:
  "\<exists>st'. cache_read demo_cd [0, 0] 3 demo_st = Some (2, [6, 7], st')
    \<and> cache_read demo_cd [1, 1] 3 st' = Some (2, [6, 7], st')"
  using cache_second_read_hits [OF demo_inv, of "[0, 0]" "[1, 1]" 3]
  by (simp add: demo_cd_def demo_st_def demo_disk_def)

text \<open>When the parent fails to read a block that is not cached, \<open>cache_read\<close> does not return
  the error: the negative return value becomes the size of the \<open>memcpy\<close> into the caller's
  buffer, which it overruns.\<close>

theorem cache_read_error_overruns:
  assumes "length buf \<le> unat (cd_block_size cd)" and "length buf < 2 ^ 31"
    and "cached_blocks st ! cache_idx cd b \<noteq> b"
    and "dev_read (cd_parent cd) = Some rd"
    and "rd (slice (cache_mem st) (unat (cd_block_size cd) * cache_idx cd b) (length buf)) b
           (parent_state st) = Some (ret, line, ps)"
    and "- (2 ^ 31) \<le> ret" and "ret < 0"
  shows "cache_read cd buf b st = None"
proof -
  have "uint (word_of_int ret :: u32) = ret + 2 ^ 32"
  proof -
    have "ret mod 2 ^ 32 = (ret + 2 ^ 32) mod 2 ^ 32" by simp
    also have "\<dots> = ret + 2 ^ 32" using assms(6,7) by (intro mod_pos_pos_trivial) auto
    finally show ?thesis by (simp add: uint_word_of_int)
  qed
  then have "unat (word_of_int ret :: u32) > length buf"
    using assms(2,6) by (simp add: unat_eq_nat_uint)
  then show ?thesis using assms(1,3,4,5) by (simp add: cache_read_def Let_def)
qed

theorem cache_read_error_overruns_witness:
  "cache_read demo_cd [0, 0] 9 demo_st = None"
  by (rule cache_read_error_overruns [where ret = "-1" and rd = "ram_read 2" and line = "[9, 9]"
        and ps = demo_disk])
    (simp_all add: demo_cd_def demo_st_def demo_parent_def demo_disk_def cache_idx_def ram_read_def
      slice_def)

text \<open>A write whose size is not a multiple of the block size is refused with \<open>-1\<close> and
  \<open>EFAULT\<close>, before anything of the cache or the parent has changed.\<close>

theorem cache_write_partial_block:
  assumes "cd_block_size cd \<noteq> 0" and "length buf mod unat (cd_block_size cd) \<noteq> 0"
  shows "cache_write cd buf b st = Some (-1, st\<lparr>cache_errno := Some EFAULT\<rparr>)"
  using assms by (simp add: cache_write_def)

theorem cache_write_partial_block_witness:
  "cache_write demo_cd [1, 2, 3] 0 demo_st = Some (-1, demo_st\<lparr>cache_errno := Some EFAULT\<rparr>)"
  by (rule cache_write_partial_block) (simp_all add: demo_cd_def)

end
