(* ===== verification/Mbr.thy ===== *)
theory Mbr
  imports Block_Cache
begin

text \<open>
  The partition driver (\<open>rboot/mbr.c\<close>). \<open>mbr_block_dev\<close> is what \<open>struct mbr_block_dev\<close> adds to the
  block device it starts with; \<open>read_mbr\<close> returns the pairs of both. \<open>register_fs\<close>, which is
  called for every partition as soon as it is found, is an argument here (it is defined in
  \<open>rboot/libfs.c\<close>, theory Mount); its result is ignored by the code, only its effect on the state is
  passed on: \<open>'v\<close> is what registering changes beside the state \<open>'s\<close> of the device.
  The main results: a partition is a driver of the blocks \<open>start_block ..< start_block + blocks\<close>
  of its parent, and \<open>read_mbr\<close> returns the used entries of the partition table.
\<close>

section \<open>Operations\<close>

record 's mbr_block_dev =
  mbr_parent :: "'s block_device"
  part_no :: nat
  start_block :: u32
  blocks :: u32
  part_id :: u8

definition mbr_read :: "'s mbr_block_dev \<Rightarrow> 's dev_read" where
  "mbr_read d buf starting_block s =
     (case dev_read (mbr_parent d) of
        None \<Rightarrow> None
      | Some rd \<Rightarrow> rd buf (starting_block + start_block d) s)"

definition mbr_write :: "'s mbr_block_dev \<Rightarrow> 's dev_write" where
  "mbr_write d buf starting_block s =
     (case dev_write (mbr_parent d) of
        None \<Rightarrow> None
      | Some wr \<Rightarrow> wr buf (starting_block + start_block d) s)"

text \<open>The device of the entry \<open>i\<close> of the table, before the adjustment of the sector numbers to
  the parent's block size, and the device after it.\<close>

definition mbr_bd :: "'s block_device \<Rightarrow> nat \<Rightarrow> 's mbr_block_dev \<Rightarrow> 's block_device" where
  "mbr_bd parent i d =
     \<lparr>driver_name = ''mbr'',
      device_name = device_name parent @ ''_'' @ [char_of (48 + i)],
      device_id = [of_nat i],
      supports_multiple_block_read = supports_multiple_block_read parent,
      supports_multiple_block_write = supports_multiple_block_write parent,
      dev_read = Some (mbr_read d),
      dev_write = map_option (\<lambda>_. mbr_write d) (dev_write parent),
      block_size = block_size parent,
      num_blocks = blocks d\<rparr>"

definition p_offset :: "nat \<Rightarrow> nat" where
  "p_offset i = 0x1be + i * 0x10"

definition mbr_entry :: "'s block_device \<Rightarrow> bytes \<Rightarrow> nat \<Rightarrow> 's mbr_block_dev" where
  "mbr_entry parent block_0 i =
     \<lparr>mbr_parent = parent, part_no = i,
      start_block = read_word block_0 (p_offset i + 8),
      blocks = read_word block_0 (p_offset i + 12),
      part_id = block_0 ! (p_offset i + 4)\<rparr>"

text \<open>The loop over the four entries. An entry that is not aligned to the parent's blocks ends
  \<open>read_mbr\<close> with \<open>-1\<close>; the partitions before it stay registered.\<close>

primrec mbr_entries ::
  "('s mbr_block_dev \<Rightarrow> u8 \<Rightarrow> 'w \<Rightarrow> 'w option) \<Rightarrow> 's block_device \<Rightarrow> u32 \<Rightarrow> bytes \<Rightarrow> nat list \<Rightarrow>
   ('s block_device \<times> 's mbr_block_dev) list \<Rightarrow> 'w \<Rightarrow>
   (int \<times> ('s block_device \<times> 's mbr_block_dev) list \<times> 'w) option" where
  "mbr_entries register_fs parent adjust block_0 [] parts s = Some (0, parts, s)"
| "mbr_entries register_fs parent adjust block_0 (i # is) parts s =
     (if block_0 ! (p_offset i + 4) \<noteq> 0 then
        (let d = mbr_entry parent block_0 i in
         if start_block d mod adjust \<noteq> 0 then Some (-1, parts, s)
         else if blocks d mod adjust \<noteq> 0 then Some (-1, parts, s)
         else
           (let d' = d\<lparr>start_block := start_block d div adjust, blocks := blocks d div adjust\<rparr> in
            do {
              s' \<leftarrow> register_fs d' (part_id d') s;
              mbr_entries register_fs parent adjust block_0 is (parts @ [(mbr_bd parent i d', d')]) s'
            }))
      else mbr_entries register_fs parent adjust block_0 is parts s)"

text \<open>\<open>oom\<close> says that the allocation of the sector buffer fails, \<open>junk\<close> is what the buffer holds
  before the read. On an error return \<open>*partitions\<close> is not assigned; the model then returns the
  partitions registered so far.\<close>

definition read_mbr ::
  "('s mbr_block_dev \<Rightarrow> u8 \<Rightarrow> 'v \<times> 's \<Rightarrow> ('v \<times> 's) option) \<Rightarrow> (nat \<Rightarrow> u8) \<Rightarrow> bool \<Rightarrow>
   's block_device option \<Rightarrow> 'v \<Rightarrow> 's \<Rightarrow> (int \<times> ('s block_device \<times> 's mbr_block_dev) list \<times> 'v \<times> 's) option" where
  "read_mbr register_fs junk oom parent_ptr v s =
     (case parent_ptr of
        None \<Rightarrow> Some (-1, [], v, s)
      | Some parent \<Rightarrow>
          if oom then Some (-1, [], v, s)
          else do {
            (r, block_0, s') \<leftarrow> block_read parent (malloc_bytes junk 512) 0 s;
            let ret = sint r in
            if ret < 0 then Some (ret, [], v, s')
            else if ret \<noteq> 512 then Some (-1, [], v, s')
            else if block_0 ! 0x1fe \<noteq> 0x55 \<or> block_0 ! 0x1ff \<noteq> 0xaa then Some (-1, [], v, s')
            else if block_size parent < 512 then Some (-1, [], v, s')
            else if block_size parent mod 512 \<noteq> 0 then Some (-1, [], v, s')
            else mbr_entries register_fs parent (block_size parent div 512) block_0 [0, 1, 2, 3] [] (v, s')
          })"

section \<open>A partition as a driver\<close>

definition part_inv ::
  "'s mbr_block_dev \<Rightarrow> nat \<Rightarrow> nat \<Rightarrow> ('s \<Rightarrow> bool) \<Rightarrow> ('s \<Rightarrow> nat \<Rightarrow> bytes) \<Rightarrow> 's \<Rightarrow> bool" where
  "part_inv d bsize n pinv pcontent s \<longleftrightarrow>
     (\<exists>rd wr. dev_read (mbr_parent d) = Some rd \<and> dev_write (mbr_parent d) = Some wr \<and>
        block_store rd wr bsize n pinv pcontent) \<and>
     pinv s \<and> unat (start_block d) + unat (blocks d) \<le> n"

definition part_content :: "'s mbr_block_dev \<Rightarrow> ('s \<Rightarrow> nat \<Rightarrow> bytes) \<Rightarrow> 's \<Rightarrow> nat \<Rightarrow> bytes" where
  "part_content d pcontent s i = pcontent s (unat (start_block d) + i)"

lemma load_blocks_shift:
  "load_blocks (\<lambda>i. c (a + i)) b k = load_blocks c (a + b) k"
proof -
  have "map (\<lambda>i. c (a + i)) [b..<b + k] = map c [a + b..<a + b + k]"
    by (rule nth_equalityI) (auto simp: algebra_simps)
  then show ?thesis by (simp add: load_blocks_def)
qed

lemma store_blocks_shift:
  "store_blocks c n (a + b) k buf (a + i) = store_blocks (\<lambda>i. c (a + i)) n b k buf i"
  by (auto simp: store_blocks_def)

interpretation part: block_store "mbr_read d" "mbr_write d" bsize "unat (blocks d)"
  "part_inv d bsize n pinv pcontent" "part_content d pcontent"
  for d bsize n pinv pcontent
proof unfold_locales
  fix s assume "part_inv d bsize n pinv pcontent s"
  then obtain rd wr where store: "block_store rd wr bsize n pinv pcontent" and pin: "pinv s"
    and inside: "unat (start_block d) + unat (blocks d) \<le> n"
    by (auto simp: part_inv_def)
  show "0 < bsize" by (rule block_store.bsize_pos [OF store pin])
  show "unat (blocks d) < 2 ^ 32" using inside block_store.nblocks_bound [OF store pin] by linarith
  fix i assume "i < unat (blocks d)"
  then show "length (part_content d pcontent s i) = bsize"
    using block_store.length_content [OF store pin] inside by (simp add: part_content_def)
next
  fix s and k and buf :: bytes and b :: u32
  assume "part_inv d bsize n pinv pcontent s"
  then obtain rd wr where store: "block_store rd wr bsize n pinv pcontent" and pin: "pinv s"
    and par: "dev_read (mbr_parent d) = Some rd" "dev_write (mbr_parent d) = Some wr"
    and inside: "unat (start_block d) + unat (blocks d) \<le> n"
    by (auto simp: part_inv_def)
  assume k: "0 < k" and len: "length buf = k * bsize" and b: "unat b + k \<le> unat (blocks d)"
    and small: "k * bsize < 2 ^ 31"
  have "unat b + unat (start_block d) < 2 ^ 32"
    using b k inside block_store.nblocks_bound [OF store pin] by linarith
  then have sum: "unat (b + start_block d) = unat (start_block d) + unat b"
    by (simp add: word_nat_simps)
  have fits: "unat (b + start_block d) + k \<le> n" using sum b inside by linarith
  obtain s' where s': "rd buf (b + start_block d) s = Some (int (k * bsize),
      load_blocks (pcontent s) (unat (b + start_block d)) k, s')" "pinv s'" "pcontent s' = pcontent s"
    using block_store.read_ok [OF store pin k len fits small] by blast
  have "part_content d pcontent s = (\<lambda>i. pcontent s (unat (start_block d) + i))"
    by (rule ext) (simp add: part_content_def)
  then have ld: "load_blocks (part_content d pcontent s) (unat b) k
      = load_blocks (pcontent s) (unat (start_block d) + unat b) k"
    by (simp only: load_blocks_shift)
  show "\<exists>s'. mbr_read d buf b s = Some (int (k * bsize),
      load_blocks (part_content d pcontent s) (unat b) k, s')
    \<and> part_inv d bsize n pinv pcontent s' \<and> part_content d pcontent s' = part_content d pcontent s"
    using s' par store inside
    by (auto simp: mbr_read_def part_inv_def sum ld part_content_def fun_eq_iff)
  obtain s2 where s2: "wr buf (b + start_block d) s = Some (int (k * bsize), s2)" "pinv s2"
    "\<forall>i < n. pcontent s2 i = store_blocks (pcontent s) bsize (unat (b + start_block d)) k buf i"
    using block_store.write_ok [OF store pin k len fits small] by blast
  have "part_content d pcontent s2 i = store_blocks (part_content d pcontent s) bsize (unat b) k buf i"
    if "i < unat (blocks d)" for i
    using s2(3) that inside \<open>part_content d pcontent s = (\<lambda>i. _ i)\<close>
    by (simp add: part_content_def sum store_blocks_shift)
  then show "\<exists>s'. mbr_write d buf b s = Some (int (k * bsize), s') \<and> part_inv d bsize n pinv pcontent s'
    \<and> (\<forall>i<unat (blocks d). part_content d pcontent s' i
        = store_blocks (part_content d pcontent s) bsize (unat b) k buf i)"
    using s2 par store inside by (auto simp: mbr_write_def part_inv_def)
qed

section \<open>The partition table\<close>

definition used_entries :: "bytes \<Rightarrow> nat list" where
  "used_entries block_0 = filter (\<lambda>i. block_0 ! (p_offset i + 4) \<noteq> 0) [0, 1, 2, 3]"

definition table_entry :: "'s block_device \<Rightarrow> bytes \<Rightarrow> nat \<Rightarrow> 's mbr_block_dev" where
  "table_entry parent block_0 i =
     (let d = mbr_entry parent block_0 i; adjust = block_size parent div 512 in
      d\<lparr>start_block := start_block d div adjust, blocks := blocks d div adjust\<rparr>)"

lemma mbr_entries_result:
  "mbr_entries reg parent (block_size parent div 512) block_0 is parts s = Some (0, parts', s') \<Longrightarrow>
   parts' = parts @ map (\<lambda>i. (mbr_bd parent i (table_entry parent block_0 i), table_entry parent block_0 i))
     (filter (\<lambda>i. block_0 ! (p_offset i + 4) \<noteq> 0) is)"
proof (induction "is" arbitrary: parts s)
  case Nil
  then show ?case by simp
next
  case (Cons i "is")
  show ?case
  proof (cases "block_0 ! (p_offset i + 4) = 0")
    case True
    then show ?thesis using Cons by simp
  next
    case False
    then obtain s1 where "mbr_entries reg parent (block_size parent div 512) block_0 is
        (parts @ [(mbr_bd parent i (table_entry parent block_0 i), table_entry parent block_0 i)]) s1
      = Some (0, parts', s')"
      using Cons.prems
      by (auto simp: Let_def table_entry_def bind_eq_Some_conv split: if_splits)
    from Cons.IH [OF this] show ?thesis using False by simp
  qed
qed

section \<open>Properties\<close>

text \<open>A device of one sector with a partition table of two used entries, for the witnesses.\<close>

definition demo_sector :: bytes where
  "demo_sector = replicate 450 0 @ [12, 0, 0, 0, 2, 0, 0, 0, 4, 0, 0, 0] @ replicate 20 0
     @ [131, 0, 0, 0, 6, 0, 0, 0, 8, 0, 0, 0] @ replicate 16 0 @ [0x55, 0xaa]"

definition sector_dev :: "bytes block_device" where
  "sector_dev = \<lparr>driver_name = ''s'', device_name = ''s'', device_id = [],
     supports_multiple_block_read = False, supports_multiple_block_write = False,
     dev_read = Some (\<lambda>buf b s. Some (512, s, s)), dev_write = None,
     block_size = 512, num_blocks = 1\<rparr>"

definition demo_part :: "bytes list mbr_block_dev" where
  "demo_part = \<lparr>mbr_parent = ram_dev 2, part_no = 0, start_block = 1, blocks = 2, part_id = 12\<rparr>"

lemma demo_part_inv: "part_inv demo_part 2 4 (ram_ok 2 4) (!) [[0, 0], [1, 1], [2, 2], [3, 3]]"
  using demo_store by (simp add: part_inv_def demo_part_def ram_dev_def ram_ok_def)

text \<open>C6: A partition is the slice of its parent's blocks that its table entry names. Over a parent
  that stores blocks and is large enough, any sequence of whole-block requests inside the
  partition is answered as by the array of the blocks \<open>start_block ..< start_block + blocks\<close>.\<close>

theorem partition_refines_slice:
  assumes "part_inv d bsize n pinv pcontent s"
    and "\<forall>r \<in> set rs. fits bsize (unat (blocks d)) r"
  shows "\<exists>s'. serve (mbr_read d) (mbr_write d) bsize rs s
      = Some (array_serve bsize rs (\<lambda>i. pcontent s (unat (start_block d) + i)), s') \<and> pinv s'"
proof -
  have "part_content d pcontent s = (\<lambda>i. pcontent s (unat (start_block d) + i))"
    by (rule ext) (simp add: part_content_def)
  then show ?thesis using part.serve_refines_array [OF assms] by (auto simp: part_inv_def)
qed

theorem partition_refines_slice_witness:
  "\<exists>s'. serve (mbr_read demo_part) (mbr_write demo_part) 2
      [WriteReq [7, 8] 1, ReadReq 2 0] [[0, 0], [1, 1], [2, 2], [3, 3]]
    = Some ([[7, 8], [1, 1, 7, 8]], s')"
proof -
  let ?rs = "[WriteReq [7, 8] 1, ReadReq 2 0]" and ?s = "[[0, 0], [1, 1], [2, 2], [3, 3]] :: bytes list"
  have "\<forall>r \<in> set ?rs. fits 2 (unat (blocks demo_part)) r" by (simp add: demo_part_def)
  moreover have "array_serve 2 ?rs (\<lambda>i. ?s ! (1 + i)) = [[7, 8], [1, 1, 7, 8]]"
    by code_simp
  moreover have "unat (start_block demo_part) = 1" by (simp add: demo_part_def)
  ultimately show ?thesis
    using partition_refines_slice [OF demo_part_inv, of ?rs] by (auto simp only:)
qed

text \<open>C14: What a write through a partition does to the parent. When the blocks it addresses exist
  on the parent (\<open>start_block + b + k\<close> is at most the parent's number of blocks), the write stores
  the buffer in exactly the parent's blocks \<open>start_block + b ..< start_block + b + k\<close>, and every
  other block of the parent keeps its content. If the request lies inside the partition, no block
  outside the partition is changed. The code does not check that: a request that starts in the
  partition or at its end and goes past it overwrites the block that follows the partition.\<close>

theorem partition_write_isolated:
  assumes "part_inv d bsize n pinv pcontent s" and "0 < k" and "length buf = k * bsize"
    and "unat (start_block d) + unat b + k \<le> n" and "k * bsize < 2 ^ 31"
  shows "\<exists>s'. mbr_write d buf b s = Some (int (k * bsize), s') \<and> pinv s'
    \<and> (\<forall>i < n. pcontent s' i =
        (if unat (start_block d) + unat b \<le> i \<and> i < unat (start_block d) + unat b + k
         then slice buf ((i - (unat (start_block d) + unat b)) * bsize) bsize
         else pcontent s i))
    \<and> (unat b + k \<le> unat (blocks d) \<longrightarrow>
        (\<forall>i < n. i < unat (start_block d) \<or> unat (start_block d) + unat (blocks d) \<le> i
          \<longrightarrow> pcontent s' i = pcontent s i))
    \<and> (unat b \<le> unat (blocks d) \<and> unat (blocks d) < unat b + k \<longrightarrow>
        pcontent s' (unat (start_block d) + unat (blocks d))
          = slice buf ((unat (blocks d) - unat b) * bsize) bsize)"
proof -
  obtain rd wr where store: "block_store rd wr bsize n pinv pcontent" and pin: "pinv s"
    and wr: "dev_write (mbr_parent d) = Some wr"
    using assms(1) by (auto simp: part_inv_def)
  have "unat b + unat (start_block d) < 2 ^ 32"
    using assms(2,4) block_store.nblocks_bound [OF store pin] by linarith
  then have sum: "unat (b + start_block d) = unat (start_block d) + unat b"
    by (simp add: word_nat_simps)
  have "unat (b + start_block d) + k \<le> n" using sum assms(4) by linarith
  then obtain s' where s': "wr buf (b + start_block d) s = Some (int (k * bsize), s')" "pinv s'"
    "\<forall>i < n. pcontent s' i = store_blocks (pcontent s) bsize (unat (b + start_block d)) k buf i"
    using block_store.write_ok [OF store pin assms(2,3) _ assms(5)] by blast
  show ?thesis
    using s' wr assms(4) by (intro exI [of _ s']) (auto simp: mbr_write_def store_blocks_def sum)
qed

theorem partition_write_isolated_witness:
  "\<exists>s'. mbr_write demo_part [7, 8, 9, 10] 1 [[0, 0], [1, 1], [2, 2], [3, 3]] = Some (4, s')
    \<and> s' ! 1 = [1, 1] \<and> s' ! 2 = [7, 8] \<and> s' ! 3 = [9, 10]"
proof -
  have at: "unat (start_block demo_part) = 1" "unat (blocks demo_part) = 2"
    by (simp_all add: demo_part_def)
  obtain s' where "mbr_write demo_part [7, 8, 9, 10] 1 [[0, 0], [1, 1], [2, 2], [3, 3]] = Some (4, s')"
    and c: "\<forall>i < 4. s' ! i = (if 1 + 1 \<le> i \<and> i < 1 + 1 + 2 then slice [7, 8, 9, 10] ((i - (1 + 1)) * 2) 2
      else [[0, 0], [1, 1], [2, 2], [3, 3]] ! i)"
    using partition_write_isolated [OF demo_part_inv, of 2 "[7, 8, 9, 10]" 1, unfolded at unsigned_1]
    by auto
  moreover have "s' ! 1 = [1, 1]" "s' ! 2 = [7, 8]" "s' ! 3 = [9, 10]"
    using c [rule_format, of 1] c [rule_format, of 2] c [rule_format, of 3]
    by (simp_all add: slice_def)
  ultimately show ?thesis by blast
qed

text \<open>C7: When \<open>read_mbr\<close> returns \<open>0\<close>, the first sector carries the signature \<open>55 aa\<close> and the
  partitions are exactly the table entries with a nonzero type, in order, each with its number,
  its type and its start and length from the table in units of the parent's blocks.\<close>

theorem read_mbr_partitions:
  assumes "block_read parent (malloc_bytes junk 512) 0 s = Some (512, block_0, s1)"
    and "read_mbr reg junk False (Some parent) v s = Some (0, parts, v', s')"
  shows "block_0 ! 0x1fe = 0x55 \<and> block_0 ! 0x1ff = 0xaa
    \<and> map (part_no \<circ> snd) parts = used_entries block_0
    \<and> map (part_id \<circ> snd) parts = map (\<lambda>i. block_0 ! (0x1be + 16 * i + 4)) (used_entries block_0)
    \<and> map (start_block \<circ> snd) parts = map (\<lambda>i. read_word block_0 (0x1be + 16 * i + 8)
        div (block_size parent div 512)) (used_entries block_0)
    \<and> map (blocks \<circ> snd) parts = map (\<lambda>i. read_word block_0 (0x1be + 16 * i + 12)
        div (block_size parent div 512)) (used_entries block_0)"
proof -
  have sig: "block_0 ! 0x1fe = 0x55 \<and> block_0 ! 0x1ff = 0xaa"
    and run: "mbr_entries reg parent (block_size parent div 512) block_0 [0, 1, 2, 3] [] (v, s1)
      = Some (0, parts, v', s')"
    using assms(2) by (simp_all add: read_mbr_def assms(1) Let_def del: mbr_entries.simps split: if_splits)
  have "parts = map (\<lambda>i. (mbr_bd parent i (table_entry parent block_0 i), table_entry parent block_0 i))
     (used_entries block_0)"
    using mbr_entries_result [OF run] by (simp add: used_entries_def)
  then show ?thesis
    using sig by (simp add: table_entry_def mbr_entry_def Let_def p_offset_def comp_def
        algebra_simps)
qed

theorem read_mbr_partitions_witness:
  "\<exists>parts. read_mbr (\<lambda>d i s. Some s) (\<lambda>_. 0) False (Some sector_dev) () demo_sector
      = Some (0, parts, (), demo_sector)
    \<and> map (start_block \<circ> snd) parts = [2, 6] \<and> map (blocks \<circ> snd) parts = [4, 8]"
proof -
  have blk: "block_read sector_dev (malloc_bytes (\<lambda>_. 0) 512) 0 demo_sector = Some (512, demo_sector, demo_sector)"
    by (simp add: block_read_def sector_dev_def)
      (subst block_read_loop.simps, simp add: demo_sector_def malloc_bytes_def)
  have used: "used_entries demo_sector = [0, 2]" by code_simp
  have ty: "demo_sector ! (p_offset 0 + 4) = 12" "demo_sector ! (p_offset (Suc 0) + 4) = 0"
    "demo_sector ! (p_offset 2 + 4) = 131" "demo_sector ! (p_offset 3 + 4) = 0"
    and sig: "demo_sector ! 510 = 85" "demo_sector ! 511 = 170"
    by code_simp+
  have size: "block_size sector_dev = 512" by (simp add: sector_dev_def)
  have words: "map (\<lambda>i. read_word demo_sector (0x1be + 16 * i + 8)) [0, 2] = [2, 6]"
    "map (\<lambda>i. read_word demo_sector (0x1be + 16 * i + 12)) [0, 2] = [4, 8]"
    by code_simp+
  have "\<exists>parts. read_mbr (\<lambda>d i s. Some s) (\<lambda>_. 0) False (Some sector_dev) () demo_sector
      = Some (0, parts, (), demo_sector)"
    using ty sig by (simp add: read_mbr_def blk size Let_def)
  then obtain parts where run: "read_mbr (\<lambda>d i s. Some s) (\<lambda>_. 0) False (Some sector_dev) () demo_sector
      = Some (0, parts, (), demo_sector)" by blast
  from read_mbr_partitions [OF blk run] run used words
  show ?thesis by (auto simp: size)
qed

end
