(* ===== verification/Libfs.thy ===== *)
theory Libfs
  imports Mbr
begin

text \<open>
  What all file systems share (\<open>rboot/libfs.c\<close>, \<open>rboot/vfs.h\<close>, \<open>rboot/multiboot.h\<close>,
  \<open>rboot/fs.h\<close>): the stream and directory entry structures, \<open>fs_interpret_mode\<close>, and \<open>fs_fread\<close>
  and \<open>fs_fwrite\<close>, which transfer a byte range of a file given a callback that maps the index of
  a block of the file to a block of the device.

  A stream's \<open>opaque\<close> is the file system's own data, of type \<open>'o\<close>; the \<open>opaque\<close> argument of the
  callback has type \<open>'p\<close> and, being a pointer, can be changed by it. \<open>file_blocks\<close> is the contract of
  such a callback; the file systems discharge it.
\<close>

section \<open>Structures\<close>

record 'o mb_dirent =
  de_name :: string
  de_byte_size :: u32
  is_dir :: bool
  de_opaque :: 'o
  de_fs :: nat

record 'o mb_file =
  file_fs :: nat
  pos :: int
  mode :: u32
  opaque :: 'o
  len :: int
  flags :: u32

text \<open>Pointers to \<open>struct fs\<close> are only compared and followed: a file system is identified by a
  number. \<open>world\<close> is the state of the devices and \<open>errno\<close>.\<close>

record 's world =
  errno_of :: "errno option"
  dev_state :: 's

definition VFS_MODE_R :: u32 where "VFS_MODE_R = 1"
definition VFS_MODE_W :: u32 where "VFS_MODE_W = 2"
definition VFS_MODE_RW :: u32 where "VFS_MODE_RW = 3"
definition VFS_MODE_APPEND :: u32 where "VFS_MODE_APPEND = 4"
definition VFS_MODE_CREATE :: u32 where "VFS_MODE_CREATE = 8"
definition VFS_FLAGS_EOF :: u32 where "VFS_FLAGS_EOF = 1"
definition VFS_FLAGS_ERROR :: u32 where "VFS_FLAGS_ERROR = 2"

lemmas vfs_consts = VFS_MODE_R_def VFS_MODE_W_def VFS_MODE_RW_def VFS_MODE_APPEND_def
  VFS_MODE_CREATE_def VFS_FLAGS_EOF_def VFS_FLAGS_ERROR_def

section \<open>Modes\<close>

definition fs_interpret_mode :: "string \<Rightarrow> u32" where
  "fs_interpret_mode m =
     (if m = ''r'' then VFS_MODE_R
      else if m = ''r+'' then VFS_MODE_RW
      else if m = ''w'' then VFS_MODE_W OR VFS_MODE_CREATE
      else if m = ''w+'' then VFS_MODE_RW OR VFS_MODE_CREATE
      else if m = ''a'' then VFS_MODE_W OR VFS_MODE_APPEND OR VFS_MODE_CREATE
      else if m = ''a+'' then VFS_MODE_RW OR VFS_MODE_APPEND OR VFS_MODE_CREATE
      else 0)"

section \<open>Transfers\<close>

text \<open>\<open>long\<close> and \<open>int\<close> have 32 bits; the sums of the code wrap.\<close>

definition long_add :: "int \<Rightarrow> int \<Rightarrow> int" where
  "long_add a b = sint (word_of_int (a + b) :: u32)"

type_synonym ('o, 'p, 's) get_next =
  "u32 \<Rightarrow> 'o mb_file \<Rightarrow> 'p \<Rightarrow> bool \<Rightarrow> 's \<Rightarrow> (u32 \<times> 'o mb_file \<times> 'p \<times> 's) option"

text \<open>The first and last block of the range and the offsets into them.\<close>

record span =
  first_f_block_idx :: u32
  first_f_block_offset :: u32
  last_f_block_idx :: u32
  last_f_block_offset :: u32

definition span_of :: "u32 \<Rightarrow> int \<Rightarrow> u32 \<Rightarrow> span" where
  "span_of bs p byte_size =
     (let pos = word_of_int p :: u32; last_pos = pos + byte_size in
      \<lparr>first_f_block_idx = pos div bs, first_f_block_offset = pos mod bs,
       last_f_block_idx = last_pos div bs, last_f_block_offset = last_pos mod bs\<rparr>)"

definition start_block_offset :: "span \<Rightarrow> u32 \<Rightarrow> u32" where
  "start_block_offset sp cur_block =
     (if cur_block = first_f_block_idx sp then first_f_block_offset sp else 0)"

definition last_block_offset :: "span \<Rightarrow> u32 \<Rightarrow> u32 \<Rightarrow> u32" where
  "last_block_offset sp bs cur_block =
     (if cur_block = last_f_block_idx sp then last_f_block_offset sp else bs)"

text \<open>What the loops change. The distance of \<open>save_buf\<close> from \<open>ptr\<close> is always equal to the
  total; \<open>xbuf\<close> is the whole buffer at \<open>ptr\<close>.\<close>

record ('o, 'p, 's) xfer =
  xbuf :: bytes
  xtotal :: int
  xfile :: "'o mb_file"
  xopaque :: 'p
  xdev :: 's

text \<open>One iteration of the loop of \<open>fs_fread\<close>; the boolean is false when the code returns from
  inside the loop. A transfer outside the buffer is \<^term>\<open>None\<close>.\<close>

definition fread_block ::
  "('o, 'p, 's) get_next \<Rightarrow> 's block_device \<Rightarrow> u32 \<Rightarrow> (nat \<Rightarrow> u8) \<Rightarrow> span \<Rightarrow> u32 \<Rightarrow>
   ('o, 'p, 's) xfer \<Rightarrow> (bool \<times> ('o, 'p, 's) xfer) option" where
  "fread_block gn dev bs junk sp cur_block x =
     (let so = start_block_offset sp cur_block; eo = last_block_offset sp bs cur_block;
          seg = eo - so; off = nat (xtotal x)
      in do {
        (blk, f, p, s) \<leftarrow> gn cur_block (xfile x) (xopaque x) False (xdev x);
        let x1 = x\<lparr>xfile := f, xopaque := p, xdev := s\<rparr> in
        if blk = 0xffffffff then Some (False, x1)
        else if so = 0 \<and> seg = bs then
          (if off + unat bs > length (xbuf x) then None
           else do {
             (r, chunk, s') \<leftarrow> block_read dev (slice (xbuf x) off (unat bs)) blk s;
             let bytes_read = sint r;
                 x2 = x1\<lparr>xbuf := splice (xbuf x) off chunk,
                        xtotal := long_add (xtotal x) bytes_read,
                        xfile := f\<lparr>pos := long_add (pos f) bytes_read\<rparr>, xdev := s'\<rparr>
             in Some (r = bs, x2)
           })
        else do {
          (r, temp_buf, s') \<leftarrow> block_read dev (malloc_bytes junk (unat bs)) blk s;
          let eo' = (if eo > r then r else eo);
              seg' = (if eo' < so then 0 else eo' - so);
              n = int (unat seg')
          in if off + unat seg' > length (xbuf x) \<or> unat so + unat seg' > unat bs then None
             else Some (r = bs,
               x1\<lparr>xbuf := splice (xbuf x) off (slice temp_buf (unat so) (unat seg')),
                  xtotal := long_add (xtotal x) n,
                  xfile := f\<lparr>pos := long_add (pos f) n\<rparr>, xdev := s'\<rparr>)
        }
      })"

partial_function (option) block_loop ::
  "(u32 \<Rightarrow> 'x \<Rightarrow> (bool \<times> 'x) option) \<Rightarrow> u32 \<Rightarrow> u32 \<Rightarrow> 'x \<Rightarrow> 'x option" where
  "block_loop body last_idx cur_block x =
     (if cur_block \<le> last_idx then
        do {
          (go, x') \<leftarrow> body cur_block x;
          if go then block_loop body last_idx (cur_block + 1) x' else Some x'
        }
      else Some x)"

definition fs_fread ::
  "('o, 'p, 's) get_next \<Rightarrow> 's block_device \<Rightarrow> u32 \<Rightarrow> (nat \<Rightarrow> u8) \<Rightarrow> bytes \<Rightarrow> u32 \<Rightarrow>
   'o mb_file \<Rightarrow> 'p \<Rightarrow> 's \<Rightarrow> (u32 \<times> bytes \<times> 'o mb_file \<times> 'p \<times> 's) option" where
  "fs_fread gn dev bs junk ptr byte_size stream opq s =
     (if bs = 0 then None
      else let sp = span_of bs (pos stream) byte_size in
        do {
          x \<leftarrow> block_loop (fread_block gn dev bs junk sp) (last_f_block_idx sp) (first_f_block_idx sp)
                 \<lparr>xbuf = ptr, xtotal = 0, xfile = stream, xopaque = opq, xdev = s\<rparr>;
          Some (word_of_int (xtotal x), xbuf x, xfile x, xopaque x, xdev x)
        })"

text \<open>One iteration of \<open>fs_fwrite\<close>. \<open>advance\<close> is what both branches do after the write.\<close>

definition advance :: "'o mb_file \<Rightarrow> int \<Rightarrow> 'o mb_file" where
  "advance f n = (let p = long_add (pos f) n in
     f\<lparr>pos := p, len := (if p > len f then p else len f)\<rparr>)"

definition fwrite_block ::
  "('o, 'p, 's) get_next \<Rightarrow> 's block_device \<Rightarrow> u32 \<Rightarrow> (nat \<Rightarrow> u8) \<Rightarrow> span \<Rightarrow> u32 \<Rightarrow>
   ('o, 'p, 's) xfer \<Rightarrow> (bool \<times> ('o, 'p, 's) xfer) option" where
  "fwrite_block gn dev bs junk sp cur_block x =
     (let so = start_block_offset sp cur_block; eo = last_block_offset sp bs cur_block;
          seg = eo - so; off = nat (xtotal x)
      in do {
        (blk, f, p, s) \<leftarrow> gn cur_block (xfile x) (xopaque x) True (xdev x);
        let x1 = x\<lparr>xfile := f, xopaque := p, xdev := s\<rparr> in
        if blk = 0xffffffff then Some (False, x1)
        else if so = 0 \<and> seg = bs then
          (if off + unat bs > length (xbuf x) then None
           else do {
             (r, s') \<leftarrow> block_write dev (slice (xbuf x) off (unat bs)) blk s;
             Some (r = bs, x1\<lparr>xtotal := long_add (xtotal x) (int (unat r)),
                             xfile := advance f (int (unat r)), xdev := s'\<rparr>)
           })
        else do {
          (r, temp_buf, s') \<leftarrow> block_read dev (malloc_bytes junk (unat bs)) blk s;
          if r \<noteq> bs then Some (False, x1\<lparr>xdev := s'\<rparr>)
          else if unat so + unat seg > unat bs \<or> off + unat seg > length (xbuf x) then None
          else do {
            (w, s'') \<leftarrow> block_write dev
               (splice temp_buf (unat so) (slice (xbuf x) off (unat seg))) blk s';
            let eo' = (if eo > w then w else eo);
                seg' = (if eo' < so then 0 else eo' - so);
                n = int (unat seg')
            in Some (w = bs, x1\<lparr>xtotal := long_add (xtotal x) n, xfile := advance f n, xdev := s''\<rparr>)
          }
        }
      })"

definition fs_fwrite ::
  "('o, 'p, 's) get_next \<Rightarrow> 's block_device \<Rightarrow> u32 \<Rightarrow> (nat \<Rightarrow> u8) \<Rightarrow> bytes \<Rightarrow> u32 \<Rightarrow>
   'o mb_file \<Rightarrow> 'p \<Rightarrow> 's \<Rightarrow> (u32 \<times> 'o mb_file \<times> 'p \<times> 's) option" where
  "fs_fwrite gn dev bs junk ptr byte_size stream opq s =
     (if bs = 0 then None
      else
        let f = (if mode stream AND VFS_MODE_APPEND \<noteq> 0 \<and> mode stream AND VFS_MODE_R \<noteq> 0
                 then stream\<lparr>pos := len stream\<rparr> else stream);
            sp = span_of bs (pos f) byte_size
        in do {
          x \<leftarrow> block_loop (fwrite_block gn dev bs junk sp) (last_f_block_idx sp) (first_f_block_idx sp)
                 \<lparr>xbuf = ptr, xtotal = 0, xfile = f, xopaque = opq, xdev = s\<rparr>;
          Some (word_of_int (xtotal x), xfile x, xopaque x, xdev x)
        })"

section \<open>Reading a file of blocks\<close>

lemma long_add_small:
  "0 \<le> a \<Longrightarrow> 0 \<le> b \<Longrightarrow> a + b < 2 ^ 31 \<Longrightarrow> long_add a b = a + b"
  unfolding long_add_def by (rule sint_word_of_int32) auto

lemma splice_extend:
  "length ys + length zs \<le> length xs \<Longrightarrow>
   splice (splice xs 0 ys) (length ys) zs = splice xs 0 (ys @ zs)"
  by (simp add: splice_def add.commute)

text \<open>The variables of a transfer from position \<open>P\<close> to \<open>E\<close> in blocks of \<open>fbs\<close> bytes.\<close>

definition span_nat :: "nat \<Rightarrow> nat \<Rightarrow> nat \<Rightarrow> span" where
  "span_nat fbs P E = \<lparr>first_f_block_idx = of_nat (P div fbs), first_f_block_offset = of_nat (P mod fbs),
     last_f_block_idx = of_nat (E div fbs), last_f_block_offset = of_nat (E mod fbs)\<rparr>"

text \<open>The offsets of the iteration that starts at position \<open>q\<close>, in block \<open>q div fbs\<close>.\<close>

definition seg_end :: "nat \<Rightarrow> nat \<Rightarrow> nat \<Rightarrow> nat" where
  "seg_end fbs E i = (if i = E div fbs then E mod fbs else fbs)"

lemma of_nat_eq_small: "a < 2 ^ 32 \<Longrightarrow> b < 2 ^ 32 \<Longrightarrow> (of_nat a = (of_nat b :: u32)) \<longleftrightarrow> a = b"
  by (metis unat_of_nat32)

lemma span_offsets:
  assumes "q = P \<or> P < q \<and> q mod fbs = 0" and "0 < fbs" and "q \<le> E" and "E < 2 ^ 31" and "fbs < 2 ^ 31"
  shows "start_block_offset (span_nat fbs P E) (of_nat (q div fbs)) = of_nat (q mod fbs)"
    and "last_block_offset (span_nat fbs P E) (of_nat fbs) (of_nat (q div fbs))
      = of_nat (seg_end fbs E (q div fbs))"
    and "q mod fbs \<le> seg_end fbs E (q div fbs)" and "seg_end fbs E (q div fbs) \<le> fbs"
proof -
  have le: "q div fbs \<le> q" "P div fbs \<le> P" "E div fbs \<le> E" by simp_all
  have "P \<le> E" using assms(1,3) by auto
  then have "q < 2 ^ 32" "P < 2 ^ 32" "E < 2 ^ 32" using assms(3,4) by simp_all
  then have b: "q div fbs < 2 ^ 32" "P div fbs < 2 ^ 32" "E div fbs < 2 ^ 32"
    using le le_less_trans by blast+
  have eq1: "(of_nat (q div fbs) = (of_nat (P div fbs) :: u32)) \<longleftrightarrow> q div fbs = P div fbs"
    by (rule of_nat_eq_small [OF b(1,2)])
  have eq2: "(of_nat (q div fbs) = (of_nat (E div fbs) :: u32)) \<longleftrightarrow> q div fbs = E div fbs"
    by (rule of_nat_eq_small [OF b(1,3)])
  have "P mod fbs = q mod fbs" if "q div fbs = P div fbs"
  proof (cases "q = P")
    case False
    then have q: "P < q" "q mod fbs = 0" using assms(1) by auto
    have "q = q div fbs * fbs" using q(2) by auto
    also have "\<dots> \<le> P" using that by simp
    finally show ?thesis using q(1) by simp
  qed simp
  moreover have "q mod fbs = 0" if "q div fbs \<noteq> P div fbs"
    using assms(1) that by auto
  ultimately show "start_block_offset (span_nat fbs P E) (of_nat (q div fbs)) = of_nat (q mod fbs)"
    by (auto simp: start_block_offset_def span_nat_def eq1)
  show "last_block_offset (span_nat fbs P E) (of_nat fbs) (of_nat (q div fbs))
      = of_nat (seg_end fbs E (q div fbs))"
    by (simp add: last_block_offset_def span_nat_def seg_end_def eq2)
  show "seg_end fbs E (q div fbs) \<le> fbs" using assms(2) by (simp add: seg_end_def less_imp_le)
  show "q mod fbs \<le> seg_end fbs E (q div fbs)"
  proof (cases "q div fbs = E div fbs")
    case True
    have "q div fbs * fbs + q mod fbs \<le> E div fbs * fbs + E mod fbs" using assms(3) by simp
    then show ?thesis unfolding seg_end_def using True by (simp only: add_le_cancel_left if_True refl)
  next
    case False
    then show ?thesis using assms(2) by (simp add: seg_end_def less_imp_le)
  qed
qed

text \<open>The numbers of one iteration: it starts at position \<open>q\<close> and transfers \<open>sg\<close> bytes, from offset
  \<open>so\<close> to \<open>eo\<close> of block \<open>i\<close>.\<close>

lemma iteration_offsets:
  assumes q: "q = P \<or> P < q \<and> q mod fbs = 0" and PE: "P \<le> q" "q \<le> E"
    and cur: "i = q div fbs" "i < nb" "i \<le> E div fbs" and E: "E \<le> nb * fbs"
    and sb: "nb * fbs + fbs < 2 ^ 31" and pos: "0 < fbs"
  obtains so eo sg where "eo = seg_end fbs E i"
    and "start_block_offset (span_nat fbs P E) (of_nat i) = of_nat so"
    and "last_block_offset (span_nat fbs P E) (of_nat fbs) (of_nat i) = of_nat eo" and "so \<le> eo"
    and "eo \<le> fbs" and "eo = so + sg" and "q = i * fbs + so" and "i * fbs + fbs \<le> nb * fbs"
    and "i * fbs + eo \<le> E"
    and "unat (of_nat fbs :: u32) = fbs" and "unat (of_nat so :: u32) = so"
    and "unat (of_nat eo :: u32) = eo" and "unat (of_nat sg :: u32) = sg"
    and "of_nat eo - of_nat so = (of_nat sg :: u32)"
proof -
  define so eo where "so = q mod fbs" and "eo = seg_end fbs E i"
  have off: "start_block_offset (span_nat fbs P E) (of_nat i) = of_nat so"
    "last_block_offset (span_nat fbs P E) (of_nat fbs) (of_nat i) = of_nat eo" "so \<le> eo" "eo \<le> fbs"
    using span_offsets [OF q pos PE(2)] E sb by (auto simp: so_def eo_def cur(1))
  define sg where "sg = eo - so"
  have eo: "eo = so + sg" using off(3) by (simp add: sg_def)
  have qi: "q = i * fbs + so" by (simp add: so_def cur(1))
  have ib: "i * fbs + fbs \<le> nb * fbs" by (rule slot_fits [OF cur(2) order_refl])
  have eE: "i * fbs + eo \<le> E"
  proof (cases "i = E div fbs")
    case True
    then show ?thesis by (simp add: eo_def seg_end_def)
  next
    case False
    then have "Suc i * fbs \<le> E div fbs * fbs" using cur(3) by (intro mult_right_mono) auto
    then have "Suc i * fbs \<le> E" using div_times_less_eq_dividend le_trans by blast
    then show ?thesis using off(4) by simp
  qed
  have "unat (of_nat fbs :: u32) = fbs" "unat (of_nat so :: u32) = so" "unat (of_nat eo :: u32) = eo"
    using sb off(3,4) by (simp_all add: word_nat_simps)
  moreover have "of_nat eo - of_nat so = (of_nat sg :: u32)" by (simp add: eo)
  moreover have "unat (of_nat sg :: u32) = sg" using sb off(4) eo by (simp add: word_nat_simps)
  ultimately show ?thesis using that eo_def off eo qi ib eE by blast
qed

text \<open>The loop's index does not wrap.\<close>

lemma index_le:
  assumes "E \<le> nb * fbs" and "nb * fbs + fbs < 2 ^ 31" and "a \<le> E div fbs + 1"
  shows "(of_nat a \<le> (of_nat (E div fbs) :: u32)) \<longleftrightarrow> a \<le> E div fbs"
proof -
  have "E div fbs \<le> E" by simp
  moreover have "E < 2 ^ 31" using assms(1,2) by linarith
  ultimately have "E div fbs < 2 ^ 31" by (rule le_less_trans)
  then show ?thesis using assms(3) by (simp add: word_le_nat_alt word_nat_simps)
qed

lemma span_of_nat:
  assumes "0 \<le> p" and "nat p + n < 2 ^ 31" and "fbs < 2 ^ 31"
  shows "span_of (of_nat fbs) p (of_nat n) = span_nat fbs (nat p) (nat p + n)"
proof -
  define P E where "P = nat p" and "E = nat p + n"
  have bnd: "P < 2 ^ 31" "E < 2 ^ 31" using assms(2) by (simp_all add: P_def E_def)
  have wP: "word_of_int p = (of_nat P :: u32)" using assms(1) by (simp add: P_def)
  have sum: "of_nat P + of_nat n = (of_nat E :: u32)" by (simp add: E_def P_def)
  have "of_nat P div of_nat fbs = (of_nat (P div fbs) :: u32)"
    "of_nat P mod of_nat fbs = (of_nat (P mod fbs) :: u32)"
    "of_nat E div of_nat fbs = (of_nat (E div fbs) :: u32)"
    "of_nat E mod of_nat fbs = (of_nat (E mod fbs) :: u32)"
    using bnd assms(3) by (simp_all add: of_nat_div32 of_nat_mod32)
  then show ?thesis
    using wP sum by (simp add: span_of_def span_nat_def Let_def E_def P_def)
qed

text \<open>
  \<open>at i p\<close>: the callback's data is positioned at or before block \<open>i\<close>, so that it can serve block
  \<open>i\<close> and later ones. \<open>fdata s i\<close> is the content of block \<open>i\<close> of the file, \<open>fbs\<close> its size and
  \<open>nb\<close> the number of blocks.
\<close>

locale block_map =
  fixes gn :: "('o, 'p, 's) get_next" and dev :: "'s block_device" and fbs nb :: nat
    and ok :: "'s \<Rightarrow> bool" and fdata :: "'s \<Rightarrow> nat \<Rightarrow> bytes" and at :: "nat \<Rightarrow> 'p \<Rightarrow> bool"
    and applies :: "'o mb_file \<Rightarrow> bool"
  assumes fbs_pos: "ok s \<Longrightarrow> 0 < fbs"
    and size_bound: "ok s \<Longrightarrow> Suc nb * fbs < 2 ^ 31"
    and length_fdata: "ok s \<Longrightarrow> i < nb \<Longrightarrow> length (fdata s i) = fbs"
    and at_mono: "at i p \<Longrightarrow> i \<le> j \<Longrightarrow> at j p"
    and applies_pos: "applies f \<Longrightarrow> applies (f\<lparr>pos := q\<rparr>)"
    and next_block: "ok s \<Longrightarrow> at i p \<Longrightarrow> i < nb \<Longrightarrow> applies f \<Longrightarrow>
      \<exists>b p' s'. gn (of_nat i) f p False s = Some (b, f, p', s') \<and> b \<noteq> 0xffffffff \<and> at i p'
        \<and> ok s' \<and> fdata s' = fdata s
        \<and> (\<forall>buf. length buf = fbs \<longrightarrow> (\<exists>s''. block_read dev buf b s' = Some (of_nat fbs, fdata s i, s'')
              \<and> ok s'' \<and> fdata s'' = fdata s))"
begin

definition file_of :: "'s \<Rightarrow> bytes" where
  "file_of s = concat (map (fdata s) [0..<nb])"

lemma length_file_of: "ok s \<Longrightarrow> length (file_of s) = nb * fbs"
proof -
  assume ok: "ok s"
  have "length (concat (map (fdata s) [0..<nb])) = length [0..<nb] * fbs"
    by (rule length_concat_blocks) (auto simp: length_fdata [OF ok])
  then show ?thesis by (simp add: file_of_def)
qed

lemma slice_file_of:
  assumes ok: "ok s" and "i < nb" and "a + m \<le> fbs"
  shows "slice (file_of s) (i * fbs + a) m = slice (fdata s i) a m"
proof -
  have "slice (file_of s) (i * fbs) fbs = fdata s i"
    unfolding file_of_def using assms(2) slice_concat_block [of 0 nb "fdata s" fbs i] length_fdata [OF ok]
    by simp
  then show ?thesis using slice_slice [of a m fbs "file_of s" "i * fbs"] assms(3) by simp
qed

text \<open>Whether the callback refuses the block after the last one.\<close>

definition ends :: bool where
  "ends \<longleftrightarrow> (\<forall>s p f. ok s \<longrightarrow> at nb p \<longrightarrow> applies f \<longrightarrow>
     (\<exists>f' p' s'. gn (of_nat nb) f p False s = Some (0xffffffff, f', p', s') \<and> pos f' = pos f
        \<and> ok s' \<and> fdata s' = fdata s))"

text \<open>Progress: all bytes from \<open>P\<close> up to \<open>q\<close> have been transferred.\<close>

definition prog :: "bytes \<Rightarrow> nat \<Rightarrow> bytes \<Rightarrow> nat \<Rightarrow> ('o, 'p, 's) xfer \<Rightarrow> bool" where
  "prog F P buf q x \<longleftrightarrow> xtotal x = int (q - P) \<and> xbuf x = splice buf 0 (slice F P (q - P))
     \<and> pos (xfile x) = int q \<and> ok (xdev x) \<and> file_of (xdev x) = F"

lemma file_of_cong: "fdata s' = fdata s \<Longrightarrow> file_of s' = file_of s"
  by (simp add: file_of_def)

lemma prog_extend:
  assumes "P \<le> q" and "q + m \<le> length F" and "q + m - P \<le> length buf"
  shows "splice (splice buf 0 (slice F P (q - P))) (q - P) (slice F q m)
    = splice buf 0 (slice F P (q + m - P))"
proof -
  have l1: "length (slice F P (q - P)) = q - P" and l2: "length (slice F q m) = m"
    using assms by (simp_all add: length_slice)
  have "splice (splice buf 0 (slice F P (q - P))) (length (slice F P (q - P))) (slice F q m)
      = splice buf 0 (slice F P (q - P) @ slice F q m)"
    using assms l1 l2 by (intro splice_extend) simp
  moreover have "slice F P (q - P) @ slice F q m = slice F P (q + m - P)"
    using slice_append_slice [of F P "q - P" m] assms(1) by (simp add: add.commute)
  ultimately show ?thesis using l1 by simp
qed

lemma fread_step:
  assumes pr: "prog F P buf q x" and q: "q = P \<or> P < q \<and> q mod fbs = 0" and PE: "P \<le> q" "q \<le> E"
    and cur: "i = q div fbs" "i < nb" "i \<le> E div fbs" and at: "at i (xopaque x)"
    and E: "E \<le> nb * fbs" "E - P \<le> length buf" and ap: "applies (xfile x)"
  shows "\<exists>x'. fread_block gn dev (of_nat fbs) junk (span_nat fbs P E) (of_nat i) x = Some (True, x')
    \<and> prog F P buf (i * fbs + seg_end fbs E i) x' \<and> at i (xopaque x') \<and> applies (xfile x')"
proof -
  have ok: "ok (xdev x)" and F: "F = file_of (xdev x)" and tot: "xtotal x = int (q - P)"
    and xb: "xbuf x = splice buf 0 (slice F P (q - P))" and px: "pos (xfile x) = int q"
    using pr by (auto simp: prog_def)
  have pos: "0 < fbs" by (rule fbs_pos [OF ok])
  have sb: "nb * fbs + fbs < 2 ^ 31" using size_bound [OF ok] by simp
  have lenF: "length F = nb * fbs" using length_file_of [OF ok] F by simp
  obtain so eo sg where eo_def: "eo = seg_end fbs E i"
    and off: "start_block_offset (span_nat fbs P E) (of_nat i) = of_nat so"
      "last_block_offset (span_nat fbs P E) (of_nat fbs) (of_nat i) = of_nat eo" "so \<le> eo" "eo \<le> fbs"
    and eo: "eo = so + sg" and qi: "q = i * fbs + so" and ib: "i * fbs + fbs \<le> nb * fbs"
    and eE: "i * fbs + eo \<le> E"
    and ubs: "unat (of_nat fbs :: u32) = fbs" and uso: "unat (of_nat so :: u32) = so"
    and ueo: "unat (of_nat eo :: u32) = eo" and useg': "unat (of_nat sg :: u32) = sg"
    and useg: "of_nat eo - of_nat so = (of_nat sg :: u32)"
    by (rule iteration_offsets [OF q PE cur E(1) sb pos])
  obtain b p' s' where gn: "gn (of_nat i) (xfile x) (xopaque x) False (xdev x) = Some (b, xfile x, p', s')"
    "b \<noteq> 0xffffffff" "at i p'" "ok s'" "fdata s' = fdata (xdev x)"
    and rd: "\<And>buf. length buf = fbs \<Longrightarrow> \<exists>s''. block_read dev buf b s'
      = Some (of_nat fbs, fdata (xdev x) i, s'') \<and> ok s'' \<and> fdata s'' = fdata (xdev x)"
    using next_block [OF ok at cur(2) ap] by blast
  have qP: "q - P + (sg) = i * fbs + eo - P" using qi eo PE(1) by simp
  have inbuf: "q - P + (sg) \<le> length buf" using qP eE E(2) by linarith
  have lxb: "length (xbuf x) = length buf"
  proof -
    have "length (slice F P (q - P)) = q - P" using lenF PE(1) qi ib off by (intro length_slice) linarith
    then show ?thesis using inbuf by (simp add: xb length_splice)
  qed
  have small: "int (q - P) + int (sg) < 2 ^ 31" "int q + int (sg) < 2 ^ 31"
  proof -
    have sm: "q + (sg) < 2 ^ 31" using qi eo off(4) ib sb by linarith
    then have "int (q + (sg)) < int (2 ^ 31)" by (simp only: of_nat_less_iff)
    then show *: "int q + int (sg) < 2 ^ 31" by simp
    then show "int (q - P) + int (sg) < 2 ^ 31" by linarith
  qed
  have data: "slice F q (sg) = slice (fdata (xdev x) i) so (sg)"
    using slice_file_of [OF ok cur(2), of so sg] off(4) eo F qi by simp
  have ext: "splice (xbuf x) (q - P) (slice (fdata (xdev x) i) so (sg))
      = splice buf 0 (slice F P (i * fbs + eo - P))"
  proof -
    have "q + (sg) \<le> length F" using lenF ib off(4) eo qi by linarith
    from prog_extend [OF PE(1) this, of buf] show ?thesis
      using xb data qP inbuf qi eo PE(1) by (simp add: add.commute)
  qed
  have posq: "int q + int (sg) = int (i * fbs + eo)" using qi eo by simp
  have tots: "int (q - P) + int (sg) = int (i * fbs + eo - P)" using qP by linarith
  let ?x1 = "x\<lparr>xfile := xfile x, xopaque := p', xdev := s'\<rparr>"
  show ?thesis
  proof (cases "so = 0 \<and> eo = fbs")
    case True
    have T: "so = 0" "eo = fbs" "sg = fbs" using True eo by simp_all
    have "length (slice (xbuf x) (q - P) fbs) = fbs" using inbuf lxb True eo by (intro length_slice) simp
    from rd [OF this] obtain s'' where s'': "block_read dev (slice (xbuf x) (q - P) fbs) b s'
        = Some (of_nat fbs, fdata (xdev x) i, s'')" "ok s''" "fdata s'' = fdata (xdev x)" by blast
    have sbs: "sint (of_nat fbs :: u32) = int fbs" using sb by (intro sint_of_nat32 [simplified]) simp
    have whole: "slice (fdata (xdev x) i) 0 fbs = fdata (xdev x) i"
      using length_fdata [OF ok cur(2)] slice_all [of "fdata (xdev x) i"] by simp
    let ?x' = "?x1\<lparr>xbuf := splice buf 0 (slice F P (i * fbs + eo - P)),
      xtotal := int (i * fbs + eo - P), xfile := (xfile x)\<lparr>pos := int (i * fbs + eo)\<rparr>, xdev := s''\<rparr>"
    have "fread_block gn dev (of_nat fbs) junk (span_nat fbs P E) (of_nat i) x = Some (True, ?x')"
      unfolding fread_block_def Let_def off(1,2)
      using gn(1,2) s''(1) ext whole inbuf lxb tot px posq tots small sbs
      by (simp add: T ubs long_add_small)
    moreover have "prog F P buf (i * fbs + eo) ?x'"
      using s'' F by (simp add: prog_def file_of_def)
    ultimately show ?thesis using gn(3) applies_pos [OF ap] by (auto simp: eo_def)
  next
    case False
    obtain s'' where s'': "block_read dev (malloc_bytes junk fbs) b s'
        = Some (of_nat fbs, fdata (xdev x) i, s'')" "ok s''" "fdata s'' = fdata (xdev x)"
      using rd [of "malloc_bytes junk fbs"] by auto
    have part: "\<not> (of_nat so = (0 :: u32) \<and> of_nat sg = (of_nat fbs :: u32))"
    proof
      assume "of_nat so = (0 :: u32) \<and> of_nat (sg) = (of_nat fbs :: u32)"
      then have "so = 0" "sg = fbs" using uso useg' ubs by (metis unat_0, metis)
      then show False using False eo by simp
    qed
    let ?x' = "?x1\<lparr>xbuf := splice buf 0 (slice F P (i * fbs + eo - P)),
      xtotal := int (i * fbs + eo - P), xfile := (xfile x)\<lparr>pos := int (i * fbs + eo)\<rparr>, xdev := s''\<rparr>"
    have no: "(of_nat so = (0 :: u32) \<and> of_nat sg = (of_nat fbs :: u32)) = False"
      using part by simp
    have ge: "\<not> (of_nat eo :: u32) > of_nat fbs" "\<not> (of_nat eo :: u32) < of_nat so"
      using off by (simp_all add: word_less_nat_alt ubs ueo uso)
    have "fread_block gn dev (of_nat fbs) junk (span_nat fbs P E) (of_nat i) x = Some (True, ?x')"
      unfolding fread_block_def Let_def off(1,2) useg no
      using gn(1,2) s''(1) ext inbuf lxb tot px posq tots small ge off(3,4) eo
      by (simp add: ubs uso ueo useg' long_add_small)
    moreover have "prog F P buf (i * fbs + eo) ?x'"
      using s'' F by (simp add: prog_def file_of_def)
    ultimately show ?thesis using gn(3) applies_pos [OF ap] by (auto simp: eo_def)
  qed
qed

lemma fread_loop:
  assumes "prog F P buf q x" and "q = P \<or> P < q \<and> q mod fbs = 0" and "P \<le> q" and "q \<le> E"
    and "at (q div fbs) (xopaque x)" and "applies (xfile x)"
    and "E \<le> nb * fbs" and "E - P \<le> length buf" and "E < nb * fbs \<or> ends"
  shows "\<exists>x'. block_loop (fread_block gn dev (of_nat fbs) junk (span_nat fbs P E)) (of_nat (E div fbs))
      (of_nat (q div fbs)) x = Some x' \<and> prog F P buf E x'"
  using assms
proof (induction "E div fbs - q div fbs" arbitrary: q x rule: less_induct)
  case less
  note prems = less.prems
  define i where "i = q div fbs"
  have ok: "ok (xdev x)" using prems(1) by (simp add: prog_def)
  have pos: "0 < fbs" by (rule fbs_pos [OF ok])
  have sb: "nb * fbs + fbs < 2 ^ 31" using size_bound [OF ok] by simp
  have iE: "i \<le> E div fbs" unfolding i_def by (rule div_le_mono [OF prems(4)])
  note ule = index_le [OF prems(7) sb]
  let ?body = "fread_block gn dev (of_nat fbs) junk (span_nat fbs P E)"
  have unf: "block_loop ?body (of_nat (E div fbs)) (of_nat i) x = do {
      (go, x') \<leftarrow> ?body (of_nat i) x;
      if go then block_loop ?body (of_nat (E div fbs)) (of_nat i + 1) x' else Some x' }"
    using iE ule [of i] by (subst block_loop.simps) simp
  show ?case
  proof (cases "i < nb")
    case True
    obtain x1 where x1: "?body (of_nat i) x = Some (True, x1)"
      "prog F P buf (i * fbs + seg_end fbs E i) x1" "at i (xopaque x1)" "applies (xfile x1)"
      using fread_step [OF prems(1-4) i_def True iE _ prems(7,8,6)] prems(5) by (auto simp: i_def)
    show ?thesis
    proof (cases "i = E div fbs")
      case last: True
      have "i * fbs + seg_end fbs E i = E" using last by (simp add: seg_end_def)
      moreover have "block_loop ?body (of_nat (E div fbs)) (of_nat i + 1) x1 = Some x1"
        using ule [of "i + 1"] last by (subst block_loop.simps) (simp add: add.commute)
      ultimately show ?thesis using x1 unf by (auto simp: i_def)
    next
      case False
      let ?q = "Suc i * fbs"
      have q': "i * fbs + seg_end fbs E i = ?q" using False by (simp add: seg_end_def)
      have qd: "?q div fbs = Suc i" using pos by simp
      have "Suc i \<le> E div fbs" using False iE by simp
      then have "?q \<le> E div fbs * fbs" by (rule mult_right_mono) simp
      then have qE: "?q \<le> E" using div_times_less_eq_dividend le_trans by blast
      have "q = i * fbs + q mod fbs" by (simp add: i_def)
      moreover have "q mod fbs < fbs" using pos by simp
      ultimately have Pq: "P < ?q" using prems(3) by (simp only: mult_Suc)
      have "\<exists>x'. block_loop ?body (of_nat (E div fbs)) (of_nat (?q div fbs)) x1 = Some x'
          \<and> prog F P buf E x'"
      proof (rule less.hyps)
        show "E div fbs - ?q div fbs < E div fbs - q div fbs"
          using qd False iE by (simp add: i_def)
        show "prog F P buf ?q x1" using x1(2) q' by simp
        show "?q = P \<or> P < ?q \<and> ?q mod fbs = 0" using Pq by simp
        show "P \<le> ?q" using Pq by simp
        show "at (?q div fbs) (xopaque x1)" using at_mono [OF x1(3), of "Suc i"] qd by simp
      qed (use qE x1(4) prems(7-9) in auto)
      then show ?thesis using unf x1(1) unfolding qd by (simp add: i_def add.commute)
    qed
  next
    case False
    have "i * fbs \<le> q" by (simp add: i_def)
    moreover have "nb * fbs \<le> i * fbs" using False by (intro mult_right_mono) auto
    ultimately have q: "q = E" "i * fbs = nb * fbs" using prems(4,7) by linarith+
    then have nb: "i = nb" using pos by simp
    have endE: "\<not> E < nb * fbs" using q \<open>i * fbs \<le> q\<close> by linarith
    obtain f' p' s' where gn: "gn (of_nat nb) (xfile x) (xopaque x) False (xdev x)
        = Some (0xffffffff, f', p', s')" "pos f' = pos (xfile x)" "ok s'" "fdata s' = fdata (xdev x)"
      using prems(9) ok prems(5) [folded i_def, unfolded nb] prems(6) endE unfolding ends_def by blast
    have "?body (of_nat i) x = Some (False, x\<lparr>xfile := f', xopaque := p', xdev := s'\<rparr>)"
      using gn(1) by (simp add: nb fread_block_def Let_def)
    moreover have "prog F P buf E (x\<lparr>xfile := f', xopaque := p', xdev := s'\<rparr>)"
      using prems(1) gn q by (simp add: prog_def file_of_def)
    ultimately show ?thesis using unf by (simp add: i_def)
  qed
qed

lemma fread_range:
  assumes ok: "ok s" and f: "applies f" "0 \<le> pos f" and at: "at 0 p"
    and n: "nat (pos f) + n \<le> nb * fbs" "n \<le> length buf"
    and e: "nat (pos f) + n < nb * fbs \<or> ends"
  shows "\<exists>f' p' s'. fs_fread gn dev (of_nat fbs) junk buf (of_nat n) f p s
      = Some (of_nat n, splice buf 0 (slice (file_of s) (nat (pos f)) n), f', p', s')
    \<and> pos f' = pos f + int n \<and> ok s' \<and> file_of s' = file_of s"
proof -
  define P E where "P = nat (pos f)" and "E = nat (pos f) + n"
  have pos: "0 < fbs" by (rule fbs_pos [OF ok])
  have sb: "nb * fbs + fbs < 2 ^ 31" using size_bound [OF ok] by simp
  have bnd: "P < 2 ^ 31" "E < 2 ^ 31" "n < 2 ^ 31" "fbs < 2 ^ 31"
    using n(1) sb by (simp_all add: P_def E_def)
  have uP: "unat (word_of_int (pos f) :: u32) = P"
    using f(2) bnd(1) unat_word_of_int32 [of "pos f"] by (simp add: P_def)
  have ubs: "unat (of_nat fbs :: u32) = fbs" using bnd by (simp add: word_nat_simps)
  have span: "span_of (of_nat fbs) (pos f) (of_nat n) = span_nat fbs P E"
    unfolding P_def E_def by (rule span_of_nat) (use f(2) bnd in \<open>simp_all add: E_def\<close>)
  let ?x = "\<lparr>xbuf = buf, xtotal = 0, xfile = f, xopaque = p, xdev = s\<rparr>"
  have "prog (file_of s) P buf P ?x"
    using ok f(2) by (simp add: prog_def splice_def P_def)
  moreover have "at (P div fbs) (xopaque ?x)" using at_mono [OF at] by simp
  ultimately obtain x' where x': "block_loop (fread_block gn dev (of_nat fbs) junk (span_nat fbs P E))
      (of_nat (E div fbs)) (of_nat (P div fbs)) ?x = Some x'" "prog (file_of s) P buf E x'"
    using fread_loop [of "file_of s" P buf P ?x E] f(1) n e by (auto simp: P_def E_def)
  have "(of_nat fbs :: u32) \<noteq> 0" using ubs pos by auto
  then show ?thesis
    using x' f(2) unfolding fs_fread_def span
    by (auto simp: Let_def span_nat_def prog_def P_def E_def)
qed

end

text \<open>A callback that refuses the block after the last one allows reads up to the end.\<close>

locale file_blocks = block_map gn dev fbs nb ok fdata at applies
  for gn :: "('o, 'p, 's) get_next" and dev :: "'s block_device" and fbs nb :: nat
    and ok :: "'s \<Rightarrow> bool" and fdata :: "'s \<Rightarrow> nat \<Rightarrow> bytes" and at :: "nat \<Rightarrow> 'p \<Rightarrow> bool"
    and applies :: "'o mb_file \<Rightarrow> bool" +
  assumes no_next_block: "ok s \<Longrightarrow> at nb p \<Longrightarrow> applies f \<Longrightarrow>
      \<exists>f' p' s'. gn (of_nat nb) f p False s = Some (0xffffffff, f', p', s') \<and> pos f' = pos f
        \<and> ok s' \<and> fdata s' = fdata s"
begin

lemma fread_ok:
  assumes "ok s" and "applies f" and "0 \<le> pos f" and "at 0 p"
    and "nat (pos f) + n \<le> nb * fbs" and "n \<le> length buf"
  shows "\<exists>f' p' s'. fs_fread gn dev (of_nat fbs) junk buf (of_nat n) f p s
      = Some (of_nat n, splice buf 0 (slice (file_of s) (nat (pos f)) n), f', p', s')
    \<and> pos f' = pos f + int n \<and> ok s' \<and> file_of s' = file_of s"
proof -
  have "ends" unfolding ends_def using no_next_block by blast
  then show ?thesis using fread_range [OF assms] by blast
qed

end

end
