(* ===== verification/Fat.thy ===== *)
theory Fat
  imports Libfs
begin

text \<open>
  The FAT file system (\<open>rboot/fat.c\<close>): reading the boot sector (\<open>fat_init\<close>), following the
  cluster chains (\<open>get_next_fat_entry\<close>, \<open>fat_get_next_bdev_block_num\<close>), directories
  (\<open>fat_read_dir\<close>, \<open>fat_read_directory\<close>) and the file operations. The packed structures of the
  code are read here at their byte offsets in the sector: \<open>struct fat_BS\<close> at 0 and its union
  \<open>ext\<close> at 36. A stream's \<open>opaque\<close> is the first cluster of the file.

  The main result is that \<open>fat_fread\<close> returns the bytes of the clusters of the chain.
\<close>

section \<open>Structures\<close>

record 's fat_fs =
  fat_ident :: nat
  fat_parent :: "'s block_device"
  fat_fs_name :: string
  fat_block_size :: u32
  fat_type :: nat
  total_sectors :: u32
  sectors_per_cluster :: u32
  bytes_per_sector :: u32
  vol_label :: bytes
  first_fat_sector :: u32
  first_data_sector :: u32
  sectors_per_fat :: u32
  root_dir_entries :: u32
  root_dir_sectors :: u32
  first_non_root_sector :: u32
  root_dir_cluster :: u32

definition FAT12 :: nat where "FAT12 = 0"
definition FAT16 :: nat where "FAT16 = 1"
definition FAT32 :: nat where "FAT32 = 2"

lemmas fat_types = FAT12_def FAT16_def FAT32_def

definition fat_names :: "nat \<Rightarrow> string" where
  "fat_names t = [''FAT12'', ''FAT16'', ''FAT32'', ''VFAT''] ! t"

text \<open>The fields of the boot sector.\<close>

definition bs_bytes_per_sector :: "bytes \<Rightarrow> u32" where
  "bs_bytes_per_sector b = ucast (read_halfword b 11)"

definition bs_sectors_per_cluster :: "bytes \<Rightarrow> u32" where
  "bs_sectors_per_cluster b = ucast (b ! 13)"

definition bs_reserved_sector_count :: "bytes \<Rightarrow> u32" where
  "bs_reserved_sector_count b = ucast (read_halfword b 14)"

definition bs_table_count :: "bytes \<Rightarrow> u32" where
  "bs_table_count b = ucast (b ! 16)"

definition bs_root_entry_count :: "bytes \<Rightarrow> u32" where
  "bs_root_entry_count b = ucast (read_halfword b 17)"

definition bs_total_sectors_16 :: "bytes \<Rightarrow> u32" where
  "bs_total_sectors_16 b = ucast (read_halfword b 19)"

definition bs_table_size_16 :: "bytes \<Rightarrow> u32" where
  "bs_table_size_16 b = ucast (read_halfword b 22)"

definition bs_total_sectors_32 :: "bytes \<Rightarrow> u32" where
  "bs_total_sectors_32 b = read_word b 32"

definition bs_table_size_32 :: "bytes \<Rightarrow> u32" where
  "bs_table_size_32 b = read_word b 36"

definition bs_root_cluster :: "bytes \<Rightarrow> u32" where
  "bs_root_cluster b = read_word b 44"

definition fat32_label_offset :: nat where "fat32_label_offset = 71"
definition fat16_label_offset :: nat where "fat16_label_offset = 43"

record fat_file_block_offset =
  f_block :: u32
  cluster :: u32

section \<open>fat_init\<close>

text \<open>\<open>strcpy\<close> from the sector into the 12 bytes of \<open>vol_label\<close>: \<^term>\<open>None\<close> when there is no
  terminator in the rest of the sector or when more than 12 bytes are copied.\<close>

definition copy_label :: "(nat \<Rightarrow> u8) \<Rightarrow> bytes \<Rightarrow> nat \<Rightarrow> bytes option" where
  "copy_label junk block_0 off =
     (let label = takeWhile (\<lambda>c. c \<noteq> 0) (drop off block_0) in
      if off + length label \<ge> length block_0 then None
      else if length label + 1 > 12 then None
      else Some ((splice (malloc_bytes junk 12) 0 (label @ [0]))[11 := 0]))"

definition fat_geometry :: "nat \<Rightarrow> 's block_device \<Rightarrow> (nat \<Rightarrow> u8) \<Rightarrow> bytes \<Rightarrow> 's fat_fs option" where
  "fat_geometry ident parent junk bs =
     (let total = (if bs_total_sectors_16 bs = 0 then bs_total_sectors_32 bs
                   else bs_total_sectors_16 bs);
          bps = bs_bytes_per_sector bs;
          spc = bs_sectors_per_cluster bs;
          entries = bs_root_entry_count bs
      in if bps = 0 then None
         else
           (let root_sectors = (entries * 32 + bps - 1) div bps;
                fat_size = (if bs_table_size_16 bs = 0 then bs_table_size_32 bs
                            else bs_table_size_16 bs);
                data_sec = total - (bs_reserved_sector_count bs + bs_table_count bs * fat_size
                                    + root_sectors)
            in if spc = 0 then None
               else
                 (let total_clusters = data_sec div spc;
                      ft = (if total_clusters < 4085 then FAT12
                            else if total_clusters < 65525 then FAT16 else FAT32);
                      table_size = (if ft = FAT32 then bs_table_size_32 bs else bs_table_size_16 bs);
                      first_data = bs_reserved_sector_count bs + bs_table_count bs * table_size
                  in do {
                    label \<leftarrow> copy_label junk bs
                      (if ft = FAT32 then fat32_label_offset else fat16_label_offset);
                    Some \<lparr>fat_ident = ident, fat_parent = parent, fat_fs_name = fat_names ft,
                      fat_block_size = bps * spc, fat_type = ft, total_sectors = total,
                      sectors_per_cluster = spc, bytes_per_sector = bps, vol_label = label,
                      first_fat_sector = bs_reserved_sector_count bs,
                      first_data_sector = first_data, sectors_per_fat = table_size,
                      root_dir_entries = entries, root_dir_sectors = root_sectors,
                      first_non_root_sector =
                        (if ft = FAT32 then first_data else first_data + root_sectors),
                      root_dir_cluster = (if ft = FAT32 then bs_root_cluster bs else 2)\<rparr>
                  })))"

definition fat_init ::
  "nat \<Rightarrow> (nat \<Rightarrow> u8) \<Rightarrow> 's block_device \<Rightarrow> 's \<Rightarrow> (int \<times> 's fat_fs option \<times> 's) option" where
  "fat_init ident junk parent s = do {
     (r, block_0, s') \<leftarrow> block_read parent (malloc_bytes junk 512) 0 s;
     if sint r < 0 then Some (sint r, None, s')
     else if r \<noteq> 512 then Some (-1, None, s')
     else if block_0 ! 0 \<noteq> 0xeb then Some (-1, None, s')
     else do {
       fat \<leftarrow> fat_geometry ident parent junk block_0;
       Some (0, Some fat, s')
     }
   }"

section \<open>Cluster chains\<close>

definition get_sector :: "'s fat_fs \<Rightarrow> u32 \<Rightarrow> u32" where
  "get_sector fs rel_cluster =
     first_non_root_sector fs + (rel_cluster - 2) * sectors_per_cluster fs"

text \<open>The two formats differ in the shift of the offset and the width of the entry.\<close>

definition get_next_fat_entry ::
  "(nat \<Rightarrow> u8) \<Rightarrow> 's fat_fs \<Rightarrow> u32 \<Rightarrow> 's \<Rightarrow> (u32 \<times> 's) option" where
  "get_next_fat_entry junk fs current_cluster s =
     (if fat_type fs = FAT16 then
        (let fat_offset = push_bit 1 current_cluster in
         if bytes_per_sector fs = 0 then None
         else do {
           (r, buf, s') \<leftarrow> block_read (fat_parent fs) (malloc_bytes junk 512)
             (first_fat_sector fs + fat_offset div bytes_per_sector fs) s;
           if sint r < 0 then Some (0x0ffffff7, s')
           else
             (let fat_index = unat (fat_offset mod bytes_per_sector fs) in
              if fat_index + 2 > 512 then None
              else
                (let next_cluster = ucast (read_halfword buf fat_index) :: u32 in
                 Some (if next_cluster \<ge> 0xfff7 then next_cluster OR 0x0fff0000
                       else next_cluster, s')))
         })
      else if fat_type fs = FAT32 then
        (let fat_offset = push_bit 2 current_cluster in
         if bytes_per_sector fs = 0 then None
         else do {
           (r, buf, s') \<leftarrow> block_read (fat_parent fs) (malloc_bytes junk 512)
             (first_fat_sector fs + fat_offset div bytes_per_sector fs) s;
           if sint r < 0 then Some (0x0ffffff7, s')
           else
             (let fat_index = unat (fat_offset mod bytes_per_sector fs) in
              if fat_index + 4 > 512 then None
              else Some (read_word buf fat_index AND 0x0fffffff, s'))
         })
      else Some (0, s))"

text \<open>\<open>while((ffbo->f_block != f_block_idx) && (ffbo->cluster < 0x0ffffff8))\<close>\<close>

partial_function (option) fat_walk ::
  "(nat \<Rightarrow> u8) \<Rightarrow> 's fat_fs \<Rightarrow> u32 \<Rightarrow> fat_file_block_offset \<Rightarrow> 's \<Rightarrow>
   (fat_file_block_offset \<times> 's) option" where
  "fat_walk junk fs f_block_idx ffbo s =
     (if f_block ffbo \<noteq> f_block_idx \<and> cluster ffbo < 0x0ffffff8 then
        do {
          (c, s') \<leftarrow> get_next_fat_entry junk fs (cluster ffbo) s;
          fat_walk junk fs f_block_idx (ffbo\<lparr>cluster := c, f_block := f_block ffbo + 1\<rparr>) s'
        }
      else Some (ffbo, s))"

definition fat_get_next_bdev_block_num ::
  "(nat \<Rightarrow> u8) \<Rightarrow> 's fat_fs \<Rightarrow> (u32, fat_file_block_offset, 's) get_next" where
  "fat_get_next_bdev_block_num junk fs f_block_idx f ffbo add_blocks s = do {
     (ffbo', s') \<leftarrow> fat_walk junk fs f_block_idx ffbo s;
     if cluster ffbo' < 0x0ffffff8 then Some (get_sector fs (cluster ffbo'), f, ffbo', s')
     else Some (0xffffffff, f\<lparr>flags := flags f OR VFS_FLAGS_EOF\<rparr>, ffbo', s')
   }"

section \<open>Files\<close>

definition fat_fopen ::
  "'s fat_fs \<Rightarrow> u32 mb_dirent \<Rightarrow> string \<Rightarrow> 's world \<Rightarrow> u32 mb_file option \<times> 's world" where
  "fat_fopen fs path m w =
     (if fat_ident fs \<noteq> de_fs path then (None, w\<lparr>errno_of := Some EFAULT\<rparr>)
      else if m \<noteq> ''r'' then (None, w\<lparr>errno_of := Some EROFS\<rparr>)
      else (Some \<lparr>file_fs = fat_ident fs, pos = 0, mode = 0, opaque = de_opaque path,
                  len = sint (de_byte_size path), flags = 0\<rparr>, w))"

definition fat_fread ::
  "(nat \<Rightarrow> u8) \<Rightarrow> 's fat_fs \<Rightarrow> bytes \<Rightarrow> u32 \<Rightarrow> u32 mb_file \<Rightarrow> 's \<Rightarrow>
   (u32 \<times> bytes \<times> u32 mb_file \<times> 's) option" where
  "fat_fread junk fs ptr nbytes stream s =
     (if file_fs stream \<noteq> fat_ident fs then Some (-1, ptr, stream, s)
      else if opaque stream = 0 then Some (-1, ptr, stream, s)
      else do {
        (n, buf, f, _, s') \<leftarrow> fs_fread (fat_get_next_bdev_block_num junk fs) (fat_parent fs)
          (fat_block_size fs) junk ptr nbytes stream \<lparr>f_block = 0, cluster = opaque stream\<rparr> s;
        Some (n, buf, f, s')
      })"

definition fat_fclose :: "'s fat_fs \<Rightarrow> u32 mb_file \<Rightarrow> int" where
  "fat_fclose fs fp = 0"

section \<open>Directories\<close>

text \<open>The name of an 8.3 entry: blanks are skipped, a dot is put in before position 8 (and taken
  away again if there is no extension), upper case letters become lower case.\<close>

definition fat_lower :: "u8 \<Rightarrow> char" where
  "fat_lower c = char_of (unat (if 65 \<le> c \<and> c \<le> 90 then 97 + c - 65 else c))"

fun fat_name_loop :: "nat \<Rightarrow> bytes \<Rightarrow> string \<times> bool \<Rightarrow> string \<times> bool" where
  "fat_name_loop i [] st = st"
| "fat_name_loop i (c # cs) (name, has_ext) =
     (let name' = (if i = 8 then name @ ''.'' else name) in
      if c = 32 then fat_name_loop (Suc i) cs (name', has_ext)
      else fat_name_loop (Suc i) cs (name' @ [fat_lower c], has_ext \<or> i \<ge> 8))"

definition fat_decode_name :: "bytes \<Rightarrow> string" where
  "fat_decode_name raw =
     (let (name, has_ext) = fat_name_loop 0 raw ([], False) in
      takeWhile (\<lambda>c. c \<noteq> char_of (0 :: nat)) (if has_ext then name else butlast name))"

definition fat_dirent :: "nat \<Rightarrow> bytes \<Rightarrow> nat \<Rightarrow> u32 mb_dirent" where
  "fat_dirent ident buf ptr =
     \<lparr>de_name = fat_decode_name (slice buf ptr 11),
      de_byte_size = read_word buf (ptr + 28),
      is_dir = (buf ! (ptr + 11) AND 0x10 \<noteq> 0),
      de_opaque = ucast (read_halfword buf (ptr + 26))
                  OR push_bit 16 (ucast (read_halfword buf (ptr + 20))),
      de_fs = ident\<rparr>"

text \<open>The loop over the entries of one cluster.\<close>

primrec fat_entries :: "nat \<Rightarrow> bytes \<Rightarrow> nat list \<Rightarrow> u32 mb_dirent list option" where
  "fat_entries ident buf [] = Some []"
| "fat_entries ident buf (ptr # ptrs) =
     (if buf ! ptr = 0 \<or> buf ! ptr = 0xe5 then fat_entries ident buf ptrs
      else if buf ! ptr = 46 then fat_entries ident buf ptrs
      else if ptr + 11 \<ge> length buf then None
      else if buf ! (ptr + 11) = 0x0f then fat_entries ident buf ptrs
      else if ptr + 32 > length buf then None
      else do {
        des \<leftarrow> fat_entries ident buf ptrs;
        Some (fat_dirent ident buf ptr # des)
      })"

definition entry_offsets :: "nat \<Rightarrow> nat list" where
  "entry_offsets cluster_size = map (\<lambda>k. 32 * k) [0..<(cluster_size + 31) div 32]"

text \<open>The \<open>do ... while\<close> loop over the clusters of a directory; \<open>off\<close> is
  \<open>cur_root_cluster_offset\<close>. A failed read makes the whole result the empty list.\<close>

partial_function (option) fat_read_clusters ::
  "(nat \<Rightarrow> u8) \<Rightarrow> 's fat_fs \<Rightarrow> bool \<Rightarrow> u32 \<Rightarrow> u32 \<Rightarrow> u32 mb_dirent list \<Rightarrow> 's \<Rightarrow>
   (u32 mb_dirent list \<times> 's) option" where
  "fat_read_clusters junk fs is_root cur_cluster off acc s =
     (let cluster_size = bytes_per_sector fs * sectors_per_cluster fs;
          absolute_cluster = cur_cluster - 2;
          first_sector = (if is_root then first_data_sector fs else first_non_root_sector fs)
      in do {
        (r, buf, s') \<leftarrow> block_read (fat_parent fs) (malloc_bytes junk (unat cluster_size))
          (absolute_cluster * sectors_per_cluster fs + first_sector) s;
        if sint r < 0 then Some ([], s')
        else do {
          des \<leftarrow> fat_entries (fat_ident fs) buf (entry_offsets (unat cluster_size));
          (if is_root \<and> fat_type fs \<noteq> FAT32 then
             (if sectors_per_cluster fs = 0 then None
              else if off + 1 < root_dir_sectors fs div sectors_per_cluster fs then
                (if cur_cluster + 1 < 0x0ffffff7
                 then fat_read_clusters junk fs is_root (cur_cluster + 1) (off + 1) (acc @ des) s'
                 else Some (acc @ des, s'))
              else Some (acc @ des, s'))
           else do {
             (next, s'') \<leftarrow> get_next_fat_entry junk fs cur_cluster s';
             if next < 0x0ffffff7
             then fat_read_clusters junk fs is_root next off (acc @ des) s''
             else Some (acc @ des, s'')
           })
        }
      })"

definition fat_read_dir ::
  "(nat \<Rightarrow> u8) \<Rightarrow> 's fat_fs \<Rightarrow> u32 mb_dirent option \<Rightarrow> 's \<Rightarrow> (u32 mb_dirent list \<times> 's) option" where
  "fat_read_dir junk fs d s =
     (case d of
        None \<Rightarrow> fat_read_clusters junk fs True (root_dir_cluster fs) 0 [] s
      | Some de \<Rightarrow> fat_read_clusters junk fs False (de_opaque de) 0 [] s)"

primrec fat_walk_path ::
  "(nat \<Rightarrow> u8) \<Rightarrow> 's fat_fs \<Rightarrow> string list \<Rightarrow> u32 mb_dirent list \<Rightarrow> 's world \<Rightarrow>
   (u32 mb_dirent list \<times> 's world) option" where
  "fat_walk_path junk fs [] cur_dir w = Some (cur_dir, w)"
| "fat_walk_path junk fs (name # names) cur_dir w =
     (case find (\<lambda>d. de_name d = name) cur_dir of
        None \<Rightarrow> Some ([], w\<lparr>errno_of := Some ENOENT\<rparr>)
      | Some d \<Rightarrow>
          if \<not> is_dir d then Some ([], w\<lparr>errno_of := Some ENOTDIR\<rparr>)
          else do {
            (sub, s') \<leftarrow> fat_read_dir junk fs (Some d) (dev_state w);
            fat_walk_path junk fs names sub (w\<lparr>dev_state := s'\<rparr>)
          })"

definition fat_read_directory ::
  "(nat \<Rightarrow> u8) \<Rightarrow> 's fat_fs \<Rightarrow> string list \<Rightarrow> 's world \<Rightarrow>
   (u32 mb_dirent list \<times> 's world) option" where
  "fat_read_directory junk fs name w = do {
     (root, s') \<leftarrow> fat_read_dir junk fs None (dev_state w);
     fat_walk_path junk fs name root (w\<lparr>dev_state := s'\<rparr>)
   }"

section \<open>Reading a file along its chain\<close>

text \<open>The allocation table as a function of the contents \<open>C\<close> of the device, and the chain from
  a first cluster.\<close>

definition fat_offset_of :: "'s fat_fs \<Rightarrow> u32 \<Rightarrow> u32" where
  "fat_offset_of fs c = push_bit (if fat_type fs = FAT16 then 1 else 2) c"

definition fat_sector_of :: "'s fat_fs \<Rightarrow> u32 \<Rightarrow> u32" where
  "fat_sector_of fs c = first_fat_sector fs + fat_offset_of fs c div 512"

definition fat_entry_of :: "'s fat_fs \<Rightarrow> (nat \<Rightarrow> bytes) \<Rightarrow> u32 \<Rightarrow> u32" where
  "fat_entry_of fs C c =
     (let sector = C (unat (fat_sector_of fs c)); i = unat (fat_offset_of fs c mod 512) in
      if fat_type fs = FAT16 then
        (let next = ucast (read_halfword sector i) in
         if next \<ge> 0xfff7 then next OR 0x0fff0000 else next)
      else read_word sector i AND 0x0fffffff)"

definition fat_chain :: "'s fat_fs \<Rightarrow> (nat \<Rightarrow> bytes) \<Rightarrow> u32 \<Rightarrow> nat \<Rightarrow> u32" where
  "fat_chain fs C c0 i = (fat_entry_of fs C ^^ i) c0"

text \<open>A file of \<open>nb\<close> clusters starting at \<open>c0\<close>: the clusters and the table entries that link them lie
  inside the device of \<open>n\<close> sectors, and the chain ends after \<open>nb\<close>.\<close>

definition fat_file_ok :: "'s fat_fs \<Rightarrow> nat \<Rightarrow> (nat \<Rightarrow> bytes) \<Rightarrow> u32 \<Rightarrow> nat \<Rightarrow> bool" where
  "fat_file_ok fs n C c0 nb \<longleftrightarrow>
     (fat_type fs = FAT16 \<or> fat_type fs = FAT32) \<and> bytes_per_sector fs = 512 \<and>
     block_size (fat_parent fs) = 512 \<and> 0 < unat (sectors_per_cluster fs) \<and>
     unat (fat_block_size fs) = unat (sectors_per_cluster fs) * 512 \<and>
     Suc nb * unat (fat_block_size fs) < 2 ^ 31 \<and>
     (\<forall>i < nb. fat_chain fs C c0 i < 0x0ffffff8 \<and>
        unat (fat_sector_of fs (fat_chain fs C c0 i)) < n \<and>
        get_sector fs (fat_chain fs C c0 i) \<noteq> 0xffffffff \<and>
        unat (get_sector fs (fat_chain fs C c0 i)) + unat (sectors_per_cluster fs) \<le> n) \<and>
     0x0ffffff8 \<le> fat_chain fs C c0 nb"

definition fat_ok ::
  "'s fat_fs \<Rightarrow> nat \<Rightarrow> ('s \<Rightarrow> bool) \<Rightarrow> ('s \<Rightarrow> nat \<Rightarrow> bytes) \<Rightarrow> (nat \<Rightarrow> bytes) \<Rightarrow> u32 \<Rightarrow> nat \<Rightarrow> 's \<Rightarrow> bool" where
  "fat_ok fs n dinv dcontent C c0 nb s \<longleftrightarrow>
     (\<exists>rd wr. dev_read (fat_parent fs) = Some rd \<and> block_store rd wr 512 n dinv dcontent) \<and>
     fat_file_ok fs n C c0 nb \<and> dinv s \<and> dcontent s = C"

definition fat_at :: "'s fat_fs \<Rightarrow> (nat \<Rightarrow> bytes) \<Rightarrow> u32 \<Rightarrow> nat \<Rightarrow> fat_file_block_offset \<Rightarrow> bool" where
  "fat_at fs C c0 i p \<longleftrightarrow>
     (\<exists>j \<le> i. p = \<lparr>f_block = of_nat j, cluster = fat_chain fs C c0 j\<rparr>)"

lemma shifted_index:
  "unat (push_bit 1 (c :: u32) mod 512) + 2 \<le> 512" "unat (push_bit 2 (c :: u32) mod 512) + 4 \<le> 512"
proof -
  have "unat (push_bit 1 c mod 512) = unat c * 2 mod 2 ^ 32 mod 512"
    by (simp add: unat_mod push_bit_eq_mult unat_word_ariths mult.commute)
  also have "\<dots> = 2 * unat c mod (2 * 256)" by (simp add: mod_mod_cancel mult.commute)
  also have "\<dots> = 2 * (unat c mod 256)" by (rule mult_mod_right [symmetric])
  finally have *: "unat (push_bit 1 c mod 512) = 2 * (unat c mod 256)" .
  have "unat c mod 256 < 256" by simp
  with * show "unat (push_bit 1 c mod 512) + 2 \<le> 512" by linarith
  have "unat (push_bit 2 c mod 512) = unat c * 4 mod 2 ^ 32 mod 512"
    by (simp add: unat_mod push_bit_eq_mult unat_word_ariths mult.commute)
  also have "\<dots> = 4 * unat c mod (4 * 128)" by (simp add: mod_mod_cancel mult.commute)
  also have "\<dots> = 4 * (unat c mod 128)" by (rule mult_mod_right [symmetric])
  finally have *: "unat (push_bit 2 c mod 512) = 4 * (unat c mod 128)" .
  have "unat c mod 128 < 128" by simp
  with * show "unat (push_bit 2 c mod 512) + 4 \<le> 512" by linarith
qed

lemma fat_read_blocks:
  assumes ok: "fat_ok fs n dinv dcontent C c0 nb s" and "0 < k" and "length buf = k * 512"
    and "unat b + k \<le> n" and "k * 512 < 2 ^ 31"
  shows "\<exists>s'. block_read (fat_parent fs) buf b s = Some (of_nat (k * 512), load_blocks C (unat b) k, s')
    \<and> fat_ok fs n dinv dcontent C c0 nb s'"
proof -
  obtain rd wr where rd: "dev_read (fat_parent fs) = Some rd" "block_store rd wr 512 n dinv dcontent"
    and s: "dinv s" "dcontent s = C" and bs: "unat (block_size (fat_parent fs)) = 512"
    using ok by (auto simp: fat_ok_def fat_file_ok_def)
  from block_store.layer_read [OF rd(2,1) bs s(1) assms(2-5)]
  show ?thesis using ok s(2) by (auto simp: fat_ok_def)
qed

lemma fat_next_entry:
  assumes ok: "fat_ok fs n dinv dcontent C c0 nb s" and "unat (fat_sector_of fs c) < n"
  shows "\<exists>s'. get_next_fat_entry junk fs c s = Some (fat_entry_of fs C c, s')
    \<and> fat_ok fs n dinv dcontent C c0 nb s'"
proof -
  have ty: "fat_type fs = FAT16 \<or> fat_type fs = FAT32" and bps: "bytes_per_sector fs = 512"
    using ok by (auto simp: fat_ok_def fat_file_ok_def)
  obtain s' where s': "block_read (fat_parent fs) (malloc_bytes junk 512) (fat_sector_of fs c) s
      = Some (512, C (unat (fat_sector_of fs c)), s')" "fat_ok fs n dinv dcontent C c0 nb s'"
    using fat_read_blocks [OF ok, of 1 "malloc_bytes junk 512" "fat_sector_of fs c"] assms(2)
    by (auto simp: load_blocks_def)
  have "\<not> unat (push_bit 1 c mod 512) + 2 > 512" "\<not> unat (push_bit 2 c mod 512) + 4 > 512"
    using shifted_index [of c] by linarith+
  then show ?thesis
    using ty
  proof (elim disjE)
    assume t: "fat_type fs = FAT16"
    have "block_read (fat_parent fs) (malloc_bytes junk 512)
        (first_fat_sector fs + push_bit 1 c div 512) s = Some (512, C (unat (fat_sector_of fs c)), s')"
      using s'(1) t by (simp add: fat_sector_of_def fat_offset_of_def)
    then show ?thesis
      using s'(2) t \<open>\<not> unat (push_bit 1 c mod 512) + 2 > 512\<close>
      by (simp add: get_next_fat_entry_def fat_entry_of_def bps fat_offset_of_def Let_def)
  next
    assume t: "fat_type fs = FAT32"
    have "block_read (fat_parent fs) (malloc_bytes junk 512)
        (first_fat_sector fs + push_bit 2 c div 512) s = Some (512, C (unat (fat_sector_of fs c)), s')"
      using s'(1) t by (simp add: fat_sector_of_def fat_offset_of_def fat_types)
    then show ?thesis
      using s'(2) t \<open>\<not> unat (push_bit 2 c mod 512) + 4 > 512\<close>
      by (simp add: get_next_fat_entry_def fat_entry_of_def bps fat_offset_of_def Let_def fat_types)
  qed
qed

lemma fat_file_bounds:
  assumes "fat_file_ok fs n C c0 nb"
  shows "nb < 2 ^ 31"
proof -
  have "0 < unat (fat_block_size fs)" and b: "Suc nb * unat (fat_block_size fs) < 2 ^ 31"
    using assms by (auto simp: fat_file_ok_def)
  then have "Suc nb * 1 \<le> Suc nb * unat (fat_block_size fs)" by (intro mult_left_mono) auto
  then have "Suc nb \<le> Suc nb * unat (fat_block_size fs)" by (simp only: mult_1_right)
  with b show ?thesis by linarith
qed

lemma fat_walk_ok:
  assumes "fat_ok fs n dinv dcontent C c0 nb s" and "j \<le> i" and "i \<le> nb"
  shows "\<exists>s'. fat_walk junk fs (of_nat i) \<lparr>f_block = of_nat j, cluster = fat_chain fs C c0 j\<rparr> s
      = Some (\<lparr>f_block = of_nat i, cluster = fat_chain fs C c0 i\<rparr>, s')
    \<and> fat_ok fs n dinv dcontent C c0 nb s'"
  using assms
proof (induction "i - j" arbitrary: j s)
  case 0
  then show ?case by (subst fat_walk.simps) simp
next
  case (Suc d)
  have fok: "fat_file_ok fs n C c0 nb" using Suc.prems(1) by (simp add: fat_ok_def)
  have j: "j < i" "j < nb" using Suc.hyps(2) Suc.prems by linarith+
  have "(of_nat j :: u32) \<noteq> of_nat i"
  proof
    assume "(of_nat j :: u32) = of_nat i"
    then have "unat (of_nat j :: u32) = unat (of_nat i :: u32)" by simp
    then show False using j Suc.prems(3) fat_file_bounds [OF fok] by (simp add: word_nat_simps)
  qed
  moreover have ch: "fat_chain fs C c0 j < 0x0ffffff8" "unat (fat_sector_of fs (fat_chain fs C c0 j)) < n"
    using fok j(2) by (auto simp: fat_file_ok_def)
  moreover obtain s1 where s1: "get_next_fat_entry junk fs (fat_chain fs C c0 j) s
      = Some (fat_entry_of fs C (fat_chain fs C c0 j), s1)" "fat_ok fs n dinv dcontent C c0 nb s1"
    using fat_next_entry [OF Suc.prems(1) ch(2)] by blast
  moreover have "fat_entry_of fs C (fat_chain fs C c0 j) = fat_chain fs C c0 (Suc j)"
    by (simp add: fat_chain_def)
  ultimately show ?case
    using Suc.hyps(1) [of "Suc j" s1] Suc.hyps(2) Suc.prems(3) j(1)
    by (subst fat_walk.simps) (simp add: add.commute)
qed

lemma fat_cluster_read:
  assumes ok: "fat_ok fs n dinv dcontent C c0 nb s" and i: "i < nb"
    and buf: "length buf = unat (fat_block_size fs)"
  shows "\<exists>s'. block_read (fat_parent fs) buf (get_sector fs (fat_chain fs C c0 i)) s
      = Some (of_nat (unat (fat_block_size fs)), load_blocks C
          (unat (get_sector fs (fat_chain fs C c0 i))) (unat (sectors_per_cluster fs)), s')
    \<and> fat_ok fs n dinv dcontent C c0 nb s'"
proof -
  have f: "0 < unat (sectors_per_cluster fs)"
    "unat (fat_block_size fs) = unat (sectors_per_cluster fs) * 512"
    "unat (get_sector fs (fat_chain fs C c0 i)) + unat (sectors_per_cluster fs) \<le> n"
    "Suc nb * unat (fat_block_size fs) < 2 ^ 31"
    using ok i by (auto simp: fat_ok_def fat_file_ok_def)
  have "unat (sectors_per_cluster fs) * 512 < 2 ^ 31" using f(2,4) by simp
  from fat_read_blocks [OF ok f(1) _ f(3) this, of buf] show ?thesis using buf f(2) by simp
qed

interpretation fatfile: file_blocks "fat_get_next_bdev_block_num junk fs" "fat_parent fs"
  "unat (fat_block_size fs)" nb "fat_ok fs n dinv dcontent C c0 nb"
  "\<lambda>s i. load_blocks C (unat (get_sector fs (fat_chain fs C c0 i))) (unat (sectors_per_cluster fs))"
  "fat_at fs C c0" "\<lambda>_. True"
  for junk fs nb n dinv dcontent C c0
proof unfold_locales
  fix s assume ok: "fat_ok fs n dinv dcontent C c0 nb s"
  then have fok: "fat_file_ok fs n C c0 nb" by (simp add: fat_ok_def)
  show "0 < unat (fat_block_size fs)" "Suc nb * unat (fat_block_size fs) < 2 ^ 31"
    using fok by (auto simp: fat_file_ok_def)
  fix i assume i: "i < nb"
  obtain rd wr where "block_store rd wr 512 n dinv dcontent" "dinv s" "dcontent s = C"
    using ok by (auto simp: fat_ok_def)
  then have "length (C j) = 512" if "j < n" for j
    using block_store.length_content that by fastforce
  then have "length (load_blocks C (unat (get_sector fs (fat_chain fs C c0 i)))
      (unat (sectors_per_cluster fs))) = unat (sectors_per_cluster fs) * 512"
    using fok i by (intro length_load_blocks) (auto simp: fat_file_ok_def)
  then show "length (load_blocks C (unat (get_sector fs (fat_chain fs C c0 i)))
      (unat (sectors_per_cluster fs))) = unat (fat_block_size fs)"
    using fok by (simp add: fat_file_ok_def)
next
  fix i j p assume "fat_at fs C c0 i p" "i \<le> (j :: nat)"
  then show "fat_at fs C c0 j p" unfolding fat_at_def using le_trans by blast
next
  fix s i p f assume ok: "fat_ok fs n dinv dcontent C c0 nb s" and at: "fat_at fs C c0 i p"
    and i: "i < nb"
  obtain j where j: "j \<le> i" "p = \<lparr>f_block = of_nat j, cluster = fat_chain fs C c0 j\<rparr>"
    using at by (auto simp: fat_at_def)
  obtain s' where s': "fat_walk junk fs (of_nat i) p s
      = Some (\<lparr>f_block = of_nat i, cluster = fat_chain fs C c0 i\<rparr>, s')"
    "fat_ok fs n dinv dcontent C c0 nb s'"
    using fat_walk_ok [OF ok j(1) less_imp_le [OF i], of junk] unfolding j(2) by auto
  have ch: "fat_chain fs C c0 i < 0x0ffffff8" "get_sector fs (fat_chain fs C c0 i) \<noteq> 0xffffffff"
    using ok i by (auto simp: fat_ok_def fat_file_ok_def)
  have "fat_get_next_bdev_block_num junk fs (of_nat i) f p False s
      = Some (get_sector fs (fat_chain fs C c0 i), f,
          \<lparr>f_block = of_nat i, cluster = fat_chain fs C c0 i\<rparr>, s')"
    using s'(1) ch(1) by (simp add: fat_get_next_bdev_block_num_def)
  moreover have "fat_at fs C c0 i \<lparr>f_block = of_nat i, cluster = fat_chain fs C c0 i\<rparr>"
    by (auto simp: fat_at_def)
  ultimately show "\<exists>b p' s'. fat_get_next_bdev_block_num junk fs (of_nat i) f p False s
      = Some (b, f, p', s') \<and> b \<noteq> 0xffffffff \<and> fat_at fs C c0 i p'
    \<and> fat_ok fs n dinv dcontent C c0 nb s'
    \<and> (\<lambda>i. load_blocks C (unat (get_sector fs (fat_chain fs C c0 i))) (unat (sectors_per_cluster fs)))
      = (\<lambda>i. load_blocks C (unat (get_sector fs (fat_chain fs C c0 i))) (unat (sectors_per_cluster fs)))
    \<and> (\<forall>buf. length buf = unat (fat_block_size fs) \<longrightarrow> (\<exists>s''. block_read (fat_parent fs) buf b s'
        = Some (of_nat (unat (fat_block_size fs)), load_blocks C (unat (get_sector fs
            (fat_chain fs C c0 i))) (unat (sectors_per_cluster fs)), s'')
      \<and> fat_ok fs n dinv dcontent C c0 nb s''
      \<and> (\<lambda>i. load_blocks C (unat (get_sector fs (fat_chain fs C c0 i))) (unat (sectors_per_cluster fs)))
        = (\<lambda>i. load_blocks C (unat (get_sector fs (fat_chain fs C c0 i)))
            (unat (sectors_per_cluster fs)))))"
    using fat_cluster_read [OF s'(2) i] ch(2) s'(2) by blast
next
  fix s p and f :: "u32 mb_file"
  assume ok: "fat_ok fs n dinv dcontent C c0 nb s" and at: "fat_at fs C c0 nb p"
  obtain j where j: "j \<le> nb" "p = \<lparr>f_block = of_nat j, cluster = fat_chain fs C c0 j\<rparr>"
    using at by (auto simp: fat_at_def)
  obtain s' where s': "fat_walk junk fs (of_nat nb) p s
      = Some (\<lparr>f_block = of_nat nb, cluster = fat_chain fs C c0 nb\<rparr>, s')"
    "fat_ok fs n dinv dcontent C c0 nb s'"
    using fat_walk_ok [OF ok j(1) order_refl, of junk] unfolding j(2) by auto
  have "\<not> fat_chain fs C c0 nb < 0x0ffffff8"
    using ok by (auto simp: fat_ok_def fat_file_ok_def)
  then show "\<exists>f' p' s'. fat_get_next_bdev_block_num junk fs (of_nat nb) f p False s
      = Some (0xffffffff, f', p', s') \<and> pos f' = pos f \<and> fat_ok fs n dinv dcontent C c0 nb s'
    \<and> (\<lambda>i. load_blocks C (unat (get_sector fs (fat_chain fs C c0 i))) (unat (sectors_per_cluster fs)))
      = (\<lambda>i. load_blocks C (unat (get_sector fs (fat_chain fs C c0 i))) (unat (sectors_per_cluster fs)))"
    using s' by (simp add: fat_get_next_bdev_block_num_def)
qed simp_all

lemma fat_fread_chain:
  assumes "fat_ok fs n dinv dcontent C c0 nb s" and "file_fs f = fat_ident fs" and "opaque f = c0"
    and "c0 \<noteq> 0" and "0 \<le> pos f" and "nat (pos f) + m \<le> nb * unat (fat_block_size fs)"
    and "m \<le> length buf"
  shows "\<exists>f' s'. fat_fread junk fs buf (of_nat m) f s = Some (of_nat m,
      splice buf 0 (slice (concat (map (\<lambda>i. load_blocks C (unat (get_sector fs (fat_chain fs C c0 i)))
        (unat (sectors_per_cluster fs))) [0..<nb])) (nat (pos f)) m), f', s')
    \<and> pos f' = pos f + int m \<and> dcontent s' = C"
proof -
  have at: "fat_at fs C c0 0 \<lparr>f_block = 0, cluster = c0\<rparr>"
    by (simp add: fat_at_def fat_chain_def)
  have bs: "of_nat (unat (fat_block_size fs)) = fat_block_size fs" by simp
  from fatfile.fread_ok [OF assms(1) _ assms(5) at assms(6,7), of junk]
  obtain f' p' s' where "fs_fread (fat_get_next_bdev_block_num junk fs) (fat_parent fs)
      (fat_block_size fs) junk buf (of_nat m) f \<lparr>f_block = 0, cluster = c0\<rparr> s = Some (of_nat m,
      splice buf 0 (slice (fatfile.file_of nb C fs c0 s) (nat (pos f)) m), f', p', s')"
    "pos f' = pos f + int m" "fat_ok fs n dinv dcontent C c0 nb s'"
    unfolding bs by blast
  then show ?thesis
    using assms(2-4) by (auto simp: fat_fread_def fatfile.file_of_def fat_ok_def)
qed

section \<open>Names\<close>

text \<open>The 11 bytes of a directory entry for a base of at most 8 and an extension of at most 3
  characters.\<close>

definition pad_field :: "nat \<Rightarrow> bytes \<Rightarrow> bytes" where
  "pad_field n cs = cs @ replicate (n - length cs) 32"

lemma name_loop_base:
  "i + length cs \<le> 8 \<Longrightarrow> \<forall>c \<in> set cs. c \<noteq> 32 \<Longrightarrow>
   fat_name_loop i (cs @ rest) (name, False)
   = fat_name_loop (i + length cs) rest (name @ map fat_lower cs, False)"
  by (induction cs arbitrary: i name) auto

lemma name_loop_blanks:
  "i + k \<le> 8 \<Longrightarrow> fat_name_loop i (replicate k 32 @ rest) (name, e) = fat_name_loop (i + k) rest (name, e)"
  by (induction k arbitrary: i) auto

lemma name_loop_ext:
  "8 < i \<Longrightarrow> \<forall>c \<in> set cs. c \<noteq> 32 \<Longrightarrow>
   fat_name_loop i (cs @ replicate k 32) (name, e) = (name @ map fat_lower cs, e \<or> cs \<noteq> [])"
proof (induction cs arbitrary: i name e)
  case Nil
  have "fat_name_loop i (replicate k 32) (name, e) = (name, e)" using Nil(1)
    by (induction k arbitrary: i) auto
  then show ?case by simp
next
  case (Cons c cs)
  then show ?case by auto
qed

lemma name_loop_field:
  assumes "length ext \<le> 3" and "\<forall>c \<in> set ext. c \<noteq> 32"
  shows "fat_name_loop 8 (pad_field 3 ext) (name, False)
    = (name @ ''.'' @ map fat_lower ext, ext \<noteq> [])"
proof (cases ext)
  case Nil
  have "pad_field 3 [] = 32 # replicate 2 32" by (simp add: pad_field_def numeral_3_eq_3 numeral_2_eq_2)
  then show ?thesis using Nil name_loop_ext [of 9 "[]" 2 "name @ ''.''" False] by simp
next
  case (Cons c cs)
  then show ?thesis
    using assms name_loop_ext [of 9 cs "3 - length ext" "name @ ''.'' @ [fat_lower c]" True]
    by (simp add: pad_field_def)
qed

lemma fat_decode_padded:
  assumes "length base \<le> 8" and "length ext \<le> 3" and "\<forall>c \<in> set (base @ ext). c \<noteq> 32"
    and "\<forall>c \<in> set (base @ ext). fat_lower c \<noteq> char_of (0 :: nat)"
  shows "fat_decode_name (pad_field 8 base @ pad_field 3 ext)
    = map fat_lower base @ (if ext = [] then [] else ''.'' @ map fat_lower ext)"
proof -
  have "fat_name_loop 0 (pad_field 8 base @ pad_field 3 ext) ([], False)
      = fat_name_loop 8 (pad_field 3 ext) (map fat_lower base, False)"
    using assms name_loop_base [of 0 base "replicate (8 - length base) 32 @ pad_field 3 ext" "[]"]
      name_loop_blanks [of "length base" "8 - length base" "pad_field 3 ext" "map fat_lower base" False]
    by (simp add: pad_field_def)
  also have "\<dots> = (map fat_lower base @ ''.'' @ map fat_lower ext, ext \<noteq> [])"
    using assms by (intro name_loop_field) auto
  finally have loop: "fat_name_loop 0 (pad_field 8 base @ pad_field 3 ext) ([], False)
    = (map fat_lower base @ ''.'' @ map fat_lower ext, ext \<noteq> [])" .
  have tw: "takeWhile (\<lambda>c. c \<noteq> char_of (0 :: nat)) xs = xs" if "\<forall>c \<in> set xs. c \<noteq> char_of (0 :: nat)" for xs
    using that by (simp add: takeWhile_eq_all_conv)
  have dot: "CHR ''.'' \<noteq> char_of (0 :: nat)" by (simp add: char_of_def)
  have "fat_decode_name (pad_field 8 base @ pad_field 3 ext)
    = takeWhile (\<lambda>c. c \<noteq> char_of (0 :: nat))
        (map fat_lower base @ (if ext = [] then [] else ''.'' @ map fat_lower ext))"
    by (simp add: fat_decode_name_def loop butlast_append)
  also have "\<dots> = map fat_lower base @ (if ext = [] then [] else ''.'' @ map fat_lower ext)"
    using assms(4) dot by (intro tw) auto
  finally show ?thesis .
qed

section \<open>Properties\<close>

text \<open>A FAT16 volume of three sectors with one file of one cluster, for the witnesses.\<close>

definition demo_fat_disk :: "bytes list" where
  "demo_fat_disk = [replicate 512 0, replicate 4 0 @ [255, 255] @ replicate 506 0,
     [65, 66, 67, 68] @ replicate 508 0]"

definition demo_fat :: "bytes list fat_fs" where
  "demo_fat = \<lparr>fat_ident = 1, fat_parent = ram_dev 512, fat_fs_name = ''FAT16'',
     fat_block_size = 512, fat_type = FAT16, total_sectors = 3, sectors_per_cluster = 1,
     bytes_per_sector = 512, vol_label = [], first_fat_sector = 1, first_data_sector = 2,
     sectors_per_fat = 1, root_dir_entries = 0, root_dir_sectors = 0, first_non_root_sector = 2,
     root_dir_cluster = 2\<rparr>"

lemma demo_fat_chain:
  "fat_chain demo_fat ((!) demo_fat_disk) 2 0 = 2"
  "fat_chain demo_fat ((!) demo_fat_disk) 2 1 = 0x0fffffff"
  by code_simp+

lemma demo_fat_ok: "fat_ok demo_fat 3 (ram_ok 512 3) (!) ((!) demo_fat_disk) 2 1 demo_fat_disk"
proof -
  have store: "block_store (ram_read 512) (ram_write 512) 512 3 (ram_ok 512 3) (!)"
    by (rule ram.block_store_axioms)
  have ram: "ram_ok 512 3 demo_fat_disk" by (simp add: ram_ok_def demo_fat_disk_def)
  have "fat_file_ok demo_fat 3 ((!) demo_fat_disk) 2 1"
    using demo_fat_chain
    by (simp add: fat_file_ok_def) (simp add: demo_fat_def ram_dev_def get_sector_def
        fat_sector_of_def fat_offset_of_def)
  then show ?thesis using store ram by (auto simp: fat_ok_def demo_fat_def ram_dev_def)
qed

text \<open>C3: \<open>fat_fread\<close> returns the file. For a file whose chain of \<open>nb\<close> clusters and table entries lie
  inside the device, a read of \<open>m\<close> bytes at the stream's position (inside the clusters) returns
  \<open>m\<close>, puts the bytes at that position of the concatenated clusters of the chain into the buffer,
  leaves the rest of the buffer and the contents of the device alone and advances the position.\<close>

theorem fat_fread_reads_chain:
  assumes "fat_ok fs n dinv dcontent C c0 nb s" and "file_fs f = fat_ident fs" and "opaque f = c0"
    and "c0 \<noteq> 0" and "0 \<le> pos f" and "nat (pos f) + m \<le> nb * unat (fat_block_size fs)"
    and "m \<le> length buf"
  shows "\<exists>f' s'. fat_fread junk fs buf (of_nat m) f s = Some (of_nat m,
      splice buf 0 (slice (concat (map (\<lambda>i. load_blocks C (unat (get_sector fs (fat_chain fs C c0 i)))
        (unat (sectors_per_cluster fs))) [0..<nb])) (nat (pos f)) m), f', s')
    \<and> pos f' = pos f + int m \<and> dcontent s' = C"
  using assms by (rule fat_fread_chain)

theorem fat_fread_reads_chain_witness:
  "\<exists>f' s'. fat_fread (\<lambda>_. 0) demo_fat [0, 0, 0, 9] 3
      \<lparr>file_fs = 1, pos = 1, mode = 0, opaque = 2, len = 4, flags = 0\<rparr> demo_fat_disk
    = Some (3, [66, 67, 68, 9], f', s') \<and> pos f' = 4"
proof -
  let ?f = "\<lparr>file_fs = 1, pos = 1, mode = 0, opaque = 2, len = 4, flags = 0\<rparr> :: u32 mb_file"
  have data: "splice [0, 0, 0, 9] 0 (slice (concat (map (\<lambda>i. load_blocks ((!) demo_fat_disk)
      (unat (get_sector demo_fat (fat_chain demo_fat ((!) demo_fat_disk) 2 i)))
      (unat (sectors_per_cluster demo_fat))) [0..<1])) (nat (pos ?f)) 3) = [66, 67, 68, 9]"
    by code_simp
  have "file_fs ?f = fat_ident demo_fat" "opaque ?f = 2" "(2 :: u32) \<noteq> 0" "0 \<le> pos ?f"
    "nat (pos ?f) + 3 \<le> 1 * unat (fat_block_size demo_fat)" "3 \<le> length [0, 0, 0, 9 :: u8]"
    by (simp_all add: demo_fat_def)
  from fat_fread_reads_chain [OF demo_fat_ok this, of "\<lambda>_. 0"]
  show ?thesis unfolding data by auto
qed

text \<open>C18: The 8.3 name of a directory entry, blank padded, is decoded to the base, and a dot and
  the extension if there is one, in lower case.\<close>

theorem fat_decode_name_83:
  assumes "length base \<le> 8" and "length ext \<le> 3" and "\<forall>c \<in> set (base @ ext). c \<noteq> 32"
    and "\<forall>c \<in> set (base @ ext). c \<noteq> 0"
  shows "fat_decode_name (base @ replicate (8 - length base) 32 @ ext @ replicate (3 - length ext) 32)
    = map fat_lower base @ (if ext = [] then [] else ''.'' @ map fat_lower ext)"
proof -
  have "fat_lower c \<noteq> char_of (0 :: nat)" if "c \<noteq> 0" for c
  proof
    assume "fat_lower c = char_of (0 :: nat)"
    then have "(of_char (fat_lower c) :: nat) = of_char (char_of (0 :: nat) :: char)" by simp
    then have "unat (if 65 \<le> c \<and> c \<le> 90 then 97 + c - 65 else c) mod 256 = 0"
      by (simp add: fat_lower_def)
    moreover have "unat (if 65 \<le> c \<and> c \<le> 90 then 97 + c - 65 else c) < 256"
      by (rule order_less_le_trans [OF unsigned_less]) simp
    ultimately have z: "(if 65 \<le> c \<and> c \<le> 90 then 97 + c - 65 else c) = 0"
      by (simp add: unat_eq_0)
    show False
    proof (cases "65 \<le> c \<and> c \<le> 90")
      case True
      then have "97 + c - 65 = 0" using z by simp
      then have "c = - 32" by (simp add: algebra_simps eq_neg_iff_add_eq_0)
      then show False using True by simp
    next
      case False
      then show False using z that by (simp only: if_False)
    qed
  qed
  with assms(4) have "\<forall>c \<in> set (base @ ext). fat_lower c \<noteq> char_of (0 :: nat)" by blast
  from fat_decode_padded [OF assms(1-3) this] show ?thesis by (simp add: pad_field_def)
qed

theorem fat_decode_name_83_witness:
  "fat_decode_name ([75, 69, 82, 78, 69, 76, 32, 32] @ [73, 77, 71]) = ''kernel.img''"
proof -
  have "map fat_lower [75, 69, 82, 78, 69, 76] = ''kernel''" "map fat_lower [73, 77, 71] = ''img''"
    by code_simp+
  then show ?thesis
    using fat_decode_name_83 [of "[75, 69, 82, 78, 69, 76]" "[73, 77, 71]"]
    by (simp add: replicate_two)
qed

text \<open>A device without a read function, which \<open>block_read\<close> answers with \<open>0\<close>, for the witness.\<close>

definition zero_dev :: "unit block_device" where
  "zero_dev = \<lparr>driver_name = ''z'', device_name = ''z'', device_id = [],
     supports_multiple_block_read = True, supports_multiple_block_write = False,
     dev_read = None, dev_write = None, block_size = 512, num_blocks = 0\<rparr>"

definition zero_fat :: "unit fat_fs" where
  "zero_fat = \<lparr>fat_ident = 1, fat_parent = zero_dev, fat_fs_name = ''FAT12'',
     fat_block_size = 1024, fat_type = FAT12, total_sectors = 64, sectors_per_cluster = 2,
     bytes_per_sector = 512, vol_label = [], first_fat_sector = 1, first_data_sector = 2,
     sectors_per_fat = 1, root_dir_entries = 16, root_dir_sectors = 1, first_non_root_sector = 3,
     root_dir_cluster = 2\<rparr>"

text \<open>C25: On a FAT12 volume the listing of a subdirectory never returns: the next entry of every
  cluster is \<open>0\<close>, so the loop reads cluster \<open>0\<close> again and again as long as the device answers.\<close>

theorem fat12_subdirectory_loops:
  assumes "fat_type fs = FAT12"
    and "\<forall>buf b s. \<exists>r buf' s'. block_read (fat_parent fs) buf b s = Some (r, buf', s') \<and> 0 \<le> sint r"
  shows "fat_read_dir junk fs (Some d) s = None"
proof -
  define silent where "silent g is_root \<longleftrightarrow> fat_type g = FAT12 \<and> \<not> is_root \<and> (\<forall>buf b s. \<exists>r buf' s'.
      block_read (fat_parent g) buf b s = Some (r, buf', s') \<and> 0 \<le> sint r)" for g :: "'a fat_fs" and is_root
  have no: "\<not> silent g is_root"
    if "fat_read_clusters j g is_root c off acc t = Some y" for j g is_root c off acc t y
  proof (rule fat_read_clusters.raw_induct [OF _ that, where P = "\<lambda>j g is_root c off acc t y. \<not> silent g is_root"])
    fix F j g is_root c off acc t y
    assume IH: "\<And>j g is_root c off acc t y. F j g is_root c off acc t = Some y \<Longrightarrow> \<not> silent g is_root"
      and step: "(let cluster_size = bytes_per_sector g * sectors_per_cluster g;
          absolute_cluster = c - 2;
          first_sector = (if is_root then first_data_sector g else first_non_root_sector g)
      in do {
        (r, buf, s') \<leftarrow> block_read (fat_parent g) (malloc_bytes j (unat cluster_size))
          (absolute_cluster * sectors_per_cluster g + first_sector) t;
        if sint r < 0 then Some ([], s')
        else do {
          des \<leftarrow> fat_entries (fat_ident g) buf (entry_offsets (unat cluster_size));
          (if is_root \<and> fat_type g \<noteq> FAT32 then
             (if sectors_per_cluster g = 0 then None
              else if off + 1 < root_dir_sectors g div sectors_per_cluster g then
                (if c + 1 < 0x0ffffff7
                 then F j g is_root (c + 1) (off + 1) (acc @ des) s'
                 else Some (acc @ des, s'))
              else Some (acc @ des, s'))
           else do {
             (next, s'') \<leftarrow> get_next_fat_entry j g c s';
             if next < 0x0ffffff7
             then F j g is_root next off (acc @ des) s''
             else Some (acc @ des, s'')
           })
        }
      }) = Some y"
    show "\<not> silent g is_root"
    proof
      assume sil: "silent g is_root"
      then obtain r buf s' where "block_read (fat_parent g) (malloc_bytes j (unat (bytes_per_sector g * sectors_per_cluster g)))
          ((c - 2) * sectors_per_cluster g + first_non_root_sector g) t = Some (r, buf, s')" "\<not> sint r < 0"
        unfolding silent_def by (meson not_less)
      then have "\<exists>des. F j g is_root 0 off (acc @ des) s' = Some y"
        using step sil
        by (auto simp: silent_def Let_def get_next_fat_entry_def fat_types bind_eq_Some_conv)
      then show False using IH sil by blast
    qed
  qed
  have "silent fs False" using assms by (simp add: silent_def)
  then show ?thesis using no by (cases "fat_read_dir junk fs (Some d) s") (auto simp: fat_read_dir_def)
qed

theorem fat12_subdirectory_loops_witness:
  "fat_read_dir (\<lambda>_. 0) zero_fat
     (Some \<lparr>de_name = ''d'', de_byte_size = 0, is_dir = True, de_opaque = 3, de_fs = 1\<rparr>) () = None"
proof (rule fat12_subdirectory_loops)
  show "fat_type zero_fat = FAT12" by (simp add: zero_fat_def)
  show "\<forall>buf b s. \<exists>r buf' s'. block_read (fat_parent zero_fat) buf b s = Some (r, buf', s') \<and> 0 \<le> sint r"
    by (simp add: zero_fat_def zero_dev_def block_read_def)
qed

text \<open>The number of clusters of a volume, from its boot sector, tells the three formats apart (fewer
  than 65525 clusters: FAT12 or FAT16) and so where the label of the volume is.\<close>

definition volume_clusters :: "bytes \<Rightarrow> u32" where
  "volume_clusters bs =
     ((if bs_total_sectors_16 bs = 0 then bs_total_sectors_32 bs else bs_total_sectors_16 bs)
      - (bs_reserved_sector_count bs
         + bs_table_count bs * (if bs_table_size_16 bs = 0 then bs_table_size_32 bs else bs_table_size_16 bs)
         + (bs_root_entry_count bs * 32 + bs_bytes_per_sector bs - 1) div bs_bytes_per_sector bs))
     div bs_sectors_per_cluster bs"

definition label_area :: "bytes \<Rightarrow> nat" where
  "label_area bs = (if volume_clusters bs < 65525 then fat16_label_offset else fat32_label_offset)"

lemma copy_label_overruns:
  assumes "length bs = 512" and "off < 500"
  shows "copy_label junk bs off = None \<longleftrightarrow> (\<forall>i < 12. bs ! (off + i) \<noteq> 0)"
proof -
  define label where "label = takeWhile (\<lambda>c. c \<noteq> 0) (drop off bs)"
  have nz: "bs ! (off + i) \<noteq> 0" if "i < length label" for i
  proof -
    have "label ! i = drop off bs ! i" using that unfolding label_def by (rule takeWhile_nth)
    moreover have "label ! i \<noteq> 0"
      using that nth_mem [of i label] set_takeWhileD [of "label ! i" "\<lambda>c. c \<noteq> 0" "drop off bs"]
      by (auto simp: label_def)
    moreover have "off + i < length bs"
      using that length_takeWhile_le [of "\<lambda>c. c \<noteq> 0" "drop off bs"] by (simp add: label_def)
    ultimately show ?thesis by simp
  qed
  have zero: "bs ! (off + length label) = 0" if "off + length label < 512"
  proof -
    have "length label < length (drop off bs)" using that assms by simp
    then have "drop off bs ! length label = 0"
      using nth_length_takeWhile [of "\<lambda>c. c \<noteq> 0" "drop off bs"] by (simp add: label_def)
    then show ?thesis using that assms(1) by simp
  qed
  have "copy_label junk bs off = None \<longleftrightarrow> 12 \<le> length label"
    using assms by (auto simp: copy_label_def label_def [symmetric] Let_def)
  moreover have "12 \<le> length label \<longleftrightarrow> (\<forall>i < 12. bs ! (off + i) \<noteq> 0)"
  proof
    assume full: "\<forall>i < 12. bs ! (off + i) \<noteq> 0"
    show "12 \<le> length label"
    proof (rule ccontr)
      assume "\<not> 12 \<le> length label"
      then show False using zero full assms(2) by auto
    qed
  qed (use nz in auto)
  ultimately show ?thesis by simp
qed

text \<open>C26: A boot sector whose volume label is not ended by a zero byte makes \<open>fat_init\<close> overrun the 12
  bytes allocated for the label, and no other sector does. Of a sector that starts with \<open>eb\<close> and
  gives a sector size and a cluster size, \<open>fat_init\<close> has no defined result exactly when the twelve
  bytes from the start of the label are all nonzero: the eleven bytes of the label, which the usual
  tools pad with blanks, and the first byte of the name of the format (\<open>FAT16   \<close>, \<open>FAT32   \<close>) that follows. The
  label is at byte 43 on FAT12 and FAT16 and at byte 71 on FAT32, as the number of clusters says.\<close>

theorem fat_init_full_label_overruns:
  assumes "block_read parent (malloc_bytes junk 512) 0 s = Some (512, bs, s')"
    and "length bs = 512" and "bs ! 0 = 0xeb"
    and "bs_bytes_per_sector bs \<noteq> 0" and "bs_sectors_per_cluster bs \<noteq> 0"
  shows "fat_init ident junk parent s = None \<longleftrightarrow> (\<forall>i < 12. bs ! (label_area bs + i) \<noteq> 0)"
proof -
  have type: "(if c < 4085 then FAT12 else if c < 65525 then FAT16 else FAT32) = FAT32
      \<longleftrightarrow> \<not> c < 65525" for c :: u32
    using order.strict_trans [of c 4085 65525] by (auto simp: fat_types)
  have "fat_geometry ident parent junk bs = None \<longleftrightarrow> copy_label junk bs (label_area bs) = None"
    using assms(4,5)
    by (simp add: fat_geometry_def Let_def label_area_def volume_clusters_def type bind_eq_None_conv)
  also have "\<dots> \<longleftrightarrow> (\<forall>i < 12. bs ! (label_area bs + i) \<noteq> 0)"
    using assms(2) by (intro copy_label_overruns)
      (simp_all add: label_area_def fat16_label_offset_def fat32_label_offset_def)
  finally show ?thesis using assms(1,3) by (auto simp: fat_init_def bind_eq_None_conv)
qed

text \<open>The boot sector of a FAT16 volume without a name, as the usual tools write it.\<close>

definition usual_fat16 :: bytes where
  "usual_fat16 = [0xeb, 0x3c, 0x90, 0x6d, 0x6b, 0x66, 0x73, 0x2e, 0x66, 0x61, 0x74, 0, 2, 4, 1, 0,
     2, 0, 2, 0, 0x80, 0xf8, 32, 0, 63, 0, 255, 0, 0, 0, 0, 0, 0, 0, 0, 0, 0x80, 0, 0x29, 1, 2, 3, 4,
     0x4e, 0x4f, 0x20, 0x4e, 0x41, 0x4d, 0x45, 0x20, 0x20, 0x20, 0x20,
     0x46, 0x41, 0x54, 0x31, 0x36, 0x20, 0x20, 0x20] @ replicate 450 0"

theorem fat_init_full_label_overruns_witness:
  "fat_init 1 (\<lambda>_. 0) sector_dev usual_fat16 = None"
proof -
  have "block_read sector_dev (malloc_bytes (\<lambda>_. 0) 512) 0 usual_fat16 = Some (512, usual_fat16, usual_fat16)"
    by (simp add: block_read_def sector_dev_def) (subst block_read_loop.simps, simp add: usual_fat16_def)
  moreover have "length usual_fat16 = 512" by (simp add: usual_fat16_def)
  moreover have "usual_fat16 ! 0 = 0xeb" by (simp add: usual_fat16_def)
  moreover have "bs_bytes_per_sector usual_fat16 \<noteq> 0" by code_simp
  moreover have "bs_sectors_per_cluster usual_fat16 \<noteq> 0" by code_simp
  ultimately have "fat_init 1 (\<lambda>_. 0) sector_dev usual_fat16 = None
      \<longleftrightarrow> (\<forall>i < 12. usual_fat16 ! (label_area usual_fat16 + i) \<noteq> 0)"
    by (rule fat_init_full_label_overruns)
  moreover have "volume_clusters usual_fat16 < 65525" by code_simp
  then have "label_area usual_fat16 = 43" by (simp add: label_area_def fat16_label_offset_def)
  moreover have "\<forall>i < 12. usual_fat16 ! (43 + i) \<noteq> 0"
  proof -
    have "\<forall>i \<in> set [0..<12]. usual_fat16 ! (43 + i) \<noteq> 0" by code_simp
    then show ?thesis by simp
  qed
  ultimately show ?thesis by simp
qed

end
