(* ===== verification/Vfs.thy ===== *)
theory Vfs
  imports Fat
begin

text \<open>
  The virtual file system (\<open>rboot/vfs.c\<close>): the list of mounted devices, the path parser
  \<open>split_dir\<close>, directory streams and the stdio-like operations on open files.

  A file system is the record of its function pointers; an operation whose pointer may be null
  is an option. \<open>stream\<close> distinguishes the values of \<open>MB_FILE *\<close> that the code treats specially:
  0 (also \<open>mb_stdin\<close>), 1 and 2. Following 1 or 2 as a pointer is \<^term>\<open>None\<close>. Operations on a
  stream get the file system structure that \<open>stream->fs\<close> points to.
\<close>

section \<open>State\<close>

record ('o, 's) fs =
  fs_ident :: nat
  fs_parent :: "'s block_device option"
  fs_name :: string
  fs_flags :: u32
  fs_fopen :: "'o mb_dirent option \<Rightarrow> string \<Rightarrow> 's world \<Rightarrow> ('o mb_file option \<times> 's world) option"
  fs_fread_fn :: "bytes \<Rightarrow> u32 \<Rightarrow> 'o mb_file \<Rightarrow> 's world \<Rightarrow>
    (u32 \<times> bytes \<times> 'o mb_file \<times> 's world) option"
  fs_fwrite_fn :: "(bytes \<Rightarrow> u32 \<Rightarrow> 'o mb_file \<Rightarrow> 's world \<Rightarrow> (u32 \<times> 'o mb_file \<times> 's world) option) option"
  fs_fclose_fn :: "('o mb_file \<Rightarrow> 's world \<Rightarrow> (int \<times> 's world) option) option"
  fs_fsize_fn :: "('o mb_file \<Rightarrow> int) option"
  fs_fseek_fn :: "('o mb_file \<Rightarrow> int \<Rightarrow> nat \<Rightarrow> 's world \<Rightarrow> (int \<times> 'o mb_file \<times> 's world) option) option"
  fs_ftell_fn :: "('o mb_file \<Rightarrow> int) option"
  fs_fflush_fn :: "('o mb_file \<Rightarrow> 's world \<Rightarrow> (int \<times> 's world) option) option"
  fs_read_directory :: "string list \<Rightarrow> 's world \<Rightarrow> ('o mb_dirent list \<times> 's world) option"

definition FS_FLAG_SUPPORTS_EMPTY_FNAME :: u32 where "FS_FLAG_SUPPORTS_EMPTY_FNAME = 1"

record ('o, 's) vfs_entry =
  ve_device_name :: string
  ve_fs :: "('o, 's) fs"

record ('o, 's) vfs =
  first_ve :: "('o, 's) vfs_entry list"
  def_ve :: "('o, 's) vfs_entry option"
  device_names :: "string list"

datatype 'o stream = Null | Stdout | Stderr | Stream "'o mb_file"

section \<open>Devices\<close>

definition MAX_DEV_NAMES :: nat where "MAX_DEV_NAMES = 256"

definition vfs_add :: "('o, 's) vfs_entry \<Rightarrow> ('o, 's) vfs \<Rightarrow> ('o, 's) vfs" where
  "vfs_add ve v =
     (let v' = v\<lparr>first_ve := ve # first_ve v\<rparr> in
      if length (device_names v) < MAX_DEV_NAMES - 1
      then v'\<lparr>device_names := device_names v @ [ve_device_name ve]\<rparr> else v')"

definition vfs_get_device_list :: "('o, 's) vfs \<Rightarrow> string list" where
  "vfs_get_device_list v = device_names v"

definition find_ve :: "('o, 's) vfs \<Rightarrow> string \<Rightarrow> ('o, 's) vfs_entry option" where
  "find_ve v path = find (\<lambda>ve. ve_device_name ve = path) (first_ve v)"

definition vfs_set_default :: "string \<Rightarrow> ('o, 's) vfs \<Rightarrow> int \<times> ('o, 's) vfs" where
  "vfs_set_default dev_name v =
     (case find_ve v dev_name of
        Some dev \<Rightarrow> (0, v\<lparr>def_ve := Some dev\<rparr>)
      | None \<Rightarrow> (-1, v))"

definition vfs_register :: "('o, 's) fs option \<Rightarrow> ('o, 's) vfs \<Rightarrow> int \<times> ('o, 's) vfs" where
  "vfs_register fs_ptr v =
     (case fs_ptr of
        None \<Rightarrow> (-1, v)
      | Some fs \<Rightarrow>
          (case fs_parent fs of
             None \<Rightarrow> (-1, v)
           | Some parent \<Rightarrow>
               (let ve = \<lparr>ve_device_name = device_name parent, ve_fs = fs\<rparr>;
                    v' = vfs_add ve v
                in (0, if def_ve v' = None then v'\<lparr>def_ve := Some ve\<rparr> else v'))))"

definition vfs_list_devices :: "('o, 's) vfs \<Rightarrow> string" where
  "vfs_list_devices v =
     concat (map (\<lambda>ve. ve_device_name ve @ ''('' @ fs_name (ve_fs ve) @ '') '') (first_ve v))"

section \<open>Paths\<close>

text \<open>The variables of the first loop of \<open>split_dir\<close>.\<close>

record ('o, 's) scan =
  dir_start :: nat
  dir_count :: nat
  reading_dev :: bool
  cur_ve :: "('o, 's) vfs_entry option"

text \<open>\<open>i\<close> is the loop index, \<open>c # cs\<close> the rest of the path from there on; \<open>cs = []\<close> is
  \<open>i == slen - 1\<close>. \<^term>\<open>None\<close> inside the option is a parse error.\<close>

fun split_scan :: "('o, 's) vfs \<Rightarrow> string \<Rightarrow> nat \<Rightarrow> string \<Rightarrow> ('o, 's) scan \<Rightarrow> ('o, 's) scan option" where
  "split_scan v path i [] st = Some st"
| "split_scan v path i (c # cs) st =
     (if c = CHR ''('' then
        (if i = 0 then split_scan v path (Suc i) cs (st\<lparr>reading_dev := True\<rparr>) else None)
      else if c = CHR '')'' then
        (if \<not> reading_dev st then None
         else split_scan v path (Suc i) cs
           (st\<lparr>cur_ve := find_ve v (slice path 1 (i - 1)), reading_dev := False, dir_start := i + 1\<rparr>))
      else if c = CHR ''/'' then
        (if reading_dev st then None
         else if i \<noteq> dir_start st
         then split_scan v path (Suc i) cs (st\<lparr>dir_count := dir_count st + 1\<rparr>)
         else split_scan v path (Suc i) cs (st\<lparr>dir_start := dir_start st + 1\<rparr>))
      else if cs = [] then split_scan v path (Suc i) cs (st\<lparr>dir_count := dir_count st + 1\<rparr>)
      else split_scan v path (Suc i) cs st)"

text \<open>The second loop: \<open>n\<close> components from \<open>cur_idx\<close> on. Reading after the terminating null of
  the path is \<^term>\<open>None\<close>.\<close>

primrec split_parts :: "string \<Rightarrow> nat \<Rightarrow> nat \<Rightarrow> string list option" where
  "split_parts path 0 cur_idx = Some []"
| "split_parts path (Suc n) cur_idx =
     (if cur_idx > length path then None
      else
        (let pb = takeWhile (\<lambda>c. c \<noteq> CHR ''/'') (drop cur_idx path) in do {
           rest \<leftarrow> split_parts path n (cur_idx + length pb + 1);
           Some (pb # rest)
         }))"

text \<open>The result is a null pointer (\<open>Some None\<close>) or the components with the entry.\<close>

definition split_dir ::
  "('o, 's) vfs \<Rightarrow> string \<Rightarrow> (string list \<times> ('o, 's) vfs_entry) option option" where
  "split_dir v path =
     (case split_scan v path 0 path
             \<lparr>dir_start = 0, dir_count = 0, reading_dev = False, cur_ve = def_ve v\<rparr> of
        None \<Rightarrow> Some None
      | Some st \<Rightarrow>
          (case cur_ve st of
             None \<Rightarrow> Some None
           | Some ve \<Rightarrow> do {
               parts \<leftarrow> split_parts path (dir_count st) (dir_start st);
               Some (Some (parts, ve))
             }))"

section \<open>Directories\<close>

definition read_directory ::
  "('o, 's) vfs \<Rightarrow> string \<Rightarrow> 's world \<Rightarrow> ('o mb_dirent list \<times> 's world) option" where
  "read_directory v path w = do {
     p \<leftarrow> split_dir v path;
     (case p of
        None \<Rightarrow> Some ([], w)
      | Some (parts, ve) \<Rightarrow> fs_read_directory (ve_fs ve) parts w)
   }"

text \<open>\<open>struct mb_dir_info\<close>: the entries, and those still to be returned. A null \<open>DIR *\<close> is
  \<^term>\<open>None\<close>.\<close>

record 'o mb_dir_info =
  di_first :: "'o mb_dirent list"
  di_next :: "'o mb_dirent list"

definition mb_opendir ::
  "('o, 's) vfs \<Rightarrow> string \<Rightarrow> 's world \<Rightarrow> ('o mb_dir_info option \<times> 's world) option" where
  "mb_opendir v name w = do {
     (ret, w') \<leftarrow> read_directory v name w;
     Some (if ret = [] then (None, w') else (Some \<lparr>di_first = ret, di_next = ret\<rparr>, w'))
   }"

definition mb_readdir :: "'o mb_dir_info option \<Rightarrow> 'o mb_dirent option \<times> 'o mb_dir_info option" where
  "mb_readdir dirp =
     (case dirp of
        None \<Rightarrow> (None, None)
      | Some di \<Rightarrow>
          (case di_next di of
             [] \<Rightarrow> (None, Some di)
           | d # ds \<Rightarrow> (Some d, Some (di\<lparr>di_next := ds\<rparr>))))"

definition mb_closedir :: "'o mb_dir_info option \<Rightarrow> int" where
  "mb_closedir dirp = (case dirp of Some _ \<Rightarrow> 0 | None \<Rightarrow> -1)"

section \<open>Files\<close>

definition mb_fread ::
  "('o, 's) fs \<Rightarrow> bytes \<Rightarrow> u32 \<Rightarrow> u32 \<Rightarrow> 'o stream \<Rightarrow> 's world \<Rightarrow>
   (u32 \<times> bytes \<times> 'o stream \<times> 's world) option" where
  "mb_fread fs ptr sz nmemb st w =
     (case st of
        Null \<Rightarrow> Some (0, ptr, st, w)
      | Stream f \<Rightarrow>
          (let avail = word_of_int (len f - pos f);
               bytes_to_read = (if sz * nmemb > avail then avail else sz * nmemb)
           in if sz = 0 then None
              else
                (let nmemb_to_read = bytes_to_read div sz in do {
                   (n, buf, f', w') \<leftarrow> fs_fread_fn fs ptr (nmemb_to_read * sz) f w;
                   Some (n div sz, buf, Stream f', w')
                 }))
      | _ \<Rightarrow> None)"

text \<open>The third component is what is printed.\<close>

definition mb_fwrite ::
  "('o, 's) fs \<Rightarrow> bytes \<Rightarrow> u32 \<Rightarrow> u32 \<Rightarrow> 'o stream \<Rightarrow> 's world \<Rightarrow>
   (u32 \<times> 'o stream \<times> bytes \<times> 's world) option" where
  "mb_fwrite fs ptr sz nmemb st w =
     (let bytes_to_write = sz * nmemb in
      case st of
        Null \<Rightarrow> Some (0, st, [], w\<lparr>errno_of := Some EINVAL\<rparr>)
      | Stream f \<Rightarrow>
          (if sz = 0 then None
           else
             (case fs_fwrite_fn fs of
                None \<Rightarrow> Some (0, st, [], w\<lparr>errno_of := Some EROFS\<rparr>)
              | Some wr \<Rightarrow> do {
                  (n, f', w') \<leftarrow> wr ptr (bytes_to_write div sz * sz) f w;
                  Some (n div sz, Stream f', [], w')
                }))
      | _ \<Rightarrow>
          (if unat bytes_to_write > length ptr then None
           else if sz = 0 then None
           else Some (bytes_to_write div sz, st, take (unat bytes_to_write) ptr, w)))"

definition mb_fflush ::
  "('o, 's) fs \<Rightarrow> 'o stream \<Rightarrow> 's world \<Rightarrow> (int \<times> 's world) option" where
  "mb_fflush fs st w =
     (case st of
        Null \<Rightarrow> Some (-1, w\<lparr>errno_of := Some EINVAL\<rparr>)
      | Stream f \<Rightarrow>
          (case fs_fflush_fn fs of
             None \<Rightarrow> Some (0, w)
           | Some fl \<Rightarrow> do { (_, w') \<leftarrow> fl f w; Some (0, w') })
      | _ \<Rightarrow> None)"

definition mb_fclose ::
  "('o, 's) fs \<Rightarrow> 'o stream \<Rightarrow> 's world \<Rightarrow> (int \<times> 's world) option" where
  "mb_fclose fs st w =
     (case st of
        Null \<Rightarrow> Some (-1, w\<lparr>errno_of := Some EINVAL\<rparr>)
      | Stream f \<Rightarrow> do {
          (_, w') \<leftarrow> mb_fflush fs st w;
          (case fs_fclose_fn fs of
             None \<Rightarrow> Some (0, w')
           | Some cl \<Rightarrow> do { (_, w'') \<leftarrow> cl f w'; Some (0, w'') })
        }
      | _ \<Rightarrow> None)"

definition mb_feof :: "'o stream \<Rightarrow> 's world \<Rightarrow> (int \<times> 's world) option" where
  "mb_feof st w =
     (case st of
        Null \<Rightarrow> Some (-1, w\<lparr>errno_of := Some EINVAL\<rparr>)
      | Stream f \<Rightarrow> Some (if flags f AND VFS_FLAGS_EOF \<noteq> 0 then 1 else 0, w)
      | _ \<Rightarrow> None)"

definition mb_ferror :: "'o stream \<Rightarrow> 's world \<Rightarrow> (int \<times> 's world) option" where
  "mb_ferror st w =
     (case st of
        Null \<Rightarrow> Some (-1, w\<lparr>errno_of := Some EINVAL\<rparr>)
      | Stream f \<Rightarrow> Some (if flags f AND VFS_FLAGS_ERROR \<noteq> 0 then 1 else 0, w)
      | _ \<Rightarrow> None)"

definition mb_fsize :: "('o, 's) fs \<Rightarrow> 'o stream \<Rightarrow> 's world \<Rightarrow> (int \<times> 's world) option" where
  "mb_fsize fs st w =
     (case st of
        Null \<Rightarrow> Some (-1, w\<lparr>errno_of := Some EINVAL\<rparr>)
      | Stream f \<Rightarrow> Some (case fs_fsize_fn fs of Some g \<Rightarrow> g f | None \<Rightarrow> len f, w)
      | _ \<Rightarrow> None)"

definition mb_ftell :: "('o, 's) fs \<Rightarrow> 'o stream \<Rightarrow> 's world \<Rightarrow> (int \<times> 's world) option" where
  "mb_ftell fs st w =
     (case st of
        Null \<Rightarrow> Some (-1, w\<lparr>errno_of := Some EINVAL\<rparr>)
      | Stream f \<Rightarrow> Some (case fs_ftell_fn fs of Some g \<Rightarrow> g f | None \<Rightarrow> pos f, w)
      | _ \<Rightarrow> None)"

definition MB_SEEK_SET :: nat where "MB_SEEK_SET = 0x1000"
definition MB_SEEK_CUR :: nat where "MB_SEEK_CUR = 0x1001"
definition MB_SEEK_END :: nat where "MB_SEEK_END = 0x1002"

lemmas seek_consts = MB_SEEK_SET_def MB_SEEK_CUR_def MB_SEEK_END_def

text \<open>The clamping after the \<open>switch\<close> of \<open>mb_fseek\<close>.\<close>

definition clamp_pos :: "'o mb_file \<Rightarrow> int \<Rightarrow> 'o mb_file" where
  "clamp_pos f p =
     (let p' = (if p < 0 then 0 else p) in f\<lparr>pos := (if p' > len f then len f else p')\<rparr>)"

definition mb_fseek ::
  "('o, 's) fs \<Rightarrow> 'o stream \<Rightarrow> int \<Rightarrow> nat \<Rightarrow> 's world \<Rightarrow> (int \<times> 'o stream \<times> 's world) option" where
  "mb_fseek fs st offset whence w =
     (case st of
        Null \<Rightarrow> Some (-1, st, w\<lparr>errno_of := Some EINVAL\<rparr>)
      | Stream f \<Rightarrow>
          (case fs_fseek_fn fs of
             Some g \<Rightarrow> do { (r, f', w') \<leftarrow> g f offset whence w; Some (r, Stream f', w') }
           | None \<Rightarrow>
               if whence = MB_SEEK_SET then Some (0, Stream (clamp_pos f offset), w)
               else if whence = MB_SEEK_END then Some (0, Stream (clamp_pos f (long_add (len f) (- offset))), w)
               else if whence = MB_SEEK_CUR then Some (0, Stream (clamp_pos f (long_add (pos f) offset)), w)
               else Some (-1, st, w))
      | _ \<Rightarrow> None)"

section \<open>Opening\<close>

definition mb_fopen ::
  "('o, 's) vfs \<Rightarrow> string option \<Rightarrow> string \<Rightarrow> 's world \<Rightarrow> ('o mb_file option \<times> 's world) option" where
  "mb_fopen v path_ptr m w =
     (case path_ptr of
        None \<Rightarrow> Some (None, w\<lparr>errno_of := Some EFAULT\<rparr>)
      | Some path \<Rightarrow> do {
          p \<leftarrow> split_dir v path;
          (case p of
             None \<Rightarrow> Some (None, w\<lparr>errno_of := Some EFAULT\<rparr>)
           | Some (parts, ve) \<Rightarrow>
               if parts = [] \<or> hd parts = '':'' then
                 (if fs_flags (ve_fs ve) AND FS_FLAG_SUPPORTS_EMPTY_FNAME \<noteq> 0
                  then fs_fopen (ve_fs ve) None m w
                  else Some (None, w\<lparr>errno_of := Some EFAULT\<rparr>))
               else do {
                 (dir, w') \<leftarrow> fs_read_directory (ve_fs ve) (butlast parts) w;
                 (if dir = [] then Some (None, w')
                  else
                    (case find (\<lambda>d. de_name d = last parts) dir of
                       None \<Rightarrow> Some (None, w')
                     | Some d \<Rightarrow> fs_fopen (ve_fs ve) (Some d) m w'))
               })
        })"

section \<open>FAT as a file system of the VFS\<close>

text \<open>The function pointers that \<open>fat_init\<close> sets; the others stay null. Opening without a
  directory entry would follow a null pointer.\<close>

definition fat_ops :: "(nat \<Rightarrow> u8) \<Rightarrow> 's fat_fs \<Rightarrow> (u32, 's) fs" where
  "fat_ops junk fat =
     \<lparr>fs_ident = fat_ident fat, fs_parent = Some (fat_parent fat), fs_name = fat_fs_name fat,
      fs_flags = 0,
      fs_fopen = (\<lambda>path m w. case path of None \<Rightarrow> None | Some de \<Rightarrow> Some (fat_fopen fat de m w)),
      fs_fread_fn = (\<lambda>ptr n f w. do {
        (r, buf, f', s') \<leftarrow> fat_fread junk fat ptr n f (dev_state w);
        Some (r, buf, f', w\<lparr>dev_state := s'\<rparr>) }),
      fs_fwrite_fn = None,
      fs_fclose_fn = Some (\<lambda>f w. Some (fat_fclose fat f, w)),
      fs_fsize_fn = None, fs_fseek_fn = None, fs_ftell_fn = None, fs_fflush_fn = None,
      fs_read_directory = fat_read_directory junk fat\<rparr>"

section \<open>Lemmas on paths\<close>

definition plain :: "string \<Rightarrow> bool" where
  "plain c \<longleftrightarrow> (\<forall>x \<in> set c. x \<noteq> CHR ''('' \<and> x \<noteq> CHR '')'' \<and> x \<noteq> CHR ''/'')"

definition slashed :: "string list \<Rightarrow> string" where
  "slashed cs = concat (map (\<lambda>c. CHR ''/'' # c) cs)"

lemma scan_device:
  "plain d \<Longrightarrow> rest \<noteq> [] \<Longrightarrow> 0 < i \<Longrightarrow>
   split_scan v path i (d @ rest) st = split_scan v path (i + length d) rest st"
  by (induction d arbitrary: i) (auto simp: plain_def)

lemma scan_component:
  "plain c \<Longrightarrow> c \<noteq> [] \<Longrightarrow> 0 < i \<Longrightarrow>
   split_scan v path i (c @ rest) st = split_scan v path (i + length c) rest
     (if rest = [] then st\<lparr>dir_count := dir_count st + 1\<rparr> else st)"
proof (induction c arbitrary: i)
  case Nil
  then show ?case by simp
next
  case (Cons x c)
  show ?case
  proof (cases "c = []")
    case True
    then show ?thesis using Cons.prems by (auto simp: plain_def)
  next
    case False
    then show ?thesis using Cons.prems Cons.IH [of "Suc i"] by (auto simp: plain_def)
  qed
qed

lemma scan_components:
  "\<forall>x \<in> set (c # cs). plain x \<and> x \<noteq> [] \<Longrightarrow> dir_start st \<le> i \<Longrightarrow> 0 < i \<Longrightarrow> \<not> reading_dev st \<Longrightarrow>
   split_scan v path i (c @ slashed cs) st
   = Some (st\<lparr>dir_count := dir_count st + length (c # cs)\<rparr>)"
proof (induction cs arbitrary: c i st)
  case Nil
  then show ?case using scan_component [of c i v path "[]" st] by (simp add: slashed_def)
next
  case (Cons d cs)
  have "split_scan v path i (c @ slashed (d # cs)) st
      = split_scan v path (i + length c) (CHR ''/'' # d @ slashed cs) st"
    using Cons.prems scan_component [of c i v path "slashed (d # cs)" st] by (simp add: slashed_def)
  also have "\<dots> = split_scan v path (Suc (i + length c)) (d @ slashed cs)
      (st\<lparr>dir_count := dir_count st + 1\<rparr>)"
    using Cons.prems by (cases c) auto
  also have "\<dots> = Some (st\<lparr>dir_count := dir_count st + length (c # d # cs)\<rparr>)"
    using Cons.prems by (subst Cons.IH) auto
  finally show ?case .
qed

lemma takeWhile_plain:
  "plain c \<Longrightarrow> takeWhile (\<lambda>x. x \<noteq> CHR ''/'') (c @ slashed cs) = c"
  by (cases cs) (auto simp: plain_def slashed_def takeWhile_eq_all_conv takeWhile_append2)

lemma parts_of_components:
  "\<forall>x \<in> set (c # cs). plain x \<Longrightarrow> idx \<le> length path \<Longrightarrow> drop idx path = c @ slashed cs \<Longrightarrow>
   split_parts path (length (c # cs)) idx = Some (c # cs)"
proof (induction cs arbitrary: c idx)
  case Nil
  then show ?case using takeWhile_plain [of c "[]"] by (simp add: Let_def)
next
  case (Cons d cs)
  have tw: "takeWhile (\<lambda>x. x \<noteq> CHR ''/'') (drop idx path) = c"
    using Cons.prems takeWhile_plain [of c "d # cs"] by simp
  have "drop (idx + length c + 1) path = drop (length c + 1) (drop idx path)"
    by (simp add: add.commute add.left_commute)
  also have "\<dots> = d @ slashed cs" using Cons.prems(3) by (simp add: slashed_def)
  finally have d: "drop (idx + length c + 1) path = d @ slashed cs" .
  have "length (drop idx path) = length c + 1 + length d + length (slashed cs)"
    using Cons.prems(3) by (simp add: slashed_def)
  then have "idx + length c + 1 \<le> length path" by simp
  then show ?case using Cons.IH [OF _ _ d] Cons.prems tw by (simp add: Let_def)
qed

lemma split_dir_of_path:
  assumes "plain dev" and "\<forall>c \<in> set (c # cs). plain c \<and> c \<noteq> []" and "find_ve v dev = Some ve"
  shows "split_dir v (''('' @ dev @ '')/'' @ c @ slashed cs) = Some (Some (c # cs, ve))"
proof -
  let ?path = "''('' @ dev @ '')/'' @ c @ slashed cs"
  let ?init = "\<lparr>dir_start = 0, dir_count = 0, reading_dev = False, cur_ve = def_ve v\<rparr>"
  let ?st = "\<lparr>dir_start = length dev + 3, dir_count = 0, reading_dev = False, cur_ve = Some ve\<rparr>"
  define path where "path = ?path"
  have sl: "slice ?path 1 (length dev) = dev" by (simp add: slice_def)
  have "split_scan v ?path 0 ?path ?init
      = split_scan v ?path 1 (dev @ '')/'' @ c @ slashed cs) (?init\<lparr>reading_dev := True\<rparr>)"
    by simp
  also have "\<dots> = split_scan v ?path (1 + length dev) ('')/'' @ c @ slashed cs) (?init\<lparr>reading_dev := True\<rparr>)"
    using assms(1) by (intro scan_device) auto
  also have "\<dots> = split_scan v ?path (length dev + 3) (c @ slashed cs) ?st"
    using sl assms(3) by (simp add: eval_nat_numeral)
  also have "\<dots> = Some (?st\<lparr>dir_count := length (c # cs)\<rparr>)"
    using assms(2) by (subst scan_components) auto
  finally have scan: "split_scan v ?path 0 ?path ?init = Some (?st\<lparr>dir_count := length (c # cs)\<rparr>)" .
  have "split_parts ?path (length (c # cs)) (length dev + 3) = Some (c # cs)"
    using assms(2) by (intro parts_of_components) (auto simp: eval_nat_numeral)
  then have parts: "split_parts path (length (c # cs)) (length dev + 3) = Some (c # cs)"
    by (simp only: path_def)
  have "split_scan v path 0 path ?init = Some (?st\<lparr>dir_count := length (c # cs)\<rparr>)"
    using scan by (simp only: path_def)
  then have "split_dir v path = Some (Some (c # cs, ve))"
    using parts unfolding split_dir_def by (simp del: split_parts.simps)
  then show ?thesis by (simp only: path_def)
qed

section \<open>Properties\<close>

definition demo_vfs :: "(u32, bytes list) vfs" where
  "demo_vfs = \<lparr>first_ve = [\<lparr>ve_device_name = ''ram0'', ve_fs = fat_ops (\<lambda>_. 0) demo_fat\<rparr>],
     def_ve = None, device_names = [''ram0'']\<rparr>"

lemma demo_vfs_find: "find_ve demo_vfs ''ram0''
    = Some \<lparr>ve_device_name = ''ram0'', ve_fs = fat_ops (\<lambda>_. 0) demo_fat\<rparr>"
  by (simp add: demo_vfs_def find_ve_def)

text \<open>C15: The path parser inverts the writing of a path. For a device name and a non-empty list of
  non-empty components without parentheses and slashes, \<open>(dev)/c1/c2/...\<close> is split into
  exactly the components, with the mounted entry of that name.\<close>

theorem split_dir_roundtrip:
  assumes "plain dev" and "\<forall>c \<in> set (c # cs). plain c \<and> c \<noteq> []" and "find_ve v dev = Some ve"
  shows "split_dir v (''('' @ dev @ '')/'' @ c @ slashed cs) = Some (Some (c # cs, ve))"
  using assms by (rule split_dir_of_path)

theorem split_dir_roundtrip_witness:
  "split_dir demo_vfs ''(ram0)/boot/kernel.img'' = Some (Some ([''boot'', ''kernel.img''],
     \<lparr>ve_device_name = ''ram0'', ve_fs = fat_ops (\<lambda>_. 0) demo_fat\<rparr>))"
  using split_dir_roundtrip [OF _ _ demo_vfs_find, of "''boot''" "[''kernel.img'']"]
  by (simp add: plain_def slashed_def)

text \<open>Registering a file system makes its device name resolve to it (a later registration of
  the same name shadows the earlier one), leaves the resolution of every other name alone, sets
  the default only if there was none, and keeps the list of device names below its 256 slots.\<close>

theorem vfs_register_resolves:
  assumes "fs_parent fs = Some parent" and "length (device_names v) \<le> 255"
  shows "\<exists>v'. vfs_register (Some fs) v = (0, v')
    \<and> find_ve v' (device_name parent) = Some \<lparr>ve_device_name = device_name parent, ve_fs = fs\<rparr>
    \<and> (\<forall>name. name \<noteq> device_name parent \<longrightarrow> find_ve v' name = find_ve v name)
    \<and> (def_ve v \<noteq> None \<longrightarrow> def_ve v' = def_ve v)
    \<and> length (device_names v') \<le> 255"
  using assms
  by (auto simp: vfs_register_def vfs_add_def find_ve_def Let_def MAX_DEV_NAMES_def)

theorem vfs_register_resolves_witness:
  "\<exists>v'. vfs_register (Some (fat_ops (\<lambda>_. 0) demo_fat))
      \<lparr>first_ve = [], def_ve = None, device_names = []\<rparr> = (0, v')
    \<and> find_ve v' ''ram0'' = Some \<lparr>ve_device_name = ''ram0'', ve_fs = fat_ops (\<lambda>_. 0) demo_fat\<rparr>"
  using vfs_register_resolves [of "fat_ops (\<lambda>_. 0) demo_fat" "ram_dev 512"
      "\<lparr>first_ve = [], def_ve = None, device_names = []\<rparr>"]
  by (auto simp: fat_ops_def demo_fat_def ram_dev_def)

text \<open>C17: \<open>mb_fseek\<close> on a file system without its own \<open>fseek\<close>. The target is the offset itself
  (\<open>MB_SEEK_SET\<close>), the position plus the offset (\<open>MB_SEEK_CUR\<close>) or the length of the file minus the
  offset (\<open>MB_SEEK_END\<close>), in the 32-bit arithmetic of \<open>long\<close>; the result is 0 and the new position is
  the target cut off at 0 and at the length of the file, so it always lies between them when the
  length is not negative. For any other origin the result is -1 and the stream stays as it is.
  Nothing but the position changes.\<close>

theorem mb_fseek_in_range:
  assumes "fs_fseek_fn fs = None" and "0 \<le> len f"
  shows "mb_fseek fs (Stream f) offset MB_SEEK_SET w
      = Some (0, Stream (f\<lparr>pos := max 0 (min offset (len f))\<rparr>), w)
    \<and> mb_fseek fs (Stream f) offset MB_SEEK_CUR w
      = Some (0, Stream (f\<lparr>pos := max 0 (min (long_add (pos f) offset) (len f))\<rparr>), w)
    \<and> mb_fseek fs (Stream f) offset MB_SEEK_END w
      = Some (0, Stream (f\<lparr>pos := max 0 (min (long_add (len f) (- offset)) (len f))\<rparr>), w)
    \<and> (whence \<notin> {MB_SEEK_SET, MB_SEEK_CUR, MB_SEEK_END} \<longrightarrow>
        mb_fseek fs (Stream f) offset whence w = Some (-1, Stream f, w))"
proof -
  have "clamp_pos f p = f\<lparr>pos := max 0 (min p (len f))\<rparr>" for p
    using assms(2) by (simp add: clamp_pos_def Let_def max_def min_def)
  then show ?thesis using assms(1) by (simp add: mb_fseek_def seek_consts)
qed

theorem mb_fseek_in_range_witness:
  "mb_fseek (fat_ops (\<lambda>_. 0) demo_fat)
      (Stream \<lparr>file_fs = 1, pos = 1, mode = 0, opaque = 2, len = 4, flags = 0\<rparr>) 3 MB_SEEK_END
      \<lparr>errno_of = None, dev_state = demo_fat_disk\<rparr>
    = Some (0, Stream \<lparr>file_fs = 1, pos = max 0 (min (long_add 4 (-3)) 4), mode = 0, opaque = 2,
        len = 4, flags = 0\<rparr>, \<lparr>errno_of = None, dev_state = demo_fat_disk\<rparr>)
    \<and> max 0 (min (long_add 4 (-3)) 4) = 1"
  using mb_fseek_in_range [of "fat_ops (\<lambda>_. 0) demo_fat"
      "\<lparr>file_fs = 1, pos = 1, mode = 0, opaque = 2, len = 4, flags = 0\<rparr>" 3]
  by (simp add: fat_ops_def long_add_def)

text \<open>C16: \<open>mb_fopen\<close> on such a path asks the file system for the directory of the leading
  components, looks the last component up in it and opens the first entry of that name.\<close>

theorem mb_fopen_resolves:
  assumes "plain dev" and "\<forall>c \<in> set (c # cs). plain c \<and> c \<noteq> []" and "c \<noteq> '':''"
    and "find_ve v dev = Some ve"
    and "fs_read_directory (ve_fs ve) (butlast (c # cs)) w = Some (dir, w')"
    and "find (\<lambda>d. de_name d = last (c # cs)) dir = Some d"
  shows "mb_fopen v (Some (''('' @ dev @ '')/'' @ c @ slashed cs)) m w = fs_fopen (ve_fs ve) (Some d) m w'"
proof -
  have "dir \<noteq> []" using assms(6) by auto
  then show ?thesis
    using split_dir_of_path [OF assms(1,2,4)] assms(3,5,6) by (simp add: mb_fopen_def)
qed

definition demo_dir_fs :: "(u32, bytes list) fs" where
  "demo_dir_fs = (fat_ops (\<lambda>_. 0) demo_fat)\<lparr>fs_read_directory :=
     (\<lambda>p w. Some ([\<lparr>de_name = ''kernel.img'', de_byte_size = 4, is_dir = False, de_opaque = 2,
       de_fs = 1\<rparr>], w))\<rparr>"

theorem mb_fopen_resolves_witness:
  "mb_fopen \<lparr>first_ve = [\<lparr>ve_device_name = ''ram0'', ve_fs = demo_dir_fs\<rparr>], def_ve = None, device_names = []\<rparr>
      (Some ''(ram0)/boot/kernel.img'') ''r'' \<lparr>errno_of = None, dev_state = []\<rparr>
    = Some (Some \<lparr>file_fs = 1, pos = 0, mode = 0, opaque = 2, len = 4, flags = 0\<rparr>,
        \<lparr>errno_of = None, dev_state = []\<rparr>)"
proof -
  let ?v = "\<lparr>first_ve = [\<lparr>ve_device_name = ''ram0'', ve_fs = demo_dir_fs\<rparr>], def_ve = None, device_names = []\<rparr>"
  have "find_ve ?v ''ram0'' = Some \<lparr>ve_device_name = ''ram0'', ve_fs = demo_dir_fs\<rparr>"
    by (simp add: find_ve_def)
  from mb_fopen_resolves [OF _ _ _ this, of "''boot''" "[''kernel.img'']"]
  show ?thesis
    by (simp add: plain_def slashed_def demo_dir_fs_def fat_ops_def fat_fopen_def demo_fat_def)
qed

text \<open>An open FAT file, with the request cut to the length of the file.\<close>

lemma mb_fread_fat_chain:
  assumes "fat_ok fat n dinv dcontent C c0 nb (dev_state w)" and "file_fs f = fat_ident fat"
    and "opaque f = c0" and "c0 \<noteq> 0" and "0 \<le> pos f" and "pos f \<le> len f"
    and "nat (len f) \<le> nb * unat (fat_block_size fat)" and "m < 2 ^ 31"
    and "k = min m (nat (len f - pos f))" and "k \<le> length buf"
  shows "\<exists>f' w'. mb_fread (fat_ops junk fat) buf 1 (of_nat m) (Stream f) w = Some (of_nat k,
      splice buf 0 (slice (concat (map (\<lambda>i. load_blocks C (unat (get_sector fat (fat_chain fat C c0 i)))
        (unat (sectors_per_cluster fat))) [0..<nb])) (nat (pos f)) k), Stream f', w')
    \<and> pos f' = pos f + int k"
proof -
  have "Suc nb * unat (fat_block_size fat) < 2 ^ 31"
    using assms(1) unfolding fat_ok_def fat_file_ok_def by blast
  then have lenb: "nat (len f) < 2 ^ 31" using assms(7) by simp
  have avail: "word_of_int (len f - pos f) = (of_nat (nat (len f - pos f)) :: u32)"
    using assms(6) by simp
  have "nat (len f - pos f) \<le> nat (len f)" using assms(5) by simp
  then have "nat (len f - pos f) < 2 ^ 32" "m < 2 ^ 32" using lenb assms(8) by simp_all
  then have clamp: "(if (of_nat m :: u32) > of_nat (nat (len f - pos f)) then of_nat (nat (len f - pos f))
      else of_nat m) = (of_nat k :: u32)"
    using assms(9) by (simp add: word_less_nat_alt word_nat_simps min_def)
  have range: "nat (pos f) + k \<le> nb * unat (fat_block_size fat)"
    using assms(5-7,9) by linarith
  obtain f' s' where "fat_fread junk fat buf (of_nat k) f (dev_state w) = Some (of_nat k,
      splice buf 0 (slice (concat (map (\<lambda>i. load_blocks C (unat (get_sector fat (fat_chain fat C c0 i)))
        (unat (sectors_per_cluster fat))) [0..<nb])) (nat (pos f)) k), f', s')"
    "pos f' = pos f + int k"
    using fat_fread_chain [OF assms(1-5) range assms(10), of junk] by auto
  moreover have "mb_fread (fat_ops junk fat) buf 1 (of_nat m) (Stream f) w = do {
      (r, b, f', s') \<leftarrow> fat_fread junk fat buf (of_nat k) f (dev_state w);
      Some (r, b, Stream f', w\<lparr>dev_state := s'\<rparr>) }"
    unfolding mb_fread_def stream.case Let_def avail mult_1_left clamp
    by (cases "fat_fread junk fat buf (of_nat k) f (dev_state w)") (auto simp: fat_ops_def)
  ultimately show ?thesis by simp
qed

text \<open>C2: Reading an open FAT file through the VFS: a request for \<open>m\<close> bytes at the stream's
  position delivers the bytes of the cluster chain from there on, but never more than up to the
  length of the file; it returns the number of bytes delivered and advances the position by it.\<close>

theorem mb_fread_fat_file:
  assumes "fat_ok fat n dinv dcontent C c0 nb (dev_state w)" and "file_fs f = fat_ident fat"
    and "opaque f = c0" and "c0 \<noteq> 0" and "0 \<le> pos f" and "pos f \<le> len f"
    and "nat (len f) \<le> nb * unat (fat_block_size fat)" and "m < 2 ^ 31"
    and "k = min m (nat (len f - pos f))" and "k \<le> length buf"
  shows "\<exists>f' w'. mb_fread (fat_ops junk fat) buf 1 (of_nat m) (Stream f) w = Some (of_nat k,
      splice buf 0 (slice (concat (map (\<lambda>i. load_blocks C (unat (get_sector fat (fat_chain fat C c0 i)))
        (unat (sectors_per_cluster fat))) [0..<nb])) (nat (pos f)) k), Stream f', w')
    \<and> pos f' = pos f + int k"
  using assms by (rule mb_fread_fat_chain)

theorem mb_fread_fat_file_witness:
  "\<exists>f' w'. mb_fread (fat_ops (\<lambda>_. 0) demo_fat) [0, 0, 0, 9] 1 (of_nat 100)
      (Stream \<lparr>file_fs = 1, pos = 1, mode = 0, opaque = 2, len = 4, flags = 0\<rparr>)
      \<lparr>errno_of = None, dev_state = demo_fat_disk\<rparr>
    = Some (3, [66, 67, 68, 9], Stream f', w') \<and> pos f' = 4"
proof -
  let ?f = "\<lparr>file_fs = 1, pos = 1, mode = 0, opaque = 2, len = 4, flags = 0\<rparr> :: u32 mb_file"
  let ?w = "\<lparr>errno_of = None, dev_state = demo_fat_disk\<rparr>"
  have data: "splice [0, 0, 0, 9] 0 (slice (concat (map (\<lambda>i. load_blocks ((!) demo_fat_disk)
      (unat (get_sector demo_fat (fat_chain demo_fat ((!) demo_fat_disk) 2 i)))
      (unat (sectors_per_cluster demo_fat))) [0..<1])) (nat (pos ?f)) 3) = [66, 67, 68, 9]"
    by code_simp
  have ok: "fat_ok demo_fat 3 (ram_ok 512 3) (!) ((!) demo_fat_disk) 2 1 (dev_state ?w)"
    using demo_fat_ok by simp
  have "file_fs ?f = fat_ident demo_fat" "opaque ?f = 2" "(2 :: u32) \<noteq> 0" "0 \<le> pos ?f"
    "pos ?f \<le> len ?f" "nat (len ?f) \<le> 1 * unat (fat_block_size demo_fat)" "(100 :: nat) < 2 ^ 31"
    "3 = min 100 (nat (len ?f - pos ?f))" "3 \<le> length [0, 0, 0, 9 :: u8]"
    by (simp_all add: demo_fat_def)
  from mb_fread_fat_file [OF ok this, of "\<lambda>_. 0"] show ?thesis unfolding data by auto
qed

end
