(* ===== verification/Syscalls.thy ===== *)
theory Syscalls
  imports Vfs
begin

text \<open>
  The system calls of newlib (\<open>syscalls.c\<close>): the descriptor table, the heap break, and the calls
  that are constant. \<open>sys_io\<close> is the table with which the calls can be vectored out; a null
  function pointer is \<^term>\<open>None\<close>.

  \<open>uart_in\<close> are the characters that the serial line will still deliver (a read that would wait for
  ever is \<^term>\<open>None\<close>), \<open>uart_out\<close> those that were sent. An entry of \<open>file_handles\<close> is a null pointer
  or a stream; the file system that a stream points to is found among the mounted ones.
\<close>

section \<open>State\<close>

record ('o, 's) kernel =
  heap_end :: u32
  file_handles :: "'o mb_file option list"
  uart_in :: bytes
  uart_out :: bytes
  k_vfs :: "('o, 's) vfs"
  k_world :: "'s world"

record 'k sys_io =
  io_read :: "(int \<Rightarrow> bytes \<Rightarrow> int \<Rightarrow> 'k \<Rightarrow> (int \<times> bytes \<times> 'k) option) option"
  io_lseek :: "(int \<Rightarrow> int \<Rightarrow> int \<Rightarrow> 'k \<Rightarrow> (int \<times> 'k) option) option"
  io_write :: "(int \<Rightarrow> bytes \<Rightarrow> int \<Rightarrow> 'k \<Rightarrow> (int \<times> 'k) option) option"
  force_defaults :: bool

definition MEM_HEAP_START :: u32 where "MEM_HEAP_START = 0x320000"
definition FILE_STDIN :: int where "FILE_STDIN = 0"
definition FILE_STDERR :: int where "FILE_STDERR = 2"
definition MB_MAX_FILE_HANDLES :: nat where "MB_MAX_FILE_HANDLES = 256"

lemmas sys_consts = FILE_STDIN_def FILE_STDERR_def MB_MAX_FILE_HANDLES_def

definition initialise_monitor_handles :: "'k sys_io \<Rightarrow> 'k sys_io" where
  "initialise_monitor_handles io = io\<lparr>force_defaults := True\<rparr>"

definition stream_fs :: "('o, 's) vfs \<Rightarrow> 'o mb_file \<Rightarrow> ('o, 's) fs option" where
  "stream_fs v f =
     map_option ve_fs (find (\<lambda>ve. fs_ident (ve_fs ve) = file_fs f) (first_ve v))"

text \<open>\<open>file_handles[file]\<close>; outside the array is \<^term>\<open>None\<close>.\<close>

definition handle_at :: "('o, 's) kernel \<Rightarrow> int \<Rightarrow> 'o mb_file option option" where
  "handle_at k file =
     (if file < 0 \<or> nat file \<ge> length (file_handles k) then None else Some (file_handles k ! nat file))"

section \<open>Input and output\<close>

definition sys_read ::
  "('o, 's) kernel sys_io \<Rightarrow> int \<Rightarrow> bytes \<Rightarrow> int \<Rightarrow> ('o, 's) kernel \<Rightarrow>
   (int \<times> bytes \<times> ('o, 's) kernel) option" where
  "sys_read io file ptr n k =
     (if \<not> force_defaults io \<and> io_read io \<noteq> None then the (io_read io) file ptr n k
      else if file = FILE_STDIN then
        (if nat n > length ptr \<or> nat n > length (uart_in k) then None
         else Some (n, splice ptr 0 (take (nat n) (uart_in k)), k\<lparr>uart_in := drop (nat n) (uart_in k)\<rparr>))
      else do {
        h \<leftarrow> handle_at k file;
        (case h of
           None \<Rightarrow> Some (-1, ptr, k)
         | Some f \<Rightarrow> do {
             fs \<leftarrow> stream_fs (k_vfs k) f;
             (r, buf, st, w) \<leftarrow> mb_fread fs ptr 1 (word_of_int n) (Stream f) (k_world k);
             (case st of
                Stream f' \<Rightarrow> Some (sint r, buf,
                  k\<lparr>file_handles := (file_handles k)[nat file := Some f'], k_world := w\<rparr>)
              | _ \<Rightarrow> None)
           })
      })"

text \<open>The constants of \<open><stdio.h>\<close> are 0, 1 and 2.\<close>

definition translate_whence :: "int \<Rightarrow> nat" where
  "translate_whence dir =
     (if dir = 0 then MB_SEEK_SET else if dir = 1 then MB_SEEK_CUR
      else if dir = 2 then MB_SEEK_END else nat dir)"

definition sys_lseek ::
  "('o, 's) kernel sys_io \<Rightarrow> int \<Rightarrow> int \<Rightarrow> int \<Rightarrow> ('o, 's) kernel \<Rightarrow> (int \<times> ('o, 's) kernel) option" where
  "sys_lseek io file ptr dir k =
     (if \<not> force_defaults io \<and> io_lseek io \<noteq> None then the (io_lseek io) file ptr dir k
      else if file \<le> FILE_STDERR then Some (0, k)
      else do {
        h \<leftarrow> handle_at k file;
        (case h of
           None \<Rightarrow> Some (-1, k)
         | Some f \<Rightarrow> do {
             fs \<leftarrow> stream_fs (k_vfs k) f;
             (r, st, w) \<leftarrow> mb_fseek fs (Stream f) ptr (translate_whence dir) (k_world k);
             (case st of
                Stream f' \<Rightarrow> Some (r, k\<lparr>file_handles := (file_handles k)[nat file := Some f'], k_world := w\<rparr>)
              | _ \<Rightarrow> None)
           })
      })"

text \<open>The code tests the pointer of \<open>_lseek\<close> and calls the one of \<open>_write\<close>.\<close>

definition sys_write ::
  "('o, 's) kernel sys_io \<Rightarrow> int \<Rightarrow> bytes \<Rightarrow> int \<Rightarrow> ('o, 's) kernel \<Rightarrow> (int \<times> ('o, 's) kernel) option" where
  "sys_write io file ptr n k =
     (if \<not> force_defaults io \<and> io_lseek io \<noteq> None then
        (case io_write io of None \<Rightarrow> None | Some wr \<Rightarrow> wr file ptr n k)
      else if nat n > length ptr then None
      else Some (n, k\<lparr>uart_out := uart_out k @ take (nat n) ptr\<rparr>))"

section \<open>Descriptors\<close>

definition free_handle :: "('o, 's) kernel \<Rightarrow> nat option" where
  "free_handle k = find (\<lambda>i. file_handles k ! i = None) [3..<MB_MAX_FILE_HANDLES]"

definition sys_open ::
  "string option \<Rightarrow> int \<Rightarrow> ('o, 's) kernel \<Rightarrow> (int \<times> ('o, 's) kernel) option" where
  "sys_open path oflags k = do {
     (f, w) \<leftarrow> mb_fopen (k_vfs k) path ''r'' (k_world k);
     (case f of
        None \<Rightarrow> Some (-1, k\<lparr>k_world := w\<rparr>)
      | Some file \<Rightarrow>
          (case free_handle k of
             None \<Rightarrow> Some (-1, k\<lparr>k_world := w\<rparr>)
           | Some i \<Rightarrow> Some (int i, k\<lparr>k_world := w, file_handles := (file_handles k)[i := Some file]\<rparr>)))
   }"

definition sys_close :: "int \<Rightarrow> ('o, 's) kernel \<Rightarrow> (int \<times> ('o, 's) kernel) option" where
  "sys_close file k =
     (if file \<le> FILE_STDERR then Some (-1, k)
      else do {
        h \<leftarrow> handle_at k file;
        (case h of
           None \<Rightarrow> Some (-1, k)
         | Some f \<Rightarrow> do {
             fs \<leftarrow> stream_fs (k_vfs k) f;
             (r, w) \<leftarrow> mb_fclose fs (Stream f) (k_world k);
             Some (r, k\<lparr>file_handles := (file_handles k)[nat file := None], k_world := w\<rparr>)
           })
      })"

section \<open>The heap\<close>

definition sys_sbrk :: "int \<Rightarrow> ('o, 's) kernel \<Rightarrow> u32 \<times> ('o, 's) kernel" where
  "sys_sbrk incr k =
     (let prev_heap_end = heap_end k;
          h = heap_end k + word_of_int incr;
          h' = (if h AND 0xfff \<noteq> 0 then (h AND NOT 0xfff) + 0x1000 else h)
      in (prev_heap_end, k\<lparr>heap_end := h'\<rparr>))"

section \<open>Constant calls\<close>

definition sys_kill :: "int \<Rightarrow> int \<Rightarrow> int" where "sys_kill n m = 0"
definition sys_getpid :: "int \<Rightarrow> int" where "sys_getpid n = 1"
definition sys_fstat :: "int \<Rightarrow> int" where "sys_fstat file = (if file \<le> FILE_STDERR then 0 else 0)"
definition sys_stat :: "string \<Rightarrow> int" where "sys_stat fname = 0"
definition sys_link :: int where "sys_link = -1"
definition sys_unlink :: int where "sys_unlink = -1"
definition sys_isatty :: "int \<Rightarrow> int" where "sys_isatty fd = 1"

text \<open>The fields set through the pointers, if they are not null.\<close>

definition sys_gettimeofday ::
  "(int \<times> int) option \<Rightarrow> (int \<times> int) option \<Rightarrow> int \<times> (int \<times> int) option \<times> (int \<times> int) option" where
  "sys_gettimeofday tp tzp = (0, map_option (\<lambda>_. (10, 0)) tp, map_option (\<lambda>_. (0, 0)) tzp)"

definition sys_times :: "(int \<times> int \<times> int \<times> int) option \<Rightarrow> int \<times> (int \<times> int \<times> int \<times> int) option" where
  "sys_times tp = (10, map_option (\<lambda>_. (10, 0, 0, 0)) tp)"

definition sys_system :: "string option \<Rightarrow> 's world \<Rightarrow> int \<times> 's world" where
  "sys_system s w = (if s = None then (0, w) else (-1, w\<lparr>errno_of := Some ENOSYS\<rparr>))"

definition sys_rename :: "string \<Rightarrow> string \<Rightarrow> 's world \<Rightarrow> int \<times> 's world" where
  "sys_rename oldpath newpath w = (-1, w\<lparr>errno_of := Some ENOSYS\<rparr>)"

section \<open>The descriptor table\<close>

definition handles_ok :: "('o, 's) kernel \<Rightarrow> bool" where
  "handles_ok k \<longleftrightarrow> length (file_handles k) = MB_MAX_FILE_HANDLES \<and> (\<forall>i < 3. file_handles k ! i = None)"

lemma free_handle_Some:
  assumes "free_handle k = Some i"
  shows "3 \<le> i" and "i < 256" and "file_handles k ! i = None"
    and "\<And>j. 3 \<le> j \<Longrightarrow> j < i \<Longrightarrow> file_handles k ! j \<noteq> None"
  using find_upt_Some [OF assms [unfolded free_handle_def MB_MAX_FILE_HANDLES_def]] by simp_all

text \<open>An open that succeeds fills one slot.\<close>

lemma sys_open_slot:
  assumes "sys_open path fl k = Some (r, k')" and "0 \<le> r"
  shows "\<exists>i f. r = int i \<and> free_handle k = Some i
    \<and> file_handles k' = (file_handles k)[i := Some f] \<and> k_vfs k' = k_vfs k"
proof -
  obtain f w where m: "mb_fopen (k_vfs k) path ''r'' (k_world k) = Some (f, w)"
    using assms(1) by (auto simp: sys_open_def bind_eq_Some_conv)
  show ?thesis
    using assms m by (cases f; cases "free_handle k") (auto simp: sys_open_def)
qed

lemma align_bounds:
  fixes h :: u32
  assumes "unat h + 4096 < 2 ^ 32"
  defines "h' \<equiv> (if h AND 0xfff \<noteq> 0 then (h AND NOT 0xfff) + 0x1000 else h)"
  shows "unat h \<le> unat h' \<and> unat h' < unat h + 4096 \<and> unat h' mod 4096 = 0"
proof -
  have m: "(0xfff :: u32) = mask 12" by (simp add: mask_eq_exp_minus_1)
  have low: "unat (h AND 0xfff) = unat h mod 4096"
    unfolding m by (simp add: take_bit_eq_mask [symmetric] unsigned_take_bit_eq)
      (simp add: take_bit_eq_mod)
  have high: "unat (h AND NOT 0xfff) = unat h div 4096 * 4096"
    unfolding m using and_not_mask_unat [of 12 h] by simp
  have split: "unat h = unat h div 4096 * 4096 + unat h mod 4096" "unat h mod 4096 < 4096" by simp_all
  show ?thesis
  proof (cases "h AND 0xfff = 0")
    case True
    then have "unat h mod 4096 = 0" using low by simp
    then show ?thesis using True by (simp add: h'_def)
  next
    case False
    then have pos: "0 < unat h mod 4096" using low by (metis gr0I unat_0 unat_inj32)
    have "unat (h AND NOT 0xfff) + unat (0x1000 :: u32) < 2 ^ 32" using assms(1) split high by simp
    then have "unat h' = unat h div 4096 * 4096 + 4096"
      using False high by (simp add: h'_def unat_add_no_wrap)
    then have "unat h \<le> unat h'" "unat h' < unat h + 4096" "unat h' mod 4096 = 0"
      using split pos by (linarith, linarith, simp)
    then show ?thesis by simp
  qed
qed

section \<open>Properties\<close>

definition demo_kernel :: "(u32, bytes list) kernel" where
  "demo_kernel = \<lparr>heap_end = MEM_HEAP_START, file_handles = replicate 256 None, uart_in = [],
     uart_out = [], k_vfs = \<lparr>first_ve = [\<lparr>ve_device_name = ''ram0'', ve_fs = demo_dir_fs\<rparr>],
       def_ve = None, device_names = []\<rparr>,
     k_world = \<lparr>errno_of = None, dev_state = demo_fat_disk\<rparr>\<rparr>"

definition demo_io :: "(u32, bytes list) kernel sys_io" where
  "demo_io = \<lparr>io_read = None, io_lseek = Some (\<lambda>file ptr dir k. Some (0, k)), io_write = None,
     force_defaults = False\<rparr>"

definition demo_file :: "u32 mb_file" where
  "demo_file = \<lparr>file_fs = 1, pos = 0, mode = 0, opaque = 2, len = 4, flags = 0\<rparr>"

lemma demo_handles: "handles_ok demo_kernel"
  by (simp add: handles_ok_def demo_kernel_def sys_consts)

lemma demo_open: "sys_open (Some ''(ram0)/boot/kernel.img'') 0 demo_kernel
    = Some (3, demo_kernel\<lparr>file_handles := (replicate 256 None)[3 := Some demo_file]\<rparr>)"
proof -
  have "split_dir (k_vfs demo_kernel) ''(ram0)/boot/kernel.img''
      = Some (Some ([''boot'', ''kernel.img''], \<lparr>ve_device_name = ''ram0'', ve_fs = demo_dir_fs\<rparr>))"
    using split_dir_of_path [of "''ram0''" "''boot''" "[''kernel.img'']" "k_vfs demo_kernel"
        "\<lparr>ve_device_name = ''ram0'', ve_fs = demo_dir_fs\<rparr>"]
    by (simp add: plain_def slashed_def demo_kernel_def find_ve_def)
  moreover have "free_handle demo_kernel = Some 3"
    by (simp add: free_handle_def demo_kernel_def MB_MAX_FILE_HANDLES_def upt_conv_Cons)
  ultimately show ?thesis
    by (simp add: sys_open_def mb_fopen_def demo_dir_fs_def fat_ops_def fat_fopen_def demo_fat_def
        demo_file_def) (simp add: demo_kernel_def)
qed

text \<open>\<open>_open\<close> gives out the lowest descriptor that is free and above the standard streams, puts
  the stream there and touches no other descriptor; the standard slots stay empty.\<close>

theorem sys_open_lowest_free:
  assumes "handles_ok k" and "sys_open path fl k = Some (r, k')" and "0 \<le> r"
  shows "3 \<le> r \<and> r < 256 \<and> file_handles k ! nat r = None \<and> file_handles k' ! nat r \<noteq> None
    \<and> (\<forall>j. 3 \<le> j \<and> j < nat r \<longrightarrow> file_handles k ! j \<noteq> None)
    \<and> (\<forall>j. j \<noteq> nat r \<longrightarrow> file_handles k' ! j = file_handles k ! j) \<and> handles_ok k'"
proof -
  obtain i f where i: "r = int i" "free_handle k = Some i"
    "file_handles k' = (file_handles k)[i := Some f]"
    using sys_open_slot [OF assms(2,3)] by blast
  show ?thesis
    using free_handle_Some [OF i(2)] i(1,3) assms(1) by (auto simp: handles_ok_def sys_consts)
qed

theorem sys_open_lowest_free_witness:
  "\<exists>k'. sys_open (Some ''(ram0)/boot/kernel.img'') 0 demo_kernel = Some (3, k') \<and> handles_ok k'"
  using sys_open_lowest_free [OF demo_handles demo_open] demo_open by simp

text \<open>C28: \<open>_close\<close> undoes \<open>_open\<close>: closing the descriptor just opened, when the file system's own
  close returns, leaves the descriptor table as it was before.\<close>

theorem sys_close_restores_table:
  assumes "handles_ok k" and "sys_open path fl k = Some (fd, k1)" and "0 \<le> fd"
    and "sys_close fd k1 = Some (r, k2)"
  shows "file_handles k2 = file_handles k"
proof -
  obtain i f where i: "fd = int i" "free_handle k = Some i"
    "file_handles k1 = (file_handles k)[i := Some f]"
    using sys_open_slot [OF assms(2,3)] by blast
  note free = free_handle_Some [OF i(2)]
  have "file_handles k2 = (file_handles k1)[i := None]"
    using assms(4) i free assms(1)
    by (auto simp: sys_close_def handle_at_def sys_consts handles_ok_def bind_eq_Some_conv
        split: if_splits option.splits)
  then show ?thesis using i(3) free(3) by (simp add: list_update_same_conv) (metis list_update_id)
qed

theorem sys_close_restores_table_witness:
  "\<exists>r k2. sys_close 3 (demo_kernel\<lparr>file_handles := (replicate 256 None)[3 := Some demo_file]\<rparr>) = Some (r, k2)
    \<and> file_handles k2 = file_handles demo_kernel"
proof -
  obtain r k2 where run: "sys_close 3 (demo_kernel\<lparr>file_handles := (replicate 256 None)[3 := Some demo_file]\<rparr>)
      = Some (r, k2)"
    by (simp add: sys_close_def handle_at_def sys_consts stream_fs_def demo_kernel_def demo_file_def
        demo_dir_fs_def fat_ops_def demo_fat_def mb_fclose_def mb_fflush_def)
  from sys_close_restores_table [OF demo_handles demo_open _ run] run show ?thesis by simp
qed

text \<open>\<open>_sbrk\<close> with a non-negative increment returns the old break; the new one is at least the
  old one plus the increment, less than a page more, and a multiple of 4096, as long as the
  addresses do not wrap.\<close>

theorem sys_sbrk_aligned:
  assumes "0 \<le> incr" and "int (unat (heap_end k)) + incr + 4096 < 2 ^ 32"
    and "sys_sbrk incr k = (p, k')"
  shows "p = heap_end k \<and> int (unat (heap_end k)) + incr \<le> int (unat (heap_end k'))
    \<and> int (unat (heap_end k')) < int (unat (heap_end k)) + incr + 4096
    \<and> unat (heap_end k') mod 4096 = 0"
proof -
  have ui: "unat (word_of_int incr :: u32) = nat incr"
    using assms(1,2) of_nat_0_le_iff [of "unat (heap_end k)"]
    by (intro unat_word_of_int32) linarith+
  have "int (unat (heap_end k) + nat incr + 4096) < int (2 ^ 32)" using assms(1,2) by simp
  then have bound: "unat (heap_end k) + nat incr + 4096 < 2 ^ 32" by (simp only: of_nat_less_iff)
  then have h: "unat (heap_end k + word_of_int incr) = unat (heap_end k) + nat incr"
    using ui by (simp add: unat_add_no_wrap)
  have "unat (heap_end k + word_of_int incr) + 4096 < 2 ^ 32"
    unfolding h by (rule bound)
  note al = align_bounds [OF this, unfolded h]
  define u where "u = unat (heap_end k')"
  have p: "p = heap_end k" using assms(3) by (auto simp: sys_sbrk_def Let_def)
  have "heap_end k' = (if heap_end k + word_of_int incr AND 0xfff \<noteq> 0
      then (heap_end k + word_of_int incr AND NOT 0xfff) + 0x1000 else heap_end k + word_of_int incr)"
    using assms(3) by (auto simp: sys_sbrk_def Let_def)
  then have u: "unat (heap_end k) + nat incr \<le> u" "u < unat (heap_end k) + nat incr + 4096"
    "u mod 4096 = 0"
    using al unfolding u_def by (simp_all only:)
  have "int (nat incr) = incr" using assms(1) by simp
  then have "int (unat (heap_end k)) + incr \<le> int u \<and> int u < int (unat (heap_end k)) + incr + 4096"
    using u(1,2) by linarith
  then show ?thesis using p u(3) unfolding u_def by blast
qed

theorem sys_sbrk_aligned_witness:
  "\<exists>k'. sys_sbrk 100 demo_kernel = (0x320000, k') \<and> unat (heap_end k') mod 4096 = 0"
proof -
  obtain p k' where run: "sys_sbrk 100 demo_kernel = (p, k')" by fastforce
  from sys_sbrk_aligned [OF _ _ this] show ?thesis
    using run by (simp add: demo_kernel_def MEM_HEAP_START_def)
qed

text \<open>When \<open>_lseek\<close> is vectored out and \<open>_write\<close> is not, a write calls a null function pointer.\<close>

theorem sys_write_null_vector:
  assumes "\<not> force_defaults io" and "io_lseek io \<noteq> None" and "io_write io = None"
  shows "sys_write io file ptr n k = None"
  using assms by (simp add: sys_write_def)

theorem sys_write_null_vector_witness:
  "sys_write demo_io 1 [104, 105] 2 demo_kernel = None"
  by (rule sys_write_null_vector) (simp_all add: demo_io_def)

end
