(* ===== verification/Ihex_Loader.thy ===== *)
theory Ihex_Loader
  imports Byte_Access
begin

text \<open>
  The serial boot loader (\<open>bootloader/bootloader07.c\<close>): the state machine that reads Intel hex
  records from the UART and stores their words into memory, and its host test program
  (\<open>bootloader/ihex.c\<close>), which has the same \<open>switch\<close>. One received character is one step.
  \<open>put32\<close> is the list of \<open>PUT32\<close> calls in order, \<open>sent\<close> the characters sent, \<open>gpio\<close> the writes to
  the LED registers (true for the set, false for the clear register).

  The main result: a record of the format the tools write is decoded to exactly the stores of its
  words.
\<close>

section \<open>State\<close>

record loader =
  ld_state :: nat
  byte_count :: u32
  address :: u32
  record_type :: u32
  segment :: u32
  data :: u32
  sum :: u32
  led_state :: bool
  line_count :: u32
  put32 :: "(u32 \<times> u32) list"
  sent :: "u32 list"
  gpio :: "bool list"

section \<open>Output of numbers\<close>

definition hex_char :: "u32 \<Rightarrow> u32" where
  "hex_char rc = (if rc > 9 then rc + 0x37 else rc + 0x30)"

text \<open>\<open>hexstrings\<close> of \<open>periph.c\<close>: \<open>rb\<close> counts from 28 down to 0.\<close>

fun hexstrings_loop :: "u32 \<Rightarrow> nat \<Rightarrow> u32 list" where
  "hexstrings_loop d rb =
     (let rb' = rb - 4 in
      hex_char (drop_bit rb' d AND 0xF) # (if rb' = 0 then [] else hexstrings_loop d rb'))"

declare hexstrings_loop.simps [simp del]

definition hexstrings :: "u32 \<Rightarrow> u32 list" where
  "hexstrings d = hexstrings_loop d 32 @ [0x20]"

definition hexstring :: "u32 \<Rightarrow> u32 list" where
  "hexstring d = hexstrings d @ [0x0D, 0x0A]"

section \<open>The switch\<close>

definition send :: "u32 list \<Rightarrow> loader \<Rightarrow> loader" where
  "send cs l = l\<lparr>sent := sent l @ cs\<rparr>"

text \<open>\<open>if(ra>0x39) ra-=7;\<close> and the mask with \<open>0xF\<close>.\<close>

definition digit :: "u32 \<Rightarrow> u32" where
  "digit ra = (if ra > 0x39 then ra - 7 else ra) AND 0xF"

definition count_digit :: "u32 \<Rightarrow> loader \<Rightarrow> loader" where
  "count_digit ra l = l\<lparr>byte_count := (push_bit 4 (byte_count l) OR digit ra) AND 0xFF,
     ld_state := ld_state l + 1\<rparr>"

definition address_digit :: "u32 \<Rightarrow> loader \<Rightarrow> loader" where
  "address_digit ra l = l\<lparr>address := ((push_bit 4 (address l) OR digit ra) AND 0xFFFF) OR segment l,
     ld_state := ld_state l + 1\<rparr>"

definition type_digit :: "u32 \<Rightarrow> loader \<Rightarrow> loader" where
  "type_digit ra l = l\<lparr>record_type := (push_bit 4 (record_type l) OR digit ra) AND 0xFF\<rparr>"

text \<open>\<open>finish\<close> is what the program prints for an end record.\<close>

definition type_done :: "(loader \<Rightarrow> loader) \<Rightarrow> loader \<Rightarrow> loader" where
  "type_done finish l =
     (if record_type l = 0 then l\<lparr>ld_state := 14\<rparr>
      else if record_type l = 1 then (finish l)\<lparr>ld_state := 0\<rparr>
      else if record_type l = 2 then l\<lparr>ld_state := 9\<rparr>
      else l\<lparr>ld_state := 0\<rparr>)"

definition segment_digit :: "u32 \<Rightarrow> loader \<Rightarrow> loader" where
  "segment_digit ra l = l\<lparr>segment := (push_bit 4 (segment l) OR digit ra) AND 0xFFFF,
     ld_state := ld_state l + 1\<rparr>"

definition swap_word :: "u32 \<Rightarrow> u32" where
  "swap_word d = ((drop_bit 24 d OR push_bit 24 d) OR (drop_bit 8 d AND 0x0000FF00))
     OR (push_bit 8 d AND 0x00FF0000)"

definition data_digit :: "u32 \<Rightarrow> loader \<Rightarrow> loader" where
  "data_digit ra l =
     (let d = push_bit 4 (data l) OR digit ra in
      if ld_state l = 21 then
        (let w = swap_word d in
         l\<lparr>data := w, put32 := put32 l @ [(address l, w)], sum := sum l + address l + w,
           address := address l + 4, ld_state := 14\<rparr>)
      else l\<lparr>data := d, ld_state := ld_state l + 1\<rparr>)"

definition record_switch :: "(loader \<Rightarrow> loader) \<Rightarrow> u32 \<Rightarrow> loader \<Rightarrow> loader" where
  "record_switch finish ra l =
     (if ld_state l = 0 then l
      else if ld_state l \<le> 2 then count_digit ra l
      else if ld_state l \<le> 6 then address_digit ra l
      else if ld_state l = 7 then (type_digit ra l)\<lparr>ld_state := ld_state l + 1\<rparr>
      else if ld_state l = 8 then type_done finish (type_digit ra l)
      else if ld_state l \<le> 12 then segment_digit ra l
      else if ld_state l = 13 then l\<lparr>segment := push_bit 4 (segment l), ld_state := 0\<rparr>
      else if ld_state l \<le> 21 then data_digit ra l
      else l)"

section \<open>The two programs\<close>

definition start_line :: "loader \<Rightarrow> loader" where
  "start_line l =
     (let l1 = l\<lparr>ld_state := 1, line_count := line_count l + 1\<rparr> in
      if line_count l1 = 32 then
        (send [46] (l1\<lparr>led_state := \<not> led_state l1, line_count := 0\<rparr>))
           \<lparr>gpio := gpio l1 @ [\<not> led_state l1]\<rparr>
      else l1)"

definition print_sum :: "loader \<Rightarrow> loader" where
  "print_sum l = send ([0xD, 0xA] @ hexstring (sum l)) l"

definition go_banner :: "u32 list" where
  "go_banner = [0x0D, 45, 45, 0x0D, 0x0A, 0x0A]"

definition loader_char :: "u32 \<Rightarrow> loader \<Rightarrow> loader" where
  "loader_char ra l =
     (if ra = 58 then start_line l
      else if ra = 0x0D then l\<lparr>ld_state := 0\<rparr>
      else if ra = 0x0A then l\<lparr>ld_state := 0\<rparr>
      else record_switch print_sum ra l)"

text \<open>The loop of \<open>notmain\<close>: \<open>g\<close> or \<open>G\<close> branches to \<open>0x8000\<close> (the second component is then true).\<close>

primrec loader_run :: "u32 list \<Rightarrow> loader \<Rightarrow> loader \<times> bool" where
  "loader_run [] l = (l, False)"
| "loader_run (ra # ras) l =
     (if ra = 103 \<or> ra = 71 then (send go_banner l, True)
      else loader_run ras (loader_char ra l))"

definition loader_init :: "u32 \<Rightarrow> loader" where
  "loader_init pc = send (hexstring 0x12345678 @ hexstring pc @ [73, 72, 69, 88, 0x0D, 0x0A])
     \<lparr>ld_state = 0, byte_count = 0, address = 0, record_type = 0, segment = 0, data = 0, sum = 0,
      led_state = False, line_count = 0, put32 = [], sent = [], gpio = []\<rparr>"

definition notmain :: "u32 \<Rightarrow> u32 list \<Rightarrow> loader \<times> bool" where
  "notmain pc input = loader_run input (loader_init pc)"

text \<open>The test program has no line counter, prints instead of storing (the list \<open>put32\<close> are the
  lines it prints) and goes on after \<open>g\<close>, which the \<open>switch\<close> then sees as a digit.\<close>

definition ihex_char :: "u32 \<Rightarrow> loader \<Rightarrow> loader" where
  "ihex_char ra l =
     (if ra = 58 then l\<lparr>ld_state := 1\<rparr>
      else if ra = 0x0D then l\<lparr>ld_state := 0\<rparr>
      else if ra = 0x0A then l\<lparr>ld_state := 0\<rparr>
      else record_switch (\<lambda>l. l) ra
        (if ra = 103 \<or> ra = 71 then send go_banner l else l))"

definition ihex_main :: "u32 list \<Rightarrow> loader \<Rightarrow> loader" where
  "ihex_main input l = fold ihex_char input (l\<lparr>ld_state := 0, segment := 0\<rparr>)"

section \<open>Encoding\<close>

text \<open>The format of the records: upper case hexadecimal digits; \<open>nibbles k x\<close> are the last \<open>k\<close>
  digits of \<open>x\<close>, most significant first.\<close>

definition nibbles :: "nat \<Rightarrow> u32 \<Rightarrow> u32 list" where
  "nibbles k x = map (\<lambda>i. hex_char (drop_bit (4 * (k - 1 - i)) x AND 0xF)) [0..<k]"

definition encode_word :: "u32 \<Rightarrow> u32 list" where
  "encode_word w = nibbles 8 (byte_swap w)"

definition encode_record :: "u32 \<Rightarrow> u32 list \<Rightarrow> u32 \<Rightarrow> u32 list" where
  "encode_record addr ws check =
     [58] @ nibbles 2 (of_nat (4 * length ws)) @ nibbles 4 addr @ nibbles 2 0
     @ concat (map encode_word ws) @ nibbles 2 check @ [0x0D, 0x0A]"

lemma f_mask: "(0xF :: u32) = mask 4" "(0xFF :: u32) = mask 8" "(0xFFFF :: u32) = mask 16"
  by (simp_all add: mask_eq_exp_minus_1)

lemma hex_char_cases:
  assumes "x \<le> 15"
  shows "hex_char x \<in> {0x30, 0x31, 0x32, 0x33, 0x34, 0x35, 0x36, 0x37, 0x38, 0x39,
    0x41, 0x42, 0x43, 0x44, 0x45, 0x46}" and "digit (hex_char x) = x"
proof -
  have "unat x \<le> 15" using assms by (simp add: word_le_nat_alt)
  then have "unat x \<in> {0,1,2,3,4,5,6,7,8,9,10,11,12,13,14,15}"
    unfolding insert_iff empty_iff by presburger
  then have "x \<in> {0,1,2,3,4,5,6,7,8,9,10,11,12,13,14,15}"
    by (auto dest!: arg_cong [where f = "of_nat :: nat \<Rightarrow> u32"])
  then show "hex_char x \<in> {0x30, 0x31, 0x32, 0x33, 0x34, 0x35, 0x36, 0x37, 0x38, 0x39,
      0x41, 0x42, 0x43, 0x44, 0x45, 0x46}" "digit (hex_char x) = x"
    by (auto simp: hex_char_def digit_def)
qed

lemma nibble_le: "(x :: u32) AND 0xF \<le> 15"
  by (rule word_and_le1)

lemma digit_nibble [simp]: "digit (hex_char (x AND 0xF)) = x AND 0xF"
  by (rule hex_char_cases(2) [OF nibble_le])

lemma hex_char_plain:
  "hex_char (x AND 0xF) \<noteq> 58" "hex_char (x AND 0xF) \<noteq> 0x0D" "hex_char (x AND 0xF) \<noteq> 0x0A"
  "hex_char (x AND 0xF) \<noteq> 103" "hex_char (x AND 0xF) \<noteq> 71"
  using hex_char_cases(1) [OF nibble_le [of x]] by auto

lemma loader_run_digits:
  assumes "\<forall>c \<in> set cs. \<exists>x. c = hex_char (x AND 0xF)"
  shows "loader_run (cs @ rest) l = loader_run rest (fold (record_switch print_sum) cs l)"
  using assms
proof (induction cs arbitrary: l)
  case Nil
  then show ?case by simp
next
  case (Cons c cs)
  then obtain x where "c = hex_char (x AND 0xF)" by auto
  then have "loader_run ((c # cs) @ rest) l = loader_run (cs @ rest) (record_switch print_sum c l)"
    using hex_char_plain [of x] by (simp add: loader_char_def)
  then show ?case using Cons by simp
qed

lemma nibbles_hex: "\<forall>c \<in> set (nibbles k x). \<exists>y. c = hex_char (y AND 0xF)"
  by (auto simp: nibbles_def)

section \<open>Decoding the fields of a record\<close>

lemma switch_data_digits:
  assumes "ld_state l = 14" and "k \<le> 7"
  shows "fold (record_switch f) (map (\<lambda>i. hex_char (drop_bit (4 * (8 - 1 - i)) x AND 0xF)) [0..<k]) l
    = l\<lparr>data := push_bit (4 * k) (data l) OR drop_bit (32 - 4 * k) x, ld_state := 14 + k\<rparr>"
  using assms(2)
proof (induction k)
  case 0
  have "drop_bit 32 x = 0" by (rule bit_word_eqI) (simp add: bit_simps)
  then show ?case using assms(1) by simp
next
  case (Suc k)
  let ?l = "l\<lparr>data := push_bit (4 * k) (data l) OR drop_bit (32 - 4 * k) x, ld_state := 14 + k\<rparr>"
  have k: "k \<le> 6" using Suc.prems by simp
  have "push_bit 4 (push_bit (4 * k) (data l) OR drop_bit (32 - 4 * k) x)
      OR (drop_bit (4 * (7 - k)) x AND 0xF) = push_bit (4 * Suc k) (data l) OR drop_bit (32 - 4 * Suc k) x"
    (is "?lhs = ?rhs")
  proof (rule bit_word_eqI)
    fix n assume "n < LENGTH(32)"
    then have n: "n < 32" by simp
    show "bit ?lhs n = bit ?rhs n"
    proof (cases "n < 4")
      case True
      then have "4 * (7 - k) + n = 32 - 4 * Suc k + n" using k by simp
      then show ?thesis using True n k by (simp add: f_mask bit_simps add.commute)
    next
      case False
      then have "32 - 4 * k + (n - 4) = 32 - 4 * Suc k + n" using k by simp
      moreover have "n - 4 - 4 * k = n - 4 * Suc k" "4 * k \<le> n - 4 \<longleftrightarrow> 4 * Suc k \<le> n"
        using False by auto
      ultimately show ?thesis using False n k by (auto simp: f_mask bit_simps add.commute)
    qed
  qed
  moreover have "record_switch f (hex_char (drop_bit (4 * (7 - k)) x AND 0xF)) ?l
      = ?l\<lparr>data := push_bit 4 (data ?l) OR (drop_bit (4 * (7 - k)) x AND 0xF), ld_state := 15 + k\<rparr>"
    using k by (simp add: record_switch_def data_digit_def Let_def)
  ultimately show ?case using Suc by simp
qed

lemma swap_word_byte_swap: "swap_word x = byte_swap x"
proof (rule bit_word_eqI)
  fix n assume "n < LENGTH(32)"
  then have n: "n < 32" by simp
  have m: "(0x0000FF00 :: u32) = push_bit 8 (mask 8)" "(0x00FF0000 :: u32) = push_bit 16 (mask 8)"
    by (simp_all add: mask_eq_exp_minus_1 push_bit_eq_mult)
  consider "n < 8" | "8 \<le> n" "n < 16" | "16 \<le> n" "n < 24" | "24 \<le> n" "n < 32"
    using n by fastforce
  then show "bit (swap_word x) n = bit (byte_swap x) n"
    unfolding swap_word_def byte_swap_def Let_def m byte_mask
    by cases (auto simp: bit_simps dest: bit_imp_le_length)
qed

lemma switch_word:
  assumes "ld_state l = 14"
  shows "fold (record_switch f) (encode_word w) l = l\<lparr>data := w, put32 := put32 l @ [(address l, w)],
    sum := sum l + address l + w, address := address l + 4, ld_state := 14\<rparr>"
proof -
  let ?x = "byte_swap w"
  let ?l = "l\<lparr>data := push_bit 28 (data l) OR drop_bit 4 ?x, ld_state := 21\<rparr>"
  have "[0..<8] = [0..<7] @ [7]" by (simp add: upt_rec)
  then have enc: "encode_word w = map (\<lambda>i. hex_char (drop_bit (4 * (8 - 1 - i)) ?x AND 0xF)) [0..<7]
      @ [hex_char (?x AND 0xF)]"
    by (simp add: encode_word_def nibbles_def)
  have "push_bit 4 (push_bit 28 (data l) OR drop_bit 4 ?x) OR (?x AND 0xF) = ?x"
    by (rule bit_word_eqI) (auto simp: f_mask bit_simps)
  then have "record_switch f (hex_char (?x AND 0xF)) ?l = l\<lparr>data := w,
      put32 := put32 l @ [(address l, w)], sum := sum l + address l + w, address := address l + 4,
      ld_state := 14\<rparr>"
    by (simp add: record_switch_def data_digit_def Let_def swap_word_byte_swap byte_swap_involutive)
  then show ?thesis
    using switch_data_digits [OF assms, of 7 f ?x] unfolding enc by simp
qed

text \<open>The stores of a list of words at consecutive addresses.\<close>

fun stores :: "u32 \<Rightarrow> u32 list \<Rightarrow> (u32 \<times> u32) list" where
  "stores a [] = []"
| "stores a (w # ws) = (a, w) # stores (a + 4) ws"

lemma switch_words:
  "ld_state l = 14 \<Longrightarrow>
   \<exists>d s. fold (record_switch f) (concat (map encode_word ws)) l
     = l\<lparr>data := d, sum := s, put32 := put32 l @ stores (address l) ws,
         address := address l + of_nat (4 * length ws), ld_state := 14\<rparr>
   \<and> s = sum l + sum_list (map (\<lambda>(a, w). a + w) (stores (address l) ws))"
proof (induction ws arbitrary: l)
  case Nil
  have "l = l\<lparr>data := data l, sum := sum l, put32 := put32 l @ [], address := address l + 0, ld_state := 14\<rparr>"
    using Nil by simp
  then show ?case by (auto intro!: exI [of _ "data l"])
next
  case (Cons w ws)
  let ?l = "l\<lparr>data := w, put32 := put32 l @ [(address l, w)], sum := sum l + address l + w,
    address := address l + 4, ld_state := 14\<rparr>"
  obtain d s where IH: "fold (record_switch f) (concat (map encode_word ws)) ?l
     = ?l\<lparr>data := d, sum := s, put32 := put32 ?l @ stores (address ?l) ws,
         address := address ?l + of_nat (4 * length ws), ld_state := 14\<rparr>"
    "s = sum ?l + sum_list (map (\<lambda>(a, w). a + w) (stores (address ?l) ws))"
    using Cons.IH [of ?l] by auto
  have "fold (record_switch f) (concat (map encode_word (w # ws))) l
     = fold (record_switch f) (concat (map encode_word ws)) ?l"
    using switch_word [OF Cons.prems, of f w] by simp
  then show ?case using IH by (auto simp: algebra_simps)
qed

lemma switch_address_digits:
  assumes "ld_state l = 3" and "k \<le> 4" and seg: "segment l AND 0xFFFF = 0" and a: "unat a < 2 ^ 16"
  shows "\<exists>A. fold (record_switch f) (map (\<lambda>i. hex_char (drop_bit (4 * (4 - 1 - i)) a AND 0xF)) [0..<k]) l
    = l\<lparr>address := A, ld_state := 3 + k\<rparr>
    \<and> (\<forall>n < 16. bit A n = (if n < 4 * k then bit a (16 - 4 * k + n) else bit (address l) (n - 4 * k)))
    \<and> (0 < k \<longrightarrow> (\<forall>n \<ge> 16. bit A n = bit (segment l) n))"
  using assms(2)
proof (induction k)
  case 0
  have "l\<lparr>address := address l, ld_state := 3\<rparr> = l" using assms(1) by simp
  then show ?case by (intro exI [of _ "address l"]) simp
next
  case (Suc k)
  obtain A where A: "fold (record_switch f) (map (\<lambda>i. hex_char (drop_bit (4 * (4 - 1 - i)) a AND 0xF)) [0..<k]) l
      = l\<lparr>address := A, ld_state := 3 + k\<rparr>"
    "\<forall>n < 16. bit A n = (if n < 4 * k then bit a (16 - 4 * k + n) else bit (address l) (n - 4 * k))"
    using Suc by auto
  have k: "k \<le> 3" using Suc.prems by simp
  have sb: "\<not> bit (segment l) n" if "n < 16" for n
  proof -
    have "\<not> bit (segment l AND mask 16) n" using seg by (simp add: f_mask)
    then show ?thesis using that by (simp add: bit_simps)
  qed
  let ?d = "drop_bit (4 * (3 - k)) a AND 0xF"
  let ?B = "((push_bit 4 A OR ?d) AND 0xFFFF) OR segment l"
  have step: "record_switch f (hex_char ?d) (l\<lparr>address := A, ld_state := 3 + k\<rparr>)
      = l\<lparr>address := ?B, ld_state := 3 + Suc k\<rparr>"
    using k by (simp add: record_switch_def address_digit_def)
  have low: "bit ?B n = (if n < 4 * Suc k then bit a (16 - 4 * Suc k + n)
      else bit (address l) (n - 4 * Suc k))" if n: "n < 16" for n
  proof (cases "n < 4")
    case True
    then have "4 * (3 - k) + n = 16 - 4 * Suc k + n" using k by simp
    then show ?thesis using True n sb [OF n] by (simp add: f_mask bit_simps add.commute)
  next
    case False
    have "bit ?B n = bit A (n - 4)" using False n sb [OF n] by (auto simp: f_mask bit_simps)
    also have "\<dots> = (if n - 4 < 4 * k then bit a (16 - 4 * k + (n - 4)) else bit (address l) (n - 4 - 4 * k))"
      using A(2) n by simp
    moreover have "16 - 4 * k + (n - 4) = 16 - 4 * Suc k + n" "n - 4 - 4 * k = n - 4 * Suc k"
      "n - 4 < 4 * k \<longleftrightarrow> n < 4 * Suc k"
      using False k by auto
    ultimately show ?thesis by simp
  qed
  have high: "bit ?B n = bit (segment l) n" if "16 \<le> n" for n
    using that by (auto simp: f_mask bit_simps)
  have "fold (record_switch f) (map (\<lambda>i. hex_char (drop_bit (4 * (4 - 1 - i)) a AND 0xF)) [0..<Suc k]) l
      = l\<lparr>address := ?B, ld_state := 3 + Suc k\<rparr>"
    using A(1) step by simp
  then show ?case using low high by blast
qed

lemma switch_address:
  assumes "ld_state l = 3" and seg: "segment l AND 0xFFFF = 0" and a: "unat a < 2 ^ 16"
  shows "fold (record_switch f) (nibbles 4 a) l = l\<lparr>address := a OR segment l, ld_state := 7\<rparr>"
proof -
  obtain A where A: "fold (record_switch f) (nibbles 4 a) l = l\<lparr>address := A, ld_state := 7\<rparr>"
    "\<forall>n < 16. bit A n = bit a n" "\<forall>n \<ge> 16. bit A n = bit (segment l) n"
    using switch_address_digits [OF assms(1) order_refl seg a, of f] by (auto simp: nibbles_def)
  have sb: "\<not> bit (segment l) n" if "n < 16" for n
  proof -
    have "\<not> bit (segment l AND mask 16) n" using seg by (simp add: f_mask)
    then show ?thesis using that by (simp add: bit_simps)
  qed
  have ab: "\<not> bit a n" if "16 \<le> n" for n
  proof -
    have "take_bit 16 a = a"
      using a by (intro unat_inj32) (simp add: take_bit_eq_mod unat_mod)
    then have "bit a n = bit (take_bit 16 a) n" by simp
    then show ?thesis using that by (simp add: bit_simps)
  qed
  have "A = a OR segment l"
  proof (rule bit_word_eqI)
    fix n
    show "bit A n = bit (a OR segment l) n"
      using A(2,3) sb ab by (cases "n < 16") (auto simp: bit_simps)
  qed
  with A(1) show ?thesis by simp
qed

lemma switch_count:
  assumes "ld_state l = 1"
  shows "fold (record_switch f) (nibbles 2 x) l = l\<lparr>byte_count := x AND 0xFF, ld_state := 3\<rparr>"
proof -
  have "[0..<2] = [0, 1 :: nat]" by (simp add: upt_rec)
  then have n: "nibbles 2 x = [hex_char (drop_bit 4 x AND 0xF), hex_char (x AND 0xF)]"
    by (simp add: nibbles_def)
  have "(push_bit 4 ((push_bit 4 (byte_count l) OR (drop_bit 4 x AND 0xF)) AND 0xFF) OR (x AND 0xF)) AND 0xFF
      = x AND 0xFF"
    by (rule bit_word_eqI) (auto simp: f_mask bit_simps)
  then show ?thesis using assms
    by (simp add: n record_switch_def count_digit_def del: push_bit_and)
qed

lemma switch_type_data:
  assumes "ld_state l = 7"
  shows "fold (record_switch f) (nibbles 2 0) l = l\<lparr>record_type := 0, ld_state := 14\<rparr>"
proof -
  have "[0..<2] = [0, 1 :: nat]" by (simp add: upt_rec)
  then have n: "nibbles 2 0 = [hex_char (0 AND 0xF), hex_char (0 AND 0xF)]"
    by (simp add: nibbles_def)
  have d: "digit (hex_char 0) = 0" using digit_nibble [of 0] by simp
  have "(push_bit 4 (push_bit 4 (record_type l) AND 0xFF) AND 0xFF) = 0"
    by (rule bit_word_eqI) (auto simp: f_mask bit_simps)
  then show ?thesis using assms d
    by (simp add: n record_switch_def type_digit_def type_done_def)
qed

lemma switch_checksum:
  assumes "ld_state l = 14"
  shows "\<exists>d. fold (record_switch f) (nibbles 2 x) l = l\<lparr>data := d, ld_state := 16\<rparr>"
proof -
  have "[0..<2] = [0, 1 :: nat]" by (simp add: upt_rec)
  then have n: "nibbles 2 x = [hex_char (drop_bit 4 x AND 0xF), hex_char (x AND 0xF)]"
    by (simp add: nibbles_def)
  show ?thesis using assms
    by (auto simp: n record_switch_def data_digit_def Let_def)
qed

text \<open>What a loader has done, apart from its counters and the UART.\<close>

lemma start_line_frame:
  "ld_state (start_line l) = 1 \<and> segment (start_line l) = segment l \<and> put32 (start_line l) = put32 l
   \<and> sum (start_line l) = sum l"
  by (simp add: start_line_def send_def Let_def)

lemma loader_run_words:
  assumes seg: "segment l AND 0xFFFF = 0" and a: "unat a < 2 ^ 16"
  shows "\<exists>l'. loader_run ([58] @ nibbles 2 count @ nibbles 4 a @ nibbles 2 0
        @ concat (map encode_word ws) @ rest) l = loader_run rest l'
    \<and> ld_state l' = 14 \<and> segment l' = segment l
    \<and> put32 l' = put32 l @ stores (a OR segment l) ws
    \<and> sum l' = sum l + sum_list (map (\<lambda>(a, w). a + w) (stores (a OR segment l) ws))"
proof -
  let ?sw = "record_switch print_sum"
  let ?digits = "nibbles 2 count @ nibbles 4 a @ nibbles 2 0 @ concat (map encode_word ws)"
  let ?l1 = "start_line l"
  let ?l2 = "?l1\<lparr>byte_count := count AND 0xFF, ld_state := 3\<rparr>"
  let ?l3 = "?l2\<lparr>address := a OR segment l, ld_state := 7\<rparr>"
  let ?l4 = "?l3\<lparr>record_type := 0, ld_state := 14\<rparr>"
  have f2: "fold ?sw (nibbles 2 count) ?l1 = ?l2"
    using start_line_frame [of l] by (intro switch_count) simp
  have "segment ?l2 AND 0xFFFF = 0" using seg start_line_frame [of l] by simp
  from switch_address [of ?l2, OF _ this a, of print_sum]
  have f3: "fold ?sw (nibbles 4 a) ?l2 = ?l3" using start_line_frame [of l] by simp
  have f4: "fold ?sw (nibbles 2 0) ?l3 = ?l4" by (subst switch_type_data) simp_all
  obtain d s where f5: "fold ?sw (concat (map encode_word ws)) ?l4
     = ?l4\<lparr>data := d, sum := s, put32 := put32 ?l4 @ stores (address ?l4) ws,
         address := address ?l4 + of_nat (4 * length ws), ld_state := 14\<rparr>" (is "_ = ?l5")
     "s = sum ?l4 + sum_list (map (\<lambda>(a, w). a + w) (stores (address ?l4) ws))"
    using switch_words [of ?l4 print_sum ws] by auto
  have all: "fold ?sw ?digits ?l1 = ?l5"
    by (simp only: fold_append comp_apply f2 f3 f4 f5(1))
  have hex: "\<forall>c \<in> set ?digits. \<exists>x. c = hex_char (x AND 0xF)"
    unfolding encode_word_def using nibbles_hex by auto
  have "loader_run ([58] @ nibbles 2 count @ nibbles 4 a @ nibbles 2 0
        @ concat (map encode_word ws) @ rest) l = loader_run (?digits @ rest) ?l1"
    by (simp add: loader_char_def)
  also have "\<dots> = loader_run rest ?l5" unfolding loader_run_digits [OF hex] all ..
  finally show ?thesis using start_line_frame [of l] f5(2) by (intro exI [of _ ?l5]) simp
qed

lemma loader_run_record:
  assumes "segment l AND 0xFFFF = 0" and "unat a < 2 ^ 16"
  shows "\<exists>l'. loader_run (encode_record a ws check @ rest) l = loader_run rest l'
    \<and> ld_state l' = 0 \<and> segment l' = segment l
    \<and> put32 l' = put32 l @ stores (a OR segment l) ws
    \<and> sum l' = sum l + sum_list (map (\<lambda>(a, w). a + w) (stores (a OR segment l) ws))"
proof -
  let ?tail = "nibbles 2 check @ [0x0D, 0x0A] @ rest"
  obtain l1 where l1: "loader_run ([58] @ nibbles 2 (of_nat (4 * length ws)) @ nibbles 4 a @ nibbles 2 0
        @ concat (map encode_word ws) @ ?tail) l = loader_run ?tail l1"
    "ld_state l1 = 14" "segment l1 = segment l" "put32 l1 = put32 l @ stores (a OR segment l) ws"
    "sum l1 = sum l + sum_list (map (\<lambda>(a, w). a + w) (stores (a OR segment l) ws))"
    using loader_run_words [OF assms, of "of_nat (4 * length ws)" ws ?tail] by blast
  obtain d where d: "fold (record_switch print_sum) (nibbles 2 check) l1 = l1\<lparr>data := d, ld_state := 16\<rparr>"
    using switch_checksum [OF l1(2)] by blast
  have "loader_run ?tail l1 = loader_run ([0x0D, 0x0A] @ rest) (l1\<lparr>data := d, ld_state := 16\<rparr>)"
    by (subst loader_run_digits [OF nibbles_hex]) (simp only: d)
  also have "\<dots> = loader_run rest (l1\<lparr>data := d, ld_state := 0\<rparr>)"
    by (simp add: loader_char_def)
  finally show ?thesis using l1
    by (intro exI [of _ "l1\<lparr>data := d, ld_state := 0\<rparr>"]) (simp add: encode_record_def)
qed

section \<open>Properties\<close>

text \<open>C29: The boot loader decodes what the tools encode. Started at a 64 KiB segment, it turns a
  data record with a 16-bit address and any number of words into exactly the stores of these words
  at consecutive addresses in the segment, adds them to the checksum and is ready for the next
  line. The characters after the record are processed from that state.\<close>

theorem loader_decodes_record:
  assumes "segment l AND 0xFFFF = 0" and "unat a < 2 ^ 16"
  shows "\<exists>l'. loader_run (encode_record a ws check @ rest) l = loader_run rest l'
    \<and> ld_state l' = 0 \<and> segment l' = segment l
    \<and> put32 l' = put32 l @ stores (a OR segment l) ws
    \<and> sum l' = sum l + sum_list (map (\<lambda>(a, w). a + w) (stores (a OR segment l) ws))"
  using assms by (rule loader_run_record)

theorem loader_decodes_record_witness:
  "\<exists>l'. notmain 0 (encode_record 0x8000 [0xE3A00001, 0xE12FFF1E] 0x55) = (l', False)
    \<and> put32 l' = [(0x8000, 0xE3A00001), (0x8004, 0xE12FFF1E)]"
proof -
  have "segment (loader_init 0) AND 0xFFFF = 0" "unat (0x8000 :: u32) < 2 ^ 16"
    by (simp_all add: loader_init_def send_def)
  from loader_decodes_record [OF this, of "[0xE3A00001, 0xE12FFF1E]" "0x55" "[]"]
  show ?thesis by (auto simp: notmain_def loader_init_def send_def)
qed

text \<open>The end of a line, even in the middle of a record, brings the loader back to the state in
  which it waits for the next record, and such a line break stores nothing.\<close>

theorem loader_resynchronises:
  "ld_state (loader_char 0x0D l) = 0 \<and> ld_state (loader_char 0x0A l) = 0
   \<and> put32 (loader_char 0x0D l) = put32 l \<and> put32 (loader_char 0x0A l) = put32 l
   \<and> ld_state (loader_char 58 l) = 1 \<and> put32 (loader_char 58 l) = put32 l"
  using start_line_frame [of l] by (simp add: loader_char_def)

text \<open>The loader does not look at the byte count: a record that announces three bytes, which
  are followed by the checksum byte, is stored as one word of these four bytes.\<close>

theorem loader_stores_checksum_byte:
  assumes "segment l AND 0xFFFF = 0" and "unat a < 2 ^ 16"
  shows "\<exists>l'. loader_run ([58] @ nibbles 2 3 @ nibbles 4 a @ nibbles 2 0 @ encode_word w) l = (l', False)
    \<and> put32 l' = put32 l @ [(a OR segment l, w)]"
  using loader_run_words [OF assms, of 3 "[w]" "[]"] by auto

theorem loader_stores_checksum_byte_witness:
  "\<exists>l'. loader_run ([58] @ nibbles 2 3 @ nibbles 4 0x100 @ nibbles 2 0 @ encode_word 0x99030201) (loader_init 0)
     = (l', False) \<and> put32 l' = [(0x100, 0x99030201)]"
  using loader_stores_checksum_byte [of "loader_init 0" "0x100" "0x99030201"]
  by (simp add: loader_init_def send_def)

end
