(* ===== verification/File_Write.thy ===== *)
theory File_Write
  imports Libfs
begin

text \<open>
  What \<open>fs_fwrite\<close> (\<open>rboot/libfs.c\<close>) does to the content of a file. \<open>block_rw\<close> is the contract of a
  file system whose callback numbers the blocks of a file and whose device stores them; over it a
  write of \<open>n\<close> bytes at the position replaces exactly these bytes, keeps the rest of the blocks at both
  ends, and advances the position and, past the end, the length.
\<close>

section \<open>Changing one block of a concatenation\<close>

lemma concat_blocks_split:
  assumes "i < nb"
  shows "concat (map f [0..<nb]) = concat (map f [0..<i]) @ f i @ concat (map f [Suc i..<nb])"
proof -
  have "[0..<nb] = [0..<i] @ i # [Suc i..<nb]"
    using upt_add_eq_append [of 0 i "nb - i"] assms by (simp add: upt_conv_Cons)
  then show ?thesis by simp
qed

lemma concat_update_block:
  assumes "i < nb" and "\<And>j. j < nb \<Longrightarrow> length (f j) = m" and "so + length ys \<le> m"
    and "\<And>j. j < nb \<Longrightarrow> g j = (if j = i then splice (f i) so ys else f j)"
  shows "concat (map g [0..<nb]) = splice (concat (map f [0..<nb])) (i * m + so) ys"
proof -
  let ?A = "concat (map f [0..<i])" and ?B = "concat (map f [Suc i..<nb])"
  have lA: "length ?A = i * m"
    using assms(1,2) length_concat_blocks [of "[0..<i]" f m] by simp
  have li: "length (f i) = m" using assms(1,2) by simp
  have m: "map g [0..<i] = map f [0..<i]" "map g [Suc i..<nb] = map f [Suc i..<nb]"
    using assms(1,4) by auto
  have "concat (map g [0..<nb]) = ?A @ splice (f i) so ys @ ?B"
    unfolding concat_blocks_split [OF assms(1), of g] m using assms(1,4) by simp
  also have "\<dots> = splice (?A @ f i @ ?B) (i * m + so) ys"
    using lA li assms(3) by (simp add: splice_def)
  finally show ?thesis using concat_blocks_split [OF assms(1), of f] by simp
qed

section \<open>The contract\<close>

locale block_rw =
  fixes gn :: "('o, 'p, 's) get_next" and dev :: "'s block_device" and fbs nb :: nat
    and ok :: "'s \<Rightarrow> bool" and fdata :: "'s \<Rightarrow> nat \<Rightarrow> bytes" and blk :: "nat \<Rightarrow> u32"
    and applies :: "'o mb_file \<Rightarrow> bool"
  assumes fbs_pos: "ok s \<Longrightarrow> 0 < fbs"
    and size_bound: "ok s \<Longrightarrow> Suc nb * fbs < 2 ^ 31"
    and length_fdata: "ok s \<Longrightarrow> i < nb \<Longrightarrow> length (fdata s i) = fbs"
    and applies_moved: "applies f \<Longrightarrow> applies (f\<lparr>pos := q, len := l\<rparr>)"
    and next_block: "ok s \<Longrightarrow> i < nb \<Longrightarrow> applies f \<Longrightarrow>
      \<exists>p' s'. gn (of_nat i) f p True s = Some (blk i, f, p', s') \<and> ok s' \<and> fdata s' = fdata s"
    and block_number: "ok s \<Longrightarrow> i < nb \<Longrightarrow> blk i \<noteq> 0xffffffff"
    and read_blk: "ok s \<Longrightarrow> i < nb \<Longrightarrow> length buf = fbs \<Longrightarrow>
      \<exists>s'. block_read dev buf (blk i) s = Some (of_nat fbs, fdata s i, s') \<and> ok s' \<and> fdata s' = fdata s"
    and write_blk: "ok s \<Longrightarrow> i < nb \<Longrightarrow> length buf = fbs \<Longrightarrow>
      \<exists>s'. block_write dev buf (blk i) s = Some (of_nat fbs, s') \<and> ok s'
        \<and> (\<forall>j < nb. fdata s' j = (if j = i then buf else fdata s j))"
begin

definition file_of :: "'s \<Rightarrow> bytes" where
  "file_of s = concat (map (fdata s) [0..<nb])"

lemma length_file_of: "ok s \<Longrightarrow> length (file_of s) = nb * fbs"
  using length_concat_blocks [of "[0..<nb]" "fdata s" fbs] by (auto simp: file_of_def length_fdata)

lemma file_of_cong: "fdata s' = fdata s \<Longrightarrow> file_of s' = file_of s"
  by (simp add: file_of_def)

text \<open>Replacing a part of a block, with or without reading it first.\<close>

lemma write_part:
  assumes "ok s" and "i < nb" and "so + length ys \<le> fbs"
  shows "\<exists>s'. block_write dev (splice (fdata s i) so ys) (blk i) s = Some (of_nat fbs, s') \<and> ok s'
    \<and> file_of s' = splice (file_of s) (i * fbs + so) ys"
proof -
  have "length (splice (fdata s i) so ys) = fbs"
    using assms length_fdata [OF assms(1,2)] by (simp add: buf_simps)
  from write_blk [OF assms(1,2) this] obtain s' where s': "block_write dev (splice (fdata s i) so ys) (blk i) s
      = Some (of_nat fbs, s')" "ok s'" "\<forall>j < nb. fdata s' j = (if j = i then splice (fdata s i) so ys else fdata s j)"
    by blast
  have "file_of s' = splice (file_of s) (i * fbs + so) ys"
    unfolding file_of_def
    by (rule concat_update_block [OF assms(2) length_fdata [OF assms(1)] assms(3)]) (use s'(3) in auto)
  then show ?thesis using s' by blast
qed

text \<open>All bytes from \<open>P\<close> up to \<open>q\<close> have been written; \<open>F\<close> is the file before.\<close>

definition moved :: "'o mb_file \<Rightarrow> nat \<Rightarrow> 'o mb_file" where
  "moved f q = f\<lparr>pos := int q, len := max (len f) (int q)\<rparr>"

definition written :: "bytes \<Rightarrow> nat \<Rightarrow> bytes \<Rightarrow> 'o mb_file \<Rightarrow> nat \<Rightarrow> ('o, 'p, 's) xfer \<Rightarrow> bool" where
  "written F P buf f q x \<longleftrightarrow> xtotal x = int (q - P) \<and> xbuf x = buf \<and> xfile x = moved f q
     \<and> ok (xdev x) \<and> file_of (xdev x) = splice F P (take (q - P) buf)"

lemma advance_moved:
  assumes "q + n < 2 ^ 31"
  shows "advance (moved f q) (int n) = moved f (q + n)"
proof -
  have "int q + int n < 2 ^ 31" using assms by simp
  then have "long_add (int q) (int n) = int (q + n)" by (simp add: long_add_small)
  then show ?thesis by (simp add: advance_def moved_def Let_def max_def)
qed

lemma take_slice: "take m xs @ slice xs m n = take (m + n) xs"
  by (simp add: slice_def take_add)

text \<open>The bytes of one iteration extend the ones already written.\<close>

lemma splice_more:
  assumes "P \<le> q" and "q + n - P \<le> length buf" and "q + n \<le> length F"
  shows "splice (splice F P (take (q - P) buf)) q (slice buf (q - P) n) = splice F P (take (q + n - P) buf)"
proof -
  have "length (take (q - P) buf) = q - P" "length (slice buf (q - P) n) = n"
    using assms(1,2) by (simp_all add: length_slice)
  then have "splice (splice F P (take (q - P) buf)) q (slice buf (q - P) n)
      = splice F P (take (q - P) buf @ slice buf (q - P) n)"
    using assms by (simp add: splice_def min_def add.commute)
  then show ?thesis using take_slice [of "q - P" buf n] assms(1) by simp
qed

lemma fwrite_step:
  assumes w: "written F P buf f q x" and q: "q = P \<or> P < q \<and> q mod fbs = 0" and PE: "P \<le> q" "q \<le> E"
    and cur: "i = q div fbs" "i < nb" "i \<le> E div fbs"
    and E: "E \<le> nb * fbs" "E - P \<le> length buf" and ap: "applies f" and F: "length F = nb * fbs"
  shows "\<exists>x'. fwrite_block gn dev (of_nat fbs) junk (span_nat fbs P E) (of_nat i) x = Some (True, x')
    \<and> written F P buf f (i * fbs + seg_end fbs E i) x'"
proof -
  have ok: "ok (xdev x)" and tot: "xtotal x = int (q - P)" and xb: "xbuf x = buf"
    and xf: "xfile x = moved f q" and fo: "file_of (xdev x) = splice F P (take (q - P) buf)"
    using w by (auto simp: written_def)
  have pos: "0 < fbs" by (rule fbs_pos [OF ok])
  have sb: "nb * fbs + fbs < 2 ^ 31" using size_bound [OF ok] by simp
  obtain so eo sg where eo_def: "eo = seg_end fbs E i"
    and off: "start_block_offset (span_nat fbs P E) (of_nat i) = of_nat so"
      "last_block_offset (span_nat fbs P E) (of_nat fbs) (of_nat i) = of_nat eo" "so \<le> eo" "eo \<le> fbs"
    and eo: "eo = so + sg" and qi: "q = i * fbs + so" and ib: "i * fbs + fbs \<le> nb * fbs"
    and eE: "i * fbs + eo \<le> E"
    and ubs: "unat (of_nat fbs :: u32) = fbs" and uso: "unat (of_nat so :: u32) = so"
    and ueo: "unat (of_nat eo :: u32) = eo" and useg': "unat (of_nat sg :: u32) = sg"
    and useg: "of_nat eo - of_nat so = (of_nat sg :: u32)"
    by (rule iteration_offsets [OF q PE cur E(1) sb pos])
  have inbuf: "q - P + sg \<le> length buf" using eo qi PE(1) eE E(2) by linarith
  have small: "q + sg < 2 ^ 31" using qi eo off(4) ib sb by linarith
  then have "q - P + sg < 2 ^ 31" by simp
  then have smallt: "int (q - P) + int sg < 2 ^ 31" by (simp flip: of_nat_add)
  have ap': "applies (xfile x)" using applies_moved [OF ap] by (simp add: xf moved_def)
  obtain p' s' where gn: "gn (of_nat i) (xfile x) (xopaque x) True (xdev x) = Some (blk i, xfile x, p', s')"
    "ok s'" "fdata s' = fdata (xdev x)"
    using next_block [OF ok cur(2) ap'] by blast
  have bn: "blk i \<noteq> 0xffffffff" by (rule block_number [OF ok cur(2)])
  have fo': "file_of s' = splice F P (take (q - P) buf)" using file_of_cong [OF gn(3)] fo by simp
  let ?ys = "slice buf (q - P) sg"
  have lys: "length ?ys = sg" using inbuf by (rule length_slice)
  have more: "splice (splice F P (take (q - P) buf)) (i * fbs + so) ?ys = splice F P (take (i * fbs + eo - P) buf)"
    using splice_more [OF PE(1), of sg buf F] inbuf ib off(4) eo qi F PE(1) by (simp add: add.assoc)
  have adv: "advance (xfile x) (int sg) = moved f (i * fbs + eo)"
    unfolding xf advance_moved [OF small] by (simp add: qi eo add.assoc)
  have tot': "long_add (xtotal x) (int sg) = int (i * fbs + eo - P)"
  proof -
    have "long_add (int (q - P)) (int sg) = int (q - P) + int sg" using smallt by (intro long_add_small) auto
    then show ?thesis using tot qi eo PE(1) by simp
  qed
  have ints: "uint (of_nat fbs :: u32) = int fbs" "uint (of_nat sg :: u32) = int sg"
    using arg_cong [OF ubs, of int] arg_cong [OF useg', of int] by simp_all
  let ?x1 = "x\<lparr>xfile := moved f (i * fbs + eo), xopaque := p', xtotal := int (i * fbs + eo - P)\<rparr>"
  show ?thesis
  proof (cases "so = 0 \<and> eo = fbs")
    case True
    then have T: "so = 0" "eo = fbs" "sg = fbs" using eo by simp_all
    have whole: "splice (fdata s' i) 0 ?ys = ?ys"
      using lys T length_fdata [OF gn(2) cur(2)] by (simp add: splice_def)
    obtain s'' where s'': "block_write dev ?ys (blk i) s' = Some (of_nat fbs, s'')" "ok s''"
      "file_of s'' = splice (file_of s') (i * fbs + so) ?ys"
      using write_part [OF gn(2) cur(2), of 0 ?ys] whole lys T by auto
    have "fwrite_block gn dev (of_nat fbs) junk (span_nat fbs P E) (of_nat i) x
        = Some (True, ?x1\<lparr>xdev := s''\<rparr>)"
      unfolding fwrite_block_def Let_def off(1,2)
      using gn(1) bn s''(1) inbuf xb tot tot' adv by (simp add: T ubs ints)
    moreover have "written F P buf f (i * fbs + eo) (?x1\<lparr>xdev := s''\<rparr>)"
      using s'' fo' more xb by (simp add: written_def)
    ultimately show ?thesis by (auto simp: eo_def)
  next
    case False
    obtain s1 where s1: "block_read dev (malloc_bytes junk fbs) (blk i) s' = Some (of_nat fbs, fdata s' i, s1)"
      "ok s1" "fdata s1 = fdata s'"
      using read_blk [OF gn(2) cur(2), of "malloc_bytes junk fbs"] by auto
    have "so + length ?ys \<le> fbs" using lys eo off(4) by simp
    from write_part [OF s1(2) cur(2) this] obtain s'' where
      s'': "block_write dev (splice (fdata s' i) so ?ys) (blk i) s1 = Some (of_nat fbs, s'')" "ok s''"
      "file_of s'' = splice (file_of s') (i * fbs + so) ?ys"
      unfolding s1(3) file_of_cong [OF s1(3)] by blast
    have no: "(of_nat so = (0 :: u32) \<and> of_nat sg = (of_nat fbs :: u32)) = False"
    proof -
      have "\<not> (so = 0 \<and> sg = fbs)" using False eo by auto
      then show ?thesis using uso useg' ubs by (metis unat_0)
    qed
    have ge: "\<not> (of_nat eo :: u32) > of_nat fbs" "\<not> (of_nat eo :: u32) < of_nat so"
      using off by (simp_all add: word_less_nat_alt ubs ueo uso)
    have "fwrite_block gn dev (of_nat fbs) junk (span_nat fbs P E) (of_nat i) x
        = Some (True, ?x1\<lparr>xdev := s''\<rparr>)"
      unfolding fwrite_block_def Let_def off(1,2) useg no
      using gn(1) bn s1(1) s''(1) inbuf xb tot tot' adv ge off(3,4) eo
      by (simp add: ubs uso ueo useg useg' ints)
    moreover have "written F P buf f (i * fbs + eo) (?x1\<lparr>xdev := s''\<rparr>)"
      using s'' fo' more xb by (simp add: written_def)
    ultimately show ?thesis by (auto simp: eo_def)
  qed
qed

lemma fwrite_loop:
  assumes "written F P buf f q x" and "q = P \<or> P < q \<and> q mod fbs = 0" and "P \<le> q" and "q \<le> E"
    and "E < nb * fbs" and "E - P \<le> length buf" and "applies f" and "length F = nb * fbs"
  shows "\<exists>x'. block_loop (fwrite_block gn dev (of_nat fbs) junk (span_nat fbs P E)) (of_nat (E div fbs))
      (of_nat (q div fbs)) x = Some x' \<and> written F P buf f E x'"
  using assms
proof (induction "E div fbs - q div fbs" arbitrary: q x rule: less_induct)
  case less
  note prems = less.prems
  define i where "i = q div fbs"
  have ok: "ok (xdev x)" using prems(1) by (simp add: written_def)
  have pos: "0 < fbs" by (rule fbs_pos [OF ok])
  have sb: "nb * fbs + fbs < 2 ^ 31" using size_bound [OF ok] by simp
  have iE: "i \<le> E div fbs" unfolding i_def by (rule div_le_mono [OF prems(4)])
  have "E div fbs < nb" using prems(5) by (simp add: less_mult_imp_div_less)
  then have inb: "i < nb" using iE by simp
  note Ele = less_imp_le [OF prems(5)]
  note ule = index_le [OF Ele sb]
  let ?body = "fwrite_block gn dev (of_nat fbs) junk (span_nat fbs P E)"
  have unf: "block_loop ?body (of_nat (E div fbs)) (of_nat i) x = do {
      (go, x') \<leftarrow> ?body (of_nat i) x;
      if go then block_loop ?body (of_nat (E div fbs)) (of_nat i + 1) x' else Some x' }"
    using iE ule [of i] by (subst block_loop.simps) simp
  obtain x1 where x1: "?body (of_nat i) x = Some (True, x1)"
    "written F P buf f (i * fbs + seg_end fbs E i) x1"
    using fwrite_step [OF prems(1-4) i_def inb iE Ele prems(6-8)] by blast
  show ?case
  proof (cases "i = E div fbs")
    case last: True
    have "i * fbs + seg_end fbs E i = E" using last by (simp add: seg_end_def)
    moreover have "block_loop ?body (of_nat (E div fbs)) (of_nat i + 1) x1 = Some x1"
      using ule [of "i + 1"] last by (subst block_loop.simps) (simp add: add.commute)
    ultimately show ?thesis using x1 unf by (auto simp: i_def)
  next
    case False
    let ?q = "Suc i * fbs"
    have q': "i * fbs + seg_end fbs E i = ?q" using False by (simp add: seg_end_def)
    have qd: "?q div fbs = Suc i" using pos by simp
    have "Suc i \<le> E div fbs" using False iE by simp
    then have "?q \<le> E div fbs * fbs" by (rule mult_right_mono) simp
    then have qE: "?q \<le> E" using div_times_less_eq_dividend le_trans by blast
    have "q = i * fbs + q mod fbs" by (simp add: i_def)
    moreover have "q mod fbs < fbs" using pos by simp
    ultimately have Pq: "P < ?q" using prems(3) by (simp only: mult_Suc)
    have "\<exists>x'. block_loop ?body (of_nat (E div fbs)) (of_nat (?q div fbs)) x1 = Some x'
        \<and> written F P buf f E x'"
    proof (rule less.hyps)
      show "E div fbs - ?q div fbs < E div fbs - q div fbs"
        using qd False iE by (simp add: i_def)
      show "written F P buf f ?q x1" using x1(2) q' by simp
      show "?q = P \<or> P < ?q \<and> ?q mod fbs = 0" using Pq by simp
      show "P \<le> ?q" using Pq by simp
    qed (use qE prems(5-8) in auto)
    then show ?thesis using unf x1(1) unfolding qd by (simp add: i_def add.commute)
  qed
qed

text \<open>Where a write starts: at the end in append mode, else at the position.\<close>

definition write_start :: "'o mb_file \<Rightarrow> int" where
  "write_start f = (if mode f AND VFS_MODE_APPEND \<noteq> 0 \<and> mode f AND VFS_MODE_R \<noteq> 0 then len f else pos f)"

lemma fwrite_ok:
  assumes ok: "ok s" and f: "applies f" "0 \<le> pos f" "pos f \<le> len f" and P: "P = nat (write_start f)"
    and n: "P + n < nb * fbs" "n \<le> length buf"
  shows "\<exists>p' s'. fs_fwrite gn dev (of_nat fbs) junk buf (of_nat n) f p s = Some (of_nat n, moved f (P + n), p', s')
    \<and> ok s' \<and> file_of s' = splice (file_of s) P (take n buf)"
proof -
  have pos: "0 < fbs" by (rule fbs_pos [OF ok])
  have sb: "nb * fbs + fbs < 2 ^ 31" using size_bound [OF ok] by simp
  let ?E = "P + n"
  let ?f = "if mode f AND VFS_MODE_APPEND \<noteq> 0 \<and> mode f AND VFS_MODE_R \<noteq> 0 then f\<lparr>pos := len f\<rparr> else f"
  have st: "pos ?f = int P" "?f = moved f P" "P \<le> nat (len f)"
    using f by (auto simp: P write_start_def moved_def)
  have span: "span_of (of_nat fbs) (pos ?f) (of_nat n) = span_nat fbs P ?E"
    using span_of_nat [of "pos ?f" n fbs] st(1) n(1) sb by simp
  let ?x = "\<lparr>xbuf = buf, xtotal = 0, xfile = ?f, xopaque = p, xdev = s\<rparr>"
  have "written (file_of s) P buf f P ?x" using ok st(2) by (simp add: written_def splice_def)
  from fwrite_loop [OF this, of ?E] obtain x' where
    x': "block_loop (fwrite_block gn dev (of_nat fbs) junk (span_nat fbs P ?E)) (of_nat (?E div fbs))
      (of_nat (P div fbs)) ?x = Some x'" "written (file_of s) P buf f ?E x'"
    using n f(1) length_file_of [OF ok] by auto
  have "(of_nat fbs :: u32) \<noteq> 0"
  proof -
    have "unat (of_nat fbs :: u32) = fbs" using sb by (simp add: word_nat_simps)
    then show ?thesis using pos by auto
  qed
  then show ?thesis
    using x' unfolding fs_fwrite_def Let_def span
    by (auto simp: span_nat_def written_def)
qed

end

end
