(* ===== verification/Nofs.thy ===== *)
theory Nofs
  imports Vfs File_Write
begin

text \<open>
  The partition that is one file (\<open>rboot/nofs.c\<close>): a byte order mark, the content, and a mark at its end.
  It is the only file system of the tree that writes.

  The driver can set \<open>errno\<close> as well as the file system (which tests it for 0, here \<^term>\<open>None\<close>), so the
  functions work on the \<open>world\<close> and the parent device is lifted to it. \<open>nofs_fopen\<close> ignores its path.
\<close>

section \<open>Devices over the world\<close>

definition lift_read :: "'s dev_read \<Rightarrow> 's world dev_read" where
  "lift_read rd buf b w =
     map_option (\<lambda>(r, buf', s). (r, buf', w\<lparr>dev_state := s\<rparr>)) (rd buf b (dev_state w))"

definition lift_write :: "'s dev_write \<Rightarrow> 's world dev_write" where
  "lift_write wr buf b w = map_option (\<lambda>(r, s). (r, w\<lparr>dev_state := s\<rparr>)) (wr buf b (dev_state w))"

definition lift_dev :: "'s block_device \<Rightarrow> 's world block_device" where
  "lift_dev d = \<lparr>driver_name = driver_name d, device_name = device_name d, device_id = device_id d,
     supports_multiple_block_read = supports_multiple_block_read d,
     supports_multiple_block_write = supports_multiple_block_write d,
     dev_read = map_option lift_read (dev_read d), dev_write = map_option lift_write (dev_write d),
     block_size = block_size d, num_blocks = num_blocks d\<rparr>"

section \<open>nofs.c\<close>

record 's nofs_fs =
  nofs_ident :: nat
  nofs_parent :: "'s block_device"
  nofs_block_size :: u32

definition EOF :: int where "EOF = -1"
definition UTF_BOM_1 :: u8 where "UTF_BOM_1 = 0xef"
definition UTF_BOM_2 :: u8 where "UTF_BOM_2 = 0xbb"
definition UTF_BOM_3 :: u8 where "UTF_BOM_3 = 0xbf"

definition eof_mark :: bytes where
  "eof_mark = [word_of_int EOF, 0x7e, 0x7e, 0x7e, 0x7e, 0x7e, 0x7e, 0x7e, 0x7e]"

definition nofs_init :: "nat \<Rightarrow> 's block_device \<Rightarrow> int \<times> 's nofs_fs" where
  "nofs_init ident parent =
     (0, \<lparr>nofs_ident = ident, nofs_parent = parent, nofs_block_size = block_size parent\<rparr>)"

text \<open>The position of the first byte that is equal to \<open>EOF\<close> among the first \<open>n\<close>: the byte is promoted to
  \<open>int\<close>. Looking behind the buffer is \<^term>\<open>None\<close>.\<close>

fun eof_index :: "bytes \<Rightarrow> nat \<Rightarrow> nat \<Rightarrow> nat option option" where
  "eof_index buf i 0 = Some None"
| "eof_index [] i (Suc n) = None"
| "eof_index (b # buf) i (Suc n) = (if uint b = EOF then Some (Some i) else eof_index buf (Suc i) n)"

text \<open>The search for the mark; the number of the block is not changed by the loop.\<close>

partial_function (option) search_eof ::
  "'s dev_read \<Rightarrow> u32 \<Rightarrow> u32 \<Rightarrow> u32 \<Rightarrow> bytes \<Rightarrow> 's \<Rightarrow> (int \<times> 's) option" where
  "search_eof rd bs nblocks block_no buf s =
     (if block_no < nblocks then
        do {
          (r, buf', s') \<leftarrow> rd buf block_no s;
          let bytes_read = (word_of_int r :: u32);
          if bytes_read = 0 then Some (3, s')
          else do {
            found \<leftarrow> eof_index buf' 0 (unat bytes_read);
            (case found of
               Some i \<Rightarrow> Some (sint (block_no * bs + of_nat i), s')
             | None \<Rightarrow> search_eof rd bs nblocks block_no buf' s')
          }
        }
      else Some (3, s))"

definition nofs_stream :: "'s nofs_fs \<Rightarrow> u32 \<Rightarrow> int \<Rightarrow> u32 mb_file" where
  "nofs_stream fs m start_pos =
     \<lparr>file_fs = nofs_ident fs, pos = start_pos, mode = m, opaque = 0, len = start_pos, flags = 0\<rparr>"

definition io_failed :: "'s world \<Rightarrow> u32 mb_file option \<times> 's world" where
  "io_failed w = (None, if errno_of w = None then w\<lparr>errno_of := Some EFAULT\<rparr> else w)"

text \<open>The three first bytes, and a first block with the mark of an empty file.\<close>

definition has_bom :: "bytes \<Rightarrow> bool" where
  "has_bom block_0 \<longleftrightarrow> block_0 ! 0 = UTF_BOM_1 \<and> block_0 ! 1 = UTF_BOM_2 \<and> block_0 ! 2 = UTF_BOM_3"

definition new_block_0 :: "bytes \<Rightarrow> bytes" where
  "new_block_0 block_0 = splice (splice block_0 0 [UTF_BOM_1, UTF_BOM_2, UTF_BOM_3]) 3 eof_mark"

definition nofs_fopen ::
  "(nat \<Rightarrow> u8) \<Rightarrow> 's nofs_fs \<Rightarrow> string \<Rightarrow> 's world \<Rightarrow> (u32 mb_file option \<times> 's world) option" where
  "nofs_fopen junk fs md w =
     (let m = fs_interpret_mode md; bs = nofs_block_size fs; dev = lift_dev (nofs_parent fs) in do {
        (r, block_0, w1) \<leftarrow> block_read dev (malloc_bytes junk (unat bs)) 0 (w\<lparr>errno_of := None\<rparr>);
        if r \<noteq> bs then Some (io_failed w1)
        else if unat bs < 3 then None
        else if has_bom block_0 then
          (if m AND VFS_MODE_APPEND \<noteq> 0 \<and> num_blocks dev \<noteq> 0 then
             (case dev_read dev of
                None \<Rightarrow> None
              | Some rd \<Rightarrow> do {
                  (start_pos, w2) \<leftarrow> search_eof rd (block_size dev) (num_blocks dev) 0
                    (malloc_bytes junk (unat (block_size dev))) w1;
                  Some (Some (nofs_stream fs m start_pos), w2)
                })
           else Some (Some (nofs_stream fs m 3), w1))
        else if unat bs < 12 then None
        else do {
          (r, w2) \<leftarrow> block_write dev (new_block_0 block_0) 0 (w1\<lparr>errno_of := None\<rparr>);
          if r \<noteq> bs then Some (io_failed w2) else Some (Some (nofs_stream fs m 3), w2)
        }
      })"

text \<open>The \<open>opaque\<close> argument is a null pointer.\<close>

definition nofs_get_next_bdev_block_num :: "'s nofs_fs \<Rightarrow> (u32, unit, 's world) get_next" where
  "nofs_get_next_bdev_block_num fs f_block_idx f opq add_blocks w =
     (if block_size (nofs_parent fs) \<noteq> 0 \<and> f_block_idx \<ge> block_size (nofs_parent fs)
      then Some (0xffffffff, f, opq, w\<lparr>errno_of := Some ENOSPC\<rparr>)
      else if nofs_block_size fs = 0 then None
      else if f_block_idx > word_of_int (len f) div nofs_block_size fs \<and> \<not> add_blocks
      then Some (0xffffffff, f, opq, w)
      else Some (f_block_idx, f, opq, w))"

definition nofs_fread ::
  "(nat \<Rightarrow> u8) \<Rightarrow> 's nofs_fs \<Rightarrow> bytes \<Rightarrow> u32 \<Rightarrow> u32 mb_file \<Rightarrow> 's world \<Rightarrow>
   (u32 \<times> bytes \<times> u32 mb_file \<times> 's world) option" where
  "nofs_fread junk fs ptr nbytes stream w = do {
     (n, buf, f, _, w') \<leftarrow> fs_fread (nofs_get_next_bdev_block_num fs) (lift_dev (nofs_parent fs))
       (nofs_block_size fs) junk ptr nbytes stream () w;
     Some (n, buf, f, w')
   }"

definition nofs_fwrite ::
  "(nat \<Rightarrow> u8) \<Rightarrow> 's nofs_fs \<Rightarrow> bytes \<Rightarrow> u32 \<Rightarrow> u32 mb_file \<Rightarrow> 's world \<Rightarrow>
   (u32 \<times> u32 mb_file \<times> 's world) option" where
  "nofs_fwrite junk fs ptr nbytes stream w =
     (let put = (\<lambda>buf n f w. fs_fwrite (nofs_get_next_bdev_block_num fs) (lift_dev (nofs_parent fs))
                   (nofs_block_size fs) junk buf n f () w);
          old_len = len stream
      in do {
        (ret, f, _, w1) \<leftarrow> put ptr nbytes stream w;
        if len f > old_len then do {
          let new_pos = len f;
          (_, f', _, w2) \<leftarrow> put eof_mark (of_nat (length eof_mark)) f w1;
          Some (ret, f'\<lparr>pos := new_pos, len := new_pos\<rparr>, w2)
        }
        else Some (ret, f, w1)
      })"

definition nofs_read_directory :: "'s nofs_fs \<Rightarrow> string list \<Rightarrow> 's world \<Rightarrow> (u32 mb_dirent list \<times> 's world) option" where
  "nofs_read_directory fs name w = Some ([], w)"

definition nofs_fclose :: "'s nofs_fs \<Rightarrow> u32 mb_file \<Rightarrow> int" where "nofs_fclose fs fp = 0"

definition nofs_fsize :: "u32 mb_file \<Rightarrow> int" where "nofs_fsize fp = long_add (len fp) (-3)"

definition nofs_clamp :: "u32 mb_file \<Rightarrow> int \<Rightarrow> u32 mb_file" where
  "nofs_clamp f p = (let p' = (if p < 3 then 3 else p) in f\<lparr>pos := (if p' > len f then len f else p')\<rparr>)"

definition nofs_fseek :: "u32 mb_file \<Rightarrow> int \<Rightarrow> nat \<Rightarrow> int \<times> u32 mb_file" where
  "nofs_fseek f offset whence =
     (if whence = MB_SEEK_SET then (0, nofs_clamp f (long_add offset 3))
      else if whence = MB_SEEK_END then (0, nofs_clamp f (long_add (len f) (- offset)))
      else if whence = MB_SEEK_CUR then (0, nofs_clamp f (long_add (pos f) offset))
      else (-1, f))"

definition nofs_ftell :: "u32 mb_file \<Rightarrow> int" where "nofs_ftell fp = long_add (pos fp) (-3)"

text \<open>The function pointers.\<close>

definition nofs_ops :: "(nat \<Rightarrow> u8) \<Rightarrow> 's nofs_fs \<Rightarrow> (u32, 's) fs" where
  "nofs_ops junk nofs =
     \<lparr>fs_ident = nofs_ident nofs, fs_parent = Some (nofs_parent nofs), fs_name = ''nofs'',
      fs_flags = FS_FLAG_SUPPORTS_EMPTY_FNAME,
      fs_fopen = (\<lambda>path m w. nofs_fopen junk nofs m w),
      fs_fread_fn = nofs_fread junk nofs,
      fs_fwrite_fn = Some (nofs_fwrite junk nofs),
      fs_fclose_fn = Some (\<lambda>f w. Some (nofs_fclose nofs f, w)),
      fs_fsize_fn = Some nofs_fsize,
      fs_fseek_fn = Some (\<lambda>f off wh w. let (r, f') = nofs_fseek f off wh in Some (r, f', w)),
      fs_ftell_fn = Some nofs_ftell, fs_fflush_fn = None,
      fs_read_directory = nofs_read_directory nofs\<rparr>"

section \<open>The contract of the lifted device\<close>

lemma lift_store:
  assumes "block_store rd wr bs n dinv dcontent"
  shows "block_store (lift_read rd) (lift_write wr) bs n (\<lambda>w. dinv (dev_state w)) (\<lambda>w. dcontent (dev_state w))"
proof -
  show ?thesis
  proof
    fix w :: "'a world" assume i: "dinv (dev_state w)"
    show "0 < bs" "n < 2 ^ 32" using block_store.bsize_pos [OF assms i] block_store.nblocks_bound [OF assms i] .
  next
    fix w :: "'a world" and i assume "dinv (dev_state w)" "i < n"
    then show "length (dcontent (dev_state w) i) = bs" by (rule block_store.length_content [OF assms])
  next
    fix w :: "'a world" and k and buf :: bytes and b :: u32
    assume p: "dinv (dev_state w)" "0 < k" "length buf = k * bs" "unat b + k \<le> n" "k * bs < 2 ^ 31"
    show "\<exists>s'. lift_read rd buf b w = Some (int (k * bs), load_blocks (dcontent (dev_state w)) (unat b) k, s')
      \<and> dinv (dev_state s') \<and> dcontent (dev_state s') = dcontent (dev_state w)"
      using block_store.read_ok [OF assms p] by (auto simp: lift_read_def)
    show "\<exists>s'. lift_write wr buf b w = Some (int (k * bs), s') \<and> dinv (dev_state s')
      \<and> (\<forall>i<n. dcontent (dev_state s') i = store_blocks (dcontent (dev_state w)) bs (unat b) k buf i)"
      using block_store.write_ok [OF assms p] by (auto simp: lift_write_def)
  qed
qed

text \<open>A file system over a device that stores blocks; \<open>nb\<close> of its blocks are used, at most as many as a
  block has bytes, because the code compares the number of a block with the block size.\<close>

definition nofs_ok ::
  "'s nofs_fs \<Rightarrow> nat \<Rightarrow> nat \<Rightarrow> ('s \<Rightarrow> bool) \<Rightarrow> ('s \<Rightarrow> nat \<Rightarrow> bytes) \<Rightarrow> 's world \<Rightarrow> bool" where
  "nofs_ok fs nb n dinv dcontent w \<longleftrightarrow>
     (\<exists>rd wr. dev_read (nofs_parent fs) = Some rd \<and> dev_write (nofs_parent fs) = Some wr
        \<and> block_store rd wr (unat (nofs_block_size fs)) n dinv dcontent)
     \<and> dinv (dev_state w) \<and> nofs_block_size fs = block_size (nofs_parent fs)
     \<and> nb \<le> n \<and> nb \<le> unat (nofs_block_size fs) \<and> Suc nb * unat (nofs_block_size fs) < 2 ^ 31"

lemma nofs_ok_bounds:
  assumes "nofs_ok fs nb n dinv dcontent w"
  shows "0 < unat (nofs_block_size fs)" and "i < nb \<Longrightarrow> i < 2 ^ 31"
    and "i < nb \<Longrightarrow> length (dcontent (dev_state w) i) = unat (nofs_block_size fs)"
proof -
  obtain rd wr where st: "block_store rd wr (unat (nofs_block_size fs)) n dinv dcontent"
    and i: "dinv (dev_state w)" "nb \<le> n" "Suc nb * unat (nofs_block_size fs) < 2 ^ 31"
    using assms by (auto simp: nofs_ok_def)
  show pos: "0 < unat (nofs_block_size fs)" by (rule block_store.bsize_pos [OF st i(1)])
  show "i < nb \<Longrightarrow> length (dcontent (dev_state w) i) = unat (nofs_block_size fs)"
    using block_store.length_content [OF st i(1), of i] i(2) by simp
  have "Suc nb * 1 \<le> Suc nb * unat (nofs_block_size fs)" using pos by (intro mult_le_mono2) simp
  then show "i < nb \<Longrightarrow> i < 2 ^ 31" using i(3) by simp
qed

lemma nofs_block_read:
  assumes "nofs_ok fs nb n dinv dcontent w" and "i < nb" and "length buf = unat (nofs_block_size fs)"
  shows "\<exists>w'. block_read (lift_dev (nofs_parent fs)) buf (of_nat i) w
      = Some (of_nat (unat (nofs_block_size fs)), dcontent (dev_state w) i, w')
    \<and> nofs_ok fs nb n dinv dcontent w' \<and> dcontent (dev_state w') = dcontent (dev_state w)"
proof -
  let ?bs = "unat (nofs_block_size fs)"
  obtain rd wr where rd: "dev_read (nofs_parent fs) = Some rd"
    and st: "block_store rd wr ?bs n dinv dcontent"
    and i: "dinv (dev_state w)" "nb \<le> n" "Suc nb * ?bs < 2 ^ 31" "nofs_block_size fs = block_size (nofs_parent fs)"
    using assms(1) by (auto simp: nofs_ok_def)
  have u: "unat (of_nat i :: u32) = i"
    using nofs_ok_bounds(2) [OF assms(1,2)] by (simp add: word_nat_simps)
  have "dev_read (lift_dev (nofs_parent fs)) = Some (lift_read rd)"
    "unat (block_size (lift_dev (nofs_parent fs))) = ?bs" using rd i(4) by (simp_all add: lift_dev_def)
  from block_store.layer_read [OF lift_store [OF st] this i(1), of 1 buf "of_nat i"] assms(2,3) i u
  obtain w' where "block_read (lift_dev (nofs_parent fs)) buf (of_nat i) w
      = Some (of_nat ?bs, load_blocks (dcontent (dev_state w)) i 1, w')" "dinv (dev_state w')"
    "dcontent (dev_state w') = dcontent (dev_state w)" by auto
  then show ?thesis using assms(1) by (auto simp: nofs_ok_def load_blocks_def)
qed

lemma nofs_block_write:
  assumes "nofs_ok fs nb n dinv dcontent w" and "i < nb" and "length buf = unat (nofs_block_size fs)"
  shows "\<exists>w'. block_write (lift_dev (nofs_parent fs)) buf (of_nat i) w
      = Some (of_nat (unat (nofs_block_size fs)), w') \<and> nofs_ok fs nb n dinv dcontent w'
    \<and> (\<forall>j < nb. dcontent (dev_state w') j = (if j = i then buf else dcontent (dev_state w) j))"
proof -
  let ?bs = "unat (nofs_block_size fs)"
  obtain rd wr where wr: "dev_write (nofs_parent fs) = Some wr"
    and st: "block_store rd wr ?bs n dinv dcontent"
    and i: "dinv (dev_state w)" "nb \<le> n" "Suc nb * ?bs < 2 ^ 31" "nofs_block_size fs = block_size (nofs_parent fs)"
    using assms(1) by (auto simp: nofs_ok_def)
  have u: "unat (of_nat i :: u32) = i"
    using nofs_ok_bounds(2) [OF assms(1,2)] by (simp add: word_nat_simps)
  have "dev_write (lift_dev (nofs_parent fs)) = Some (lift_write wr)"
    "unat (block_size (lift_dev (nofs_parent fs))) = ?bs" using wr i(4) by (simp_all add: lift_dev_def)
  from block_store.layer_write [OF lift_store [OF st] this i(1), of 1 buf "of_nat i"] assms(2,3) i u
  obtain w' where w': "block_write (lift_dev (nofs_parent fs)) buf (of_nat i) w = Some (of_nat ?bs, w')"
    "dinv (dev_state w')"
    "\<forall>j<n. dcontent (dev_state w') j = store_blocks (dcontent (dev_state w)) ?bs i 1 buf j" by auto
  have "\<forall>j < nb. dcontent (dev_state w') j = (if j = i then buf else dcontent (dev_state w) j)"
    using w'(3) i(2) assms(3) by (auto simp: store_blocks_def slice_def)
  then show ?thesis using w' assms(1) by (auto simp: nofs_ok_def)
qed

lemma nofs_next:
  assumes "nofs_ok fs nb n dinv dcontent w" and "i < nb"
    and "add_blocks \<or> 0 \<le> len f \<and> len f < 2 ^ 31 \<and> i \<le> nat (len f) div unat (nofs_block_size fs)"
  shows "nofs_get_next_bdev_block_num fs (of_nat i) f p add_blocks w = Some (of_nat i, f, p, w)"
    and "(of_nat i :: u32) \<noteq> 0xffffffff"
proof -
  let ?bs = "unat (nofs_block_size fs)"
  note b = nofs_ok_bounds(1) [OF assms(1)] nofs_ok_bounds(2) [OF assms(1,2)]
  have i: "unat (of_nat i :: u32) = i" using b(2) by (simp add: word_nat_simps)
  then show "(of_nat i :: u32) \<noteq> 0xffffffff" using b(2) by (auto dest: arg_cong [where f = unat])
  have eq: "nofs_block_size fs = block_size (nofs_parent fs)" and "nb \<le> ?bs"
    using assms(1) by (auto simp: nofs_ok_def)
  then have lt: "\<not> block_size (nofs_parent fs) \<le> of_nat i" using i assms(2) by (simp add: word_le_nat_alt)
  have nz: "nofs_block_size fs \<noteq> 0" using b(1) by auto
  have "\<not> word_of_int (len f) div nofs_block_size fs < (of_nat i :: u32)" if "\<not> add_blocks"
  proof -
    have l: "0 \<le> len f" "len f < 2 ^ 31" "i \<le> nat (len f) div ?bs" using assms(3) that by auto
    have "unat (word_of_int (len f) :: u32) = nat (len f)" using l(1,2) by (simp add: unat_word_of_int32)
    then show ?thesis using i l(3) by (simp add: word_less_nat_alt unat_div)
  qed
  then show "nofs_get_next_bdev_block_num fs (of_nat i) f p add_blocks w = Some (of_nat i, f, p, w)"
    using lt nz by (auto simp: nofs_get_next_bdev_block_num_def)
qed

interpretation nofs_write: block_rw "nofs_get_next_bdev_block_num fs" "lift_dev (nofs_parent fs)"
  "unat (nofs_block_size fs)" nb "nofs_ok fs nb n dinv dcontent" "\<lambda>w. dcontent (dev_state w)" of_nat "\<lambda>_. True"
  for fs nb n dinv dcontent
proof unfold_locales
  fix w assume ok: "nofs_ok fs nb n dinv dcontent w"
  show "0 < unat (nofs_block_size fs)" by (rule nofs_ok_bounds(1) [OF ok])
  show "Suc nb * unat (nofs_block_size fs) < 2 ^ 31" using ok by (auto simp: nofs_ok_def)
  fix i assume i: "i < nb"
  show "length (dcontent (dev_state w) i) = unat (nofs_block_size fs)" by (rule nofs_ok_bounds(3) [OF ok i])
  show "(of_nat i :: u32) \<noteq> 0xffffffff" by (rule nofs_next(2) [OF ok i, of True]) simp
  show "\<exists>p' s'. nofs_get_next_bdev_block_num fs (of_nat i) f p True w = Some (of_nat i, f, p', s')
      \<and> nofs_ok fs nb n dinv dcontent s' \<and> dcontent (dev_state s') = dcontent (dev_state w)" for f p
    using nofs_next(1) [OF ok i, of True] ok by auto
  fix buf :: bytes assume b: "length buf = unat (nofs_block_size fs)"
  note nofs_block_read [OF ok i b] nofs_block_write [OF ok i b]
  then show "\<exists>s'. block_read (lift_dev (nofs_parent fs)) buf (of_nat i) w
      = Some (of_nat (unat (nofs_block_size fs)), dcontent (dev_state w) i, s')
      \<and> nofs_ok fs nb n dinv dcontent s' \<and> dcontent (dev_state s') = dcontent (dev_state w)"
    "\<exists>s'. block_write (lift_dev (nofs_parent fs)) buf (of_nat i) w = Some (of_nat (unat (nofs_block_size fs)), s')
      \<and> nofs_ok fs nb n dinv dcontent s'
      \<and> (\<forall>j<nb. dcontent (dev_state s') j = (if j = i then buf else dcontent (dev_state w) j))"
    by blast+
qed simp

text \<open>Reading: the blocks up to the one with the last byte.\<close>

interpretation nofs_reads: block_map "nofs_get_next_bdev_block_num fs" "lift_dev (nofs_parent fs)"
  "unat (nofs_block_size fs)" nb "nofs_ok fs nb n dinv dcontent" "\<lambda>w. dcontent (dev_state w)" "\<lambda>_ _. True"
  "\<lambda>f. 0 \<le> len f \<and> len f < 2 ^ 31 \<and> nb \<le> Suc (nat (len f) div unat (nofs_block_size fs))"
  for fs nb n dinv dcontent
proof unfold_locales
  fix w assume ok: "nofs_ok fs nb n dinv dcontent w"
  show "0 < unat (nofs_block_size fs)" by (rule nofs_ok_bounds(1) [OF ok])
  show "Suc nb * unat (nofs_block_size fs) < 2 ^ 31" using ok by (auto simp: nofs_ok_def)
  fix i assume i: "i < nb"
  show "length (dcontent (dev_state w) i) = unat (nofs_block_size fs)" by (rule nofs_ok_bounds(3) [OF ok i])
  fix p and f :: "u32 mb_file" assume "0 \<le> len f \<and> len f < 2 ^ 31 \<and> nb \<le> Suc (nat (len f) div unat (nofs_block_size fs))"
  then have "nofs_get_next_bdev_block_num fs (of_nat i) f p False w = Some (of_nat i, f, p, w)"
    "(of_nat i :: u32) \<noteq> 0xffffffff"
    using nofs_next [OF ok i, of False f] i by auto
  then show "\<exists>b p' s'. nofs_get_next_bdev_block_num fs (of_nat i) f p False w = Some (b, f, p', s')
      \<and> b \<noteq> 0xffffffff \<and> True \<and> nofs_ok fs nb n dinv dcontent s' \<and> dcontent (dev_state s') = dcontent (dev_state w)
      \<and> (\<forall>buf. length buf = unat (nofs_block_size fs) \<longrightarrow> (\<exists>s''. block_read (lift_dev (nofs_parent fs)) buf b s'
          = Some (of_nat (unat (nofs_block_size fs)), dcontent (dev_state w) i, s'')
        \<and> nofs_ok fs nb n dinv dcontent s'' \<and> dcontent (dev_state s'') = dcontent (dev_state w)))"
    using nofs_block_read [OF ok i] ok by blast
qed auto

section \<open>Writing and reading back\<close>

definition nofs_image :: "nat \<Rightarrow> ('s \<Rightarrow> nat \<Rightarrow> bytes) \<Rightarrow> 's world \<Rightarrow> bytes" where
  "nofs_image nb dcontent w = concat (map (dcontent (dev_state w)) [0..<nb])"

lemmas nofs_image_file = nofs_image_def nofs_write.file_of_def nofs_reads.file_of_def

text \<open>Where a write of a stream starts, the stream after a write up to \<open>e\<close>, and the image after it.\<close>

definition write_pos :: "u32 mb_file \<Rightarrow> nat" where
  "write_pos f = nat (if mode f AND VFS_MODE_APPEND \<noteq> 0 \<and> mode f AND VFS_MODE_R \<noteq> 0 then len f else pos f)"

definition at_end :: "u32 mb_file \<Rightarrow> nat \<Rightarrow> u32 mb_file" where
  "at_end f e = f\<lparr>pos := int e, len := max (len f) (int e)\<rparr>"

definition marked :: "bytes \<Rightarrow> nat \<Rightarrow> bytes \<Rightarrow> int \<Rightarrow> bytes" where
  "marked F P data l =
     (let F' = splice F P data; e = P + length data in if int e > l then splice F' e eof_mark else F')"

lemma nofs_put:
  assumes "nofs_ok fs nb n dinv dcontent w" and "0 \<le> pos f" and "pos f \<le> len f"
    and "write_pos f + length data < nb * unat (nofs_block_size fs)"
  shows "\<exists>w'. fs_fwrite (nofs_get_next_bdev_block_num fs) (lift_dev (nofs_parent fs)) (nofs_block_size fs) junk
      data (of_nat (length data)) f () w = Some (of_nat (length data), at_end f (write_pos f + length data), (), w')
    \<and> nofs_ok fs nb n dinv dcontent w'
    \<and> nofs_image nb dcontent w' = splice (nofs_image nb dcontent w) (write_pos f) data"
  using nofs_write.fwrite_ok [OF assms(1) TrueI assms(2,3) _ assms(4) order_refl, of junk "()"]
  by (simp add: nofs_image_file write_pos_def nofs_write.write_start_def at_end_def nofs_write.moved_def)

lemma nofs_fwrite_ok:
  assumes ok: "nofs_ok fs nb n dinv dcontent w" and f: "0 \<le> pos f" "pos f \<le> len f"
    and e: "e = write_pos f + length data" "e + 9 < nb * unat (nofs_block_size fs)"
  shows "\<exists>w'. nofs_fwrite junk fs data (of_nat (length data)) f w = Some (of_nat (length data), at_end f e, w')
    \<and> nofs_ok fs nb n dinv dcontent w'
    \<and> nofs_image nb dcontent w' = marked (nofs_image nb dcontent w) (write_pos f) data (len f)"
proof -
  obtain w1 where w1: "fs_fwrite (nofs_get_next_bdev_block_num fs) (lift_dev (nofs_parent fs)) (nofs_block_size fs)
      junk data (of_nat (length data)) f () w = Some (of_nat (length data), at_end f e, (), w1)"
    "nofs_ok fs nb n dinv dcontent w1"
    "nofs_image nb dcontent w1 = splice (nofs_image nb dcontent w) (write_pos f) data"
    using nofs_put [OF ok f, of data junk] e by auto
  show ?thesis
  proof (cases "int e > len f")
    case False
    then have "\<not> len (at_end f e) > len f" by (simp add: at_end_def)
    then show ?thesis
      using w1 False e(1) by (auto simp: nofs_fwrite_def marked_def Let_def)
  next
    case True
    let ?f = "at_end f e"
    have l: "len ?f = int e" "pos ?f = int e" "write_pos ?f = e" using True by (simp_all add: at_end_def write_pos_def)
    have l9: "length eof_mark = 9" by (simp add: eof_mark_def)
    obtain w2 where w2: "fs_fwrite (nofs_get_next_bdev_block_num fs) (lift_dev (nofs_parent fs)) (nofs_block_size fs)
        junk eof_mark (of_nat (length eof_mark)) ?f () w1 = Some (of_nat (length eof_mark), at_end ?f (e + 9), (), w2)"
      "nofs_ok fs nb n dinv dcontent w2" "nofs_image nb dcontent w2 = splice (nofs_image nb dcontent w1) e eof_mark"
      using nofs_put [OF w1(2), of ?f eof_mark junk] l l9 e(2) by auto
    have "(at_end ?f (e + 9))\<lparr>pos := int e, len := int e\<rparr> = at_end f e"
      using True by (simp add: at_end_def max_def)
    then have "nofs_fwrite junk fs data (of_nat (length data)) f w = Some (of_nat (length data), at_end f e, w2)"
      using w1(1) w2(1) True l(1) by (simp add: nofs_fwrite_def Let_def)
    then show ?thesis using w1(3) w2 True e(1) by (auto simp: marked_def Let_def)
  qed
qed

text \<open>The bytes that were written are in the image after the mark has been written behind them.\<close>

lemma slice_marked:
  assumes "P + length data + 9 \<le> length F"
  shows "slice (marked F P data l) P (length data) = data"
proof -
  have "length (splice F P data) = length F" using assms by (simp add: length_splice)
  moreover have "length eof_mark = 9" by (simp add: eof_mark_def)
  ultimately show ?thesis
    using assms slice_splice_disjoint [of "P + length data" eof_mark "splice F P data" P "length data"]
    by (simp add: marked_def Let_def slice_splice_same)
qed

lemma nofs_ok_mono: "nofs_ok fs nb n dinv dcontent w \<Longrightarrow> nb' \<le> nb \<Longrightarrow> nofs_ok fs nb' n dinv dcontent w"
proof -
  assume ok: "nofs_ok fs nb n dinv dcontent w" and le: "nb' \<le> nb"
  have "Suc nb' * unat (nofs_block_size fs) \<le> Suc nb * unat (nofs_block_size fs)"
    using le by (intro mult_right_mono) auto
  moreover have "Suc nb * unat (nofs_block_size fs) < 2 ^ 31" using ok by (auto simp: nofs_ok_def)
  ultimately have "Suc nb' * unat (nofs_block_size fs) < 2 ^ 31" by (rule le_less_trans)
  then show ?thesis using ok le by (auto simp: nofs_ok_def)
qed

lemma slice_image_prefix:
  assumes "nofs_ok fs nb n dinv dcontent w" and "nb' \<le> nb" and "a + m \<le> nb' * unat (nofs_block_size fs)"
  shows "slice (nofs_image nb' dcontent w) a m = slice (nofs_image nb dcontent w) a m"
proof -
  have "[0..<nb] = [0..<nb'] @ [nb'..<nb]" using upt_add_eq_append [of 0 nb' "nb - nb'"] assms(2) by simp
  then have "nofs_image nb dcontent w = nofs_image nb' dcontent w @ concat (map (dcontent (dev_state w)) [nb'..<nb])"
    by (simp add: nofs_image_def)
  moreover have "length (nofs_image nb' dcontent w) = nb' * unat (nofs_block_size fs)"
    using nofs_write.length_file_of [OF nofs_ok_mono [OF assms(1,2)]] by (simp add: nofs_image_file)
  ultimately show ?thesis using assms(3) by (simp add: slice_def)
qed

lemma nofs_fread_ok:
  assumes ok: "nofs_ok fs nb n dinv dcontent w" and f: "0 \<le> pos f" "nat (pos f) + m \<le> nat (len f)" "0 \<le> len f"
    and l: "nat (len f) < nb * unat (nofs_block_size fs)" and b: "m \<le> length buf"
  shows "\<exists>f' w'. nofs_fread junk fs buf (of_nat m) f w
      = Some (of_nat m, splice buf 0 (slice (nofs_image nb dcontent w) (nat (pos f)) m), f', w')
    \<and> pos f' = pos f + int m \<and> nofs_ok fs nb n dinv dcontent w'"
proof -
  let ?bs = "unat (nofs_block_size fs)"
  define nb' where "nb' = Suc (nat (len f) div ?bs)"
  have pos: "0 < ?bs" by (rule nofs_ok_bounds(1) [OF ok])
  have le: "nb' \<le> nb" using l by (simp add: nb'_def less_mult_imp_div_less Suc_leI)
  have ok': "nofs_ok fs nb' n dinv dcontent w" by (rule nofs_ok_mono [OF ok le])
  have in': "nat (len f) < nb' * ?bs"
    using pos by (simp add: nb'_def) (metis dividend_less_div_times mult.commute add.commute)
  have "nb * ?bs < 2 ^ 31" using ok by (auto simp: nofs_ok_def)
  then have "nat (len f) < 2 ^ 31" using l by linarith
  then have l31: "len f < 2 ^ 31" using f(3) by simp
  have ap: "0 \<le> len f \<and> len f < 2 ^ 31 \<and> nb' \<le> Suc (nat (len f) div ?bs)" using f(3) l31 by (simp add: nb'_def)
  have r: "nat (pos f) + m \<le> nb' * ?bs" "nat (pos f) + m < nb' * ?bs" using f(2) in' by linarith+
  obtain f' w' where w': "fs_fread (nofs_get_next_bdev_block_num fs) (lift_dev (nofs_parent fs)) (of_nat ?bs) junk
      buf (of_nat m) f () w = Some (of_nat m, splice buf 0 (slice (nofs_image nb' dcontent w) (nat (pos f)) m), f', (), w')"
    "pos f' = pos f + int m" "nofs_ok fs nb' n dinv dcontent w'"
    using nofs_reads.fread_range [OF ok' ap f(1) TrueI r(1) b disjI1 [OF r(2)], of junk "()"]
    by (auto simp: nofs_image_file)
  have "nofs_ok fs nb n dinv dcontent w'" using w'(3) ok by (auto simp: nofs_ok_def)
  then show ?thesis using w' slice_image_prefix [OF ok le r(1)] by (simp add: nofs_fread_def)
qed

section \<open>Opening\<close>

text \<open>A device without the byte order mark becomes an empty file.\<close>

lemma nofs_fopen_new:
  assumes ok: "nofs_ok fs nb n dinv dcontent w" and nb: "0 < nb" and bs: "12 \<le> unat (nofs_block_size fs)"
    and bom: "\<not> has_bom (dcontent (dev_state w) 0)"
  shows "\<exists>w'. nofs_fopen junk fs md w = Some (Some (nofs_stream fs (fs_interpret_mode md) 3), w')
    \<and> nofs_ok fs nb n dinv dcontent w'
    \<and> nofs_image nb dcontent w' = splice (nofs_image nb dcontent w) 0 ([UTF_BOM_1, UTF_BOM_2, UTF_BOM_3] @ eof_mark)"
proof -
  let ?bs = "unat (nofs_block_size fs)"
  let ?c = "dcontent (dev_state w) 0" and ?m = "[UTF_BOM_1, UTF_BOM_2, UTF_BOM_3] @ eof_mark"
  have lc: "length ?c = ?bs" by (rule nofs_ok_bounds(3) [OF ok nb])
  have lm: "length ?m = 12" "length eof_mark = 9" by (simp_all add: eof_mark_def)
  have ok0: "nofs_ok fs nb n dinv dcontent (w\<lparr>errno_of := e\<rparr>)" for e using ok by (auto simp: nofs_ok_def)
  obtain w1 where w1: "block_read (lift_dev (nofs_parent fs)) (malloc_bytes junk ?bs) 0 (w\<lparr>errno_of := None\<rparr>)
      = Some (nofs_block_size fs, ?c, w1)" "nofs_ok fs nb n dinv dcontent w1"
    "dcontent (dev_state w1) = dcontent (dev_state w)"
    using nofs_block_read [OF ok0 nb, of "malloc_bytes junk ?bs"] by auto
  have ok1: "nofs_ok fs nb n dinv dcontent (w1\<lparr>errno_of := None\<rparr>)" using w1(2) by (auto simp: nofs_ok_def)
  have new: "new_block_0 ?c = splice ?c 0 ?m" using bs lc lm by (simp add: new_block_0_def splice_def eval_nat_numeral)
  have "length (splice ?c 0 ?m) = ?bs" using bs lc lm(1) by (simp add: length_splice)
  from nofs_block_write [OF ok1 nb this] obtain w2 where
    w2: "block_write (lift_dev (nofs_parent fs)) (splice ?c 0 ?m) 0 (w1\<lparr>errno_of := None\<rparr>) = Some (nofs_block_size fs, w2)"
    "nofs_ok fs nb n dinv dcontent w2"
    "\<forall>j < nb. dcontent (dev_state w2) j = (if j = 0 then splice ?c 0 ?m else dcontent (dev_state w) j)"
    using w1(3) by auto
  have "nofs_image nb dcontent w2 = splice (nofs_image nb dcontent w) (0 * ?bs + 0) ?m"
    unfolding nofs_image_def
    by (rule concat_update_block [OF nb nofs_ok_bounds(3) [OF ok]]) (use bs lm(1) w2(3) in auto)
  moreover have "\<not> ?bs < 3" "\<not> ?bs < 12" using bs by simp_all
  ultimately show ?thesis
    using w1(1) w2 bom new by (simp add: nofs_fopen_def Let_def)
qed

lemma mb_fread_nofs:
  assumes "nofs_ok fs nb n dinv dcontent w" and "0 \<le> pos f" and "nat (pos f) + m \<le> nat (len f)" and "0 \<le> len f"
    and "nat (len f) < nb * unat (nofs_block_size fs)" and "m \<le> length buf"
  shows "\<exists>f' w'. mb_fread (nofs_ops junk fs) buf 1 (of_nat m) (Stream f) w
      = Some (of_nat m, splice buf 0 (slice (nofs_image nb dcontent w) (nat (pos f)) m), Stream f', w')"
proof -
  have "nb * unat (nofs_block_size fs) < 2 ^ 31" using assms(1) by (auto simp: nofs_ok_def)
  then have l31: "nat (len f) < 2 ^ 31" using assms(5) by linarith
  have "pos f + int m \<le> len f" using assms(2-4) by linarith
  moreover have "len f < 2 ^ 31" using l31 assms(4) by simp
  ultimately have d: "0 \<le> len f - pos f" "len f - pos f < 2 ^ 31" "m \<le> nat (len f - pos f)"
    using assms(2) by linarith+
  have "unat (word_of_int (len f - pos f) :: u32) = nat (len f - pos f)"
    using unat_word_of_int32 [of "len f - pos f"] d by simp
  moreover have "nat (len f - pos f) < 2 ^ 31" using d(1,2) by (simp add: nat_less_iff)
  then have "m < 2 ^ 31" using d(3) by (rule le_less_trans [rotated])
  then have "unat (of_nat m :: u32) = m" by (intro unat_of_nat32) simp
  ultimately have "\<not> word_of_int (len f - pos f) < (of_nat m :: u32)" using d(3) by (simp add: word_less_nat_alt)
  then show ?thesis
    using nofs_fread_ok [OF assms, of junk] by (auto simp: mb_fread_def nofs_ops_def Let_def)
qed

section \<open>Properties\<close>

text \<open>A file as it lies on the device: the byte order mark of UTF-8, the contents, the mark of the end.\<close>

definition nofs_layout :: "bytes \<Rightarrow> bytes" where
  "nofs_layout data = [0xef, 0xbb, 0xbf] @ data @ 0xff # replicate 8 0x7e"

lemma nofs_layout_marks: "nofs_layout data = [UTF_BOM_1, UTF_BOM_2, UTF_BOM_3] @ data @ eof_mark"
proof -
  have "replicate 8 0x7e = [0x7e, 0x7e, 0x7e, 0x7e, 0x7e, 0x7e, 0x7e, 0x7e :: u8]" by code_simp
  moreover have "word_of_int EOF = (0xff :: u8)" by (simp add: EOF_def)
  ultimately show ?thesis
    by (simp add: nofs_layout_def UTF_BOM_1_def UTF_BOM_2_def UTF_BOM_3_def eof_mark_def)
qed

lemma marked_layout:
  assumes "length data + 12 \<le> length F"
  shows "marked (splice F 0 (nofs_layout [])) 3 data 3 = splice F 0 (nofs_layout data)"
proof (cases "data = []")
  case True
  have "splice F' 3 [] = F'" for F' :: bytes by (simp add: splice_def)
  then show ?thesis using True by (simp add: marked_def)
next
  case False
  let ?F0 = "splice F 0 (nofs_layout [])"
  have l: "length (nofs_layout d) = 12 + length d" for d by (simp add: nofs_layout_def)
  have l9: "length eof_mark = 9" by (simp add: eof_mark_def)
  have l0: "length ?F0 = length F" using assms l [of "[]"] by (simp add: length_splice)
  have l1: "length (splice ?F0 3 data) = length F" using assms l0 by (simp add: length_splice)
  have "splice (splice ?F0 3 data) (3 + length data) eof_mark = splice F 0 (nofs_layout data)"
  proof (rule nth_equalityI)
    show "length (splice (splice ?F0 3 data) (3 + length data) eof_mark)
        = length (splice F 0 (nofs_layout data))"
      using assms l l1 l9 by (simp add: length_splice)
    fix k assume "k < length (splice (splice ?F0 3 data) (3 + length data) eof_mark)"
    then have k: "k < length F" using assms l1 l9 by (simp add: length_splice)
    have m: "length data > 0" using False by simp
    consider "k < 3" | "3 \<le> k" "k < 3 + length data" | "3 + length data \<le> k" "k < 12 + length data"
      | "12 + length data \<le> k" by linarith
    then show "splice (splice ?F0 3 data) (3 + length data) eof_mark ! k
        = splice F 0 (nofs_layout data) ! k"
      using assms k l [of data] l [of "[]"] l0 l1 l9 m
      by cases (auto simp: nth_splice nofs_layout_marks nth_append nth_Cons' numeral_3_eq_3)
  qed
  then show ?thesis using False by (simp add: marked_def Let_def)
qed

text \<open>C35: On a device that does not start with the byte order mark, opening in any mode creates an
  empty file: the device starts with the byte order mark and the mark of the end and is otherwise as
  before, and the stream is at the start of a file of no bytes (position and length 3, behind the
  byte order mark). What is then written through the VFS, if it fits the device with both marks, lies
  on the device between the byte order mark and the mark of the end, everything behind them is as
  before, and it is read back after seeking to the start.\<close>

theorem nofs_new_file_roundtrip:
  assumes "nofs_ok fs nb n dinv dcontent w" and "0 < nb" and "12 \<le> unat (nofs_block_size fs)"
    and "\<not> has_bom (dcontent (dev_state w) 0)"
    and "12 + length data < nb * unat (nofs_block_size fs)" and "length buf = length data"
  shows "\<exists>f w1 f1 w2 f2 f3 w3. fs_fopen (nofs_ops junk fs) None md w = Some (Some f, w1)
    \<and> pos f = 3 \<and> len f = 3
    \<and> nofs_image nb dcontent w1 = splice (nofs_image nb dcontent w) 0 (nofs_layout [])
    \<and> mb_fwrite (nofs_ops junk fs) data 1 (of_nat (length data)) (Stream f) w1
        = Some (of_nat (length data), Stream f1, [], w2)
    \<and> nofs_image nb dcontent w2 = splice (nofs_image nb dcontent w) 0 (nofs_layout data)
    \<and> mb_fseek (nofs_ops junk fs) (Stream f1) 0 MB_SEEK_SET w2 = Some (0, Stream f2, w2)
    \<and> mb_fread (nofs_ops junk fs) buf 1 (of_nat (length data)) (Stream f2) w2
        = Some (of_nat (length data), data, Stream f3, w3)"
proof -
  let ?m = "length data" and ?f = "nofs_stream fs (fs_interpret_mode md) 3"
  obtain w1 where w1: "nofs_fopen junk fs md w = Some (Some ?f, w1)" "nofs_ok fs nb n dinv dcontent w1"
      "nofs_image nb dcontent w1 = splice (nofs_image nb dcontent w) 0 (nofs_layout [])"
    using nofs_fopen_new [OF assms(1-4), of junk md] unfolding nofs_layout_marks by auto
  have st: "pos ?f = 3" "len ?f = 3" "write_pos ?f = 3" by (simp_all add: nofs_stream_def write_pos_def)
  let ?f1 = "at_end ?f (3 + ?m)"
  let ?F = "marked (nofs_image nb dcontent w1) 3 data 3"
  obtain w2 where w2: "nofs_fwrite junk fs data (of_nat ?m) ?f w1 = Some (of_nat ?m, ?f1, w2)"
    "nofs_ok fs nb n dinv dcontent w2" "nofs_image nb dcontent w2 = ?F"
    using nofs_fwrite_ok [OF w1(2), of ?f "3 + ?m" data junk] st assms(5) by auto
  let ?f2 = "?f1\<lparr>pos := 3\<rparr>"
  have l1: "pos ?f2 = 3" "len ?f2 = 3 + int ?m" using st by (simp_all add: at_end_def)
  have sk: "nofs_fseek ?f1 0 MB_SEEK_SET = (0, ?f2)"
    using st by (simp add: nofs_fseek_def nofs_clamp_def at_end_def long_add_def)
  have lF: "length (nofs_image nb dcontent w1) = nb * unat (nofs_block_size fs)"
    using nofs_write.length_file_of [OF w1(2)] by (simp add: nofs_image_file)
  have sl: "slice ?F 3 ?m = data" by (rule slice_marked) (use lF assms(5) in simp)
  have "nat (pos ?f2) + ?m \<le> nat (len ?f2)" "nat (len ?f2) < nb * unat (nofs_block_size fs)"
    using l1 assms(5) by (simp_all add: nat_add_distrib)
  from mb_fread_nofs [OF w2(2) _ this(1) _ this(2), of buf junk] obtain f3 w3 where
    rd: "mb_fread (nofs_ops junk fs) buf 1 (of_nat ?m) (Stream ?f2) w2 = Some (of_nat ?m, data, Stream f3, w3)"
    using l1 assms(6) sl w2(3) by (auto simp: splice_def)
  have "length (nofs_image nb dcontent w) = nb * unat (nofs_block_size fs)"
    using nofs_write.length_file_of [OF assms(1)] by (simp add: nofs_image_file)
  then have "?F = splice (nofs_image nb dcontent w) 0 (nofs_layout data)"
    unfolding w1(3) using assms(5) by (intro marked_layout) simp
  then show ?thesis
    using w1(1,3) w2(1,3) sk rd st(1,2)
    by (intro exI [of _ ?f] exI [of _ w1] exI [of _ ?f1] exI [of _ w2] exI [of _ ?f2] exI [of _ f3] exI [of _ w3])
      (simp add: nofs_ops_def mb_fwrite_def mb_fseek_def)
qed

definition demo_nofs :: "bytes list nofs_fs" where
  "demo_nofs = \<lparr>nofs_ident = 1, nofs_parent = ram_dev 32, nofs_block_size = 32\<rparr>"

lemma demo_nofs_ok: "length blk = 32 \<Longrightarrow> nofs_ok demo_nofs 1 1 (ram_ok 32 1) (!) \<lparr>errno_of = e, dev_state = [blk]\<rparr>"
  using ram.block_store_axioms [of 32 1] by (auto simp: nofs_ok_def demo_nofs_def ram_dev_def ram_ok_def)

theorem nofs_new_file_roundtrip_witness:
  "\<exists>f w1 f1 w2 f2 f3 w3. fs_fopen (nofs_ops (\<lambda>_. 0) demo_nofs) None ''w+'' \<lparr>errno_of = None, dev_state = [replicate 32 0]\<rparr>
      = Some (Some f, w1) \<and> pos f = 3 \<and> len f = 3
    \<and> mb_fwrite (nofs_ops (\<lambda>_. 0) demo_nofs) [72, 105] 1 2 (Stream f) w1 = Some (2, Stream f1, [], w2)
    \<and> nofs_image 1 (!) w2 = [0xef, 0xbb, 0xbf, 72, 105, 0xff] @ replicate 8 0x7e @ replicate 18 0
    \<and> mb_fseek (nofs_ops (\<lambda>_. 0) demo_nofs) (Stream f1) 0 MB_SEEK_SET w2 = Some (0, Stream f2, w2)
    \<and> mb_fread (nofs_ops (\<lambda>_. 0) demo_nofs) [0, 0] 1 2 (Stream f2) w2 = Some (2, [72, 105], Stream f3, w3)"
proof -
  have "splice (nofs_image 1 (!) \<lparr>errno_of = None, dev_state = [replicate 32 0]\<rparr>) 0 (nofs_layout [72, 105])
      = [0xef, 0xbb, 0xbf, 72, 105, 0xff] @ replicate 8 0x7e @ replicate 18 0"
    by (simp add: nofs_image_def splice_def nofs_layout_def)
  then show ?thesis
    using nofs_new_file_roundtrip [OF demo_nofs_ok, of "replicate 32 0" None "[72, 105]" "[0, 0]" "\<lambda>_. 0" "''w+''"]
    by (auto simp: demo_nofs_def has_bom_def UTF_BOM_1_def)
qed

text \<open>The search for the mark: no byte is equal to \<open>EOF\<close>, and the same block is read again and again.\<close>

lemma eof_index_none: "n \<le> length buf \<Longrightarrow> eof_index buf i n = Some None"
proof (induction buf i n rule: eof_index.induct)
  case (3 b buf i n)
  have "uint b \<noteq> EOF" using uint_ge_0 [of b] unfolding EOF_def by linarith
  then show ?case using 3 by simp
qed auto

lemma search_never_ends:
  assumes st: "block_store rd wr bs n dinv dcontent" and n: "0 < n" "bs < 2 ^ 31" and nz: "0 < nblocks"
    and i: "dinv s" "length buf = bs"
  shows "search_eof rd bsz nblocks 0 buf s = None"
proof -
  define good where "good r l b f t \<longleftrightarrow> r = rd \<and> l = nblocks \<and> b = 0 \<and> dinv t \<and> length f = bs"
    for r l and b :: u32 and f :: bytes and t
  have no: "\<not> good r l b f t" if "search_eof r z l b f t = Some y" for r z l b f t y
  proof (rule search_eof.raw_induct [OF _ that, where P = "\<lambda>r z l b f t y. \<not> good r l b f t"])
    fix search r z l b f t y
    assume IH: "\<And>r z l b f t y. search r z l b f t = Some y \<Longrightarrow> \<not> good r l b f t"
      and body: "(if b < l then do { (ret, f', t') \<leftarrow> r f b t;
          let bytes_read = (word_of_int ret :: u32);
          if bytes_read = 0 then Some (3, t')
          else do { found \<leftarrow> eof_index f' 0 (unat bytes_read);
            (case found of None \<Rightarrow> search r z l b f' t' | Some i \<Rightarrow> Some (sint (b * z + of_nat i), t')) } }
        else Some (3, t)) = Some y"
    show "\<not> good r l b f t"
    proof
      assume "good r l b f t"
      then have eq: "r = rd" "l = nblocks" "b = 0" and a: "dinv t" "length f = bs" by (auto simp: good_def)
      have pos: "0 < bs" by (rule block_store.bsize_pos [OF st a(1)])
      obtain t' where t': "rd f 0 t = Some (int bs, dcontent t 0, t')" "dinv t'"
        using block_store.read_ok [OF st, of t 1 f 0] a n by (auto simp: load_blocks_def)
      have l0: "length (dcontent t 0) = bs" by (rule block_store.length_content [OF st a(1) n(1)])
      have u: "unat (of_nat bs :: u32) = bs" using n(2) by (simp add: word_nat_simps)
      then have "(of_nat bs :: u32) \<noteq> 0" using pos by auto
      then have "search rd z nblocks 0 (dcontent t 0) t' = Some y"
        using body t'(1) nz eof_index_none [of bs "dcontent t 0" 0] l0 u unfolding eq by simp
      from IH [OF this] t'(2) l0 show False by (simp add: good_def)
    qed
  qed
  have "good rd nblocks 0 buf s" using i by (simp add: good_def)
  then show ?thesis using no by (cases "search_eof rd bsz nblocks 0 buf s") auto
qed

text \<open>C36: Opening a file that exists in append mode never returns: no byte is equal to \<open>EOF\<close>, and the search
  for the mark reads the same block again and again.\<close>

theorem nofs_append_never_returns:
  assumes "nofs_ok fs nb n dinv dcontent w" and "0 < nb" and "3 \<le> unat (nofs_block_size fs)"
    and "has_bom (dcontent (dev_state w) 0)" and "fs_interpret_mode md AND VFS_MODE_APPEND \<noteq> 0"
    and "num_blocks (nofs_parent fs) \<noteq> 0"
  shows "fs_fopen (nofs_ops junk fs) None md w = None"
proof -
  let ?bs = "unat (nofs_block_size fs)"
  have ok0: "nofs_ok fs nb n dinv dcontent (w\<lparr>errno_of := None\<rparr>)" using assms(1) by (auto simp: nofs_ok_def)
  obtain w1 where w1: "block_read (lift_dev (nofs_parent fs)) (malloc_bytes junk ?bs) 0 (w\<lparr>errno_of := None\<rparr>)
      = Some (nofs_block_size fs, dcontent (dev_state w) 0, w1)" "nofs_ok fs nb n dinv dcontent w1"
    using nofs_block_read [OF ok0 assms(2), of "malloc_bytes junk ?bs"] by auto
  obtain rd wr where rd: "dev_read (nofs_parent fs) = Some rd" and st: "block_store rd wr ?bs n dinv dcontent"
    and i: "dinv (dev_state w1)" "nb \<le> n" "nofs_block_size fs = block_size (nofs_parent fs)" "Suc nb * ?bs < 2 ^ 31"
    using w1(2) by (auto simp: nofs_ok_def)
  have "?bs < 2 ^ 31" using i(4) by simp
  then have "search_eof (lift_read rd) (nofs_block_size fs) (num_blocks (nofs_parent fs)) 0 (malloc_bytes junk ?bs) w1 = None"
    using search_never_ends [OF lift_store [OF st]] assms(2,6) i(1,2) by (simp add: word_gt_0)
  then show ?thesis
    using w1(1) rd assms(3-6) i(3) by (simp add: nofs_ops_def nofs_fopen_def Let_def lift_dev_def)
qed

definition demo_nofs_sized :: "bytes list nofs_fs" where
  "demo_nofs_sized = \<lparr>nofs_ident = 1, nofs_parent = (ram_dev 32)\<lparr>num_blocks := 1\<rparr>, nofs_block_size = 32\<rparr>"

definition demo_bom :: bytes where
  "demo_bom = [0xef, 0xbb, 0xbf, 72, 105] @ replicate 27 0"

theorem nofs_append_never_returns_witness:
  "fs_fopen (nofs_ops (\<lambda>_. 0) demo_nofs_sized) None ''a+'' \<lparr>errno_of = None, dev_state = [demo_bom]\<rparr> = None"
proof (rule nofs_append_never_returns)
  show "nofs_ok demo_nofs_sized 1 1 (ram_ok 32 1) (!) \<lparr>errno_of = None, dev_state = [demo_bom]\<rparr>"
    using ram.block_store_axioms [of 32 1]
    by (auto simp: nofs_ok_def demo_nofs_sized_def ram_dev_def ram_ok_def demo_bom_def)
qed (simp_all add: demo_nofs_sized_def ram_dev_def demo_bom_def has_bom_def UTF_BOM_1_def UTF_BOM_2_def UTF_BOM_3_def
       fs_interpret_mode_def vfs_consts)

text \<open>A file that was written is empty when it is opened again without append: its length is set to the
  position behind the byte order mark, so \<open>mb_fsize\<close> gives 0 and \<open>mb_fread\<close> reads nothing, whatever the
  device holds.\<close>

theorem nofs_reopened_is_empty:
  assumes "nofs_ok fs nb n dinv dcontent w" and "0 < nb" and "4 \<le> unat (nofs_block_size fs)"
    and "has_bom (dcontent (dev_state w) 0)" and "fs_interpret_mode md AND VFS_MODE_APPEND = 0"
  shows "\<exists>f w1. fs_fopen (nofs_ops junk fs) None md w = Some (Some f, w1)
    \<and> nofs_image nb dcontent w1 = nofs_image nb dcontent w
    \<and> mb_fsize (nofs_ops junk fs) (Stream f) w1 = Some (0, w1)
    \<and> (\<exists>f' w2. mb_fread (nofs_ops junk fs) buf 1 k (Stream f) w1 = Some (0, buf, Stream f', w2))"
proof -
  let ?bs = "unat (nofs_block_size fs)" and ?f = "nofs_stream fs (fs_interpret_mode md) 3"
  have ok0: "nofs_ok fs nb n dinv dcontent (w\<lparr>errno_of := None\<rparr>)" using assms(1) by (auto simp: nofs_ok_def)
  obtain w1 where w1: "block_read (lift_dev (nofs_parent fs)) (malloc_bytes junk ?bs) 0 (w\<lparr>errno_of := None\<rparr>)
      = Some (nofs_block_size fs, dcontent (dev_state w) 0, w1)" "nofs_ok fs nb n dinv dcontent w1"
    "dcontent (dev_state w1) = dcontent (dev_state w)"
    using nofs_block_read [OF ok0 assms(2), of "malloc_bytes junk ?bs"] by auto
  have op: "nofs_fopen junk fs md w = Some (Some ?f, w1)"
    using w1(1) assms(3-5) by (simp add: nofs_fopen_def Let_def)
  have st: "pos ?f = 3" "len ?f = 3" by (simp_all add: nofs_stream_def)
  have "1 * 4 \<le> nb * ?bs" using assms(2,3) by (intro mult_mono) auto
  then have l: "nat (len ?f) < nb * ?bs" using st by simp
  obtain f' w2 where r: "nofs_fread junk fs buf 0 ?f w1 = Some (0, buf, f', w2)"
    using nofs_fread_ok [OF w1(2) _ _ _ l, of 0 buf junk] st by (auto simp: splice_def)
  have "mb_fread (nofs_ops junk fs) buf 1 k (Stream ?f) w1 = Some (0, buf, Stream f', w2)"
    using r st by (cases "k = 0") (simp_all add: mb_fread_def nofs_ops_def Let_def word_gt_0)
  then show ?thesis
    using op w1(3) st by (intro exI [of _ ?f] exI [of _ w1])
      (auto simp: nofs_ops_def mb_fsize_def nofs_fsize_def long_add_def nofs_image_def)
qed

theorem nofs_reopened_is_empty_witness:
  "\<exists>f w1. fs_fopen (nofs_ops (\<lambda>_. 0) demo_nofs) None ''r'' \<lparr>errno_of = None, dev_state = [demo_bom]\<rparr> = Some (Some f, w1)
    \<and> mb_fsize (nofs_ops (\<lambda>_. 0) demo_nofs) (Stream f) w1 = Some (0, w1)"
  using nofs_reopened_is_empty [OF demo_nofs_ok, of demo_bom None "''r''" "\<lambda>_. 0" "[]" 0]
  by (auto simp: demo_nofs_def demo_bom_def has_bom_def UTF_BOM_1_def UTF_BOM_2_def UTF_BOM_3_def
      fs_interpret_mode_def vfs_consts)

end
