(* ===== verification/Ext2.thy ===== *)
theory Ext2
  imports Vfs
begin

text \<open>
  The ext2 file system (\<open>rboot/ext2.c\<close>): the superblock (\<open>ext2_init\<close>), inodes, the tree of
  indirect blocks (\<open>get_block_no_from_inode\<close>), directories and the file operations. An inode is its
  128 bytes, read at the offsets of \<open>struct ext2_inode\<close>; the descriptor table is the bytes at
  \<open>bgdt\<close>, with 32 bytes for each \<open>struct ext2_bgd\<close>. A stream's \<open>opaque\<close> is the number of the inode.

  The main results are that the block numbers are those of the tree of indirect blocks, and what
  \<open>ext2_fread\<close> does with them.
\<close>

section \<open>Structures\<close>

record 's ext2_fs =
  e2_ident :: nat
  e2_parent :: "'s block_device"
  e2_block_size :: u32
  total_inodes :: u32
  total_blocks :: u32
  inode_size :: u32
  inodes_per_group :: u32
  blocks_per_group :: u32
  total_groups :: u32
  major_version :: int
  minor_version :: int
  pointers_per_indirect_block :: u32
  pointers_per_indirect_block_2 :: u32
  pointers_per_indirect_block_3 :: u32
  type_flags_used :: bool
  bgdt :: bytes

definition sizeof_ext2_inode :: nat where "sizeof_ext2_inode = 128"
definition sizeof_ext2_bgd :: nat where "sizeof_ext2_bgd = 32"

definition i_type_permissions :: "bytes \<Rightarrow> u16" where "i_type_permissions i = read_halfword i 0"
definition i_size :: "bytes \<Rightarrow> u32" where "i_size i = read_word i 4"
definition i_db :: "bytes \<Rightarrow> nat \<Rightarrow> u32" where "i_db i k = read_word i (40 + 4 * k)"
definition i_sibp :: "bytes \<Rightarrow> u32" where "i_sibp i = read_word i 88"
definition i_dibp :: "bytes \<Rightarrow> u32" where "i_dibp i = read_word i 92"
definition i_tibp :: "bytes \<Rightarrow> u32" where "i_tibp i = read_word i 96"

definition bgd_inode_table :: "bytes \<Rightarrow> nat \<Rightarrow> u32" where
  "bgd_inode_table tab k = read_word tab (sizeof_ext2_bgd * k + 8)"

section \<open>Blocks\<close>

definition get_sector_num :: "'s ext2_fs \<Rightarrow> u32 \<Rightarrow> u32 option" where
  "get_sector_num fs block_no =
     (if block_size (e2_parent fs) = 0 then None
      else Some (block_no * e2_block_size fs div block_size (e2_parent fs)))"

text \<open>The result is a null pointer or the block.\<close>

definition read_block :: "(nat \<Rightarrow> u8) \<Rightarrow> 's ext2_fs \<Rightarrow> u32 \<Rightarrow> 's \<Rightarrow> (bytes option \<times> 's) option" where
  "read_block junk fs block_no s = do {
     sector \<leftarrow> get_sector_num fs block_no;
     (r, ret, s') \<leftarrow> block_read (e2_parent fs) (malloc_bytes junk (unat (e2_block_size fs))) sector s;
     Some (if sint r < 0 then None else Some ret, s')
   }"

text \<open>Reading one pointer of an indirect block; a null result makes the caller return \<open>0\<close>.\<close>

definition load_pointer ::
  "(nat \<Rightarrow> u8) \<Rightarrow> 's ext2_fs \<Rightarrow> u32 \<Rightarrow> u32 \<Rightarrow> 's \<Rightarrow> (u32 option \<times> 's) option" where
  "load_pointer junk fs block_no index s = do {
     (blk, s') \<leftarrow> read_block junk fs block_no s;
     (case blk of
        None \<Rightarrow> Some (None, s')
      | Some b \<Rightarrow> if 4 * unat index + 4 > length b then None
                  else Some (Some (read_word b (4 * unat index)), s'))
   }"

text \<open>The next level, if there was one to follow.\<close>

definition follow ::
  "(nat \<Rightarrow> u8) \<Rightarrow> 's ext2_fs \<Rightarrow> u32 \<Rightarrow> u32 option \<times> 's \<Rightarrow> (u32 option \<times> 's) option" where
  "follow junk fs index bs =
     (case bs of (None, s) \<Rightarrow> Some (None, s) | (Some b, s) \<Rightarrow> load_pointer junk fs b index s)"

definition or_zero :: "u32 option \<times> 's \<Rightarrow> u32 \<times> 's" where
  "or_zero bs = (case bs of (None, s) \<Rightarrow> (0, s) | (Some b, s) \<Rightarrow> (b, s))"

definition get_block_no_from_inode ::
  "(nat \<Rightarrow> u8) \<Rightarrow> 's ext2_fs \<Rightarrow> bytes \<Rightarrow> u32 \<Rightarrow> bool \<Rightarrow> 's \<Rightarrow> (u32 \<times> 's) option" where
  "get_block_no_from_inode junk fs i index add_blocks s =
     (let p = pointers_per_indirect_block fs; p2 = pointers_per_indirect_block_2 fs;
          p3 = pointers_per_indirect_block_3 fs in
      if index < 12 then Some (i_db i (unat index), s)
      else
        (let index = index - 12 in
         if index < p then map_option or_zero (load_pointer junk fs (i_sibp i) index s)
         else
           (let index = index - p in
            if index < p2 then
              (if p = 0 then None
               else do {
                 sib \<leftarrow> load_pointer junk fs (i_dibp i) (index div p) s;
                 map_option or_zero (follow junk fs (index mod p) sib)
               })
            else
              (let index = index - p2 in
               if index < p3 then
                 (if p = 0 \<or> p2 = 0 then None
                  else do {
                    dib \<leftarrow> load_pointer junk fs (i_tibp i) (index div p2) s;
                    sib \<leftarrow> follow junk fs (index mod p2 div p) dib;
                    map_option or_zero (follow junk fs (index mod p2 mod p) sib)
                  })
               else Some (0, s)))))"

section \<open>Inodes\<close>

definition ext2_read_inode ::
  "(nat \<Rightarrow> u8) \<Rightarrow> 's ext2_fs \<Rightarrow> u32 \<Rightarrow> 's \<Rightarrow> (bytes option \<times> 's) option" where
  "ext2_read_inode junk fs inode_idx s =
     (let idx = inode_idx - 1 in
      if inodes_per_group fs = 0 \<or> inode_size fs = 0 then None
      else
        (let group = unat (idx div inodes_per_group fs);
             offset = idx mod inodes_per_group fs;
             inodes_per_block = e2_block_size fs div inode_size fs in
         if inodes_per_block = 0 \<or> sizeof_ext2_bgd * group + sizeof_ext2_bgd > length (bgdt fs) then None
         else do {
           (itable, s') \<leftarrow> read_block junk fs
             (bgd_inode_table (bgdt fs) group + offset div inodes_per_block) s;
           (case itable of
              None \<Rightarrow> Some (None, s')
            | Some tab \<Rightarrow>
                (let at = unat (offset mod inodes_per_block * inode_size fs) in
                 if at + sizeof_ext2_inode > length tab then None
                 else Some (Some (slice tab at sizeof_ext2_inode), s')))
         }))"

section \<open>ext2_init\<close>

text \<open>\<open>1024 << n\<close> is defined as long as it fits the signed integer.\<close>

definition ext2_groups :: "u32 \<Rightarrow> u32 \<Rightarrow> u32" where
  "ext2_groups n per_group =
     (if n mod per_group \<noteq> 0 then n div per_group + 1 else n div per_group)"

definition ext2_fields :: "nat \<Rightarrow> 's block_device \<Rightarrow> bytes \<Rightarrow> 's ext2_fs" where
  "ext2_fields ident parent sb =
     (let bs = push_bit (unat (read_word sb 24)) 1024;
          major = sint (read_word sb 76);
          p = bs div 4 in
      \<lparr>e2_ident = ident, e2_parent = parent, e2_block_size = bs,
       total_inodes = read_word sb 0, total_blocks = read_word sb 4,
       inode_size = (if major \<ge> 1 then ucast (read_halfword sb 88) else 128),
       inodes_per_group = read_word sb 40, blocks_per_group = read_word sb 32,
       total_groups = ext2_groups (read_word sb 0) (read_word sb 40),
       major_version = major, minor_version = sint (read_halfword sb 62),
       pointers_per_indirect_block = p, pointers_per_indirect_block_2 = p * p,
       pointers_per_indirect_block_3 = p * p * p,
       type_flags_used = (major \<ge> 1 \<and> read_word sb 96 AND 0x2 \<noteq> 0), bgdt = []\<rparr>)"

definition bgdt_bytes :: "'s ext2_fs \<Rightarrow> u32" where
  "bgdt_bytes fs =
     (let n = total_groups fs * of_nat sizeof_ext2_bgd; bs = e2_block_size fs in
      if n mod bs \<noteq> 0 then (n div bs + 1) * bs else n)"

definition ext2_init ::
  "nat \<Rightarrow> (nat \<Rightarrow> u8) \<Rightarrow> 's block_device \<Rightarrow> 's \<Rightarrow> (int \<times> 's ext2_fs option \<times> 's) option" where
  "ext2_init ident junk parent s =
     (if block_size parent = 0 then None
      else do {
        (r, sb, s') \<leftarrow> block_read parent (malloc_bytes junk 1024) (1024 div block_size parent) s;
        if sint r < 0 then Some (sint r, None, s')
        else if r \<noteq> 1024 then Some (-1, None, s')
        else if read_halfword sb 56 \<noteq> 0xef53 then Some (-1, None, s')
        else if read_word sb 24 > 20 \<or> read_word sb 40 = 0 \<or> read_word sb 32 = 0 then None
        else
          (let ret = ext2_fields ident parent sb in
           if total_groups ret \<noteq> ext2_groups (total_blocks ret) (blocks_per_group ret)
           then Some (-1, None, s')
           else do {
             sector \<leftarrow> get_sector_num ret (if e2_block_size ret = 1024 then 2 else 1);
             (_, tab, s'') \<leftarrow> block_read parent (malloc_bytes junk (unat (bgdt_bytes ret))) sector s';
             Some (0, Some (ret\<lparr>bgdt := tab\<rparr>), s'')
           })
      })"

section \<open>Files\<close>

definition ext2_fopen ::
  "(nat \<Rightarrow> u8) \<Rightarrow> 's ext2_fs \<Rightarrow> u32 mb_dirent \<Rightarrow> string \<Rightarrow> 's world \<Rightarrow>
   (u32 mb_file option \<times> 's world) option" where
  "ext2_fopen junk fs path m w =
     (if e2_ident fs \<noteq> de_fs path then Some (None, w\<lparr>errno_of := Some EFAULT\<rparr>)
      else if m \<noteq> ''r'' then Some (None, w\<lparr>errno_of := Some EROFS\<rparr>)
      else do {
        (inode, s') \<leftarrow> ext2_read_inode junk fs (de_opaque path) (dev_state w);
        (case inode of
           None \<Rightarrow> None
         | Some i \<Rightarrow> Some (Some \<lparr>file_fs = e2_ident fs, pos = 0, mode = 0, opaque = de_opaque path,
                               len = sint (i_size i), flags = 0\<rparr>, w\<lparr>dev_state := s'\<rparr>))
      })"

text \<open>The argument of the callback is the inode, or null.\<close>

definition ext2_get_next_bdev_block_num ::
  "(nat \<Rightarrow> u8) \<Rightarrow> 's ext2_fs \<Rightarrow> (u32, bytes option, 's) get_next" where
  "ext2_get_next_bdev_block_num junk fs f_block_idx f inode add_blocks s =
     (case inode of
        None \<Rightarrow> None
      | Some i \<Rightarrow> do {
          (b, s') \<leftarrow> get_block_no_from_inode junk fs i f_block_idx add_blocks s;
          Some (b, f, inode, s')
        })"

definition ext2_fread ::
  "(nat \<Rightarrow> u8) \<Rightarrow> 's ext2_fs \<Rightarrow> bytes \<Rightarrow> u32 \<Rightarrow> u32 mb_file \<Rightarrow> 's \<Rightarrow>
   (u32 \<times> bytes \<times> u32 mb_file \<times> 's) option" where
  "ext2_fread junk fs ptr nbytes stream s =
     (if file_fs stream \<noteq> e2_ident fs then Some (-1, ptr, stream, s)
      else if opaque stream = 0 then Some (-1, ptr, stream, s)
      else do {
        (inode, s1) \<leftarrow> ext2_read_inode junk fs (opaque stream) s;
        (n, buf, f, _, s') \<leftarrow> fs_fread (ext2_get_next_bdev_block_num junk fs) (e2_parent fs)
          (e2_block_size fs) junk ptr nbytes stream inode s1;
        Some (n, buf, f, s')
      })"

definition ext2_fclose :: "'s ext2_fs \<Rightarrow> u32 mb_file \<Rightarrow> int" where
  "ext2_fclose fs fp = 0"

section \<open>Directories\<close>

text \<open>
  The list under construction: a node is \<^term>\<open>None\<close> after \<open>free(de)\<close>. The last node is \<open>prev\<close>, so a new
  entry after a freed one writes to freed memory, which is \<^term>\<open>None\<close>; so is following a freed node.
\<close>

type_synonym de_nodes = "u32 mb_dirent option list"

definition prev_freed :: "de_nodes \<Rightarrow> bool" where
  "prev_freed nodes \<longleftrightarrow> nodes \<noteq> [] \<and> List.last nodes = None"

definition c_string :: "bytes \<Rightarrow> string" where
  "c_string bs = map (\<lambda>c. char_of (unat c)) (takeWhile (\<lambda>c. c \<noteq> 0) bs)"

text \<open>The name of the entry at \<open>ptr\<close>; \<^term>\<open>None\<close> when it leaves the block.\<close>

definition ext2_entry_name :: "'s ext2_fs \<Rightarrow> bytes \<Rightarrow> nat \<Rightarrow> string option" where
  "ext2_entry_name fs block ptr =
     (let n = ucast (read_halfword block (ptr + 6)) :: u32;
          n = unat (if type_flags_used fs then n AND 0xff else n)
      in if ptr + 8 + n > length block then None else Some (c_string (slice block (ptr + 8) n)))"

definition ext2_entry_is_dir ::
  "(nat \<Rightarrow> u8) \<Rightarrow> 's ext2_fs \<Rightarrow> bytes \<Rightarrow> nat \<Rightarrow> 's \<Rightarrow> (bool \<times> 's) option" where
  "ext2_entry_is_dir junk fs block ptr s =
     (if type_flags_used fs then Some (block ! (ptr + 7) = 2, s)
      else do {
        (inode, s') \<leftarrow> ext2_read_inode junk fs (read_word block ptr) s;
        (case inode of
           None \<Rightarrow> None
         | Some i \<Rightarrow> Some (i_type_permissions i AND 0x2000 \<noteq> 0, s'))
      })"

partial_function (option) ext2_entries ::
  "(nat \<Rightarrow> u8) \<Rightarrow> 's ext2_fs \<Rightarrow> bytes \<Rightarrow> nat \<Rightarrow> nat \<Rightarrow> de_nodes \<Rightarrow> 's \<Rightarrow> (de_nodes \<times> 's) option" where
  "ext2_entries junk fs block total_block_size ptr nodes s =
     (if ptr < total_block_size then
        (if ptr + 8 > length block then None
         else
           (let next = ptr + unat (read_halfword block (ptr + 4)) in
            if read_word block ptr = 0 then ext2_entries junk fs block total_block_size next nodes s
            else if prev_freed nodes then None
            else do {
              name \<leftarrow> ext2_entry_name fs block ptr;
              if name = ''.'' \<or> name = ''..'' \<or> name = ''lost+found''
              then ext2_entries junk fs block total_block_size next (nodes @ [None]) s
              else do {
                (d, s') \<leftarrow> ext2_entry_is_dir junk fs block ptr s;
                ext2_entries junk fs block total_block_size next
                  (nodes @ [Some \<lparr>de_name = name, de_byte_size = 0, is_dir = d,
                     de_opaque = read_word block ptr, de_fs = e2_ident fs\<rparr>]) s'
              }
            }))
      else Some (nodes, s))"

definition dir_total_blocks :: "'s ext2_fs \<Rightarrow> bytes \<Rightarrow> u32" where
  "dir_total_blocks fs inode =
     (if i_size inode mod e2_block_size fs \<noteq> 0 then i_size inode div e2_block_size fs + 1
      else i_size inode div e2_block_size fs)"

text \<open>The last block is read only in part when the size is not a multiple of the block size.\<close>

definition dir_block_size :: "'s ext2_fs \<Rightarrow> bytes \<Rightarrow> u32 \<Rightarrow> nat" where
  "dir_block_size fs inode cur_block_idx =
     unat (if cur_block_idx = dir_total_blocks fs inode - 1 \<and> i_size inode mod e2_block_size fs \<noteq> 0
           then i_size inode mod e2_block_size fs else e2_block_size fs)"

partial_function (option) ext2_dir_loop ::
  "(nat \<Rightarrow> u8) \<Rightarrow> 's ext2_fs \<Rightarrow> bytes \<Rightarrow> u32 \<Rightarrow> de_nodes \<Rightarrow> 's \<Rightarrow> (de_nodes \<times> 's) option" where
  "ext2_dir_loop junk fs inode cur_block_idx nodes s =
     (if cur_block_idx < dir_total_blocks fs inode then
        do {
          (block_no, s1) \<leftarrow> get_block_no_from_inode junk fs inode cur_block_idx False s;
          (block, s2) \<leftarrow> read_block junk fs block_no s1;
          (case block of
             None \<Rightarrow> None
           | Some b \<Rightarrow> do {
               (nodes', s3) \<leftarrow> ext2_entries junk fs b (dir_block_size fs inode cur_block_idx) 0 nodes s2;
               ext2_dir_loop junk fs inode (cur_block_idx + 1) nodes' s3
             })
        }
      else Some (nodes, s))"

definition ext2_read_dir ::
  "(nat \<Rightarrow> u8) \<Rightarrow> 's ext2_fs \<Rightarrow> u32 mb_dirent option \<Rightarrow> 's \<Rightarrow> (de_nodes \<times> 's) option" where
  "ext2_read_dir junk fs d s =
     (if e2_block_size fs = 0 then None
      else do {
        (inode, s1) \<leftarrow> ext2_read_inode junk fs (case d of None \<Rightarrow> 2 | Some de \<Rightarrow> de_opaque de) s;
        (case inode of None \<Rightarrow> None | Some i \<Rightarrow> ext2_dir_loop junk fs i 0 [] s1)
      })"

primrec ext2_find :: "string \<Rightarrow> de_nodes \<Rightarrow> u32 mb_dirent option option" where
  "ext2_find name [] = Some None"
| "ext2_find name (d # ds) =
     (case d of None \<Rightarrow> None
      | Some de \<Rightarrow> if de_name de = name then Some (Some de) else ext2_find name ds)"

primrec ext2_walk_path ::
  "(nat \<Rightarrow> u8) \<Rightarrow> 's ext2_fs \<Rightarrow> string list \<Rightarrow> de_nodes \<Rightarrow> 's world \<Rightarrow> (de_nodes \<times> 's world) option" where
  "ext2_walk_path junk fs [] cur_dir w = Some (cur_dir, w)"
| "ext2_walk_path junk fs (name # names) cur_dir w = do {
     found \<leftarrow> ext2_find name cur_dir;
     (case found of
        None \<Rightarrow> Some ([], w\<lparr>errno_of := Some ENOENT\<rparr>)
      | Some d \<Rightarrow>
          if \<not> is_dir d then Some ([], w\<lparr>errno_of := Some ENOTDIR\<rparr>)
          else do {
            (sub, s') \<leftarrow> ext2_read_dir junk fs (Some d) (dev_state w);
            ext2_walk_path junk fs names sub (w\<lparr>dev_state := s'\<rparr>)
          })
   }"

text \<open>The caller gets the list; a freed node in it is undefined.\<close>

definition ext2_read_directory ::
  "(nat \<Rightarrow> u8) \<Rightarrow> 's ext2_fs \<Rightarrow> string list \<Rightarrow> 's world \<Rightarrow> (u32 mb_dirent list \<times> 's world) option" where
  "ext2_read_directory junk fs name w = do {
     (root, s') \<leftarrow> ext2_read_dir junk fs None (dev_state w);
     (nodes, w') \<leftarrow> ext2_walk_path junk fs name root (w\<lparr>dev_state := s'\<rparr>);
     (if None \<in> set nodes then None else Some (map the nodes, w'))
   }"

definition ext2_ops :: "(nat \<Rightarrow> u8) \<Rightarrow> 's ext2_fs \<Rightarrow> (u32, 's) fs" where
  "ext2_ops junk e2 =
     \<lparr>fs_ident = e2_ident e2, fs_parent = Some (e2_parent e2), fs_name = ''ext2'', fs_flags = 0,
      fs_fopen = (\<lambda>path m w. case path of None \<Rightarrow> None | Some de \<Rightarrow> ext2_fopen junk e2 de m w),
      fs_fread_fn = (\<lambda>ptr n f w. do {
        (r, buf, f', s') \<leftarrow> ext2_fread junk e2 ptr n f (dev_state w);
        Some (r, buf, f', w\<lparr>dev_state := s'\<rparr>) }),
      fs_fwrite_fn = None,
      fs_fclose_fn = Some (\<lambda>f w. Some (ext2_fclose e2 f, w)),
      fs_fsize_fn = None, fs_fseek_fn = None, fs_ftell_fn = None, fs_fflush_fn = None,
      fs_read_directory = ext2_read_directory junk e2\<rparr>"

section \<open>The tree of indirect blocks\<close>

text \<open>The blocks of a file system over a device of \<open>n\<close> blocks of \<open>D\<close> bytes with the contents \<open>C\<close>.\<close>

definition sectors_per_block :: "'s ext2_fs \<Rightarrow> nat \<Rightarrow> nat" where
  "sectors_per_block fs D = unat (e2_block_size fs) div D"

definition e2_block :: "'s ext2_fs \<Rightarrow> nat \<Rightarrow> (nat \<Rightarrow> bytes) \<Rightarrow> u32 \<Rightarrow> bytes" where
  "e2_block fs D C b = load_blocks C (unat b * sectors_per_block fs D) (sectors_per_block fs D)"

definition e2_inside :: "'s ext2_fs \<Rightarrow> nat \<Rightarrow> nat \<Rightarrow> u32 \<Rightarrow> bool" where
  "e2_inside fs D n b \<longleftrightarrow> unat b * unat (e2_block_size fs) < 2 ^ 32 \<and>
     unat b * sectors_per_block fs D + sectors_per_block fs D \<le> n"

definition e2_pointers :: "'s ext2_fs \<Rightarrow> nat \<Rightarrow> (nat \<Rightarrow> bytes) \<Rightarrow> u32 \<Rightarrow> u32 list" where
  "e2_pointers fs D C b =
     map (\<lambda>k. read_word (e2_block fs D C b) (4 * k)) [0..<unat (pointers_per_indirect_block fs)]"

text \<open>The data blocks below an indirect block of a level, and that its tables lie inside the device.\<close>

primrec tree_blocks :: "'s ext2_fs \<Rightarrow> nat \<Rightarrow> (nat \<Rightarrow> bytes) \<Rightarrow> nat \<Rightarrow> u32 \<Rightarrow> u32 list" where
  "tree_blocks fs D C 0 b = [b]"
| "tree_blocks fs D C (Suc lv) b = concat (map (tree_blocks fs D C lv) (e2_pointers fs D C b))"

primrec tree_inside :: "'s ext2_fs \<Rightarrow> nat \<Rightarrow> nat \<Rightarrow> (nat \<Rightarrow> bytes) \<Rightarrow> nat \<Rightarrow> u32 \<Rightarrow> bool" where
  "tree_inside fs D n C 0 b = True"
| "tree_inside fs D n C (Suc lv) b \<longleftrightarrow> e2_inside fs D n b \<and>
     (\<forall>x \<in> set (e2_pointers fs D C b). tree_inside fs D n C lv x)"

definition inode_blocks :: "'s ext2_fs \<Rightarrow> nat \<Rightarrow> (nat \<Rightarrow> bytes) \<Rightarrow> bytes \<Rightarrow> u32 list" where
  "inode_blocks fs D C i = map (i_db i) [0..<12] @ tree_blocks fs D C 1 (i_sibp i)
     @ tree_blocks fs D C 2 (i_dibp i) @ tree_blocks fs D C 3 (i_tibp i)"

definition inode_inside :: "'s ext2_fs \<Rightarrow> nat \<Rightarrow> nat \<Rightarrow> (nat \<Rightarrow> bytes) \<Rightarrow> bytes \<Rightarrow> bool" where
  "inode_inside fs D n C i \<longleftrightarrow> tree_inside fs D n C 1 (i_sibp i) \<and> tree_inside fs D n C 2 (i_dibp i)
     \<and> tree_inside fs D n C 3 (i_tibp i)"

text \<open>The geometry that \<open>ext2_init\<close> computes, over a device that stores blocks.\<close>

definition e2_ok ::
  "'s ext2_fs \<Rightarrow> nat \<Rightarrow> nat \<Rightarrow> ('s \<Rightarrow> bool) \<Rightarrow> ('s \<Rightarrow> nat \<Rightarrow> bytes) \<Rightarrow> (nat \<Rightarrow> bytes) \<Rightarrow> 's \<Rightarrow> bool" where
  "e2_ok fs D n dinv dcontent C s \<longleftrightarrow>
     (\<exists>rd wr. dev_read (e2_parent fs) = Some rd \<and> block_store rd wr D n dinv dcontent) \<and>
     unat (block_size (e2_parent fs)) = D \<and> 0 < sectors_per_block fs D \<and>
     unat (e2_block_size fs) = sectors_per_block fs D * D \<and> unat (e2_block_size fs) \<le> 4096 \<and>
     unat (e2_block_size fs) = 4 * unat (pointers_per_indirect_block fs) \<and>
     pointers_per_indirect_block_2 fs = pointers_per_indirect_block fs * pointers_per_indirect_block fs \<and>
     pointers_per_indirect_block_3 fs
       = pointers_per_indirect_block fs * pointers_per_indirect_block fs * pointers_per_indirect_block fs \<and>
     dinv s \<and> dcontent s = C"

lemma e2_length_block:
  assumes ok: "e2_ok fs D n dinv dcontent C s" and "e2_inside fs D n b"
  shows "length (e2_block fs D C b) = unat (e2_block_size fs)"
proof -
  obtain rd wr where "block_store rd wr D n dinv dcontent" "dinv s" "dcontent s = C"
    using ok by (auto simp: e2_ok_def)
  then have "length (C j) = D" if "j < n" for j
    using block_store.length_content that by fastforce
  then have "length (e2_block fs D C b) = sectors_per_block fs D * D"
    unfolding e2_block_def using assms(2) by (intro length_load_blocks) (auto simp: e2_inside_def)
  then show ?thesis using ok by (simp add: e2_ok_def)
qed

text \<open>Reading whole blocks of the device, at any sector.\<close>

lemma e2_read_sectors:
  assumes ok: "e2_ok fs D n dinv dcontent C s" and "length buf = unat (e2_block_size fs)"
    and "unat b + sectors_per_block fs D \<le> n"
  shows "\<exists>s'. block_read (e2_parent fs) buf b s = Some (of_nat (unat (e2_block_size fs)),
      load_blocks C (unat b) (sectors_per_block fs D), s') \<and> e2_ok fs D n dinv dcontent C s'"
proof -
  obtain rd wr where rd: "dev_read (e2_parent fs) = Some rd" "block_store rd wr D n dinv dcontent"
    and s: "dinv s" "dcontent s = C" and bs: "unat (block_size (e2_parent fs)) = D"
    and k: "0 < sectors_per_block fs D" "unat (e2_block_size fs) = sectors_per_block fs D * D"
      "unat (e2_block_size fs) \<le> 4096"
    using ok by (auto simp: e2_ok_def)
  have "sectors_per_block fs D * D < 2 ^ 31" using k by simp
  moreover have "length buf = sectors_per_block fs D * D" using assms(2) k(2) by simp
  ultimately obtain s' where s': "block_read (e2_parent fs) buf b s
      = Some (of_nat (sectors_per_block fs D * D), load_blocks (dcontent s) (unat b) (sectors_per_block fs D), s')"
      "dinv s'" "dcontent s' = dcontent s"
    using block_store.layer_read [OF rd(2,1) bs s(1) k(1) _ assms(3)] by blast
  have "e2_ok fs D n dinv dcontent C s'" using ok s(2) s'(2,3) unfolding e2_ok_def by simp
  then show ?thesis using s'(1) s(2) unfolding k(2) by blast
qed

lemma read_block_ok:
  assumes ok: "e2_ok fs D n dinv dcontent C s" and ins: "e2_inside fs D n b"
  shows "\<exists>s'. read_block junk fs b s = Some (Some (e2_block fs D C b), s')
    \<and> e2_ok fs D n dinv dcontent C s'"
proof -
  have bs: "unat (block_size (e2_parent fs)) = D" and D: "0 < D"
    and k: "unat (e2_block_size fs) = sectors_per_block fs D * D" "unat (e2_block_size fs) \<le> 4096"
      "0 < sectors_per_block fs D"
    using ok by (auto simp: e2_ok_def sectors_per_block_def intro: gr0I)
  have "unat (b * e2_block_size fs div block_size (e2_parent fs)) = unat b * unat (e2_block_size fs) div D"
    using ins bs by (simp add: unat_div unat_word_ariths e2_inside_def)
  also have "\<dots> = unat b * sectors_per_block fs D" using D by (simp add: k(1))
  finally have sec: "unat (b * e2_block_size fs div block_size (e2_parent fs)) = unat b * sectors_per_block fs D" .
  have ne: "block_size (e2_parent fs) \<noteq> 0" using bs D by auto
  have sm: "sint (e2_block_size fs) = int (unat (e2_block_size fs))" using k(2) by (intro sint_small) simp
  obtain s' where "block_read (e2_parent fs) (malloc_bytes junk (unat (e2_block_size fs)))
      (b * e2_block_size fs div block_size (e2_parent fs)) s = Some (e2_block_size fs,
      e2_block fs D C b, s')" "e2_ok fs D n dinv dcontent C s'"
    using e2_read_sectors [OF ok, of "malloc_bytes junk (unat (e2_block_size fs))"
        "b * e2_block_size fs div block_size (e2_parent fs)"] sec ins
    by (auto simp: e2_block_def e2_inside_def)
  then show ?thesis using ne sm by (simp add: read_block_def get_sector_num_def)
qed

lemma load_pointer_ok:
  assumes ok: "e2_ok fs D n dinv dcontent C s" and ins: "e2_inside fs D n b"
    and idx: "unat index < unat (pointers_per_indirect_block fs)"
  shows "\<exists>s'. load_pointer junk fs b index s = Some (Some (e2_pointers fs D C b ! unat index), s')
    \<and> e2_ok fs D n dinv dcontent C s'"
proof -
  obtain s' where "read_block junk fs b s = Some (Some (e2_block fs D C b), s')"
    "e2_ok fs D n dinv dcontent C s'" using read_block_ok [OF ok ins] by blast
  moreover have "4 * unat index + 4 \<le> length (e2_block fs D C b)"
    using e2_length_block [OF ok ins] ok idx by (simp add: e2_ok_def)
  ultimately show ?thesis using idx by (simp add: load_pointer_def e2_pointers_def)
qed

lemma length_pointers [simp]:
  "length (e2_pointers fs D C b) = unat (pointers_per_indirect_block fs)"
  by (simp add: e2_pointers_def)

lemma length_tree: "length (tree_blocks fs D C lv b) = unat (pointers_per_indirect_block fs) ^ lv"
proof (induction lv arbitrary: b)
  case (Suc lv)
  then have "\<forall>x \<in> set (map (tree_blocks fs D C lv) (e2_pointers fs D C b)).
      length x = unat (pointers_per_indirect_block fs) ^ lv" by auto
  then show ?case using length_concat_equal by fastforce
qed simp

lemma nth_tree:
  assumes "i < unat (pointers_per_indirect_block fs) ^ Suc lv"
  defines "m \<equiv> unat (pointers_per_indirect_block fs) ^ lv"
  shows "tree_blocks fs D C (Suc lv) b ! i = tree_blocks fs D C lv (e2_pointers fs D C b ! (i div m)) ! (i mod m)"
proof -
  have "\<forall>x \<in> set (map (tree_blocks fs D C lv) (e2_pointers fs D C b)). length x = m"
    using length_tree by (auto simp: m_def)
  moreover have i: "i < unat (pointers_per_indirect_block fs) * m" using assms(1) by (simp add: m_def)
  moreover have "i div m < unat (pointers_per_indirect_block fs)"
    using i by (simp add: less_mult_imp_div_less)
  ultimately show ?thesis
    using nth_concat_equal [of "map (tree_blocks fs D C lv) (e2_pointers fs D C b)" m i] by simp
qed

text \<open>The pointers followed for the three levels.\<close>

lemma nth_trees:
  defines "P \<equiv> \<lambda>fs D C b k. e2_pointers fs D C b ! k"
  shows "i < unat (pointers_per_indirect_block fs) \<Longrightarrow> tree_blocks fs D C 1 b ! i = P fs D C b i"
    and "i < unat (pointers_per_indirect_block fs) ^ 2 \<Longrightarrow> tree_blocks fs D C 2 b ! i
      = P fs D C (P fs D C b (i div unat (pointers_per_indirect_block fs)))
          (i mod unat (pointers_per_indirect_block fs))"
    and "i < unat (pointers_per_indirect_block fs) ^ 3 \<Longrightarrow> tree_blocks fs D C 3 b ! i
      = P fs D C (P fs D C (P fs D C b (i div unat (pointers_per_indirect_block fs) ^ 2))
          (i mod unat (pointers_per_indirect_block fs) ^ 2 div unat (pointers_per_indirect_block fs)))
          (i mod unat (pointers_per_indirect_block fs) ^ 2 mod unat (pointers_per_indirect_block fs))"
proof -
  let ?p = "unat (pointers_per_indirect_block fs)"
  have one: "tree_blocks fs D C (Suc 0) b ! i = P fs D C b i" if "i < ?p" for b i
    using that nth_tree [of i fs 0 D C b] by (simp add: P_def del: tree_blocks.simps(2))
  then show "i < ?p \<Longrightarrow> tree_blocks fs D C 1 b ! i = P fs D C b i" by simp
  have two: "tree_blocks fs D C (Suc (Suc 0)) b ! i = P fs D C (P fs D C b (i div ?p)) (i mod ?p)"
    if "i < ?p ^ 2" for b i
  proof -
    have "0 < ?p" using that by (auto intro: gr0I)
    then show ?thesis
      using that nth_tree [of i fs "Suc 0" D C b] one [of "i mod ?p" "P fs D C b (i div ?p)"]
      by (simp add: P_def power2_eq_square del: tree_blocks.simps(2))
  qed
  then show "i < ?p ^ 2 \<Longrightarrow> tree_blocks fs D C 2 b ! i = P fs D C (P fs D C b (i div ?p)) (i mod ?p)"
    by (simp only: numeral_2_eq_2)
  show "i < ?p ^ 3 \<Longrightarrow> tree_blocks fs D C 3 b ! i
      = P fs D C (P fs D C (P fs D C b (i div ?p ^ 2)) (i mod ?p ^ 2 div ?p)) (i mod ?p ^ 2 mod ?p)"
  proof -
    assume i: "i < ?p ^ 3"
    then have "0 < ?p" by (auto intro: gr0I)
    then have "i mod ?p ^ 2 < ?p ^ 2" by simp
    then show ?thesis
      using i nth_tree [of i fs "Suc (Suc 0)" D C b] two [of "i mod ?p ^ 2" "P fs D C b (i div ?p ^ 2)"]
      by (simp add: P_def numeral_3_eq_3 numeral_2_eq_2 del: tree_blocks.simps(2) power_Suc)
  qed
qed

lemma tree_inside_child:
  "tree_inside fs D n C (Suc lv) b \<Longrightarrow> k < unat (pointers_per_indirect_block fs) \<Longrightarrow>
   tree_inside fs D n C lv (e2_pointers fs D C b ! k)"
  by simp

text \<open>One step down the tree.\<close>

lemma descend:
  assumes "e2_ok fs D n dinv dcontent C s" and "tree_inside fs D n C (Suc lv) b"
    and "unat index < unat (pointers_per_indirect_block fs)"
  shows "\<exists>c s'. load_pointer junk fs b index s = Some (Some c, s') \<and> c = e2_pointers fs D C b ! unat index
    \<and> tree_inside fs D n C lv c \<and> e2_ok fs D n dinv dcontent C s'"
  using load_pointer_ok [OF assms(1) _ assms(3)] assms(2) tree_inside_child [OF assms(2,3)] by fastforce

lemma pointer_counts:
  assumes "e2_ok fs D n dinv dcontent C s"
  defines "p \<equiv> unat (pointers_per_indirect_block fs)"
  shows "0 < p" and "p \<le> 1024" and "unat (pointers_per_indirect_block_2 fs) = p ^ 2"
    and "unat (pointers_per_indirect_block_3 fs) = p ^ 3" and "p ^ 2 \<le> 2 ^ 20" and "p ^ 3 \<le> 2 ^ 30"
proof -
  have g: "unat (e2_block_size fs) = sectors_per_block fs D * D" "0 < sectors_per_block fs D"
    "unat (e2_block_size fs) = 4 * p" "unat (e2_block_size fs) \<le> 4096"
    using assms(1) by (simp_all add: e2_ok_def p_def)
  have "0 < unat (e2_block_size fs)" using g(2) by (auto simp: sectors_per_block_def intro: gr0I)
  then show "0 < p" using g(3) by linarith
  show p: "p \<le> 1024" using g(3,4) by simp
  have "p ^ 2 \<le> 1024 ^ 2" "p ^ 3 \<le> 1024 ^ 3" by (rule power_mono [OF p], simp)+
  then show p2: "p ^ 2 \<le> 2 ^ 20" and p3: "p ^ 3 \<le> 2 ^ 30" by simp_all
  have "pointers_per_indirect_block fs = of_nat p" by (simp add: p_def)
  then have "pointers_per_indirect_block_2 fs = of_nat (p ^ 2)"
    "pointers_per_indirect_block_3 fs = of_nat (p ^ 3)"
    using assms(1) by (simp_all add: e2_ok_def power2_eq_square power3_eq_cube)
  then show "unat (pointers_per_indirect_block_2 fs) = p ^ 2"
    "unat (pointers_per_indirect_block_3 fs) = p ^ 3"
    using p2 p3 by (simp_all add: unat_of_nat32 del: of_nat_power)
qed

text \<open>The branches of \<open>get_block_no_from_inode\<close>.\<close>

lemma get_block_single:
  assumes "\<not> x < 12" and "x - 12 = y" and "y < pointers_per_indirect_block fs"
    and "load_pointer junk fs (i_sibp i) y s = Some r"
  shows "get_block_no_from_inode junk fs i x add_blocks s = Some (or_zero r)"
  using assms by (simp add: get_block_no_from_inode_def Let_def)

lemma get_block_double:
  assumes "\<not> x < 12" and "\<not> x - 12 < pointers_per_indirect_block fs"
    and "x - 12 - pointers_per_indirect_block fs = y" and "y < pointers_per_indirect_block_2 fs"
    and "pointers_per_indirect_block fs \<noteq> 0"
    and "load_pointer junk fs (i_dibp i) (y div pointers_per_indirect_block fs) s = Some sib"
    and "follow junk fs (y mod pointers_per_indirect_block fs) sib = Some r"
  shows "get_block_no_from_inode junk fs i x add_blocks s = Some (or_zero r)"
  using assms by (simp add: get_block_no_from_inode_def Let_def)

lemma get_block_triple:
  assumes "\<not> x < 12" and "\<not> x - 12 < pointers_per_indirect_block fs"
    and "\<not> x - 12 - pointers_per_indirect_block fs < pointers_per_indirect_block_2 fs"
    and "x - 12 - pointers_per_indirect_block fs - pointers_per_indirect_block_2 fs = y"
    and "y < pointers_per_indirect_block_3 fs"
    and "pointers_per_indirect_block fs \<noteq> 0" and "pointers_per_indirect_block_2 fs \<noteq> 0"
    and "load_pointer junk fs (i_tibp i) (y div pointers_per_indirect_block_2 fs) s = Some dib"
    and "follow junk fs (y mod pointers_per_indirect_block_2 fs div pointers_per_indirect_block fs) dib
      = Some sib"
    and "follow junk fs (y mod pointers_per_indirect_block_2 fs mod pointers_per_indirect_block fs) sib
      = Some r"
  shows "get_block_no_from_inode junk fs i x add_blocks s = Some (or_zero r)"
  using assms by (simp add: get_block_no_from_inode_def Let_def)

lemma get_block_no_tree:
  assumes ok: "e2_ok fs D n dinv dcontent C s" and ind: "idx < 12 \<or> inode_inside fs D n C i"
  defines "p \<equiv> unat (pointers_per_indirect_block fs)"
  assumes idx: "idx < 12 + p + p ^ 2 + p ^ 3"
  shows "\<exists>s'. get_block_no_from_inode junk fs i (of_nat idx) add_blocks s
      = Some (inode_blocks fs D C i ! idx, s') \<and> e2_ok fs D n dinv dcontent C s'"
proof -
  note cnt = pointer_counts [OF ok, folded p_def]
  have small: "idx < 2 ^ 31" using idx cnt(2,5,6) by simp
  have ppib: "pointers_per_indirect_block fs = of_nat p" and up: "unat (of_nat p :: u32) = p"
    by (simp_all add: p_def)
  have b1: "p < 2 ^ 31" "p ^ 2 < 2 ^ 31" "p ^ 3 < 2 ^ 31" using cnt by simp_all
  have p2w: "pointers_per_indirect_block_2 fs = of_nat (p ^ 2)"
    and p3w: "pointers_per_indirect_block_3 fs = of_nat (p ^ 3)"
    using cnt(3,4) b1 by (auto intro!: unat_inj32 simp: word_nat_simps simp del: of_nat_power)
  have len: "length (tree_blocks fs D C lv b) = p ^ lv" for lv b by (simp add: length_tree p_def)
  have less: "(of_nat a < (of_nat b :: u32)) \<longleftrightarrow> a < b" if "a < 2 ^ 31" "b < 2 ^ 31" for a b
    using that by (simp add: word_less_nat_alt word_nat_simps)
  have nb: "12 \<le> idx \<Longrightarrow> idx < 12 + p \<Longrightarrow>
      inode_blocks fs D C i ! idx = tree_blocks fs D C 1 (i_sibp i) ! (idx - 12)"
    "12 + p \<le> idx \<Longrightarrow> idx < 12 + p + p ^ 2 \<Longrightarrow>
      inode_blocks fs D C i ! idx = tree_blocks fs D C 2 (i_dibp i) ! (idx - 12 - p)"
    "12 + p + p ^ 2 \<le> idx \<Longrightarrow>
      inode_blocks fs D C i ! idx = tree_blocks fs D C 3 (i_tibp i) ! (idx - 12 - p - p ^ 2)"
    by (auto simp: inode_blocks_def nth_append len simp del: tree_blocks.simps(2))
  have below: "unat (of_nat a :: u32) = a" if "a < p" for a
    using that b1(1) by (simp add: word_nat_simps)
  have w12: "(12 :: u32) = of_nat 12" by simp
  have div: "of_nat a div of_nat b = (of_nat (a div b) :: u32)"
    "of_nat a mod of_nat b = (of_nat (a mod b) :: u32)" if "a < 2 ^ 31" "b < 2 ^ 31" for a b
    using that by (simp_all add: of_nat_div32 of_nat_mod32)
  have s12: "of_nat idx - 12 = (of_nat (idx - 12) :: u32)" "\<not> (of_nat idx :: u32) < 12" if "12 \<le> idx"
    using that small unfolding w12 by (simp_all add: less del: of_nat_numeral)
  have sp: "of_nat (idx - 12) - of_nat p = (of_nat (idx - 12 - p) :: u32)"
    "\<not> (of_nat (idx - 12) :: u32) < of_nat p" if "12 + p \<le> idx"
    using that small b1 less [of "idx - 12" p] by simp_all
  consider "idx < 12" | "12 \<le> idx" "idx < 12 + p" | "12 + p \<le> idx" "idx < 12 + p + p ^ 2"
    | "12 + p + p ^ 2 \<le> idx" by linarith
  then show ?thesis
  proof cases
    case 1
    then have "(of_nat idx :: u32) < 12" unfolding w12 by (subst less) simp_all
    then show ?thesis using 1 small ok
      by (simp add: get_block_no_from_inode_def inode_blocks_def nth_append word_nat_simps)
  next
    case 2
    then have ins: "inode_inside fs D n C i" using ind by simp
    define j where "j = idx - 12"
    have j: "j < p" "idx = 12 + j" using 2 by (simp_all add: j_def)
    have uj: "unat (of_nat j :: u32) = j" and jp: "(of_nat j :: u32) < of_nat p"
      using j b1 by (simp_all add: less word_nat_simps)
    obtain s' where "load_pointer junk fs (i_sibp i) (of_nat j) s
        = Some (Some (e2_pointers fs D C (i_sibp i) ! j), s')" "e2_ok fs D n dinv dcontent C s'"
      using load_pointer_ok [OF ok, of "i_sibp i" "of_nat j" junk] ins j uj
      by (auto simp: inode_inside_def p_def)
    moreover have "inode_blocks fs D C i ! idx = e2_pointers fs D C (i_sibp i) ! j"
      using nb(1) [OF 2, folded j_def] nth_trees(1) [of j fs D C "i_sibp i"] j(1)
      by (simp only: p_def)
    moreover have "get_block_no_from_inode junk fs i (of_nat idx) add_blocks s
        = Some (or_zero (Some (e2_pointers fs D C (i_sibp i) ! j), s'))"
      unfolding j_def by (rule get_block_single [OF s12(2) s12(1)])
        (use 2 jp ppib calculation(1) in \<open>simp_all only: j_def\<close>)
    ultimately show ?thesis by (simp add: or_zero_def)
  next
    case 3
    then have ins: "inode_inside fs D n C i" using ind by simp
    define j where "j = idx - 12 - p"
    have j: "j < p ^ 2" "idx = 12 + p + j" using 3 by (simp_all add: j_def)
    have jp: "(of_nat j :: u32) < of_nat (p ^ 2)" using j b1 less [of j "p ^ 2"] by simp
    have q: "j div p < p" "j mod p < p" "j < 2 ^ 31"
      using j(1) cnt(1) b1 by (simp_all add: power2_eq_square less_mult_imp_div_less)
    have uq: "unat (of_nat (j div p) :: u32) = j div p" "unat (of_nat (j mod p) :: u32) = j mod p"
      using below [OF q(1)] below [OF q(2)] .
    have t2: "tree_inside fs D n C (Suc (Suc 0)) (i_dibp i)"
      using ins by (simp add: inode_inside_def numeral_2_eq_2)
    obtain c s1 where c: "load_pointer junk fs (i_dibp i) (of_nat (j div p)) s = Some (Some c, s1)"
        "c = e2_pointers fs D C (i_dibp i) ! (j div p)" "tree_inside fs D n C (Suc 0) c"
        "e2_ok fs D n dinv dcontent C s1"
      using descend [OF ok t2, of "of_nat (j div p)" junk] q uq by (auto simp: p_def)
    obtain d s2 where d: "load_pointer junk fs c (of_nat (j mod p)) s1 = Some (Some d, s2)"
        "d = e2_pointers fs D C c ! (j mod p)" "e2_ok fs D n dinv dcontent C s2"
      using descend [OF c(4,3), of "of_nat (j mod p)" junk] q uq by (auto simp: p_def)
    have "inode_blocks fs D C i ! idx = d"
      using nb(2) [OF 3, folded j_def] nth_trees(2) [of j fs D C "i_dibp i"] j(1) c(2) d(2)
      by (simp only: p_def)
    moreover have "get_block_no_from_inode junk fs i (of_nat idx) add_blocks s
        = Some (or_zero (Some d, s2))"
    proof (rule get_block_double)
      show "\<not> (of_nat idx :: u32) < 12" using s12(2) 3 by simp
      show "\<not> (of_nat idx :: u32) - 12 < pointers_per_indirect_block fs"
        "of_nat idx - 12 - pointers_per_indirect_block fs = (of_nat j :: u32)"
        using s12(1) sp 3 by (simp_all add: ppib j_def del: of_nat_diff)
      show "(of_nat j :: u32) < pointers_per_indirect_block_2 fs" using jp by (simp only: p2w)
      show "pointers_per_indirect_block fs \<noteq> 0" using up cnt(1) by (auto simp: ppib)
      show "load_pointer junk fs (i_dibp i) (of_nat j div pointers_per_indirect_block fs) s
          = Some (Some c, s1)"
        using c(1) div(1) [of j p] q b1 by (simp only: ppib)
      show "follow junk fs (of_nat j mod pointers_per_indirect_block fs) (Some c, s1) = Some (Some d, s2)"
        using d(1) div(2) [of j p] q b1 by (simp only: ppib follow_def prod.case option.case)
    qed
    ultimately show ?thesis using d(3) by (simp add: or_zero_def)
  next
    case 4
    then have ins: "inode_inside fs D n C i" using ind by simp
    define j where "j = idx - 12 - p - p ^ 2"
    have j: "j < p ^ 3" using 4 idx by (simp add: j_def)
    have jp: "(of_nat j :: u32) < of_nat (p ^ 3)" using j b1 less [of j "p ^ 3"] by simp
    define m where "m = j mod p ^ 2"
    have m: "m < p ^ 2" using cnt(1) by (simp add: m_def)
    have q: "j div p ^ 2 < p" "m div p < p" "m mod p < p" "j < 2 ^ 31" "m < 2 ^ 31"
      using j m cnt(1) b1
      by (simp_all add: power2_eq_square power3_eq_cube less_mult_imp_div_less)
    have uq: "unat (of_nat (j div p ^ 2) :: u32) = j div p ^ 2" "unat (of_nat (m div p) :: u32) = m div p"
      "unat (of_nat (m mod p) :: u32) = m mod p"
      using below [OF q(1)] below [OF q(2)] below [OF q(3)] .
    have t3: "tree_inside fs D n C (Suc (Suc (Suc 0))) (i_tibp i)"
      using ins by (simp add: inode_inside_def numeral_3_eq_3)
    obtain c s1 where c: "load_pointer junk fs (i_tibp i) (of_nat (j div p ^ 2)) s = Some (Some c, s1)"
        "c = e2_pointers fs D C (i_tibp i) ! (j div p ^ 2)" "tree_inside fs D n C (Suc (Suc 0)) c"
        "e2_ok fs D n dinv dcontent C s1"
      using descend [OF ok t3, of "of_nat (j div p ^ 2)" junk] q uq by (auto simp: p_def)
    obtain d s2 where d: "load_pointer junk fs c (of_nat (m div p)) s1 = Some (Some d, s2)"
        "d = e2_pointers fs D C c ! (m div p)" "tree_inside fs D n C (Suc 0) d"
        "e2_ok fs D n dinv dcontent C s2"
      using descend [OF c(4,3), of "of_nat (m div p)" junk] q uq by (auto simp: p_def)
    obtain e s3 where e: "load_pointer junk fs d (of_nat (m mod p)) s2 = Some (Some e, s3)"
        "e = e2_pointers fs D C d ! (m mod p)" "e2_ok fs D n dinv dcontent C s3"
      using descend [OF d(4,3), of "of_nat (m mod p)" junk] q uq by (auto simp: p_def)
    have "inode_blocks fs D C i ! idx = e"
      using nb(3) [OF 4, folded j_def] nth_trees(3) [of j fs D C "i_tibp i"] j(1) c(2) d(2) e(2)
      by (simp only: p_def m_def)
    moreover have "get_block_no_from_inode junk fs i (of_nat idx) add_blocks s
        = Some (or_zero (Some e, s3))"
    proof (rule get_block_triple)
      have le: "12 \<le> idx" "12 + p \<le> idx" using 4 by simp_all
      show "\<not> (of_nat idx :: u32) < 12" using s12(2) le by simp
      show "\<not> (of_nat idx :: u32) - 12 < pointers_per_indirect_block fs"
        using s12(1) sp le by (simp add: ppib del: of_nat_diff)
      have "p ^ 2 \<le> idx - 12 - p" using 4 by simp
      then show "\<not> of_nat idx - 12 - pointers_per_indirect_block fs < pointers_per_indirect_block_2 fs"
        "of_nat idx - 12 - pointers_per_indirect_block fs - pointers_per_indirect_block_2 fs
          = (of_nat j :: u32)"
        using s12(1) sp(1) le less [of "idx - 12 - p" "p ^ 2"] small b1
          of_nat_diff [of "p ^ 2" "idx - 12 - p", where 'a = u32]
        by (simp_all only: ppib p2w j_def)
      show "(of_nat j :: u32) < pointers_per_indirect_block_3 fs" using jp by (simp only: p3w)
      show "pointers_per_indirect_block fs \<noteq> 0" "pointers_per_indirect_block_2 fs \<noteq> 0"
        using up cnt(1,3) by (auto simp: ppib)
      show "load_pointer junk fs (i_tibp i) (of_nat j div pointers_per_indirect_block_2 fs) s
          = Some (Some c, s1)"
        using c(1) div(1) [of j "p ^ 2"] q b1 by (simp only: p2w)
      have w: "(of_nat j :: u32) mod of_nat (p ^ 2) = of_nat m"
        using div(2) [of j "p ^ 2"] q b1 by (simp only: m_def)
      show "follow junk fs (of_nat j mod pointers_per_indirect_block_2 fs div pointers_per_indirect_block fs)
          (Some c, s1) = Some (Some d, s2)"
        using d(1) w div(1) [of m p] q b1 by (simp only: ppib p2w follow_def prod.case option.case)
      show "follow junk fs (of_nat j mod pointers_per_indirect_block_2 fs mod pointers_per_indirect_block fs)
          (Some d, s2) = Some (Some e, s3)"
        using e(1) w div(2) [of m p] q b1 by (simp only: ppib p2w follow_def prod.case option.case)
    qed
    ultimately show ?thesis using e(3) by (simp add: or_zero_def)
  qed
qed

section \<open>Reading a file\<close>

text \<open>The inode \<open>i\<close> of number \<open>ino\<close>, where its table lies inside the device.\<close>

definition e2_inode_at ::
  "'s ext2_fs \<Rightarrow> nat \<Rightarrow> nat \<Rightarrow> (nat \<Rightarrow> bytes) \<Rightarrow> u32 \<Rightarrow> bytes \<Rightarrow> bool" where
  "e2_inode_at fs D n C ino i \<longleftrightarrow>
     (let group = unat ((ino - 1) div inodes_per_group fs); rest = (ino - 1) mod inodes_per_group fs;
          ipb = e2_block_size fs div inode_size fs;
          tb = bgd_inode_table (bgdt fs) group + rest div ipb;
          at = unat (rest mod ipb * inode_size fs)
      in inodes_per_group fs \<noteq> 0 \<and> inode_size fs \<noteq> 0 \<and> ipb \<noteq> 0
        \<and> sizeof_ext2_bgd * group + sizeof_ext2_bgd \<le> length (bgdt fs) \<and> e2_inside fs D n tb
        \<and> at + sizeof_ext2_inode \<le> unat (e2_block_size fs)
        \<and> i = slice (e2_block fs D C tb) at sizeof_ext2_inode)"

lemma read_inode_ok:
  assumes ok: "e2_ok fs D n dinv dcontent C s" and "e2_inode_at fs D n C ino i"
  shows "\<exists>s'. ext2_read_inode junk fs ino s = Some (Some i, s') \<and> e2_ok fs D n dinv dcontent C s'"
proof -
  define tb where "tb = bgd_inode_table (bgdt fs) (unat ((ino - 1) div inodes_per_group fs))
    + (ino - 1) mod inodes_per_group fs div (e2_block_size fs div inode_size fs)"
  have ins: "e2_inside fs D n tb" using assms(2) by (simp add: e2_inode_at_def Let_def tb_def)
  obtain s' where "read_block junk fs tb s = Some (Some (e2_block fs D C tb), s')"
    "e2_ok fs D n dinv dcontent C s'" using read_block_ok [OF ok ins] by blast
  then show ?thesis
    using assms(2) e2_length_block [OF ok ins]
    by (simp add: ext2_read_inode_def e2_inode_at_def Let_def tb_def [symmetric])
qed

definition e2_file_ok :: "'s ext2_fs \<Rightarrow> nat \<Rightarrow> nat \<Rightarrow> (nat \<Rightarrow> bytes) \<Rightarrow> bytes \<Rightarrow> nat \<Rightarrow> bool" where
  "e2_file_ok fs D n C i nb \<longleftrightarrow>
     (let p = unat (pointers_per_indirect_block fs) in nb \<le> 12 + p + p ^ 2 + p ^ 3) \<and>
     (nb \<le> 12 \<or> inode_inside fs D n C i) \<and> Suc nb * unat (e2_block_size fs) < 2 ^ 31 \<and>
     (\<forall>j < nb. inode_blocks fs D C i ! j \<noteq> 0xffffffff \<and>
        unat (inode_blocks fs D C i ! j) + sectors_per_block fs D \<le> n)"

interpretation e2file: block_map "ext2_get_next_bdev_block_num junk fs" "e2_parent fs"
  "unat (e2_block_size fs)" nb "\<lambda>s. e2_ok fs D n dinv dcontent C s \<and> e2_file_ok fs D n C i nb"
  "\<lambda>s j. load_blocks C (unat (inode_blocks fs D C i ! j)) (sectors_per_block fs D)"
  "\<lambda>_ q. q = Some i" "\<lambda>_. True"
  for junk fs nb D n dinv dcontent C i
proof unfold_locales
  fix s assume ok: "e2_ok fs D n dinv dcontent C s \<and> e2_file_ok fs D n C i nb"
  show "0 < unat (e2_block_size fs)"
    using ok by (auto simp: e2_ok_def sectors_per_block_def intro: gr0I)
  show "Suc nb * unat (e2_block_size fs) < 2 ^ 31" using ok by (simp add: e2_file_ok_def)
  fix j assume j: "j < nb"
  obtain rd wr where "block_store rd wr D n dinv dcontent" "dinv s" "dcontent s = C"
    using ok by (auto simp: e2_ok_def)
  then have "length (C k) = D" if "k < n" for k
    using block_store.length_content that by fastforce
  then have "length (load_blocks C (unat (inode_blocks fs D C i ! j)) (sectors_per_block fs D))
      = sectors_per_block fs D * D"
    using ok j by (intro length_load_blocks) (auto simp: e2_file_ok_def)
  then show "length (load_blocks C (unat (inode_blocks fs D C i ! j)) (sectors_per_block fs D))
      = unat (e2_block_size fs)"
    using ok by (simp add: e2_ok_def)
next
  fix s j q and f :: "u32 mb_file"
  assume ok: "e2_ok fs D n dinv dcontent C s \<and> e2_file_ok fs D n C i nb" and q: "q = Some i"
    and j: "j < nb"
  let ?b = "inode_blocks fs D C i ! j"
  have ind: "j < 12 \<or> inode_inside fs D n C i" using ok j by (auto simp: e2_file_ok_def)
  have cnt: "j < 12 + unat (pointers_per_indirect_block fs) + unat (pointers_per_indirect_block fs) ^ 2
      + unat (pointers_per_indirect_block fs) ^ 3"
    using ok j by (auto simp: e2_file_ok_def Let_def)
  obtain s' where s': "get_block_no_from_inode junk fs i (of_nat j) False s = Some (?b, s')"
    "e2_ok fs D n dinv dcontent C s'"
    using get_block_no_tree [OF conjunct1 [OF ok] ind cnt] by blast
  have b: "?b \<noteq> 0xffffffff" "unat ?b + sectors_per_block fs D \<le> n"
    using ok j by (auto simp: e2_file_ok_def)
  have "ext2_get_next_bdev_block_num junk fs (of_nat j) f q False s = Some (?b, f, q, s')"
    using s'(1) q by (simp add: ext2_get_next_bdev_block_num_def)
  then show "\<exists>b q' s'. ext2_get_next_bdev_block_num junk fs (of_nat j) f q False s = Some (b, f, q', s')
    \<and> b \<noteq> 0xffffffff \<and> q' = Some i \<and> (e2_ok fs D n dinv dcontent C s' \<and> e2_file_ok fs D n C i nb)
    \<and> (\<lambda>j. load_blocks C (unat (inode_blocks fs D C i ! j)) (sectors_per_block fs D))
      = (\<lambda>j. load_blocks C (unat (inode_blocks fs D C i ! j)) (sectors_per_block fs D))
    \<and> (\<forall>buf. length buf = unat (e2_block_size fs) \<longrightarrow> (\<exists>s''. block_read (e2_parent fs) buf b s'
        = Some (of_nat (unat (e2_block_size fs)), load_blocks C (unat ?b) (sectors_per_block fs D), s'')
      \<and> (e2_ok fs D n dinv dcontent C s'' \<and> e2_file_ok fs D n C i nb)
      \<and> (\<lambda>j. load_blocks C (unat (inode_blocks fs D C i ! j)) (sectors_per_block fs D))
        = (\<lambda>j. load_blocks C (unat (inode_blocks fs D C i ! j)) (sectors_per_block fs D))))"
    using e2_read_sectors [OF s'(2) _ b(2)] b(1) s'(2) ok q by blast
qed simp_all

lemma ext2_fread_sectors:
  assumes ok: "e2_ok fs D n dinv dcontent C s" and f: "file_fs f = e2_ident fs" "opaque f \<noteq> 0"
    and ino: "e2_inode_at fs D n C (opaque f) i" and fok: "e2_file_ok fs D n C i nb"
    and p: "0 \<le> pos f" "nat (pos f) + m < nb * unat (e2_block_size fs)" "m \<le> length buf"
  shows "\<exists>f' s'. ext2_fread junk fs buf (of_nat m) f s = Some (of_nat m,
      splice buf 0 (slice (concat (map (\<lambda>j. load_blocks C (unat (inode_blocks fs D C i ! j))
        (sectors_per_block fs D)) [0..<nb])) (nat (pos f)) m), f', s')
    \<and> pos f' = pos f + int m \<and> dcontent s' = C"
proof -
  obtain s1 where s1: "ext2_read_inode junk fs (opaque f) s = Some (Some i, s1)"
    "e2_ok fs D n dinv dcontent C s1" using read_inode_ok [OF ok ino] by blast
  have "of_nat (unat (e2_block_size fs)) = e2_block_size fs" by simp
  with e2file.fread_range [OF conjI [OF s1(2) fok] TrueI p(1) refl less_imp_le [OF p(2)] p(3)
      disjI1 [OF p(2)], of junk]
  obtain f' q' s' where "fs_fread (ext2_get_next_bdev_block_num junk fs) (e2_parent fs)
      (e2_block_size fs) junk buf (of_nat m) f (Some i) s1 = Some (of_nat m,
      splice buf 0 (slice (e2file.file_of nb C fs D i s1) (nat (pos f)) m), f', q', s')"
    "pos f' = pos f + int m" "e2_ok fs D n dinv dcontent C s'"
    by (metis (no_types, lifting))
  then show ?thesis
    using f s1 by (auto simp: ext2_fread_def e2file.file_of_def e2_ok_def)
qed

text \<open>The special entry \<open>.\<close> of a directory is freed and left in the list.\<close>

lemma ext2_special_then_entry:
  assumes "ptr < tot" and "ptr + 8 \<le> length block" and "read_word block ptr \<noteq> 0"
    and "\<not> prev_freed nodes" and "ext2_entry_name fs block ptr = Some name"
    and "name = ''.'' \<or> name = ''..'' \<or> name = ''lost+found''"
    and "nxt = ptr + unat (read_halfword block (ptr + 4))" and "nxt < tot"
    and "read_word block nxt \<noteq> 0"
  shows "ext2_entries junk fs block tot ptr nodes s = None"
proof -
  have "ext2_entries junk fs block tot ptr nodes s
      = ext2_entries junk fs block tot nxt (nodes @ [None]) s"
    using assms(1-7) by (subst ext2_entries.simps) (auto simp: Let_def)
  also have "\<dots> = None"
    using assms(8,9) by (subst ext2_entries.simps) (simp add: prev_freed_def)
  finally show ?thesis .
qed

section \<open>Properties\<close>

text \<open>C8: The block numbers of a file are those of its tree of indirect blocks: for an index below the
  number of direct, singly, doubly and triply indirect blocks together, \<open>get_block_no_from_inode\<close>
  returns the entry at that index of the list of all leaves, in order, whenever the tables of the
  tree lie inside the device.\<close>

theorem ext2_block_map_is_tree:
  assumes "e2_ok fs D n dinv dcontent C s" and "inode_inside fs D n C i"
    and "idx < 12 + unat (pointers_per_indirect_block fs) + unat (pointers_per_indirect_block fs) ^ 2
      + unat (pointers_per_indirect_block fs) ^ 3"
  shows "\<exists>s'. get_block_no_from_inode junk fs i (of_nat idx) add_blocks s
      = Some (inode_blocks fs D C i ! idx, s') \<and> dcontent s' = C"
  using get_block_no_tree [OF assms(1) disjI2 [OF assms(2)] assms(3)] by (auto simp: e2_ok_def)

text \<open>Blocks of 8 bytes, with two pointers each.\<close>

definition demo_e2_disk :: "bytes list" where
  "demo_e2_disk = [replicate 8 0, [2, 0, 0, 0, 3, 0, 0, 0], [7, 0, 0, 0, 9, 0, 0, 0],
     [11, 0, 0, 0, 13, 0, 0, 0]]"

definition demo_e2 :: "bytes list ext2_fs" where
  "demo_e2 = \<lparr>e2_ident = 1, e2_parent = ram_dev 8, e2_block_size = 8, total_inodes = 1,
     total_blocks = 4, inode_size = 128, inodes_per_group = 1, blocks_per_group = 4,
     total_groups = 1, major_version = 0, minor_version = 0, pointers_per_indirect_block = 2,
     pointers_per_indirect_block_2 = 4, pointers_per_indirect_block_3 = 8,
     type_flags_used = False, bgdt = []\<rparr>"

definition demo_inode :: bytes where
  "demo_inode = (replicate 128 0)[92 := 1]"

theorem ext2_block_map_is_tree_witness:
  "\<exists>s'. get_block_no_from_inode (\<lambda>_. 0) demo_e2 demo_inode 17 False demo_e2_disk = Some (13, s')"
proof -
  have "block_store (ram_read 8) (ram_write 8) 8 4 (ram_ok 8 4) (!)" by (rule ram.block_store_axioms)
  moreover have "ram_ok 8 4 demo_e2_disk" by (simp add: ram_ok_def demo_e2_disk_def)
  ultimately have "e2_ok demo_e2 8 4 (ram_ok 8 4) (!) ((!) demo_e2_disk) demo_e2_disk"
    by (auto simp: e2_ok_def demo_e2_def ram_dev_def sectors_per_block_def)
  moreover have "inode_inside demo_e2 8 4 ((!) demo_e2_disk) demo_inode"
  proof -
    have ptrs: "e2_pointers demo_e2 8 ((!) demo_e2_disk) 0 = [0, 0]"
      "e2_pointers demo_e2 8 ((!) demo_e2_disk) 1 = [2, 3]"
      "i_sibp demo_inode = 0" "i_dibp demo_inode = 1" "i_tibp demo_inode = 0"
      by code_simp+
    have "e2_inside demo_e2 8 4 0" "e2_inside demo_e2 8 4 1" "e2_inside demo_e2 8 4 2"
      "e2_inside demo_e2 8 4 3"
      by (simp_all add: e2_inside_def demo_e2_def sectors_per_block_def)
    then show ?thesis by (simp add: inode_inside_def numeral_2_eq_2 numeral_3_eq_3 ptrs)
  qed
  moreover have "inode_blocks demo_e2 8 ((!) demo_e2_disk) demo_inode ! 17 = 13" by code_simp
  ultimately show ?thesis
    using ext2_block_map_is_tree [of demo_e2 8 4 "ram_ok 8 4" "(!)" "(!) demo_e2_disk" demo_e2_disk
        demo_inode 17 "\<lambda>_. 0" False]
    by (auto simp: demo_e2_def)
qed

text \<open>\<open>ext2_fread\<close> uses the block numbers of the file as sectors of the device: a read of \<open>m\<close>
  bytes inside the file's blocks returns \<open>m\<close>, and the bytes are those that lie at the device blocks
  whose number is the number of the file's block, for as many device blocks as one block of the file
  system has. So they are the bytes of the file only where the two block sizes agree.\<close>

theorem ext2_fread_block_as_sector:
  assumes "e2_ok fs D n dinv dcontent C s" and "file_fs f = e2_ident fs" and "opaque f \<noteq> 0"
    and "e2_inode_at fs D n C (opaque f) i" and "e2_file_ok fs D n C i nb"
    and "0 \<le> pos f" and "nat (pos f) + m < nb * unat (e2_block_size fs)" and "m \<le> length buf"
  shows "\<exists>f' s'. ext2_fread junk fs buf (of_nat m) f s = Some (of_nat m,
      splice buf 0 (slice (concat (map (\<lambda>j. load_blocks C (unat (inode_blocks fs D C i ! j))
        (sectors_per_block fs D)) [0..<nb])) (nat (pos f)) m), f', s')
    \<and> pos f' = pos f + int m \<and> dcontent s' = C"
  using assms by (rule ext2_fread_sectors)

text \<open>Blocks of 128 bytes over sectors of 64: the file's only block is block 1, at the sectors 2 and 3.\<close>

definition demo_e2_disk2 :: "bytes list" where
  "demo_e2_disk2 = [(replicate 64 0)[40 := 1], replicate 64 0, replicate 64 65, replicate 64 66]"

definition demo_e2b :: "bytes list ext2_fs" where
  "demo_e2b = \<lparr>e2_ident = 1, e2_parent = ram_dev 64, e2_block_size = 128, total_inodes = 1,
     total_blocks = 2, inode_size = 128, inodes_per_group = 1, blocks_per_group = 2,
     total_groups = 1, major_version = 0, minor_version = 0, pointers_per_indirect_block = 32,
     pointers_per_indirect_block_2 = 1024, pointers_per_indirect_block_3 = 32768,
     type_flags_used = False, bgdt = replicate 32 0\<rparr>"

lemma demo_e2b_ok: "e2_ok demo_e2b 64 4 (ram_ok 64 4) (!) ((!) demo_e2_disk2) demo_e2_disk2"
proof -
  have "block_store (ram_read 64) (ram_write 64) 64 4 (ram_ok 64 4) (!)" by (rule ram.block_store_axioms)
  moreover have "ram_ok 64 4 demo_e2_disk2" by (simp add: ram_ok_def demo_e2_disk2_def)
  ultimately show ?thesis
    by (auto simp: e2_ok_def demo_e2b_def ram_dev_def sectors_per_block_def)
qed

theorem ext2_fread_block_as_sector_witness:
  "\<exists>f' s'. ext2_fread (\<lambda>_. 0) demo_e2b [9, 9, 9, 9, 9] 4
      \<lparr>file_fs = 1, pos = 62, mode = 0, opaque = 1, len = 128, flags = 0\<rparr> demo_e2_disk2
    = Some (4, [0, 0, 65, 65, 9], f', s') \<and> pos f' = 66"
proof -
  let ?f = "\<lparr>file_fs = 1, pos = 62, mode = 0, opaque = 1, len = 128, flags = 0\<rparr> :: u32 mb_file"
  let ?i = "(replicate 128 0)[40 := 1] :: bytes"
  have ino: "e2_inode_at demo_e2b 64 4 ((!) demo_e2_disk2) 1 ?i"
  proof -
    have "slice (e2_block demo_e2b 64 ((!) demo_e2_disk2) 0) 0 128 = ?i"
      "bgd_inode_table (bgdt demo_e2b) 0 = 0" by code_simp+
    then show ?thesis
      by (simp add: e2_inode_at_def Let_def sizeof_ext2_bgd_def sizeof_ext2_inode_def e2_inside_def)
        (simp add: demo_e2b_def sectors_per_block_def)
  qed
  have b0: "inode_blocks demo_e2b 64 C ?i ! 0 = 1" for C
    by (simp add: inode_blocks_def upt_conv_Cons nth_append) code_simp
  have fok: "e2_file_ok demo_e2b 64 4 ((!) demo_e2_disk2) ?i 1"
    by (simp add: e2_file_ok_def b0 Let_def) (simp add: demo_e2b_def sectors_per_block_def)
  have data: "splice [9, 9, 9, 9, 9] 0 (slice (concat (map (\<lambda>j. load_blocks ((!) demo_e2_disk2)
      (unat (inode_blocks demo_e2b 64 ((!) demo_e2_disk2) ?i ! j)) (sectors_per_block demo_e2b 64))
      [0..<1])) (nat (pos ?f)) 4) = [0, 0, 65, 65, 9 :: u8]"
    by (simp add: b0) code_simp
  have "file_fs ?f = e2_ident demo_e2b" "opaque ?f \<noteq> 0"
    "e2_inode_at demo_e2b 64 4 ((!) demo_e2_disk2) (opaque ?f) ?i" "0 \<le> pos ?f"
    "nat (pos ?f) + 4 < 1 * unat (e2_block_size demo_e2b)" "4 \<le> length [9, 9, 9, 9, 9 :: u8]"
    using ino by (simp_all add: demo_e2b_def)
  from ext2_fread_block_as_sector [OF demo_e2b_ok this(1-3) fok this(4-6), of "\<lambda>_. 0"]
  show ?thesis unfolding data by auto
qed

text \<open>C40: Listing a directory whose first block begins with the entry \<open>.\<close> (or another special one)
  and has a second entry is undefined: the node of the special entry is freed, and the next entry
  stores its address into it.\<close>

theorem ext2_read_dir_use_after_free:
  assumes "e2_block_size fs \<noteq> 0" and "ext2_read_inode junk fs (de_opaque d) s = Some (Some i, s1)"
    and "0 < dir_total_blocks fs i" and "get_block_no_from_inode junk fs i 0 False s1 = Some (b, s2)"
    and "read_block junk fs b s2 = Some (Some block, s3)"
    and "8 \<le> length block" and "0 < dir_block_size fs i 0" and "read_word block 0 \<noteq> 0"
    and "ext2_entry_name fs block 0 = Some name" and "name \<in> {''.'', ''..'', ''lost+found''}"
    and "unat (read_halfword block 4) < dir_block_size fs i 0"
    and "read_word block (unat (read_halfword block 4)) \<noteq> 0"
  shows "ext2_read_dir junk fs (Some d) s = None"
proof -
  have "ext2_entries junk fs block (dir_block_size fs i 0) 0 [] s3 = None"
    using assms(6-12) by (intro ext2_special_then_entry
        [where name = name and nxt = "unat (read_halfword block 4)"]) (auto simp: prev_freed_def)
  then have "ext2_dir_loop junk fs i 0 [] s1 = None"
    using assms(3-5) by (subst ext2_dir_loop.simps) simp
  then show ?thesis using assms(1,2) by (simp add: ext2_read_dir_def)
qed

text \<open>A directory of one block with the entries \<open>.\<close> and \<open>..\<close>.\<close>

definition demo_dir_block :: bytes where
  "demo_dir_block = [1, 0, 0, 0, 12, 0, 1, 0, 46, 0, 0, 0, 1, 0, 0, 0, 116, 0, 2, 0, 46, 46]
     @ replicate 106 0"

definition demo_dir_inode :: bytes where
  "demo_dir_inode = (replicate 128 0)[4 := 128, 40 := 1]"

definition demo_e2_disk3 :: "bytes list" where
  "demo_e2_disk3 = [take 64 demo_dir_inode, drop 64 demo_dir_inode, take 64 demo_dir_block,
     drop 64 demo_dir_block]"

theorem ext2_read_dir_use_after_free_witness:
  "ext2_read_dir (\<lambda>_. 0) demo_e2b
     (Some \<lparr>de_name = ''d'', de_byte_size = 0, is_dir = True, de_opaque = 1, de_fs = 1\<rparr>) demo_e2_disk3 = None"
proof -
  let ?d = "\<lparr>de_name = ''d'', de_byte_size = 0, is_dir = True, de_opaque = 1, de_fs = 1\<rparr> :: u32 mb_dirent"
  have "block_store (ram_read 64) (ram_write 64) 64 4 (ram_ok 64 4) (!)" by (rule ram.block_store_axioms)
  moreover have "ram_ok 64 4 demo_e2_disk3"
    by (simp add: ram_ok_def demo_e2_disk3_def demo_dir_inode_def demo_dir_block_def)
  ultimately have ok: "e2_ok demo_e2b 64 4 (ram_ok 64 4) (!) ((!) demo_e2_disk3) demo_e2_disk3"
    by (auto simp: e2_ok_def demo_e2b_def ram_dev_def sectors_per_block_def)
  have blocks: "slice (e2_block demo_e2b 64 ((!) demo_e2_disk3) 0) 0 128 = demo_dir_inode"
    "e2_block demo_e2b 64 ((!) demo_e2_disk3) 1 = demo_dir_block"
    "bgd_inode_table (bgdt demo_e2b) 0 = 0" by code_simp+
  have "e2_inode_at demo_e2b 64 4 ((!) demo_e2_disk3) (de_opaque ?d) demo_dir_inode"
    using blocks by (simp add: e2_inode_at_def Let_def sizeof_ext2_bgd_def sizeof_ext2_inode_def e2_inside_def)
      (simp add: demo_e2b_def sectors_per_block_def)
  from read_inode_ok [OF ok this, of "\<lambda>_. 0"] obtain s1 where
    ino: "ext2_read_inode (\<lambda>_. 0) demo_e2b (de_opaque ?d) demo_e2_disk3 = Some (Some demo_dir_inode, s1)"
    and s1: "e2_ok demo_e2b 64 4 (ram_ok 64 4) (!) ((!) demo_e2_disk3) s1" by blast
  have "i_db demo_dir_inode 0 = 1" by code_simp
  then have b0: "get_block_no_from_inode (\<lambda>_. 0) demo_e2b demo_dir_inode 0 False s1 = Some (1, s1)"
    by (simp add: get_block_no_from_inode_def)
  have "e2_inside demo_e2b 64 4 1" by (simp add: e2_inside_def demo_e2b_def sectors_per_block_def)
  from read_block_ok [OF s1 this, of "\<lambda>_. 0"] blocks obtain s2 where
    rd: "read_block (\<lambda>_. 0) demo_e2b 1 s1 = Some (Some demo_dir_block, s2)" by auto
  have "e2_block_size demo_e2b \<noteq> 0" "0 < dir_total_blocks demo_e2b demo_dir_inode"
    "8 \<le> length demo_dir_block" "0 < dir_block_size demo_e2b demo_dir_inode 0"
    "read_word demo_dir_block 0 \<noteq> 0" "ext2_entry_name demo_e2b demo_dir_block 0 = Some ''.''"
    "unat (read_halfword demo_dir_block 4) < dir_block_size demo_e2b demo_dir_inode 0"
    "read_word demo_dir_block (unat (read_halfword demo_dir_block 4)) \<noteq> 0"
    by code_simp+
  then show ?thesis
    using ext2_read_dir_use_after_free [OF _ ino _ b0 rd] by simp
qed

end
