(* ===== verification/Mmio.thy ===== *)
theory Mmio
  imports Prelude
begin

text \<open>
  Memory-mapped registers (\<open>rboot/mmio.c\<close>) and the system timer (\<open>rboot/timer.c\<close>,
  \<open>rboot/timer.h\<close>). The hardware is an environment: \<open>reads\<close> are the values that the next register
  reads will return, in order, and \<open>trace\<close> records every access and barrier. A program that reads
  more than the environment delivers has no result (\<^term>\<open>None\<close>); so a loop that returns \<^term>\<open>None\<close> for
  every list of readings never ends.
\<close>

section \<open>mmio.c\<close>

datatype event = Barrier | RegRead u32 u32 | RegWrite u32 u32

record hw =
  reads :: "u32 list"
  trace :: "event list"
  hw_errno :: "errno option"

definition emit :: "event list \<Rightarrow> hw \<Rightarrow> hw" where
  "emit es h = h\<lparr>trace := trace h @ es\<rparr>"

text \<open>The second barrier of \<open>mmio_read\<close> stands after the \<open>return\<close>.\<close>

definition mmio_write :: "u32 \<Rightarrow> u32 \<Rightarrow> hw \<Rightarrow> hw" where
  "mmio_write reg data h = emit [Barrier, RegWrite reg data, Barrier] h"

definition mmio_read :: "u32 \<Rightarrow> hw \<Rightarrow> (u32 \<times> hw) option" where
  "mmio_read reg h =
     (case reads h of
        [] \<Rightarrow> None
      | v # vs \<Rightarrow> Some (v, emit [Barrier, RegRead reg v] (h\<lparr>reads := vs\<rparr>)))"

text \<open>What was written to a register, in order.\<close>

definition written :: "u32 \<Rightarrow> hw \<Rightarrow> u32 list" where
  "written reg h = concat (map (\<lambda>e. case e of RegWrite r v \<Rightarrow> (if r = reg then [v] else []) | _ \<Rightarrow> []) (trace h))"

lemma reads_emit [simp]: "reads (emit es h) = reads h"
  by (simp add: emit_def)

lemma written_emit [simp]: "written r (emit es h) = written r h
    @ concat (map (\<lambda>e. case e of RegWrite r' v \<Rightarrow> (if r' = r then [v] else []) | _ \<Rightarrow> []) es)"
  by (simp add: emit_def written_def)

lemma written_reads [simp]: "written r (h\<lparr>reads := vs\<rparr>) = written r h"
  by (simp add: written_def)

lemma mmio_read_cons [simp]:
  "reads h = v # vs \<Longrightarrow> mmio_read reg h = Some (v, emit [Barrier, RegRead reg v] (h\<lparr>reads := vs\<rparr>))"
  by (simp add: mmio_read_def)

lemma mmio_write_simps [simp]:
  "reads (mmio_write reg d h) = reads h"
  "written r (mmio_write reg d h) = written r h @ (if reg = r then [d] else [])"
  by (simp_all add: mmio_write_def)

section \<open>timer.c\<close>

definition MEM_GPIO_BASE :: u32 where "MEM_GPIO_BASE = 0x20000000"
definition TIMER_CLO :: u32 where "TIMER_CLO = MEM_GPIO_BASE + 0x0003004"

record timer_wait =
  trigger_value :: u32
  rollover :: bool

definition register_timer :: "int \<Rightarrow> hw \<Rightarrow> (timer_wait \<times> hw) option" where
  "register_timer usec h =
     (if usec < 0 then Some (\<lparr>trigger_value = 0, rollover = False\<rparr>, h\<lparr>hw_errno := Some EINVAL\<rparr>)
      else do {
        (cur_timer, h') \<leftarrow> mmio_read TIMER_CLO h;
        let trig = cur_timer + word_of_int usec in
        Some (\<lparr>trigger_value = trig, rollover = \<not> trig > cur_timer\<rparr>, h')
      })"

text \<open>\<open>compare_timer\<close> gets the structure by value: the assignment to its \<open>rollover\<close> is lost.\<close>

definition compare_timer :: "timer_wait \<Rightarrow> hw \<Rightarrow> (bool \<times> hw) option" where
  "compare_timer tw h = do {
     (cur_timer, h') \<leftarrow> mmio_read TIMER_CLO h;
     Some (if cur_timer < trigger_value tw then False else \<not> rollover tw, h')
   }"

partial_function (option) compare_loop :: "timer_wait \<Rightarrow> hw \<Rightarrow> hw option" where
  "compare_loop tw h = do {
     (stop, h') \<leftarrow> compare_timer tw h;
     if stop then Some h' else compare_loop tw h'
   }"

definition usleep :: "int \<Rightarrow> hw \<Rightarrow> (int \<times> hw) option" where
  "usleep usec h = do {
     (tw, h1) \<leftarrow> register_timer usec h;
     h2 \<leftarrow> compare_loop tw h1;
     Some (0, h2)
   }"

text \<open>\<open>TIMEOUT_WAIT(stop_if_true, usec)\<close>: the condition is an expression that can read registers.\<close>

partial_function (option) timeout_loop ::
  "(hw \<Rightarrow> (bool \<times> hw) option) \<Rightarrow> timer_wait \<Rightarrow> hw \<Rightarrow> hw option" where
  "timeout_loop stop_if_true tw h = do {
     (b, h1) \<leftarrow> stop_if_true h;
     if b then Some h1
     else do {
       (stop, h2) \<leftarrow> compare_timer tw h1;
       if stop then Some h2 else timeout_loop stop_if_true tw h2
     }
   }"

definition timeout_wait :: "(hw \<Rightarrow> (bool \<times> hw) option) \<Rightarrow> int \<Rightarrow> hw \<Rightarrow> hw option" where
  "timeout_wait stop_if_true usec h = do {
     (tw, h1) \<leftarrow> register_timer usec h;
     timeout_loop stop_if_true tw h1
   }"

section \<open>Waiting\<close>

text \<open>Polling the timer: what the accesses leave behind.\<close>

definition timer_reads :: "u32 list \<Rightarrow> event list" where
  "timer_reads xs = concat (map (\<lambda>x. [Barrier, RegRead 0x20003004 x]) xs)"

lemma timer_address: "TIMER_CLO = 0x20003004"
  by (simp add: TIMER_CLO_def MEM_GPIO_BASE_def)

lemma emit_emit: "emit es (emit ds h) = emit (ds @ es) h"
  by (simp add: emit_def)

lemma emit_reads: "(emit es h)\<lparr>reads := vs\<rparr> = emit es (h\<lparr>reads := vs\<rparr>)"
  by (simp add: emit_def)

lemma timer_reads_Cons: "timer_reads (x # xs) = [Barrier, RegRead 0x20003004 x] @ timer_reads xs"
  by (simp add: timer_reads_def)

lemma written_timer_reads [simp]:
  "concat (map (\<lambda>e. case e of RegWrite r' v \<Rightarrow> (if r' = r then [v] else []) | _ \<Rightarrow> []) (timer_reads xs)) = []"
  by (induction xs) (simp_all add: timer_reads_def)

lemma compare_loop_polls:
  "reads h = ts @ t # rest \<Longrightarrow> \<forall>x \<in> set ts. x < trigger_value tw \<Longrightarrow> trigger_value tw \<le> t \<Longrightarrow>
   \<not> rollover tw \<Longrightarrow> compare_loop tw h = Some (emit (timer_reads (ts @ [t])) (h\<lparr>reads := rest\<rparr>))"
proof (induction ts arbitrary: h)
  case Nil
  then show ?case
    by (subst compare_loop.simps) (auto simp: compare_timer_def timer_reads_def timer_address dest: leD)
next
  case (Cons x ts)
  let ?h = "emit [Barrier, RegRead TIMER_CLO x] (h\<lparr>reads := ts @ t # rest\<rparr>)"
  have "compare_timer tw h = Some (False, ?h)"
    using Cons.prems by (simp add: compare_timer_def)
  then have "compare_loop tw h = compare_loop tw ?h" by (subst compare_loop.simps) simp
  then show ?case
    using Cons.IH [of ?h] Cons.prems by (simp add: timer_reads_Cons timer_address emit_emit emit_reads)
qed

lemma compare_loop_returns:
  "reads h = ts @ t # rest \<Longrightarrow> \<forall>x \<in> set ts. x < trigger_value tw \<Longrightarrow> trigger_value tw \<le> t \<Longrightarrow>
   \<not> rollover tw \<Longrightarrow>
   \<exists>h'. compare_loop tw h = Some h' \<and> reads h' = rest \<and> (\<forall>r. written r h' = written r h)"
  using compare_loop_polls [of h ts t rest tw] by simp

lemma compare_loop_rollover:
  "rollover tw \<Longrightarrow> compare_loop tw h = None"
proof (induction "reads h" arbitrary: h)
  case Nil
  then show ?case by (subst compare_loop.simps) (simp add: compare_timer_def mmio_read_def)
next
  case (Cons x xs)
  let ?h = "emit [Barrier, RegRead TIMER_CLO x] (h\<lparr>reads := xs\<rparr>)"
  have "compare_timer tw h = Some (False, ?h)"
    using Cons.prems Cons.hyps(2) [symmetric] by (simp add: compare_timer_def)
  then have "compare_loop tw h = compare_loop tw ?h" by (subst compare_loop.simps) simp
  then show ?case using Cons.hyps(1) [of ?h] Cons.prems by simp
qed

lemma usleep_polls:
  assumes "reads h = t0 # ts @ t # rest" and "0 < usec" and "int (unat t0) + usec < 2 ^ 32"
    and "\<forall>x \<in> set ts. int (unat x) < int (unat t0) + usec" and "int (unat t0) + usec \<le> int (unat t)"
  shows "usleep usec h = Some (0, emit (timer_reads (t0 # ts @ [t])) (h\<lparr>reads := rest\<rparr>))"
proof -
  let ?trig = "t0 + word_of_int usec"
  have ui: "unat (word_of_int usec :: u32) = nat usec"
    using assms(2,3) of_nat_0_le_iff [of "unat t0"] by (intro unat_word_of_int32) linarith+
  have "int (unat t0 + nat usec) < int (2 ^ 32)" using assms(2,3) by simp
  then have "unat t0 + nat usec < 2 ^ 32" by (simp only: of_nat_less_iff)
  then have tr: "unat ?trig = unat t0 + nat usec" using ui by (simp add: unat_add_no_wrap)
  then have tri: "int (unat ?trig) = int (unat t0) + usec" using assms(2) by simp
  have gt: "?trig > t0" using tr assms(2) by (simp add: word_less_nat_alt)
  let ?tw = "\<lparr>trigger_value = ?trig, rollover = False\<rparr>"
  let ?h = "emit [Barrier, RegRead TIMER_CLO t0] (h\<lparr>reads := ts @ t # rest\<rparr>)"
  have reg: "register_timer usec h = Some (?tw, ?h)"
    using assms(1,2) gt by (simp add: register_timer_def Let_def)
  have lt: "x < ?trig" if "x \<in> set ts" for x
  proof -
    have "int (unat x) < int (unat ?trig)" using assms(4) that tri by simp
    then show ?thesis by (simp only: of_nat_less_iff word_less_nat_alt)
  qed
  have "int (unat ?trig) \<le> int (unat t)" using assms(5) tri by simp
  then have le: "?trig \<le> t" by (simp only: of_nat_le_iff word_le_nat_alt)
  have "compare_loop ?tw ?h = Some (emit (timer_reads (ts @ [t])) (?h\<lparr>reads := rest\<rparr>))"
    using lt le by (intro compare_loop_polls) auto
  then show ?thesis
    using reg by (simp add: usleep_def timer_reads_Cons timer_address emit_emit emit_reads)
qed

lemma usleep_returns:
  assumes "reads h = t0 # ts @ t # rest" and "0 < usec" and "int (unat t0) + usec < 2 ^ 32"
    and "\<forall>x \<in> set ts. int (unat x) < int (unat t0) + usec" and "int (unat t0) + usec \<le> int (unat t)"
  shows "\<exists>h'. usleep usec h = Some (0, h') \<and> reads h' = rest \<and> (\<forall>r. written r h' = written r h)"
  using usleep_polls [OF assms] by simp

lemma usleep_never_returns:
  assumes "reads h = t0 # ts" and "0 \<le> usec" and "usec < 2 ^ 31"
    and "usec = 0 \<or> 2 ^ 32 \<le> int (unat t0) + usec"
  shows "usleep usec h = None"
proof -
  let ?trig = "t0 + word_of_int usec"
  have ui: "unat (word_of_int usec :: u32) = nat usec"
    using assms(2,3) by (intro unat_word_of_int32) simp_all
  have "\<not> ?trig > t0"
  proof (cases "usec = 0")
    case False
    then have "int (2 ^ 32) \<le> int (unat t0 + nat usec)" using assms(2,4) by simp
    then have ge: "2 ^ 32 \<le> unat t0 + nat usec" by (simp only: of_nat_le_iff)
    have "unat ?trig = (unat t0 + nat usec) mod 2 ^ 32" using ui by (simp add: unat_word_ariths)
    also have "\<dots> \<le> unat t0 + nat usec - 2 ^ 32"
      using ge by (subst le_mod_geq) (auto intro: mod_less_eq_dividend)
    also have "\<dots> \<le> unat t0"
    proof -
      have "nat usec < 2 ^ 31" using assms(2,3) by simp
      then show ?thesis by simp
    qed
    finally show ?thesis by (simp add: word_less_nat_alt)
  qed simp
  then show ?thesis
    using assms(1,2) compare_loop_rollover
    by (simp add: usleep_def register_timer_def Let_def)
qed

section \<open>Properties\<close>

text \<open>C30: \<open>usleep\<close> of an interval that is not negative, when the deadline is the first reading plus the
  interval and the readings show it reached at \<open>t\<close> and not before. If the interval is positive and the
  deadline does not wrap around, the accesses are exactly reads of the timer register at
  \<open>0x20003004\<close>, up to the reading \<open>t\<close> and no further, and \<open>0\<close> is returned. If the interval is 0 or the
  deadline wraps around, the call never returns.\<close>

theorem usleep_waits_until_trigger:
  assumes "reads h = t0 # ts @ t # rest" and "0 \<le> usec" and "usec < 2 ^ 31"
    and "\<forall>x \<in> set ts. int (unat x) < int (unat t0) + usec" and "int (unat t0) + usec \<le> int (unat t)
      \<or> 2 ^ 32 \<le> int (unat t0) + usec"
  shows "usleep usec h =
    (if 0 < usec \<and> int (unat t0) + usec < 2 ^ 32
     then Some (0, h\<lparr>reads := rest,
       trace := trace h @ concat (map (\<lambda>x. [Barrier, RegRead 0x20003004 x]) (t0 # ts @ [t]))\<rparr>)
     else None)"
proof (cases "0 < usec \<and> int (unat t0) + usec < 2 ^ 32")
  case True
  then show ?thesis
    using usleep_polls [OF assms(1) _ _ assms(4)] assms(5) by (auto simp: emit_def timer_reads_def)
next
  case False
  then show ?thesis using usleep_never_returns [OF assms(1-3)] assms(2) by auto
qed

theorem usleep_waits_until_trigger_witness:
  "usleep 10 \<lparr>reads = [100, 103, 109, 111, 7], trace = [], hw_errno = None\<rparr>
     = Some (0, \<lparr>reads = [7], trace = [Barrier, RegRead 0x20003004 100, Barrier, RegRead 0x20003004 103,
         Barrier, RegRead 0x20003004 109, Barrier, RegRead 0x20003004 111], hw_errno = None\<rparr>)
   \<and> usleep 10 \<lparr>reads = [0xffffffff, 103], trace = [], hw_errno = None\<rparr> = None"
  using usleep_waits_until_trigger [of "\<lparr>reads = [100, 103, 109, 111, 7], trace = [], hw_errno = None\<rparr>"
      100 "[103, 109]" 111 "[7]" 10]
    usleep_waits_until_trigger [of "\<lparr>reads = [0xffffffff, 103], trace = [], hw_errno = None\<rparr>"
      "0xffffffff" "[]" 103 "[]" 10]
  by simp

text \<open>If the deadline wraps around, or the interval is 0, \<open>usleep\<close> never returns, whatever the
  timer shows from then on.\<close>

theorem usleep_wrapped_never_returns:
  assumes "reads h = t0 # ts" and "0 \<le> usec" and "usec < 2 ^ 31"
    and "usec = 0 \<or> 2 ^ 32 \<le> int (unat t0) + usec"
  shows "usleep usec h = None"
  using assms by (rule usleep_never_returns)

theorem usleep_wrapped_never_returns_witness:
  "usleep 2000 \<lparr>reads = [0xFFFFFF00, 0xFFFFFFFF, 0, 1720, 5000], trace = [], hw_errno = None\<rparr> = None"
proof (rule usleep_wrapped_never_returns)
  have "unat (0xFFFFFF00 :: u32) = 0xFFFFFF00"
    using unat_of_nat32 [of "0xFFFFFF00"] by (simp add: of_nat_numeral)
  then show "(2000 :: int) = 0 \<or> 2 ^ 32 \<le> int (unat (0xFFFFFF00 :: u32)) + 2000"
    by simp
qed simp_all

end
