(* ===== verification/Uart.thy ===== *)
theory Uart
  imports Mmio
begin

text \<open>
  The serial ports: the PL011 driver of the kernel (\<open>rboot/uart.c\<close>) and the mini UART driver of the
  boot loader (\<open>bootloader/periph.c\<close>). \<open>PUT32\<close> and \<open>GET32\<close> of the boot loader are plain accesses
  without barriers; \<open>dummy\<close> does nothing.
\<close>

section \<open>uart.c\<close>

text \<open>The offset of \<open>GPIO_BASE\<close> is decimal in the source.\<close>

definition GPIO_BASE :: u32 where "GPIO_BASE = MEM_GPIO_BASE + 200000"
definition GPPUD :: u32 where "GPPUD = GPIO_BASE + 0x94"
definition GPPUDCLK0 :: u32 where "GPPUDCLK0 = GPIO_BASE + 0x98"
definition UART0_BASE :: u32 where "UART0_BASE = MEM_GPIO_BASE + 0x0201000"
definition UART0_DR :: u32 where "UART0_DR = UART0_BASE + 0x00"
definition UART0_FR :: u32 where "UART0_FR = UART0_BASE + 0x18"
definition UART0_IBRD :: u32 where "UART0_IBRD = UART0_BASE + 0x24"
definition UART0_FBRD :: u32 where "UART0_FBRD = UART0_BASE + 0x28"
definition UART0_LCRH :: u32 where "UART0_LCRH = UART0_BASE + 0x2C"
definition UART0_CR :: u32 where "UART0_CR = UART0_BASE + 0x30"
definition UART0_IMSC :: u32 where "UART0_IMSC = UART0_BASE + 0x38"
definition UART0_ICR :: u32 where "UART0_ICR = UART0_BASE + 0x44"

definition uart_init :: "hw \<Rightarrow> hw option" where
  "uart_init h0 = do {
     let h1 = mmio_write GPPUD 0 (mmio_write UART0_CR 0 h0);
     (_, h2) \<leftarrow> usleep 150000 h1;
     let h3 = mmio_write GPPUDCLK0 (push_bit 14 1 OR push_bit 15 1) h2;
     (_, h4) \<leftarrow> usleep 150000 h3;
     let h5 = mmio_write GPPUDCLK0 0 h4;
     let h6 = mmio_write UART0_ICR 0x7ff h5;
     let h7 = mmio_write UART0_FBRD 40 (mmio_write UART0_IBRD 1 h6);
     let h8 = mmio_write UART0_LCRH (push_bit 4 1 OR push_bit 5 1 OR push_bit 6 1) h7;
     let h9 = mmio_write UART0_IMSC (push_bit 1 1 OR push_bit 4 1 OR push_bit 5 1 OR push_bit 6 1
           OR push_bit 7 1 OR push_bit 8 1 OR push_bit 9 1 OR push_bit 10 1) h8;
     let h10 = mmio_write UART0_CR (push_bit 0 1 OR push_bit 8 1 OR push_bit 9 1) h9;
     Some h10
   }"

text \<open>\<open>while(mmio_read(UART0_FR) & (1 << bit)) usleep(2000);\<close>\<close>

partial_function (option) wait_flag_clear :: "nat \<Rightarrow> hw \<Rightarrow> hw option" where
  "wait_flag_clear b h = do {
     (fr, h1) \<leftarrow> mmio_read UART0_FR h;
     if bit fr b then do {
       (_, h2) \<leftarrow> usleep 2000 h1;
       wait_flag_clear b h2
     }
     else Some h1
   }"

text \<open>The inner call for a carriage return does not recurse again.\<close>

definition uart_putc_raw :: "int \<Rightarrow> hw \<Rightarrow> hw option" where
  "uart_putc_raw byte h = do {
     h1 \<leftarrow> wait_flag_clear 5 h;
     Some (mmio_write UART0_DR (word_of_int byte AND 0xff) h1)
   }"

definition uart_putc :: "int \<Rightarrow> hw \<Rightarrow> (int \<times> hw) option" where
  "uart_putc byte h = do {
     h1 \<leftarrow> uart_putc_raw byte h;
     if byte = 10 then do { h2 \<leftarrow> uart_putc_raw 13 h1; Some (byte, h2) }
     else Some (byte, h1)
   }"

definition uart_getc :: "hw \<Rightarrow> (int \<times> hw) option" where
  "uart_getc h = do {
     h1 \<leftarrow> wait_flag_clear 4 h;
     (d, h2) \<leftarrow> mmio_read UART0_DR h1;
     Some (sint (d AND 0xff), h2)
   }"

definition rx_ready :: "hw \<Rightarrow> (bool \<times> hw) option" where
  "rx_ready h = do {
     (fr, h1) \<leftarrow> mmio_read UART0_FR h;
     Some (\<not> bit fr 4, h1)
   }"

definition uart_getc_timeout :: "int \<Rightarrow> hw \<Rightarrow> (int \<times> hw) option" where
  "uart_getc_timeout timeout h = do {
     h1 \<leftarrow> timeout_wait rx_ready timeout h;
     (ready, h2) \<leftarrow> rx_ready h1;
     if ready then do {
       (d, h3) \<leftarrow> mmio_read UART0_DR h2;
       Some (sint (d AND 0xff), h3)
     }
     else Some (-1, h2)
   }"

primrec uart_puts :: "bytes \<Rightarrow> hw \<Rightarrow> hw option" where
  "uart_puts [] h = Some h"
| "uart_puts (c # cs) h = do {
     (_, h1) \<leftarrow> uart_putc (int (unat c)) h;
     uart_puts cs h1
   }"

section \<open>periph.c\<close>

definition PBASE :: u32 where "PBASE = 0x20000000"
definition ARM_TIMER_CTL :: u32 where "ARM_TIMER_CTL = PBASE + 0x0000B408"
definition ARM_TIMER_CNT :: u32 where "ARM_TIMER_CNT = PBASE + 0x0000B420"
definition GPFSEL1 :: u32 where "GPFSEL1 = PBASE + 0x00200004"
definition P_GPPUD :: u32 where "P_GPPUD = PBASE + 0x00200094"
definition P_GPPUDCLK0 :: u32 where "P_GPPUDCLK0 = PBASE + 0x00200098"
definition AUX_ENABLES :: u32 where "AUX_ENABLES = PBASE + 0x00215004"
definition AUX_MU_IO_REG :: u32 where "AUX_MU_IO_REG = PBASE + 0x00215040"
definition AUX_MU_IER_REG :: u32 where "AUX_MU_IER_REG = PBASE + 0x00215044"
definition AUX_MU_IIR_REG :: u32 where "AUX_MU_IIR_REG = PBASE + 0x00215048"
definition AUX_MU_LCR_REG :: u32 where "AUX_MU_LCR_REG = PBASE + 0x0021504C"
definition AUX_MU_MCR_REG :: u32 where "AUX_MU_MCR_REG = PBASE + 0x00215050"
definition AUX_MU_LSR_REG :: u32 where "AUX_MU_LSR_REG = PBASE + 0x00215054"
definition AUX_MU_CNTL_REG :: u32 where "AUX_MU_CNTL_REG = PBASE + 0x00215060"
definition AUX_MU_BAUD_REG :: u32 where "AUX_MU_BAUD_REG = PBASE + 0x00215068"

definition PUT32 :: "u32 \<Rightarrow> u32 \<Rightarrow> hw \<Rightarrow> hw" where
  "PUT32 a d h = emit [RegWrite a d] h"

definition GET32 :: "u32 \<Rightarrow> hw \<Rightarrow> (u32 \<times> hw) option" where
  "GET32 a h = (case reads h of [] \<Rightarrow> None | v # vs \<Rightarrow> Some (v, emit [RegRead a v] (h\<lparr>reads := vs\<rparr>)))"

definition lsr_read :: "hw \<Rightarrow> (u32 \<times> hw) option" where
  "lsr_read h = GET32 AUX_MU_LSR_REG h"

text \<open>\<open>while(1) { if(GET32(AUX_MU_LSR_REG) satisfies P) break; }\<close>\<close>

partial_function (option) lsr_wait :: "(u32 \<Rightarrow> bool) \<Rightarrow> hw \<Rightarrow> hw option" where
  "lsr_wait P h = do {
     (v, h1) \<leftarrow> GET32 AUX_MU_LSR_REG h;
     if P v then Some h1 else lsr_wait P h1
   }"

definition mu_uart_recv :: "hw \<Rightarrow> (u32 \<times> hw) option" where
  "mu_uart_recv h = do {
     h1 \<leftarrow> lsr_wait (\<lambda>v. v AND 0x01 \<noteq> 0) h;
     (d, h2) \<leftarrow> GET32 AUX_MU_IO_REG h1;
     Some (d AND 0xFF, h2)
   }"

definition mu_uart_check :: "hw \<Rightarrow> (u32 \<times> hw) option" where
  "mu_uart_check h = do {
     (v, h1) \<leftarrow> GET32 AUX_MU_LSR_REG h;
     Some (if v AND 0x01 \<noteq> 0 then 1 else 0, h1)
   }"

definition mu_uart_send :: "u32 \<Rightarrow> hw \<Rightarrow> hw option" where
  "mu_uart_send c h = do {
     h1 \<leftarrow> lsr_wait (\<lambda>v. v AND 0x20 \<noteq> 0) h;
     Some (PUT32 AUX_MU_IO_REG c h1)
   }"

definition mu_uart_flush :: "hw \<Rightarrow> hw option" where
  "mu_uart_flush h = lsr_wait (\<lambda>v. v AND 0x100 = 0) h"

definition mu_uart_init :: "hw \<Rightarrow> hw option" where
  "mu_uart_init h0 = do {
     let h1 = fold (\<lambda>(a, d). PUT32 a d)
       [(AUX_ENABLES, 1), (AUX_MU_IER_REG, 0), (AUX_MU_CNTL_REG, 0), (AUX_MU_LCR_REG, 3),
        (AUX_MU_MCR_REG, 0), (AUX_MU_IER_REG, 0), (AUX_MU_IIR_REG, 0xC6), (AUX_MU_BAUD_REG, 270)] h0;
     (ra, h2) \<leftarrow> GET32 GPFSEL1 h1;
     let ra1 = ra AND NOT (push_bit 12 7);
     let ra2 = ra1 OR push_bit 12 2;
     let ra3 = ra2 AND NOT (push_bit 15 7);
     let ra4 = ra3 OR push_bit 15 2;
     Some (fold (\<lambda>(a, d). PUT32 a d)
       [(GPFSEL1, ra4), (P_GPPUD, 0), (P_GPPUDCLK0, push_bit 14 1 OR push_bit 15 1),
        (P_GPPUDCLK0, 0), (AUX_MU_CNTL_REG, 3)] h2)
   }"

definition mu_timer_init :: "hw \<Rightarrow> hw" where
  "mu_timer_init h = PUT32 ARM_TIMER_CTL 0x00F90200 (PUT32 ARM_TIMER_CTL 0x00F90000 h)"

definition mu_timer_tick :: "hw \<Rightarrow> (u32 \<times> hw) option" where
  "mu_timer_tick h = GET32 ARM_TIMER_CNT h"

section \<open>Sending\<close>

text \<open>The status register shows \<open>k\<close> times that the flag \<open>b\<close> is set; each time the driver sleeps.
  \<open>naps\<close> are the timer readings of these sleeps.\<close>

definition nap :: "u32 list \<Rightarrow> bool" where
  "nap rs \<longleftrightarrow> (\<exists>t0 ts t. rs = t0 # ts @ [t] \<and> int (unat t0) + 2000 < 2 ^ 32
     \<and> (\<forall>x \<in> set ts. int (unat x) < int (unat t0) + 2000) \<and> int (unat t0) + 2000 \<le> int (unat t))"

fun busy :: "nat \<Rightarrow> (u32 \<times> u32 list) list \<Rightarrow> bool" where
  "busy b [] = True"
| "busy b ((fr, rs) # bs) \<longleftrightarrow> bit fr b \<and> nap rs \<and> busy b bs"

definition polls :: "(u32 \<times> u32 list) list \<Rightarrow> u32 list" where
  "polls bs = concat (map (\<lambda>(fr, rs). fr # rs) bs)"

lemma wait_flag_clear_ok:
  "reads h = polls bs @ fr # rest \<Longrightarrow> busy b bs \<Longrightarrow> \<not> bit fr b \<Longrightarrow>
   \<exists>h'. wait_flag_clear b h = Some h' \<and> reads h' = rest \<and> (\<forall>r. written r h' = written r h)"
proof (induction bs arbitrary: h)
  case Nil
  then show ?case by (subst wait_flag_clear.simps) (simp add: polls_def)
next
  case (Cons p bs)
  obtain f rs where p: "p = (f, rs)" by (cases p)
  then obtain t0 ts t where rs: "rs = t0 # ts @ [t]" "int (unat t0) + 2000 < 2 ^ 32"
    "\<forall>x \<in> set ts. int (unat x) < int (unat t0) + 2000" "int (unat t0) + 2000 \<le> int (unat t)"
    and f: "bit f b" and bs: "busy b bs"
    using Cons.prems(2) by (auto simp: nap_def)
  let ?h1 = "emit [Barrier, RegRead UART0_FR f] (h\<lparr>reads := t0 # ts @ t # (polls bs @ fr # rest)\<rparr>)"
  have r1: "mmio_read UART0_FR h = Some (f, ?h1)"
    using Cons.prems(1) p rs(1) by (simp add: polls_def)
  obtain h2 where h2: "usleep 2000 ?h1 = Some (0, h2)" "reads h2 = polls bs @ fr # rest"
    "\<forall>r. written r h2 = written r ?h1"
    using usleep_returns [of ?h1 t0 ts t "polls bs @ fr # rest" 2000] rs by auto
  have "wait_flag_clear b h = wait_flag_clear b h2"
    using r1 f h2(1) by (subst wait_flag_clear.simps) simp
  then show ?case using Cons.IH [OF h2(2) bs Cons.prems(3)] h2(3) by simp
qed

section \<open>Properties\<close>

text \<open>\<open>uart_putc\<close> waits until the transmitter has room, however often it is busy, and then puts
  exactly the low byte of its argument into the data register; a newline is followed by a carriage
  return, sent the same way.\<close>

theorem uart_putc_sends:
  assumes "reads h = polls bs @ fr # polls bs' @ fr' # rest" and "busy 5 bs" and "busy 5 bs'"
    and "\<not> bit fr 5" and "\<not> bit fr' 5"
  shows "\<exists>h'. uart_putc c h = Some (c, h')
    \<and> written UART0_DR h' = written UART0_DR h
        @ (if c = 10 then [10, 13] else [word_of_int c AND 0xff])
    \<and> reads h' = (if c = 10 then rest else polls bs' @ fr' # rest)"
proof -
  obtain h1 where h1: "wait_flag_clear 5 h = Some h1" "reads h1 = polls bs' @ fr' # rest"
    "written UART0_DR h1 = written UART0_DR h"
    using wait_flag_clear_ok [OF assms(1,2,4)] by blast
  let ?h2 = "mmio_write UART0_DR (word_of_int c AND 0xff) h1"
  have "reads ?h2 = polls bs' @ fr' # rest" using h1(2) by simp
  then obtain h3 where h3: "wait_flag_clear 5 ?h2 = Some h3" "reads h3 = rest"
    "written UART0_DR h3 = written UART0_DR ?h2"
    using wait_flag_clear_ok [OF _ assms(3,5)] by blast
  show ?thesis using h1 h3 by (auto simp: uart_putc_def uart_putc_raw_def)
qed

theorem uart_putc_sends_witness:
  "\<exists>h'. uart_putc 10 \<lparr>reads = [0x20, 100, 900, 2100, 0, 0x10, 7], trace = [], hw_errno = None\<rparr> = Some (10, h')
    \<and> written UART0_DR h' = [10, 13] \<and> reads h' = [7]"
proof -
  have "polls [(0x20, [100, 900, 2100])] = [0x20, 100, 900, 2100]" by (simp add: polls_def)
  moreover have "\<exists>t0 ts t. [100, 900, 2100 :: u32] = t0 # ts @ [t] \<and> int (unat t0) + 2000 < 2 ^ 32
     \<and> (\<forall>x \<in> set ts. int (unat x) < int (unat t0) + 2000) \<and> int (unat t0) + 2000 \<le> int (unat t)"
    by (intro exI [of _ 100] exI [of _ "[900]"] exI [of _ 2100]) simp
  moreover have "bit (0x20 :: u32) 5" "\<not> bit (0 :: u32) 5" "\<not> bit (0x10 :: u32) 5"
    by code_simp+
  ultimately show ?thesis
    using uart_putc_sends [of "\<lparr>reads = [0x20, 100, 900, 2100, 0, 0x10, 7], trace = [], hw_errno = None\<rparr>"
      "[(0x20, [100, 900, 2100])]" "0" "[]" "0x10" "[7]" 10]
    by (auto simp: polls_def written_def nap_def)
qed

end
