(* ===== verification/Mailbox.thy ===== *)
theory Mailbox
  imports Uart
begin

text \<open>
  The mailboxes of the VideoCore: the channel access of the kernel (\<open>rboot/mbox.c\<close>) and of the
  property library (\<open>valvers/rpi-mailbox.c\<close>), the property tag buffer
  (\<open>valvers/rpi-mailbox-interface.c\<close>) and the frame buffer set-up that uses them (\<open>rboot/fb.c\<close>).

  The firmware is not part of the repository: \<open>vc\<close> is what it makes of the message buffer between
  the write of its address and the answer. \<open>pt\<close> is the buffer of 8192 words, \<open>pt_index\<close> its fill
  level; an access outside it is \<^term>\<open>None\<close>.
\<close>

section \<open>mbox.c\<close>

definition MBOX_BASE :: u32 where "MBOX_BASE = MEM_GPIO_BASE + 0x000b880"
definition MBOX_READ :: u32 where "MBOX_READ = 0x00"
definition MBOX_WRITE :: u32 where "MBOX_WRITE = 0x20"
definition MBOX_STATUS :: u32 where "MBOX_STATUS = 0x18"
definition MBOX_PROP :: u8 where "MBOX_PROP = 8"
definition MBOX_SUCCESS :: u32 where "MBOX_SUCCESS = 0x80000000"
definition MBOX_FULL :: u32 where "MBOX_FULL = 0x80000000"
definition MBOX_EMPTY :: u32 where "MBOX_EMPTY = 0x40000000"

text \<open>\<open>while(mmio_read(MBOX_BASE + MBOX_STATUS) & mask);\<close>\<close>

partial_function (option) mbox_wait :: "u32 \<Rightarrow> hw \<Rightarrow> hw option" where
  "mbox_wait m h = do {
     (st, h1) \<leftarrow> mmio_read (MBOX_BASE + MBOX_STATUS) h;
     if st AND m \<noteq> 0 then mbox_wait m h1 else Some h1
   }"

partial_function (option) mbox_read :: "u8 \<Rightarrow> hw \<Rightarrow> (u32 \<times> hw) option" where
  "mbox_read channel h = do {
     h1 \<leftarrow> mbox_wait MBOX_EMPTY h;
     (d, h2) \<leftarrow> mmio_read (MBOX_BASE + MBOX_READ) h1;
     if ucast (d AND 0xf) = channel then Some (d AND 0xfffffff0, h2) else mbox_read channel h2
   }"

definition mbox_write :: "u8 \<Rightarrow> u32 \<Rightarrow> hw \<Rightarrow> hw option" where
  "mbox_write channel d h = do {
     h1 \<leftarrow> mbox_wait MBOX_FULL h;
     Some (mmio_write (MBOX_BASE + MBOX_WRITE)
       ((d AND 0xfffffff0) OR ucast (channel AND 0xf)) h1)
   }"

section \<open>rpi-mailbox.c\<close>

definition RPI_MBOX_BASE :: u32 where "RPI_MBOX_BASE = MEM_GPIO_BASE + 0xB880"

text \<open>The fields \<open>Read\<close>, \<open>Status\<close> and \<open>Write\<close> of \<open>mailbox_t\<close>.\<close>

definition rpi_mbox_Read :: u32 where "rpi_mbox_Read = RPI_MBOX_BASE"
definition rpi_mbox_Status :: u32 where "rpi_mbox_Status = RPI_MBOX_BASE + 0x18"
definition rpi_mbox_Write :: u32 where "rpi_mbox_Write = RPI_MBOX_BASE + 0x20"

partial_function (option) rpi_status_wait :: "u32 \<Rightarrow> hw \<Rightarrow> hw option" where
  "rpi_status_wait m h = do {
     (st, h1) \<leftarrow> GET32 rpi_mbox_Status h;
     if st AND m \<noteq> 0 then rpi_status_wait m h1 else Some h1
   }"

definition rpi_mbox_write :: "u32 \<Rightarrow> u32 \<Rightarrow> hw \<Rightarrow> hw option" where
  "rpi_mbox_write channel v h = do {
     h1 \<leftarrow> rpi_status_wait MBOX_FULL h;
     Some (PUT32 rpi_mbox_Write ((v AND NOT 0xF) OR channel) h1)
   }"

text \<open>The value is a signed integer; its shift by 4 keeps the sign.\<close>

partial_function (option) rpi_mbox_read_loop :: "u32 \<Rightarrow> u32 \<Rightarrow> hw \<Rightarrow> (u32 \<times> hw) option" where
  "rpi_mbox_read_loop channel v h =
     (if v AND 0xF \<noteq> channel then do {
        h1 \<leftarrow> rpi_status_wait MBOX_EMPTY h;
        (v', h2) \<leftarrow> GET32 rpi_mbox_Read h1;
        rpi_mbox_read_loop channel v' h2
      }
      else Some (v, h))"

definition rpi_mbox_read :: "u32 \<Rightarrow> hw \<Rightarrow> (int \<times> hw) option" where
  "rpi_mbox_read channel h = do {
     (v, h1) \<leftarrow> rpi_mbox_read_loop channel (-1) h;
     Some (sint v div 16, h1)
   }"

section \<open>rpi-mailbox-interface.c\<close>

record prop_buffer =
  pt :: "u32 list"
  pt_index :: nat

definition PT_OSIZE :: nat where "PT_OSIZE = 0"
definition PT_OREQUEST_OR_RESPONSE :: nat where "PT_OREQUEST_OR_RESPONSE = 1"
definition T_ORESPONSE :: nat where "T_ORESPONSE = 2"
definition T_OVALUE :: nat where "T_OVALUE = 3"

text \<open>The tags of each \<open>case\<close> of \<open>rpi_property_add_tag\<close>.\<close>

definition tags_info8 :: "u32 list" where
  "tags_info8 = [0x1, 0x10001, 0x10002, 0x10003, 0x10004, 0x10005, 0x10006, 0x60001]"

definition tags_info256 :: "u32 list" where
  "tags_info256 = [0x10007, 0x50001]"

definition tags_clock :: "u32 list" where
  "tags_clock = [0x40001, 0x30004, 0x30007, 0x30002]"

definition TAG_SET_CLOCK_RATE :: u32 where "TAG_SET_CLOCK_RATE = 0x38002"

definition tags_size_set :: "u32 list" where
  "tags_size_set = [0x48003, 0x48004, 0x48009, 0x44003, 0x44004]"

definition tags_size_get :: "u32 list" where
  "tags_size_get = [0x40003, 0x40004, 0x40009]"

definition tags_mode_set :: "u32 list" where
  "tags_mode_set = [0x48005, 0x48006, 0x48007]"

definition tags_mode_get :: "u32 list" where
  "tags_mode_get = [0x40007, 0x40005, 0x40006, 0x40008]"

definition TAG_GET_OVERSCAN :: u32 where "TAG_GET_OVERSCAN = 0x4000A"
definition TAG_SET_OVERSCAN :: u32 where "TAG_SET_OVERSCAN = 0x4800A"

definition rpi_property_init :: "prop_buffer \<Rightarrow> prop_buffer" where
  "rpi_property_init p =
     \<lparr>pt = ((pt p)[PT_OSIZE := 12, PT_OREQUEST_OR_RESPONSE := 0])[2 := 0], pt_index = 2\<rparr>"

text \<open>\<open>pt[pt_index++] = v\<close>, a sequence of them, and \<open>pt_index += n\<close>.\<close>

definition pt_put :: "u32 \<Rightarrow> prop_buffer \<Rightarrow> prop_buffer option" where
  "pt_put v p = (if pt_index p \<ge> length (pt p) then None
     else Some \<lparr>pt = (pt p)[pt_index p := v], pt_index = pt_index p + 1\<rparr>)"

primrec pt_puts :: "u32 list \<Rightarrow> prop_buffer \<Rightarrow> prop_buffer option" where
  "pt_puts [] p = Some p"
| "pt_puts (v # vs) p = do { p' \<leftarrow> pt_put v p; pt_puts vs p' }"

definition pt_skip :: "nat \<Rightarrow> prop_buffer \<Rightarrow> prop_buffer" where
  "pt_skip n p = p\<lparr>pt_index := pt_index p + n\<rparr>"

text \<open>\<open>args\<close> are the variable arguments; taking more than there are is undefined.\<close>

definition rpi_property_add_tag :: "u32 \<Rightarrow> u32 list \<Rightarrow> prop_buffer \<Rightarrow> prop_buffer option" where
  "rpi_property_add_tag tag args p = do {
     p1 \<leftarrow> pt_put tag p;
     p2 \<leftarrow>
       (if tag \<in> set tags_info8 then map_option (pt_skip 2) (pt_puts [8, 0] p1)
        else if tag \<in> set tags_info256 then map_option (pt_skip 64) (pt_puts [256, 0] p1)
        else if tag \<in> set tags_clock then
          (if length args < 1 then None else pt_puts [8, 0, args ! 0, 0] p1)
        else if tag = TAG_SET_CLOCK_RATE then
          (if length args < 3 then None else pt_puts ([12, 0] @ take 3 args) p1)
        else if tag \<in> set tags_size_set then
          (if length args < 2 then None else pt_puts ([8, 0] @ take 2 args) p1)
        else if tag \<in> set tags_size_get then map_option (pt_skip 2) (pt_puts [8, 0] p1)
        else if tag \<in> set tags_mode_set then
          (if length args < 1 then None else pt_puts ([4, 0] @ take 1 args) p1)
        else if tag \<in> set tags_mode_get then map_option (pt_skip 1) (pt_puts [4, 0] p1)
        else if tag = TAG_SET_OVERSCAN then
          (if length args < 4 then None else pt_puts ([16, 0] @ take 4 args) p1)
        else if tag = TAG_GET_OVERSCAN then map_option (pt_skip 4) (pt_puts [16, 0] p1)
        else Some (p1\<lparr>pt_index := pt_index p1 - 1\<rparr>));
     if pt_index p2 \<ge> length (pt p2) then None
     else Some (p2\<lparr>pt := (pt p2)[pt_index p2 := 0]\<rparr>)
   }"

text \<open>\<open>addr\<close> is the address of the buffer.\<close>

definition rpi_property_process ::
  "(u32 list \<Rightarrow> u32 list) \<Rightarrow> u32 \<Rightarrow> prop_buffer \<Rightarrow> hw \<Rightarrow> (int \<times> prop_buffer \<times> hw) option" where
  "rpi_property_process vc addr p h = do {
     let p1 = p\<lparr>pt := (pt p)[PT_OSIZE := of_nat ((pt_index p + 1) * 4), PT_OREQUEST_OR_RESPONSE := 0]\<rparr>;
     h1 \<leftarrow> rpi_mbox_write 8 addr h;
     (result, h2) \<leftarrow> rpi_mbox_read 8 h1;
     Some (result, p1\<lparr>pt := vc (pt p1)\<rparr>, h2)
   }"

text \<open>The search of \<open>rpi_property_get\<close>; \<open>pt[...] >> 2\<close> is the shift of a signed integer.\<close>

partial_function (option) find_tag :: "u32 list \<Rightarrow> u32 \<Rightarrow> int \<Rightarrow> int option option" where
  "find_tag buf tag index =
     (if index < sint (buf ! PT_OSIZE) div 4 then
        (if index < 0 \<or> nat index + 1 \<ge> length buf then None
         else if buf ! nat index = tag then Some (Some index)
         else find_tag buf tag (index + sint (buf ! (nat index + 1)) div 4 + 3))
      else Some None)"

definition word_bytes :: "u32 \<Rightarrow> bytes" where
  "word_bytes w = [ucast w, ucast (drop_bit 8 w), ucast (drop_bit 16 w), ucast (drop_bit 24 w)]"

text \<open>The result is a null pointer or the tag, the length and the bytes of the value; the structure
  has room for 256 bytes.\<close>

definition rpi_property_get :: "u32 \<Rightarrow> prop_buffer \<Rightarrow> (u32 \<times> nat \<times> bytes) option option" where
  "rpi_property_get tag p = do {
     r \<leftarrow> find_tag (pt p) tag 2;
     (case r of
        None \<Rightarrow> Some None
      | Some index \<Rightarrow>
          (let i = nat index in
           if i + T_ORESPONSE \<ge> length (pt p) then None
           else
             (let n = unat (pt p ! (i + T_ORESPONSE) AND 0xFFFF);
                  value = concat (map word_bytes (drop (i + T_OVALUE) (pt p)))
              in if n > 256 \<or> n > length value then None else Some (Some (tag, n, take n value)))))
   }"

section \<open>fb.c\<close>

record frame_buffer =
  phys_w :: u32
  phys_h :: u32
  virt_w :: u32
  virt_h :: u32
  pitch :: u32
  fb_addr :: u32
  fb_size :: u32

definition WIDTH :: u32 where "WIDTH = 640"
definition HEIGHT :: u32 where "HEIGHT = 480"
definition BYTES_PER_PIXEL :: u32 where "BYTES_PER_PIXEL = 2"
definition BPP :: u32 where "BPP = push_bit 3 BYTES_PER_PIXEL"

definition FB_FAIL_GET_RESOLUTION :: int where "FB_FAIL_GET_RESOLUTION = -1"
definition FB_FAIL_INVALID_RESOLUTION :: int where "FB_FAIL_INVALID_RESOLUTION = -2"
definition FB_FAIL_SETUP_FB :: int where "FB_FAIL_SETUP_FB = -3"
definition FB_FAIL_INVALID_TAG_RESPONSE :: int where "FB_FAIL_INVALID_TAG_RESPONSE = -5"
definition FB_FAIL_INVALID_TAG_DATA :: int where "FB_FAIL_INVALID_TAG_DATA = -6"
definition FB_FAIL_INVALID_PITCH_RESPONSE :: int where "FB_FAIL_INVALID_PITCH_RESPONSE = -7"
definition FB_FAIL_INVALID_PITCH_DATA :: int where "FB_FAIL_INVALID_PITCH_DATA = -8"

definition mb_addr :: u32 where "mb_addr = 0x40007000"

text \<open>One exchange: the message is stored at the start of the mail buffer, sent and answered.\<close>

definition fb_exchange ::
  "(u32 list \<Rightarrow> u32 list) \<Rightarrow> u32 list \<Rightarrow> u32 list \<Rightarrow> hw \<Rightarrow> (u32 list \<times> hw) option" where
  "fb_exchange vc msg mailbuffer h = do {
     h1 \<leftarrow> mbox_write MBOX_PROP mb_addr h;
     (_, h2) \<leftarrow> mbox_read MBOX_PROP h1;
     Some (vc (splice mailbuffer 0 msg), h2)
   }"

definition size_message :: "u32 list" where
  "size_message = [8 * 4, 0, 0x40003, 0x8, 0, 0, 0, 0]"

definition setup_message :: "u32 \<Rightarrow> u32 \<Rightarrow> u32 list" where
  "setup_message w ht = [22 * 4, 0, 0x48003, 8, 8, w, ht, 0x48004, 8, 8, w, ht,
     0x48005, 4, 4, BPP, 0x40001, 8, 4, 16, 0, 0]"

definition pitch_message :: "u32 list" where
  "pitch_message = [7 * 4, 0, 0x40008, 4, 0, 0, 0]"

definition fb_init ::
  "(u32 list \<Rightarrow> u32 list) \<Rightarrow> u32 list \<Rightarrow> frame_buffer \<Rightarrow> hw \<Rightarrow> (int \<times> frame_buffer \<times> hw) option" where
  "fb_init vc mailbuffer fb h = do {
     (m1, h1) \<leftarrow> fb_exchange vc size_message mailbuffer h;
     if m1 ! 1 \<noteq> MBOX_SUCCESS then Some (FB_FAIL_GET_RESOLUTION, fb, h1)
     else do {
       let none = (m1 ! 5 = 0 \<and> m1 ! 6 = 0);
       let fb1 = fb\<lparr>phys_w := (if none then WIDTH else m1 ! 5), phys_h := (if none then HEIGHT else m1 ! 6)\<rparr>;
       if phys_w fb1 = 0 \<or> phys_h fb1 = 0 then Some (FB_FAIL_INVALID_RESOLUTION, fb1, h1)
       else do {
         let fb2 = fb1\<lparr>virt_w := phys_w fb1, virt_h := phys_h fb1\<rparr>;
         (m2, h2) \<leftarrow> fb_exchange vc (setup_message (phys_w fb2) (phys_h fb2)) m1 h1;
         if m2 ! 1 \<noteq> MBOX_SUCCESS then Some (FB_FAIL_SETUP_FB, fb2, h2)
         else if m2 ! 18 \<noteq> (MBOX_SUCCESS OR 8) then Some (FB_FAIL_INVALID_TAG_RESPONSE, fb2, h2)
         else do {
           let fb3 = fb2\<lparr>fb_addr := m2 ! 19, fb_size := m2 ! 20\<rparr>;
           if fb_addr fb3 = 0 \<or> fb_size fb3 = 0 then Some (FB_FAIL_INVALID_TAG_DATA, fb3, h2)
           else do {
             (m3, h3) \<leftarrow> fb_exchange vc pitch_message m2 h2;
             if m3 ! 1 \<noteq> MBOX_SUCCESS then Some (FB_FAIL_INVALID_PITCH_RESPONSE, fb3, h3)
             else if m3 ! 4 \<noteq> (MBOX_SUCCESS OR 4) then Some (FB_FAIL_INVALID_PITCH_RESPONSE, fb3, h3)
             else do {
               let fb4 = fb3\<lparr>pitch := m3 ! 5\<rparr>;
               if pitch fb4 = 0 then Some (FB_FAIL_INVALID_PITCH_DATA, fb4, h3)
               else Some (0, fb4, h3)
             }
           }
         }
       }
     }
   }"

definition fb_get_bpp :: u32 where "fb_get_bpp = BPP"
definition fb_get_byte_size :: "frame_buffer \<Rightarrow> u32" where
  "fb_get_byte_size fb = virt_w fb * virt_h fb * BYTES_PER_PIXEL"
definition fb_get_width :: "frame_buffer \<Rightarrow> u32" where "fb_get_width fb = virt_w fb"
definition fb_get_height :: "frame_buffer \<Rightarrow> u32" where "fb_get_height fb = virt_h fb"
definition fb_get_pitch :: "frame_buffer \<Rightarrow> u32" where "fb_get_pitch fb = pitch fb"
definition fb_get_framebuffer :: "frame_buffer \<Rightarrow> u32" where "fb_get_framebuffer fb = fb_addr fb"

section \<open>Channels\<close>

lemma mbox_wait_returns:
  "reads h = qs @ st # rest \<Longrightarrow> \<forall>x \<in> set qs. x AND m \<noteq> 0 \<Longrightarrow> st AND m = 0 \<Longrightarrow>
   \<exists>h'. mbox_wait m h = Some h' \<and> reads h' = rest \<and> (\<forall>r. written r h' = written r h)"
proof (induction qs arbitrary: h)
  case Nil
  then show ?case by (subst mbox_wait.simps) simp
next
  case (Cons x xs)
  let ?h = "emit [Barrier, RegRead (MBOX_BASE + MBOX_STATUS) x] (h\<lparr>reads := xs @ st # rest\<rparr>)"
  have "mbox_wait m h = mbox_wait m ?h" using Cons.prems by (subst mbox_wait.simps) simp
  then show ?case using Cons.IH [of ?h] Cons.prems by simp
qed

text \<open>What the registers show: for every message some readings of the status with the bit set, one
  without it, and the message.\<close>

primrec message_readings :: "(u32 list \<times> u32 \<times> u32) list \<Rightarrow> u32 list" where
  "message_readings [] = []"
| "message_readings (m # ms) = (case m of (qs, st, d) \<Rightarrow> qs @ st # d # message_readings ms)"

definition proper_polls :: "u32 list \<times> u32 \<times> u32 \<Rightarrow> bool" where
  "proper_polls m = (case m of (qs, st, d) \<Rightarrow>
     (\<forall>x \<in> set qs. x AND MBOX_EMPTY \<noteq> 0) \<and> st AND MBOX_EMPTY = 0)"

definition message_channel :: "u32 list \<times> u32 \<times> u32 \<Rightarrow> u8" where
  "message_channel m = ucast (snd (snd m) AND 0xf)"

lemma mbox_read_own:
  "reads h = message_readings (others @ [own]) @ rest \<Longrightarrow>
   \<forall>m \<in> set (others @ [own]). proper_polls m \<Longrightarrow>
   \<forall>m \<in> set others. message_channel m \<noteq> channel \<Longrightarrow> message_channel own = channel \<Longrightarrow>
   \<exists>h'. mbox_read channel h = Some (snd (snd own) AND 0xfffffff0, h') \<and> reads h' = rest
     \<and> (\<forall>r. written r h' = written r h)"
proof (induction others arbitrary: h)
  case Nil
  obtain qs st d where own: "own = (qs, st, d)" by (cases own)
  obtain h1 where "mbox_wait MBOX_EMPTY h = Some h1" "reads h1 = d # rest"
      "\<forall>r. written r h1 = written r h"
    using mbox_wait_returns [of h qs st "d # rest" MBOX_EMPTY] Nil own
    by (auto simp: proper_polls_def)
  then show ?case using Nil own
    by (subst mbox_read.simps) (simp add: message_channel_def)
next
  case (Cons m ms)
  obtain qs st d where m: "m = (qs, st, d)" by (cases m)
  let ?rest = "message_readings (ms @ [own]) @ rest"
  obtain h1 where h1: "mbox_wait MBOX_EMPTY h = Some h1" "reads h1 = d # ?rest"
      "\<forall>r. written r h1 = written r h"
    using mbox_wait_returns [of h qs st "d # ?rest" MBOX_EMPTY] Cons.prems m
    by (auto simp: proper_polls_def)
  let ?h2 = "emit [Barrier, RegRead (MBOX_BASE + MBOX_READ) d] (h1\<lparr>reads := ?rest\<rparr>)"
  have "mbox_read channel h = mbox_read channel ?h2"
    using h1 Cons.prems(3) m by (subst mbox_read.simps) (simp add: message_channel_def)
  then show ?case using Cons.IH [of ?h2] Cons.prems h1 by simp
qed

section \<open>The tag buffer\<close>

text \<open>A list of tags with the number of words of their values, as it lies in the buffer.\<close>

fun tag_layout :: "(u32 \<times> nat) list \<Rightarrow> u32 list \<Rightarrow> nat \<Rightarrow> bool" where
  "tag_layout [] buf i = True"
| "tag_layout ((t, n) # ts) buf i =
     (n \<le> 64 \<and> i + n + 3 < length buf \<and> buf ! i = t \<and> buf ! (i + 1) = of_nat (4 * n)
      \<and> tag_layout ts buf (i + n + 3))"

definition layout_words :: "(u32 \<times> nat) list \<Rightarrow> nat" where
  "layout_words ts = (\<Sum>t\<leftarrow>ts. snd t + 3)"

lemma layout_words_simps [simp]:
  "layout_words [] = 0"
  "layout_words (t # ts) = snd t + 3 + layout_words ts"
  "layout_words (ts @ ts') = layout_words ts + layout_words ts'"
  by (simp_all add: layout_words_def)

lemma tag_layout_append [simp]:
  "tag_layout (ts @ ts') buf i \<longleftrightarrow> tag_layout ts buf i \<and> tag_layout ts' buf (i + layout_words ts)"
  by (induction ts buf i rule: tag_layout.induct) (auto simp: add.assoc add.commute add.left_commute)

lemma tag_layout_cong:
  "tag_layout ts buf i \<Longrightarrow> length buf' = length buf \<Longrightarrow>
   (\<And>j. i \<le> j \<Longrightarrow> j < i + layout_words ts \<Longrightarrow> buf' ! j = buf ! j) \<Longrightarrow> tag_layout ts buf' i"
  by (induction ts buf i rule: tag_layout.induct) auto

lemma sint_tag_size: "n \<le> 64 \<Longrightarrow> sint (of_nat (4 * n) :: u32) div 4 = int n"
proof -
  assume "n \<le> 64"
  then have "sint (word_of_int (int (4 * n)) :: u32) = int (4 * n)" by (intro sint_of_nat32) simp
  then show ?thesis by simp
qed

lemmas sint_tag_size' = sint_tag_size [simplified]

lemma find_tag_layout:
  "tag_layout (ts @ (t, n) # ts') buf i \<Longrightarrow> t \<notin> fst ` set ts \<Longrightarrow>
   int (i + layout_words (ts @ [(t, n)])) < sint (buf ! 0) div 4 \<Longrightarrow>
   find_tag buf t (int i) = Some (Some (int (i + layout_words ts)))"
proof (induction ts arbitrary: i)
  case Nil
  then show ?case by (subst find_tag.simps) (simp add: PT_OSIZE_def)
next
  case (Cons x xs)
  obtain u m where x: "x = (u, m)" by (cases x)
  have "find_tag buf t (int i) = find_tag buf t (int i + sint (buf ! (nat (int i) + 1)) div 4 + 3)"
    using Cons.prems x by (subst find_tag.simps) (auto simp: PT_OSIZE_def)
  also have "int i + sint (buf ! (nat (int i) + 1)) div 4 + 3 = int (i + m + 3)"
    using Cons.prems x by (simp add: sint_tag_size')
  also have "find_tag buf t (int (i + m + 3)) = Some (Some (int (i + m + 3 + layout_words xs)))"
    using Cons.prems x by (intro Cons.IH) (auto simp: add.assoc add.commute add.left_commute)
  finally show ?case using x by (simp add: add.assoc add.commute add.left_commute)
qed

text \<open>Adding a tag.\<close>

lemma pt_put_Some:
  "pt_put v p = Some p' \<longleftrightarrow>
   pt_index p < length (pt p) \<and> p' = \<lparr>pt = (pt p)[pt_index p := v], pt_index = pt_index p + 1\<rparr>"
  by (auto simp: pt_put_def)

lemma pt_puts_Some:
  assumes "pt_puts vs p = Some p'"
  shows "pt_index p' = pt_index p + length vs" and "length (pt p') = length (pt p)"
    and "\<And>j. pt p' ! j = (if pt_index p \<le> j \<and> j < pt_index p + length vs then vs ! (j - pt_index p) else pt p ! j)"
    and "vs \<noteq> [] \<Longrightarrow> pt_index p' \<le> length (pt p)"
proof -
  have "pt_index p' = pt_index p + length vs \<and> length (pt p') = length (pt p) \<and>
    (\<forall>j. pt p' ! j = (if pt_index p \<le> j \<and> j < pt_index p + length vs then vs ! (j - pt_index p) else pt p ! j))
    \<and> (vs \<noteq> [] \<longrightarrow> pt_index p' \<le> length (pt p))"
    using assms
  proof (induction vs arbitrary: p)
    case (Cons v vs)
    obtain p1 where p1: "pt_put v p = Some p1" "pt_puts vs p1 = Some p'"
      using Cons.prems by (auto split: bind_splits)
    note IH = Cons.IH [OF p1(2)]
    show ?case using IH p1(1)
      by (cases vs) (auto simp: pt_put_Some nth_Cons' nth_list_update)
  qed auto
  then show "pt_index p' = pt_index p + length vs" "length (pt p') = length (pt p)"
    "\<And>j. pt p' ! j = (if pt_index p \<le> j \<and> j < pt_index p + length vs then vs ! (j - pt_index p) else pt p ! j)"
    "vs \<noteq> [] \<Longrightarrow> pt_index p' \<le> length (pt p)" by auto
qed

definition supported_tags :: "u32 list" where
  "supported_tags = tags_info8 @ tags_info256 @ tags_clock @ [TAG_SET_CLOCK_RATE] @ tags_size_set
     @ tags_size_get @ tags_mode_set @ tags_mode_get @ [TAG_SET_OVERSCAN, TAG_GET_OVERSCAN]"

text \<open>A supported tag puts the size and a request code, some arguments, and leaves room.\<close>

definition add_shape :: "u32 \<Rightarrow> nat \<Rightarrow> u32 list \<Rightarrow> nat \<Rightarrow> prop_buffer \<Rightarrow> prop_buffer \<Rightarrow> bool" where
  "add_shape tag n vs k p p' = (\<exists>p2. n \<le> 64 \<and> length vs + k = n
     \<and> pt_puts (tag # of_nat (4 * n) # 0 # vs) p = Some p2 \<and> pt_index p2 + k < length (pt p2)
     \<and> p' = \<lparr>pt = (pt p2)[pt_index p2 + k := 0], pt_index = pt_index p2 + k\<rparr>)"

lemma add_shapeI:
  assumes "pt_put tag p = Some p1" and "pt_puts (sz # 0 # vs) p1 = Some q"
    and "pt_index (pt_skip k q) < length (pt (pt_skip k q))"
    and "p' = (pt_skip k q)\<lparr>pt := (pt (pt_skip k q))[pt_index (pt_skip k q) := 0]\<rparr>"
    and "n \<le> 64" and "length vs + k = n" and "sz = of_nat (4 * n)"
  shows "add_shape tag n vs k p p'"
  using assms by (auto simp: add_shape_def pt_skip_def intro: prop_buffer.equality)

lemma pt_skip_0 [simp]: "map_option (pt_skip 0) x = x"
  by (cases x) (simp_all add: pt_skip_def)

lemma min_length_1: "xs \<noteq> [] \<Longrightarrow> min (length xs) (Suc 0) = Suc 0"
  by (cases xs) simp_all

lemma add_tag_shape:
  assumes "rpi_property_add_tag tag args p = Some p'" and "tag \<in> set supported_tags"
  shows "\<exists>n vs k. add_shape tag n vs k p p'"
proof -
  obtain p1 where p1: "pt_put tag p = Some p1"
    using assms(1) by (auto simp: rpi_property_add_tag_def split: bind_splits)
  have *: "\<exists>n vs k. add_shape tag n vs k p p'"
    if "do { p2 \<leftarrow> map_option (pt_skip k) (pt_puts (sz # 0 # vs) p1);
            if pt_index p2 \<ge> length (pt p2) then None
            else Some (p2\<lparr>pt := (pt p2)[pt_index p2 := 0]\<rparr>) } = Some p'"
      "n \<le> 64" "length vs + k = n" "sz = of_nat (4 * n)" for n vs k sz
  proof -
    note body = that
    obtain q where "pt_puts (sz # 0 # vs) p1 = Some q"
      using body(1) by (cases "pt_puts (sz # 0 # vs) p1") (simp_all del: pt_puts.simps)
    then have "add_shape tag n vs k p p'"
      using body by (intro add_shapeI [OF p1, of sz vs q]) (auto simp del: pt_puts.simps split: if_splits)
    then show ?thesis by blast
  qed
  note eq = assms(1) [unfolded rpi_property_add_tag_def p1 Option.bind.bind_lunit]
  have supported: "tag \<in> set tags_info8 \<or> tag \<in> set tags_info256 \<or> tag \<in> set tags_clock
      \<or> tag = TAG_SET_CLOCK_RATE \<or> tag \<in> set tags_size_set \<or> tag \<in> set tags_size_get
      \<or> tag \<in> set tags_mode_set \<or> tag \<in> set tags_mode_get
      \<or> tag = TAG_SET_OVERSCAN \<or> tag = TAG_GET_OVERSCAN"
    using assms(2) unfolding supported_tags_def
    by (simp only: set_append Un_iff list.set insert_iff empty_iff) blast
  consider
      "tag \<in> set tags_info8"
    | "tag \<notin> set tags_info8" "tag \<in> set tags_info256"
    | "tag \<notin> set tags_info8" "tag \<notin> set tags_info256" "tag \<in> set tags_clock"
    | "tag \<notin> set tags_info8" "tag \<notin> set tags_info256" "tag \<notin> set tags_clock" "tag = TAG_SET_CLOCK_RATE"
    | "tag \<notin> set tags_info8" "tag \<notin> set tags_info256" "tag \<notin> set tags_clock" "tag \<noteq> TAG_SET_CLOCK_RATE" "tag \<in> set tags_size_set"
    | "tag \<notin> set tags_info8" "tag \<notin> set tags_info256" "tag \<notin> set tags_clock" "tag \<noteq> TAG_SET_CLOCK_RATE" "tag \<notin> set tags_size_set" "tag \<in> set tags_size_get"
    | "tag \<notin> set tags_info8" "tag \<notin> set tags_info256" "tag \<notin> set tags_clock" "tag \<noteq> TAG_SET_CLOCK_RATE" "tag \<notin> set tags_size_set" "tag \<notin> set tags_size_get" "tag \<in> set tags_mode_set"
    | "tag \<notin> set tags_info8" "tag \<notin> set tags_info256" "tag \<notin> set tags_clock" "tag \<noteq> TAG_SET_CLOCK_RATE" "tag \<notin> set tags_size_set" "tag \<notin> set tags_size_get" "tag \<notin> set tags_mode_set" "tag \<in> set tags_mode_get"
    | "tag \<notin> set tags_info8" "tag \<notin> set tags_info256" "tag \<notin> set tags_clock" "tag \<noteq> TAG_SET_CLOCK_RATE" "tag \<notin> set tags_size_set" "tag \<notin> set tags_size_get" "tag \<notin> set tags_mode_set" "tag \<notin> set tags_mode_get" "tag = TAG_SET_OVERSCAN"
    | "tag \<notin> set tags_info8" "tag \<notin> set tags_info256" "tag \<notin> set tags_clock" "tag \<noteq> TAG_SET_CLOCK_RATE" "tag \<notin> set tags_size_set" "tag \<notin> set tags_size_get" "tag \<notin> set tags_mode_set" "tag \<notin> set tags_mode_get" "tag \<noteq> TAG_SET_OVERSCAN" "tag = TAG_GET_OVERSCAN"
    using supported by blast
  then show ?thesis
  proof cases
    case 1
    then show ?thesis using eq
      by (intro * [of 2 8 "[]" 2]) (simp_all del: pt_puts.simps)
  next
    case 2
    then show ?thesis using eq
      by (intro * [of 64 256 "[]" 64]) (simp_all del: pt_puts.simps)
  next
    case 3
    then show ?thesis using eq
      by (intro * [of 0 8 "[args ! 0, 0]" 2]) (simp_all del: pt_puts.simps split: if_splits)
  next
    case 4
    then show ?thesis using eq
      by (intro * [of 0 12 "take 3 args" 3]) (simp_all del: pt_puts.simps split: if_splits)
  next
    case 5
    then show ?thesis using eq
      by (intro * [of 0 8 "take 2 args" 2]) (simp_all del: pt_puts.simps split: if_splits)
  next
    case 6
    then show ?thesis using eq
      by (intro * [of 2 8 "[]" 2]) (simp_all del: pt_puts.simps)
  next
    case 7
    then show ?thesis using eq
      by (intro * [of 0 4 "take 1 args" 1]) (simp_all add: min_length_1 del: pt_puts.simps split: if_splits)
  next
    case 8
    then show ?thesis using eq
      by (intro * [of 1 4 "[]" 1]) (simp_all del: pt_puts.simps)
  next
    case 9
    then show ?thesis using eq
      by (intro * [of 0 16 "take 4 args" 4]) (simp_all del: pt_puts.simps split: if_splits)
  next
    case 10
    then show ?thesis using eq
      by (intro * [of 4 16 "[]" 4]) (simp_all del: pt_puts.simps)
  qed
qed

lemma add_shape_layout:
  assumes "add_shape tag n vs k p p'"
  shows "length (pt p') = length (pt p)" and "pt_index p' = pt_index p + n + 3"
    and "pt_index p' < length (pt p)" and "tag_layout [(tag, n)] (pt p') (pt_index p)"
    and "\<And>j. j < pt_index p \<Longrightarrow> pt p' ! j = pt p ! j"
proof -
  obtain p2 where n: "n \<le> 64" "length vs + k = n"
    and p2: "pt_puts (tag # of_nat (4 * n) # 0 # vs) p = Some p2"
      "pt_index p2 + k < length (pt p2)"
      "p' = \<lparr>pt = (pt p2)[pt_index p2 + k := 0], pt_index = pt_index p2 + k\<rparr>"
    using assms by (auto simp: add_shape_def)
  note puts = pt_puts_Some [OF p2(1)]
  have i: "pt_index p2 = pt_index p + length vs + 3" using puts(1) by simp
  show "length (pt p') = length (pt p)" "pt_index p' = pt_index p + n + 3"
    "pt_index p' < length (pt p)"
    using p2(2,3) i n puts(2) by auto
  then show "tag_layout [(tag, n)] (pt p') (pt_index p)"
    using n p2(3) i puts(3) by (simp add: nth_list_update)
  show "pt p' ! j = pt p ! j" if "j < pt_index p" for j
    using that p2(3) i puts(3) by (simp add: nth_list_update)
qed

primrec add_tags :: "(u32 \<times> u32 list) list \<Rightarrow> prop_buffer \<Rightarrow> prop_buffer option" where
  "add_tags [] p = Some p"
| "add_tags (r # rs) p = do { p' \<leftarrow> rpi_property_add_tag (fst r) (snd r) p; add_tags rs p' }"

lemma add_tags_layout:
  "add_tags rs p = Some p' \<Longrightarrow> \<forall>r \<in> set rs. fst r \<in> set supported_tags \<Longrightarrow>
   pt_index p < length (pt p) \<Longrightarrow>
   \<exists>ts. map fst ts = map fst rs \<and> tag_layout ts (pt p') (pt_index p)
     \<and> pt_index p' = pt_index p + layout_words ts \<and> pt_index p' < length (pt p')
     \<and> length (pt p') = length (pt p) \<and> (\<forall>j < pt_index p. pt p' ! j = pt p ! j)"
proof (induction rs arbitrary: p)
  case Nil
  then show ?case by (intro exI [of _ "[]"]) simp
next
  case (Cons r rs)
  obtain p1 where p1: "rpi_property_add_tag (fst r) (snd r) p = Some p1" "add_tags rs p1 = Some p'"
    using Cons.prems(1) by (auto split: bind_splits)
  obtain n vs k where sh: "add_shape (fst r) n vs k p p1"
    using add_tag_shape [OF p1(1)] Cons.prems(2) by auto
  note lay = add_shape_layout [OF sh]
  obtain ts where ts: "map fst ts = map fst rs" "tag_layout ts (pt p') (pt_index p1)"
      "pt_index p' = pt_index p1 + layout_words ts" "pt_index p' < length (pt p')"
      "length (pt p') = length (pt p1)" "\<forall>j < pt_index p1. pt p' ! j = pt p1 ! j"
    using Cons.IH [OF p1(2)] Cons.prems(2) lay(1,3) by auto
  have "tag_layout [(fst r, n)] (pt p') (pt_index p)"
    using ts(5,6) lay(2) by (intro tag_layout_cong [OF lay(4)]) auto
  then show ?case
    using ts lay by (intro exI [of _ "(fst r, n) # ts"]) auto
qed

text \<open>What the firmware leaves alone: the size of the buffer and the headers of the tags.\<close>

definition keeps_headers :: "u32 list \<Rightarrow> u32 list \<Rightarrow> bool" where
  "keeps_headers buf buf' \<longleftrightarrow> length buf' = length buf \<and> buf' ! 0 = buf ! 0
     \<and> (\<forall>ts. tag_layout ts buf 2 \<longrightarrow> tag_layout ts buf' 2)"

definition tag_request :: "prop_buffer \<Rightarrow> u32 list" where
  "tag_request p = (pt p)[PT_OSIZE := of_nat ((pt_index p + 1) * 4), PT_OREQUEST_OR_RESPONSE := 0]"

lemma property_find:
  assumes "add_tags xs (rpi_property_init p0) = Some pm" and "add_tags ((t, args) # ys) pm = Some p1"
    and "\<forall>r \<in> set (xs @ (t, args) # ys). fst r \<in> set supported_tags" and "t \<notin> fst ` set xs"
    and "3 \<le> length (pt p0)" and "length (pt p0) \<le> 8192"
    and "keeps_headers (tag_request p1) buf"
  shows "pt_index pm + 3 < length buf \<and> buf ! pt_index pm = t
    \<and> find_tag buf t 2 = Some (Some (int (pt_index pm)))"
proof -
  have ini: "pt_index (rpi_property_init p0) = 2" "length (pt (rpi_property_init p0)) = length (pt p0)"
    by (simp_all add: rpi_property_init_def)
  obtain xts where xts: "map fst xts = map fst xs" "tag_layout xts (pt pm) 2"
      "pt_index pm = 2 + layout_words xts" "pt_index pm < length (pt pm)" "length (pt pm) = length (pt p0)"
    using add_tags_layout [OF assms(1)] ini assms(3,5) by auto
  obtain ts where ts: "map fst ts = map fst ((t, args) # ys)" "tag_layout ts (pt p1) (pt_index pm)"
      "pt_index p1 = pt_index pm + layout_words ts" "pt_index p1 < length (pt p1)"
      "length (pt p1) = length (pt pm)" "\<forall>j < pt_index pm. pt p1 ! j = pt pm ! j"
    using add_tags_layout [OF assms(2) _ xts(4)] assms(3) by (metis Un_iff set_append)
  obtain n yts where split: "ts = (t, n) # yts" using ts(1) by auto
  have "tag_layout xts (pt p1) 2"
    using ts(5,6) xts(3) by (intro tag_layout_cong [OF xts(2)]) auto
  then have "tag_layout (xts @ ts) (pt p1) 2" using ts(2) xts(3) by simp
  then have "tag_layout (xts @ ts) (tag_request p1) 2"
    by (rule tag_layout_cong) (auto simp: tag_request_def PT_OSIZE_def PT_OREQUEST_OR_RESPONSE_def)
  then have lay: "tag_layout (xts @ ts) buf 2"
    using assms(7) unfolding keeps_headers_def by blast
  have new: "t \<notin> fst ` set xts" using xts(1) assms(4) by (metis list.set_map)
  have "0 < length (pt p1)" using ts(4) by linarith
  then have "buf ! 0 = word_of_int (int ((pt_index p1 + 1) * 4))"
    using assms(7) by (simp add: keeps_headers_def tag_request_def PT_OSIZE_def
      PT_OREQUEST_OR_RESPONSE_def)
  then have "sint (buf ! 0) = int ((pt_index p1 + 1) * 4)"
    using ts(4,5) xts(5) assms(6) by (simp only:) (rule sint_of_nat32, simp)
  then have "sint (buf ! 0) div 4 = int (pt_index p1 + 1)" by simp
  then have "find_tag buf t (int 2) = Some (Some (int (2 + layout_words xts)))"
    using lay split new ts(3) xts(3) by (intro find_tag_layout [of xts t n yts]) auto
  then show ?thesis using lay split xts(3) by auto
qed

section \<open>Properties\<close>

text \<open>\<open>mbox_read\<close> returns the first message of its channel: whatever the mailbox holds for other
  channels before it is read and dropped, the status is polled before every message, nothing is
  written, and no later message is consumed.\<close>

theorem mbox_read_takes_own_channel:
  assumes "reads h = message_readings (others @ [own]) @ rest"
    and "\<forall>m \<in> set (others @ [own]). proper_polls m"
    and "\<forall>m \<in> set others. message_channel m \<noteq> channel" and "message_channel own = channel"
  shows "\<exists>h'. mbox_read channel h = Some (snd (snd own) AND 0xfffffff0, h') \<and> reads h' = rest
     \<and> (\<forall>r. written r h' = written r h)"
  using assms by (rule mbox_read_own)

theorem mbox_read_takes_own_channel_witness:
  "\<exists>h'. mbox_read 8 \<lparr>reads = [0x40000000, 0, 0x1231, 0, 0xABC8, 5], trace = [], hw_errno = None\<rparr>
      = Some (0xABC0, h') \<and> reads h' = [5]"
  using mbox_read_takes_own_channel
    [of "\<lparr>reads = [0x40000000, 0, 0x1231, 0, 0xABC8, 5], trace = [], hw_errno = None\<rparr>"
      "[([0x40000000], 0, 0x1231)]" "([], 0, 0xABC8)" "[5]" 8]
  by (auto simp: proper_polls_def message_channel_def MBOX_EMPTY_def)

text \<open>C31: A property that was asked for is found in the answer. After \<open>rpi_property_init\<close>, tags \<open>xs\<close>,
  the tag \<open>t\<close> and tags \<open>ys\<close>, all supported and \<open>t\<close> not among \<open>xs\<close>, and \<open>rpi_property_process\<close>,
  \<open>rpi_property_get\<close> takes the entry of \<open>t\<close>, at the index where \<open>rpi_property_add_tag\<close> put it, and
  returns as many bytes of its value as the firmware's answer in that entry says; a value of another
  entry that happens to equal \<open>t\<close> is not taken for it. The conditions: the buffer has at least 3 and
  at most 8192 words, the firmware leaves the size of the buffer and the headers of the entries as
  they are, and the length it answers is at most the 256 bytes of the structure and within the
  buffer.\<close>

theorem property_get_finds_tag:
  assumes "add_tags xs (rpi_property_init p0) = Some pm" and "add_tags ((t, args) # ys) pm = Some p1"
    and "\<forall>r \<in> set (xs @ (t, args) # ys). fst r \<in> set supported_tags" and "t \<notin> fst ` set xs"
    and "3 \<le> length (pt p0)" and "length (pt p0) \<le> 8192"
    and "keeps_headers (tag_request p1) (vc (tag_request p1))"
    and "rpi_property_process vc addr p1 h = Some (res, p2, h')"
    and "n = unat (pt p2 ! (pt_index pm + 2) AND 0xFFFF)" and "n \<le> 256"
    and "v = concat (map word_bytes (drop (pt_index pm + 3) (pt p2)))" and "n \<le> length v"
  shows "pt p2 ! pt_index pm = t \<and> rpi_property_get t p2 = Some (Some (t, n, take n v))"
proof -
  have p2: "pt p2 = vc (tag_request p1)"
    using assms(8) by (auto simp: rpi_property_process_def tag_request_def Let_def split: bind_splits)
  show ?thesis
    using property_find [OF assms(1-7)] assms(9-12) p2
    by (simp add: rpi_property_get_def T_ORESPONSE_def T_OVALUE_def Let_def)
qed

lemma rpi_status_ready:
  "reads h = v # vs \<Longrightarrow> v AND m = 0 \<Longrightarrow>
   rpi_status_wait m h = Some (emit [RegRead rpi_mbox_Status v] (h\<lparr>reads := vs\<rparr>))"
  by (subst rpi_status_wait.simps) (simp add: GET32_def)

lemma rpi_read_match: "v AND 0xF = channel \<Longrightarrow> rpi_mbox_read_loop channel v h = Some (v, h)"
  by (subst rpi_mbox_read_loop.simps) simp

lemma rpi_read_next:
  "v AND 0xF \<noteq> channel \<Longrightarrow> reads h = s # d # vs \<Longrightarrow> s AND MBOX_EMPTY = 0 \<Longrightarrow>
   rpi_mbox_read_loop channel v h = rpi_mbox_read_loop channel d
     (emit [RegRead rpi_mbox_Read d] (emit [RegRead rpi_mbox_Status s] (h\<lparr>reads := d # vs\<rparr>)\<lparr>reads := vs\<rparr>))"
  by (subst rpi_mbox_read_loop.simps) (simp add: rpi_status_ready GET32_def)

text \<open>A firmware that answers the rate 250 MHz of a clock and a hardware address. The number of the
  clock is chosen as the code of the second tag.\<close>

definition demo_vc :: "u32 list \<Rightarrow> u32 list" where
  "demo_vc buf = buf[4 := 0x80000008, 6 := 250000000, 9 := 0x80000006, 10 := 0x33221100, 11 := 0x5544]"

definition demo_tags :: prop_buffer where
  "demo_tags = \<lparr>pt = replicate 14 0, pt_index = 0\<rparr>"

definition demo_tags1 :: prop_buffer where
  "demo_tags1 = \<lparr>pt = [12, 0, 0x30002, 8, 0, 0x10003, 0, 0, 0, 0, 0, 0, 0, 0], pt_index = 7\<rparr>"

definition demo_tags2 :: prop_buffer where
  "demo_tags2 = \<lparr>pt = [12, 0, 0x30002, 8, 0, 0x10003, 0, 0x10003, 8, 0, 0, 0, 0, 0], pt_index = 12\<rparr>"

lemma demo_request:
  "tag_request demo_tags2 = [52, 0, 0x30002, 8, 0, 0x10003, 0, 0x10003, 8, 0, 0, 0, 0, 0]"
  "demo_vc (tag_request demo_tags2) = [52, 0, 0x30002, 8, 0x80000008, 0x10003, 250000000, 0x10003, 8,
     0x80000006, 0x33221100, 0x5544, 0, 0]"
  by code_simp+

lemma two_words: "(of_nat (4 * n) :: u32) = 8 \<Longrightarrow> n \<le> 64 \<Longrightarrow> n = 2"
proof -
  assume "(of_nat (4 * n) :: u32) = 8" and "n \<le> 64"
  moreover have "unat (of_nat (4 * n) :: u32) = 4 * n" using \<open>n \<le> 64\<close> by (intro unat_of_nat32) simp
  ultimately have "4 * n = unat (8 :: u32)" by (simp only:)
  then show ?thesis by simp
qed

lemma demo_keeps_headers: "keeps_headers (tag_request demo_tags2) (demo_vc (tag_request demo_tags2))"
proof -
  have "tag_layout ts (demo_vc (tag_request demo_tags2)) 2"
    if lay: "tag_layout ts (tag_request demo_tags2) 2" for ts
  proof (cases ts)
    case (Cons x xs)
    obtain u n where x: "x = (u, n)" by (cases x)
    have n: "n = 2" using lay Cons x two_words [of n] by (simp add: demo_request)
    show ?thesis
    proof (cases xs)
      case Nil
      then show ?thesis using lay Cons x n by (simp add: demo_request(1) demo_vc_def)
    next
      case (Cons y zs)
      obtain w m where y: "y = (w, m)" by (cases y)
      have m: "m = 2" using lay \<open>ts = x # xs\<close> x n Cons y two_words [of m] by (simp add: demo_request)
      moreover have "zs = []"
        using lay \<open>ts = x # xs\<close> x n Cons y m by (cases zs) (auto simp: demo_request)
      ultimately show ?thesis using lay \<open>ts = x # xs\<close> x n Cons y by (simp add: demo_request(1) demo_vc_def)
    qed
  qed simp
  then show ?thesis
    by (simp add: keeps_headers_def demo_vc_def demo_request(1))
qed

theorem property_get_finds_tag_witness:
  "rpi_property_get 0x10003 \<lparr>pt = demo_vc (tag_request demo_tags2), pt_index = 12\<rparr>
     = Some (Some (0x10003, 6, [0x00, 0x11, 0x22, 0x33, 0x44, 0x55]))"
proof -
  let ?h = "\<lparr>reads = [0, 0, 0x1008], trace = [], hw_errno = None\<rparr>"
  let ?p2 = "\<lparr>pt = demo_vc (tag_request demo_tags2), pt_index = 12\<rparr>"
  have add: "add_tags [(0x30002, [0x10003])] (rpi_property_init demo_tags) = Some demo_tags1"
    "add_tags [(0x10003, [])] demo_tags1 = Some demo_tags2"
    by code_simp+
  have "\<exists>res h'. rpi_property_process demo_vc 0x1000 demo_tags2 ?h = Some (res, ?p2, h')"
    by (simp add: rpi_property_process_def rpi_mbox_write_def rpi_mbox_read_def rpi_status_ready
      rpi_read_next rpi_read_match PUT32_def Let_def tag_request_def demo_tags2_def MBOX_EMPTY_def)
  then obtain res h' where run: "rpi_property_process demo_vc 0x1000 demo_tags2 ?h = Some (res, ?p2, h')"
    by blast
  have at: "pt_index demo_tags1 = 7" by (simp add: demo_tags1_def)
  have n: "6 = unat (pt ?p2 ! (pt_index demo_tags1 + 2) AND 0xFFFF)"
    by (simp add: demo_request(2) at)
  have v: "concat (map word_bytes (drop (pt_index demo_tags1 + 3) (pt ?p2)))
      = [0x00, 0x11, 0x22, 0x33, 0x44, 0x55, 0, 0, 0, 0, 0, 0, 0, 0, 0, 0]"
    unfolding at prop_buffer.simps demo_request(2) by code_simp
  have "\<forall>r \<in> set ([(0x30002, [0x10003])] @ [(0x10003, [])]). fst r \<in> set supported_tags"
    by (simp add: supported_tags_def tags_clock_def tags_info8_def)
  moreover have "0x10003 \<notin> fst ` set [(0x30002 :: u32, [0x10003 :: u32])]" by simp
  moreover have "3 \<le> length (pt demo_tags)" "length (pt demo_tags) \<le> 8192"
    by (simp_all add: demo_tags_def)
  ultimately show ?thesis
    using property_get_finds_tag [OF add _ _ _ _ demo_keeps_headers run n _ refl] v
    by simp
qed

end
