(* ===== verification/Sd_Host.thy ===== *)
theory Sd_Host
  imports Mailbox Byte_Access
begin

text \<open>
  The SD host controller driver (\<open>rboot/emmc.c\<close>), first part: the registers and command words, the
  power and clock control, and the issue of one command with its data phase
  (\<open>sd_issue_command_int\<close>, \<open>sd_handle_interrupts\<close>, \<open>sd_issue_command\<close>). The configuration is that of
  the source: the BCM2708 controller, 1.8V and 4-bit support and writing enabled, no SDMA and no card
  interrupts; the code of the SDMA branch is there and is modelled, \<open>dma\<close> being the memory at
  \<open>SDMA_BUFFER\<close>.

  \<open>e_buf\<close> is the memory that \<open>dev->buf\<close> points to. A transfer outside it, and an index outside the
  command tables, is \<^term>\<open>None\<close>.
\<close>

section \<open>Registers\<close>

definition EMMC_BASE :: u32 where "EMMC_BASE = 0x20300000"
definition EMMC_ARG2 :: u32 where "EMMC_ARG2 = 0"
definition EMMC_BLKSIZECNT :: u32 where "EMMC_BLKSIZECNT = 4"
definition EMMC_ARG1 :: u32 where "EMMC_ARG1 = 8"
definition EMMC_CMDTM :: u32 where "EMMC_CMDTM = 0xC"
definition EMMC_RESP0 :: u32 where "EMMC_RESP0 = 0x10"
definition EMMC_RESP1 :: u32 where "EMMC_RESP1 = 0x14"
definition EMMC_RESP2 :: u32 where "EMMC_RESP2 = 0x18"
definition EMMC_RESP3 :: u32 where "EMMC_RESP3 = 0x1C"
definition EMMC_DATA :: u32 where "EMMC_DATA = 0x20"
definition EMMC_STATUS :: u32 where "EMMC_STATUS = 0x24"
definition EMMC_CONTROL0 :: u32 where "EMMC_CONTROL0 = 0x28"
definition EMMC_CONTROL1 :: u32 where "EMMC_CONTROL1 = 0x2C"
definition EMMC_INTERRUPT :: u32 where "EMMC_INTERRUPT = 0x30"
definition EMMC_IRPT_MASK :: u32 where "EMMC_IRPT_MASK = 0x34"
definition EMMC_IRPT_EN :: u32 where "EMMC_IRPT_EN = 0x38"
definition EMMC_CONTROL2 :: u32 where "EMMC_CONTROL2 = 0x3C"
definition EMMC_CAPABILITIES_0 :: u32 where "EMMC_CAPABILITIES_0 = 0x40"
definition EMMC_CAPABILITIES_1 :: u32 where "EMMC_CAPABILITIES_1 = 0x44"
definition EMMC_SLOTISR_VER :: u32 where "EMMC_SLOTISR_VER = 0xFC"

section \<open>Command words\<close>

definition SD_CMD_INDEX :: "u32 \<Rightarrow> u32" where "SD_CMD_INDEX a = push_bit 24 a"
definition SD_CMD_TYPE_ABORT :: u32 where "SD_CMD_TYPE_ABORT = push_bit 22 3"
definition SD_CMD_TYPE_MASK :: u32 where "SD_CMD_TYPE_MASK = push_bit 22 3"
definition SD_CMD_ISDATA :: u32 where "SD_CMD_ISDATA = push_bit 21 1"
definition SD_CMD_CRCCHK_EN :: u32 where "SD_CMD_CRCCHK_EN = push_bit 19 1"
definition SD_CMD_RSPNS_TYPE_136 :: u32 where "SD_CMD_RSPNS_TYPE_136 = push_bit 16 1"
definition SD_CMD_RSPNS_TYPE_48 :: u32 where "SD_CMD_RSPNS_TYPE_48 = push_bit 16 2"
definition SD_CMD_RSPNS_TYPE_48B :: u32 where "SD_CMD_RSPNS_TYPE_48B = push_bit 16 3"
definition SD_CMD_RSPNS_TYPE_MASK :: u32 where "SD_CMD_RSPNS_TYPE_MASK = push_bit 16 3"
definition SD_CMD_MULTI_BLOCK :: u32 where "SD_CMD_MULTI_BLOCK = push_bit 5 1"
definition SD_CMD_DAT_DIR_HC :: u32 where "SD_CMD_DAT_DIR_HC = 0"
definition SD_CMD_DAT_DIR_CH :: u32 where "SD_CMD_DAT_DIR_CH = push_bit 4 1"
definition SD_CMD_BLKCNT_EN :: u32 where "SD_CMD_BLKCNT_EN = push_bit 1 1"
definition SD_CMD_DMA :: u32 where "SD_CMD_DMA = 1"

definition SD_RESP_R1 :: u32 where "SD_RESP_R1 = SD_CMD_RSPNS_TYPE_48 OR SD_CMD_CRCCHK_EN"
definition SD_RESP_R1b :: u32 where "SD_RESP_R1b = SD_CMD_RSPNS_TYPE_48B OR SD_CMD_CRCCHK_EN"
definition SD_RESP_R2 :: u32 where "SD_RESP_R2 = SD_CMD_RSPNS_TYPE_136 OR SD_CMD_CRCCHK_EN"
definition SD_RESP_R3 :: u32 where "SD_RESP_R3 = SD_CMD_RSPNS_TYPE_48"
definition SD_RESP_R4 :: u32 where "SD_RESP_R4 = SD_CMD_RSPNS_TYPE_136"
definition SD_RESP_R6 :: u32 where "SD_RESP_R6 = SD_CMD_RSPNS_TYPE_48 OR SD_CMD_CRCCHK_EN"
definition SD_RESP_R7 :: u32 where "SD_RESP_R7 = SD_CMD_RSPNS_TYPE_48 OR SD_CMD_CRCCHK_EN"
definition SD_DATA_READ :: u32 where "SD_DATA_READ = SD_CMD_ISDATA OR SD_CMD_DAT_DIR_CH"
definition SD_DATA_WRITE :: u32 where "SD_DATA_WRITE = SD_CMD_ISDATA OR SD_CMD_DAT_DIR_HC"
definition SD_CMD_RESERVED :: u32 where "SD_CMD_RESERVED = 0xffffffff"

definition sd_commands :: "u32 list" where
  "sd_commands = [
    SD_CMD_INDEX 0, SD_CMD_RESERVED, SD_CMD_INDEX 2 OR SD_RESP_R2, SD_CMD_INDEX 3 OR SD_RESP_R6,
      SD_CMD_INDEX 4, SD_CMD_INDEX 5 OR SD_RESP_R4, SD_CMD_INDEX 6 OR SD_RESP_R1,
      SD_CMD_INDEX 7 OR SD_RESP_R1b, SD_CMD_INDEX 8 OR SD_RESP_R7, SD_CMD_INDEX 9 OR SD_RESP_R2,
      SD_CMD_INDEX 10 OR SD_RESP_R2, SD_CMD_INDEX 11 OR SD_RESP_R1,
      SD_CMD_INDEX 12 OR SD_RESP_R1b OR SD_CMD_TYPE_ABORT, SD_CMD_INDEX 13 OR SD_RESP_R1,
      SD_CMD_RESERVED, SD_CMD_INDEX 15, SD_CMD_INDEX 16 OR SD_RESP_R1,
      SD_CMD_INDEX 17 OR SD_RESP_R1 OR SD_DATA_READ,
      SD_CMD_INDEX 18 OR SD_RESP_R1 OR SD_DATA_READ OR SD_CMD_MULTI_BLOCK OR SD_CMD_BLKCNT_EN,
      SD_CMD_INDEX 19 OR SD_RESP_R1 OR SD_DATA_READ, SD_CMD_INDEX 20 OR SD_RESP_R1b,
      SD_CMD_RESERVED, SD_CMD_RESERVED, SD_CMD_INDEX 23 OR SD_RESP_R1,
      SD_CMD_INDEX 24 OR SD_RESP_R1 OR SD_DATA_WRITE,
      SD_CMD_INDEX 25 OR SD_RESP_R1 OR SD_DATA_WRITE OR SD_CMD_MULTI_BLOCK OR SD_CMD_BLKCNT_EN,
      SD_CMD_RESERVED, SD_CMD_INDEX 27 OR SD_RESP_R1 OR SD_DATA_WRITE,
      SD_CMD_INDEX 28 OR SD_RESP_R1b, SD_CMD_INDEX 29 OR SD_RESP_R1b,
      SD_CMD_INDEX 30 OR SD_RESP_R1 OR SD_DATA_READ, SD_CMD_RESERVED,
      SD_CMD_INDEX 32 OR SD_RESP_R1, SD_CMD_INDEX 33 OR SD_RESP_R1, SD_CMD_RESERVED,
      SD_CMD_RESERVED, SD_CMD_RESERVED, SD_CMD_RESERVED, SD_CMD_INDEX 38 OR SD_RESP_R1b,
      SD_CMD_RESERVED, SD_CMD_RESERVED, SD_CMD_RESERVED, SD_CMD_RESERVED OR SD_RESP_R1,
      SD_CMD_RESERVED, SD_CMD_RESERVED, SD_CMD_RESERVED, SD_CMD_RESERVED, SD_CMD_RESERVED,
      SD_CMD_RESERVED, SD_CMD_RESERVED, SD_CMD_RESERVED, SD_CMD_RESERVED, SD_CMD_RESERVED,
      SD_CMD_RESERVED, SD_CMD_RESERVED, SD_CMD_INDEX 55 OR SD_RESP_R1,
      SD_CMD_INDEX 56 OR SD_RESP_R1 OR SD_CMD_ISDATA, SD_CMD_RESERVED, SD_CMD_RESERVED,
      SD_CMD_RESERVED, SD_CMD_RESERVED, SD_CMD_RESERVED, SD_CMD_RESERVED, SD_CMD_RESERVED]"

definition sd_acommands :: "u32 list" where
  "sd_acommands = [
    SD_CMD_RESERVED, SD_CMD_RESERVED, SD_CMD_RESERVED, SD_CMD_RESERVED, SD_CMD_RESERVED,
      SD_CMD_RESERVED, SD_CMD_INDEX 6 OR SD_RESP_R1, SD_CMD_RESERVED, SD_CMD_RESERVED,
      SD_CMD_RESERVED, SD_CMD_RESERVED, SD_CMD_RESERVED, SD_CMD_RESERVED,
      SD_CMD_INDEX 13 OR SD_RESP_R1, SD_CMD_RESERVED, SD_CMD_RESERVED, SD_CMD_RESERVED,
      SD_CMD_RESERVED, SD_CMD_RESERVED, SD_CMD_RESERVED, SD_CMD_RESERVED, SD_CMD_RESERVED,
      SD_CMD_INDEX 22 OR SD_RESP_R1 OR SD_DATA_READ, SD_CMD_INDEX 23 OR SD_RESP_R1,
      SD_CMD_RESERVED, SD_CMD_RESERVED, SD_CMD_RESERVED, SD_CMD_RESERVED, SD_CMD_RESERVED,
      SD_CMD_RESERVED, SD_CMD_RESERVED, SD_CMD_RESERVED, SD_CMD_RESERVED, SD_CMD_RESERVED,
      SD_CMD_RESERVED, SD_CMD_RESERVED, SD_CMD_RESERVED, SD_CMD_RESERVED, SD_CMD_RESERVED,
      SD_CMD_RESERVED, SD_CMD_RESERVED, SD_CMD_INDEX 41 OR SD_RESP_R3,
      SD_CMD_INDEX 42 OR SD_RESP_R1, SD_CMD_RESERVED, SD_CMD_RESERVED, SD_CMD_RESERVED,
      SD_CMD_RESERVED, SD_CMD_RESERVED, SD_CMD_RESERVED, SD_CMD_RESERVED, SD_CMD_RESERVED,
      SD_CMD_INDEX 51 OR SD_RESP_R1 OR SD_DATA_READ, SD_CMD_RESERVED, SD_CMD_RESERVED,
      SD_CMD_RESERVED, SD_CMD_RESERVED, SD_CMD_RESERVED, SD_CMD_RESERVED, SD_CMD_RESERVED,
      SD_CMD_RESERVED, SD_CMD_RESERVED, SD_CMD_RESERVED, SD_CMD_RESERVED, SD_CMD_RESERVED]"

definition GO_IDLE_STATE :: u32 where "GO_IDLE_STATE = 0"
definition ALL_SEND_CID :: u32 where "ALL_SEND_CID = 2"
definition SEND_RELATIVE_ADDR :: u32 where "SEND_RELATIVE_ADDR = 3"
definition IO_SET_OP_COND :: u32 where "IO_SET_OP_COND = 5"
definition SELECT_CARD :: u32 where "SELECT_CARD = 7"
definition SEND_IF_COND :: u32 where "SEND_IF_COND = 8"
definition VOLTAGE_SWITCH :: u32 where "VOLTAGE_SWITCH = 11"
definition STOP_TRANSMISSION :: u32 where "STOP_TRANSMISSION = 12"
definition SEND_STATUS :: u32 where "SEND_STATUS = 13"
definition SET_BLOCKLEN :: u32 where "SET_BLOCKLEN = 16"
definition READ_SINGLE_BLOCK :: u32 where "READ_SINGLE_BLOCK = 17"
definition READ_MULTIPLE_BLOCK :: u32 where "READ_MULTIPLE_BLOCK = 18"
definition WRITE_BLOCK :: u32 where "WRITE_BLOCK = 24"
definition WRITE_MULTIPLE_BLOCK :: u32 where "WRITE_MULTIPLE_BLOCK = 25"
definition APP_CMD :: u32 where "APP_CMD = 55"
definition IS_APP_CMD :: u32 where "IS_APP_CMD = 0x80000000"
definition ACMD :: "u32 \<Rightarrow> u32" where "ACMD a = a OR IS_APP_CMD"
definition SET_BUS_WIDTH :: u32 where "SET_BUS_WIDTH = 6 OR IS_APP_CMD"
definition SEND_SCR :: u32 where "SEND_SCR = 51 OR IS_APP_CMD"

definition SD_RESET_CMD :: u32 where "SD_RESET_CMD = push_bit 25 1"
definition SD_RESET_DAT :: u32 where "SD_RESET_DAT = push_bit 26 1"

section \<open>The device\<close>

record emmc_block_dev =
  e_device_id :: bytes
  card_supports_sdhc :: u32
  card_supports_18v :: u32
  card_ocr :: u32
  card_rca :: u32
  last_interrupt :: u32
  last_error :: u32
  sd_bus_widths :: u32
  sd_version :: nat
  failed_voltage_switch :: bool
  last_cmd_reg :: u32
  last_cmd :: u32
  last_cmd_success :: bool
  last_r0 :: u32
  last_r1 :: u32
  last_r2 :: u32
  last_r3 :: u32
  e_buf :: bytes
  blocks_to_transfer :: int
  e_block_size :: u32
  use_sdma :: bool
  card_removal :: bool
  base_clock :: u32

definition sd_fail :: "emmc_block_dev \<Rightarrow> bool" where "sd_fail d = (\<not> last_cmd_success d)"
definition sd_timeout :: "emmc_block_dev \<Rightarrow> bool" where
  "sd_timeout d = (sd_fail d \<and> last_error d = 0)"
definition sd_cmd_timeout :: "emmc_block_dev \<Rightarrow> bool" where
  "sd_cmd_timeout d = (sd_fail d \<and> last_error d AND push_bit 16 1 \<noteq> 0)"

section \<open>Register access\<close>

definition emmc_read :: "u32 \<Rightarrow> hw \<Rightarrow> (u32 \<times> hw) option" where
  "emmc_read reg h = mmio_read (EMMC_BASE + reg) h"

definition emmc_write :: "u32 \<Rightarrow> u32 \<Rightarrow> hw \<Rightarrow> hw" where
  "emmc_write reg v h = mmio_write (EMMC_BASE + reg) v h"

text \<open>The conditions of the waits: some bit of the mask is set, or none is.\<close>

definition emmc_any :: "u32 \<Rightarrow> u32 \<Rightarrow> hw \<Rightarrow> (bool \<times> hw) option" where
  "emmc_any reg m h = do { (v, h') \<leftarrow> emmc_read reg h; Some (v AND m \<noteq> 0, h') }"

definition emmc_none :: "u32 \<Rightarrow> u32 \<Rightarrow> hw \<Rightarrow> (bool \<times> hw) option" where
  "emmc_none reg m h = do { (v, h') \<leftarrow> emmc_read reg h; Some (v AND m = 0, h') }"

definition pause :: "int \<Rightarrow> hw \<Rightarrow> hw option" where
  "pause usec h = map_option snd (usleep usec h)"

text \<open>\<open>while(mmio_read(EMMC_BASE + EMMC_STATUS) & m) usleep(1000);\<close>\<close>

partial_function (option) emmc_idle :: "u32 \<Rightarrow> hw \<Rightarrow> hw option" where
  "emmc_idle m h = do {
     (st, h1) \<leftarrow> emmc_read EMMC_STATUS h;
     if st AND m \<noteq> 0 then do { h2 \<leftarrow> pause 1000 h1; emmc_idle m h2 } else Some h1
   }"

section \<open>Power and base clock\<close>

definition sd_power_off :: "hw \<Rightarrow> hw option" where
  "sd_power_off h = do {
     (c, h1) \<leftarrow> emmc_read EMMC_CONTROL0 h;
     Some (emmc_write EMMC_CONTROL0 (c AND NOT (push_bit 8 1)) h1)
   }"

definition clock_message :: "u32 list" where
  "clock_message = [8 * 4, 0, 0x00030002, 0x8, 0x4, 0x1, 0, 0]"

definition power_message :: "u32 \<Rightarrow> u32 list" where
  "power_message st = [8 * 4, 0, 0x00028001, 0x8, 0x8, 0x0, st, 0]"

definition sd_get_base_clock_hz ::
  "(u32 list \<Rightarrow> u32 list) \<Rightarrow> u32 list \<Rightarrow> hw \<Rightarrow> (u32 \<times> u32 list \<times> hw) option" where
  "sd_get_base_clock_hz vc mailbuffer h = do {
     (m, h1) \<leftarrow> fb_exchange vc clock_message mailbuffer h;
     Some (if m ! 1 \<noteq> MBOX_SUCCESS then 0 else if m ! 5 \<noteq> 0x1 then 0 else m ! 6, m, h1)
   }"

definition bcm_2708_power_off ::
  "(u32 list \<Rightarrow> u32 list) \<Rightarrow> u32 list \<Rightarrow> hw \<Rightarrow> (int \<times> u32 list \<times> hw) option" where
  "bcm_2708_power_off vc mailbuffer h = do {
     (m, h1) \<leftarrow> fb_exchange vc (power_message 0x2) mailbuffer h;
     Some (if m ! 1 \<noteq> MBOX_SUCCESS then -1 else if m ! 5 \<noteq> 0x0 then -1
           else if m ! 6 AND 0x3 \<noteq> 0 then 1 else 0, m, h1)
   }"

definition bcm_2708_power_on ::
  "(u32 list \<Rightarrow> u32 list) \<Rightarrow> u32 list \<Rightarrow> hw \<Rightarrow> (int \<times> u32 list \<times> hw) option" where
  "bcm_2708_power_on vc mailbuffer h = do {
     (m, h1) \<leftarrow> fb_exchange vc (power_message 0x3) mailbuffer h;
     Some (if m ! 1 \<noteq> MBOX_SUCCESS then -1 else if m ! 5 \<noteq> 0x0 then -1
           else if m ! 6 AND 0x3 \<noteq> 1 then 1 else 0, m, h1)
   }"

definition bcm_2708_power_cycle ::
  "(u32 list \<Rightarrow> u32 list) \<Rightarrow> u32 list \<Rightarrow> hw \<Rightarrow> (int \<times> u32 list \<times> hw) option" where
  "bcm_2708_power_cycle vc mailbuffer h = do {
     (r, m, h1) \<leftarrow> bcm_2708_power_off vc mailbuffer h;
     if r < 0 then Some (-1, m, h1)
     else do { h2 \<leftarrow> pause 5000 h1; bcm_2708_power_on vc m h2 }
   }"

section \<open>Clock divider\<close>

definition SD_CLOCK_ID :: u32 where "SD_CLOCK_ID = 400000"
definition SD_CLOCK_NORMAL :: u32 where "SD_CLOCK_NORMAL = 25000000"
definition SD_GET_CLOCK_DIVIDER_FAIL :: u32 where "SD_GET_CLOCK_DIVIDER_FAIL = 0xffffffff"

text \<open>\<open>base_clock / target_rate\<close> is undefined for a target of 0.\<close>

definition targetted_divisor :: "u32 \<Rightarrow> u32 \<Rightarrow> u32 option" where
  "targetted_divisor base target =
     (if target > base then Some 1
      else if target = 0 then None
      else Some (if base mod target \<noteq> 0 then base div target - 1 else base div target))"

text \<open>The search for the highest bit, from \<open>n\<close> downwards; \<open>-1\<close> if no bit is set.\<close>

primrec find_first_bit :: "nat \<Rightarrow> u32 \<Rightarrow> int" where
  "find_first_bit 0 td = -1"
| "find_first_bit (Suc n) td =
     (if td AND push_bit n 1 \<noteq> 0
      then (if td AND NOT (push_bit n 1) \<noteq> 0 then int n + 1 else int n)
      else find_first_bit n td)"

definition divisor_of :: "u32 \<Rightarrow> u32" where
  "divisor_of td =
     (let d = find_first_bit 32 td;
          d = (if d = -1 then 31 else d);
          d = (if d \<ge> 32 then 31 else d);
          n = (if d \<noteq> 0 then push_bit (nat (d - 1)) 1 else 0) :: u32
      in if n \<ge> 0x400 then 0x3ff else n)"

definition sd_get_clock_divider :: "u32 \<Rightarrow> u32 \<Rightarrow> u32 \<Rightarrow> u32 option" where
  "sd_get_clock_divider hci_ver base target = do {
     td \<leftarrow> targetted_divisor base target;
     if hci_ver \<ge> 2 then
       (let divisor = divisor_of td;
            freq_select = divisor AND 0xff;
            upper_bits = drop_bit 8 divisor AND 0x3
        in Some (push_bit 8 freq_select OR push_bit 6 upper_bits OR push_bit 5 0))
     else Some SD_GET_CLOCK_DIVIDER_FAIL
   }"

definition sd_switch_clock_rate :: "u32 \<Rightarrow> u32 \<Rightarrow> u32 \<Rightarrow> hw \<Rightarrow> (int \<times> hw) option" where
  "sd_switch_clock_rate hci_ver base target h = do {
     divider \<leftarrow> sd_get_clock_divider hci_ver base target;
     if divider = SD_GET_CLOCK_DIVIDER_FAIL then Some (-1, h)
     else do {
       h1 \<leftarrow> emmc_idle 0x3 h;
       (c, h2) \<leftarrow> emmc_read EMMC_CONTROL1 h1;
       let c1 = c AND NOT (push_bit 2 1);
       h3 \<leftarrow> pause 2000 (emmc_write EMMC_CONTROL1 c1 h2);
       let c2 = (c1 AND NOT 0xffe0) OR divider;
       h4 \<leftarrow> pause 2000 (emmc_write EMMC_CONTROL1 c2 h3);
       h5 \<leftarrow> pause 2000 (emmc_write EMMC_CONTROL1 (c2 OR push_bit 2 1) h4);
       Some (0, h5)
     }
   }"

section \<open>Resets of the lines\<close>

definition reset_line :: "u32 \<Rightarrow> hw \<Rightarrow> (int \<times> hw) option" where
  "reset_line m h = do {
     (control1, h1) \<leftarrow> emmc_read EMMC_CONTROL1 h;
     h2 \<leftarrow> timeout_wait (emmc_none EMMC_CONTROL1 m) 1000000
            (emmc_write EMMC_CONTROL1 (control1 OR m) h1);
     (v, h3) \<leftarrow> emmc_read EMMC_CONTROL1 h2;
     Some (if v AND m \<noteq> 0 then -1 else 0, h3)
   }"

definition sd_reset_cmd :: "hw \<Rightarrow> (int \<times> hw) option" where
  "sd_reset_cmd = reset_line SD_RESET_CMD"

definition sd_reset_dat :: "hw \<Rightarrow> (int \<times> hw) option" where
  "sd_reset_dat = reset_line SD_RESET_DAT"

section \<open>One command\<close>

definition SDMA_BUFFER_PA :: u32 where "SDMA_BUFFER_PA = 0x6000 + 0xC0000000"

type_synonym sd_step = "emmc_block_dev \<Rightarrow> hw \<Rightarrow> (emmc_block_dev \<times> hw) option"

text \<open>The result of a phase says whether the command goes on.\<close>

type_synonym sd_phase = "emmc_block_dev \<Rightarrow> hw \<Rightarrow> (bool \<times> emmc_block_dev \<times> hw) option"

definition cmd_error :: "u32 \<Rightarrow> emmc_block_dev \<Rightarrow> emmc_block_dev" where
  "cmd_error irpts d = d\<lparr>last_error := irpts AND 0xffff0000, last_interrupt := irpts\<rparr>"

definition read_response :: "u32 \<Rightarrow> sd_step" where
  "read_response cmd_reg d h =
     (let rt = cmd_reg AND SD_CMD_RSPNS_TYPE_MASK in
      if rt = SD_CMD_RSPNS_TYPE_48 \<or> rt = SD_CMD_RSPNS_TYPE_48B then do {
        (r0, h1) \<leftarrow> emmc_read EMMC_RESP0 h;
        Some (d\<lparr>last_r0 := r0\<rparr>, h1)
      }
      else if rt = SD_CMD_RSPNS_TYPE_136 then do {
        (r0, h1) \<leftarrow> emmc_read EMMC_RESP0 h;
        (r1, h2) \<leftarrow> emmc_read EMMC_RESP1 h1;
        (r2, h3) \<leftarrow> emmc_read EMMC_RESP2 h2;
        (r3, h4) \<leftarrow> emmc_read EMMC_RESP3 h3;
        Some (d\<lparr>last_r0 := r0, last_r1 := r1, last_r2 := r2, last_r3 := r3\<rparr>, h4)
      }
      else Some (d, h))"

text \<open>The words of a block, at \<open>cur_buf_addr\<close>; the next address is in the result.\<close>

primrec xfer_words :: "nat \<Rightarrow> bool \<Rightarrow> nat \<Rightarrow> bytes \<Rightarrow> hw \<Rightarrow> (nat \<times> bytes \<times> hw) option" where
  "xfer_words 0 is_write cur_buf_addr buf h = Some (cur_buf_addr, buf, h)"
| "xfer_words (Suc n) is_write cur_buf_addr buf h =
     (if cur_buf_addr + 4 > length buf then None
      else if is_write then
        xfer_words n is_write (cur_buf_addr + 4) buf
          (emmc_write EMMC_DATA (read_word buf cur_buf_addr) h)
      else do {
        (data, h1) \<leftarrow> emmc_read EMMC_DATA h;
        xfer_words n is_write (cur_buf_addr + 4) (write_word data buf cur_buf_addr) h1
      })"

text \<open>The loop over the blocks; \<open>cur_byte_no\<close> runs in steps of four up to the block size.\<close>

primrec xfer_blocks :: "nat \<Rightarrow> bool \<Rightarrow> u32 \<Rightarrow> int \<Rightarrow> nat \<Rightarrow> sd_phase" where
  "xfer_blocks 0 is_write wr_irpt timeout cur_buf_addr d h = Some (True, d, h)"
| "xfer_blocks (Suc n) is_write wr_irpt timeout cur_buf_addr d h = do {
     h1 \<leftarrow> timeout_wait (emmc_any EMMC_INTERRUPT (wr_irpt OR 0x8000)) timeout h;
     (irpts, h2) \<leftarrow> emmc_read EMMC_INTERRUPT h1;
     let h3 = emmc_write EMMC_INTERRUPT (0xffff0000 OR wr_irpt) h2;
     if irpts AND (0xffff0000 OR wr_irpt) \<noteq> wr_irpt then Some (False, cmd_error irpts d, h3)
     else do {
       (a, buf, h4) \<leftarrow> xfer_words ((unat (e_block_size d) + 3) div 4) is_write cur_buf_addr (e_buf d) h3;
       xfer_blocks n is_write wr_irpt timeout a (d\<lparr>e_buf := buf\<rparr>) h4
     }
   }"

definition data_phase :: "u32 \<Rightarrow> bool \<Rightarrow> int \<Rightarrow> sd_phase" where
  "data_phase cmd_reg is_sdma timeout d h =
     (if cmd_reg AND SD_CMD_ISDATA \<noteq> 0 \<and> \<not> is_sdma then
        (let is_write = (cmd_reg AND SD_CMD_DAT_DIR_CH = 0);
             wr_irpt = (if is_write then push_bit 4 1 else push_bit 5 1)
         in xfer_blocks (nat (blocks_to_transfer d)) is_write wr_irpt timeout 0 d h)
      else Some (True, d, h))"

definition pio_complete :: "int \<Rightarrow> sd_phase" where
  "pio_complete timeout d h = do {
     (st, h1) \<leftarrow> emmc_read EMMC_STATUS h;
     if st AND 0x2 = 0 then Some (True, d, emmc_write EMMC_INTERRUPT 0xffff0002 h1)
     else do {
       h2 \<leftarrow> timeout_wait (emmc_any EMMC_INTERRUPT 0x8002) timeout h1;
       (irpts, h3) \<leftarrow> emmc_read EMMC_INTERRUPT h2;
       let h4 = emmc_write EMMC_INTERRUPT 0xffff0002 h3;
       if irpts AND 0xffff0002 \<noteq> 0x2 \<and> irpts AND 0xffff0002 \<noteq> 0x100002
       then Some (False, cmd_error irpts d, h4)
       else Some (True, d, emmc_write EMMC_INTERRUPT 0xffff0002 h4)
     }
   }"

text \<open>The copy from the SDMA buffer is for one block.\<close>

definition sdma_complete :: "bytes \<Rightarrow> int \<Rightarrow> sd_phase" where
  "sdma_complete dma timeout d h = do {
     (st, h1) \<leftarrow> emmc_read EMMC_STATUS h;
     if st AND 0x2 = 0 then Some (True, d, emmc_write EMMC_INTERRUPT 0xffff000a h1)
     else do {
       h2 \<leftarrow> timeout_wait (emmc_any EMMC_INTERRUPT 0x800a) timeout h1;
       (irpts, h3) \<leftarrow> emmc_read EMMC_INTERRUPT h2;
       let h4 = emmc_write EMMC_INTERRUPT 0xffff000a h3;
       if irpts AND 0x8000 \<noteq> 0 \<and> irpts AND 0x2 \<noteq> 0x2 then Some (False, cmd_error irpts d, h4)
       else if irpts AND 0x8 \<noteq> 0 \<and> irpts AND 0x2 \<noteq> 0x2 then Some (False, cmd_error irpts d, h4)
       else if irpts AND 0x2 \<noteq> 0 then
         (let n = unat (e_block_size d) in
          if n > length dma \<or> n > length (e_buf d) then None
          else Some (True, d\<lparr>e_buf := splice (e_buf d) 0 (take n dma)\<rparr>, h4))
       else do {
         h5 \<leftarrow> (if irpts = 0 then do {
                  (st2, h5) \<leftarrow> emmc_read EMMC_STATUS h4;
                  Some (if st2 AND 0x3 = 0x2
                        then emmc_write EMMC_CMDTM (sd_commands ! unat STOP_TRANSMISSION) h5 else h5)
                } else Some h4);
         Some (False, cmd_error irpts d, h5)
       }
     }
   }"

definition complete_phase :: "bytes \<Rightarrow> u32 \<Rightarrow> bool \<Rightarrow> int \<Rightarrow> sd_phase" where
  "complete_phase dma cmd_reg is_sdma timeout d h =
     (if (cmd_reg AND SD_CMD_RSPNS_TYPE_MASK = SD_CMD_RSPNS_TYPE_48B
          \<or> cmd_reg AND SD_CMD_ISDATA \<noteq> 0) \<and> \<not> is_sdma
      then pio_complete timeout d h
      else if is_sdma then sdma_complete dma timeout d h
      else Some (True, d, h))"

definition sd_issue_command_int :: "bytes \<Rightarrow> u32 \<Rightarrow> u32 \<Rightarrow> int \<Rightarrow> sd_step" where
  "sd_issue_command_int dma cmd_reg argument timeout dev h = do {
     let d = dev\<lparr>last_cmd_reg := cmd_reg, last_cmd_success := False\<rparr>;
     h1 \<leftarrow> emmc_idle 0x1 h;
     h2 \<leftarrow> (if cmd_reg AND SD_CMD_RSPNS_TYPE_MASK = SD_CMD_RSPNS_TYPE_48B
             \<and> cmd_reg AND SD_CMD_TYPE_MASK \<noteq> SD_CMD_TYPE_ABORT
            then emmc_idle 0x2 h1 else Some h1);
     let is_sdma = (cmd_reg AND SD_CMD_ISDATA \<noteq> 0 \<and> use_sdma d);
     let h3 = (if is_sdma then emmc_write EMMC_ARG2 SDMA_BUFFER_PA h2 else h2);
     if blocks_to_transfer d > 0xffff then Some (d\<lparr>last_cmd_success := False\<rparr>, h3)
     else do {
       let blksizecnt = e_block_size d OR push_bit 16 (word_of_int (blocks_to_transfer d));
       let cmd = (if is_sdma then cmd_reg OR SD_CMD_DMA else cmd_reg);
       h4 \<leftarrow> pause 2000 (emmc_write EMMC_CMDTM cmd (emmc_write EMMC_ARG1 argument
               (emmc_write EMMC_BLKSIZECNT blksizecnt h3)));
       h5 \<leftarrow> timeout_wait (emmc_any EMMC_INTERRUPT 0x8001) timeout h4;
       (irpts, h6) \<leftarrow> emmc_read EMMC_INTERRUPT h5;
       let h7 = emmc_write EMMC_INTERRUPT 0xffff0001 h6;
       if irpts AND 0xffff0001 \<noteq> 0x1 then Some (cmd_error irpts d, h7)
       else do {
         h8 \<leftarrow> pause 2000 h7;
         (d1, h9) \<leftarrow> read_response cmd d h8;
         (ok, d2, h10) \<leftarrow> data_phase cmd is_sdma timeout d1 h9;
         if \<not> ok then Some (d2, h10)
         else do {
           (ok, d3, h11) \<leftarrow> complete_phase dma cmd is_sdma timeout d2 h10;
           Some (if ok then d3\<lparr>last_cmd_success := True\<rparr> else d3, h11)
         }
       }
     }
   }"

section \<open>Pending interrupts\<close>

definition SD_COMMAND_COMPLETE :: u32 where "SD_COMMAND_COMPLETE = 1"
definition SD_TRANSFER_COMPLETE :: u32 where "SD_TRANSFER_COMPLETE = push_bit 1 1"
definition SD_BLOCK_GAP_EVENT :: u32 where "SD_BLOCK_GAP_EVENT = push_bit 2 1"
definition SD_DMA_INTERRUPT :: u32 where "SD_DMA_INTERRUPT = push_bit 3 1"
definition SD_BUFFER_WRITE_READY :: u32 where "SD_BUFFER_WRITE_READY = push_bit 4 1"
definition SD_BUFFER_READ_READY :: u32 where "SD_BUFFER_READ_READY = push_bit 5 1"
definition SD_CARD_INSERTION :: u32 where "SD_CARD_INSERTION = push_bit 6 1"
definition SD_CARD_REMOVAL :: u32 where "SD_CARD_REMOVAL = push_bit 7 1"
definition SD_CARD_INTERRUPT :: u32 where "SD_CARD_INTERRUPT = push_bit 8 1"

definition sd_handle_card_interrupt :: "bytes \<Rightarrow> sd_step" where
  "sd_handle_card_interrupt dma d h =
     (if card_rca d \<noteq> 0
      then sd_issue_command_int dma (sd_commands ! unat SEND_STATUS) (push_bit 16 (card_rca d)) 500000 d h
      else Some (d, h))"

text \<open>Every pending interrupt of the mask is acknowledged.\<close>

definition pending_mask :: "u32 \<Rightarrow> u32" where
  "pending_mask irpts =
     (irpts AND (SD_COMMAND_COMPLETE OR SD_TRANSFER_COMPLETE OR SD_BLOCK_GAP_EVENT OR SD_DMA_INTERRUPT
        OR SD_BUFFER_WRITE_READY OR SD_BUFFER_READ_READY OR SD_CARD_INSERTION OR SD_CARD_REMOVAL
        OR SD_CARD_INTERRUPT))
     OR (if irpts AND 0x8000 \<noteq> 0 then 0xffff0000 else 0)"

definition sd_handle_interrupts :: "bytes \<Rightarrow> sd_step" where
  "sd_handle_interrupts dma d h = do {
     (irpts, h1) \<leftarrow> emmc_read EMMC_INTERRUPT h;
     h2 \<leftarrow> (if irpts AND SD_BUFFER_WRITE_READY \<noteq> 0 then map_option snd (sd_reset_dat h1) else Some h1);
     h3 \<leftarrow> (if irpts AND SD_BUFFER_READ_READY \<noteq> 0 then map_option snd (sd_reset_dat h2) else Some h2);
     let d1 = (if irpts AND SD_CARD_REMOVAL \<noteq> 0 then d\<lparr>card_removal := True\<rparr> else d);
     (d2, h4) \<leftarrow> (if irpts AND SD_CARD_INTERRUPT \<noteq> 0 then sd_handle_card_interrupt dma d1 h3
                 else Some (d1, h3));
     Some (d2, emmc_write EMMC_INTERRUPT (pending_mask irpts) h4)
   }"

definition sd_issue_command :: "bytes \<Rightarrow> u32 \<Rightarrow> u32 \<Rightarrow> int \<Rightarrow> sd_step" where
  "sd_issue_command dma command argument timeout d0 h0 = do {
     (d, h) \<leftarrow> sd_handle_interrupts dma d0 h0;
     if card_removal d then Some (d\<lparr>last_cmd_success := False\<rparr>, h)
     else if command AND IS_APP_CMD \<noteq> 0 then
       (let cmd = command AND 0xff in
        if unat cmd \<ge> length sd_acommands then None
        else if sd_acommands ! unat cmd = SD_CMD_RESERVED then Some (d\<lparr>last_cmd_success := False\<rparr>, h)
        else do {
          let rca = (if card_rca d \<noteq> 0 then push_bit 16 (card_rca d) else 0);
          (d1, h1) \<leftarrow> sd_issue_command_int dma (sd_commands ! unat APP_CMD) rca timeout
                        (d\<lparr>last_cmd := APP_CMD\<rparr>) h;
          if last_cmd_success d1
          then sd_issue_command_int dma (sd_acommands ! unat cmd) argument timeout
                 (d1\<lparr>last_cmd := cmd OR IS_APP_CMD\<rparr>) h1
          else Some (d1, h1)
        })
     else if unat command \<ge> length sd_commands then None
     else if sd_commands ! unat command = SD_CMD_RESERVED then Some (d\<lparr>last_cmd_success := False\<rparr>, h)
     else sd_issue_command_int dma (sd_commands ! unat command) argument timeout (d\<lparr>last_cmd := command\<rparr>) h
   }"

section \<open>The clock divider\<close>

lemma and_one_bit:
  assumes "n < 32" shows "(td :: u32) AND 2 ^ n = 0 \<longleftrightarrow> \<not> bit td n"
proof
  assume "td AND 2 ^ n = 0"
  then have "\<not> bit (td AND 2 ^ n) n" by simp
  then show "\<not> bit td n" using assms by (simp add: bit_and_iff bit_exp_iff)
next
  assume "\<not> bit td n"
  then show "td AND 2 ^ n = 0"
    by (intro bit_word_eqI) (auto simp: bit_and_iff bit_exp_iff)
qed

lemma and_other_bits:
  assumes "n < 32" and "bit (td :: u32) n"
  shows "td AND NOT (2 ^ n) = 0 \<longleftrightarrow> td = 2 ^ n"
proof
  assume z: "td AND NOT (2 ^ n) = 0"
  show "td = 2 ^ n"
  proof (rule bit_word_eqI)
    fix k assume k: "k < LENGTH(32)"
    have "\<not> bit (td AND NOT (2 ^ n)) k" using z by simp
    then show "bit td k = bit (2 ^ n :: u32) k"
      using k assms(2) by (auto simp: bit_and_iff bit_not_iff bit_exp_iff)
  qed
qed (simp add: bit.conj_cancel_right)

lemma unat_two_power: "n < 32 \<Longrightarrow> unat (2 ^ n :: u32) = 2 ^ n"
  using unat_of_nat32 [of "2 ^ n"] power_strict_increasing [of n 32 "2::nat"] by simp

lemma bit_top:
  assumes "unat (td :: u32) < 2 ^ Suc n"
  shows "bit td n \<longleftrightarrow> 2 ^ n \<le> unat td"
proof -
  have "bit td n \<longleftrightarrow> bit (unat td) n" by (simp add: bit_unsigned_iff)
  then have "bit td n \<longleftrightarrow> odd (unat td div 2 ^ n)" by (simp add: bit_iff_odd)
  moreover have "unat td div 2 ^ n < 2"
    using assms by (simp add: less_mult_imp_div_less)
  ultimately show ?thesis
    by (cases "2 ^ n \<le> unat td") (auto simp: div_eq_0_iff less_2_cases_iff)
qed

lemma find_first_bit_log:
  assumes "0 < unat td" and "unat td < 2 ^ n" and "n \<le> 32"
  shows "\<exists>d. find_first_bit n td = int d \<and> unat td \<le> 2 ^ d \<and> (d = 0 \<or> 2 ^ (d - 1) < unat td)"
  using assms
proof (induction n)
  case (Suc n)
  have n: "n < 32" using Suc.prems by simp
  show ?case
  proof (cases "bit td n")
    case False
    then show ?thesis using Suc.IH Suc.prems bit_top [of td n] by (simp add: and_one_bit [OF n])
  next
    case True
    then have le: "2 ^ n \<le> unat td" using Suc.prems bit_top by blast
    show ?thesis
    proof (cases "td = 2 ^ n")
      case t: True
      then have "find_first_bit (Suc n) td = int n"
        using True n by (simp add: and_one_bit and_other_bits)
      moreover have "unat td = 2 ^ n" using t n unat_two_power by simp
      ultimately show ?thesis by (intro exI [of _ n]) (auto simp del: find_first_bit.simps)
    next
      case f: False
      then have "find_first_bit (Suc n) td = int (Suc n)"
        using True n by (simp add: and_one_bit and_other_bits)
      moreover have "unat td \<noteq> 2 ^ n"
        using f n unat_two_power by (metis word_unat_eq_iff)
      ultimately show ?thesis using le Suc.prems by (intro exI [of _ "Suc n"]) simp
    qed
  qed
qed simp


text \<open>What the controller divides by: the ten bits \<open>N\<close> of the field stand for 1 or \<open>2 * N\<close>.\<close>

definition clock_denominator :: "u32 \<Rightarrow> nat" where
  "clock_denominator w =
     (let n = (drop_bit 8 w AND 0xff) OR push_bit 8 (drop_bit 6 w AND 0x3)
      in if n = 0 then 1 else 2 * unat n)"

lemma quotient_remainder: "r < t \<Longrightarrow> (t * q + r) div t = (q::nat) \<and> (t * q + r) mod t = r"
  by simp

lemma divisor_of_log:
  assumes "find_first_bit 32 td = int d" and "d \<le> 10"
  shows "divisor_of td = (if d = 0 then 0 else 2 ^ (d - 1))"
proof -
  have "d \<in> {0..10}" using assms(2) by simp
  then have "d \<in> {0, 1, 2, 3, 4, 5, 6, 7, 8, 9, 10}" by (simp add: atLeastAtMost_insertL[symmetric] numeral_eq_Suc)
  then show ?thesis using assms(1) by (auto simp: divisor_of_def word_le_nat_alt)
qed

lemma divider_field:
  assumes "d \<le> 10" and "v = (if d = 0 then 0 else 2 ^ (d - 1))"
  shows "clock_denominator (push_bit 8 (v AND 0xff) OR push_bit 6 (drop_bit 8 v AND 0x3) OR push_bit 5 0) = 2 ^ d"
proof -
  have "d \<in> {0..10}" using assms(1) by simp
  then have "d \<in> {0, 1, 2, 3, 4, 5, 6, 7, 8, 9, 10}" by (simp add: atLeastAtMost_insertL[symmetric] numeral_eq_Suc)
  then show ?thesis using assms(2) by (auto simp: clock_denominator_def)
qed

lemma divider_denominator:
  assumes "hci \<ge> 2" and "targetted_divisor base target = Some td" and "0 < unat td" and "unat td \<le> 1024"
  shows "\<exists>w d. sd_get_clock_divider hci base target = Some w \<and> clock_denominator w = 2 ^ d
    \<and> unat td \<le> 2 ^ d \<and> (d = 0 \<or> 2 ^ (d - 1) < unat td)"
proof -
  have "unat td < 2 ^ 32" using assms(4) by simp
  then obtain d where d: "find_first_bit 32 td = int d" "unat td \<le> 2 ^ d" "d = 0 \<or> 2 ^ (d - 1) < unat td"
    using find_first_bit_log [of td 32] assms(3) by auto
  have "d \<le> 10"
  proof (cases "d = 0")
    case False
    then have "2 ^ (d - 1) < (2 :: nat) ^ 10" using d(3) assms(4) by simp
    then have "d - 1 < 10" by (simp only: power_strict_increasing_iff)
    then show ?thesis by simp
  qed simp
  then show ?thesis
    using assms(1,2) d divisor_of_log [OF d(1)] divider_field [of d "divisor_of td"]
    by (auto simp: sd_get_clock_divider_def Let_def)
qed

section \<open>Commands on a controller that is ready\<close>

text \<open>What the card sees of the accesses: the size and count of the blocks, the argument and the
  command that are written, and the readings of the data register.\<close>

definition card_event :: "event \<Rightarrow> bool" where
  "card_event e = (case e of
     RegRead r v \<Rightarrow> r = EMMC_BASE + EMMC_DATA
   | RegWrite r v \<Rightarrow> r \<in> {EMMC_BASE + EMMC_BLKSIZECNT, EMMC_BASE + EMMC_ARG1, EMMC_BASE + EMMC_CMDTM}
   | Barrier \<Rightarrow> False)"

definition card_view :: "hw \<Rightarrow> event list" where
  "card_view h = filter card_event (trace h)"

text \<open>The start of a command with its argument, for blocks of size \<open>bs\<close> and the count \<open>n\<close>.\<close>

definition command_events :: "u32 \<Rightarrow> int \<Rightarrow> u32 \<Rightarrow> u32 \<Rightarrow> event list" where
  "command_events bs n argument cmd =
     [RegWrite (EMMC_BASE + EMMC_BLKSIZECNT) (bs OR push_bit 16 (word_of_int n)),
      RegWrite (EMMC_BASE + EMMC_ARG1) argument, RegWrite (EMMC_BASE + EMMC_CMDTM) cmd]"

lemma card_view_emit [simp]: "card_view (emit es h) = card_view h @ filter card_event es"
  by (simp add: card_view_def emit_def)

lemma card_view_reads [simp]: "card_view (h\<lparr>reads := vs\<rparr>) = card_view h"
  by (simp add: card_view_def)

lemma card_event_simps [simp]:
  "\<not> card_event Barrier"
  "\<not> card_event (RegRead TIMER_CLO v)"
  "\<not> card_event (RegRead (EMMC_BASE + EMMC_STATUS) v)"
  "\<not> card_event (RegRead (EMMC_BASE + EMMC_INTERRUPT) v)"
  "\<not> card_event (RegRead (EMMC_BASE + EMMC_RESP0) v)"
  "\<not> card_event (RegWrite (EMMC_BASE + EMMC_INTERRUPT) v)"
  "card_event (RegRead (EMMC_BASE + EMMC_DATA) v)"
  "card_event (RegWrite (EMMC_BASE + EMMC_BLKSIZECNT) v)"
  "card_event (RegWrite (EMMC_BASE + EMMC_ARG1) v)"
  "card_event (RegWrite (EMMC_BASE + EMMC_CMDTM) v)"
  by (simp_all add: card_event_def EMMC_BASE_def EMMC_STATUS_def EMMC_INTERRUPT_def EMMC_RESP0_def
      EMMC_DATA_def EMMC_BLKSIZECNT_def EMMC_ARG1_def EMMC_CMDTM_def timer_address)

lemma card_view_timer [simp]: "filter card_event (timer_reads ts) = []"
  using card_event_simps(1,2) by (induction ts) (simp_all add: timer_reads_def timer_address)

lemma emmc_read_cons:
  "reads h = v # vs \<Longrightarrow> \<exists>h'. emmc_read reg h = Some (v, h') \<and> reads h' = vs
     \<and> card_view h' = card_view h @ filter card_event [RegRead (EMMC_BASE + reg) v]"
  by (simp add: emmc_read_def)

lemma card_view_emmc_write [simp]:
  "card_view (emmc_write reg v h) = card_view h @ filter card_event [RegWrite (EMMC_BASE + reg) v]"
  by (simp add: emmc_write_def mmio_write_def)

lemma reads_emmc_write [simp]: "reads (emmc_write reg v h) = reads h"
  by (simp add: emmc_write_def)

lemma timeout_wait_hit:
  assumes "reads h = t # i # rest" and "0 \<le> usec" and "i AND m \<noteq> 0"
  shows "\<exists>h'. timeout_wait (emmc_any EMMC_INTERRUPT m) usec h = Some h' \<and> reads h' = rest
    \<and> card_view h' = card_view h"
  using assms
  by (simp add: timeout_wait_def register_timer_def Let_def timeout_loop.simps emmc_any_def emmc_read_def)

definition elapsed :: "u32 \<Rightarrow> u32 \<Rightarrow> int \<Rightarrow> bool" where
  "elapsed t t' usec \<longleftrightarrow> int (unat t) + usec < 2 ^ 32 \<and> int (unat t) + usec \<le> int (unat t')"

lemma pause_hit:
  "reads h = t # t' # rest \<Longrightarrow> 0 < usec \<Longrightarrow> elapsed t t' usec \<Longrightarrow>
   \<exists>h'. pause usec h = Some h' \<and> reads h' = rest \<and> card_view h' = card_view h"
  using usleep_polls [of h t "[]" t' rest usec] by (auto simp: pause_def elapsed_def)

lemma emmc_idle_hit:
  "reads h = st # rest \<Longrightarrow> st AND m = 0 \<Longrightarrow>
   \<exists>h'. emmc_idle m h = Some h' \<and> reads h' = rest \<and> card_view h' = card_view h"
  by (subst emmc_idle.simps) (simp add: emmc_read_def)

lemma ucast_low_byte: "ucast (v AND 0xff :: u32) = (ucast v :: u8)"
  by (rule bit_word_eqI) (auto simp: bit_simps byte_mask)

lemma write_word_splice:
  assumes "off + 4 \<le> length buf"
  shows "write_word v buf off = splice buf off (word_bytes v)"
proof (rule nth_equalityI)
  show "length (write_word v buf off) = length (splice buf off (word_bytes v))"
    using assms by (simp add: buf_simps word_bytes_def)
next
  fix k assume k: "k < length (write_word v buf off)"
  consider "k < off \<or> off + 4 \<le> k" | "k = off" | "k = off + 1" | "k = off + 2" | "k = off + 3" by linarith
  then show "write_word v buf off ! k = splice buf off (word_bytes v) ! k"
    using k assms
    by cases (auto simp: buf_simps word_bytes_def write_word_def nth_list_update ucast_low_byte)
qed

lemma splice_append:
  "a + length xs + length ys \<le> length b \<Longrightarrow>
   splice (splice b a xs) (a + length xs) ys = splice b a (xs @ ys)"
  by (simp add: splice_def add.assoc add.commute [of "length ys"])

lemma xfer_words_read:
  "reads h = ws @ rest \<Longrightarrow> a + 4 * length ws \<le> length buf \<Longrightarrow>
   \<exists>h'. xfer_words (length ws) False a buf h
     = Some (a + 4 * length ws, splice buf a (concat (map word_bytes ws)), h') \<and> reads h' = rest
     \<and> card_view h' = card_view h @ map (RegRead (EMMC_BASE + EMMC_DATA)) ws"
proof (induction ws arbitrary: a buf h)
  case Nil
  then show ?case by (simp add: splice_def)
next
  case (Cons w ws)
  have rd: "reads h = w # ws @ rest" using Cons.prems(1) by simp
  obtain h1 where h1: "emmc_read EMMC_DATA h = Some (w, h1)" "reads h1 = ws @ rest"
      "card_view h1 = card_view h @ [RegRead (EMMC_BASE + EMMC_DATA) w]"
    using emmc_read_cons [OF rd, of EMMC_DATA] by auto
  have len: "length (word_bytes w) = 4" by (simp add: word_bytes_def)
  have l: "length (concat (map word_bytes ws)) = 4 * length ws"
    by (simp add: length_concat_blocks [where n = 4] word_bytes_def)
  let ?b = "splice buf a (word_bytes w)"
  obtain h2 where "xfer_words (length ws) False (a + 4) ?b h1
      = Some (a + 4 + 4 * length ws, splice ?b (a + 4) (concat (map word_bytes ws)), h2)" "reads h2 = rest"
      "card_view h2 = card_view h1 @ map (RegRead (EMMC_BASE + EMMC_DATA)) ws"
    using Cons.IH [OF h1(2), of "a + 4" ?b] Cons.prems(2) len by (auto simp: buf_simps)
  then show ?case
    using h1(1,3) Cons.prems(2) splice_append [of a "word_bytes w" "concat (map word_bytes ws)" buf] len l
    by (simp add: write_word_splice add.commute)
qed

text \<open>The readings of one block: a timer, the interrupts twice, and the words of the block.\<close>

type_synonym block_poll = "u32 \<times> u32 \<times> u32 \<times> u32 list"

definition poll_readings :: "block_poll \<Rightarrow> u32 list" where
  "poll_readings p = (case p of (t, i, i', ws) \<Rightarrow> t # i # i' # ws)"

definition poll_words :: "block_poll \<Rightarrow> u32 list" where
  "poll_words p = (case p of (t, i, i', ws) \<Rightarrow> ws)"

definition poll_bytes :: "block_poll \<Rightarrow> bytes" where
  "poll_bytes p = concat (map word_bytes (poll_words p))"

definition poll_ready :: "nat \<Rightarrow> block_poll \<Rightarrow> bool" where
  "poll_ready bs p = (case p of (t, i, i', ws) \<Rightarrow>
     i AND 0x8020 \<noteq> 0 \<and> i' AND 0xffff0020 = 0x20 \<and> 4 * length ws = bs)"

lemma length_poll_bytes: "poll_ready bs p \<Longrightarrow> length (poll_bytes p) = bs"
  by (auto simp: poll_ready_def poll_bytes_def poll_words_def length_concat_blocks [where n = 4] word_bytes_def
      split: prod.splits)

definition data_events :: "block_poll list \<Rightarrow> event list" where
  "data_events ps = map (RegRead (EMMC_BASE + EMMC_DATA)) (concat (map poll_words ps))"

lemma data_events_simps [simp]:
  "data_events [] = []"
  "data_events (p # ps) = map (RegRead (EMMC_BASE + EMMC_DATA)) (poll_words p) @ data_events ps"
  by (simp_all add: data_events_def)

lemma xfer_blocks_read:
  assumes "reads h = concat (map poll_readings ps) @ rest" and "\<forall>p \<in> set ps. poll_ready (unat (e_block_size d)) p"
    and "a + length ps * unat (e_block_size d) \<le> length (e_buf d)" and "0 \<le> timeout"
  shows "\<exists>h'. xfer_blocks (length ps) False (push_bit 5 1) timeout a d h
     = Some (True, d\<lparr>e_buf := splice (e_buf d) a (concat (map poll_bytes ps))\<rparr>, h') \<and> reads h' = rest
     \<and> card_view h' = card_view h @ data_events ps"
  using assms
proof (induction ps arbitrary: a d h)
  case Nil
  then show ?case by (simp add: splice_def)
next
  case (Cons p ps)
  obtain t i i' ws where p: "p = (t, i, i', ws)" by (cases p) auto
  let ?bs = "unat (e_block_size d)"
  have ready: "i AND 0x8020 \<noteq> 0" "i' AND 0xffff0020 = 0x20" "4 * length ws = ?bs"
    using Cons.prems(2) p by (auto simp: poll_ready_def)
  have rd: "reads h = t # i # i' # ws @ concat (map poll_readings ps) @ rest"
    using Cons.prems(1) p poll_readings_def [of p] by simp
  obtain h1 where h1: "timeout_wait (emmc_any EMMC_INTERRUPT (push_bit 5 1 OR 0x8000)) timeout h = Some h1"
      "reads h1 = i' # ws @ concat (map poll_readings ps) @ rest" "card_view h1 = card_view h"
    using timeout_wait_hit [OF rd Cons.prems(4), of "push_bit 5 1 OR 0x8000"] ready(1) by auto
  obtain h2 where h2: "emmc_read EMMC_INTERRUPT h1 = Some (i', h2)"
      "reads h2 = ws @ concat (map poll_readings ps) @ rest" "card_view h2 = card_view h"
    using emmc_read_cons [OF h1(2), of EMMC_INTERRUPT] h1(3) by auto
  let ?h3 = "emmc_write EMMC_INTERRUPT (0xffff0000 OR push_bit 5 1) h2"
  have r3: "reads ?h3 = ws @ concat (map poll_readings ps) @ rest" using h2(2) by simp
  have words: "(?bs + 3) div 4 = length ws" using ready(3) by simp
  have b: "poll_bytes p = concat (map word_bytes ws)" "length (poll_bytes p) = ?bs"
    using p length_poll_bytes Cons.prems(2) by (auto simp: poll_bytes_def poll_words_def)
  obtain h4 where h4: "xfer_words (length ws) False a (e_buf d) ?h3
      = Some (a + ?bs, splice (e_buf d) a (poll_bytes p), h4)" "reads h4 = concat (map poll_readings ps) @ rest"
      "card_view h4 = card_view h @ map (RegRead (EMMC_BASE + EMMC_DATA)) ws"
    using xfer_words_read [OF r3, of a "e_buf d"] ready(3) Cons.prems(3) b(1) h2(3) by auto
  let ?d = "d\<lparr>e_buf := splice (e_buf d) a (poll_bytes p)\<rparr>"
  obtain h5 where h5: "xfer_blocks (length ps) False (push_bit 5 1) timeout (a + ?bs) ?d h4
      = Some (True, ?d\<lparr>e_buf := splice (e_buf ?d) (a + ?bs) (concat (map poll_bytes ps))\<rparr>, h5)" "reads h5 = rest"
      "card_view h5 = card_view h4 @ data_events ps"
    using Cons.IH [of h4 ?d "a + ?bs"] h4(2) Cons.prems b(2) by (auto simp: buf_simps)
  have lp: "length (concat (map poll_bytes ps)) = length ps * ?bs"
    using Cons.prems(2) by (intro length_concat_blocks) (auto intro: length_poll_bytes)
  have "splice (splice (e_buf d) a (poll_bytes p)) (a + ?bs) (concat (map poll_bytes ps))
      = splice (e_buf d) a (poll_bytes p @ concat (map poll_bytes ps))"
    using splice_append [of a "poll_bytes p" "concat (map poll_bytes ps)" "e_buf d"] b(2) lp Cons.prems(3)
    by simp
  then show ?case using h1(1) h2(1) h4(1,3) h5 ready(2) words p by (simp add: poll_words_def)
qed

text \<open>The readings of a command that the card accepts, up to its response.\<close>

fun int_poll :: "u32 list \<Rightarrow> u32 \<Rightarrow> bool" where
  "int_poll [st, t, t', t1, i, i', t2, t2', r] r0 \<longleftrightarrow>
     st AND 0x1 = 0 \<and> elapsed t t' 2000 \<and> i AND 0x8001 \<noteq> 0 \<and> i' AND 0xffff0001 = 0x1
     \<and> elapsed t2 t2' 2000 \<and> r = r0"
| "int_poll _ _ = False"

definition command_started :: "u32 \<Rightarrow> u32 \<Rightarrow> emmc_block_dev \<Rightarrow> emmc_block_dev" where
  "command_started cmd_reg r0 d = d\<lparr>last_cmd_reg := cmd_reg, last_cmd_success := False, last_r0 := r0\<rparr>"

lemma int_poll_cases:
  assumes "int_poll xs r0"
  obtains st t t' t1 i i' t2 t2' where "xs = [st, t, t', t1, i, i', t2, t2', r0]" "st AND 0x1 = 0"
    "elapsed t t' 2000" "i AND 0x8001 \<noteq> 0" "i' AND 0xffff0001 = 0x1" "elapsed t2 t2' 2000"
  using assms by (elim int_poll.elims) auto

lemma issue_int_accepted:
  assumes "reads h = xs @ rest" and "int_poll xs r0" and "0 \<le> timeout"
    and "cmd_reg AND SD_CMD_RSPNS_TYPE_MASK = SD_CMD_RSPNS_TYPE_48"
    and "\<not> use_sdma d" and "blocks_to_transfer d \<le> 0xffff"
  shows "\<exists>h9. reads h9 = rest
   \<and> card_view h9 = card_view h @ command_events (e_block_size d) (blocks_to_transfer d) argument cmd_reg
   \<and> sd_issue_command_int dma cmd_reg argument timeout d h = do {
     (ok, d2, h10) \<leftarrow> data_phase cmd_reg False timeout (command_started cmd_reg r0 d) h9;
     if \<not> ok then Some (d2, h10)
     else do {
       (ok, d3, h11) \<leftarrow> complete_phase dma cmd_reg False timeout d2 h10;
       Some (if ok then d3\<lparr>last_cmd_success := True\<rparr> else d3, h11)
     }}"
proof -
  from assms(2) obtain st t t' t1 i i' t2 t2' where xs: "xs = [st, t, t', t1, i, i', t2, t2', r0]"
      and c: "st AND 0x1 = 0" "elapsed t t' 2000" "i AND 0x8001 \<noteq> 0" "i' AND 0xffff0001 = 0x1"
        "elapsed t2 t2' 2000"
    by (rule int_poll_cases)
  have "reads h = st # t # t' # t1 # i # i' # t2 # t2' # r0 # rest" using assms(1) xs by simp
  then obtain h1 where h1: "emmc_idle 0x1 h = Some h1" "reads h1 = t # t' # t1 # i # i' # t2 # t2' # r0 # rest"
      "card_view h1 = card_view h"
    using emmc_idle_hit c(1) by blast
  let ?w = "emmc_write EMMC_CMDTM cmd_reg (emmc_write EMMC_ARG1 argument (emmc_write EMMC_BLKSIZECNT
      (e_block_size d OR push_bit 16 (word_of_int (blocks_to_transfer d))) h1))"
  have vw: "card_view ?w = card_view h @ command_events (e_block_size d) (blocks_to_transfer d) argument cmd_reg"
    using h1(3) by (simp add: command_events_def)
  obtain h4 where h4: "pause 2000 ?w = Some h4" "reads h4 = t1 # i # i' # t2 # t2' # r0 # rest"
      "card_view h4 = card_view ?w"
    using pause_hit [of ?w t t' _ 2000] h1(2) c(2) by auto
  obtain h5 where h5: "timeout_wait (emmc_any EMMC_INTERRUPT 0x8001) timeout h4 = Some h5"
      "reads h5 = i' # t2 # t2' # r0 # rest" "card_view h5 = card_view h4"
    using timeout_wait_hit [OF h4(2) assms(3) c(3)] by blast
  obtain h6 where h6: "emmc_read EMMC_INTERRUPT h5 = Some (i', h6)" "reads h6 = t2 # t2' # r0 # rest"
      "card_view h6 = card_view h5"
    using emmc_read_cons [OF h5(2), of EMMC_INTERRUPT] by auto
  let ?h7 = "emmc_write EMMC_INTERRUPT 0xffff0001 h6"
  obtain h8 where h8: "pause 2000 ?h7 = Some h8" "reads h8 = r0 # rest" "card_view h8 = card_view h6"
    using pause_hit [of ?h7 t2 t2' _ 2000] h6(2) c(5) by auto
  obtain h9 where h9: "emmc_read EMMC_RESP0 h8 = Some (r0, h9)" "reads h9 = rest" "card_view h9 = card_view h8"
    using emmc_read_cons [OF h8(2), of EMMC_RESP0] by auto
  have view: "card_view h9 = card_view h
      @ command_events (e_block_size d) (blocks_to_transfer d) argument cmd_reg"
    using vw h4(3) h5(3) h6(3) h8(3) h9(3) by simp
  have "cmd_reg AND SD_CMD_RSPNS_TYPE_MASK \<noteq> SD_CMD_RSPNS_TYPE_48B"
    using assms(4) by (simp add: SD_CMD_RSPNS_TYPE_48_def SD_CMD_RSPNS_TYPE_48B_def)
  then show ?thesis
    using h1(1) h4(1) h5(1) h6(1) h8(1) h9(1,2) view assms(4-6) c(4)
    by (intro exI [of _ h9]) (simp add: sd_issue_command_int_def read_response_def command_started_def Let_def
        cong: if_cong)
qed

text \<open>A command without data.\<close>

lemma issue_int_plain:
  assumes "reads h = xs @ rest" and "int_poll xs r0" and "0 \<le> timeout"
    and "cmd_reg AND SD_CMD_RSPNS_TYPE_MASK = SD_CMD_RSPNS_TYPE_48" and "cmd_reg AND SD_CMD_ISDATA = 0"
    and "\<not> use_sdma d" and "blocks_to_transfer d \<le> 0xffff"
  shows "\<exists>h'. sd_issue_command_int dma cmd_reg argument timeout d h
     = Some ((command_started cmd_reg r0 d)\<lparr>last_cmd_success := True\<rparr>, h') \<and> reads h' = rest
     \<and> card_view h' = card_view h @ command_events (e_block_size d) (blocks_to_transfer d) argument cmd_reg"
proof -
  have "cmd_reg AND SD_CMD_RSPNS_TYPE_MASK \<noteq> SD_CMD_RSPNS_TYPE_48B"
    using assms(4) by (simp add: SD_CMD_RSPNS_TYPE_48_def SD_CMD_RSPNS_TYPE_48B_def)
  then show ?thesis
    using issue_int_accepted [OF assms(1-4,6,7), where dma = dma and argument = argument] assms(5)
    by (auto simp: data_phase_def complete_phase_def)
qed

text \<open>A command that reads \<open>length ps\<close> blocks.\<close>

definition blocks_ready :: "nat \<Rightarrow> block_poll list \<Rightarrow> bool" where
  "blocks_ready bs ps \<longleftrightarrow> (\<forall>p \<in> set ps. poll_ready bs p)"

lemma issue_int_reads:
  assumes "reads h = xs @ concat (map poll_readings ps) @ st # rest" and "int_poll xs r0" and "0 \<le> timeout"
    and "cmd_reg AND SD_CMD_RSPNS_TYPE_MASK = SD_CMD_RSPNS_TYPE_48"
    and "cmd_reg AND SD_CMD_ISDATA \<noteq> 0" and "cmd_reg AND SD_CMD_DAT_DIR_CH \<noteq> 0"
    and "\<not> use_sdma d" and "blocks_to_transfer d = int (length ps)" and "length ps \<le> 0xffff"
    and "blocks_ready (unat (e_block_size d)) ps" and "length ps * unat (e_block_size d) \<le> length (e_buf d)"
    and "st AND 0x2 = 0"
  shows "\<exists>h'. sd_issue_command_int dma cmd_reg argument timeout d h
     = Some ((command_started cmd_reg r0 d)\<lparr>last_cmd_success := True,
         e_buf := splice (e_buf d) 0 (concat (map poll_bytes ps))\<rparr>, h') \<and> reads h' = rest
     \<and> card_view h' = card_view h
         @ command_events (e_block_size d) (int (length ps)) argument cmd_reg @ data_events ps"
proof -
  let ?d = "command_started cmd_reg r0 d"
  have b: "blocks_to_transfer d \<le> 0xffff" using assms(8,9) by simp
  obtain h9 where h9: "reads h9 = concat (map poll_readings ps) @ st # rest"
    "card_view h9 = card_view h
      @ command_events (e_block_size d) (blocks_to_transfer d) argument cmd_reg"
    "sd_issue_command_int dma cmd_reg argument timeout d h = do {
     (ok, d2, h10) \<leftarrow> data_phase cmd_reg False timeout ?d h9;
     if \<not> ok then Some (d2, h10)
     else do {
       (ok, d3, h11) \<leftarrow> complete_phase dma cmd_reg False timeout d2 h10;
       Some (if ok then d3\<lparr>last_cmd_success := True\<rparr> else d3, h11)
     }}"
    using issue_int_accepted [OF assms(1-4,7) b, where dma = dma and argument = argument] by blast
  have ed: "e_buf ?d = e_buf d" "e_block_size ?d = e_block_size d" "blocks_to_transfer ?d = int (length ps)"
    using assms(8) by (simp_all add: command_started_def)
  let ?d2 = "?d\<lparr>e_buf := splice (e_buf d) 0 (concat (map poll_bytes ps))\<rparr>"
  obtain h10 where h10: "xfer_blocks (length ps) False (push_bit 5 1) timeout 0 ?d h9 = Some (True, ?d2, h10)"
      "reads h10 = st # rest" "card_view h10 = card_view h9 @ data_events ps"
    using xfer_blocks_read [OF h9(1), of ?d 0 timeout] assms(3,10,11) ed by (auto simp: blocks_ready_def)
  have dp: "data_phase cmd_reg False timeout ?d h9 = Some (True, ?d2, h10)"
    using assms(5,6) ed(3) h10(1) by (simp add: data_phase_def Let_def)
  obtain h11 where h11: "emmc_read EMMC_STATUS h10 = Some (st, h11)" "reads h11 = rest"
      "card_view h11 = card_view h10"
    using emmc_read_cons [OF h10(2), of EMMC_STATUS] by auto
  have cp: "complete_phase dma cmd_reg False timeout ?d2 h10
      = Some (True, ?d2, emmc_write EMMC_INTERRUPT 0xffff0002 h11)"
    using assms(5,12) h11(1) by (simp add: complete_phase_def pio_complete_def)
  show ?thesis using h9(2,3) dp cp h10(3) h11(2,3) assms(8) by simp
qed

text \<open>Nothing is pending but what is only acknowledged.\<close>

definition quiet :: "u32 \<Rightarrow> bool" where
  "quiet p \<longleftrightarrow> p AND SD_BUFFER_WRITE_READY = 0 \<and> p AND SD_BUFFER_READ_READY = 0
     \<and> p AND SD_CARD_REMOVAL = 0 \<and> p AND SD_CARD_INTERRUPT = 0"

lemma handle_interrupts_quiet:
  "reads h = p # rest \<Longrightarrow> quiet p \<Longrightarrow> \<exists>h'. sd_handle_interrupts dma d h = Some (d, h')
     \<and> reads h' = rest \<and> card_view h' = card_view h"
  using emmc_read_cons [of h p rest EMMC_INTERRUPT] by (auto simp: sd_handle_interrupts_def quiet_def)

lemma issue_command_quiet:
  assumes "reads h = p # rest" and "quiet p" and "\<not> card_removal d"
    and "c \<in> {SEND_STATUS, READ_SINGLE_BLOCK, READ_MULTIPLE_BLOCK}"
  shows "\<exists>h'. reads h' = rest \<and> card_view h' = card_view h \<and> sd_issue_command dma c argument timeout d h
    = sd_issue_command_int dma (sd_commands ! unat c) argument timeout (d\<lparr>last_cmd := c\<rparr>) h'"
proof -
  obtain h' where h': "sd_handle_interrupts dma d h = Some (d, h')" "reads h' = rest"
      "card_view h' = card_view h"
    using handle_interrupts_quiet [OF assms(1,2)] by blast
  have "c AND IS_APP_CMD = 0" "unat c < length sd_commands" "sd_commands ! unat c \<noteq> SD_CMD_RESERVED"
    using assms(4)
    by (auto simp: SEND_STATUS_def READ_SINGLE_BLOCK_def READ_MULTIPLE_BLOCK_def IS_APP_CMD_def sd_commands_def
        SD_CMD_RESERVED_def SD_CMD_INDEX_def SD_RESP_R1_def SD_DATA_READ_def SD_CMD_ISDATA_def
        SD_CMD_DAT_DIR_CH_def SD_CMD_CRCCHK_EN_def SD_CMD_RSPNS_TYPE_48_def SD_CMD_MULTI_BLOCK_def
        SD_CMD_BLKCNT_EN_def)
  then show ?thesis using h' assms(3) by (intro exI [of _ h']) (simp add: sd_issue_command_def)
qed

lemma read_command_words:
  "sd_commands ! unat SEND_STATUS AND SD_CMD_RSPNS_TYPE_MASK = SD_CMD_RSPNS_TYPE_48"
  "sd_commands ! unat SEND_STATUS AND SD_CMD_ISDATA = 0"
  "c \<in> {READ_SINGLE_BLOCK, READ_MULTIPLE_BLOCK} \<Longrightarrow>
   sd_commands ! unat c AND SD_CMD_RSPNS_TYPE_MASK = SD_CMD_RSPNS_TYPE_48
   \<and> sd_commands ! unat c AND SD_CMD_ISDATA \<noteq> 0 \<and> sd_commands ! unat c AND SD_CMD_DAT_DIR_CH \<noteq> 0"
  by (auto simp: SEND_STATUS_def READ_SINGLE_BLOCK_def READ_MULTIPLE_BLOCK_def sd_commands_def
        SD_CMD_INDEX_def SD_RESP_R1_def SD_DATA_READ_def SD_CMD_ISDATA_def SD_CMD_RSPNS_TYPE_MASK_def
        SD_CMD_DAT_DIR_CH_def SD_CMD_CRCCHK_EN_def SD_CMD_RSPNS_TYPE_48_def SD_CMD_MULTI_BLOCK_def
        SD_CMD_BLKCNT_EN_def)

section \<open>Properties\<close>

text \<open>C33: The divider of \<open>sd_get_clock_divider\<close>, on a controller of version 2 or later: for a target
  above the base clock, or one that divides it into at most 1024 parts, the clock is divided by the
  least power of two for which the result does not exceed the target.\<close>

theorem clock_divider_accurate:
  assumes "hci \<ge> 2" and "0 < target" and "base < target \<or> unat target dvd unat base"
    and "0 < base" and "unat base \<le> 1024 * unat target"
  shows "\<exists>w d. sd_get_clock_divider hci base target = Some w \<and> clock_denominator w = 2 ^ d
    \<and> unat base \<le> unat target * 2 ^ d \<and> (d = 0 \<or> unat target * 2 ^ (d - 1) < unat base)"
proof (cases "base < target")
  case True
  then have "targetted_divisor base target = Some 1" by (simp add: targetted_divisor_def)
  from divider_denominator [OF assms(1) this] obtain w d
    where "sd_get_clock_divider hci base target = Some w" "clock_denominator w = 2 ^ d" "d = 0"
    by fastforce
  then show ?thesis using True by (intro exI [of _ w] exI [of _ 0]) (simp add: word_less_nat_alt)
next
  case False
  define k where "k = unat base div unat target"
  have t: "0 < unat target" using assms(2) by (simp add: word_less_nat_alt)
  have b: "unat base = unat target * k" using assms(3) False by (simp add: k_def)
  have "base mod target = 0" using b by (simp add: word_arith_nat_mod)
  then have td: "targetted_divisor base target = Some (base div target)"
    using False assms(2) by (simp add: targetted_divisor_def)
  have uk: "unat (base div target) = k" by (simp add: k_def unat_div)
  have "0 < k" "k \<le> 1024" using assms(4,5) b t by (auto simp: word_less_nat_alt)
  then obtain w d where w: "sd_get_clock_divider hci base target = Some w" "clock_denominator w = 2 ^ d"
      "k \<le> 2 ^ d" "d = 0 \<or> 2 ^ (d - 1) < k"
    using divider_denominator [OF assms(1) td, unfolded uk] by blast
  then show ?thesis using b t by (intro exI [of _ w] exI [of _ d]) auto
qed

theorem clock_divider_accurate_witness:
  "\<exists>w d. sd_get_clock_divider 2 100000000 400000 = Some w
    \<and> clock_denominator w = 2 ^ d \<and> 250 \<le> (2 :: nat) ^ d \<and> (2 :: nat) ^ (d - 1) < 250"
proof -
  obtain w d where w: "sd_get_clock_divider 2 100000000 400000 = Some w" "clock_denominator w = 2 ^ d"
      "250 \<le> (2 :: nat) ^ d" "d = 0 \<or> (2 :: nat) ^ (d - 1) < 250"
    using clock_divider_accurate [of 2 400000 100000000] by auto
  moreover have "d \<noteq> 0" using w(3) by (cases d) auto
  ultimately show ?thesis by blast
qed

text \<open>When the target does not divide the base clock, the quotient is decremented instead of
  incremented: with a quotient of \<open>2 ^ k + 1\<close> the clock is divided by \<open>2 ^ k\<close>, so that the card runs
  faster than the rate that was asked for.\<close>

theorem clock_divider_overshoots:
  assumes "hci \<ge> 2" and "0 < target" and "unat base = unat target * (2 ^ k + 1) + r"
    and "0 < r" and "r < unat target" and "k \<le> 10"
  shows "\<exists>w. sd_get_clock_divider hci base target = Some w
    \<and> clock_denominator w = 2 ^ k \<and> unat target * clock_denominator w < unat base"
proof -
  have t: "0 < unat target" using assms(2) by (simp add: word_less_nat_alt)
  have dm: "unat base div unat target = 2 ^ k + 1" "unat base mod unat target = r"
    using quotient_remainder [of r "unat target" "2 ^ k + 1"] assms(3,5) by simp_all
  have uq: "unat (base div target) = 2 ^ k + 1" by (simp add: unat_div dm(1))
  have "unat target \<le> unat base" using assms(3) by simp
  then have "\<not> base < target" by (simp add: word_less_nat_alt)
  moreover have "base mod target \<noteq> 0"
    using dm(2) assms(4) by (metis unat_0 unat_mod less_irrefl)
  ultimately have td: "targetted_divisor base target = Some (base div target - 1)"
    using assms(2) by (simp add: targetted_divisor_def)
  have "1 \<le> base div target" using uq by (simp add: word_le_nat_alt)
  then have ud: "unat (base div target - 1) = 2 ^ k" using uq by (simp add: unat_sub word_le_nat_alt)
  have "(2 :: nat) ^ k \<le> 2 ^ 10" using assms(6) by (intro power_increasing) auto
  then obtain w d where w: "sd_get_clock_divider hci base target = Some w" "clock_denominator w = 2 ^ d"
      "(2::nat) ^ k \<le> 2 ^ d" "d = 0 \<or> (2::nat) ^ (d - 1) < 2 ^ k"
    using divider_denominator [OF assms(1) td, unfolded ud] by auto
  have "k \<le> d" using w(3) by simp
  moreover have "d \<le> k" using w(4) by (auto simp: power_strict_increasing_iff)
  ultimately have "d = k" by simp
  then show ?thesis using w(1,2) assms(3) t by (intro exI [of _ w]) simp
qed

theorem clock_divider_overshoots_witness:
  "\<exists>w. sd_get_clock_divider 2 250000000 100000000 = Some w \<and> clock_denominator w = 1"
  using clock_divider_overshoots [of 2 100000000 250000000 0 50000000] by auto

end
