(* ===== verification/Emmc.thy ===== *)
theory Emmc
  imports Sd_Host Block_Layer
begin

text \<open>
  The SD card driver (\<open>rboot/emmc.c\<close>), second part: \<open>sd_card_init\<close>, \<open>sd_ensure_data_mode\<close>,
  \<open>sd_do_data_command\<close>, \<open>sd_read\<close> and \<open>sd_write\<close>, as a driver of the block layer.

  \<open>sd_dev\<close> is the memory of the device structure, \<^term>\<open>None\<close> before it is allocated and after
  \<open>free(ret)\<close>: a later use of it has no result. \<open>vc\<close> is the firmware behind the mailbox, \<open>junk\<close>
  the contents of allocated memory, \<open>dma\<close> the memory of the SDMA buffer.
\<close>

section \<open>State\<close>

record sd_host =
  hci_ver :: u32
  capabilities_0 :: u32
  capabilities_1 :: u32
  sd_mailbuffer :: "u32 list"
  sd_dev :: "emmc_block_dev option"
  sd_hw :: hw

text \<open>How a step of the initialisation goes on: \<open>return -1\<close> with what is left of the device
  structure, start again after a failed voltage switch, or continue.\<close>

datatype sd_out = Fail "emmc_block_dev option" | Again emmc_block_dev | Go emmc_block_dev

type_synonym init_step = "emmc_block_dev \<Rightarrow> hw \<Rightarrow> (sd_out \<times> hw) option"

definition and_then :: "init_step \<Rightarrow> init_step \<Rightarrow> init_step" where
  "and_then f g d h = do {
     (r, h1) \<leftarrow> f d h;
     (case r of Go d1 \<Rightarrow> g d1 h1 | _ \<Rightarrow> Some (r, h1))
   }"

text \<open>A command whose failure ends the initialisation, with or without \<open>free(ret)\<close>.\<close>

definition checked :: "bytes \<Rightarrow> bool \<Rightarrow> u32 \<Rightarrow> u32 \<Rightarrow> int \<Rightarrow> init_step" where
  "checked dma frees command argument timeout d h = do {
     (d1, h1) \<leftarrow> sd_issue_command dma command argument timeout d h;
     Some (if sd_fail d1 then Fail (if frees then None else Some d1) else Go d1, h1)
   }"

section \<open>The controller\<close>

text \<open>The result is the base clock, or \<^term>\<open>None\<close> for \<open>return -1\<close>.\<close>

definition reset_controller :: "hw \<Rightarrow> (bool \<times> hw) option" where
  "reset_controller h = do {
     (control1, h1) \<leftarrow> emmc_read EMMC_CONTROL1 h;
     let c = ((control1 OR push_bit 24 1) AND NOT (push_bit 2 1)) AND NOT 1;
     h2 \<leftarrow> timeout_wait (emmc_none EMMC_CONTROL1 (push_bit 24 0x7)) 1000000
            (emmc_write EMMC_CONTROL1 c h1);
     (v, h3) \<leftarrow> emmc_read EMMC_CONTROL1 h2;
     Some (v AND push_bit 24 0x7 = 0, h3)
   }"

definition start_clock :: "u32 \<Rightarrow> u32 \<Rightarrow> hw \<Rightarrow> (bool \<times> hw) option" where
  "start_clock hci base_clk h = do {
     (c, h1) \<leftarrow> emmc_read EMMC_CONTROL1 h;
     f_id \<leftarrow> sd_get_clock_divider hci base_clk SD_CLOCK_ID;
     if f_id = SD_GET_CLOCK_DIVIDER_FAIL then Some (False, h1)
     else do {
       h2 \<leftarrow> timeout_wait (emmc_any EMMC_CONTROL1 0x2) 0x1000000
              (emmc_write EMMC_CONTROL1 (((c OR 1) OR f_id) OR push_bit 16 7) h1);
       (v, h3) \<leftarrow> emmc_read EMMC_CONTROL1 h2;
       if v AND 0x2 = 0 then Some (False, h3)
       else do {
         h4 \<leftarrow> pause 2000 h3;
         (c2, h5) \<leftarrow> emmc_read EMMC_CONTROL1 h4;
         h6 \<leftarrow> pause 2000 (emmc_write EMMC_CONTROL1 (c2 OR 4) h5);
         Some (True, h6)
       }
     }
   }"

definition mask_interrupts :: "hw \<Rightarrow> hw option" where
  "mask_interrupts h =
     pause 2000 (emmc_write EMMC_IRPT_MASK (0xffffffff AND NOT SD_CARD_INTERRUPT)
       (emmc_write EMMC_INTERRUPT 0xffffffff (emmc_write EMMC_IRPT_EN 0 h)))"

definition sd_init_controller ::
  "(u32 list \<Rightarrow> u32 list) \<Rightarrow> sd_host \<Rightarrow> (u32 option \<times> sd_host) option" where
  "sd_init_controller vc s = do {
     (_, m, h1) \<leftarrow> bcm_2708_power_cycle vc (sd_mailbuffer s) (sd_hw s);
     (ver, h2) \<leftarrow> emmc_read EMMC_SLOTISR_VER h1;
     let s2 = s\<lparr>sd_mailbuffer := m, hci_ver := drop_bit 16 ver AND 0xff, sd_hw := h2\<rparr>;
     if hci_ver s2 < 2 then Some (None, s2)
     else do {
       (ok, h3) \<leftarrow> reset_controller h2;
       if \<not> ok then Some (None, s2\<lparr>sd_hw := h3\<rparr>)
       else do {
         (c0, h4) \<leftarrow> emmc_read EMMC_CAPABILITIES_0 h3;
         (c1, h5) \<leftarrow> emmc_read EMMC_CAPABILITIES_1 h4;
         h6 \<leftarrow> timeout_wait (emmc_any EMMC_STATUS (push_bit 16 1)) 500000 h5;
         (status_reg, h7) \<leftarrow> emmc_read EMMC_STATUS h6;
         let s7 = s2\<lparr>capabilities_0 := c0, capabilities_1 := c1, sd_hw := h7\<rparr>;
         if status_reg AND push_bit 16 1 = 0 then Some (None, s7)
         else do {
           (clk, m', h8) \<leftarrow> sd_get_base_clock_hz vc m (emmc_write EMMC_CONTROL2 0 h7);
           let base_clk = (if clk = 0 then 100000000 else clk);
           (ok, h9) \<leftarrow> start_clock (hci_ver s7) base_clk h8;
           if \<not> ok then Some (None, s7\<lparr>sd_mailbuffer := m', sd_hw := h9\<rparr>)
           else do {
             h10 \<leftarrow> mask_interrupts h9;
             Some (Some base_clk, s7\<lparr>sd_mailbuffer := m', sd_hw := h10\<rparr>)
           }
         }
       }
     }
   }"

text \<open>The device structure after the \<open>memset\<close>; the fields of the block layer are in
  \<open>sd_block_device\<close> below.\<close>

definition prepared :: "u32 \<Rightarrow> emmc_block_dev" where
  "prepared base_clk = \<lparr>e_device_id = [], card_supports_sdhc = 0, card_supports_18v = 0, card_ocr = 0,
     card_rca = 0, last_interrupt = 0, last_error = 0, sd_bus_widths = 0, sd_version = 0,
     failed_voltage_switch = False, last_cmd_reg = 0, last_cmd = 0, last_cmd_success = False,
     last_r0 = 0, last_r1 = 0, last_r2 = 0, last_r3 = 0, e_buf = [], blocks_to_transfer = 0,
     e_block_size = 0, use_sdma = False, card_removal = False, base_clock = base_clk\<rparr>"

section \<open>Identification of the card\<close>

definition SD_ERR_MASK_CMD_TIMEOUT :: u32 where "SD_ERR_MASK_CMD_TIMEOUT = push_bit 16 1"

text \<open>Recovery from a command timeout: the line is reset and the interrupt acknowledged.\<close>

definition clear_cmd_timeout :: "hw \<Rightarrow> (bool \<times> hw) option" where
  "clear_cmd_timeout h = do {
     (r, h1) \<leftarrow> sd_reset_cmd h;
     Some (if r = -1 then (False, h1)
           else (True, emmc_write EMMC_INTERRUPT SD_ERR_MASK_CMD_TIMEOUT h1))
   }"

text \<open>CMD8: \<open>v2_later\<close>, or \<^term>\<open>None\<close> for \<open>return -1\<close>.\<close>

definition send_if_cond ::
  "bytes \<Rightarrow> emmc_block_dev \<Rightarrow> hw \<Rightarrow> (bool option \<times> emmc_block_dev \<times> hw) option" where
  "send_if_cond dma d h = do {
     (d1, h1) \<leftarrow> sd_issue_command dma SEND_IF_COND 0x1aa 500000 d h;
     if sd_timeout d1 then Some (Some False, d1, h1)
     else if sd_cmd_timeout d1 then do {
       (ok, h2) \<leftarrow> clear_cmd_timeout h1;
       Some (if ok then Some False else None, d1, h2)
     }
     else if sd_fail d1 then Some (None, d1, h1)
     else Some (if last_r0 d1 AND 0xfff \<noteq> 0x1aa then None else Some True, d1, h1)
   }"

text \<open>CMD5: only a card that does not answer goes on.\<close>

definition check_sdio :: "bytes \<Rightarrow> init_step" where
  "check_sdio dma d h = do {
     (d1, h1) \<leftarrow> sd_issue_command dma IO_SET_OP_COND 0 10000 d h;
     if sd_timeout d1 then Some (Go d1, h1)
     else if sd_cmd_timeout d1 then do {
       (ok, h2) \<leftarrow> clear_cmd_timeout h1;
       Some (if ok then Go d1 else Fail (Some d1), h2)
     }
     else Some (Fail (Some d1), h1)
   }"

definition v2_flags :: "bool \<Rightarrow> emmc_block_dev \<Rightarrow> u32" where
  "v2_flags v2_later d =
     (if v2_later then push_bit 30 1 OR (if \<not> failed_voltage_switch d then push_bit 24 1 else 0) else 0)"

definition note_ocr :: "emmc_block_dev \<Rightarrow> emmc_block_dev" where
  "note_ocr d =
     (let d1 = d\<lparr>card_ocr := drop_bit 8 (last_r0 d) AND 0xffff,
                card_supports_sdhc := drop_bit 30 (last_r0 d) AND 0x1\<rparr>
      in if \<not> failed_voltage_switch d then d1\<lparr>card_supports_18v := drop_bit 24 (last_r0 d) AND 0x1\<rparr>
         else d1)"

text \<open>The loop \<open>while(card_is_busy)\<close>.\<close>

partial_function (option) wait_ready ::
  "bytes \<Rightarrow> bool \<Rightarrow> emmc_block_dev \<Rightarrow> hw \<Rightarrow> (sd_out \<times> hw) option" where
  "wait_ready dma v2_later d h = do {
     (d1, h1) \<leftarrow> sd_issue_command dma (ACMD 41) (0x00ff8000 OR v2_flags v2_later d) 500000 d h;
     if sd_fail d1 then Some (Fail (Some d1), h1)
     else if drop_bit 31 (last_r0 d1) AND 0x1 \<noteq> 0 then Some (Go (note_ocr d1), h1)
     else do {
       h2 \<leftarrow> pause 500000 h1;
       wait_ready dma v2_later d1 h2
     }
   }"

definition sd_identify :: "bytes \<Rightarrow> init_step" where
  "sd_identify dma = and_then (checked dma False GO_IDLE_STATE 0 500000) (\<lambda>d h. do {
     (v2, d1, h1) \<leftarrow> send_if_cond dma d h;
     (case v2 of
        None \<Rightarrow> Some (Fail (Some d1), h1)
      | Some v2_later \<Rightarrow>
          and_then (check_sdio dma)
            (and_then (checked dma False (ACMD 41) 0 500000) (wait_ready dma v2_later)) d1 h1)
   })"

section \<open>Voltage switch\<close>

definition switch_failed :: init_step where
  "switch_failed d h = do {
     h1 \<leftarrow> sd_power_off h;
     Some (Again (d\<lparr>failed_voltage_switch := True\<rparr>), h1)
   }"

definition dat_lines :: "u32 \<Rightarrow> u32" where "dat_lines status_reg = drop_bit 20 status_reg AND 0xf"

definition voltage_switch :: "bytes \<Rightarrow> init_step" where
  "voltage_switch dma d0 h0 = do {
     (d, h) \<leftarrow> sd_issue_command dma VOLTAGE_SWITCH 0 500000 d0 h0;
     if sd_fail d then switch_failed d h
     else do {
       (c, h1) \<leftarrow> emmc_read EMMC_CONTROL1 h;
       (st, h2) \<leftarrow> emmc_read EMMC_STATUS (emmc_write EMMC_CONTROL1 (c AND NOT (push_bit 2 1)) h1);
       if dat_lines st \<noteq> 0 then switch_failed d h2
       else do {
         (c0, h3) \<leftarrow> emmc_read EMMC_CONTROL0 h2;
         h4 \<leftarrow> pause 5000 (emmc_write EMMC_CONTROL0 (c0 OR push_bit 8 1) h3);
         (c0', h5) \<leftarrow> emmc_read EMMC_CONTROL0 h4;
         if drop_bit 8 c0' AND 0x1 = 0 then switch_failed d h5
         else do {
           (c', h6) \<leftarrow> emmc_read EMMC_CONTROL1 h5;
           h7 \<leftarrow> pause 10000 (emmc_write EMMC_CONTROL1 (c' OR push_bit 2 1) h6);
           (st', h8) \<leftarrow> emmc_read EMMC_STATUS h7;
           if dat_lines st' \<noteq> 0xf then switch_failed d h8 else Some (Go d, h8)
         }
       }
     }
   }"

text \<open>The clock rate is raised (its return value is ignored), then the voltage is switched.\<close>

definition sd_voltage :: "bytes \<Rightarrow> u32 \<Rightarrow> init_step" where
  "sd_voltage dma hci d h = do {
     (_, h1) \<leftarrow> sd_switch_clock_rate hci (base_clock d) SD_CLOCK_NORMAL h;
     h2 \<leftarrow> pause 5000 h1;
     if card_supports_18v d \<noteq> 0 then voltage_switch dma d h2 else Some (Go d, h2)
   }"

section \<open>Selection of the card\<close>

definition store_cid :: init_step where
  "store_cid d h = Some (Go (d\<lparr>e_device_id :=
     word_bytes (last_r0 d) @ word_bytes (last_r1 d) @ word_bytes (last_r2 d) @ word_bytes (last_r3 d)\<rparr>), h)"

definition store_rca :: init_step where
  "store_rca d h =
     (let resp = last_r0 d; d1 = d\<lparr>card_rca := drop_bit 16 resp AND 0xffff\<rparr> in
      if drop_bit 15 resp AND 0x1 \<noteq> 0 then Some (Fail None, h)
      else if drop_bit 14 resp AND 0x1 \<noteq> 0 then Some (Fail None, h)
      else if drop_bit 13 resp AND 0x1 \<noteq> 0 then Some (Fail None, h)
      else if drop_bit 8 resp AND 0x1 = 0 then Some (Fail None, h)
      else Some (Go d1, h))"

definition card_state :: "u32 \<Rightarrow> u32" where "card_state resp = drop_bit 9 resp AND 0xf"

definition sd_select :: "bytes \<Rightarrow> init_step" where
  "sd_select dma =
     and_then (checked dma False ALL_SEND_CID 0 500000) (and_then store_cid
    (and_then (checked dma True SEND_RELATIVE_ADDR 0 500000) (and_then store_rca
    (\<lambda>d. and_then (checked dma True SELECT_CARD (push_bit 16 (card_rca d)) 500000)
      (\<lambda>d h. Some (if card_state (last_r0 d) \<noteq> 3 \<and> card_state (last_r0 d) \<noteq> 4
                     then Fail None else Go d, h)) d))))"

section \<open>Block length, SCR and bus width\<close>

definition sd_blocklen :: "bytes \<Rightarrow> init_step" where
  "sd_blocklen dma d h = (if card_supports_sdhc d = 0 then checked dma True SET_BLOCKLEN 512 500000 d h
     else Some (Go d, h))"

definition sd_set_block_size :: init_step where
  "sd_set_block_size d h = do {
     (v, h1) \<leftarrow> emmc_read EMMC_BLKSIZECNT h;
     Some (Go (d\<lparr>e_block_size := 512\<rparr>), emmc_write EMMC_BLKSIZECNT ((v AND NOT 0xfff) OR 0x200) h1)
   }"

definition version_of_scr :: "u32 \<Rightarrow> nat" where
  "version_of_scr scr0 =
     (let sd_spec = drop_bit (56 - 32) scr0 AND 0xf;
          sd_spec3 = drop_bit (47 - 32) scr0 AND 0x1;
          sd_spec4 = drop_bit (42 - 32) scr0 AND 0x1
      in if sd_spec = 0 then 1
         else if sd_spec = 1 then 2
         else if sd_spec = 2 then
           (if sd_spec3 = 0 then 3 else if sd_spec3 = 1 then
              (if sd_spec4 = 0 then 4 else if sd_spec4 = 1 then 5 else 0) else 0)
         else 0)"

definition sd_read_scr :: "(nat \<Rightarrow> u8) \<Rightarrow> bytes \<Rightarrow> init_step" where
  "sd_read_scr junk dma d h = do {
     (d1, h1) \<leftarrow> sd_issue_command dma SEND_SCR 0 500000
        (d\<lparr>e_buf := malloc_bytes junk 8, e_block_size := 8, blocks_to_transfer := 1\<rparr>) h;
     let d2 = d1\<lparr>e_block_size := 512\<rparr>;
     if sd_fail d2 then Some (Fail None, h1)
     else
       (let scr0 = byte_swap (read_word (e_buf d2) 0) in
        Some (Go (d2\<lparr>sd_version := version_of_scr scr0,
                    sd_bus_widths := drop_bit (48 - 32) scr0 AND 0xf\<rparr>), h1))
   }"

text \<open>A failure of ACMD6 is only reported; the card interrupt then stays masked.\<close>

definition sd_bus_width :: "bytes \<Rightarrow> init_step" where
  "sd_bus_width dma d h =
     (if sd_bus_widths d AND 0x4 \<noteq> 0 then do {
        (old_mask, h1) \<leftarrow> emmc_read EMMC_IRPT_MASK h;
        (d1, h2) \<leftarrow> sd_issue_command dma SET_BUS_WIDTH 0x2 500000 d
                      (emmc_write EMMC_IRPT_MASK (old_mask AND NOT (push_bit 8 1)) h1);
        if sd_fail d1 then Some (Go d1, h2)
        else do {
          (c0, h3) \<leftarrow> emmc_read EMMC_CONTROL0 h2;
          Some (Go d1, emmc_write EMMC_IRPT_MASK old_mask (emmc_write EMMC_CONTROL0 (c0 OR 0x2) h3))
        }
      }
      else Some (Go d, h))"

definition sd_setup :: "(nat \<Rightarrow> u8) \<Rightarrow> bytes \<Rightarrow> init_step" where
  "sd_setup junk dma =
     and_then (sd_blocklen dma) (and_then sd_set_block_size (and_then (sd_read_scr junk dma)
    (and_then (sd_bus_width dma) (\<lambda>d h. Some (Go d, emmc_write EMMC_INTERRUPT 0xffffffff h)))))"

section \<open>sd_card_init\<close>

text \<open>
  \<open>has_dev\<close> says whether \<open>*dev\<close> points to a device structure; the second result says whether it
  does afterwards. The recursive calls pass the address of the local pointer \<open>ret\<close>.
\<close>

partial_function (option) sd_card_init ::
  "(u32 list \<Rightarrow> u32 list) \<Rightarrow> (nat \<Rightarrow> u8) \<Rightarrow> bytes \<Rightarrow> bool \<Rightarrow> sd_host \<Rightarrow> (int \<times> bool \<times> sd_host) option" where
  "sd_card_init vc junk dma has_dev s = do {
     (clk, s1) \<leftarrow> sd_init_controller vc s;
     (case clk of
        None \<Rightarrow> Some (-1, has_dev, s1)
      | Some base_clk \<Rightarrow>
          if has_dev \<and> sd_dev s1 = None then None
          else do {
            (r, h2) \<leftarrow> and_then (sd_identify dma) (and_then (sd_voltage dma (hci_ver s1))
                        (and_then (sd_select dma) (sd_setup junk dma))) (prepared base_clk) (sd_hw s1);
            (case r of
               Fail m \<Rightarrow> Some (-1, has_dev, s1\<lparr>sd_dev := m, sd_hw := h2\<rparr>)
             | Go d \<Rightarrow> Some (0, True, s1\<lparr>sd_dev := Some d, sd_hw := h2\<rparr>)
             | Again d \<Rightarrow> do {
                 (ret, _, s3) \<leftarrow> sd_card_init vc junk dma True (s1\<lparr>sd_dev := Some d, sd_hw := h2\<rparr>);
                 Some (ret, has_dev, s3)
               })
          })
   }"

section \<open>Data transfers\<close>

definition get_dev :: "sd_host \<Rightarrow> (emmc_block_dev \<times> hw) option" where
  "get_dev s = map_option (\<lambda>d. (d, sd_hw s)) (sd_dev s)"

definition put_dev :: "emmc_block_dev \<Rightarrow> hw \<Rightarrow> sd_host \<Rightarrow> sd_host" where
  "put_dev d h s = s\<lparr>sd_dev := Some d, sd_hw := h\<rparr>"

text \<open>A command of \<open>sd_ensure_data_mode\<close>: a failure forgets the address of the card.\<close>

definition mode_command :: "bytes \<Rightarrow> u32 \<Rightarrow> u32 \<Rightarrow> sd_host \<Rightarrow> (bool \<times> emmc_block_dev \<times> sd_host) option" where
  "mode_command dma command argument s = do {
     (d, h) \<leftarrow> get_dev s;
     (d1, h1) \<leftarrow> sd_issue_command dma command argument 500000 d h;
     let d2 = (if sd_fail d1 then d1\<lparr>card_rca := 0\<rparr> else d1);
     Some (\<not> sd_fail d1, d2, put_dev d2 h1 s)
   }"

definition recheck_mode :: "bytes \<Rightarrow> sd_host \<Rightarrow> (int \<times> sd_host) option" where
  "recheck_mode dma s = do {
     (d, h) \<leftarrow> get_dev s;
     (ok, d1, s1) \<leftarrow> mode_command dma SEND_STATUS (push_bit 16 (card_rca d)) s;
     if \<not> ok then Some (-1, s1)
     else if card_state (last_r0 d1) \<noteq> 4
     then Some (-1, put_dev (d1\<lparr>card_rca := 0\<rparr>) (sd_hw s1) s1)
     else Some (0, s1)
   }"

definition ensure_state ::
  "(u32 list \<Rightarrow> u32 list) \<Rightarrow> (nat \<Rightarrow> u8) \<Rightarrow> bytes \<Rightarrow> sd_host \<Rightarrow> (int \<times> sd_host) option" where
  "ensure_state vc junk dma s = do {
     (d, h) \<leftarrow> get_dev s;
     (ok, d1, s1) \<leftarrow> mode_command dma SEND_STATUS (push_bit 16 (card_rca d)) s;
     if \<not> ok then Some (-1, s1)
     else
       (let cur_state = card_state (last_r0 d1) in
        if cur_state = 3 then do {
          (ok, d2, s2) \<leftarrow> mode_command dma SELECT_CARD (push_bit 16 (card_rca d1)) s1;
          if ok then recheck_mode dma s2 else Some (-1, s2)
        }
        else if cur_state = 5 then do {
          (ok, d2, s2) \<leftarrow> mode_command dma STOP_TRANSMISSION 0 s1;
          if \<not> ok then Some (-1, s2)
          else do {
            (_, h3) \<leftarrow> sd_reset_dat (sd_hw s2);
            recheck_mode dma (s2\<lparr>sd_hw := h3\<rparr>)
          }
        }
        else if cur_state \<noteq> 4 then do {
          (ret, _, s2) \<leftarrow> sd_card_init vc junk dma True s1;
          if ret \<noteq> 0 then Some (ret, s2) else recheck_mode dma s2
        }
        else Some (0, s1))
   }"

definition sd_ensure_data_mode ::
  "(u32 list \<Rightarrow> u32 list) \<Rightarrow> (nat \<Rightarrow> u8) \<Rightarrow> bytes \<Rightarrow> sd_host \<Rightarrow> (int \<times> sd_host) option" where
  "sd_ensure_data_mode vc junk dma s = do {
     (d, _) \<leftarrow> get_dev s;
     if card_rca d = 0 then do {
       (ret, _, s1) \<leftarrow> sd_card_init vc junk dma True s;
       if ret \<noteq> 0 then Some (ret, s1) else ensure_state vc junk dma s1
     }
     else ensure_state vc junk dma s
   }"

text \<open>The retry loop, \<open>n\<close> attempts left; on failure the address of the card is forgotten.\<close>

primrec data_tries :: "nat \<Rightarrow> bytes \<Rightarrow> u32 \<Rightarrow> u32 \<Rightarrow> emmc_block_dev \<Rightarrow> hw \<Rightarrow> (int \<times> emmc_block_dev \<times> hw) option" where
  "data_tries 0 dma command block_no d h = Some (-1, d\<lparr>card_rca := 0\<rparr>, h)"
| "data_tries (Suc n) dma command block_no d h = do {
     (d1, h1) \<leftarrow> sd_issue_command dma command block_no 5000000 (d\<lparr>use_sdma := False\<rparr>) h;
     if \<not> sd_fail d1 then Some (0, d1, h1) else data_tries n dma command block_no d1 h1
   }"

definition data_command :: "bool \<Rightarrow> int \<Rightarrow> u32" where
  "data_command is_write n =
     (if is_write then (if n > 1 then WRITE_MULTIPLE_BLOCK else WRITE_BLOCK)
      else (if n > 1 then READ_MULTIPLE_BLOCK else READ_SINGLE_BLOCK))"

definition max_retries :: nat where "max_retries = 3"

definition sd_do_data_command ::
  "bytes \<Rightarrow> bool \<Rightarrow> bytes \<Rightarrow> u32 \<Rightarrow> emmc_block_dev \<Rightarrow> hw \<Rightarrow> (int \<times> emmc_block_dev \<times> hw) option" where
  "sd_do_data_command dma is_write buf block_no d h =
     (let block_no = (if card_supports_sdhc d = 0 then block_no * 512 else block_no);
          bs = unat (e_block_size d)
      in if length buf < bs then Some (-1, d, h)
         else if bs = 0 then None
         else
           (let n = sint (of_nat (length buf div bs) :: u32); d1 = d\<lparr>blocks_to_transfer := n\<rparr>
            in if length buf mod bs \<noteq> 0 then Some (-1, d1, h)
               else data_tries max_retries dma (data_command is_write n) block_no (d1\<lparr>e_buf := buf\<rparr>) h))"

text \<open>Both driver functions; \<open>buf\<close> afterwards is the memory it points to.\<close>

definition sd_transfer ::
  "(u32 list \<Rightarrow> u32 list) \<Rightarrow> (nat \<Rightarrow> u8) \<Rightarrow> bytes \<Rightarrow> bool \<Rightarrow> bytes \<Rightarrow> u32 \<Rightarrow> sd_host
   \<Rightarrow> (int \<times> bytes \<times> sd_host) option" where
  "sd_transfer vc junk dma is_write buf block_no s = do {
     (r, s1) \<leftarrow> sd_ensure_data_mode vc junk dma s;
     if r \<noteq> 0 then Some (-1, buf, s1)
     else do {
       (d, h) \<leftarrow> get_dev s1;
       let bs = unat (e_block_size d);
       (r2, d2, h2) \<leftarrow> sd_do_data_command dma is_write buf block_no d h;
       let buf' = (if length buf < bs \<or> length buf mod bs \<noteq> 0 then buf else e_buf d2);
       Some (if r2 < 0 then -1 else sint (of_nat (length buf) :: u32), buf', put_dev d2 h2 s1)
     }
   }"

definition sd_read ::
  "(u32 list \<Rightarrow> u32 list) \<Rightarrow> (nat \<Rightarrow> u8) \<Rightarrow> bytes \<Rightarrow> sd_host dev_read" where
  "sd_read vc junk dma buf block_no s = sd_transfer vc junk dma False buf block_no s"

definition sd_write ::
  "(u32 list \<Rightarrow> u32 list) \<Rightarrow> (nat \<Rightarrow> u8) \<Rightarrow> bytes \<Rightarrow> sd_host dev_write" where
  "sd_write vc junk dma buf block_no s =
     map_option (\<lambda>(r, _, s'). (r, s')) (sd_transfer vc junk dma True buf block_no s)"

text \<open>The block layer's view of the structure.\<close>

definition sd_block_device ::
  "(u32 list \<Rightarrow> u32 list) \<Rightarrow> (nat \<Rightarrow> u8) \<Rightarrow> bytes \<Rightarrow> emmc_block_dev \<Rightarrow> sd_host block_device" where
  "sd_block_device vc junk dma d =
     \<lparr>driver_name = ''emmc'', device_name = ''emmc0'', device_id = e_device_id d,
      supports_multiple_block_read = True, supports_multiple_block_write = True,
      dev_read = Some (sd_read vc junk dma), dev_write = Some (sd_write vc junk dma),
      block_size = 512, num_blocks = 0\<rparr>"

section \<open>Reading from a card in the transfer state\<close>

lemma ensure_mode_ready:
  assumes "sd_dev s = Some d" and "reads (sd_hw s) = p # xs @ rest" and "quiet p" and "int_poll xs r"
    and "card_state r = 4" and "card_rca d \<noteq> 0" and "\<not> card_removal d" and "\<not> use_sdma d"
    and "blocks_to_transfer d \<le> 0xffff"
  shows "\<exists>d' h'. sd_ensure_data_mode vc junk dma s = Some (0, put_dev d' h' s) \<and> reads h' = rest
    \<and> \<not> card_removal d' \<and> e_block_size d' = e_block_size d
    \<and> card_supports_sdhc d' = card_supports_sdhc d
    \<and> card_view h' = card_view (sd_hw s) @ command_events (e_block_size d) (blocks_to_transfer d)
        (push_bit 16 (card_rca d)) (sd_commands ! unat SEND_STATUS)"
proof -
  obtain h1 where h1: "reads h1 = xs @ rest" "card_view h1 = card_view (sd_hw s)"
    "sd_issue_command dma SEND_STATUS (push_bit 16 (card_rca d)) 500000 d (sd_hw s)
     = sd_issue_command_int dma (sd_commands ! unat SEND_STATUS) (push_bit 16 (card_rca d)) 500000
         (d\<lparr>last_cmd := SEND_STATUS\<rparr>) h1"
    using issue_command_quiet [OF assms(2,3,7), of SEND_STATUS dma] by blast
  obtain h2 where h2: "reads h2 = rest"
    "card_view h2 = card_view h1 @ command_events (e_block_size d) (blocks_to_transfer d)
        (push_bit 16 (card_rca d)) (sd_commands ! unat SEND_STATUS)"
    "sd_issue_command_int dma (sd_commands ! unat SEND_STATUS) (push_bit 16 (card_rca d)) 500000
       (d\<lparr>last_cmd := SEND_STATUS\<rparr>) h1
     = Some ((command_started (sd_commands ! unat SEND_STATUS) r (d\<lparr>last_cmd := SEND_STATUS\<rparr>))
         \<lparr>last_cmd_success := True\<rparr>, h2)"
    using issue_int_plain [OF h1(1) assms(4) _ read_command_words(1,2), of 500000
        "d\<lparr>last_cmd := SEND_STATUS\<rparr>" dma] assms(8,9) by auto
  let ?d = "(command_started (sd_commands ! unat SEND_STATUS) r (d\<lparr>last_cmd := SEND_STATUS\<rparr>))
      \<lparr>last_cmd_success := True\<rparr>"
  have f: "\<not> sd_fail ?d" "card_state (last_r0 ?d) = 4"
    using assms(5) by (simp_all add: sd_fail_def command_started_def)
  have "mode_command dma SEND_STATUS (push_bit 16 (card_rca d)) s = Some (True, ?d, put_dev ?d h2 s)"
    using assms(1) h1(3) h2(3) f(1) by (simp add: mode_command_def get_dev_def Let_def)
  then have "sd_ensure_data_mode vc junk dma s = Some (0, put_dev ?d h2 s)"
    using assms(1,6) f(2) by (simp add: sd_ensure_data_mode_def ensure_state_def get_dev_def Let_def)
  then show ?thesis
    using h2(1,2) h1(2) assms(7) by (intro exI [of _ ?d] exI [of _ h2]) (simp add: command_started_def)
qed

lemma data_command_reads:
  assumes "reads h = p # xs @ concat (map poll_readings ps) @ st # rest" and "quiet p" and "int_poll xs r"
    and "\<not> card_removal d" and "e_block_size d = 512" and "length buf = 512 * length ps"
    and "ps \<noteq> []" and "length ps \<le> 0xffff" and "blocks_ready 512 ps" and "st AND 0x2 = 0"
  shows "\<exists>d' h'. sd_do_data_command dma False buf block_no d h = Some (0, d', h') \<and> reads h' = rest
    \<and> e_buf d' = concat (map poll_bytes ps)
    \<and> card_view h' = card_view h @ command_events 512 (int (length ps))
        (if card_supports_sdhc d = 0 then block_no * 512 else block_no)
        (sd_commands ! unat (if length ps > 1 then READ_MULTIPLE_BLOCK else READ_SINGLE_BLOCK))
        @ data_events ps"
proof -
  let ?n = "int (length ps)"
  let ?c = "data_command False ?n"
  let ?b = "if card_supports_sdhc d = 0 then block_no * 512 else block_no"
  let ?d = "d\<lparr>blocks_to_transfer := ?n, e_buf := buf, use_sdma := False\<rparr>"
  have c: "?c \<in> {READ_SINGLE_BLOCK, READ_MULTIPLE_BLOCK}" by (simp add: data_command_def)
  have cc: "(if length ps > 1 then READ_MULTIPLE_BLOCK else READ_SINGLE_BLOCK) = ?c"
    by (simp add: data_command_def)
  obtain h1 where h1: "reads h1 = xs @ concat (map poll_readings ps) @ st # rest"
    "card_view h1 = card_view h"
    "sd_issue_command dma ?c ?b 5000000 ?d h
     = sd_issue_command_int dma (sd_commands ! unat ?c) ?b 5000000 (?d\<lparr>last_cmd := ?c\<rparr>) h1"
    using issue_command_quiet [OF assms(1,2), of ?d ?c dma] assms(4) c by fastforce
  have words: "sd_commands ! unat ?c AND SD_CMD_RSPNS_TYPE_MASK = SD_CMD_RSPNS_TYPE_48"
      "sd_commands ! unat ?c AND SD_CMD_ISDATA \<noteq> 0" "sd_commands ! unat ?c AND SD_CMD_DAT_DIR_CH \<noteq> 0"
    using read_command_words(3) [OF c] by auto
  have bl: "length (concat (map poll_bytes ps)) = length buf"
    using assms(6,9) by (subst length_concat_blocks [where n = 512])
      (auto simp: blocks_ready_def intro: length_poll_bytes)
  then have sp: "splice buf 0 (concat (map poll_bytes ps)) = concat (map poll_bytes ps)"
    by (simp add: splice_def)
  obtain d2 h2 where h2: "sd_issue_command_int dma (sd_commands ! unat ?c) ?b 5000000 (?d\<lparr>last_cmd := ?c\<rparr>) h1
      = Some (d2, h2)" "reads h2 = rest" "last_cmd_success d2" "e_buf d2 = concat (map poll_bytes ps)"
      "card_view h2 = card_view h1 @ command_events 512 ?n ?b (sd_commands ! unat ?c) @ data_events ps"
    using issue_int_reads [OF h1(1) assms(3) _ words, of 5000000 "?d\<lparr>last_cmd := ?c\<rparr>" dma ?b]
      assms(5-10) sp by auto
  have n: "sint (of_nat (length buf div 512) :: u32) = ?n"
  proof -
    have "length ps < 2 ^ 31" using assms(8) by simp
    then show ?thesis using sint_of_nat32 assms(6) by simp
  qed
  have "0 < length ps" using assms(7) by simp
  then have "data_tries max_retries dma ?c ?b (d\<lparr>blocks_to_transfer := ?n, e_buf := buf\<rparr>) h = Some (0, d2, h2)"
    using h1(3) h2(1-4) by (simp add: max_retries_def numeral_3_eq_3 sd_fail_def)
  then have "sd_do_data_command dma False buf block_no d h = Some (0, d2, h2)"
    using n assms(5,6) \<open>0 < length ps\<close> by (simp add: sd_do_data_command_def Let_def)
  then show ?thesis using h2(2,4,5) h1(2) unfolding cc by auto
qed

lemma read_command_values:
  "sd_commands ! unat SEND_STATUS = 0x0D0A0000"
  "sd_commands ! unat READ_SINGLE_BLOCK = 0x112A0010"
  "sd_commands ! unat READ_MULTIPLE_BLOCK = 0x122A0032"
  by (simp_all add: SEND_STATUS_def READ_SINGLE_BLOCK_def READ_MULTIPLE_BLOCK_def sd_commands_def
        SD_CMD_INDEX_def SD_RESP_R1_def SD_DATA_READ_def SD_CMD_ISDATA_def SD_CMD_RSPNS_TYPE_MASK_def
        SD_CMD_DAT_DIR_CH_def SD_CMD_CRCCHK_EN_def SD_CMD_RSPNS_TYPE_48_def SD_CMD_MULTI_BLOCK_def
        SD_CMD_BLKCNT_EN_def)

section \<open>Properties\<close>

text \<open>C32: \<open>sd_read\<close> of \<open>n\<close> blocks from an initialised card that is in the transfer state, when the
  controller reports every step as complete. The controller is given two commands: SEND_STATUS with
  the card's address, and the read of \<open>n\<close> blocks of 512 bytes with the number of the first block as
  argument (multiplied by 512 on a card that is not of high capacity), READ_MULTIPLE_BLOCK when \<open>n\<close>
  is more than one; the command words hold the indices 13, 17 and 18 with the type of the response and
  of the transfer. Then the data register is read once per word, and nothing else is read from it.
  The buffer holds exactly the bytes of the words so read, little-endian and in order, the return
  value is the size of the buffer, and no reading beyond those of the two commands is consumed.\<close>

theorem sd_read_delivers_blocks:
  assumes "sd_dev s = Some d" and "card_rca d \<noteq> 0" and "\<not> card_removal d" and "\<not> use_sdma d"
    and "blocks_to_transfer d \<le> 0xffff" and "e_block_size d = 512"
    and "length buf = 512 * length ps" and "ps \<noteq> []" and "length ps \<le> 0xffff"
    and "reads (sd_hw s) = p1 # xs1 @ p2 # xs2 @ concat (map poll_readings ps) @ st # rest"
    and "quiet p1" and "quiet p2" and "int_poll xs1 r1" and "card_state r1 = 4" and "int_poll xs2 r2"
    and "blocks_ready 512 ps" and "st AND 0x2 = 0"
  shows "\<exists>s'. sd_read vc junk dma buf block_no s
      = Some (int (length buf), concat (map word_bytes (concat (map poll_words ps))), s')
    \<and> reads (sd_hw s') = rest
    \<and> card_view (sd_hw s') = card_view (sd_hw s)
        @ command_events 512 (blocks_to_transfer d) (push_bit 16 (card_rca d))
            0x0D0A0000
        @ command_events 512 (int (length ps))
            (if card_supports_sdhc d = 0 then block_no * 512 else block_no)
            (if length ps > 1 then 0x122A0032 else 0x112A0010)
        @ map (RegRead (EMMC_BASE + EMMC_DATA)) (concat (map poll_words ps))"
proof -
  obtain d1 h1 where m: "sd_ensure_data_mode vc junk dma s = Some (0, put_dev d1 h1 s)"
      "reads h1 = p2 # xs2 @ concat (map poll_readings ps) @ st # rest" "\<not> card_removal d1" "e_block_size d1 = 512"
      "card_supports_sdhc d1 = card_supports_sdhc d"
      "card_view h1 = card_view (sd_hw s) @ command_events 512 (blocks_to_transfer d)
        (push_bit 16 (card_rca d)) (sd_commands ! unat SEND_STATUS)"
    using ensure_mode_ready [OF assms(1,10,11,13,14,2-5), of vc junk dma] assms(6) by auto
  obtain d2 h2 where t: "sd_do_data_command dma False buf block_no d1 h1 = Some (0, d2, h2)" "reads h2 = rest"
      "e_buf d2 = concat (map poll_bytes ps)"
      "card_view h2 = card_view h1 @ command_events 512 (int (length ps))
        (if card_supports_sdhc d1 = 0 then block_no * 512 else block_no)
        (sd_commands ! unat (if length ps > 1 then READ_MULTIPLE_BLOCK else READ_SINGLE_BLOCK))
        @ data_events ps"
    using data_command_reads [OF m(2) assms(12,15) m(3,4) assms(7,8,9,16,17), of dma block_no] by blast
  have "length buf < 2 ^ 31" using assms(7,9) by simp
  then have "sint (of_nat (length buf) :: u32) = int (length buf)" using sint_of_nat32 by simp
  moreover have "0 < length ps" using assms(8) by simp
  moreover have "concat (map poll_bytes ps) = concat (map word_bytes (concat (map poll_words ps)))"
    by (induction ps) (simp_all add: poll_bytes_def)
  ultimately show ?thesis
    using m t assms(7)
    by (simp add: sd_read_def sd_transfer_def get_dev_def put_dev_def data_events_def read_command_values
        if_distrib [of "\<lambda>c. sd_commands ! unat c"] cong: if_cong)
qed

definition demo_poll :: "u32 \<Rightarrow> u32 list" where
  "demo_poll r = [0, 0, 3000, 7, 1, 1, 0, 3000, r]"

definition demo_block :: block_poll where
  "demo_block = (0, 0x20, 0x20, replicate 128 0x04030201)"

definition demo_sd :: sd_host where
  "demo_sd = \<lparr>hci_ver = 2, capabilities_0 = 0, capabilities_1 = 0, sd_mailbuffer = [],
     sd_dev = Some ((prepared 100000000)\<lparr>card_rca := 7, e_block_size := 512\<rparr>),
     sd_hw = \<lparr>reads = 0 # demo_poll 0x900 @ 0 # demo_poll 0x900
                @ concat (map poll_readings [demo_block]) @ 0 # [], trace = [], hw_errno = None\<rparr>\<rparr>"

theorem sd_read_delivers_blocks_witness:
  "\<exists>s'. sd_read id (\<lambda>_. 0) [] (replicate 512 0) 5 demo_sd
     = Some (512, concat (replicate 128 [1, 2, 3, 4]), s') \<and> reads (sd_hw s') = []
   \<and> RegWrite (EMMC_BASE + EMMC_ARG1) 2560 \<in> set (card_view (sd_hw s'))"
proof -
  have poll: "int_poll (demo_poll 0x900) 0x900" by (simp add: demo_poll_def elapsed_def)
  have demo_word: "word_bytes 0x04030201 = [1, 2, 3, 4]" by (simp add: word_bytes_def)
  have b: "concat (map word_bytes (concat (map poll_words [demo_block]))) = concat (replicate 128 [1, 2, 3, 4])"
    using demo_word by (simp add: poll_words_def demo_block_def map_replicate)
  show ?thesis
    using sd_read_delivers_blocks [OF _ _ _ _ _ _ _ _ _ _ _ _ poll _ poll, of demo_sd
        "(prepared 100000000)\<lparr>card_rca := 7, e_block_size := 512\<rparr>" "replicate 512 0" "[demo_block]" 0 0 0 "[]"
        id "\<lambda>_. 0" "[]" 5] b
    by (auto simp: demo_sd_def prepared_def quiet_def card_state_def blocks_ready_def poll_ready_def
        demo_block_def command_events_def)
qed

end
