(* ===== verification/Mount.thy ===== *)
theory Mount
  imports Nofs Ext2 Emmc "HOL-Library.Sublist"
begin

text \<open>
  The wiring of the drivers (\<open>libfs_init\<close> and \<open>register_fs\<close> of \<open>rboot/libfs.c\<close>): the SD card, the block
  cache over it, the partition table, and the file systems on the partitions, registered in the VFS.

  \<open>fs_config\<close> are the \<open>ENABLE_\<close> macros; \<open>makefile_config\<close> is what the Makefile defines. The USB and
  network parts of \<open>libfs_init\<close> are not in the tree. \<open>registry\<close> is the state of the VFS with the
  identity that the next allocated file system structure gets. The results of this theory: what
  \<open>read_mbr\<close> leaves behind is a well-formed registry, and a file is read correctly through the whole
  stack of VFS, FAT, partition, cache and device.
\<close>

section \<open>libfs.c\<close>

record fs_config =
  enable_sd :: bool
  enable_block_cache :: bool
  enable_mbr :: bool
  enable_fat :: bool
  enable_ext2 :: bool
  enable_nofs :: bool

definition makefile_config :: fs_config where
  "makefile_config = \<lparr>enable_sd = True, enable_block_cache = True, enable_mbr = True, enable_fat = True,
     enable_ext2 = True, enable_nofs = False\<rparr>"

record 's registry =
  reg_vfs :: "(u32, 's) vfs"
  next_fs :: nat

definition empty_registry :: "'s registry" where
  "empty_registry = \<lparr>reg_vfs = \<lparr>first_ve = [], def_ve = None, device_names = []\<rparr>, next_fs = 0\<rparr>"

text \<open>A call of a file system's \<open>init\<close> with \<open>&dev->fs\<close>: it is assigned only on success.\<close>

type_synonym 's init_result = "(int \<times> (u32, 's) fs option \<times> 's registry \<times> 's) option"

definition mounted :: "(u32, 's) fs option \<Rightarrow> (u32, 's) fs option \<Rightarrow> (u32, 's) fs option" where
  "mounted dev_fs new = (case new of Some f \<Rightarrow> Some f | None \<Rightarrow> dev_fs)"

definition call_fat :: "(nat \<Rightarrow> u8) \<Rightarrow> 's block_device \<Rightarrow> (u32, 's) fs option \<Rightarrow> 's registry \<Rightarrow> 's \<Rightarrow> 's init_result" where
  "call_fat junk dev dev_fs v s = do {
     (r, fat, s') \<leftarrow> fat_init (next_fs v) junk dev s;
     Some (r, mounted dev_fs (map_option (fat_ops junk) fat), v\<lparr>next_fs := Suc (next_fs v)\<rparr>, s')
   }"

definition call_ext2 :: "(nat \<Rightarrow> u8) \<Rightarrow> 's block_device \<Rightarrow> (u32, 's) fs option \<Rightarrow> 's registry \<Rightarrow> 's \<Rightarrow> 's init_result" where
  "call_ext2 junk dev dev_fs v s = do {
     (r, e2, s') \<leftarrow> ext2_init (next_fs v) junk dev s;
     Some (r, mounted dev_fs (map_option (ext2_ops junk) e2), v\<lparr>next_fs := Suc (next_fs v)\<rparr>, s')
   }"

definition call_nofs :: "(nat \<Rightarrow> u8) \<Rightarrow> 's block_device \<Rightarrow> (u32, 's) fs option \<Rightarrow> 's registry \<Rightarrow> 's \<Rightarrow> 's init_result" where
  "call_nofs junk dev dev_fs v s =
     (let (r, nofs) = nofs_init (next_fs v) dev
      in Some (r, Some (nofs_ops junk nofs), v\<lparr>next_fs := Suc (next_fs v)\<rparr>, s))"

definition fat_ids :: "int set" where
  "fat_ids = {1, 4, 6, 0xb, 0xc, 0xe, 0x11, 0x14, 0x1b, 0x1c, 0x1e}"

text \<open>The cases of the \<open>switch\<close> other than 0; the return values are ignored.\<close>

definition switch_id ::
  "fs_config \<Rightarrow> (nat \<Rightarrow> u8) \<Rightarrow> 's block_device \<Rightarrow> (u32, 's) fs option \<Rightarrow> int \<Rightarrow> 's registry \<Rightarrow> 's \<Rightarrow> 's init_result" where
  "switch_id cfg junk dev dev_fs pid v s =
     (if pid \<in> fat_ids \<and> enable_fat cfg then call_fat junk dev dev_fs v s
      else if pid = 0x83 \<and> enable_ext2 cfg then call_ext2 junk dev dev_fs v s
      else if pid = 0xda \<and> enable_nofs cfg then call_nofs junk dev dev_fs v s
      else Some (0, dev_fs, v, s))"

text \<open>The part behind the \<open>switch\<close>.\<close>

definition enter :: "(u32, 's) fs option \<Rightarrow> 's registry \<Rightarrow> int \<times> 's registry" where
  "enter dev_fs v =
     (case dev_fs of
        Some f \<Rightarrow> (0, v\<lparr>reg_vfs := snd (vfs_register (Some f) (reg_vfs v))\<rparr>)
      | None \<Rightarrow> (-1, v))"

text \<open>\<open>register_fs\<close> as \<open>read_mbr\<close> calls it: the device is a new partition, whose \<open>fs\<close> is null and whose
  identifier is not 0.\<close>

definition register_part ::
  "fs_config \<Rightarrow> (nat \<Rightarrow> u8) \<Rightarrow> 's mbr_block_dev \<Rightarrow> u8 \<Rightarrow> 's registry \<times> 's \<Rightarrow> ('s registry \<times> 's) option" where
  "register_part cfg junk d pid = (\<lambda>(v, s). do {
     (_, f, v', s') \<leftarrow> switch_id cfg junk (mbr_bd (mbr_parent d) (part_no d) d) None (uint pid) v s;
     Some (snd (enter f v'), s')
   })"

definition mount_mbr ::
  "fs_config \<Rightarrow> (nat \<Rightarrow> u8) \<Rightarrow> 's block_device option \<Rightarrow> 's registry \<Rightarrow> 's \<Rightarrow>
   (int \<times> ('s block_device \<times> 's mbr_block_dev) list \<times> 's registry \<times> 's) option" where
  "mount_mbr cfg junk dev v s = read_mbr (register_part cfg junk) junk False dev v s"

text \<open>Case 0 tries one after the other.\<close>

definition probe ::
  "fs_config \<Rightarrow> (nat \<Rightarrow> u8) \<Rightarrow> 's block_device \<Rightarrow> (u32, 's) fs option \<Rightarrow> 's registry \<Rightarrow> 's \<Rightarrow> 's init_result" where
  "probe cfg junk dev dev_fs v s = do {
     (r, _, v1, s1) \<leftarrow> (if enable_mbr cfg then mount_mbr cfg junk (Some dev) v s else Some (-1, [], v, s));
     if r = 0 then Some (0, dev_fs, v1, s1)
     else do {
       (r, f, v2, s2) \<leftarrow> (if enable_fat cfg then call_fat junk dev dev_fs v1 s1 else Some (-1, dev_fs, v1, s1));
       if r = 0 then Some (0, f, v2, s2)
       else if enable_ext2 cfg then call_ext2 junk dev f v2 s2
       else Some (-1, f, v2, s2)
     }
   }"

definition register_fs ::
  "fs_config \<Rightarrow> (nat \<Rightarrow> u8) \<Rightarrow> 's block_device \<Rightarrow> (u32, 's) fs option \<Rightarrow> int \<Rightarrow> 's registry \<Rightarrow> 's \<Rightarrow>
   (int \<times> 's registry \<times> 's) option" where
  "register_fs cfg junk dev dev_fs pid v s = do {
     (_, f, v1, s1) \<leftarrow> (if pid = 0 then probe cfg junk dev dev_fs v s
                         else switch_id cfg junk dev dev_fs pid v s);
     let (r, v2) = enter f v1;
     Some (r, v2, s1)
   }"

text \<open>\<open>libfs_init\<close>: the device state is that of the card or that of the cache over it. \<open>alloc\<close> is the result
  of \<open>alloc_buf\<close>: the address and the content of the memory, or \<^term>\<open>None\<close> for a null pointer.\<close>

datatype booted =
    Uncached "sd_host registry" sd_host
  | Cached "sd_host cache_state registry" "sd_host cache_state"

definition mount_device :: "fs_config \<Rightarrow> (nat \<Rightarrow> u8) \<Rightarrow> 's block_device option \<Rightarrow> 's \<Rightarrow> ('s registry \<times> 's) option" where
  "mount_device cfg junk dev s =
     (if enable_mbr cfg then do {
        (_, _, v, s') \<leftarrow> mount_mbr cfg junk dev empty_registry s;
        Some (v, s')
      }
      else Some (empty_registry, s))"

definition libfs_init ::
  "fs_config \<Rightarrow> (u32 list \<Rightarrow> u32 list) \<Rightarrow> (nat \<Rightarrow> u8) \<Rightarrow> bytes \<Rightarrow> (u32 \<times> bytes) option \<Rightarrow> (nat \<Rightarrow> bool) \<Rightarrow>
   sd_host \<Rightarrow> booted option" where
  "libfs_init cfg vc junk dma alloc oom h =
     (if \<not> enable_sd cfg then Some (Uncached empty_registry h)
      else do {
        (r, has_dev, h1) \<leftarrow> sd_card_init vc junk dma False h;
        if r \<noteq> 0 then Some (Uncached empty_registry h1)
        else
          (let sd_dev_ptr = (if has_dev then map_option (sd_block_device vc junk dma) (sd_dev h1) else None);
               plain = map_option (\<lambda>(v, s). Uncached v s) (mount_device cfg junk sd_dev_ptr h1)
           in
           (case (if enable_block_cache cfg then alloc else None) of
              None \<Rightarrow> plain
            | Some (start, mem) \<Rightarrow> do {
                (_, c) \<leftarrow> cache_init sd_dev_ptr False start mem oom h1;
                (case c of
                   None \<Rightarrow> plain
                 | Some (c_dev, _, st) \<Rightarrow>
                     map_option (\<lambda>(v, s). Cached v s) (mount_device cfg junk (Some c_dev) st))
              }))
      })"

section \<open>Partitions are registered by register_fs\<close>

lemma register_part_is_register_fs:
  assumes "pid \<noteq> 0"
  shows "register_part cfg junk d pid (v, s) = map_option (\<lambda>(_, v', s'). (v', s'))
    (register_fs cfg junk (mbr_bd (mbr_parent d) (part_no d) d) None (uint pid) v s)"
proof -
  have "uint pid \<noteq> 0" using assms by (simp add: unsigned_eq_0_iff)
  then show ?thesis
    by (cases "switch_id cfg junk (mbr_bd (mbr_parent d) (part_no d) d) None (uint pid) v s")
      (auto simp: register_part_def register_fs_def Let_def split_beta)
qed

lemma mbr_entries_cong:
  assumes "\<And>d pid w. pid \<noteq> 0 \<Longrightarrow> reg d pid w = reg' d pid w"
  shows "mbr_entries reg parent adjust block_0 is parts w = mbr_entries reg' parent adjust block_0 is parts w"
proof (induction "is" arbitrary: parts w)
  case (Cons i "is")
  show ?case
  proof (cases "block_0 ! (p_offset i + 4) = 0")
    case False
    then have "reg d (block_0 ! (p_offset i + 4)) w = reg' d (block_0 ! (p_offset i + 4)) w" for d
      by (rule assms)
    moreover have "mbr_entries reg parent adjust block_0 is ps = mbr_entries reg' parent adjust block_0 is ps" for ps
      by (rule ext) (rule Cons.IH)
    ultimately show ?thesis using False by (simp add: Let_def mbr_entry_def)
  qed (use Cons.IH in simp)
qed simp

lemma read_mbr_cong:
  assumes "\<And>d pid w. pid \<noteq> 0 \<Longrightarrow> reg d pid w = reg' d pid w"
  shows "read_mbr reg junk oom dev v s = read_mbr reg' junk oom dev v s"
proof -
  have "mbr_entries reg = mbr_entries reg'" by (intro ext mbr_entries_cong) (rule assms)
  then show ?thesis by (simp only: read_mbr_def)
qed

text \<open>The recursion of the source: \<open>read_mbr\<close> calls \<open>register_fs\<close>.\<close>

lemma mount_mbr_registers:
  "mount_mbr cfg junk dev v s = read_mbr (\<lambda>d pid (v, s). map_option (\<lambda>(_, v', s'). (v', s'))
     (register_fs cfg junk (mbr_bd (mbr_parent d) (part_no d) d) None (uint pid) v s)) junk False dev v s"
  unfolding mount_mbr_def by (rule read_mbr_cong) (auto simp: register_part_is_register_fs)

section \<open>The registry\<close>

text \<open>Every entry has the name of its file system's device, the file systems are different, the default is
  one of the entries, and the list of names is in the order of registration, up to 255 names.\<close>

definition registry_wf :: "'s registry \<Rightarrow> bool" where
  "registry_wf v \<longleftrightarrow>
     (\<forall>ve \<in> set (first_ve (reg_vfs v)). map_option device_name (fs_parent (ve_fs ve)) = Some (ve_device_name ve)
        \<and> fs_ident (ve_fs ve) < next_fs v)
     \<and> distinct (map (\<lambda>ve. fs_ident (ve_fs ve)) (first_ve (reg_vfs v)))
     \<and> (case def_ve (reg_vfs v) of None \<Rightarrow> first_ve (reg_vfs v) = [] | Some d \<Rightarrow> d \<in> set (first_ve (reg_vfs v)))
     \<and> device_names (reg_vfs v) = take 255 (rev (map ve_device_name (first_ve (reg_vfs v))))"

lemma empty_registry_wf: "registry_wf empty_registry"
  by (simp add: registry_wf_def empty_registry_def)

lemma take_snoc: "take n (xs @ [x]) = (if length (take n xs) < n then take n xs @ [x] else take n xs)"
  by (auto simp: min_def)

lemma enter_wf:
  assumes "registry_wf v" and "fs_ident f = next_fs v" and "fs_parent f = Some dev"
  shows "registry_wf (snd (enter (Some f) (v\<lparr>next_fs := Suc (next_fs v)\<rparr>)))"
proof -
  let ?ve = "\<lparr>ve_device_name = device_name dev, ve_fs = f\<rparr>"
  let ?w = "snd (vfs_register (Some f) (reg_vfs v))"
  have w: "first_ve ?w = ?ve # first_ve (reg_vfs v)"
    "def_ve ?w = (case def_ve (reg_vfs v) of None \<Rightarrow> Some ?ve | Some d \<Rightarrow> Some d)"
    "device_names ?w = (if length (device_names (reg_vfs v)) < 255
       then device_names (reg_vfs v) @ [device_name dev] else device_names (reg_vfs v))"
    using assms(3) by (auto simp: vfs_register_def vfs_add_def Let_def MAX_DEV_NAMES_def split: option.splits)
  have "fs_ident f \<notin> (\<lambda>ve. fs_ident (ve_fs ve)) ` set (first_ve (reg_vfs v))"
    using assms(1,2) by (auto simp: registry_wf_def)
  then show ?thesis
    using assms w
    by (auto simp: registry_wf_def enter_def take_snoc less_Suc_eq split: option.splits)
qed

text \<open>What a call of an \<open>init\<close> function gives.\<close>

lemma fat_init_fields:
  assumes "fat_init i junk dev s = Some (r, Some fat, s')"
  shows "fat_ident fat = i \<and> fat_parent fat = dev"
proof -
  have "fat_ident g = i \<and> fat_parent g = dev" if "fat_geometry i dev junk b = Some g" for b g
    using that by (auto simp: fat_geometry_def Let_def bind_eq_Some_conv split: if_splits)
  then show ?thesis
    using assms by (auto simp: fat_init_def bind_eq_Some_conv split: if_splits)
qed

lemma ext2_init_fields:
  assumes "ext2_init i junk dev s = Some (r, Some e2, s')"
  shows "e2_ident e2 = i \<and> e2_parent e2 = dev"
proof -
  have "e2_ident (ext2_fields i dev b) = i \<and> e2_parent (ext2_fields i dev b) = dev" for b
    by (simp add: ext2_fields_def Let_def)
  then show ?thesis
    using assms by (auto simp: ext2_init_def Let_def bind_eq_Some_conv split: if_splits)
qed

definition known_ids :: "int set" where "known_ids = fat_ids \<union> {0x83, 0xda}"

lemma switch_id_result:
  assumes "switch_id cfg junk dev None pid v s = Some (r, f, v', s')"
  shows "f = None \<and> reg_vfs v' = reg_vfs v \<and> next_fs v \<le> next_fs v'
    \<or> (\<exists>g. f = Some g \<and> fs_ident g = next_fs v \<and> fs_parent g = Some dev \<and> v' = v\<lparr>next_fs := Suc (next_fs v)\<rparr>
         \<and> pid \<in> known_ids)"
proof -
  consider (fat) "pid \<in> known_ids" "call_fat junk dev None v s = Some (r, f, v', s')"
    | (ext2) "pid \<in> known_ids" "call_ext2 junk dev None v s = Some (r, f, v', s')"
    | (nofs) "pid \<in> known_ids" "call_nofs junk dev None v s = Some (r, f, v', s')"
    | (none) "f = None" "v' = v"
    using assms by (auto simp: switch_id_def known_ids_def split: if_splits)
  then show ?thesis
  proof cases
    case fat
    then show ?thesis
      by (auto simp: call_fat_def mounted_def fat_ops_def bind_eq_Some_conv dest!: fat_init_fields split: option.splits)
  next
    case ext2
    then show ?thesis
      by (auto simp: call_ext2_def mounted_def ext2_ops_def bind_eq_Some_conv dest!: ext2_init_fields split: option.splits)
  next
    case nofs
    then show ?thesis by (auto simp: call_nofs_def nofs_init_def nofs_ops_def)
  qed simp
qed

text \<open>\<open>added v v' names\<close>: the entries of \<open>v'\<close> in front of those of \<open>v\<close> have, in the order of their
  registration, names that are among \<open>names\<close> in this order.\<close>

definition added :: "'s registry \<Rightarrow> 's registry \<Rightarrow> string list \<Rightarrow> bool" where
  "added v v' names \<longleftrightarrow> (\<exists>new. first_ve (reg_vfs v') = new @ first_ve (reg_vfs v)
     \<and> subseq (rev (map ve_device_name new)) names)"

lemma added_refl: "reg_vfs v' = reg_vfs v \<Longrightarrow> added v v' names"
  by (simp add: added_def)

lemma added_trans: "added v v1 ns \<Longrightarrow> added v1 v2 ms \<Longrightarrow> added v v2 (ns @ ms)"
  unfolding added_def by (fastforce intro: list_emb_append_mono)

lemma register_part_wf:
  assumes "register_part cfg junk d pid (v, s) = Some (v', s')" and "registry_wf v"
  shows "registry_wf v' \<and> added v v'
    (if uint pid \<in> known_ids then [device_name (mbr_bd (mbr_parent d) (part_no d) d)] else [])"
proof -
  let ?dev = "mbr_bd (mbr_parent d) (part_no d) d"
  obtain r f v1 where sw: "switch_id cfg junk ?dev None (uint pid) v s = Some (r, f, v1, s')"
    and v': "v' = snd (enter f v1)"
    using assms(1) by (auto simp: register_part_def bind_eq_Some_conv split_beta)
  from switch_id_result [OF sw] show ?thesis
  proof (elim disjE conjE exE)
    assume "f = None" "reg_vfs v1 = reg_vfs v" "next_fs v \<le> next_fs v1"
    then show ?thesis using v' assms(2) by (fastforce simp: enter_def registry_wf_def added_refl split: option.splits)
  next
    fix g assume g: "f = Some g" "fs_ident g = next_fs v" "fs_parent g = Some ?dev"
      "v1 = v\<lparr>next_fs := Suc (next_fs v)\<rparr>" "uint pid \<in> known_ids"
    have "first_ve (reg_vfs v') = \<lparr>ve_device_name = device_name ?dev, ve_fs = g\<rparr> # first_ve (reg_vfs v)"
      using v' g by (simp add: enter_def vfs_register_def vfs_add_def Let_def split: option.splits)
    then show ?thesis using enter_wf [OF assms(2) g(2,3)] v' g by (simp add: added_def)
  qed
qed

text \<open>The names of the partitions whose type is known.\<close>

definition known_names :: "('s block_device \<times> 's mbr_block_dev) list \<Rightarrow> string list" where
  "known_names ps = map (\<lambda>p. device_name (fst p)) (filter (\<lambda>p. uint (part_id (snd p)) \<in> known_ids) ps)"

lemma mbr_entries_wf:
  assumes "mbr_entries (register_part cfg junk) parent adjust block_0 is parts (v, s) = Some (r, parts', v', s')"
    and "registry_wf v"
  shows "registry_wf v' \<and> (\<exists>ps. parts' = parts @ ps \<and> added v v' (known_names ps))"
  using assms
proof (induction "is" arbitrary: parts v s)
  case Nil
  then show ?case by (auto simp: added_refl)
next
  case (Cons i "is")
  show ?case
  proof (cases "block_0 ! (p_offset i + 4) = 0")
    case True
    then show ?thesis using Cons by simp
  next
    case False
    let ?d = "mbr_entry parent block_0 i"
    let ?d' = "?d\<lparr>start_block := start_block ?d div adjust, blocks := blocks ?d div adjust\<rparr>"
    show ?thesis
    proof (cases "start_block ?d mod adjust \<noteq> 0 \<or> blocks ?d mod adjust \<noteq> 0")
      case True
      then have "parts' = parts \<and> v' = v" using Cons.prems(1) False by (auto simp: Let_def split: if_splits)
      then show ?thesis using Cons.prems(2) by (auto simp: added_refl)
    next
      case aligned: False
      obtain v1 s1 where reg: "register_part cfg junk ?d' (part_id ?d') (v, s) = Some (v1, s1)"
        and rest: "mbr_entries (register_part cfg junk) parent adjust block_0 is (parts @ [(mbr_bd parent i ?d', ?d')]) (v1, s1)
          = Some (r, parts', v', s')"
        using Cons.prems(1) False aligned by (auto simp: Let_def bind_eq_Some_conv)
      have wf1: "registry_wf v1" "added v v1 (known_names [(mbr_bd parent i ?d', ?d')])"
        using register_part_wf [OF reg Cons.prems(2)] by (simp_all add: mbr_entry_def known_names_def split: if_splits)
      obtain ps where "registry_wf v'" "parts' = parts @ (mbr_bd parent i ?d', ?d') # ps"
        "added v1 v' (known_names ps)"
        using Cons.IH [OF rest wf1(1)] by auto
      moreover have "known_names ((mbr_bd parent i ?d', ?d') # ps) = known_names [(mbr_bd parent i ?d', ?d')] @ known_names ps"
        by (simp add: known_names_def)
      ultimately show ?thesis using added_trans [OF wf1(2)] by fastforce
    qed
  qed
qed

lemma mount_mbr_wf:
  assumes "mount_mbr cfg junk dev v s = Some (r, parts, v', s')" and "registry_wf v"
  shows "registry_wf v' \<and> added v v' (known_names parts)"
proof (cases "v' = v")
  case True
  then show ?thesis using assms(2) by (simp add: added_refl)
next
  case False
  then obtain parent block_0 s1 where
    "mbr_entries (register_part cfg junk) parent (block_size parent div 512) block_0 [0, 1, 2, 3] [] (v, s1)
      = Some (r, parts, v', s')"
    using assms(1) by (auto simp: mount_mbr_def read_mbr_def Let_def bind_eq_Some_conv
        simp del: mbr_entries.simps split: option.splits if_splits)
  from mbr_entries_wf [OF this assms(2)] show ?thesis by auto
qed

text \<open>The registry that \<open>libfs_init\<close> leaves behind.\<close>

lemma mount_device_wf: "mount_device cfg junk dev s = Some (v, s') \<Longrightarrow> registry_wf v"
  using mount_mbr_wf [OF _ empty_registry_wf, of cfg junk dev s]
  by (auto simp: mount_device_def bind_eq_Some_conv empty_registry_wf split: if_splits)

lemma libfs_init_wf:
  assumes "libfs_init cfg vc junk dma alloc oom h = Some b"
  shows "case b of Uncached v _ \<Rightarrow> registry_wf v | Cached v _ \<Rightarrow> registry_wf v"
  using assms empty_registry_wf
  by (auto simp: libfs_init_def Let_def bind_eq_Some_conv split: if_splits option.splits) (rule mount_device_wf, assumption)+

section \<open>A file through the whole stack\<close>

text \<open>The parts: a device \<open>parent\<close> with the driver \<open>rd\<close>, \<open>wr\<close> that stores \<open>n\<close> blocks of 512 bytes with the
  contents \<open>C\<close>, the cache over it, a partition of the cached device, and a FAT volume on the partition
  with a file of \<open>nb\<close> clusters from \<open>c0\<close> on.\<close>

lemma cached_partition_fat_ok:
  assumes "cache_init (Some parent) dev_null start mem oom ps = Some (0, Some (c_dev, cd, st))"
    and "length mem < 2 ^ 32" and "block_size parent = 512"
    and "dev_read parent = Some rd" and "dev_write parent = Some wr"
    and "block_store rd wr 512 n pinv pcontent" and "pinv ps"
    and "mbr_parent d = c_dev" and "unat (start_block d) + unat (blocks d) \<le> n"
    and "fat_parent fat = mbr_bd c_dev i d"
    and "fat_file_ok fat (unat (blocks d)) (\<lambda>b. pcontent ps (unat (start_block d) + b)) c0 nb"
  shows "fat_ok fat (unat (blocks d)) (part_inv d 512 n (cache_inv cd n pinv pcontent) (\<lambda>st. pcontent (parent_state st)))
    (part_content d (\<lambda>st. pcontent (parent_state st))) (\<lambda>b. pcontent ps (unat (start_block d) + b)) c0 nb st"
proof -
  have bs: "unat (block_size parent) = 512" using assms(3) by simp
  have ci: "cache_inv cd n pinv pcontent st"
    by (rule cache_init_inv [OF assms(1,2) _ assms(4,5)]) (use assms(6,7) bs in simp_all)
  note res = cache_init_result [OF assms(1)]
  have cbs: "unat (cd_block_size cd) = 512" using res(2) bs by simp
  have cdev: "dev_read c_dev = Some (cache_read cd)" "dev_write c_dev = Some (cache_write cd)"
    using res(4,5) assms(4,5) by simp_all
  have store: "block_store (cache_read cd) (cache_write cd) 512 n (cache_inv cd n pinv pcontent) (\<lambda>st. pcontent (parent_state st))"
    using cache.block_store_axioms [of cd n pinv pcontent] by (simp add: cbs)
  have inv: "part_inv d 512 n (cache_inv cd n pinv pcontent) (\<lambda>st. pcontent (parent_state st)) st"
    using store cdev assms(8,9) ci by (auto simp: part_inv_def)
  have ps: "parent_state st = ps" using res(3) by simp
  have "dev_read (fat_parent fat) = Some (mbr_read d)" using assms(10) by (simp add: mbr_bd_def)
  moreover have "block_store (mbr_read d) (mbr_write d) 512 (unat (blocks d))
      (part_inv d 512 n (cache_inv cd n pinv pcontent) (\<lambda>st. pcontent (parent_state st)))
      (part_content d (\<lambda>st. pcontent (parent_state st)))"
    by (rule part.block_store_axioms)
  moreover have "part_content d (\<lambda>st. pcontent (parent_state st)) st = (\<lambda>b. pcontent ps (unat (start_block d) + b))"
    by (rule ext) (simp add: part_content_def ps)
  ultimately show ?thesis using inv assms(11) unfolding fat_ok_def by blast
qed

section \<open>Properties\<close>

text \<open>C1: A file is read correctly through the whole stack. Over a device that stores blocks, with a cache set
  up by \<open>cache_init\<close>, a partition of the cached device and a FAT volume on the partition that holds the
  file, \<open>mb_fread\<close> delivers the bytes of the file's clusters, found at the start of the partition in
  the underlying device, from the position of the stream on and up to the length of the file.\<close>

theorem stack_reads_file:
  assumes "cache_init (Some parent) dev_null start mem oom ps = Some (0, Some (c_dev, cd, st))"
    and "length mem < 2 ^ 32" and "block_size parent = 512"
    and "dev_read parent = Some rd" and "dev_write parent = Some wr"
    and "block_store rd wr 512 n pinv pcontent" and "pinv ps"
    and "mbr_parent d = c_dev" and "unat (start_block d) + unat (blocks d) \<le> n"
    and "fat_parent fat = mbr_bd c_dev i d" and "C = (\<lambda>b. pcontent ps (unat (start_block d) + b))"
    and "fat_file_ok fat (unat (blocks d)) C c0 nb"
    and "file_fs f = fat_ident fat" and "opaque f = c0" and "c0 \<noteq> 0" and "0 \<le> pos f" and "pos f \<le> len f"
    and "nat (len f) \<le> nb * unat (fat_block_size fat)" and "m < 2 ^ 31"
    and "k = min m (nat (len f - pos f))" and "k \<le> length buf"
  shows "\<exists>f' w'. mb_fread (fat_ops junk fat) buf 1 (of_nat m) (Stream f) \<lparr>errno_of = e, dev_state = st\<rparr> = Some (of_nat k,
      splice buf 0 (slice (concat (map (\<lambda>j. load_blocks C (unat (get_sector fat (fat_chain fat C c0 j)))
        (unat (sectors_per_cluster fat))) [0..<nb])) (nat (pos f)) k), Stream f', w')
    \<and> pos f' = pos f + int k"
proof -
  have "fat_ok fat (unat (blocks d)) (part_inv d 512 n (cache_inv cd n pinv pcontent) (\<lambda>st. pcontent (parent_state st)))
      (part_content d (\<lambda>st. pcontent (parent_state st))) C c0 nb (dev_state \<lparr>errno_of = e, dev_state = st\<rparr>)"
    using cached_partition_fat_ok [OF assms(1-10)] assms(11,12) by simp
  from mb_fread_fat_chain [OF this assms(13-21)] show ?thesis .
qed

definition demo_stack_disk :: "bytes list" where
  "demo_stack_disk = replicate 512 0 # demo_fat_disk"

definition demo_stack_part :: "'s block_device \<Rightarrow> 's mbr_block_dev" where
  "demo_stack_part c_dev = \<lparr>mbr_parent = c_dev, part_no = 0, start_block = 1, blocks = 3, part_id = 6\<rparr>"

definition demo_stack_fat :: "'s block_device \<Rightarrow> 's fat_fs" where
  "demo_stack_fat c_dev = \<lparr>fat_ident = 1, fat_parent = mbr_bd c_dev 0 (demo_stack_part c_dev), fat_fs_name = ''FAT16'',
     fat_block_size = 512, fat_type = FAT16, total_sectors = 3, sectors_per_cluster = 1,
     bytes_per_sector = 512, vol_label = [], first_fat_sector = 1, first_data_sector = 2,
     sectors_per_fat = 1, root_dir_entries = 0, root_dir_sectors = 0, first_non_root_sector = 2,
     root_dir_cluster = 2\<rparr>"

lemma demo_stack_chain:
  "fat_chain (demo_stack_fat c_dev) (\<lambda>b. demo_stack_disk ! (1 + b)) 2 0 = 2"
  "fat_chain (demo_stack_fat c_dev) (\<lambda>b. demo_stack_disk ! (1 + b)) 2 1 = 0x0fffffff"
proof -
  have e: "read_halfword (demo_stack_disk ! Suc (Suc 0)) 4 = 0xffff" by code_simp
  show "fat_chain (demo_stack_fat c_dev) (\<lambda>b. demo_stack_disk ! (1 + b)) 2 0 = 2" by (simp add: fat_chain_def)
  show "fat_chain (demo_stack_fat c_dev) (\<lambda>b. demo_stack_disk ! (1 + b)) 2 1 = 0x0fffffff"
    using e by (simp add: fat_chain_def fat_entry_of_def Let_def fat_sector_of_def fat_offset_of_def demo_stack_fat_def)
qed

lemma demo_stack_file:
  "fat_file_ok (demo_stack_fat c_dev) 3 (\<lambda>b. demo_stack_disk ! (1 + b)) 2 1" if "block_size c_dev = 512"
  using demo_stack_chain [of c_dev] that
  by (simp add: fat_file_ok_def) (simp add: demo_stack_fat_def mbr_bd_def get_sector_def fat_sector_of_def
      fat_offset_of_def)

theorem stack_reads_file_witness:
  "\<exists>c_dev cd st f' w'. cache_init (Some (ram_dev 512)) False 0 (replicate 1024 0) (\<lambda>_. False) demo_stack_disk
      = Some (0, Some (c_dev, cd, st))
    \<and> mb_fread (fat_ops (\<lambda>_. 0) (demo_stack_fat c_dev)) [0, 0, 0, 9] 1 (of_nat 100)
        (Stream \<lparr>file_fs = 1, pos = 1, mode = 0, opaque = 2, len = 4, flags = 0\<rparr>) \<lparr>errno_of = None, dev_state = st\<rparr>
      = Some (3, [66, 67, 68, 9], Stream f', w') \<and> pos f' = 4"
proof -
  let ?f = "\<lparr>file_fs = 1, pos = 1, mode = 0, opaque = 2, len = 4, flags = 0\<rparr> :: u32 mb_file"
  let ?C = "\<lambda>b. demo_stack_disk ! (unat (1 :: u32) + b)"
  obtain c_dev cd st where init: "cache_init (Some (ram_dev 512)) False 0 (replicate 1024 0) (\<lambda>_. False) demo_stack_disk
      = Some (0, Some (c_dev, cd, st))"
    by (auto simp: cache_init_def ram_dev_def Let_def)
  have cb: "block_size c_dev = 512" using cache_init_result(6) [OF init] by (simp add: ram_dev_def)
  have ok: "fat_file_ok (demo_stack_fat c_dev) (unat (blocks (demo_stack_part c_dev))) ?C 2 1"
    using demo_stack_file [OF cb] by (simp add: demo_stack_part_def)
  have ram: "ram_ok 512 4 demo_stack_disk" by (simp add: ram_ok_def demo_stack_disk_def demo_fat_disk_def)
  have sec: "get_sector (demo_stack_fat c_dev) (fat_chain (demo_stack_fat c_dev) ?C 2 0) = 2"
    using demo_stack_chain [of c_dev] by (simp add: get_sector_def demo_stack_fat_def)
  have data: "splice [0, 0, 0, 9] 0 (slice (concat (map (\<lambda>j. load_blocks ?C
      (unat (get_sector (demo_stack_fat c_dev) (fat_chain (demo_stack_fat c_dev) ?C 2 j)))
      (unat (sectors_per_cluster (demo_stack_fat c_dev)))) [0..<1])) (nat (pos ?f)) 3) = [66, 67, 68, 9]"
  proof -
    have "splice [0, 0, 0, 9] 0 (slice (demo_stack_disk ! 3) 1 3) = [66, 67, 68, 9 :: u8]" by code_simp
    then show ?thesis using sec by (simp add: load_blocks_def demo_stack_fat_def)
  qed
  have "\<exists>f' w'. mb_fread (fat_ops (\<lambda>_. 0) (demo_stack_fat c_dev)) [0, 0, 0, 9] 1 (of_nat 100) (Stream ?f)
      \<lparr>errno_of = None, dev_state = st\<rparr> = Some (of_nat 3, splice [0, 0, 0, 9] 0 (slice (concat (map (\<lambda>j. load_blocks ?C
      (unat (get_sector (demo_stack_fat c_dev) (fat_chain (demo_stack_fat c_dev) ?C 2 j)))
      (unat (sectors_per_cluster (demo_stack_fat c_dev)))) [0..<1])) (nat (pos ?f)) 3), Stream f', w')
    \<and> pos f' = pos ?f + int 3"
    by (rule stack_reads_file [OF init, where rd = "ram_read 512" and wr = "ram_write 512" and n = 4 and pinv = "ram_ok 512 4"
          and pcontent = "(!)" and d = "demo_stack_part c_dev" and i = 0])
      (use ok ram ram.block_store_axioms [of 512 4] in
        \<open>simp_all add: ram_dev_def demo_stack_part_def demo_stack_fat_def\<close>)
  then show ?thesis using init unfolding data by auto
qed

text \<open>When mounting the partitions of a device returns (it does not when \<open>fat_init\<close> overruns its label),
  the registry is well-formed: every entry has the name of its file system's device, all file systems
  are different objects, the default is one of the entries, and the list of names is in the order of
  registration. The entries added are for partitions that were found, in this order, and only for those
  of a type that the code knows.\<close>

theorem mount_mbr_registry:
  assumes "mount_mbr cfg junk dev v s = Some (r, parts, v', s')" and "registry_wf v"
  shows "registry_wf v' \<and> (\<exists>new. first_ve (reg_vfs v') = new @ first_ve (reg_vfs v)
    \<and> subseq (rev (map ve_device_name new)) (known_names parts))"
  using mount_mbr_wf [OF assms] by (simp add: added_def)

definition demo_mbr_sector :: bytes where
  "demo_mbr_sector = replicate 450 0 @ [6, 0, 0, 0, 1, 0, 0, 0, 3, 0, 0, 0] @ replicate 48 0 @ [0x55, 0xaa]"

definition demo_boot_sector :: bytes where
  "demo_boot_sector = [0xeb] @ replicate 10 0 @ [0, 2, 1, 1, 0, 1, 0, 0, 0x88, 0x13, 0, 5, 0] @ replicate 488 0"

definition demo_mount_disk :: "bytes list" where
  "demo_mount_disk = [demo_mbr_sector, demo_boot_sector, replicate 512 0, replicate 512 0]"

lemma demo_mount_ok: "ram_ok 512 4 demo_mount_disk"
  by (simp add: ram_ok_def demo_mount_disk_def demo_mbr_sector_def demo_boot_sector_def)

lemma ram_dev_block_read:
  assumes "ram_ok 512 n s" and "unat b < n" and "length buf = 512"
  shows "block_read (ram_dev 512) buf b s = Some (512, s ! unat b, s)"
proof -
  have "take 512 (concat (drop (unat b) s)) = s ! unat b"
    using concat_drop_blocks [of s 512 "unat b" 1] assms by (simp add: ram_ok_def load_blocks_def)
  then show ?thesis
    using assms by (simp add: block_read_def ram_dev_def)
      (subst block_read_loop.simps, simp add: ram_read_def ram_ok_def)
qed

lemma demo_part_block_read:
  assumes "length buf = 512"
  shows "block_read (mbr_bd (ram_dev 512) 0 (demo_stack_part (ram_dev 512))) buf 0 demo_mount_disk
    = Some (512, demo_boot_sector, demo_mount_disk)"
proof -
  have "take 512 (concat (drop 1 demo_mount_disk)) = demo_boot_sector"
    by (simp add: demo_mount_disk_def demo_boot_sector_def)
  then show ?thesis
    using assms by (simp add: block_read_def mbr_bd_def ram_dev_def demo_stack_part_def)
      (subst block_read_loop.simps, simp add: mbr_read_def ram_dev_def ram_read_def demo_mount_disk_def)
qed

lemma demo_boot_geometry: "\<exists>g. fat_geometry ident dev junk demo_boot_sector = Some g"
proof -
  have f: "bs_bytes_per_sector demo_boot_sector = 512" "bs_sectors_per_cluster demo_boot_sector = 1"
    "takeWhile (\<lambda>c. c \<noteq> 0) (drop 71 demo_boot_sector) = []" "takeWhile (\<lambda>c. c \<noteq> 0) (drop 43 demo_boot_sector) = []"
    by code_simp+
  have "length demo_boot_sector = 512" by (simp add: demo_boot_sector_def)
  then show ?thesis
    by (simp add: fat_geometry_def Let_def f copy_label_def fat32_label_offset_def fat16_label_offset_def)
qed

theorem mount_mbr_registry_witness:
  "\<exists>parts v' new. mount_mbr makefile_config (\<lambda>_. 0) (Some (ram_dev 512)) empty_registry demo_mount_disk
      = Some (0, parts, v', demo_mount_disk) \<and> registry_wf v' \<and> device_names (reg_vfs v') = [''ram0_0'']"
proof -
  let ?d = "demo_stack_part (ram_dev 512)"
  obtain g where g: "fat_geometry 0 (mbr_bd (ram_dev 512) 0 ?d) (\<lambda>_. 0) demo_boot_sector = Some g"
    using demo_boot_geometry by blast
  have b: "demo_boot_sector ! 0 = 0xeb" by code_simp
  have "fat_init 0 (\<lambda>_. 0) (mbr_bd (ram_dev 512) 0 ?d) demo_mount_disk = Some (0, Some g, demo_mount_disk)"
    using g b by (simp add: fat_init_def demo_part_block_read)
  then have reg: "register_part makefile_config (\<lambda>_. 0) ?d 6 (empty_registry, demo_mount_disk)
      = Some (snd (enter (Some (fat_ops (\<lambda>_. 0) g)) (empty_registry\<lparr>next_fs := 1\<rparr>)), demo_mount_disk)"
    by (simp add: register_part_def switch_id_def fat_ids_def makefile_config_def call_fat_def mounted_def
        empty_registry_def demo_stack_part_def)
  have par: "fs_parent (fat_ops (\<lambda>_. 0) g) = Some (mbr_bd (ram_dev 512) 0 ?d)"
    using fat_init_fields [OF \<open>fat_init 0 _ _ _ = _\<close>] by (simp add: fat_ops_def)
  have "char_of (48 :: nat) = CHR ''0''" by code_simp
  then have nm: "device_name (mbr_bd (ram_dev 512) 0 ?d) = ''ram0_0''" by (simp add: mbr_bd_def ram_dev_def)
  have ty: "demo_mbr_sector ! p_offset 0 = 0" "demo_mbr_sector ! (p_offset 0 + 4) = 6"
    "demo_mbr_sector ! (p_offset (Suc 0) + 4) = 0" "demo_mbr_sector ! (p_offset 2 + 4) = 0"
    "demo_mbr_sector ! (p_offset 3 + 4) = 0" "demo_mbr_sector ! 510 = 85" "demo_mbr_sector ! 511 = 170"
    "read_word demo_mbr_sector (p_offset 0 + 8) = 1" "read_word demo_mbr_sector (p_offset 0 + 12) = 3"
    by code_simp+
  have rd: "block_read (ram_dev 512) (malloc_bytes (\<lambda>_. 0) 512) 0 demo_mount_disk
      = Some (512, demo_mbr_sector, demo_mount_disk)"
    using ram_dev_block_read [OF demo_mount_ok, of 0 "malloc_bytes (\<lambda>_. 0) 512"] by (simp add: demo_mount_disk_def)
  have "mbr_entry (ram_dev 512) demo_mbr_sector 0 = ?d"
    using ty by (simp add: mbr_entry_def demo_stack_part_def)
  moreover have "block_size (ram_dev 512) = 512" by (simp add: ram_dev_def)
  ultimately obtain parts where run: "mount_mbr makefile_config (\<lambda>_. 0) (Some (ram_dev 512)) empty_registry demo_mount_disk
      = Some (0, parts, snd (enter (Some (fat_ops (\<lambda>_. 0) g)) (empty_registry\<lparr>next_fs := 1\<rparr>)), demo_mount_disk)"
    using ty reg rd by (simp add: mount_mbr_def read_mbr_def Let_def demo_stack_part_def)
  have "device_names (reg_vfs (snd (enter (Some (fat_ops (\<lambda>_. 0) g)) (empty_registry\<lparr>next_fs := 1\<rparr>)))) = [''ram0_0'']"
    using par nm by (simp add: enter_def vfs_register_def vfs_add_def Let_def empty_registry_def MAX_DEV_NAMES_def)
  then show ?thesis using run mount_mbr_registry [OF run empty_registry_wf] by blast
qed

end
