(* ===== verification/Console.thy ===== *)
theory Console
  imports Mailbox Uart
begin

text \<open>
  The text console on the frame buffer (\<open>rboot/console.c\<close> with \<open>rboot/font.c\<close>) and the output switch
  (\<open>rboot/output.c\<close>), in the configuration of the Makefile: frame buffer, serial line and the default
  font, no log file.

  \<open>fbmem\<close> is the frame buffer memory; an access outside it has no result. The getters of \<open>fb.c\<close> return
  \<open>int\<close>; their values are read as naturals, which is the same below \<open>2 ^ 31\<close>. The counters of the
  pixel loops (\<open>d_offset\<close>, \<open>line_d_offset\<close>, \<open>s_offset\<close>) are written in closed form.
\<close>

section \<open>font.c\<close>

definition vgafont8_rows :: "u8 list list" where
  "vgafont8_rows = [
    [0x00, 0x00, 0x00, 0x00, 0x00, 0x00, 0x00, 0x00],
    [0x7e, 0x81, 0xa5, 0x81, 0xbd, 0x99, 0x81, 0x7e],
    [0x7e, 0xff, 0xdb, 0xff, 0xc3, 0xe7, 0xff, 0x7e],
    [0x6c, 0xfe, 0xfe, 0xfe, 0x7c, 0x38, 0x10, 0x00],
    [0x10, 0x38, 0x7c, 0xfe, 0x7c, 0x38, 0x10, 0x00],
    [0x38, 0x7c, 0x38, 0xfe, 0xfe, 0x7c, 0x38, 0x7c],
    [0x10, 0x10, 0x38, 0x7c, 0xfe, 0x7c, 0x38, 0x7c],
    [0x00, 0x00, 0x18, 0x3c, 0x3c, 0x18, 0x00, 0x00],
    [0xff, 0xff, 0xe7, 0xc3, 0xc3, 0xe7, 0xff, 0xff],
    [0x00, 0x3c, 0x66, 0x42, 0x42, 0x66, 0x3c, 0x00],
    [0xff, 0xc3, 0x99, 0xbd, 0xbd, 0x99, 0xc3, 0xff],
    [0x0f, 0x07, 0x0f, 0x7d, 0xcc, 0xcc, 0xcc, 0x78],
    [0x3c, 0x66, 0x66, 0x66, 0x3c, 0x18, 0x7e, 0x18],
    [0x3f, 0x33, 0x3f, 0x30, 0x30, 0x70, 0xf0, 0xe0],
    [0x7f, 0x63, 0x7f, 0x63, 0x63, 0x67, 0xe6, 0xc0],
    [0x99, 0x5a, 0x3c, 0xe7, 0xe7, 0x3c, 0x5a, 0x99],
    [0x80, 0xe0, 0xf8, 0xfe, 0xf8, 0xe0, 0x80, 0x00],
    [0x02, 0x0e, 0x3e, 0xfe, 0x3e, 0x0e, 0x02, 0x00],
    [0x18, 0x3c, 0x7e, 0x18, 0x18, 0x7e, 0x3c, 0x18],
    [0x66, 0x66, 0x66, 0x66, 0x66, 0x00, 0x66, 0x00],
    [0x7f, 0xdb, 0xdb, 0x7b, 0x1b, 0x1b, 0x1b, 0x00],
    [0x3e, 0x63, 0x38, 0x6c, 0x6c, 0x38, 0xcc, 0x78],
    [0x00, 0x00, 0x00, 0x00, 0x7e, 0x7e, 0x7e, 0x00],
    [0x18, 0x3c, 0x7e, 0x18, 0x7e, 0x3c, 0x18, 0xff],
    [0x18, 0x3c, 0x7e, 0x18, 0x18, 0x18, 0x18, 0x00],
    [0x18, 0x18, 0x18, 0x18, 0x7e, 0x3c, 0x18, 0x00],
    [0x00, 0x18, 0x0c, 0xfe, 0x0c, 0x18, 0x00, 0x00],
    [0x00, 0x30, 0x60, 0xfe, 0x60, 0x30, 0x00, 0x00],
    [0x00, 0x00, 0xc0, 0xc0, 0xc0, 0xfe, 0x00, 0x00],
    [0x00, 0x24, 0x66, 0xff, 0x66, 0x24, 0x00, 0x00],
    [0x00, 0x18, 0x3c, 0x7e, 0xff, 0xff, 0x00, 0x00],
    [0x00, 0xff, 0xff, 0x7e, 0x3c, 0x18, 0x00, 0x00],
    [0x00, 0x00, 0x00, 0x00, 0x00, 0x00, 0x00, 0x00],
    [0x30, 0x78, 0x78, 0x30, 0x30, 0x00, 0x30, 0x00],
    [0x6c, 0x6c, 0x6c, 0x00, 0x00, 0x00, 0x00, 0x00],
    [0x6c, 0x6c, 0xfe, 0x6c, 0xfe, 0x6c, 0x6c, 0x00],
    [0x30, 0x7c, 0xc0, 0x78, 0x0c, 0xf8, 0x30, 0x00],
    [0x00, 0xc6, 0xcc, 0x18, 0x30, 0x66, 0xc6, 0x00],
    [0x38, 0x6c, 0x38, 0x76, 0xdc, 0xcc, 0x76, 0x00],
    [0x60, 0x60, 0xc0, 0x00, 0x00, 0x00, 0x00, 0x00],
    [0x18, 0x30, 0x60, 0x60, 0x60, 0x30, 0x18, 0x00],
    [0x60, 0x30, 0x18, 0x18, 0x18, 0x30, 0x60, 0x00],
    [0x00, 0x66, 0x3c, 0xff, 0x3c, 0x66, 0x00, 0x00],
    [0x00, 0x30, 0x30, 0xfc, 0x30, 0x30, 0x00, 0x00],
    [0x00, 0x00, 0x00, 0x00, 0x00, 0x30, 0x30, 0x60],
    [0x00, 0x00, 0x00, 0xfc, 0x00, 0x00, 0x00, 0x00],
    [0x00, 0x00, 0x00, 0x00, 0x00, 0x30, 0x30, 0x00],
    [0x06, 0x0c, 0x18, 0x30, 0x60, 0xc0, 0x80, 0x00],
    [0x7c, 0xc6, 0xce, 0xde, 0xf6, 0xe6, 0x7c, 0x00],
    [0x30, 0x70, 0x30, 0x30, 0x30, 0x30, 0xfc, 0x00],
    [0x78, 0xcc, 0x0c, 0x38, 0x60, 0xcc, 0xfc, 0x00],
    [0x78, 0xcc, 0x0c, 0x38, 0x0c, 0xcc, 0x78, 0x00],
    [0x1c, 0x3c, 0x6c, 0xcc, 0xfe, 0x0c, 0x1e, 0x00],
    [0xfc, 0xc0, 0xf8, 0x0c, 0x0c, 0xcc, 0x78, 0x00],
    [0x38, 0x60, 0xc0, 0xf8, 0xcc, 0xcc, 0x78, 0x00],
    [0xfc, 0xcc, 0x0c, 0x18, 0x30, 0x30, 0x30, 0x00],
    [0x78, 0xcc, 0xcc, 0x78, 0xcc, 0xcc, 0x78, 0x00],
    [0x78, 0xcc, 0xcc, 0x7c, 0x0c, 0x18, 0x70, 0x00],
    [0x00, 0x30, 0x30, 0x00, 0x00, 0x30, 0x30, 0x00],
    [0x00, 0x30, 0x30, 0x00, 0x00, 0x30, 0x30, 0x60],
    [0x18, 0x30, 0x60, 0xc0, 0x60, 0x30, 0x18, 0x00],
    [0x00, 0x00, 0xfc, 0x00, 0x00, 0xfc, 0x00, 0x00],
    [0x60, 0x30, 0x18, 0x0c, 0x18, 0x30, 0x60, 0x00],
    [0x78, 0xcc, 0x0c, 0x18, 0x30, 0x00, 0x30, 0x00],
    [0x7c, 0xc6, 0xde, 0xde, 0xde, 0xc0, 0x78, 0x00],
    [0x30, 0x78, 0xcc, 0xcc, 0xfc, 0xcc, 0xcc, 0x00],
    [0xfc, 0x66, 0x66, 0x7c, 0x66, 0x66, 0xfc, 0x00],
    [0x3c, 0x66, 0xc0, 0xc0, 0xc0, 0x66, 0x3c, 0x00],
    [0xf8, 0x6c, 0x66, 0x66, 0x66, 0x6c, 0xf8, 0x00],
    [0xfe, 0x62, 0x68, 0x78, 0x68, 0x62, 0xfe, 0x00],
    [0xfe, 0x62, 0x68, 0x78, 0x68, 0x60, 0xf0, 0x00],
    [0x3c, 0x66, 0xc0, 0xc0, 0xce, 0x66, 0x3e, 0x00],
    [0xcc, 0xcc, 0xcc, 0xfc, 0xcc, 0xcc, 0xcc, 0x00],
    [0x78, 0x30, 0x30, 0x30, 0x30, 0x30, 0x78, 0x00],
    [0x1e, 0x0c, 0x0c, 0x0c, 0xcc, 0xcc, 0x78, 0x00],
    [0xe6, 0x66, 0x6c, 0x78, 0x6c, 0x66, 0xe6, 0x00],
    [0xf0, 0x60, 0x60, 0x60, 0x62, 0x66, 0xfe, 0x00],
    [0xc6, 0xee, 0xfe, 0xfe, 0xd6, 0xc6, 0xc6, 0x00],
    [0xc6, 0xe6, 0xf6, 0xde, 0xce, 0xc6, 0xc6, 0x00],
    [0x38, 0x6c, 0xc6, 0xc6, 0xc6, 0x6c, 0x38, 0x00],
    [0xfc, 0x66, 0x66, 0x7c, 0x60, 0x60, 0xf0, 0x00],
    [0x78, 0xcc, 0xcc, 0xcc, 0xdc, 0x78, 0x1c, 0x00],
    [0xfc, 0x66, 0x66, 0x7c, 0x6c, 0x66, 0xe6, 0x00],
    [0x78, 0xcc, 0xe0, 0x70, 0x1c, 0xcc, 0x78, 0x00],
    [0xfc, 0xb4, 0x30, 0x30, 0x30, 0x30, 0x78, 0x00],
    [0xcc, 0xcc, 0xcc, 0xcc, 0xcc, 0xcc, 0xfc, 0x00],
    [0xcc, 0xcc, 0xcc, 0xcc, 0xcc, 0x78, 0x30, 0x00],
    [0xc6, 0xc6, 0xc6, 0xd6, 0xfe, 0xee, 0xc6, 0x00],
    [0xc6, 0xc6, 0x6c, 0x38, 0x38, 0x6c, 0xc6, 0x00],
    [0xcc, 0xcc, 0xcc, 0x78, 0x30, 0x30, 0x78, 0x00],
    [0xfe, 0xc6, 0x8c, 0x18, 0x32, 0x66, 0xfe, 0x00],
    [0x78, 0x60, 0x60, 0x60, 0x60, 0x60, 0x78, 0x00],
    [0xc0, 0x60, 0x30, 0x18, 0x0c, 0x06, 0x02, 0x00],
    [0x78, 0x18, 0x18, 0x18, 0x18, 0x18, 0x78, 0x00],
    [0x10, 0x38, 0x6c, 0xc6, 0x00, 0x00, 0x00, 0x00],
    [0x00, 0x00, 0x00, 0x00, 0x00, 0x00, 0x00, 0xff],
    [0x30, 0x30, 0x18, 0x00, 0x00, 0x00, 0x00, 0x00],
    [0x00, 0x00, 0x78, 0x0c, 0x7c, 0xcc, 0x76, 0x00],
    [0xe0, 0x60, 0x60, 0x7c, 0x66, 0x66, 0xdc, 0x00],
    [0x00, 0x00, 0x78, 0xcc, 0xc0, 0xcc, 0x78, 0x00],
    [0x1c, 0x0c, 0x0c, 0x7c, 0xcc, 0xcc, 0x76, 0x00],
    [0x00, 0x00, 0x78, 0xcc, 0xfc, 0xc0, 0x78, 0x00],
    [0x38, 0x6c, 0x60, 0xf0, 0x60, 0x60, 0xf0, 0x00],
    [0x00, 0x00, 0x76, 0xcc, 0xcc, 0x7c, 0x0c, 0xf8],
    [0xe0, 0x60, 0x6c, 0x76, 0x66, 0x66, 0xe6, 0x00],
    [0x30, 0x00, 0x70, 0x30, 0x30, 0x30, 0x78, 0x00],
    [0x0c, 0x00, 0x0c, 0x0c, 0x0c, 0xcc, 0xcc, 0x78],
    [0xe0, 0x60, 0x66, 0x6c, 0x78, 0x6c, 0xe6, 0x00],
    [0x70, 0x30, 0x30, 0x30, 0x30, 0x30, 0x78, 0x00],
    [0x00, 0x00, 0xcc, 0xfe, 0xfe, 0xd6, 0xc6, 0x00],
    [0x00, 0x00, 0xf8, 0xcc, 0xcc, 0xcc, 0xcc, 0x00],
    [0x00, 0x00, 0x78, 0xcc, 0xcc, 0xcc, 0x78, 0x00],
    [0x00, 0x00, 0xdc, 0x66, 0x66, 0x7c, 0x60, 0xf0],
    [0x00, 0x00, 0x76, 0xcc, 0xcc, 0x7c, 0x0c, 0x1e],
    [0x00, 0x00, 0xdc, 0x76, 0x66, 0x60, 0xf0, 0x00],
    [0x00, 0x00, 0x7c, 0xc0, 0x78, 0x0c, 0xf8, 0x00],
    [0x10, 0x30, 0x7c, 0x30, 0x30, 0x34, 0x18, 0x00],
    [0x00, 0x00, 0xcc, 0xcc, 0xcc, 0xcc, 0x76, 0x00],
    [0x00, 0x00, 0xcc, 0xcc, 0xcc, 0x78, 0x30, 0x00],
    [0x00, 0x00, 0xc6, 0xd6, 0xfe, 0xfe, 0x6c, 0x00],
    [0x00, 0x00, 0xc6, 0x6c, 0x38, 0x6c, 0xc6, 0x00],
    [0x00, 0x00, 0xcc, 0xcc, 0xcc, 0x7c, 0x0c, 0xf8],
    [0x00, 0x00, 0xfc, 0x98, 0x30, 0x64, 0xfc, 0x00],
    [0x1c, 0x30, 0x30, 0xe0, 0x30, 0x30, 0x1c, 0x00],
    [0x18, 0x18, 0x18, 0x00, 0x18, 0x18, 0x18, 0x00],
    [0xe0, 0x30, 0x30, 0x1c, 0x30, 0x30, 0xe0, 0x00],
    [0x76, 0xdc, 0x00, 0x00, 0x00, 0x00, 0x00, 0x00],
    [0x00, 0x10, 0x38, 0x6c, 0xc6, 0xc6, 0xfe, 0x00]]"

definition vgafont8 :: bytes where
  "vgafont8 = concat vgafont8_rows"

section \<open>console.c\<close>

definition CHAR_W :: nat where "CHAR_W = 8"
definition CHAR_H :: nat where "CHAR_H = 8"
definition DEF_FORE :: u32 where "DEF_FORE = 0xffffffff"
definition DEF_BACK :: u32 where "DEF_BACK = 0x00000000"

record console =
  cfb :: frame_buffer
  fbmem :: bytes
  cur_x :: nat
  cur_y :: nat
  cur_fore :: u32
  cur_back :: u32

definition height_of :: "console \<Rightarrow> nat" where "height_of c = unat (fb_get_height (cfb c))"
definition pitch_of :: "console \<Rightarrow> nat" where "pitch_of c = unat (fb_get_pitch (cfb c))"
definition bytes_per_pixel :: nat where "bytes_per_pixel = unat fb_get_bpp div 8"
definition line_byte_width :: "console \<Rightarrow> nat" where
  "line_byte_width c = unat (fb_get_width (cfb c)) * bytes_per_pixel"

lemma geometry_updates [simp]:
  "pitch_of (c\<lparr>fbmem := m\<rparr>) = pitch_of c" "pitch_of (c\<lparr>cur_x := x\<rparr>) = pitch_of c" "pitch_of (c\<lparr>cur_y := y\<rparr>) = pitch_of c"
  "height_of (c\<lparr>fbmem := m\<rparr>) = height_of c" "height_of (c\<lparr>cur_x := x\<rparr>) = height_of c"
  "height_of (c\<lparr>cur_y := y\<rparr>) = height_of c" "line_byte_width (c\<lparr>fbmem := m\<rparr>) = line_byte_width c"
  "line_byte_width (c\<lparr>cur_x := x\<rparr>) = line_byte_width c" "line_byte_width (c\<lparr>cur_y := y\<rparr>) = line_byte_width c"
  by (simp_all add: pitch_of_def height_of_def line_byte_width_def)

text \<open>A \<open>for\<close> loop over the values of its counter.\<close>

primrec each :: "('a \<Rightarrow> 's \<Rightarrow> 's option) \<Rightarrow> 'a list \<Rightarrow> 's \<Rightarrow> 's option" where
  "each f [] s = Some s"
| "each f (x # xs) s = do { s' \<leftarrow> f x s; each f xs s' }"

definition mem_set :: "nat \<Rightarrow> u8 \<Rightarrow> nat \<Rightarrow> bytes \<Rightarrow> bytes option" where
  "mem_set a v n fb = (if a + n > length fb then None else Some (splice fb a (replicate n v)))"

definition mem_move :: "nat \<Rightarrow> nat \<Rightarrow> nat \<Rightarrow> bytes \<Rightarrow> bytes option" where
  "mem_move a b n fb =
     (if a + n > length fb \<or> b + n > length fb then None else Some (splice fb a (slice fb b n)))"

definition clear :: "console \<Rightarrow> console option" where
  "clear c = do {
     fb \<leftarrow> each (\<lambda>line. mem_set (line * pitch_of c) 0 (line_byte_width c)) [0..<height_of c] (fbmem c);
     Some (c\<lparr>fbmem := fb, cur_x := 0, cur_y := 0\<rparr>)
   }"

definition newline :: "console \<Rightarrow> console option" where
  "newline c =
     (let c1 = c\<lparr>cur_y := cur_y c + 1, cur_x := 0\<rparr> in
      if cur_y c1 = height_of c div CHAR_H then do {
        fb1 \<leftarrow> each (\<lambda>line. mem_move (line * pitch_of c) ((line + CHAR_H) * pitch_of c) (line_byte_width c))
                 [0..<height_of c - CHAR_H] (fbmem c);
        fb2 \<leftarrow> each (\<lambda>line. mem_set (line * pitch_of c) 0 (line_byte_width c))
                 [height_of c - CHAR_H..<height_of c] fb1;
        Some (c1\<lparr>fbmem := fb2, cur_y := cur_y c1 - 1\<rparr>)
      }
      else Some c1)"

text \<open>The loop over the bytes of a pixel, \<open>n\<close> of them left.\<close>

primrec put_colour :: "nat \<Rightarrow> nat \<Rightarrow> u32 \<Rightarrow> bytes \<Rightarrow> bytes option" where
  "put_colour 0 d_offset colour fb = Some fb"
| "put_colour (Suc n) d_offset colour fb =
     (if d_offset < length fb
      then put_colour n (d_offset + 1) (drop_bit 8 colour) (fb[d_offset := ucast (colour AND 0xff)])
      else None)"

definition draw_pixel :: "u32 \<Rightarrow> u32 \<Rightarrow> nat \<Rightarrow> nat \<Rightarrow> bytes \<Rightarrow> bytes option" where
  "draw_pixel fore bg s_offset d_offset fb =
     (let s_byte_no = s_offset div 8; s_bit_no = s_offset mod 8 in
      if s_byte_no \<ge> length vgafont8 then None
      else put_colour bytes_per_pixel d_offset
             (if drop_bit (7 - s_bit_no) (vgafont8 ! s_byte_no) AND 0x1 \<noteq> 0 then fore else bg) fb)"

definition draw_char :: "int \<Rightarrow> nat \<Rightarrow> nat \<Rightarrow> u32 \<Rightarrow> u32 \<Rightarrow> console \<Rightarrow> bytes option" where
  "draw_char ch x y fore bg c =
     (let d_offset = y * CHAR_H * pitch_of c + x * bytes_per_pixel * CHAR_W;
          s_offset = unat (word_of_int ch :: u8) * CHAR_W * CHAR_H
      in each (\<lambda>c_y. each (\<lambda>c_x. draw_pixel fore bg (s_offset + c_y * CHAR_W + c_x)
                     (d_offset + c_y * pitch_of c + c_x * bytes_per_pixel)) [0..<CHAR_W])
           [0..<CHAR_H] (fbmem c))"

definition console_putc :: "int \<Rightarrow> console \<Rightarrow> (int \<times> console) option" where
  "console_putc ch c =
     (let line_w = unat (fb_get_width (cfb c)) div CHAR_W in
      if ch = 10 then do { c' \<leftarrow> newline c; Some (ch, c') }
      else do {
        fb \<leftarrow> draw_char ch (cur_x c) (cur_y c) (cur_fore c) (cur_back c) c;
        let c1 = c\<lparr>fbmem := fb, cur_x := cur_x c + 1\<rparr>;
        c' \<leftarrow> (if cur_x c1 = line_w then newline c1 else Some c1);
        Some (ch, c')
      })"

section \<open>output.c\<close>

definition RPIBOOT_OUTPUT_FB :: u32 where "RPIBOOT_OUTPUT_FB = push_bit 0 1"
definition RPIBOOT_OUTPUT_UART :: u32 where "RPIBOOT_OUTPUT_UART = push_bit 1 1"
definition RPIBOOT_OUTPUT_LOG :: u32 where "RPIBOOT_OUTPUT_LOG = push_bit 2 1"
definition RPIBOOT_OUTPUT_CUSTOM :: u32 where "RPIBOOT_OUTPUT_CUSTOM = push_bit 3 1"

text \<open>\<open>'c\<close> is the state of the registered output function.\<close>

record 'c output_state =
  ostate :: u32
  custom_putc :: "(int \<Rightarrow> 'c \<Rightarrow> 'c) option"
  out_console :: console
  out_hw :: hw
  out_custom :: 'c

definition output_get_state :: "'c output_state \<Rightarrow> u32" where "output_get_state s = ostate s"
definition output_restore_state :: "u32 \<Rightarrow> 'c output_state \<Rightarrow> 'c output_state" where
  "output_restore_state st s = s\<lparr>ostate := st\<rparr>"
definition output_disable_fb :: "'c output_state \<Rightarrow> 'c output_state" where
  "output_disable_fb s = s\<lparr>ostate := ostate s AND NOT RPIBOOT_OUTPUT_FB\<rparr>"
definition output_enable_fb :: "'c output_state \<Rightarrow> 'c output_state" where
  "output_enable_fb s = s\<lparr>ostate := ostate s OR RPIBOOT_OUTPUT_FB\<rparr>"
definition output_disable_uart :: "'c output_state \<Rightarrow> 'c output_state" where
  "output_disable_uart s = s\<lparr>ostate := ostate s AND NOT RPIBOOT_OUTPUT_UART\<rparr>"
definition output_enable_uart :: "'c output_state \<Rightarrow> 'c output_state" where
  "output_enable_uart s = s\<lparr>ostate := ostate s OR RPIBOOT_OUTPUT_UART\<rparr>"
definition output_disable_custom :: "'c output_state \<Rightarrow> 'c output_state" where
  "output_disable_custom s = s\<lparr>ostate := ostate s AND NOT RPIBOOT_OUTPUT_CUSTOM\<rparr>"
definition output_enable_custom :: "'c output_state \<Rightarrow> 'c output_state" where
  "output_enable_custom s = s\<lparr>ostate := ostate s OR RPIBOOT_OUTPUT_CUSTOM\<rparr>"

text \<open>The mask of \<open>output_disable_log\<close> is not complemented; \<open>output_enable_log\<close> does nothing without
  \<open>ENABLE_CONSOLE_LOGFILE\<close>.\<close>

definition output_disable_log :: "'c output_state \<Rightarrow> 'c output_state" where
  "output_disable_log s = s\<lparr>ostate := ostate s AND RPIBOOT_OUTPUT_LOG\<rparr>"
definition output_enable_log :: "'c output_state \<Rightarrow> 'c output_state" where
  "output_enable_log s = s"
definition output_init :: "'c output_state \<Rightarrow> 'c output_state" where
  "output_init s = s\<lparr>ostate := 0\<rparr>"

definition split_putc :: "int \<Rightarrow> 'c output_state \<Rightarrow> (int \<times> 'c output_state) option" where
  "split_putc c s = do {
     (r1, s1) \<leftarrow> (if ostate s AND RPIBOOT_OUTPUT_UART \<noteq> 0
                 then map_option (\<lambda>(r, h). (r, s\<lparr>out_hw := h\<rparr>)) (uart_putc c (out_hw s))
                 else Some (0, s));
     (r2, s2) \<leftarrow> (if ostate s1 AND RPIBOOT_OUTPUT_FB \<noteq> 0
                 then map_option (\<lambda>(r, k). (r, s1\<lparr>out_console := k\<rparr>)) (console_putc c (out_console s1))
                 else Some (r1, s1));
     Some (r2,
       (if ostate s2 AND RPIBOOT_OUTPUT_CUSTOM \<noteq> 0
        then (case custom_putc s2 of
                Some f \<Rightarrow> s2\<lparr>out_custom := f c (out_custom s2)\<rparr> | None \<Rightarrow> s2)
        else s2))
   }"

definition register_custom_output_function :: "(int \<Rightarrow> 'c \<Rightarrow> 'c) option \<Rightarrow> 'c output_state \<Rightarrow> int \<times> 'c output_state" where
  "register_custom_output_function f s = (0, s\<lparr>custom_putc := f\<rparr>)"

section \<open>Loops over lines\<close>

lemma each_snoc: "each f (xs @ [x]) s = do { s' \<leftarrow> each f xs s; f x s' }"
  by (induction xs arbitrary: s) (auto split: Option.bind_split)

text \<open>What a buffer holds after \<open>m\<close> rows of \<open>w\<close> bytes were written at the stride \<open>p\<close> from \<open>a\<close> on.\<close>

definition in_rows :: "nat \<Rightarrow> nat \<Rightarrow> nat \<Rightarrow> nat \<Rightarrow> nat \<Rightarrow> bool" where
  "in_rows a p w m k \<longleftrightarrow> a \<le> k \<and> (k - a) div p < m \<and> (k - a) mod p < w"

definition rows_written :: "nat \<Rightarrow> nat \<Rightarrow> nat \<Rightarrow> (nat \<Rightarrow> bytes) \<Rightarrow> bytes \<Rightarrow> nat \<Rightarrow> bytes \<Rightarrow> bool" where
  "rows_written a p w row fb0 m fb \<longleftrightarrow> length fb = length fb0 \<and>
     (\<forall>k < length fb0. fb ! k = (if in_rows a p w m k then row ((k - a) div p) ! ((k - a) mod p) else fb0 ! k))"

lemma in_rows_Suc:
  assumes "w \<le> p"
  shows "in_rows a p w (Suc m) k \<longleftrightarrow> in_rows a p w m k \<or> a + m * p \<le> k \<and> k < a + m * p + w"
proof (cases "a \<le> k \<and> 0 < p")
  case True
  then have "k - a = (k - a) div p * p + (k - a) mod p" "(k - a) mod p < p" by auto
  then obtain q r where qr: "k = a + q * p + r" "r < p" using True by (metis add.assoc le_add_diff_inverse)
  then have d: "(k - a) div p = q" "(k - a) mod p = r" by auto
  have "q = m \<and> r < w \<longleftrightarrow> a + m * p \<le> k \<and> k < a + m * p + w"
  proof
    assume h: "a + m * p \<le> k \<and> k < a + m * p + w"
    have "\<not> q < m"
    proof
      assume "q < m"
      then have "Suc q * p \<le> m * p" by (intro mult_right_mono) auto
      then show False using h qr by simp
    qed
    moreover have "\<not> m < q"
    proof
      assume "m < q"
      then have "Suc m * p \<le> q * p" by (intro mult_right_mono) auto
      then show False using h qr assms by simp
    qed
    ultimately show "q = m \<and> r < w" using h qr by simp
  qed (use qr in simp)
  then show ?thesis using True d by (auto simp: in_rows_def less_Suc_eq)
next
  case False
  then show ?thesis using assms by (auto simp: in_rows_def)
qed

lemma each_rows:
  assumes "w \<le> p" and "\<And>j. j < m \<Longrightarrow> length (row j) = w \<and> a + j * p + w \<le> length fb0"
    and step: "\<And>j fb. j < m \<Longrightarrow> rows_written a p w row fb0 j fb \<Longrightarrow> f (i + j) fb = Some (splice fb (a + j * p) (row j))"
  shows "\<exists>fb. each f [i..<i + m] fb0 = Some fb \<and> rows_written a p w row fb0 m fb"
  using assms(2) step
proof (induction m)
  case 0
  then show ?case by (simp add: rows_written_def in_rows_def)
next
  case (Suc m)
  obtain fb where fb: "each f [i..<i + m] fb0 = Some fb" "rows_written a p w row fb0 m fb"
    using Suc.IH Suc.prems by (auto intro: less_SucI)
  have row: "length (row m) = w" "a + m * p + w \<le> length fb0" using Suc.prems(1) by auto
  let ?fb = "splice fb (a + m * p) (row m)"
  have st: "f (i + m) fb = Some ?fb" using Suc.prems(2) fb(2) by simp
  have len: "length fb = length fb0" using fb(2) by (simp add: rows_written_def)
  have "rows_written a p w row fb0 (Suc m) ?fb"
    unfolding rows_written_def
  proof (intro conjI allI impI)
    show "length ?fb = length fb0" using row len by (simp add: buf_simps)
    fix k assume k: "k < length fb0"
    have n: "?fb ! k = (if a + m * p \<le> k \<and> k < a + m * p + w then row m ! (k - (a + m * p)) else fb ! k)"
      using row len k by (simp add: buf_simps)
    have q: "(k - a) div p = m \<and> (k - a) mod p = k - (a + m * p)" if "a + m * p \<le> k" "k < a + m * p + w"
    proof -
      have "k - a = m * p + (k - (a + m * p))" "k - (a + m * p) < p" using that assms(1) by auto
      then show ?thesis by simp
    qed
    show "?fb ! k = (if in_rows a p w (Suc m) k then row ((k - a) div p) ! ((k - a) mod p) else fb0 ! k)"
      using n q fb(2) k by (auto simp: in_rows_Suc [OF assms(1)] rows_written_def)
  qed
  then show ?case using fb(1) st by (intro exI [of _ ?fb]) (simp add: each_snoc)
qed

text \<open>Reading the result at line \<open>l\<close> and column \<open>b\<close>, the rows being at lines \<open>l0\<close> on, column \<open>b0\<close>.\<close>

lemma in_rows_at:
  assumes "b0 + w \<le> p" and "b < p"
  shows "in_rows (l0 * p + b0) p w m (l * p + b) \<longleftrightarrow> l0 \<le> l \<and> l < l0 + m \<and> b0 \<le> b \<and> b < b0 + w"
    and "l0 \<le> l \<Longrightarrow> b0 \<le> b \<Longrightarrow> (l * p + b - (l0 * p + b0)) div p = l - l0
           \<and> (l * p + b - (l0 * p + b0)) mod p = b - b0"
proof -
  have le: "l0 * p + b0 \<le> l * p + b \<longleftrightarrow> l0 < l \<or> l0 = l \<and> b0 \<le> b" if "b0 \<le> p"
  proof (cases l l0 rule: linorder_cases)
    case less
    then have "Suc l * p \<le> l0 * p" by (intro mult_right_mono) auto
    then show ?thesis using less assms(2) by simp
  next
    case greater
    then have "Suc l0 * p \<le> l * p" by (intro mult_right_mono) auto
    then show ?thesis using greater that by simp
  qed simp
  show same: "(l * p + b - (l0 * p + b0)) div p = l - l0 \<and> (l * p + b - (l0 * p + b0)) mod p = b - b0"
    if "l0 \<le> l" "b0 \<le> b"
  proof -
    have "l * p + b - (l0 * p + b0) = (l - l0) * p + (b - b0)"
      using that by (simp add: diff_mult_distrib le_diff_conv2 mult_right_mono)
    then show ?thesis using assms(2) by simp
  qed
  have wrapped: "(l * p + b - (l0 * p + b0)) mod p = p + b - b0" if "l0 < l" "b < b0"
  proof -
    have "\<exists>d. l = Suc (l0 + d)" using that(1) by (rule less_imp_Suc_add)
    then obtain d where "l = Suc (l0 + d)" by blast
    then have "l * p = l0 * p + d * p + p" by (simp add: add_mult_distrib)
    then have "l * p + b - (l0 * p + b0) = d * p + (p + b - b0)" using assms by linarith
    moreover define e where "e = p + b - b0"
    ultimately have "l * p + b - (l0 * p + b0) = d * p + e" "e < p" using that(2) assms by auto
    then show ?thesis by (simp add: e_def [symmetric])
  qed
  show "in_rows (l0 * p + b0) p w m (l * p + b) \<longleftrightarrow> l0 \<le> l \<and> l < l0 + m \<and> b0 \<le> b \<and> b < b0 + w"
  proof (cases "l0 \<le> l \<and> b0 \<le> b")
    case True
    then show ?thesis using same le assms by (auto simp: in_rows_def)
  next
    case False
    then show ?thesis using le wrapped assms by (cases "l0 < l") (auto simp: in_rows_def)
  qed
qed

section \<open>Glyphs\<close>

primrec colour_bytes :: "nat \<Rightarrow> u32 \<Rightarrow> bytes" where
  "colour_bytes 0 colour = []"
| "colour_bytes (Suc n) colour = ucast (colour AND 0xff) # colour_bytes n (drop_bit 8 colour)"

lemma length_colour_bytes [simp]: "length (colour_bytes n colour) = n"
  by (induction n arbitrary: colour) auto

lemma put_colour_splice:
  "d + n \<le> length fb \<Longrightarrow> put_colour n d colour fb = Some (splice fb d (colour_bytes n colour))"
proof (induction n arbitrary: d colour fb)
  case (Suc n)
  have u: "fb[d := v] = splice fb d [v]" for v
    using Suc.prems by (simp add: splice_def upd_conv_take_nth_drop)
  have "splice (splice fb d [v]) (d + 1) xs = splice fb d (v # xs)" if "length xs = n" for v xs
    using Suc.prems that by (simp add: splice_def add.commute)
  then show ?case using Suc u by (simp add: buf_simps)
qed (simp add: splice_def)

text \<open>The bytes of one pixel row of a character, and of one pixel.\<close>

definition glyph_pixel :: "u32 \<Rightarrow> u32 \<Rightarrow> nat \<Rightarrow> nat \<Rightarrow> nat \<Rightarrow> bytes" where
  "glyph_pixel fore bg ch r px = colour_bytes bytes_per_pixel
     (if drop_bit (7 - px) (vgafont8_rows ! ch ! r) AND 0x1 \<noteq> 0 then fore else bg)"

definition glyph_row :: "u32 \<Rightarrow> u32 \<Rightarrow> nat \<Rightarrow> nat \<Rightarrow> bytes" where
  "glyph_row fore bg ch r = concat (map (glyph_pixel fore bg ch r) [0..<CHAR_W])"

lemma font_shape: "length vgafont8_rows = 128" "\<forall>r \<in> set vgafont8_rows. length r = 8"
  by (simp_all add: vgafont8_rows_def)

lemma font_length: "length vgafont8 = 1024"
  using length_concat_equal [OF font_shape(2)] font_shape(1) by (simp add: vgafont8_def)

lemma font_nth: "ch < 128 \<Longrightarrow> r < 8 \<Longrightarrow> vgafont8 ! (ch * 8 + r) = vgafont8_rows ! ch ! r"
  using nth_concat_equal [OF font_shape(2), of "ch * 8 + r"] font_shape(1) by (simp add: vgafont8_def)

lemma length_glyph_pixel [simp]: "length (glyph_pixel fore bg ch r px) = bytes_per_pixel"
  by (simp add: glyph_pixel_def)

lemma length_glyph_row [simp]: "length (glyph_row fore bg ch r) = CHAR_W * bytes_per_pixel"
  unfolding glyph_row_def by (subst length_concat_blocks [where n = bytes_per_pixel]) simp_all

lemma quotient_remainder8: "px < 8 \<Longrightarrow> (k * 8 + px) div 8 = k \<and> (k * 8 + px) mod 8 = (px :: nat)"
  by simp

lemma draw_pixel_splice:
  assumes "ch < 128" and "r < 8" and "px < 8" and "d + bytes_per_pixel \<le> length fb"
  shows "draw_pixel fore bg (ch * CHAR_W * CHAR_H + r * CHAR_W + px) d fb = Some (splice fb d (glyph_pixel fore bg ch r px))"
proof -
  have "ch * CHAR_W * CHAR_H + r * CHAR_W + px = (ch * 8 + r) * 8 + px"
    by (simp add: CHAR_W_def CHAR_H_def)
  then have q: "(ch * CHAR_W * CHAR_H + r * CHAR_W + px) div 8 = ch * 8 + r"
      "(ch * CHAR_W * CHAR_H + r * CHAR_W + px) mod 8 = px"
    using quotient_remainder8 [OF assms(3), of "ch * 8 + r"] by (simp_all only:)
  have "ch * 8 + r < 1024" using assms(1,2) by simp
  then show ?thesis
    using q assms by (simp add: draw_pixel_def Let_def font_length font_nth glyph_pixel_def put_colour_splice)
qed

lemma draw_pixels:
  assumes "ch < 128" and "r < 8" and "d + CHAR_W * bytes_per_pixel \<le> length fb" and "n \<le> CHAR_W"
  shows "each (\<lambda>px. draw_pixel fore bg (ch * CHAR_W * CHAR_H + r * CHAR_W + px) (d + px * bytes_per_pixel)) [0..<n] fb
     = Some (splice fb d (concat (map (glyph_pixel fore bg ch r) [0..<n])))"
  using assms(4)
proof (induction n)
  case (Suc n)
  let ?xs = "concat (map (glyph_pixel fore bg ch r) [0..<n])"
  have len: "length ?xs = n * bytes_per_pixel"
    by (subst length_concat_blocks [where n = bytes_per_pixel]) simp_all
  have "Suc n * bytes_per_pixel \<le> CHAR_W * bytes_per_pixel" using Suc.prems by (intro mult_right_mono) auto
  then have fits: "d + n * bytes_per_pixel + bytes_per_pixel \<le> length fb" using assms(3) by simp
  have "splice (splice fb d ?xs) (d + n * bytes_per_pixel) (glyph_pixel fore bg ch r n)
      = splice fb d (?xs @ glyph_pixel fore bg ch r n)"
    using fits len by (simp add: splice_def add.assoc add.commute [of bytes_per_pixel])
  moreover have "n < 8" using Suc.prems by (simp add: CHAR_W_def)
  moreover have "length (splice fb d ?xs) = length fb" using fits len by (simp add: buf_simps)
  ultimately show ?case
    using Suc fits assms(1,2) by (simp add: each_snoc draw_pixel_splice)
qed (simp add: splice_def)

text \<open>Drawing a character writes its eight rows at the stride of a line.\<close>

lemma draw_char_rows:
  assumes "ch < 128" and "CHAR_W * bytes_per_pixel \<le> pitch_of c"
    and "\<And>r. r < 8 \<Longrightarrow> (y * CHAR_H + r) * pitch_of c + x * bytes_per_pixel * CHAR_W + CHAR_W * bytes_per_pixel
      \<le> length (fbmem c)"
  shows "\<exists>fb. draw_char (int ch) x y fore bg c = Some fb
    \<and> rows_written (y * CHAR_H * pitch_of c + x * bytes_per_pixel * CHAR_W) (pitch_of c)
        (CHAR_W * bytes_per_pixel) (glyph_row fore bg ch) (fbmem c) CHAR_H fb"
proof -
  let ?a = "y * CHAR_H * pitch_of c + x * bytes_per_pixel * CHAR_W" and ?p = "pitch_of c"
  let ?f = "\<lambda>c_y. each (\<lambda>c_x. draw_pixel fore bg (ch * CHAR_W * CHAR_H + c_y * CHAR_W + c_x)
      (?a + c_y * ?p + c_x * bytes_per_pixel)) [0..<CHAR_W]"
  have "unat (word_of_int (int ch) :: u8) = ch" using assms(1) by (simp add: unat_of_nat)
  then have dc: "draw_char (int ch) x y fore bg c = each ?f [0..<CHAR_H] (fbmem c)"
    by (simp add: draw_char_def Let_def)
  have fits: "?a + j * ?p + CHAR_W * bytes_per_pixel \<le> length (fbmem c)" if "j < 8" for j
    using assms(3) [OF that] by (simp add: algebra_simps)
  have "\<exists>fb. each ?f [0..<0 + CHAR_H] (fbmem c) = Some fb
      \<and> rows_written ?a ?p (CHAR_W * bytes_per_pixel) (glyph_row fore bg ch) (fbmem c) CHAR_H fb"
  proof (rule each_rows)
    fix j fb assume j: "j < CHAR_H"
      and fb: "rows_written ?a ?p (CHAR_W * bytes_per_pixel) (glyph_row fore bg ch) (fbmem c) j fb"
    have "length fb = length (fbmem c)" using fb by (simp add: rows_written_def)
    then show "?f (0 + j) fb = Some (splice fb (?a + j * ?p) (glyph_row fore bg ch j))"
      using draw_pixels [of ch j "?a + j * ?p" fb CHAR_W fore bg] fits [of j] assms(1) j
      by (simp add: glyph_row_def CHAR_H_def)
  qed (use assms(2) fits in \<open>auto simp: CHAR_H_def\<close>)
  then show ?thesis using dc by simp
qed

section \<open>The terminal that the console implements\<close>

text \<open>A grid of character codes with a cursor; 0 is the blank.\<close>

record screen =
  grid :: "nat list list"
  tx :: nat
  ty :: nat

definition blank_screen :: "nat \<Rightarrow> nat \<Rightarrow> screen" where
  "blank_screen cols rows = \<lparr>grid = replicate rows (replicate cols 0), tx = 0, ty = 0\<rparr>"

definition screen_newline :: "nat \<Rightarrow> nat \<Rightarrow> screen \<Rightarrow> screen" where
  "screen_newline cols rows t =
     (if ty t + 1 = rows then t\<lparr>grid := tl (grid t) @ [replicate cols 0], tx := 0\<rparr>
      else t\<lparr>tx := 0, ty := ty t + 1\<rparr>)"

definition screen_putc :: "nat \<Rightarrow> nat \<Rightarrow> nat \<Rightarrow> screen \<Rightarrow> screen" where
  "screen_putc cols rows ch t =
     (if ch = 10 then screen_newline cols rows t
      else
        (let t1 = t\<lparr>grid := (grid t)[ty t := (grid t ! ty t)[tx t := ch]], tx := tx t + 1\<rparr>
         in if tx t1 = cols then screen_newline cols rows t1 else t1))"

section \<open>What is on the screen\<close>

definition geometry_ok :: "nat \<Rightarrow> nat \<Rightarrow> console \<Rightarrow> bool" where
  "geometry_ok cols rows c \<longleftrightarrow>
     cols = unat (fb_get_width (cfb c)) div CHAR_W \<and> rows = height_of c div CHAR_H \<and> 0 < cols \<and> 0 < rows
     \<and> line_byte_width c \<le> pitch_of c \<and> height_of c * pitch_of c \<le> length (fbmem c)
     \<and> cur_fore c = DEF_FORE \<and> cur_back c = DEF_BACK"

text \<open>The byte \<open>b\<close> of line \<open>l\<close>.\<close>

definition at :: "console \<Rightarrow> nat \<Rightarrow> nat \<Rightarrow> u8" where
  "at c l b = fbmem c ! (l * pitch_of c + b)"

definition cell_shows :: "console \<Rightarrow> nat \<Rightarrow> nat \<Rightarrow> nat \<Rightarrow> bool" where
  "cell_shows c y x ch \<longleftrightarrow> (\<forall>r < 8. \<forall>b < 8 * bytes_per_pixel.
     at c (y * 8 + r) (x * (8 * bytes_per_pixel) + b) = glyph_row DEF_FORE DEF_BACK ch r ! b)"

definition well_formed :: "nat \<Rightarrow> nat \<Rightarrow> screen \<Rightarrow> bool" where
  "well_formed cols rows t \<longleftrightarrow> length (grid t) = rows \<and> (\<forall>l \<in> set (grid t). length l = cols)
     \<and> tx t < cols \<and> ty t < rows"

definition shows_screen :: "nat \<Rightarrow> nat \<Rightarrow> console \<Rightarrow> screen \<Rightarrow> bool" where
  "shows_screen cols rows c t \<longleftrightarrow> geometry_ok cols rows c \<and> well_formed cols rows t
     \<and> (\<forall>y < rows. \<forall>x < cols. cell_shows c y x (grid t ! y ! x))
     \<and> (\<forall>l < height_of c. rows * 8 \<le> l \<longrightarrow> (\<forall>b < line_byte_width c. at c l b = 0))
     \<and> cur_x c = tx t \<and> cur_y c = ty t"

lemma bpp2 [simp]: "bytes_per_pixel = 2"
  by (simp add: bytes_per_pixel_def fb_get_bpp_def BPP_def BYTES_PER_PIXEL_def)

lemma char_size [simp]: "CHAR_W = 8" "CHAR_H = 8"
  by (simp_all add: CHAR_W_def CHAR_H_def)

lemma glyph_blank: "r < 8 \<Longrightarrow> glyph_row DEF_FORE DEF_BACK 0 r = replicate 16 0"
proof -
  assume r: "r < 8"
  have "vgafont8_rows ! 0 = replicate 8 0" by (simp add: vgafont8_rows_def numeral_eq_Suc)
  then have "glyph_pixel DEF_FORE DEF_BACK 0 r px = [0, 0]" for px
    using r by (simp add: glyph_pixel_def DEF_BACK_def numeral_2_eq_2)
  moreover have "replicate 16 0 = [0, 0, 0, 0, 0, 0, 0, 0, 0, 0, 0, 0, 0, 0, 0, 0 :: u8]" by (simp add: numeral_eq_Suc)
  ultimately show ?thesis by (simp add: glyph_row_def upt_rec)
qed

lemma at_in_buffer:
  assumes "geometry_ok cols rows c" and "l < height_of c" and "b < pitch_of c"
  shows "l * pitch_of c + b < length (fbmem c)"
proof -
  have "Suc l * pitch_of c \<le> height_of c * pitch_of c" using assms(2) by (intro mult_right_mono) auto
  then show ?thesis using assms by (simp add: geometry_ok_def)
qed

lemma cell_in_line:
  assumes "geometry_ok cols rows c" and "x < cols" and "b < 16"
  shows "x * 16 + b < line_byte_width c" and "x * 16 + 16 \<le> pitch_of c"
proof -
  let ?w = "unat (fb_get_width (cfb c))"
  have "Suc x * 8 \<le> ?w div 8 * 8" using assms by (intro mult_right_mono) (auto simp: geometry_ok_def)
  also have "\<dots> \<le> ?w" by (rule div_times_less_eq_dividend)
  finally have "x * 16 + 16 \<le> line_byte_width c" by (simp add: line_byte_width_def)
  then show "x * 16 + b < line_byte_width c" "x * 16 + 16 \<le> pitch_of c"
    using assms by (auto simp: geometry_ok_def)
qed

lemma row_in_screen:
  assumes "geometry_ok cols rows c" and "y < rows" and "r < 8"
  shows "y * 8 + r < height_of c"
proof -
  have "Suc y * 8 \<le> height_of c div 8 * 8" using assms by (intro mult_right_mono) (auto simp: geometry_ok_def)
  also have "\<dots> \<le> height_of c" by (rule div_times_less_eq_dividend)
  finally show ?thesis using assms(3) by simp
qed

lemma rows_written_at:
  assumes "rows_written (l0 * p + b0) p w row fb0 m fb" and "b0 + w \<le> p" and "b < p" and "l * p + b < length fb0"
  shows "fb ! (l * p + b) = (if l0 \<le> l \<and> l < l0 + m \<and> b0 \<le> b \<and> b < b0 + w then row (l - l0) ! (b - b0)
     else fb0 ! (l * p + b))"
  using assms(1,4) in_rows_at(1) [OF assms(2,3), of l0 m l] in_rows_at(2) [OF assms(2,3), of l0 l]
  by (auto simp: rows_written_def)

text \<open>Setting lines to 0.\<close>

lemma clear_lines:
  assumes "line_byte_width c \<le> pitch_of c" and "height_of c * pitch_of c \<le> length fb0" and "l0 \<le> height_of c"
  shows "\<exists>fb. each (\<lambda>line. mem_set (line * pitch_of c) 0 (line_byte_width c)) [l0..<height_of c] fb0 = Some fb
    \<and> rows_written (l0 * pitch_of c) (pitch_of c) (line_byte_width c) (\<lambda>_. replicate (line_byte_width c) 0)
        fb0 (height_of c - l0) fb"
proof -
  let ?p = "pitch_of c" and ?w = "line_byte_width c"
  have fits: "l0 * ?p + j * ?p + ?w \<le> length fb0" if "j < height_of c - l0" for j
  proof -
    have "Suc (l0 + j) * ?p \<le> height_of c * ?p" using that by (intro mult_right_mono) auto
    then show ?thesis using assms(1,2) by (simp add: add_mult_distrib)
  qed
  have "\<exists>fb. each (\<lambda>line. mem_set (line * ?p) 0 ?w) [l0..<l0 + (height_of c - l0)] fb0 = Some fb
      \<and> rows_written (l0 * ?p) ?p ?w (\<lambda>_. replicate ?w 0) fb0 (height_of c - l0) fb"
  proof (rule each_rows)
    fix j fb assume j: "j < height_of c - l0"
      and "rows_written (l0 * ?p) ?p ?w (\<lambda>_. replicate ?w 0) fb0 j fb"
    then show "mem_set ((l0 + j) * ?p) 0 ?w fb = Some (splice fb (l0 * ?p + j * ?p) (replicate ?w 0))"
      using fits [OF j] by (simp add: mem_set_def rows_written_def add_mult_distrib)
  qed (use assms(1) fits in auto)
  then show ?thesis using assms(3) by simp
qed

text \<open>Scrolling moves every line up by eight and blanks the last eight.\<close>

lemma scroll_lines:
  assumes "geometry_ok cols rows c"
  obtains fb1 fb2 where
    "each (\<lambda>line. mem_move (line * pitch_of c) ((line + 8) * pitch_of c) (line_byte_width c))
       [0..<height_of c - 8] (fbmem c) = Some fb1"
    "each (\<lambda>line. mem_set (line * pitch_of c) 0 (line_byte_width c)) [height_of c - 8..<height_of c] fb1 = Some fb2"
    "length fb2 = length (fbmem c)"
    "\<And>l b. l < height_of c \<Longrightarrow> b < line_byte_width c \<Longrightarrow>
       fb2 ! (l * pitch_of c + b) = (if l < height_of c - 8 then at c (l + 8) b else 0)"
proof -
  let ?p = "pitch_of c" and ?w = "line_byte_width c" and ?h = "height_of c"
  let ?row = "\<lambda>j. slice (fbmem c) ((j + 8) * ?p) ?w"
  have g: "?w \<le> ?p" "?h * ?p \<le> length (fbmem c)" using assms by (auto simp: geometry_ok_def)
  have fits: "l * ?p + ?w \<le> length (fbmem c)" if "l < ?h" for l
  proof -
    have "Suc l * ?p \<le> ?h * ?p" using that by (intro mult_right_mono) auto
    then show ?thesis using g by simp
  qed
  have "\<exists>fb. each (\<lambda>line. mem_move (line * ?p) ((line + 8) * ?p) ?w) [0..<0 + (?h - 8)] (fbmem c) = Some fb
      \<and> rows_written (0 * ?p + 0) ?p ?w ?row (fbmem c) (?h - 8) fb"
  proof (rule each_rows)
    fix j fb assume j: "j < ?h - 8" and rw: "rows_written (0 * ?p + 0) ?p ?w ?row (fbmem c) j fb"
    have jh: "j < ?h" "j + 8 < ?h" using j by auto
    have len: "length fb = length (fbmem c)" using rw by (simp add: rows_written_def)
    have "slice fb ((j + 8) * ?p) ?w = ?row j"
    proof (rule nth_equalityI)
      show "length (slice fb ((j + 8) * ?p) ?w) = length (?row j)" using len by (simp add: slice_def)
      fix b assume "b < length (slice fb ((j + 8) * ?p) ?w)"
      then have b: "b < ?w" using fits [of "j + 8"] j len by (simp add: buf_simps)
      have "(j + 8) * ?p + b < length (fbmem c)" using fits [of "j + 8"] j b by linarith
      then show "slice fb ((j + 8) * ?p) ?w ! b = ?row j ! b"
        using rows_written_at [OF rw, of b "j + 8"] fits [of "j + 8"] g(1) b j len by (simp add: buf_simps)
    qed
    then show "mem_move ((0 + j) * ?p) ((0 + j + 8) * ?p) ?w fb = Some (splice fb (0 * ?p + 0 + j * ?p) (?row j))"
      using fits [OF jh(1)] fits [OF jh(2)] len by (simp add: mem_move_def)
  next
    fix j assume "j < ?h - 8"
    then show "length (?row j) = ?w \<and> 0 * ?p + 0 + j * ?p + ?w \<le> length (fbmem c)"
      using fits [of j] fits [of "j + 8"] by (simp add: buf_simps)
  qed (rule g(1))
  then obtain fb1 where fb1: "each (\<lambda>line. mem_move (line * ?p) ((line + 8) * ?p) ?w) [0..<?h - 8] (fbmem c) = Some fb1"
      "rows_written (0 * ?p + 0) ?p ?w ?row (fbmem c) (?h - 8) fb1"
    by auto
  have len1: "length fb1 = length (fbmem c)" using fb1(2) by (simp add: rows_written_def)
  obtain fb2 where fb2: "each (\<lambda>line. mem_set (line * ?p) 0 ?w) [?h - 8..<?h] fb1 = Some fb2"
      "rows_written ((?h - 8) * ?p + 0) ?p ?w (\<lambda>_. replicate ?w 0) fb1 (?h - (?h - 8)) fb2"
    using clear_lines [of c fb1 "?h - 8"] g len1 by auto
  show thesis
  proof (rule that [OF fb1(1) fb2(1)])
    show "length fb2 = length (fbmem c)" using fb2(2) len1 by (simp add: rows_written_def)
    fix l b assume l: "l < ?h" and b: "b < ?w"
    have k: "l * ?p + b < length fb1" using fits [OF l] b len1 by simp
    show "fb2 ! (l * ?p + b) = (if l < ?h - 8 then at c (l + 8) b else 0)"
      using rows_written_at [OF fb2(2), of b l] rows_written_at [OF fb1(2), of b l] k len1 g(1) l b
        fits [of "l + 8"]
      by (auto simp: at_def buf_simps)
  qed
qed

text \<open>A new line keeps the screen.\<close>

lemma newline_shows:
  assumes g: "geometry_ok cols rows c" and wf: "length (grid t) = rows" "\<forall>l \<in> set (grid t). length l = cols"
      "ty t < rows"
    and cells: "\<forall>y < rows. \<forall>x < cols. cell_shows c y x (grid t ! y ! x)"
    and rest: "\<forall>l < height_of c. rows * 8 \<le> l \<longrightarrow> (\<forall>b < line_byte_width c. at c l b = 0)"
    and cy: "cur_y c = ty t"
  shows "\<exists>c'. newline c = Some c' \<and> shows_screen cols rows c' (screen_newline cols rows t)"
proof (cases "ty t + 1 = rows")
  case False
  let ?c = "c\<lparr>cur_y := cur_y c + 1, cur_x := 0\<rparr>"
  have "newline c = Some ?c" using False cy g by (simp add: newline_def Let_def height_of_def geometry_ok_def)
  moreover have "shows_screen cols rows ?c (screen_newline cols rows t)"
    using assms False
    by (simp add: shows_screen_def screen_newline_def well_formed_def geometry_ok_def cell_shows_def at_def)
  ultimately show ?thesis by blast
next
  case True
  let ?p = "pitch_of c" and ?w = "line_byte_width c" and ?h = "height_of c"
  obtain fb1 fb2 where fb: "each (\<lambda>line. mem_move (line * ?p) ((line + 8) * ?p) ?w) [0..<?h - 8] (fbmem c) = Some fb1"
      "each (\<lambda>line. mem_set (line * ?p) 0 ?w) [?h - 8..<?h] fb1 = Some fb2" "length fb2 = length (fbmem c)"
    and line: "\<And>l b. l < ?h \<Longrightarrow> b < ?w \<Longrightarrow> fb2 ! (l * ?p + b) = (if l < ?h - 8 then at c (l + 8) b else 0)"
    using scroll_lines [OF g] by blast
  let ?c = "c\<lparr>cur_y := ty t, cur_x := 0, fbmem := fb2\<rparr>"
  let ?t = "screen_newline cols rows t"
  have rows: "rows = ?h div 8" "0 < rows" using g by (auto simp: geometry_ok_def)
  have "newline c = Some ?c"
    using True cy rows fb(1,2) by (simp add: newline_def Let_def height_of_def pitch_of_def line_byte_width_def)
  moreover have tls: "set (tl (grid t)) \<subseteq> set (grid t)" by (cases "grid t") auto
  have "shows_screen cols rows ?c ?t"
    unfolding shows_screen_def
  proof (intro conjI allI impI)
    show "geometry_ok cols rows ?c" using g fb(3) by (simp add: geometry_ok_def)
    show "well_formed cols rows ?t"
      using wf True g tls by (auto simp: well_formed_def screen_newline_def geometry_ok_def)
    show "cur_x ?c = tx ?t" "cur_y ?c = ty ?t" using True cy by (simp_all add: screen_newline_def)
  next
    fix l b assume "l < height_of ?c" "rows * 8 \<le> l" "b < line_byte_width ?c"
    then have "l < ?h" "b < ?w" "\<not> l < ?h - 8" using rows by auto
    then show "at ?c l b = 0" using line by (simp add: at_def)
  next
    fix y x assume y: "y < rows" and x: "x < cols"
    have new: "grid ?t ! y ! x = (if y + 1 < rows then grid t ! (y + 1) ! x else 0)"
      using True wf(1) y x by (auto simp: screen_newline_def nth_append nth_tl)
    show "cell_shows ?c y x (grid ?t ! y ! x)"
      unfolding cell_shows_def
    proof (intro allI impI)
      fix r b :: nat assume r: "r < 8" and b: "b < 8 * bytes_per_pixel"
      let ?b = "x * (8 * bytes_per_pixel) + b" and ?l = "y * 8 + r"
      have bw: "?b < ?w" using cell_in_line(1) [OF g x, of b] b by simp
      have lh: "?l < ?h" using row_in_screen [OF g y r] .
      have byte: "at ?c ?l ?b = (if ?l < ?h - 8 then at c (?l + 8) ?b else 0)"
        using line [OF lh bw] by (simp add: at_def)
      show "at ?c ?l ?b = glyph_row DEF_FORE DEF_BACK (grid ?t ! y ! x) r ! b"
      proof (cases "y + 1 < rows")
        case True
        then have "(y + 1) * 8 + r < ?h" using row_in_screen [OF g _ r] by blast
        moreover have l8: "(y + 1) * 8 + r = ?l + 8" by simp
        ultimately have "?l < ?h - 8" by linarith
        then have "at ?c ?l ?b = at c ((y + 1) * 8 + r) ?b" unfolding l8 using byte by simp
        moreover have "cell_shows c (y + 1) x (grid t ! (y + 1) ! x)" using cells True x by blast
        ultimately show ?thesis using True r b new by (simp only: cell_shows_def if_True)
      next
        case False
        then have "rows * 8 \<le> ?l + 8" using y by simp
        then have "at ?c ?l ?b = 0" using byte rest bw by auto
        then show ?thesis using new False r b glyph_blank by simp
      qed
    qed
  qed
  ultimately show ?thesis by blast
qed

text \<open>Drawing a character changes its own cell only.\<close>

lemma draw_char_at:
  assumes g: "geometry_ok cols rows c" and y: "y < rows" and x: "x < cols" and ch: "ch < 128"
  obtains fb where "draw_char (int ch) x y DEF_FORE DEF_BACK c = Some fb" "length fb = length (fbmem c)"
    "\<And>l b. l < height_of c \<Longrightarrow> b < pitch_of c \<Longrightarrow> fb ! (l * pitch_of c + b) =
       (if y * 8 \<le> l \<and> l < y * 8 + 8 \<and> x * 16 \<le> b \<and> b < x * 16 + 16
        then glyph_row DEF_FORE DEF_BACK ch (l - y * 8) ! (b - x * 16) else at c l b)"
proof -
  let ?p = "pitch_of c"
  have w: "x * 16 + 16 \<le> ?p" using cell_in_line(2) [OF g x, of 0] by simp
  have fits: "(y * CHAR_H + r) * ?p + x * bytes_per_pixel * CHAR_W + CHAR_W * bytes_per_pixel \<le> length (fbmem c)"
    if "r < 8" for r
  proof -
    have "(y * 8 + r) * ?p + (?p - 1) < length (fbmem c)"
      using at_in_buffer [OF g row_in_screen [OF g y that], of "?p - 1"] w by simp
    then show ?thesis using w by (simp add: mult.commute)
  qed
  obtain fb where fb: "draw_char (int ch) x y DEF_FORE DEF_BACK c = Some fb"
      "rows_written (y * CHAR_H * ?p + x * bytes_per_pixel * CHAR_W) ?p (CHAR_W * bytes_per_pixel)
         (glyph_row DEF_FORE DEF_BACK ch) (fbmem c) CHAR_H fb"
    using draw_char_rows [of ch c y x DEF_FORE DEF_BACK] ch w fits by auto
  have rw: "rows_written (y * 8 * ?p + x * 16) ?p 16 (glyph_row DEF_FORE DEF_BACK ch) (fbmem c) 8 fb"
    using fb(2) by (simp add: mult.commute [of x])
  show thesis
  proof (rule that [OF fb(1)])
    show "length fb = length (fbmem c)" using fb(2) by (simp add: rows_written_def)
    fix l b assume "l < height_of c" "b < ?p"
    then show "fb ! (l * ?p + b) = (if y * 8 \<le> l \<and> l < y * 8 + 8 \<and> x * 16 \<le> b \<and> b < x * 16 + 16
        then glyph_row DEF_FORE DEF_BACK ch (l - y * 8) ! (b - x * 16) else at c l b)"
      using rows_written_at [OF rw, of b l] w at_in_buffer [OF g] by (simp add: at_def)
  qed
qed

lemma console_putc_shows:
  assumes sh: "shows_screen cols rows c t" and ch: "ch < 128"
  shows "\<exists>c'. console_putc (int ch) c = Some (int ch, c') \<and> shows_screen cols rows c' (screen_putc cols rows ch t)"
proof (cases "ch = 10")
  case True
  have "\<exists>c'. newline c = Some c' \<and> shows_screen cols rows c' (screen_newline cols rows t)"
    using sh by (intro newline_shows) (auto simp: shows_screen_def well_formed_def)
  then show ?thesis using True by (auto simp: console_putc_def screen_putc_def)
next
  case False
  have g: "geometry_ok cols rows c" and wf: "well_formed cols rows t"
    and cells: "\<And>y x. y < rows \<Longrightarrow> x < cols \<Longrightarrow> cell_shows c y x (grid t ! y ! x)"
    and rest: "\<And>l b. l < height_of c \<Longrightarrow> rows * 8 \<le> l \<Longrightarrow> b < line_byte_width c \<Longrightarrow> at c l b = 0"
    and cur: "cur_x c = tx t" "cur_y c = ty t"
    using sh by (auto simp: shows_screen_def)
  have t: "ty t < rows" "tx t < cols" "length (grid t) = rows" "\<forall>l \<in> set (grid t). length l = cols"
    using wf by (auto simp: well_formed_def)
  obtain fb where fb: "draw_char (int ch) (tx t) (ty t) DEF_FORE DEF_BACK c = Some fb" "length fb = length (fbmem c)"
    and px: "\<And>l b. l < height_of c \<Longrightarrow> b < pitch_of c \<Longrightarrow> fb ! (l * pitch_of c + b) =
       (if ty t * 8 \<le> l \<and> l < ty t * 8 + 8 \<and> tx t * 16 \<le> b \<and> b < tx t * 16 + 16
        then glyph_row DEF_FORE DEF_BACK ch (l - ty t * 8) ! (b - tx t * 16) else at c l b)"
    using draw_char_at [OF g t(1,2) ch] by blast
  let ?c = "c\<lparr>fbmem := fb, cur_x := tx t + 1\<rparr>"
  let ?t = "t\<lparr>grid := (grid t)[ty t := (grid t ! ty t)[tx t := ch]], tx := tx t + 1\<rparr>"
  have g': "geometry_ok cols rows ?c" using g fb(2) by (simp add: geometry_ok_def)
  have cells': "cell_shows ?c y x (grid ?t ! y ! x)" if y: "y < rows" and x: "x < cols" for y x
    unfolding cell_shows_def
  proof (intro allI impI)
    fix r b :: nat assume r: "r < 8" and "b < 8 * bytes_per_pixel"
    then have b: "b < 16" by simp
    have lb: "y * 8 + r < height_of c" "x * 16 + b < pitch_of c"
      using row_in_screen [OF g y r] cell_in_line(2) [OF g x b] b by auto
    have here: "ty t * 8 \<le> y * 8 + r \<and> y * 8 + r < ty t * 8 + 8 \<and> tx t * 16 \<le> x * 16 + b
        \<and> x * 16 + b < tx t * 16 + 16 \<longleftrightarrow> y = ty t \<and> x = tx t" using r b by linarith
    have "at ?c (y * 8 + r) (x * 16 + b) = (if y = ty t \<and> x = tx t then glyph_row DEF_FORE DEF_BACK ch r ! b
        else at c (y * 8 + r) (x * 16 + b))"
      using px [OF lb] here by (simp add: at_def)
    moreover have "grid ?t ! y ! x = (if y = ty t \<and> x = tx t then ch else grid t ! y ! x)"
      using t x y by (auto simp: nth_list_update)
    ultimately show "at ?c (y * 8 + r) (x * (8 * bytes_per_pixel) + b) = glyph_row DEF_FORE DEF_BACK (grid ?t ! y ! x) r ! b"
      using cells [OF y x] r b by (auto simp: cell_shows_def)
  qed
  have rest': "at ?c l b = 0" if "l < height_of c" "rows * 8 \<le> l" "b < line_byte_width c" for l b
  proof -
    have "\<not> l < ty t * 8 + 8" using that(2) t(1) by simp
    moreover have "b < pitch_of c" using that(3) g by (simp add: geometry_ok_def)
    ultimately show ?thesis using px [OF that(1)] rest [OF that] by (simp add: at_def)
  qed
  have w: "unat (fb_get_width (cfb c)) div CHAR_W = cols" using g by (simp add: geometry_ok_def)
  have colours: "cur_fore c = DEF_FORE" "cur_back c = DEF_BACK" using g by (simp_all add: geometry_ok_def)
  have wf': "length (grid ?t) = rows" "\<forall>l \<in> set (grid ?t). length l = cols" "ty ?t < rows"
  proof -
    have "length (grid t ! ty t) = cols" using t by simp
    then show "\<forall>l \<in> set (grid ?t). length l = cols" using t(4) by (auto dest!: set_update_subset_insert [THEN subsetD])
  qed (use t in simp_all)
  show ?thesis
  proof (cases "tx t + 1 = cols")
    case True
    have "\<exists>c'. newline ?c = Some c' \<and> shows_screen cols rows c' (screen_newline cols rows ?t)"
      using g' wf' cells' rest' cur by (intro newline_shows) auto
    then show ?thesis
      using False True fb(1) cur w colours
      by (auto simp: console_putc_def screen_putc_def Let_def)
  next
    case f: False
    have "shows_screen cols rows ?c ?t"
      using g' wf' cells' rest' cur f t by (simp add: shows_screen_def well_formed_def)
    then show ?thesis
      using False f fb(1) cur w colours by (auto simp: console_putc_def screen_putc_def Let_def)
  qed
qed

lemma clear_shows:
  assumes g: "geometry_ok cols rows c"
  shows "\<exists>c'. clear c = Some c' \<and> shows_screen cols rows c' (blank_screen cols rows)"
proof -
  let ?p = "pitch_of c" and ?w = "line_byte_width c"
  obtain fb where fb: "each (\<lambda>line. mem_set (line * ?p) 0 ?w) [0..<height_of c] (fbmem c) = Some fb"
      "rows_written (0 * ?p + 0) ?p ?w (\<lambda>_. replicate ?w 0) (fbmem c) (height_of c) fb"
    using clear_lines [of c "fbmem c" 0] g by (auto simp: geometry_ok_def)
  let ?c = "c\<lparr>fbmem := fb, cur_x := 0, cur_y := 0\<rparr>"
  have wp: "?w \<le> ?p" using g by (simp add: geometry_ok_def)
  have z: "at ?c l b = 0" if "l < height_of c" "b < ?w" for l b
    using rows_written_at [OF fb(2), of b l] at_in_buffer [OF g that(1), of b] that wp by (simp add: at_def)
  have len: "length fb = length (fbmem c)" using fb(2) by (simp add: rows_written_def)
  have "shows_screen cols rows ?c (blank_screen cols rows)"
    unfolding shows_screen_def
  proof (intro conjI allI impI)
    show "geometry_ok cols rows ?c" using g len by (simp add: geometry_ok_def)
    show "well_formed cols rows (blank_screen cols rows)"
      using g by (auto simp: well_formed_def blank_screen_def geometry_ok_def)
    fix y x assume y: "y < rows" and x: "x < cols"
    show "cell_shows ?c y x (grid (blank_screen cols rows) ! y ! x)"
      unfolding cell_shows_def
      using z row_in_screen [OF g y] cell_in_line(1) [OF g x] y x glyph_blank by (simp add: blank_screen_def)
  qed (use z in \<open>simp_all add: blank_screen_def\<close>)
  then show ?thesis using fb(1) by (simp add: clear_def)
qed

section \<open>Properties\<close>

primrec console_puts :: "nat list \<Rightarrow> console \<Rightarrow> console option" where
  "console_puts [] c = Some c"
| "console_puts (ch # chs) c = do { (_, c') \<leftarrow> console_putc (int ch) c; console_puts chs c' }"

lemma console_puts_shows:
  "\<forall>ch \<in> set chs. ch < 128 \<Longrightarrow> shows_screen cols rows c t \<Longrightarrow>
   \<exists>c'. console_puts chs c = Some c' \<and> shows_screen cols rows c' (fold (screen_putc cols rows) chs t)"
proof (induction chs arbitrary: c t)
  case (Cons ch chs)
  obtain c1 where "console_putc (int ch) c = Some (int ch, c1)"
      "shows_screen cols rows c1 (screen_putc cols rows ch t)"
    using console_putc_shows [OF Cons.prems(2), of ch] Cons.prems(1) by auto
  then show ?case using Cons.IH [of c1] Cons.prems(1) by auto
qed simp

text \<open>C38: The console is a terminal: after \<open>clear\<close>, characters below 128 written by \<open>console_putc\<close> leave
  on the frame buffer exactly the glyphs of the grid that a terminal of \<open>width / 8\<close> by \<open>height / 8\<close>
  characters shows, with line wrap, new lines and scrolling, and the cursor is where the terminal's is.
  The font has 128 glyphs and \<open>draw_char\<close> does not check the character: for the others it reads
  behind the font.\<close>

theorem console_refines_terminal:
  assumes "geometry_ok cols rows c" and "\<forall>ch \<in> set chs. ch < 128"
  shows "\<exists>c1 c2. clear c = Some c1 \<and> console_puts chs c1 = Some c2
    \<and> shows_screen cols rows c2 (fold (screen_putc cols rows) chs (blank_screen cols rows))"
  using clear_shows [OF assms(1)] console_puts_shows [OF assms(2)] by blast

definition demo_console :: console where
  "demo_console = \<lparr>cfb = \<lparr>phys_w = 16, phys_h = 16, virt_w = 16, virt_h = 16, pitch = 32, fb_addr = 0, fb_size = 512\<rparr>,
     fbmem = replicate 512 255, cur_x = 3, cur_y = 9, cur_fore = DEF_FORE, cur_back = DEF_BACK\<rparr>"

theorem console_refines_terminal_witness:
  "\<exists>c1 c2. clear demo_console = Some c1 \<and> console_puts [65, 66, 67, 10, 68] c1 = Some c2
    \<and> shows_screen 2 2 c2 \<lparr>grid = [[67, 0], [68, 0]], tx = 1, ty = 1\<rparr>"
proof -
  have g: "geometry_ok 2 2 demo_console"
    by (simp add: geometry_ok_def demo_console_def fb_get_width_def fb_get_height_def fb_get_pitch_def
        height_of_def pitch_of_def line_byte_width_def)
  have "fold (screen_putc 2 2) [65, 66, 67, 10, 68] (blank_screen 2 2) = \<lparr>grid = [[67, 0], [68, 0]], tx = 1, ty = 1\<rparr>"
    by (simp add: screen_putc_def screen_newline_def blank_screen_def numeral_2_eq_2)
  then show ?thesis using console_refines_terminal [OF g, of "[65, 66, 67, 10, 68]"] by auto
qed

end
