(* ===== verification/Linenoise.thy ===== *)
theory Linenoise
  imports Prelude
begin

text \<open>
  The line editor of the interactive prompt (\<open>linenoise/linenoise.c\<close>): the edited buffer, the refresh of
  the line in both modes, completion, history, and the key loop \<open>linenoiseEdit\<close>.

  The terminal is an environment: \<open>keys\<close> are the bytes that \<open>read\<close> will deliver (none left is end of
  file), \<open>out\<close> what was written; \<open>wfail\<close> says that \<open>write\<close> fails. \<open>char\<close> is unsigned, as on ARM.
  The callbacks are functions: \<open>completion\<close> gives the list of completions, \<open>hints\<close> the hint with its
  colour and weight. Allocation succeeds. A read or write outside a buffer, and the use of
  uninitialised memory, is \<^term>\<open>None\<close>.
\<close>

section \<open>State\<close>

record line_state =
  l_buf :: bytes
  l_buflen :: nat
  l_prompt :: bytes
  l_plen :: nat
  l_pos :: nat
  l_oldpos :: nat
  l_len :: nat
  l_cols :: nat
  l_maxrows :: nat
  l_history_index :: int

record line_env =
  mlmode :: bool
  completion :: "(bytes \<Rightarrow> bytes list) option"
  hints :: "(bytes \<Rightarrow> bytes option \<times> int \<times> int) option"
  history_max_len :: int
  history_alloc :: bool
  history :: "bytes list"
  keys :: bytes
  out :: "bytes list"
  wfail :: bool
  line_errno :: "errno option"

definition KEY_NULL :: u8 where "KEY_NULL = 0"
definition CTRL_A :: u8 where "CTRL_A = 1"
definition CTRL_B :: u8 where "CTRL_B = 2"
definition CTRL_C :: u8 where "CTRL_C = 3"
definition CTRL_D :: u8 where "CTRL_D = 4"
definition CTRL_E :: u8 where "CTRL_E = 5"
definition CTRL_F :: u8 where "CTRL_F = 6"
definition CTRL_H :: u8 where "CTRL_H = 8"
definition TAB :: u8 where "TAB = 9"
definition CTRL_K :: u8 where "CTRL_K = 11"
definition CTRL_L :: u8 where "CTRL_L = 12"
definition ENTER :: u8 where "ENTER = 13"
definition CTRL_N :: u8 where "CTRL_N = 14"
definition CTRL_P :: u8 where "CTRL_P = 16"
definition CTRL_T :: u8 where "CTRL_T = 20"
definition CTRL_U :: u8 where "CTRL_U = 21"
definition CTRL_W :: u8 where "CTRL_W = 23"
definition ESC :: u8 where "ESC = 27"
definition BACKSPACE :: u8 where "BACKSPACE = 127"

lemmas key_codes = KEY_NULL_def CTRL_A_def CTRL_B_def CTRL_C_def CTRL_D_def CTRL_E_def CTRL_F_def CTRL_H_def
  TAB_def CTRL_K_def CTRL_L_def ENTER_def CTRL_N_def CTRL_P_def CTRL_T_def CTRL_U_def CTRL_W_def ESC_def BACKSPACE_def

text \<open>C strings: the bytes before the first 0, which must exist.\<close>

definition cstr :: "bytes \<Rightarrow> bytes option" where
  "cstr b = (if 0 \<in> set b then Some (takeWhile (\<lambda>x. x \<noteq> 0) b) else None)"

text \<open>Decimal output of \<open>%d\<close>.\<close>

fun decimal :: "nat \<Rightarrow> bytes" where
  "decimal n = (if n < 10 then [of_nat (48 + n)] else decimal (n div 10) @ [of_nat (48 + n mod 10)])"

declare decimal.simps [simp del]

definition decimal_int :: "int \<Rightarrow> bytes" where
  "decimal_int i = (if i < 0 then 45 # decimal (nat (- i)) else decimal (nat i))"

section \<open>The terminal\<close>

definition tty_write :: "bytes \<Rightarrow> line_env \<Rightarrow> bool \<times> line_env" where
  "tty_write bs e = (if wfail e then (False, e) else (True, e\<lparr>out := out e @ [bs]\<rparr>))"

definition linenoiseSetMultiLine :: "bool \<Rightarrow> line_env \<Rightarrow> line_env" where
  "linenoiseSetMultiLine ml e = e\<lparr>mlmode := ml\<rparr>"

text \<open>At most \<open>n\<close> bytes up to an \<open>R\<close>.\<close>

primrec cursor_response :: "nat \<Rightarrow> bytes \<Rightarrow> bytes \<times> bytes" where
  "cursor_response 0 ks = ([], ks)"
| "cursor_response (Suc n) ks =
     (case ks of
        [] \<Rightarrow> ([], [])
      | k # ks' \<Rightarrow> if k = 82 then ([], ks') else (let (r, rest) = cursor_response n ks' in (k # r, rest)))"

text \<open>\<open>sscanf(..., "%d;%d", ...)\<close>.\<close>

definition is_digit :: "u8 \<Rightarrow> bool" where "is_digit k \<longleftrightarrow> 48 \<le> k \<and> k \<le> 57"

definition scan_digits :: "bytes \<Rightarrow> (int \<times> bytes) option" where
  "scan_digits b =
     (let ds = takeWhile is_digit b in
      if ds = [] then None
      else Some (foldl (\<lambda>n d. 10 * n + (int (unat d) - 48)) 0 ds, dropWhile is_digit b))"

definition scan_int :: "bytes \<Rightarrow> (int \<times> bytes) option" where
  "scan_int b =
     (let b = dropWhile (\<lambda>k. k = 32 \<or> 9 \<le> k \<and> k \<le> 13) b in
      case b of
        [] \<Rightarrow> None
      | k # ks \<Rightarrow> if k = 45 then map_option (\<lambda>(n, r). (- n, r)) (scan_digits ks)
                  else if k = 43 then scan_digits ks else scan_digits b)"

definition scan_cursor :: "bytes \<Rightarrow> int option" where
  "scan_cursor b = do {
     (rows, r) \<leftarrow> scan_int b;
     (case r of
        k # ks \<Rightarrow> if k = 59 then map_option fst (scan_int ks) else None
      | [] \<Rightarrow> None)
   }"

definition getCursorPosition :: "line_env \<Rightarrow> int \<times> line_env" where
  "getCursorPosition e =
     (let (ok, e1) = tty_write [27, 91, 54, 110] e in
      if \<not> ok then (-1, e1)
      else
        (let (b, rest) = cursor_response 31 (keys e1); e2 = e1\<lparr>keys := rest\<rparr> in
         case b of
           k # k' # b' \<Rightarrow>
             if k \<noteq> ESC \<or> k' \<noteq> 91 then (-1, e2)
             else (case scan_cursor (takeWhile (\<lambda>x. x \<noteq> 0) b') of None \<Rightarrow> -1 | Some cols \<Rightarrow> cols, e2)
         | _ \<Rightarrow> (-1, e2)))"

definition getColumns :: "line_env \<Rightarrow> int \<times> line_env" where
  "getColumns e =
     (let (start, e1) = getCursorPosition e in
      if start = -1 then (80, e1)
      else
        (let (ok, e2) = tty_write [27, 91, 57, 57, 57, 67] e1 in
         if \<not> ok then (80, e2)
         else
           (let (cols, e3) = getCursorPosition e2 in
            if cols = -1 then (80, e3)
            else (cols,
              if cols > start then snd (tty_write ([27, 91] @ decimal_int (cols - start) @ [68]) e3)
              else e3))))"

definition linenoiseClearScreen :: "line_env \<Rightarrow> line_env" where
  "linenoiseClearScreen e = snd (tty_write [27, 91, 72, 27, 91, 50, 74] e)"

definition linenoiseBeep :: "line_env \<Rightarrow> line_env" where
  "linenoiseBeep e = e\<lparr>out := out e @ [[7]]\<rparr>"

section \<open>Refresh\<close>

text \<open>The hint at the right of the line. With colour -1 and weight 0 the code appends the
  uninitialised \<open>seq\<close>.\<close>

definition refreshShowHints :: "line_state \<Rightarrow> line_env \<Rightarrow> bytes option" where
  "refreshShowHints l e =
     (case hints e of
        Some cb \<Rightarrow>
          if l_plen l + l_len l < l_cols l then do {
            s \<leftarrow> cstr (l_buf l);
            (case cb s of
               (None, _) \<Rightarrow> Some []
             | (Some hint, colour, bold) \<Rightarrow>
                 (let h = take (l_cols l - (l_plen l + l_len l)) hint;
                      colour = (if bold = 1 \<and> colour = -1 then 37 else colour) in
                  if colour = -1 \<and> bold = 0 then None
                  else Some ([27, 91] @ decimal_int bold @ [59] @ decimal_int colour @ [59, 52, 57, 109]
                    @ h @ [27, 91, 48, 109])))
          }
          else Some []
      | None \<Rightarrow> Some [])"

text \<open>The number of iterations of the first loop of the single line refresh. When it exceeds the
  length, the length wraps around and the copy that follows is undefined.\<close>

definition scroll_by :: "line_state \<Rightarrow> nat" where
  "scroll_by l = (if l_plen l + l_pos l \<ge> l_cols l then l_plen l + l_pos l - l_cols l + 1 else 0)"

text \<open>The length after the second loop.\<close>

definition shown_len :: "line_state \<Rightarrow> nat" where
  "shown_len l =
     (let len = l_len l - scroll_by l in if l_plen l + len > l_cols l then l_cols l - l_plen l else len)"

definition refreshSingleLine :: "line_state \<Rightarrow> line_env \<Rightarrow> (line_state \<times> line_env) option" where
  "refreshSingleLine l e =
     (let k = scroll_by l in
      if l_cols l = 0 \<or> k > l_len l then None
      else if l_plen l > l_cols l \<or> k + shown_len l > length (l_buf l) then None
      else do {
        hint \<leftarrow> refreshShowHints l e;
        let bs = [13] @ l_prompt l @ slice (l_buf l) k (shown_len l) @ hint @ [27, 91, 48, 75]
                 @ [13, 27, 91] @ decimal (l_plen l + l_pos l - k) @ [67];
        Some (l, snd (tty_write bs e))
      })"

definition note_rows :: "nat \<Rightarrow> line_state \<Rightarrow> line_state" where
  "note_rows rows l = (if rows > l_maxrows l then l\<lparr>l_maxrows := rows\<rparr> else l)"

definition erase_bytes :: "nat \<Rightarrow> nat \<Rightarrow> bytes" where
  "erase_bytes old_rows rpos =
     (if old_rows > rpos then [27, 91] @ decimal (old_rows - rpos) @ [66] else [])
     @ concat (replicate (old_rows - 1) [13, 27, 91, 48, 75, 27, 91, 49, 65]) @ [13, 27, 91, 48, 75]"

definition cursor_bytes :: "nat \<Rightarrow> nat \<Rightarrow> nat \<Rightarrow> bytes" where
  "cursor_bytes rows rpos2 col =
     (if rows > rpos2 then [27, 91] @ decimal (rows - rpos2) @ [65] else [])
     @ (if col \<noteq> 0 then [13, 27, 91] @ decimal col @ [67] else [13])"

text \<open>The prompt and text fill the last row exactly, with the cursor at the end.\<close>

definition at_row_end :: "line_state \<Rightarrow> bool" where
  "at_row_end l \<longleftrightarrow> l_pos l \<noteq> 0 \<and> l_pos l = l_len l \<and> (l_pos l + l_plen l) mod l_cols l = 0"

definition refreshMultiLine :: "line_state \<Rightarrow> line_env \<Rightarrow> (line_state \<times> line_env) option" where
  "refreshMultiLine l e =
     (let plen = l_plen l; cols = l_cols l in
      if cols = 0 \<or> l_len l > length (l_buf l) then None
      else
        (let rows = (plen + l_len l + cols - 1) div cols;
             rpos = (plen + l_oldpos l + cols) div cols;
             old_rows = l_maxrows l;
             l1 = note_rows rows l in do {
           hint \<leftarrow> refreshShowHints l1 e;
           let rows2 = (if at_row_end l then rows + 1 else rows);
           let l2 = (if at_row_end l then note_rows rows2 l1 else l1);
           let rpos2 = (plen + l_pos l + cols) div cols;
           let bs = erase_bytes old_rows rpos @ l_prompt l @ take (l_len l) (l_buf l) @ hint
                    @ (if at_row_end l then [10, 13] else []) @ cursor_bytes rows2 rpos2 ((plen + l_pos l) mod cols);
           Some (l2\<lparr>l_oldpos := l_pos l2\<rparr>, snd (tty_write bs e))
         }))"

definition refreshLine :: "line_state \<Rightarrow> line_env \<Rightarrow> (line_state \<times> line_env) option" where
  "refreshLine l e = (if mlmode e then refreshMultiLine l e else refreshSingleLine l e)"

section \<open>Editing\<close>

type_synonym edit_op = "line_state \<Rightarrow> line_env \<Rightarrow> (line_state \<times> line_env) option"

text \<open>A store into the buffer, and \<open>memmove(buf+a, buf+b, n)\<close>.\<close>

definition buf_set :: "nat \<Rightarrow> u8 \<Rightarrow> bytes \<Rightarrow> bytes option" where
  "buf_set i c b = (if i < length b then Some (b[i := c]) else None)"

definition buf_move :: "nat \<Rightarrow> nat \<Rightarrow> nat \<Rightarrow> bytes \<Rightarrow> bytes option" where
  "buf_move a b n buf =
     (if a + n > length buf \<or> b + n > length buf then None else Some (splice buf a (slice buf b n)))"

text \<open>The first component of the result is the return value.\<close>

definition linenoiseEditInsert :: "u8 \<Rightarrow> line_state \<Rightarrow> line_env \<Rightarrow> (int \<times> line_state \<times> line_env) option" where
  "linenoiseEditInsert c l e =
     (if l_len l < l_buflen l then
        (if l_len l = l_pos l then do {
           b1 \<leftarrow> buf_set (l_pos l) c (l_buf l);
           b2 \<leftarrow> buf_set (l_len l + 1) 0 b1;
           let l1 = l\<lparr>l_buf := b2, l_pos := l_pos l + 1, l_len := l_len l + 1\<rparr>;
           if \<not> mlmode e \<and> l_plen l1 + l_len l1 < l_cols l1 \<and> hints e = None then
             (let (ok, e1) = tty_write [c] e in Some (if ok then 0 else -1, l1, e1))
           else map_option (Pair 0) (refreshLine l1 e)
         }
         else do {
           b1 \<leftarrow> buf_move (l_pos l + 1) (l_pos l) (l_len l - l_pos l) (l_buf l);
           b2 \<leftarrow> buf_set (l_pos l) c b1;
           b3 \<leftarrow> buf_set (l_len l + 1) 0 b2;
           map_option (Pair 0) (refreshLine (l\<lparr>l_buf := b3, l_pos := l_pos l + 1, l_len := l_len l + 1\<rparr>) e)
         })
      else Some (0, l, e))"

definition linenoiseEditMoveLeft :: edit_op where
  "linenoiseEditMoveLeft l e =
     (if l_pos l > 0 then refreshLine (l\<lparr>l_pos := l_pos l - 1\<rparr>) e else Some (l, e))"

definition linenoiseEditMoveRight :: edit_op where
  "linenoiseEditMoveRight l e =
     (if l_pos l \<noteq> l_len l then refreshLine (l\<lparr>l_pos := l_pos l + 1\<rparr>) e else Some (l, e))"

definition linenoiseEditMoveHome :: edit_op where
  "linenoiseEditMoveHome l e =
     (if l_pos l \<noteq> 0 then refreshLine (l\<lparr>l_pos := 0\<rparr>) e else Some (l, e))"

definition linenoiseEditMoveEnd :: edit_op where
  "linenoiseEditMoveEnd l e =
     (if l_pos l \<noteq> l_len l then refreshLine (l\<lparr>l_pos := l_len l\<rparr>) e else Some (l, e))"

text \<open>\<open>strncpy\<close> pads with 0 and the last byte is set to 0 afterwards.\<close>

definition load_entry :: "bytes \<Rightarrow> nat \<Rightarrow> bytes \<Rightarrow> bytes option" where
  "load_entry s n buf =
     (if n = 0 \<or> n > length buf then None
      else Some ((splice buf 0 (take n (s @ replicate n 0)))[n - 1 := 0]))"

definition linenoiseEditHistoryNext :: "bool \<Rightarrow> edit_op" where
  "linenoiseEditHistoryNext prev l e =
     (if length (history e) > 1 then do {
        cur \<leftarrow> cstr (l_buf l);
        let hlen = int (length (history e));
        let i = hlen - 1 - l_history_index l;
        if i < 0 \<or> i \<ge> hlen then None
        else do {
          let e1 = e\<lparr>history := (history e)[nat i := cur]\<rparr>;
          let j = l_history_index l + (if prev then 1 else -1);
          if j < 0 then Some (l\<lparr>l_history_index := 0\<rparr>, e1)
          else if j \<ge> hlen then Some (l\<lparr>l_history_index := hlen - 1\<rparr>, e1)
          else do {
            b \<leftarrow> load_entry (history e1 ! nat (hlen - 1 - j)) (l_buflen l) (l_buf l);
            s \<leftarrow> cstr b;
            refreshLine (l\<lparr>l_history_index := j, l_buf := b, l_pos := length s, l_len := length s\<rparr>) e1
          }
        }
      }
      else Some (l, e))"

definition linenoiseEditDelete :: edit_op where
  "linenoiseEditDelete l e =
     (if l_len l > 0 \<and> l_pos l < l_len l then do {
        b1 \<leftarrow> buf_move (l_pos l) (l_pos l + 1) (l_len l - l_pos l - 1) (l_buf l);
        b2 \<leftarrow> buf_set (l_len l - 1) 0 b1;
        refreshLine (l\<lparr>l_buf := b2, l_len := l_len l - 1\<rparr>) e
      }
      else Some (l, e))"

definition linenoiseEditBackspace :: edit_op where
  "linenoiseEditBackspace l e =
     (if l_pos l > 0 \<and> l_len l > 0 then do {
        b1 \<leftarrow> buf_move (l_pos l - 1) (l_pos l) (l_len l - l_pos l) (l_buf l);
        b2 \<leftarrow> buf_set (l_len l - 1) 0 b1;
        refreshLine (l\<lparr>l_buf := b2, l_pos := l_pos l - 1, l_len := l_len l - 1\<rparr>) e
      }
      else Some (l, e))"

text \<open>The two loops that move the cursor back, while the byte before it satisfies the condition.\<close>

fun back_while :: "(u8 \<Rightarrow> bool) \<Rightarrow> bytes \<Rightarrow> nat \<Rightarrow> nat" where
  "back_while P b 0 = 0"
| "back_while P b (Suc n) = (if P (b ! n) then back_while P b n else Suc n)"

definition linenoiseEditDeletePrevWord :: edit_op where
  "linenoiseEditDeletePrevWord l e =
     (let old_pos = l_pos l;
          p = back_while (\<lambda>c. c \<noteq> 32) (l_buf l) (back_while (\<lambda>c. c = 32) (l_buf l) old_pos) in do {
        b \<leftarrow> buf_move p old_pos (l_len l - old_pos + 1) (l_buf l);
        refreshLine (l\<lparr>l_buf := b, l_pos := p, l_len := l_len l - (old_pos - p)\<rparr>) e
      })"

section \<open>History\<close>

text \<open>The array of pointers is a list of at most \<open>history_max_len\<close> strings.\<close>

definition linenoiseHistoryAdd :: "bytes \<Rightarrow> line_env \<Rightarrow> int \<times> line_env" where
  "linenoiseHistoryAdd line e0 =
     (if history_max_len e0 = 0 then (0, e0)
      else
        (let e = e0\<lparr>history_alloc := True\<rparr> in
         if history e \<noteq> [] \<and> last (history e) = line then (0, e)
         else
           (let h = (if int (length (history e)) = history_max_len e then tl (history e) else history e)
            in (1, e\<lparr>history := h @ [line]\<rparr>))))"

definition linenoiseHistorySetMaxLen :: "int \<Rightarrow> line_env \<Rightarrow> int \<times> line_env" where
  "linenoiseHistorySetMaxLen len e =
     (if len < 1 then (0, e)
      else
        (let h = (if history_alloc e \<and> len < int (length (history e))
                  then drop (length (history e) - nat len) (history e) else history e)
         in (1, e\<lparr>history := take (nat len) h, history_max_len := len\<rparr>)))"

text \<open>\<open>return 0**filename\<close> is 0 times the first character.\<close>

definition linenoiseHistorySave :: "bytes \<Rightarrow> int" where
  "linenoiseHistorySave filename = 0 * int (unat (hd (filename @ [0])))"

text \<open>\<open>lines\<close> are what \<open>fgets\<close> returns, \<^term>\<open>None\<close> if the file cannot be opened.\<close>

definition strip_line :: "bytes \<Rightarrow> bytes" where
  "strip_line b = (if 13 \<in> set b then takeWhile (\<lambda>c. c \<noteq> 13) b else takeWhile (\<lambda>c. c \<noteq> 10) b)"

definition linenoiseHistoryLoad :: "bytes list option \<Rightarrow> line_env \<Rightarrow> int \<times> line_env" where
  "linenoiseHistoryLoad lines e =
     (case lines of
        None \<Rightarrow> (-1, e)
      | Some ls \<Rightarrow> (0, fold (\<lambda>b e. snd (linenoiseHistoryAdd (strip_line b) e)) ls e))"

section \<open>Completion\<close>

text \<open>The loop of \<open>completeLine\<close>; the result is the last byte read, or -1. A completion longer than the
  buffer is truncated by \<open>snprintf\<close>, which returns the full length all the same.\<close>

partial_function (option) complete_loop ::
  "bytes list \<Rightarrow> nat \<Rightarrow> line_state \<Rightarrow> line_env \<Rightarrow> (int \<times> line_state \<times> line_env) option" where
  "complete_loop cvec i ls e = do {
     (ls1, e1) \<leftarrow> (if i < length cvec then do {
          (l', e') \<leftarrow> refreshLine (ls\<lparr>l_buf := cvec ! i @ [0], l_len := length (cvec ! i),
                        l_pos := length (cvec ! i)\<rparr>) e;
          Some (l'\<lparr>l_buf := l_buf ls, l_len := l_len ls, l_pos := l_pos ls\<rparr>, e')
        }
        else refreshLine ls e);
     (case keys e1 of
        [] \<Rightarrow> Some (-1, ls1, e1)
      | c # ks \<Rightarrow>
          (let e2 = e1\<lparr>keys := ks\<rparr> in
           if c = TAB then
             (let j = (i + 1) mod (length cvec + 1)
              in complete_loop cvec j ls1 (if j = length cvec then linenoiseBeep e2 else e2))
           else if c = ESC then do {
             (ls2, e3) \<leftarrow> (if i < length cvec then refreshLine ls1 e2 else Some (ls1, e2));
             Some (int (unat c), ls2, e3)
           }
           else if i < length cvec then
             (let w = cvec ! i; n = l_buflen ls1 in
              if n = 0 then Some (int (unat c), ls1\<lparr>l_len := length w, l_pos := length w\<rparr>, e2)
              else if n > length (l_buf ls1) then None
              else Some (int (unat c), ls1\<lparr>l_buf := splice (l_buf ls1) 0 (take (n - 1) w @ [0]),
                     l_len := length w, l_pos := length w\<rparr>, e2))
           else Some (int (unat c), ls1, e2)))
   }"

definition completeLine ::
  "(bytes \<Rightarrow> bytes list) \<Rightarrow> line_state \<Rightarrow> line_env \<Rightarrow> (int \<times> line_state \<times> line_env) option" where
  "completeLine cb ls e = do {
     s \<leftarrow> cstr (l_buf ls);
     (let cvec = cb s in
      if cvec = [] then Some (0, ls, linenoiseBeep e) else complete_loop cvec 0 ls e)
   }"

definition linenoiseSetCompletionCallback :: "(bytes \<Rightarrow> bytes list) option \<Rightarrow> line_env \<Rightarrow> line_env" where
  "linenoiseSetCompletionCallback fn e = e\<lparr>completion := fn\<rparr>"

definition linenoiseSetHintsCallback :: "(bytes \<Rightarrow> bytes option \<times> int \<times> int) option \<Rightarrow> line_env \<Rightarrow> line_env" where
  "linenoiseSetHintsCallback fn e = e\<lparr>hints := fn\<rparr>"

definition linenoiseAddCompletion :: "bytes \<Rightarrow> bytes list \<Rightarrow> bytes list" where
  "linenoiseAddCompletion str lc = lc @ [str]"

section \<open>The key loop\<close>

text \<open>What a key does: it ends the edit with a return value, or the loop goes on.\<close>

datatype key_result = Done int | Loop

type_synonym key_step = "line_state \<Rightarrow> line_env \<Rightarrow> (key_result \<times> line_state \<times> line_env) option"

definition keep_editing :: "(line_state \<times> line_env) option \<Rightarrow> (key_result \<times> line_state \<times> line_env) option" where
  "keep_editing r = map_option (Pair Loop) r"

text \<open>Dropping the entry of the current line: with an empty history the index is -1.\<close>

definition drop_current :: "line_env \<Rightarrow> line_env option" where
  "drop_current e = (if history e = [] then None else Some (e\<lparr>history := butlast (history e)\<rparr>))"

definition key_enter :: key_step where
  "key_enter l e = do {
     e1 \<leftarrow> drop_current e;
     (l2, e2) \<leftarrow> (if mlmode e1 then linenoiseEditMoveEnd l e1 else Some (l, e1));
     (l3, e3) \<leftarrow> (if hints e2 \<noteq> None then
          map_option (\<lambda>(l', e'). (l', e'\<lparr>hints := hints e2\<rparr>)) (refreshLine l2 (e2\<lparr>hints := None\<rparr>))
        else Some (l2, e2));
     Some (Done (int (l_len l3)), l3, e3)
   }"

definition key_ctrl_d :: key_step where
  "key_ctrl_d l e =
     (if l_len l > 0 then keep_editing (linenoiseEditDelete l e)
      else do { e1 \<leftarrow> drop_current e; Some (Done (-1), l, e1) })"

definition key_ctrl_t :: key_step where
  "key_ctrl_t l e =
     (if l_pos l > 0 \<and> l_pos l < l_len l then do {
        (if l_pos l < length (l_buf l) then Some () else None);
        let aux = l_buf l ! (l_pos l - 1);
        let b = ((l_buf l)[l_pos l - 1 := l_buf l ! l_pos l])[l_pos l := aux];
        keep_editing (refreshLine (l\<lparr>l_buf := b,
          l_pos := (if l_pos l \<noteq> l_len l - 1 then l_pos l + 1 else l_pos l)\<rparr>) e)
      }
      else Some (Loop, l, e))"

definition key_ctrl_u :: key_step where
  "key_ctrl_u l e = do {
     b \<leftarrow> buf_set 0 0 (l_buf l);
     keep_editing (refreshLine (l\<lparr>l_buf := b, l_pos := 0, l_len := 0\<rparr>) e)
   }"

definition key_ctrl_k :: key_step where
  "key_ctrl_k l e = do {
     b \<leftarrow> buf_set (l_pos l) 0 (l_buf l);
     keep_editing (refreshLine (l\<lparr>l_buf := b, l_len := l_pos l\<rparr>) e)
   }"

text \<open>The bytes after an escape; at the end of the input \<open>read\<close> returns 0 and \<open>seq\<close> stays
  uninitialised.\<close>

definition key_escape :: key_step where
  "key_escape l e =
     (case keys e of
        s0 # s1 # ks \<Rightarrow>
          (let e1 = e\<lparr>keys := ks\<rparr> in
           if s0 = 91 then
             (if 48 \<le> s1 \<and> s1 \<le> 57 then
                (case ks of
                   [] \<Rightarrow> None
                 | s2 # ks' \<Rightarrow>
                     (let e2 = e1\<lparr>keys := ks'\<rparr> in
                      if s2 = 126 \<and> s1 = 51 then keep_editing (linenoiseEditDelete l e2)
                      else Some (Loop, l, e2)))
              else keep_editing
                (if s1 = 65 then linenoiseEditHistoryNext True l e1
                 else if s1 = 66 then linenoiseEditHistoryNext False l e1
                 else if s1 = 67 then linenoiseEditMoveRight l e1
                 else if s1 = 68 then linenoiseEditMoveLeft l e1
                 else if s1 = 72 then linenoiseEditMoveHome l e1
                 else if s1 = 70 then linenoiseEditMoveEnd l e1
                 else Some (l, e1)))
           else if s0 = 79 then keep_editing
                (if s1 = 72 then linenoiseEditMoveHome l e1
                 else if s1 = 70 then linenoiseEditMoveEnd l e1
                 else Some (l, e1))
           else Some (Loop, l, e1))
      | _ \<Rightarrow> None)"

definition edit_key :: "u8 \<Rightarrow> key_step" where
  "edit_key c l e =
     (if c = ENTER then key_enter l e
      else if c = CTRL_C then Some (Done (-1), l, e\<lparr>line_errno := Some EAGAIN\<rparr>)
      else if c = BACKSPACE \<or> c = CTRL_H then keep_editing (linenoiseEditBackspace l e)
      else if c = CTRL_D then key_ctrl_d l e
      else if c = CTRL_T then key_ctrl_t l e
      else if c = CTRL_B then keep_editing (linenoiseEditMoveLeft l e)
      else if c = CTRL_F then keep_editing (linenoiseEditMoveRight l e)
      else if c = CTRL_P then keep_editing (linenoiseEditHistoryNext True l e)
      else if c = CTRL_N then keep_editing (linenoiseEditHistoryNext False l e)
      else if c = ESC then key_escape l e
      else if c = CTRL_U then key_ctrl_u l e
      else if c = CTRL_K then key_ctrl_k l e
      else if c = CTRL_A then keep_editing (linenoiseEditMoveHome l e)
      else if c = CTRL_E then keep_editing (linenoiseEditMoveEnd l e)
      else if c = CTRL_L then keep_editing (refreshLine l (linenoiseClearScreen e))
      else if c = CTRL_W then keep_editing (linenoiseEditDeletePrevWord l e)
      else do {
        (r, l1, e1) \<leftarrow> linenoiseEditInsert c l e;
        Some (if r \<noteq> 0 then Done (-1) else Loop, l1, e1)
      })"

text \<open>The result of \<open>completeLine\<close> is stored in a \<open>char\<close>: -1 becomes 255, which is not negative.\<close>

partial_function (option) edit_loop :: "line_state \<Rightarrow> line_env \<Rightarrow> (int \<times> line_state \<times> line_env) option" where
  "edit_loop l e =
     (case keys e of
        [] \<Rightarrow> Some (int (l_len l), l, e)
      | c # ks \<Rightarrow> do {
          let e1 = e\<lparr>keys := ks\<rparr>;
          (c2, l2, e2) \<leftarrow> (case completion e1 of
               Some cb \<Rightarrow> if c = TAB then map_option (\<lambda>(r, s). (word_of_int r, s)) (completeLine cb l e1)
                          else Some (c, l, e1)
             | None \<Rightarrow> Some (c, l, e1));
          if c = TAB \<and> completion e1 \<noteq> None \<and> c2 = 0 then edit_loop l2 e2
          else do {
            (r, l3, e3) \<leftarrow> edit_key c2 l2 e2;
            (case r of Done v \<Rightarrow> Some (v, l3, e3) | Loop \<Rightarrow> edit_loop l3 e3)
          }
        })"

definition linenoiseEdit :: "bytes \<Rightarrow> nat \<Rightarrow> bytes \<Rightarrow> line_env \<Rightarrow> (int \<times> bytes \<times> line_env) option" where
  "linenoiseEdit buf buflen prompt e =
     (if buflen = 0 \<or> buflen > length buf then None
      else
        (let (cols, e1) = getColumns e;
             l = \<lparr>l_buf = buf[0 := 0], l_buflen = buflen - 1, l_prompt = prompt, l_plen = length prompt,
                  l_pos = 0, l_oldpos = 0, l_len = 0, l_cols = unat (word_of_int cols :: u32),
                  l_maxrows = 0, l_history_index = 0\<rparr>;
             (_, e2) = linenoiseHistoryAdd [] e1;
             (ok, e3) = tty_write prompt e2
         in if \<not> ok then Some (-1, l_buf l, e3)
            else map_option (\<lambda>(r, l', e'). (r, l_buf l', e')) (edit_loop l e3)))"

definition linenoiseRaw :: "bytes \<Rightarrow> nat \<Rightarrow> bytes \<Rightarrow> line_env \<Rightarrow> (int \<times> bytes \<times> line_env) option" where
  "linenoiseRaw buf buflen prompt e =
     (if buflen = 0 then Some (-1, buf, e\<lparr>line_errno := Some EINVAL\<rparr>)
      else do {
        (count, b, e1) \<leftarrow> linenoiseEdit buf buflen prompt e;
        Some (count, b, e1\<lparr>out := out e1 @ [[10]]\<rparr>)
      })"

definition LINENOISE_MAX_LINE :: nat where "LINENOISE_MAX_LINE = 4096"

text \<open>Input that is not a terminal: the bytes up to a new line, or a null pointer at the end of it.\<close>

definition linenoiseNoTTY :: "line_env \<Rightarrow> bytes option \<times> line_env" where
  "linenoiseNoTTY e =
     (let line = takeWhile (\<lambda>c. c \<noteq> 10) (keys e); rest = drop (length line) (keys e) in
      (if rest = [] \<and> line = [] then None else Some line, e\<lparr>keys := tl rest\<rparr>))"

text \<open>The result is a null pointer or the line as \<open>strdup\<close> copies it.\<close>

definition linenoise :: "(nat \<Rightarrow> u8) \<Rightarrow> bool \<Rightarrow> bytes \<Rightarrow> line_env \<Rightarrow> (bytes option \<times> line_env) option" where
  "linenoise junk isatty prompt e =
     (if \<not> isatty then Some (linenoiseNoTTY e)
      else do {
        (count, b, e1) \<leftarrow> linenoiseRaw (malloc_bytes junk LINENOISE_MAX_LINE) LINENOISE_MAX_LINE prompt e;
        if count = -1 then Some (None, e1) else do { s \<leftarrow> cstr b; Some (Some s, e1) }
      })"

section \<open>The text before and after the cursor\<close>

type_synonym zipper = "bytes \<times> bytes"

definition zip_insert :: "nat \<Rightarrow> u8 \<Rightarrow> zipper \<Rightarrow> zipper" where
  "zip_insert n c z = (case z of (b, a) \<Rightarrow> if length b + length a < n then (b @ [c], a) else (b, a))"
definition zip_left :: "zipper \<Rightarrow> zipper" where
  "zip_left z = (case z of (b, a) \<Rightarrow> if b = [] then (b, a) else (butlast b, last b # a))"
definition zip_right :: "zipper \<Rightarrow> zipper" where
  "zip_right z = (case z of (b, x # a) \<Rightarrow> (b @ [x], a) | (b, []) \<Rightarrow> (b, []))"
definition zip_home :: "zipper \<Rightarrow> zipper" where "zip_home z = ([], fst z @ snd z)"
definition zip_end :: "zipper \<Rightarrow> zipper" where "zip_end z = (fst z @ snd z, [])"
definition zip_delete :: "zipper \<Rightarrow> zipper" where "zip_delete z = (fst z, tl (snd z))"
definition zip_backspace :: "zipper \<Rightarrow> zipper" where "zip_backspace z = (butlast (fst z), snd z)"
definition zip_delete_word :: "zipper \<Rightarrow> zipper" where
  "zip_delete_word z = (rev (dropWhile (\<lambda>c. c \<noteq> 32) (dropWhile (\<lambda>c. c = 32) (rev (fst z)))), snd z)"
definition zip_swap :: "zipper \<Rightarrow> zipper" where
  "zip_swap z = (case z of
     (b, y # a) \<Rightarrow>
       if b = [] then z
       else if a = [] then (butlast b @ [y], [last b])
       else (butlast b @ [y, last b], a)
   | _ \<Rightarrow> z)"
definition zip_clear :: "zipper \<Rightarrow> zipper" where "zip_clear z = ([], [])"
definition zip_kill :: "zipper \<Rightarrow> zipper" where "zip_kill z = (fst z, [])"

text \<open>The state holds the text in a buffer of \<open>n\<close> bytes and a terminator.\<close>

definition holds :: "nat \<Rightarrow> zipper \<Rightarrow> line_state \<Rightarrow> bool" where
  "holds n z l \<longleftrightarrow> (case z of (b, a) \<Rightarrow>
     (\<exists>rest. l_buf l = b @ a @ 0 # rest) \<and> l_pos l = length b \<and> l_len l = length b + length a
     \<and> l_len l \<le> n \<and> l_buflen l = n \<and> n < length (l_buf l) \<and> l_plen l < l_cols l)"

text \<open>What editing leaves alone.\<close>

definition same_env :: "line_env \<Rightarrow> line_env \<Rightarrow> bool" where
  "same_env e e' \<longleftrightarrow> e\<lparr>out := []\<rparr> = e'\<lparr>out := []\<rparr>"

lemma same_env_simps:
  "same_env e e' \<Longrightarrow> keys e' = keys e \<and> history e' = history e \<and> hints e' = hints e
     \<and> completion e' = completion e \<and> wfail e' = wfail e \<and> mlmode e' = mlmode e"
  by (cases e, cases e') (simp add: same_env_def)

lemma same_env_refl [simp]: "same_env e e"
  by (simp add: same_env_def)

lemma same_env_tty_write [simp]: "same_env e (snd (tty_write bs e))"
  by (simp add: same_env_def tty_write_def)

lemma holds_rows [simp]:
  "holds n z (note_rows r l) = holds n z l" "holds n z (l\<lparr>l_oldpos := p\<rparr>) = holds n z l"
  by (simp_all add: holds_def note_rows_def)

lemma refresh_ok:
  assumes "holds n z l" and "hints e = None"
  shows "\<exists>l' e'. refreshLine l e = Some (l', e') \<and> holds n z l' \<and> same_env e e'"
proof (cases "mlmode e")
  case True
  have c: "l_cols l \<noteq> 0" "l_len l \<le> length (l_buf l)" using assms(1) by (auto simp: holds_def split: prod.splits)
  have "refreshShowHints l' e = Some []" for l' using assms(2) by (simp add: refreshShowHints_def)
  then show ?thesis
    using True c assms(1) by (simp add: refreshLine_def refreshMultiLine_def Let_def)
next
  case False
  have h: "refreshShowHints l e = Some []" using assms(2) by (simp add: refreshShowHints_def)
  have c: "l_plen l < l_cols l" "l_pos l \<le> l_len l" "l_len l \<le> length (l_buf l)"
    using assms(1) by (auto simp: holds_def)
  have k: "scroll_by l \<le> l_len l" using c by (auto simp: scroll_by_def)
  then have "scroll_by l + shown_len l \<le> length (l_buf l)" using c by (auto simp: shown_len_def Let_def)
  then show ?thesis
    using False h c k assms(1) by (simp add: refreshLine_def refreshSingleLine_def Let_def)
qed

lemma holdsI:
  assumes "l_buf l = b @ a @ 0 # rest" and "l_pos l = length b" and "l_len l = length b + length a"
    and "l_len l \<le> n" and "l_buflen l = n" and "n < length (l_buf l)" and "l_plen l < l_cols l"
  shows "holds n (b, a) l"
  using assms by (auto simp: holds_def)

lemma holdsE:
  assumes "holds n (b, a) l"
  obtains rest where "l_buf l = b @ a @ 0 # rest" "l_pos l = length b" "l_len l = length b + length a"
    "length b + length a \<le> n" "l_buflen l = n" "n \<le> length b + length a + length rest" "l_plen l < l_cols l"
  using assms by (auto simp: holds_def)

text \<open>An operation is correct when it has a result that holds the text of the specification.\<close>

definition edits :: "nat \<Rightarrow> zipper \<Rightarrow> line_env \<Rightarrow> (line_state \<times> line_env) option \<Rightarrow> bool" where
  "edits n z e r \<longleftrightarrow> (\<exists>l' e'. r = Some (l', e') \<and> holds n z l' \<and> same_env e e')"

lemma edits_refresh: "holds n z l \<Longrightarrow> hints e = None \<Longrightarrow> edits n z e (refreshLine l e)"
  using refresh_ok by (auto simp: edits_def)

lemma edits_stay: "holds n z l \<Longrightarrow> edits n z e (Some (l, e))"
  by (auto simp: edits_def)

lemma edits_left:
  assumes "holds n z l" and "hints e = None"
  shows "edits n (zip_left z) e (linenoiseEditMoveLeft l e)"
proof -
  obtain b a where z: "z = (b, a)" by (cases z)
  show ?thesis
  proof (cases b rule: rev_cases)
    case Nil
    then show ?thesis using assms z by (auto simp: linenoiseEditMoveLeft_def zip_left_def holds_def intro: edits_stay)
  next
    case (snoc b' x)
    then have "holds n (b', x # a) (l\<lparr>l_pos := l_pos l - 1\<rparr>)"
      using assms(1) z by (auto simp: holds_def)
    then show ?thesis using assms z snoc edits_refresh
      by (auto simp: linenoiseEditMoveLeft_def zip_left_def holds_def)
  qed
qed

lemma edits_right:
  assumes "holds n z l" and "hints e = None"
  shows "edits n (zip_right z) e (linenoiseEditMoveRight l e)"
proof -
  obtain b a where z: "z = (b, a)" by (cases z)
  show ?thesis
  proof (cases a)
    case Nil
    then show ?thesis using assms z by (auto simp: linenoiseEditMoveRight_def zip_right_def holds_def intro: edits_stay)
  next
    case (Cons x a')
    then have "holds n (b @ [x], a') (l\<lparr>l_pos := l_pos l + 1\<rparr>)"
      using assms(1) z by (auto simp: holds_def)
    then show ?thesis using assms z Cons edits_refresh
      by (auto simp: linenoiseEditMoveRight_def zip_right_def holds_def)
  qed
qed

lemma edits_home:
  assumes "holds n z l" and "hints e = None"
  shows "edits n (zip_home z) e (linenoiseEditMoveHome l e)"
proof -
  obtain b a where z: "z = (b, a)" by (cases z)
  have "holds n ([], b @ a) (l\<lparr>l_pos := 0\<rparr>)" using assms(1) z by (auto simp: holds_def)
  moreover have "l_pos l = 0 \<Longrightarrow> b = []" using assms(1) z by (auto simp: holds_def)
  ultimately show ?thesis using assms z edits_refresh
    by (auto simp: linenoiseEditMoveHome_def zip_home_def intro: edits_stay)
qed

lemma edits_end:
  assumes "holds n z l" and "hints e = None"
  shows "edits n (zip_end z) e (linenoiseEditMoveEnd l e)"
proof -
  obtain b a where z: "z = (b, a)" by (cases z)
  have "holds n (b @ a, []) (l\<lparr>l_pos := l_len l\<rparr>)" using assms(1) z by (auto simp: holds_def)
  moreover have "l_pos l = l_len l \<Longrightarrow> a = []" using assms(1) z by (auto simp: holds_def)
  ultimately show ?thesis using assms z edits_refresh
    by (auto simp: linenoiseEditMoveEnd_def zip_end_def intro: edits_stay)
qed

text \<open>Closing a gap of \<open>k\<close> bytes before the text \<open>a\<close>.\<close>

lemma close_gap:
  "splice (b @ g @ a @ ys) (length b) (slice (b @ g @ a @ ys) (length b + length g) (length a))
     = b @ a @ drop (length a) (g @ a @ ys)"
  by (simp add: splice_def slice_def)

lemma edits_delete:
  assumes "holds n z l" and "hints e = None"
  shows "edits n (zip_delete z) e (linenoiseEditDelete l e)"
proof -
  obtain b a where z: "z = (b, a)" by (cases z)
  obtain rest where h: "l_buf l = b @ a @ 0 # rest" "l_pos l = length b" "l_len l = length b + length a"
    "length b + length a \<le> n" "l_buflen l = n" "n \<le> length b + length a + length rest" "l_plen l < l_cols l"
    using assms(1) z by (auto elim: holdsE)
  show ?thesis
  proof (cases a)
    case Nil
    then show ?thesis using assms z h by (auto simp: linenoiseEditDelete_def zip_delete_def intro: edits_stay)
  next
    case (Cons x a')
    obtain y where y: "drop (length a') (x # a' @ 0 # rest) = y # 0 # rest"
      by (cases a' rule: rev_cases) auto
    have mv: "buf_move (l_pos l) (l_pos l + 1) (l_len l - l_pos l - 1) (l_buf l) = Some (b @ a' @ y # 0 # rest)"
      using h Cons y close_gap [of b "[x]" a' "0 # rest"] by (simp add: buf_move_def)
    have st: "buf_set (l_len l - 1) 0 (b @ a' @ y # 0 # rest) = Some (b @ a' @ 0 # 0 # rest)"
      using h(3) Cons by (simp add: buf_set_def list_update_append)
    have "holds n (b, a') (l\<lparr>l_buf := b @ a' @ 0 # 0 # rest, l_len := l_len l - 1\<rparr>)"
      using h Cons by (intro holdsI [where rest = "0 # rest"]) auto
    then show ?thesis using assms(2) z h(2,3) Cons mv st edits_refresh
      by (auto simp: linenoiseEditDelete_def zip_delete_def)
  qed
qed

lemma edits_backspace:
  assumes "holds n z l" and "hints e = None"
  shows "edits n (zip_backspace z) e (linenoiseEditBackspace l e)"
proof -
  obtain b a where z: "z = (b, a)" by (cases z)
  obtain rest where h: "l_buf l = b @ a @ 0 # rest" "l_pos l = length b" "l_len l = length b + length a"
    "length b + length a \<le> n" "l_buflen l = n" "n \<le> length b + length a + length rest" "l_plen l < l_cols l"
    using assms(1) z by (auto elim: holdsE)
  show ?thesis
  proof (cases b rule: rev_cases)
    case Nil
    then show ?thesis using assms z h by (auto simp: linenoiseEditBackspace_def zip_backspace_def intro: edits_stay)
  next
    case (snoc b' x)
    obtain y where y: "drop (length a) (x # a @ 0 # rest) = y # 0 # rest"
      by (cases a rule: rev_cases) auto
    have mv: "buf_move (l_pos l - 1) (l_pos l) (l_len l - l_pos l) (l_buf l) = Some (b' @ a @ y # 0 # rest)"
      using h snoc y close_gap [of b' "[x]" a "0 # rest"] by (simp add: buf_move_def)
    have st: "buf_set (l_len l - 1) 0 (b' @ a @ y # 0 # rest) = Some (b' @ a @ 0 # 0 # rest)"
      using h(3) snoc by (simp add: buf_set_def list_update_append)
    have "holds n (b', a) (l\<lparr>l_buf := b' @ a @ 0 # 0 # rest, l_pos := l_pos l - 1, l_len := l_len l - 1\<rparr>)"
      using h snoc by (intro holdsI [where rest = "0 # rest"]) auto
    then show ?thesis using assms(2) z h(2,3) snoc mv st edits_refresh
      by (auto simp: linenoiseEditBackspace_def zip_backspace_def)
  qed
qed

text \<open>The first component of an insertion is its return value.\<close>

lemma edits_insert:
  assumes "holds n z l" and "hints e = None" and "\<not> wfail e"
  shows "\<exists>l' e'. linenoiseEditInsert c l e = Some (0, l', e') \<and> holds n (zip_insert n c z) l' \<and> same_env e e'"
proof -
  obtain b a where z: "z = (b, a)" by (cases z)
  obtain rest where h: "l_buf l = b @ a @ 0 # rest" "l_pos l = length b" "l_len l = length b + length a"
    "length b + length a \<le> n" "l_buflen l = n" "n \<le> length b + length a + length rest" "l_plen l < l_cols l"
    using assms(1) z by (auto elim: holdsE)
  show ?thesis
  proof (cases "length b + length a < n")
    case False
    then show ?thesis using assms z h by (auto simp: linenoiseEditInsert_def zip_insert_def)
  next
    case True
    then obtain y ys where rest: "rest = y # ys" using h(6) by (cases rest) auto
    have zi: "zip_insert n c z = (b @ [c], a)" using z True by (simp add: zip_insert_def)
    show ?thesis
    proof (cases a)
      case Nil
      have b1: "buf_set (l_pos l) c (l_buf l) = Some (b @ c # y # ys)"
        using h(1,2) Nil rest by (simp add: buf_set_def)
      have b2: "buf_set (l_len l + 1) 0 (b @ c # y # ys) = Some (b @ c # 0 # ys)"
        using h(3) Nil by (simp add: buf_set_def list_update_append)
      let ?l = "l\<lparr>l_buf := b @ c # 0 # ys, l_pos := l_pos l + 1, l_len := l_len l + 1\<rparr>"
      have hl: "holds n (b @ [c], a) ?l" using h Nil rest True by (intro holdsI [where rest = ys]) auto
      obtain l' e' where r: "refreshLine ?l e = Some (l', e')" "holds n (b @ [c], a) l'" "same_env e e'"
        using refresh_ok [OF hl assms(2)] by blast
      obtain e1 where w: "tty_write [c] e = (True, e1)" "same_env e e1"
        using assms(3) same_env_tty_write [of e "[c]"] by (auto simp: tty_write_def)
      show ?thesis
      proof (cases "\<not> mlmode e \<and> l_plen l + (l_len l + 1) < l_cols l")
        case t: True
        then have "linenoiseEditInsert c l e = Some (0, ?l, e1)"
          using True h(2,3,5) Nil b1 b2 assms(2) w(1) by (simp add: linenoiseEditInsert_def Let_def)
        then show ?thesis using hl zi w(2) by auto
      next
        case f: False
        then have "linenoiseEditInsert c l e = Some (0, l', e')"
          using True h(2,3,5) Nil b1 b2 assms(2) r(1) by (auto simp: linenoiseEditInsert_def Let_def)
        then show ?thesis using r zi by auto
      qed
    next
      case (Cons x a')
      have b1: "buf_move (l_pos l + 1) (l_pos l) (l_len l - l_pos l) (l_buf l) = Some (b @ x # a @ y # ys)"
        using h(1-3) Cons rest by (simp add: buf_move_def splice_def slice_def)
      have b2: "buf_set (l_pos l) c (b @ x # a @ y # ys) = Some (b @ c # a @ y # ys)"
        using h(2) by (simp add: buf_set_def)
      have b3: "buf_set (l_len l + 1) 0 (b @ c # a @ y # ys) = Some (b @ c # a @ 0 # ys)"
        using h(3) by (simp add: buf_set_def list_update_append)
      let ?l = "l\<lparr>l_buf := b @ c # a @ 0 # ys, l_pos := l_pos l + 1, l_len := l_len l + 1\<rparr>"
      have hl: "holds n (b @ [c], a) ?l" using h rest True by (intro holdsI [where rest = ys]) auto
      obtain l' e' where r: "refreshLine ?l e = Some (l', e')" "holds n (b @ [c], a) l'" "same_env e e'"
        using refresh_ok [OF hl assms(2)] by blast
      have "l_len l \<noteq> l_pos l" using h(2,3) Cons by simp
      then have "linenoiseEditInsert c l e = Some (0, l', e')"
        using True h(3,5) b1 b2 b3 r(1) by (simp add: linenoiseEditInsert_def)
      then show ?thesis using r zi by auto
    qed
  qed
qed

lemma back_while_drop:
  "back_while P (b @ ys) (length b) = length (dropWhile P (rev b))"
proof (induction b arbitrary: ys rule: rev_induct)
  case (snoc x b)
  then show ?case using snoc.IH [of "x # ys"] by (simp add: nth_append)
qed simp

lemma edits_delete_word:
  assumes "holds n z l" and "hints e = None"
  shows "edits n (zip_delete_word z) e (linenoiseEditDeletePrevWord l e)"
proof -
  obtain b a where z: "z = (b, a)" by (cases z)
  obtain rest where h: "l_buf l = b @ a @ 0 # rest" "l_pos l = length b" "l_len l = length b + length a"
    "length b + length a \<le> n" "l_buflen l = n" "n \<le> length b + length a + length rest" "l_plen l < l_cols l"
    using assms(1) z by (auto elim: holdsE)
  define b1 where "b1 = rev (dropWhile (\<lambda>c. c = 32) (rev b))"
  define b2 where "b2 = rev (dropWhile (\<lambda>c. c \<noteq> 32) (rev b1))"
  have "\<exists>g1. rev b = g1 @ rev b1" unfolding b1_def by (metis rev_rev_ident takeWhile_dropWhile_id)
  then obtain g1 where "rev b = g1 @ rev b1" by blast
  then have g1: "b = b1 @ rev g1" by (metis rev_append rev_rev_ident)
  have "\<exists>g2. rev b1 = g2 @ rev b2" unfolding b2_def by (metis rev_rev_ident takeWhile_dropWhile_id)
  then obtain g2 where "rev b1 = g2 @ rev b2" by blast
  then have "b1 = b2 @ rev g2" by (metis rev_append rev_rev_ident)
  then obtain g where g: "b = b2 @ g" using g1 by auto
  have "back_while (\<lambda>c. c = 32) (l_buf l) (l_pos l) = length b1"
    using h(1,2) back_while_drop [of "\<lambda>c. c = 32" b] by (simp add: b1_def)
  moreover have "back_while (\<lambda>c. c \<noteq> 32) (l_buf l) (length b1) = length b2"
    using h(1) g1 back_while_drop [of "\<lambda>c. c \<noteq> 32" b1 "rev g1 @ a @ 0 # rest"] by (simp add: b2_def)
  ultimately have p: "back_while (\<lambda>c. c \<noteq> 32) (l_buf l) (back_while (\<lambda>c. c = 32) (l_buf l) (l_pos l)) = length b2"
    by simp
  let ?b = "b2 @ a @ 0 # drop (Suc (length a)) (g @ a @ 0 # rest)"
  have "buf_move (length b2) (l_pos l) (l_len l - l_pos l + 1) (l_buf l) = Some ?b"
    using h(1-3) g close_gap [of b2 g "a @ [0]" rest] by (simp add: buf_move_def)
  then have "linenoiseEditDeletePrevWord l e
      = refreshLine (l\<lparr>l_buf := ?b, l_pos := length b2, l_len := l_len l - (l_pos l - length b2)\<rparr>) e"
    using p by (simp add: linenoiseEditDeletePrevWord_def Let_def)
  moreover have "holds n (b2, a) (l\<lparr>l_buf := ?b, l_pos := length b2, l_len := l_len l - (l_pos l - length b2)\<rparr>)"
    using h g by (intro holdsI [where rest = "drop (Suc (length a)) (g @ a @ 0 # rest)"]) auto
  moreover have "zip_delete_word z = (b2, a)" by (simp add: zip_delete_word_def z b1_def b2_def)
  ultimately show ?thesis using assms(2) edits_refresh by simp
qed

lemma edits_swap:
  assumes "holds n z l" and "hints e = None"
  shows "\<exists>l' e'. key_ctrl_t l e = Some (Loop, l', e') \<and> holds n (zip_swap z) l' \<and> same_env e e'"
proof -
  obtain b a where z: "z = (b, a)" by (cases z)
  obtain rest where h: "l_buf l = b @ a @ 0 # rest" "l_pos l = length b" "l_len l = length b + length a"
    "length b + length a \<le> n" "l_buflen l = n" "n \<le> length b + length a + length rest" "l_plen l < l_cols l"
    using assms(1) z by (auto elim: holdsE)
  show ?thesis
  proof (cases "b = [] \<or> a = []")
    case True
    then have "zip_swap z = z" using z by (auto simp: zip_swap_def split: list.splits)
    then show ?thesis using assms(1) True h(2,3) by (auto simp: key_ctrl_t_def)
  next
    case False
    then obtain b' x y a' where ba: "b = b' @ [x]" "a = y # a'" by (metis neq_Nil_conv rev_exhaust)
    have upd: "((l_buf l)[l_pos l - 1 := l_buf l ! l_pos l])[l_pos l := l_buf l ! (l_pos l - 1)]
        = b' @ y # x # a' @ 0 # rest"
      using h(1,2) ba by (simp add: nth_append list_update_append)
    let ?z = "if a' = [] then (b' @ [y], [x]) else (b' @ [y, x], a')"
    let ?l = "l\<lparr>l_buf := b' @ y # x # a' @ 0 # rest,
        l_pos := (if l_pos l \<noteq> l_len l - 1 then l_pos l + 1 else l_pos l)\<rparr>"
    have zs: "zip_swap z = ?z" using z ba by (simp add: zip_swap_def)
    have hl: "holds n ?z ?l" using h ba by (cases a') (auto simp: holds_def)
    obtain l' e' where r: "refreshLine ?l e = Some (l', e')" "holds n ?z l'" "same_env e e'"
      using refresh_ok [OF hl assms(2)] by blast
    have "l_pos l > 0 \<and> l_pos l < l_len l" "l_pos l < length (l_buf l)" using h(1-3) ba by auto
    then have "key_ctrl_t l e = Some (Loop, l', e')"
      using upd r(1) by (simp add: key_ctrl_t_def keep_editing_def Let_def)
    then show ?thesis using r zs by auto
  qed
qed

lemma edits_clear:
  assumes "holds n z l" and "hints e = None"
  shows "\<exists>l' e'. key_ctrl_u l e = Some (Loop, l', e') \<and> holds n (zip_clear z) l' \<and> same_env e e'"
proof -
  obtain b a rest where h: "l_buf l = b @ a @ 0 # rest" "l_buflen l = n" "n < length (l_buf l)" "l_plen l < l_cols l"
    using assms(1) by (auto simp: holds_def split: prod.splits)
  obtain y ys where ys: "l_buf l = y # ys" using h(3) by (cases "l_buf l") auto
  have hl: "holds n ([], []) (l\<lparr>l_buf := 0 # ys, l_pos := 0, l_len := 0\<rparr>)"
    using h(2-4) ys by (simp add: holds_def)
  show ?thesis
    using refresh_ok [OF hl assms(2)] ys
    by (auto simp: key_ctrl_u_def buf_set_def keep_editing_def zip_clear_def)
qed

lemma edits_kill:
  assumes "holds n z l" and "hints e = None"
  shows "\<exists>l' e'. key_ctrl_k l e = Some (Loop, l', e') \<and> holds n (zip_kill z) l' \<and> same_env e e'"
proof -
  obtain b a where z: "z = (b, a)" by (cases z)
  obtain rest where h: "l_buf l = b @ a @ 0 # rest" "l_pos l = length b" "l_len l = length b + length a"
    "length b + length a \<le> n" "l_buflen l = n" "n \<le> length b + length a + length rest" "l_plen l < l_cols l"
    using assms(1) z by (auto elim: holdsE)
  obtain ys where ys: "buf_set (l_pos l) 0 (l_buf l) = Some (b @ 0 # ys)" "length ys = length a + length rest"
    using h(1,2) by (cases a) (auto simp: buf_set_def)
  have hl: "holds n (b, []) (l\<lparr>l_buf := b @ 0 # ys, l_len := l_pos l\<rparr>)"
    using h ys(2) by (intro holdsI [where rest = ys]) auto
  show ?thesis
    using refresh_ok [OF hl assms(2)] ys(1) z by (auto simp: key_ctrl_k_def keep_editing_def zip_kill_def)
qed

section \<open>The specification of the keys\<close>

text \<open>Single keys; \<^term>\<open>None\<close> for those that end the edit, walk the history or start a sequence.\<close>

definition zip_key :: "nat \<Rightarrow> u8 \<Rightarrow> zipper \<Rightarrow> zipper option" where
  "zip_key n c z =
     (if c = ENTER \<or> c = CTRL_C \<or> c = CTRL_P \<or> c = CTRL_N \<or> c = ESC \<or> c = 0 then None
      else if c = BACKSPACE \<or> c = CTRL_H then Some (zip_backspace z)
      else if c = CTRL_D then (if z = ([], []) then None else Some (zip_delete z))
      else if c = CTRL_T then Some (zip_swap z)
      else if c = CTRL_B then Some (zip_left z)
      else if c = CTRL_F then Some (zip_right z)
      else if c = CTRL_U then Some (zip_clear z)
      else if c = CTRL_K then Some (zip_kill z)
      else if c = CTRL_A then Some (zip_home z)
      else if c = CTRL_E then Some (zip_end z)
      else if c = CTRL_L then Some z
      else if c = CTRL_W then Some (zip_delete_word z)
      else Some (zip_insert n c z))"

text \<open>The arrow, home, end and delete sequences.\<close>

definition zip_escape :: "u8 \<Rightarrow> zipper \<Rightarrow> zipper option" where
  "zip_escape c z =
     (if c = 67 then Some (zip_right z) else if c = 68 then Some (zip_left z)
      else if c = 72 then Some (zip_home z) else if c = 70 then Some (zip_end z) else None)"

fun zip_keys :: "nat \<Rightarrow> bytes \<Rightarrow> zipper \<Rightarrow> zipper option" where
  "zip_keys n [] z = Some z"
| "zip_keys n (c # ks) z =
     (if c = ESC then
        (case ks of
           s0 # s1 # ks' \<Rightarrow>
             if s0 = 91 then
               (if s1 = 51 then (case ks' of s2 # ks'' \<Rightarrow> if s2 = 126 then zip_keys n ks'' (zip_delete z) else None
                                 | [] \<Rightarrow> None)
                else do { z' \<leftarrow> zip_escape s1 z; zip_keys n ks' z' })
             else None
         | _ \<Rightarrow> None)
      else do { z' \<leftarrow> zip_key n c z; zip_keys n ks z' })"

lemma keep_editing_edits:
  "edits n z e r \<Longrightarrow> \<exists>l' e'. keep_editing r = Some (Loop, l', e') \<and> holds n z l' \<and> same_env e e'"
  by (auto simp: edits_def keep_editing_def)

lemma same_env_trans: "same_env e e' \<Longrightarrow> same_env e' e'' \<Longrightarrow> same_env e e''"
  by (simp add: same_env_def)

lemma edit_key_ok:
  assumes "holds n z l" and "hints e = None" and "\<not> wfail e" and "zip_key n c z = Some z'"
  shows "\<exists>l' e'. edit_key c l e = Some (Loop, l', e') \<and> holds n z' l' \<and> same_env e e'"
proof -
  have d: "l_len l = 0 \<longleftrightarrow> z = ([], [])" using assms(1) by (auto simp: holds_def split: prod.splits)
  have cd: "key_ctrl_d l e = keep_editing (linenoiseEditDelete l e)" if "z \<noteq> ([], [])"
    using that d by (simp add: key_ctrl_d_def)
  have scr: "edits n z e (refreshLine l (linenoiseClearScreen e))"
  proof -
    let ?e = "linenoiseClearScreen e"
    have e: "same_env e ?e" by (simp add: linenoiseClearScreen_def)
    then have "hints ?e = None" using same_env_simps assms(2) by metis
    then obtain l' e' where "refreshLine l ?e = Some (l', e')" "holds n z l'" "same_env ?e e'"
      using refresh_ok [OF assms(1)] by blast
    then show ?thesis using same_env_trans [OF e] by (auto simp: edits_def)
  qed
  have ins: "c \<noteq> ENTER \<Longrightarrow> \<exists>l' e'. (do { (r, l1, e1) \<leftarrow> linenoiseEditInsert c l e;
        Some (if r \<noteq> 0 then Done (-1) else Loop, l1, e1) }) = Some (Loop, l', e')
        \<and> holds n (zip_insert n c z) l' \<and> same_env e e'"
    using edits_insert [OF assms(1-3), of c] by auto
  note ops = keep_editing_edits [OF edits_backspace [OF assms(1,2)]] keep_editing_edits [OF edits_delete [OF assms(1,2)]]
    keep_editing_edits [OF edits_left [OF assms(1,2)]] keep_editing_edits [OF edits_right [OF assms(1,2)]]
    keep_editing_edits [OF edits_home [OF assms(1,2)]] keep_editing_edits [OF edits_end [OF assms(1,2)]]
    keep_editing_edits [OF edits_delete_word [OF assms(1,2)]] keep_editing_edits [OF scr]
    edits_swap [OF assms(1,2)] edits_clear [OF assms(1,2)] edits_kill [OF assms(1,2)]
  have c0: "\<not> (c = ENTER \<or> c = CTRL_C \<or> c = CTRL_P \<or> c = CTRL_N \<or> c = ESC \<or> c = 0)"
    using assms(4) by (auto simp: zip_key_def)
  consider "c = BACKSPACE \<or> c = CTRL_H" | "c = CTRL_D" | "c = CTRL_T" | "c = CTRL_B" | "c = CTRL_F" | "c = CTRL_U"
    | "c = CTRL_K" | "c = CTRL_A" | "c = CTRL_E" | "c = CTRL_L" | "c = CTRL_W"
    | "c \<noteq> BACKSPACE" "c \<noteq> CTRL_H" "c \<noteq> CTRL_D" "c \<noteq> CTRL_T" "c \<noteq> CTRL_B" "c \<noteq> CTRL_F" "c \<noteq> CTRL_U"
      "c \<noteq> CTRL_K" "c \<noteq> CTRL_A" "c \<noteq> CTRL_E" "c \<noteq> CTRL_L" "c \<noteq> CTRL_W"
    by blast
  then show ?thesis
  proof cases
    case 1
    then show ?thesis using assms(4) ops(1) by (auto simp: edit_key_def zip_key_def key_codes)
  next
    case 2
    then have "z \<noteq> ([], [])" "z' = zip_delete z"
      using assms(4) by (auto simp: zip_key_def key_codes split: if_splits)
    then show ?thesis using ops(2) cd 2 by (simp add: edit_key_def key_codes)
  next
    case 12
    then have "z' = zip_insert n c z" using assms(4) c0 by (simp add: zip_key_def)
    then show ?thesis using 12 c0 ins by (simp add: edit_key_def)
  qed (use assms(4) ops in \<open>simp add: edit_key_def zip_key_def key_codes\<close>)+
qed

lemma key_escape_ok:
  assumes "holds n z l" and "hints e = None" and "keys e = 91 # s1 # ks" and "zip_escape s1 z = Some z'"
  shows "\<exists>l' e'. edit_key ESC l e = Some (Loop, l', e') \<and> holds n z' l' \<and> same_env (e\<lparr>keys := ks\<rparr>) e'"
proof -
  let ?e = "e\<lparr>keys := ks\<rparr>"
  have h: "hints ?e = None" using assms(2) by simp
  note ops = keep_editing_edits [OF edits_left [OF assms(1) h]] keep_editing_edits [OF edits_right [OF assms(1) h]]
    keep_editing_edits [OF edits_home [OF assms(1) h]] keep_editing_edits [OF edits_end [OF assms(1) h]]
  have "edit_key ESC l e = key_escape l e" by (simp add: edit_key_def key_codes)
  moreover consider "s1 = 67" | "s1 = 68" | "s1 = 72" | "s1 = 70"
    using assms(4) by (auto simp: zip_escape_def split: if_splits)
  then have "\<exists>l' e'. key_escape l e = Some (Loop, l', e') \<and> holds n z' l' \<and> same_env ?e e'"
    by cases (use assms(3,4) ops in \<open>simp add: key_escape_def zip_escape_def word_le_nat_alt\<close>)+
  ultimately show ?thesis by simp
qed

lemma key_escape_delete_ok:
  assumes "holds n z l" and "hints e = None" and "keys e = 91 # 51 # 126 # ks"
  shows "\<exists>l' e'. edit_key ESC l e = Some (Loop, l', e') \<and> holds n (zip_delete z) l' \<and> same_env (e\<lparr>keys := ks\<rparr>) e'"
proof -
  let ?e = "e\<lparr>keys := ks\<rparr>"
  have "hints ?e = None" using assms(2) by simp
  from keep_editing_edits [OF edits_delete [OF assms(1) this]] show ?thesis
    using assms(3) by (simp add: edit_key_def key_escape_def key_codes word_le_nat_alt)
qed

text \<open>Completion does not interfere: there is no callback, or the TAB key is not pressed.\<close>

definition no_completion :: "line_env \<Rightarrow> bytes \<Rightarrow> bool" where
  "no_completion e ks \<longleftrightarrow> completion e = None \<or> TAB \<notin> set ks"

lemma edit_loop_step:
  assumes "keys e = c # ks" and "no_completion e [c]"
    and "edit_key c l (e\<lparr>keys := ks\<rparr>) = Some (Loop, l1, e1)"
  shows "edit_loop l e = edit_loop l1 e1"
  using assms by (subst edit_loop.simps) (cases "completion e", auto simp: no_completion_def Let_def)

text \<open>The keys \<open>ks\<close> take the state to one that holds the specified text, whatever follows.\<close>

lemma edit_loop_keys:
  assumes "zip_keys n ks z = Some z'" and "holds n z l" and "hints e = None" and "no_completion e ks"
    and "\<not> wfail e" and "keys e = ks @ rest_keys"
  shows "\<exists>l' e'. edit_loop l e = edit_loop l' e' \<and> holds n z' l' \<and> same_env (e\<lparr>keys := rest_keys\<rparr>) e'"
  using assms
proof (induction n ks z arbitrary: l e rule: zip_keys.induct)
  case (1 n z)
  then have "same_env (e\<lparr>keys := rest_keys\<rparr>) e" by (cases e) (simp add: same_env_def)
  then show ?case using 1 by (intro exI [of _ l] exI [of _ e]) simp
next
  case (2 n c ks z)
  have go: ?case
    if step: "edit_key c l (e\<lparr>keys := ks @ rest_keys\<rparr>) = Some (Loop, l1, e1)" "holds n z1 l1"
      "same_env (e\<lparr>keys := ks2 @ rest_keys\<rparr>) e1"
    and sub: "set ks2 \<subseteq> set ks"
    and IH: "\<And>l e. holds n z1 l \<Longrightarrow> hints e = None \<Longrightarrow> no_completion e ks2 \<Longrightarrow> \<not> wfail e \<Longrightarrow>
      keys e = ks2 @ rest_keys \<Longrightarrow> \<exists>l' e'. edit_loop l e = edit_loop l' e' \<and> holds n z' l' \<and> same_env (e\<lparr>keys := rest_keys\<rparr>) e'"
    for l1 e1 z1 ks2
  proof -
    have e1: "hints e1 = None" "no_completion e1 ks2" "\<not> wfail e1" "keys e1 = ks2 @ rest_keys"
      using same_env_simps [OF step(3)] 2(6-8) sub by (auto simp: no_completion_def)
    obtain l' e' where r: "edit_loop l1 e1 = edit_loop l' e'" "holds n z' l'" "same_env (e1\<lparr>keys := rest_keys\<rparr>) e'"
      using IH [OF step(2) e1] by blast
    have "same_env (e\<lparr>keys := rest_keys\<rparr>) (e1\<lparr>keys := rest_keys\<rparr>)"
      using step(3) by (cases e, cases e1) (simp add: same_env_def)
    then have "same_env (e\<lparr>keys := rest_keys\<rparr>) e'" using r(3) same_env_trans by blast
    moreover have "edit_loop l e = edit_loop l1 e1"
      using edit_loop_step [of e c "ks @ rest_keys"] 2(7,9) step(1) unfolding no_completion_def by auto
    ultimately show ?thesis using r by metis
  qed
  let ?e = "e\<lparr>keys := ks @ rest_keys\<rparr>"
  have h: "hints ?e = None" "\<not> wfail ?e" using 2 by simp_all
  show ?case
  proof (cases "c = ESC")
    case False
    then obtain z1 where z1: "zip_key n c z = Some z1" "zip_keys n ks z1 = Some z'"
      using 2(4) by (auto split: Option.bind_splits)
    obtain l1 e1 where st: "edit_key c l ?e = Some (Loop, l1, e1)" "holds n z1 l1" "same_env ?e e1"
      using edit_key_ok [OF 2(5) h z1(1)] by blast
    show ?thesis using go [OF st subset_refl] 2(3) [OF False z1(1) z1(2)] by blast
  next
    case True
    then obtain s1 ks' where ks: "ks = 91 # s1 # ks'"
      using 2(4) by (auto split: list.splits if_splits)
    show ?thesis
    proof (cases "s1 = 51")
      case t: True
      then obtain ks'' where ks'': "ks' = 126 # ks''" "zip_keys n ks'' (zip_delete z) = Some z'"
        using 2(4) True ks by (auto split: list.splits if_splits)
      obtain l1 e1 where st: "edit_key c l ?e = Some (Loop, l1, e1)" "holds n (zip_delete z) l1"
          "same_env (e\<lparr>keys := ks'' @ rest_keys\<rparr>) e1"
        using key_escape_delete_ok [OF 2(5) h(1), of "ks'' @ rest_keys"] ks ks'' t True by auto
      have "set ks'' \<subseteq> set ks" using ks ks''(1) by auto
      then show ?thesis using go [OF st] 2(1) [OF True ks refl refl t ks''(1) refl] ks'' by blast
    next
      case f: False
      then obtain z1 where z1: "zip_escape s1 z = Some z1" "zip_keys n ks' z1 = Some z'"
        using 2(4) True ks by (auto split: Option.bind_splits)
      obtain l1 e1 where st: "edit_key c l ?e = Some (Loop, l1, e1)" "holds n z1 l1"
          "same_env (e\<lparr>keys := ks' @ rest_keys\<rparr>) e1"
        using key_escape_ok [OF 2(5) h(1) _ z1(1), of "ks' @ rest_keys"] ks True by auto
      have "set ks' \<subseteq> set ks" using ks by auto
      then show ?thesis using go [OF st] 2(2) [OF True ks refl refl f z1(1)] z1 by blast
    qed
  qed
qed

text \<open>The enter key.\<close>

lemma edit_loop_enter:
  assumes "holds n (b, a) l" and "hints e = None" and "keys e = ENTER # rest_keys"
    and "history e \<noteq> []"
  shows "\<exists>l' e'. edit_loop l e = Some (int (length (b @ a)), l', e') \<and> (\<exists>rest. l_buf l' = b @ a @ 0 # rest)
    \<and> same_env (e\<lparr>keys := rest_keys, history := butlast (history e)\<rparr>) e'"
proof -
  let ?e = "e\<lparr>keys := rest_keys, history := butlast (history e)\<rparr>"
  have h: "hints ?e = None" using assms(2) by simp
  have drop: "drop_current (e\<lparr>keys := rest_keys\<rparr>) = Some ?e" using assms(4) by (simp add: drop_current_def)
  have len: "l_len l = length b + length a" using assms(1) by (simp add: holds_def)
  obtain l' e' where k: "key_enter l (e\<lparr>keys := rest_keys\<rparr>) = Some (Done (int (length (b @ a))), l', e')"
      "same_env ?e e'" "\<exists>rest. l_buf l' = b @ a @ 0 # rest"
  proof (cases "mlmode e")
    case True
    obtain l' e' where r: "linenoiseEditMoveEnd l ?e = Some (l', e')" "holds n (b @ a, []) l'" "same_env ?e e'"
      using edits_end [OF assms(1) h] by (auto simp: edits_def zip_end_def)
    then have "hints e' = None" "l_len l' = length (b @ a)"
      using same_env_simps [OF r(3)] h by (auto simp: holds_def)
    then have "key_enter l (e\<lparr>keys := rest_keys\<rparr>) = Some (Done (int (length (b @ a))), l', e')"
      using True drop r(1) by (simp add: key_enter_def)
    then show thesis using r that by (auto simp: holds_def)
  next
    case False
    then have "key_enter l (e\<lparr>keys := rest_keys\<rparr>) = Some (Done (int (length (b @ a))), l, ?e)"
      using drop h len by (simp add: key_enter_def)
    moreover have "\<exists>rest. l_buf l = b @ a @ 0 # rest" using assms(1) by (simp add: holds_def)
    ultimately show thesis using that same_env_refl by blast
  qed
  have "edit_key ENTER l (e\<lparr>keys := rest_keys\<rparr>) = key_enter l (e\<lparr>keys := rest_keys\<rparr>)" by (simp add: edit_key_def)
  then have "edit_loop l e = Some (int (length (b @ a)), l', e')"
    using assms(3) k(1) by (subst edit_loop.simps) (cases "completion e", simp_all add: key_codes Let_def)
  then show ?thesis using k by blast
qed

section \<open>History and columns\<close>

definition latest :: "nat \<Rightarrow> 'a list \<Rightarrow> 'a list" where
  "latest m xs = drop (length xs - m) xs"

lemma remdups_adj_snoc:
  "remdups_adj (xs @ [x]) = (if xs \<noteq> [] \<and> last xs = x then remdups_adj xs else remdups_adj xs @ [x])"
  by (induction xs rule: remdups_adj.induct) auto

lemma history_add_latest:
  assumes "0 < history_max_len e" and "history e = []"
  shows "let e' = fold (\<lambda>s e. snd (linenoiseHistoryAdd s e)) ls e
     in history e' = latest (nat (history_max_len e)) (remdups_adj ls) \<and> history_max_len e' = history_max_len e"
proof (induction ls rule: rev_induct)
  case Nil
  then show ?case using assms by (simp add: latest_def)
next
  case (snoc x ls)
  define e1 where "e1 = fold (\<lambda>s e. snd (linenoiseHistoryAdd s e)) ls e"
  define m where "m = nat (history_max_len e)"
  have m: "0 < m" "history_max_len e1 = int m" and h: "history e1 = latest m (remdups_adj ls)"
    using snoc assms(1) by (simp_all add: e1_def m_def Let_def)
  have l: "history e1 \<noteq> [] \<and> last (history e1) = x \<longleftrightarrow> ls \<noteq> [] \<and> last ls = x"
  proof (cases "ls = []")
    case False
    then have "0 < length (remdups_adj ls)" by simp
    then have "length (remdups_adj ls) - m < length (remdups_adj ls)" using m(1) by linarith
    then show ?thesis using h False by (auto simp: latest_def last_drop last_remdups_adj)
  qed (use h in \<open>simp add: latest_def\<close>)
  have len: "length (history e1) = min m (length (remdups_adj ls))"
    using h by (auto simp: latest_def)
  have "history (snd (linenoiseHistoryAdd x e1)) = latest m (remdups_adj (ls @ [x]))"
  proof (cases "ls \<noteq> [] \<and> last ls = x")
    case True
    then show ?thesis using l h m by (simp add: linenoiseHistoryAdd_def Let_def remdups_adj_snoc)
  next
    case False
    show ?thesis
    proof (cases "length (history e1) = m")
      case True
      then have "tl (history e1) @ [x] = latest m (remdups_adj ls @ [x])"
        using h len m(1) by (auto simp: latest_def tl_drop drop_Suc [symmetric] Suc_diff_le)
      then show ?thesis using False l True m by (auto simp: linenoiseHistoryAdd_def Let_def remdups_adj_snoc)
    next
      case f: False
      then have "history e1 @ [x] = latest m (remdups_adj ls @ [x])"
        using h len by (auto simp: latest_def)
      then show ?thesis using False l f m by (auto simp: linenoiseHistoryAdd_def Let_def remdups_adj_snoc)
    qed
  qed
  moreover have "history_max_len (snd (linenoiseHistoryAdd x e1)) = history_max_len e1"
    by (simp add: linenoiseHistoryAdd_def Let_def)
  ultimately show ?case using m(2) assms(1) by (simp add: e1_def m_def Let_def)
qed

lemma history_add_env [simp]:
  "wfail (snd (linenoiseHistoryAdd s e)) = wfail e" "hints (snd (linenoiseHistoryAdd s e)) = hints e"
  "completion (snd (linenoiseHistoryAdd s e)) = completion e" "keys (snd (linenoiseHistoryAdd s e)) = keys e"
  by (simp_all add: linenoiseHistoryAdd_def Let_def)

lemma history_add_cong:
  "history e = history e' \<Longrightarrow> history_max_len e = history_max_len e' \<Longrightarrow>
   history (snd (linenoiseHistoryAdd s e)) = history (snd (linenoiseHistoryAdd s e'))"
  by (simp add: linenoiseHistoryAdd_def Let_def)

text \<open>All but the input and the output.\<close>

definition env_view :: "line_env \<Rightarrow> line_env" where
  "env_view e = e\<lparr>keys := [], out := []\<rparr>"

lemma env_view_tty_write [simp]: "env_view (snd (tty_write bs e)) = env_view e"
  by (simp add: env_view_def tty_write_def)

lemma env_view_cursor [simp]: "env_view (snd (getCursorPosition e)) = env_view e"
proof -
  have "env_view (e\<lparr>keys := ks\<rparr>) = env_view e" for ks e by (simp add: env_view_def)
  then show ?thesis using env_view_tty_write [of "[27, 91, 54, 110]" e]
    by (auto simp: getCursorPosition_def split_beta Let_def split: list.splits)
qed

lemma getColumns_env:
  "wfail (snd (getColumns e)) = wfail e \<and> hints (snd (getColumns e)) = hints e
   \<and> completion (snd (getColumns e)) = completion e \<and> history (snd (getColumns e)) = history e
   \<and> history_max_len (snd (getColumns e)) = history_max_len e"
proof -
  have "env_view (snd (getColumns e)) = env_view e" by (simp add: getColumns_def split_beta Let_def)
  then show ?thesis
    by (cases e, cases "snd (getColumns e)") (simp add: env_view_def)
qed

section \<open>Properties\<close>

text \<open>C39: The line editor on a terminal, with any completion callback as long as the TAB key is not
  pressed (with none if it is): for any keys that insert, move the cursor (also by arrow sequences),
  swap, delete or kill, followed by the enter key, \<open>linenoise\<close> returns the text that the same keys make
  of an empty text with a cursor, of at most 4095 bytes, none of them zero; it consumes those keys
  only, and the entry of the current line has left the history. The conditions: there is no hints
  callback (the repository installs none), the prompt is narrower than the terminal, writing to the
  terminal succeeds and the history is not switched off by a maximal length of 0.\<close>

theorem linenoise_returns_edited_line:
  assumes "zip_keys (LINENOISE_MAX_LINE - 1) ks ([], []) = Some (b, a)" and "0 \<notin> set (b @ a)"
    and "fst (getColumns e) = int cols" and "cols < 2 ^ 32" and "length prompt < cols"
    and "keys (snd (getColumns e)) = ks @ ENTER # rest_keys"
    and "hints e = None" and "completion e = None \<or> TAB \<notin> set ks" and "\<not> wfail e" and "0 < history_max_len e"
  shows "\<exists>e'. linenoise junk True prompt e = Some (Some (b @ a), e') \<and> keys e' = rest_keys
    \<and> history e' = butlast (history (snd (linenoiseHistoryAdd [] e)))"
proof -
  let ?n = "LINENOISE_MAX_LINE - 1" and ?buf = "malloc_bytes junk LINENOISE_MAX_LINE"
  define e1 where "e1 = snd (getColumns e)"
  define e2 where "e2 = snd (linenoiseHistoryAdd [] e1)"
  define e3 where "e3 = snd (tty_write prompt e2)"
  have e3: "tty_write prompt e2 = (True, e3)" "same_env e2 e3"
    using assms(9) getColumns_env [of e] by (simp_all add: e3_def e2_def e1_def tty_write_def same_env_def)
  have "history e2 = history (snd (linenoiseHistoryAdd [] e))"
    unfolding e2_def e1_def using getColumns_env [of e] by (intro history_add_cong) simp_all
  then have env: "hints e3 = None" "no_completion e3 ks" "\<not> wfail e3" "keys e3 = ks @ ENTER # rest_keys"
      "history e3 = history (snd (linenoiseHistoryAdd [] e))"
    using same_env_simps [OF e3(2)] getColumns_env [of e] assms(6-9)
    by (simp_all add: e2_def e1_def no_completion_def)
  have hist: "history e3 \<noteq> []" using env(5) assms(10) by (auto simp: linenoiseHistoryAdd_def Let_def)
  have cols: "unat (word_of_int (int cols) :: u32) = cols" using assms(4) by (rule unat_word_of_int_nat)
  let ?l = "\<lparr>l_buf = ?buf[0 := 0], l_buflen = ?n, l_prompt = prompt, l_plen = length prompt,
      l_pos = 0, l_oldpos = 0, l_len = 0, l_cols = cols, l_maxrows = 0, l_history_index = 0\<rparr>"
  obtain y ys where y: "?buf = y # ys" by (cases ?buf) (auto simp: LINENOISE_MAX_LINE_def malloc_bytes_def)
  have l: "holds ?n ([], []) ?l"
    using assms(5) y length_malloc_bytes [of junk LINENOISE_MAX_LINE]
    by (auto simp: holds_def LINENOISE_MAX_LINE_def)
  obtain l4 e4 where l4: "edit_loop ?l e3 = edit_loop l4 e4" "holds ?n (b, a) l4"
      "same_env (e3\<lparr>keys := ENTER # rest_keys\<rparr>) e4"
    using edit_loop_keys [OF assms(1) l env(1-4)] by blast
  have env4: "hints e4 = None" "keys e4 = ENTER # rest_keys" "history e4 = history e3"
    using same_env_simps [OF l4(3)] env by simp_all
  have "history e4 \<noteq> []" using hist env4(3) by simp
  from edit_loop_enter [OF l4(2) env4(1,2) this] obtain l5 e5 more_buf where
      r: "edit_loop l4 e4 = Some (int (length (b @ a)), l5, e5)" "l_buf l5 = b @ a @ 0 # more_buf"
        "same_env (e4\<lparr>keys := rest_keys, history := butlast (history e4)\<rparr>) e5"
    by blast
  have "linenoiseEdit ?buf LINENOISE_MAX_LINE prompt e = Some (int (length (b @ a)), b @ a @ 0 # more_buf, e5)"
    using assms(3) e3(1) l4(1) r(1,2) cols
    by (simp add: linenoiseEdit_def split_beta e1_def [symmetric] e2_def [symmetric] Let_def)
      (simp add: LINENOISE_MAX_LINE_def)
  moreover have "takeWhile (\<lambda>x. x \<noteq> 0) ((b @ a) @ 0 # more_buf) = b @ a"
    using assms(2) by (subst takeWhile_append2) auto
  ultimately have "linenoise junk True prompt e = Some (Some (b @ a), e5\<lparr>out := out e5 @ [[10]]\<rparr>)"
    by (simp add: linenoise_def linenoiseRaw_def cstr_def LINENOISE_MAX_LINE_def)
  moreover have "keys e5 = rest_keys" "history e5 = butlast (history (snd (linenoiseHistoryAdd [] e)))"
    using same_env_simps [OF r(3)] env4(3) env(5) by simp_all
  ultimately show ?thesis by simp
qed

definition demo_env :: line_env where
  "demo_env = \<lparr>mlmode = False, completion = Some (\<lambda>s. [s @ s]), hints = None, history_max_len = 100, history_alloc = True,
     history = [[120]], keys = [27, 91, 49, 59, 49, 82, 27, 91, 49, 59, 56, 48, 82]
       @ [97, 99, 27, 91, 68, 98, 5, 100, 32, 101, 23] @ [13, 122], out = [], wfail = False, line_errno = None\<rparr>"

theorem linenoise_returns_edited_line_witness:
  "\<exists>e'. linenoise (\<lambda>_. 7) True [62, 32] demo_env = Some (Some [97, 98, 99, 100, 32], e') \<and> keys e' = [122]
    \<and> history e' = [[120]]"
proof -
  have c: "fst (getColumns demo_env) = int 80"
    "keys (snd (getColumns demo_env)) = [97, 99, 27, 91, 68, 98, 5, 100, 32, 101, 23] @ ENTER # [122]"
    by code_simp+
  have z: "zip_keys (LINENOISE_MAX_LINE - 1) [97, 99, 27, 91, 68, 98, 5, 100, 32, 101, 23] ([], [])
      = Some ([97, 98, 99, 100, 32], [])"
    by code_simp
  show ?thesis
    using linenoise_returns_edited_line [OF z _ c(1) _ _ c(2), of "[62, 32]" "\<lambda>_. 7"]
    by (simp add: demo_env_def linenoiseHistoryAdd_def TAB_def)
qed

text \<open>The history: starting from an empty one, adding lines keeps the latest \<open>history_max_len\<close> of
  them, in order, where a line equal to the one before it is not added.\<close>

theorem history_keeps_latest:
  assumes "0 < history_max_len e" and "history e = []"
  shows "history (fold (\<lambda>s e. snd (linenoiseHistoryAdd s e)) ls e)
    = latest (nat (history_max_len e)) (remdups_adj ls)"
  using history_add_latest [OF assms] by (simp add: Let_def)

theorem history_keeps_latest_witness:
  "history (fold (\<lambda>s e. snd (linenoiseHistoryAdd s e)) [[1], [2], [2], [3]]
     (demo_env\<lparr>history_max_len := 2, history := []\<rparr>)) = [[2], [3]]"
  using history_keeps_latest [of "demo_env\<lparr>history_max_len := 2, history := []\<rparr>" "[[1], [2], [2], [3]]"]
  by (simp add: latest_def)

end
