(* ===== verification/Kernel_Support.thy ===== *)
theory Kernel_Support
  imports Prelude
begin

text \<open>
  Small parts of the kernel around the C library and the processor: the emulated dynamic linker
  (\<open>ldl.c\<close>), the page table (\<open>mmu.c\<close>), the exception table (\<open>exception.c\<close>) and the walk over the boot
  tags (\<open>rboot/atag.c\<close>).

  The symbol table is generated by the build and is an argument; so are the exception handlers and the
  tag callback, which Lua code installs. The coprocessor registers are fields of \<open>cp15\<close>.
\<close>

section \<open>ldl.c\<close>

record linker =
  last_error :: "string option"

definition error_bad_symbol :: string where
  "error_bad_symbol = ''Symbol not found in sym_table.''"

definition dlopen :: "string option \<Rightarrow> int \<Rightarrow> linker \<Rightarrow> string \<times> linker" where
  "dlopen filename flag s = (''none'', s\<lparr>last_error := None\<rparr>)"

definition dlerror :: "linker \<Rightarrow> string option" where
  "dlerror s = last_error s"

text \<open>The loop of \<open>dlsym\<close> over the rest of the table. \<open>strcmp\<close> on the null pointer of an entry, and an
  index past the table, is \<^term>\<open>None\<close>; the test for the null pointer comes after the comparison.\<close>

fun dlsym_loop :: "(u32 \<times> string option) list \<Rightarrow> string \<Rightarrow> linker \<Rightarrow> (u32 option \<times> linker) option" where
  "dlsym_loop [] symbol s = None"
| "dlsym_loop ((addr, entry) # syms) symbol s =
     (case entry of
        None \<Rightarrow> None
      | Some name \<Rightarrow> if name = symbol then Some (Some addr, s) else dlsym_loop syms symbol s)"

definition dlsym :: "(u32 \<times> string option) list \<Rightarrow> string \<Rightarrow> linker \<Rightarrow> (u32 option \<times> linker) option" where
  "dlsym all_symbols symbol s = dlsym_loop all_symbols symbol s"

definition dlclose :: "linker \<Rightarrow> linker" where "dlclose s = s"

section \<open>mmu.c\<close>

definition MEM_MMU_TABLE_SIZE :: nat where "MEM_MMU_TABLE_SIZE = 0x8000"

record cp15 =
  mem_mmu_table :: "u32 list"
  auxctrl :: u32
  domain_access :: u32
  ttb_control :: u32
  ttbr0 :: u32
  sys_control :: u32

text \<open>One entry; the two loops over the table.\<close>

definition mmu_entry :: "nat \<Rightarrow> u32" where
  "mmu_entry n =
     (if n < 512 then push_bit 20 (of_nat n) OR 0x1140E else push_bit 20 (of_nat n) OR 0x10416)"

definition fill_table :: "u32 list \<Rightarrow> u32 list" where
  "fill_table t = fold (\<lambda>n t. t[n := mmu_entry n]) [0..<4096] t"

text \<open>\<open>addr\<close> is the address of the table.\<close>

definition enable_mmu :: "u32 \<Rightarrow> cp15 \<Rightarrow> cp15" where
  "enable_mmu addr c =
     c\<lparr>mem_mmu_table := fill_table (mem_mmu_table c), auxctrl := auxctrl c OR push_bit 6 1,
       domain_access := 1, ttb_control := 0, ttbr0 := 3 OR addr,
       sys_control := sys_control c OR 0x0480180D\<rparr>"

section \<open>exception.c\<close>

text \<open>\<open>'c\<close> is the state the handlers work on; calling an empty entry has no result.\<close>

record 'c vector_table =
  vt_reset :: "('c \<Rightarrow> 'c) option"
  vt_undefined_instruction :: "('c \<Rightarrow> 'c) option"
  vt_software_interrupt :: "(u32 \<Rightarrow> 'c \<Rightarrow> 'c) option"
  vt_prefetch_abort :: "('c \<Rightarrow> 'c) option"
  vt_data_access :: "('c \<Rightarrow> 'c) option"
  vt_unhandled_exception :: "('c \<Rightarrow> 'c) option"
  vt_interrupt :: "('c \<Rightarrow> 'c) option"
  vt_fast_interrupt :: "('c \<Rightarrow> 'c) option"

definition dispatch :: "('c \<Rightarrow> 'c) option \<Rightarrow> 'c \<Rightarrow> 'c option" where
  "dispatch h s = map_option (\<lambda>f. f s) h"

definition exc_reset :: "'c vector_table \<Rightarrow> 'c \<Rightarrow> 'c option" where
  "exc_reset t s = dispatch (vt_reset t) s"

text \<open>The number is the low 24 bits of the instruction before the return address.\<close>

definition exc_software_interrupt :: "(u32 \<Rightarrow> u32) \<Rightarrow> u32 \<Rightarrow> 'c vector_table \<Rightarrow> 'c \<Rightarrow> 'c option" where
  "exc_software_interrupt mem lr t s =
     (let intrp = mem (lr - 4) AND NOT 0xFF000000
      in map_option (\<lambda>f. f intrp s) (vt_software_interrupt t))"

definition exc_prefetch_abort :: "'c vector_table \<Rightarrow> 'c \<Rightarrow> 'c option" where
  "exc_prefetch_abort t s = dispatch (vt_prefetch_abort t) s"
definition exc_data_access :: "'c vector_table \<Rightarrow> 'c \<Rightarrow> 'c option" where
  "exc_data_access t s = dispatch (vt_data_access t) s"
definition exc_undefined_instruction :: "'c vector_table \<Rightarrow> 'c \<Rightarrow> 'c option" where
  "exc_undefined_instruction t s = dispatch (vt_undefined_instruction t) s"
definition exc_unhandled_exception :: "'c vector_table \<Rightarrow> 'c \<Rightarrow> 'c option" where
  "exc_unhandled_exception t s = dispatch (vt_unhandled_exception t) s"
definition exc_interrupt :: "'c vector_table \<Rightarrow> 'c \<Rightarrow> 'c option" where
  "exc_interrupt t s = dispatch (vt_interrupt t) s"
definition exc_fast_interrupt :: "'c vector_table \<Rightarrow> 'c \<Rightarrow> 'c option" where
  "exc_fast_interrupt t s = dispatch (vt_fast_interrupt t) s"

section \<open>atag.c\<close>

definition ATAG_NONE :: u32 where "ATAG_NONE = 0"

text \<open>\<open>mem\<close> is the memory by words. The callback gets the address of the tag; the loop may never end.\<close>

partial_function (option) atag_loop :: "(u32 \<Rightarrow> u32) \<Rightarrow> (u32 \<Rightarrow> 'c \<Rightarrow> 'c) \<Rightarrow> u32 \<Rightarrow> 'c \<Rightarrow> 'c option" where
  "atag_loop mem cb cur s =
     (let s' = cb cur s in
      if mem (cur + 4) \<noteq> ATAG_NONE then atag_loop mem cb (cur + 4 * mem cur) s' else Some s')"

definition parse_atags :: "(u32 \<Rightarrow> u32) \<Rightarrow> u32 \<Rightarrow> (u32 \<Rightarrow> 'c \<Rightarrow> 'c) \<Rightarrow> 'c \<Rightarrow> 'c option" where
  "parse_atags mem atags cb s = (if atags = 0 then Some s else atag_loop mem cb atags s)"

section \<open>Lemmas\<close>

lemma dlsym_found:
  assumes "\<forall>(a, n) \<in> set pre. n \<noteq> None \<and> n \<noteq> Some symbol"
  shows "dlsym_loop (pre @ (addr, Some symbol) # rest) symbol s = Some (Some addr, s)"
  using assms by (induction pre) (auto split: if_splits)

lemma dlsym_missing:
  assumes "\<forall>(a, n) \<in> set pre. n \<noteq> None \<and> n \<noteq> Some symbol"
  shows "dlsym_loop (pre @ (addr, None) # rest) symbol s = None"
  using assms by (induction pre) (auto split: if_splits)

lemma fold_update_nth:
  "n \<le> length t \<Longrightarrow> length (fold (\<lambda>n t. t[n := f n]) [0..<n] t) = length t
   \<and> (\<forall>k < length t. fold (\<lambda>n t. t[n := f n]) [0..<n] t ! k = (if k < n then f k else t ! k))"
  by (induction n) (auto simp: nth_list_update)

text \<open>The translation of an address by a table of sections, as the processor does it: entry
  \<open>va / 2 ^ 20\<close>, type 2 and not a supersection; the result has the attributes. \<open>cached\<close> stands for
  normal memory (C and B set), \<open>device\<close> for shared device memory (only B), \<open>never\<close> for execute never.\<close>

record translation =
  pa :: u32
  cached :: bool
  device :: bool
  never :: bool

definition translate :: "u32 list \<Rightarrow> u32 \<Rightarrow> translation option" where
  "translate t va =
     (let i = unat (drop_bit 20 va) in
      if i \<ge> length t then None
      else
        (let e = t ! i in
         if e AND 3 \<noteq> 2 \<or> bit e 18 then None
         else Some \<lparr>pa = (e AND 0xFFF00000) OR (va AND 0xFFFFF), cached = (bit e 3 \<and> bit e 2),
                device = (\<not> bit e 3 \<and> bit e 2 \<and> e AND 0x7000 = 0), never = bit e 4\<rparr>))"

lemma section_split: "push_bit 20 (drop_bit 20 va) OR (va AND 0xFFFFF) = (va :: u32)"
proof -
  have m: "(0xFFFFF :: u32) = mask 20" by (simp add: mask_eq_exp_minus_1)
  show ?thesis unfolding m by (rule bit_word_eqI) (auto simp: bit_simps)
qed

lemma section_base: "push_bit 20 x AND (0xFFF00000 :: u32) = push_bit 20 x"
proof -
  have m: "(0xFFF00000 :: u32) = NOT (mask 20)" by (simp add: mask_eq_exp_minus_1)
  show ?thesis unfolding m by (rule bit_word_eqI) (auto simp: bit_simps)
qed

lemma section_low:
  assumes "f = f AND mask 20" shows "(push_bit 20 x OR f) AND mask 20 = (f :: u32)"
proof -
  have "push_bit 20 x AND mask 20 = (0 :: u32)" by (rule bit_word_eqI) (auto simp: bit_simps)
  then show ?thesis using assms by (simp add: bit.conj_disj_distrib2)
qed

lemma entry_bits:
  assumes "f AND (0xFFF00000 :: u32) = 0"
  shows "(push_bit 20 x OR f) AND 0xFFF00000 = push_bit 20 x"
    and "k < 20 \<Longrightarrow> bit (push_bit 20 x OR f) k = bit f k"
    and "(push_bit 20 x OR f) AND 3 = f AND 3" and "(push_bit 20 x OR f) AND 0x7000 = f AND 0x7000"
proof -
  show "(push_bit 20 x OR f) AND 0xFFF00000 = push_bit 20 x"
    using assms section_base by (simp add: bit.conj_disj_distrib2)
  show "k < 20 \<Longrightarrow> bit (push_bit 20 x OR f) k = bit f k" by (simp add: bit_or_iff bit_push_bit_iff)
  have z: "push_bit 20 x AND m = 0" if "m AND mask 20 = m" for m :: u32
  proof -
    have "push_bit 20 x AND m = push_bit 20 x AND (m AND mask 20)" using that by simp
    also have "\<dots> = 0" by (rule bit_word_eqI) (auto simp: bit_simps)
    finally show ?thesis .
  qed
  show "(push_bit 20 x OR f) AND 3 = f AND 3" "(push_bit 20 x OR f) AND 0x7000 = f AND 0x7000"
    using z [of 3] z [of "0x7000"] by (simp_all add: bit.conj_disj_distrib2 mask_eq_exp_minus_1)
qed

lemma fill_table_nth:
  assumes "length t = MEM_MMU_TABLE_SIZE" and "n < 4096"
  shows "fill_table t ! n = mmu_entry n" and "length (fill_table t) = MEM_MMU_TABLE_SIZE"
  using fold_update_nth [of 4096 t mmu_entry] assms by (simp_all add: fill_table_def MEM_MMU_TABLE_SIZE_def)

section \<open>Properties\<close>

text \<open>C37: The page table of \<open>enable_mmu\<close> maps every address to itself; the first 512 MB are cached memory
  that can be executed, everything above, with the peripherals at 0x20000000, is device memory that
  cannot.\<close>

theorem mmu_identity_map:
  assumes "length (mem_mmu_table c) = MEM_MMU_TABLE_SIZE"
  shows "translate (mem_mmu_table (enable_mmu addr c)) va
    = Some \<lparr>pa = va, cached = (va < 0x20000000), device = (\<not> va < 0x20000000), never = (\<not> va < 0x20000000)\<rparr>"
proof -
  let ?i = "unat (drop_bit 20 va)"
  have d: "?i = unat va div 2 ^ 20" by (simp add: drop_bit_eq_div unat_div)
  have v32: "unat va < 2 ^ 32" by (rule order_less_le_trans [OF unsigned_less]) simp
  have lt: "?i < 4096" unfolding d using v32 by (simp add: less_mult_imp_div_less)
  have low: "va < 0x20000000 \<longleftrightarrow> ?i < 512"
  proof -
    have "unat va < 0x20000000 \<longleftrightarrow> unat va div 2 ^ 20 < 512" by (simp add: div_less_iff_less_mult)
    then show ?thesis by (simp add: word_less_nat_alt d)
  qed
  have e: "mem_mmu_table (enable_mmu addr c) ! ?i = mmu_entry ?i"
      "length (mem_mmu_table (enable_mmu addr c)) = 0x8000"
    using fill_table_nth [OF assms lt] by (simp_all add: enable_mmu_def MEM_MMU_TABLE_SIZE_def)
  have va: "push_bit 20 (of_nat ?i :: u32) OR (va AND 0xFFFFF) = va" using section_split by simp
  show ?thesis
  proof (cases "?i < 512")
    case True
    note b = entry_bits [where f = "0x1140E" and x = "of_nat ?i"]
    show ?thesis
      using True lt e low va b(1,3,4) b(2) [where k = 2] b(2) [where k = 3] b(2) [where k = 4] b(2) [where k = 18]
      by (simp add: translate_def Let_def mmu_entry_def)
  next
    case False
    note b = entry_bits [where f = "0x10416" and x = "of_nat ?i"]
    show ?thesis
      using False lt e low va b(1,3,4) b(2) [where k = 2] b(2) [where k = 3] b(2) [where k = 4] b(2) [where k = 18]
      by (simp add: translate_def Let_def mmu_entry_def)
  qed
qed

definition demo_cp15 :: cp15 where
  "demo_cp15 = \<lparr>mem_mmu_table = replicate MEM_MMU_TABLE_SIZE 0, auxctrl = 0, domain_access = 0,
     ttb_control = 0, ttbr0 = 0, sys_control = 0\<rparr>"

theorem mmu_identity_map_witness:
  "translate (mem_mmu_table (enable_mmu 0x4000 demo_cp15)) 0x20201000
    = Some \<lparr>pa = 0x20201000, cached = False, device = True, never = True\<rparr>"
  using mmu_identity_map [of demo_cp15 "0x4000" "0x20201000"] by (simp add: demo_cp15_def)

text \<open>Looking up a symbol that the table does not have never reaches the error message: the loop
  compares before it tests for the null pointer, and compares with the null pointer that ends the
  table.\<close>

theorem dlsym_missing_compares_null:
  assumes "\<forall>(a, n) \<in> set pre. n \<noteq> None \<and> n \<noteq> Some symbol"
  shows "dlsym (pre @ (addr, None) # rest) symbol s = None"
  using dlsym_missing [OF assms] by (simp add: dlsym_def)

theorem dlsym_missing_compares_null_witness:
  "dlsym [(0x8000, Some ''printf''), (0x8010, Some ''malloc''), (0, None)] ''free'' \<lparr>last_error = None\<rparr> = None"
  using dlsym_missing_compares_null [of "[(0x8000, Some ''printf''), (0x8010, Some ''malloc'')]" "''free''" 0 "[]"]
  by simp

section \<open>Tags\<close>

text \<open>A list of tags at an address: sizes in words, every tag but the last with a number that is not 0.\<close>

fun tags_at :: "(u32 \<Rightarrow> u32) \<Rightarrow> u32 \<Rightarrow> u32 list \<Rightarrow> bool" where
  "tags_at mem a [] = False"
| "tags_at mem a [t] = (t = a \<and> mem (a + 4) = ATAG_NONE)"
| "tags_at mem a (t # ts) = (t = a \<and> mem (a + 4) \<noteq> ATAG_NONE \<and> tags_at mem (a + 4 * mem a) ts)"

text \<open>The walk calls the function on every tag in order, the last one included, and returns.\<close>

lemma parse_atags_visits:
  assumes "tags_at mem a ts" and "a \<noteq> 0"
  shows "parse_atags mem a cb s = Some (fold cb ts s)"
proof -
  have "tags_at mem a ts \<Longrightarrow> atag_loop mem cb a s = Some (fold cb ts s)" for a s
    by (induction mem a ts arbitrary: s rule: tags_at.induct)
      (subst atag_loop.simps; simp add: Let_def)+
  then show ?thesis using assms by (simp add: parse_atags_def)
qed

end
