(* ===== verification/Elf.thy ===== *)
theory Elf
  imports Byte_Access
begin

text \<open>
  The ELF loader (\<open>rboot/elf.h\<close>, \<open>rboot/elf.c\<close>): the header checks, the header tables and the loading of
  sections and segments. A file is its contents and its position; \<open>fread\<close> returns what is left of it.
  The memory is a function from addresses to bytes. An allocated block is as long as it was asked for
  and holds \<open>junk\<close>.
\<close>

section \<open>elf.h\<close>

record Elf32_Ehdr =
  e_ident :: bytes
  e_type :: u16
  e_machine :: u16
  e_version :: u32
  e_entry :: u32
  e_phoff :: u32
  e_shoff :: u32
  e_flags :: u32
  e_ehsize :: u16
  e_phentsize :: u16
  e_phnum :: u16
  e_shentsize :: u16
  e_shnum :: u16
  e_shstrndx :: u16

definition sizeof_Elf32_Ehdr :: nat where "sizeof_Elf32_Ehdr = 52"

text \<open>The structure that 52 bytes of memory hold.\<close>

definition ehdr_of :: "bytes \<Rightarrow> Elf32_Ehdr" where
  "ehdr_of b = \<lparr>e_ident = take 16 b, e_type = read_halfword b 16, e_machine = read_halfword b 18,
     e_version = read_word b 20, e_entry = read_word b 24, e_phoff = read_word b 28, e_shoff = read_word b 32,
     e_flags = read_word b 36, e_ehsize = read_halfword b 40, e_phentsize = read_halfword b 42,
     e_phnum = read_halfword b 44, e_shentsize = read_halfword b 46, e_shnum = read_halfword b 48,
     e_shstrndx = read_halfword b 50\<rparr>"

record Elf32_Shdr =
  sh_name :: u32
  sh_type :: u32
  sh_flags :: u32
  sh_addr :: u32
  sh_offset :: u32
  sh_size :: u32
  sh_link :: u32
  sh_info :: u32
  sh_addralign :: u32
  sh_entsize :: u32

record Elf32_Phdr =
  p_type :: u32
  p_offset :: u32
  p_vaddr :: u32
  p_paddr :: u32
  p_filesz :: u32
  p_memsz :: u32
  p_flags :: u32
  p_align :: u32

definition SHT_NOBITS :: u32 where "SHT_NOBITS = 8"
definition EI_CLASS :: nat where "EI_CLASS = 4"
definition EI_DATA :: nat where "EI_DATA = 5"
definition ELFCLASS32 :: u8 where "ELFCLASS32 = 1"
definition ELFDATA2LSB :: u8 where "ELFDATA2LSB = 1"
definition ET_EXEC :: u16 where "ET_EXEC = 2"
definition EM_ARM :: u16 where "EM_ARM = 40"

definition ELF_OK :: int where "ELF_OK = 0"
definition ELF_NOT_ELF :: int where "ELF_NOT_ELF = -1"
definition ELF_NOT_32_BIT :: int where "ELF_NOT_32_BIT = -2"
definition ELF_NOT_LITTLE_ENDIAN :: int where "ELF_NOT_LITTLE_ENDIAN = -3"
definition ELF_NOT_EXEC :: int where "ELF_NOT_EXEC = -4"
definition ELF_NOT_ARM :: int where "ELF_NOT_ARM = -5"
definition ELF_FILE_LOAD_ERROR :: int where "ELF_FILE_LOAD_ERROR = -6"
definition ELF_NO_OFFSET :: int where "ELF_NO_OFFSET = -7"

section \<open>Files and memory\<close>

record cfile =
  contents :: bytes
  fpos :: nat

text \<open>\<open>fseek(fp, (long)off, SEEK_SET)\<close>: a negative offset is refused and the position stays.\<close>

definition fseek_set :: "u32 \<Rightarrow> cfile \<Rightarrow> cfile" where
  "fseek_set off fp = (if sint off < 0 then fp else fp\<lparr>fpos := unat off\<rparr>)"

definition fread_n :: "nat \<Rightarrow> cfile \<Rightarrow> bytes \<times> cfile" where
  "fread_n n fp = (let d = slice (contents fp) (fpos fp) n in (d, fp\<lparr>fpos := fpos fp + length d\<rparr>))"

definition mem_load :: "u32 \<Rightarrow> bytes \<Rightarrow> (u32 \<Rightarrow> u8) \<Rightarrow> u32 \<Rightarrow> u8" where
  "mem_load a d m x = (if unat (x - a) < length d then d ! unat (x - a) else m x)"

definition mem_zero :: "u32 \<Rightarrow> u32 \<Rightarrow> (u32 \<Rightarrow> u8) \<Rightarrow> u32 \<Rightarrow> u8" where
  "mem_zero a n m x = (if x - a < n then 0 else m x)"

section \<open>elf.c\<close>

text \<open>\<open>*ehdr\<close> is freed on every error.\<close>

definition elf32_read_ehdr :: "cfile \<Rightarrow> int \<times> Elf32_Ehdr option \<times> cfile" where
  "elf32_read_ehdr fp =
     (let (d, fp1) = fread_n sizeof_Elf32_Ehdr (fseek_set 0 fp) in
      if length d \<noteq> sizeof_Elf32_Ehdr then (ELF_FILE_LOAD_ERROR, None, fp1)
      else
        (let e = ehdr_of d in
         if e_ident e ! 0 \<noteq> 0x7f \<or> e_ident e ! 1 \<noteq> 69 \<or> e_ident e ! 2 \<noteq> 76 \<or> e_ident e ! 3 \<noteq> 70
         then (ELF_NOT_ELF, None, fp1)
         else if e_ident e ! EI_CLASS \<noteq> ELFCLASS32 then (ELF_NOT_32_BIT, None, fp1)
         else if e_ident e ! EI_DATA \<noteq> ELFDATA2LSB then (ELF_NOT_LITTLE_ENDIAN, None, fp1)
         else if e_type e \<noteq> ET_EXEC then (ELF_NOT_EXEC, None, fp1)
         else if e_machine e \<noteq> EM_ARM then (ELF_NOT_ARM, None, fp1)
         else (ELF_OK, Some e, fp1)))"

text \<open>A table of \<open>n\<close> entries of \<open>sz\<close> bytes at \<open>off\<close>. The product of the two halfwords is one of
  \<open>int\<close>, which can overflow. Allocation, here and in \<open>elf32_read_ehdr\<close>, is taken to succeed.\<close>

definition read_table :: "u16 \<Rightarrow> u16 \<Rightarrow> u32 \<Rightarrow> cfile \<Rightarrow> (int \<times> bytes option \<times> cfile) option" where
  "read_table sz n off fp =
     (let to_load = unat sz * unat n; (d, fp1) = fread_n to_load (fseek_set off fp)
      in if to_load \<ge> 2 ^ 31 then None
         else if length d \<noteq> to_load then Some (ELF_FILE_LOAD_ERROR, None, fp1) else Some (ELF_OK, Some d, fp1))"

definition elf32_read_shdrs :: "cfile \<Rightarrow> Elf32_Ehdr \<Rightarrow> (int \<times> bytes option \<times> cfile) option" where
  "elf32_read_shdrs fp e = read_table (e_shentsize e) (e_shnum e) (e_shoff e) fp"

definition elf32_load_section :: "cfile \<Rightarrow> Elf32_Shdr \<Rightarrow> (u32 \<Rightarrow> u8) \<Rightarrow> int \<times> cfile \<times> (u32 \<Rightarrow> u8)" where
  "elf32_load_section fp sh m =
     (if sh_type sh = SHT_NOBITS then (ELF_OK, fp, mem_zero (sh_addr sh) (sh_size sh) m)
      else if sh_offset sh = 0 then (ELF_NO_OFFSET, fp, m)
      else
        (let (d, fp1) = fread_n (unat (sh_size sh)) (fseek_set (sh_offset sh) fp);
             m1 = mem_load (sh_addr sh) d m
         in (if length d \<noteq> unat (sh_size sh) then ELF_FILE_LOAD_ERROR else ELF_OK, fp1, m1)))"

definition elf32_read_phdrs :: "cfile \<Rightarrow> Elf32_Ehdr \<Rightarrow> (int \<times> bytes option \<times> cfile) option" where
  "elf32_read_phdrs fp e = read_table (e_phentsize e) (e_phnum e) (e_phoff e) fp"

text \<open>The rest of the memory image, \<open>p_memsz - p_filesz\<close> bytes from \<open>load_address\<close> on.\<close>

definition zero_rest :: "u32 \<Rightarrow> Elf32_Phdr \<Rightarrow> (u32 \<Rightarrow> u8) \<Rightarrow> u32 \<Rightarrow> u8" where
  "zero_rest load_address ph m =
     (if p_memsz ph - p_filesz ph \<noteq> 0 then mem_zero load_address (p_memsz ph - p_filesz ph) m else m)"

definition elf32_load_segment :: "cfile \<Rightarrow> Elf32_Phdr \<Rightarrow> (u32 \<Rightarrow> u8) \<Rightarrow> int \<times> cfile \<times> (u32 \<Rightarrow> u8)" where
  "elf32_load_segment fp ph m =
     (if p_filesz ph \<noteq> 0 then
        (let (d, fp1) = fread_n (unat (p_filesz ph)) (fseek_set (p_offset ph) fp);
             m1 = mem_load (p_vaddr ph) d m
         in if length d \<noteq> unat (p_filesz ph) then (ELF_FILE_LOAD_ERROR, fp1, m1)
            else (ELF_OK, fp1, zero_rest (p_vaddr ph + p_filesz ph) ph m1))
      else (ELF_OK, fp, zero_rest (p_vaddr ph) ph m))"

section \<open>Properties\<close>

text \<open>The byte \<open>k\<close> of the image of a segment.\<close>

definition image_byte :: "cfile \<Rightarrow> Elf32_Phdr \<Rightarrow> nat \<Rightarrow> u8" where
  "image_byte fp ph k = (if k < unat (p_filesz ph) then contents fp ! (unat (p_offset ph) + k) else 0)"

text \<open>C34: Loading a segment that is well formed (\<open>p_filesz\<close> is at most \<open>p_memsz\<close>), whose bytes the file
  has and whose offset is a non-negative \<open>long\<close> (below \<open>2 ^ 31\<close>): the memory from \<open>p_vaddr\<close> on holds
  the bytes of the file and then zeros, \<open>p_memsz\<close> bytes in all, and every other byte of the memory is
  unchanged. The code does not check the first condition: for \<open>p_filesz\<close> greater than \<open>p_memsz\<close> the
  length of the part to be zeroed wraps.\<close>

theorem elf_load_segment_image:
  assumes "p_filesz ph \<le> p_memsz ph" and "unat (p_offset ph) < 2 ^ 31"
    and "unat (p_offset ph) + unat (p_filesz ph) \<le> length (contents fp)"
  shows "\<exists>fp' m'. elf32_load_segment fp ph m = (ELF_OK, fp', m')
    \<and> (\<forall>x. m' x = (if x - p_vaddr ph < p_memsz ph then image_byte fp ph (unat (x - p_vaddr ph)) else m x))"
proof -
  let ?fs = "p_filesz ph" and ?ms = "p_memsz ph" and ?va = "p_vaddr ph" and ?off = "unat (p_offset ph)"
  have le: "unat ?fs \<le> unat ?ms" using assms(1) by (simp add: word_le_nat_alt)
  have rest: "zero_rest (?va + ?fs) ph m1 x = (if ?fs \<le> x - ?va \<and> x - ?va < ?ms then 0 else m1 x)" for m1 x
  proof -
    have eq: "x - (?va + ?fs) = x - ?va - ?fs" by simp
    have "x - ?va - ?fs < ?ms - ?fs \<longleftrightarrow> ?fs \<le> x - ?va \<and> x - ?va < ?ms"
    proof (cases "?fs \<le> x - ?va")
      case True
      then have "unat (x - ?va - ?fs) = unat (x - ?va) - unat ?fs" by (rule unat_sub_no_wrap)
      moreover have "unat (?ms - ?fs) = unat ?ms - unat ?fs" using assms(1) by (rule unat_sub_no_wrap)
      moreover have "unat ?fs \<le> unat (x - ?va)" using True by (simp add: word_le_nat_alt)
      ultimately show ?thesis using True le by (auto simp: word_less_nat_alt)
    next
      case False
      then have lt: "unat (x - ?va) < unat ?fs" by (simp add: word_le_nat_alt)
      have big: "unat ?ms < 2 ^ 32" by (rule order_less_le_trans [OF unsigned_less]) simp
      have "unat (x - ?va - ?fs) = 2 ^ 32 + unat (x - ?va) - unat ?fs"
        using lt False by (simp add: unat_sub_if' word_le_nat_alt)
      moreover have "unat (?ms - ?fs) = unat ?ms - unat ?fs" using assms(1) by (rule unat_sub_no_wrap)
      ultimately have "\<not> x - ?va - ?fs < ?ms - ?fs" using big lt le by (simp add: word_less_nat_alt)
      then show ?thesis using False by simp
    qed
    then have "x - (?va + ?fs) < ?ms - ?fs \<longleftrightarrow> ?fs \<le> x - ?va \<and> x - ?va < ?ms" unfolding eq .
    then show ?thesis using le by (auto simp: zero_rest_def mem_zero_def word_le_nat_alt word_less_nat_alt)
  qed
  show ?thesis
  proof (cases "?fs = 0")
    case True
    have "zero_rest ?va ph m x = (if x - ?va < ?ms then 0 else m x)" for x
      using rest [of m x] True by simp
    then show ?thesis using True by (simp add: elf32_load_segment_def image_byte_def)
  next
    case False
    let ?d = "slice (contents fp) ?off (unat ?fs)"
    have fr: "fread_n (unat ?fs) (fseek_set (p_offset ph) fp)
        = (?d, fp\<lparr>fpos := ?off + unat ?fs\<rparr>)" "length ?d = unat ?fs"
      using assms(2,3) by (simp_all add: fread_n_def fseek_set_def sint_small Let_def buf_simps)
    let ?m1 = "mem_load ?va ?d m"
    have "zero_rest (?va + ?fs) ph ?m1 x
        = (if x - ?va < ?ms then image_byte fp ph (unat (x - ?va)) else m x)" for x
      using rest [of ?m1 x] fr(2) assms(3) le
      by (auto simp: mem_load_def image_byte_def word_less_nat_alt word_le_nat_alt buf_simps)
    then show ?thesis using False fr by (simp add: elf32_load_segment_def)
  qed
qed

definition demo_phdr :: Elf32_Phdr where
  "demo_phdr = \<lparr>p_type = 1, p_offset = 2, p_vaddr = 0x8000, p_paddr = 0x8000, p_filesz = 3, p_memsz = 5,
     p_flags = 5, p_align = 4\<rparr>"

theorem elf_load_segment_image_witness:
  "\<exists>fp' m'. elf32_load_segment \<lparr>contents = [9, 9, 1, 2, 3], fpos = 0\<rparr> demo_phdr (\<lambda>_. 7) = (ELF_OK, fp', m')
    \<and> map m' [0x7FFF, 0x8000, 0x8001, 0x8002, 0x8003, 0x8004, 0x8005] = [7, 1, 2, 3, 0, 0, 7]"
proof -
  from elf_load_segment_image [of demo_phdr "\<lparr>contents = [9, 9, 1, 2, 3], fpos = 0\<rparr>" "\<lambda>_. 7"]
  obtain fp' m' where r: "elf32_load_segment \<lparr>contents = [9, 9, 1, 2, 3], fpos = 0\<rparr> demo_phdr (\<lambda>_. 7) = (ELF_OK, fp', m')"
    "\<And>x. m' x = (if x - 0x8000 < 5 then image_byte \<lparr>contents = [9, 9, 1, 2, 3], fpos = 0\<rparr> demo_phdr (unat (x - 0x8000)) else 7)"
    by (auto simp: demo_phdr_def)
  then show ?thesis
    by (intro exI [of _ fp'] exI [of _ m']) (simp add: image_byte_def demo_phdr_def)
qed

end
