(* ===== verification/Dasm.thy ===== *)
theory Dasm
  imports Prelude
begin

text \<open>
  The ARM encoding engine of DynASM (\<open>dasm/csrc/dynasm/dasm_arm.h\<close>, built into the kernel with
  \<open>DASM_CHECKS\<close>): \<open>dasm_put\<close> runs an action list into the buffer of a section and links labels,
  \<open>dasm_link\<close> fixes the offsets, \<open>dasm_encode\<close> emits the code.

  A position is a C integer with the section in its upper 8 bits and the index of a buffer cell in its lower
  24. The biased pointer \<open>rbuf\<close> of a section always equals its buffer less the bias of
  the section, so that \<open>rbuf + pos\<close> is the cell of index \<open>pos - bias\<close>; \<open>rbuf\<close> itself is not part of
  the state. \<open>junk\<close> is what the memory that \<open>realloc\<close> adds holds. A failed allocation calls \<open>exit\<close> and
  does not return. The argument \<open>ext\<close> is the function pointer \<open>DASM_EXTERN_FUNC\<close>. Offsets and positions
  are C integers below the point of overflow.
\<close>

section \<open>Actions and state\<close>

datatype dasm_action =
    DASM_STOP | DASM_SECTION | DASM_ESC | DASM_REL_EXT
  | DASM_ALIGN | DASM_REL_LG | DASM_LABEL_LG
  | DASM_REL_PC | DASM_LABEL_PC
  | DASM_IMM | DASM_IMM12 | DASM_IMM16 | DASM_IMML8 | DASM_IMML12 | DASM_IMMV8

definition dasm_actions :: "dasm_action list" where
  "dasm_actions = [DASM_STOP, DASM_SECTION, DASM_ESC, DASM_REL_EXT, DASM_ALIGN, DASM_REL_LG,
     DASM_LABEL_LG, DASM_REL_PC, DASM_LABEL_PC, DASM_IMM, DASM_IMM12, DASM_IMM16, DASM_IMML8,
     DASM_IMML12, DASM_IMMV8]"

text \<open>The action of a word of the action list; none for a literal instruction (at least
  \<open>DASM__MAX\<close>).\<close>

definition action_of :: "u32 \<Rightarrow> dasm_action option" where
  "action_of ins =
     (let a = drop_bit 16 ins
      in if of_nat (length dasm_actions) \<le> a then None else Some (dasm_actions ! unat a))"

text \<open>Actions from \<open>DASM_ALIGN\<close> on have a cell in the buffer; those from \<open>DASM_REL_PC\<close> on take an
  argument of \<open>dasm_put\<close>.\<close>

definition takes_cell :: "dasm_action \<Rightarrow> bool" where
  "takes_cell a \<longleftrightarrow> a \<notin> {DASM_STOP, DASM_SECTION, DASM_ESC, DASM_REL_EXT}"

definition takes_arg :: "dasm_action \<Rightarrow> bool" where
  "takes_arg a \<longleftrightarrow> takes_cell a \<and> a \<notin> {DASM_ALIGN, DASM_REL_LG, DASM_LABEL_LG}"

definition DASM_MAXSECPOS :: nat where "DASM_MAXSECPOS = 25"

definition DASM_S_OK :: u32 where "DASM_S_OK = 0x00000000"
definition DASM_S_PHASE :: u32 where "DASM_S_PHASE = 0x02000000"
definition DASM_S_MATCH_SEC :: u32 where "DASM_S_MATCH_SEC = 0x03000000"
definition DASM_S_RANGE_I :: u32 where "DASM_S_RANGE_I = 0x11000000"
definition DASM_S_RANGE_SEC :: u32 where "DASM_S_RANGE_SEC = 0x12000000"
definition DASM_S_RANGE_LG :: u32 where "DASM_S_RANGE_LG = 0x13000000"
definition DASM_S_RANGE_PC :: u32 where "DASM_S_RANGE_PC = 0x14000000"
definition DASM_S_RANGE_REL :: u32 where "DASM_S_RANGE_REL = 0x15000000"
definition DASM_S_UNDEF_LG :: u32 where "DASM_S_UNDEF_LG = 0x21000000"
definition DASM_S_UNDEF_PC :: u32 where "DASM_S_UNDEF_PC = 0x22000000"

definition sec_bias :: "nat \<Rightarrow> int" where
  "sec_bias s = int s * 2 ^ 24"

record dasm_section =
  sec_buf :: "int list"
  sec_bsize :: u32
  sec_pos :: int
  sec_epos :: int
  sec_ofs :: int

record dasm_state =
  d_psize :: u32
  d_actionlist :: "u32 list"
  d_lglabels :: "int list"
  d_lgsize :: u32
  d_pclabels :: "int list"
  d_pcsize :: u32
  d_globals :: "u32 list option"
  d_section :: nat
  d_codesize :: u32
  d_maxsection :: nat
  d_status :: u32
  d_sections :: "dasm_section list"

section \<open>Memory\<close>

text \<open>\<open>DASM_M_GROW\<close>: sizes double until they suffice; once a size has wrapped to 0 the loop never ends.\<close>

partial_function (option) grow_loop :: "u32 \<Rightarrow> u32 \<Rightarrow> u32 option" where
  "grow_loop sz need = (if sz < need then grow_loop (sz + sz) need else Some sz)"

declare grow_loop.simps [code]

definition m_grow :: "u32 \<Rightarrow> u32 \<Rightarrow> u32 option" where
  "m_grow sz need =
     (if sz < need then grow_loop (if sz < 16 then 16 else sz) need else Some sz)"

definition words_of :: "u32 \<Rightarrow> nat" where
  "words_of sz = unat sz div 4"

definition m_realloc :: "(nat \<Rightarrow> int) \<Rightarrow> int list \<Rightarrow> u32 \<Rightarrow> int list" where
  "m_realloc junk xs sz = xs @ map junk [length xs..<words_of sz]"

text \<open>A cell by its position, in a given section and in the section that the position names
  (\<open>DASM_POS2PTR\<close>).\<close>

definition sec_get :: "dasm_state \<Rightarrow> nat \<Rightarrow> int \<Rightarrow> int option" where
  "sec_get D s p =
     (let i = p - sec_bias s
      in if s < length (d_sections D) \<and> 0 \<le> i \<and> i < int (length (sec_buf (d_sections D ! s)))
         then Some (sec_buf (d_sections D ! s) ! nat i) else None)"

definition sec_set :: "dasm_state \<Rightarrow> nat \<Rightarrow> int \<Rightarrow> int \<Rightarrow> dasm_state option" where
  "sec_set D s p v =
     (let i = p - sec_bias s
      in if s < length (d_sections D) \<and> 0 \<le> i \<and> i < int (length (sec_buf (d_sections D ! s)))
         then Some (D\<lparr>d_sections := (d_sections D)[s :=
                (d_sections D ! s)\<lparr>sec_buf := (sec_buf (d_sections D ! s))[nat i := v]\<rparr>]\<rparr>)
         else None)"

definition pos2sec :: "int \<Rightarrow> nat" where
  "pos2sec p = nat (p div 2 ^ 24)"

definition pos_get :: "dasm_state \<Rightarrow> int \<Rightarrow> int option" where
  "pos_get D p = (if p < 0 then None else sec_get D (pos2sec p) p)"

definition pos_set :: "dasm_state \<Rightarrow> int \<Rightarrow> int \<Rightarrow> dasm_state option" where
  "pos_set D p v = (if p < 0 then None else sec_set D (pos2sec p) p v)"

text \<open>The label tables: \<open>lglabels\<close> for local and global labels, \<open>pclabels\<close> for numbered ones. A slot
  holds 0 (unused), a positive position (the head of the chain of cells that refer to the label) or
  a negative one (the label is at that position).\<close>

datatype label_table = LG_labels | PC_labels

definition table_of :: "dasm_state \<Rightarrow> label_table \<Rightarrow> int list" where
  "table_of D t = (case t of LG_labels \<Rightarrow> d_lglabels D | PC_labels \<Rightarrow> d_pclabels D)"

definition lab_get :: "dasm_state \<Rightarrow> label_table \<Rightarrow> int \<Rightarrow> int option" where
  "lab_get D t n =
     (if 0 \<le> n \<and> n < int (length (table_of D t)) then Some (table_of D t ! nat n) else None)"

definition lab_set :: "dasm_state \<Rightarrow> label_table \<Rightarrow> int \<Rightarrow> int \<Rightarrow> dasm_state option" where
  "lab_set D t n v =
     (if 0 \<le> n \<and> n < int (length (table_of D t))
      then Some (case t of
          LG_labels \<Rightarrow> D\<lparr>d_lglabels := (d_lglabels D)[nat n := v]\<rparr>
        | PC_labels \<Rightarrow> D\<lparr>d_pclabels := (d_pclabels D)[nat n := v]\<rparr>)
      else None)"

section \<open>Setting up\<close>

text \<open>The state structure is fresh memory: \<open>fresh\<close> gives the fields that \<open>dasm_init\<close> does not set.\<close>

definition dasm_init :: "dasm_state \<Rightarrow> nat \<Rightarrow> dasm_state option" where
  "dasm_init fresh maxsection = do {
     psz \<leftarrow> m_grow 0 (68 + (of_nat maxsection - 1) * 24);
     Some (fresh\<lparr>d_psize := psz, d_lglabels := [], d_lgsize := 0, d_pclabels := [], d_pcsize := 0,
       d_globals := None, d_maxsection := maxsection,
       d_sections := map (\<lambda>i. (d_sections fresh ! i)\<lparr>sec_buf := [], sec_bsize := 0, sec_epos := 0\<rparr>)
         [0..<maxsection]\<rparr>)
   }"

definition dasm_setupglobal ::
  "(nat \<Rightarrow> int) \<Rightarrow> u32 list \<Rightarrow> u32 \<Rightarrow> dasm_state \<Rightarrow> dasm_state option" where
  "dasm_setupglobal junk gl maxgl D = do {
     sz \<leftarrow> m_grow (d_lgsize D) ((10 + maxgl) * 4);
     Some (D\<lparr>d_globals := Some gl, d_lglabels := m_realloc junk (d_lglabels D) sz, d_lgsize := sz\<rparr>)
   }"

definition dasm_growpc :: "(nat \<Rightarrow> int) \<Rightarrow> u32 \<Rightarrow> dasm_state \<Rightarrow> dasm_state option" where
  "dasm_growpc junk maxpc D = do {
     let osz = d_pcsize D;
     sz \<leftarrow> m_grow osz (maxpc * 4);
     let pcs = m_realloc junk (d_pclabels D) sz;
     Some (D\<lparr>d_pclabels := take (words_of osz) pcs @ replicate (length pcs - words_of osz) 0,
       d_pcsize := sz\<rparr>)
   }"

definition dasm_setup :: "u32 list \<Rightarrow> dasm_state \<Rightarrow> dasm_state" where
  "dasm_setup actionlist D =
     D\<lparr>d_actionlist := actionlist, d_status := DASM_S_OK, d_section := 0,
       d_lglabels := map (\<lambda>_. 0) (d_lglabels D), d_pclabels := map (\<lambda>_. 0) (d_pclabels D),
       d_sections := map (\<lambda>i. (d_sections D ! i)\<lparr>sec_pos := sec_bias i, sec_ofs := 0\<rparr>)
         [0..<length (d_sections D)]\<rparr>"

section \<open>Immediates\<close>

text \<open>\<open>dasm_imm12\<close>: the loop index runs to 16; the result is -1 when no rotation fits.\<close>

definition rotl2 :: "u32 \<Rightarrow> u32" where
  "rotl2 n = push_bit 2 n OR drop_bit 30 n"

function imm12_loop :: "nat \<Rightarrow> u32 \<Rightarrow> int" where
  "imm12_loop i n =
     (if 16 \<le> i then -1
      else if n \<le> 255 then int (unat n) + int i * 256
      else imm12_loop (Suc i) (rotl2 n))"
  by pat_completeness auto
termination by (relation "measure (\<lambda>(i, n). 16 - i)") auto

declare imm12_loop.simps [simp del]

definition dasm_imm12 :: "u32 \<Rightarrow> int" where
  "dasm_imm12 n = imm12_loop 0 n"

text \<open>The fields of an immediate action and the checks of \<open>dasm_put\<close>; a shift by -1 has no
  defined result.\<close>

definition imm_scale :: "u32 \<Rightarrow> nat" where "imm_scale ins = unat (drop_bit 10 ins AND 31)"
definition imm_bits :: "u32 \<Rightarrow> nat" where "imm_bits ins = unat (drop_bit 5 ins AND 31)"
definition imm_shift :: "u32 \<Rightarrow> nat" where "imm_shift ins = unat (ins AND 31)"

definition imm_checks :: "u32 \<Rightarrow> int \<Rightarrow> bool option" where
  "imm_checks ins n =
     (if n AND (push_bit (imm_scale ins) 1 - 1) \<noteq> 0 then Some False
      else if ins AND 0x8000 \<noteq> 0 then
        (if imm_bits ins = 0 then None
         else Some (drop_bit (imm_bits ins) (n + push_bit (imm_bits ins - 1) 1) = 0))
      else Some (drop_bit (imm_bits ins) n = 0))"

definition imml_check :: "u32 \<Rightarrow> int \<Rightarrow> bool" where
  "imml_check ins n =
     (if 0 \<le> n then drop_bit (imm_bits ins) n = 0 else drop_bit (imm_bits ins) (- n) = 0)"

section \<open>Pass 1: dasm_put\<close>

text \<open>What a step of the loop of \<open>dasm_put\<close> does next: read the action at an index, stop, or
  return with the status of a failed check.\<close>

datatype 'a put_next = Next nat 'a | Stop 'a | Fail dasm_state

record put_state =
  ps_state :: dasm_state
  ps_pos :: int
  ps_ofs :: int
  ps_args :: "int list"

definition fail_at :: "dasm_state \<Rightarrow> u32 \<Rightarrow> nat \<Rightarrow> put_state put_next option" where
  "fail_at D st p = Some (Fail (D\<lparr>d_status := st OR of_nat p\<rparr>))"

text \<open>\<open>CKPL\<close>: the byte offset of the slot, as an unsigned number, against the size of the table.\<close>

definition ckpl :: "dasm_state \<Rightarrow> label_table \<Rightarrow> int \<Rightarrow> bool" where
  "ckpl D t n \<longleftrightarrow>
     (word_of_int (n * 4) :: u32) < (case t of LG_labels \<Rightarrow> d_lgsize D | PC_labels \<Rightarrow> d_pcsize D)"

text \<open>\<open>b[pos++] = n\<close> and the end of a case.\<close>

definition put_cell :: "nat \<Rightarrow> nat \<Rightarrow> int \<Rightarrow> put_state \<Rightarrow> put_state put_next option" where
  "put_cell s p n ps = do {
     D \<leftarrow> sec_set (ps_state ps) s (ps_pos ps) n;
     Some (Next (Suc p) (ps\<lparr>ps_state := D, ps_pos := ps_pos ps + 1\<rparr>))
   }"

text \<open>The label \<open>linkrel\<close>: the cell links to the rest of the chain and becomes its head.\<close>

definition link_rel ::
  "nat \<Rightarrow> nat \<Rightarrow> label_table \<Rightarrow> int \<Rightarrow> int \<Rightarrow> put_state \<Rightarrow> put_state put_next option" where
  "link_rel s p t l n ps = do {
     D \<leftarrow> sec_set (ps_state ps) s (ps_pos ps) n;
     D \<leftarrow> lab_set D t l (ps_pos ps);
     Some (Next (Suc p) (ps\<lparr>ps_state := D, ps_pos := ps_pos ps + 1\<rparr>))
   }"

definition put_rel ::
  "nat \<Rightarrow> nat \<Rightarrow> label_table \<Rightarrow> int \<Rightarrow> put_state \<Rightarrow> put_state put_next option" where
  "put_rel s p t l ps = do {
     n \<leftarrow> lab_get (ps_state ps) t l;
     if n < 0 then put_cell s p (- n) ps else link_rel s p t l n ps
   }"

text \<open>\<open>while (n > 0)\<close>: each cell of a chain is replaced by \<open>v\<close>.\<close>

partial_function (option) collapse :: "dasm_state \<Rightarrow> int \<Rightarrow> int \<Rightarrow> dasm_state option" where
  "collapse D n v =
     (if 0 < n then do {
        n' \<leftarrow> pos_get D n;
        D' \<leftarrow> pos_set D n v;
        collapse D' n' v
      } else Some D)"

declare collapse.simps [code]

definition put_label ::
  "nat \<Rightarrow> nat \<Rightarrow> label_table \<Rightarrow> int \<Rightarrow> put_state \<Rightarrow> put_state put_next option" where
  "put_label s p t l ps = do {
     n \<leftarrow> lab_get (ps_state ps) t l;
     D \<leftarrow> collapse (ps_state ps) n (ps_pos ps);
     D \<leftarrow> lab_set D t l (- ps_pos ps);
     put_cell s p (ps_ofs ps) (ps\<lparr>ps_state := D\<rparr>)
   }"

text \<open>One action other than a literal instruction, with its argument already fetched.\<close>

fun put_action ::
  "nat \<Rightarrow> nat \<Rightarrow> u32 \<Rightarrow> dasm_action \<Rightarrow> int \<Rightarrow> put_state \<Rightarrow> put_state put_next option" where
  "put_action s p ins DASM_STOP n ps = Some (Stop ps)"
| "put_action s p ins DASM_SECTION _ ps =
     (let n = unat (ins AND 255); D = ps_state ps
      in if n < d_maxsection D then Some (Stop (ps\<lparr>ps_state := D\<lparr>d_section := n\<rparr>\<rparr>))
         else fail_at D DASM_S_RANGE_SEC p)"
| "put_action s p ins DASM_ESC _ ps = Some (Next (p + 2) (ps\<lparr>ps_ofs := ps_ofs ps + 4\<rparr>))"
| "put_action s p ins DASM_REL_EXT _ ps = Some (Next (Suc p) ps)"
| "put_action s p ins DASM_ALIGN _ ps =
     (let ofs = ps_ofs ps + int (unat (ins AND 255))
      in put_cell s p ofs (ps\<lparr>ps_ofs := ofs\<rparr>))"
| "put_action s p ins DASM_REL_LG _ ps =
     (let n = int (unat (ins AND 2047)) - 10; D = ps_state ps
      in if 0 \<le> n then do {
           ok \<leftarrow> (if 10 \<le> n then Some True else map_option (\<lambda>v. v < 0) (lab_get D LG_labels n));
           if \<not> ok then fail_at D DASM_S_RANGE_LG p
           else if \<not> ckpl D LG_labels n then fail_at D DASM_S_RANGE_LG p
           else put_rel s p LG_labels n ps
         } else do {
           v \<leftarrow> lab_get D LG_labels (n + 10);
           link_rel s p LG_labels (n + 10) (if v < 0 then 0 else v) ps
         })"
| "put_action s p ins DASM_REL_PC n ps =
     (if ckpl (ps_state ps) PC_labels n then put_rel s p PC_labels n ps
      else fail_at (ps_state ps) DASM_S_RANGE_PC p)"
| "put_action s p ins DASM_LABEL_LG _ ps =
     (let n = int (unat (ins AND 2047)) - 10
      in if ckpl (ps_state ps) LG_labels n then put_label s p LG_labels n ps
         else fail_at (ps_state ps) DASM_S_RANGE_LG p)"
| "put_action s p ins DASM_LABEL_PC n ps =
     (if ckpl (ps_state ps) PC_labels n then put_label s p PC_labels n ps
      else fail_at (ps_state ps) DASM_S_RANGE_PC p)"
| "put_action s p ins DASM_IMM n ps = do {
     ok \<leftarrow> imm_checks ins n;
     if ok then put_cell s p n ps else fail_at (ps_state ps) DASM_S_RANGE_I p
   }"
| "put_action s p ins DASM_IMM16 n ps = do {
     ok \<leftarrow> imm_checks ins n;
     if ok then put_cell s p n ps else fail_at (ps_state ps) DASM_S_RANGE_I p
   }"
| "put_action s p ins DASM_IMMV8 n ps =
     (if n AND 3 = 0 \<and> imml_check ins (drop_bit 2 n) then put_cell s p (drop_bit 2 n) ps
      else fail_at (ps_state ps) DASM_S_RANGE_I p)"
| "put_action s p ins DASM_IMML8 n ps =
     (if imml_check ins n then put_cell s p n ps else fail_at (ps_state ps) DASM_S_RANGE_I p)"
| "put_action s p ins DASM_IMML12 n ps =
     (if imml_check ins n then put_cell s p n ps else fail_at (ps_state ps) DASM_S_RANGE_I p)"
| "put_action s p ins DASM_IMM12 n ps =
     (if dasm_imm12 (word_of_int n) \<noteq> -1 then put_cell s p n ps
      else fail_at (ps_state ps) DASM_S_RANGE_I p)"

text \<open>One iteration of \<open>while (1)\<close>; reading past the arguments or the list is undefined.\<close>

definition put_step :: "u32 list \<Rightarrow> nat \<Rightarrow> nat \<Rightarrow> put_state \<Rightarrow> put_state put_next option" where
  "put_step al s p ps =
     (if length al \<le> p then None
      else case action_of (al ! p) of
        None \<Rightarrow> Some (Next (Suc p) (ps\<lparr>ps_ofs := ps_ofs ps + 4\<rparr>))
      | Some a \<Rightarrow>
          if takes_arg a then
            (case ps_args ps of
               [] \<Rightarrow> None
             | n # rest \<Rightarrow> put_action s p (al ! p) a n (ps\<lparr>ps_args := rest\<rparr>))
          else put_action s p (al ! p) a 0 ps)"

text \<open>Every path of the loop moves forward in the action list.\<close>

definition next_index :: "'a put_next \<Rightarrow> nat \<Rightarrow> bool" where
  "next_index r p \<longleftrightarrow> (case r of Next p' _ \<Rightarrow> p < p' | _ \<Rightarrow> True)"

lemma put_cell_next: "put_cell s p n ps = Some r \<Longrightarrow> next_index r p"
  by (auto simp: put_cell_def next_index_def split: Option.bind_splits)

lemma link_rel_next: "link_rel s p t l n ps = Some r \<Longrightarrow> next_index r p"
  by (auto simp: link_rel_def next_index_def split: Option.bind_splits)

lemma put_rel_next: "put_rel s p t l ps = Some r \<Longrightarrow> next_index r p"
  by (auto simp: put_rel_def split: Option.bind_splits if_splits dest: put_cell_next link_rel_next)

lemma put_label_next: "put_label s p t l ps = Some r \<Longrightarrow> next_index r p"
  by (auto simp: put_label_def split: Option.bind_splits dest: put_cell_next)

lemma fail_at_next: "fail_at D st p = Some r \<Longrightarrow> next_index r p'"
  by (auto simp: fail_at_def next_index_def)

lemmas put_part_next = put_cell_next link_rel_next put_rel_next put_label_next fail_at_next

lemma put_action_next: "put_action s p ins a n ps = Some r \<Longrightarrow> next_index r p"
  by (cases a)
    (auto simp: Let_def next_index_def [of "Stop _"] next_index_def [of "Next _ _"]
      split: if_splits Option.bind_splits dest!: put_part_next)

lemma put_step_next: "put_step al s p ps = Some r \<Longrightarrow> next_index r p \<and> p < length al"
  by (auto simp: put_step_def next_index_def [of "Next _ _"]
      split: if_splits option.splits list.splits dest: put_action_next)

function dasm_put_loop ::
  "u32 list \<Rightarrow> nat \<Rightarrow> nat \<Rightarrow> put_state \<Rightarrow> put_state put_next option" where
  "dasm_put_loop al s p ps =
     (case put_step al s p ps of
        None \<Rightarrow> None
      | Some (Next p' ps') \<Rightarrow> dasm_put_loop al s p' ps'
      | Some (Stop ps') \<Rightarrow> Some (Stop ps')
      | Some (Fail D) \<Rightarrow> Some (Fail D))"
  by pat_completeness auto
termination
  by (relation "measure (\<lambda>(al, s, p, ps). length al - p)")
    (auto dest!: put_step_next simp: next_index_def)

declare dasm_put_loop.simps [simp del]

text \<open>The buffer of the section grows when its position has reached \<open>epos\<close>; a failed check returns
  without storing the position and the offset of the section.\<close>

definition put_room :: "(nat \<Rightarrow> int) \<Rightarrow> dasm_section \<Rightarrow> dasm_section option" where
  "put_room junk sec =
     (if sec_epos sec \<le> sec_pos sec then do {
        sz \<leftarrow> m_grow (sec_bsize sec) (sec_bsize sec + 2 * of_nat DASM_MAXSECPOS * 4);
        Some (sec\<lparr>sec_buf := m_realloc junk (sec_buf sec) sz, sec_bsize := sz,
          sec_epos := int (words_of sz) - int DASM_MAXSECPOS + sec_pos sec div 2 ^ 24 * 2 ^ 24\<rparr>)
      } else Some sec)"

definition dasm_put :: "(nat \<Rightarrow> int) \<Rightarrow> nat \<Rightarrow> int list \<Rightarrow> dasm_state \<Rightarrow> dasm_state option" where
  "dasm_put junk start args D =
     (let s = d_section D in
      if length (d_sections D) \<le> s then None
      else do {
        sec \<leftarrow> put_room junk (d_sections D ! s);
        let D = D\<lparr>d_sections := (d_sections D)[s := sec]\<rparr>;
        D \<leftarrow> sec_set D s (sec_pos sec) (int start);
        r \<leftarrow> dasm_put_loop (d_actionlist D) s start
          \<lparr>ps_state = D, ps_pos = sec_pos sec + 1, ps_ofs = sec_ofs sec, ps_args = args\<rparr>;
        (case r of
           Stop ps \<Rightarrow>
             (let D = ps_state ps
              in Some (D\<lparr>d_sections := (d_sections D)[s :=
                   (d_sections D ! s)\<lparr>sec_pos := ps_pos ps, sec_ofs := ps_ofs ps\<rparr>]\<rparr>))
         | Fail D \<Rightarrow> Some D
         | Next _ _ \<Rightarrow> None)
      })"

section \<open>Pass 2: dasm_link\<close>

text \<open>The loop over the numbered labels, and the loop over the globals from index 20 on.\<close>

definition undefined_pc :: "dasm_state \<Rightarrow> nat option" where
  "undefined_pc D = find (\<lambda>pc. 0 < d_pclabels D ! pc) [0..<words_of (d_pcsize D)]"

fun link_globals :: "nat list \<Rightarrow> dasm_state \<Rightarrow> dasm_state option" where
  "link_globals [] D = Some D"
| "link_globals (idx # rest) D = do {
     n \<leftarrow> lab_get D LG_labels (int idx);
     D \<leftarrow> collapse D n (- int idx);
     link_globals rest D
   }"

text \<open>One action: the index of the next one, or none at the end of the list.\<close>

definition link_action ::
  "nat \<Rightarrow> nat \<Rightarrow> u32 \<Rightarrow> dasm_state \<times> int \<times> int \<Rightarrow>
   (nat option \<times> dasm_state \<times> int \<times> int) option" where
  "link_action s p ins st =
     (let (D, pos, ofs) = st
      in case action_of ins of
        None \<Rightarrow> Some (Some (Suc p), st)
      | Some a \<Rightarrow>
          if a \<in> {DASM_STOP, DASM_SECTION} then Some (None, st)
          else if a = DASM_ESC then Some (Some (p + 2), st)
          else if a = DASM_REL_EXT then Some (Some (Suc p), st)
          else if a = DASM_ALIGN then do {
            b \<leftarrow> sec_get D s pos;
            Some (Some (Suc p), D, pos + 1, ofs - ((b + ofs) AND int (unat (ins AND 255))))
          }
          else if a \<in> {DASM_LABEL_LG, DASM_LABEL_PC} then do {
            b \<leftarrow> sec_get D s pos;
            D \<leftarrow> sec_set D s pos (b + ofs);
            Some (Some (Suc p), D, pos + 1, ofs)
          }
          else Some (Some (Suc p), D, pos + 1, ofs))"

lemma link_action_next: "link_action s p ins st = Some (Some p', st') \<Longrightarrow> p < p'"
  by (auto simp: link_action_def split: prod.splits option.splits if_splits Option.bind_splits)

function link_list ::
  "u32 list \<Rightarrow> nat \<Rightarrow> nat \<Rightarrow> dasm_state \<times> int \<times> int \<Rightarrow> (dasm_state \<times> int \<times> int) option" where
  "link_list al s p st =
     (if length al \<le> p then None
      else case link_action s p (al ! p) st of
        None \<Rightarrow> None
      | Some (None, st') \<Rightarrow> Some st'
      | Some (Some p', st') \<Rightarrow> link_list al s p' st')"
  by pat_completeness auto
termination
  by (relation "measure (\<lambda>(al, s, p, st). length al - p)") (auto dest!: link_action_next)

declare link_list.simps [simp del]

text \<open>\<open>while (pos != lastpos)\<close> over the cells of one section.\<close>

partial_function (option) link_section ::
  "nat \<Rightarrow> int \<Rightarrow> dasm_state \<times> int \<times> int \<Rightarrow> (dasm_state \<times> int \<times> int) option" where
  "link_section s lastpos st =
     (let (D, pos, ofs) = st
      in if pos = lastpos then Some st
         else do {
           start \<leftarrow> sec_get D s pos;
           if start < 0 then None
           else do {
             st \<leftarrow> link_list (d_actionlist D) s (nat start) (D, pos + 1, ofs);
             link_section s lastpos st
           }
         })"

declare link_section.simps [code]

fun link_sections :: "nat list \<Rightarrow> dasm_state \<times> int \<Rightarrow> (dasm_state \<times> int) option" where
  "link_sections [] st = Some st"
| "link_sections (s # rest) (D, ofs) =
     (if length (d_sections D) \<le> s then None
      else do {
        (D, pos, ofs) \<leftarrow> link_section s (sec_pos (d_sections D ! s)) (D, sec_bias s, ofs);
        link_sections rest (D, ofs + sec_ofs (d_sections D ! s))
      })"

text \<open>The status, \<open>*szp\<close> and the state; labels that were never placed are reported first.\<close>

definition dasm_link :: "dasm_state \<Rightarrow> (u32 \<times> u32 \<times> dasm_state) option" where
  "dasm_link D =
     (if d_status D \<noteq> DASM_S_OK then Some (d_status D, 0, D)
      else case undefined_pc D of
        Some pc \<Rightarrow> Some (DASM_S_UNDEF_PC OR of_nat pc, 0, D)
      | None \<Rightarrow> do {
          D \<leftarrow> link_globals [20..<words_of (d_lgsize D)] D;
          (D, ofs) \<leftarrow> link_sections [0..<d_maxsection D] (D, 0);
          Some (DASM_S_OK, word_of_int ofs, D\<lparr>d_codesize := word_of_int ofs\<rparr>)
        })"

section \<open>Pass 3: dasm_encode\<close>

text \<open>The output buffer with the write position \<open>cp\<close> (in words), and the array of globals.\<close>

record enc_state =
  es_code :: "u32 list"
  es_cp :: nat
  es_globals :: "u32 list option"

definition emit :: "u32 \<Rightarrow> enc_state \<Rightarrow> enc_state option" where
  "emit w es =
     (if es_cp es < length (es_code es)
      then Some (es\<lparr>es_code := (es_code es)[es_cp es := w], es_cp := Suc (es_cp es)\<rparr>) else None)"

text \<open>\<open>cp[-1] |= v\<close>\<close>

definition patch :: "u32 \<Rightarrow> enc_state \<Rightarrow> enc_state option" where
  "patch v es =
     (if 0 < es_cp es \<and> es_cp es \<le> length (es_code es)
      then Some (es\<lparr>es_code := (es_code es)[es_cp es - 1 := es_code es ! (es_cp es - 1) OR v]\<rparr>)
      else None)"

text \<open>\<open>while ((((char *)cp - base) & ins)) *cp++ = 0xe1a00000\<close>: the instruction is \<open>mov r0, r0\<close>.\<close>

function emit_nops :: "u32 \<Rightarrow> enc_state \<Rightarrow> enc_state option" where
  "emit_nops m es =
     (if (of_nat (4 * es_cp es) :: u32) AND m = 0 then Some es
      else case emit 0xe1a00000 es of None \<Rightarrow> None | Some es' \<Rightarrow> emit_nops m es')"
  by pat_completeness auto
termination
  by (relation "measure (\<lambda>(m, es). length (es_code es) - es_cp es)")
    (auto simp: emit_def split: if_splits)

declare emit_nops.simps [simp del]

text \<open>The bits that the immediates put into the instruction before.\<close>

definition imm_field :: "u32 \<Rightarrow> int \<Rightarrow> u32" where
  "imm_field ins n =
     push_bit (imm_shift ins)
       (word_of_int (drop_bit (imm_scale ins) n AND (push_bit (imm_bits ins) 1 - 1)))"

definition imm16_field :: "int \<Rightarrow> u32" where
  "imm16_field n = word_of_int (push_bit 4 (n AND 0xf000) OR (n AND 0x0fff))"

definition imml8_field :: "int \<Rightarrow> u32" where
  "imml8_field n =
     word_of_int (if 0 \<le> n then 0x00800000 OR (n AND 0x0f) OR push_bit 4 (n AND 0xf0)
       else (- n AND 0x0f) OR push_bit 4 (- n AND 0xf0))"

definition imml_field :: "int \<Rightarrow> u32" where
  "imml_field n = word_of_int (if 0 \<le> n then 0x00800000 OR n else - n)"

text \<open>The label \<open>patchrel\<close>: the mode bits of the action select a branch, a load with an 8-bit or a 12-bit offset, or a
  load of the floating-point unit. None when the distance is out of range.\<close>

definition rel_field :: "u32 \<Rightarrow> int \<Rightarrow> u32 option" where
  "rel_field ins n =
     (if ins AND 0x800 = 0 then
        (if n AND 3 = 0 \<and> drop_bit 26 (n + 0x02000000) = 0
         then Some (word_of_int (drop_bit 2 n AND 0x00ffffff)) else None)
      else if ins AND 0x1000 \<noteq> 0 then
        (if n AND 3 = 0 \<and> -256 \<le> n \<and> n \<le> 256 then Some (imml8_field n) else None)
      else if ins AND 0x2000 = 0 then
        (if n AND 3 = 0 \<and> -4096 \<le> n \<and> n \<le> 4096 then Some (imml_field n) else None)
      else
        (if n AND 3 = 0 \<and> -1020 \<le> n \<and> n \<le> 1020 then Some (imml_field (drop_bit 2 n))
         else None))"

text \<open>What an action makes of the output: go on at an index, the end of the list, or a status.\<close>

datatype enc_next = Enc nat enc_state | EncEnd enc_state | EncFail u32 enc_state

definition enc_patch :: "nat \<Rightarrow> u32 \<Rightarrow> enc_state \<Rightarrow> enc_next option" where
  "enc_patch p v es = map_option (Enc (Suc p)) (patch v es)"

definition enc_rel :: "nat \<Rightarrow> u32 \<Rightarrow> int \<Rightarrow> enc_state \<Rightarrow> enc_next option" where
  "enc_rel p ins n es =
     (case rel_field ins n of
        None \<Rightarrow> Some (EncFail (DASM_S_RANGE_REL OR of_nat p) es)
      | Some v \<Rightarrow> enc_patch p v es)"

text \<open>\<open>n = *DASM_POS2PTR(D, n) - (int)((char *)cp - base) - 4\<close>\<close>

definition enc_label :: "dasm_state \<Rightarrow> nat \<Rightarrow> u32 \<Rightarrow> int \<Rightarrow> enc_state \<Rightarrow> enc_next option" where
  "enc_label D p ins n es = do {
     target \<leftarrow> pos_get D n;
     enc_rel p ins (target - int (4 * es_cp es) - 4) es
   }"

fun enc_action ::
  "dasm_state \<Rightarrow> (u32 \<Rightarrow> u32 \<Rightarrow> bool \<Rightarrow> int) \<Rightarrow> u32 \<Rightarrow> u32 list \<Rightarrow> nat \<Rightarrow> u32 \<Rightarrow> dasm_action \<Rightarrow> int \<Rightarrow>
   enc_state \<Rightarrow> enc_next option" where
  "enc_action D ext base al p ins DASM_STOP n es = Some (EncEnd es)"
| "enc_action D ext base al p ins DASM_SECTION n es = Some (EncEnd es)"
| "enc_action D ext base al p ins DASM_ESC n es =
     (if Suc p < length al then map_option (Enc (p + 2)) (emit (al ! Suc p) es) else None)"
| "enc_action D ext base al p ins DASM_REL_EXT n es =
     enc_rel p ins (ext (base + of_nat (4 * es_cp es)) (ins AND 2047) (ins AND 2048 = 0)) es"
| "enc_action D ext base al p ins DASM_ALIGN n es =
     map_option (Enc (Suc p)) (emit_nops (ins AND 255) es)"
| "enc_action D ext base al p ins DASM_REL_LG n es =
     (if n < 0 then Some (EncFail (DASM_S_UNDEF_LG OR of_nat p) es) else enc_label D p ins n es)"
| "enc_action D ext base al p ins DASM_REL_PC n es =
     (if n < 0 then Some (EncFail (DASM_S_UNDEF_PC OR of_nat p) es) else enc_label D p ins n es)"
| "enc_action D ext base al p ins DASM_LABEL_LG n es =
     (let i = unat (ins AND 2047)
      in if i < 20 then Some (Enc (Suc p) es)
         else case es_globals es of
           None \<Rightarrow> None
         | Some gl \<Rightarrow>
             if i - 20 < length gl
             then Some (Enc (Suc p)
               (es\<lparr>es_globals := Some (gl[i - 20 := base + word_of_int n])\<rparr>))
             else None)"
| "enc_action D ext base al p ins DASM_LABEL_PC n es = Some (Enc (Suc p) es)"
| "enc_action D ext base al p ins DASM_IMM n es = enc_patch p (imm_field ins n) es"
| "enc_action D ext base al p ins DASM_IMM12 n es =
     enc_patch p (word_of_int (dasm_imm12 (word_of_int n))) es"
| "enc_action D ext base al p ins DASM_IMM16 n es = enc_patch p (imm16_field n) es"
| "enc_action D ext base al p ins DASM_IMML8 n es = enc_patch p (imml8_field n) es"
| "enc_action D ext base al p ins DASM_IMML12 n es = enc_patch p (imml_field n) es"
| "enc_action D ext base al p ins DASM_IMMV8 n es = enc_patch p (imml_field n) es"

text \<open>One iteration: the cell of the action is read through the plain pointer \<open>b\<close> into section \<open>s\<close>.\<close>

definition enc_step ::
  "dasm_state \<Rightarrow> (u32 \<Rightarrow> u32 \<Rightarrow> bool \<Rightarrow> int) \<Rightarrow> u32 \<Rightarrow> nat \<Rightarrow> nat \<Rightarrow> int \<Rightarrow> enc_state \<Rightarrow>
   (int \<times> enc_next) option" where
  "enc_step D ext base s p b es =
     (let al = d_actionlist D
      in if length al \<le> p then None
         else case action_of (al ! p) of
           None \<Rightarrow> map_option (\<lambda>es. (b, Enc (Suc p) es)) (emit (al ! p) es)
         | Some a \<Rightarrow>
             if takes_cell a then do {
               n \<leftarrow> sec_get D s b;
               map_option (Pair (b + 1)) (enc_action D ext base al p (al ! p) a n es)
             }
             else map_option (Pair b) (enc_action D ext base al p (al ! p) a 0 es))"

definition enc_forward :: "enc_next \<Rightarrow> nat \<Rightarrow> bool" where
  "enc_forward r p \<longleftrightarrow> (case r of Enc p' _ \<Rightarrow> p < p' | _ \<Rightarrow> True)"

lemma enc_patch_next: "enc_patch p v es = Some r \<Longrightarrow> enc_forward r p"
  by (auto simp: enc_patch_def enc_forward_def)

lemma enc_rel_next: "enc_rel p ins n es = Some r \<Longrightarrow> enc_forward r p"
  by (auto simp: enc_rel_def enc_forward_def [of "EncFail _ _"]
      split: option.splits dest: enc_patch_next)

lemma enc_label_next: "enc_label D p ins n es = Some r \<Longrightarrow> enc_forward r p"
  by (auto simp: enc_label_def split: Option.bind_splits dest: enc_rel_next)

lemma enc_action_next: "enc_action D ext base al p ins a n es = Some r \<Longrightarrow> enc_forward r p"
  by (cases a)
    (auto simp: Let_def enc_forward_def [of "EncFail _ _"] enc_forward_def [of "EncEnd _"]
      enc_forward_def [of "Enc _ _"] split: if_splits option.splits
      dest: enc_patch_next enc_rel_next enc_label_next)

lemma enc_step_next:
  "enc_step D ext base s p b es = Some (b', Enc p' es') \<Longrightarrow> p < p' \<and> p < length (d_actionlist D)"
  by (auto simp: enc_step_def Let_def enc_forward_def
      split: if_splits option.splits Option.bind_splits dest!: enc_action_next)

function enc_list ::
  "dasm_state \<Rightarrow> (u32 \<Rightarrow> u32 \<Rightarrow> bool \<Rightarrow> int) \<Rightarrow> u32 \<Rightarrow> nat \<Rightarrow> nat \<Rightarrow> int \<Rightarrow> enc_state \<Rightarrow>
   (int \<times> enc_next) option" where
  "enc_list D ext base s p b es =
     (case enc_step D ext base s p b es of
        None \<Rightarrow> None
      | Some (b', Enc p' es') \<Rightarrow> enc_list D ext base s p' b' es'
      | Some (b', EncEnd es') \<Rightarrow> Some (b', EncEnd es')
      | Some (b', EncFail st es') \<Rightarrow> Some (b', EncFail st es'))"
  by pat_completeness auto
termination
  by (relation "measure (\<lambda>(D, ext, base, s, p, b, es). length (d_actionlist D) - p)")
    (auto dest!: enc_step_next)

declare enc_list.simps [simp del]

text \<open>\<open>while (b != endb)\<close>\<close>

partial_function (option) enc_section ::
  "dasm_state \<Rightarrow> (u32 \<Rightarrow> u32 \<Rightarrow> bool \<Rightarrow> int) \<Rightarrow> u32 \<Rightarrow> nat \<Rightarrow> int \<Rightarrow> enc_state \<Rightarrow>
   (u32 \<times> enc_state) option" where
  "enc_section D ext base s b es =
     (if b = sec_pos (d_sections D ! s) then Some (DASM_S_OK, es)
      else do {
        start \<leftarrow> sec_get D s b;
        if start < 0 then None
        else do {
          (b', r) \<leftarrow> enc_list D ext base s (nat start) (b + 1) es;
          (case r of
             EncEnd es' \<Rightarrow> enc_section D ext base s b' es'
           | EncFail st es' \<Rightarrow> Some (st, es')
           | Enc _ _ \<Rightarrow> None)
        }
      })"

declare enc_section.simps [code]

fun enc_sections ::
  "dasm_state \<Rightarrow> (u32 \<Rightarrow> u32 \<Rightarrow> bool \<Rightarrow> int) \<Rightarrow> u32 \<Rightarrow> nat list \<Rightarrow> enc_state \<Rightarrow>
   (u32 \<times> enc_state) option" where
  "enc_sections D ext base [] es = Some (DASM_S_OK, es)"
| "enc_sections D ext base (s # rest) es =
     (if length (d_sections D) \<le> s then None
      else do {
        (st, es) \<leftarrow> enc_section D ext base s (sec_bias s) es;
        if st \<noteq> DASM_S_OK then Some (st, es) else enc_sections D ext base rest es
      })"

definition dasm_encode ::
  "(u32 \<Rightarrow> u32 \<Rightarrow> bool \<Rightarrow> int) \<Rightarrow> u32 \<Rightarrow> u32 list \<Rightarrow> dasm_state \<Rightarrow>
   (u32 \<times> u32 list \<times> dasm_state) option" where
  "dasm_encode ext base code D = do {
     (st, es) \<leftarrow> enc_sections D ext base [0..<d_maxsection D]
       \<lparr>es_code = code, es_cp = 0, es_globals = d_globals D\<rparr>;
     let D' = D\<lparr>d_globals := es_globals es\<rparr>;
     if st \<noteq> DASM_S_OK then Some (st, es_code es, D')
     else if base + d_codesize D \<noteq> base + of_nat (4 * es_cp es)
     then Some (DASM_S_PHASE, es_code es, D')
     else Some (DASM_S_OK, es_code es, D')
   }"

section \<open>Queries\<close>

definition dasm_getpclabel :: "dasm_state \<Rightarrow> u32 \<Rightarrow> int option" where
  "dasm_getpclabel D pc =
     (if pc * 4 < d_pcsize D then do {
        p \<leftarrow> lab_get D PC_labels (int (unat pc));
        if p < 0 then pos_get D (- p) else if 0 < p then Some (-1) else Some (-2)
      } else Some (-2))"

text \<open>The loop over the local labels 1 to 9 stops at the first one that is still referred to.\<close>

fun checkstep_locals :: "nat list \<Rightarrow> dasm_state \<Rightarrow> dasm_state option" where
  "checkstep_locals [] D = Some D"
| "checkstep_locals (i # rest) D = do {
     v \<leftarrow> lab_get D LG_labels (int i);
     if 0 < v then Some (D\<lparr>d_status := DASM_S_UNDEF_LG OR of_nat i\<rparr>)
     else do {
       D \<leftarrow> lab_set D LG_labels (int i) 0;
       checkstep_locals rest D
     }
   }"

definition dasm_checkstep :: "int \<Rightarrow> dasm_state \<Rightarrow> (u32 \<times> dasm_state) option" where
  "dasm_checkstep secmatch D = do {
     D \<leftarrow> (if d_status D = DASM_S_OK then checkstep_locals [1..<10] D else Some D);
     let D = (if d_status D = DASM_S_OK \<and> 0 \<le> secmatch \<and> int (d_section D) \<noteq> secmatch
              then D\<lparr>d_status := DASM_S_MATCH_SEC OR of_nat (d_section D)\<rparr> else D);
     Some (d_status D, D)
   }"

section \<open>The fields of the instructions\<close>

lemma rotl2_word_rotl: "rotl2 n = word_rotl 2 n"
proof (rule bit_word_eqI)
  fix k assume k: "k < LENGTH(32)"
  show "bit (rotl2 n) k = bit (word_rotl 2 n) k"
  proof (cases "k < 2")
    case True
    then show ?thesis using k by (auto simp: rotl2_def bit_simps add.commute dest: bit_imp_le_length)
  next
    case False
    then have "(k + 30) mod 32 = k - 2" using k by (simp add: le_mod_geq)
    then show ?thesis
      using False k by (auto simp: rotl2_def bit_simps dest: bit_imp_le_length)
  qed
qed

lemma word_rotl_0: "word_rotl 0 (w :: u32) = w"
  by (rule bit_word_eqI) (simp add: bit_word_rotl_iff)

lemma word_rotl_add: "word_rotl a (word_rotl b (w :: u32)) = word_rotl (a + b) w"
proof -
  have "word_rotr (b + a) (word_rotl a (word_rotl b w)) = w"
    by (simp flip: word_rotr_word_rotr_eq)
  then show ?thesis by (simp add: word_rot_gal add.commute)
qed

definition arm_immediate :: "nat \<Rightarrow> u32" where
  "arm_immediate e = word_rotr (2 * (e div 256)) (of_nat (e mod 256))"

lemma imm12_loop_result:
  assumes "i \<le> 16"
  shows "(imm12_loop i n = -1 \<and> (\<forall>j. i + j < 16 \<longrightarrow> \<not> word_rotl (2 * j) n \<le> 255)) \<or>
    (\<exists>j. i + j < 16 \<and> word_rotl (2 * j) n \<le> 255 \<and>
      imm12_loop i n = int (unat (word_rotl (2 * j) n)) + int (i + j) * 256)"
  using assms
proof (induction "16 - i" arbitrary: i n)
  case 0
  then show ?case by (subst imm12_loop.simps) (simp add: imm12_loop.simps)
next
  case (Suc k)
  then have i: "i < 16" by simp
  show ?case
  proof (cases "n \<le> 255")
    case True
    then show ?thesis
      using i by (intro disjI2 exI [of _ 0]) (simp add: imm12_loop.simps [of i n] word_rotl_0)
  next
    case False
    have step: "imm12_loop i n = imm12_loop (Suc i) (word_rotl 2 n)"
      using False i by (simp add: imm12_loop.simps [of i n] rotl2_word_rotl)
    have rot: "word_rotl (2 * j) (word_rotl 2 n) = word_rotl (2 * Suc j) n" for j
      by (simp add: word_rotl_add)
    have k: "k = 16 - Suc i" using Suc.hyps(2) by simp
    from Suc.hyps(1) [OF k, of "word_rotl 2 n"] i
    consider (none) "imm12_loop (Suc i) (word_rotl 2 n) = -1"
        "\<forall>j. Suc i + j < 16 \<longrightarrow> \<not> word_rotl (2 * Suc j) n \<le> 255"
      | (some) j where "Suc i + j < 16" "word_rotl (2 * Suc j) n \<le> 255"
        "imm12_loop (Suc i) (word_rotl 2 n) = int (unat (word_rotl (2 * Suc j) n)) + int (Suc i + j) * 256"
      unfolding rot by auto
    then show ?thesis
    proof cases
      case none
      have "\<not> word_rotl (2 * j) n \<le> 255" if "i + j < 16" for j
        using none(2) that False by (cases j) (auto simp: word_rotl_0)
      then show ?thesis using none(1) step by simp
    next
      case some
      then show ?thesis using step by (intro disjI2 exI [of _ "Suc j"]) simp
    qed
  qed
qed

text \<open>C12: \<open>dasm_imm12\<close> is exactly the ARM immediate encoding: its result, read the way the processor reads
  an immediate operand (8 bits rotated right by twice the upper 4), is the argument, and -1 means that none of the 4096
  encodings gives the argument.\<close>

theorem dasm_imm12_encodes:
  "if dasm_imm12 n = -1 then n \<notin> arm_immediate ` {..<4096}
   else 0 \<le> dasm_imm12 n \<and> dasm_imm12 n < 4096 \<and> arm_immediate (nat (dasm_imm12 n)) = n"
proof -
  consider (none) "dasm_imm12 n = -1" "\<forall>j < 16. \<not> word_rotl (2 * j) n \<le> 255"
    | (some) j where "j < 16" "word_rotl (2 * j) n \<le> 255"
      "dasm_imm12 n = int (unat (word_rotl (2 * j) n)) + int j * 256"
    using imm12_loop_result [of 0 n] unfolding dasm_imm12_def by auto
  then show ?thesis
  proof cases
    case none
    have "arm_immediate e \<noteq> n" if "e < 4096" for e
    proof
      assume "arm_immediate e = n"
      then have "word_rotl (2 * (e div 256)) n = of_nat (e mod 256)"
        by (simp add: arm_immediate_def word_rot_gal)
      moreover have "(of_nat (e mod 256) :: u32) \<le> 255"
        by (simp add: word_le_nat_alt unat_of_nat32 less_Suc_eq_le [symmetric])
      moreover have "e div 256 < 16" using that by (simp add: less_mult_imp_div_less)
      ultimately show False using none(2) by metis
    qed
    then show ?thesis using none(1) by auto
  next
    case some
    have u: "unat (word_rotl (2 * j) n) < 256" using some(2) by (simp add: word_le_nat_alt)
    define e where "e = unat (word_rotl (2 * j) n) + j * 256"
    have e: "dasm_imm12 n = int e" "e div 256 = j" "e mod 256 = unat (word_rotl (2 * j) n)" "e < 4096"
      using some u by (auto simp: e_def)
    then show ?thesis by (simp add: arm_immediate_def)
  qed
qed

text \<open>The target of a branch instruction: its address plus 8 plus the signed 24-bit word offset.\<close>

definition arm_branch_target :: "int \<Rightarrow> u32 \<Rightarrow> int" where
  "arm_branch_target a w = a + 8 + 4 * signed_take_bit 23 (uint w)"

lemma branch_field:
  assumes "4 dvd n" and "- (2 ^ 25) \<le> n" and "n < 2 ^ 25" and w: "w AND 0x00ffffff = (0 :: u32)"
  shows "4 * signed_take_bit 23 (uint (w OR word_of_int (drop_bit 2 n AND 0x00ffffff))) = n"
proof -
  obtain q where q: "n = 4 * q" using assms(1) by blast
  have bits: "bit (uint (w OR word_of_int (q AND 0x00ffffff))) k = bit q k" if k: "k < 24" for k
  proof -
    have "bit (w AND mask 24) k = False" using w by (simp add: mask_eq_exp_minus_1)
    then have "\<not> bit w k" using k by (simp add: bit_simps)
    moreover have "bit (0x00ffffff :: int) k" using k mask_eq_exp_minus_1 [of 24, where 'a = int] bit_mask_iff [of 24 k, where 'a = int]
      by simp
    ultimately show ?thesis using k by (simp add: bit_simps)
  qed
  have "signed_take_bit 23 (uint (w OR word_of_int (q AND 0x00ffffff))) = signed_take_bit 23 q"
    by (rule bit_eqI) (auto simp: bit_signed_take_bit_iff bits min_def)
  also have "\<dots> = q" using assms q by (intro signed_take_bit_int_eq_self) auto
  finally show ?thesis using q by (simp add: drop_bit_eq_div)
qed

lemma rel_field_branch:
  assumes "ins AND 0x800 = 0"
  shows "rel_field ins n = (if 4 dvd n \<and> - (2 ^ 25) \<le> n \<and> n < 2 ^ 25
    then Some (word_of_int (drop_bit 2 n AND 0x00ffffff)) else None)"
proof -
  have "n AND 3 = n mod 4" using take_bit_eq_mask [of 2 n] take_bit_eq_mod [of 2 n] by (simp add: mask_eq_exp_minus_1)
  moreover have "drop_bit 26 (n + 0x02000000) = 0 \<longleftrightarrow> - (2 ^ 25) \<le> n \<and> n < 2 ^ 25"
    by (auto simp: drop_bit_eq_div div_eq_0_iff)
  ultimately show ?thesis using assms by (auto simp: rel_field_def mod_eq_0_iff_dvd)
qed

text \<open>C13: a branch at address \<open>a\<close> to \<open>t\<close>: the field that \<open>dasm_encode\<close> ORs into the instruction makes the processor
  go to \<open>t\<close>, and the range error is reported only for targets that no branch can reach.\<close>

theorem dasm_branch_reaches:
  assumes "ins AND 0x800 = 0" and "w AND 0x00ffffff = 0"
  shows "case rel_field ins (t - (a + 4) - 4) of
      None \<Rightarrow> \<not> (4 dvd (t - a) \<and> - (2 ^ 25) \<le> t - a - 8 \<and> t - a - 8 < 2 ^ 25)
    | Some v \<Rightarrow> arm_branch_target a (w OR v) = t"
proof -
  have "4 dvd (t - (a + 4) - 4) \<longleftrightarrow> 4 dvd (t - a)" by presburger
  then show ?thesis
    using branch_field [of "t - (a + 4) - 4" w] assms
    by (auto simp: rel_field_branch arm_branch_target_def)
qed

lemma dasm_branch_reaches_witness:
  "case rel_field 0 (4096 - (100 + 4) - 4) of
      None \<Rightarrow> \<not> (4 dvd (4096 - 100 :: int) \<and> - (2 ^ 25) \<le> 4096 - 100 - (8 :: int) \<and> 4096 - 100 - (8 :: int) < 2 ^ 25)
    | Some v \<Rightarrow> arm_branch_target 100 (0xea000000 OR v) = 4096"
  by (rule dasm_branch_reaches [of 0 "0xea000000" 4096 100]) simp_all

text \<open>The address of a load relative to the program counter: a 12-bit offset, added if bit 23 is set.\<close>

definition arm_load_address :: "int \<Rightarrow> u32 \<Rightarrow> int" where
  "arm_load_address a w =
     a + 8 + (if bit w 23 then uint (w AND 0xfff) else - uint (w AND 0xfff))"

lemma and_fff: "n AND 0xfff = n mod 4096" for n :: int
  using take_bit_eq_mask [of 12 n] take_bit_eq_mod [of 12 n] by (simp add: mask_eq_exp_minus_1)

lemma imml_field_low:
  assumes "-4096 \<le> n" and "n \<le> 4096"
  shows "uint (imml_field n AND 0xfff) = \<bar>n\<bar> mod 4096" and "bit (imml_field n) 23 \<longleftrightarrow> 0 \<le> n"
proof -
  let ?x = "if 0 \<le> n then 0x00800000 OR n else - n"
  have "?x AND 0xfff = \<bar>n\<bar> mod 4096"
  proof (cases "0 \<le> n")
    case True
    have "(0x00800000 OR n) AND 0xfff = n AND 0xfff" by (simp add: bit.conj_disj_distrib2)
    then show ?thesis using True by (simp only: if_True and_fff abs_of_nonneg)
  qed (simp add: and_fff)
  moreover have "(word_of_int ?x :: u32) AND word_of_int 0xfff = word_of_int (?x AND 0xfff)"
    by (simp only: of_int_and_eq)
  ultimately have "imml_field n AND 0xfff = word_of_int (\<bar>n\<bar> mod 4096)"
    by (simp only: imml_field_def of_int_numeral)
  moreover have "\<bar>n\<bar> mod 4096 < 2 ^ 32" "0 \<le> \<bar>n\<bar> mod 4096"
    using pos_mod_bound [of 4096 "\<bar>n\<bar>"] by simp_all
  ultimately show "uint (imml_field n AND 0xfff) = \<bar>n\<bar> mod 4096"
    by (simp add: uint_word_of_int mod_pos_pos_trivial)
  have "drop_bit 23 (- n) = 0" if "n < 0"
    using that assms by (simp add: drop_bit_eq_div div_pos_pos_trivial)
  then have "\<not> bit (- n) 23" if "n < 0" using that by (simp add: bit_iff_odd_drop_bit)
  moreover have "bit (0x00800000 :: int) 23" by (simp add: bit_iff_odd)
  ultimately show "bit (imml_field n) 23 \<longleftrightarrow> 0 \<le> n"
    by (auto simp: imml_field_def bit_word_of_int_iff bit_or_iff)
qed

text \<open>A load relative to the program counter: the range check admits the distances 4096 and -4096, and these are exactly
  the ones for which the encoded instruction reads from another address than the label's.\<close>

theorem dasm_load_limit_misses:
  assumes "ins AND 0x800 \<noteq> 0" and "ins AND 0x1000 = 0" and "ins AND 0x2000 = 0"
    and w: "w AND 0x00801fff = 0" and "rel_field ins n = Some v"
  shows "arm_load_address a (w OR v) = a + 8 + n \<longleftrightarrow> n \<noteq> 4096 \<and> n \<noteq> -4096"
proof -
  have n: "-4096 \<le> n" "n \<le> 4096" and v: "v = imml_field n"
    using assms by (auto simp: rel_field_def split: if_splits)
  have "w AND 0xfff = (w AND 0x00801fff) AND 0xfff" by (simp add: and.assoc)
  then have "w AND 0xfff = 0" using w by simp
  then have low: "(w OR v) AND 0xfff = v AND 0xfff" by (simp add: bit.conj_disj_distrib2)
  have "bit (w AND 0x00801fff) 23 = False" using w by simp
  moreover have "bit (0x00801fff :: u32) 23" by (simp add: bit_iff_odd)
  ultimately have "\<not> bit w 23" by (simp add: bit_and_iff)
  then have "bit (w OR v) 23 \<longleftrightarrow> 0 \<le> n"
    using imml_field_low(2) [OF n] v by (simp add: bit_or_iff)
  then have "arm_load_address a (w OR v) = a + 8 + (if 0 \<le> n then \<bar>n\<bar> mod 4096 else - (\<bar>n\<bar> mod 4096))"
    using imml_field_low(1) [OF n] low v by (simp add: arm_load_address_def)
  moreover have "\<bar>n\<bar> mod 4096 = (if n = 4096 \<or> n = -4096 then 0 else \<bar>n\<bar>)"
    using n by (auto simp: mod_pos_pos_trivial)
  ultimately show ?thesis by auto
qed

lemma dasm_load_limit_misses_witness:
  "rel_field 0x800 4096 = Some 0x00801000 \<and>
   arm_load_address 0 (0xe51f0000 OR 0x00801000) \<noteq> 0 + 8 + 4096"
proof -
  have "rel_field 0x800 4096 = Some 0x00801000" by code_simp
  then show ?thesis
    using dasm_load_limit_misses [where ins = "0x800" and w = "0xe51f0000" and n = 4096 and v = "0x00801000" and a = 0]
    by simp
qed


end
