(* ===== verification/Dasm_Link.thy ===== *)
theory Dasm_Link
  imports Dasm
begin

text \<open>
  What the three passes of the DynASM engine compute together: the textbook two-pass assembler. A
  program is a list of \<open>dasm_put\<close> calls into one section; \<open>items\<close> is what their action lists say,
  \<open>assemble\<close> lays the items out, resolves every reference to the item that defines
  its label and emits the code. \<open>dasm_assembles\<close> shows that \<open>dasm_put\<close>, \<open>dasm_link\<close> and \<open>dasm_encode\<close>,
  which chain unresolved references through the buffer and estimate offsets first, return that code.
\<close>

section \<open>Programs\<close>

datatype item = Start nat | Word u32 | Act dasm_action u32 int

text \<open>The items of an action list from an index up to \<open>DASM_STOP\<close>, with the arguments they take.\<close>

function parse :: "u32 list \<Rightarrow> nat \<Rightarrow> int list \<Rightarrow> item list option" where
  "parse al p args =
     (if length al \<le> p then None
      else case action_of (al ! p) of
        None \<Rightarrow> map_option ((#) (Word (al ! p))) (parse al (Suc p) args)
      | Some a \<Rightarrow>
          if a = DASM_STOP then Some []
          else if a = DASM_SECTION then None
          else if a = DASM_ESC then
            (if Suc p < length al
             then map_option ((#) (Word (al ! Suc p))) (parse al (p + 2) args) else None)
          else if takes_arg a then
            (case args of
               [] \<Rightarrow> None
             | n # rest \<Rightarrow> map_option ((#) (Act a (al ! p) n)) (parse al (Suc p) rest))
          else map_option ((#) (Act a (al ! p) 0)) (parse al (Suc p) args))"
  by pat_completeness auto
termination
  by (relation "measure (\<lambda>(al, p, args). length al - p)") auto

declare parse.simps [simp del]

fun program_items :: "u32 list \<Rightarrow> (nat \<times> int list) list \<Rightarrow> item list option" where
  "program_items al [] = Some []"
| "program_items al ((start, args) # ps) = do {
     xs \<leftarrow> parse al start args;
     ys \<leftarrow> program_items al ps;
     Some (Start start # xs @ ys)
   }"

fun dasm_puts :: "(nat \<Rightarrow> int) \<Rightarrow> (nat \<times> int list) list \<Rightarrow> dasm_state \<Rightarrow> dasm_state option" where
  "dasm_puts junk [] D = Some D"
| "dasm_puts junk ((start, args) # ps) D = do {
     D \<leftarrow> dasm_put junk start args D;
     dasm_puts junk ps D
   }"

section \<open>The reference assembler\<close>

text \<open>Layout: the byte offset after an item.\<close>

definition align_mask :: "u32 \<Rightarrow> nat" where
  "align_mask ins = unat (ins AND 255)"

definition round_up :: "nat \<Rightarrow> nat \<Rightarrow> nat" where
  "round_up m n = (n + m) div Suc m * Suc m"

fun next_offset :: "nat \<Rightarrow> item \<Rightarrow> nat" where
  "next_offset n (Word w) = n + 4"
| "next_offset n (Act DASM_ALIGN ins _) = round_up (align_mask ins) n"
| "next_offset n _ = n"

definition offset_at :: "item list \<Rightarrow> nat \<Rightarrow> nat" where
  "offset_at its i = foldl next_offset 0 (take i its)"

text \<open>Labels: a reference to a local label means the last definition before it (\<open>1<\<close>) or the first one after it
  (\<open>1>\<close>); a global or a numbered label is the last one before it or else the first one after it.\<close>

datatype direction = Before | After | Either

fun label_of :: "item \<Rightarrow> (label_table \<times> int) option" where
  "label_of (Act DASM_LABEL_LG ins _) = Some (LG_labels, int (unat (ins AND 2047)) - 10)"
| "label_of (Act DASM_LABEL_PC _ n) = Some (PC_labels, n)"
| "label_of _ = None"

fun ref_of :: "item \<Rightarrow> ((label_table \<times> int) \<times> direction) option" where
  "ref_of (Act DASM_REL_LG ins _) =
     (let x = int (unat (ins AND 2047))
      in if x < 10 then Some ((LG_labels, x), After)
         else Some ((LG_labels, x - 10), if x < 20 then Before else Either))"
| "ref_of (Act DASM_REL_PC _ n) = Some ((PC_labels, n), Either)"
| "ref_of _ = None"

definition places :: "item list \<Rightarrow> label_table \<times> int \<Rightarrow> nat \<Rightarrow> bool" where
  "places its l j \<longleftrightarrow> j < length its \<and> label_of (its ! j) = Some l"

definition before :: "item list \<Rightarrow> label_table \<times> int \<Rightarrow> nat \<Rightarrow> nat option" where
  "before its l i = find (places its l) (rev [0..<i])"

definition after :: "item list \<Rightarrow> label_table \<times> int \<Rightarrow> nat \<Rightarrow> nat option" where
  "after its l i = find (places its l) [Suc i..<length its]"

definition target :: "item list \<Rightarrow> label_table \<times> int \<Rightarrow> direction \<Rightarrow> nat \<Rightarrow> nat option" where
  "target its l d i =
     (case d of
        Before \<Rightarrow> before its l i
      | After \<Rightarrow> after its l i
      | Either \<Rightarrow> (case before its l i of Some j \<Rightarrow> Some j | None \<Rightarrow> after its l i))"

text \<open>Code: the words so far and the array of globals; an item may change the last word.\<close>

type_synonym image = "u32 list \<times> u32 list option"

definition patch_last :: "u32 \<Rightarrow> image \<Rightarrow> image option" where
  "patch_last v im =
     (case im of (out, gl) \<Rightarrow> if out = [] then None else Some (butlast out @ [last out OR v], gl))"

definition set_global :: "u32 \<Rightarrow> nat \<Rightarrow> nat \<Rightarrow> image \<Rightarrow> image option" where
  "set_global base x n im =
     (case im of (out, gl) \<Rightarrow>
        if x < 20 then Some im
        else case gl of
          None \<Rightarrow> None
        | Some g \<Rightarrow> if x - 20 < length g then Some (out, Some (g[x - 20 := base + of_nat n])) else None)"

definition emit_item ::
  "(u32 \<Rightarrow> u32 \<Rightarrow> bool \<Rightarrow> int) \<Rightarrow> u32 \<Rightarrow> item list \<Rightarrow> nat \<Rightarrow> image \<Rightarrow> image option" where
  "emit_item ext base its i im =
     (let (out, gl) = im; here = int (4 * length out)
      in case its ! i of
        Start _ \<Rightarrow> Some im
      | Word w \<Rightarrow> Some (out @ [w], gl)
      | Act a ins n \<Rightarrow> (case a of
            DASM_ALIGN \<Rightarrow>
              Some (out @ replicate (round_up (align_mask ins) (4 * length out) div 4 - length out)
                0xe1a00000, gl)
          | DASM_REL_EXT \<Rightarrow> do {
              v \<leftarrow> rel_field ins (ext (base + of_nat (4 * length out)) (ins AND 2047) (ins AND 2048 = 0));
              patch_last v im
            }
          | DASM_LABEL_LG \<Rightarrow> set_global base (unat (ins AND 2047)) (4 * length out) im
          | DASM_LABEL_PC \<Rightarrow> Some im
          | DASM_IMM \<Rightarrow> patch_last (imm_field ins n) im
          | DASM_IMM12 \<Rightarrow> patch_last (word_of_int (dasm_imm12 (word_of_int n))) im
          | DASM_IMM16 \<Rightarrow> patch_last (imm16_field n) im
          | DASM_IMML8 \<Rightarrow> patch_last (imml8_field n) im
          | DASM_IMML12 \<Rightarrow> patch_last (imml_field n) im
          | DASM_IMMV8 \<Rightarrow> patch_last (imml_field (drop_bit 2 n)) im
          | _ \<Rightarrow> do {
              (l, d) \<leftarrow> ref_of (its ! i);
              j \<leftarrow> target its l d i;
              v \<leftarrow> rel_field ins (int (offset_at its j) - here - 4);
              patch_last v im
            }))"

fun emit_items ::
  "(u32 \<Rightarrow> u32 \<Rightarrow> bool \<Rightarrow> int) \<Rightarrow> u32 \<Rightarrow> item list \<Rightarrow> nat list \<Rightarrow> image \<Rightarrow> image option" where
  "emit_items ext base its [] im = Some im"
| "emit_items ext base its (i # is) im = do {
     im \<leftarrow> emit_item ext base its i im;
     emit_items ext base its is im
   }"

definition assemble ::
  "(u32 \<Rightarrow> u32 \<Rightarrow> bool \<Rightarrow> int) \<Rightarrow> u32 \<Rightarrow> item list \<Rightarrow> u32 list option \<Rightarrow> image option" where
  "assemble ext base its gl = emit_items ext base its [0..<length its] ([], gl)"

section \<open>Cells\<close>

fun has_cell :: "item \<Rightarrow> bool" where
  "has_cell (Start _) = True"
| "has_cell (Word _) = False"
| "has_cell (Act a _ _) = takes_cell a"

definition cell_at :: "item list \<Rightarrow> nat \<Rightarrow> nat" where
  "cell_at its i = length (filter has_cell (take i its))"

lemma cell_at_append: "i \<le> length its \<Longrightarrow> cell_at (its @ xs) i = cell_at its i"
  by (simp add: cell_at_def)

lemma cell_at_snoc:
  "cell_at (its @ [x]) (Suc (length its)) = cell_at its (length its) + (if has_cell x then 1 else 0)"
  by (simp add: cell_at_def)

lemma cell_at_Suc:
  "i < length its \<Longrightarrow> cell_at its (Suc i) = cell_at its i + (if has_cell (its ! i) then 1 else 0)"
  by (simp add: cell_at_def take_Suc_conv_app_nth)

lemma cell_at_mono: "i \<le> j \<Longrightarrow> cell_at its i \<le> cell_at its j"
proof (induction j)
  case (Suc j)
  show ?case
  proof (cases "i = Suc j")
    case False
    then have "cell_at its i \<le> cell_at its j" using Suc by simp
    also have "\<dots> \<le> cell_at its (Suc j)"
      by (cases "j < length its") (simp add: cell_at_Suc, simp add: cell_at_def)
    finally show ?thesis .
  qed simp
qed simp

lemma cell_at_less:
  assumes "i < j" and "i < length its" and "has_cell (its ! i)"
  shows "cell_at its i < cell_at its j"
proof -
  have "cell_at its (Suc i) \<le> cell_at its j" using assms by (intro cell_at_mono) simp
  then show ?thesis using assms by (simp add: cell_at_Suc)
qed

lemma cell_at_inj:
  assumes "cell_at its i = cell_at its j" and "i < length its" and "j < length its"
    and "has_cell (its ! i)" and "has_cell (its ! j)"
  shows "i = j"
  using assms cell_at_less [of i j its] cell_at_less [of j i its] by (cases i j rule: linorder_cases) auto

lemma cell_at_le: "cell_at its i \<le> length its"
  by (simp add: cell_at_def le_trans [OF length_filter_le])

text \<open>Chains of cells and their replacement.\<close>

fun ref_chain :: "int list \<Rightarrow> int \<Rightarrow> nat list \<Rightarrow> bool" where
  "ref_chain c v [] \<longleftrightarrow> v = 0"
| "ref_chain c v (p # ps) \<longleftrightarrow> v = int p \<and> 0 < p \<and> p < length c \<and> ref_chain c (c ! p) ps"

fun fill :: "int list \<Rightarrow> nat list \<Rightarrow> int \<Rightarrow> int list" where
  "fill c [] w = c"
| "fill c (p # ps) w = fill (c[p := w]) ps w"

lemma length_fill [simp]: "length (fill c ps w) = length c"
  by (induction ps arbitrary: c) auto

lemma nth_fill: "k < length c \<Longrightarrow> fill c ps w ! k = (if k \<in> set ps then w else c ! k)"
  by (induction ps arbitrary: c) (auto simp: nth_list_update)

lemma chain_update: "p \<notin> set ps \<Longrightarrow> ref_chain (c[p := w]) v ps = ref_chain c v ps"
  by (induction c v ps rule: ref_chain.induct) auto

lemma chain_append: "ref_chain c v ps \<Longrightarrow> ref_chain (c @ d) v ps"
  by (induction c v ps rule: ref_chain.induct) (auto simp: nth_append)

lemma chain_nonneg: "ref_chain c v ps \<Longrightarrow> 0 \<le> v"
  by (cases ps) auto

text \<open>States that differ from a given one in the cells of section 0 and in the label tables.\<close>

definition upd :: "dasm_state \<Rightarrow> int list \<Rightarrow> (label_table \<Rightarrow> int list) \<Rightarrow> dasm_state" where
  "upd D c T = D\<lparr>d_lglabels := T LG_labels, d_pclabels := T PC_labels,
     d_sections := (d_sections D)[0 := (d_sections D ! 0)\<lparr>sec_buf := c\<rparr>]\<rparr>"

lemma upd_sels [simp]:
  "table_of (upd D c T) t = T t"
  "d_actionlist (upd D c T) = d_actionlist D"
  "d_status (upd D c T) = d_status D"
  "d_maxsection (upd D c T) = d_maxsection D"
  "d_section (upd D c T) = d_section D"
  "d_lgsize (upd D c T) = d_lgsize D"
  "d_pcsize (upd D c T) = d_pcsize D"
  "d_globals (upd D c T) = d_globals D"
  "length (d_sections (upd D c T)) = length (d_sections D)"
  by (simp_all add: upd_def table_of_def split: label_table.split)

lemma upd_sections:
  "d_sections (upd D c T) = (d_sections D)[0 := (d_sections D ! 0)\<lparr>sec_buf := c\<rparr>]"
  by (simp add: upd_def)

lemma upd_lookup [simp]: "lab_get (upd D c T) t n = (if 0 \<le> n \<and> n < int (length (T t)) then Some (T t ! nat n) else None)"
  by (simp add: lab_get_def)

lemma upd_lab_set [simp]:
  "lab_set (upd D c T) t n v =
     (if 0 \<le> n \<and> n < int (length (T t)) then Some (upd D c (T(t := (T t)[nat n := v]))) else None)"
  by (simp add: lab_set_def) (simp add: upd_def split: label_table.split)

lemma upd_sec_get [simp]:
  assumes "d_sections D \<noteq> []"
  shows "sec_get (upd D c T) 0 p = (if 0 \<le> p \<and> p < int (length c) then Some (c ! nat p) else None)"
  using assms by (simp add: sec_get_def sec_bias_def upd_sections)

lemma upd_sec_set [simp]:
  assumes "d_sections D \<noteq> []"
  shows "sec_set (upd D c T) 0 p v =
    (if 0 \<le> p \<and> p < int (length c) then Some (upd D (c[nat p := v]) T) else None)"
  using assms by (simp add: sec_set_def sec_bias_def upd_sections) (simp add: upd_def)

lemma upd_pos_get [simp]:
  assumes "d_sections D \<noteq> []" and "0 \<le> p" and "p < 2 ^ 24"
  shows "pos_get (upd D c T) p = (if p < int (length c) then Some (c ! nat p) else None)"
  using assms by (simp add: pos_get_def pos2sec_def)

lemma upd_pos_set [simp]:
  assumes "d_sections D \<noteq> []" and "0 \<le> p" and "p < 2 ^ 24"
  shows "pos_set (upd D c T) p v = (if p < int (length c) then Some (upd D (c[nat p := v]) T) else None)"
  using assms by (simp add: pos_set_def pos2sec_def)

lemma collapse_chain:
  assumes "d_sections D \<noteq> []" and "ref_chain c v ps" and "distinct ps" and "\<forall>p \<in> set ps. p < 2 ^ 24"
  shows "collapse (upd D c T) v w = Some (upd D (fill c ps w) T)"
  using assms
proof (induction ps arbitrary: c v)
  case Nil
  then show ?case by (simp add: collapse.simps)
next
  case (Cons p ps)
  then have v: "v = int p" "0 < p" "p < length c" and ch: "ref_chain (c[p := w]) (c ! p) ps"
    by (auto simp: chain_update)
  have "collapse (upd D c T) v w = collapse (upd D (c[p := w]) T) (c ! p) w"
    using Cons.prems v by (subst collapse.simps) simp
  then show ?case using Cons.IH [OF _ ch] Cons.prems by simp
qed

lemma collapse_negative: "v \<le> 0 \<Longrightarrow> collapse D v w = Some D"
  by (simp add: collapse.simps)

section \<open>Targets while the program grows\<close>

lemma find_append: "find P (xs @ ys) = (case find P xs of Some x \<Rightarrow> Some x | None \<Rightarrow> find P ys)"
  by (induction xs) auto

lemma find_Some_in: "find P xs = Some x \<Longrightarrow> P x \<and> x \<in> set xs"
  by (auto simp: find_Some_iff)

lemma places_snoc:
  "j < length its \<Longrightarrow> places (its @ [x]) l j = places its l j"
  by (simp add: places_def nth_append)

lemma before_snoc: "i \<le> length its \<Longrightarrow> before (its @ [x]) l i = before its l i"
  unfolding before_def by (rule find_cong) (auto simp: places_snoc)

lemma before_end:
  "before (its @ [x]) l (Suc (length its)) =
     (if label_of x = Some l then Some (length its) else before its l (length its))"
  using before_snoc [of "length its" its x l]
  by (auto simp: before_def places_def [of "its @ [x]" l "length its"])

lemma after_snoc:
  assumes "i < length its"
  shows "after (its @ [x]) l i = (case after its l i of Some j \<Rightarrow> Some j
    | None \<Rightarrow> if label_of x = Some l then Some (length its) else None)"
proof -
  have "find (places (its @ [x]) l) [Suc i..<length its] = find (places its l) [Suc i..<length its]"
    by (rule find_cong) (auto simp: places_snoc)
  moreover have "[Suc i..<length (its @ [x])] = [Suc i..<length its] @ [length its]"
    using assms by simp
  ultimately show ?thesis
    by (simp add: after_def find_append places_def [of "its @ [x]" l "length its"]
        split: option.split del: upt_Suc)
qed

lemma after_last: "length its \<le> Suc i \<Longrightarrow> after its l i = None"
  by (simp add: after_def)

lemma before_Some: "before its l i = Some j \<Longrightarrow> j < i \<and> places its l j"
  by (auto dest!: find_Some_in simp: before_def)

lemma after_Some: "after its l i = Some j \<Longrightarrow> i < j \<and> places its l j"
  using find_upt_Some [of "places its l" "Suc i" "length its" j] by (auto simp: after_def)

lemma target_places: "target its l d i = Some j \<Longrightarrow> places its l j"
  by (auto simp: target_def dest: before_Some after_Some split: direction.splits option.splits)

lemma target_snoc:
  assumes "i < length its"
  shows "target (its @ [x]) l d i = (case target its l d i of Some j \<Rightarrow> Some j
    | None \<Rightarrow> if d \<noteq> Before \<and> label_of x = Some l then Some (length its) else None)"
  using assms by (auto simp: target_def before_snoc after_snoc split: direction.split option.split)

lemma target_new:
  "target (its @ [x]) l d (length its) = (if d = After then None else before its l (length its))"
  by (auto simp: target_def before_snoc after_last split: direction.split option.split)

section \<open>The invariant of pass 1\<close>

text \<open>The offset that \<open>dasm_put\<close> estimates: an alignment counts with its largest padding.\<close>

fun next_estimate :: "nat \<Rightarrow> item \<Rightarrow> nat" where
  "next_estimate n (Word w) = n + 4"
| "next_estimate n (Act DASM_ALIGN ins _) = n + align_mask ins"
| "next_estimate n _ = n"

definition estimate :: "item list \<Rightarrow> nat \<Rightarrow> nat" where
  "estimate its i = foldl next_estimate 0 (take i its)"

text \<open>What the cell of an item holds that is not a reference.\<close>

fun cell_value :: "item \<Rightarrow> nat \<Rightarrow> int" where
  "cell_value (Start p) _ = int p"
| "cell_value (Act DASM_ALIGN ins _) n = int (n + align_mask ins)"
| "cell_value (Act DASM_LABEL_LG _ _) n = int n"
| "cell_value (Act DASM_LABEL_PC _ _) n = int n"
| "cell_value (Act DASM_IMMV8 _ k) _ = drop_bit 2 k"
| "cell_value (Act _ _ k) _ = k"
| "cell_value (Word _) _ = 0"

text \<open>The references to a label that nothing in the program so far resolves, the latest first.\<close>

definition waits :: "item list \<Rightarrow> label_table \<times> int \<Rightarrow> nat \<Rightarrow> bool" where
  "waits its l i \<longleftrightarrow>
     (\<exists>d. d \<noteq> Before \<and> ref_of (its ! i) = Some (l, d) \<and> target its l d i = None)"

definition pending :: "item list \<Rightarrow> label_table \<times> int \<Rightarrow> nat list" where
  "pending its l = rev (filter (waits its l) [0..<length its])"

definition local_slot :: "label_table \<times> int \<Rightarrow> bool" where
  "local_slot l \<longleftrightarrow> fst l = LG_labels \<and> snd l < 10"

definition slot_ok :: "item list \<Rightarrow> int list \<Rightarrow> int \<Rightarrow> label_table \<times> int \<Rightarrow> bool" where
  "slot_ok its c v l \<longleftrightarrow>
     (if v < 0 then pending its l = [] \<and>
        (\<exists>j. before its l (length its) = Some j \<and> v = - int (cell_at its j))
      else ref_chain c v (map (cell_at its) (pending its l)) \<and>
        (local_slot l \<or> before its l (length its) = None))"

definition cell_ok :: "item list \<Rightarrow> int list \<Rightarrow> nat \<Rightarrow> bool" where
  "cell_ok its c i \<longleftrightarrow>
     (case ref_of (its ! i) of
        Some (l, d) \<Rightarrow> (\<forall>j. target its l d i = Some j \<longrightarrow> c ! cell_at its i = int (cell_at its j))
      | None \<Rightarrow> c ! cell_at its i = cell_value (its ! i) (estimate its i))"

definition pass1 ::
  "item list \<Rightarrow> int list \<Rightarrow> (label_table \<Rightarrow> int list) \<Rightarrow> int \<Rightarrow> int \<Rightarrow> bool" where
  "pass1 its c T pos ofs \<longleftrightarrow>
     pos = int (cell_at its (length its)) \<and> ofs = int (estimate its (length its)) \<and>
     pos \<le> int (length c) \<and>
     (\<forall>i < length its. has_cell (its ! i) \<longrightarrow> cell_ok its c i) \<and>
     (\<forall>t n. 0 \<le> n \<longrightarrow> n < int (length (T t)) \<longrightarrow> slot_ok its c (T t ! nat n) (t, n))"

lemma ref_has_cell: "ref_of x = Some r \<Longrightarrow> has_cell x \<and> label_of x = None"
  by (cases x rule: ref_of.cases) (auto simp: takes_cell_def)

lemma label_has_cell: "label_of x = Some l \<Longrightarrow> has_cell x \<and> ref_of x = None"
  by (cases x rule: label_of.cases) (auto simp: takes_cell_def)

lemma places_has_cell: "places its l j \<Longrightarrow> j < length its \<and> has_cell (its ! j)"
  by (auto simp: places_def dest: label_has_cell)

lemma pending_in: "i \<in> set (pending its l) \<longleftrightarrow> i < length its \<and> waits its l i"
  by (simp add: pending_def)

lemma waits_has_cell: "waits its l i \<Longrightarrow> has_cell (its ! i)"
  by (auto simp: waits_def dest: ref_has_cell)

lemma waits_slot: "waits its l i \<Longrightarrow> waits its l' i \<Longrightarrow> l = l'"
  by (auto simp: waits_def)

lemma distinct_pending: "distinct (map (cell_at its) (pending its l))"
proof -
  have "inj_on (cell_at its) (set (pending its l))"
  proof (rule inj_onI)
    fix i j assume "i \<in> set (pending its l)" "j \<in> set (pending its l)" "cell_at its i = cell_at its j"
    then show "i = j" 
      using cell_at_inj [of its i j] waits_has_cell [of its l i] waits_has_cell [of its l j]
      by (simp add: pending_in)
  qed
  moreover have "distinct (pending its l)" by (simp add: pending_def)
  ultimately show ?thesis by (simp add: distinct_map)
qed

lemma cell_below_end:
  "i < length its \<Longrightarrow> has_cell (its ! i) \<Longrightarrow> cell_at its i < cell_at its (length its)"
  by (rule cell_at_less) auto

lemma estimate_append: "i \<le> length its \<Longrightarrow> estimate (its @ xs) i = estimate its i"
  by (simp add: estimate_def)

lemma estimate_snoc:
  "estimate (its @ [x]) (Suc (length its)) = next_estimate (estimate its (length its)) x"
  by (simp add: estimate_def)

lemma ref_chain_fill:
  "set ps \<inter> set qs = {} \<Longrightarrow> ref_chain (fill c qs w) v ps = ref_chain c v ps"
  by (induction c qs w rule: fill.induct) (auto simp: chain_update)

text \<open>A new item and the references that wait.\<close>

lemma waits_snoc:
  "i < length its \<Longrightarrow> waits (its @ [x]) l i \<longleftrightarrow> waits its l i \<and> label_of x \<noteq> Some l"
  by (auto simp: waits_def nth_append target_snoc split: option.splits)

lemma waits_new:
  "waits (its @ [x]) l (length its) \<longleftrightarrow>
     (\<exists>d. d \<noteq> Before \<and> ref_of x = Some (l, d) \<and> (d = After \<or> before its l (length its) = None))"
  unfolding waits_def by (rule iff_exI) (auto simp: target_new)

lemma pending_snoc:
  "pending (its @ [x]) l =
     (if waits (its @ [x]) l (length its) then [length its] else []) @
     (if label_of x = Some l then [] else pending its l)"
proof -
  have "filter (waits (its @ [x]) l) [0..<length its] =
      (if label_of x = Some l then [] else filter (waits its l) [0..<length its])"
    by (auto simp: waits_snoc filter_empty_conv intro: filter_cong)
  then show ?thesis by (simp add: pending_def)
qed

lemma pending_cells_snoc:
  "map (cell_at (its @ [x])) (pending (its @ [x]) l) =
     (if waits (its @ [x]) l (length its) then [cell_at its (length its)] else []) @
     (if label_of x = Some l then [] else map (cell_at its) (pending its l))"
  by (auto simp: pending_snoc cell_at_append pending_in)

text \<open>Old cells stay as they are when a cell behind them is written.\<close>

lemma cell_ok_snoc:
  assumes "i < length its" and "has_cell (its ! i)" and "cell_ok its c i"
    and same: "c' ! cell_at its i = c ! cell_at its i"
    and new: "\<And>l d. ref_of (its ! i) = Some (l, d) \<Longrightarrow> target its l d i = None \<Longrightarrow> d \<noteq> Before \<Longrightarrow> label_of x \<noteq> Some l"
  shows "cell_ok (its @ [x]) c' i"
proof -
  have tgt: "target (its @ [x]) l d i = target its l d i" if "ref_of (its ! i) = Some (l, d)" for l d
    using assms(1) new [OF that] by (auto simp: target_snoc split: option.split)
  have "cell_at its j = cell_at (its @ [x]) j" if "target its l d i = Some j" for l d j
    using target_places [OF that] by (simp add: cell_at_append places_def)
  then show ?thesis
    using assms tgt
    by (auto simp: cell_ok_def nth_append cell_at_append estimate_append split: option.splits)
qed

lemma slot_ok_other:
  assumes "slot_ok its c v l" and "label_of x \<noteq> Some l" and "\<not> waits (its @ [x]) l (length its)"
    and "ref_chain c' v (map (cell_at its) (pending its l)) = ref_chain c v (map (cell_at its) (pending its l))"
  shows "slot_ok (its @ [x]) c' v l"
proof -
  have "cell_at (its @ [x]) j = cell_at its j" if "before its l (length its) = Some j" for j
    using before_Some [OF that] by (simp add: cell_at_append)
  moreover have "map (cell_at (its @ [x])) (pending (its @ [x]) l) = map (cell_at its) (pending its l)"
    using assms by (simp only: pending_cells_snoc) simp
  then have "ref_chain c' v (map (cell_at (its @ [x])) (pending (its @ [x]) l)) =
      ref_chain c v (map (cell_at its) (pending its l))"
    by (simp only: assms(4))
  moreover have "pending (its @ [x]) l = pending its l" using assms by (simp add: pending_snoc)
  ultimately show ?thesis
    using assms by (auto simp: slot_ok_def before_end)
qed

lemma pass1_ext:
  assumes "pass1 its c T pos ofs"
    and "pos' = int (cell_at (its @ [x]) (Suc (length its)))"
    and "ofs' = int (next_estimate (estimate its (length its)) x)"
    and "pos' \<le> int (length c')"
    and "\<And>i. i < length its \<Longrightarrow> has_cell (its ! i) \<Longrightarrow> cell_ok its c i \<Longrightarrow>
      cell_at its i < nat pos \<Longrightarrow> cell_ok (its @ [x]) c' i"
    and "has_cell x \<Longrightarrow> cell_ok (its @ [x]) c' (length its)"
    and "\<And>t n. 0 \<le> n \<Longrightarrow> n < int (length (T' t)) \<Longrightarrow> slot_ok (its @ [x]) c' (T' t ! nat n) (t, n)"
  shows "pass1 (its @ [x]) c' T' pos' ofs'"
proof -
  have "cell_ok (its @ [x]) c' i" if "i < length (its @ [x])" "has_cell ((its @ [x]) ! i)" for i
  proof (cases "i = length its")
    case False
    then have i: "i < length its" "has_cell (its ! i)" using that by (auto simp: nth_append)
    then have "cell_at its i < nat pos"
      using cell_below_end [of i its] assms(1) by (simp add: pass1_def)
    then show ?thesis using assms(1,5) i by (simp add: pass1_def)
  qed (use that assms(6) in simp)
  then show ?thesis
    using assms by (simp add: pass1_def estimate_snoc)
qed

lemma pass1_slot:
  "pass1 its c T pos ofs \<Longrightarrow> 0 \<le> n \<Longrightarrow> n < int (length (T t)) \<Longrightarrow> slot_ok its c (T t ! nat n) (t, n)"
  by (simp add: pass1_def)

lemma pass1_pos: "pass1 its c T pos ofs \<Longrightarrow> nat pos = cell_at its (length its) \<and> 0 \<le> pos"
  by (simp add: pass1_def)

lemma pass1_room: "pass1 its c T pos ofs \<Longrightarrow> pos < int (length c) \<Longrightarrow> cell_at its (length its) < length c"
  by (simp add: pass1_def)

lemma pending_below:
  "pass1 its c T pos ofs \<Longrightarrow> p \<in> cell_at its ` set (pending its l) \<Longrightarrow> p < nat pos"
  using cell_below_end by (auto simp: pass1_def pending_in dest!: waits_has_cell)

lemma pass1_plain:
  assumes I: "pass1 its c T pos ofs" and x: "ref_of x = None" "label_of x = None"
    and pos: "has_cell x \<Longrightarrow> pos < int (length c)"
  shows "pass1 (its @ [x])
    (if has_cell x then c[nat pos := cell_value x (estimate its (length its))] else c) T
    (if has_cell x then pos + 1 else pos) (int (next_estimate (estimate its (length its)) x))"
proof (rule pass1_ext [OF I])
  fix i assume "i < length its" "has_cell (its ! i)" "cell_ok its c i" "cell_at its i < nat pos"
  then show "cell_ok (its @ [x])
      (if has_cell x then c[nat pos := cell_value x (estimate its (length its))] else c) i"
    using x by (intro cell_ok_snoc [where c = c]) auto
next
  fix t n assume n: "0 \<le> n" "n < int (length (T t))"
  have "nat pos \<notin> set (map (cell_at its) (pending its (t, n)))"
    using pending_below [OF I] by auto
  then show "slot_ok (its @ [x])
      (if has_cell x then c[nat pos := cell_value x (estimate its (length its))] else c)
      (T t ! nat n) (t, n)"
    using x pass1_slot [OF I n] by (intro slot_ok_other [where c = c]) (auto simp: waits_new chain_update)
qed (use x I pos in \<open>auto simp: cell_at_snoc pass1_def cell_ok_def cell_at_append estimate_append\<close>)

lemma pass1_known:
  assumes I: "pass1 its c T pos ofs" and x: "ref_of x = Some ((t, n), d)" "d \<noteq> After"
    and n: "0 \<le> n" "n < int (length (T t))" and v: "T t ! nat n < 0"
    and pos: "pos < int (length c)"
  shows "pass1 (its @ [x]) (c[nat pos := - (T t ! nat n)]) T (pos + 1) ofs"
proof (rule pass1_ext [OF I])
  note xl = ref_has_cell [OF x(1)]
  have known: "pending its (t, n) = []" "\<exists>j. before its (t, n) (length its) = Some j \<and>
      T t ! nat n = - int (cell_at its j)"
    using pass1_slot [OF I n] v by (auto simp: slot_ok_def)
  fix i assume "i < length its" "has_cell (its ! i)" "cell_ok its c i" "cell_at its i < nat pos"
  then show "cell_ok (its @ [x]) (c[nat pos := - (T t ! nat n)]) i"
    using xl by (intro cell_ok_snoc [where c = c]) auto
next
  note xl = ref_has_cell [OF x(1)]
  have known: "\<exists>j. before its (t, n) (length its) = Some j \<and> T t ! nat n = - int (cell_at its j)"
    using pass1_slot [OF I n] v by (auto simp: slot_ok_def)
  then obtain j where j: "before its (t, n) (length its) = Some j" "T t ! nat n = - int (cell_at its j)"
    by blast
  then have "cell_at (its @ [x]) j = cell_at its j"
    using before_Some [OF j(1)] by (simp add: cell_at_append)
  then show "cell_ok (its @ [x]) (c[nat pos := - (T t ! nat n)]) (length its)"
    using x j pass1_room [OF I pos] pass1_pos [OF I] by (simp add: cell_ok_def target_new cell_at_append)
  fix t' n' assume n': "0 \<le> n'" "n' < int (length (T t'))"
  have "nat pos \<notin> set (map (cell_at its) (pending its (t', n')))"
    using pending_below [OF I] by auto
  then show "slot_ok (its @ [x]) (c[nat pos := - (T t ! nat n)]) (T t' ! nat n') (t', n')"
    using x xl known pass1_slot [OF I n'] by (intro slot_ok_other [where c = c]) (auto simp: waits_new chain_update)
next
  have "next_estimate k x = k" for k using x(1) by (cases x rule: ref_of.cases) auto
  then show "ofs = int (next_estimate (estimate its (length its)) x)"
    using I by (simp add: pass1_def)
qed (use x ref_has_cell [OF x(1)] I pos in \<open>auto simp: cell_at_snoc pass1_def\<close>)

lemma pass1_link:
  assumes I: "pass1 its c T pos ofs" and x: "ref_of x = Some ((t, n), d)"
    and n: "0 \<le> n" "n < int (length (T t))"
    and d: "d = After \<and> local_slot (t, n) \<or> d = Either \<and> 0 \<le> T t ! nat n \<and> \<not> local_slot (t, n)"
    and pos: "0 < pos" "pos < int (length c)"
  shows "pass1 (its @ [x]) (c[nat pos := if T t ! nat n < 0 then 0 else T t ! nat n])
    (T(t := (T t)[nat n := pos])) (pos + 1) ofs"
    (is "pass1 _ ?c ?T _ _")
proof (rule pass1_ext [OF I])
  note xl = ref_has_cell [OF x]
  fix i assume "i < length its" "has_cell (its ! i)" "cell_ok its c i" "cell_at its i < nat pos"
  then show "cell_ok (its @ [x]) ?c i"
    using xl by (intro cell_ok_snoc [where c = c]) auto
next
  note xl = ref_has_cell [OF x]
  have slot: "slot_ok its c (T t ! nat n) (t, n)" by (rule pass1_slot [OF I n])
  then have tgt: "target (its @ [x]) (t, n) d (length its) = None"
    using d by (auto simp: target_new slot_ok_def)
  show "cell_ok (its @ [x]) ?c (length its)"
    using x tgt by (simp add: cell_ok_def)
  fix t' n' assume n': "0 \<le> n'" "n' < int (length (?T t'))"
  then have n'': "n' < int (length (T t'))" by (simp split: if_splits)
  have new: "nat pos \<notin> set (map (cell_at its) (pending its (t', n')))"
    using pending_below [OF I] by auto
  show "slot_ok (its @ [x]) ?c (?T t' ! nat n') (t', n')"
  proof (cases "(t', n') = (t, n)")
    case False
    then have "?T t' ! nat n' = T t' ! nat n'" using n n' by (auto simp: nth_list_update)
    then show ?thesis
      using x xl new False pass1_slot [OF I n'(1) n''] by (auto simp: waits_new chain_update intro!: slot_ok_other [where c = c])
  next
    case True
    have w: "waits (its @ [x]) (t, n) (length its)"
      using x d slot by (auto simp: waits_new slot_ok_def)
    have "ref_chain c (if T t ! nat n < 0 then 0 else T t ! nat n) (map (cell_at its) (pending its (t, n)))"
      using slot by (auto simp: slot_ok_def)
    then show ?thesis
      using True w xl n pos slot d new pass1_pos [OF I]
      by (auto simp: slot_ok_def pending_cells_snoc before_end chain_update)
  qed
next
  have "next_estimate k x = k" for k using x by (cases x rule: ref_of.cases) auto
  then show "ofs = int (next_estimate (estimate its (length its)) x)"
    using I by (simp add: pass1_def)
qed (use x ref_has_cell [OF x] I pos in \<open>auto simp: cell_at_snoc pass1_def\<close>)

lemma pass1_label:
  assumes I: "pass1 its c T pos ofs" and x: "label_of x = Some (t, n)"
    and n: "0 \<le> n" "n < int (length (T t))" and pos: "0 < pos" "pos < int (length c)"
    and c': "c' = fill c (map (cell_at its) (pending its (t, n))) pos"
  shows "pass1 (its @ [x]) (c'[nat pos := ofs]) (T(t := (T t)[nat n := - pos])) (pos + 1) ofs"
    (is "pass1 _ ?c ?T _ _")
proof (rule pass1_ext [OF I])
  note xl = label_has_cell [OF x]
  fix i assume i: "i < length its" "has_cell (its ! i)" "cell_ok its c i" "cell_at its i < nat pos"
  have room: "cell_at its i < length c" using i pos by simp
  show "cell_ok (its @ [x]) ?c i"
  proof (cases "i \<in> set (pending its (t, n))")
    case False
    have "cell_at its i \<notin> set (map (cell_at its) (pending its (t, n)))"
    proof
      assume "cell_at its i \<in> set (map (cell_at its) (pending its (t, n)))"
      then obtain k where "k \<in> set (pending its (t, n))" "cell_at its i = cell_at its k" by auto
      then show False
        using False i cell_at_inj [of its i k] by (auto simp: pending_in waits_has_cell)
    qed
    then have "?c ! cell_at its i = c ! cell_at its i" using c' i room by (simp add: nth_fill)
    moreover have "label_of x \<noteq> Some l" if "ref_of (its ! i) = Some (l, d)"
      "target its l d i = None" "d \<noteq> Before" for l d
      using that False x i by (auto simp: pending_in waits_def)
    ultimately show ?thesis using i by (intro cell_ok_snoc [where c = c]) auto
  next
    case True
    then obtain d where d: "ref_of (its ! i) = Some ((t, n), d)" "d \<noteq> Before"
        "target its (t, n) d i = None"
      by (auto simp: pending_in waits_def)
    then have "target (its @ [x]) (t, n) d i = Some (length its)" using i x by (simp add: target_snoc)
    moreover have "?c ! cell_at its i = pos" using True c' room i by (simp add: nth_fill)
    moreover have "pos = int (cell_at its (length its))" using I by (simp add: pass1_def)
    ultimately show ?thesis
      using d i by (simp add: cell_ok_def nth_append cell_at_append)
  qed
next
  note xl = label_has_cell [OF x]
  have "cell_value x (estimate its (length its)) = ofs"
    using I x by (cases x rule: label_of.cases) (auto simp: pass1_def)
  then show "cell_ok (its @ [x]) ?c (length its)"
    using xl c' pass1_pos [OF I] pass1_room [OF I pos(2)]
    by (simp add: cell_ok_def cell_at_append estimate_append)
  fix t' n' assume n': "0 \<le> n'" "n' < int (length (?T t'))"
  then have n'': "n' < int (length (T t'))" by (simp split: if_splits)
  show "slot_ok (its @ [x]) ?c (?T t' ! nat n') (t', n')"
  proof (cases "(t', n') = (t, n)")
    case True
    then have "pending (its @ [x]) (t', n') = []"
      using x xl by (simp add: pending_snoc waits_new)
    then show ?thesis
      using True x n pos pass1_pos [OF I] by (auto simp: slot_ok_def before_end cell_at_append)
  next
    case False
    then have "?T t' ! nat n' = T t' ! nat n'" using n n' by (auto simp: nth_list_update)
    moreover have "set (map (cell_at its) (pending its (t', n'))) \<inter>
        set (map (cell_at its) (pending its (t, n))) = {}"
    proof -
      have "i = k" if "i \<in> set (pending its (t', n'))" "k \<in> set (pending its (t, n))"
        "cell_at its i = cell_at its k" for i k
        using cell_at_inj [of its i k] that waits_has_cell [of its "(t', n')" i]
          waits_has_cell [of its "(t, n)" k] by (simp add: pending_in)
      moreover have "i \<noteq> k" if "i \<in> set (pending its (t', n'))" "k \<in> set (pending its (t, n))" for i k
        using that False waits_slot [of its "(t', n')" i "(t, n)"] by (auto simp: pending_in)
      ultimately show ?thesis by auto
    qed
    moreover have "nat pos \<notin> set (map (cell_at its) (pending its (t', n')))"
      using pending_below [OF I] by auto
    ultimately show ?thesis
      using x xl False c' pass1_slot [OF I n'(1) n'']
      by (auto simp: waits_new chain_update ref_chain_fill simp del: set_map intro!: slot_ok_other [where c = c])
  qed
next
  have "next_estimate k x = k" for k using x by (cases x rule: label_of.cases) auto
  then show "ofs = int (next_estimate (estimate its (length its)) x)"
    using I by (simp add: pass1_def)
qed (use x label_has_cell [OF x] I pos c' in \<open>auto simp: cell_at_snoc pass1_def\<close>)

definition put_at :: "dasm_state \<Rightarrow> int list \<Rightarrow> (label_table \<Rightarrow> int list) \<Rightarrow> int \<Rightarrow> int \<Rightarrow> int list \<Rightarrow> put_state" where
  "put_at D c T pos ofs args = \<lparr>ps_state = upd D c T, ps_pos = pos, ps_ofs = ofs, ps_args = args\<rparr>"

lemma put_at_sels [simp]:
  "ps_state (put_at D c T pos ofs args) = upd D c T"
  "ps_pos (put_at D c T pos ofs args) = pos"
  "ps_ofs (put_at D c T pos ofs args) = ofs"
  "ps_args (put_at D c T pos ofs args) = args"
  "(put_at D c T pos ofs args)\<lparr>ps_ofs := ofs'\<rparr> = put_at D c T pos ofs' args"
  "(put_at D c T pos ofs args)\<lparr>ps_args := args'\<rparr> = put_at D c T pos ofs args'"
  "(put_at D c T pos ofs args)\<lparr>ps_state := upd D c' T'\<rparr> = put_at D c' T' pos ofs args"
  "(put_at D c T pos ofs args)\<lparr>ps_state := upd D c' T', ps_pos := pos'\<rparr> = put_at D c' T' pos' ofs args"
  by (simp_all add: put_at_def)

lemma put_cell_at:
  "d_sections D \<noteq> [] \<Longrightarrow> put_cell 0 p v (put_at D c T pos ofs args) =
     (if 0 \<le> pos \<and> pos < int (length c)
      then Some (Next (Suc p) (put_at D (c[nat pos := v]) T (pos + 1) ofs args)) else None)"
  by (simp add: put_cell_def)

lemma link_rel_at:
  "d_sections D \<noteq> [] \<Longrightarrow> link_rel 0 p t l v (put_at D c T pos ofs args) =
     (if 0 \<le> pos \<and> pos < int (length c) \<and> 0 \<le> l \<and> l < int (length (T t))
      then Some (Next (Suc p)
        (put_at D (c[nat pos := v]) (T(t := (T t)[nat l := pos])) (pos + 1) ofs args)) else None)"
  by (simp add: link_rel_def)

definition grows :: "dasm_state \<Rightarrow> item list \<Rightarrow> item \<Rightarrow> int list \<Rightarrow> (label_table \<Rightarrow> int list) \<Rightarrow>
    int \<Rightarrow> int list \<Rightarrow> nat \<Rightarrow> put_state put_next \<Rightarrow> bool" where
  "grows D its x c T pos args p r \<longleftrightarrow>
     (\<exists>c' T' pos' ofs'. r = Next (Suc p) (put_at D c' T' pos' ofs' args) \<and>
        pass1 (its @ [x]) c' T' pos' ofs' \<and> pos \<le> pos' \<and> length c' = length c \<and>
        (\<forall>t. length (T' t) = length (T t)))"

lemma pass1_skip:
  assumes I: "pass1 its c T pos ofs" and x: "\<not> has_cell x"
  shows "pass1 (its @ [x]) c T pos (int (next_estimate (estimate its (length its)) x))"
proof -
  have "ref_of x = None" "label_of x = None"
    using x ref_has_cell label_has_cell by (metis not_None_eq prod.exhaust)+
  then show ?thesis using pass1_plain [OF I, of x] x by simp
qed

lemma growsI:
  "r = Next (Suc p) (put_at D c' T' pos' ofs' args) \<Longrightarrow> pass1 (its @ [x]) c' T' pos' ofs' \<Longrightarrow>
   pos \<le> pos' \<Longrightarrow> length c' = length c \<Longrightarrow> \<forall>t. length (T' t) = length (T t) \<Longrightarrow> grows D its x c T pos args p r"
  unfolding grows_def by blast

lemma grows_plain:
  assumes D: "d_sections D \<noteq> []" and I: "pass1 its c T pos ofs"
    and x: "ref_of x = None" "label_of x = None" "has_cell x"
    and v: "v = cell_value x (estimate its (length its))"
    and ofs': "ofs' = int (next_estimate (estimate its (length its)) x)"
    and r: "put_cell 0 p v (put_at D c T pos ofs' args) = Some r"
  shows "grows D its x c T pos args p r"
proof -
  have pos: "0 \<le> pos" "pos < int (length c)"
    and r: "r = Next (Suc p) (put_at D (c[nat pos := v]) T (pos + 1) ofs' args)"
    using r D by (auto simp: put_cell_at split: if_splits)
  show ?thesis
    using pass1_plain [OF I x(1,2) pos(2)] x(3) v ofs' by (intro growsI [OF r]) auto
qed

lemma grows_rel:
  assumes D: "d_sections D \<noteq> []" and I: "pass1 its c T pos ofs" and pos: "0 < pos"
    and x: "ref_of x = Some ((t, l), d)" "d = Before \<Longrightarrow> T t ! nat l < 0"
    and d: "d \<noteq> After" "d = Either \<Longrightarrow> \<not> local_slot (t, l)"
    and r: "put_rel 0 p t l (put_at D c T pos ofs args) = Some r"
  shows "grows D its x c T pos args p r"
proof -
  have l: "0 \<le> l" "l < int (length (T t))"
    using r by (auto simp: put_rel_def split: if_splits)
  show ?thesis
  proof (cases "T t ! nat l < 0")
    case True
    then have "pos < int (length c)"
      and r: "r = Next (Suc p) (put_at D (c[nat pos := - (T t ! nat l)]) T (pos + 1) ofs args)"
      using r D l by (auto simp: put_rel_def put_cell_at split: if_splits)
    then show ?thesis
      using pass1_known [OF I x(1) d(1) l True] by (intro growsI [OF r]) auto
  next
    case False
    then have len: "pos < int (length c)"
      and r: "r = Next (Suc p) (put_at D (c[nat pos := T t ! nat l]) (T(t := (T t)[nat l := pos])) (pos + 1) ofs args)"
      using r D l by (auto simp: put_rel_def link_rel_at split: if_splits)
    have "d = Either" using d x False by (cases d) auto
    then show ?thesis
      using pass1_link [OF I x(1) l _ pos len] False d(2) by (intro growsI [OF r]) auto
  qed
qed

lemma grows_forward:
  assumes D: "d_sections D \<noteq> []" and I: "pass1 its c T pos ofs" and pos: "0 < pos"
    and x: "ref_of x = Some ((t, l), After)" "local_slot (t, l)"
    and l: "0 \<le> l" "l < int (length (T t))"
    and r: "link_rel 0 p t l (if T t ! nat l < 0 then 0 else T t ! nat l) (put_at D c T pos ofs args) = Some r"
  shows "grows D its x c T pos args p r"
proof -
  have len: "pos < int (length c)"
    and r: "r = Next (Suc p) (put_at D (c[nat pos := if T t ! nat l < 0 then 0 else T t ! nat l])
       (T(t := (T t)[nat l := pos])) (pos + 1) ofs args)"
    using r D l by (auto simp: link_rel_at split: if_splits)
  show ?thesis
    using pass1_link [OF I x(1) l _ pos len] x(2) by (intro growsI [OF r]) auto
qed

lemma grows_label:
  assumes D: "d_sections D \<noteq> []" and I: "pass1 its c T pos ofs" and pos: "0 < pos"
    and small: "length its < 2 ^ 24" and x: "label_of x = Some (t, l)"
    and r: "put_label 0 p t l (put_at D c T pos ofs args) = Some r"
  shows "grows D its x c T pos args p r"
proof -
  let ?ps = "map (cell_at its) (pending its (t, l))"
  have l: "0 \<le> l" "l < int (length (T t))"
    using r by (auto simp: put_label_def split: if_splits)
  have slot: "slot_ok its c (T t ! nat l) (t, l)" by (rule pass1_slot [OF I l])
  have col: "collapse (upd D c T) (T t ! nat l) pos = Some (upd D (fill c ?ps pos) T)"
  proof (cases "T t ! nat l < 0")
    case True
    then show ?thesis using slot by (simp add: slot_ok_def collapse_negative)
  next
    case False
    have "p < 2 ^ 24" if "p \<in> set ?ps" for p
      using that le_less_trans [OF cell_at_le small] by auto
    then show ?thesis
      using slot False distinct_pending by (intro collapse_chain [OF D]) (auto simp: slot_ok_def)
  qed
  have len: "pos < int (length c)"
    and r: "r = Next (Suc p) (put_at D ((fill c ?ps pos)[nat pos := ofs]) (T(t := (T t)[nat l := - pos]))
       (pos + 1) ofs args)"
    using r D l col by (auto simp: put_label_def put_cell_at split: if_splits)
  show ?thesis
    using pass1_label [OF I x l pos len refl] by (intro growsI [OF r]) auto
qed

lemma grows_rel_lg:
  assumes D: "d_sections D \<noteq> []" and I: "pass1 its c T pos ofs" and pos: "0 < pos"
    and r: "put_action 0 p ins DASM_REL_LG n (put_at D c T pos ofs args) = Some r"
    and go: "r = Next p' ps'"
  shows "grows D its (Act DASM_REL_LG ins m) c T pos args p r"
proof -
  define x where "x = uint (ins AND 2047)"
  have x0: "0 \<le> x" by (simp add: x_def)
  consider "x < 10" | "10 \<le> x" "x < 20" | "20 \<le> x" by linarith
  then show ?thesis
  proof cases
    case 1
    then have "link_rel 0 p LG_labels x (if T LG_labels ! nat x < 0 then 0 else T LG_labels ! nat x)
        (put_at D c T pos ofs args) = Some r" and "x < int (length (T LG_labels))"
      using r by (auto simp: x_def [symmetric] Let_def split: if_splits)
    then show ?thesis
      using 1 x0 by (intro grows_forward [OF D I pos, where t = LG_labels and l = x])
        (auto simp: x_def [symmetric] local_slot_def)
  next
    case 2
    then have "put_rel 0 p LG_labels (x - 10) (put_at D c T pos ofs args) = Some r"
      and "T LG_labels ! nat (x - 10) < 0"
      using r go by (auto simp: x_def [symmetric] Let_def fail_at_def split: if_splits)
    then show ?thesis
      using 2 by (intro grows_rel [OF D I pos, where t = LG_labels and l = "x - 10" and d = Before])
        (auto simp: x_def [symmetric])
  next
    case 3
    then have "put_rel 0 p LG_labels (x - 10) (put_at D c T pos ofs args) = Some r"
      using r go by (auto simp: x_def [symmetric] Let_def fail_at_def split: if_splits)
    then show ?thesis
      using 3 by (intro grows_rel [OF D I pos, where t = LG_labels and l = "x - 10" and d = Either])
        (auto simp: x_def [symmetric] local_slot_def)
  qed
qed

lemma put_action_grows:
  assumes D: "d_sections D \<noteq> []" and I: "pass1 its c T pos ofs" and pos: "0 < pos"
    and small: "length its < 2 ^ 24"
    and r: "put_action 0 p ins a n (put_at D c T pos ofs args) = Some r" and go: "r = Next p' ps'"
    and a: "a \<notin> {DASM_STOP, DASM_SECTION, DASM_ESC}" and n: "\<not> takes_arg a \<Longrightarrow> n = 0"
  shows "grows D its (Act a ins n) c T pos args p r"
proof -
  have ofs: "ofs = int (estimate its (length its))" using I by (simp add: pass1_def)
  show ?thesis
  proof (cases a)
    case DASM_REL_EXT
    then have "pass1 (its @ [Act a ins n]) c T pos ofs"
      using pass1_skip [OF I, of "Act a ins n"] ofs by (simp add: takes_cell_def)
    then show ?thesis using r DASM_REL_EXT by (intro growsI) auto
  next
    case DASM_REL_LG
    then show ?thesis using grows_rel_lg [OF D I pos _ go] r by simp
  next
    case DASM_REL_PC
    then have "put_rel 0 p PC_labels n (put_at D c T pos ofs args) = Some r"
      using r go by (auto simp: fail_at_def split: if_splits)
    then show ?thesis
      using DASM_REL_PC by (intro grows_rel [OF D I pos, where t = PC_labels and l = n and d = Either])
        (auto simp: local_slot_def)
  next
    case DASM_LABEL_LG
    then show ?thesis
      using r go by (intro grows_label [OF D I pos small]) (auto simp: Let_def fail_at_def split: if_splits)
  next
    case DASM_LABEL_PC
    then show ?thesis
      using r go by (intro grows_label [OF D I pos small]) (auto simp: fail_at_def split: if_splits)
  qed (use a r go ofs in \<open>auto intro!: grows_plain [OF D I] simp: takes_cell_def fail_at_def Let_def align_mask_def
        split: if_splits Option.bind_splits\<close>)
qed

lemma put_loop_pass1:
  assumes "dasm_put_loop al 0 p (put_at D c T pos ofs args) = Some (Stop ps')"
    and "parse al p args = Some xs" and "pass1 its c T pos ofs" and "0 < pos"
    and "length its + length xs \<le> 2 ^ 24" and D: "d_sections D \<noteq> []"
  shows "\<exists>c' T' pos' ofs' args'. ps' = put_at D c' T' pos' ofs' args' \<and>
    pass1 (its @ xs) c' T' pos' ofs' \<and> length c' = length c \<and> (\<forall>t. length (T' t) = length (T t))"
  using assms(1-5)
proof (induction al p args arbitrary: its c T pos ofs xs rule: parse.induct)
  case (1 al p args)
  have p: "p < length al" using "1.prems"(2) by (subst (asm) parse.simps) (auto split: if_splits)
  have ofs: "int (next_estimate (estimate its (length its)) (Word w)) = ofs + 4" for w
    using "1.prems"(3) by (simp add: pass1_def)
  show ?case
  proof (cases "action_of (al ! p)")
    case None
    obtain ys where ys: "parse al (Suc p) args = Some ys" "xs = Word (al ! p) # ys"
      using "1.prems"(2) p None by (subst (asm) parse.simps) auto
    have "pass1 (its @ [Word (al ! p)]) c T pos (ofs + 4)"
      using pass1_skip [OF "1.prems"(3), of "Word (al ! p)"] ofs by simp
    moreover have "dasm_put_loop al 0 (Suc p) (put_at D c T pos (ofs + 4) args) = Some (Stop ps')"
      using "1.prems"(1) p None by (subst (asm) dasm_put_loop.simps) (simp add: put_step_def)
    ultimately show ?thesis
      using "1.IH"(1) [OF _ None _ ys(1), of c T pos "ofs + 4" "its @ [Word (al ! p)]"] "1.prems" p ys by simp
  next
    case (Some a)
    note pp = p and act = Some
    consider "a = DASM_STOP" | "a = DASM_ESC" | "a \<notin> {DASM_STOP, DASM_ESC}" by blast
    then show ?thesis
    proof cases
      case 1
      then have "ps' = put_at D c T pos ofs args"
        using "1.prems"(1) p act
        by (subst (asm) dasm_put_loop.simps) (simp add: put_step_def takes_arg_def takes_cell_def)
      moreover have "xs = []" using "1.prems"(2) p act 1 by (subst (asm) parse.simps) simp
      ultimately show ?thesis using "1.prems"(3) by simp blast
    next
      case 2
      then obtain ys where ys: "parse al (p + 2) args = Some ys" "xs = Word (al ! Suc p) # ys" "Suc p < length al"
        using "1.prems"(2) p act by (subst (asm) parse.simps) (auto split: if_splits)
      have "pass1 (its @ [Word (al ! Suc p)]) c T pos (ofs + 4)"
        using pass1_skip [OF "1.prems"(3), of "Word (al ! Suc p)"] ofs by simp
      moreover have "dasm_put_loop al 0 (p + 2) (put_at D c T pos (ofs + 4) args) = Some (Stop ps')"
        using "1.prems"(1) p act 2
        by (subst (asm) dasm_put_loop.simps) (simp add: put_step_def takes_arg_def takes_cell_def)
      ultimately show ?thesis
        using "1.IH"(2) [OF _ act, of c T pos "ofs + 4" ys "its @ [Word (al ! Suc p)]"] "1.prems" p ys 2 by simp
    next
      case 3
      define n where "n = (if takes_arg a then hd args else 0)"
      define rest where "rest = (if takes_arg a then tl args else args)"
      have sec: "a \<noteq> DASM_SECTION" using "1.prems"(2) p act
        by (subst (asm) parse.simps) auto
      obtain ys where ys: "parse al (Suc p) rest = Some ys" "xs = Act a (al ! p) n # ys"
          and ne: "takes_arg a \<Longrightarrow> args \<noteq> []"
        using "1.prems"(2) p act 3 sec
        by (subst (asm) parse.simps) (auto simp: n_def rest_def split: if_splits list.splits)
      have step: "put_step al 0 p (put_at D c T pos ofs args) =
          put_action 0 p (al ! p) a n (put_at D c T pos ofs rest)"
        using p act ne by (auto simp: put_step_def n_def rest_def split: list.splits)
      obtain r where r: "put_action 0 p (al ! p) a n (put_at D c T pos ofs rest) = Some r"
        using "1.prems"(1) step by (subst (asm) dasm_put_loop.simps) (auto split: option.splits)
      have "\<exists>p' q. r = Next p' q"
      proof (cases r)
        case (Stop q)
        then show ?thesis
          using r 3 sec by (cases a) (auto simp: Let_def put_cell_def link_rel_def put_rel_def put_label_def
              fail_at_def split: if_splits Option.bind_splits)
      next
        case (Fail q)
        then show ?thesis
          using "1.prems"(1) step r by (subst (asm) dasm_put_loop.simps) simp
      qed simp
      then obtain p' q where rq: "r = Next p' q" by blast
      have "grows D its (Act a (al ! p) n) c T pos rest p r"
        using "1.prems" ys 3 sec by (intro put_action_grows [OF D _ _ _ r rq]) (auto simp: n_def)
      then obtain c' T' pos' ofs' where g: "r = Next (Suc p) (put_at D c' T' pos' ofs' rest)"
          "pass1 (its @ [Act a (al ! p) n]) c' T' pos' ofs'" "pos \<le> pos'" "length c' = length c"
          "\<forall>t. length (T' t) = length (T t)"
        unfolding grows_def by blast
      have "dasm_put_loop al 0 (Suc p) (put_at D c' T' pos' ofs' rest) = Some (Stop ps')"
        using "1.prems"(1) step r g(1) by (subst (asm) dasm_put_loop.simps) simp
      moreover have "\<exists>c'' T'' pos'' ofs'' args'. ps' = put_at D c'' T'' pos'' ofs'' args' \<and>
          pass1 ((its @ [Act a (al ! p) n]) @ ys) c'' T'' pos'' ofs'' \<and> length c'' = length c' \<and>
          (\<forall>t. length (T'' t) = length (T' t))"
      proof (cases "takes_arg a")
        case True
        then obtain m ms where "args = m # ms" using ne by (cases args) auto
        then show ?thesis
          using "1.IH"(3) [OF _ act, of m ms c' T' pos' ofs' ys "its @ [Act a (al ! p) n]"] p 3 sec True g ys
            "1.prems"(4,5) calculation by (simp add: rest_def)
      next
        case False
        then show ?thesis
          using "1.IH"(4) [OF _ act, of c' T' pos' ofs' ys "its @ [Act a (al ! p) n]"] p 3 sec g ys
            "1.prems"(4,5) calculation by (simp add: rest_def)
      qed
      ultimately show ?thesis using g ys by simp
    qed
  qed
qed

section \<open>The status of dasm_put\<close>

lemma sec_set_status: "sec_set D s p v = Some D' \<Longrightarrow> d_status D' = d_status D"
  by (auto simp: sec_set_def Let_def split: if_splits)

lemma pos_set_status: "pos_set D p v = Some D' \<Longrightarrow> d_status D' = d_status D"
  by (auto simp: pos_set_def dest: sec_set_status split: if_splits)

lemma lab_set_status: "lab_set D t n v = Some D' \<Longrightarrow> d_status D' = d_status D"
  by (auto simp: lab_set_def split: if_splits label_table.splits)

lemma collapse_status: "collapse D n v = Some D' \<Longrightarrow> d_status D' = d_status D"
proof (erule collapse.raw_induct [where P = "\<lambda>D n v D'. d_status D' = d_status D", rotated])
  fix col and D D' :: dasm_state and n v :: int
  assume "\<And>D n v D'. col D n v = Some D' \<Longrightarrow> d_status D' = d_status D"
    and "(if 0 < n then pos_get D n \<bind> (\<lambda>n'. pos_set D n v \<bind> (\<lambda>D'. col D' n' v)) else Some D) = Some D'"
  then show "d_status D' = d_status D"
    by (auto split: if_splits Option.bind_splits dest!: pos_set_status)
qed

definition status_kept :: "dasm_state \<Rightarrow> put_state put_next \<Rightarrow> bool" where
  "status_kept D r \<longleftrightarrow> (case r of
     Next _ ps \<Rightarrow> d_status (ps_state ps) = d_status D
   | Stop ps \<Rightarrow> d_status (ps_state ps) = d_status D
   | Fail D' \<Rightarrow> d_status D' \<noteq> DASM_S_OK)"

lemma fail_at_status:
  assumes "fail_at D st p = Some r" and "bit st 28"
  shows "status_kept D' r"
proof -
  have "bit (st OR of_nat p) 28" using assms(2) by (simp add: bit_or_iff)
  then have "st OR of_nat p \<noteq> 0" by (metis bit_0_eq bot_apply bot_bool_def)
  then show ?thesis using assms(1) by (auto simp: fail_at_def status_kept_def DASM_S_OK_def)
qed

lemma put_cell_status: "put_cell s p n ps = Some r \<Longrightarrow> status_kept (ps_state ps) r"
  by (auto simp: put_cell_def status_kept_def split: Option.bind_splits dest: sec_set_status)

lemma link_rel_status: "link_rel s p t l n ps = Some r \<Longrightarrow> status_kept (ps_state ps) r"
  by (auto simp: link_rel_def status_kept_def split: Option.bind_splits dest!: sec_set_status lab_set_status)

lemma put_rel_status: "put_rel s p t l ps = Some r \<Longrightarrow> status_kept (ps_state ps) r"
  by (auto simp: put_rel_def split: Option.bind_splits if_splits dest: put_cell_status link_rel_status)

lemma put_label_status: "put_label s p t l ps = Some r \<Longrightarrow> status_kept (ps_state ps) r"
  by (auto simp: put_label_def status_kept_def split: Option.bind_splits put_next.splits
      dest!: put_cell_status collapse_status lab_set_status)

lemma range_bits: "bit DASM_S_RANGE_I 28" "bit DASM_S_RANGE_SEC 28" "bit DASM_S_RANGE_LG 28" "bit DASM_S_RANGE_PC 28"
  by (simp_all add: DASM_S_RANGE_I_def DASM_S_RANGE_SEC_def DASM_S_RANGE_LG_def DASM_S_RANGE_PC_def)

lemma put_action_status: "put_action s p ins a n ps = Some r \<Longrightarrow> status_kept (ps_state ps) r"
  by (cases a) (auto simp: Let_def range_bits status_kept_def [of _ "Next _ _"] status_kept_def [of _ "Stop _"]
      split: if_splits Option.bind_splits
      dest!: put_rel_status link_rel_status put_label_status fail_at_status [where D' = "ps_state ps"] put_cell_status)

lemma put_step_status: "put_step al s p ps = Some r \<Longrightarrow> status_kept (ps_state ps) r"
  by (auto simp: put_step_def status_kept_def [of _ "Next _ _"] split: if_splits option.splits list.splits
      dest: put_action_status)

lemma put_loop_status: "dasm_put_loop al s p ps = Some r \<Longrightarrow> status_kept (ps_state ps) r"
proof (induction al s p ps rule: dasm_put_loop.induct)
  case (1 al s p ps)
  from "1.prems" obtain q where q: "put_step al s p ps = Some q"
    by (subst (asm) dasm_put_loop.simps) (auto split: option.splits)
  show ?case
  proof (cases q)
    case (Next p' ps')
    then have "dasm_put_loop al s p' ps' = Some r"
      using "1.prems" q by (subst (asm) dasm_put_loop.simps) simp
    then show ?thesis
      using "1.IH" [OF q Next] put_step_status [OF q] Next
      by (auto simp: status_kept_def split: put_next.splits)
  next
    case (Stop ps')
    then show ?thesis
      using "1.prems" q put_step_status [OF q] by (subst (asm) dasm_put_loop.simps) simp
  next
    case (Fail D)
    then show ?thesis
      using "1.prems" q put_step_status [OF q] by (subst (asm) dasm_put_loop.simps) simp
  qed
qed

lemma dasm_put_status:
  assumes "dasm_put junk start args D = Some D'" and "d_status D' = DASM_S_OK"
  shows "d_status D = DASM_S_OK"
  using assms
  by (auto simp: dasm_put_def Let_def status_kept_def split: if_splits Option.bind_splits put_next.splits
      dest!: put_loop_status sec_set_status)

lemma dasm_puts_status:
  "dasm_puts junk ps D = Some D' \<Longrightarrow> d_status D' = DASM_S_OK \<Longrightarrow> d_status D = DASM_S_OK"
  by (induction junk ps D rule: dasm_puts.induct) (auto split: Option.bind_splits dest: dasm_put_status)

section \<open>A sequence of calls\<close>

definition linking :: "u32 list \<Rightarrow> item list \<Rightarrow> dasm_state \<Rightarrow> bool" where
  "linking al its D \<longleftrightarrow>
     d_sections D \<noteq> [] \<and> d_section D = 0 \<and> d_actionlist D = al \<and>
     d_maxsection D = length (d_sections D) \<and>
     (\<forall>s. 0 < s \<longrightarrow> s < length (d_sections D) \<longrightarrow>
        sec_pos (d_sections D ! s) = sec_bias s \<and> sec_ofs (d_sections D ! s) = 0) \<and>
     length (d_lglabels D) = words_of (d_lgsize D) \<and>
     length (d_pclabels D) = words_of (d_pcsize D) \<and>
     pass1 its (sec_buf (d_sections D ! 0)) (table_of D) (sec_pos (d_sections D ! 0))
       (sec_ofs (d_sections D ! 0))"

lemma upd_self:
  assumes "d_sections D \<noteq> []"
  shows "upd D (sec_buf (d_sections D ! 0)) (table_of D) = D"
  using assms by (simp add: upd_def table_of_def)

lemma pass1_append:
  assumes "pass1 its c T pos ofs"
  shows "pass1 its (c @ ys) T pos ofs"
proof -
  have c: "(c @ ys) ! cell_at its i = c ! cell_at its i" if "i < length its" "has_cell (its ! i)" for i
    using cell_below_end [OF that] assms by (simp add: pass1_def nth_append)
  have "cell_ok its (c @ ys) i" if "i < length its" "has_cell (its ! i)" for i
    using assms that c [OF that] by (auto simp: pass1_def cell_ok_def split: option.splits)
  moreover have "slot_ok its (c @ ys) (T t ! nat n) (t, n)" if "0 \<le> n" "n < int (length (T t))" for t n
    using pass1_slot [OF assms that] chain_append by (auto simp: slot_ok_def)
  ultimately show ?thesis using assms by (simp add: pass1_def)
qed

lemma put_room_sec:
  assumes "put_room junk sec = Some sec'"
  shows "\<exists>ys. sec_buf sec' = sec_buf sec @ ys" and "sec_pos sec' = sec_pos sec" and "sec_ofs sec' = sec_ofs sec"
  using assms by (auto simp: put_room_def m_realloc_def split: if_splits Option.bind_splits)

lemma dasm_put_linking:
  assumes L: "linking al its D" and put: "dasm_put junk start args D = Some D'"
    and ok: "d_status D' = DASM_S_OK" and xs: "parse al start args = Some xs"
    and small: "length its + length xs < 2 ^ 24"
  shows "linking al (its @ Start start # xs) D' \<and> d_globals D' = d_globals D \<and>
    d_lgsize D' = d_lgsize D \<and> d_pcsize D' = d_pcsize D \<and>
    (\<exists>sec c pos ofs. put_room junk (d_sections D ! 0) = Some sec \<and> length c = length (sec_buf sec) \<and>
      d_sections D' ! 0 = sec\<lparr>sec_buf := c, sec_pos := pos, sec_ofs := ofs\<rparr>)"
proof -
  let ?s = "d_sections D ! 0" and ?T = "table_of D"
  have D: "d_sections D \<noteq> []" "d_section D = 0" "d_actionlist D = al" using L by (auto simp: linking_def)
  obtain sec where sec: "put_room junk ?s = Some sec"
    using put D by (auto simp: dasm_put_def split: Option.bind_splits)
  note room = put_room_sec [OF sec]
  define D1 where "D1 = D\<lparr>d_sections := (d_sections D)[0 := sec]\<rparr>"
  have D1: "d_sections D1 \<noteq> []" "d_sections D1 ! 0 = sec" "table_of D1 = ?T"
    using D by (auto simp: D1_def table_of_def split: label_table.split)
  define c1 where "c1 = sec_buf sec"
  have up1: "D1 = upd D1 c1 ?T" using upd_self [OF D1(1)] D1 by (simp add: c1_def)
  have I: "pass1 its c1 ?T (sec_pos sec) (sec_ofs sec)"
    using L room pass1_append by (auto simp: linking_def c1_def)
  then have pos: "0 \<le> sec_pos sec" by (simp add: pass1_def)
  have "sec_set (upd D1 c1 ?T) 0 (sec_pos sec) (int start) \<noteq> None"
    using put D sec up1
    by (auto simp: dasm_put_def D1_def [symmetric] Let_def room split: Option.bind_splits)
  then have len: "sec_pos sec < int (length c1)" using D1 by (simp split: if_splits)
  define c2 where "c2 = c1[nat (sec_pos sec) := int start]"
  have start: "sec_set D1 0 (sec_pos sec) (int start) = Some (upd D1 c2 ?T)"
    using D1 len pos by (subst up1) (simp add: c2_def)
  have I2: "pass1 (its @ [Start start]) c2 ?T (sec_pos sec + 1) (sec_ofs sec)"
    using pass1_plain [OF I, of "Start start"] len I by (simp add: c2_def pass1_def)
  let ?ps = "put_at D1 c2 ?T (sec_pos sec + 1) (sec_ofs sec) args"
  let ?out = "\<lambda>r. case r of Stop ps \<Rightarrow> (let D = ps_state ps
              in Some (D\<lparr>d_sections := (d_sections D)[0 :=
                   (d_sections D ! 0)\<lparr>sec_pos := ps_pos ps, sec_ofs := ps_ofs ps\<rparr>]\<rparr>))
         | Fail D \<Rightarrow> Some D | Next _ _ \<Rightarrow> None"
  have "dasm_put junk start args D = dasm_put_loop al 0 start ?ps \<bind> ?out"
    using D sec start room by (simp add: dasm_put_def D1_def [symmetric] put_at_def)
      (simp add: D1_def)
  then obtain r where r: "dasm_put_loop al 0 start ?ps = Some r" and D': "?out r = Some D'"
    using put by (auto split: Option.bind_splits)
  obtain ps where ps: "r = Stop ps"
    using D' ok put_loop_status [OF r] by (cases r) (auto simp: status_kept_def)
  obtain c' T' pos' ofs' args' where p: "ps = put_at D1 c' T' pos' ofs' args'"
      "pass1 ((its @ [Start start]) @ xs) c' T' pos' ofs'" "length c' = length c2" "\<forall>t. length (T' t) = length (?T t)"
    using put_loop_pass1 [OF r [unfolded ps] xs I2 _ _ D1(1)] small pos by auto
  have D'': "D' = (upd D1 c' T')\<lparr>d_sections := (d_sections D)[0 := sec\<lparr>sec_buf := c', sec_pos := pos', sec_ofs := ofs'\<rparr>]\<rparr>"
    using D' ps p(1) D by (auto simp: Let_def upd_sections D1_def)
  have T': "table_of D' = T'" using D'' by (auto simp: table_of_def upd_def split: label_table.split)
  have "length (T' LG_labels) = length (d_lglabels D)" "length (T' PC_labels) = length (d_pclabels D)"
    using p(4) by (simp_all add: table_of_def)
  then have lens: "length (d_lglabels D') = length (d_lglabels D)" "length (d_pclabels D') = length (d_pclabels D)"
    by (simp_all add: D'' upd_def)
  have "linking al (its @ Start start # xs) D'"
    using L p(2) T' lens D unfolding linking_def by (simp add: D'') (simp add: D1_def upd_def)
  moreover have "d_globals D' = d_globals D" "d_lgsize D' = d_lgsize D" "d_pcsize D' = d_pcsize D"
    by (simp_all add: D'' D1_def)
  moreover have "length c' = length (sec_buf sec)" using p(3) by (simp add: c2_def c1_def)
  moreover have "d_sections D' ! 0 = sec\<lparr>sec_buf := c', sec_pos := pos', sec_ofs := ofs'\<rparr>"
    using D by (simp add: D'')
  ultimately show ?thesis using sec by blast
qed

section \<open>Room\<close>

lemma grow_loop_Some:
  assumes "unat need \<le> 2 ^ 31" and "0 < unat sz" and "4 dvd unat sz"
  shows "\<exists>z. grow_loop sz need = Some z \<and> need \<le> z \<and> 4 dvd unat z \<and>
    (z = sz \<or> unat z < 2 * unat need)"
  using assms(2,3)
proof (induction "2 ^ 32 - unat sz" arbitrary: sz rule: less_induct)
  case less
  show ?case
  proof (cases "sz < need")
    case True
    then have "unat sz < 2 ^ 31" using assms(1) by (simp add: word_less_nat_alt)
    then have dbl: "unat (sz + sz) = unat sz + unat sz" by (intro unat_add_no_wrap) simp
    have "2 ^ 32 - unat (sz + sz) < 2 ^ 32 - unat sz" using dbl less.prems \<open>unat sz < 2 ^ 31\<close> by simp
    from less.hyps [OF this] obtain z where z: "grow_loop (sz + sz) need = Some z" "need \<le> z" "4 dvd unat z"
        "z = sz + sz \<or> unat z < 2 * unat need"
      using dbl less.prems by auto
    have "unat z < 2 * unat need" using z(4) dbl True by (auto simp: word_less_nat_alt)
    then show ?thesis using True z by (subst grow_loop.simps) simp
  next
    case False
    then show ?thesis using less.prems by (subst grow_loop.simps) auto
  qed
qed

lemma m_grow_Some:
  assumes "unat need \<le> 2 ^ 31" and "4 dvd unat sz"
  shows "\<exists>z. m_grow sz need = Some z \<and> need \<le> z \<and> 4 dvd unat z \<and>
    (z = sz \<or> unat z \<le> 16 \<or> unat z < 2 * unat need)"
proof (cases "sz < need")
  case True
  let ?s = "if sz < 16 then 16 else sz"
  have "\<exists>z. grow_loop ?s need = Some z \<and> need \<le> z \<and> 4 dvd unat z \<and>
      (z = ?s \<or> unat z < 2 * unat need)"
    using assms by (intro grow_loop_Some) (auto simp: word_less_nat_alt)
  then show ?thesis using True by (auto simp: m_grow_def split: if_splits)
qed (use assms in \<open>auto simp: m_grow_def\<close>)

text \<open>Tables as they are allocated, and a buffer that has \<open>DASM_MAXSECPOS\<close> free cells below \<open>epos\<close>.\<close>

definition tables_ok :: "dasm_state \<Rightarrow> bool" where
  "tables_ok D \<longleftrightarrow> 4 dvd unat (d_lgsize D) \<and> 4 dvd unat (d_pcsize D) \<and>
     40 \<le> unat (d_lgsize D) \<and> unat (d_lgsize D) \<le> 2 ^ 31 \<and> unat (d_pcsize D) \<le> 2 ^ 31"

definition room_ok :: "dasm_section \<Rightarrow> bool" where
  "room_ok sec \<longleftrightarrow> unat (sec_bsize sec) = 4 * length (sec_buf sec) \<and>
     (sec_buf sec = [] \<and> sec_epos sec = 0 \<or>
      sec_epos sec = int (length (sec_buf sec)) - int DASM_MAXSECPOS)"

lemma put_room_returns:
  assumes "room_ok sec" and "0 \<le> sec_pos sec" and "sec_pos sec < 2 ^ 24"
    and "sec_pos sec \<le> int (length (sec_buf sec))"
  shows "\<exists>sec'. put_room junk sec = Some sec' \<and> room_ok sec' \<and>
    sec_pos sec + int DASM_MAXSECPOS \<le> int (length (sec_buf sec'))"
proof (cases "sec_epos sec \<le> sec_pos sec")
  case False
  then show ?thesis using assms by (auto simp: put_room_def room_ok_def)
next
  case True
  let ?need = "sec_bsize sec + 2 * of_nat DASM_MAXSECPOS * 4"
  have len: "int (length (sec_buf sec)) \<le> sec_pos sec + 25"
    using assms(1) True assms(2) by (auto simp: room_ok_def DASM_MAXSECPOS_def)
  then have small: "length (sec_buf sec) < 2 ^ 25" using assms(3) by simp
  then have need: "unat ?need = 4 * length (sec_buf sec) + 200"
    using assms(1) by (simp add: DASM_MAXSECPOS_def room_ok_def unat_add_no_wrap)
  obtain z where z: "m_grow (sec_bsize sec) ?need = Some z" "?need \<le> z" "4 dvd unat z"
    using m_grow_Some [of ?need "sec_bsize sec"] need small assms(1) by (auto simp: room_ok_def)
  then have w: "length (sec_buf sec) + 50 \<le> words_of z" "unat z = 4 * words_of z"
    using need by (auto simp: words_of_def word_le_nat_alt)
  let ?sec = "sec\<lparr>sec_buf := m_realloc junk (sec_buf sec) z, sec_bsize := z,
      sec_epos := int (words_of z) - int DASM_MAXSECPOS + sec_pos sec div 2 ^ 24 * 2 ^ 24\<rparr>"
  have put: "put_room junk sec = Some ?sec"
    using True z(1) by (simp add: put_room_def)
  have buf: "length (m_realloc junk (sec_buf sec) z) = words_of z" using w by (simp add: m_realloc_def)
  have zero: "sec_pos sec div 2 ^ 24 = 0" using assms(2,3) by simp
  have "room_ok ?sec" using w buf zero by (simp add: room_ok_def)
  moreover have "sec_pos sec + int DASM_MAXSECPOS \<le> int (length (sec_buf ?sec))"
    using buf w(1) assms(4) by (simp add: DASM_MAXSECPOS_def)
  ultimately show ?thesis using put by blast
qed


definition good :: "u32 list \<Rightarrow> item list \<Rightarrow> dasm_state \<Rightarrow> bool" where
  "good al its D \<longleftrightarrow> linking al its D \<and> tables_ok D \<and> room_ok (d_sections D ! 0)"

lemma linking_pos:
  "linking al its D \<Longrightarrow> length its < 2 ^ 24 \<Longrightarrow> 0 \<le> sec_pos (d_sections D ! 0) \<and>
   sec_pos (d_sections D ! 0) < 2 ^ 24 \<and>
   sec_pos (d_sections D ! 0) \<le> int (length (sec_buf (d_sections D ! 0)))"
  using le_less_trans [OF cell_at_le, of its "2 ^ 24" "length its"] by (simp add: linking_def pass1_def)

lemma dasm_put_good:
  assumes G: "good al its D" and put: "dasm_put junk start args D = Some D'"
    and ok: "d_status D' = DASM_S_OK" and xs: "parse al start args = Some xs"
    and small: "length its + length xs < 2 ^ 24"
  shows "good al (its @ Start start # xs) D' \<and> d_globals D' = d_globals D"
proof -
  have L: "linking al its D" and room: "room_ok (d_sections D ! 0)" using G by (auto simp: good_def)
  obtain sec c pos ofs where D': "linking al (its @ Start start # xs) D'" "d_globals D' = d_globals D"
      "d_lgsize D' = d_lgsize D" "d_pcsize D' = d_pcsize D" "put_room junk (d_sections D ! 0) = Some sec"
      "length c = length (sec_buf sec)" "d_sections D' ! 0 = sec\<lparr>sec_buf := c, sec_pos := pos, sec_ofs := ofs\<rparr>"
    using dasm_put_linking [OF L put ok xs small] by blast
  have "room_ok sec"
    using put_room_returns [OF room, of junk] linking_pos [OF L] small D'(5) by auto
  then have "room_ok (d_sections D' ! 0)" using D'(6,7) by (auto simp: room_ok_def)
  then show ?thesis using D'(1-4) G by (simp add: good_def tables_ok_def)
qed

lemma dasm_puts_good:
  assumes "good al its D" and "dasm_puts junk ps D = Some D'" and "d_status D' = DASM_S_OK"
    and "program_items al ps = Some xs" and "length its + length xs < 2 ^ 24"
  shows "good al (its @ xs) D' \<and> d_globals D' = d_globals D"
  using assms
proof (induction al ps arbitrary: its xs D rule: program_items.induct)
  case (1 al)
  then show ?case by simp
next
  case (2 al start args ps)
  then obtain D1 ys zs where D1: "dasm_put junk start args D = Some D1" "dasm_puts junk ps D1 = Some D'"
    and ys: "parse al start args = Some ys" "program_items al ps = Some zs" "xs = Start start # ys @ zs"
    by (auto split: Option.bind_splits)
  have "d_status D1 = DASM_S_OK" by (rule dasm_puts_status [OF D1(2) 2(4)])
  then have L: "good al (its @ Start start # ys) D1 \<and> d_globals D1 = d_globals D"
    using 2 ys D1 by (intro dasm_put_good) auto
  then have "good al ((its @ Start start # ys) @ zs) D' \<and> d_globals D' = d_globals D1"
    using 2 ys D1 by (intro "2.IH") auto
  then show ?case using L ys by simp
qed

end
