(* ===== verification/Dasm_Assemble.thy ===== *)
theory Dasm_Assemble
  imports Dasm_Link
begin

text \<open>
  The second and the third pass of the DynASM engine against the reference assembler of \<open>Dasm_Link\<close>:
  \<open>dasm_link\<close> leaves every label at its offset in the final layout, \<open>dasm_encode\<close> then emits the code that
  \<open>assemble\<close> emits. Every call of \<open>dasm_put\<close> on a well-formed list returns.
\<close>

section \<open>Pass 2 computes the layout\<close>

definition complete :: "item list \<Rightarrow> bool" where
  "complete its \<longleftrightarrow> (\<forall>i < length its. \<forall>l d. ref_of (its ! i) = Some (l, d) \<longrightarrow> target its l d i \<noteq> None)"

definition power_aligned :: "item list \<Rightarrow> bool" where
  "power_aligned its \<longleftrightarrow> (\<forall>ins n. Act DASM_ALIGN ins n \<in> set its \<longrightarrow> (\<exists>k. Suc (align_mask ins) = 2 ^ k))"

lemma complete_pending: "complete its \<Longrightarrow> pending its l = []"
  by (cases l) (fastforce simp: pending_def filter_empty_conv complete_def waits_def)

lemma complete_slots:
  assumes "complete its" and "pass1 its c T pos ofs" and "0 \<le> n" and "n < int (length (T t))"
  shows "T t ! nat n \<le> 0"
  using pass1_slot [OF assms(2-)] complete_pending [OF assms(1), of "(t, n)"]
  by (auto simp: slot_ok_def split: if_splits)

lemma link_globals_none:
  assumes "\<forall>i \<in> set is. i < length (d_lglabels D) \<and> d_lglabels D ! i \<le> 0"
  shows "link_globals is D = Some D"
  using assms
  by (induction "is") (auto simp: lab_get_def table_of_def collapse_negative)

lemma offset_at_Suc: "i < length its \<Longrightarrow> offset_at its (Suc i) = next_offset (offset_at its i) (its ! i)"
  by (simp add: offset_at_def take_Suc_conv_app_nth)

lemma estimate_Suc: "i < length its \<Longrightarrow> estimate its (Suc i) = next_estimate (estimate its i) (its ! i)"
  by (simp add: estimate_def take_Suc_conv_app_nth)

definition shift_at :: "item list \<Rightarrow> nat \<Rightarrow> int" where
  "shift_at its i = int (offset_at its i) - int (estimate its i)"

text \<open>The cells once the labels of the first items are fixed.\<close>

definition pass2 :: "item list \<Rightarrow> int list \<Rightarrow> nat \<Rightarrow> int list \<Rightarrow> bool" where
  "pass2 its c i c' \<longleftrightarrow> length c' = length c \<and>
     (\<forall>j < length its. has_cell (its ! j) \<longrightarrow> c' ! cell_at its j =
        (if label_of (its ! j) \<noteq> None \<and> j < i then int (offset_at its j) else c ! cell_at its j))"

lemma pass2_skip:
  assumes "pass2 its c i c'" and "i < length its" and "label_of (its ! i) = None"
  shows "pass2 its c (Suc i) c'"
  using assms by (auto simp: pass2_def less_Suc_eq)

lemma pass2_label:
  assumes "pass2 its c i c'" and "i < length its" and "label_of (its ! i) = Some l"
    and "cell_at its (length its) \<le> length c"
  shows "pass2 its c (Suc i) (c'[cell_at its i := int (offset_at its i)])"
proof -
  have "has_cell (its ! i)" using label_has_cell [OF assms(3)] by simp
  then have "cell_at its i < length c" using cell_below_end [OF assms(2)] assms(4) by simp
  moreover have "c'[cell_at its i := int (offset_at its i)] ! cell_at its j =
      (if label_of (its ! j) \<noteq> None \<and> j < Suc i then int (offset_at its j) else c ! cell_at its j)"
    if j: "j < length its" "has_cell (its ! j)" for j
  proof (cases "j = i")
    case True
    then show ?thesis using assms calculation by (simp add: pass2_def)
  next
    case False
    then have "cell_at its j \<noteq> cell_at its i"
      using cell_at_inj [of its j i] j assms(2) \<open>has_cell (its ! i)\<close> by auto
    then show ?thesis using assms(1) j False by (simp add: pass2_def less_Suc_eq)
  qed
  ultimately show ?thesis
    using assms(1) by (simp add: pass2_def)
qed

lemma and_mask_mod:
  assumes "Suc m = 2 ^ k"
  shows "int n AND int m = int (n mod Suc m)"
proof -
  have "int (Suc m) = 2 ^ k" unfolding assms by simp
  then have "int m = 2 ^ k - 1" by simp
  then have "int n AND int m = take_bit k (int n)" by (simp add: take_bit_eq_mask mask_eq_exp_minus_1)
  then show ?thesis using assms by (simp add: take_bit_eq_mod zmod_int)
qed

lemma shift_align:
  assumes "i < length its" and "its ! i = Act DASM_ALIGN ins n" and "power_aligned its"
  shows "shift_at its (Suc i) = shift_at its i -
    ((int (estimate its i + align_mask ins) + shift_at its i) AND int (align_mask ins))"
proof -
  obtain k where k: "Suc (align_mask ins) = 2 ^ k"
    using assms by (metis nth_mem power_aligned_def)
  let ?n = "offset_at its i + align_mask ins"
  have "int (estimate its i + align_mask ins) + shift_at its i = int ?n" by (simp add: shift_at_def)
  moreover have "int ?n AND int (align_mask ins) = int (?n mod Suc (align_mask ins))"
    by (rule and_mask_mod [OF k])
  moreover have "int (round_up (align_mask ins) (offset_at its i)) = int ?n - int (?n mod Suc (align_mask ins))"
    unfolding round_up_def by (metis add_diff_cancel_right' div_mult_mod_eq of_nat_add)
  ultimately show ?thesis
    using assms by (simp add: shift_at_def offset_at_Suc estimate_Suc add.commute)
qed

lemma next_plain:
  assumes "\<And>ins n. x \<noteq> Act DASM_ALIGN ins n"
  shows "\<exists>k. \<forall>n m. next_offset n x = n + k \<and> next_estimate m x = m + k"
proof (cases x)
  case (Act a ins n)
  then show ?thesis using assms by (cases a) auto
qed auto

lemma shift_plain:
  "i < length its \<Longrightarrow> (\<And>ins n. its ! i \<noteq> Act DASM_ALIGN ins n) \<Longrightarrow> shift_at its (Suc i) = shift_at its i"
  using next_plain [of "its ! i"] by (auto simp: shift_at_def offset_at_Suc estimate_Suc)

text \<open>The standing assumptions of the second and the third pass.\<close>

definition ready :: "dasm_state \<Rightarrow> item list \<Rightarrow> int list \<Rightarrow> bool" where
  "ready D its c \<longleftrightarrow> d_sections D \<noteq> [] \<and> complete its \<and> power_aligned its \<and> length its < 2 ^ 24 \<and>
     cell_at its (length its) \<le> length c \<and> (\<forall>i < length its. has_cell (its ! i) \<longrightarrow> cell_ok its c i)"

lemma ready_room: "ready D its c \<Longrightarrow> i < length its \<Longrightarrow> has_cell (its ! i) \<Longrightarrow> cell_at its i < length c"
  using cell_below_end [of i its] by (simp add: ready_def)

lemma ready_value:
  "ready D its c \<Longrightarrow> i < length its \<Longrightarrow> has_cell (its ! i) \<Longrightarrow> ref_of (its ! i) = None \<Longrightarrow>
   c ! cell_at its i = cell_value (its ! i) (estimate its i)"
  by (auto simp: ready_def cell_ok_def)

lemma link_item:
  assumes R: "ready D its c" and c': "pass2 its c i c'" and i: "i < length its"
    and x: "its ! i = Act a ins n" and a: "action_of ins = Some a" "a \<notin> {DASM_STOP, DASM_SECTION, DASM_ESC}"
  shows "\<exists>c''. link_action 0 p ins (upd D c' T, int (cell_at its i), shift_at its i) =
      Some (Some (Suc p), upd D c'' T, int (cell_at its (Suc i)), shift_at its (Suc i)) \<and>
    pass2 its c (Suc i) c''"
proof -
  have D: "d_sections D \<noteq> []" "power_aligned its" "cell_at its (length its) \<le> length c" using R by (auto simp: ready_def)
  have len: "length c' = length c" using c' by (simp add: pass2_def)
  have room: "cell_at its i < length c" if "takes_cell a" using ready_room [OF R i] x that by simp
  have nxt: "int (cell_at its (Suc i)) = int (cell_at its i) + (if takes_cell a then 1 else 0)"
    using i x by (simp add: cell_at_Suc)
  have same: "c' ! cell_at its i = cell_value (Act a ins n) (estimate its i)" if "takes_cell a" "ref_of (Act a ins n) = None"
    using c' i x that ready_value [OF R i] by (simp add: pass2_def)
  show ?thesis
  proof (cases "a = DASM_ALIGN")
    case True
    then show ?thesis
      using pass2_skip [OF c' i] x a nxt same room len D shift_align [OF i, of ins n]
      by (simp add: link_action_def takes_cell_def align_mask_def) blast
  next
    case False
    then have shift: "shift_at its (Suc i) = shift_at its i" using x by (intro shift_plain [OF i]) auto
    show ?thesis
    proof (cases "a \<in> {DASM_LABEL_LG, DASM_LABEL_PC}")
      case True
      obtain l where l: "label_of (its ! i) = Some l" using x True by auto
      have "c' ! cell_at its i + shift_at its i = int (offset_at its i)"
        using True same by (auto simp: takes_cell_def shift_at_def)
      then show ?thesis
        using pass2_label [OF c' i l D(3)] a True nxt room len D(1) shift
        by (auto simp: link_action_def takes_cell_def)
    next
      case False
      then have "label_of (its ! i) = None" using x by (cases a) auto
      then show ?thesis
        using pass2_skip [OF c' i] a False \<open>a \<noteq> DASM_ALIGN\<close> nxt shift
        by (auto simp: link_action_def takes_cell_def)
    qed
  qed
qed

lemma link_list_items:
  assumes "parse al p args = Some xs" and "pass2 its c i c'" and "ready D its c"
    and "drop i its = xs @ ys"
  shows "\<exists>c''. link_list al 0 p (upd D c' T, int (cell_at its i), shift_at its i) =
      Some (upd D c'' T, int (cell_at its (i + length xs)), shift_at its (i + length xs)) \<and>
    pass2 its c (i + length xs) c''"
  using assms(1,2,4)
proof (induction al p args arbitrary: i c' xs rule: parse.induct)
  case (1 al p args)
  have p: "p < length al" using "1.prems"(1) by (subst (asm) parse.simps) (auto split: if_splits)
  have here: "i < length its \<and> its ! i = x \<and> drop (Suc i) its = zs @ ys" if "xs = x # zs" for x zs
    using "1.prems"(3) that by (metis append_Cons drop_eq_Nil2 drop_Suc list.distinct(1) list.sel(3) not_le
        nth_via_drop tl_drop)
  have word: "int (cell_at its (Suc i)) = int (cell_at its i)" "shift_at its (Suc i) = shift_at its i"
    "pass2 its c (Suc i) c'" if "xs = Word w # zs" for w zs
    using here [OF that] "1.prems"(2) by (auto simp: cell_at_Suc shift_plain intro: pass2_skip)
  show ?case
  proof (cases "action_of (al ! p)")
    case None
    obtain zs where zs: "parse al (Suc p) args = Some zs" "xs = Word (al ! p) # zs"
      using "1.prems"(1) p None by (subst (asm) parse.simps) auto
    then show ?thesis
      using "1.IH"(1) [OF _ None zs(1) word(3) [OF zs(2)]] word(1,2) [OF zs(2)] here [OF zs(2)] p None
      by (subst link_list.simps) (simp add: link_action_def)
  next
    case (Some a)
    note act = Some
    consider "a = DASM_STOP" | "a = DASM_ESC" | "a \<notin> {DASM_STOP, DASM_ESC}" by blast
    then show ?thesis
    proof cases
      case 1
      moreover have "xs = []" using "1.prems"(1) p act 1 by (subst (asm) parse.simps) simp
      ultimately show ?thesis
        using "1.prems"(2) p act by (subst link_list.simps) (simp add: link_action_def, blast)
    next
      case 2
      then obtain zs where zs: "parse al (p + 2) args = Some zs" "xs = Word (al ! Suc p) # zs" "Suc p < length al"
        using "1.prems"(1) p act by (subst (asm) parse.simps) (auto split: if_splits)
      then show ?thesis
        using "1.IH"(2) [OF _ act _ _ 2 zs(3,1) word(3) [OF zs(2)]] word(1,2) [OF zs(2)] here [OF zs(2)] p act 2
        by (subst link_list.simps) (simp add: link_action_def)
    next
      case 3
      have sec: "a \<noteq> DASM_SECTION" using "1.prems"(1) p act
        by (subst (asm) parse.simps) auto
      define n where "n = (if takes_arg a then hd args else 0)"
      define rest where "rest = (if takes_arg a then tl args else args)"
      obtain zs where zs: "parse al (Suc p) rest = Some zs" "xs = Act a (al ! p) n # zs"
          and ne: "takes_arg a \<Longrightarrow> args \<noteq> []"
        using "1.prems"(1) p act 3 sec
        by (subst (asm) parse.simps) (auto simp: n_def rest_def split: if_splits list.splits)
      obtain c'' where c'': "link_action 0 p (al ! p) (upd D c' T, int (cell_at its i), shift_at its i) =
          Some (Some (Suc p), upd D c'' T, int (cell_at its (Suc i)), shift_at its (Suc i))"
          "pass2 its c (Suc i) c''"
        using link_item [OF assms(3) "1.prems"(2) _ _ act] here [OF zs(2)] 3 sec by blast
      have "\<exists>c3. link_list al 0 (Suc p) (upd D c'' T, int (cell_at its (Suc i)), shift_at its (Suc i)) =
          Some (upd D c3 T, int (cell_at its (Suc i + length zs)), shift_at its (Suc i + length zs)) \<and>
          pass2 its c (Suc i + length zs) c3"
      proof (cases "takes_arg a")
        case True
        then obtain m ms where "args = m # ms" using ne by (cases args) auto
        then show ?thesis
          using "1.IH"(3) [OF _ act _ _ _ _ _ _ c''(2), of m ms zs] p 3 sec True zs here [OF zs(2)]
          by (simp add: rest_def)
      next
        case False
        then show ?thesis
          using "1.IH"(4) [OF _ act _ _ _ _ _ c''(2), of zs] p 3 sec zs here [OF zs(2)] by (simp add: rest_def)
      qed
      then show ?thesis
        using c''(1) p zs(2) by (subst link_list.simps) simp
    qed
  qed
qed

lemma drop_Cons_nth: "drop i its = x # zs \<Longrightarrow> i < length its \<and> its ! i = x \<and> drop (Suc i) its = zs"
  by (metis drop_eq_Nil2 drop_Suc list.distinct(1) list.sel(3) not_le nth_via_drop tl_drop)

lemma link_section_items:
  assumes "program_items (d_actionlist D) ps = Some xs" and "drop i its = xs" and "i \<le> length its"
    and "pass2 its c i c'" and R: "ready D its c"
  shows "\<exists>c''. link_section 0 (int (cell_at its (length its)))
      (upd D c' T, int (cell_at its i), shift_at its i) =
      Some (upd D c'' T, int (cell_at its (length its)), shift_at its (length its)) \<and>
    pass2 its c (length its) c''"
  using assms(1-4)
proof (induction "d_actionlist D" ps arbitrary: i c' xs rule: program_items.induct)
  case 1
  then have "i = length its" by simp
  then show ?case using 1 by (subst link_section.simps) auto
next
  case (2 start args ps)
  then obtain ys zs where ys: "parse (d_actionlist D) start args = Some ys"
      "program_items (d_actionlist D) ps = Some zs" "xs = Start start # ys @ zs"
    by (auto split: Option.bind_splits)
  note here = drop_Cons_nth [OF "2.prems"(2) [unfolded ys(3)]]
  have D: "d_sections D \<noteq> []" using R by (simp add: ready_def)
  have cell: "has_cell (its ! i)" "label_of (its ! i) = None" "ref_of (its ! i) = None" using here by auto
  have nxt: "int (cell_at its i) + 1 = int (cell_at its (Suc i))" using here by (simp add: cell_at_Suc)
  have less: "cell_at its i < cell_at its (length its)" using cell_below_end here cell by blast
  have start: "c' ! cell_at its i = int start" "cell_at its i < length c'"
    using "2.prems"(4) here cell ready_value [OF R _ cell(1,3)] ready_room [OF R _ cell(1)] by (auto simp: pass2_def)
  obtain c2 where c2: "link_list (d_actionlist D) 0 start (upd D c' T, int (cell_at its (Suc i)), shift_at its (Suc i)) =
      Some (upd D c2 T, int (cell_at its (Suc i + length ys)), shift_at its (Suc i + length ys))"
      "pass2 its c (Suc i + length ys) c2"
    using link_list_items [OF ys(1) pass2_skip [OF "2.prems"(4) _ cell(2)] R] here by blast
  have "drop (Suc i + length ys) its = zs" using here by (metis add.commute append_eq_conv_conj drop_drop)
  moreover have "Suc i + length ys \<le> length its"
    using here by (metis length_append length_drop le_add1 less_eq_Suc_le ordered_cancel_comm_monoid_diff_class.le_diff_conv2 add.commute)
  ultimately have "\<exists>c''. link_section 0 (int (cell_at its (length its)))
      (upd D c2 T, int (cell_at its (Suc i + length ys)), shift_at its (Suc i + length ys)) =
      Some (upd D c'' T, int (cell_at its (length its)), shift_at its (length its)) \<and>
    pass2 its c (length its) c''"
    using "2.hyps" [OF ys(1,2)] c2(2) by blast
  moreover have "shift_at its (Suc i) = shift_at its i" using here by (intro shift_plain) auto
  ultimately show ?case
    using less start D nxt c2(1) by (subst link_section.simps) simp
qed

lemma link_sections_empty:
  assumes "\<forall>s \<in> set ss. s < length (d_sections D) \<and> sec_pos (d_sections D ! s) = sec_bias s \<and>
      sec_ofs (d_sections D ! s) = 0"
  shows "link_sections ss (D, ofs) = Some (D, ofs)"
  using assms by (induction ss) (auto simp: link_section.simps)

lemma words_of_nth: "length xs = words_of sz \<Longrightarrow> i \<in> set [a..<words_of sz] \<Longrightarrow> i < length xs" by simp

lemma linking_ready:
  assumes "linking al its D" and "complete its" and "power_aligned its" and "length its < 2 ^ 24"
  shows "ready D its (sec_buf (d_sections D ! 0))"
  using assms by (auto simp: linking_def ready_def pass1_def)

theorem link_layout:
  assumes L: "linking al its D" and its: "program_items al ps = Some its"
    and ok: "complete its" "power_aligned its" "length its < 2 ^ 24" and st: "d_status D = DASM_S_OK"
  shows "\<exists>c. dasm_link D = Some (DASM_S_OK, word_of_int (int (offset_at its (length its))),
      (upd D c (table_of D))\<lparr>d_codesize := word_of_int (int (offset_at its (length its)))\<rparr>) \<and>
    pass2 its (sec_buf (d_sections D ! 0)) (length its) c"
proof -
  let ?c = "sec_buf (d_sections D ! 0)" and ?n = "length its"
  have P: "pass1 its ?c (table_of D) (sec_pos (d_sections D ! 0)) (sec_ofs (d_sections D ! 0))"
    and D: "d_sections D \<noteq> []" "d_actionlist D = al" "d_maxsection D = length (d_sections D)"
    and lens: "length (d_lglabels D) = words_of (d_lgsize D)" "length (d_pclabels D) = words_of (d_pcsize D)"
    and others: "\<forall>s. 0 < s \<longrightarrow> s < length (d_sections D) \<longrightarrow>
        sec_pos (d_sections D ! s) = sec_bias s \<and> sec_ofs (d_sections D ! s) = 0"
    using L by (auto simp: linking_def)
  have pos: "sec_pos (d_sections D ! 0) = int (cell_at its ?n)" "sec_ofs (d_sections D ! 0) = int (estimate its ?n)"
    using P by (auto simp: pass1_def)
  have slot: "table_of D t ! n \<le> 0" if "n < length (table_of D t)" for t n
    using complete_slots [OF ok(1) P, of "int n" t] that by simp
  have pcs: "undefined_pc D = None"
    using slot [of _ PC_labels] lens by (fastforce simp: undefined_pc_def find_None_iff table_of_def)
  have globals: "link_globals [20..<words_of (d_lgsize D)] D = Some D"
    using slot [of _ LG_labels] lens by (intro link_globals_none) (auto simp: table_of_def)
  have R: "ready D its ?c" by (rule linking_ready [OF L ok])
  have zero: "cell_at its 0 = 0" "shift_at its 0 = 0"
    by (auto simp: cell_at_def shift_at_def offset_at_def estimate_def)
  have p0: "pass2 its ?c 0 ?c" by (simp add: pass2_def)
  obtain c where c: "link_section 0 (int (cell_at its ?n)) (D, 0, 0) =
      Some (upd D c (table_of D), int (cell_at its ?n), shift_at its ?n)" "pass2 its ?c ?n c"
    using link_section_items [OF _ _ _ p0 R, of ps its "table_of D"] its D zero by (auto simp: upd_self)
  let ?D = "upd D c (table_of D)"
  have secs: "sec_pos (d_sections ?D ! s) = sec_pos (d_sections D ! s)"
    "sec_ofs (d_sections ?D ! s) = sec_ofs (d_sections D ! s)" for s
    using D(1) by (cases s; simp add: upd_sections)+
  have rest: "link_sections [1..<length (d_sections D)] (?D, ofs) = Some (?D, ofs)" for ofs
    using others secs by (intro link_sections_empty) auto
  have total: "shift_at its ?n + int (estimate its ?n) = int (offset_at its ?n)" by (simp add: shift_at_def)
  have "[0..<length (d_sections D)] = 0 # [1..<length (d_sections D)]"
    using D(1) by (simp add: upt_conv_Cons)
  then have "link_sections [0..<length (d_sections D)] (D, 0) = Some (?D, int (offset_at its ?n))"
    using D(1) c(1) pos secs rest total by (simp add: sec_bias_def del: upt_Suc)
  then have "dasm_link D = Some (DASM_S_OK, word_of_int (int (offset_at its ?n)),
      ?D\<lparr>d_codesize := word_of_int (int (offset_at its ?n))\<rparr>)"
    using st pcs globals D(3) by (simp add: dasm_link_def)
  then show ?thesis using c(2) by blast
qed

section \<open>Pass 3 emits the code\<close>

definition es_of :: "u32 list \<Rightarrow> image \<Rightarrow> enc_state" where
  "es_of code im = \<lparr>es_code = fst im @ drop (length (fst im)) code, es_cp = length (fst im), es_globals = snd im\<rparr>"

lemma emit_es: "length out < length code \<Longrightarrow> emit w (es_of code (out, gl)) = Some (es_of code (out @ [w], gl))"
  using Cons_nth_drop_Suc [of "length out" code, symmetric] by (simp add: emit_def es_of_def)

lemma patch_es:
  assumes "patch_last v im = Some im'" and "length (fst im) \<le> length code"
  shows "patch v (es_of code im) = Some (es_of code im')"
proof -
  obtain out w gl where im: "im = (out @ [w], gl)" "im' = (out @ [w OR v], gl)"
    using assms(1) by (cases im; cases "fst im" rule: rev_cases) (auto simp: patch_last_def)
  then show ?thesis
    using assms(2) by (simp add: patch_def es_of_def)
qed

lemma patch_last_length: "patch_last v im = Some im' \<Longrightarrow> length (fst im') = length (fst im)"
  by (auto simp: patch_last_def split: prod.splits if_splits)

lemma set_global_length: "set_global base x n im = Some im' \<Longrightarrow> length (fst im') = length (fst im)"
  by (auto simp: set_global_def split: prod.splits if_splits option.splits)

lemma emit_nops_es:
  assumes "(of_nat (4 * (length out + k)) :: u32) AND m = 0"
    and "\<forall>j < k. (of_nat (4 * (length out + j)) :: u32) AND m \<noteq> 0" and "length out + k \<le> length code"
  shows "emit_nops m (es_of code (out, gl)) = Some (es_of code (out @ replicate k 0xe1a00000, gl))"
  using assms
proof (induction k arbitrary: out)
  case 0
  then show ?case by (subst emit_nops.simps) (simp add: es_of_def)
next
  case (Suc k)
  have "emit_nops m (es_of code (out, gl)) = emit_nops m (es_of code (out @ [0xe1a00000], gl))"
    using Suc.prems emit_es [of out code "0xe1a00000" gl]
    by (subst emit_nops.simps) (auto simp: es_of_def dest: spec [of _ 0])
  also have "\<dots> = Some (es_of code ((out @ [0xe1a00000]) @ replicate k 0xe1a00000, gl))"
  proof (rule Suc.IH)
    show "(of_nat (4 * (length (out @ [0xe1a00000]) + k)) :: u32) AND m = 0"
      using Suc.prems(1) by simp
    show "\<forall>j < k. (of_nat (4 * (length (out @ [0xe1a00000]) + j)) :: u32) AND m \<noteq> 0"
    proof (intro allI impI)
      fix j assume "j < k"
      then show "(of_nat (4 * (length (out @ [0xe1a00000]) + j)) :: u32) AND m \<noteq> 0"
        using Suc.prems(2) [rule_format, of "Suc j"] by simp
    qed
  qed (use Suc.prems(3) in simp)
  finally show ?case by simp
qed

lemma word_and_mask_mod:
  fixes m :: u32
  assumes "Suc (unat m) = 2 ^ k" and "n < 2 ^ 32"
  shows "(of_nat n :: u32) AND m = 0 \<longleftrightarrow> n mod Suc (unat m) = 0"
proof -
  have "unat ((of_nat n :: u32) AND m) = n AND unat m"
    using assms(2) by (simp add: unsigned_and_eq unat_of_nat32)
  moreover have "int (n AND unat m) = int (n mod Suc (unat m))"
    using and_mask_mod [OF assms(1), of n] by (simp add: of_nat_and_eq)
  ultimately have "unat ((of_nat n :: u32) AND m) = n mod Suc (unat m)" by (simp only: of_nat_eq_iff)
  then show ?thesis by (metis unat_eq_zero)
qed

text \<open>Rounding to a power of two, in words.\<close>

lemma round_up_words:
  assumes "Suc m = 2 ^ k"
  shows "round_up m (4 * n) mod 4 = 0" and "4 * n \<le> round_up m (4 * n)"
    and "round_up m (4 * n) mod Suc m = 0" and "4 * n \<le> j \<Longrightarrow> j < round_up m (4 * n) \<Longrightarrow> j mod Suc m \<noteq> 0"
proof -
  show mod: "round_up m (4 * n) mod Suc m = 0" unfolding round_up_def by (rule mod_mult_self2_is_0)
  have decomp: "round_up m (4 * n) = 4 * n + m - (4 * n + m) mod Suc m"
    unfolding round_up_def by (metis minus_mod_eq_div_mult)
  have "(4 * n + m) mod Suc m < Suc m" by simp
  then show ge: "4 * n \<le> round_up m (4 * n)" using decomp by linarith
  show "j mod Suc m \<noteq> 0" if j: "4 * n \<le> j" "j < round_up m (4 * n)"
  proof
    assume "j mod Suc m = 0"
    then obtain q where q: "j = q * Suc m" by (metis mod_0_imp_dvd dvd_def mult.commute)
    have "q < (4 * n + m) div Suc m" using j(2) q unfolding round_up_def by (metis mult_less_cancel2)
    then have "Suc q * Suc m \<le> (4 * n + m) div Suc m * Suc m" by (intro mult_right_mono) auto
    also have "\<dots> \<le> 4 * n + m" by (rule div_times_less_eq_dividend)
    finally show False using j(1) q by simp
  qed
  show "round_up m (4 * n) mod 4 = 0"
  proof (cases "k < 2")
    case True
    then have "Suc m = 1 \<or> Suc m = 2" using assms by (cases k) (auto simp: less_Suc_eq)
    then have "m = 0 \<or> m = 1" by auto
    moreover have "(4 * n + 1) div 2 * 2 mod 4 = (0 :: nat)" by presburger
    ultimately show ?thesis by (auto simp: round_up_def numeral_2_eq_2)
  next
    case False
    then have "4 dvd Suc m" unfolding assms using le_imp_power_dvd [of 2 k "2 :: nat"] by simp
    then show ?thesis unfolding round_up_def mod_eq_0_iff_dvd by (rule dvd_mult)
  qed
qed

lemma offset_words:
  assumes "power_aligned its" and "i \<le> length its"
  shows "offset_at its i mod 4 = 0"
  using assms(2)
proof (induction i)
  case 0
  then show ?case by (simp add: offset_at_def)
next
  case (Suc i)
  then have IH: "offset_at its i mod 4 = 0" and i: "i < length its" by auto
  show ?case
  proof (cases "\<exists>ins n. its ! i = Act DASM_ALIGN ins n")
    case True
    then obtain ins n k where "its ! i = Act DASM_ALIGN ins n" "Suc (align_mask ins) = 2 ^ k"
      using assms(1) i by (metis nth_mem power_aligned_def)
    moreover have "4 * (offset_at its i div 4) = offset_at its i" using IH by arith
    ultimately show ?thesis
      using i round_up_words(1) [of "align_mask ins" k "offset_at its i div 4"] by (simp add: offset_at_Suc)
  next
    case False
    show ?thesis
    proof (cases "its ! i")
      case (Act a ins n)
      then show ?thesis using False i IH by (cases a) (auto simp: offset_at_Suc)
    qed (use i IH in \<open>auto simp: offset_at_Suc mod_add_left_eq [symmetric]\<close>)
  qed
qed

lemma emit_item_length:
  assumes "emit_item ext base its i (out, gl) = Some im'" and "4 * length out = offset_at its i"
    and i: "i < length its" and "power_aligned its"
  shows "4 * length (fst im') = offset_at its (Suc i)"
proof -
  have mod4: "offset_at its (Suc i) mod 4 = 0" using assms(4) i by (intro offset_words) auto
  show ?thesis
  proof (cases "its ! i")
    case (Act a ins n)
    have same: "4 * length (fst im') = next_offset (offset_at its i) (Act a ins n)" if "a \<noteq> DASM_ALIGN"
      using assms(1,2) that Act
      by (cases a) (auto simp: emit_item_def Let_def split: Option.bind_splits prod.splits
          dest!: patch_last_length set_global_length)
    show ?thesis
    proof (cases "a = DASM_ALIGN")
      case True
      obtain k where "Suc (align_mask ins) = 2 ^ k"
        using assms(4) i Act True by (metis nth_mem power_aligned_def)
      then have "4 * length out \<le> round_up (align_mask ins) (4 * length out)" by (rule round_up_words(2))
      then show ?thesis
        using assms(1,2) Act True i mod4 by (auto simp: emit_item_def Let_def offset_at_Suc)
    qed (use same Act i in \<open>simp add: offset_at_Suc\<close>)
  qed (use assms(1,2) i in \<open>auto simp: emit_item_def Let_def offset_at_Suc\<close>)
qed

definition final_cell :: "item list \<Rightarrow> nat \<Rightarrow> int" where
  "final_cell its i =
     (case ref_of (its ! i) of
        Some (l, d) \<Rightarrow> int (cell_at its (the (target its l d i)))
      | None \<Rightarrow>
          if label_of (its ! i) \<noteq> None then int (offset_at its i)
          else cell_value (its ! i) (estimate its i))"

definition linked :: "dasm_state \<Rightarrow> item list \<Rightarrow> bool" where
  "linked E its \<longleftrightarrow> d_sections E \<noteq> [] \<and> length its < 2 ^ 24 \<and> complete its \<and> power_aligned its \<and>
     (\<forall>i < length its. has_cell (its ! i) \<longrightarrow> sec_get E 0 (int (cell_at its i)) = Some (final_cell its i))"

lemma linked_cell:
  "linked E its \<Longrightarrow> i < length its \<Longrightarrow> has_cell (its ! i) \<Longrightarrow>
   sec_get E 0 (int (cell_at its i)) = Some (final_cell its i)"
  by (simp add: linked_def)

lemma linked_label:
  assumes "linked E its" and "places its l j"
  shows "pos_get E (int (cell_at its j)) = Some (int (offset_at its j))"
proof -
  have j: "j < length its" "label_of (its ! j) = Some l" using assms(2) by (auto simp: places_def)
  note cell = label_has_cell [OF j(2)]
  have "cell_at its j < 2 ^ 24"
    using le_less_trans [OF cell_at_le, of its "2 ^ 24" j] assms(1) by (simp add: linked_def)
  then have "pos_get E (int (cell_at its j)) = sec_get E 0 (int (cell_at its j))"
    by (simp add: pos_get_def pos2sec_def)
  then show ?thesis using linked_cell [OF assms(1) j(1)] cell j(2) by (simp add: final_cell_def)
qed

lemma enc_patch_es:
  "patch_last v im = Some im' \<Longrightarrow> length (fst im) \<le> length code \<Longrightarrow>
   enc_patch p v (es_of code im) = Some (Enc (Suc p) (es_of code im'))"
  by (simp add: enc_patch_def patch_es)

lemma es_of_cp [simp]: "es_cp (es_of code im) = length (fst im)" "es_globals (es_of code im) = snd im"
  by (simp_all add: es_of_def)

lemma enc_ref:
  assumes E: "linked E its" and i: "i < length its" and ref: "ref_of (its ! i) = Some (l, d)"
    and tgt: "target its l d i = Some j"
    and v: "rel_field ins (int (offset_at its j) - int (4 * length out) - 4) = Some v"
    and im': "patch_last v (out, gl) = Some im'" and room: "length out \<le> length code"
  shows "0 \<le> final_cell its i \<and> enc_label E p ins (final_cell its i) (es_of code (out, gl)) =
    Some (Enc (Suc p) (es_of code im'))"
proof -
  have cell: "final_cell its i = int (cell_at its j)" using ref tgt by (simp add: final_cell_def)
  have "pos_get E (final_cell its i) = Some (int (offset_at its j))"
    unfolding cell by (rule linked_label [OF E target_places [OF tgt]])
  then show ?thesis
    using v im' room cell by (simp add: enc_label_def enc_rel_def enc_patch_es)
qed

lemma enc_align:
  assumes al: "power_aligned its" "Act DASM_ALIGN ins n \<in> set its"
    and len: "round_up (align_mask ins) (4 * length out) \<le> 4 * length code" "4 * length code < 2 ^ 32"
  shows "emit_nops (ins AND 255) (es_of code (out, gl)) =
    Some (es_of code (out @ replicate (round_up (align_mask ins) (4 * length out) div 4 - length out)
      0xe1a00000, gl))"
proof -
  let ?r = "round_up (align_mask ins) (4 * length out)"
  obtain k where k: "Suc (align_mask ins) = 2 ^ k" using al by (auto simp: power_aligned_def)
  note r = round_up_words [OF k, of "length out"]
  have mask: "(of_nat m :: u32) AND (ins AND 255) = 0 \<longleftrightarrow> m mod Suc (align_mask ins) = 0" if "m < 2 ^ 32" for m
    using word_and_mask_mod [OF k [unfolded align_mask_def] that] by (simp add: align_mask_def)
  obtain q where q: "?r = 4 * q" using r(1) by (metis mod_0_imp_dvd dvd_def)
  then have pad: "4 * (length out + (?r div 4 - length out)) = ?r" using r(2) by simp
  show ?thesis
  proof (rule emit_nops_es)
    show "(of_nat (4 * (length out + (?r div 4 - length out))) :: u32) AND (ins AND 255) = 0"
      unfolding pad using mask [of ?r] r(3) len by simp
    show "\<forall>j < ?r div 4 - length out. (of_nat (4 * (length out + j)) :: u32) AND (ins AND 255) \<noteq> 0"
    proof (intro allI impI)
      fix j assume "j < ?r div 4 - length out"
      then have j: "4 * (length out + j) < ?r" using q by simp
      then have "4 * (length out + j) mod Suc (align_mask ins) \<noteq> 0" using r(4) by simp
      then show "(of_nat (4 * (length out + j)) :: u32) AND (ins AND 255) \<noteq> 0"
        unfolding mask [OF order_less_trans [OF j le_less_trans [OF len]]] .
    qed
    have "4 * (length out + (?r div 4 - length out)) \<le> 4 * length code"
      unfolding pad by (rule len(1))
    then show "length out + (?r div 4 - length out) \<le> length code"
      by (rule iffD1 [OF nat_mult_le_cancel1, rotated]) simp
  qed
qed

lemma enc_item:
  assumes E: "linked E its" and i: "i < length its" and x: "its ! i = Act a ins n"
    and a: "a \<notin> {DASM_STOP, DASM_SECTION, DASM_ESC}"
    and im': "emit_item ext base its i im = Some im'" and off: "4 * length (fst im) = offset_at its i"
    and len: "length (fst im) \<le> length code" "length (fst im') \<le> length code" "4 * length code < 2 ^ 32"
  shows "enc_action E ext base al p ins a (if takes_cell a then final_cell its i else 0) (es_of code im) =
    Some (Enc (Suc p) (es_of code im'))"
proof -
  obtain out gl where im: "im = (out, gl)" by (cases im)
  have cell: "final_cell its i = cell_value (Act a ins n) (estimate its i)"
    if "ref_of (Act a ins n) = None" "label_of (Act a ins n) = None"
    using that x by (simp add: final_cell_def)
  have lab: "final_cell its i = int (4 * length out)" if "label_of (Act a ins n) = Some l" for l
    using label_has_cell [OF that] that x off im by (simp add: final_cell_def)
  have E': "power_aligned its" "complete its" using E by (auto simp: linked_def)
  show ?thesis
  proof (cases a)
    case DASM_REL_EXT
    then show ?thesis
      using im' im x len by (auto simp: emit_item_def takes_cell_def enc_rel_def enc_patch_es split: Option.bind_splits)
  next
    case DASM_ALIGN
    have "Act DASM_ALIGN ins n \<in> set its" using x i DASM_ALIGN by (metis nth_mem)
    moreover have "round_up (align_mask ins) (4 * length out) \<le> 4 * length code"
      using emit_item_length [OF im' [unfolded im] _ i E'(1)] off im len x DASM_ALIGN i
      by (simp add: offset_at_Suc)
    ultimately show ?thesis
      using enc_align [OF E'(1), of ins n out code gl] im im' x DASM_ALIGN len
      by (simp add: emit_item_def takes_cell_def)
  next
    case DASM_REL_LG
    then obtain l d j v where "ref_of (its ! i) = Some (l, d)" "target its l d i = Some j"
        "rel_field ins (int (offset_at its j) - int (4 * length out) - 4) = Some v" "patch_last v (out, gl) = Some im'"
      using im' im x by (auto simp: emit_item_def Let_def split: Option.bind_splits prod.splits)
    then show ?thesis
      using enc_ref [OF E i, of l d j ins out v gl im' code p] DASM_REL_LG len im by (simp add: takes_cell_def)
  next
    case DASM_REL_PC
    then obtain l d j v where "ref_of (its ! i) = Some (l, d)" "target its l d i = Some j"
        "rel_field ins (int (offset_at its j) - int (4 * length out) - 4) = Some v" "patch_last v (out, gl) = Some im'"
      using im' im x by (auto simp: emit_item_def Let_def split: Option.bind_splits prod.splits)
    then show ?thesis
      using enc_ref [OF E i, of l d j ins out v gl im' code p] DASM_REL_PC len im by (simp add: takes_cell_def)
  next
    case DASM_LABEL_LG
    then show ?thesis
      using im' im x lab
      by (auto simp: emit_item_def takes_cell_def set_global_def Let_def es_of_def split: if_splits option.splits)
  qed (use im' im x a len cell in \<open>auto simp: emit_item_def takes_cell_def enc_patch_es\<close>)
qed

lemma offset_mono:
  assumes "power_aligned its" and "j \<le> length its" and "i \<le> j"
  shows "offset_at its i \<le> offset_at its j"
  using assms(3,2)
proof (induction j rule: dec_induct)
  case (step j)
  then have j: "j < length its" and IH: "offset_at its i \<le> offset_at its j" by auto
  have "offset_at its j \<le> next_offset (offset_at its j) (its ! j)"
  proof (cases "\<exists>ins n. its ! j = Act DASM_ALIGN ins n")
    case True
    then obtain ins n k where x: "its ! j = Act DASM_ALIGN ins n" "Suc (align_mask ins) = 2 ^ k"
      using assms(1) j by (metis nth_mem power_aligned_def)
    have "4 * (offset_at its j div 4) = offset_at its j"
      using offset_words [OF assms(1), of j] j by arith
    then show ?thesis
      using x round_up_words(2) [OF x(2), of "offset_at its j div 4"] by simp
  next
    case False
    then show ?thesis using next_plain [of "its ! j"] by (metis le_add1)
  qed
  then show ?case using IH j by (simp add: offset_at_Suc)
qed simp

lemma emit_items_append:
  "emit_items ext base its (is @ js) im = emit_items ext base its is im \<bind> emit_items ext base its js"
  by (induction "is" arbitrary: im) (auto split: Option.bind_splits)

lemma emit_items_length:
  assumes "emit_items ext base its [i..<j] im = Some im'" and "4 * length (fst im) = offset_at its i"
    and "i \<le> j" and "j \<le> length its" and "power_aligned its"
  shows "4 * length (fst im') = offset_at its j"
  using assms(3,1,2,4)
proof (induction j arbitrary: im' rule: dec_induct)
  case (step j)
  then obtain im1 where im1: "emit_items ext base its [i..<j] im = Some im1" "emit_item ext base its j im1 = Some im'"
    by (auto simp: emit_items_append split: Option.bind_splits)
  have "4 * length (fst im1) = offset_at its j" using step im1(1) by simp
  then show ?case
    using emit_item_length [of ext base its j "fst im1" "snd im1" im'] im1(2) step assms(5) by simp
qed simp

text \<open>What the third pass needs to know of the buffer.\<close>

definition fits :: "item list \<Rightarrow> u32 list \<Rightarrow> bool" where
  "fits its code \<longleftrightarrow> offset_at its (length its) \<le> 4 * length code \<and> 4 * length code < 2 ^ 32"

lemma fits_room:
  assumes "fits its code" and "linked E its" and "4 * length out = offset_at its i" and "i \<le> length its"
  shows "length out \<le> length code" and "4 * length code < 2 ^ 32"
  using assms offset_mono [of its "length its" i] by (auto simp: fits_def linked_def)

lemma enc_list_items:
  assumes "parse (d_actionlist E) p args = Some xs"
    and "drop i its = xs @ ys" and "emit_items ext base its [i..<i + length xs] im = Some im'"
    and "4 * length (fst im) = offset_at its i"
    and E: "linked E its" and fits: "fits its code"
  shows "enc_list E ext base 0 p (int (cell_at its i)) (es_of code im) =
    Some (int (cell_at its (i + length xs)), EncEnd (es_of code im'))"
  using assms(1-4)
proof (induction "d_actionlist E" p args arbitrary: i im xs rule: parse.induct)
  case (1 p args)
  let ?al = "d_actionlist E"
  have E': "power_aligned its" using E by (simp add: linked_def)
  have p: "p < length ?al" using "1.prems"(1) by (subst (asm) parse.simps) (auto split: if_splits)
  have first: "i < length its \<and> its ! i = x \<and> drop (Suc i) its = zs @ ys \<and> (\<exists>im1.
      emit_item ext base its i im = Some im1 \<and> emit_items ext base its [Suc i..<Suc i + length zs] im1 = Some im' \<and>
      4 * length (fst im1) = offset_at its (Suc i) \<and>
      length (fst im) \<le> length code \<and> length (fst im1) \<le> length code \<and> 4 * length code < 2 ^ 32)"
    if "xs = x # zs" for x zs
  proof -
    note here = drop_Cons_nth [of i its x "zs @ ys"]
    have h: "i < length its" "its ! i = x" "drop (Suc i) its = zs @ ys" using "1.prems"(2) that here by auto
    have "[i..<i + length xs] = i # [Suc i..<Suc i + length zs]" 
      using that upt_conv_Cons [of i "i + length xs"] by (simp del: upt_Suc)
    then obtain im1 where im1: "emit_item ext base its i im = Some im1"
        "emit_items ext base its [Suc i..<Suc i + length zs] im1 = Some im'"
      using "1.prems"(3) by (auto split: Option.bind_splits)
    have "4 * length (fst im1) = offset_at its (Suc i)"
      using emit_item_length [of ext base its i "fst im" "snd im" im1] im1(1) "1.prems"(4) h(1) E' by simp
    then show ?thesis using h im1 fits_room [OF fits E] "1.prems"(4) by fastforce
  qed
  have word: "int (cell_at its (Suc i)) = int (cell_at its i)"
    "\<exists>im1. emit w (es_of code im) = Some (es_of code im1) \<and>
      emit_items ext base its [Suc i..<Suc i + length zs] im1 = Some im' \<and>
      4 * length (fst im1) = offset_at its (Suc i)"
    if x: "xs = Word w # zs" for w zs
  proof -
    from first [OF x] show "int (cell_at its (Suc i)) = int (cell_at its i)" by (simp add: cell_at_Suc)
    from first [OF x] obtain im1 where im1: "its ! i = Word w" "emit_item ext base its i im = Some im1"
        "emit_items ext base its [Suc i..<Suc i + length zs] im1 = Some im'"
        "4 * length (fst im1) = offset_at its (Suc i)" "length (fst im1) \<le> length code"
      by blast
    have eq: "im1 = (fst im @ [w], snd im)" using im1(1,2) by (auto simp: emit_item_def split: prod.splits)
    then have "emit w (es_of code im) = Some (es_of code im1)"
      using emit_es [of "fst im" code w "snd im"] im1(5) by simp
    then show "\<exists>im1. emit w (es_of code im) = Some (es_of code im1) \<and>
      emit_items ext base its [Suc i..<Suc i + length zs] im1 = Some im' \<and>
      4 * length (fst im1) = offset_at its (Suc i)"
      using im1(3,4) by blast
  qed
  show ?case
  proof (cases "action_of (?al ! p)")
    case None
    obtain zs where zs: "parse ?al (Suc p) args = Some zs" "xs = Word (?al ! p) # zs"
      using "1.prems"(1) p None by (subst (asm) parse.simps) auto
    obtain im1 where im1: "emit (?al ! p) (es_of code im) = Some (es_of code im1)"
        "emit_items ext base its [Suc i..<Suc i + length zs] im1 = Some im'"
        "4 * length (fst im1) = offset_at its (Suc i)" using word(2) [OF zs(2)] by blast
    have "enc_list E ext base 0 (Suc p) (int (cell_at its (Suc i))) (es_of code im1) =
        Some (int (cell_at its (Suc i + length zs)), EncEnd (es_of code im'))"
      using "1.hyps"(1) [OF _ None zs(1) _ im1(2,3)] first [OF zs(2)] p by simp
    then show ?thesis
      using im1(1) word(1) [OF zs(2)] zs(2) None p
      by (subst enc_list.simps) (simp add: enc_step_def)
  next
    case (Some a)
    note act = Some
    consider "a = DASM_STOP" | "a = DASM_ESC" | "a \<notin> {DASM_STOP, DASM_ESC}" by blast
    then show ?thesis
    proof cases
      case 1
      moreover have "xs = []" using "1.prems"(1) p act 1 by (subst (asm) parse.simps) simp
      ultimately show ?thesis
        using "1.prems"(3) p act by (subst enc_list.simps) (simp add: enc_step_def takes_cell_def)
    next
      case 2
      then obtain zs where zs: "parse ?al (p + 2) args = Some zs" "xs = Word (?al ! Suc p) # zs" "Suc p < length ?al"
        using "1.prems"(1) p act by (subst (asm) parse.simps) (auto split: if_splits)
      obtain im1 where im1: "emit (?al ! Suc p) (es_of code im) = Some (es_of code im1)"
          "emit_items ext base its [Suc i..<Suc i + length zs] im1 = Some im'"
          "4 * length (fst im1) = offset_at its (Suc i)" using word(2) [OF zs(2)] by blast
      have "enc_list E ext base 0 (p + 2) (int (cell_at its (Suc i))) (es_of code im1) =
          Some (int (cell_at its (Suc i + length zs)), EncEnd (es_of code im'))"
        using "1.hyps"(2) [OF _ act _ _ 2 zs(3,1) _ im1(2,3)] first [OF zs(2)] p 2 by simp
      then show ?thesis
        using im1(1) word(1) [OF zs(2)] zs(2,3) act p 2
        by (subst enc_list.simps) (simp add: enc_step_def takes_cell_def)
    next
      case 3
      have sec: "a \<noteq> DASM_SECTION" using "1.prems"(1) p act
        by (subst (asm) parse.simps) auto
      define n where "n = (if takes_arg a then hd args else 0)"
      define rest where "rest = (if takes_arg a then tl args else args)"
      obtain zs where zs: "parse ?al (Suc p) rest = Some zs" "xs = Act a (?al ! p) n # zs"
          and ne: "takes_arg a \<Longrightarrow> args \<noteq> []"
        using "1.prems"(1) p act 3 sec
        by (subst (asm) parse.simps) (auto simp: n_def rest_def split: if_splits list.splits)
      obtain im1 where im1: "emit_item ext base its i im = Some im1"
          "emit_items ext base its [Suc i..<Suc i + length zs] im1 = Some im'"
          "4 * length (fst im1) = offset_at its (Suc i)" and len: "length (fst im) \<le> length code"
          "length (fst im1) \<le> length code" "4 * length code < 2 ^ 32"
        using first [OF zs(2)] by blast
      have h: "i < length its" "its ! i = Act a (?al ! p) n" "drop (Suc i) its = zs @ ys" using first [OF zs(2)] by auto
      have go: "enc_action E ext base ?al p (?al ! p) a (if takes_cell a then final_cell its i else 0) (es_of code im) =
          Some (Enc (Suc p) (es_of code im1))"
        using 3 sec by (intro enc_item [OF E h(1,2) _ im1(1) "1.prems"(4) len]) auto
      have "enc_step E ext base 0 p (int (cell_at its i)) (es_of code im) =
          Some (int (cell_at its (Suc i)), Enc (Suc p) (es_of code im1))"
        using go p act linked_cell [OF E h(1)] h(1,2) by (auto simp: enc_step_def cell_at_Suc)
      moreover have "enc_list E ext base 0 (Suc p) (int (cell_at its (Suc i))) (es_of code im1) =
          Some (int (cell_at its (Suc i + length zs)), EncEnd (es_of code im'))"
      proof (cases "takes_arg a")
        case True
        then obtain m ms where "args = m # ms" using ne by (cases args) auto
        then show ?thesis
          using "1.hyps"(3) [OF _ act _ _ _ True _ _ h(3) im1(2,3), of m ms] p 3 sec True zs
          by (simp add: rest_def)
      next
        case False
        then show ?thesis
          using "1.hyps"(4) [OF _ act _ _ _ False _ h(3) im1(2,3)] p 3 sec zs by (simp add: rest_def)
      qed
      ultimately show ?thesis
        using zs(2) by (subst enc_list.simps) simp
    qed
  qed
qed

lemma enc_section_items:
  assumes "program_items (d_actionlist E) ps = Some xs" and "drop i its = xs" and "i \<le> length its"
    and "emit_items ext base its [i..<length its] im = Some im'" and "4 * length (fst im) = offset_at its i"
    and E: "linked E its" and fits: "fits its code"
    and last: "sec_pos (d_sections E ! 0) = int (cell_at its (length its))"
  shows "enc_section E ext base 0 (int (cell_at its i)) (es_of code im) = Some (DASM_S_OK, es_of code im')"
  using assms(1-5)
proof (induction "d_actionlist E" ps arbitrary: i im xs rule: program_items.induct)
  case 1
  then have "i = length its" by simp
  then show ?case using 1 last by (subst enc_section.simps) simp
next
  case (2 start args ps)
  then obtain ys zs where ys: "parse (d_actionlist E) start args = Some ys"
      "program_items (d_actionlist E) ps = Some zs" "xs = Start start # ys @ zs"
    by (auto split: Option.bind_splits)
  note here = drop_Cons_nth [OF "2.prems"(2) [unfolded ys(3)]]
  have cell: "has_cell (its ! i)" "ref_of (its ! i) = None" "label_of (its ! i) = None" using here by auto
  have nxt: "int (cell_at its i) + 1 = int (cell_at its (Suc i))" using here by (simp add: cell_at_Suc)
  have less: "cell_at its i < cell_at its (length its)" using cell_below_end here cell by blast
  have start: "sec_get E 0 (int (cell_at its i)) = Some (int start)"
    using linked_cell [OF E _ cell(1)] here cell by (simp add: final_cell_def)
  let ?j = "Suc i + length ys"
  have drop: "drop ?j its = zs" using here by (metis add.commute append_eq_conv_conj drop_drop)
  have le: "?j \<le> length its"
    using here by (metis length_append length_drop le_add1 less_eq_Suc_le ordered_cancel_comm_monoid_diff_class.le_diff_conv2 add.commute)
  have "[Suc i..<length its] = [Suc i..<?j] @ [?j..<length its]"
    using upt_add_eq_append [of "Suc i" ?j "length its - ?j"] unfolding le_add_diff_inverse [OF le] by simp
  then have "[i..<length its] = i # [Suc i..<?j] @ [?j..<length its]"
    using here upt_conv_Cons [of i "length its"] by (simp del: upt_Suc)
  moreover have "emit_item ext base its i im = Some im" using here by (simp add: emit_item_def split: prod.split)
  ultimately obtain im1 where im1: "emit_items ext base its [Suc i..<?j] im = Some im1"
      "emit_items ext base its [?j..<length its] im1 = Some im'"
    using "2.prems"(4) by (auto simp: emit_items_append split: Option.bind_splits)
  have off: "4 * length (fst im) = offset_at its (Suc i)" using "2.prems"(5) here by (simp add: offset_at_Suc)
  have E': "power_aligned its" using E by (simp add: linked_def)
  have "enc_list E ext base 0 start (int (cell_at its (Suc i))) (es_of code im) =
      Some (int (cell_at its ?j), EncEnd (es_of code im1))"
    using enc_list_items [OF ys(1) _ _ off E fits, of zs ext base im1] here im1(1) by simp
  moreover have "4 * length (fst im1) = offset_at its ?j"
    using emit_items_length [OF im1(1) off _ le E'] by simp
  then have "enc_section E ext base 0 (int (cell_at its ?j)) (es_of code im1) = Some (DASM_S_OK, es_of code im')"
    using "2.hyps" [OF ys(1,2) drop le im1(2)] by simp
  ultimately show ?case
    using less start nxt last by (subst enc_section.simps) simp
qed

lemma enc_sections_empty:
  assumes "\<forall>s \<in> set ss. s < length (d_sections E) \<and> sec_pos (d_sections E ! s) = sec_bias s"
  shows "enc_sections E ext base ss es = Some (DASM_S_OK, es)"
  using assms by (induction ss) (auto simp: enc_section.simps)

lemma emit_items_complete:
  "emit_items ext base its is im = Some im' \<Longrightarrow> i \<in> set is \<Longrightarrow> ref_of (its ! i) = Some (l, d) \<Longrightarrow>
   target its l d i \<noteq> None"
proof (induction "is" arbitrary: im)
  case (Cons k ks)
  then obtain im1 where im1: "emit_item ext base its k im = Some im1" "emit_items ext base its ks im1 = Some im'"
    by (auto split: Option.bind_splits)
  show ?case
  proof (cases "i = k")
    case True
    then show ?thesis
      using im1(1) Cons.prems(3)
      by (cases "its ! k" rule: ref_of.cases) (auto simp: emit_item_def Let_def split: Option.bind_splits prod.splits)
  qed (use Cons im1 in auto)
qed simp

lemma assemble_complete: "assemble ext base its gl = Some im \<Longrightarrow> complete its"
  unfolding assemble_def complete_def using emit_items_complete by fastforce

lemma completeD:
  "complete its \<Longrightarrow> i < length its \<Longrightarrow> ref_of (its ! i) = Some (l, d) \<Longrightarrow> \<exists>j. target its l d i = Some j"
  unfolding complete_def by (metis not_None_eq)

lemma final_cells:
  assumes L: "linking al its D" and "complete its" and P2: "pass2 its (sec_buf (d_sections D ! 0)) (length its) c"
    and i: "i < length its" "has_cell (its ! i)"
  shows "cell_at its i < length c \<and> c ! cell_at its i = final_cell its i"
proof -
  let ?c = "sec_buf (d_sections D ! 0)"
  have P: "pass1 its ?c (table_of D) (sec_pos (d_sections D ! 0)) (sec_ofs (d_sections D ! 0))"
    using L by (simp add: linking_def)
  have len: "length c = length ?c" using P2 by (simp add: pass2_def)
  have "cell_at its i < length ?c" using cell_below_end [OF i] P by (simp add: pass1_def)
  moreover have "c ! cell_at its i = final_cell its i"
  proof (cases "ref_of (its ! i)")
    case (Some r)
    obtain l d where r: "r = (l, d)" by (cases r)
    then obtain j where j: "target its l d i = Some j"
      using completeD [OF assms(2) i(1)] Some by blast
    have "cell_ok its ?c i" using P i by (simp add: pass1_def)
    then show ?thesis
      using P2 i Some r j ref_has_cell [OF Some] by (simp add: pass2_def cell_ok_def final_cell_def)
  next
    case None
    have "cell_ok its ?c i" using P i by (simp add: pass1_def)
    then show ?thesis using P2 i None by (simp add: pass2_def cell_ok_def final_cell_def)
  qed
  ultimately show ?thesis using len by simp
qed

section \<open>The engine refines the assembler\<close>

text \<open>A state as \<open>dasm_init\<close>, \<open>dasm_setupglobal\<close> and \<open>dasm_growpc\<close> leave it.\<close>

definition dasm_wf :: "dasm_state \<Rightarrow> bool" where
  "dasm_wf D \<longleftrightarrow> d_sections D \<noteq> [] \<and> d_maxsection D = length (d_sections D) \<and>
     length (d_lglabels D) = words_of (d_lgsize D) \<and> length (d_pclabels D) = words_of (d_pcsize D) \<and>
     tables_ok D \<and> room_ok (d_sections D ! 0)"

lemma dasm_setup_linking:
  assumes "dasm_wf D"
  shows "linking al [] (dasm_setup al D)"
  using assms
  by (auto simp: dasm_wf_def linking_def dasm_setup_def pass1_def slot_ok_def table_of_def cell_at_def
      estimate_def sec_bias_def pending_def before_def split: label_table.splits)

lemma dasm_setup_good: "dasm_wf D \<Longrightarrow> good al [] (dasm_setup al D)"
  using dasm_setup_linking [of D al]
  by (auto simp: good_def dasm_wf_def dasm_setup_def tables_ok_def room_ok_def)

lemma assembles:
  assumes wf: "dasm_wf D" and its: "program_items al ps = Some its" "length its < 2 ^ 24" "power_aligned its"
    and puts: "dasm_puts junk ps (dasm_setup al D) = Some D1" "d_status D1 = DASM_S_OK"
    and asm: "assemble ext base its (d_globals D) = Some (out, gl)"
    and room: "length out \<le> length code" "4 * length code < 2 ^ 32"
  shows "\<exists>D2 D3. dasm_link D1 = Some (DASM_S_OK, of_nat (4 * length out), D2) \<and>
    dasm_encode ext base code D2 = Some (DASM_S_OK, out @ drop (length out) code, D3) \<and> d_globals D3 = gl \<and>
    linking al its D1 \<and> linked D2 its \<and> table_of D2 = table_of D1 \<and> d_pcsize D2 = d_pcsize D1"
proof -
  have comp: "complete its" by (rule assemble_complete [OF asm])
  have "good al its D1 \<and> d_globals D1 = d_globals (dasm_setup al D)"
    using dasm_puts_good [OF dasm_setup_good [OF wf] puts its(1)] its(2) by simp
  then have L: "linking al its D1" and gl: "d_globals D1 = d_globals D" by (auto simp: good_def dasm_setup_def)
  let ?n = "length its"
  obtain c where c: "dasm_link D1 = Some (DASM_S_OK, word_of_int (int (offset_at its ?n)),
      (upd D1 c (table_of D1))\<lparr>d_codesize := word_of_int (int (offset_at its ?n))\<rparr>)"
      "pass2 its (sec_buf (d_sections D1 ! 0)) ?n c"
    using link_layout [OF L its(1) comp its(3,2) puts(2)] by blast
  define D2 where "D2 = (upd D1 c (table_of D1))\<lparr>d_codesize := word_of_int (int (offset_at its ?n))\<rparr>"
  have D1: "d_sections D1 \<noteq> []" "d_actionlist D1 = al" "d_maxsection D1 = length (d_sections D1)"
    using L by (auto simp: linking_def)
  have get: "sec_get D2 0 p = sec_get (upd D1 c (table_of D1)) 0 p" for p
    by (simp add: D2_def sec_get_def Let_def)
  have E: "linked D2 its"
    using D1 its comp final_cells [OF L comp c(2)] get by (simp add: linked_def D2_def upd_sections)
  have zero: "offset_at its 0 = 0" "cell_at its 0 = 0" by (auto simp: offset_at_def cell_at_def)
  have emit: "emit_items ext base its [0..<?n] ([], d_globals D2) = Some (out, gl)"
    using asm gl by (simp add: assemble_def D2_def)
  have off: "4 * length out = offset_at its ?n"
    using emit_items_length [OF emit _ _ _ its(3)] zero by simp
  have fits: "fits its code" using off room by (simp add: fits_def)
  have secs: "sec_pos (d_sections D2 ! s) = sec_pos (d_sections D1 ! s)" for s
    using D1 by (cases s; simp add: D2_def upd_sections)
  have others: "\<forall>s \<in> set [1..<length (d_sections D2)]. s < length (d_sections D2) \<and> sec_pos (d_sections D2 ! s) = sec_bias s"
    using L secs by (auto simp: linking_def D2_def)
  have last: "sec_pos (d_sections D2 ! 0) = int (cell_at its ?n)"
    using L secs [of 0] by (simp add: linking_def pass1_def)
  have "enc_section D2 ext base 0 0 (es_of code ([], d_globals D2)) = Some (DASM_S_OK, es_of code (out, gl))"
    using enc_section_items [OF _ _ _ emit _ E fits last, of ps its] its(1) D1 zero by (simp add: D2_def)
  moreover have "[0..<d_maxsection D2] = 0 # [1..<length (d_sections D2)]" "length (d_sections D2) \<noteq> 0"
    using D1 by (auto simp: D2_def upt_conv_Cons)
  ultimately have "enc_sections D2 ext base [0..<d_maxsection D2] (es_of code ([], d_globals D2)) =
      Some (DASM_S_OK, es_of code (out, gl))"
    using enc_sections_empty [OF others] by (simp add: sec_bias_def)
  then have S: "enc_sections D2 ext base [0..<d_maxsection D2]
      \<lparr>es_code = code, es_cp = 0, es_globals = d_globals D2\<rparr> = Some (DASM_S_OK, es_of code (out, gl))"
    by (simp only: es_of_def fst_conv snd_conv list.size drop_0 append_Nil)
  have size: "d_codesize D2 = of_nat (4 * length out)" unfolding off by (simp add: D2_def)
  have code: "es_code (es_of code (out, gl)) = out @ drop (length out) code" by (simp add: es_of_def)
  have enc: "dasm_encode ext base code D2 = Some (DASM_S_OK, out @ drop (length out) code, D2\<lparr>d_globals := gl\<rparr>)"
    unfolding dasm_encode_def S size by (simp add: code)
  have link: "dasm_link D1 = Some (DASM_S_OK, of_nat (4 * length out), D2)"
    unfolding off using c(1) by (simp only: D2_def of_int_of_nat_eq)
  have "table_of D2 t = table_of D1 t" for t
    by (cases t) (simp_all add: D2_def table_of_def upd_def)
  then have "table_of D2 = table_of D1" by blast
  moreover have "d_pcsize D2 = d_pcsize D1" by (simp add: D2_def)
  ultimately show ?thesis using link enc L E
    by (intro exI [of _ D2] exI [of _ "D2\<lparr>d_globals := gl\<rparr>"]) simp
qed

section \<open>Every call returns\<close>

text \<open>An action list as the pre-processor makes it: at most \<open>DASM_MAXSECPOS\<close> cells with the one of the start,
  a width for every signed immediate, and label numbers whose byte offset is an integer.\<close>

fun item_wf :: "item \<Rightarrow> bool" where
  "item_wf (Act a ins n) \<longleftrightarrow>
     (a \<in> {DASM_IMM, DASM_IMM16} \<longrightarrow> ins AND 0x8000 \<noteq> 0 \<longrightarrow> imm_bits ins \<noteq> 0) \<and>
     (a \<in> {DASM_REL_PC, DASM_LABEL_PC} \<longrightarrow> - (2 ^ 29) \<le> n \<and> n < 2 ^ 29)"
| "item_wf _ \<longleftrightarrow> True"

definition put_wf :: "item list \<Rightarrow> bool" where
  "put_wf xs \<longleftrightarrow> Suc (length (filter has_cell xs)) \<le> DASM_MAXSECPOS \<and> list_all item_wf xs"

definition lens_ok :: "dasm_state \<Rightarrow> (label_table \<Rightarrow> int list) \<Rightarrow> bool" where
  "lens_ok D T \<longleftrightarrow> tables_ok D \<and> length (T LG_labels) = words_of (d_lgsize D) \<and>
     length (T PC_labels) = words_of (d_pcsize D)"

lemma ckpl_range:
  assumes L: "lens_ok D T" and "ckpl (upd D c T) t n"
    and n: "t = LG_labels \<Longrightarrow> -10 \<le> n \<and> n < 2048" "t = PC_labels \<Longrightarrow> - (2 ^ 29) \<le> n \<and> n < 2 ^ 29"
  shows "0 \<le> n \<and> n < int (length (T t))"
proof -
  let ?sz = "case t of LG_labels \<Rightarrow> d_lgsize D | PC_labels \<Rightarrow> d_pcsize D"
  have less: "(word_of_int (n * 4) :: u32) < ?sz"
    using assms(2) by (cases t) (simp_all add: ckpl_def)
  have n': "- (2 ^ 29) \<le> n" "n < 2 ^ 29" using n by (cases t; simp)+
  have sz: "4 dvd unat ?sz" "length (T t) = words_of ?sz" "unat ?sz \<le> 2 ^ 31"
    using L by (auto simp: lens_ok_def tables_ok_def split: label_table.split)
  show ?thesis
  proof (cases "0 \<le> n")
    case True
    have "unat (word_of_int (n * 4) :: u32) = nat (n * 4)"
      using True n' by (intro unat_word_of_int32) auto
    then have "nat (n * 4) < unat ?sz" using less by (simp only: word_less_nat_alt)
    then show ?thesis using True sz(1,2) by (auto simp: words_of_def)
  next
    case False
    have "uint (word_of_int (n * 4) :: u32) = (n * 4 + 2 ^ 32) mod 2 ^ 32"
      by (simp only: uint_word_of_int mod_add_self2) simp
    also have "\<dots> = n * 4 + 2 ^ 32" using False n' by (intro mod_pos_pos_trivial) auto
    finally have "uint ?sz > n * 4 + 2 ^ 32" using less by (simp only: word_less_def)
    moreover have "uint ?sz \<le> int (2 ^ 31)" using sz(3) by (simp only: unat_eq_nat_uint nat_le_iff)
    then have "uint ?sz \<le> 2 ^ 31" by simp
    ultimately have False using n' by simp
    then show ?thesis ..
  qed
qed

lemma put_cell_returns:
  "d_sections D \<noteq> [] \<Longrightarrow> 0 \<le> pos \<Longrightarrow> pos < int (length c) \<Longrightarrow>
   \<exists>r. put_cell 0 p v (put_at D c T pos ofs args) = Some r"
  by (simp add: put_cell_at)

lemma put_rel_returns:
  assumes "d_sections D \<noteq> []" and "0 \<le> pos" "pos < int (length c)" and "0 \<le> n" "n < int (length (T t))"
  shows "\<exists>r. put_rel 0 p t n (put_at D c T pos ofs args) = Some r"
  using assms by (simp add: put_rel_def put_cell_at link_rel_at)

lemma put_label_returns:
  assumes D: "d_sections D \<noteq> []" and I: "pass1 its c T pos ofs" and small: "length its < 2 ^ 24"
    and pos: "pos < int (length c)" and n: "0 \<le> n" "n < int (length (T t))"
  shows "\<exists>r. put_label 0 p t n (put_at D c T pos ofs args) = Some r"
proof -
  let ?ps = "map (cell_at its) (pending its (t, n))"
  have slot: "slot_ok its c (T t ! nat n) (t, n)" by (rule pass1_slot [OF I n])
  have "collapse (upd D c T) (T t ! nat n) pos = Some (upd D (fill c ?ps pos) T)"
  proof (cases "T t ! nat n < 0")
    case True
    then show ?thesis using slot by (simp add: slot_ok_def collapse_negative)
  next
    case False
    have "p < 2 ^ 24" if "p \<in> set ?ps" for p
      using that le_less_trans [OF cell_at_le small] by auto
    then show ?thesis
      using slot False distinct_pending by (intro collapse_chain [OF D]) (auto simp: slot_ok_def)
  qed
  then show ?thesis
    using D n pos pass1_pos [OF I] by (simp add: put_label_def put_cell_at)
qed

lemma put_action_returns:
  assumes D: "d_sections D \<noteq> []" and I: "pass1 its c T pos ofs" and small: "length its < 2 ^ 24"
    and pos: "takes_cell a \<Longrightarrow> pos < int (length c)" and L: "lens_ok D T"
    and wf: "item_wf (Act a ins n)"
  shows "\<exists>r. put_action 0 p ins a n (put_at D c T pos ofs args) = Some r"
proof -
  have n: "a \<in> {DASM_REL_PC, DASM_LABEL_PC} \<Longrightarrow> - (2 ^ 29) \<le> n \<and> n < 2 ^ 29"
    and imm: "a \<in> {DASM_IMM, DASM_IMM16} \<Longrightarrow> ins AND 0x8000 \<noteq> 0 \<Longrightarrow> imm_bits ins \<noteq> 0"
    using wf by auto
  have p0: "0 \<le> pos" using pass1_pos [OF I] by simp
  have cell: "\<exists>r. put_cell 0 p v (put_at D c T pos ofs' args) = Some r" if "takes_cell a" for v ofs'
    using put_cell_returns [OF D p0 pos [OF that]] by simp
  have x: "uint (ins AND 2047) < 2048"
  proof -
    have "ins AND 2047 \<le> 2047" by (rule word_and_le1)
    then show ?thesis by (simp add: word_le_def)
  qed
  have lg: "10 \<le> length (T LG_labels)" using L by (auto simp: lens_ok_def tables_ok_def words_of_def)
  have fail: "\<exists>r. fail_at E st q = Some r" for E st q by (simp add: fail_at_def)
  have checks: "imm_checks ins n \<noteq> None" if "a \<in> {DASM_IMM, DASM_IMM16}"
    using imm [OF that] by (auto simp: imm_checks_def)
  show ?thesis
  proof (cases a)
    case DASM_REL_LG
    then have room: "pos < int (length c)" using pos by (simp add: takes_cell_def)
    show ?thesis
    proof (cases "10 \<le> uint (ins AND 2047)")
      case True
      then have "\<exists>r. put_rel 0 p LG_labels (uint (ins AND 2047) - 10) (put_at D c T pos ofs args) = Some r"
        if "ckpl (upd D c T) LG_labels (uint (ins AND 2047) - 10)"
        using ckpl_range [OF L that] x by (intro put_rel_returns [OF D p0 room]) auto
      then show ?thesis using DASM_REL_LG True lg fail by (auto simp: Let_def)
    next
      case False
      then show ?thesis using DASM_REL_LG lg D p0 room by (auto simp: Let_def link_rel_at)
    qed
  next
    case DASM_REL_PC
    then have "pos < int (length c)" using pos by (simp add: takes_cell_def)
    then have "\<exists>r. put_rel 0 p PC_labels n (put_at D c T pos ofs args) = Some r"
      if "ckpl (upd D c T) PC_labels n"
      using ckpl_range [OF L that] n DASM_REL_PC by (intro put_rel_returns [OF D p0]) auto
    then show ?thesis using DASM_REL_PC fail by auto
  next
    case DASM_LABEL_LG
    then have "pos < int (length c)" using pos by (simp add: takes_cell_def)
    then have "\<exists>r. put_label 0 p LG_labels (uint (ins AND 2047) - 10) (put_at D c T pos ofs args) = Some r"
      if "ckpl (upd D c T) LG_labels (uint (ins AND 2047) - 10)"
      using ckpl_range [OF L that] x by (intro put_label_returns [OF D I small]) auto
    then show ?thesis using DASM_LABEL_LG fail by (auto simp: Let_def)
  next
    case DASM_LABEL_PC
    then have "pos < int (length c)" using pos by (simp add: takes_cell_def)
    then have "\<exists>r. put_label 0 p PC_labels n (put_at D c T pos ofs args) = Some r"
      if "ckpl (upd D c T) PC_labels n"
      using ckpl_range [OF L that] n DASM_LABEL_PC by (intro put_label_returns [OF D I small]) auto
    then show ?thesis using DASM_LABEL_PC fail by auto
  qed (use cell fail checks in \<open>auto simp: Let_def takes_cell_def\<close>)
qed

lemma put_loop_returns:
  assumes "parse al p args = Some xs" and "pass1 its c T pos ofs" and "0 < pos"
    and "pos + int (length (filter has_cell xs)) \<le> int (length c)"
    and "length its + length xs \<le> 2 ^ 24" and "lens_ok D T"
    and "list_all item_wf xs" and D: "d_sections D \<noteq> []"
  shows "\<exists>r. dasm_put_loop al 0 p (put_at D c T pos ofs args) = Some r \<and> (\<forall>q ps. r \<noteq> Next q ps)"
  using assms(1-7)
proof (induction al p args arbitrary: its c T pos ofs xs rule: parse.induct)
  case (1 al p args)
  have p: "p < length al" using "1.prems"(1) by (subst (asm) parse.simps) (auto split: if_splits)
  have word: "pass1 (its @ [Word w]) c T pos (ofs + 4)" for w
    using pass1_skip [OF "1.prems"(2), of "Word w"] "1.prems"(2) by (simp add: pass1_def)
  show ?case
  proof (cases "action_of (al ! p)")
    case None
    obtain ys where ys: "parse al (Suc p) args = Some ys" "xs = Word (al ! p) # ys"
      using "1.prems"(1) p None by (subst (asm) parse.simps) auto
    then show ?thesis
      using "1.IH"(1) [OF _ None ys(1) word] "1.prems" p None
      by (subst dasm_put_loop.simps) (simp add: put_step_def)
  next
    case (Some a)
    note act = Some
    consider "a = DASM_STOP" | "a = DASM_ESC" | "a \<notin> {DASM_STOP, DASM_ESC}" by blast
    then show ?thesis
    proof cases
      case 1
      then show ?thesis
        using p act by (subst dasm_put_loop.simps) (simp add: put_step_def takes_arg_def takes_cell_def)
    next
      case 2
      then obtain ys where ys: "parse al (p + 2) args = Some ys" "xs = Word (al ! Suc p) # ys" "Suc p < length al"
        using "1.prems"(1) p act by (subst (asm) parse.simps) (auto split: if_splits)
      then show ?thesis
        using "1.IH"(2) [OF _ act _ _ 2 ys(3,1) word] "1.prems" p act 2
        by (subst dasm_put_loop.simps) (simp add: put_step_def takes_arg_def takes_cell_def)
    next
      case 3
      define n where "n = (if takes_arg a then hd args else 0)"
      define rest where "rest = (if takes_arg a then tl args else args)"
      have sec: "a \<noteq> DASM_SECTION" using "1.prems"(1) p act by (subst (asm) parse.simps) auto
      obtain ys where ys: "parse al (Suc p) rest = Some ys" "xs = Act a (al ! p) n # ys"
          and ne: "takes_arg a \<Longrightarrow> args \<noteq> []"
        using "1.prems"(1) p act 3 sec
        by (subst (asm) parse.simps) (auto simp: n_def rest_def split: if_splits list.splits)
      have step: "put_step al 0 p (put_at D c T pos ofs args) =
          put_action 0 p (al ! p) a n (put_at D c T pos ofs rest)"
        using p act ne by (auto simp: put_step_def n_def rest_def split: list.splits)
      have small: "length its < 2 ^ 24" using "1.prems"(5) ys by simp
      obtain r where r: "put_action 0 p (al ! p) a n (put_at D c T pos ofs rest) = Some r"
        using put_action_returns [OF D "1.prems"(2) small, of a "al ! p" n p rest] "1.prems"(4,6,7) ys
        by (auto simp del: item_wf.simps split: if_splits)
      show ?thesis
      proof (cases r)
        case (Next p' q)
        have "grows D its (Act a (al ! p) n) c T pos rest p r"
          using "1.prems" small 3 sec by (intro put_action_grows [OF D _ _ _ r Next]) (auto simp: n_def)
        then obtain c' T' pos' ofs' where g: "r = Next (Suc p) (put_at D c' T' pos' ofs' rest)"
            "pass1 (its @ [Act a (al ! p) n]) c' T' pos' ofs'" "pos \<le> pos'" "length c' = length c"
            "\<forall>t. length (T' t) = length (T t)"
          unfolding grows_def by blast
        have L': "lens_ok D T'" using "1.prems"(6) g(5) by (simp add: lens_ok_def)
        have room: "pos' + int (length (filter has_cell ys)) \<le> int (length c')"
          using "1.prems"(2,4) g ys by (auto simp: pass1_def cell_at_snoc split: if_splits)
        have pre: "0 < pos'" "length (its @ [Act a (al ! p) n]) + length ys \<le> 2 ^ 24"
          "list_all item_wf ys"
          using "1.prems"(3,5,7) g(3) ys by auto
        have "\<exists>r. dasm_put_loop al 0 (Suc p) (put_at D c' T' pos' ofs' rest) = Some r \<and> (\<forall>q ps. r \<noteq> Next q ps)"
        proof (cases "takes_arg a")
          case True
          then obtain m ms where "args = m # ms" using ne by (cases args) auto
          then show ?thesis
            using "1.IH"(3) [OF _ act _ _ _ True _ _ g(2) pre(1) room pre(2) L' pre(3), of m ms] p 3 sec ys True
            by (simp add: rest_def)
        next
          case False
          then show ?thesis
            using "1.IH"(4) [OF _ act _ _ _ False _ g(2) pre(1) room pre(2) L' pre(3)] p 3 sec ys
            by (simp add: rest_def)
        qed
        then show ?thesis
          using step r g(1) by (subst dasm_put_loop.simps) simp
      next
        case (Stop q)
        then show ?thesis using step r by (subst dasm_put_loop.simps) simp
      next
        case (Fail q)
        then show ?thesis using step r by (subst dasm_put_loop.simps) simp
      qed
    qed
  qed
qed

lemma put_returns:
  assumes G: "good al its D" and xs: "parse al start args = Some xs" "put_wf xs"
    and small: "length its + length xs < 2 ^ 24"
  shows "\<exists>D'. dasm_put junk start args D = Some D'"
proof -
  let ?s = "d_sections D ! 0" and ?T = "table_of D"
  have L: "linking al its D" "tables_ok D" "room_ok ?s" using G by (auto simp: good_def)
  have D: "d_sections D \<noteq> []" "d_section D = 0" "d_actionlist D = al" using L by (auto simp: linking_def)
  obtain sec where sec: "put_room junk ?s = Some sec"
      "sec_pos ?s + int DASM_MAXSECPOS \<le> int (length (sec_buf sec))"
    using put_room_returns [OF L(3)] linking_pos [OF L(1)] small by auto
  note room = put_room_sec [OF sec(1)]
  define D1 where "D1 = D\<lparr>d_sections := (d_sections D)[0 := sec]\<rparr>"
  have D1: "d_sections D1 \<noteq> []" "d_sections D1 ! 0 = sec" "table_of D1 = ?T"
    using D by (auto simp: D1_def table_of_def split: label_table.split)
  define c1 where "c1 = sec_buf sec"
  have up1: "D1 = upd D1 c1 ?T" using upd_self [OF D1(1)] D1 by (simp add: c1_def)
  have I: "pass1 its c1 ?T (sec_pos sec) (sec_ofs sec)"
    using L room pass1_append by (auto simp: linking_def c1_def)
  then have pos: "0 \<le> sec_pos sec" by (simp add: pass1_def)
  have len: "sec_pos sec + 25 \<le> int (length c1)" using sec(2) room by (simp add: c1_def DASM_MAXSECPOS_def)
  define c2 where "c2 = c1[nat (sec_pos sec) := int start]"
  have start: "sec_set D1 0 (sec_pos sec) (int start) = Some (upd D1 c2 ?T)"
    using D1 len pos by (subst up1) (simp add: c2_def)
  have I2: "pass1 (its @ [Start start]) c2 ?T (sec_pos sec + 1) (sec_ofs sec)"
    using pass1_plain [OF I, of "Start start"] len I by (simp add: c2_def pass1_def)
  have "lens_ok D1 ?T" using L by (auto simp: lens_ok_def linking_def table_of_def D1_def tables_ok_def)
  then obtain r where r: "dasm_put_loop al 0 start (put_at D1 c2 ?T (sec_pos sec + 1) (sec_ofs sec) args) = Some r"
      "\<forall>q ps. r \<noteq> Next q ps"
    using put_loop_returns [OF xs(1) I2, of D1] D1 pos len small xs(2)
    by (auto simp: put_wf_def c2_def DASM_MAXSECPOS_def)
  then show ?thesis
    using D sec(1) start room
    by (cases r) (simp_all add: dasm_put_def D1_def [symmetric] put_at_def, simp_all add: D1_def Let_def)
qed

text \<open>A fresh state: \<open>dasm_init\<close>, \<open>dasm_setupglobal\<close> and \<open>dasm_growpc\<close> make it well formed.\<close>

lemma m_realloc_length: "length xs \<le> words_of z \<Longrightarrow> length (m_realloc junk xs z) = words_of z"
  by (simp add: m_realloc_def)

lemma fresh_wf:
  assumes init: "dasm_init fresh maxsection = Some D0" and "0 < maxsection"
    and gl: "dasm_setupglobal junk gl maxgl D0 = Some D1" and maxgl: "unat maxgl \<le> 2 ^ 27"
    and pc: "dasm_growpc junk' maxpc D1 = Some D2" and maxpc: "unat maxpc \<le> 2 ^ 27"
  shows "dasm_wf D2"
proof -
  have D0: "d_lgsize D0 = 0" "d_lglabels D0 = []" "d_pcsize D0 = 0" "d_pclabels D0 = []"
    "length (d_sections D0) = maxsection" "d_maxsection D0 = maxsection" "room_ok (d_sections D0 ! 0)"
    using init \<open>0 < maxsection\<close> by (auto simp: dasm_init_def room_ok_def split: Option.bind_splits)
  have lg: "unat ((10 + maxgl) * 4) = 40 + 4 * unat maxgl"
    using maxgl by (simp add: unat_word_ariths)
  have pcs: "unat (maxpc * 4) = 4 * unat maxpc" using maxpc by (simp add: unat_word_ariths)
  obtain z where z: "m_grow 0 ((10 + maxgl) * 4) = Some z" "(10 + maxgl) * 4 \<le> z" "4 dvd unat z"
      "z = 0 \<or> unat z \<le> 16 \<or> unat z < 2 * (40 + 4 * unat maxgl)"
    using m_grow_Some [of "(10 + maxgl) * 4" 0] lg maxgl by auto
  obtain y where y: "m_grow 0 (maxpc * 4) = Some y" "4 dvd unat y" "y = 0 \<or> unat y \<le> 16 \<or> unat y < 2 * (4 * unat maxpc)"
    using m_grow_Some [of "maxpc * 4" 0] pcs maxpc by auto
  have D1: "D1 = D0\<lparr>d_globals := Some gl, d_lglabels := m_realloc junk [] z, d_lgsize := z\<rparr>"
    using gl D0 z(1) by (simp add: dasm_setupglobal_def)
  have D2: "D2 = D1\<lparr>d_pclabels := replicate (words_of y) 0, d_pcsize := y\<rparr>"
    using pc D0 D1 y(1) by (simp add: dasm_growpc_def Let_def words_of_def m_realloc_length)
  have "40 \<le> unat z" using z(2) lg by (simp add: word_le_nat_alt)
  then show ?thesis
    using D0 z y maxgl maxpc \<open>0 < maxsection\<close>
    by (auto simp: dasm_wf_def D2 D1 tables_ok_def m_realloc_length)
qed

section \<open>Results\<close>

text \<open>C9: the engine refines the reference assembler. For every program of \<open>dasm_put\<close> calls that reported no error and
  that the reference assembler accepts, \<open>dasm_link\<close> returns the size of the reference code and \<open>dasm_encode\<close>
  writes exactly that code into the buffer, sets the globals as the reference does and finds no phase error: the chains
  of forward references, the estimated offsets and the shrunk alignments resolve to the layout.\<close>

theorem dasm_assembles:
  assumes "dasm_wf D" and "program_items al ps = Some its" and "length its < 2 ^ 24" and "power_aligned its"
    and "dasm_puts junk ps (dasm_setup al D) = Some D1" and "d_status D1 = DASM_S_OK"
    and "assemble ext base its (d_globals D) = Some (out, gl)"
    and "length out \<le> length code" and "4 * length code < 2 ^ 32"
  shows "\<exists>D2 D3. dasm_link D1 = Some (DASM_S_OK, of_nat (4 * length out), D2) \<and>
    dasm_encode ext base code D2 = Some (DASM_S_OK, out @ drop (length out) code, D3) \<and> d_globals D3 = gl"
  using assembles [OF assms] by blast

text \<open>C11: a call of \<open>dasm_put\<close> returns. After any sequence of calls without an error, a call on a well-formed action
  list (no more than \<open>DASM_MAXSECPOS\<close> cells, its arguments present) terminates without leaving the buffer: the chain that a
  label collapses is finite and its cells exist.\<close>

theorem dasm_put_returns:
  assumes "dasm_wf D" and "program_items al ps = Some its"
    and "dasm_puts junk ps (dasm_setup al D) = Some D1" and "d_status D1 = DASM_S_OK"
    and "parse al start args = Some xs" and "put_wf xs" and "length its + length xs < 2 ^ 24"
  shows "\<exists>D2. dasm_put junk start args D1 = Some D2"
proof -
  have "good al its D1"
    using dasm_puts_good [OF dasm_setup_good [OF assms(1)] assms(3,4,2)] assms(7) by simp
  then show ?thesis by (rule put_returns [OF _ assms(5-7)])
qed

text \<open>A state for four numbered labels and twenty globals, and a program with a forward branch over an
  aligned label.\<close>

definition demo_dasm :: dasm_state where
  "demo_dasm = \<lparr>d_psize = 128, d_actionlist = [], d_lglabels = replicate 32 0, d_lgsize = 128,
     d_pclabels = replicate 4 0, d_pcsize = 16, d_globals = Some (replicate 20 0), d_section = 0,
     d_codesize = 0, d_maxsection = 1, d_status = 0,
     d_sections = [\<lparr>sec_buf = replicate 64 0, sec_bsize = 256, sec_pos = 0, sec_epos = 39, sec_ofs = 0\<rparr>]\<rparr>"

lemma demo_wf: "dasm_wf demo_dasm" by (simp add: dasm_wf_def demo_dasm_def words_of_def tables_ok_def room_ok_def DASM_MAXSECPOS_def)

definition demo_actions :: "u32 list" where
  "demo_actions = [0xea000000, 0x70000, 0xe1a00001, 0x4000f, 0x80000, 0x60014, 0xe3a00000, 0xA0000, 0]"

lemma demo_items:
  "program_items demo_actions [(0, [2, 2, 0x3f0])] =
     Some [Start 0, Word 0xea000000, Act DASM_REL_PC 0x70000 2, Word 0xe1a00001, Act DASM_ALIGN 0x4000f 0,
       Act DASM_LABEL_PC 0x80000 2, Act DASM_LABEL_LG 0x60014 0, Word 0xe3a00000, Act DASM_IMM12 0xA0000 0x3f0]"
  by code_simp


lemma collapse_step:
  "0 < n \<Longrightarrow> pos_get D n = Some n' \<Longrightarrow> pos_set D n v = Some D' \<Longrightarrow> collapse D n v = collapse D' n' v"
  by (simp add: collapse.simps)

lemma demo_actions_of:
  "action_of 0xea000000 = None" "action_of 0x70000 = Some DASM_REL_PC" "action_of 0xe1a00001 = None"
  "action_of 0x80000 = Some DASM_LABEL_PC" "action_of 0x4000f = Some DASM_ALIGN"
  "action_of 0x60014 = Some DASM_LABEL_LG" "action_of 0xe3a00000 = None" "action_of 0xA0000 = Some DASM_IMM12"
  "action_of 0 = Some DASM_STOP"
  by code_simp+

lemma demo_imm: "dasm_imm12 0x3f0 = 0xe3f" by code_simp

lemmas put_eval = dasm_put_def dasm_setup_def put_room_def sec_set_def sec_get_def sec_bias_def
  dasm_put_loop.simps put_step_def takes_arg_def takes_cell_def ckpl_def put_rel_def put_cell_def
  link_rel_def put_label_def lab_get_def lab_set_def table_of_def collapse_negative
  pos_get_def pos_set_def pos2sec_def Let_def

lemma demo_put:
  "\<exists>D1. dasm_puts (\<lambda>_. 55) [(0, [2, 2, 0x3f0])] (dasm_setup demo_actions demo_dasm) = Some D1 \<and>
     d_status D1 = DASM_S_OK"
  by (simp add: put_eval collapse_step demo_dasm_def demo_actions_def demo_actions_of demo_imm)

lemma demo_assemble:
  "assemble (\<lambda>_ _ _. 0) 0x8000
     [Start 0, Word 0xea000000, Act DASM_REL_PC 0x70000 2, Word 0xe1a00001, Act DASM_ALIGN 0x4000f 0,
       Act DASM_LABEL_PC 0x80000 2, Act DASM_LABEL_LG 0x60014 0, Word 0xe3a00000, Act DASM_IMM12 0xA0000 0x3f0]
     (Some (replicate 20 0)) =
   Some ([0xea000002, 0xe1a00001, 0xe1a00000, 0xe1a00000, 0xe3a00e3f], Some (0x8010 # replicate 19 0))"
  by code_simp

lemma dasm_assembles_witness:
  "\<exists>D1 D2 D3. dasm_puts (\<lambda>_. 55) [(0, [2, 2, 0x3f0])] (dasm_setup demo_actions demo_dasm) = Some D1 \<and>
     dasm_link D1 = Some (DASM_S_OK, 20, D2) \<and>
     dasm_encode (\<lambda>_ _ _. 0) 0x8000 [1, 1, 1, 1, 1, 1] D2 =
       Some (DASM_S_OK, [0xea000002, 0xe1a00001, 0xe1a00000, 0xe1a00000, 0xe3a00e3f, 1], D3) \<and>
     d_globals D3 = Some (0x8010 # replicate 19 0)"
proof -
  have "align_mask 0x4000f = 15" by (simp add: align_mask_def)
  then have align: "\<exists>k. Suc (align_mask 0x4000f) = 2 ^ k" by (intro exI [of _ 4]) simp
  obtain D1 where D1: "dasm_puts (\<lambda>_. 55) [(0, [2, 2, 0x3f0])] (dasm_setup demo_actions demo_dasm) = Some D1"
      "d_status D1 = DASM_S_OK"
    using demo_put by blast
  have gl: "d_globals demo_dasm = Some (replicate 20 0)" by (simp add: demo_dasm_def)
  show ?thesis
    using dasm_assembles [OF demo_wf demo_items _ _ D1 demo_assemble [folded gl], of "[1, 1, 1, 1, 1, 1]"]
      D1(1) align by (auto simp: power_aligned_def)
qed

lemma dasm_put_returns_witness:
  "\<exists>D2. dasm_put (\<lambda>_. 55) 0 [2, 2, 0x3f0] (dasm_setup demo_actions demo_dasm) = Some D2"
proof -
  have "parse demo_actions 0 [2, 2, 0x3f0] = Some [Word 0xea000000, Act DASM_REL_PC 0x70000 2, Word 0xe1a00001,
      Act DASM_ALIGN 0x4000f 0, Act DASM_LABEL_PC 0x80000 2, Act DASM_LABEL_LG 0x60014 0, Word 0xe3a00000,
      Act DASM_IMM12 0xA0000 0x3f0]"
    by code_simp
  moreover have "program_items demo_actions [] = Some []" by simp
  moreover have "dasm_puts (\<lambda>_. 55) [] (dasm_setup demo_actions demo_dasm) = Some (dasm_setup demo_actions demo_dasm)"
    by simp
  moreover have "d_status (dasm_setup demo_actions demo_dasm) = DASM_S_OK" by (simp add: dasm_setup_def)
  ultimately show ?thesis
    by (intro dasm_put_returns [OF demo_wf, of demo_actions "[]" "[]"])
      (auto simp: put_wf_def takes_cell_def DASM_MAXSECPOS_def)
qed

section \<open>Two errors that are not reported\<close>

text \<open>A branch to a global label that is never defined. \<open>dasm_link\<close> marks the references to such labels from table
  index 20 on, but the globals begin at index 10: the first ten are emitted as a branch to the start
  of the section with status 0, the others are reported.\<close>

definition dasm_run :: "u32 list \<Rightarrow> (u32 \<times> u32 list) option" where
  "dasm_run al = do {
     D \<leftarrow> dasm_put (\<lambda>_. 0) 0 [] (dasm_setup al demo_dasm);
     (st, sz, D) \<leftarrow> dasm_link D;
     (st', code, D') \<leftarrow> dasm_encode (\<lambda>_ _ _. 0) 0x8000 [0] D;
     Some (if st = DASM_S_OK then st' else st, code)
   }"

lemmas run_eval = dasm_run_def put_eval dasm_link_def undefined_pc_def link_sections.simps link_section.simps
  link_list.simps link_action_def dasm_encode_def enc_sections.simps enc_section.simps enc_list.simps enc_step_def
  emit_def enc_label_def enc_rel_def rel_field_def enc_patch_def patch_def words_of_def fail_at_def

lemma run_words:
  "action_of 0x50014 = Some DASM_REL_LG" "action_of 0x5001d = Some DASM_REL_LG"
  "action_of 0x5001e = Some DASM_REL_LG" "action_of 0x50027 = Some DASM_REL_LG"
  "action_of 0xea000000 = None" "action_of 0 = Some DASM_STOP"
  by code_simp+

lemma run_ranges:
  "[0..<4] = [0, Suc 0, 2, 3]"
  "[20..<32] = [20, 21, 22, 23, 24, 25, 26, 27, 28, 29, 30, 31 :: nat]"
  by (simp_all add: upt_rec)

theorem dasm_undefined_global_emitted:
  "dasm_run [0xea000000, 0x50014, 0] = Some (DASM_S_OK, [0xeafffffe])"
  "dasm_run [0xea000000, 0x5001d, 0] = Some (DASM_S_OK, [0xeafffffe])"
  "dasm_run [0xea000000, 0x5001e, 0] = Some (DASM_S_UNDEF_LG OR 1, [0xea000000])"
  "dasm_run [0xea000000, 0x50027, 0] = Some (DASM_S_UNDEF_LG OR 1, [0xea000000])"
  by (simp_all add: run_eval collapse_step demo_dasm_def run_words run_ranges DASM_S_UNDEF_LG_def DASM_S_OK_def)

text \<open>After a failed check the position of the section is not advanced although the label chains already name
  the cells behind it. The next call overwrites these cells, a chain then leads into itself, and placing the
  label never returns.\<close>

lemma collapse_self_loop:
  assumes "pos_get D n = Some n" and "0 < n"
  shows "collapse D n n = None"
proof -
  have never: "\<not> (0 < n \<and> v = n \<and> pos_get D n = Some n)" if "collapse D n v = Some y" for D n v y
  proof (rule collapse.raw_induct [OF _ that, where P = "\<lambda>D n v y. \<not> (0 < n \<and> v = n \<and> pos_get D n = Some n)"])
    fix col D n v y
    assume IH: "\<And>D n v y. col D n v = Some y \<Longrightarrow> \<not> (0 < n \<and> v = n \<and> pos_get D n = Some n)"
      and body: "(if 0 < n then pos_get D n \<bind> (\<lambda>n'. pos_set D n v \<bind> (\<lambda>D'. col D' n' v)) else Some D) = Some y"
    show "\<not> (0 < n \<and> v = n \<and> pos_get D n = Some n)"
    proof
      assume n: "0 < n \<and> v = n \<and> pos_get D n = Some n"
      then obtain D' where D': "pos_set D n n = Some D'" "col D' n n = Some y"
        using body by (auto split: Option.bind_splits)
      have "pos_get D' n = Some n"
        using D'(1) n by (auto simp: pos_set_def pos_get_def sec_set_def sec_get_def Let_def split: if_splits)
      then show False using IH [OF D'(2)] n by simp
    qed
  qed
  show ?thesis using never [of D n n] assms by (cases "collapse D n n") auto
qed

definition hang_actions :: "u32 list" where
  "hang_actions = [0x70000, 0x90100, 0x90100, 0, 0x70000, 0x80000, 0]"

lemma hang_words:
  "action_of 0x70000 = Some DASM_REL_PC" "action_of 0x90100 = Some DASM_IMM"
  "action_of 0x80000 = Some DASM_LABEL_PC" "action_of 0 = Some DASM_STOP"
  "imm_checks 0x90100 2 = Some True" "imm_checks 0x90100 256 = Some False"
  by code_simp+

theorem dasm_put_after_error_hangs:
  "map_option d_status (dasm_puts (\<lambda>_. 0) [(0, [0, 2, 256])] (dasm_setup hang_actions demo_dasm)) =
     Some (DASM_S_RANGE_I OR 2)"
  "dasm_puts (\<lambda>_. 0) [(0, [0, 2, 256]), (4, [0, 0])] (dasm_setup hang_actions demo_dasm) = None"
  by (simp add: put_eval demo_dasm_def hang_actions_def hang_words fail_at_def)
    (simp add: put_eval demo_dasm_def hang_actions_def hang_words fail_at_def
      collapse_step [where n = 1] collapse_self_loop)

end
