(* ===== verification/Zip_Checksum.thy ===== *)
theory Zip_Checksum
  imports Prelude
begin

text \<open>
  The checksums of the zip library (\<open>miniz/miniz.c\<close>): \<open>mz_crc32\<close>, with which the extraction of a
  file checks what it has unpacked, and \<open>mz_adler32\<close> of the zlib streams. \<open>mz_ulong\<close> has 32 bits.
  The null pointer is \<^term>\<open>None\<close>; otherwise the argument is the list of the \<open>buf_len\<close> bytes, so
  that \<open>buf_len\<close> is its length. The theorems compare both with their definitions: the bit by bit
  division by the polynomial \<open>0xedb88320\<close>, and the sums modulo 65521.
\<close>

section \<open>mz_crc32\<close>

definition s_crc32 :: "u32 list" where
  "s_crc32 = [0, 0x1db71064, 0x3b6e20c8, 0x26d930ac, 0x76dc4190, 0x6b6b51f4, 0x4db26158, 0x5005713c,
    0xedb88320, 0xf00f9344, 0xd6d6a3e8, 0xcb61b38c, 0x9b64c2b0, 0x86d3d2d4, 0xa00ae278, 0xbdbdf21c]"

definition crc32_byte :: "u8 \<Rightarrow> u32 \<Rightarrow> u32" where
  "crc32_byte b c =
     (let c1 = drop_bit 4 c XOR s_crc32 ! unat ((c AND 0xF) XOR ucast (b AND 0xF))
      in drop_bit 4 c1 XOR s_crc32 ! unat ((c1 AND 0xF) XOR ucast (drop_bit 4 b)))"

definition mz_crc32 :: "u32 \<Rightarrow> bytes option \<Rightarrow> u32" where
  "mz_crc32 crc ptr = (case ptr of None \<Rightarrow> 0 | Some bs \<Rightarrow> NOT (fold crc32_byte bs (NOT crc)))"

text \<open>The definition of the checksum: the remainder register is shifted one bit at a time.\<close>

definition crc_bit :: "u32 \<Rightarrow> u32" where
  "crc_bit c = (if bit c 0 then drop_bit 1 c XOR 0xedb88320 else drop_bit 1 c)"

definition crc_byte :: "u8 \<Rightarrow> u32 \<Rightarrow> u32" where
  "crc_byte b c = (crc_bit ^^ 8) (c XOR ucast b)"

lemma crc_bit_xor: "crc_bit (x XOR y) = crc_bit x XOR crc_bit y"
  by (rule bit_word_eqI) (auto simp: crc_bit_def bit_simps)

lemma crc_bits_xor: "(crc_bit ^^ n) (x XOR y) = (crc_bit ^^ n) x XOR (crc_bit ^^ n) y"
  by (induction n) (simp_all add: crc_bit_xor)

text \<open>Bits above the lowest four only move down in four steps.\<close>

lemma crc_bit_even: "\<not> bit c 0 \<Longrightarrow> crc_bit c = drop_bit 1 c"
  by (simp add: crc_bit_def)

lemma nibble_mask: "(0xF :: 'a::len word) = mask 4"
  by (simp add: mask_eq_exp_minus_1)

lemma funpow_four: "(f ^^ 4) x = f (f (f (f x)))"
  by (simp add: eval_nat_numeral)

lemma crc_high: "(crc_bit ^^ 4) (c AND NOT 0xF) = drop_bit 4 c"
proof -
  let ?h = "c AND NOT (mask 4)"
  have "crc_bit ?h = drop_bit 1 ?h" by (intro crc_bit_even) (simp add: bit_simps)
  moreover have "crc_bit (drop_bit 1 ?h) = drop_bit 2 ?h"
    by (subst crc_bit_even) (simp_all add: bit_simps numeral_2_eq_2 numeral_3_eq_3 eval_nat_numeral del: drop_bit_and)
  moreover have "crc_bit (drop_bit 2 ?h) = drop_bit 3 ?h"
    by (subst crc_bit_even) (simp_all add: bit_simps numeral_2_eq_2 numeral_3_eq_3 eval_nat_numeral del: drop_bit_and)
  moreover have "crc_bit (drop_bit 3 ?h) = drop_bit 4 ?h"
    by (subst crc_bit_even) (simp_all add: bit_simps numeral_2_eq_2 numeral_3_eq_3 eval_nat_numeral del: drop_bit_and)
  moreover have "drop_bit 4 ?h = drop_bit 4 c"
    by (rule bit_word_eqI) (auto simp: bit_simps dest: bit_imp_le_length)
  ultimately show ?thesis unfolding nibble_mask funpow_four by simp
qed

lemma crc_table: "list_all (\<lambda>n. (crc_bit ^^ 4) (of_nat n) = s_crc32 ! n) [0..<16]"
  by code_simp

lemma nibble_bound: "unat (c AND 0xF :: u32) < 16"
proof -
  have "c AND 0xF = take_bit 4 c" by (simp add: take_bit_eq_mask mask_eq_exp_minus_1)
  moreover have "take_bit 4 (unat c) < 2 ^ 4" by (rule take_bit_nat_less_exp)
  ultimately show ?thesis by (simp add: unsigned_take_bit_eq)
qed

lemma crc_nibble: "(crc_bit ^^ 4) c = drop_bit 4 c XOR s_crc32 ! unat (c AND 0xF)"
proof -
  have "c = (c AND NOT 0xF) XOR (c AND 0xF)" by (rule bit_word_eqI) (auto simp: bit_simps)
  then have "(crc_bit ^^ 4) c = drop_bit 4 c XOR (crc_bit ^^ 4) (c AND 0xF)"
    by (metis crc_bits_xor crc_high)
  also have "(crc_bit ^^ 4) (c AND 0xF) = (crc_bit ^^ 4) (of_nat (unat (c AND 0xF)))" by simp
  also have "\<dots> = s_crc32 ! unat (c AND 0xF)"
    using crc_table nibble_bound [of c] by (simp only: list_all_iff set_upt) (metis atLeastLessThan_iff zero_le)
  finally show ?thesis .
qed

lemma crc32_byte_eq: "crc32_byte b c = crc_byte b c"
proof -
  define c1 where "c1 = drop_bit 4 c XOR s_crc32 ! unat ((c AND 0xF) XOR ucast (b AND 0xF))"
  let ?x = "c XOR ucast b :: u32"
  have low: "(?x AND 0xF) = (c AND 0xF) XOR ucast (b AND 0xF)"
    unfolding nibble_mask by (rule bit_word_eqI) (auto simp: bit_simps dest: bit_imp_le_length)
  have "(crc_bit ^^ 4) ?x = drop_bit 4 ?x XOR s_crc32 ! unat (?x AND 0xF)" by (rule crc_nibble)
  also have "\<dots> = c1 XOR ucast (drop_bit 4 b)"
    unfolding low c1_def by (rule bit_word_eqI) (auto simp: bit_simps dest: bit_imp_le_length)
  finally have one: "(crc_bit ^^ 4) ?x = c1 XOR ucast (drop_bit 4 b)" .
  let ?y = "c1 XOR ucast (drop_bit 4 b) :: u32"
  have hi: "bit (ucast (drop_bit 4 b) :: u32) n \<Longrightarrow> n < 4" for n
    by (auto simp: bit_simps dest: bit_imp_le_length)
  have low2: "(?y AND 0xF) = (c1 AND 0xF) XOR ucast (drop_bit 4 b)"
    unfolding nibble_mask by (rule bit_word_eqI) (use hi in \<open>auto simp: bit_simps\<close>)
  have "(crc_bit ^^ 8) ?x = (crc_bit ^^ 4) ((crc_bit ^^ 4) ?x)"
    by (simp flip: funpow_add comp_apply [of "crc_bit ^^ 4" "crc_bit ^^ 4"])
  also have "\<dots> = drop_bit 4 ?y XOR s_crc32 ! unat (?y AND 0xF)"
    unfolding one by (rule crc_nibble)
  also have "drop_bit 4 ?y = drop_bit 4 c1"
    by (rule bit_word_eqI) (auto simp: bit_simps dest: bit_imp_le_length)
  finally have "(crc_bit ^^ 8) ?x = drop_bit 4 c1 XOR s_crc32 ! unat ((c1 AND 0xF) XOR ucast (drop_bit 4 b))"
    by (simp only: low2)
  then show ?thesis
    by (simp only: crc32_byte_def crc_byte_def Let_def c1_def [symmetric])
qed

lemma xor_cancel:
  fixes k :: "'a::len word"
  shows "a XOR k = b XOR k \<longleftrightarrow> a = b" and "k XOR a = k XOR b \<longleftrightarrow> a = b"
  by (auto simp: bit_eq_iff bit_xor_iff)

lemma byte_to_word_inj: "(ucast (a :: u8) :: u32) = ucast b \<Longrightarrow> a = b"
proof (rule bit_word_eqI)
  fix n assume "(ucast a :: u32) = ucast b" and "n < LENGTH(8)"
  then have "bit (ucast a :: u32) n = bit (ucast b :: u32) n" and "n < 8" by simp_all
  then show "bit a n = bit b n" by (simp add: bit_simps)
qed

text \<open>One step can be undone, so two registers that differ stay different.\<close>

lemma crc_bit_inj: "crc_bit x = crc_bit y \<Longrightarrow> x = y"
proof -
  assume eq: "crc_bit x = crc_bit y"
  have top: "bit (crc_bit z) 31 = bit z 0" for z
    by (auto simp: crc_bit_def bit_simps dest: bit_imp_le_length)
  have "bit x 0 = bit y 0" using top [of x] top [of y] eq by simp
  moreover then have "drop_bit 1 x = drop_bit 1 y"
    using eq by (auto simp: crc_bit_def xor_cancel split: if_splits)
  ultimately have "bit x n = bit y n" for n
    by (cases n) (simp, metis bit_drop_bit_eq comp_apply plus_1_eq_Suc)
  then show "x = y" by (intro bit_word_eqI)
qed

lemma crc_bits_inj: "(crc_bit ^^ n) x = (crc_bit ^^ n) y \<Longrightarrow> x = y"
  by (induction n) (auto dest: crc_bit_inj)

lemma crc_byte_inj: "crc_byte b c = crc_byte b c' \<Longrightarrow> c = c'"
  unfolding crc_byte_def by (drule crc_bits_inj) (simp add: xor_cancel)

lemma crc_byte_differs: "crc_byte a c = crc_byte b c \<Longrightarrow> a = b"
  unfolding crc_byte_def by (drule crc_bits_inj) (simp add: xor_cancel byte_to_word_inj)

lemma crc_fold_inj: "fold crc_byte bs c = fold crc_byte bs c' \<Longrightarrow> c = c'"
  by (induction bs arbitrary: c c') (auto dest: crc_byte_inj)

lemma mz_crc32_fold: "mz_crc32 crc (Some bs) = NOT (fold crc_byte bs (NOT crc))"
proof -
  have "crc32_byte = crc_byte" by (intro ext crc32_byte_eq)
  then show ?thesis by (simp add: mz_crc32_def)
qed

text \<open>C23: the table of 16 entries computes the checksum of the definition, a message may be
  checksummed piece by piece, and a message in which one byte has been changed has another
  checksum.\<close>

theorem mz_crc32_is_crc:
  "mz_crc32 0 (Some bs) = NOT (fold crc_byte bs (NOT 0))
   \<and> mz_crc32 (mz_crc32 0 (Some bs)) (Some cs) = mz_crc32 0 (Some (bs @ cs))
   \<and> (b \<noteq> b' \<longrightarrow> mz_crc32 0 (Some (bs @ b # cs)) \<noteq> mz_crc32 0 (Some (bs @ b' # cs)))"
  by (auto simp: mz_crc32_fold dest: crc_fold_inj crc_byte_differs)

theorem mz_crc32_is_crc_witness:
  "mz_crc32 0 (Some [0x31, 0x32, 0x33]) = 0x884863d2
   \<and> mz_crc32 0 (Some [0x31, 0x32, 0x33]) \<noteq> mz_crc32 0 (Some [0x31, 0x30, 0x33])"
proof
  show "mz_crc32 0 (Some [0x31, 0x32, 0x33]) = 0x884863d2" by code_simp
  show "mz_crc32 0 (Some [0x31, 0x32, 0x33]) \<noteq> mz_crc32 0 (Some [0x31, 0x30, 0x33])"
    using mz_crc32_is_crc [of "[0x31]" "[0x33]" "0x32" "0x30"] by simp
qed

section \<open>mz_adler32\<close>

text \<open>One byte: \<open>s1 += *ptr, s2 += s1\<close>. The loop over eight bytes at a time and the loop over the
  rest of a block; the outer loop reduces after each block, the first of which takes what is left
  over by blocks of 5552 bytes (and may be empty).\<close>

definition adler_add :: "u8 \<Rightarrow> u32 \<times> u32 \<Rightarrow> u32 \<times> u32" where
  "adler_add b s = (let s1 = fst s + ucast b; s2 = snd s + s1 in (s1, s2))"

function adler_block :: "bytes \<Rightarrow> nat \<Rightarrow> nat \<Rightarrow> u32 \<times> u32 \<Rightarrow> (bytes \<times> u32 \<times> u32) option" where
  "adler_block ptr i block_len s =
     (if i + 7 < block_len
      then if length ptr < 8 then None
           else adler_block (drop 8 ptr) (i + 8) block_len (fold adler_add (take 8 ptr) s)
      else if i < block_len
      then case ptr of [] \<Rightarrow> None | b # rest \<Rightarrow> adler_block rest (i + 1) block_len (adler_add b s)
      else Some (ptr, s))"
  by pat_completeness auto
termination by (relation "measure (\<lambda>(ptr, i, block_len, s). block_len - i)") auto

declare adler_block.simps [simp del]

function adler_blocks :: "bytes \<Rightarrow> nat \<Rightarrow> nat \<Rightarrow> u32 \<times> u32 \<Rightarrow> (u32 \<times> u32) option" where
  "adler_blocks ptr buf_len block_len s =
     (if buf_len = 0 then Some s
      else case adler_block ptr 0 block_len s of
        None \<Rightarrow> None
      | Some (ptr', s') \<Rightarrow>
          adler_blocks ptr' (buf_len - block_len) 5552 (fst s' mod 65521, snd s' mod 65521))"
  by pat_completeness auto
termination
  by (relation "measure (\<lambda>(ptr, buf_len, block_len, s). 2 * buf_len + (if block_len = 0 then 1 else 0))")
    (auto split: if_splits)

declare adler_blocks.simps [simp del]

definition mz_adler32 :: "u32 \<Rightarrow> bytes option \<Rightarrow> u32 option" where
  "mz_adler32 adler ptr =
     (case ptr of
        None \<Rightarrow> Some 1
      | Some bs \<Rightarrow>
          (case adler_blocks bs (length bs) (length bs mod 5552) (adler AND 0xffff, drop_bit 16 adler) of
             None \<Rightarrow> None
           | Some s \<Rightarrow> Some (push_bit 16 (snd s) + fst s)))"

text \<open>The definition of the checksum: both sums are taken modulo 65521 at every byte.\<close>

definition adler_step :: "u8 \<Rightarrow> nat \<times> nat \<Rightarrow> nat \<times> nat" where
  "adler_step b s = (let a = (fst s + unat b) mod 65521 in (a, (snd s + a) mod 65521))"

text \<open>The sums without reduction, which the registers hold while they stay below \<open>2 ^ 32\<close>.\<close>

definition plain_step :: "u8 \<Rightarrow> nat \<times> nat \<Rightarrow> nat \<times> nat" where
  "plain_step b s = (fst s + unat b, snd s + (fst s + unat b))"

definition sums :: "u32 \<times> u32 \<Rightarrow> nat \<times> nat" where
  "sums s = (unat (fst s), unat (snd s))"

definition reduced :: "nat \<times> nat \<Rightarrow> nat \<times> nat" where
  "reduced s = (fst s mod 65521, snd s mod 65521)"

lemma adler_block_fold:
  "i \<le> block_len \<Longrightarrow> block_len - i \<le> length ptr \<Longrightarrow>
   adler_block ptr i block_len s
     = Some (drop (block_len - i) ptr, fold adler_add (take (block_len - i) ptr) s)"
proof (induction ptr i block_len s rule: adler_block.induct)
  case (1 ptr i block_len s)
  show ?case
  proof (cases "i + 7 < block_len")
    case True
    then have n: "block_len - i = 8 + (block_len - (i + 8))" by simp
    from True 1 show ?thesis
      unfolding n take_add by (subst adler_block.simps) (simp add: add.commute)
  next
    case False
    show ?thesis
    proof (cases "i < block_len")
      case True
      then obtain b rest where "ptr = b # rest" using 1 by (cases ptr) auto
      moreover have "block_len - i = Suc (block_len - (i + 1))" using True by simp
      ultimately show ?thesis
        using 1 False True by (subst adler_block.simps) simp
    qed (use 1 False in \<open>subst adler_block.simps, simp\<close>)
  qed
qed

lemma byte_bound: "unat (b :: u8) < 256"
  by (rule order_less_le_trans [OF unsigned_less]) simp

text \<open>The bound that the choice of 5552 rests on.\<close>

lemma plain_bound:
  "fst (fold plain_step bs s) \<le> fst s + 255 * length bs
   \<and> 2 * snd (fold plain_step bs s)
       \<le> 2 * snd s + 2 * length bs * fst s + 255 * length bs * (length bs + 1)"
proof (induction bs arbitrary: s)
  case (Cons b bs)
  have b: "unat b \<le> 255" using byte_bound [of b] by simp
  let ?s = "plain_step b s"
  have IH: "fst (fold plain_step bs ?s) \<le> fst ?s + 255 * length bs"
    "2 * snd (fold plain_step bs ?s)
       \<le> 2 * snd ?s + 2 * length bs * fst ?s + 255 * length bs * (length bs + 1)"
    using Cons by blast+
  have s': "fst ?s = fst s + unat b" "snd ?s = snd s + (fst s + unat b)"
    by (simp_all add: plain_step_def)
  have "2 * snd (fold plain_step bs ?s)
      \<le> 2 * snd ?s + 2 * length bs * (fst s + 255) + 255 * length bs * (length bs + 1)"
    by (rule order_trans [OF IH(2)]) (use b s' in simp)
  then show ?case
    using IH(1) b unfolding s' by (auto simp: algebra_simps)
qed simp

lemma adler_add_sums:
  assumes "fst (plain_step b (sums s)) < 2 ^ 32" and "snd (plain_step b (sums s)) < 2 ^ 32"
  shows "sums (adler_add b s) = plain_step b (sums s)"
proof -
  have u: "unat (ucast b :: u32) = unat b"
    using byte_bound [of b] by (simp add: unsigned_ucast_eq take_bit_nat_eq_self)
  then have "unat (fst s + ucast b) = unat (fst s) + unat b"
    using assms(1) by (subst unat_add_no_wrap) (auto simp: plain_step_def sums_def)
  then show ?thesis
    using assms by (simp add: adler_add_def plain_step_def sums_def Let_def unat_add_no_wrap)
qed

lemma plain_grows: "fst s \<le> fst (fold plain_step bs s) \<and> snd s \<le> snd (fold plain_step bs s)"
proof (induction bs arbitrary: s)
  case (Cons b bs)
  from Cons [of "plain_step b s"] show ?case by (auto simp: plain_step_def)
qed simp

lemma fold_adler_add:
  assumes "fst (fold plain_step bs (sums s)) < 2 ^ 32" and "snd (fold plain_step bs (sums s)) < 2 ^ 32"
  shows "sums (fold adler_add bs s) = fold plain_step bs (sums s)"
  using assms
proof (induction bs arbitrary: s)
  case (Cons b bs)
  have "sums (adler_add b s) = plain_step b (sums s)"
    using Cons.prems plain_grows [of "plain_step b (sums s)" bs]
    by (intro adler_add_sums) auto
  with Cons show ?case by simp
qed simp

lemma adler_block_sums:
  assumes "length bs \<le> 5552" and "fst (sums s) \<le> 65535" and "snd (sums s) \<le> 65535"
  shows "sums (fold adler_add bs s) = fold plain_step bs (sums s)"
proof (rule fold_adler_add)
  let ?n = "length bs"
  have "255 * ?n \<le> 255 * 5552" using assms by simp
  then show "fst (fold plain_step bs (sums s)) < 2 ^ 32"
    using plain_bound [of bs "sums s"] assms by simp
  define x y where "x = 2 * ?n * fst (sums s)" and "y = 255 * ?n * (?n + 1)"
  have "x \<le> 2 * 5552 * 65535"
    unfolding x_def using assms by (intro mult_le_mono) auto
  moreover have "y \<le> 255 * 5552 * 5553"
    unfolding y_def using assms by (intro mult_le_mono) auto
  moreover have "2 * snd (fold plain_step bs (sums s)) \<le> 2 * snd (sums s) + x + y"
    using plain_bound [of bs "sums s"] by (simp add: x_def y_def)
  ultimately show "snd (fold plain_step bs (sums s)) < 2 ^ 32"
    using assms(3) by simp
qed

lemma reduced_step: "reduced (plain_step b s) = adler_step b (reduced s)"
  by (simp add: reduced_def plain_step_def adler_step_def Let_def mod_simps)

lemma reduced_fold: "reduced (fold plain_step bs s) = fold adler_step bs (reduced s)"
  by (induction bs arbitrary: s) (simp_all add: reduced_step)

lemma reduced_reduced: "reduced (reduced s) = reduced s"
  by (simp add: reduced_def)

lemma reduced_less: "fst (reduced s) < 65521" "snd (reduced s) < 65521"
  by (simp_all add: reduced_def)

lemma sums_mod: "sums (a mod 65521, b mod 65521) = reduced (sums (a, b))"
  by (simp add: sums_def reduced_def unat_mod)

lemma adler_blocks_fold:
  assumes "buf_len = length ptr" and "block_len \<le> 5552" and "5552 dvd buf_len - block_len"
    and "block_len \<le> buf_len \<or> buf_len = 0" and "fst (sums s) \<le> 65535" and "snd (sums s) \<le> 65535"
  shows "\<exists>s'. adler_blocks ptr buf_len block_len s = Some s'
    \<and> (if ptr = [] then s' = s else sums s' = fold adler_step ptr (reduced (sums s)))"
  using assms
proof (induction ptr buf_len block_len s rule: adler_blocks.induct)
  case (1 ptr buf_len block_len s)
  show ?case
  proof (cases "ptr = []")
    case True
    with 1 show ?thesis by (subst adler_blocks.simps) simp
  next
    case False
    define s1 where "s1 = fold adler_add (take block_len ptr) s"
    define s2 where "s2 = (fst s1 mod 65521, snd s1 mod 65521)"
    define rest where "rest = drop block_len ptr"
    have bl: "block_len \<le> length ptr" using 1 False by auto
    then have block: "adler_block ptr 0 block_len s = Some (rest, s1)"
      by (subst adler_block_fold) (simp_all add: s1_def rest_def)
    have "sums s1 = fold plain_step (take block_len ptr) (sums s)"
      unfolding s1_def using 1 by (intro adler_block_sums) auto
    then have s2: "sums s2 = fold adler_step (take block_len ptr) (reduced (sums s))"
      unfolding s2_def sums_mod by (simp add: reduced_fold)
    have red: "reduced (sums s2) = sums s2"
      unfolding s2_def sums_mod by (rule reduced_reduced)
    then have le: "fst (sums s2) \<le> 65535" "snd (sums s2) \<le> 65535"
      using reduced_less [of "sums s2"] by simp_all
    have "\<exists>s'. adler_blocks rest (buf_len - block_len) 5552 s2 = Some s'
      \<and> (if rest = [] then s' = s2 else sums s' = fold adler_step rest (reduced (sums s2)))"
      unfolding s2_def
      using 1 bl le False dvd_diff_nat [of 5552 "length ptr - block_len" 5552]
      by (intro "1.IH" [OF _ block refl]) (auto simp: rest_def s2_def dest: dvd_imp_le)
    then obtain s' where s': "adler_blocks rest (buf_len - block_len) 5552 s2 = Some s'"
      "if rest = [] then s' = s2 else sums s' = fold adler_step rest (sums s2)"
      unfolding red by blast
    have "sums s' = fold adler_step (take block_len ptr @ rest) (reduced (sums s))"
      using s'(2) s2 by (simp split: if_splits)
    then show ?thesis
      using s'(1) block False 1
      by (subst adler_blocks.simps) (simp add: s2_def rest_def)
  qed
qed

lemma mz_adler32_fold:
  assumes "ptr \<noteq> []"
  shows "\<exists>w. mz_adler32 adler (Some ptr) = Some w
    \<and> (unat w mod 65536, unat w div 65536)
       = fold adler_step ptr (reduced (unat adler mod 65536, unat adler div 65536))"
proof -
  let ?s = "(adler AND 0xffff, drop_bit 16 adler)"
  have m: "adler AND 0xffff = take_bit 16 adler"
    by (simp add: take_bit_eq_mask mask_eq_exp_minus_1)
  have u: "unat (take_bit 16 adler) = unat adler mod 65536"
    by (simp add: unsigned_take_bit_eq take_bit_eq_mod unat_mod)
  have d: "unat (drop_bit 16 adler) = unat adler div 65536"
    by (simp add: unsigned_drop_bit_eq drop_bit_eq_div unat_div)
  have s: "sums ?s = (unat adler mod 65536, unat adler div 65536)"
    by (simp add: sums_def m u d)
  have "unat adler < 2 ^ 32" by (rule order_less_le_trans [OF unsigned_less]) simp
  then have "unat adler div 65536 \<le> 65535" by simp
  then have "\<exists>s'. adler_blocks ptr (length ptr) (length ptr mod 5552) ?s = Some s'
      \<and> (if ptr = [] then s' = ?s else sums s' = fold adler_step ptr (reduced (sums ?s)))"
    by (intro adler_blocks_fold) (auto simp: s less_imp_le dvd_minus_mod less_Suc_eq_le)
  then obtain s' where s': "adler_blocks ptr (length ptr) (length ptr mod 5552) ?s = Some s'"
    "sums s' = fold adler_step ptr (reduced (sums ?s))"
    using assms by auto
  have "reduced (sums s') = sums s'"
    unfolding s'(2) reduced_fold [symmetric] by (rule reduced_reduced)
  then have l: "fst (sums s') < 65521" "snd (sums s') < 65521"
    using reduced_less [of "sums s'"] by simp_all
  have p: "unat (push_bit 16 (snd s') :: u32) = unat (snd s') * 65536"
    using l(2) by (simp add: unat_word_ariths push_bit_eq_mult sums_def)
  have "unat (push_bit 16 (snd s') + fst s') = unat (snd s') * 65536 + unat (fst s')"
    using l by (subst unat_add_no_wrap) (simp_all add: p sums_def)
  then have "(unat (push_bit 16 (snd s') + fst s') mod 65536,
      unat (push_bit 16 (snd s') + fst s') div 65536) = sums s'"
    using l by (simp add: sums_def)
  then show ?thesis
    using s' s by (simp add: mz_adler32_def)
qed

text \<open>C24: the checksum computed block by block, with the reductions left out inside a block, is the one
  of the definition for a message of any length: no register overflows and no byte outside the
  message is read.\<close>

theorem mz_adler32_is_adler:
  assumes "ptr \<noteq> []"
  shows "\<exists>w. mz_adler32 1 (Some ptr) = Some w
    \<and> (unat w mod 65536, unat w div 65536) = fold adler_step ptr (1, 0)"
  using mz_adler32_fold [OF assms, of 1] by (simp add: reduced_def)

theorem mz_adler32_is_adler_witness: "mz_adler32 1 (Some [0x57, 0x69, 0x6b, 0x69]) = Some 0x03da0195"
proof -
  obtain w where w: "mz_adler32 1 (Some [0x57, 0x69, 0x6b, 0x69]) = Some w"
    "(unat w mod 65536, unat w div 65536) = fold adler_step [0x57, 0x69, 0x6b, 0x69] (1, 0)"
    using mz_adler32_is_adler [of "[0x57, 0x69, 0x6b, 0x69]"] by auto
  have "fold adler_step [0x57, 0x69, 0x6b, 0x69] (1, 0) = (0x195, 0x3da)"
    by (simp add: adler_step_def)
  then have "unat w = 0x03da0195"
    using w(2) div_mult_mod_eq [of "unat w" 65536] by simp
  then have "w = 0x03da0195" by (intro unat_inj32) simp
  then show ?thesis using w(1) by simp
qed

end
