(* ===== verification/Zip_Sort.thy ===== *)
theory Zip_Sort
  imports Prelude "HOL-Library.Multiset" "HOL-Library.List_Lexorder"
begin

text \<open>
  The order of the files of a zip archive (\<open>miniz/miniz.c\<close>): reading of little-endian fields, the
  comparison of file names without regard to case (\<open>mz_zip_reader_filename_less\<close>,
  \<open>mz_zip_reader_filename_compare\<close>), and the heap sort of the index of the central directory. The
  central directory is the list of its bytes and a file is the index into the list of the offsets
  of its record; a read outside of either has no defined result. The heap sort is proved in a
  locale for any comparison that decides an order on the elements, which is then interpreted with
  the comparison of names.
\<close>

section \<open>Little-endian fields\<close>

text \<open>The byte-wise variants of \<open>MZ_READ_LE16\<close> and \<open>MZ_READ_LE32\<close>, as compiled for the ARM.\<close>

definition mz_read_le16 :: "bytes \<Rightarrow> nat \<Rightarrow> u32 option" where
  "mz_read_le16 buf p =
     (if p + 2 \<le> length buf then Some (ucast (buf ! p) OR push_bit 8 (ucast (buf ! (p + 1)))) else None)"

definition mz_read_le32 :: "bytes \<Rightarrow> nat \<Rightarrow> u32 option" where
  "mz_read_le32 buf p =
     (if p + 4 \<le> length buf
      then Some (ucast (buf ! p) OR push_bit 8 (ucast (buf ! (p + 1)))
             OR push_bit 16 (ucast (buf ! (p + 2))) OR push_bit 24 (ucast (buf ! (p + 3))))
      else None)"

definition MZ_TOLOWER :: "u8 \<Rightarrow> u8" where
  "MZ_TOLOWER c = (if 0x41 \<le> c \<and> c \<le> 0x5a then c - 0x41 + 0x61 else c)"

text \<open>Offsets in a record of the central directory.\<close>

abbreviation MZ_ZIP_CENTRAL_DIR_HEADER_SIZE :: nat where "MZ_ZIP_CENTRAL_DIR_HEADER_SIZE \<equiv> 46"
abbreviation MZ_ZIP_CDH_FILENAME_LEN_OFS :: nat where "MZ_ZIP_CDH_FILENAME_LEN_OFS \<equiv> 28"

section \<open>Comparison of names\<close>

definition elem_at :: "'a list \<Rightarrow> int \<Rightarrow> 'a option" where
  "elem_at xs i = (if 0 \<le> i \<and> nat i < length xs then Some (xs ! nat i) else None)"

text \<open>The loop shared by the two comparisons: it runs over the first \<open>n\<close> characters at \<open>pL\<close> and \<open>pR\<close>
  and stops at the first two that differ.\<close>

fun first_difference :: "bytes \<Rightarrow> nat \<Rightarrow> bytes \<Rightarrow> nat \<Rightarrow> nat \<Rightarrow> (u8 \<times> u8) option option" where
  "first_difference xs pL ys pR 0 = Some None"
| "first_difference xs pL ys pR (Suc n) =
     (if pL < length xs \<and> pR < length ys
      then (let l = MZ_TOLOWER (xs ! pL); r = MZ_TOLOWER (ys ! pR)
            in if l \<noteq> r then Some (Some (l, r)) else first_difference xs (pL + 1) ys (pR + 1) n)
      else None)"

definition record_of :: "u32 list \<Rightarrow> u32 \<Rightarrow> nat option" where
  "record_of offs i = map_option unat (elem_at offs (int (unat i)))"

definition mz_zip_reader_filename_less :: "bytes \<Rightarrow> u32 list \<Rightarrow> u32 \<Rightarrow> u32 \<Rightarrow> bool option" where
  "mz_zip_reader_filename_less cdir offs l_index r_index =
     do {
       pL \<leftarrow> record_of offs l_index;
       pR \<leftarrow> record_of offs r_index;
       l_len \<leftarrow> mz_read_le16 cdir (pL + MZ_ZIP_CDH_FILENAME_LEN_OFS);
       r_len \<leftarrow> mz_read_le16 cdir (pR + MZ_ZIP_CDH_FILENAME_LEN_OFS);
       d \<leftarrow> first_difference cdir (pL + MZ_ZIP_CENTRAL_DIR_HEADER_SIZE)
              cdir (pR + MZ_ZIP_CENTRAL_DIR_HEADER_SIZE) (unat (min l_len r_len));
       Some (case d of None \<Rightarrow> l_len < r_len | Some (l, r) \<Rightarrow> l < r)
     }"

text \<open>The name sought is a C string: the list of its characters without the terminating zero, which
  the loop does not reach.\<close>

definition mz_zip_reader_filename_compare :: "bytes \<Rightarrow> u32 list \<Rightarrow> u32 \<Rightarrow> bytes \<Rightarrow> u32 \<Rightarrow> int option" where
  "mz_zip_reader_filename_compare cdir offs l_index pR r_len =
     do {
       pL \<leftarrow> record_of offs l_index;
       l_len \<leftarrow> mz_read_le16 cdir (pL + MZ_ZIP_CDH_FILENAME_LEN_OFS);
       d \<leftarrow> first_difference cdir (pL + MZ_ZIP_CENTRAL_DIR_HEADER_SIZE) pR 0 (unat (min l_len r_len));
       Some (case d of None \<Rightarrow> sint (l_len - r_len) | Some (l, r) \<Rightarrow> uint l - uint r)
     }"

section \<open>The heap sort\<close>

text \<open>\<open>pIndices\<close> is the list \<open>ix\<close>; \<open>cmp\<close> is the comparison of the elements. The inner loop, the same
  in both phases, moves \<open>root\<close> down; then the loop over \<open>start\<close> and the loop over \<open>end\<close>.\<close>

definition less_at :: "('a \<Rightarrow> 'a \<Rightarrow> bool option) \<Rightarrow> 'a list \<Rightarrow> int \<Rightarrow> int \<Rightarrow> bool option" where
  "less_at cmp ix i j = do { a \<leftarrow> elem_at ix i; b \<leftarrow> elem_at ix j; cmp a b }"

definition swap_at :: "'a list \<Rightarrow> int \<Rightarrow> int \<Rightarrow> 'a list option" where
  "swap_at ix i j =
     do { a \<leftarrow> elem_at ix i; b \<leftarrow> elem_at ix j; Some ((ix[nat i := b])[nat j := a]) }"

function sift_down ::
  "('a \<Rightarrow> 'a \<Rightarrow> bool option) \<Rightarrow> int \<Rightarrow> int \<Rightarrow> 'a list \<Rightarrow> 'a list option" where
  "sift_down cmp sz root ix =
     (if sz \<le> root * 2 + 1 then Some ix
      else
        (case (if root * 2 + 2 < sz then less_at cmp ix (root * 2 + 1) (root * 2 + 2) else Some False) of
           None \<Rightarrow> None
         | Some right \<Rightarrow>
             (let child = root * 2 + 1 + (if right then 1 else 0) in
              case less_at cmp ix root child of
                None \<Rightarrow> None
              | Some lt \<Rightarrow>
                  if \<not> lt then Some ix
                  else (case swap_at ix root child of
                          None \<Rightarrow> None
                        | Some ix' \<Rightarrow> sift_down cmp sz child ix'))))"
  by pat_completeness auto
termination
  by (relation "measure (\<lambda>(cmp, sz, root, ix). nat (sz - root))")
    (auto simp: less_at_def elem_at_def split: Option.bind_splits if_splits)

declare sift_down.simps [simp del]

function heapify :: "('a \<Rightarrow> 'a \<Rightarrow> bool option) \<Rightarrow> int \<Rightarrow> int \<Rightarrow> 'a list \<Rightarrow> 'a list option" where
  "heapify cmp sz start ix =
     (if start < 0 then Some ix
      else case sift_down cmp sz start ix of
             None \<Rightarrow> None
           | Some ix' \<Rightarrow> heapify cmp sz (start - 1) ix')"
  by pat_completeness auto
termination by (relation "measure (\<lambda>(cmp, sz, start, ix). nat (start + 1))") auto

declare heapify.simps [simp del]

function extract_max :: "('a \<Rightarrow> 'a \<Rightarrow> bool option) \<Rightarrow> int \<Rightarrow> 'a list \<Rightarrow> 'a list option" where
  "extract_max cmp hi ix =
     (if hi \<le> 0 then Some ix
      else case swap_at ix hi 0 of
             None \<Rightarrow> None
           | Some ix1 \<Rightarrow>
               (case sift_down cmp hi 0 ix1 of
                  None \<Rightarrow> None
                | Some ix2 \<Rightarrow> extract_max cmp (hi - 1) ix2))"
  by pat_completeness auto
termination by (relation "measure (\<lambda>(cmp, hi, ix). nat hi)") auto

declare extract_max.simps [simp del]

definition heap_sort :: "('a \<Rightarrow> 'a \<Rightarrow> bool option) \<Rightarrow> int \<Rightarrow> 'a list \<Rightarrow> 'a list option" where
  "heap_sort cmp sz ix =
     do {
       ix1 \<leftarrow> heapify cmp sz ((sz - 2) div 2) ix;
       extract_max cmp (sz - 1) ix1
     }"

definition mz_zip_reader_sort_central_dir_offsets_by_filename ::
  "bytes \<Rightarrow> u32 list \<Rightarrow> int \<Rightarrow> u32 list \<Rightarrow> u32 list option" where
  "mz_zip_reader_sort_central_dir_offsets_by_filename cdir offs sz ix =
     heap_sort (mz_zip_reader_filename_less cdir offs) sz ix"

section \<open>Correctness of the heap sort\<close>

lemma elem_at_nat [simp]: "i < length xs \<Longrightarrow> elem_at xs (int i) = Some (xs ! i)"
  by (simp add: elem_at_def)

lemma swap_at_nat:
  "i < length xs \<Longrightarrow> j < length xs \<Longrightarrow>
   swap_at xs (int i) (int j) = Some ((xs[i := xs ! j])[j := xs ! i])"
  by (simp add: swap_at_def)

definition par :: "nat \<Rightarrow> nat" where
  "par j = (j - 1) div 2"

lemma par_child: "par (2 * r + 1) = r" "par (2 * r + 2) = r"
  by (simp_all add: par_def)

lemma par_eq: "0 < j \<Longrightarrow> par j = r \<longleftrightarrow> j = 2 * r + 1 \<or> j = 2 * r + 2"
  by (auto simp: par_def)

lemma par_less: "0 < j \<Longrightarrow> par j < j"
  by (auto simp: par_def)

locale ordered_by_key =
  fixes cmp :: "'a \<Rightarrow> 'a \<Rightarrow> bool option" and key :: "'a \<Rightarrow> 'k::linorder" and elems :: "'a set"
  assumes less_key: "a \<in> elems \<Longrightarrow> b \<in> elems \<Longrightarrow> cmp a b = Some (key a < key b)"
begin

text \<open>The parents from \<open>lo\<close> on are not below their children before \<open>n\<close>; the same except at \<open>r\<close>, whose
  own parent is then compared with the children of \<open>r\<close>.\<close>

definition heap_from :: "'a list \<Rightarrow> nat \<Rightarrow> nat \<Rightarrow> bool" where
  "heap_from xs lo n \<longleftrightarrow> (\<forall>j. 0 < j \<longrightarrow> j < n \<longrightarrow> lo \<le> par j \<longrightarrow> key (xs ! j) \<le> key (xs ! par j))"

definition heap_except :: "'a list \<Rightarrow> nat \<Rightarrow> nat \<Rightarrow> nat \<Rightarrow> bool" where
  "heap_except xs lo n r \<longleftrightarrow>
     (\<forall>j. 0 < j \<longrightarrow> j < n \<longrightarrow> lo \<le> par j \<longrightarrow> par j \<noteq> r \<longrightarrow> key (xs ! j) \<le> key (xs ! par j))
     \<and> (\<forall>j. 0 < j \<longrightarrow> j < n \<longrightarrow> par j = r \<longrightarrow> 0 < r \<longrightarrow> lo \<le> par r \<longrightarrow> key (xs ! j) \<le> key (xs ! par r))"

lemma less_at_key:
  assumes "set xs \<subseteq> elems" and "i < length xs" and "j < length xs"
  shows "less_at cmp xs (int i) (int j) = Some (key (xs ! i) < key (xs ! j))"
proof -
  have "xs ! i \<in> elems" "xs ! j \<in> elems" using assms nth_mem by blast+
  then show ?thesis using assms by (simp add: less_at_def less_key)
qed

lemma heap_except_done:
  assumes "heap_except xs lo n r" and "\<And>j. 0 < j \<Longrightarrow> j < n \<Longrightarrow> par j = r \<Longrightarrow> key (xs ! j) \<le> key (xs ! r)"
  shows "heap_from xs lo n"
  using assms unfolding heap_from_def heap_except_def by blast

lemma heap_except_swap:
  assumes h: "heap_except xs lo n r" and "n \<le> length xs" and "lo \<le> r"
    and c: "par c = r" "0 < c" "c < n" and lt: "key (xs ! r) < key (xs ! c)"
    and big: "\<And>j. 0 < j \<Longrightarrow> j < n \<Longrightarrow> par j = r \<Longrightarrow> key (xs ! j) \<le> key (xs ! c)"
  shows "heap_except ((xs[r := xs ! c])[c := xs ! r]) lo n c"
proof -
  define ys where "ys = (xs[r := xs ! c])[c := xs ! r]"
  have rc: "r < c" using c par_less by blast
  then have nth: "j < n \<Longrightarrow> ys ! j = (if j = c then xs ! r else if j = r then xs ! c else xs ! j)" for j
    using assms(2) c by (auto simp: ys_def nth_list_update)
  have p: "par j < n" if "0 < j" "j < n" for j using par_less [of j] that by simp
  have "key (ys ! j) \<le> key (ys ! par j)"
    if j: "0 < j" "j < n" "lo \<le> par j" "par j \<noteq> c" for j
  proof (cases "par j = r")
    case True
    then show ?thesis using big [of j] j lt rc c by (simp add: nth p less_imp_le)
  next
    case False
    then have "j \<noteq> c" using c by blast
    show ?thesis
    proof (cases "j = r")
      case True
      then have "key (xs ! c) \<le> key (xs ! par r)"
        using h j c unfolding heap_except_def by blast
      then show ?thesis using True False j par_less [of j] rc by (simp add: nth p)
    next
      case False
      with \<open>par j \<noteq> r\<close> \<open>j \<noteq> c\<close> show ?thesis
        using h j unfolding heap_except_def by (simp add: nth p)
    qed
  qed
  moreover have "key (ys ! j) \<le> key (ys ! par c)" if j: "0 < j" "j < n" "par j = c" for j
  proof -
    have "c < j" using par_less j by blast
    moreover have "key (xs ! j) \<le> key (xs ! par j)"
      using h j rc assms(3) unfolding heap_except_def by (metis le_trans less_imp_le less_irrefl)
    ultimately show ?thesis using j c rc by (simp add: nth)
  qed
  ultimately show ?thesis unfolding heap_except_def ys_def [symmetric] by blast
qed

text \<open>One run of the inner loop makes a heap of an almost-heap, permuting only the elements from \<open>lo\<close>
  to \<open>n\<close>.\<close>

definition rearranged :: "'a list \<Rightarrow> 'a list \<Rightarrow> nat \<Rightarrow> nat \<Rightarrow> bool" where
  "rearranged xs ys lo n \<longleftrightarrow> mset ys = mset xs \<and> (\<forall>j. j < lo \<or> n \<le> j \<longrightarrow> ys ! j = xs ! j)"

lemma rearranged_length: "rearranged xs ys lo n \<Longrightarrow> length ys = length xs"
  unfolding rearranged_def using mset_eq_length by blast

lemma rearranged_set: "rearranged xs ys lo n \<Longrightarrow> set ys = set xs"
  unfolding rearranged_def using mset_eq_setD by blast

lemma rearranged_trans:
  "rearranged xs ys lo n \<Longrightarrow> rearranged ys zs lo' n' \<Longrightarrow> m \<le> lo \<Longrightarrow> m \<le> lo' \<Longrightarrow> n \<le> k \<Longrightarrow> n' \<le> k
   \<Longrightarrow> rearranged xs zs m k"
  unfolding rearranged_def by (metis le_trans less_le_trans)

lemma rearranged_refl: "rearranged xs xs lo n"
  by (simp add: rearranged_def)

lemma rearranged_swap:
  "i < length xs \<Longrightarrow> j < length xs \<Longrightarrow> lo \<le> i \<Longrightarrow> lo \<le> j \<Longrightarrow> i < n \<Longrightarrow> j < n \<Longrightarrow>
   rearranged xs ((xs[i := xs ! j])[j := xs ! i]) lo n"
  by (auto simp: rearranged_def mset_swap)

lemma sift_down_heap:
  assumes "set xs \<subseteq> elems" and "n \<le> length xs" and "lo \<le> r" and "heap_except xs lo n r"
  shows "\<exists>ys. sift_down cmp (int n) (int r) xs = Some ys \<and> heap_from ys lo n \<and> rearranged xs ys lo n"
  using assms
proof (induction "n - r" arbitrary: r xs rule: less_induct)
  case less
  show ?case
  proof (cases "n \<le> 2 * r + 1")
    case True
    then have "heap_from xs lo n"
      using less.prems(4) by (intro heap_except_done [of xs lo n r]) (auto simp: par_def)
    moreover have "sift_down cmp (int n) (int r) xs = Some xs"
      using True by (subst sift_down.simps) simp
    ultimately show ?thesis using rearranged_refl by blast
  next
    case False
    define right where
      "right \<longleftrightarrow> 2 * r + 2 < n \<and> key (xs ! (2 * r + 1)) < key (xs ! (2 * r + 2))"
    define c where "c = (if right then 2 * r + 2 else 2 * r + 1)"
    have c: "c < n" "par c = r" "0 < c" "r < c" "c < length xs"
      using False less.prems(2) by (auto simp: c_def right_def par_def)
    have big: "key (xs ! j) \<le> key (xs ! c)" if "0 < j" "j < n" "par j = r" for j
      using that by (auto simp: c_def right_def par_eq split: if_splits)
    have la: "i < n \<Longrightarrow> j < n \<Longrightarrow> less_at cmp xs (int i) (int j) = Some (key (xs ! i) < key (xs ! j))"
      for i j using less.prems(1,2) by (intro less_at_key) auto
    have child: "(if int r * 2 + 2 < int n then less_at cmp xs (int r * 2 + 1) (int r * 2 + 2) else Some False)
        = Some right"
      using la [of "2 * r + 1" "2 * r + 2"] by (auto simp: right_def algebra_simps)
    have ci: "int r * 2 + 1 + (if right then 1 else 0) = int c" by (simp add: c_def)
    have step: "sift_down cmp (int n) (int r) xs
        = (if key (xs ! r) < key (xs ! c)
           then sift_down cmp (int n) (int c) ((xs[r := xs ! c])[c := xs ! r]) else Some xs)"
      using False c la [of r c] less.prems(2)
      by (subst sift_down.simps) (simp add: child ci swap_at_nat Let_def)
    show ?thesis
    proof (cases "key (xs ! r) < key (xs ! c)")
      case True
      let ?xs = "(xs[r := xs ! c])[c := xs ! r]"
      have "heap_except ?xs lo n c"
        using heap_except_swap [OF less.prems(4,2,3) c(2,3,1) True] big by blast
      moreover have re: "rearranged xs ?xs lo n"
        using c less.prems by (intro rearranged_swap) auto
      ultimately have "\<exists>ys. sift_down cmp (int n) (int c) ?xs = Some ys \<and> heap_from ys lo n
          \<and> rearranged ?xs ys lo n"
        using less.prems c rearranged_set [OF re] rearranged_length [OF re] by (intro less.hyps) auto
      then obtain ys where "sift_down cmp (int n) (int c) ?xs = Some ys" "heap_from ys lo n"
        "rearranged ?xs ys lo n" by blast
      then show ?thesis
        using True step rearranged_trans [OF re] by auto
    next
      case False
      then have "heap_from xs lo n"
        using less.prems(4) big
        by (intro heap_except_done [of xs lo n r]) (assumption, metis not_less order_trans)
      then show ?thesis using False step rearranged_refl by auto
    qed
  qed
qed

text \<open>The first phase builds a heap from the back; the second takes the greatest element each time.\<close>

lemma heap_from_except: "heap_from xs (Suc r) n \<Longrightarrow> heap_except xs r n r"
  unfolding heap_from_def heap_except_def by (metis par_less not_less_eq_eq le_antisym not_less)

lemma heapify_heap:
  assumes "set xs \<subseteq> elems" and "n \<le> length xs" and "heap_from xs k n"
  shows "\<exists>ys. heapify cmp (int n) (int k - 1) xs = Some ys \<and> heap_from ys 0 n \<and> rearranged xs ys 0 n"
  using assms
proof (induction k arbitrary: xs)
  case 0
  then show ?case using rearranged_refl by (subst heapify.simps) auto
next
  case (Suc k)
  have "\<exists>ys. sift_down cmp (int n) (int k) xs = Some ys \<and> heap_from ys k n \<and> rearranged xs ys k n"
    using Suc.prems by (intro sift_down_heap heap_from_except) auto
  then obtain ys where ys: "sift_down cmp (int n) (int k) xs = Some ys" "heap_from ys k n"
    "rearranged xs ys k n" by blast
  then obtain zs where "heapify cmp (int n) (int k - 1) ys = Some zs" "heap_from zs 0 n" "rearranged ys zs 0 n"
    using Suc.IH [of ys] Suc.prems rearranged_set [OF ys(3)] rearranged_length [OF ys(3)] by auto
  then show ?case
    using ys(1) rearranged_trans [OF ys(3)] by (subst heapify.simps) auto
qed

lemma heap_top: "heap_from xs 0 n \<Longrightarrow> j < n \<Longrightarrow> key (xs ! j) \<le> key (xs ! 0)"
proof (induction j rule: less_induct)
  case (less j)
  show ?case
  proof (cases "j = 0")
    case False
    then have "key (xs ! j) \<le> key (xs ! par j)" using less.prems by (simp add: heap_from_def)
    also have "\<dots> \<le> key (xs ! 0)" using less False par_less [of j] by auto
    finally show ?thesis .
  qed simp
qed

text \<open>What holds between two rounds: a heap before \<open>n\<close>, the greatest elements in order after it.\<close>

definition partly_sorted :: "'a list \<Rightarrow> nat \<Rightarrow> bool" where
  "partly_sorted xs n \<longleftrightarrow> heap_from xs 0 n
     \<and> (\<forall>i j. i < j \<longrightarrow> j < length xs \<longrightarrow> n \<le> j \<longrightarrow> key (xs ! i) \<le> key (xs ! j))"

lemma rearranged_prefix:
  assumes "rearranged xs ys 0 n" and "n \<le> length xs" and "i < n"
  shows "\<exists>k < n. ys ! i = xs ! k"
proof -
  have l: "length ys = length xs" using assms(1) by (rule rearranged_length)
  have d: "drop n ys = drop n xs"
    by (rule nth_equalityI) (use assms l in \<open>auto simp: rearranged_def\<close>)
  have "mset (take n ys) + mset (drop n ys) = mset (take n xs) + mset (drop n xs)"
    using assms(1) by (simp add: rearranged_def flip: mset_append)
  then have "mset (take n ys) = mset (take n xs)" unfolding d by simp
  moreover have "ys ! i \<in> set (take n ys)" using assms l by (auto simp: in_set_conv_nth)
  ultimately have "ys ! i \<in> set (take n xs)" by (metis set_mset_mset)
  then show ?thesis using assms(2) by (auto simp: in_set_conv_nth)
qed

lemma extract_step:
  assumes "set xs \<subseteq> elems" and "Suc m \<le> length xs" and "0 < m" and "partly_sorted xs (Suc m)"
  shows "\<exists>ys. sift_down cmp (int m) 0 ((xs[m := xs ! 0])[0 := xs ! m]) = Some ys
    \<and> partly_sorted ys m \<and> rearranged xs ys 0 (Suc m)"
proof -
  define zs where "zs = (xs[m := xs ! 0])[0 := xs ! m]"
  have h: "heap_from xs 0 (Suc m)" using assms(4) by (simp add: partly_sorted_def)
  have re: "rearranged xs zs 0 (Suc m)"
    unfolding zs_def using assms by (intro rearranged_swap) auto
  have zs: "zs ! j = xs ! j" if "0 < j" "j < m" for j using that by (simp add: zs_def)
  have par: "par j < m" if "0 < j" "j < m" for j using par_less [of j] that by simp
  have "heap_except zs 0 m 0"
    unfolding heap_except_def using h zs par
    by (auto simp: heap_from_def intro: less_SucI)
  then obtain ys where ys: "sift_down cmp (int m) 0 zs = Some ys" "heap_from ys 0 m" "rearranged zs ys 0 m"
    using sift_down_heap [of zs m 0 0] assms rearranged_set [OF re] rearranged_length [OF re] by auto
  have l: "length ys = length xs" using rearranged_length [OF ys(3)] rearranged_length [OF re] by simp
  have low: "\<exists>k \<le> m. ys ! i = xs ! k" if i: "i < m" for i
  proof -
    obtain k where "k < m" "ys ! i = zs ! k"
      using rearranged_prefix [OF ys(3) _ i] assms(2) rearranged_length [OF re] by auto
    then show ?thesis
      using assms(2,3) by (cases "k = 0"; cases "xs = []")
        (auto simp: zs_def nth_list_update intro: exI [of _ m] exI [of _ k])
  qed
  have high: "ys ! j = (if j = m then xs ! 0 else xs ! j)" if "m \<le> j" for j
    using ys(3) that assms by (auto simp: rearranged_def zs_def nth_list_update)
  have "key (ys ! i) \<le> key (ys ! j)" if ij: "i < j" "j < length ys" "m \<le> j" for i j
  proof (cases "i < m")
    case True
    then obtain k where k: "k \<le> m" "ys ! i = xs ! k" using low by blast
    show ?thesis
    proof (cases "j = m")
      case True
      then show ?thesis using heap_top [OF h, of k] k high [of m] by simp
    next
      case False
      then show ?thesis
        using assms(4) k ij l high [of j] by (auto simp: partly_sorted_def)
    qed
  next
    case False
    then show ?thesis
      using assms(2,3,4) ij l high [of i] high [of j]
      by (auto simp: partly_sorted_def split: if_splits)
  qed
  then have "partly_sorted ys m" using ys(2) by (simp add: partly_sorted_def)
  then show ?thesis
    using ys(1) rearranged_trans [OF re ys(3)] by (auto simp: zs_def)
qed

lemma extract_max_sorts:
  assumes "set xs \<subseteq> elems" and "Suc m \<le> length xs" and "partly_sorted xs (Suc m)"
  shows "\<exists>ys. extract_max cmp (int m) xs = Some ys \<and> partly_sorted ys 1 \<and> mset ys = mset xs"
  using assms
proof (induction m arbitrary: xs)
  case 0
  then show ?case by (subst extract_max.simps) simp
next
  case (Suc m)
  let ?zs = "(xs[Suc m := xs ! 0])[0 := xs ! Suc m]"
  obtain ys where ys: "sift_down cmp (int (Suc m)) 0 ?zs = Some ys" "partly_sorted ys (Suc m)"
    "rearranged xs ys 0 (Suc (Suc m))"
    using extract_step [of xs "Suc m"] Suc.prems by auto
  have "swap_at xs (int (Suc m)) 0 = Some ?zs"
    using swap_at_nat [of "Suc m" xs 0] Suc.prems by (cases "xs = []") auto
  moreover obtain us where "extract_max cmp (int m) ys = Some us" "partly_sorted us 1" "mset us = mset ys"
    using Suc.IH [of ys] Suc.prems ys rearranged_set [OF ys(3)] rearranged_length [OF ys(3)] by auto
  ultimately show ?case
    using ys by (subst extract_max.simps) (auto simp: rearranged_def)
qed

lemma heap_sort_sorts:
  assumes "set xs \<subseteq> elems"
  shows "\<exists>ys. heap_sort cmp (int (length xs)) xs = Some ys \<and> sorted (map key ys) \<and> mset ys = mset xs"
proof -
  let ?n = "length xs"
  show ?thesis
  proof (cases "?n \<le> 1")
    case True
    then have "heapify cmp (int ?n) ((int ?n - 2) div 2) xs = Some xs"
      by (subst heapify.simps) (auto simp: div_neg_pos_less0)
    moreover have "extract_max cmp (int ?n - 1) xs = Some xs"
      using True by (subst extract_max.simps) auto
    ultimately show ?thesis
      using True by (cases xs) (auto simp: heap_sort_def)
  next
    case False
    then have "(int ?n - 2) div 2 = int (?n div 2) - 1" by linarith
    moreover have "heap_from xs (?n div 2) ?n" by (auto simp: heap_from_def par_def)
    ultimately obtain ys where ys: "heapify cmp (int ?n) ((int ?n - 2) div 2) xs = Some ys"
      "heap_from ys 0 ?n" "rearranged xs ys 0 ?n"
      using heapify_heap [of xs ?n "?n div 2"] assms by auto
    have l: "length ys = ?n" using rearranged_length [OF ys(3)] .
    have "Suc (?n - 1) = ?n" using False by simp
    have "partly_sorted ys (Suc (?n - 1))"
      unfolding partly_sorted_def \<open>Suc (?n - 1) = ?n\<close> using ys(2) l by simp
    then obtain zs where zs: "extract_max cmp (int (?n - 1)) ys = Some zs" "partly_sorted zs 1"
      "mset zs = mset ys"
      using extract_max_sorts [of ys "?n - 1"] assms l \<open>Suc (?n - 1) = ?n\<close> rearranged_set [OF ys(3)]
      by (metis le_refl)
    have "sorted (map key zs)"
      using zs(2) by (auto simp: partly_sorted_def sorted_iff_nth_mono_less)
    moreover have "int (?n - 1) = int ?n - 1" using False by (simp add: of_nat_diff)
    ultimately show ?thesis
      using ys zs by (auto simp: heap_sort_def rearranged_def)
  qed
qed

end

section \<open>The order of the names\<close>

text \<open>The entries whose record and name lie inside the central directory, their names, and the key by
  which they are ordered: the name in lower case, compared lexicographically.\<close>

definition entry_name :: "bytes \<Rightarrow> u32 list \<Rightarrow> u32 \<Rightarrow> bytes option" where
  "entry_name cdir offs i =
     do {
       p \<leftarrow> record_of offs i;
       n \<leftarrow> mz_read_le16 cdir (p + MZ_ZIP_CDH_FILENAME_LEN_OFS);
       if p + MZ_ZIP_CENTRAL_DIR_HEADER_SIZE + unat n \<le> length cdir
       then Some (slice cdir (p + MZ_ZIP_CENTRAL_DIR_HEADER_SIZE) (unat n)) else None
     }"

definition lower :: "bytes \<Rightarrow> bytes" where
  "lower bs = map MZ_TOLOWER bs"

definition valid_entries :: "bytes \<Rightarrow> u32 list \<Rightarrow> u32 set" where
  "valid_entries cdir offs = {i. entry_name cdir offs i \<noteq> None}"

definition entry_key :: "bytes \<Rightarrow> u32 list \<Rightarrow> u32 \<Rightarrow> bytes" where
  "entry_key cdir offs i = lower (the (entry_name cdir offs i))"

text \<open>The loop over the characters as a function of the two names.\<close>

fun list_diff :: "bytes \<Rightarrow> bytes \<Rightarrow> (u8 \<times> u8) option" where
  "list_diff (x # xs) (y # ys) = (if x \<noteq> y then Some (x, y) else list_diff xs ys)"
| "list_diff xs ys = None"

lemma Nil_less: "[] < (ys :: bytes) \<longleftrightarrow> ys \<noteq> []"
  by (cases ys) auto

lemma list_diff_less:
  "(xs < ys) = (case list_diff xs ys of None \<Rightarrow> length xs < length ys | Some (x, y) \<Rightarrow> x < y)"
  by (induction xs ys rule: list_diff.induct) (auto simp: Nil_less split: option.splits)

lemma list_diff_eq: "(xs = ys) = (list_diff xs ys = None \<and> length xs = length ys)"
  by (induction xs ys rule: list_diff.induct) auto

lemma list_diff_neq: "list_diff xs ys = Some (x, y) \<Longrightarrow> x \<noteq> y"
  by (induction xs ys rule: list_diff.induct) (auto split: if_splits)

lemma list_diff_compare:
  fixes c :: int
  assumes "c = (case list_diff xs ys of None \<Rightarrow> int (length xs) - int (length ys) | Some (x, y) \<Rightarrow> uint x - uint y)"
  shows "c = 0 \<longleftrightarrow> xs = ys" and "c < 0 \<longleftrightarrow> xs < ys"
proof -
  show "c = 0 \<longleftrightarrow> xs = ys"
    using assms list_diff_neq [of xs ys] list_diff_eq [of xs ys]
    by (auto split: option.splits simp: word_uint_eq_iff)
  show "c < 0 \<longleftrightarrow> xs < ys"
    using assms by (auto split: option.splits simp: list_diff_less word_less_def)
qed

lemma list_diff_take:
  "list_diff (take (min (length xs) (length ys)) xs) (take (min (length xs) (length ys)) ys)
     = list_diff xs ys"
  by (induction xs ys rule: list_diff.induct) auto

lemma slice_Suc: "p < length xs \<Longrightarrow> slice xs p (Suc n) = xs ! p # slice xs (p + 1) n"
  by (simp add: slice_def Cons_nth_drop_Suc [symmetric])

lemma first_difference_slices:
  "pL + n \<le> length xs \<Longrightarrow> pR + n \<le> length ys \<Longrightarrow>
   first_difference xs pL ys pR n = Some (list_diff (lower (slice xs pL n)) (lower (slice ys pR n)))"
  by (induction n arbitrary: pL pR) (auto simp: slice_Suc lower_def Let_def)

lemma slice_min: "slice xs p (min m n) = take (min m n) (slice xs p m)"
  by (simp add: slice_def min_absorb1)

lemma lower_take: "lower (take n bs) = take n (lower bs)"
  by (simp add: lower_def take_map)

lemma length_lower [simp]: "length (lower bs) = length bs"
  by (simp add: lower_def)

text \<open>Two names of \<open>l\<close> and \<open>r\<close> characters are compared over the shorter of the two lengths.\<close>

lemma first_difference_names:
  assumes "pL + l \<le> length xs" and "pR + r \<le> length ys"
  shows "first_difference xs pL ys pR (min l r)
    = Some (list_diff (lower (slice xs pL l)) (lower (slice ys pR r)))"
proof -
  have "first_difference xs pL ys pR (min l r)
      = Some (list_diff (lower (slice xs pL (min l r))) (lower (slice ys pR (min l r))))"
    using assms by (intro first_difference_slices) auto
  moreover have "slice xs pL (min l r) = take (min l r) (slice xs pL l)"
    "slice ys pR (min l r) = take (min l r) (slice ys pR r)"
    by (metis slice_min min.commute)+
  ultimately show ?thesis
    using list_diff_take [of "lower (slice xs pL l)" "lower (slice ys pR r)"] assms
    by (simp only: lower_take length_lower length_slice)
qed

lemma unat_min: "unat (min a b :: u32) = min (unat a) (unat b)"
  by (simp add: min_def word_le_nat_alt)

lemma entry_nameD:
  assumes "entry_name cdir offs i = Some name"
  obtains p n where "record_of offs i = Some p" "mz_read_le16 cdir (p + MZ_ZIP_CDH_FILENAME_LEN_OFS) = Some n"
    "p + MZ_ZIP_CENTRAL_DIR_HEADER_SIZE + unat n \<le> length cdir"
    "name = slice cdir (p + MZ_ZIP_CENTRAL_DIR_HEADER_SIZE) (unat n)" "length name = unat n"
  using assms by (auto simp: entry_name_def length_slice split: Option.bind_splits if_splits)

lemma filename_less_key:
  assumes "l \<in> valid_entries cdir offs" and "r \<in> valid_entries cdir offs"
  shows "mz_zip_reader_filename_less cdir offs l r
    = Some (entry_key cdir offs l < entry_key cdir offs r)"
proof -
  obtain nl nr where n: "entry_name cdir offs l = Some nl" "entry_name cdir offs r = Some nr"
    using assms by (auto simp: valid_entries_def)
  obtain p m where p: "record_of offs l = Some p" "mz_read_le16 cdir (p + 28) = Some m"
    "p + 46 + unat m \<le> length cdir" "nl = slice cdir (p + 46) (unat m)" "length nl = unat m"
    using n(1) by (rule entry_nameD)
  obtain q k where q: "record_of offs r = Some q" "mz_read_le16 cdir (q + 28) = Some k"
    "q + 46 + unat k \<le> length cdir" "nr = slice cdir (q + 46) (unat k)" "length nr = unat k"
    using n(2) by (rule entry_nameD)
  have "first_difference cdir (p + 46) cdir (q + 46) (unat (min m k)) = Some (list_diff (lower nl) (lower nr))"
    unfolding unat_min p(4) q(4) using p(3) q(3) by (intro first_difference_names) auto
  then show ?thesis
    using p q n by (auto simp: mz_zip_reader_filename_less_def entry_key_def list_diff_less
        word_less_nat_alt split: option.splits)
qed

interpretation names: ordered_by_key "mz_zip_reader_filename_less cdir offs" "entry_key cdir offs"
  "valid_entries cdir offs" for cdir offs
  by unfold_locales (rule filename_less_key)

lemma sort_by_filename:
  assumes "set ix \<subseteq> valid_entries cdir offs"
  shows "\<exists>ys. mz_zip_reader_sort_central_dir_offsets_by_filename cdir offs (int (length ix)) ix = Some ys
    \<and> sorted (map (entry_key cdir offs) ys) \<and> mset ys = mset ix"
  unfolding mz_zip_reader_sort_central_dir_offsets_by_filename_def
  using assms by (rule names.heap_sort_sorts)

lemma byte_bit: "bit (b :: u8) j \<Longrightarrow> j < 8"
  by (drule bit_imp_le_length) simp

lemma read_le16_bound: "mz_read_le16 buf p = Some n \<Longrightarrow> unat n < 65536"
proof -
  assume a: "mz_read_le16 buf p = Some n"
  have low: "bit n j \<Longrightarrow> j < 16" for j
    using a by (auto simp: mz_read_le16_def bit_simps split: if_splits dest!: byte_bit)
  have "n = take_bit 16 n"
    using low by (intro bit_word_eqI) (auto simp: bit_simps)
  then have "unat n = take_bit 16 (unat n)" by (metis unsigned_take_bit_eq)
  then show ?thesis using take_bit_nat_less_exp [of 16 "unat n"] by simp
qed

lemma filename_compare_key:
  assumes "i \<in> valid_entries cdir offs" and "length name < 2 ^ 31"
  shows "\<exists>c. mz_zip_reader_filename_compare cdir offs i name (of_nat (length name)) = Some c
    \<and> (c = 0 \<longleftrightarrow> entry_key cdir offs i = lower name) \<and> (c < 0 \<longleftrightarrow> entry_key cdir offs i < lower name)"
proof -
  obtain nl where n: "entry_name cdir offs i = Some nl"
    using assms by (auto simp: valid_entries_def)
  obtain p m where p: "record_of offs i = Some p" "mz_read_le16 cdir (p + 28) = Some m"
    "p + 46 + unat m \<le> length cdir" "nl = slice cdir (p + 46) (unat m)" "length nl = unat m"
    using n by (rule entry_nameD)
  have len: "unat (of_nat (length name) :: u32) = length name"
    using assms(2) by (intro unat_of_nat32) simp
  have "first_difference cdir (p + 46) name 0 (min (unat m) (length name))
      = Some (list_diff (lower (slice cdir (p + 46) (unat m))) (lower (slice name 0 (length name))))"
    using p(3) by (intro first_difference_names) auto
  then have d: "first_difference cdir (p + 46) name 0 (unat (min m (of_nat (length name))))
      = Some (list_diff (lower nl) (lower name))"
    unfolding unat_min len p(4) by (simp add: slice_all)
  have u: "int (unat m) < 65536" "int (length name) < 2 ^ 31"
    using read_le16_bound [OF p(2)] assms(2) by (linarith, simp)
  have "(65536 :: int) < 2 ^ 31" by simp
  then have lo: "- (2 ^ 31) \<le> int (unat m) - int (length name)"
    and hi: "int (unat m) - int (length name) < 2 ^ 31"
    using u of_nat_0_le_iff [of "unat m"] of_nat_0_le_iff [of "length name"] by linarith+
  have "m - of_nat (length name) = word_of_int (int (unat m) - int (length name))" by simp
  then have s: "sint (m - of_nat (length name)) = int (unat m) - int (length name)"
    using lo hi by (simp only:) (rule sint_word_of_int32)
  define c where "c = (case list_diff (lower nl) (lower name) of
      None \<Rightarrow> int (length (lower nl)) - int (length (lower name)) | Some (l, r) \<Rightarrow> uint l - uint r)"
  have "mz_zip_reader_filename_compare cdir offs i name (of_nat (length name)) = Some c"
    using p(1,2) d s unfolding mz_zip_reader_filename_compare_def c_def length_lower p(5)
    by (simp split: option.split)
  then show ?thesis
    using list_diff_compare [OF c_def] n by (auto simp: entry_key_def)
qed

end
