(* ===== verification/Zip_Reader.thy ===== *)
theory Zip_Reader
  imports Zip_Sort
begin

text \<open>
  The zip archive reader (\<open>miniz/miniz.c\<close>) with which the kernel unpacks its boot files: opening an
  archive (\<open>mz_zip_reader_init\<close>, \<open>mz_zip_reader_init_mem\<close>, \<open>mz_zip_reader_end\<close>), reading and
  checking the central directory, and the queries about its files. The C library's file functions
  (\<open>mz_zip_reader_init_file\<close>) are left out; \<open>MINIZ_NO_TIME\<close> is defined, as in the makefile.

  An archive is the record \<open>mz_zip_archive\<close>; the functions stored in it are tags, or for \<open>m_pRead\<close>
  the function of the user. What the allocator answers is not determined by the program:
  \<open>m_answers\<close> lists whether the next requests succeed, and \<open>junk\<close> is what fresh memory holds.
\<close>

section \<open>Types\<close>

type_synonym u64 = "64 word"

record 'e mz_zip_array =
  m_p :: "'e list"
  m_size :: u32
  m_capacity :: u32
  m_element_size :: u32

record mz_zip_internal_state =
  m_central_dir :: "u8 mz_zip_array"
  m_central_dir_offsets :: "u32 mz_zip_array"
  m_sorted_central_dir_offsets :: "u32 mz_zip_array"
  m_pMem :: "bytes option"
  m_mem_size :: u32

datatype mz_zip_mode = MZ_ZIP_MODE_INVALID | MZ_ZIP_MODE_READING | MZ_ZIP_MODE_WRITING
  | MZ_ZIP_MODE_WRITING_HAS_BEEN_FINALIZED

datatype alloc_func = Def_Func | User_Func

text \<open>A user's read function returns the bytes it has stored, whose number is its result.\<close>

datatype file_read_func = Mz_Zip_Mem_Read_Func | User_Read_Func "u64 \<Rightarrow> u32 \<Rightarrow> bytes"

record mz_zip_archive =
  m_archive_size :: u64
  m_central_directory_file_ofs :: u64
  m_total_files :: u32
  m_zip_mode :: mz_zip_mode
  m_pAlloc :: "alloc_func option"
  m_pFree :: "alloc_func option"
  m_pRealloc :: "alloc_func option"
  m_pRead :: "file_read_func option"
  m_pState :: "mz_zip_internal_state option"
  m_answers :: "bool list"

definition empty_array :: "'e mz_zip_array" where
  "empty_array = \<lparr>m_p = [], m_size = 0, m_capacity = 0, m_element_size = 0\<rparr>"

text \<open>\<open>mz_zip_archive bootzip = {0}\<close>.\<close>

definition zero_archive :: "bool list \<Rightarrow> mz_zip_archive" where
  "zero_archive answers = \<lparr>m_archive_size = 0, m_central_directory_file_ofs = 0, m_total_files = 0,
     m_zip_mode = MZ_ZIP_MODE_INVALID, m_pAlloc = None, m_pFree = None, m_pRealloc = None,
     m_pRead = None, m_pState = None, m_answers = answers\<rparr>"

text \<open>Flags, signatures and sizes.\<close>

definition MZ_ZIP_FLAG_CASE_SENSITIVE :: u32 where "MZ_ZIP_FLAG_CASE_SENSITIVE = 0x0100"
definition MZ_ZIP_FLAG_IGNORE_PATH :: u32 where "MZ_ZIP_FLAG_IGNORE_PATH = 0x0200"
definition MZ_ZIP_FLAG_COMPRESSED_DATA :: u32 where "MZ_ZIP_FLAG_COMPRESSED_DATA = 0x0400"
definition MZ_ZIP_FLAG_DO_NOT_SORT_CENTRAL_DIRECTORY :: u32 where
  "MZ_ZIP_FLAG_DO_NOT_SORT_CENTRAL_DIRECTORY = 0x0800"
definition MZ_ZIP_END_OF_CENTRAL_DIR_HEADER_SIG :: u32 where
  "MZ_ZIP_END_OF_CENTRAL_DIR_HEADER_SIG = 0x06054b50"
definition MZ_ZIP_CENTRAL_DIR_HEADER_SIG :: u32 where "MZ_ZIP_CENTRAL_DIR_HEADER_SIG = 0x02014b50"

section \<open>Arrays\<close>

definition next_answer :: "bool list \<Rightarrow> bool \<times> bool list" where
  "next_answer answers = (case answers of [] \<Rightarrow> (False, []) | a # rest \<Rightarrow> (a, rest))"

definition realloc_cells :: "(nat \<Rightarrow> 'e) \<Rightarrow> 'e list \<Rightarrow> nat \<Rightarrow> 'e list" where
  "realloc_cells junk xs n = take n xs @ map junk [length xs..<n]"

partial_function (option) grow_capacity :: "u32 \<Rightarrow> u32 \<Rightarrow> u32 option" where
  "grow_capacity c n = (if c < n then grow_capacity (c * 2) n else Some c)"

definition mz_zip_array_ensure_capacity ::
  "(nat \<Rightarrow> 'e) \<Rightarrow> bool list \<Rightarrow> 'e mz_zip_array \<Rightarrow> u32 \<Rightarrow> bool
   \<Rightarrow> (bool \<times> bool list \<times> 'e mz_zip_array) option" where
  "mz_zip_array_ensure_capacity junk answers a min_new_capacity growing =
     (if m_element_size a = 0 then None
      else if min_new_capacity \<le> m_capacity a then Some (True, answers, a)
      else do {
        new_capacity \<leftarrow> (if growing then grow_capacity (max 1 (m_capacity a)) min_new_capacity
                         else Some min_new_capacity);
        let (ok, answers') = next_answer answers;
        let bytes = m_element_size a * new_capacity;
        if ok
        then Some (True, answers',
               a\<lparr>m_p := realloc_cells junk (m_p a) (unat bytes div unat (m_element_size a)),
                 m_capacity := new_capacity\<rparr>)
        else Some (False, answers', a)
      })"

definition mz_zip_array_resize ::
  "(nat \<Rightarrow> 'e) \<Rightarrow> bool list \<Rightarrow> 'e mz_zip_array \<Rightarrow> u32 \<Rightarrow> bool
   \<Rightarrow> (bool \<times> bool list \<times> 'e mz_zip_array) option" where
  "mz_zip_array_resize junk answers a new_size growing =
     (if m_capacity a < new_size
      then do {
        (ok, answers', a') \<leftarrow> mz_zip_array_ensure_capacity junk answers a new_size growing;
        Some (ok, answers', if ok then a'\<lparr>m_size := new_size\<rparr> else a')
      }
      else Some (True, answers, a\<lparr>m_size := new_size\<rparr>))"

section \<open>Set-up\<close>

definition mz_zip_reader_init_internal :: "mz_zip_archive \<Rightarrow> bool \<times> mz_zip_archive" where
  "mz_zip_reader_init_internal z =
     (if m_pState z \<noteq> None \<or> m_zip_mode z \<noteq> MZ_ZIP_MODE_INVALID then (False, z)
      else
        let z1 = z\<lparr>m_pAlloc := (if m_pAlloc z = None then Some Def_Func else m_pAlloc z),
                   m_pFree := (if m_pFree z = None then Some Def_Func else m_pFree z),
                   m_pRealloc := (if m_pRealloc z = None then Some Def_Func else m_pRealloc z),
                   m_zip_mode := MZ_ZIP_MODE_READING, m_archive_size := 0,
                   m_central_directory_file_ofs := 0, m_total_files := 0\<rparr>;
            (ok, answers') = next_answer (m_answers z1);
            z2 = z1\<lparr>m_answers := answers'\<rparr>
        in if \<not> ok then (False, z2)
           else (True, z2\<lparr>m_pState := Some \<lparr>m_central_dir = empty_array\<lparr>m_element_size := 1\<rparr>,
                   m_central_dir_offsets = empty_array\<lparr>m_element_size := 4\<rparr>,
                   m_sorted_central_dir_offsets = empty_array\<lparr>m_element_size := 4\<rparr>,
                   m_pMem = None, m_mem_size = 0\<rparr>\<rparr>))"

definition mz_zip_mem_read_func :: "mz_zip_archive \<Rightarrow> u64 \<Rightarrow> u32 \<Rightarrow> bytes option" where
  "mz_zip_mem_read_func z file_ofs n =
     do {
       st \<leftarrow> m_pState z;
       let s = (if m_archive_size z \<le> file_ofs then 0
                else ucast (min (m_archive_size z - file_ofs) (ucast n)) :: u32);
       if s = 0 then Some []
       else do {
         mem \<leftarrow> m_pMem st;
         if unat file_ofs + unat s \<le> length mem then Some (slice mem (unat file_ofs) (unat s)) else None
       }
     }"

text \<open>\<open>pZip->m_pRead(pZip->m_pIO_opaque, file_ofs, pBuf, n)\<close> with a buffer of \<open>n\<close> bytes.\<close>

definition call_pRead :: "mz_zip_archive \<Rightarrow> u64 \<Rightarrow> u32 \<Rightarrow> bytes option" where
  "call_pRead z file_ofs n =
     (case m_pRead z of
        None \<Rightarrow> None
      | Some Mz_Zip_Mem_Read_Func \<Rightarrow> mz_zip_mem_read_func z file_ofs n
      | Some (User_Read_Func f) \<Rightarrow>
          (let bs = f file_ofs n in if length bs \<le> unat n then Some bs else None))"

section \<open>The end of central directory record\<close>

text \<open>The inner loop, from the last position of the buffer towards the first.\<close>

fun signature_scan :: "bytes \<Rightarrow> nat \<Rightarrow> int option" where
  "signature_scan pBuf 0 = Some (- 1)"
| "signature_scan pBuf (Suc i) =
     do {
       w \<leftarrow> mz_read_le32 pBuf i;
       if w = MZ_ZIP_END_OF_CENTRAL_DIR_HEADER_SIG then Some (int i) else signature_scan pBuf i
     }"

text \<open>The outer loop; \<^term>\<open>Some None\<close> is \<open>return MZ_FALSE\<close>.\<close>

function find_end_record :: "mz_zip_archive \<Rightarrow> int \<Rightarrow> int option option" where
  "find_end_record z cur_file_ofs =
     (let left = m_archive_size z - word_of_int cur_file_ofs;
          n = (ucast (min 4096 left) :: u32)
      in case call_pRead z (word_of_int cur_file_ofs) n of
           None \<Rightarrow> None
         | Some pBuf \<Rightarrow>
             if length pBuf \<noteq> unat n then Some None
             else (case signature_scan pBuf (unat n - 3) of
                 None \<Rightarrow> None
               | Some i \<Rightarrow>
                   if 0 \<le> i then Some (Some (cur_file_ofs + i))
                   else if cur_file_ofs = 0 \<or> 0xFFFF + 22 \<le> left then Some None
                   else find_end_record z (max (cur_file_ofs - 4093) 0)))"
  by pat_completeness auto
termination by (relation "measure (\<lambda>(z, c). nat \<bar>c\<bar>)") auto

declare find_end_record.simps [simp del]

text \<open>The fields of the record that are used, and the checks on them: the result is the state with the
  number of files and the position of the directory, the disk number and the size of the directory.\<close>

definition check_end_record ::
  "mz_zip_archive \<Rightarrow> bytes \<Rightarrow> (mz_zip_archive \<times> (u32 \<times> u32) option) option" where
  "check_end_record z pBuf =
     do {
       sig \<leftarrow> mz_read_le32 pBuf 0;
       if sig \<noteq> MZ_ZIP_END_OF_CENTRAL_DIR_HEADER_SIG then Some (z, None)
       else do {
         total \<leftarrow> mz_read_le16 pBuf 10;
         on_disk \<leftarrow> mz_read_le16 pBuf 8;
         let z1 = z\<lparr>m_total_files := total\<rparr>;
         if total \<noteq> on_disk then Some (z1, None)
         else do {
           num_this_disk \<leftarrow> mz_read_le16 pBuf 4;
           cdir_disk_index \<leftarrow> mz_read_le16 pBuf 6;
           if num_this_disk OR cdir_disk_index \<noteq> 0 \<and> (num_this_disk \<noteq> 1 \<or> cdir_disk_index \<noteq> 1)
           then Some (z1, None)
           else do {
             cdir_size \<leftarrow> mz_read_le32 pBuf 12;
             if cdir_size < total * 46 then Some (z1, None)
             else do {
               cdir_ofs \<leftarrow> mz_read_le32 pBuf 16;
               if m_archive_size z < ucast cdir_ofs + ucast cdir_size then Some (z1, None)
               else Some (z1\<lparr>m_central_directory_file_ofs := ucast cdir_ofs\<rparr>, Some (num_this_disk, cdir_size))
             }
           }
         }
       }
     }"

section \<open>The records of the central directory\<close>

text \<open>The checks on the record at \<open>p\<close> with \<open>n\<close> bytes left; the result is its size, or \<^term>\<open>None\<close> for
  \<open>return MZ_FALSE\<close>. The test of the compression method reads 32 bits, as the code does.\<close>

definition check_sizes :: "u64 \<Rightarrow> u32 \<Rightarrow> bytes \<Rightarrow> u32 \<Rightarrow> nat \<Rightarrow> u32 option option" where
  "check_sizes archive_size num_this_disk cdir n p =
     do {
       comp_size \<leftarrow> mz_read_le32 cdir (p + 20);
       decomp_size \<leftarrow> mz_read_le32 cdir (p + 24);
       method \<leftarrow> mz_read_le32 cdir (p + 10);
       if method = 0 \<and> decomp_size \<noteq> comp_size \<or> decomp_size \<noteq> 0 \<and> comp_size = 0
          \<or> decomp_size = 0xFFFFFFFF \<or> comp_size = 0xFFFFFFFF
       then Some None
       else do {
         disk_index \<leftarrow> mz_read_le16 cdir (p + 34);
         if disk_index \<noteq> num_this_disk \<and> disk_index \<noteq> 1 then Some None
         else do {
           local_ofs \<leftarrow> mz_read_le32 cdir (p + 42);
           if archive_size < ucast local_ofs + 30 + ucast comp_size then Some None
           else do {
             name_len \<leftarrow> mz_read_le16 cdir (p + 28);
             extra_len \<leftarrow> mz_read_le16 cdir (p + 30);
             comment_len \<leftarrow> mz_read_le16 cdir (p + 32);
             let total_header_size = 46 + name_len + extra_len + comment_len;
             if n < total_header_size then Some None else Some (Some total_header_size)
           }
         }
       }
     }"

definition store :: "'e list \<Rightarrow> nat \<Rightarrow> 'e \<Rightarrow> 'e list option" where
  "store xs i x = (if i < length xs then Some (xs[i := x]) else None)"

function index_records ::
  "u64 \<Rightarrow> u32 \<Rightarrow> bool \<Rightarrow> bytes \<Rightarrow> nat \<Rightarrow> nat \<Rightarrow> u32 \<Rightarrow> nat \<Rightarrow> u32 list \<Rightarrow> u32 list
   \<Rightarrow> (bool \<times> u32 list \<times> u32 list) option" where
  "index_records archive_size num_this_disk sorting cdir total_files i n p offs idx =
     (if total_files \<le> i then Some (True, offs, idx)
      else if n < 46 then Some (False, offs, idx)
      else case mz_read_le32 cdir p of
        None \<Rightarrow> None
      | Some sig \<Rightarrow>
          if sig \<noteq> MZ_ZIP_CENTRAL_DIR_HEADER_SIG then Some (False, offs, idx)
          else (case (store offs i (of_nat p), if sorting then store idx i (of_nat i) else Some idx) of
              (Some offs', Some idx') \<Rightarrow>
                (case check_sizes archive_size num_this_disk cdir n p of
                   None \<Rightarrow> None
                 | Some None \<Rightarrow> Some (False, offs', idx')
                 | Some (Some total_header_size) \<Rightarrow>
                     index_records archive_size num_this_disk sorting cdir total_files (i + 1)
                       (n - total_header_size) (p + unat total_header_size) offs' idx')
            | _ \<Rightarrow> None))"
  by pat_completeness auto
termination
  by (relation "measure (\<lambda>(archive_size, num_this_disk, sorting, cdir, total_files, i, n, p, offs, idx).
        total_files - i)") auto

declare index_records.simps [simp del]

text \<open>The part of \<open>mz_zip_reader_read_central_dir\<close> for an archive that has files: the three arrays, the
  read of the directory, and the loop over its records.\<close>

definition load_central_dir ::
  "(nat \<Rightarrow> u32) \<Rightarrow> mz_zip_archive \<Rightarrow> bool \<Rightarrow> u32 \<Rightarrow> u32 \<Rightarrow> (bool \<times> mz_zip_archive) option" where
  "load_central_dir junk z sorting num_this_disk cdir_size =
     do {
       st \<leftarrow> m_pState z;
       let total = m_total_files z;
       (ok1, ans1, cd) \<leftarrow> mz_zip_array_resize (\<lambda>k. ucast (junk k)) (m_answers z) (m_central_dir st) cdir_size False;
       let st1 = st\<lparr>m_central_dir := cd\<rparr>;
       if \<not> ok1 then Some (False, z\<lparr>m_answers := ans1, m_pState := Some st1\<rparr>)
       else do {
         (ok2, ans2, offs) \<leftarrow> mz_zip_array_resize junk ans1 (m_central_dir_offsets st) total False;
         let st2 = st1\<lparr>m_central_dir_offsets := offs\<rparr>;
         if \<not> ok2 then Some (False, z\<lparr>m_answers := ans2, m_pState := Some st2\<rparr>)
         else do {
           (ok3, ans3, idx) \<leftarrow> (if sorting then mz_zip_array_resize junk ans2 (m_sorted_central_dir_offsets st) total False
                                 else Some (True, ans2, m_sorted_central_dir_offsets st));
           let st3 = st2\<lparr>m_sorted_central_dir_offsets := idx\<rparr>;
           let z3 = z\<lparr>m_answers := ans3, m_pState := Some st3\<rparr>;
           if \<not> ok3 then Some (False, z3)
           else do {
             bs \<leftarrow> call_pRead z3 (m_central_directory_file_ofs z) cdir_size;
             let cd' = cd\<lparr>m_p := splice (m_p cd) 0 bs\<rparr>;
             let st4 = st3\<lparr>m_central_dir := cd'\<rparr>;
             if length (m_p cd) < length bs then None
             else if length bs \<noteq> unat cdir_size then Some (False, z3\<lparr>m_pState := Some st4\<rparr>)
             else do {
               (ok, offs', idx') \<leftarrow> index_records (m_archive_size z) num_this_disk sorting (m_p cd')
                  (unat total) 0 cdir_size 0 (m_p offs) (m_p idx);
               Some (ok, z3\<lparr>m_pState := Some (st4\<lparr>m_central_dir_offsets := offs\<lparr>m_p := offs'\<rparr>,
                               m_sorted_central_dir_offsets := idx\<lparr>m_p := idx'\<rparr>\<rparr>)\<rparr>)
             }
           }
         }
       }
     }"

definition sort_central_dir :: "mz_zip_archive \<Rightarrow> mz_zip_archive option" where
  "sort_central_dir z =
     do {
       st \<leftarrow> m_pState z;
       let ix = m_sorted_central_dir_offsets st;
       ys \<leftarrow> mz_zip_reader_sort_central_dir_offsets_by_filename (m_p (m_central_dir st))
              (m_p (m_central_dir_offsets st)) (sint (m_total_files z)) (m_p ix);
       Some (z\<lparr>m_pState := Some (st\<lparr>m_sorted_central_dir_offsets := ix\<lparr>m_p := ys\<rparr>\<rparr>)\<rparr>)
     }"

definition index_central_dir ::
  "(nat \<Rightarrow> u32) \<Rightarrow> mz_zip_archive \<Rightarrow> bool \<Rightarrow> u32 \<Rightarrow> u32 \<Rightarrow> (bool \<times> mz_zip_archive) option" where
  "index_central_dir junk z sorting num_this_disk cdir_size =
     do {
       (ok, z2) \<leftarrow> (if m_total_files z \<noteq> 0 then load_central_dir junk z sorting num_this_disk cdir_size
                    else Some (True, z));
       if \<not> ok then Some (False, z2)
       else if sorting then do { z3 \<leftarrow> sort_central_dir z2; Some (True, z3) }
       else Some (True, z2)
     }"

definition mz_zip_reader_read_central_dir ::
  "(nat \<Rightarrow> u32) \<Rightarrow> mz_zip_archive \<Rightarrow> u32 \<Rightarrow> (bool \<times> mz_zip_archive) option" where
  "mz_zip_reader_read_central_dir junk z flags =
     (let sorting = (flags AND MZ_ZIP_FLAG_DO_NOT_SORT_CENTRAL_DIRECTORY = 0) in
      if m_archive_size z < 22 then Some (False, z)
      else if sint (m_archive_size z) - 4096 < - (2 ^ 63) then None
      else do {
        found \<leftarrow> find_end_record z (max (sint (m_archive_size z) - 4096) 0);
        case found of
          None \<Rightarrow> Some (False, z)
        | Some cur_file_ofs \<Rightarrow> do {
            pBuf \<leftarrow> call_pRead z (word_of_int cur_file_ofs) 22;
            if length pBuf \<noteq> 22 then Some (False, z)
            else do {
              (z1, r) \<leftarrow> check_end_record z pBuf;
              case r of
                None \<Rightarrow> Some (False, z1)
              | Some (num_this_disk, cdir_size) \<Rightarrow> index_central_dir junk z1 sorting num_this_disk cdir_size
            }
          }
      })"

definition mz_zip_reader_end :: "mz_zip_archive \<Rightarrow> bool \<times> mz_zip_archive" where
  "mz_zip_reader_end z =
     (if m_pState z = None \<or> m_pAlloc z = None \<or> m_pFree z = None \<or> m_zip_mode z \<noteq> MZ_ZIP_MODE_READING
      then (False, z)
      else (True, z\<lparr>m_pState := None, m_zip_mode := MZ_ZIP_MODE_INVALID\<rparr>))"

definition finish_init :: "(nat \<Rightarrow> u32) \<Rightarrow> mz_zip_archive \<Rightarrow> u32 \<Rightarrow> (bool \<times> mz_zip_archive) option" where
  "finish_init junk z flags =
     do {
       (ok, z') \<leftarrow> mz_zip_reader_read_central_dir junk z flags;
       if \<not> ok then Some (False, snd (mz_zip_reader_end z')) else Some (True, z')
     }"

definition mz_zip_reader_init ::
  "(nat \<Rightarrow> u32) \<Rightarrow> mz_zip_archive \<Rightarrow> u64 \<Rightarrow> u32 \<Rightarrow> (bool \<times> mz_zip_archive) option" where
  "mz_zip_reader_init junk z sz flags =
     (if m_pRead z = None then Some (False, z)
      else let (ok, z1) = mz_zip_reader_init_internal z
           in if \<not> ok then Some (False, z1)
              else finish_init junk (z1\<lparr>m_archive_size := sz\<rparr>) flags)"

definition mz_zip_reader_init_mem ::
  "(nat \<Rightarrow> u32) \<Rightarrow> mz_zip_archive \<Rightarrow> bytes \<Rightarrow> u32 \<Rightarrow> u32 \<Rightarrow> (bool \<times> mz_zip_archive) option" where
  "mz_zip_reader_init_mem junk z pMem sz flags =
     (let (ok, z1) = mz_zip_reader_init_internal z
      in if \<not> ok then Some (False, z1)
         else finish_init junk (z1\<lparr>m_archive_size := ucast sz, m_pRead := Some Mz_Zip_Mem_Read_Func,
                m_pState := map_option (\<lambda>st. st\<lparr>m_pMem := Some pMem, m_mem_size := sz\<rparr>) (m_pState z1)\<rparr>) flags)"

section \<open>Queries\<close>

definition mz_zip_reader_get_num_files :: "mz_zip_archive option \<Rightarrow> u32" where
  "mz_zip_reader_get_num_files pZip = (case pZip of None \<Rightarrow> 0 | Some z \<Rightarrow> m_total_files z)"

text \<open>The record of a file: its position in the directory, or \<^term>\<open>Some None\<close> for the null pointer.\<close>

definition mz_zip_reader_get_cdh :: "mz_zip_archive \<Rightarrow> u32 \<Rightarrow> (bytes \<times> nat) option option" where
  "mz_zip_reader_get_cdh z file_index =
     (case m_pState z of
        None \<Rightarrow> Some None
      | Some st \<Rightarrow>
          if m_total_files z \<le> file_index \<or> m_zip_mode z \<noteq> MZ_ZIP_MODE_READING then Some None
          else map_option (\<lambda>p. Some (m_p (m_central_dir st), p))
                 (record_of (m_p (m_central_dir_offsets st)) file_index))"

definition mz_zip_reader_is_file_encrypted :: "mz_zip_archive \<Rightarrow> u32 \<Rightarrow> bool option" where
  "mz_zip_reader_is_file_encrypted z file_index =
     do {
       h \<leftarrow> mz_zip_reader_get_cdh z file_index;
       case h of
         None \<Rightarrow> Some False
       | Some (cdir, p) \<Rightarrow> do {
           m_bit_flag \<leftarrow> mz_read_le16 cdir (p + 8);
           Some (m_bit_flag AND 1 \<noteq> 0)
         }
     }"

definition mz_zip_reader_is_file_a_directory :: "mz_zip_archive \<Rightarrow> u32 \<Rightarrow> bool option" where
  "mz_zip_reader_is_file_a_directory z file_index =
     do {
       h \<leftarrow> mz_zip_reader_get_cdh z file_index;
       case h of
         None \<Rightarrow> Some False
       | Some (cdir, p) \<Rightarrow> do {
           filename_len \<leftarrow> mz_read_le16 cdir (p + MZ_ZIP_CDH_FILENAME_LEN_OFS);
           slash \<leftarrow> (if filename_len \<noteq> 0
                     then map_option (\<lambda>c. c = 0x2f)
                            (elem_at cdir (int (p + MZ_ZIP_CENTRAL_DIR_HEADER_SIZE + unat filename_len - 1)))
                     else Some False);
           if slash then Some True
           else do {
             external_attr \<leftarrow> mz_read_le32 cdir (p + 38);
             Some (external_attr AND 0x10 \<noteq> 0)
           }
         }
     }"

record mz_zip_archive_file_stat =
  m_file_index :: u32
  m_central_dir_ofs :: u32
  m_version_made_by :: u16
  m_version_needed :: u16
  m_bit_flag :: u16
  m_method :: u16
  m_crc32 :: u32
  m_comp_size :: u64
  m_uncomp_size :: u64
  m_internal_attr :: u16
  m_external_attr :: u32
  m_local_header_ofs :: u64
  m_comment_size :: u32
  m_filename :: bytes
  m_comment :: bytes

text \<open>\<open>memcpy\<close> from the directory; \<open>m_filename\<close> has 260 characters and \<open>m_comment\<close> 256.\<close>

definition bytes_at :: "bytes \<Rightarrow> nat \<Rightarrow> nat \<Rightarrow> bytes option" where
  "bytes_at cdir p n = (if p + n \<le> length cdir then Some (slice cdir p n) else None)"

definition mz_zip_reader_file_stat ::
  "mz_zip_archive \<Rightarrow> u32 \<Rightarrow> mz_zip_archive_file_stat option
   \<Rightarrow> (bool \<times> mz_zip_archive_file_stat option) option" where
  "mz_zip_reader_file_stat z file_index pStat =
     do {
       h \<leftarrow> mz_zip_reader_get_cdh z file_index;
       case (h, pStat) of
         (Some (cdir, p), Some s) \<Rightarrow> do {
           made_by \<leftarrow> mz_read_le16 cdir (p + 4);
           needed \<leftarrow> mz_read_le16 cdir (p + 6);
           bit_flag \<leftarrow> mz_read_le16 cdir (p + 8);
           method \<leftarrow> mz_read_le16 cdir (p + 10);
           crc \<leftarrow> mz_read_le32 cdir (p + 16);
           comp_size \<leftarrow> mz_read_le32 cdir (p + 20);
           uncomp_size \<leftarrow> mz_read_le32 cdir (p + 24);
           internal_attr \<leftarrow> mz_read_le16 cdir (p + 36);
           external_attr \<leftarrow> mz_read_le32 cdir (p + 38);
           local_ofs \<leftarrow> mz_read_le32 cdir (p + 42);
           name_len \<leftarrow> mz_read_le16 cdir (p + MZ_ZIP_CDH_FILENAME_LEN_OFS);
           name \<leftarrow> bytes_at cdir (p + 46) (unat (min name_len 259));
           extra_len \<leftarrow> mz_read_le16 cdir (p + 30);
           comment_len \<leftarrow> mz_read_le16 cdir (p + 32);
           let n = min comment_len 255;
           comment \<leftarrow> bytes_at cdir (p + 46 + unat name_len + unat extra_len) (unat n);
           Some (True, Some (s\<lparr>m_file_index := file_index, m_central_dir_ofs := of_nat p,
             m_version_made_by := ucast made_by, m_version_needed := ucast needed,
             m_bit_flag := ucast bit_flag, m_method := ucast method, m_crc32 := crc,
             m_comp_size := ucast comp_size, m_uncomp_size := ucast uncomp_size,
             m_internal_attr := ucast internal_attr, m_external_attr := external_attr,
             m_local_header_ofs := ucast local_ofs, m_comment_size := n,
             m_filename := splice (m_filename s) 0 (name @ [0]),
             m_comment := splice (m_comment s) 0 (comment @ [0])\<rparr>))
         }
       | _ \<Rightarrow> Some (False, pStat)
     }"

definition mz_zip_reader_get_filename ::
  "mz_zip_archive \<Rightarrow> u32 \<Rightarrow> bytes \<Rightarrow> u32 \<Rightarrow> (u32 \<times> bytes) option" where
  "mz_zip_reader_get_filename z file_index pFilename filename_buf_size =
     do {
       h \<leftarrow> mz_zip_reader_get_cdh z file_index;
       case h of
         None \<Rightarrow> Some (0, if filename_buf_size \<noteq> 0 then pFilename[0 := 0] else pFilename)
       | Some (cdir, p) \<Rightarrow> do {
           n \<leftarrow> mz_read_le16 cdir (p + MZ_ZIP_CDH_FILENAME_LEN_OFS);
           if filename_buf_size \<noteq> 0
           then do {
             let m = min n (filename_buf_size - 1);
             name \<leftarrow> bytes_at cdir (p + 46) (unat m);
             Some (m + 1, splice pFilename 0 (name @ [0]))
           }
           else Some (n + 1, pFilename)
         }
     }"

section \<open>Finding a file by its name\<close>

definition mz_zip_reader_string_equal ::
  "bytes \<Rightarrow> nat \<Rightarrow> bytes \<Rightarrow> nat \<Rightarrow> nat \<Rightarrow> u32 \<Rightarrow> bool option" where
  "mz_zip_reader_string_equal xs pA ys pB len flags =
     (if flags AND MZ_ZIP_FLAG_CASE_SENSITIVE \<noteq> 0
      then (if pA + len \<le> length xs \<and> pB + len \<le> length ys
            then Some (slice xs pA len = slice ys pB len) else None)
      else map_option (\<lambda>d. d = None) (first_difference xs pA ys pB len))"

function binary_search ::
  "bytes \<Rightarrow> u32 list \<Rightarrow> u32 list \<Rightarrow> bytes \<Rightarrow> u32 \<Rightarrow> int \<Rightarrow> int \<Rightarrow> int option" where
  "binary_search cdir offs ix pFilename filename_len l h =
     (if h < l then Some (- 1)
      else
        (let m = (l + h) div 2 in
         case elem_at ix m of
           None \<Rightarrow> None
         | Some w \<Rightarrow>
             (let file_index = sint w in
              case mz_zip_reader_filename_compare cdir offs (word_of_int file_index) pFilename filename_len of
                None \<Rightarrow> None
              | Some sign \<Rightarrow>
                  if sign = 0 then Some file_index
                  else if sign < 0 then binary_search cdir offs ix pFilename filename_len (m + 1) h
                  else binary_search cdir offs ix pFilename filename_len l (m - 1))))"
  by pat_completeness auto
termination
  by (relation "measure (\<lambda>(cdir, offs, ix, name, len, l, h). nat (h + 1 - l))") auto

declare binary_search.simps [simp del]

definition mz_zip_reader_locate_file_binary_search :: "mz_zip_archive \<Rightarrow> bytes \<Rightarrow> int option" where
  "mz_zip_reader_locate_file_binary_search z pFilename =
     do {
       st \<leftarrow> m_pState z;
       binary_search (m_p (m_central_dir st)) (m_p (m_central_dir_offsets st))
         (m_p (m_sorted_central_dir_offsets st)) pFilename (of_nat (length pFilename))
         0 (sint (m_total_files z) - 1)
     }"

text \<open>The loop that skips the path: it goes back from the last of \<open>k\<close> characters to a separator; the
  result is the number of characters to skip.\<close>

fun path_length :: "bytes \<Rightarrow> nat \<Rightarrow> nat \<Rightarrow> nat option" where
  "path_length cdir pFilename 0 = Some 0"
| "path_length cdir pFilename (Suc k) =
     do {
       c \<leftarrow> elem_at cdir (int (pFilename + k));
       if c = 0x2f \<or> c = 0x5c \<or> c = 0x3a then Some (Suc k) else path_length cdir pFilename k
     }"

text \<open>The test that the loop makes of one record.\<close>

definition record_matches ::
  "bytes \<Rightarrow> nat \<Rightarrow> bytes \<Rightarrow> bytes \<Rightarrow> u32 \<Rightarrow> bool option" where
  "record_matches cdir pHeader pName pComment flags =
     do {
       filename_len \<leftarrow> mz_read_le16 cdir (pHeader + MZ_ZIP_CDH_FILENAME_LEN_OFS);
       let pFilename = pHeader + MZ_ZIP_CENTRAL_DIR_HEADER_SIZE;
       if unat filename_len < length pName then Some False
       else do {
         comment_ok \<leftarrow>
           (if length pComment \<noteq> 0
            then do {
              file_extra_len \<leftarrow> mz_read_le16 cdir (pHeader + 30);
              file_comment_len \<leftarrow> mz_read_le16 cdir (pHeader + 32);
              if unat file_comment_len \<noteq> length pComment then Some False
              else mz_zip_reader_string_equal pComment 0 cdir
                     (pFilename + unat filename_len + unat file_extra_len) (unat file_comment_len) flags
            }
            else Some True);
         if \<not> comment_ok then Some False
         else do {
           ofs \<leftarrow> (if flags AND MZ_ZIP_FLAG_IGNORE_PATH \<noteq> 0
                   then path_length cdir pFilename (unat filename_len) else Some 0);
           if unat filename_len - ofs = length pName
           then mz_zip_reader_string_equal pName 0 cdir (pFilename + ofs) (unat filename_len - ofs) flags
           else Some False
         }
       }
     }"

function linear_search ::
  "bytes \<Rightarrow> u32 list \<Rightarrow> bytes \<Rightarrow> bytes \<Rightarrow> u32 \<Rightarrow> nat \<Rightarrow> nat \<Rightarrow> int option" where
  "linear_search cdir offs pName pComment flags total_files file_index =
     (if total_files \<le> file_index then Some (- 1)
      else case elem_at offs (int file_index) of
        None \<Rightarrow> None
      | Some ofs \<Rightarrow>
          (case record_matches cdir (unat ofs) pName pComment flags of
             None \<Rightarrow> None
           | Some found \<Rightarrow>
               if found then Some (int file_index)
               else linear_search cdir offs pName pComment flags total_files (file_index + 1)))"
  by pat_completeness auto
termination
  by (relation "measure (\<lambda>(cdir, offs, name, comment, flags, total_files, i). total_files - i)") auto

declare linear_search.simps [simp del]

definition mz_zip_reader_locate_file ::
  "mz_zip_archive option \<Rightarrow> bytes option \<Rightarrow> bytes option \<Rightarrow> u32 \<Rightarrow> int option" where
  "mz_zip_reader_locate_file pZip pName pComment flags =
     (case (pZip, pName) of
        (Some z, Some name) \<Rightarrow>
          (case m_pState z of
             None \<Rightarrow> Some (- 1)
           | Some st \<Rightarrow>
               if m_zip_mode z \<noteq> MZ_ZIP_MODE_READING then Some (- 1)
               else if flags AND (MZ_ZIP_FLAG_IGNORE_PATH OR MZ_ZIP_FLAG_CASE_SENSITIVE) = 0 \<and> pComment = None
                  \<and> m_size (m_sorted_central_dir_offsets st) \<noteq> 0
               then mz_zip_reader_locate_file_binary_search z name
               else if 0xFFFF < length name then Some (- 1)
               else if 0xFFFF < length (case pComment of None \<Rightarrow> [] | Some c \<Rightarrow> c) then Some (- 1)
               else linear_search (m_p (m_central_dir st)) (m_p (m_central_dir_offsets st)) name
                      (case pComment of None \<Rightarrow> [] | Some c \<Rightarrow> c) flags (unat (m_total_files z)) 0)
      | _ \<Rightarrow> Some (- 1))"

end
