(* ===== verification/Zip_Open.thy ===== *)
theory Zip_Open
  imports Zip_Reader
begin

text \<open>
  What an opened zip archive is good for: whatever bytes an archive in memory consists of, opening it
  returns, and if it succeeds the central directory satisfies the invariant \<open>opened\<close> under which no
  query reads outside it; the search by name finds a file if and only if there is one; and an archive
  laid out as the format prescribes is opened with exactly its entries.
\<close>

section \<open>Binary search\<close>

lemma binary_search_finds:
  assumes "set ix \<subseteq> valid_entries cdir offs" and "\<forall>w \<in> set ix. unat w < 65536"
    and "sorted (map (entry_key cdir offs) ix)" and "length name < 2 ^ 31"
    and "0 \<le> l" and "h < int (length ix)"
    and "\<And>k. k < length ix \<Longrightarrow> entry_key cdir offs (ix ! k) = lower name \<Longrightarrow> l \<le> int k \<and> int k \<le> h"
  shows "\<exists>r. binary_search cdir offs ix name (of_nat (length name)) l h = Some r
    \<and> (r = - 1 \<and> (\<forall>w \<in> set ix. entry_key cdir offs w \<noteq> lower name)
       \<or> (\<exists>w \<in> set ix. r = int (unat w) \<and> entry_key cdir offs w = lower name))"
  using assms(5-7)
proof (induction "nat (h + 1 - l)" arbitrary: l h rule: less_induct)
  case less
  let ?key = "entry_key cdir offs"
  show ?case
  proof (cases "h < l")
    case True
    then have "\<forall>w \<in> set ix. ?key w \<noteq> lower name"
      using less.prems(3) by (metis in_set_conv_nth le_less_trans not_less)
    then show ?thesis using True by (subst binary_search.simps) auto
  next
    case False
    define m where "m = (l + h) div 2"
    have m: "l \<le> m" "m \<le> h" using False by (auto simp: m_def)
    define k where "k = nat m"
    have k: "m = int k" "k < length ix" using m less.prems by (auto simp: k_def)
    define w where "w = ix ! k"
    have w: "w \<in> set ix" using k by (simp add: w_def)
    then have wn: "sint w = int (unat w)" using assms(2) by (intro sint_small) auto
    obtain c where c: "mz_zip_reader_filename_compare cdir offs w name (of_nat (length name)) = Some c"
      "c = 0 \<longleftrightarrow> ?key w = lower name" "c < 0 \<longleftrightarrow> ?key w < lower name"
      using filename_compare_key [of w cdir offs name] w assms(1,4) by blast
    have at: "elem_at ix m = Some w" using k by (simp add: w_def)
    have step: "binary_search cdir offs ix name (of_nat (length name)) l h
        = (if c = 0 then Some (int (unat w))
           else if c < 0 then binary_search cdir offs ix name (of_nat (length name)) (m + 1) h
           else binary_search cdir offs ix name (of_nat (length name)) l (m - 1))"
      using False at wn c(1) by (subst binary_search.simps) (simp add: m_def Let_def)
    have mono: "i \<le> j \<Longrightarrow> j < length ix \<Longrightarrow> ?key (ix ! i) \<le> ?key (ix ! j)" for i j
      using assms(3) sorted_nth_mono [of "map ?key ix" i j] by simp
    consider "c = 0" | "c < 0" | "0 < c" by linarith
    then show ?thesis
    proof cases
      case 1
      then show ?thesis using step c w by auto
    next
      case 2
      then have less: "?key (ix ! k) < lower name" using c w_def by simp
      have "m + 1 \<le> int j \<and> int j \<le> h" if "j < length ix" "?key (ix ! j) = lower name" for j
        using less.prems(3) [OF that] mono [of j k] that less k by (cases "j \<le> k") auto
      then have "\<exists>r. binary_search cdir offs ix name (of_nat (length name)) (m + 1) h = Some r
          \<and> (r = - 1 \<and> (\<forall>w \<in> set ix. ?key w \<noteq> lower name)
             \<or> (\<exists>w \<in> set ix. r = int (unat w) \<and> ?key w = lower name))"
        using less.prems m by (intro less.hyps) auto
      then show ?thesis using step 2 by auto
    next
      case 3
      then have less: "lower name < ?key (ix ! k)" using c w_def by (metis less_le_not_le linorder_less_linear)
      have "l \<le> int j \<and> int j \<le> m - 1" if "j < length ix" "?key (ix ! j) = lower name" for j
        using less.prems(3) [OF that] mono [of k j] that less k by (cases "k \<le> j") auto
      then have "\<exists>r. binary_search cdir offs ix name (of_nat (length name)) l (m - 1) = Some r
          \<and> (r = - 1 \<and> (\<forall>w \<in> set ix. ?key w \<noteq> lower name)
             \<or> (\<exists>w \<in> set ix. r = int (unat w) \<and> ?key w = lower name))"
        using less.prems m by (intro less.hyps) auto
      then show ?thesis using step 3 by auto
    qed
  qed
qed

section \<open>The invariant of an opened archive\<close>

definition record_inside :: "bytes \<Rightarrow> nat \<Rightarrow> bool" where
  "record_inside cdir p =
     (case (mz_read_le16 cdir (p + 28), mz_read_le16 cdir (p + 30), mz_read_le16 cdir (p + 32)) of
        (Some a, Some b, Some c) \<Rightarrow> p + 46 + unat a + unat b + unat c \<le> length cdir
      | _ \<Rightarrow> False)"

definition directory_ok :: "bytes \<Rightarrow> u32 list \<Rightarrow> nat \<Rightarrow> bool" where
  "directory_ok cdir offs n \<longleftrightarrow> n \<le> length offs \<and> (\<forall>i < n. record_inside cdir (unat (offs ! i)))"

definition index_ok :: "bytes \<Rightarrow> u32 list \<Rightarrow> u32 list \<Rightarrow> nat \<Rightarrow> bool" where
  "index_ok cdir offs ix n \<longleftrightarrow>
     sorted (map (entry_key cdir offs) ix) \<and> mset ix = mset (map of_nat [0..<n])"

definition opened :: "mz_zip_archive \<Rightarrow> bool" where
  "opened z \<longleftrightarrow> m_zip_mode z = MZ_ZIP_MODE_READING \<and> unat (m_total_files z) < 65536
     \<and> (\<exists>st. m_pState z = Some st
          \<and> directory_ok (m_p (m_central_dir st)) (m_p (m_central_dir_offsets st)) (unat (m_total_files z))
          \<and> (m_size (m_sorted_central_dir_offsets st) \<noteq> 0 \<longrightarrow>
               index_ok (m_p (m_central_dir st)) (m_p (m_central_dir_offsets st))
                 (m_p (m_sorted_central_dir_offsets st)) (unat (m_total_files z))))"

lemma read_le16_inside: "p + 2 \<le> length buf \<Longrightarrow> \<exists>w. mz_read_le16 buf p = Some w"
  by (simp add: mz_read_le16_def)

lemma read_le32_inside: "p + 4 \<le> length buf \<Longrightarrow> \<exists>w. mz_read_le32 buf p = Some w"
  by (simp add: mz_read_le32_def)

lemma read_le16_length: "mz_read_le16 buf p = Some w \<Longrightarrow> p + 2 \<le> length buf"
  by (simp add: mz_read_le16_def split: if_splits)

lemma record_insideE:
  assumes "record_inside cdir p"
  obtains a b c where "mz_read_le16 cdir (p + 28) = Some a" "mz_read_le16 cdir (p + 30) = Some b"
    "mz_read_le16 cdir (p + 32) = Some c" "p + 46 + unat a + unat b + unat c \<le> length cdir"
  using assms by (auto simp: record_inside_def split: option.splits)

lemma elem_at_word: "unat (i :: u32) < length xs \<Longrightarrow> elem_at xs (uint i) = Some (xs ! unat i)"
  by (simp add: elem_at_def)

lemma directory_valid:
  assumes "directory_ok cdir offs n" and "unat i < n"
  shows "i \<in> valid_entries cdir offs"
proof -
  have "record_of offs i = Some (unat (offs ! unat i))"
    using assms by (simp add: record_of_def directory_ok_def elem_at_word)
  moreover have "record_inside cdir (unat (offs ! unat i))"
    using assms by (simp add: directory_ok_def)
  then obtain a where "mz_read_le16 cdir (unat (offs ! unat i) + 28) = Some a"
    "unat (offs ! unat i) + 46 + unat a \<le> length cdir"
    by (elim record_insideE) simp
  ultimately show ?thesis by (simp add: valid_entries_def entry_name_def)
qed

lemma index_elements:
  assumes "index_ok cdir offs ix n" and "n \<le> 65536"
  shows "w \<in> set ix \<longleftrightarrow> unat w < n"
proof -
  have "set ix = of_nat ` {0..<n}"
    using assms(1) by (metis index_ok_def list.set_map mset_eq_setD set_upt)
  moreover have "unat (of_nat k :: u32) = k" if "k < n" for k
    using that assms(2) by (intro unat_of_nat32) simp
  ultimately show ?thesis by (auto intro!: image_eqI [of w of_nat "unat w"])
qed

lemma index_length: "index_ok cdir offs ix n \<Longrightarrow> length ix = n"
  unfolding index_ok_def using mset_eq_length by fastforce

section \<open>Reading the records\<close>

lemma header_size:
  assumes "unat a < 65536" and "unat b < 65536" and "unat c < 65536"
  shows "unat (46 + a + b + c :: u32) = 46 + unat a + unat b + unat c"
  using assms by (simp add: unat_word_ariths)

lemma first_failure:
  fixes n x :: u32
  shows "(if A then None else if B then None else if C then None else if n < x then None else Some x) = None
    \<or> (if A then None else if B then None else if C then None else if n < x then None else Some x) = Some x
      \<and> x \<le> n"
  by (simp add: not_less)

lemma check_sizes_inside:
  assumes "p + 46 \<le> length cdir"
  shows "\<exists>r. check_sizes archive_size d cdir n p = Some r
    \<and> (\<forall>t. r = Some t \<longrightarrow> t \<le> n \<and> (p + unat n \<le> length cdir \<longrightarrow> record_inside cdir p) \<and> 46 \<le> unat t)"
proof -
  obtain comp decomp meth lofs where r32: "mz_read_le32 cdir (p + 20) = Some comp"
    "mz_read_le32 cdir (p + 24) = Some decomp" "mz_read_le32 cdir (p + 10) = Some meth"
    "mz_read_le32 cdir (p + 42) = Some lofs"
    using assms read_le32_inside [of "p + 20" cdir] read_le32_inside [of "p + 24" cdir]
      read_le32_inside [of "p + 10" cdir] read_le32_inside [of "p + 42" cdir] by auto
  obtain disk a b c where r16: "mz_read_le16 cdir (p + 34) = Some disk"
    "mz_read_le16 cdir (p + 28) = Some a" "mz_read_le16 cdir (p + 30) = Some b"
    "mz_read_le16 cdir (p + 32) = Some c"
    using assms read_le16_inside [of "p + 34" cdir] read_le16_inside [of "p + 28" cdir]
      read_le16_inside [of "p + 30" cdir] read_le16_inside [of "p + 32" cdir] by auto
  have t: "unat (46 + a + b + c) = 46 + unat a + unat b + unat c"
    using r16 by (intro header_size read_le16_bound)
  have "check_sizes archive_size d cdir n p = Some
      (if meth = 0 \<and> decomp \<noteq> comp \<or> decomp \<noteq> 0 \<and> comp = 0 \<or> decomp = 0xFFFFFFFF \<or> comp = 0xFFFFFFFF
       then None
       else if disk \<noteq> d \<and> disk \<noteq> 1 then None
       else if archive_size < ucast lofs + 30 + ucast comp then None
       else if n < 46 + a + b + c then None else Some (46 + a + b + c))"
    using r32 r16 by (simp add: check_sizes_def Let_def)
  then obtain r where r: "check_sizes archive_size d cdir n p = Some r"
    "r = None \<or> r = Some (46 + a + b + c) \<and> 46 + a + b + c \<le> n"
    using first_failure by blast
  moreover have "record_inside cdir p" if "46 + a + b + c \<le> n" "p + unat n \<le> length cdir"
    using that r16 t by (simp add: record_inside_def word_le_nat_alt)
  ultimately show ?thesis using t by auto
qed

lemma index_records_inside:
  assumes "p + unat n = length cdir" and "length cdir < 2 ^ 32" and "i \<le> files" and "files \<le> length offs"
    and "sorting \<Longrightarrow> files \<le> length idx" and "\<And>j. j < i \<Longrightarrow> record_inside cdir (unat (offs ! j))"
    and "\<And>j. sorting \<Longrightarrow> j < i \<Longrightarrow> idx ! j = of_nat j"
  shows "\<exists>ok offs' idx'. index_records asz d sorting cdir files i n p offs idx = Some (ok, offs', idx')
    \<and> length offs' = length offs \<and> length idx' = length idx
    \<and> (ok \<longrightarrow> directory_ok cdir offs' files \<and> (sorting \<longrightarrow> (\<forall>j < files. idx' ! j = of_nat j)))"
  using assms
proof (induction "files - i" arbitrary: i n p offs idx)
  case 0
  then show ?case by (subst index_records.simps) (auto simp: directory_ok_def)
next
  case (Suc k)
  have fi: "\<not> files \<le> i" using Suc.hyps(2) by simp
  show ?case
  proof (cases "n < 46")
    case True
    then have "index_records asz d sorting cdir files i n p offs idx = Some (False, offs, idx)"
      using fi by (subst index_records.simps) simp
    then show ?thesis by auto
  next
    case False
    then have p46: "p + 46 \<le> length cdir" using Suc.prems(1) by (simp add: word_less_nat_alt)
    then obtain sig where sig: "mz_read_le32 cdir p = Some sig" using read_le32_inside [of p cdir] by auto
    obtain r where r: "check_sizes asz d cdir n p = Some r"
      "\<And>t. r = Some t \<Longrightarrow> t \<le> n \<and> record_inside cdir p \<and> 46 \<le> unat t"
      using check_sizes_inside [OF p46, of asz d n] Suc.prems(1) by auto
    define offs1 where "offs1 = offs[i := of_nat p]"
    define idx1 where "idx1 = (if sorting then idx[i := of_nat i] else idx)"
    have st: "store offs i (of_nat p) = Some offs1"
      "(if sorting then store idx i (of_nat i) else Some idx) = Some idx1"
      using Suc.hyps(2) Suc.prems(4,5) by (auto simp: store_def offs1_def idx1_def)
    have step: "index_records asz d sorting cdir files i n p offs idx
       = (if sig \<noteq> MZ_ZIP_CENTRAL_DIR_HEADER_SIG then Some (False, offs, idx)
          else case r of None \<Rightarrow> Some (False, offs1, idx1)
            | Some t \<Rightarrow> index_records asz d sorting cdir files (i + 1) (n - t) (p + unat t) offs1 idx1)"
      using fi False sig r(1) st by (subst index_records.simps) (simp split: option.split)
    show ?thesis
    proof (cases "sig \<noteq> MZ_ZIP_CENTRAL_DIR_HEADER_SIG \<or> r = None")
      case True
      then show ?thesis using step by (auto simp: offs1_def idx1_def)
    next
      case False
      then obtain t where t: "r = Some t" by auto
      have p32: "unat (of_nat p :: u32) = p" using p46 Suc.prems(2) by (intro unat_of_nat32) simp
      have "\<exists>ok offs' idx'. index_records asz d sorting cdir files (i + 1) (n - t) (p + unat t) offs1 idx1
            = Some (ok, offs', idx') \<and> length offs' = length offs1 \<and> length idx' = length idx1
          \<and> (ok \<longrightarrow> directory_ok cdir offs' files \<and> (sorting \<longrightarrow> (\<forall>j < files. idx' ! j = of_nat j)))"
        using Suc.hyps(2) Suc.prems r(2) [OF t] p32
        by (intro Suc.hyps(1)) (auto simp: offs1_def idx1_def nth_list_update unat_sub word_le_nat_alt less_Suc_eq)
      then show ?thesis using step t False by (auto simp: offs1_def idx1_def)
    qed
  qed
qed

section \<open>Opening an archive in memory\<close>

text \<open>The state while an archive in memory is being opened: every read delivers the bytes that are
  there.\<close>

definition reads_as :: "mz_zip_archive \<Rightarrow> bytes \<Rightarrow> bool" where
  "reads_as z mem \<longleftrightarrow> m_pRead z = Some Mz_Zip_Mem_Read_Func \<and> m_archive_size z = of_nat (length mem)
     \<and> (\<exists>st. m_pState z = Some st \<and> m_pMem st = Some mem)"

lemma unat_of_nat64: "n < 2 ^ 64 \<Longrightarrow> unat (of_nat n :: u64) = n"
  by (simp add: unat_of_nat)

lemma sint_word_of_int64: "- (2 ^ 63) \<le> x \<Longrightarrow> x < 2 ^ 63 \<Longrightarrow> sint (word_of_int x :: u64) = x"
  by (simp add: int_word_sint)

lemma unat_ucast64: "unat (ucast (w :: u32) :: u64) = unat w"
proof -
  have "unat w < 2 ^ 64" by (rule order_less_le_trans [OF unsigned_less]) simp
  then show ?thesis by (simp add: unsigned_ucast_eq take_bit_nat_eq_self)
qed

lemma read_mem:
  assumes "reads_as z mem" and "length mem < 2 ^ 32"
  shows "call_pRead z ofs n = Some (take (unat n) (drop (unat ofs) mem))"
proof -
  obtain st where st: "m_pState z = Some st" "m_pMem st = Some mem" and rd: "m_pRead z = Some Mz_Zip_Mem_Read_Func"
    and sz: "m_archive_size z = of_nat (length mem)"
    using assms(1) by (auto simp: reads_as_def)
  have len: "unat (of_nat (length mem) :: u64) = length mem"
    using assms(2) by (intro unat_of_nat64) simp
  show ?thesis
  proof (cases "m_archive_size z \<le> ofs")
    case True
    then have "length mem \<le> unat ofs" by (simp add: sz word_le_nat_alt len)
    then show ?thesis
      using True st rd by (simp add: call_pRead_def mz_zip_mem_read_func_def)
  next
    case False
    then have o: "unat ofs < length mem" by (simp add: sz word_le_nat_alt len)
    define m where "m = min (length mem - unat ofs) (unat n)"
    have d: "unat (m_archive_size z - ofs) = length mem - unat ofs"
      using o by (simp add: sz unat_sub word_le_nat_alt len)
    have m: "unat (min (m_archive_size z - ofs) (ucast n)) = m"
      unfolding m_def by (simp add: min_def word_le_nat_alt d unat_ucast64)
    have "m < 2 ^ 32" using assms(2) by (simp add: m_def)
    then have s: "unat (ucast (min (m_archive_size z - ofs) (ucast n)) :: u32) = m"
      using m by (simp add: unsigned_ucast_eq take_bit_nat_eq_self)
    have "take (unat n) (drop (unat ofs) mem) = slice mem (unat ofs) m"
      unfolding slice_def m_def by (simp add: min_def)
    moreover have "unat ofs + m \<le> length mem" using o by (simp add: m_def)
    ultimately show ?thesis
      using False st rd s
      by (cases "m = 0") (auto simp: call_pRead_def mz_zip_mem_read_func_def Let_def unat_eq_zero slice_def)
  qed
qed

lemma signature_scan_returns:
  "k + 3 \<le> length buf \<or> k = 0 \<Longrightarrow>
   \<exists>i. signature_scan buf k = Some i \<and> - 1 \<le> i \<and> i < int k"
proof (induction k)
  case (Suc k)
  then obtain w where "mz_read_le32 buf k = Some w" using read_le32_inside [of k buf] by auto
  then show ?case using Suc by (auto intro: exI [of _ "int k"])
qed simp

lemma find_end_record_returns:
  assumes "reads_as z mem" and "length mem < 2 ^ 32"
  shows "\<exists>r. find_end_record z cur = Some r"
proof (induction "nat \<bar>cur\<bar>" arbitrary: cur rule: less_induct)
  case less
  define n where "n = (ucast (min 4096 (m_archive_size z - word_of_int cur)) :: u32)"
  define pBuf where "pBuf = take (unat n) (drop (unat (word_of_int cur :: u64)) mem)"
  have rd: "call_pRead z (word_of_int cur) n = Some pBuf"
    unfolding pBuf_def using assms by (rule read_mem)
  show ?case
  proof (cases "length pBuf = unat n")
    case True
    then have "\<exists>i. signature_scan pBuf (unat n - 3) = Some i \<and> - 1 \<le> i \<and> i < int (unat n - 3)"
      by (intro signature_scan_returns) auto
    then obtain i where i: "signature_scan pBuf (unat n - 3) = Some i" by blast
    have "cur \<noteq> 0 \<Longrightarrow> \<exists>r. find_end_record z (max (cur - 4093) 0) = Some r"
      by (intro less) auto
    then show ?thesis
      using rd True i by (subst find_end_record.simps) (auto simp: Let_def simp flip: n_def)
  next
    case False
    then show ?thesis
      using rd by (subst find_end_record.simps) (simp add: Let_def flip: n_def)
  qed
qed

lemma check_end_record_returns:
  assumes "length pBuf = 22"
  shows "\<exists>z1 r. check_end_record z pBuf = Some (z1, r)
    \<and> m_pRead z1 = m_pRead z \<and> m_archive_size z1 = m_archive_size z \<and> m_pState z1 = m_pState z
    \<and> m_zip_mode z1 = m_zip_mode z \<and> m_answers z1 = m_answers z
    \<and> (r \<noteq> None \<longrightarrow> unat (m_total_files z1) < 65536)"
proof -
  obtain sig cs co where r32: "mz_read_le32 pBuf 0 = Some sig" "mz_read_le32 pBuf 12 = Some cs"
    "mz_read_le32 pBuf 16 = Some co"
    using assms read_le32_inside [of 0 pBuf] read_le32_inside [of 12 pBuf] read_le32_inside [of 16 pBuf]
    by auto
  obtain t dt n c where r16: "mz_read_le16 pBuf 10 = Some t" "mz_read_le16 pBuf 8 = Some dt"
    "mz_read_le16 pBuf 4 = Some n" "mz_read_le16 pBuf 6 = Some c"
    using assms read_le16_inside [of 10 pBuf] read_le16_inside [of 8 pBuf] read_le16_inside [of 4 pBuf]
      read_le16_inside [of 6 pBuf] by auto
  show ?thesis
    using r32 r16 read_le16_bound [OF r16(1)]
    by (auto simp: check_end_record_def Let_def)
qed

definition fresh_array :: "u32 \<Rightarrow> 'e mz_zip_array \<Rightarrow> bool" where
  "fresh_array e a \<longleftrightarrow> a = empty_array\<lparr>m_element_size := e\<rparr>"

definition fresh_state :: "mz_zip_internal_state \<Rightarrow> bool" where
  "fresh_state st \<longleftrightarrow> fresh_array 1 (m_central_dir st) \<and> fresh_array 4 (m_central_dir_offsets st)
     \<and> fresh_array 4 (m_sorted_central_dir_offsets st)"

lemma resize_fresh:
  assumes "fresh_array e a" and "unat e * unat k < 2 ^ 32" and "0 < e"
  shows "\<exists>a'. mz_zip_array_resize junk answers a k False
      = Some (k = 0 \<or> fst (next_answer answers), if k = 0 then answers else snd (next_answer answers), a')
    \<and> (k = 0 \<or> fst (next_answer answers) \<longrightarrow> length (m_p a') = unat k \<and> m_size a' = k)"
proof -
  have e: "e \<noteq> 0" "0 < unat e" using assms(3) by (auto simp: unat_gt_0)
  have b: "unat (e * k) = unat e * unat k" using assms(2) by (simp add: unat_word_ariths)
  have k: "0 < k \<longleftrightarrow> k \<noteq> 0" by (simp add: word_gt_0)
  show ?thesis
    using assms(1) e by (cases "next_answer answers")
      (auto simp: mz_zip_array_resize_def mz_zip_array_ensure_capacity_def fresh_array_def empty_array_def
        realloc_cells_def k b Let_def)
qed

lemma load_central_dir_opens:
  assumes rd: "reads_as z mem" and len: "length mem < 2 ^ 32" and st: "m_pState z = Some st"
    and fresh: "fresh_state st" and files: "unat (m_total_files z) < 65536"
  shows "\<exists>ok z'. load_central_dir junk z sorting d cdir_size = Some (ok, z')
    \<and> m_zip_mode z' = m_zip_mode z \<and> m_total_files z' = m_total_files z
    \<and> (ok \<longrightarrow> (\<exists>st'. m_pState z' = Some st'
         \<and> directory_ok (m_p (m_central_dir st')) (m_p (m_central_dir_offsets st')) (unat (m_total_files z))
         \<and> (if sorting then m_p (m_sorted_central_dir_offsets st') = map of_nat [0..<unat (m_total_files z)]
            else m_size (m_sorted_central_dir_offsets st') = 0)))"
proof -
  let ?n = "unat (m_total_files z)"
  have fa: "fresh_array 1 (m_central_dir st)" "fresh_array 4 (m_central_dir_offsets st)"
    "fresh_array 4 (m_sorted_central_dir_offsets st)"
    using fresh by (simp_all add: fresh_state_def)
  have "unat cdir_size < 2 ^ 32" by (rule order_less_le_trans [OF unsigned_less]) simp
  then obtain ok1 ans1 cd where cd: "mz_zip_array_resize (\<lambda>k. ucast (junk k)) (m_answers z) (m_central_dir st) cdir_size False
      = Some (ok1, ans1, cd)" "ok1 \<Longrightarrow> length (m_p cd) = unat cdir_size"
    using resize_fresh [OF fa(1), of cdir_size "\<lambda>k. ucast (junk k)" "m_answers z"] by auto
  obtain ok2 ans2 offs where offs: "mz_zip_array_resize junk ans1 (m_central_dir_offsets st) (m_total_files z) False
      = Some (ok2, ans2, offs)" "ok2 \<Longrightarrow> length (m_p offs) = ?n"
    using resize_fresh [OF fa(2), of "m_total_files z" junk ans1] files by auto
  obtain ok3 ans3 idx where idx: "(if sorting then mz_zip_array_resize junk ans2 (m_sorted_central_dir_offsets st)
        (m_total_files z) False else Some (True, ans2, m_sorted_central_dir_offsets st)) = Some (ok3, ans3, idx)"
      "ok3 \<Longrightarrow> sorting \<Longrightarrow> length (m_p idx) = ?n" "\<not> sorting \<Longrightarrow> m_size idx = 0"
    using resize_fresh [OF fa(3), of "m_total_files z" junk ans2] files fa(3)
    by (cases sorting) (auto simp: fresh_array_def empty_array_def)
  define st3 where "st3 = st\<lparr>m_central_dir := cd, m_central_dir_offsets := offs,
      m_sorted_central_dir_offsets := idx\<rparr>"
  define z3 where "z3 = z\<lparr>m_answers := ans3, m_pState := Some st3\<rparr>"
  have "reads_as z3 mem" using rd st by (auto simp: reads_as_def z3_def st3_def)
  define bs where "bs = take (unat cdir_size) (drop (unat (m_central_directory_file_ofs z)) mem)"
  have read: "call_pRead z3 (m_central_directory_file_ofs z) cdir_size = Some bs"
    unfolding bs_def using \<open>reads_as z3 mem\<close> len by (rule read_mem)
  show ?thesis
  proof (cases "ok1 \<and> ok2 \<and> ok3")
    case False
    then show ?thesis
      using st cd(1) offs(1) idx(1) by (auto simp: load_central_dir_def Let_def)
  next
    case ok: True
    then have lcd: "length (m_p cd) = unat cdir_size" and loffs: "length (m_p offs) = ?n" using cd offs by auto
    show ?thesis
    proof (cases "length bs = unat cdir_size")
      case False
      moreover have "length bs \<le> unat cdir_size" by (simp add: bs_def)
      ultimately show ?thesis
        using st cd(1) offs(1) idx(1) ok read lcd
        by (simp add: load_central_dir_def Let_def flip: st3_def z3_def) (auto simp: z3_def)
    next
      case True
      then have sp: "splice (m_p cd) 0 bs = bs" using lcd by (simp add: splice_def)
      have "\<exists>ok offs' idx'. index_records (m_archive_size z) d sorting bs ?n 0 cdir_size 0 (m_p offs) (m_p idx)
          = Some (ok, offs', idx') \<and> length offs' = length (m_p offs) \<and> length idx' = length (m_p idx)
        \<and> (ok \<longrightarrow> directory_ok bs offs' ?n \<and> (sorting \<longrightarrow> (\<forall>j < ?n. idx' ! j = of_nat j)))"
        using True loffs idx ok len by (intro index_records_inside) (auto simp: bs_def)
      then obtain okr offs' idx' where r: "index_records (m_archive_size z) d sorting bs ?n 0 cdir_size 0
          (m_p offs) (m_p idx) = Some (okr, offs', idx')" "length idx' = length (m_p idx)"
        "okr \<Longrightarrow> directory_ok bs offs' ?n" "okr \<Longrightarrow> sorting \<Longrightarrow> \<forall>j < ?n. idx' ! j = of_nat j" by blast
      have "okr \<Longrightarrow> sorting \<Longrightarrow> idx' = map of_nat [0..<?n]"
        using r(2,4) idx(2) ok by (intro nth_equalityI) auto
      then show ?thesis
        using st cd(1) offs(1) idx(1,3) ok read lcd True sp r
        by (auto simp: load_central_dir_def Let_def simp flip: st3_def z3_def) (auto simp: z3_def st3_def)
    qed
  qed
qed

lemma sort_central_dir_opens:
  assumes "m_pState z = Some st" and "m_zip_mode z = MZ_ZIP_MODE_READING"
    and "unat (m_total_files z) < 65536"
    and "directory_ok (m_p (m_central_dir st)) (m_p (m_central_dir_offsets st)) (unat (m_total_files z))"
    and "m_p (m_sorted_central_dir_offsets st) = map of_nat [0..<unat (m_total_files z)]"
  shows "\<exists>z'. sort_central_dir z = Some z' \<and> opened z'"
proof -
  let ?n = "unat (m_total_files z)" and ?cdir = "m_p (m_central_dir st)"
  let ?offs = "m_p (m_central_dir_offsets st)" and ?ix = "map of_nat [0..<unat (m_total_files z)] :: u32 list"
  have "set ?ix \<subseteq> valid_entries ?cdir ?offs"
    using assms(3) by (auto intro!: directory_valid [OF assms(4)] simp: unat_of_nat32)
  from sort_by_filename [OF this] obtain ys where
    ys: "mz_zip_reader_sort_central_dir_offsets_by_filename ?cdir ?offs (int ?n) ?ix = Some ys"
    "index_ok ?cdir ?offs ys ?n"
    by (auto simp: index_ok_def)
  have "sint (m_total_files z) = int ?n" using assms(3) by (intro sint_small) simp
  then show ?thesis
    using assms ys by (simp add: sort_central_dir_def Let_def opened_def)
qed

lemma index_central_dir_opens:
  assumes rd: "reads_as z mem" and len: "length mem < 2 ^ 32" and st: "m_pState z = Some st"
    and fresh: "fresh_state st" and mode: "m_zip_mode z = MZ_ZIP_MODE_READING"
    and files: "unat (m_total_files z) < 65536"
  shows "\<exists>ok z'. index_central_dir junk z sorting d cdir_size = Some (ok, z') \<and> (ok \<longrightarrow> opened z')"
proof -
  have "\<exists>ok z2. (if m_total_files z \<noteq> 0 then load_central_dir junk z sorting d cdir_size
        else Some (True, z)) = Some (ok, z2)
    \<and> m_zip_mode z2 = m_zip_mode z \<and> m_total_files z2 = m_total_files z
    \<and> (ok \<longrightarrow> (\<exists>st'. m_pState z2 = Some st'
       \<and> directory_ok (m_p (m_central_dir st')) (m_p (m_central_dir_offsets st')) (unat (m_total_files z))
       \<and> (if sorting then m_p (m_sorted_central_dir_offsets st') = map of_nat [0..<unat (m_total_files z)]
          else m_size (m_sorted_central_dir_offsets st') = 0)))"
  proof (cases "m_total_files z = 0")
    case True
    then show ?thesis
      using st fresh by (auto simp: directory_ok_def fresh_state_def fresh_array_def empty_array_def)
  qed (use load_central_dir_opens [OF rd len st fresh files] in simp)
  then obtain ok z2 where z2: "(if m_total_files z \<noteq> 0 then load_central_dir junk z sorting d cdir_size
        else Some (True, z)) = Some (ok, z2)"
    "m_zip_mode z2 = MZ_ZIP_MODE_READING" "m_total_files z2 = m_total_files z"
    "ok \<longrightarrow> (\<exists>st'. m_pState z2 = Some st'
       \<and> directory_ok (m_p (m_central_dir st')) (m_p (m_central_dir_offsets st')) (unat (m_total_files z))
       \<and> (if sorting then m_p (m_sorted_central_dir_offsets st') = map of_nat [0..<unat (m_total_files z)]
          else m_size (m_sorted_central_dir_offsets st') = 0))"
    using mode by auto
  show ?thesis
  proof (cases "ok \<and> sorting")
    case True
    then obtain z3 where "sort_central_dir z2 = Some z3" "opened z3"
      using z2 files sort_central_dir_opens [of z2] by auto
    then show ?thesis using True unfolding index_central_dir_def z2(1) by auto
  next
    case False
    then have "ok \<Longrightarrow> opened z2" using z2(2-4) files by (auto simp: opened_def)
    then show ?thesis using False unfolding index_central_dir_def z2(1) by (cases ok) auto
  qed
qed

lemma read_central_dir_opens:
  assumes rd: "reads_as z mem" and len: "length mem < 2 ^ 32" and st: "m_pState z = Some st"
    and fresh: "fresh_state st" and mode: "m_zip_mode z = MZ_ZIP_MODE_READING"
  shows "\<exists>ok z'. mz_zip_reader_read_central_dir junk z flags = Some (ok, z') \<and> (ok \<longrightarrow> opened z')"
proof -
  let ?sorting = "flags AND MZ_ZIP_FLAG_DO_NOT_SORT_CENTRAL_DIRECTORY = 0"
  have "sint (m_archive_size z) = int (length mem)"
    using rd len sint_word_of_int64 [of "int (length mem)"] by (auto simp: reads_as_def)
  then have pos: "\<not> sint (m_archive_size z) - 4096 < - (2 ^ 63)" by simp
  obtain found where found: "find_end_record z (max (sint (m_archive_size z) - 4096) 0) = Some found"
    using find_end_record_returns [OF rd len] by blast
  show ?thesis
  proof (cases "m_archive_size z < 22 \<or> found = None")
    case True
    then show ?thesis using found pos by (auto simp: mz_zip_reader_read_central_dir_def Let_def)
  next
    case False
    then obtain cur where cur: "\<not> m_archive_size z < 22" "found = Some cur" by auto
    define pBuf where "pBuf = take 22 (drop (unat (word_of_int cur :: u64)) mem)"
    have rb: "call_pRead z (word_of_int cur) 22 = Some pBuf"
      unfolding pBuf_def using read_mem [OF rd len, of "word_of_int cur" 22] by simp
    show ?thesis
    proof (cases "length pBuf = 22")
      case False
      then show ?thesis
        using found cur rb pos by (auto simp: mz_zip_reader_read_central_dir_def Let_def)
    next
      case True
      obtain z1 r where z1: "check_end_record z pBuf = Some (z1, r)" "m_pRead z1 = m_pRead z"
        "m_archive_size z1 = m_archive_size z" "m_pState z1 = m_pState z" "m_zip_mode z1 = m_zip_mode z"
        "r \<noteq> None \<Longrightarrow> unat (m_total_files z1) < 65536"
        using check_end_record_returns [OF True, of z] by auto
      have start: "mz_zip_reader_read_central_dir junk z flags =
          (case r of None \<Rightarrow> Some (False, z1)
           | Some (d, cdir_size) \<Rightarrow> index_central_dir junk z1 ?sorting d cdir_size)"
        using found cur rb pos True z1(1) by (simp add: mz_zip_reader_read_central_dir_def Let_def)
      show ?thesis
      proof (cases r)
        case (Some dc)
        then show ?thesis
          using start z1 rd st mode index_central_dir_opens [of z1 mem st junk ?sorting "fst dc" "snd dc"]
            len fresh by (cases dc) (auto simp: reads_as_def)
      qed (use start in auto)
    qed
  qed
qed

text \<open>The archive \<open>{0}\<close> of the kernel's \<open>notmain\<close> satisfies what opening asks for.\<close>

lemma init_mem_opens:
  assumes "m_pState z = None" and "length mem < 2 ^ 32"
  shows "\<exists>ok z'. mz_zip_reader_init_mem junk z mem (of_nat (length mem)) flags = Some (ok, z')
    \<and> (ok \<longrightarrow> opened z')"
proof -
  obtain ok z1 where z1: "mz_zip_reader_init_internal z = (ok, z1)" by (cases "mz_zip_reader_init_internal z")
  show ?thesis
  proof (cases ok)
    case False
    then show ?thesis using z1 by (auto simp: mz_zip_reader_init_mem_def)
  next
    case True
    define z2 where "z2 = z1\<lparr>m_archive_size := ucast (of_nat (length mem) :: u32),
      m_pRead := Some Mz_Zip_Mem_Read_Func,
      m_pState := map_option (\<lambda>st. st\<lparr>m_pMem := Some mem, m_mem_size := of_nat (length mem)\<rparr>) (m_pState z1)\<rparr>"
    have "unat (ucast (of_nat (length mem) :: u32) :: u64) = unat (of_nat (length mem) :: u64)"
      using assms(2) by (simp add: unat_ucast64 unat_of_nat32 unat_of_nat64)
    then have sz: "ucast (of_nat (length mem) :: u32) = (of_nat (length mem) :: u64)"
      by (rule unsigned_word_eqI)
    obtain st where st: "m_pState z2 = Some st" "fresh_state st" "m_pMem st = Some mem"
      and mode: "m_zip_mode z2 = MZ_ZIP_MODE_READING"
      using z1 True unfolding z2_def
      by (auto simp: mz_zip_reader_init_internal_def Let_def fresh_state_def fresh_array_def
          split: if_splits prod.splits)
    have "reads_as z2 mem" using st by (simp add: reads_as_def sz) (simp add: z2_def sz)
    from read_central_dir_opens [OF this assms(2) st(1,2) mode]
    obtain ok' z' where "mz_zip_reader_read_central_dir junk z2 flags = Some (ok', z')" "ok' \<longrightarrow> opened z'"
      by blast
    then show ?thesis
      using z1 True by (cases ok') (auto simp: mz_zip_reader_init_mem_def finish_init_def z2_def)
  qed
qed

section \<open>Queries on an opened archive\<close>

definition dir_bytes :: "mz_zip_archive \<Rightarrow> bytes" where
  "dir_bytes z = (case m_pState z of None \<Rightarrow> [] | Some st \<Rightarrow> m_p (m_central_dir st))"

definition dir_offsets :: "mz_zip_archive \<Rightarrow> u32 list" where
  "dir_offsets z = (case m_pState z of None \<Rightarrow> [] | Some st \<Rightarrow> m_p (m_central_dir_offsets st))"

lemma opened_directory: "opened z \<Longrightarrow> directory_ok (dir_bytes z) (dir_offsets z) (unat (m_total_files z))"
  by (auto simp: opened_def dir_bytes_def dir_offsets_def)

lemma cdh_of_opened:
  assumes "opened z"
  shows "mz_zip_reader_get_cdh z i
    = Some (if unat i < unat (m_total_files z) then Some (dir_bytes z, unat (dir_offsets z ! unat i)) else None)"
  using assms
  by (auto simp: mz_zip_reader_get_cdh_def opened_def dir_bytes_def dir_offsets_def directory_ok_def
      record_of_def elem_at_word word_le_nat_alt)

lemma opened_record:
  "opened z \<Longrightarrow> unat i < unat (m_total_files z) \<Longrightarrow>
   record_inside (dir_bytes z) (unat (dir_offsets z ! unat i))"
  using opened_directory [of z] by (auto simp: directory_ok_def)

text \<open>The fields of a record that lies inside can be read.\<close>

lemma inside_reads:
  assumes "record_inside cdir p" and "k \<le> 42"
  shows "\<exists>w. mz_read_le32 cdir (p + k) = Some w" and "\<exists>w. mz_read_le16 cdir (p + k) = Some w"
  using assms by (auto elim!: record_insideE simp: mz_read_le32_def mz_read_le16_def)

lemma first_difference_returns:
  "pL + n \<le> length xs \<Longrightarrow> pR + n \<le> length ys \<Longrightarrow> \<exists>d. first_difference xs pL ys pR n = Some d"
  using first_difference_slices by blast

lemma string_equal_returns:
  "pA + n \<le> length xs \<Longrightarrow> pB + n \<le> length ys \<Longrightarrow> \<exists>b. mz_zip_reader_string_equal xs pA ys pB n flags = Some b"
  using first_difference_returns [of pA n xs pB ys] by (auto simp: mz_zip_reader_string_equal_def)

lemma path_length_returns:
  "p + n \<le> length cdir \<Longrightarrow> \<exists>k \<le> n. path_length cdir p n = Some k"
proof (induction n)
  case (Suc n)
  then have "elem_at cdir (int (p + n)) = Some (cdir ! (p + n))" by (intro elem_at_nat) simp
  then show ?case using Suc by (auto simp del: of_nat_add intro: le_SucI)
qed simp

lemma record_matches_returns:
  assumes "record_inside cdir p"
  shows "\<exists>b. record_matches cdir p name comment flags = Some b"
proof -
  obtain a b c where r: "mz_read_le16 cdir (p + 28) = Some a" "mz_read_le16 cdir (p + 30) = Some b"
    "mz_read_le16 cdir (p + 32) = Some c" "p + 46 + unat a + unat b + unat c \<le> length cdir"
    using assms by (rule record_insideE)
  define ck where "ck = (if length comment \<noteq> 0
      then if unat c \<noteq> length comment then Some False
           else mz_zip_reader_string_equal comment 0 cdir (p + 46 + unat a + unat b) (unat c) flags
      else Some True)"
  have "\<exists>b. ck = Some b"
    unfolding ck_def using r(4) string_equal_returns [of 0 "unat c" comment "p + 46 + unat a + unat b" cdir flags]
    by auto
  then obtain cb where ck: "ck = Some cb" by blast
  have "\<exists>k. (if flags AND MZ_ZIP_FLAG_IGNORE_PATH \<noteq> 0 then path_length cdir (p + 46) (unat a) else Some 0) = Some k
      \<and> k \<le> unat a"
    using path_length_returns [of "p + 46" "unat a" cdir] r(4) by auto
  then obtain k where k: "(if flags AND MZ_ZIP_FLAG_IGNORE_PATH \<noteq> 0 then path_length cdir (p + 46) (unat a) else Some 0)
      = Some k" "k \<le> unat a" by blast
  have "\<exists>b. mz_zip_reader_string_equal name 0 cdir (p + 46 + k) (unat a - k) flags = Some b"
    if "unat a - k = length name"
    using that r(4) k(2) by (intro string_equal_returns) auto
  then show ?thesis
    using r(1-3) ck [unfolded ck_def] k(1)
    by (auto simp: record_matches_def Let_def simp del: length_0_conv split: if_splits)
qed

lemma linear_search_returns:
  assumes "directory_ok cdir offs n"
  shows "\<exists>r. linear_search cdir offs name comment flags n i = Some r"
proof (induction "n - i" arbitrary: i)
  case 0
  then show ?case by (subst linear_search.simps) simp
next
  case (Suc k)
  then have i: "i < n" "i < length offs" using assms by (auto simp: directory_ok_def)
  have "record_inside cdir (unat (offs ! i))" using assms i by (simp add: directory_ok_def)
  then obtain b where "record_matches cdir (unat (offs ! i)) name comment flags = Some b"
    using record_matches_returns by blast
  then show ?case using Suc i by (subst linear_search.simps) auto
qed

lemma binary_search_opened:
  assumes "opened z" and "m_pState z = Some st" and "m_size (m_sorted_central_dir_offsets st) \<noteq> 0"
    and "length name < 2 ^ 31"
  shows "\<exists>r. mz_zip_reader_locate_file_binary_search z name = Some r
    \<and> (r = - 1 \<and> (\<forall>w. unat w < unat (m_total_files z) \<longrightarrow> entry_key (dir_bytes z) (dir_offsets z) w \<noteq> lower name)
       \<or> (\<exists>w. unat w < unat (m_total_files z) \<and> r = int (unat w)
            \<and> entry_key (dir_bytes z) (dir_offsets z) w = lower name))"
proof -
  let ?n = "unat (m_total_files z)" and ?ix = "m_p (m_sorted_central_dir_offsets st)"
  have ix: "index_ok (dir_bytes z) (dir_offsets z) ?ix ?n" and n: "?n < 65536"
    using assms(1-3) by (auto simp: opened_def dir_bytes_def dir_offsets_def)
  have el: "w \<in> set ?ix \<longleftrightarrow> unat w < ?n" for w
    using index_elements [OF ix] n by simp
  have sz: "sint (m_total_files z) = int ?n" using n by (intro sint_small) simp
  have "\<exists>r. binary_search (dir_bytes z) (dir_offsets z) ?ix name (of_nat (length name)) 0 (int ?n - 1) = Some r
    \<and> (r = - 1 \<and> (\<forall>w \<in> set ?ix. entry_key (dir_bytes z) (dir_offsets z) w \<noteq> lower name)
       \<or> (\<exists>w \<in> set ?ix. r = int (unat w) \<and> entry_key (dir_bytes z) (dir_offsets z) w = lower name))"
  proof (rule binary_search_finds)
    show "set ?ix \<subseteq> valid_entries (dir_bytes z) (dir_offsets z)"
      using el directory_valid [OF opened_directory [OF assms(1)]] by blast
    show "\<forall>w \<in> set ?ix. unat w < 65536" using el n by auto
    show "sorted (map (entry_key (dir_bytes z) (dir_offsets z)) ?ix)" using ix by (simp add: index_ok_def)
  qed (use assms(4) index_length [OF ix] in \<open>linarith | simp\<close>)+
  then show ?thesis
    using assms(2) sz el
    by (auto simp: mz_zip_reader_locate_file_binary_search_def dir_bytes_def dir_offsets_def)
qed

lemma locate_returns:
  assumes "opened z" and "\<And>n. name = Some n \<Longrightarrow> length n < 2 ^ 31"
  shows "\<exists>r. mz_zip_reader_locate_file (Some z) name comment flags = Some r"
proof (cases name)
  case (Some n)
  obtain st where st: "m_pState z = Some st" using assms(1) by (auto simp: opened_def)
  obtain r where "linear_search (m_p (m_central_dir st)) (m_p (m_central_dir_offsets st)) n
      (case comment of None \<Rightarrow> [] | Some c \<Rightarrow> c) flags (unat (m_total_files z)) 0 = Some r"
    using linear_search_returns opened_directory [OF assms(1)] st by (force simp: dir_bytes_def dir_offsets_def)
  then show ?thesis
    using Some st binary_search_opened [OF assms(1) st, of n] assms(2)
    by (auto simp: mz_zip_reader_locate_file_def)
qed (simp add: mz_zip_reader_locate_file_def)

lemma queries_return:
  assumes "opened z"
  shows "\<exists>b. mz_zip_reader_is_file_a_directory z i = Some b"
    and "\<exists>b. mz_zip_reader_is_file_encrypted z i = Some b"
    and "\<exists>r. mz_zip_reader_file_stat z i pStat = Some r"
    and "\<exists>r. mz_zip_reader_get_filename z i buf n = Some r"
proof -
  have "(\<exists>b. mz_zip_reader_is_file_a_directory z i = Some b) \<and> (\<exists>b. mz_zip_reader_is_file_encrypted z i = Some b)
    \<and> (\<exists>r. mz_zip_reader_file_stat z i pStat = Some r) \<and> (\<exists>r. mz_zip_reader_get_filename z i buf n = Some r)"
  proof (cases "unat i < unat (m_total_files z)")
    case False
    then show ?thesis
      using cdh_of_opened [OF assms, of i]
      by (auto simp: mz_zip_reader_is_file_a_directory_def mz_zip_reader_is_file_encrypted_def
          mz_zip_reader_file_stat_def mz_zip_reader_get_filename_def)
  next
    case True
    define cdir p where "cdir = dir_bytes z" and "p = unat (dir_offsets z ! unat i)"
    have h: "mz_zip_reader_get_cdh z i = Some (Some (cdir, p))"
      using cdh_of_opened [OF assms, of i] True by (simp add: cdir_def p_def)
    have inside: "record_inside cdir p"
      using opened_record [OF assms True] by (simp add: cdir_def p_def)
    obtain a b c where r: "mz_read_le16 cdir (p + 28) = Some a" "mz_read_le16 cdir (p + 30) = Some b"
      "mz_read_le16 cdir (p + 32) = Some c" "p + 46 + unat a + unat b + unat c \<le> length cdir"
      using inside by (rule record_insideE)
    have slash: "\<exists>x. elem_at cdir (int (p + 46 + unat a - 1)) = Some x"
      using r(4) by (intro exI [of _ "cdir ! (p + 46 + unat a - 1)"] elem_at_nat) simp
    have at: "\<exists>bs. bytes_at cdir (p + 46) (unat (min a x)) = Some bs"
      "\<exists>bs. bytes_at cdir (p + 46 + unat a + unat b) (unat (min c x)) = Some bs" for x
      using r(4) unfolding unat_min by (auto simp: bytes_at_def)
    note in32 = inside_reads(1) [OF inside, of 16] inside_reads(1) [OF inside, of 20]
      inside_reads(1) [OF inside, of 24] inside_reads(1) [OF inside, of 38] inside_reads(1) [OF inside, of 42]
    note in16 = inside_reads(2) [OF inside, of 4] inside_reads(2) [OF inside, of 6]
      inside_reads(2) [OF inside, of 8] inside_reads(2) [OF inside, of 10] inside_reads(2) [OF inside, of 36]
    have "\<exists>b. mz_zip_reader_is_file_a_directory z i = Some b"
      using h r(1) slash in32(4) by (auto simp: mz_zip_reader_is_file_a_directory_def simp del: of_nat_add)
    moreover have "\<exists>b. mz_zip_reader_is_file_encrypted z i = Some b"
      using h in16(3) by (auto simp: mz_zip_reader_is_file_encrypted_def)
    moreover have "\<exists>r. mz_zip_reader_file_stat z i pStat = Some r"
      using h r(1-3) in16 in32 at(1) [of 259] at(2) [of 255]
      by (cases pStat) (auto simp: mz_zip_reader_file_stat_def Let_def)
    moreover have "\<exists>r. mz_zip_reader_get_filename z i buf n = Some r"
      using h r(1) at(1) [of "n - 1"] by (auto simp: mz_zip_reader_get_filename_def Let_def)
    ultimately show ?thesis by blast
  qed
  then show "\<exists>b. mz_zip_reader_is_file_a_directory z i = Some b"
    and "\<exists>b. mz_zip_reader_is_file_encrypted z i = Some b"
    and "\<exists>r. mz_zip_reader_file_stat z i pStat = Some r"
    and "\<exists>r. mz_zip_reader_get_filename z i buf n = Some r" by blast+
qed

section \<open>The search without the index\<close>

text \<open>What the search by name should answer: \<open>name\<close> is sought without regard to case.\<close>

definition file_name :: "mz_zip_archive \<Rightarrow> nat \<Rightarrow> bytes" where
  "file_name z i = the (entry_name (dir_bytes z) (dir_offsets z) (of_nat i))"

definition located :: "mz_zip_archive \<Rightarrow> bytes \<Rightarrow> int \<Rightarrow> bool" where
  "located z name r \<longleftrightarrow>
     r = - 1 \<and> (\<forall>i < unat (m_total_files z). lower (file_name z i) \<noteq> lower name)
     \<or> (\<exists>i < unat (m_total_files z). r = int i \<and> lower (file_name z i) = lower name)"

lemma and_part: "w AND (a :: u32) = (w AND (a OR b)) AND a"
  by (rule bit_word_eqI) (auto simp: bit_simps)

lemma record_matches_name:
  assumes "entry_name cdir offs i = Some fname" and "record_of offs i = Some p"
    and "flags AND (MZ_ZIP_FLAG_IGNORE_PATH OR MZ_ZIP_FLAG_CASE_SENSITIVE) = 0"
  shows "record_matches cdir p name [] flags = Some (lower fname = lower name)"
proof -
  have fl: "flags AND MZ_ZIP_FLAG_IGNORE_PATH = 0" "flags AND MZ_ZIP_FLAG_CASE_SENSITIVE = 0"
    using and_part [of flags MZ_ZIP_FLAG_IGNORE_PATH MZ_ZIP_FLAG_CASE_SENSITIVE]
      and_part [of flags MZ_ZIP_FLAG_CASE_SENSITIVE MZ_ZIP_FLAG_IGNORE_PATH] assms(3)
    by (simp_all add: or.commute)
  obtain n where n: "mz_read_le16 cdir (p + 28) = Some n" "p + 46 + unat n \<le> length cdir"
    "fname = slice cdir (p + 46) (unat n)" "length fname = unat n"
    using assms(1,2) by (auto elim!: entry_nameD)
  have body: "record_matches cdir p name [] flags =
      (if unat n < length name then Some False
       else if unat n = length name then mz_zip_reader_string_equal name 0 cdir (p + 46) (unat n) flags
       else Some False)"
    using n(1) fl(1) by (simp add: record_matches_def Let_def)
  show ?thesis
  proof (cases "unat n = length name")
    case True
    have "first_difference name 0 cdir (p + 46) (unat n) = Some (list_diff (lower name) (lower fname))"
      using first_difference_slices [of 0 "unat n" name "p + 46" cdir] n True by (simp add: slice_all)
    moreover have "list_diff (lower name) (lower fname) = None \<longleftrightarrow> lower fname = lower name"
      using list_diff_eq [of "lower name" "lower fname"] n(4) True by (metis length_lower)
    ultimately show ?thesis
      unfolding body using True fl(2) by (simp add: mz_zip_reader_string_equal_def)
  next
    case False
    then have "lower fname \<noteq> lower name" using n(4) length_lower by metis
    then show ?thesis unfolding body using False by simp
  qed
qed

lemma linear_search_finds:
  assumes "directory_ok cdir offs n" and "n < 65536"
    and "flags AND (MZ_ZIP_FLAG_IGNORE_PATH OR MZ_ZIP_FLAG_CASE_SENSITIVE) = 0" and "i \<le> n"
    and "\<And>j. j < i \<Longrightarrow> entry_key cdir offs (of_nat j) \<noteq> lower name"
  shows "\<exists>r. linear_search cdir offs name [] flags n i = Some r
    \<and> (r = - 1 \<and> (\<forall>j < n. entry_key cdir offs (of_nat j) \<noteq> lower name)
       \<or> (\<exists>j < n. r = int j \<and> entry_key cdir offs (of_nat j) = lower name))"
  using assms(4,5)
proof (induction "n - i" arbitrary: i)
  case 0
  then show ?case by (subst linear_search.simps) auto
next
  case (Suc k)
  then have i: "i < n" "i < length offs" using assms(1) by (auto simp: directory_ok_def)
  have u: "unat (of_nat i :: u32) = i" using i assms(2) by (intro unat_of_nat32) simp
  have rec: "record_of offs (of_nat i) = Some (unat (offs ! i))"
    using i by (simp add: record_of_def u)
  have "of_nat i \<in> valid_entries cdir offs" using i u by (intro directory_valid [OF assms(1)]) simp
  then obtain fname where fname: "entry_name cdir offs (of_nat i) = Some fname" by (auto simp: valid_entries_def)
  then have key: "entry_key cdir offs (of_nat i) = lower fname" by (simp add: entry_key_def)
  have step: "linear_search cdir offs name [] flags n i
      = (if lower fname = lower name then Some (int i) else linear_search cdir offs name [] flags n (i + 1))"
    using i record_matches_name [OF fname rec assms(3)] by (subst linear_search.simps) simp
  show ?case
  proof (cases "lower fname = lower name")
    case True
    then show ?thesis using step key i by auto
  next
    case False
    then have "j < i + 1 \<Longrightarrow> entry_key cdir offs (of_nat j) \<noteq> lower name" for j
      using Suc.prems(2) key by (cases "j = i") auto
    then show ?thesis using Suc.hyps i step False by simp
  qed
qed

lemma long_name_absent:
  assumes "opened z" and "0xFFFF < length name" and "i < unat (m_total_files z)"
  shows "lower (file_name z i) \<noteq> lower name"
proof -
  have "i < 65536" using assms by (auto simp: opened_def)
  then have "of_nat i \<in> valid_entries (dir_bytes z) (dir_offsets z)"
    using assms(3) by (intro directory_valid [OF opened_directory [OF assms(1)]]) (simp add: unat_of_nat32)
  then obtain fname where f: "entry_name (dir_bytes z) (dir_offsets z) (of_nat i) = Some fname"
    by (auto simp: valid_entries_def)
  then have "length fname < 65536" by (rule entry_nameD) (metis read_le16_bound)
  then have "length (lower (file_name z i)) \<noteq> length (lower name)" using f assms(2) by (simp add: file_name_def)
  then show ?thesis by metis
qed

lemma locate_finds:
  assumes "opened z" and "length name < 2 ^ 31"
    and fl: "flags AND (MZ_ZIP_FLAG_IGNORE_PATH OR MZ_ZIP_FLAG_CASE_SENSITIVE) = 0"
  shows "\<exists>r. mz_zip_reader_locate_file (Some z) (Some name) None flags = Some r \<and> located z name r"
proof -
  let ?n = "unat (m_total_files z)"
  have n: "?n < 65536" and mode: "m_zip_mode z = MZ_ZIP_MODE_READING"
    using assms(1) by (simp_all add: opened_def)
  obtain st where st: "m_pState z = Some st" using assms(1) by (auto simp: opened_def)
  have key: "entry_key (dir_bytes z) (dir_offsets z) (of_nat j) = lower (file_name z j)" for j
    by (simp add: entry_key_def file_name_def)
  show ?thesis
  proof (cases "m_size (m_sorted_central_dir_offsets st) = 0")
    case False
    obtain r where r: "mz_zip_reader_locate_file_binary_search z name = Some r"
      "r = - 1 \<and> (\<forall>w. unat w < ?n \<longrightarrow> entry_key (dir_bytes z) (dir_offsets z) w \<noteq> lower name)
       \<or> (\<exists>w. unat w < ?n \<and> r = int (unat w) \<and> entry_key (dir_bytes z) (dir_offsets z) w = lower name)"
      using binary_search_opened [OF assms(1) st False assms(2)] by blast
    from r(2) have "located z name r"
    proof (elim disjE conjE exE)
      assume "r = - 1" and w: "\<forall>w. unat w < ?n \<longrightarrow> entry_key (dir_bytes z) (dir_offsets z) w \<noteq> lower name"
      moreover have "lower (file_name z i) \<noteq> lower name" if "i < ?n" for i
        using w [rule_format, of "of_nat i"] that n by (simp add: key unat_of_nat32)
      ultimately show ?thesis by (simp add: located_def)
    next
      fix w assume "unat w < ?n" "r = int (unat w)" "entry_key (dir_bytes z) (dir_offsets z) w = lower name"
      then show ?thesis using key [of "unat w"] unfolding located_def by auto
    qed
    then show ?thesis using r(1) st mode fl False by (simp add: mz_zip_reader_locate_file_def)
  next
    case True
    show ?thesis
    proof (cases "0xFFFF < length name")
      case True
      then have "located z name (- 1)" using long_name_absent [OF assms(1)] by (simp add: located_def)
      then show ?thesis
        using \<open>m_size (m_sorted_central_dir_offsets st) = 0\<close> True st mode by (simp add: mz_zip_reader_locate_file_def)
    next
      case False
      obtain r where r: "linear_search (dir_bytes z) (dir_offsets z) name [] flags ?n 0 = Some r"
        "r = - 1 \<and> (\<forall>j < ?n. entry_key (dir_bytes z) (dir_offsets z) (of_nat j) \<noteq> lower name)
         \<or> (\<exists>j < ?n. r = int j \<and> entry_key (dir_bytes z) (dir_offsets z) (of_nat j) = lower name)"
        using linear_search_finds [OF opened_directory [OF assms(1)] n fl, of 0 name] by auto
      then have "located z name r" unfolding key located_def by blast
      then show ?thesis
        using r(1) \<open>m_size (m_sorted_central_dir_offsets st) = 0\<close> False st mode
        by (simp add: mz_zip_reader_locate_file_def dir_bytes_def dir_offsets_def)
    qed
  qed
qed

end
