(* ===== verification/Zip_Archive.thy ===== *)
theory Zip_Archive
  imports Zip_Open
begin

text \<open>
  Archives written as the zip format prescribes, and the theorems about the reader. An archive is any
  data (the local headers and contents of the files), the records of its entries, and the end of
  central directory record with a comment. Opened with index, it lists exactly its entries. The
  other theorems state the safety of the reader on arbitrary bytes and the correctness of the search.
\<close>

section \<open>The format\<close>

definition le16 :: "u16 \<Rightarrow> bytes" where
  "le16 w = [ucast w, ucast (drop_bit 8 w)]"

definition le32 :: "u32 \<Rightarrow> bytes" where
  "le32 w = [ucast w, ucast (drop_bit 8 w), ucast (drop_bit 16 w), ucast (drop_bit 24 w)]"

record zip_entry =
  ze_version_made_by :: u16
  ze_version_needed :: u16
  ze_bit_flag :: u16
  ze_method :: u16
  ze_time :: u16
  ze_date :: u16
  ze_crc32 :: u32
  ze_comp_size :: u32
  ze_uncomp_size :: u32
  ze_internal_attr :: u16
  ze_external_attr :: u32
  ze_local_header_ofs :: u32
  ze_name :: bytes
  ze_extra :: bytes
  ze_comment :: bytes

definition record_header :: "zip_entry \<Rightarrow> bytes" where
  "record_header e = le32 0x02014b50 @ le16 (ze_version_made_by e) @ le16 (ze_version_needed e)
     @ le16 (ze_bit_flag e) @ le16 (ze_method e) @ le16 (ze_time e) @ le16 (ze_date e)
     @ le32 (ze_crc32 e) @ le32 (ze_comp_size e) @ le32 (ze_uncomp_size e)
     @ le16 (of_nat (length (ze_name e))) @ le16 (of_nat (length (ze_extra e)))
     @ le16 (of_nat (length (ze_comment e))) @ le16 0 @ le16 (ze_internal_attr e)
     @ le32 (ze_external_attr e) @ le32 (ze_local_header_ofs e)"

definition record_bytes :: "zip_entry \<Rightarrow> bytes" where
  "record_bytes e = record_header e @ ze_name e @ ze_extra e @ ze_comment e"

definition directory_bytes :: "zip_entry list \<Rightarrow> bytes" where
  "directory_bytes es = concat (map record_bytes es)"

definition end_record :: "bytes \<Rightarrow> zip_entry list \<Rightarrow> bytes \<Rightarrow> bytes" where
  "end_record content es comment = le32 0x06054b50 @ le16 0 @ le16 0 @ le16 (of_nat (length es))
     @ le16 (of_nat (length es)) @ le32 (of_nat (length (directory_bytes es)))
     @ le32 (of_nat (length content)) @ le16 (of_nat (length comment))"

definition archive_bytes :: "bytes \<Rightarrow> zip_entry list \<Rightarrow> bytes \<Rightarrow> bytes" where
  "archive_bytes content es comment =
     content @ directory_bytes es @ end_record content es comment @ comment"

text \<open>What the format and the reader ask of an entry and of an archive; in particular the signature of
  the end record must not occur again after its beginning.\<close>

definition entry_fits :: "nat \<Rightarrow> zip_entry \<Rightarrow> bool" where
  "entry_fits sz e \<longleftrightarrow> length (ze_name e) < 65536 \<and> length (ze_extra e) < 65536 \<and> length (ze_comment e) < 65536
     \<and> (ze_method e = 0 \<longrightarrow> ze_uncomp_size e = ze_comp_size e) \<and> (ze_comp_size e = 0 \<longrightarrow> ze_uncomp_size e = 0)
     \<and> ze_comp_size e \<noteq> 0xffffffff \<and> ze_uncomp_size e \<noteq> 0xffffffff
     \<and> unat (ze_local_header_ofs e) + 30 + unat (ze_comp_size e) \<le> sz"

definition archive_fits :: "bytes \<Rightarrow> zip_entry list \<Rightarrow> bytes \<Rightarrow> bool" where
  "archive_fits content es comment \<longleftrightarrow> length es < 65536 \<and> length comment < 65536
     \<and> length (archive_bytes content es comment) < 2 ^ 32
     \<and> list_all (entry_fits (length (archive_bytes content es comment))) es
     \<and> list_all (\<lambda>i. take 4 (drop i (end_record content es comment @ comment)) \<noteq> [0x50, 0x4b, 5, 6])
         [1..<length (end_record content es comment @ comment)]"

text \<open>What \<open>mz_zip_reader_file_stat\<close> is to report of the entry number \<open>i\<close>.\<close>

definition entry_ofs :: "zip_entry list \<Rightarrow> nat \<Rightarrow> nat" where
  "entry_ofs es i = length (directory_bytes (take i es))"

definition entry_stat ::
  "zip_entry list \<Rightarrow> nat \<Rightarrow> mz_zip_archive_file_stat \<Rightarrow> mz_zip_archive_file_stat" where
  "entry_stat es i s =
     (let e = es ! i in
      s\<lparr>m_file_index := of_nat i, m_central_dir_ofs := of_nat (entry_ofs es i),
        m_version_made_by := ze_version_made_by e, m_version_needed := ze_version_needed e,
        m_bit_flag := ze_bit_flag e, m_method := ze_method e, m_crc32 := ze_crc32 e,
        m_comp_size := ucast (ze_comp_size e), m_uncomp_size := ucast (ze_uncomp_size e),
        m_internal_attr := ze_internal_attr e, m_external_attr := ze_external_attr e,
        m_local_header_ofs := ucast (ze_local_header_ofs e),
        m_comment_size := of_nat (min (length (ze_comment e)) 255),
        m_filename := splice (m_filename s) 0 (take 259 (ze_name e) @ [0]),
        m_comment := splice (m_comment s) 0 (take 255 (ze_comment e) @ [0])\<rparr>)"

section \<open>Reading what has been written\<close>

lemma combine16:
  "ucast (ucast w :: u8) OR push_bit 8 (ucast (ucast (drop_bit 8 w) :: u8)) = (ucast (w :: u16) :: u32)"
proof (rule bit_word_eqI)
  fix n assume "n < LENGTH(32)"
  consider "n < 8" | "8 \<le> n" "n < 16" | "16 \<le> n" by linarith
  then show "bit (ucast (ucast w :: u8) OR push_bit 8 (ucast (ucast (drop_bit 8 w) :: u8)) :: u32) n
    = bit (ucast w :: u32) n"
    by cases (auto simp: bit_simps dest: bit_imp_le_length)
qed

lemma combine32:
  "ucast (ucast w :: u8) OR push_bit 8 (ucast (ucast (drop_bit 8 w) :: u8))
     OR push_bit 16 (ucast (ucast (drop_bit 16 w) :: u8)) OR push_bit 24 (ucast (ucast (drop_bit 24 w) :: u8))
   = (w :: u32)"
proof (rule bit_word_eqI)
  fix n assume "n < LENGTH(32)"
  consider "n < 8" | "8 \<le> n" "n < 16" | "16 \<le> n" "n < 24" | "24 \<le> n" by linarith
  then show "bit (ucast (ucast w :: u8) OR push_bit 8 (ucast (ucast (drop_bit 8 w) :: u8))
     OR push_bit 16 (ucast (ucast (drop_bit 16 w) :: u8)) OR push_bit 24 (ucast (ucast (drop_bit 24 w) :: u8)) :: u32) n
    = bit w n"
    by cases (auto simp: bit_simps dest: bit_imp_le_length)
qed

lemma read_le16_written: "mz_read_le16 (xs @ le16 w @ ys) (length xs) = Some (ucast w)"
  by (simp add: mz_read_le16_def le16_def nth_append combine16)

lemma read_le32_written: "mz_read_le32 (xs @ le32 w @ ys) (length xs) = Some w"
  by (simp add: mz_read_le32_def le32_def nth_append combine32)

lemma read_skip:
  "mz_read_le16 (xs @ ys) (length xs + k) = mz_read_le16 ys k"
  "mz_read_le32 (xs @ ys) (length xs + k) = mz_read_le32 ys k"
  by (simp_all add: mz_read_le16_def mz_read_le32_def nth_append add.assoc)

lemma length_le: "length (le16 w) = 2" "length (le32 v) = 4"
  by (simp_all add: le16_def le32_def)

lemma length_record_header: "length (record_header e) = 46"
  by (simp add: record_header_def length_le)

text \<open>Reading the field after some others: \<open>skip16\<close> and \<open>skip32\<close> step over a field.\<close>

lemma skip16:
  "2 \<le> k \<Longrightarrow> mz_read_le16 (le16 w @ ys) k = mz_read_le16 ys (k - 2)"
  "2 \<le> k \<Longrightarrow> mz_read_le32 (le16 w @ ys) k = mz_read_le32 ys (k - 2)"
  using read_skip [of "le16 w" ys "k - 2"] by (simp_all only: length_le le_add_diff_inverse)

lemma skip32:
  "4 \<le> k \<Longrightarrow> mz_read_le16 (le32 w @ ys) k = mz_read_le16 ys (k - 4)"
  "4 \<le> k \<Longrightarrow> mz_read_le32 (le32 w @ ys) k = mz_read_le32 ys (k - 4)"
  using read_skip [of "le32 w" ys "k - 4"] by (simp_all only: length_le le_add_diff_inverse)

lemma at16: "mz_read_le16 (le16 w @ ys) 0 = Some (ucast w)"
  using read_le16_written [of "[]"] by simp

lemma at32: "mz_read_le32 (le32 w @ ys) 0 = Some w"
  using read_le32_written [of "[]"] by simp

lemmas field_simps16 = skip16 skip32 at16 at32

lemma record_fields:
  "mz_read_le32 (record_header e @ ys) 0 = Some 0x02014b50"
  "mz_read_le16 (record_header e @ ys) 4 = Some (ucast (ze_version_made_by e))"
  "mz_read_le16 (record_header e @ ys) 6 = Some (ucast (ze_version_needed e))"
  "mz_read_le16 (record_header e @ ys) 8 = Some (ucast (ze_bit_flag e))"
  "mz_read_le16 (record_header e @ ys) 10 = Some (ucast (ze_method e))"
  "mz_read_le32 (record_header e @ ys) 16 = Some (ze_crc32 e)"
  "mz_read_le32 (record_header e @ ys) 20 = Some (ze_comp_size e)"
  "mz_read_le32 (record_header e @ ys) 24 = Some (ze_uncomp_size e)"
  "mz_read_le16 (record_header e @ ys) 28 = Some (ucast (of_nat (length (ze_name e)) :: u16))"
  "mz_read_le16 (record_header e @ ys) 30 = Some (ucast (of_nat (length (ze_extra e)) :: u16))"
  "mz_read_le16 (record_header e @ ys) 32 = Some (ucast (of_nat (length (ze_comment e)) :: u16))"
  "mz_read_le16 (record_header e @ ys) 34 = Some 0"
  "mz_read_le16 (record_header e @ ys) 36 = Some (ucast (ze_internal_attr e))"
  "mz_read_le32 (record_header e @ ys) 38 = Some (ze_external_attr e)"
  "mz_read_le32 (record_header e @ ys) 42 = Some (ze_local_header_ofs e)"
  by (simp_all add: record_header_def field_simps16)

text \<open>The 32 bits that the check of the compression method reads are the method and the time.\<close>

lemma record_method32:
  "\<exists>v. mz_read_le32 (record_header e @ ys) 10 = Some v \<and> (v = 0 \<longrightarrow> ze_method e = 0)"
proof -
  have "mz_read_le32 (record_header e @ ys) 10
      = mz_read_le32 (le16 (ze_method e) @ le16 (ze_time e) @ le16 (ze_date e)
     @ le32 (ze_crc32 e) @ le32 (ze_comp_size e) @ le32 (ze_uncomp_size e)
     @ le16 (of_nat (length (ze_name e))) @ le16 (of_nat (length (ze_extra e)))
     @ le16 (of_nat (length (ze_comment e))) @ le16 0 @ le16 (ze_internal_attr e)
     @ le32 (ze_external_attr e) @ le32 (ze_local_header_ofs e) @ ys) 0"
    by (simp add: record_header_def field_simps16)
  also have "\<dots> = Some (ucast (ze_method e) OR push_bit 16 (ucast (ze_time e)))"
    by (simp add: mz_read_le32_def le16_def combine16 [symmetric] or.assoc push_bit_or)
  finally have "mz_read_le32 (record_header e @ ys) 10
    = Some (ucast (ze_method e) OR push_bit 16 (ucast (ze_time e)))" .
  moreover have "(ucast (ze_method e) OR push_bit 16 (ucast (ze_time e)) :: u32) = 0 \<Longrightarrow> ze_method e = 0"
  proof -
    assume z: "(ucast (ze_method e) OR push_bit 16 (ucast (ze_time e)) :: u32) = 0"
    show "ze_method e = 0"
    proof (rule bit_word_eqI)
      fix n assume "n < LENGTH(16)"
      then show "bit (ze_method e) n = bit 0 n"
        using arg_cong [OF z, of "\<lambda>v. bit v n"] by (simp add: bit_simps)
    qed
  qed
  ultimately show ?thesis by blast
qed

lemma length16: "n < 65536 \<Longrightarrow> unat (ucast (of_nat n :: u16) :: u32) = n"
  by (simp add: unsigned_ucast_eq unat_of_nat take_bit_nat_eq_self)

lemma length_record_bytes:
  "length (record_bytes e) = 46 + length (ze_name e) + length (ze_extra e) + length (ze_comment e)"
  by (simp add: record_bytes_def length_record_header)

lemma record_length_word:
  assumes "length (ze_name e) < 65536" and "length (ze_extra e) < 65536" and "length (ze_comment e) < 65536"
  shows "46 + ucast (of_nat (length (ze_name e)) :: u16) + ucast (of_nat (length (ze_extra e)) :: u16)
      + ucast (of_nat (length (ze_comment e)) :: u16) = (of_nat (length (record_bytes e)) :: u32)"
proof (rule unat_inj32)
  have "unat (46 + ucast (of_nat (length (ze_name e)) :: u16) + ucast (of_nat (length (ze_extra e)) :: u16)
      + ucast (of_nat (length (ze_comment e)) :: u16) :: u32) = length (record_bytes e)"
    using assms by (subst header_size) (simp_all add: length16 length_record_bytes)
  moreover have "length (record_bytes e) < 2 ^ 32" using assms by (simp add: length_record_bytes)
  ultimately show "unat (46 + ucast (of_nat (length (ze_name e)) :: u16) + ucast (of_nat (length (ze_extra e)) :: u16)
      + ucast (of_nat (length (ze_comment e)) :: u16) :: u32) = unat (of_nat (length (record_bytes e)) :: u32)"
    by (simp add: unat_of_nat32)
qed

lemma record_at:
  "mz_read_le16 (pre @ record_bytes e @ rest) (length pre + k)
     = mz_read_le16 (record_header e @ ze_name e @ ze_extra e @ ze_comment e @ rest) k"
  "mz_read_le32 (pre @ record_bytes e @ rest) (length pre + k)
     = mz_read_le32 (record_header e @ ze_name e @ ze_extra e @ ze_comment e @ rest) k"
  by (simp_all add: read_skip record_bytes_def)

lemma check_sizes_written:
  assumes fits: "entry_fits sz e" and sz: "sz < 2 ^ 32" and n: "length (record_bytes e) \<le> unat n"
  shows "check_sizes (of_nat sz) 0 (pre @ record_bytes e @ rest) n (length pre)
    = Some (Some (of_nat (length (record_bytes e))))"
proof -
  let ?ys = "ze_name e @ ze_extra e @ ze_comment e @ rest"
  obtain v where v: "mz_read_le32 (record_header e @ ?ys) 10 = Some v" "v = 0 \<longrightarrow> ze_method e = 0"
    using record_method32 by blast
  have len: "length (ze_name e) < 65536" "length (ze_extra e) < 65536" "length (ze_comment e) < 65536"
    using fits by (simp_all add: entry_fits_def)
  have lofs: "unat (ze_local_header_ofs e) + 30 + unat (ze_comp_size e) \<le> sz"
    using fits by (simp add: entry_fits_def)
  have "unat (ucast (ze_local_header_ofs e) + 30 + ucast (ze_comp_size e) :: u64)
      = unat (ze_local_header_ofs e) + 30 + unat (ze_comp_size e)"
    using lofs sz by (simp add: unat_word_ariths unat_ucast64)
  moreover have "unat (of_nat sz :: u64) = sz" using sz by (intro unat_of_nat64) simp
  ultimately have a: "\<not> of_nat sz < (ucast (ze_local_header_ofs e) + 30 + ucast (ze_comp_size e) :: u64)"
    using lofs by (simp add: word_less_nat_alt)
  have "length (record_bytes e) < 2 ^ 32" using len by (simp add: length_record_bytes)
  then have b: "\<not> n < of_nat (length (record_bytes e))"
    using n by (simp add: word_less_nat_alt unat_of_nat32)
  show ?thesis
    using fits v a b
    by (auto simp: check_sizes_def record_at record_fields record_length_word [OF len] entry_fits_def Let_def)
qed

lemma directory_bytes_simps:
  "directory_bytes [] = []" "directory_bytes (e # es) = record_bytes e @ directory_bytes es"
  "directory_bytes (es @ fs) = directory_bytes es @ directory_bytes fs"
  by (simp_all add: directory_bytes_def)

lemma index_records_written:
  assumes "list_all (entry_fits sz) fs" and "sz < 2 ^ 32" and "length (directory_bytes (ds @ fs)) < 2 ^ 32"
    and "length (ds @ fs) \<le> length offs" and "sorting \<Longrightarrow> length (ds @ fs) \<le> length idx"
    and "\<And>j. j < length ds \<Longrightarrow> offs ! j = of_nat (entry_ofs (ds @ fs) j)"
  shows "\<exists>offs' idx'. index_records (of_nat sz) 0 sorting (directory_bytes (ds @ fs)) (length (ds @ fs)) (length ds)
      (of_nat (length (directory_bytes fs))) (length (directory_bytes ds)) offs idx = Some (True, offs', idx')
    \<and> (\<forall>j < length (ds @ fs). offs' ! j = of_nat (entry_ofs (ds @ fs) j))"
  using assms
proof (induction fs arbitrary: ds offs idx)
  case Nil
  then show ?case by (subst index_records.simps) simp
next
  case (Cons e fs)
  let ?cdir = "directory_bytes (ds @ e # fs)" and ?p = "length (directory_bytes ds)"
  let ?n = "of_nat (length (directory_bytes (e # fs))) :: u32"
  have cdir: "?cdir = directory_bytes ds @ record_bytes e @ directory_bytes fs"
    by (simp add: directory_bytes_simps)
  have n: "unat ?n = length (record_bytes e) + length (directory_bytes fs)"
    using Cons.prems(3) by (subst unat_of_nat32) (simp_all add: directory_bytes_simps)
  have n46: "\<not> ?n < 46" using n by (simp add: word_less_nat_alt length_record_bytes)
  have sig: "mz_read_le32 ?cdir ?p = Some MZ_ZIP_CENTRAL_DIR_HEADER_SIG"
    unfolding cdir using record_at(2) [of "directory_bytes ds" e "directory_bytes fs" 0]
    by (simp add: record_fields MZ_ZIP_CENTRAL_DIR_HEADER_SIG_def)
  have chk: "check_sizes (of_nat sz) 0 ?cdir ?n ?p = Some (Some (of_nat (length (record_bytes e))))"
    unfolding cdir using Cons.prems n by (intro check_sizes_written) auto
  define offs1 where "offs1 = offs[length ds := of_nat ?p]"
  define idx1 where "idx1 = (if sorting then idx[length ds := of_nat (length ds)] else idx)"
  have st: "store offs (length ds) (of_nat ?p) = Some offs1"
    "(if sorting then store idx (length ds) (of_nat (length ds)) else Some idx) = Some idx1"
    using Cons.prems(4,5) by (auto simp: store_def offs1_def idx1_def)
  have l: "unat (of_nat (length (record_bytes e)) :: u32) = length (record_bytes e)"
    using Cons.prems(3) by (intro unat_of_nat32) (simp add: directory_bytes_simps)
  have step: "index_records (of_nat sz) 0 sorting ?cdir (length (ds @ e # fs)) (length ds) ?n ?p offs idx
    = index_records (of_nat sz) 0 sorting ?cdir (length (ds @ e # fs)) (length ds + 1)
        (?n - of_nat (length (record_bytes e))) (?p + length (record_bytes e)) offs1 idx1"
    using n46 sig chk st l by (subst index_records.simps) simp
  have ofs: "entry_ofs (ds @ e # fs) (length ds) = ?p" by (simp add: entry_ofs_def)
  have "\<exists>offs' idx'. index_records (of_nat sz) 0 sorting (directory_bytes ((ds @ [e]) @ fs)) (length ((ds @ [e]) @ fs))
      (length (ds @ [e])) (of_nat (length (directory_bytes fs))) (length (directory_bytes (ds @ [e]))) offs1 idx1
      = Some (True, offs', idx')
    \<and> (\<forall>j < length ((ds @ [e]) @ fs). offs' ! j = of_nat (entry_ofs ((ds @ [e]) @ fs) j))"
  proof (rule Cons.IH)
    show "offs1 ! j = of_nat (entry_ofs ((ds @ [e]) @ fs) j)" if "j < length (ds @ [e])" for j
      using that Cons.prems(4,6) ofs by (auto simp: offs1_def nth_list_update less_Suc_eq)
  qed (use Cons.prems in \<open>auto simp: offs1_def idx1_def\<close>)
  then show ?case using step by (simp add: directory_bytes_simps)
qed

section \<open>Finding the end record\<close>

lemma signature_scan_last:
  assumes "k = 0 \<or> k + 3 \<le> length buf"
  shows "\<exists>i. signature_scan buf k = Some i
    \<and> (i = - 1 \<and> (\<forall>j < k. mz_read_le32 buf j \<noteq> Some MZ_ZIP_END_OF_CENTRAL_DIR_HEADER_SIG)
       \<or> (\<exists>j < k. i = int j \<and> mz_read_le32 buf j = Some MZ_ZIP_END_OF_CENTRAL_DIR_HEADER_SIG
            \<and> (\<forall>j'. j < j' \<longrightarrow> j' < k \<longrightarrow> mz_read_le32 buf j' \<noteq> Some MZ_ZIP_END_OF_CENTRAL_DIR_HEADER_SIG)))"
  using assms
proof (induction k)
  case (Suc k)
  then obtain w where w: "mz_read_le32 buf k = Some w" using read_le32_inside [of k buf] by auto
  show ?case
  proof (cases "w = MZ_ZIP_END_OF_CENTRAL_DIR_HEADER_SIG")
    case True
    then show ?thesis using w by (auto intro!: exI [of _ k])
  next
    case False
    obtain i where i: "signature_scan buf k = Some i"
      "i = - 1 \<and> (\<forall>j < k. mz_read_le32 buf j \<noteq> Some MZ_ZIP_END_OF_CENTRAL_DIR_HEADER_SIG)
       \<or> (\<exists>j < k. i = int j \<and> mz_read_le32 buf j = Some MZ_ZIP_END_OF_CENTRAL_DIR_HEADER_SIG
            \<and> (\<forall>j'. j < j' \<longrightarrow> j' < k \<longrightarrow> mz_read_le32 buf j' \<noteq> Some MZ_ZIP_END_OF_CENTRAL_DIR_HEADER_SIG))"
      using Suc by auto
    have "signature_scan buf (Suc k) = Some i" using w False i(1) by simp
    moreover have "mz_read_le32 buf k \<noteq> Some MZ_ZIP_END_OF_CENTRAL_DIR_HEADER_SIG" using w False by simp
    ultimately show ?thesis using i(2) by (metis less_Suc_eq)
  qed
qed simp

lemma read_le32_part:
  assumes "j + 4 \<le> length (take n (drop c mem))"
  shows "mz_read_le32 (take n (drop c mem)) j = mz_read_le32 mem (c + j)"
proof -
  have "c + j + 4 \<le> length mem" using assms by (simp, linarith)
  then show ?thesis using assms by (simp add: mz_read_le32_def add.assoc)
qed

lemma find_end_record_last:
  assumes rd: "reads_as z mem" and len: "length mem < 2 ^ 32"
    and e: "mz_read_le32 mem e = Some MZ_ZIP_END_OF_CENTRAL_DIR_HEADER_SIG"
    and last_one: "\<And>j. e < j \<Longrightarrow> mz_read_le32 mem j \<noteq> Some MZ_ZIP_END_OF_CENTRAL_DIR_HEADER_SIG"
    and near: "length mem \<le> e + 65557"
    and "e + 4 \<le> c + min 4096 (length mem - c)" and "c + 4 \<le> length mem"
  shows "find_end_record z (int c) = Some (Some (int e))"
  using assms(6,7)
proof (induction c rule: less_induct)
  case (less c)
  let ?sig = "MZ_ZIP_END_OF_CENTRAL_DIR_HEADER_SIG"
  define m where "m = min 4096 (length mem - c)"
  have c64: "unat (word_of_int (int c) :: u64) = c" and l64: "unat (of_nat (length mem) :: u64) = length mem"
    using less.prems(2) len by (auto simp: unat_of_nat64 simp del: of_nat_numeral intro!: unat_of_nat64)
  have sz: "m_archive_size z = of_nat (length mem)" using rd by (simp add: reads_as_def)
  have left: "unat (m_archive_size z - word_of_int (int c)) = length mem - c"
    using less.prems(2) l64 c64 by (subst unat_sub) (simp_all add: sz word_le_nat_alt)
  define n where "n = (ucast (min 4096 (m_archive_size z - word_of_int (int c))) :: u32)"
  have "unat (min 4096 (m_archive_size z - word_of_int (int c))) = m"
    using left by (simp add: m_def min_def word_le_nat_alt)
  then have n: "unat n = m" by (simp add: n_def unsigned_ucast_eq take_bit_nat_eq_self m_def)
  define pBuf where "pBuf = take m (drop c mem)"
  have rb: "call_pRead z (word_of_int (int c)) n = Some pBuf"
    using read_mem [OF rd len, of "word_of_int (int c)" n] unfolding n c64 by (simp add: pBuf_def)
  have lb: "length pBuf = m" by (simp add: pBuf_def m_def)
  have m4: "4 \<le> m" using less.prems(2) by (simp add: m_def)
  obtain i where i: "signature_scan pBuf (m - 3) = Some i"
    "i = - 1 \<and> (\<forall>j < m - 3. mz_read_le32 pBuf j \<noteq> Some ?sig)
     \<or> (\<exists>j < m - 3. i = int j \<and> mz_read_le32 pBuf j = Some ?sig
          \<and> (\<forall>j'. j < j' \<longrightarrow> j' < m - 3 \<longrightarrow> mz_read_le32 pBuf j' \<noteq> Some ?sig))"
    using signature_scan_last [of "m - 3" pBuf] lb m4 by auto
  have at: "mz_read_le32 pBuf j = mz_read_le32 mem (c + j)" if "j < m - 3" for j
    unfolding pBuf_def using that lb by (intro read_le32_part) (simp add: pBuf_def)
  have step: "find_end_record z (int c) =
      (if 0 \<le> i then Some (Some (int c + i))
       else if c = 0 \<or> 0xFFFF + 22 \<le> m_archive_size z - word_of_int (int c) then Some None
       else find_end_record z (max (int c - 4093) 0))"
    by (subst find_end_record.simps)
      (simp only: Let_def n_def [symmetric] rb option.case lb n i(1) simp_thms if_False of_nat_eq_0_iff)
  show ?case
  proof (cases "c \<le> e")
    case True
    then have em: "e - c < m - 3" using less.prems(1) m4 by (simp add: m_def)
    then have "mz_read_le32 pBuf (e - c) = Some ?sig" using at e True by simp
    then obtain j where j: "j < m - 3" "i = int j" "mz_read_le32 mem (c + j) = Some ?sig"
      "\<forall>j'. j < j' \<longrightarrow> j' < m - 3 \<longrightarrow> mz_read_le32 pBuf j' \<noteq> Some ?sig"
      using i(2) em at by auto
    have "c + j = e"
    proof (rule antisym)
      show "c + j \<le> e" using last_one [of "c + j"] j(3) by (meson not_less)
      show "e \<le> c + j"
        using j(4) [rule_format, of "e - c"] em \<open>mz_read_le32 pBuf (e - c) = Some ?sig\<close> True by linarith
    qed
    then show ?thesis using step j(2) by auto
  next
    case False
    then have "mz_read_le32 mem (c + j) \<noteq> Some ?sig" for j using last_one [of "c + j"] by simp
    then have i1: "i = - 1" using i(2) at by auto
    have "\<not> 0xFFFF + 22 \<le> m_archive_size z - word_of_int (int c)"
      unfolding word_le_nat_alt left using False near by simp
    moreover have "max (int c - 4093) 0 = int (c - 4093)" by simp
    moreover have "find_end_record z (int (c - 4093)) = Some (Some (int e))"
      using less.prems False by (intro less.IH) (auto simp: min_def split: if_splits)
    ultimately show ?thesis using step i1 False by simp
  qed
qed

section \<open>Opening an archive that has been written\<close>

lemma load_central_dir_granted:
  assumes rd: "reads_as z mem" and len: "length mem < 2 ^ 32" and st: "m_pState z = Some st"
    and fresh: "fresh_state st" and answers: "m_answers z = True # True # True # answers"
    and total: "m_total_files z = of_nat (length es)" "length es < 65536" "es \<noteq> []"
    and part: "take (length (directory_bytes es)) (drop (unat (m_central_directory_file_ofs z)) mem) = directory_bytes es"
    and fits: "list_all (entry_fits (length mem)) es" and dlen: "length (directory_bytes es) < 2 ^ 32"
  shows "\<exists>z'. load_central_dir junk z sorting 0 (of_nat (length (directory_bytes es))) = Some (True, z')
    \<and> m_total_files z' = m_total_files z \<and> dir_bytes z' = directory_bytes es
    \<and> (\<forall>j < length es. dir_offsets z' ! j = of_nat (entry_ofs es j))"
proof -
  let ?size = "of_nat (length (directory_bytes es)) :: u32"
  have fa: "fresh_array 1 (m_central_dir st)" "fresh_array 4 (m_central_dir_offsets st)"
    "fresh_array 4 (m_sorted_central_dir_offsets st)"
    using fresh by (simp_all add: fresh_state_def)
  have size: "unat ?size = length (directory_bytes es)" using dlen by (intro unat_of_nat32)
  have n: "unat (m_total_files z) = length es" using total by (simp add: unat_of_nat32)
  have pos: "?size \<noteq> 0" "m_total_files z \<noteq> 0"
    using size n total(3) by (auto simp: unat_eq_0 [symmetric] directory_bytes_def record_bytes_def
        record_header_def le32_def neq_Nil_conv simp flip: unat_eq_0)
  obtain cd where cd: "mz_zip_array_resize (\<lambda>k. ucast (junk k)) (m_answers z) (m_central_dir st) ?size False
      = Some (True, True # True # answers, cd)" "length (m_p cd) = length (directory_bytes es)"
    using resize_fresh [OF fa(1), of ?size "\<lambda>k. ucast (junk k)" "m_answers z"] size dlen pos
    by (auto simp: next_answer_def answers)
  obtain offs where offs: "mz_zip_array_resize junk (True # True # answers) (m_central_dir_offsets st)
      (m_total_files z) False = Some (True, True # answers, offs)" "length (m_p offs) = length es"
    using resize_fresh [OF fa(2), of "m_total_files z" junk "True # True # answers"] n total(2) pos
    by (auto simp: next_answer_def)
  obtain ans3 idx where idx: "(if sorting then mz_zip_array_resize junk (True # answers)
        (m_sorted_central_dir_offsets st) (m_total_files z) False
        else Some (True, True # answers, m_sorted_central_dir_offsets st)) = Some (True, ans3, idx)"
      "sorting \<Longrightarrow> length (m_p idx) = length es"
    using resize_fresh [OF fa(3), of "m_total_files z" junk "True # answers"] n total(2) pos
    by (cases sorting) (auto simp: next_answer_def)
  define st3 where "st3 = st\<lparr>m_central_dir := cd, m_central_dir_offsets := offs,
      m_sorted_central_dir_offsets := idx\<rparr>"
  define z3 where "z3 = z\<lparr>m_answers := ans3, m_pState := Some st3\<rparr>"
  have "reads_as z3 mem" using rd st by (auto simp: reads_as_def z3_def st3_def)
  then have read: "call_pRead z3 (m_central_directory_file_ofs z) ?size = Some (directory_bytes es)"
    using read_mem [of z3 mem "m_central_directory_file_ofs z" ?size] len by (simp add: size part)
  have sp: "splice (m_p cd) 0 (directory_bytes es) = directory_bytes es" using cd(2) by (simp add: splice_def)
  have "m_archive_size z = of_nat (length mem)" using rd by (simp add: reads_as_def)
  moreover have "\<exists>offs' idx'. index_records (of_nat (length mem)) 0 sorting (directory_bytes ([] @ es)) (length ([] @ es))
      (length ([] :: zip_entry list)) ?size (length (directory_bytes [])) (m_p offs) (m_p idx) = Some (True, offs', idx')
    \<and> (\<forall>j < length ([] @ es). offs' ! j = of_nat (entry_ofs ([] @ es) j))"
    using fits len dlen offs(2) idx(2) by (intro index_records_written) auto
  ultimately obtain offs' idx' where r: "index_records (m_archive_size z) 0 sorting (directory_bytes es) (length es)
      0 ?size 0 (m_p offs) (m_p idx) = Some (True, offs', idx')"
    "\<forall>j < length es. offs' ! j = of_nat (entry_ofs es j)"
    by (auto simp: directory_bytes_simps)
  show ?thesis
    using st cd offs(1) idx(1) read sp r n size
    by (simp add: load_central_dir_def Let_def flip: st3_def z3_def)
      (auto simp: z3_def st3_def dir_bytes_def dir_offsets_def)
qed

lemma bytes_of_word:
  assumes "(ucast (a :: u8) OR push_bit 8 (ucast (b :: u8)) OR push_bit 16 (ucast (c :: u8))
      OR push_bit 24 (ucast (d :: u8)) :: u32) = w"
  shows "a = ucast w" and "b = ucast (drop_bit 8 w)" and "c = ucast (drop_bit 16 w)"
    and "d = ucast (drop_bit 24 w)"
  unfolding assms [symmetric] by (rule bit_word_eqI, auto simp: bit_simps dest: bit_imp_le_length)+

lemma signature_bytes:
  assumes "mz_read_le32 xs k = Some MZ_ZIP_END_OF_CENTRAL_DIR_HEADER_SIG"
  shows "take 4 (drop k xs) = [0x50, 0x4b, 5, 6]" and "k < length xs"
proof -
  have k: "k + 4 \<le> length xs"
    and w: "ucast (xs ! k) OR push_bit 8 (ucast (xs ! (k + 1))) OR push_bit 16 (ucast (xs ! (k + 2)))
      OR push_bit 24 (ucast (xs ! (k + 3))) = (0x06054b50 :: u32)"
    using assms by (auto simp: mz_read_le32_def MZ_ZIP_END_OF_CENTRAL_DIR_HEADER_SIG_def split: if_splits)
  have "take 4 (drop k xs) = [xs ! k, xs ! (k + 1), xs ! (k + 2), xs ! (k + 3)]"
    using k by (intro nth_equalityI) (auto simp: nth_Cons numeral_eq_Suc less_Suc_eq split: nat.split)
  then show "take 4 (drop k xs) = [0x50, 0x4b, 5, 6]"
    using bytes_of_word [OF w] by simp
  show "k < length xs" using k by simp
qed

lemma length_end_record: "length (end_record content es comment) = 22"
  by (simp add: end_record_def length_le)

lemma directory_at_least: "46 * length es \<le> length (directory_bytes es)"
  by (induction es) (simp_all add: directory_bytes_simps length_record_bytes)

lemma archive_bounds:
  assumes "archive_fits content es comment"
  shows "length es < 65536" "length comment < 65536" "length (archive_bytes content es comment) < 2 ^ 32"
  "length (archive_bytes content es comment)
     = length content + length (directory_bytes es) + 22 + length comment"
  using assms by (simp_all add: archive_fits_def archive_bytes_def length_end_record)

lemma archive_end_found:
  assumes fits: "archive_fits content es comment" and rd: "reads_as z (archive_bytes content es comment)"
  shows "find_end_record z (max (sint (m_archive_size z) - 4096) 0)
    = Some (Some (int (length content + length (directory_bytes es))))"
proof -
  note bounds = archive_bounds [OF fits]
  let ?mem = "archive_bytes content es comment" and ?e = "length content + length (directory_bytes es)"
  let ?tail = "end_record content es comment @ comment"
  have mem: "?mem = (content @ directory_bytes es) @ ?tail" by (simp add: archive_bytes_def)
  have at: "mz_read_le32 ?mem (?e + k) = mz_read_le32 ?tail k" for k
    using read_skip(2) [of "content @ directory_bytes es" ?tail k] by (simp add: mem)
  have "mz_read_le32 ?tail 0 = Some MZ_ZIP_END_OF_CENTRAL_DIR_HEADER_SIG"
    by (simp add: end_record_def at32 MZ_ZIP_END_OF_CENTRAL_DIR_HEADER_SIG_def)
  moreover have "mz_read_le32 ?mem j \<noteq> Some MZ_ZIP_END_OF_CENTRAL_DIR_HEADER_SIG" if "?e < j" for j
  proof
    assume "mz_read_le32 ?mem j = Some MZ_ZIP_END_OF_CENTRAL_DIR_HEADER_SIG"
    then have "mz_read_le32 ?tail (j - ?e) = Some MZ_ZIP_END_OF_CENTRAL_DIR_HEADER_SIG"
      using at [of "j - ?e"] that by simp
    from signature_bytes [OF this] have "j - ?e < length ?tail" "take 4 (drop (j - ?e) ?tail) = [0x50, 0x4b, 5, 6]"
      by simp_all
    moreover have "j - ?e \<in> set [1..<length ?tail]" using that calculation(1) by simp
    moreover have "\<forall>i \<in> set [1..<length ?tail]. take 4 (drop i ?tail) \<noteq> [0x50, 0x4b, 5, 6]"
      using fits unfolding archive_fits_def list_all_iff by blast
    ultimately show False by blast
  qed
  ultimately have "find_end_record z (int (length ?mem - 4096)) = Some (Some (int ?e))"
    using bounds at [of 0] by (intro find_end_record_last [OF rd]) auto
  moreover have "sint (m_archive_size z) = int (length ?mem)"
    using rd bounds(3) sint_word_of_int64 [of "int (length ?mem)"] by (auto simp: reads_as_def)
  moreover have "max (int (length ?mem) - 4096) 0 = int (length ?mem - 4096)" by simp
  ultimately show ?thesis by (simp only:)
qed

lemma archive_end_checked:
  assumes fits: "archive_fits content es comment"
    and sz: "m_archive_size z = of_nat (length (archive_bytes content es comment))"
  shows "check_end_record z (end_record content es comment)
    = Some (z\<lparr>m_total_files := of_nat (length es), m_central_directory_file_ofs := of_nat (length content)\<rparr>,
        Some (0, of_nat (length (directory_bytes es))))"
proof -
  note bounds = archive_bounds [OF fits]
  let ?E = "end_record content es comment" and ?d = "length (directory_bytes es)"
  have n: "ucast (of_nat (length es) :: u16) = (of_nat (length es) :: u32)"
    using bounds(1) by (intro unat_inj32) (simp add: length16 unat_of_nat32)
  have f: "mz_read_le32 ?E 0 = Some MZ_ZIP_END_OF_CENTRAL_DIR_HEADER_SIG" "mz_read_le16 ?E 4 = Some 0"
    "mz_read_le16 ?E 6 = Some 0" "mz_read_le16 ?E 8 = Some (of_nat (length es))"
    "mz_read_le16 ?E 10 = Some (of_nat (length es))" "mz_read_le32 ?E 12 = Some (of_nat ?d)"
    "mz_read_le32 ?E 16 = Some (of_nat (length content))"
    by (simp_all add: end_record_def field_simps16 n MZ_ZIP_END_OF_CENTRAL_DIR_HEADER_SIG_def)
  have d: "unat (of_nat ?d :: u32) = ?d" and c: "unat (of_nat (length content) :: u32) = length content"
    using bounds by (simp_all add: unat_of_nat32)
  have "unat (of_nat (length es) * 46 :: u32) = length es * 46"
    using bounds(1) by (simp add: unat_word_ariths unat_of_nat32)
  then have s1: "\<not> (of_nat ?d :: u32) < of_nat (length es) * 46"
    using directory_at_least [of es] by (simp add: word_less_nat_alt d)
  have "unat (ucast (of_nat (length content) :: u32) + ucast (of_nat ?d :: u32) :: u64) = length content + ?d"
    using bounds by (simp add: unat_word_ariths unat_ucast64 d c)
  moreover have "unat (of_nat (length (archive_bytes content es comment)) :: u64) = length (archive_bytes content es comment)"
    using bounds(3) by (intro unat_of_nat64) simp
  ultimately have s2: "\<not> m_archive_size z < ucast (of_nat (length content) :: u32) + ucast (of_nat ?d :: u32)"
    using bounds(4) by (simp add: sz word_less_nat_alt)
  have "unat (ucast (of_nat (length content) :: u32) :: u64) = unat (of_nat (length content) :: u64)"
    using bounds by (simp add: unat_ucast64 c unat_of_nat64)
  then have "ucast (of_nat (length content) :: u32) = (of_nat (length content) :: u64)"
    by (rule unsigned_word_eqI)
  then show ?thesis using f s1 s2 by (simp add: check_end_record_def Let_def)
qed

lemma sort_keeps_directory:
  "sort_central_dir z = Some z' \<Longrightarrow>
   m_total_files z' = m_total_files z \<and> dir_bytes z' = dir_bytes z \<and> dir_offsets z' = dir_offsets z"
  by (auto simp: sort_central_dir_def Let_def dir_bytes_def dir_offsets_def split: Option.bind_splits)

lemma index_central_dir_written:
  assumes rd: "reads_as z (archive_bytes content es comment)" and fits: "archive_fits content es comment"
    and st: "m_pState z = Some st" "fresh_state st" and mode: "m_zip_mode z = MZ_ZIP_MODE_READING"
    and answers: "m_answers z = True # True # True # answers"
    and total: "m_total_files z = of_nat (length es)"
    and ofs: "m_central_directory_file_ofs z = of_nat (length content)"
  shows "\<exists>z'. index_central_dir junk z sorting 0 (of_nat (length (directory_bytes es))) = Some (True, z')
    \<and> m_total_files z' = of_nat (length es) \<and> dir_bytes z' = directory_bytes es
    \<and> (\<forall>j < length es. dir_offsets z' ! j = of_nat (entry_ofs es j))"
proof -
  note bounds = archive_bounds [OF fits]
  let ?mem = "archive_bytes content es comment" and ?size = "of_nat (length (directory_bytes es)) :: u32"
  have n: "unat (m_total_files z) = length es" using total bounds(1) by (simp add: unat_of_nat32)
  have "unat (of_nat (length content) :: u64) = length content"
    using bounds(3,4) by (intro unat_of_nat64) simp
  then have part: "take (length (directory_bytes es)) (drop (unat (m_central_directory_file_ofs z)) ?mem) = directory_bytes es"
    by (simp add: ofs archive_bytes_def)
  have "\<exists>z2. (if m_total_files z \<noteq> 0 then load_central_dir junk z sorting 0 ?size else Some (True, z)) = Some (True, z2)
    \<and> m_total_files z2 = m_total_files z \<and> dir_bytes z2 = directory_bytes es
    \<and> (\<forall>j < length es. dir_offsets z2 ! j = of_nat (entry_ofs es j))"
  proof (cases "es = []")
    case True
    then show ?thesis
      using total st by (simp add: dir_bytes_def directory_bytes_simps fresh_state_def fresh_array_def empty_array_def)
  next
    case False
    then have "m_total_files z \<noteq> 0" using n by auto
    then show ?thesis
      using load_central_dir_granted [OF rd _ st answers total bounds(1) False part] fits bounds(3,4)
      by (simp add: archive_fits_def)
  qed
  then obtain z2 where z2: "(if m_total_files z \<noteq> 0 then load_central_dir junk z sorting 0 ?size else Some (True, z))
      = Some (True, z2)" "m_total_files z2 = m_total_files z" "dir_bytes z2 = directory_bytes es"
    "\<forall>j < length es. dir_offsets z2 ! j = of_nat (entry_ofs es j)" by blast
  obtain ok z' where res: "index_central_dir junk z sorting 0 ?size = Some (ok, z')"
    using index_central_dir_opens [OF rd bounds(3) st mode, of junk sorting 0 ?size] n bounds(1) by auto
  then have "ok \<and> (if sorting then sort_central_dir z2 = Some z' else z' = z2)"
    unfolding index_central_dir_def z2(1) by (auto split: if_splits Option.bind_splits)
  then have "ok \<and> m_total_files z' = m_total_files z2 \<and> dir_bytes z' = dir_bytes z2 \<and> dir_offsets z' = dir_offsets z2"
    using sort_keeps_directory [of z2 z'] by (auto split: if_splits)
  then show ?thesis using res z2 total by simp
qed

lemma open_written:
  assumes fits: "archive_fits content es comment"
  shows "\<exists>z'. mz_zip_reader_init_mem junk (zero_archive (True # True # True # True # answers))
      (archive_bytes content es comment) (of_nat (length (archive_bytes content es comment))) flags = Some (True, z')
    \<and> opened z' \<and> m_total_files z' = of_nat (length es) \<and> dir_bytes z' = directory_bytes es
    \<and> (\<forall>j < length es. dir_offsets z' ! j = of_nat (entry_ofs es j))"
proof -
  note bounds = archive_bounds [OF fits]
  let ?mem = "archive_bytes content es comment" and ?z0 = "zero_archive (True # True # True # True # answers)"
  let ?sorting = "flags AND MZ_ZIP_FLAG_DO_NOT_SORT_CENTRAL_DIRECTORY = 0"
  obtain ok z' where res: "mz_zip_reader_init_mem junk ?z0 ?mem (of_nat (length ?mem)) flags = Some (ok, z')"
    "ok \<longrightarrow> opened z'"
    using init_mem_opens [of ?z0 ?mem junk flags] bounds(3) by (auto simp: zero_archive_def)
  define z1 where "z1 = snd (mz_zip_reader_init_internal ?z0)"
  define z2 where "z2 = z1\<lparr>m_archive_size := ucast (of_nat (length ?mem) :: u32),
    m_pRead := Some Mz_Zip_Mem_Read_Func,
    m_pState := map_option (\<lambda>st. st\<lparr>m_pMem := Some ?mem, m_mem_size := of_nat (length ?mem)\<rparr>) (m_pState z1)\<rparr>"
  have z1: "mz_zip_reader_init_internal ?z0 = (True, z1)"
    unfolding z1_def by (simp add: mz_zip_reader_init_internal_def zero_archive_def next_answer_def Let_def)
  have "unat (ucast (of_nat (length ?mem) :: u32) :: u64) = unat (of_nat (length ?mem) :: u64)"
    using bounds(3) by (simp add: unat_ucast64 unat_of_nat32 unat_of_nat64)
  then have sz: "m_archive_size z2 = of_nat (length ?mem)"
    by (simp add: z2_def) (rule unsigned_word_eqI)
  obtain st where st: "m_pState z2 = Some st" "fresh_state st" "m_pMem st = Some ?mem"
    and mode: "m_zip_mode z2 = MZ_ZIP_MODE_READING" and answers: "m_answers z2 = True # True # True # answers"
    using z1 unfolding z2_def
    by (auto simp: mz_zip_reader_init_internal_def Let_def zero_archive_def next_answer_def
        fresh_state_def fresh_array_def)
  have rd: "reads_as z2 ?mem" using st(1,3) sz by (simp add: reads_as_def) (simp add: z2_def)
  let ?e = "length content + length (directory_bytes es)"
  let ?z3 = "z2\<lparr>m_total_files := of_nat (length es), m_central_directory_file_ofs := of_nat (length content)\<rparr>"
  have e: "unat (of_nat ?e :: u64) = ?e" using bounds(3,4) by (intro unat_of_nat64) simp
  have "take 22 (drop ?e ?mem) = end_record content es comment"
    by (simp add: archive_bytes_def length_end_record)
  then have rec: "call_pRead z2 (word_of_int (int ?e)) 22 = Some (end_record content es comment)"
    using read_mem [OF rd bounds(3), of "of_nat ?e" 22] e by simp
  have big: "\<not> m_archive_size z2 < 22"
    using bounds(3,4) unat_of_nat64 [of "length ?mem"] by (simp add: sz word_less_nat_alt)
  have "sint (m_archive_size z2) = int (length ?mem)"
    using sz bounds(3) sint_word_of_int64 [of "int (length ?mem)"] by simp
  then have "\<not> sint (m_archive_size z2) - 4096 < - (2 ^ 63)" by simp
  then have start: "mz_zip_reader_read_central_dir junk z2 flags
      = index_central_dir junk ?z3 ?sorting 0 (of_nat (length (directory_bytes es)))"
    using archive_end_found [OF fits rd] rec big archive_end_checked [OF fits sz]
    by (simp add: mz_zip_reader_read_central_dir_def length_end_record Let_def)
  have "\<exists>z'. index_central_dir junk ?z3 ?sorting 0 (of_nat (length (directory_bytes es))) = Some (True, z')
    \<and> m_total_files z' = of_nat (length es) \<and> dir_bytes z' = directory_bytes es
    \<and> (\<forall>j < length es. dir_offsets z' ! j = of_nat (entry_ofs es j))"
    using rd st fits mode answers by (intro index_central_dir_written) (auto simp: reads_as_def)
  then obtain z4 where z4: "mz_zip_reader_read_central_dir junk z2 flags = Some (True, z4)"
    "m_total_files z4 = of_nat (length es)" "dir_bytes z4 = directory_bytes es"
    "\<forall>j < length es. dir_offsets z4 ! j = of_nat (entry_ofs es j)"
    unfolding start by blast
  have "mz_zip_reader_init_mem junk ?z0 ?mem (of_nat (length ?mem)) flags = Some (True, z4)"
    using z1 z4(1) by (simp add: mz_zip_reader_init_mem_def finish_init_def z2_def)
  then show ?thesis using res z4 by auto
qed

section \<open>The entries of an archive that has been written\<close>

lemma directory_split:
  "i < length es \<Longrightarrow> directory_bytes es
     = directory_bytes (take i es) @ record_bytes (es ! i) @ directory_bytes (drop (Suc i) es)"
  by (metis directory_bytes_simps(2,3) id_take_nth_drop)

lemma bytes_at_part:
  "length xs = p \<Longrightarrow> n \<le> length ys \<Longrightarrow> bytes_at (xs @ ys @ zs) p n = Some (take n ys)"
  by (simp add: bytes_at_def slice_def)

lemma min_length16:
  assumes "n < 65536" and "m < 65536"
  shows "unat (min (ucast (of_nat n :: u16)) (of_nat m) :: u32) = min n m"
    and "(min (ucast (of_nat n :: u16)) (of_nat m) :: u32) = of_nat (min n m)"
proof -
  show u: "unat (min (ucast (of_nat n :: u16)) (of_nat m) :: u32) = min n m"
    using assms by (simp add: unat_min length16 unat_of_nat32)
  show "(min (ucast (of_nat n :: u16)) (of_nat m) :: u32) = of_nat (min n m)"
    using assms u unat_of_nat32 [of "min n m"] by (intro unat_inj32) simp
qed

lemma down_up: "ucast (ucast (w :: u16) :: u32) = w"
  by (rule bit_word_eqI) (auto simp: bit_simps dest: bit_imp_le_length)

lemma stat_of_written:
  assumes op: "opened z" and total: "m_total_files z = of_nat (length es)" "length es < 65536"
    and dir: "dir_bytes z = directory_bytes es" "length (directory_bytes es) < 2 ^ 32"
    and offs: "dir_offsets z ! i = of_nat (entry_ofs es i)" and i: "i < length es"
    and fits: "entry_fits sz (es ! i)"
  shows "mz_zip_reader_file_stat z (of_nat i) (Some s) = Some (True, Some (entry_stat es i s))"
proof -
  let ?e = "es ! i" and ?pre = "directory_bytes (take i es)" and ?rest = "directory_bytes (drop (Suc i) es)"
  have split: "directory_bytes es = ?pre @ record_bytes ?e @ ?rest" using i by (rule directory_split)
  have pre: "length ?pre = entry_ofs es i" by (simp add: entry_ofs_def)
  then have "entry_ofs es i < 2 ^ 32" using dir(2) split by (metis add_lessD1 length_append)
  then have p: "unat (of_nat (entry_ofs es i) :: u32) = entry_ofs es i" by (rule unat_of_nat32)
  have u: "unat (of_nat i :: u32) = i" "unat (m_total_files z) = length es"
    using i total by (simp_all add: unat_of_nat32)
  have h: "mz_zip_reader_get_cdh z (of_nat i) = Some (Some (?pre @ record_bytes ?e @ ?rest, entry_ofs es i))"
    using cdh_of_opened [OF op, of "of_nat i"] i dir(1) offs p split u by simp
  have len: "length (ze_name ?e) < 65536" "length (ze_extra ?e) < 65536" "length (ze_comment ?e) < 65536"
    using fits by (simp_all add: entry_fits_def)
  note at = record_at [of ?pre ?e ?rest, unfolded pre]
  have name: "bytes_at (?pre @ record_bytes ?e @ ?rest) (entry_ofs es i + 46) (min (length (ze_name ?e)) 259)
      = Some (take 259 (ze_name ?e))"
    using bytes_at_part [of "?pre @ record_header ?e" "entry_ofs es i + 46" "min (length (ze_name ?e)) 259"
        "ze_name ?e" "ze_extra ?e @ ze_comment ?e @ ?rest"]
    by (simp add: record_bytes_def length_record_header pre min_def)
  have comment: "bytes_at (?pre @ record_bytes ?e @ ?rest)
        (entry_ofs es i + 46 + length (ze_name ?e) + length (ze_extra ?e)) (min (length (ze_comment ?e)) 255)
      = Some (take 255 (ze_comment ?e))"
    using bytes_at_part [of "?pre @ record_header ?e @ ze_name ?e @ ze_extra ?e"
        "entry_ofs es i + 46 + length (ze_name ?e) + length (ze_extra ?e)" "min (length (ze_comment ?e)) 255"
        "ze_comment ?e" "?rest"]
    by (simp add: record_bytes_def length_record_header pre min_def)
  show ?thesis
    using h name comment len min_length16 [of "length (ze_name ?e)" 259] min_length16 [of "length (ze_comment ?e)" 255]
    by (simp add: mz_zip_reader_file_stat_def at record_fields length16 entry_stat_def down_up Let_def)
qed

lemma name_of_written:
  assumes dir: "dir_bytes z = directory_bytes es" "length (directory_bytes es) < 2 ^ 32"
    and offs: "dir_offsets z ! i = of_nat (entry_ofs es i)" "length es \<le> length (dir_offsets z)"
    and i: "i < length es" "length es < 65536" and len: "length (ze_name (es ! i)) < 65536"
  shows "file_name z i = ze_name (es ! i)"
proof -
  let ?e = "es ! i" and ?pre = "directory_bytes (take i es)" and ?rest = "directory_bytes (drop (Suc i) es)"
  have split: "directory_bytes es = ?pre @ record_bytes ?e @ ?rest" using i(1) by (rule directory_split)
  have pre: "length ?pre = entry_ofs es i" by (simp add: entry_ofs_def)
  then have "entry_ofs es i < 2 ^ 32" using dir(2) split by (metis add_lessD1 length_append)
  then have p: "unat (of_nat (entry_ofs es i) :: u32) = entry_ofs es i" by (rule unat_of_nat32)
  have u: "unat (of_nat i :: u32) = i" using i by (simp add: unat_of_nat32)
  have "record_of (dir_offsets z) (of_nat i) = Some (entry_ofs es i)"
    using i offs p elem_at_word [of "of_nat i" "dir_offsets z"] by (simp add: record_of_def u)
  moreover have "slice (?pre @ record_bytes ?e @ ?rest) (entry_ofs es i + 46) (length (ze_name ?e)) = ze_name ?e"
    by (simp add: slice_def record_bytes_def length_record_header pre [symmetric])
  ultimately show ?thesis
    using record_at [of ?pre ?e ?rest, unfolded pre] len
    by (simp add: file_name_def entry_name_def dir(1) split record_fields length16 length_record_bytes pre)
qed

section \<open>Properties\<close>

text \<open>C21: an archive in memory is opened safely. Whatever its bytes are and whatever the allocator
  answers, \<open>mz_zip_reader_init_mem\<close> returns without reading outside the archive or the central
  directory, and when it succeeds no query about any file and no search for any name reads outside
  the central directory.\<close>

theorem zip_reader_safe:
  assumes "m_pState z = None" and "length mem < 2 ^ 32"
  shows "\<exists>ok z'. mz_zip_reader_init_mem junk z mem (of_nat (length mem)) flags = Some (ok, z')
    \<and> (ok \<longrightarrow> (\<forall>i pStat buf n. mz_zip_reader_is_file_a_directory z' i \<noteq> None
           \<and> mz_zip_reader_is_file_encrypted z' i \<noteq> None \<and> mz_zip_reader_file_stat z' i pStat \<noteq> None
           \<and> mz_zip_reader_get_filename z' i buf n \<noteq> None)
         \<and> (\<forall>name comment fl. length name < 2 ^ 31 \<longrightarrow>
              mz_zip_reader_locate_file (Some z') (Some name) comment fl \<noteq> None))"
proof -
  obtain ok z' where r: "mz_zip_reader_init_mem junk z mem (of_nat (length mem)) flags = Some (ok, z')"
    "ok \<longrightarrow> opened z'"
    using init_mem_opens [OF assms] by blast
  have "ok \<Longrightarrow> (\<forall>i pStat buf n. mz_zip_reader_is_file_a_directory z' i \<noteq> None
      \<and> mz_zip_reader_is_file_encrypted z' i \<noteq> None \<and> mz_zip_reader_file_stat z' i pStat \<noteq> None
      \<and> mz_zip_reader_get_filename z' i buf n \<noteq> None)
    \<and> (\<forall>name comment fl. length name < 2 ^ 31 \<longrightarrow>
         mz_zip_reader_locate_file (Some z') (Some name) comment fl \<noteq> None)"
    using r(2) queries_return [of z'] locate_returns [of z'] by (metis option.discI option.inject)
  then show ?thesis using r(1) by blast
qed

text \<open>C20: the search by name is right, with the sorted index and without: on an opened archive a name
  is found if and only if a file has that name up to case, and the answer is the number of such a
  file.\<close>

theorem zip_locate_correct:
  assumes "m_pState z = None" and "length mem < 2 ^ 32"
    and "mz_zip_reader_init_mem junk z mem (of_nat (length mem)) flags = Some (True, z')"
    and "length name < 2 ^ 31" and "fl AND (MZ_ZIP_FLAG_IGNORE_PATH OR MZ_ZIP_FLAG_CASE_SENSITIVE) = 0"
  shows "\<exists>r. mz_zip_reader_locate_file (Some z') (Some name) None fl = Some r
    \<and> (r = - 1 \<and> (\<forall>i < unat (m_total_files z'). lower (file_name z' i) \<noteq> lower name)
       \<or> (\<exists>i < unat (m_total_files z'). r = int i \<and> lower (file_name z' i) = lower name))"
proof -
  have "opened z'" using init_mem_opens [OF assms(1,2), of junk flags] assms(3) by auto
  then show ?thesis
    using locate_finds [of z' name fl] assms(4,5) by (auto simp: located_def)
qed

text \<open>C19: the reader reads back what the format prescribes to write. An archive made of any data, the
  records of its entries and an end record with a comment is opened; it has exactly these entries,
  \<open>mz_zip_reader_file_stat\<close> reports their fields, names and comments, and a name is located if and
  only if it is the name of an entry up to case.\<close>

theorem zip_reads_back:
  assumes fits: "archive_fits content es comment"
  shows "\<exists>z'. mz_zip_reader_init_mem junk (zero_archive (True # True # True # True # answers))
      (archive_bytes content es comment) (of_nat (length (archive_bytes content es comment))) flags = Some (True, z')
    \<and> mz_zip_reader_get_num_files (Some z') = of_nat (length es)
    \<and> (\<forall>i < length es. \<forall>s. mz_zip_reader_file_stat z' (of_nat i) (Some s)
          = Some (True, Some (entry_stat es i s)))
    \<and> (\<forall>name. length name < 2 ^ 31 \<longrightarrow>
         (\<exists>r. mz_zip_reader_locate_file (Some z') (Some name) None 0 = Some r
           \<and> (r = - 1 \<and> (\<forall>i < length es. lower (ze_name (es ! i)) \<noteq> lower name)
              \<or> (\<exists>i < length es. r = int i \<and> lower (ze_name (es ! i)) = lower name))))"
proof -
  note bounds = archive_bounds [OF fits]
  obtain z' where z': "mz_zip_reader_init_mem junk (zero_archive (True # True # True # True # answers))
      (archive_bytes content es comment) (of_nat (length (archive_bytes content es comment))) flags = Some (True, z')"
    "opened z'" "m_total_files z' = of_nat (length es)" "dir_bytes z' = directory_bytes es"
    "\<forall>j < length es. dir_offsets z' ! j = of_nat (entry_ofs es j)"
    using open_written [OF fits] by blast
  have n: "unat (m_total_files z') = length es" using z'(3) bounds(1) by (simp add: unat_of_nat32)
  have d: "length (directory_bytes es) < 2 ^ 32" using bounds(3,4) by simp
  have ef: "entry_fits (length (archive_bytes content es comment)) (es ! i)" if "i < length es" for i
    using fits that by (simp add: archive_fits_def list_all_length)
  have stat: "mz_zip_reader_file_stat z' (of_nat i) (Some s) = Some (True, Some (entry_stat es i s))"
    if "i < length es" for i s
    using z' bounds(1) d that ef [OF that] by (intro stat_of_written) auto
  have lo: "length es \<le> length (dir_offsets z')"
    using opened_directory [OF z'(2)] n by (simp add: directory_ok_def)
  have name: "file_name z' i = ze_name (es ! i)" if "i < length es" for i
    using z' bounds(1) d that ef [OF that] lo by (intro name_of_written) (auto simp: entry_fits_def)
  have "\<exists>r. mz_zip_reader_locate_file (Some z') (Some nm) None 0 = Some r
      \<and> (r = - 1 \<and> (\<forall>i < length es. lower (ze_name (es ! i)) \<noteq> lower nm)
         \<or> (\<exists>i < length es. r = int i \<and> lower (ze_name (es ! i)) = lower nm))" if "length nm < 2 ^ 31" for nm
    using locate_finds [OF z'(2) that, of 0] name n by (auto simp: located_def)
  then show ?thesis using z'(1,3) stat by (auto simp: mz_zip_reader_get_num_files_def)
qed

text \<open>An archive of two empty files named \<open>B\<close> and \<open>a\<close>.\<close>

definition empty_file :: "bytes \<Rightarrow> zip_entry" where
  "empty_file name = \<lparr>ze_version_made_by = 20, ze_version_needed = 20, ze_bit_flag = 0, ze_method = 0,
     ze_time = 0, ze_date = 0, ze_crc32 = 0, ze_comp_size = 0, ze_uncomp_size = 0, ze_internal_attr = 0,
     ze_external_attr = 0, ze_local_header_ofs = 0, ze_name = name, ze_extra = [], ze_comment = []\<rparr>"

lemma example_fits: "archive_fits [] [empty_file [0x42], empty_file [0x61]] []"
proof -
  let ?es = "[empty_file [0x42], empty_file [0x61]]"
  have d: "length (directory_bytes ?es) = 94"
    by (simp add: directory_bytes_simps length_record_bytes empty_file_def)
  have a: "length (archive_bytes [] ?es []) = 116" by (simp add: archive_bytes_def length_end_record d)
  have e: "end_record [] ?es [] @ [] = [0x50, 0x4b, 5, 6, 0, 0, 0, 0, 2, 0, 2, 0, 94, 0, 0, 0, 0, 0, 0, 0, 0, 0]"
    unfolding end_record_def d by (simp add: le16_def le32_def)
  have "list_all (\<lambda>i. take 4 (drop i (end_record [] ?es [] @ [])) \<noteq> [0x50, 0x4b, 5, 6])
      [1..<length (end_record [] ?es [] @ [])]"
    unfolding e by (simp add: upt_conv_Cons del: upt_Suc)
  then show ?thesis
    unfolding archive_fits_def a by (simp add: entry_fits_def) (simp add: empty_file_def)
qed

theorem zip_reader_safe_witness:
  "\<exists>ok z'. mz_zip_reader_init_mem (\<lambda>_. 7) (zero_archive [True]) [0x50, 0x4b, 5, 6] 4 0 = Some (ok, z')"
  using zip_reader_safe [of "zero_archive [True]" "[0x50, 0x4b, 5, 6]" "\<lambda>_. 7" 0]
  by (auto simp: zero_archive_def)

theorem zip_locate_correct_witness:
  "\<exists>z' r. mz_zip_reader_init_mem (\<lambda>_. 7) (zero_archive [True, True, True, True])
      (archive_bytes [] [empty_file [0x42], empty_file [0x61]] []) 116 0 = Some (True, z')
    \<and> mz_zip_reader_locate_file (Some z') (Some [0x63]) None 0 = Some r"
proof -
  let ?mem = "archive_bytes [] [empty_file [0x42], empty_file [0x61]] []"
  have a: "length ?mem = 116"
    by (simp add: archive_bytes_def length_end_record directory_bytes_simps length_record_bytes empty_file_def)
  obtain z' where z': "mz_zip_reader_init_mem (\<lambda>_. 7) (zero_archive [True, True, True, True]) ?mem
      (of_nat (length ?mem)) 0 = Some (True, z')"
    using open_written [OF example_fits] by blast
  have "\<exists>r. mz_zip_reader_locate_file (Some z') (Some [0x63]) None 0 = Some r
    \<and> (r = - 1 \<and> (\<forall>i < unat (m_total_files z'). lower (file_name z' i) \<noteq> lower [0x63])
       \<or> (\<exists>i < unat (m_total_files z'). r = int i \<and> lower (file_name z' i) = lower [0x63]))"
    by (rule zip_locate_correct [OF _ _ z']) (simp_all add: zero_archive_def a)
  then show ?thesis using z' a by auto
qed

theorem zip_reads_back_witness:
  "\<exists>z'. mz_zip_reader_init_mem (\<lambda>_. 7) (zero_archive [True, True, True, True])
      (archive_bytes [] [empty_file [0x42], empty_file [0x61]] []) 116 0 = Some (True, z')
    \<and> mz_zip_reader_locate_file (Some z') (Some [0x41]) None 0 = Some 1
    \<and> mz_zip_reader_locate_file (Some z') (Some [0x43]) None 0 = Some (- 1)"
proof -
  let ?es = "[empty_file [0x42], empty_file [0x61]]"
  have a: "length (archive_bytes [] ?es []) = 116"
    by (simp add: archive_bytes_def length_end_record directory_bytes_simps length_record_bytes empty_file_def)
  obtain z' where z': "mz_zip_reader_init_mem (\<lambda>_. 7) (zero_archive [True, True, True, True])
      (archive_bytes [] ?es []) 116 0 = Some (True, z')"
    "\<And>name. length name < 2 ^ 31 \<Longrightarrow>
       \<exists>r. mz_zip_reader_locate_file (Some z') (Some name) None 0 = Some r
         \<and> (r = - 1 \<and> (\<forall>i < length ?es. lower (ze_name (?es ! i)) \<noteq> lower name)
            \<or> (\<exists>i < length ?es. r = int i \<and> lower (ze_name (?es ! i)) = lower name))"
    using zip_reads_back [OF example_fits, of "\<lambda>_. 7" "[]" 0] unfolding a by auto
  have names: "lower (ze_name (?es ! 0)) = [0x62]" "lower (ze_name (?es ! 1)) = [0x61]"
    "lower [0x41] = [0x61]" "lower [0x43] = [0x63]"
    by code_simp+
  have two: "(\<forall>i < length ?es. P i) \<longleftrightarrow> P 0 \<and> P 1" "(\<exists>i < length ?es. P i) \<longleftrightarrow> P 0 \<or> P 1" for P
    by (auto simp: less_Suc_eq)
  have "mz_zip_reader_locate_file (Some z') (Some [0x41]) None 0 = Some 1"
    using z'(2) [of "[0x41]"] unfolding two names by auto
  moreover have "mz_zip_reader_locate_file (Some z') (Some [0x43]) None 0 = Some (- 1)"
    using z'(2) [of "[0x43]"] unfolding two names by auto
  ultimately show ?thesis using z'(1) by auto
qed

end
