(* ===== verification/Inflate.thy ===== *)
theory Inflate
  imports Zip_Sort
begin

text \<open>
  The decompressor of the zip library (\<open>tinfl_decompress\<close> in \<open>miniz/miniz.c\<close>) as the extraction of a
  file in memory calls it: once, from the initial state, with all of the input, with an output
  buffer for the whole file (\<open>TINFL_FLAG_USING_NON_WRAPPING_OUTPUT_BUF\<close> and no other flag), with the
  32-bit bit buffer and without unaligned accesses. In this mode no call suspends to be resumed: each
  \<open>TINFL_CR_RETURN\<close> ends the call with a status.

  The state is the position in the input, the bit buffer, the output buffer and the position in it.
  Reading bits never ends the call (missing bytes are zero). The functions that can end it return a
  \<open>step\<close>: \<open>Stop\<close> with the status, or \<open>Go\<close>. \<^term>\<open>None\<close> is an access outside an array. Counters that
  stay below \<open>2 ^ 16\<close> are natural numbers; the subtraction from \<open>num_bits\<close> wraps around.
\<close>

section \<open>State\<close>

datatype tinfl_status = TINFL_STATUS_BAD_PARAM | TINFL_STATUS_ADLER32_MISMATCH | TINFL_STATUS_FAILED
  | TINFL_STATUS_DONE | TINFL_STATUS_NEEDS_MORE_INPUT | TINFL_STATUS_HAS_MORE_OUTPUT

record tinfl_state =
  in_cur :: nat
  bit_buf :: u32
  num_bits :: nat
  out_buf :: bytes
  out_cur :: nat

datatype 'a step = Stop tinfl_status tinfl_state | Go 'a

record tinfl_huff_table =
  look_up :: "int list"
  tree :: "int list"

definition s_length_base :: "nat list" where
  "s_length_base = [3,4,5,6,7,8,9,10,11,13, 15,17,19,23,27,31,35,43,51,59, 67,83,99,115,131,163,195,227,258,0,0]"

definition s_length_extra :: "nat list" where
  "s_length_extra = [0,0,0,0,0,0,0,0,1,1,1,1,2,2,2,2,3,3,3,3,4,4,4,4,5,5,5,5,0,0,0]"

definition s_dist_base :: "nat list" where
  "s_dist_base = [1,2,3,4,5,7,9,13,17,25,33,49,65,97,129,193, 257,385,513,769,1025,1537,2049,3073,4097,6145,8193,12289,16385,24577,0,0]"

definition s_dist_extra :: "nat list" where
  "s_dist_extra = [0,0,0,0,1,1,2,2,3,3,4,4,5,5,6,6,7,7,8,8,9,9,10,10,11,11,12,12,13,13,0,0]"

definition s_length_dezigzag :: "nat list" where
  "s_length_dezigzag = [16,17,18,0,8,7,9,6,10,5,11,4,12,3,13,2,14,1,15]"

section \<open>Bits\<close>

definition sub32 :: "nat \<Rightarrow> nat \<Rightarrow> nat" where
  "sub32 a b = (a + 2 ^ 32 - b) mod 2 ^ 32"

definition tinfl_get_byte :: "bytes \<Rightarrow> tinfl_state \<Rightarrow> u8 \<times> tinfl_state" where
  "tinfl_get_byte inp st =
     (if in_cur st < length inp then (inp ! in_cur st, st\<lparr>in_cur := in_cur st + 1\<rparr>) else (0, st))"

definition add_byte :: "bytes \<Rightarrow> tinfl_state \<Rightarrow> tinfl_state" where
  "add_byte inp st =
     (let (c, st1) = tinfl_get_byte inp st
      in st1\<lparr>bit_buf := bit_buf st1 OR push_bit (num_bits st1) (ucast c), num_bits := num_bits st1 + 8\<rparr>)"

function need_bits :: "bytes \<Rightarrow> nat \<Rightarrow> tinfl_state \<Rightarrow> tinfl_state" where
  "need_bits inp n st =
     (let st1 = add_byte inp st in if num_bits st1 < n then need_bits inp n st1 else st1)"
  by pat_completeness auto
termination
  by (relation "measure (\<lambda>(inp, n, st). n - num_bits st)")
    (auto simp: add_byte_def tinfl_get_byte_def Let_def split: prod.splits if_splits)

declare need_bits.simps [simp del]

definition drop_bits :: "nat \<Rightarrow> tinfl_state \<Rightarrow> tinfl_state" where
  "drop_bits n st = st\<lparr>bit_buf := drop_bit n (bit_buf st), num_bits := sub32 (num_bits st) n\<rparr>"

definition tinfl_get_bits :: "bytes \<Rightarrow> nat \<Rightarrow> tinfl_state \<Rightarrow> nat \<times> tinfl_state" where
  "tinfl_get_bits inp n st =
     (let st1 = (if num_bits st < n then need_bits inp n st else st)
      in (unat (bit_buf st1 AND mask n), drop_bits n st1))"

section \<open>Huffman tables\<close>

text \<open>A table is built from the list of the code sizes of its symbols. The two arrays are cleared;
  the counts of the sizes give the first code of each size.\<close>

definition to_int16 :: "int \<Rightarrow> int" where
  "to_int16 x = sint (word_of_int x :: 16 word)"

definition set_at :: "'a list \<Rightarrow> int \<Rightarrow> 'a \<Rightarrow> 'a list option" where
  "set_at xs i x = (if 0 \<le> i \<and> nat i < length xs then Some (xs[nat i := x]) else None)"

fun count_sizes :: "bytes \<Rightarrow> nat list \<Rightarrow> nat list option" where
  "count_sizes [] total_syms = Some total_syms"
| "count_sizes (c # cs) total_syms =
     (if unat c < length total_syms
      then count_sizes cs (total_syms[unat c := total_syms ! unat c + 1]) else None)"

text \<open>The loop over \<open>i = 1 \<dots> 15\<close>: \<open>used_syms\<close>, \<open>total\<close> and \<open>next_code\<close>.\<close>

fun first_codes :: "nat list \<Rightarrow> nat list \<Rightarrow> nat \<times> nat \<times> nat list \<Rightarrow> nat \<times> nat \<times> nat list" where
  "first_codes total_syms [] r = r"
| "first_codes total_syms (i # ns) (used_syms, tot, next_code) =
     (let tot' = push_bit 1 (tot + total_syms ! i)
      in first_codes total_syms ns (used_syms + total_syms ! i, tot', next_code[i + 1 := tot']))"

fun reverse_code :: "nat \<Rightarrow> nat \<Rightarrow> nat \<Rightarrow> nat" where
  "reverse_code 0 cur_code rev_code = rev_code"
| "reverse_code (Suc l) cur_code rev_code =
     reverse_code l (drop_bit 1 cur_code) (push_bit 1 rev_code OR (cur_code AND 1))"

function fill_look_up :: "int list \<Rightarrow> nat \<Rightarrow> nat \<Rightarrow> int \<Rightarrow> int list option" where
  "fill_look_up xs rev_code code_size k =
     (if rev_code < 1024
      then case set_at xs (int rev_code) k of
             None \<Rightarrow> None
           | Some xs' \<Rightarrow> fill_look_up xs' (rev_code + push_bit code_size 1) code_size k
      else Some xs)"
  by pat_completeness auto
termination
  by (relation "measure (\<lambda>(xs, r, c, k). 1024 - r)") (auto simp: push_bit_eq_mult intro!: diff_less_mono2 less_add_same_cancel1 [THEN iffD2])

declare fill_look_up.simps [simp del]

text \<open>The loop over \<open>j\<close>, here counting the rounds that are left.\<close>

fun grow_tree :: "nat \<Rightarrow> nat \<Rightarrow> int \<Rightarrow> int \<Rightarrow> int list \<Rightarrow> (nat \<times> int \<times> int \<times> int list) option" where
  "grow_tree 0 rev_code tree_cur tree_next tr = Some (rev_code, tree_cur, tree_next, tr)"
| "grow_tree (Suc j) rev_code tree_cur tree_next tr =
     (let rev_code' = drop_bit 1 rev_code;
          cur = tree_cur - int (rev_code' AND 1)
      in case elem_at tr (- cur - 1) of
           None \<Rightarrow> None
         | Some t \<Rightarrow>
             if t = 0
             then (case set_at tr (- cur - 1) (to_int16 tree_next) of
                     None \<Rightarrow> None
                   | Some tr' \<Rightarrow> grow_tree j rev_code' tree_next (tree_next - 2) tr')
             else grow_tree j rev_code' t tree_next tr)"

record build_state =
  b_next_code :: "nat list"
  b_tree_next :: int
  b_look_up :: "int list"
  b_tree :: "int list"

definition insert_long :: "nat \<Rightarrow> nat \<Rightarrow> nat \<Rightarrow> build_state \<Rightarrow> build_state option" where
  "insert_long sym_index code_size rev_code b =
     do {
       let slot = int (rev_code AND 1023);
       cur \<leftarrow> elem_at (b_look_up b) slot;
       (tree_cur, tree_next, lu) \<leftarrow>
         (if cur = 0
          then do { lu \<leftarrow> set_at (b_look_up b) slot (to_int16 (b_tree_next b));
                    Some (b_tree_next b, b_tree_next b - 2, lu) }
          else Some (cur, b_tree_next b, b_look_up b));
       (rev', tree_cur', tree_next', tr) \<leftarrow>
         grow_tree (code_size - 11) (drop_bit 9 rev_code) tree_cur tree_next (b_tree b);
       tr' \<leftarrow> set_at tr (- (tree_cur' - int (drop_bit 1 rev' AND 1)) - 1) (to_int16 (int sym_index));
       Some (b\<lparr>b_tree_next := tree_next', b_look_up := lu, b_tree := tr'\<rparr>)
     }"

definition insert_symbol :: "nat \<Rightarrow> nat \<Rightarrow> build_state \<Rightarrow> build_state option" where
  "insert_symbol sym_index code_size b =
     (if code_size = 0 then Some b
      else do {
        cur_code \<leftarrow> elem_at (b_next_code b) (int code_size);
        let b1 = b\<lparr>b_next_code := (b_next_code b)[code_size := cur_code + 1]\<rparr>;
        let rev_code = reverse_code code_size cur_code 0;
        if code_size \<le> 10
        then do {
          lu \<leftarrow> fill_look_up (b_look_up b1) rev_code code_size
                 (to_int16 (int (push_bit 9 code_size OR sym_index)));
          Some (b1\<lparr>b_look_up := lu\<rparr>)
        }
        else insert_long sym_index code_size rev_code b1
      })"

fun insert_symbols :: "nat \<Rightarrow> bytes \<Rightarrow> build_state \<Rightarrow> build_state option" where
  "insert_symbols sym_index [] b = Some b"
| "insert_symbols sym_index (c # cs) b =
     (case insert_symbol sym_index (unat c) b of
        None \<Rightarrow> None | Some b' \<Rightarrow> insert_symbols (sym_index + 1) cs b')"

text \<open>\<^term>\<open>Some None\<close>: the sizes are not those of a code, and the call ends with
  \<open>TINFL_STATUS_FAILED\<close>.\<close>

definition build_table :: "bytes \<Rightarrow> tinfl_huff_table option option" where
  "build_table code_size =
     do {
       total_syms \<leftarrow> count_sizes code_size (replicate 16 0);
       let (used_syms, tot, next_code) = first_codes total_syms [1..<16] (0, 0, replicate 17 0);
       if tot \<noteq> 65536 \<and> 1 < used_syms then Some None
       else do {
         b \<leftarrow> insert_symbols 0 code_size \<lparr>b_next_code = next_code, b_tree_next = - 1,
                b_look_up = replicate 1024 0, b_tree = replicate 576 0\<rparr>;
         Some (Some \<lparr>look_up = b_look_up b, tree = b_tree b\<rparr>)
       }
     }"

section \<open>Decoding of a symbol\<close>

function tree_walk :: "int list \<Rightarrow> u32 \<Rightarrow> int \<Rightarrow> nat \<Rightarrow> (int \<times> nat) option" where
  "tree_walk tr bits temp code_len =
     (if 32 \<le> code_len then None
      else case elem_at tr (- temp - 1 + (if bit bits code_len then 1 else 0)) of
             None \<Rightarrow> None
           | Some t \<Rightarrow> if t < 0 then tree_walk tr bits t (code_len + 1) else Some (t, code_len + 1))"
  by pat_completeness auto
termination by (relation "measure (\<lambda>(tr, bits, temp, code_len). 32 - code_len)") auto

declare tree_walk.simps [simp del]

text \<open>The symbol and the size of its code, from the bits in the buffer.\<close>

definition huff_lookup :: "tinfl_huff_table \<Rightarrow> u32 \<Rightarrow> (nat \<times> nat) option" where
  "huff_lookup tbl bits =
     do {
       temp \<leftarrow> elem_at (look_up tbl) (int (unat (bits AND 1023)));
       if 0 \<le> temp then Some (nat (temp AND 511), nat (drop_bit 9 temp))
       else do { (t, code_len) \<leftarrow> tree_walk (tree tbl) bits temp 10; Some (nat t, code_len) }
     }"

text \<open>\<open>TINFL_HUFF_BITBUF_FILL\<close>: a byte is added only when the bits in the buffer do not determine a
  symbol. The inner loop stops at a leaf or when the bits are used up.\<close>

function fill_walk :: "int list \<Rightarrow> u32 \<Rightarrow> nat \<Rightarrow> int \<Rightarrow> nat \<Rightarrow> int option" where
  "fill_walk tr bits n temp code_len =
     (if 32 \<le> code_len then None
      else case elem_at tr (- temp - 1 + (if bit bits code_len then 1 else 0)) of
             None \<Rightarrow> None
           | Some t \<Rightarrow> if t < 0 \<and> code_len + 2 \<le> n then fill_walk tr bits n t (code_len + 1) else Some t)"
  by pat_completeness auto
termination by (relation "measure (\<lambda>(tr, bits, n, temp, code_len). 32 - code_len)") auto

declare fill_walk.simps [simp del]

definition symbol_ready :: "tinfl_huff_table \<Rightarrow> tinfl_state \<Rightarrow> bool option" where
  "symbol_ready tbl st =
     do {
       temp \<leftarrow> elem_at (look_up tbl) (int (unat (bit_buf st AND 1023)));
       if 0 \<le> temp
       then Some (drop_bit 9 temp \<noteq> 0 \<and> drop_bit 9 temp \<le> int (num_bits st))
       else if 10 < num_bits st
       then do { t \<leftarrow> fill_walk (tree tbl) (bit_buf st) (num_bits st) temp 10; Some (0 \<le> t) }
       else Some False
     }"

function huff_fill :: "bytes \<Rightarrow> tinfl_huff_table \<Rightarrow> tinfl_state \<Rightarrow> tinfl_state option" where
  "huff_fill inp tbl st =
     (case symbol_ready tbl st of
        None \<Rightarrow> None
      | Some ready \<Rightarrow>
          if ready then Some st
          else (let st1 = add_byte inp st in if num_bits st1 < 15 then huff_fill inp tbl st1 else Some st1))"
  by pat_completeness auto
termination
  by (relation "measure (\<lambda>(inp, tbl, st). 15 - num_bits st)")
    (auto simp: add_byte_def tinfl_get_byte_def Let_def split: prod.splits if_splits)

declare huff_fill.simps [simp del]

text \<open>Two bytes at once, where the input has them.\<close>

definition add_two :: "bytes \<Rightarrow> tinfl_state \<Rightarrow> tinfl_state" where
  "add_two inp st = st\<lparr>bit_buf := bit_buf st OR push_bit (num_bits st) (ucast (inp ! in_cur st))
       OR push_bit (num_bits st + 8) (ucast (inp ! (in_cur st + 1))),
     in_cur := in_cur st + 2, num_bits := num_bits st + 16\<rparr>"

definition huff_decode :: "bytes \<Rightarrow> tinfl_huff_table \<Rightarrow> tinfl_state \<Rightarrow> (nat \<times> tinfl_state) option" where
  "huff_decode inp tbl st =
     do {
       st1 \<leftarrow> (if num_bits st < 15
               then if length inp - in_cur st < 2 then huff_fill inp tbl st else Some (add_two inp st)
               else Some st);
       (symb, code_len) \<leftarrow> huff_lookup tbl (bit_buf st1);
       Some (symb, drop_bits code_len st1)
     }"

section \<open>Stored blocks\<close>

definition put_byte :: "u8 \<Rightarrow> tinfl_state \<Rightarrow> tinfl_state" where
  "put_byte b st = st\<lparr>out_buf := (out_buf st)[out_cur st := b], out_cur := out_cur st + 1\<rparr>"

fun raw_header :: "bytes \<Rightarrow> nat \<Rightarrow> tinfl_state \<Rightarrow> nat list \<times> tinfl_state" where
  "raw_header inp 0 st = ([], st)"
| "raw_header inp (Suc k) st =
     (let (c, st1) = (if num_bits st \<noteq> 0 then tinfl_get_bits inp 8 st
                      else let (b, st1) = tinfl_get_byte inp st in (unat b, st1));
          (cs, st2) = raw_header inp k st1
      in (c # cs, st2))"

fun raw_from_bits :: "bytes \<Rightarrow> nat \<Rightarrow> tinfl_state \<Rightarrow> (nat \<times> tinfl_state) step" where
  "raw_from_bits inp 0 st = Go (0, st)"
| "raw_from_bits inp (Suc counter) st =
     (if num_bits st = 0 then Go (Suc counter, st)
      else let (d, st1) = tinfl_get_bits inp 8 st
           in if length (out_buf st1) \<le> out_cur st1 then Stop TINFL_STATUS_HAS_MORE_OUTPUT st1
              else raw_from_bits inp counter (put_byte (of_nat d) st1))"

function raw_copy :: "bytes \<Rightarrow> nat \<Rightarrow> tinfl_state \<Rightarrow> tinfl_state step" where
  "raw_copy inp counter st =
     (if counter = 0 then Go st
      else if length (out_buf st) \<le> out_cur st then Stop TINFL_STATUS_HAS_MORE_OUTPUT st
      else if length inp \<le> in_cur st then Stop TINFL_STATUS_FAILED st
      else let n = min (min (length (out_buf st) - out_cur st) (length inp - in_cur st)) counter
           in raw_copy inp (counter - n)
                (st\<lparr>out_buf := splice (out_buf st) (out_cur st) (slice inp (in_cur st) n),
                   in_cur := in_cur st + n, out_cur := out_cur st + n\<rparr>))"
  by pat_completeness auto
termination by (relation "measure (\<lambda>(inp, counter, st). counter)") auto

declare raw_copy.simps [simp del]

definition stored_block :: "bytes \<Rightarrow> tinfl_state \<Rightarrow> tinfl_state step" where
  "stored_block inp st =
     (let (h, st1) = raw_header inp 4 (drop_bits (num_bits st mod 8) st);
          counter = h ! 0 OR push_bit 8 (h ! 1)
      in if counter \<noteq> 0xFFFF XOR (h ! 2 OR push_bit 8 (h ! 3)) then Stop TINFL_STATUS_FAILED st1
         else case raw_from_bits inp counter st1 of
                Stop s st2 \<Rightarrow> Stop s st2
              | Go (counter', st2) \<Rightarrow> raw_copy inp counter' st2)"

section \<open>Code sizes\<close>

definition fixed_sizes :: "bytes" where
  "fixed_sizes = replicate 144 8 @ replicate 112 9 @ replicate 24 7 @ replicate 8 8"

fun size_code_sizes :: "bytes \<Rightarrow> nat list \<Rightarrow> bytes \<Rightarrow> tinfl_state \<Rightarrow> bytes \<times> tinfl_state" where
  "size_code_sizes inp [] sizes st = (sizes, st)"
| "size_code_sizes inp (i # ns) sizes st =
     (let (s, st1) = tinfl_get_bits inp 3 st in size_code_sizes inp ns (sizes[i := of_nat s]) st1)"

text \<open>The code sizes of the literals and distances; \<open>codes\<close> holds the first \<open>counter\<close> of \<open>m_len_codes\<close>,
  an array of 457 bytes.\<close>

lemma elem_at_in: "elem_at xs i = Some x \<Longrightarrow> x \<in> set xs"
  by (auto simp: elem_at_def split: if_splits)

function read_sizes ::
  "bytes \<Rightarrow> tinfl_huff_table \<Rightarrow> nat \<Rightarrow> bytes \<Rightarrow> tinfl_state \<Rightarrow> (bytes \<times> tinfl_state) step option" where
  "read_sizes inp tbl n codes st =
     (if n \<le> length codes then Some (Go (codes, st))
      else case huff_decode inp tbl st of
        None \<Rightarrow> None
      | Some (d, st1) \<Rightarrow>
          if d < 16 then read_sizes inp tbl n (codes @ [of_nat d]) st1
          else if d = 16 \<and> codes = [] then Some (Stop TINFL_STATUS_FAILED st1)
          else (case (elem_at [2, 3, 7] (int d - 16), elem_at [3, 3, 11] (int d - 16)) of
              (Some num_extra, Some base) \<Rightarrow>
                (let (s, st2) = tinfl_get_bits inp num_extra st1; m = s + base
                 in if 457 < length codes + m then None
                    else read_sizes inp tbl n
                           (codes @ replicate m (if d = 16 then last codes else 0)) st2)
            | _ \<Rightarrow> None))"
  by pat_completeness auto
termination
  by (relation "measure (\<lambda>(inp, tbl, n, codes, st). n - length codes)")
    (auto dest!: elem_at_in [OF sym])

declare read_sizes.simps [simp del]

definition dynamic_sizes :: "bytes \<Rightarrow> tinfl_state \<Rightarrow> (bytes \<times> bytes \<times> tinfl_state) step option" where
  "dynamic_sizes inp st =
     (let (a, st1) = tinfl_get_bits inp 5 st;
          (b, st2) = tinfl_get_bits inp 5 st1;
          (c, st3) = tinfl_get_bits inp 4 st2;
          n0 = a + 257; n1 = b + 1; n2 = c + 4;
          (sizes, st4) = size_code_sizes inp (take n2 s_length_dezigzag) (replicate 19 0) st3
      in case build_table sizes of
           None \<Rightarrow> None
         | Some None \<Rightarrow> Some (Stop TINFL_STATUS_FAILED st4)
         | Some (Some tbl) \<Rightarrow>
             (case read_sizes inp tbl (n0 + n1) [] st4 of
                None \<Rightarrow> None
              | Some (Stop s st5) \<Rightarrow> Some (Stop s st5)
              | Some (Go (codes, st5)) \<Rightarrow>
                  if length codes \<noteq> n0 + n1 then Some (Stop TINFL_STATUS_FAILED st5)
                  else Some (Go (take n0 codes, drop n0 codes, st5))))"

section \<open>Compressed blocks\<close>

text \<open>The loop over literals ends with the first symbol that is not one.\<close>

definition fast_lookup :: "bytes \<Rightarrow> tinfl_huff_table \<Rightarrow> tinfl_state \<Rightarrow> (nat \<times> tinfl_state) option" where
  "fast_lookup inp tbl st =
     do {
       let st1 = (if num_bits st < 15 then add_two inp st else st);
       (symb, code_len) \<leftarrow> huff_lookup tbl (bit_buf st1);
       Some (symb, drop_bits code_len st1)
     }"

function literals :: "bytes \<Rightarrow> tinfl_huff_table \<Rightarrow> tinfl_state \<Rightarrow> (nat \<times> tinfl_state) step option" where
  "literals inp tbl st =
     (if length inp - in_cur st < 4 \<or> length (out_buf st) - out_cur st < 2
      then (case huff_decode inp tbl st of
          None \<Rightarrow> None
        | Some (symb, st1) \<Rightarrow>
            if 256 \<le> symb then Some (Go (symb, st1))
            else if length (out_buf st) \<le> out_cur st
            then Some (Stop TINFL_STATUS_HAS_MORE_OUTPUT st1)
            else literals inp tbl (st1\<lparr>out_buf := (out_buf st)[out_cur st := of_nat symb], out_cur := out_cur st + 1\<rparr>))
      else (case fast_lookup inp tbl st of
          None \<Rightarrow> None
        | Some (symb, st1) \<Rightarrow>
            if symb AND 256 \<noteq> 0 then Some (Go (symb, st1))
            else (case fast_lookup inp tbl st1 of
                None \<Rightarrow> None
              | Some (sym2, st2) \<Rightarrow>
                  if sym2 AND 256 \<noteq> 0
                  then Some (Go (sym2, st2\<lparr>out_buf := (out_buf st)[out_cur st := of_nat symb], out_cur := out_cur st + 1\<rparr>))
                  else literals inp tbl
                    (st2\<lparr>out_buf := ((out_buf st)[out_cur st := of_nat symb])[out_cur st + 1 := of_nat sym2],
                        out_cur := out_cur st + 2\<rparr>))))"
  by pat_completeness auto
termination
  by (relation "measure (\<lambda>(inp, tbl, st). length (out_buf st) - out_cur st)") auto

declare literals.simps [simp del]

text \<open>Copying of a match, byte by byte near the end of the output and in threes elsewhere. The first
  round of the latter is made whatever \<open>counter\<close> is.\<close>

fun copy_bytes :: "nat \<Rightarrow> nat \<Rightarrow> tinfl_state \<Rightarrow> tinfl_state step option" where
  "copy_bytes src 0 st = Some (Go st)"
| "copy_bytes src (Suc counter) st =
     (if length (out_buf st) \<le> out_cur st then Some (Stop TINFL_STATUS_HAS_MORE_OUTPUT st)
      else if length (out_buf st) \<le> src then None
      else copy_bytes (src + 1) counter (put_byte (out_buf st ! src) st))"

definition copy_one :: "bytes \<Rightarrow> nat \<Rightarrow> nat \<Rightarrow> bytes option" where
  "copy_one out cur src =
     (if cur < length out \<and> src < length out then Some (out[cur := out ! src]) else None)"

function copy_threes :: "bytes \<Rightarrow> nat \<Rightarrow> nat \<Rightarrow> int \<Rightarrow> (bytes \<times> nat \<times> nat \<times> int) option" where
  "copy_threes out cur src counter =
     (case do { o1 \<leftarrow> copy_one out cur src; o2 \<leftarrow> copy_one o1 (cur + 1) (src + 1); copy_one o2 (cur + 2) (src + 2) } of
        None \<Rightarrow> None
      | Some o3 \<Rightarrow>
          if 2 < counter - 3 then copy_threes o3 (cur + 3) (src + 3) (counter - 3)
          else Some (o3, cur + 3, src + 3, counter - 3))"
  by pat_completeness auto
termination by (relation "measure (\<lambda>(out, cur, src, counter). nat counter)") auto

declare copy_threes.simps [simp del]

definition copy_match :: "nat \<Rightarrow> nat \<Rightarrow> tinfl_state \<Rightarrow> tinfl_state step option" where
  "copy_match dist counter st =
     (if out_cur st < dist then Some (Stop TINFL_STATUS_FAILED st)
      else
        (let src = out_cur st - dist in
         if length (out_buf st) < max (out_cur st) src + counter then copy_bytes src counter st
         else do {
           (o1, cur, src', left) \<leftarrow> copy_threes (out_buf st) (out_cur st) src (int counter);
           if 0 < left
           then do {
             o2 \<leftarrow> copy_one o1 cur src';
             o3 \<leftarrow> (if 1 < left then copy_one o2 (cur + 1) (src' + 1) else Some o2);
             Some (Go (st\<lparr>out_buf := o3, out_cur := cur + nat left\<rparr>))
           }
           else Some (Go (st\<lparr>out_buf := o1, out_cur := cur\<rparr>))
         }))"

text \<open>One match after its length symbol.\<close>

definition match_step ::
  "bytes \<Rightarrow> tinfl_huff_table \<Rightarrow> nat \<Rightarrow> tinfl_state \<Rightarrow> tinfl_state step option" where
  "match_step inp dist_tbl symb st =
     do {
       num_extra \<leftarrow> elem_at s_length_extra (int symb - 257);
       base \<leftarrow> elem_at s_length_base (int symb - 257);
       let (extra, st1) = (if num_extra \<noteq> 0 then tinfl_get_bits inp num_extra st else (0, st));
       (dsym, st2) \<leftarrow> huff_decode inp dist_tbl st1;
       dnum_extra \<leftarrow> elem_at s_dist_extra (int dsym);
       dbase \<leftarrow> elem_at s_dist_base (int dsym);
       let (dextra, st3) = (if dnum_extra \<noteq> 0 then tinfl_get_bits inp dnum_extra st2 else (0, st2));
       copy_match (dbase + dextra) (base + extra) st3
     }"

partial_function (option) symbols ::
  "bytes \<Rightarrow> tinfl_huff_table \<Rightarrow> tinfl_huff_table \<Rightarrow> tinfl_state \<Rightarrow> tinfl_state step option" where
  "symbols inp lit_tbl dist_tbl st =
     do {
       r \<leftarrow> literals inp lit_tbl st;
       case r of
         Stop s st1 \<Rightarrow> Some (Stop s st1)
       | Go (symb, st1) \<Rightarrow>
           if symb = 256 then Some (Go st1)
           else do {
             r2 \<leftarrow> match_step inp dist_tbl symb st1;
             case r2 of
               Stop s st2 \<Rightarrow> Some (Stop s st2)
             | Go st2 \<Rightarrow> symbols inp lit_tbl dist_tbl st2
           }
     }"

definition compressed_block ::
  "bytes \<Rightarrow> bytes \<Rightarrow> bytes \<Rightarrow> tinfl_state \<Rightarrow> tinfl_state step option" where
  "compressed_block inp lit_sizes dist_sizes st =
     do {
       d \<leftarrow> build_table dist_sizes;
       case d of
         None \<Rightarrow> Some (Stop TINFL_STATUS_FAILED st)
       | Some dist_tbl \<Rightarrow> do {
           l \<leftarrow> build_table lit_sizes;
           case l of
             None \<Rightarrow> Some (Stop TINFL_STATUS_FAILED st)
           | Some lit_tbl \<Rightarrow> symbols inp lit_tbl dist_tbl st
         }
     }"

section \<open>The stream\<close>

definition inflate_block :: "bytes \<Rightarrow> nat \<Rightarrow> tinfl_state \<Rightarrow> tinfl_state step option" where
  "inflate_block inp m_type st =
     (if m_type = 0 then Some (stored_block inp st)
      else if m_type = 3 then Some (Stop TINFL_STATUS_FAILED st)
      else if m_type = 1 then compressed_block inp fixed_sizes (replicate 32 5) st
      else do {
        r \<leftarrow> dynamic_sizes inp st;
        case r of
          Stop s st1 \<Rightarrow> Some (Stop s st1)
        | Go (lit_sizes, dist_sizes, st1) \<Rightarrow> compressed_block inp lit_sizes dist_sizes st1
      })"

partial_function (option) inflate_blocks :: "bytes \<Rightarrow> tinfl_state \<Rightarrow> (tinfl_status \<times> tinfl_state) option" where
  "inflate_blocks inp st =
     (let (h, st1) = tinfl_get_bits inp 3 st in
      do {
        r \<leftarrow> inflate_block inp (h div 2) st1;
        case r of
          Stop s st2 \<Rightarrow> Some (s, st2)
        | Go st2 \<Rightarrow> if odd h then Some (TINFL_STATUS_DONE, st2) else inflate_blocks inp st2
      })"

text \<open>The call: the status, the number of bytes read, and the output buffer with the number of bytes
  written.\<close>

definition tinfl_decompress :: "bytes \<Rightarrow> bytes \<Rightarrow> (tinfl_status \<times> nat \<times> bytes \<times> nat) option" where
  "tinfl_decompress inp pOut_buf =
     do {
       (s, st) \<leftarrow> inflate_blocks inp \<lparr>in_cur = 0, bit_buf = 0, num_bits = 0, out_buf = pOut_buf, out_cur = 0\<rparr>;
       Some (s, in_cur st, out_buf st, out_cur st)
     }"

end
