(* ===== verification/Deflate_Format.thy ===== *)
theory Deflate_Format
  imports Prelude
begin

text \<open>
  The deflate format (RFC 1951) as a decoder on lists of bits, written from the standard and
  independent of the inflater: numbers are read bit by bit, a symbol is found by comparing its code
  word with the bits that come, a match copies byte by byte. \<open>inflated\<close> is the content of a
  stream. The lemmas are about the code words that the standard assigns to a list of sizes.
\<close>

section \<open>Bits and numbers\<close>

definition bits_of :: "bytes \<Rightarrow> bool list" where
  "bits_of bs = concat (map (\<lambda>b. map (bit b) [0..<8]) bs)"

definition number :: "bool list \<Rightarrow> nat" where
  "number bs = horner_sum of_bool 2 bs"

definition take_number :: "nat \<Rightarrow> bool list \<Rightarrow> (nat \<times> bool list) option" where
  "take_number n bs = (if n \<le> length bs then Some (number (take n bs), drop n bs) else None)"

section \<open>Code words\<close>

text \<open>\<open>sz\<close> lists the size of the code of each symbol, 0 for a symbol that has none. Codes of one size
  are consecutive, shorter ones come first (RFC 1951, 3.2.2); a code word begins with its highest bit.\<close>

definition count_of :: "nat list \<Rightarrow> nat \<Rightarrow> nat" where
  "count_of sz l = (if l = 0 then 0 else length (filter ((=) l) sz))"

fun first_code :: "nat list \<Rightarrow> nat \<Rightarrow> nat" where
  "first_code sz 0 = 0"
| "first_code sz (Suc l) = 2 * (first_code sz l + count_of sz l)"

definition code_value :: "nat list \<Rightarrow> nat \<Rightarrow> nat" where
  "code_value sz s = first_code sz (sz ! s) + length (filter ((=) (sz ! s)) (take s sz))"

definition codeword :: "nat list \<Rightarrow> nat \<Rightarrow> bool list" where
  "codeword sz s = map (bit (code_value sz s)) (rev [0..<sz ! s])"

text \<open>The codes use up all words, or there is at most one symbol and its code has one bit.\<close>

definition valid_sizes :: "nat list \<Rightarrow> bool" where
  "valid_sizes sz \<longleftrightarrow> list_all (\<lambda>l. l \<le> 15) sz
     \<and> (first_code sz 16 = 2 ^ 16 \<or> list_all (\<lambda>l. l \<le> 1) sz \<and> count_of sz 1 \<le> 1)"

definition decode_symbol :: "nat list \<Rightarrow> bool list \<Rightarrow> (nat \<times> bool list) option" where
  "decode_symbol sz bs =
     (case find (\<lambda>s. sz ! s \<noteq> 0 \<and> take (sz ! s) bs = codeword sz s) [0..<length sz] of
        None \<Rightarrow> None | Some s \<Rightarrow> Some (s, drop (sz ! s) bs))"

section \<open>Blocks\<close>

fun take_bytes :: "nat \<Rightarrow> bool list \<Rightarrow> (bytes \<times> bool list) option" where
  "take_bytes 0 bs = Some ([], bs)"
| "take_bytes (Suc n) bs =
     do { (b, bs1) \<leftarrow> take_number 8 bs; (rest, bs2) \<leftarrow> take_bytes n bs1; Some (of_nat b # rest, bs2) }"

text \<open>A stored block begins at a byte; the whole stream is a list of bytes. The length is followed by its
  complement.\<close>

definition decode_stored :: "bytes \<Rightarrow> bool list \<Rightarrow> (bytes \<times> bool list) option" where
  "decode_stored out bs =
     do {
       let bs0 = drop (length bs mod 8) bs;
       (len, bs1) \<leftarrow> take_number 16 bs0;
       (nlen, bs2) \<leftarrow> take_number 16 bs1;
       if take 16 bs1 = map Not (take 16 bs0)
       then do { (content, bs3) \<leftarrow> take_bytes len bs2; Some (out @ content, bs3) }
       else None
     }"

text \<open>The length or distance that a symbol begins: its least value and the number of bits that follow.\<close>

definition length_symbol :: "nat \<Rightarrow> (nat \<times> nat) option" where
  "length_symbol s =
     (let k = s - 257 in
      if s < 257 \<or> 285 < s then None
      else if s = 285 then Some (258, 0)
      else if k < 8 then Some (3 + k, 0)
      else Some (3 + (4 + k mod 4) * 2 ^ (k div 4 - 1), k div 4 - 1))"

definition dist_symbol :: "nat \<Rightarrow> (nat \<times> nat) option" where
  "dist_symbol s =
     (if 29 < s then None
      else if s < 4 then Some (1 + s, 0)
      else Some (1 + (2 + s mod 2) * 2 ^ (s div 2 - 1), s div 2 - 1))"

definition copy_back :: "nat \<Rightarrow> bytes \<Rightarrow> bytes" where
  "copy_back dist out = out @ [out ! (length out - dist)]"

definition decode_match :: "nat list \<Rightarrow> nat \<Rightarrow> bytes \<Rightarrow> bool list \<Rightarrow> (bytes \<times> bool list) option" where
  "decode_match dist_sz s out bs =
     do {
       (base, n) \<leftarrow> length_symbol s;
       (extra, bs1) \<leftarrow> take_number n bs;
       (d, bs2) \<leftarrow> decode_symbol dist_sz bs1;
       (dbase, dn) \<leftarrow> dist_symbol d;
       (dextra, bs3) \<leftarrow> take_number dn bs2;
       if dbase + dextra \<le> length out
       then Some ((copy_back (dbase + dextra) ^^ (base + extra)) out, bs3) else None
     }"

lemma decode_symbol_shrinks:
  assumes "decode_symbol sz bs = Some (s, bs')"
  shows "length bs' < length bs" "s < length sz" "0 < sz ! s" "take (sz ! s) bs = codeword sz s"
    "bs' = drop (sz ! s) bs"
proof -
  have f: "find (\<lambda>s. sz ! s \<noteq> 0 \<and> take (sz ! s) bs = codeword sz s) [0..<length sz] = Some s"
    and d: "bs' = drop (sz ! s) bs"
    using assms by (auto simp: decode_symbol_def split: option.splits)
  obtain i where "i < length sz" "s = i" "sz ! s \<noteq> 0" "take (sz ! s) bs = codeword sz s"
    using f by (auto simp: find_Some_iff)
  moreover from this have "length (take (sz ! s) bs) = sz ! s" by (simp add: codeword_def)
  then have "sz ! s \<le> length bs" by simp
  ultimately show "length bs' < length bs" "s < length sz" "0 < sz ! s" "take (sz ! s) bs = codeword sz s"
    "bs' = drop (sz ! s) bs"
    using d by auto
qed

lemma take_number_shrinks: "take_number n bs = Some (x, bs') \<Longrightarrow> length bs' + n = length bs"
  by (auto simp: take_number_def split: if_splits)

lemma decode_match_shrinks: "decode_match dist_sz s out bs = Some (out', bs') \<Longrightarrow> length bs' \<le> length bs"
  by (auto simp: decode_match_def bind_eq_Some_conv split: prod.splits if_splits
      dest!: take_number_shrinks decode_symbol_shrinks(1))

function decode_symbols :: "nat list \<Rightarrow> nat list \<Rightarrow> bytes \<Rightarrow> bool list \<Rightarrow> (bytes \<times> bool list) option" where
  "decode_symbols lit_sz dist_sz out bs =
     (case decode_symbol lit_sz bs of
        None \<Rightarrow> None
      | Some (s, bs1) \<Rightarrow>
          if s < 256 then decode_symbols lit_sz dist_sz (out @ [of_nat s]) bs1
          else if s = 256 then Some (out, bs1)
          else (case decode_match dist_sz s out bs1 of
              None \<Rightarrow> None
            | Some (out', bs2) \<Rightarrow> decode_symbols lit_sz dist_sz out' bs2))"
  by pat_completeness auto
termination
  by (relation "measure (\<lambda>(lit_sz, dist_sz, out, bs). length bs)")
    (auto dest!: decode_symbol_shrinks(1) decode_match_shrinks)

declare decode_symbols.simps [simp del]

definition fixed_lit_sizes :: "nat list" where
  "fixed_lit_sizes = replicate 144 8 @ replicate 112 9 @ replicate 24 7 @ replicate 8 8"

definition fixed_dist_sizes :: "nat list" where
  "fixed_dist_sizes = replicate 32 5"

text \<open>The sizes of a dynamic block are compressed by a third code (RFC 1951, 3.2.7).\<close>

definition size_order :: "nat list" where
  "size_order = [16, 17, 18, 0, 8, 7, 9, 6, 10, 5, 11, 4, 12, 3, 13, 2, 14, 1, 15]"

fun take_sizes :: "nat list \<Rightarrow> nat list \<Rightarrow> bool list \<Rightarrow> (nat list \<times> bool list) option" where
  "take_sizes [] sz bs = Some (sz, bs)"
| "take_sizes (i # ns) sz bs =
     do { (n, bs1) \<leftarrow> take_number 3 bs; take_sizes ns (sz[i := n]) bs1 }"

definition repeat_count :: "nat \<Rightarrow> nat \<times> nat" where
  "repeat_count d = (if d = 16 then (3, 2) else if d = 17 then (3, 3) else (11, 7))"

function decode_sizes :: "nat list \<Rightarrow> nat \<Rightarrow> nat list \<Rightarrow> bool list \<Rightarrow> (nat list \<times> bool list) option" where
  "decode_sizes sz n codes bs =
     (if n < length codes then None
      else if n = length codes then Some (codes, bs)
      else (case decode_symbol sz bs of
          None \<Rightarrow> None
        | Some (d, bs1) \<Rightarrow>
            if d < 16 then decode_sizes sz n (codes @ [d]) bs1
            else if d = 16 \<and> codes = [] then None
            else (case take_number (snd (repeat_count d)) bs1 of
                None \<Rightarrow> None
              | Some (x, bs2) \<Rightarrow>
                  decode_sizes sz n
                    (codes @ replicate (fst (repeat_count d) + x) (if d = 16 then last codes else 0)) bs2)))"
  by pat_completeness auto
termination
  by (relation "measure (\<lambda>(sz, n, codes, bs). length bs)")
    (auto dest!: decode_symbol_shrinks(1) take_number_shrinks)

declare decode_sizes.simps [simp del]

definition decode_dynamic :: "bool list \<Rightarrow> (nat list \<times> nat list \<times> bool list) option" where
  "decode_dynamic bs =
     do {
       (hlit, bs1) \<leftarrow> take_number 5 bs;
       (hdist, bs2) \<leftarrow> take_number 5 bs1;
       (hclen, bs3) \<leftarrow> take_number 4 bs2;
       (sz, bs4) \<leftarrow> take_sizes (take (hclen + 4) size_order) (replicate 19 0) bs3;
       if valid_sizes sz
       then do {
         (codes, bs5) \<leftarrow> decode_sizes sz (hlit + 257 + hdist + 1) [] bs4;
         Some (take (hlit + 257) codes, drop (hlit + 257) codes, bs5)
       }
       else None
     }"

definition decode_block :: "nat \<Rightarrow> bytes \<Rightarrow> bool list \<Rightarrow> (bytes \<times> bool list) option" where
  "decode_block block_type out bs =
     (if block_type = 0 then decode_stored out bs
      else if block_type = 1 then decode_symbols fixed_lit_sizes fixed_dist_sizes out bs
      else if block_type = 2
      then do {
        (lit_sz, dist_sz, bs1) \<leftarrow> decode_dynamic bs;
        if valid_sizes lit_sz \<and> valid_sizes dist_sz
        then decode_symbols lit_sz dist_sz out bs1 else None
      }
      else None)"

lemma decode_symbols_shrinks:
  "decode_symbols lit_sz dist_sz out bs = Some (out', bs') \<Longrightarrow> length bs' \<le> length bs"
proof (induction lit_sz dist_sz out bs rule: decode_symbols.induct)
  case (1 lit_sz dist_sz out bs)
  obtain s bs1 where s: "decode_symbol lit_sz bs = Some (s, bs1)"
    using "1.prems" by (subst (asm) decode_symbols.simps) (auto split: option.splits)
  note sh = decode_symbol_shrinks(1) [OF s]
  consider "s < 256" | "s = 256" | "256 < s" by linarith
  then show ?case
  proof cases
    case 1
    then show ?thesis using "1.IH"(1) [OF s refl] "1.prems" s sh by (subst (asm) decode_symbols.simps) simp
  next
    case 2
    then show ?thesis using "1.prems" s sh by (subst (asm) decode_symbols.simps) simp
  next
    case 3
    then obtain out2 bs2 where m: "decode_match dist_sz s out bs1 = Some (out2, bs2)"
      and r: "decode_symbols lit_sz dist_sz out2 bs2 = Some (out', bs')"
      using "1.prems" s by (subst (asm) decode_symbols.simps) (auto split: option.splits)
    show ?thesis using "1.IH"(2) [OF s refl _ _ m refl r] 3 decode_match_shrinks [OF m] sh by simp
  qed
qed

lemma take_bytes_shrinks: "take_bytes n bs = Some (x, bs') \<Longrightarrow> length bs' \<le> length bs"
  by (induction n arbitrary: bs x) (fastforce simp: bind_eq_Some_conv dest: take_number_shrinks)+

lemma take_sizes_shrinks: "take_sizes ns sz bs = Some (x, bs') \<Longrightarrow> length bs' \<le> length bs"
  by (induction ns sz bs rule: take_sizes.induct) (fastforce simp: bind_eq_Some_conv dest: take_number_shrinks)+

lemma decode_sizes_shrinks: "decode_sizes sz n codes bs = Some (x, bs') \<Longrightarrow> length bs' \<le> length bs"
proof (induction sz n codes bs rule: decode_sizes.induct)
  case (1 sz n codes bs)
  show ?case
  proof (cases "n \<le> length codes")
    case True
    then show ?thesis using "1.prems" by (subst (asm) decode_sizes.simps) (auto split: if_splits)
  next
    case False
    then obtain d bs1 where d: "decode_symbol sz bs = Some (d, bs1)"
      using "1.prems" by (subst (asm) decode_sizes.simps) (auto split: option.splits if_splits)
    note sh = decode_symbol_shrinks(1) [OF d]
    show ?thesis
    proof (cases "d < 16")
      case True
      then show ?thesis
        using "1.IH"(1) [OF _ _ d refl] "1.prems" d sh False by (subst (asm) decode_sizes.simps) simp
    next
      case big: False
      then obtain x bs2 where x: "take_number (snd (repeat_count d)) bs1 = Some (x, bs2)"
        using "1.prems" d False by (subst (asm) decode_sizes.simps) (auto split: option.splits if_splits)
      have "\<not> (d = 16 \<and> codes = [])"
        using "1.prems" d False by (subst (asm) decode_sizes.simps) (auto split: if_splits)
      then show ?thesis
        using "1.IH"(2) [OF _ _ d refl big _ x refl] "1.prems" d sh False big x take_number_shrinks [OF x]
        by (subst (asm) decode_sizes.simps) (simp split: if_splits)
    qed
  qed
qed

lemma decode_dynamic_shrinks: "decode_dynamic bs = Some (l, d, bs') \<Longrightarrow> length bs' \<le> length bs"
  by (auto simp: decode_dynamic_def bind_eq_Some_conv split: if_splits
      dest!: take_number_shrinks take_sizes_shrinks decode_sizes_shrinks)

lemma decode_stored_shrinks: "decode_stored out bs = Some (out', bs') \<Longrightarrow> length bs' \<le> length bs"
  by (auto simp: decode_stored_def Let_def bind_eq_Some_conv split: if_splits
      dest!: take_number_shrinks take_bytes_shrinks)

lemma decode_block_shrinks: "decode_block t out bs = Some (out', bs') \<Longrightarrow> length bs' \<le> length bs"
  by (auto simp: decode_block_def bind_eq_Some_conv split: if_splits
      dest!: decode_stored_shrinks decode_symbols_shrinks decode_dynamic_shrinks)

function decode_blocks :: "bytes \<Rightarrow> bool list \<Rightarrow> (bytes \<times> bool list) option" where
  "decode_blocks out bs =
     (case take_number 1 bs of
        None \<Rightarrow> None
      | Some (final, bs1) \<Rightarrow>
          (case take_number 2 bs1 of
             None \<Rightarrow> None
           | Some (block_type, bs2) \<Rightarrow>
               (case decode_block block_type out bs2 of
                  None \<Rightarrow> None
                | Some (out', bs3) \<Rightarrow>
                    if final = 1 then Some (out', bs3) else decode_blocks out' bs3)))"
  by pat_completeness auto
termination
  by (relation "measure (\<lambda>(out, bs). length bs)")
    (auto dest!: take_number_shrinks decode_block_shrinks)

declare decode_blocks.simps [simp del]

text \<open>The content of a stream that conforms to the format; \<^term>\<open>None\<close> for one that does not.\<close>

definition inflated :: "bytes \<Rightarrow> bytes option" where
  "inflated stream = map_option fst (decode_blocks [] (bits_of stream))"

end
