(* ===== verification/Deflate_Codes.thy ===== *)
theory Deflate_Codes
  imports Inflate Deflate_Format
begin

text \<open>
  The code words that the deflate format assigns to a list of code sizes: no code word is the beginning of another,
  the first codes that the inflater computes are those of the format, and a complete code has fewer
  inner nodes of depth ten or more than symbols. A code word is also given as the
  number of its bits with the first bit lowest, as the bit buffer of the inflater holds it.
\<close>

section \<open>Canonical codes\<close>

lemma bit_number: "bit (number bs) i \<longleftrightarrow> i < length bs \<and> bs ! i"
  by (auto simp: number_def bit_horner_sum_bit_iff)

lemma take_bit_number: "take_bit n (number bs) = number (take n bs)"
  by (simp add: number_def take_bit_horner_sum_bit_eq)

lemma number_bound: "number bs < 2 ^ length bs"
  using take_bit_nat_less_exp [of "length bs" "number bs"] by (simp add: take_bit_number)

lemma number_inj: "length xs = length ys \<Longrightarrow> number xs = number ys \<Longrightarrow> xs = ys"
proof (rule nth_equalityI)
  fix i assume a: "length xs = length ys" "number xs = number ys" "i < length xs"
  have "bit (number xs) i = bit (number ys) i" using a(2) by simp
  then show "xs ! i = ys ! i" using a(1,3) unfolding bit_number by simp
qed

lemma first_code_mono:
  "2 ^ k * (first_code sz l + count_of sz l) \<le> first_code sz (l + k) + (if k = 0 then count_of sz l else 0)"
proof (induction k)
  case (Suc k)
  then show ?case by (cases k) auto
qed simp

lemma first_code_room:
  assumes "first_code sz 16 \<le> 2 ^ 16" "l \<le> 15"
  shows "first_code sz l + count_of sz l \<le> 2 ^ l"
proof -
  have "2 ^ (16 - l) * (first_code sz l + count_of sz l) \<le> first_code sz 16"
    using first_code_mono [of "16 - l" sz l] assms(2) by (simp split: if_splits)
  also have "\<dots> \<le> 2 ^ (16 - l) * 2 ^ l"
    using assms by (simp flip: power_add)
  finally show ?thesis by simp
qed

lemma valid_sizes_room: "valid_sizes sz \<Longrightarrow> first_code sz 16 \<le> 2 ^ 16"
proof -
  assume v: "valid_sizes sz"
  show ?thesis
  proof (cases "first_code sz 16 = 2 ^ 16")
    case False
    then have small: "list_all (\<lambda>l. l \<le> 1) sz" "count_of sz 1 \<le> 1" using v by (auto simp: valid_sizes_def)
    have none: "count_of sz l = 0" if "1 < l" for l
      using small(1) that by (auto simp: count_of_def list_all_iff filter_empty_conv)
    have zero: "count_of sz 0 = 0" by (simp add: count_of_def)
    have "first_code sz (Suc (Suc k)) = 2 ^ (k + 1) * count_of sz 1" for k
      by (induction k) (simp_all add: none zero)
    from this [of 14] show ?thesis using small(2) by simp
  qed simp
qed

lemma valid_sizesD: "valid_sizes sz \<Longrightarrow> s < length sz \<Longrightarrow> sz ! s \<le> 15"
  by (simp add: valid_sizes_def list_all_length)

lemma rank_less:
  "s < t \<Longrightarrow> t \<le> length sz \<Longrightarrow> sz ! s = l \<Longrightarrow>
     length (filter ((=) l) (take s sz)) < length (filter ((=) l) (take t sz))"
proof -
  assume a: "s < t" "t \<le> length sz" "sz ! s = l"
  have "take t sz = take s sz @ sz ! s # take (t - s - 1) (drop (Suc s) sz)"
    using a id_take_nth_drop [of s "take t sz"] by (simp add: min_def drop_take)
  then show ?thesis using a(3) by simp
qed

lemma code_value_bounds:
  assumes "s < length sz" "0 < sz ! s"
  shows "first_code sz (sz ! s) \<le> code_value sz s"
    "code_value sz s < first_code sz (sz ! s) + count_of sz (sz ! s)"
  using rank_less [OF assms(1) order_refl refl] assms by (simp_all add: code_value_def count_of_def)

lemma code_value_less:
  assumes "valid_sizes sz" "s < length sz" "0 < sz ! s"
  shows "code_value sz s < 2 ^ (sz ! s)"
  using code_value_bounds(2) [OF assms(2,3)] first_code_room [OF valid_sizes_room valid_sizesD] assms
  by fastforce

lemma code_prefix_high:
  assumes "valid_sizes sz" "t < length sz" "0 < l" "l < sz ! t"
  shows "first_code sz l + count_of sz l \<le> code_value sz t div 2 ^ (sz ! t - l)"
    "code_value sz t div 2 ^ (sz ! t - l) < 2 ^ l"
proof -
  have "2 ^ (sz ! t - l) * (first_code sz l + count_of sz l) \<le> first_code sz (sz ! t)"
    using first_code_mono [of "sz ! t - l" sz l] assms(4) by (simp split: if_splits)
  also have "\<dots> \<le> code_value sz t" using code_value_bounds(1) [of t sz] assms by simp
  finally show "first_code sz l + count_of sz l \<le> code_value sz t div 2 ^ (sz ! t - l)"
    by (simp add: less_eq_div_iff_mult_less_eq mult.commute)
  have "code_value sz t < 2 ^ l * 2 ^ (sz ! t - l)"
    using code_value_less [of sz t] assms by (simp flip: power_add)
  then show "code_value sz t div 2 ^ (sz ! t - l) < 2 ^ l"
    by (simp add: less_mult_imp_div_less)
qed

lemma code_prefix_free:
  assumes "valid_sizes sz" "s < length sz" "t < length sz" "0 < sz ! s" "sz ! s \<le> sz ! t" "s \<noteq> t"
  shows "code_value sz t div 2 ^ (sz ! t - sz ! s) \<noteq> code_value sz s"
proof (cases "sz ! s = sz ! t")
  case True
  then show ?thesis
    using rank_less [of s t sz "sz ! t"] rank_less [of t s sz "sz ! t"] assms
    by (cases "s < t") (auto simp: code_value_def)
next
  case False
  then show ?thesis
    using code_prefix_high(1) [of sz t "sz ! s"] code_value_bounds(2) [of s sz] assms by fastforce
qed

text \<open>The code words as numbers with the first bit lowest.\<close>

definition rev_value :: "nat list \<Rightarrow> nat \<Rightarrow> nat" where
  "rev_value sz s = number (codeword sz s)"

lemma length_codeword [simp]: "length (codeword sz s) = sz ! s"
  by (simp add: codeword_def)

lemma bit_rev_value: "bit (rev_value sz s) i \<longleftrightarrow> i < sz ! s \<and> bit (code_value sz s) (sz ! s - 1 - i)"
  by (auto simp: rev_value_def bit_number codeword_def rev_nth)

lemma bit_reverse_code:
  "bit (reverse_code l c r) i = (if i < l then bit c (l - 1 - i) else bit r (i - l))"
proof (induction l arbitrary: c r i)
  case (Suc l)
  have "bit (push_bit 1 r OR (c AND 1)) (i - l) = (if i = l then bit c 0 else bit r (i - Suc l))" if "l \<le> i"
    using that by (simp only: bit_or_iff bit_and_iff bit_push_bit_iff bit_1_iff) auto
  then show ?case by (auto simp: Suc bit_simps Suc_diff_Suc)
qed simp

lemma reverse_code_value: "reverse_code (sz ! s) (code_value sz s) 0 = rev_value sz s"
  by (rule bit_eqI) (simp add: bit_reverse_code bit_rev_value)

lemma rev_value_less: "rev_value sz s < 2 ^ (sz ! s)"
  using number_bound [of "codeword sz s"] by (simp add: rev_value_def)

lemma take_bit_rev_value:
  assumes "j \<le> sz ! t"
  shows "take_bit j (rev_value sz t) = reverse_code j (code_value sz t div 2 ^ (sz ! t - j)) 0"
  by (rule bit_eqI)
    (use assms in \<open>auto simp: bit_simps bit_rev_value bit_reverse_code simp flip: drop_bit_eq_div
       intro: arg_cong [where f = "bit (code_value sz t)"]\<close>)

lemma reverse_code_inj: "a < 2 ^ l \<Longrightarrow> b < 2 ^ l \<Longrightarrow> reverse_code l a 0 = reverse_code l b 0 \<Longrightarrow> a = b"
proof (rule bit_eqI)
  fix i
  assume a: "a < 2 ^ l" "b < 2 ^ l" "reverse_code l a 0 = reverse_code l b 0"
  have "bit (reverse_code l a 0) (l - 1 - i) = bit (reverse_code l b 0) (l - 1 - i)" using a(3) by simp
  moreover have "\<not> bit a i" "\<not> bit b i" if "l \<le> i"
    using a(1,2) that by (auto simp: bit_take_bit_iff dest!: take_bit_nat_eq_self [THEN arg_cong [where f = "\<lambda>x. bit x i"]])
  ultimately show "bit a i = bit b i" by (cases "i < l") (simp_all add: bit_reverse_code)
qed

lemma rev_prefix_free:
  assumes "valid_sizes sz" "s < length sz" "t < length sz" "0 < sz ! s" "sz ! s \<le> sz ! t" "s \<noteq> t"
  shows "take_bit (sz ! s) (rev_value sz t) \<noteq> rev_value sz s"
proof
  assume e: "take_bit (sz ! s) (rev_value sz t) = rev_value sz s"
  have "code_value sz t div 2 ^ (sz ! t - sz ! s) = code_value sz s"
  proof (rule reverse_code_inj)
    have "code_value sz t < 2 ^ (sz ! s) * 2 ^ (sz ! t - sz ! s)"
      using code_value_less [of sz t] assms by (simp flip: power_add)
    then show "code_value sz t div 2 ^ (sz ! t - sz ! s) < 2 ^ (sz ! s)"
      by (simp add: less_mult_imp_div_less)
    show "code_value sz s < 2 ^ (sz ! s)" using code_value_less assms by simp
    show "reverse_code (sz ! s) (code_value sz t div 2 ^ (sz ! t - sz ! s)) 0 = reverse_code (sz ! s) (code_value sz s) 0"
      using e take_bit_rev_value [of "sz ! s" sz t] assms(5) by (simp add: reverse_code_value)
  qed
  then show False using code_prefix_free assms by blast
qed

lemma codewords_prefix_free:
  assumes "valid_sizes sz" "s < length sz" "t < length sz" "0 < sz ! s" "sz ! s \<le> sz ! t" "s \<noteq> t"
  shows "take (sz ! s) (codeword sz t) \<noteq> codeword sz s"
  using rev_prefix_free [OF assms] by (auto simp: rev_value_def take_bit_number)

lemma decode_symbol_codeword:
  assumes v: "valid_sizes sz" and s: "s < length sz" "0 < sz ! s"
  shows "decode_symbol sz (codeword sz s @ rest) = Some (s, rest)"
proof -
  let ?P = "\<lambda>t. sz ! t \<noteq> 0 \<and> take (sz ! t) (codeword sz s @ rest) = codeword sz t"
  have only: "t = s" if t: "t < length sz" "?P t" for t
  proof (rule ccontr)
    assume ne: "t \<noteq> s"
    show False
    proof (cases "sz ! t \<le> sz ! s")
      case True
      then show False using codewords_prefix_free [OF v t(1) s(1) _ True ne] t(2) by simp
    next
      case False
      have "take (sz ! s) (codeword sz t) = take (sz ! s) (take (sz ! t) (codeword sz s @ rest))" using t(2) by simp
      also have "\<dots> = codeword sz s" using False by simp
      finally show False using codewords_prefix_free [OF v s(1) t(1) s(2)] False ne by simp
    qed
  qed
  have "find ?P [0..<length sz] = Some s"
    unfolding find_Some_iff using s only by (intro exI [of _ s]) (auto dest: less_trans)
  then show ?thesis by (simp add: decode_symbol_def)
qed

section \<open>The counts\<close>

lemma count_sizes_counts:
  "list_all (\<lambda>c. unat c < length ts) cs \<Longrightarrow>
     count_sizes cs ts = Some (map (\<lambda>l. ts ! l + length (filter ((=) l) (map unat cs))) [0..<length ts])"
proof (induction cs arbitrary: ts)
  case Nil
  then show ?case by (simp add: map_nth)
next
  case (Cons c cs)
  then show ?case by (auto intro: nth_equalityI simp: nth_list_update)
qed

lemma first_codes_from:
  assumes "\<And>l. 1 \<le> l \<Longrightarrow> l < 16 \<Longrightarrow> ts ! l = count_of sz l" "length nc = 17"
    "1 \<le> k" "k + n = 16" "\<And>l. 1 \<le> l \<Longrightarrow> l \<le> k \<Longrightarrow> nc ! l = first_code sz l"
  shows "\<exists>nc'. first_codes ts [k..<16] (u, first_code sz k, nc)
      = (u + sum_list (map (count_of sz) [k..<16]), first_code sz 16, nc')
    \<and> length nc' = 17 \<and> (\<forall>l. 1 \<le> l \<longrightarrow> l \<le> 16 \<longrightarrow> nc' ! l = first_code sz l)"
  using assms(2-)
proof (induction n arbitrary: k u nc)
  case 0
  then show ?case by simp
next
  case (Suc n)
  have list: "[k..<16] = k # [Suc k..<16]" using Suc.prems(3) by (simp add: upt_conv_Cons)
  have "first_codes ts [k..<16] (u, first_code sz k, nc)
    = first_codes ts [Suc k..<16] (u + count_of sz k, first_code sz (Suc k), nc[Suc k := first_code sz (Suc k)])"
    using Suc.prems assms(1) [of k] by (simp add: list Let_def mult.commute [of 2])
  moreover have "\<And>l. 1 \<le> l \<Longrightarrow> l \<le> Suc k \<Longrightarrow> nc[Suc k := first_code sz (Suc k)] ! l = first_code sz l"
    using Suc.prems by (auto simp: nth_list_update le_Suc_eq)
  ultimately show ?case
    using Suc.IH [of "nc[Suc k := first_code sz (Suc k)]" "Suc k" "u + count_of sz k"] Suc.prems list
    by (simp add: add.assoc)
qed

section \<open>The number of nodes\<close>

text \<open>A node is the beginning of at least ten bits of a longer code word. A complete code has fewer nodes
  than symbols, so that they fit into the tree.\<close>

definition nodes_of :: "nat list \<Rightarrow> nat \<Rightarrow> bool list set" where
  "nodes_of sz k = {take j (codeword sz t) | t j. t < k \<and> 10 \<le> j \<and> j < sz ! t}"

lemma nodes_of_mono: "k \<le> k' \<Longrightarrow> nodes_of sz k \<subseteq> nodes_of sz k'"
  by (fastforce simp: nodes_of_def)

lemma finite_nodes_of: "finite (nodes_of sz k)"
proof -
  have "nodes_of sz k \<subseteq> (\<Union>t<k. (\<lambda>j. take j (codeword sz t)) ` {..<sz ! t})"
    by (auto simp: nodes_of_def)
  then show ?thesis by (rule finite_subset) simp
qed

lemma level_card:
  assumes "valid_sizes sz" "0 < j" "j \<le> 15"
  shows "card {p \<in> nodes_of sz (length sz). length p = j} + (first_code sz j + count_of sz j) \<le> 2 ^ j"
proof -
  let ?K = "{p \<in> nodes_of sz (length sz). length p = j}"
  have "number ` ?K \<subseteq> (\<lambda>v. reverse_code j v 0) ` {first_code sz j + count_of sz j..<2 ^ j}"
  proof (clarify)
    fix p assume p: "p \<in> nodes_of sz (length sz)" "j = length p"
    then obtain t where t: "p = take j (codeword sz t)" "t < length sz" "j < sz ! t"
      by (auto simp: nodes_of_def min_def)
    have "number p = reverse_code j (code_value sz t div 2 ^ (sz ! t - j)) 0"
      using take_bit_rev_value [of j sz t] t by (simp add: rev_value_def take_bit_number)
    then show "number p \<in> (\<lambda>v. reverse_code (length p) v 0) ` {first_code sz (length p) + count_of sz (length p)..<2 ^ length p}"
      using code_prefix_high [OF assms(1) t(2) assms(2) t(3)] p(2) by auto
  qed
  then have "card (number ` ?K) \<le> 2 ^ j - (first_code sz j + count_of sz j)"
    using surj_card_le [of "{first_code sz j + count_of sz j..<2 ^ j}" "number ` ?K" "\<lambda>v. reverse_code j v 0"]
    by simp
  moreover have "inj_on number ?K" by (auto intro!: inj_onI number_inj)
  ultimately show ?thesis
    using first_code_room [OF valid_sizes_room [OF assms(1)] assms(3)] by (simp add: card_image)
qed

lemma counts_le_length: "sum_list (map (\<lambda>l. length (filter ((=) l) sz)) ls) \<le> length sz" if "distinct ls"
  using that
proof (induction sz)
  case (Cons s sz)
  have "sum_list (map (\<lambda>l. of_bool (l = s)) ls) \<le> (1::nat)"
    using Cons.prems by (induction ls) auto
  moreover have "sum_list (map (\<lambda>l. length (filter ((=) l) (s # sz))) ls)
    = sum_list (map (\<lambda>l. of_bool (l = s)) ls) + sum_list (map (\<lambda>l. length (filter ((=) l) sz)) ls)"
    by (induction ls) auto
  ultimately show ?case using Cons by simp
qed simp

lemma nodes_fit:
  assumes v: "valid_sizes sz" and len: "length sz \<le> 288"
  shows "card (nodes_of sz (length sz)) \<le> 288"
proof (cases "first_code sz 16 = 2 ^ 16")
  case False
  then have "list_all (\<lambda>l. l \<le> 1) sz" using v by (simp add: valid_sizes_def)
  then have "nodes_of sz (length sz) = {}" by (fastforce simp: nodes_of_def list_all_length)
  then show ?thesis by simp
next
  case True
  let ?K = "\<lambda>j. {p \<in> nodes_of sz (length sz). length p = j}"
  have "nodes_of sz (length sz) = (\<Union>j\<in>{10,11,12,13,14}. ?K j)"
  proof -
    have "length p \<in> {10,11,12,13,14}" if p: "p \<in> nodes_of sz (length sz)" for p
    proof -
      obtain t j where "p = take j (codeword sz t)" "t < length sz" "10 \<le> j" "j < sz ! t"
        using p by (auto simp: nodes_of_def)
      then show ?thesis using valid_sizesD [OF v, of t] by auto
    qed
    then show ?thesis by auto
  qed
  then have "card (nodes_of sz (length sz)) \<le> sum (\<lambda>j. card (?K j)) {10,11,12,13,14}"
    using card_UN_le [of "{10,11,12,13,14}" ?K] by simp
  also have "\<dots> = card (?K 10) + card (?K 11) + card (?K 12) + card (?K 13) + card (?K 14)"
    by simp
  also have "\<dots> \<le> count_of sz 11 + count_of sz 12 + count_of sz 13 + count_of sz 14 + count_of sz 15"
  proof -
    have step: "first_code sz (Suc l) = 2 * (first_code sz l + count_of sz l)" for l by simp
    have "first_code sz 16 = 2 * (first_code sz 15 + count_of sz 15)" using step [of 15] by simp
    moreover have "first_code sz 15 = 2 * (first_code sz 14 + count_of sz 14)" using step [of 14] by simp
    moreover have "first_code sz 14 = 2 * (first_code sz 13 + count_of sz 13)" using step [of 13] by simp
    moreover have "first_code sz 13 = 2 * (first_code sz 12 + count_of sz 12)" using step [of 12] by simp
    moreover have "first_code sz 12 = 2 * (first_code sz 11 + count_of sz 11)" using step [of 11] by simp
    moreover have "first_code sz 11 = 2 * (first_code sz 10 + count_of sz 10)" using step [of 10] by simp
    ultimately show ?thesis
      using True level_card [OF v, of 10] level_card [OF v, of 11] level_card [OF v, of 12]
        level_card [OF v, of 13] level_card [OF v, of 14] by simp
  qed
  also have "\<dots> \<le> length sz"
    using counts_le_length [of "[11,12,13,14,15]" sz] by (simp add: count_of_def)
  finally show ?thesis using len by simp
qed

end
