(* ===== verification/Inflate_Tables.thy ===== *)
theory Inflate_Tables
  imports Deflate_Codes
begin

text \<open>
  The table that the inflater builds from a list of code sizes decodes exactly the code words of the
  format. The invariant \<open>tables\<close> says what every cell of the two arrays holds while
  the symbols are inserted: a node of the tree stands for the beginning of a long code word, and the node
  number \<open>n\<close> has the cells \<open>2 n\<close> and \<open>2 n + 1\<close> for the bit that follows.
\<close>

section \<open>The invariant\<close>

definition node :: "nat \<Rightarrow> int" where
  "node n = - 1 - 2 * int n"

definition leaf_at :: "nat list \<Rightarrow> nat \<Rightarrow> bool list \<Rightarrow> int" where
  "leaf_at sz k p = (case find (\<lambda>t. p \<noteq> [] \<and> codeword sz t = p) [0..<k] of None \<Rightarrow> 0 | Some t \<Rightarrow> int t)"

definition short_at :: "nat list \<Rightarrow> nat \<Rightarrow> bool list \<Rightarrow> int" where
  "short_at sz k p =
     (case find (\<lambda>t. 0 < sz ! t \<and> sz ! t \<le> 10 \<and> take (sz ! t) p = codeword sz t) [0..<k] of
        None \<Rightarrow> 0 | Some t \<Rightarrow> int (512 * (sz ! t) + t))"

definition tables ::
  "nat list \<Rightarrow> nat \<Rightarrow> bool list set \<Rightarrow> (bool list \<Rightarrow> nat) \<Rightarrow> int list \<Rightarrow> int list \<Rightarrow> bool" where
  "tables sz k D m lu tr \<longleftrightarrow> length lu = 1024 \<and> length tr = 576
     \<and> nodes_of sz k \<subseteq> D \<and> D \<subseteq> nodes_of sz (length sz)
     \<and> (\<forall>p c. p @ [c] \<in> D \<longrightarrow> 10 \<le> length p \<longrightarrow> p \<in> D)
     \<and> inj_on m D \<and> (\<forall>p \<in> D. m p < card D)
     \<and> (\<forall>p. length p = 10 \<longrightarrow> lu ! number p = (if p \<in> D then node (m p) else short_at sz k p))
     \<and> (\<forall>p \<in> D. \<forall>c. tr ! (2 * m p + of_bool c) = (if p @ [c] \<in> D then node (m (p @ [c])) else leaf_at sz k (p @ [c])))
     \<and> (\<forall>i. 2 * card D \<le> i \<longrightarrow> i < 576 \<longrightarrow> tr ! i = 0)"

lemma tablesI:
  assumes "length lu = 1024" "length tr = 576" "nodes_of sz k \<subseteq> D" "D \<subseteq> nodes_of sz (length sz)"
    "\<And>p c. p @ [c] \<in> D \<Longrightarrow> 10 \<le> length p \<Longrightarrow> p \<in> D"
    "inj_on m D" "\<And>p. p \<in> D \<Longrightarrow> m p < card D"
    "\<And>p. length p = 10 \<Longrightarrow> lu ! number p = (if p \<in> D then node (m p) else short_at sz k p)"
    "\<And>p c. p \<in> D \<Longrightarrow> tr ! (2 * m p + of_bool c) = (if p @ [c] \<in> D then node (m (p @ [c])) else leaf_at sz k (p @ [c]))"
    "\<And>i. 2 * card D \<le> i \<Longrightarrow> i < 576 \<Longrightarrow> tr ! i = 0"
  shows "tables sz k D m lu tr"
  unfolding tables_def using assms by blast

lemma tablesD:
  assumes "tables sz k D m lu tr"
  shows "length lu = 1024" "length tr = 576" "nodes_of sz k \<subseteq> D" "D \<subseteq> nodes_of sz (length sz)"
    "p @ [c] \<in> D \<Longrightarrow> 10 \<le> length p \<Longrightarrow> p \<in> D"
    "inj_on m D" "p \<in> D \<Longrightarrow> m p < card D"
    "length p = 10 \<Longrightarrow> lu ! number p = (if p \<in> D then node (m p) else short_at sz k p)"
    "p \<in> D \<Longrightarrow> tr ! (2 * m p + of_bool c) = (if p @ [c] \<in> D then node (m (p @ [c])) else leaf_at sz k (p @ [c]))"
    "2 * card D \<le> i \<Longrightarrow> i < 576 \<Longrightarrow> tr ! i = 0"
  using assms unfolding tables_def by blast+

lemma find_upt_Suc:
  "find P [0..<Suc k] = (case find P [0..<k] of None \<Rightarrow> if P k then Some k else None | Some t \<Rightarrow> Some t)"
proof -
  have "find P (xs @ [x]) = (case find P xs of None \<Rightarrow> if P x then Some x else None | Some t \<Rightarrow> Some t)" for xs x
    by (induction xs) auto
  then show ?thesis by simp
qed

lemma find_upt_None: "find P [0..<k] = None \<longleftrightarrow> (\<forall>t<k. \<not> P t)"
  by (auto simp: find_None_iff)

lemma node_inj [simp]: "node a = node b \<longleftrightarrow> a = b"
  by (simp add: node_def)

lemma node_neg [simp]: "node a < 0" "node a \<noteq> 0" "\<not> 0 \<le> node a" "\<not> 0 < node a"
  by (simp_all add: node_def)

lemma to_int16_small: "- 32768 \<le> x \<Longrightarrow> x < 32768 \<Longrightarrow> to_int16 x = x"
  by (simp add: to_int16_def int_word_sint)

lemma set_at_nat: "i < length xs \<Longrightarrow> set_at xs (int i) x = Some (xs[i := x])"
  by (simp add: set_at_def)

lemma node_cell: "- (node n - int (of_bool c)) - 1 = int (2 * n + of_bool c)"
  by (simp add: node_def)

lemma node_next: "node n - 2 = node (Suc n)"
  by (simp add: node_def)

lemma tables_card:
  assumes "tables sz k D m lu tr" "valid_sizes sz" "length sz \<le> 288"
  shows "finite D" "card D \<le> 288" "insert p D \<subseteq> nodes_of sz (length sz) \<Longrightarrow> p \<notin> D \<Longrightarrow> card D < 288"
proof -
  have sub: "D \<subseteq> nodes_of sz (length sz)" using assms(1) by (simp add: tables_def)
  show f: "finite D" using sub finite_nodes_of finite_subset by blast
  show "card D \<le> 288" using card_mono [OF finite_nodes_of sub] nodes_fit [OF assms(2,3)] by simp
  show "card D < 288" if "insert p D \<subseteq> nodes_of sz (length sz)" "p \<notin> D"
    using card_mono [OF finite_nodes_of that(1)] nodes_fit [OF assms(2,3)] f that(2) by simp
qed

lemma tables_length: "tables sz k D m lu tr \<Longrightarrow> p \<in> D \<Longrightarrow> 10 \<le> length p"
  using tablesD(4) by (fastforce simp: nodes_of_def)

lemma tables_cell:
  assumes "tables sz k D m lu tr" "valid_sizes sz" "length sz \<le> 288" "p \<in> D"
  shows "2 * m p + of_bool c < 576" "2 * m p + of_bool c < 2 * card D"
proof -
  have "m p < card D" using assms(1,4) by (simp add: tables_def)
  then show "2 * m p + of_bool c < 576" "2 * m p + of_bool c < 2 * card D"
    using tables_card(2) [OF assms(1-3)] by (cases c; simp)+
qed

lemma no_leaf_below: "tables sz k D m lu tr \<Longrightarrow> p \<notin> D \<Longrightarrow> 10 \<le> length p \<Longrightarrow> leaf_at sz k (p @ [c]) = 0"
proof -
  assume a: "tables sz k D m lu tr" "p \<notin> D" "10 \<le> length p"
  have "codeword sz t \<noteq> p @ [c]" if t: "t < k" for t
  proof
    assume e: "codeword sz t = p @ [c]"
    then have "p = take (length p) (codeword sz t)" "sz ! t = length p + 1"
      using length_codeword [of sz t] by simp_all
    then have "p \<in> nodes_of sz k" using t a(3) unfolding nodes_of_def by force
    then show False using a(1,2) by (auto simp: tables_def)
  qed
  then have "find (\<lambda>t. p @ [c] \<noteq> [] \<and> codeword sz t = p @ [c]) [0..<k] = None" by (simp add: find_upt_None)
  then show "leaf_at sz k (p @ [c]) = 0" by (simp only: leaf_at_def option.case)
qed

section \<open>New nodes\<close>

lemma number_idx: "length q = 10 \<Longrightarrow> number q < 1024"
  using number_bound [of q] by simp

lemma inj_new:
  assumes t: "tables sz k D m lu tr" and p: "p \<notin> D"
  shows "inj_on (m(p := card D)) (insert p D)"
proof -
  have "card D \<notin> m ` D" using tablesD(7) [OF t] by (metis imageE less_irrefl)
  then show ?thesis using p tablesD(6) [OF t] by (auto simp: fun_upd_image intro: inj_on_fun_updI)
qed

lemma add_root:
  assumes t: "tables sz k D m lu tr" and v: "valid_sizes sz" "length sz \<le> 288"
    and p: "p \<notin> D" "length p = 10" "p \<in> nodes_of sz (length sz)"
  shows "tables sz k (insert p D) (m(p := card D)) (lu[number p := node (card D)]) tr"
proof (rule tablesI)
  have sub: "insert p D \<subseteq> nodes_of sz (length sz)" using p(3) tablesD(4) [OF t] by simp
  have card: "card D < 288" "finite D" using tables_card [OF t v] sub p(1) by blast+
  have below: "p @ [c] \<notin> D" for c using tablesD(5) [OF t, of p c] p(1,2) by auto
  show "insert p D \<subseteq> nodes_of sz (length sz)" by (rule sub)
  show "length (lu[number p := node (card D)]) = 1024" "length tr = 576" "nodes_of sz k \<subseteq> insert p D"
    "inj_on (m(p := card D)) (insert p D)"
    using tablesD(1-3) [OF t] inj_new [OF t p(1)] by auto
  show "q \<in> insert p D" if "q @ [c] \<in> insert p D" "10 \<le> length q" for q c
    using that tablesD(5) [OF t] p(2) by auto
  show "(m(p := card D)) q < card (insert p D)" if "q \<in> insert p D" for q
    using that tablesD(7) [OF t, of q] p(1) card(2) by auto
  show "lu[number p := node (card D)] ! number q
      = (if q \<in> insert p D then node ((m(p := card D)) q) else short_at sz k q)" if q: "length q = 10" for q
    using tablesD(1,8) [OF t] q number_idx p number_inj [of p q] by (auto simp: nth_list_update)
  show "tr ! (2 * (m(p := card D)) q + of_bool c)
      = (if q @ [c] \<in> insert p D then node ((m(p := card D)) (q @ [c])) else leaf_at sz k (q @ [c]))"
    if q: "q \<in> insert p D" for q c
  proof (cases "q = p")
    case True
    have "tr ! (2 * card D + of_bool c) = 0" using tablesD(10) [OF t] card(1) by (cases c) auto
    then show ?thesis using True below no_leaf_below [OF t p(1)] p(2) by simp
  next
    case False
    then have "q \<in> D" using q by simp
    moreover have "q @ [c] \<noteq> p" using tables_length [OF t \<open>q \<in> D\<close>] p(2) by auto
    moreover have "q @ [c] \<noteq> q" by simp
    ultimately show ?thesis using tablesD(9) [OF t \<open>q \<in> D\<close>, of c] False by simp
  qed
  show "tr ! i = 0" if "2 * card (insert p D) \<le> i" "i < 576" for i
    using that tablesD(10) [OF t] p(1) card(2) by simp
qed

lemma other_cell:
  assumes t: "tables sz k D m lu tr" and "p \<in> D" "q \<in> D" "q \<noteq> p \<or> c \<noteq> d"
  shows "2 * m p + of_bool c \<noteq> 2 * m q + (of_bool d :: nat)"
proof
  assume e: "2 * m p + of_bool c = 2 * m q + (of_bool d :: nat)"
  then have "m p = m q" by (cases c; cases d; simp; presburger)
  moreover from this e have "c = d" by (cases c; cases d; simp)
  ultimately show False using assms tablesD(6) [OF t] by (auto dest: inj_onD)
qed

lemma add_child:
  assumes t: "tables sz k D m lu tr" and v: "valid_sizes sz" "length sz \<le> 288"
    and p: "p \<in> D" "p @ [c] \<notin> D" "p @ [c] \<in> nodes_of sz (length sz)"
  shows "tables sz k (insert (p @ [c]) D) (m(p @ [c] := card D)) lu (tr[2 * m p + of_bool c := node (card D)])"
    (is "tables _ _ _ ?m _ ?tr")
proof (rule tablesI)
  have len: "10 \<le> length p" using tables_length [OF t p(1)] .
  have sub: "insert (p @ [c]) D \<subseteq> nodes_of sz (length sz)" using p(3) tablesD(4) [OF t] by simp
  have card: "card D < 288" "finite D" using tables_card [OF t v] sub p(2) by blast+
  note cell = tables_cell [OF t v p(1), of c]
  show "insert (p @ [c]) D \<subseteq> nodes_of sz (length sz)" by (rule sub)
  show "length lu = 1024" "length ?tr = 576" "nodes_of sz k \<subseteq> insert (p @ [c]) D"
    "inj_on ?m (insert (p @ [c]) D)"
    using tablesD(1-3) [OF t] inj_new [OF t p(2)] by auto
  show "q \<in> insert (p @ [c]) D" if "q @ [d] \<in> insert (p @ [c]) D" "10 \<le> length q" for q d
    using that tablesD(5) [OF t] p(1) by auto
  show "?m q < card (insert (p @ [c]) D)" if "q \<in> insert (p @ [c]) D" for q
    using that tablesD(7) [OF t, of q] p(2) card(2) by auto
  show "lu ! number q = (if q \<in> insert (p @ [c]) D then node (?m q) else short_at sz k q)" if q: "length q = 10" for q
  proof -
    have "q \<noteq> p @ [c]" using q len by auto
    then show ?thesis using tablesD(8) [OF t q] by simp
  qed
  show "?tr ! (2 * ?m q + of_bool d)
      = (if q @ [d] \<in> insert (p @ [c]) D then node (?m (q @ [d])) else leaf_at sz k (q @ [d]))"
    if q: "q \<in> insert (p @ [c]) D" for q d
  proof (cases "q = p @ [c]")
    case True
    have "q @ [d] \<notin> insert (p @ [c]) D" using tablesD(5) [OF t, of q d] True p(2) len by auto
    moreover have "?tr ! (2 * card D + of_bool d) = 0"
      using tablesD(10) [OF t] card(1) cell by (cases d) (simp_all add: nth_list_update)
    ultimately show ?thesis using True no_leaf_below [OF t p(2)] len by simp
  next
    case False
    then have q': "q \<in> D" using q by simp
    show ?thesis
    proof (cases "q = p \<and> c = d")
      case True
      have "p \<noteq> p @ [c]" by simp
      then show ?thesis using True cell(1) tablesD(2) [OF t] by simp
    next
      case other: False
      then have "2 * m p + of_bool c \<noteq> 2 * m q + (of_bool d :: nat)" by (intro other_cell [OF t p(1) q']) (use other in auto)
      moreover have "q @ [d] \<noteq> p @ [c]" using other by auto
      ultimately show ?thesis using tablesD(9) [OF t q', of d] False other by (auto simp del: append1_eq_conv)
    qed
  qed
  show "?tr ! i = 0" if "2 * card (insert (p @ [c]) D) \<le> i" "i < 576" for i
    using that tablesD(10) [OF t] p(2) card(2) cell by (simp add: nth_list_update)
qed

section \<open>New symbols\<close>

lemma leaf_at_Suc:
  "leaf_at sz (Suc k) p = (if find (\<lambda>t. p \<noteq> [] \<and> codeword sz t = p) [0..<k] = None \<and> p \<noteq> [] \<and> codeword sz k = p
     then int k else leaf_at sz k p)"
  unfolding leaf_at_def find_upt_Suc by (simp split: option.split)

lemma short_at_Suc:
  "short_at sz (Suc k) p = (if find (\<lambda>t. 0 < sz ! t \<and> sz ! t \<le> 10 \<and> take (sz ! t) p = codeword sz t) [0..<k] = None
       \<and> 0 < sz ! k \<and> sz ! k \<le> 10 \<and> take (sz ! k) p = codeword sz k
     then int (512 * (sz ! k) + k) else short_at sz k p)"
  unfolding short_at_def find_upt_Suc by (simp split: option.split)

lemma no_earlier_leaf:
  assumes "valid_sizes sz" "k < length sz" "0 < sz ! k"
  shows "find (\<lambda>t. codeword sz k \<noteq> [] \<and> codeword sz t = codeword sz k) [0..<k] = None"
proof -
  have "codeword sz t \<noteq> codeword sz k" if t: "t < k" for t
  proof
    assume e: "codeword sz t = codeword sz k"
    then have l: "sz ! t = sz ! k" using length_codeword by metis
    show False
      using codewords_prefix_free [of sz t k] assms t l e by simp
  qed
  then show ?thesis by (simp add: find_upt_None)
qed

lemma no_earlier_short:
  assumes "valid_sizes sz" "k < length sz" "0 < sz ! k" "take (sz ! k) p = codeword sz k"
  shows "find (\<lambda>t. 0 < sz ! t \<and> sz ! t \<le> 10 \<and> take (sz ! t) p = codeword sz t) [0..<k] = None"
proof -
  have "take (sz ! t) p \<noteq> codeword sz t" if t: "t < k" "0 < sz ! t" for t
  proof
    assume e: "take (sz ! t) p = codeword sz t"
    show False
    proof (cases "sz ! t \<le> sz ! k")
      case True
      then have "take (sz ! t) (codeword sz k) = codeword sz t"
        using e assms(4) by (metis min.absorb1 take_take)
      then show False using codewords_prefix_free [of sz t k] assms t True by simp
    next
      case False
      then have "take (sz ! k) (codeword sz t) = codeword sz k"
        using e assms(4) by (metis min.absorb1 nat_le_linear take_take)
      then show False using codewords_prefix_free [of sz k t] assms t False by simp
    qed
  qed
  then show ?thesis by (auto simp: find_upt_None)
qed

lemma add_leaf:
  assumes t: "tables sz k D m lu tr" and v: "valid_sizes sz" "length sz \<le> 288"
    and k: "k < length sz" "10 < sz ! k" "codeword sz k = p @ [c]" "p \<in> D" "nodes_of sz (Suc k) \<subseteq> D"
  shows "tables sz (Suc k) D m lu (tr[2 * m p + of_bool c := int k])" (is "tables _ _ _ _ _ ?tr")
proof (rule tablesI)
  note cell = tables_cell [OF t v k(4), of c]
  have fresh: "p @ [c] \<notin> D"
  proof
    assume "p @ [c] \<in> D"
    then obtain s j where s: "s < length sz" "j < sz ! s" "codeword sz k = take j (codeword sz s)"
      using tablesD(4) [OF t] k(3) by (auto simp: nodes_of_def)
    then have j: "j = sz ! k" using length_codeword [of sz k] by simp
    then show False using codewords_prefix_free [of sz k s] s v k(1,2) by auto
  qed
  show "length lu = 1024" "length ?tr = 576" "nodes_of sz (Suc k) \<subseteq> D" "D \<subseteq> nodes_of sz (length sz)" "inj_on m D"
    using tablesD(1,2,4,6) [OF t] k(5) by auto
  show "q \<in> D" if "q @ [d] \<in> D" "10 \<le> length q" for q d using that tablesD(5) [OF t] by blast
  show "m q < card D" if "q \<in> D" for q using that tablesD(7) [OF t] by blast
  show "lu ! number q = (if q \<in> D then node (m q) else short_at sz (Suc k) q)" if "length q = 10" for q
    using tablesD(8) [OF t that] k(2) by (simp add: short_at_Suc)
  show "?tr ! (2 * m q + of_bool d) = (if q @ [d] \<in> D then node (m (q @ [d])) else leaf_at sz (Suc k) (q @ [d]))"
    if q: "q \<in> D" for q d
  proof (cases "q = p \<and> c = d")
    case True
    have "leaf_at sz (Suc k) (p @ [c]) = int k"
      using no_earlier_leaf [of sz k] v k(1-3) by (simp add: leaf_at_Suc)
    then show ?thesis using True cell(1) tablesD(2) [OF t] fresh by simp
  next
    case False
    then have "2 * m p + of_bool c \<noteq> 2 * m q + (of_bool d :: nat)"
      by (intro other_cell [OF t k(4) q]) auto
    moreover have "codeword sz k \<noteq> q @ [d]" using False k(3) by auto
    ultimately show ?thesis using tablesD(9) [OF t q, of d] by (simp add: leaf_at_Suc)
  qed
  show "?tr ! i = 0" if "2 * card D \<le> i" "i < 576" for i
    using that tablesD(10) [OF t] cell by (simp add: nth_list_update)
qed

lemma nodes_of_short: "sz ! k \<le> 10 \<Longrightarrow> nodes_of sz (Suc k) = nodes_of sz k"
  by (auto simp: nodes_of_def less_Suc_eq)

lemma codeword_Nil: "codeword sz k = [] \<longleftrightarrow> sz ! k = 0"
  by (simp add: codeword_def)

lemma leaf_at_short: "sz ! k \<le> 10 \<Longrightarrow> 10 < length p \<Longrightarrow> leaf_at sz (Suc k) p = leaf_at sz k p"
  using length_codeword [of sz k] by (auto simp: leaf_at_Suc simp del: length_codeword)

lemma add_none: "tables sz k D m lu tr \<Longrightarrow> sz ! k = 0 \<Longrightarrow> tables sz (Suc k) D m lu tr"
proof (rule tablesI)
  assume t: "tables sz k D m lu tr" and k: "sz ! k = 0"
  show "length lu = 1024" "length tr = 576" "nodes_of sz (Suc k) \<subseteq> D" "D \<subseteq> nodes_of sz (length sz)" "inj_on m D"
    using tablesD(1-4,6) [OF t] k by (auto simp: nodes_of_short)
  show "q \<in> D" if "q @ [d] \<in> D" "10 \<le> length q" for q d using that tablesD(5) [OF t] by blast
  show "m q < card D" if "q \<in> D" for q using that tablesD(7) [OF t] by blast
  show "lu ! number q = (if q \<in> D then node (m q) else short_at sz (Suc k) q)" if "length q = 10" for q
    using tablesD(8) [OF t that] k by (simp add: short_at_Suc)
  show "tr ! (2 * m q + of_bool d) = (if q @ [d] \<in> D then node (m (q @ [d])) else leaf_at sz (Suc k) (q @ [d]))"
    if "q \<in> D" for q d
    using tablesD(9) [OF t that] tables_length [OF t that] k by (simp add: leaf_at_short)
  show "tr ! i = 0" if "2 * card D \<le> i" "i < 576" for i using that tablesD(10) [OF t] by blast
qed

lemma add_short:
  assumes t: "tables sz k D m lu tr" and v: "valid_sizes sz" "length sz \<le> 288"
    and k: "k < length sz" "0 < sz ! k" "sz ! k \<le> 10" and lu': "length lu' = 1024"
    "\<And>q. length q = 10 \<Longrightarrow> lu' ! number q
       = (if take (sz ! k) q = codeword sz k then int (512 * (sz ! k) + k) else lu ! number q)"
  shows "tables sz (Suc k) D m lu' tr"
proof (rule tablesI)
  show "length lu' = 1024" "length tr = 576" "nodes_of sz (Suc k) \<subseteq> D" "D \<subseteq> nodes_of sz (length sz)" "inj_on m D"
    using tablesD(2,3,4,6) [OF t] k(3) lu' by (auto simp: nodes_of_short)
  show "q \<in> D" if "q @ [d] \<in> D" "10 \<le> length q" for q d using that tablesD(5) [OF t] by blast
  show "m q < card D" if "q \<in> D" for q using that tablesD(7) [OF t] by blast
  show "tr ! (2 * m q + of_bool d) = (if q @ [d] \<in> D then node (m (q @ [d])) else leaf_at sz (Suc k) (q @ [d]))"
    if "q \<in> D" for q d
    using tablesD(9) [OF t that] tables_length [OF t that] k(3) by (simp add: leaf_at_short)
  show "tr ! i = 0" if "2 * card D \<le> i" "i < 576" for i using that tablesD(10) [OF t] by blast
  show "lu' ! number q = (if q \<in> D then node (m q) else short_at sz (Suc k) q)" if q: "length q = 10" for q
  proof (cases "take (sz ! k) q = codeword sz k")
    case True
    have "q \<notin> D"
    proof
      assume "q \<in> D"
      then obtain s j where s: "s < length sz" "j < sz ! s" "q = take j (codeword sz s)"
        using tablesD(4) [OF t] by (auto simp: nodes_of_def)
      then have "take (sz ! k) (codeword sz s) = codeword sz k" "10 < sz ! s"
        using True q k(3) by (auto simp: min_def split: if_splits)
      moreover from this have "k \<noteq> s" using k(3) by auto
      ultimately show False using codewords_prefix_free [of sz k s] s(1) v k by simp
    qed
    then show ?thesis
      using True lu'(2) [OF q] no_earlier_short [OF v(1) k(1,2) True] k by (simp add: short_at_Suc)
  next
    case False
    then show ?thesis using lu'(2) [OF q] tablesD(8) [OF t q] by (simp add: short_at_Suc)
  qed
qed

section \<open>The code\<close>

lemma codeword_bit: "j < sz ! k \<Longrightarrow> drop_bit j (rev_value sz k) AND 1 = of_bool (codeword sz k ! j)"
  by (simp add: and_one_eq rev_value_def flip: bit_iff_odd_drop_bit of_bool_odd_eq_mod_2)
    (simp add: bit_number)

lemma codeword_Suc: "j < sz ! k \<Longrightarrow> take (Suc j) (codeword sz k) = take j (codeword sz k) @ [codeword sz k ! j]"
  by (simp add: take_Suc_conv_app_nth)

lemma no_leaf_on_path:
  assumes "valid_sizes sz" "k < length sz" "0 < j" "j < sz ! k"
  shows "leaf_at sz k (take j (codeword sz k)) = 0"
proof -
  have "codeword sz t \<noteq> take j (codeword sz k)" if t: "t < k" for t
  proof
    assume e: "codeword sz t = take j (codeword sz k)"
    then have "sz ! t = j" using length_codeword [of sz t] assms(4) by simp
    then show False using codewords_prefix_free [of sz t k] assms t e by simp
  qed
  then have "find (\<lambda>t. take j (codeword sz k) \<noteq> [] \<and> codeword sz t = take j (codeword sz k)) [0..<k] = None"
    by (simp add: find_upt_None)
  then show ?thesis by (simp only: leaf_at_def option.case)
qed

lemma path_nodes: "k < length sz \<Longrightarrow> 10 \<le> j \<Longrightarrow> j < sz ! k \<Longrightarrow> take j (codeword sz k) \<in> nodes_of sz (length sz)"
  by (auto simp: nodes_of_def)

lemma to_int16_node: "n \<le> 288 \<Longrightarrow> to_int16 (node n) = node n"
  by (simp add: to_int16_small node_def)

lemma grow_tree_correct:
  assumes v: "valid_sizes sz" "length sz \<le> 288" and k: "k < length sz" and "10 \<le> j" "j + n < sz ! k"
    and "tables sz k D m lu tr" "take j (codeword sz k) \<in> D"
  shows "\<exists>D' m' tr'. grow_tree n (drop_bit (j - 1) (rev_value sz k)) (node (m (take j (codeword sz k)))) (node (card D)) tr
       = Some (drop_bit (j + n - 1) (rev_value sz k), node (m' (take (j + n) (codeword sz k))), node (card D'), tr')
     \<and> tables sz k D' m' lu tr' \<and> D' = D \<union> (\<lambda>i. take i (codeword sz k)) ` {j..j + n}"
  using assms(4-)
proof (induction n arbitrary: j D m tr)
  case 0
  then show ?case by (auto simp: insert_absorb)
next
  case (Suc n)
  let ?w = "codeword sz k" and ?r = "rev_value sz k"
  let ?p = "take j ?w" and ?c = "codeword sz k ! j"
  note t = Suc.prems(3)
  have j: "j < sz ! k" "Suc j < sz ! k" using Suc.prems by simp_all
  have q: "take (Suc j) ?w = ?p @ [?c]" using codeword_Suc j(1) .
  have shift: "drop_bit 1 (drop_bit (j - 1) ?r) = drop_bit j ?r" using Suc.prems(1) by (simp add: drop_bit_drop_bit)
  note cell = tables_cell [OF t v Suc.prems(4), of ?c]
  have read: "elem_at tr (- (node (m ?p) - int (of_bool ?c)) - 1) = Some (tr ! (2 * m ?p + of_bool ?c))"
    unfolding node_cell using cell(1) tablesD(2) [OF t] by (intro elem_at_nat) simp
  have step: "grow_tree (Suc n) (drop_bit (j - 1) ?r) (node (m ?p)) (node (card D)) tr
    = (if tr ! (2 * m ?p + of_bool ?c) = 0
       then case set_at tr (- (node (m ?p) - int (of_bool ?c)) - 1) (to_int16 (node (card D))) of
              None \<Rightarrow> None
            | Some tr' \<Rightarrow> grow_tree n (drop_bit j ?r) (node (card D)) (node (card D) - 2) tr'
       else grow_tree n (drop_bit j ?r) (tr ! (2 * m ?p + of_bool ?c)) (node (card D)) tr)"
    by (simp only: grow_tree.simps Let_def shift codeword_bit [OF j(1)] read option.case)
  show ?case
  proof (cases "take (Suc j) ?w \<in> D")
    case True
    then have "tr ! (2 * m ?p + of_bool ?c) = node (m (take (Suc j) ?w))"
      using tablesD(9) [OF t Suc.prems(4), of ?c] q by simp
    moreover have "{j..j + Suc n} = insert j {Suc j..Suc j + n}" by auto
    ultimately show ?thesis
      using Suc.IH [of "Suc j" D m tr] Suc.prems True step by (auto simp: insert_absorb)
  next
    case False
    have node: "take (Suc j) ?w \<in> nodes_of sz (length sz)" using path_nodes [OF k, of "Suc j"] Suc.prems(1) j(2) by simp
    have zero: "tr ! (2 * m ?p + of_bool ?c) = 0"
      using tablesD(9) [OF t Suc.prems(4), of ?c] q False no_leaf_on_path [OF v(1) k _ j(2)] by simp
    have room: "card D < 288" using tables_card(3) [OF t v, of "take (Suc j) ?w"] False node tablesD(4) [OF t] by simp
    have cell_set: "set_at tr (- (node (m ?p) - int (of_bool ?c)) - 1) (to_int16 (node (card D)))
      = Some (tr[2 * m ?p + of_bool ?c := node (card D)])"
      unfolding node_cell using cell(1) tablesD(2) [OF t] room by (subst set_at_nat) (simp_all add: to_int16_node)
    let ?D = "insert (take (Suc j) ?w) D" and ?m = "m(take (Suc j) ?w := card D)"
      and ?tr = "tr[2 * m ?p + of_bool ?c := node (card D)]"
    have new: "tables sz k ?D ?m lu ?tr"
      using add_child [OF t v Suc.prems(4), of ?c] False node q by simp
    have card: "card ?D = Suc (card D)" using False tables_card(1) [OF t v] by simp
    have "{j..j + Suc n} = insert j {Suc j..Suc j + n}" by auto
    then have sets: "?D \<union> (\<lambda>i. take i ?w) ` {Suc j..Suc j + n} = D \<union> (\<lambda>i. take i ?w) ` {j..j + Suc n}"
      using Suc.prems(4) by auto
    have eq: "grow_tree (Suc n) (drop_bit (j - 1) ?r) (node (m ?p)) (node (card D)) tr
      = grow_tree n (drop_bit (Suc j - 1) ?r) (node (?m (take (Suc j) ?w))) (node (card ?D)) ?tr"
      by (simp only: step zero cell_set option.case card node_next fun_upd_same diff_Suc_1 refl if_True)
    have le: "10 \<le> Suc j" "Suc j + n < sz ! k" using Suc.prems(1,2) by simp_all
    show ?thesis
      using Suc.IH [OF le new insertI1] unfolding eq sets by (simp only: add_Suc_shift)
  qed
qed

lemma fill_look_up_fills:
  "r mod 2 ^ cs = r0 \<Longrightarrow> length xs = 1024 \<Longrightarrow>
     \<exists>xs'. fill_look_up xs r cs v = Some xs' \<and> length xs' = 1024
       \<and> (\<forall>i<1024. xs' ! i = (if r \<le> i \<and> i mod 2 ^ cs = r0 then v else xs ! i))"
proof (induction xs r cs v rule: fill_look_up.induct)
  case (1 xs r cs v)
  show ?case
  proof (cases "r < 1024")
    case False
    then show ?thesis using "1.prems" by (subst fill_look_up.simps) auto
  next
    case True
    have set: "set_at xs (int r) v = Some (xs[r := v])" using True "1.prems"(2) by (simp add: set_at_nat)
    have eq: "fill_look_up xs r cs v = fill_look_up (xs[r := v]) (r + 2 ^ cs) cs v"
      using True set by (subst fill_look_up.simps) (simp add: push_bit_eq_mult)
    obtain xs' where xs': "fill_look_up (xs[r := v]) (r + 2 ^ cs) cs v = Some xs'" "length xs' = 1024"
      "\<forall>i<1024. xs' ! i = (if r + 2 ^ cs \<le> i \<and> i mod 2 ^ cs = r0 then v else xs[r := v] ! i)"
      using "1.IH" [OF True set] "1.prems" by (auto simp: push_bit_eq_mult)
    have "xs' ! i = (if r \<le> i \<and> i mod 2 ^ cs = r0 then v else xs ! i)" if i: "i < 1024" for i
    proof (cases "r < i \<and> i mod 2 ^ cs = r0")
      case True
      then have "2 ^ cs dvd i - r" using "1.prems"(1) mod_eq_dvd_iff_nat [of r i "2 ^ cs"] by simp
      then have "2 ^ cs \<le> i - r" using True by (intro dvd_imp_le) auto
      then show ?thesis using True xs'(3) i by auto
    next
      case False
      then show ?thesis using xs'(3) i "1.prems" by (auto simp: nth_list_update)
    qed
    then show ?thesis using eq xs'(1,2) by auto
  qed
qed

text \<open>The state after the first \<open>k\<close> symbols.\<close>

definition built :: "nat list \<Rightarrow> nat \<Rightarrow> build_state \<Rightarrow> bool" where
  "built sz k b \<longleftrightarrow> (\<exists>m. tables sz k (nodes_of sz k) m (b_look_up b) (b_tree b))
     \<and> b_tree_next b = node (card (nodes_of sz k)) \<and> length (b_next_code b) = 17
     \<and> (\<forall>l. 1 \<le> l \<longrightarrow> l \<le> 15 \<longrightarrow> b_next_code b ! l = first_code sz l + length (filter ((=) l) (take k sz)))"

lemma entry_or: "t < 512 \<Longrightarrow> push_bit 9 l OR t = 512 * l + (t :: nat)"
proof -
  assume t: "t < 512"
  have "\<not> bit t n" if "9 \<le> n" for n
  proof -
    have "take_bit 9 t = t" using t by (intro take_bit_nat_eq_self) simp
    then show ?thesis using that by (metis bit_take_bit_iff linorder_not_less)
  qed
  then have "push_bit 9 l OR t = push_bit 9 l + t"
    by (intro disjunctive_add [symmetric]) (auto simp: bit_push_bit_iff)
  then show ?thesis by (simp add: push_bit_eq_mult)
qed

lemma nodes_of_Suc: "nodes_of sz (Suc k) = nodes_of sz k \<union> (\<lambda>i. take i (codeword sz k)) ` {10..<sz ! k}"
  by (fastforce simp: nodes_of_def less_Suc_eq)

lemma insert_long_correct:
  assumes v: "valid_sizes sz" "length sz \<le> 288" and k: "k < length sz" "10 < sz ! k"
    and b: "tables sz k D m (b_look_up b) (b_tree b)" "b_tree_next b = node (card D)" "D = nodes_of sz k"
  shows "\<exists>b' m'. insert_long k (sz ! k) (rev_value sz k) b = Some b'
    \<and> tables sz (Suc k) (nodes_of sz (Suc k)) m' (b_look_up b') (b_tree b')
    \<and> b_tree_next b' = node (card (nodes_of sz (Suc k))) \<and> b_next_code b' = b_next_code b"
proof -
  let ?w = "codeword sz k"
  let ?p = "take 10 ?w"
  have p: "length ?p = 10" "?p \<in> nodes_of sz (length sz)" using k path_nodes [of k sz 10] by simp_all
  have slot: "rev_value sz k AND 1023 = number ?p"
    using take_bit_eq_mask [of 10 "rev_value sz k"] by (simp add: mask_eq_exp_minus_1 rev_value_def take_bit_number)
  have here: "number ?p < length (b_look_up b)" using number_idx [OF p(1)] tablesD(1) [OF b(1)] by simp
  have no_short: "short_at sz k ?p = 0"
  proof -
    have "take (sz ! t) ?p \<noteq> codeword sz t" if t: "t < k" "0 < sz ! t" "sz ! t \<le> 10" for t
      using codewords_prefix_free [of sz t k] v k t by (simp add: min_def)
    then have "find (\<lambda>t. 0 < sz ! t \<and> sz ! t \<le> 10 \<and> take (sz ! t) ?p = codeword sz t) [0..<k] = None"
      by (auto simp: find_upt_None)
    then show ?thesis by (simp only: short_at_def option.case)
  qed
  obtain D1 m1 lu where start: "(if b_look_up b ! number ?p = 0
      then do { lu \<leftarrow> set_at (b_look_up b) (int (number ?p)) (to_int16 (b_tree_next b));
                Some (b_tree_next b, b_tree_next b - 2, lu) }
      else Some (b_look_up b ! number ?p, b_tree_next b, b_look_up b))
      = Some (node (m1 ?p), node (card D1), lu)"
    and t1: "tables sz k D1 m1 lu (b_tree b)" "?p \<in> D1" "D1 = insert ?p D"
  proof (cases "?p \<in> D")
    case True
    then show ?thesis
      using that [of m D "b_look_up b"] tablesD(8) [OF b(1) p(1)] b(1,2) by (simp add: insert_absorb)
  next
    case False
    have "card D < 288" using tables_card(3) [OF b(1) v, of ?p] False p(2) tablesD(4) [OF b(1)] by simp
    then show ?thesis
      using that [of "m(?p := card D)" "insert ?p D" "(b_look_up b)[number ?p := node (card D)]"]
        False tablesD(8) [OF b(1) p(1)] b(2) no_short add_root [OF b(1) v False p] here tables_card(1) [OF b(1) v]
      by (simp add: set_at_nat to_int16_node node_next)
  qed
  let ?L = "sz ! k"
  obtain D2 m2 tr where grown: "grow_tree (?L - 11) (drop_bit 9 (rev_value sz k)) (node (m1 ?p)) (node (card D1)) (b_tree b)
      = Some (drop_bit (?L - 2) (rev_value sz k), node (m2 (take (?L - 1) ?w)), node (card D2), tr)"
    and t2: "tables sz k D2 m2 lu tr" "D2 = D1 \<union> (\<lambda>i. take i ?w) ` {10..?L - 1}"
    using grow_tree_correct [OF v k(1) order_refl _ t1(1,2), of "?L - 11"] k(2) by (auto simp: numeral_2_eq_2)
  let ?q = "take (?L - 1) ?w" and ?c = "?w ! (?L - 1)"
  have "{10..<?L} = {10..?L - 1}" using k(2) by auto
  then have D2: "D2 = nodes_of sz (Suc k)" using t1(3) t2(2) b(3) k(2) by (auto simp: nodes_of_Suc)
  have q: "?q \<in> D2" using t2(2) k(2) by auto
  have w: "?w = ?q @ [?c]" using codeword_Suc [of "?L - 1" sz k] k(2) by simp
  have bit: "drop_bit 1 (drop_bit (?L - 2) (rev_value sz k)) AND 1 = of_bool ?c"
    using codeword_bit [of "?L - 1" sz k] k(2) by (simp add: drop_bit_drop_bit Suc_diff_Suc numeral_2_eq_2)
  have small: "to_int16 (int k) = int k" using k(1) v(2) by (simp add: to_int16_small)
  have cell_set: "set_at tr (- (node (m2 ?q) - int (of_bool ?c)) - 1) (int k) = Some (tr[2 * m2 ?q + of_bool ?c := int k])"
    unfolding node_cell using tables_cell(1) [OF t2(1) v q] tablesD(2) [OF t2(1)] by (intro set_at_nat) simp
  have "tables sz (Suc k) D2 m2 lu (tr[2 * m2 ?q + of_bool ?c := int k])"
    using add_leaf [OF t2(1) v k w q] D2 by simp
  moreover have "insert_long k ?L (rev_value sz k) b
    = Some (b\<lparr>b_tree_next := node (card D2), b_look_up := lu, b_tree := tr[2 * m2 ?q + of_bool ?c := int k]\<rparr>)"
    unfolding insert_long_def Let_def slot elem_at_nat [OF here] bind.bind_lunit start
    by (simp only: grown bit small cell_set bind.bind_lunit case_prod_conv)
  ultimately show ?thesis using D2 by auto
qed

lemma next_code_Suc:
  assumes "k < length sz" "length nc = 17" "0 < sz ! k" "sz ! k \<le> 15"
    "\<forall>l. 1 \<le> l \<longrightarrow> l \<le> 15 \<longrightarrow> nc ! l = first_code sz l + length (filter ((=) l) (take k sz))"
  shows "\<forall>l. 1 \<le> l \<longrightarrow> l \<le> 15 \<longrightarrow> nc[sz ! k := code_value sz k + 1] ! l
    = first_code sz l + length (filter ((=) l) (take (Suc k) sz))"
  using assms by (auto simp: take_Suc_conv_app_nth nth_list_update code_value_def)

lemma insert_symbol_correct:
  assumes v: "valid_sizes sz" "length sz \<le> 288" and k: "k < length sz" and b: "built sz k b"
  shows "\<exists>b'. insert_symbol k (sz ! k) b = Some b' \<and> built sz (Suc k) b'"
proof (cases "sz ! k = 0")
  case True
  then obtain m where "tables sz (Suc k) (nodes_of sz k) m (b_look_up b) (b_tree b)"
    using b add_none True unfolding built_def by blast
  then show ?thesis
    using True b k by (auto simp: insert_symbol_def built_def nodes_of_short take_Suc_conv_app_nth)
next
  case False
  let ?L = "sz ! k"
  obtain m where t: "tables sz k (nodes_of sz k) m (b_look_up b) (b_tree b)" using b by (auto simp: built_def)
  have L: "0 < ?L" "?L \<le> 15" using False valid_sizesD [OF v(1) k] by simp_all
  have nc: "b_next_code b ! ?L = code_value sz k" "length (b_next_code b) = 17"
    using b L by (auto simp: built_def code_value_def)
  have at: "elem_at (b_next_code b) (int ?L) = Some (code_value sz k)"
    using nc L(2) elem_at_nat [of ?L "b_next_code b"] by simp
  let ?nc = "(b_next_code b)[?L := code_value sz k + 1]"
  have nc': "\<forall>l. 1 \<le> l \<longrightarrow> l \<le> 15 \<longrightarrow> ?nc ! l = first_code sz l + length (filter ((=) l) (take (Suc k) sz))"
    using b by (intro next_code_Suc [OF k nc(2) L]) (simp add: built_def)
  show ?thesis
  proof (cases "?L \<le> 10")
    case True
    let ?v = "int (512 * ?L + k)"
    have lu: "length (b_look_up b) = 1024" using tablesD(1) [OF t] .
    have val: "to_int16 (int (push_bit 9 ?L OR k)) = ?v"
      using entry_or [of k ?L] k v(2) True by (simp add: to_int16_small)
    obtain xs where xs: "fill_look_up (b_look_up b) (rev_value sz k) ?L ?v = Some xs" "length xs = 1024"
      "\<forall>i<1024. xs ! i = (if rev_value sz k \<le> i \<and> i mod 2 ^ ?L = rev_value sz k then ?v else b_look_up b ! i)"
      using fill_look_up_fills [OF mod_less [OF rev_value_less] lu] by blast
    have cell: "xs ! number q = (if take ?L q = codeword sz k then ?v else b_look_up b ! number q)"
      if q: "length q = 10" for q
    proof -
      have "number q mod 2 ^ ?L = number (take ?L q)" by (simp flip: take_bit_number take_bit_eq_mod)
      moreover have "number (take ?L q) = rev_value sz k \<longleftrightarrow> take ?L q = codeword sz k"
        using number_inj [of "take ?L q" "codeword sz k"] q True by (auto simp: rev_value_def)
      moreover have "number q mod 2 ^ ?L \<le> number q" by simp
      ultimately show ?thesis using xs(3) number_idx [OF q] by auto
    qed
    have "tables sz (Suc k) (nodes_of sz k) m xs (b_tree b)"
      by (rule add_short [OF t v k L(1) True xs(2) cell])
    moreover have "insert_symbol k ?L b = Some (b\<lparr>b_next_code := ?nc, b_look_up := xs\<rparr>)"
      using False at True xs(1) val by (simp add: insert_symbol_def reverse_code_value)
    ultimately show ?thesis
      using nc' nc(2) b nodes_of_short [OF True] by (auto simp: built_def)
  next
    case long: False
    let ?b = "b\<lparr>b_next_code := ?nc\<rparr>"
    obtain b' m' where b': "insert_long k ?L (rev_value sz k) ?b = Some b'"
      "tables sz (Suc k) (nodes_of sz (Suc k)) m' (b_look_up b') (b_tree b')"
      "b_tree_next b' = node (card (nodes_of sz (Suc k)))" "b_next_code b' = ?nc"
      using insert_long_correct [OF v k _ _ _ refl, of m ?b] t b long by (auto simp: built_def)
    have "insert_symbol k ?L b = Some b'"
      using False at long b'(1) by (simp add: insert_symbol_def reverse_code_value)
    then show ?thesis using b'(2-4) nc' nc(2) by (auto simp: built_def)
  qed
qed

lemma insert_symbols_correct:
  assumes v: "valid_sizes sz" "length sz \<le> 288" and "sz = map unat cs"
  shows "k + n = length cs \<Longrightarrow> built sz k b \<Longrightarrow>
     \<exists>b'. insert_symbols k (drop k cs) b = Some b' \<and> built sz (length sz) b'"
proof (induction n arbitrary: k b)
  case 0
  then show ?case using assms(3) by simp
next
  case (Suc n)
  then have k: "k < length cs" by simp
  obtain b' where b': "insert_symbol k (unat (cs ! k)) b = Some b'" "built sz (Suc k) b'"
    using insert_symbol_correct [OF v, of k b] Suc.prems k assms(3) by auto
  then show ?case
    using Suc.IH [of "Suc k" b'] Suc.prems k by (simp add: Cons_nth_drop_Suc [symmetric, OF k])
qed

text \<open>The table that is built: every code word ends at its symbol.\<close>

definition table_for :: "nat list \<Rightarrow> tinfl_huff_table \<Rightarrow> bool" where
  "table_for sz tbl \<longleftrightarrow> (\<exists>m. tables sz (length sz) (nodes_of sz (length sz)) m (look_up tbl) (tree tbl))"

lemma build_table_correct:
  assumes v: "valid_sizes (map unat cs)" and len: "length cs \<le> 288"
  shows "\<exists>tbl. build_table cs = Some (Some tbl) \<and> table_for (map unat cs) tbl"
proof -
  let ?sz = "map unat cs"
  have small: "list_all (\<lambda>c. unat c < length (replicate 16 (0::nat))) cs"
    using v by (auto simp: valid_sizes_def list_all_iff)
  obtain ts where ts: "count_sizes cs (replicate 16 0) = Some ts"
    "\<And>l. l < 16 \<Longrightarrow> ts ! l = length (filter ((=) l) ?sz)"
    using count_sizes_counts [OF small] by (auto simp: nth_append)
  then have counts: "ts ! l = count_of ?sz l" if "1 \<le> l" "l < 16" for l
    using that by (simp add: count_of_def)
  obtain nc where nc: "first_codes ts [1..<16] (0, 0, replicate 17 0)
      = (sum_list (map (count_of ?sz) [1..<16]), first_code ?sz 16, nc)"
    "length nc = 17" "\<forall>l. 1 \<le> l \<longrightarrow> l \<le> 16 \<longrightarrow> nc ! l = first_code ?sz l"
    using first_codes_from [of ts ?sz "replicate 17 0" 1 15 0] counts by (auto simp: count_of_def)
  let ?b = "\<lparr>b_next_code = nc, b_tree_next = - 1, b_look_up = replicate 1024 0, b_tree = replicate 576 0\<rparr>"
  have none: "nodes_of ?sz 0 = {}" by (simp add: nodes_of_def)
  have "tables ?sz 0 {} (\<lambda>p. 0) (replicate 1024 0) (replicate 576 0)"
    by (rule tablesI) (use none in \<open>auto simp: short_at_def number_idx\<close>)
  then have "built ?sz 0 ?b" using nc none by (auto simp: built_def node_def)
  then obtain b where b: "insert_symbols 0 cs ?b = Some b" "built ?sz (length ?sz) b"
    using insert_symbols_correct [OF v _ refl, of 0 "length cs" ?b] len by auto
  have go: "\<not> (first_code ?sz 16 \<noteq> 65536 \<and> 1 < sum_list (map (count_of ?sz) [1..<16]))"
  proof (cases "first_code ?sz 16 = 2 ^ 16")
    case False
    then have s: "list_all (\<lambda>l. l \<le> 1) ?sz" "count_of ?sz 1 \<le> 1" using v by (auto simp: valid_sizes_def)
    then have "count_of ?sz l = 0" if "1 < l" for l
      using that by (auto simp: count_of_def list_all_iff filter_empty_conv)
    then have "map (count_of ?sz) [2..<16] = map (\<lambda>l. 0) [2..<16]" by (intro map_cong) auto
    then have "sum_list (map (count_of ?sz) [2..<16]) = 0" by (metis sum_list_0)
    moreover have "[1..<16] = 1 # [2..<16]" by (simp add: upt_rec)
    ultimately show ?thesis using s(2) by simp
  qed simp
  have "build_table cs = Some (Some \<lparr>look_up = b_look_up b, tree = b_tree b\<rparr>)"
    unfolding build_table_def using ts(1) nc(1) go b(1) by simp
  then show ?thesis using b(2) by (auto simp: built_def table_for_def)
qed

end
