(* ===== verification/Inflate_Bits.thy ===== *)
theory Inflate_Bits
  imports Inflate_Tables
begin

text \<open>
  The bit buffer and the decoding of a symbol. \<open>buffered inp bs st\<close>: the bits of the input that are
  not consumed yet are \<open>bs\<close>, and the buffer of the state \<open>st\<close> holds the first of them, followed by zeros. Reading a
  number or a symbol from the state is reading it from \<open>bs\<close>.
\<close>

section \<open>Looking up a symbol\<close>

lemma no_node_below_short:
  assumes "valid_sizes sz" "s < length sz" "0 < sz ! s" "sz ! s \<le> 10" "take (sz ! s) p = codeword sz s" "10 \<le> length p"
  shows "p \<notin> nodes_of sz (length sz)"
proof
  assume "p \<in> nodes_of sz (length sz)"
  then obtain t j where t: "t < length sz" "j < sz ! t" "10 \<le> j" "p = take j (codeword sz t)"
    by (auto simp: nodes_of_def)
  then have "take (sz ! s) (codeword sz t) = codeword sz s"
    using assms(4,5) by (metis le_trans min.absorb1 take_take)
  moreover have "s \<noteq> t" using t assms(4) by auto
  ultimately show False using codewords_prefix_free [of sz s t] assms t by simp
qed

lemma short_entry:
  assumes "valid_sizes sz" "s < length sz" "0 < sz ! s" "sz ! s \<le> 10" "take (sz ! s) p = codeword sz s"
  shows "short_at sz (length sz) p = int (512 * (sz ! s) + s)"
proof -
  have uniq: "t = s" if t: "t < length sz" "0 < sz ! t" "sz ! t \<le> 10" "take (sz ! t) p = codeword sz t" for t
    using no_earlier_short [of sz s p] no_earlier_short [of sz t p] assms t
    by (cases t s rule: linorder_cases) (auto simp: find_upt_None)
  obtain t where t: "find (\<lambda>t. 0 < sz ! t \<and> sz ! t \<le> 10 \<and> take (sz ! t) p = codeword sz t) [0..<length sz] = Some t"
    using assms by (cases "find (\<lambda>t. 0 < sz ! t \<and> sz ! t \<le> 10 \<and> take (sz ! t) p = codeword sz t) [0..<length sz]")
      (auto simp: find_upt_None)
  then have "t = s" by (intro uniq) (auto simp: find_Some_iff)
  then show ?thesis using t by (simp add: short_at_def)
qed

lemma short_entry_source:
  assumes "short_at sz k p \<noteq> 0"
  obtains s where "s < k" "0 < sz ! s" "sz ! s \<le> 10" "take (sz ! s) p = codeword sz s"
    "short_at sz k p = int (512 * (sz ! s) + s)"
proof (cases "find (\<lambda>t. 0 < sz ! t \<and> sz ! t \<le> 10 \<and> take (sz ! t) p = codeword sz t) [0..<k]")
  case (Some s)
  moreover have "s < k" "0 < sz ! s" "sz ! s \<le> 10" "take (sz ! s) p = codeword sz s"
    using Some by (auto simp: find_Some_iff)
  ultimately show ?thesis using that by (simp add: short_at_def)
qed (use assms in \<open>simp add: short_at_def\<close>)

lemma leaf_entry:
  assumes "valid_sizes sz" "s < length sz" "0 < sz ! s"
  shows "leaf_at sz (length sz) (codeword sz s) = int s"
proof -
  have ne: "codeword sz s \<noteq> []" using assms(3) by (simp add: codeword_Nil)
  have uniq: "t = s" if t: "t < length sz" "codeword sz t = codeword sz s" for t
  proof -
    have l: "sz ! t = sz ! s" using t(2) length_codeword by metis
    show ?thesis using codewords_prefix_free [of sz t s] assms t l by (cases "t = s") auto
  qed
  obtain t where t: "find (\<lambda>t. codeword sz s \<noteq> [] \<and> codeword sz t = codeword sz s) [0..<length sz] = Some t"
    using assms(2) ne by (cases "find (\<lambda>t. codeword sz s \<noteq> [] \<and> codeword sz t = codeword sz s) [0..<length sz]")
      (auto simp: find_upt_None)
  then have "t = s" by (intro uniq) (auto simp: find_Some_iff)
  then show ?thesis using t by (simp only: leaf_at_def option.case)
qed

lemma code_not_node:
  assumes "valid_sizes sz" "s < length sz" "0 < sz ! s"
  shows "codeword sz s \<notin> nodes_of sz (length sz)"
proof
  assume "codeword sz s \<in> nodes_of sz (length sz)"
  then obtain t j where t: "t < length sz" "j < sz ! t" "codeword sz s = take j (codeword sz t)"
    by (auto simp: nodes_of_def)
  then have "j = sz ! s" using length_codeword [of sz s] by simp
  then show False using codewords_prefix_free [of sz s t] t assms by auto
qed

definition low_bits :: "nat \<Rightarrow> u32 \<Rightarrow> bool list" where
  "low_bits n w = map (bit w) [0..<n]"

lemma low_bits_simps [simp]: "length (low_bits n w) = n" "j < n \<Longrightarrow> low_bits n w ! j = bit w j"
  by (simp_all add: low_bits_def)

lemma take_low_bits: "m \<le> n \<Longrightarrow> take m (low_bits n w) = low_bits m w"
  by (simp add: low_bits_def take_map)

lemma number_low_bits: "number (low_bits n w) = unat (take_bit n w)"
  by (rule bit_eqI) (auto simp: bit_number bit_unsigned_iff bit_take_bit_iff)

lemma slot_number: "int (unat (w AND 1023)) = int (number (low_bits 10 w))"
  using take_bit_eq_mask [of 10 w] by (simp add: number_low_bits mask_eq_exp_minus_1 del: of_nat_unat)

lemma table_forE:
  assumes "table_for sz tbl"
  obtains m where "tables sz (length sz) (nodes_of sz (length sz)) m (look_up tbl) (tree tbl)"
  using assms by (auto simp: table_for_def)

lemma look_up_at:
  assumes t: "tables sz k D m (look_up tbl) tr"
  shows "elem_at (look_up tbl) (int (unat (w AND 1023)))
    = Some (if low_bits 10 w \<in> D then node (m (low_bits 10 w)) else short_at sz k (low_bits 10 w))"
  unfolding slot_number using tablesD(1,8) [OF t] number_idx [of "low_bits 10 w"] by (simp add: elem_at_nat)

lemma tree_at:
  assumes t: "tables sz k D m lu tr" and v: "valid_sizes sz" "length sz \<le> 288" and p: "p \<in> D"
  shows "elem_at tr (- node (m p) - 1 + (if c then 1 else 0))
    = Some (if p @ [c] \<in> D then node (m (p @ [c])) else leaf_at sz k (p @ [c]))"
proof -
  have i: "- node (m p) - 1 + (if c then 1 else 0) = int (2 * m p + of_bool c)" by (simp add: node_def)
  show ?thesis
    unfolding i using tables_cell(1) [OF t v p, of c] tablesD(2) [OF t] tablesD(9) [OF t p, of c]
    by (subst elem_at_nat) simp_all
qed

lemma low_bits_Suc: "low_bits (Suc j) w = low_bits j w @ [bit w j]"
  by (simp add: low_bits_def)

text \<open>One step from a node on the path of the code word of \<open>s\<close>.\<close>

lemma path_step:
  assumes t: "tables sz (length sz) (nodes_of sz (length sz)) m lu tr" and v: "valid_sizes sz" "length sz \<le> 288"
    and s: "s < length sz" "10 \<le> j" "j < sz ! s" "take (Suc j) (codeword sz s) = low_bits (Suc j) w"
  shows "elem_at tr (- node (m (low_bits j w)) - 1 + (if bit w j then 1 else 0))
    = Some (if Suc j < sz ! s then node (m (low_bits (Suc j) w)) else int s)"
proof -
  have p: "low_bits j w = take j (codeword sz s)"
    using arg_cong [OF s(4), of "take j"] by (simp add: take_low_bits)
  have node: "low_bits j w \<in> nodes_of sz (length sz)" unfolding p using path_nodes s by blast
  have below: "low_bits j w @ [bit w j] \<in> nodes_of sz (length sz) \<longleftrightarrow> Suc j < sz ! s"
  proof (cases "Suc j < sz ! s")
    case True
    then show ?thesis using path_nodes [of s sz "Suc j"] s by (simp flip: low_bits_Suc)
  next
    case False
    then have "take (Suc j) (codeword sz s) = codeword sz s" by simp
    then show ?thesis using code_not_node [OF v(1) s(1)] s False by (simp flip: low_bits_Suc)
  qed
  have "leaf_at sz (length sz) (low_bits (Suc j) w) = int s" if "\<not> Suc j < sz ! s"
  proof -
    have "low_bits (Suc j) w = codeword sz s" using s(4) that by simp
    then show ?thesis using leaf_entry [OF v(1) s(1)] s(3) by simp
  qed
  then show ?thesis using tree_at [OF t v node, of "bit w j"] below by (simp add: low_bits_Suc)
qed

lemma tree_walk_path:
  assumes t: "tables sz (length sz) (nodes_of sz (length sz)) m lu tr" and v: "valid_sizes sz" "length sz \<le> 288"
    and s: "s < length sz" "codeword sz s = low_bits (sz ! s) w"
  shows "10 \<le> j \<Longrightarrow> j < sz ! s \<Longrightarrow> tree_walk tr w (node (m (low_bits j w))) j = Some (int s, sz ! s)"
proof (induction "sz ! s - j" arbitrary: j)
  case (Suc n)
  have "take (Suc j) (codeword sz s) = low_bits (Suc j) w" using s(2) Suc.prems by (simp add: take_low_bits)
  note step = path_step [OF t v s(1) Suc.prems this]
  have "j < 32" using valid_sizesD [OF v(1) s(1)] Suc.prems by simp
  show ?case
  proof (cases "Suc j < sz ! s")
    case True
    then show ?thesis
      using Suc.hyps(1) [of "Suc j"] Suc.hyps(2) Suc.prems step \<open>j < 32\<close> by (subst tree_walk.simps) simp
  next
    case False
    then have "Suc j = sz ! s" using Suc.prems(2) by simp
    then show ?thesis using step False \<open>j < 32\<close> by (subst tree_walk.simps) simp
  qed
qed simp

lemma split_entry: "s < 512 \<Longrightarrow> nat (int (512 * l + s) AND 511) = s \<and> nat (drop_bit 9 (int (512 * l + s))) = l
    \<and> drop_bit 9 (int (512 * l + s)) = int l"
proof -
  assume s: "s < 512"
  have "int (512 * l + s) AND 511 = int ((512 * l + s) mod 512)"
    using take_bit_eq_mask [of 9 "int (512 * l + s)"] by (simp add: mask_eq_exp_minus_1 take_bit_eq_mod zmod_int)
  moreover have "drop_bit 9 (int (512 * l + s)) = int ((512 * l + s) div 512)"
    by (simp add: drop_bit_eq_div zdiv_int)
  ultimately show ?thesis using s by simp
qed

lemma huff_lookup_correct:
  assumes v: "valid_sizes sz" "length sz \<le> 288" and tbl: "table_for sz tbl"
    and s: "s < length sz" "0 < sz ! s" "codeword sz s = low_bits (sz ! s) w"
  shows "huff_lookup tbl w = Some (s, sz ! s)"
proof -
  obtain m where t: "tables sz (length sz) (nodes_of sz (length sz)) m (look_up tbl) (tree tbl)"
    using table_forE [OF tbl] .
  show ?thesis
  proof (cases "sz ! s \<le> 10")
    case True
    then have pre: "take (sz ! s) (low_bits 10 w) = codeword sz s" using s(3) by (simp add: take_low_bits)
    show ?thesis
      using look_up_at [OF t, of w] no_node_below_short [OF v(1) s(1,2) True pre]
        short_entry [OF v(1) s(1,2) True pre] split_entry [of s "sz ! s"] s(1) v(2)
      by (simp add: huff_lookup_def)
  next
    case False
    then have "low_bits 10 w = take 10 (codeword sz s)" using s(3) by (simp add: take_low_bits)
    then have "low_bits 10 w \<in> nodes_of sz (length sz)" using path_nodes [of s sz 10] s(1) False by simp
    then show ?thesis
      using look_up_at [OF t, of w] tree_walk_path [OF t v s(1,3), of 10] False
      by (simp add: huff_lookup_def)
  qed
qed

section \<open>The bit buffer\<close>

lemma length_bits_of [simp]: "length (bits_of inp) = 8 * length inp"
  by (induction inp) (simp_all add: bits_of_def)

lemma nth_bits_of: "i < length inp \<Longrightarrow> j < 8 \<Longrightarrow> bits_of inp ! (8 * i + j) = bit (inp ! i) j"
  by (subst bits_of_def, subst nth_concat_equal [where n = 8]) auto

definition buffered :: "bytes \<Rightarrow> bool list \<Rightarrow> tinfl_state \<Rightarrow> bool" where
  "buffered inp bs st \<longleftrightarrow> num_bits st < 32 \<and> in_cur st \<le> length inp
     \<and> (\<forall>j. bit (bit_buf st) j \<longleftrightarrow> j < num_bits st \<and> j < length bs \<and> bs ! j)
     \<and> length bs \<le> 8 * length inp \<and> bs = drop (8 * length inp - length bs) (bits_of inp)
     \<and> (\<exists>pad. 8 * length inp + num_bits st = length bs + 8 * (in_cur st + pad) \<and> (pad = 0 \<or> in_cur st = length inp))"

definition same_out :: "tinfl_state \<Rightarrow> tinfl_state \<Rightarrow> bool" where
  "same_out st st' \<longleftrightarrow> out_buf st' = out_buf st \<and> out_cur st' = out_cur st"

lemma same_out_refl [simp]: "same_out st st"
  by (simp add: same_out_def)

lemma same_out_trans [trans]: "same_out a b \<Longrightarrow> same_out b c \<Longrightarrow> same_out a c"
  by (simp add: same_out_def)

lemma bufferedD:
  assumes "buffered inp bs st"
  shows "num_bits st < 32" "bit (bit_buf st) j \<longleftrightarrow> j < num_bits st \<and> j < length bs \<and> bs ! j"
  using assms by (simp_all add: buffered_def)

lemma bufferedI:
  assumes "num_bits st < 32" "in_cur st \<le> length inp"
    "\<And>j. bit (bit_buf st) j \<longleftrightarrow> j < num_bits st \<and> j < length bs \<and> bs ! j"
    "length bs \<le> 8 * length inp" "bs = drop (8 * length inp - length bs) (bits_of inp)"
    "8 * length inp + num_bits st = length bs + 8 * (in_cur st + pad)" "pad = 0 \<or> in_cur st = length inp"
  shows "buffered inp bs st"
  unfolding buffered_def using assms by blast

lemma bufferedE:
  assumes "buffered inp bs st"
  obtains pad where "8 * length inp + num_bits st = length bs + 8 * (in_cur st + pad)"
    "pad = 0 \<or> in_cur st = length inp" "length bs \<le> 8 * length inp"
    "bs = drop (8 * length inp - length bs) (bits_of inp)" "in_cur st \<le> length inp"
  using assms unfolding buffered_def by blast

lemma buffered_low_bits: "buffered inp bs st \<Longrightarrow> n \<le> num_bits st \<Longrightarrow> n \<le> length bs \<Longrightarrow> low_bits n (bit_buf st) = take n bs"
  by (rule nth_equalityI) (auto simp: bufferedD)

lemma buffered_start: "buffered inp (bits_of inp) \<lparr>in_cur = 0, bit_buf = 0, num_bits = 0, out_buf = out, out_cur = n\<rparr>"
  by (simp add: buffered_def)

lemma buffered_byte:
  assumes b: "buffered inp bs st" and j: "j < 8"
  shows "bit (fst (tinfl_get_byte inp st)) j \<longleftrightarrow> num_bits st + j < length bs \<and> bs ! (num_bits st + j)"
proof -
  obtain pad where pad: "8 * length inp + num_bits st = length bs + 8 * (in_cur st + pad)"
    "pad = 0 \<or> in_cur st = length inp" and len: "length bs \<le> 8 * length inp" "in_cur st \<le> length inp"
    using b by (auto simp: buffered_def)
  show ?thesis
  proof (cases "in_cur st < length inp")
    case True
    then have "8 * length inp + num_bits st = length bs + 8 * in_cur st" using pad by auto
    moreover from this have "num_bits st + j < length bs" using True j by linarith
    moreover have "bs ! (num_bits st + j) = bits_of inp ! (8 * length inp - length bs + (num_bits st + j))"
    proof -
      have "bs ! (num_bits st + j) = drop (8 * length inp - length bs) (bits_of inp) ! (num_bits st + j)"
        using b by (simp add: buffered_def)
      then show ?thesis using len by simp
    qed
    ultimately have "bs ! (num_bits st + j) = bits_of inp ! (8 * in_cur st + j)"
      using len by (simp add: algebra_simps)
    then show ?thesis
      using nth_bits_of [OF True j] True \<open>num_bits st + j < length bs\<close> by (simp add: tinfl_get_byte_def)
  next
    case False
    then show ?thesis using pad len by (auto simp: tinfl_get_byte_def)
  qed
qed

lemma buffered_add_byte:
  assumes b: "buffered inp bs st" and n: "num_bits st < 24"
  shows "buffered inp bs (add_byte inp st)" "num_bits (add_byte inp st) = num_bits st + 8"
    "same_out st (add_byte inp st)"
proof -
  let ?c = "fst (tinfl_get_byte inp st)"
  have f: "add_byte inp st = st\<lparr>in_cur := min (length inp) (in_cur st + 1), bit_buf := bit_buf st OR push_bit (num_bits st) (ucast ?c),
     num_bits := num_bits st + 8\<rparr>"
    using b by (auto simp: add_byte_def tinfl_get_byte_def buffered_def Let_def)
  then show "num_bits (add_byte inp st) = num_bits st + 8" "same_out st (add_byte inp st)"
    by (simp_all add: same_out_def)
  have "bit (bit_buf st OR push_bit (num_bits st) (ucast ?c)) j
    \<longleftrightarrow> j < num_bits st + 8 \<and> j < length bs \<and> bs ! j" for j
  proof -
    have "bit (push_bit (num_bits st) (ucast ?c) :: u32) j
      \<longleftrightarrow> num_bits st \<le> j \<and> j < num_bits st + 8 \<and> bit ?c (j - num_bits st)"
      using n byte_bit [of ?c "j - num_bits st"] by (auto simp: bit_simps)
    then show ?thesis
      using buffered_byte [OF b, of "j - num_bits st"] bufferedD(2) [OF b, of j]
      by (cases "num_bits st \<le> j"; cases "j < num_bits st + 8") (auto simp: bit_or_iff)
  qed
  moreover have "\<exists>pad'. 8 * length inp + (num_bits st + 8) = length bs + 8 * (min (length inp) (in_cur st + 1) + pad')
      \<and> (pad' = 0 \<or> min (length inp) (in_cur st + 1) = length inp)"
  proof -
    obtain pad where pad: "8 * length inp + num_bits st = length bs + 8 * (in_cur st + pad)"
      "pad = 0 \<or> in_cur st = length inp" "in_cur st \<le> length inp"
      using b by (auto simp: buffered_def)
    show ?thesis
      using pad by (cases "in_cur st < length inp") (auto intro: exI [of _ 0] exI [of _ "Suc pad"])
  qed
  ultimately show "buffered inp bs (add_byte inp st)"
    unfolding f using b n by (simp add: buffered_def)
qed

lemma buffered_drop_bits:
  assumes b: "buffered inp bs st" and n: "n \<le> num_bits st" "n \<le> length bs"
  shows "buffered inp (drop n bs) (drop_bits n st)" "same_out st (drop_bits n st)"
    "num_bits (drop_bits n st) = num_bits st - n" "in_cur (drop_bits n st) = in_cur st"
proof -
  have "num_bits st + 2 ^ 32 - n = num_bits st - n + 2 ^ 32" using n(1) by linarith
  then have sub: "sub32 (num_bits st) n = num_bits st - n"
    using bufferedD(1) [OF b] by (simp only: sub32_def mod_add_self2) simp
  then show "same_out st (drop_bits n st)" "num_bits (drop_bits n st) = num_bits st - n"
    "in_cur (drop_bits n st) = in_cur st"
    by (simp_all add: drop_bits_def same_out_def)
  have "drop n bs = drop (8 * length inp - length (drop n bs)) (bits_of inp)"
  proof -
    have "drop n bs = drop n (drop (8 * length inp - length bs) (bits_of inp))"
      using b by (simp add: buffered_def)
    then show ?thesis using b n(2) by (simp add: buffered_def Nat.diff_diff_right add.commute)
  qed
  moreover have "bit (drop_bit n (bit_buf st)) j
      \<longleftrightarrow> j < num_bits st - n \<and> j < length (drop n bs) \<and> drop n bs ! j" for j
    using bufferedD(2) [OF b, of "n + j"] n by (auto simp: bit_drop_bit_eq)
  moreover obtain pad where "8 * length inp + num_bits st = length bs + 8 * (in_cur st + pad)"
      "pad = 0 \<or> in_cur st = length inp"
    using b by (auto simp: buffered_def)
  moreover have "in_cur st \<le> length inp" "length bs \<le> 8 * length inp" "num_bits st < 32"
    using b by (simp_all add: buffered_def)
  ultimately show "buffered inp (drop n bs) (drop_bits n st)"
    using n by (intro bufferedI [where pad = pad]) (simp_all add: drop_bits_def sub)
qed

lemma need_bits_buffered:
  "buffered inp bs st \<Longrightarrow> num_bits st < n \<Longrightarrow> n \<le> 24 \<Longrightarrow>
     buffered inp bs (need_bits inp n st) \<and> n \<le> num_bits (need_bits inp n st) \<and> same_out st (need_bits inp n st)"
proof (induction inp n st rule: need_bits.induct)
  case (1 inp n st)
  have b: "num_bits st < 24" using "1.prems" by simp
  note a = buffered_add_byte [OF "1.prems"(1) b]
  show ?case
    using "1.IH" [OF refl] a "1.prems" same_out_trans [OF a(3)]
    by (subst need_bits.simps, subst (2) need_bits.simps, subst (3) need_bits.simps) (auto simp: Let_def)
qed

lemma get_bits_correct:
  assumes b: "buffered inp bs st" and x: "take_number n bs = Some (x, bs')" and n: "n \<le> 24"
  shows "\<exists>st'. tinfl_get_bits inp n st = (x, st') \<and> buffered inp bs' st' \<and> same_out st st'"
proof -
  have x': "n \<le> length bs" "x = number (take n bs)" "bs' = drop n bs"
    using x by (auto simp: take_number_def split: if_splits)
  let ?st = "if num_bits st < n then need_bits inp n st else st"
  have s: "buffered inp bs ?st" "n \<le> num_bits ?st" "same_out st ?st"
    using need_bits_buffered [OF b _ n] b by (auto split: if_splits)
  have "unat (bit_buf ?st AND mask n) = number (low_bits n (bit_buf ?st))"
    by (simp add: number_low_bits take_bit_eq_mask)
  then have "unat (bit_buf ?st AND mask n) = x" using buffered_low_bits [OF s(1,2)] x' by simp
  then show ?thesis
    using buffered_drop_bits [OF s(1,2)] x' same_out_trans [OF s(3)] by (auto simp: tinfl_get_bits_def Let_def)
qed

section \<open>Decoding a symbol\<close>

lemma fill_walk_path:
  assumes t: "tables sz (length sz) (nodes_of sz (length sz)) m lu tr" and v: "valid_sizes sz" "length sz \<le> 288"
    and s: "s < length sz" "take (min n (sz ! s)) (codeword sz s) = low_bits (min n (sz ! s)) w"
  shows "10 \<le> j \<Longrightarrow> j < sz ! s \<Longrightarrow> j < n \<Longrightarrow>
    fill_walk tr w n (node (m (low_bits j w))) j = Some (if sz ! s \<le> n then int s else node (m (low_bits n w)))"
proof (induction "n - j" arbitrary: j)
  case (Suc d)
  have "take (Suc j) (codeword sz s) = low_bits (Suc j) w"
    using arg_cong [OF s(2), of "take (Suc j)"] Suc.prems by (simp add: take_low_bits)
  note step = path_step [OF t v s(1) Suc.prems(1,2) this]
  have "j < 32" using valid_sizesD [OF v(1) s(1)] Suc.prems by simp
  consider "Suc j < sz ! s" "Suc j < n" | "Suc j < sz ! s" "Suc j = n" | "Suc j = sz ! s"
    using Suc.prems by linarith
  then show ?case
  proof cases
    case 1
    then show ?thesis
      using Suc.hyps(1) [of "Suc j"] Suc.hyps(2) Suc.prems step \<open>j < 32\<close> by (subst fill_walk.simps) simp
  next
    case 2
    then show ?thesis using step \<open>j < 32\<close> by (subst fill_walk.simps) simp
  next
    case 3
    then show ?thesis using step \<open>j < 32\<close> Suc.prems(3) by (subst fill_walk.simps) simp
  qed
qed simp

text \<open>\<open>TINFL_HUFF_BITBUF_FILL\<close> finds a symbol only when all of its bits are in the buffer.\<close>

lemma symbol_ready_sound:
  assumes v: "valid_sizes sz" "length sz \<le> 288" and tbl: "table_for sz tbl"
    and s: "s < length sz" "0 < sz ! s" "take (sz ! s) bs = codeword sz s" and b: "buffered inp bs st"
  shows "\<exists>r. symbol_ready tbl st = Some r \<and> (r \<longrightarrow> sz ! s \<le> num_bits st)"
proof -
  obtain m where t: "tables sz (length sz) (nodes_of sz (length sz)) m (look_up tbl) (tree tbl)"
    using table_forE [OF tbl] .
  let ?w = "bit_buf st" and ?n = "num_bits st"
  have len: "sz ! s \<le> length bs" using arg_cong [OF s(3), of length] by simp
  have low: "low_bits k ?w = take k (codeword sz s)" if "k \<le> ?n" "k \<le> sz ! s" for k
  proof -
    have "low_bits k ?w = take k bs" using buffered_low_bits [OF b that(1)] that(2) len by simp
    also have "\<dots> = take k (take (sz ! s) bs)" using that(2) by (simp add: min_def)
    finally show ?thesis by (simp add: s(3))
  qed
  show ?thesis
  proof (cases "low_bits 10 ?w \<in> nodes_of sz (length sz)")
    case False
    then have at: "elem_at (look_up tbl) (int (unat (?w AND 1023))) = Some (short_at sz (length sz) (low_bits 10 ?w))"
      using look_up_at [OF t, of ?w] by simp
    show ?thesis
    proof (cases "short_at sz (length sz) (low_bits 10 ?w) = 0")
      case True
      then show ?thesis using at by (auto simp: symbol_ready_def)
    next
      case nz: False
      then obtain u where u: "u < length sz" "0 < sz ! u" "sz ! u \<le> 10" "take (sz ! u) (low_bits 10 ?w) = codeword sz u"
        "short_at sz (length sz) (low_bits 10 ?w) = int (512 * (sz ! u) + u)"
        using short_entry_source by blast
      have "sz ! s \<le> ?n" if "sz ! u \<le> ?n"
      proof (cases "sz ! u \<le> sz ! s")
        case True
        then have "take (sz ! u) (codeword sz s) = codeword sz u"
          using low [OF that True] u(3,4) by (simp add: take_low_bits)
        then show ?thesis using codewords_prefix_free [of sz u s] v u s True that by (cases "u = s") auto
      qed (use that in simp)
      then show ?thesis
        using at u split_entry [of u "sz ! u"] v(2) by (simp add: symbol_ready_def)
    qed
  next
    case True
    then have at: "elem_at (look_up tbl) (int (unat (?w AND 1023))) = Some (node (m (low_bits 10 ?w)))"
      using look_up_at [OF t, of ?w] by simp
    show ?thesis
    proof (cases "10 < ?n")
      case False
      then show ?thesis using at by (auto simp: symbol_ready_def)
    next
      case n: True
      have "10 < sz ! s"
      proof (rule ccontr)
        assume "\<not> 10 < sz ! s"
        then have "take (sz ! s) (low_bits 10 ?w) = codeword sz s"
          using low [of "sz ! s"] n by (simp add: take_low_bits)
        then show False using no_node_below_short [OF v(1) s(1,2)] True \<open>\<not> 10 < sz ! s\<close> by simp
      qed
      then have "fill_walk (tree tbl) ?w ?n (node (m (low_bits 10 ?w))) 10
          = Some (if sz ! s \<le> ?n then int s else node (m (low_bits ?n ?w)))"
        using fill_walk_path [OF t v s(1), of ?n ?w 10] low [of "min ?n (sz ! s)"] n by simp
      then show ?thesis using at n by (simp add: symbol_ready_def)
    qed
  qed
qed

lemma huff_fill_correct:
  assumes v: "valid_sizes sz" "length sz \<le> 288" and tbl: "table_for sz tbl"
    and s: "s < length sz" "0 < sz ! s" "take (sz ! s) bs = codeword sz s"
  shows "buffered inp bs st \<Longrightarrow> num_bits st < 15 \<Longrightarrow>
    \<exists>st'. huff_fill inp tbl st = Some st' \<and> buffered inp bs st' \<and> sz ! s \<le> num_bits st' \<and> same_out st st'"
proof (induction "15 - num_bits st" arbitrary: st rule: less_induct)
  case less
  obtain r where r: "symbol_ready tbl st = Some r" "r \<longrightarrow> sz ! s \<le> num_bits st"
    using symbol_ready_sound [OF v tbl s less.prems(1)] by blast
  have n: "num_bits st < 24" using less.prems(2) by simp
  note a = buffered_add_byte [OF less.prems(1) n]
  show ?case
  proof (cases r)
    case True
    then show ?thesis using r less.prems by (subst huff_fill.simps) simp
  next
    case False
    show ?thesis
    proof (cases "num_bits (add_byte inp st) < 15")
      case True
      have "15 - num_bits (add_byte inp st) < 15 - num_bits st" using a(2) less.prems(2) by arith
      then obtain st' where st': "huff_fill inp tbl (add_byte inp st) = Some st'" "buffered inp bs st'"
        "sz ! s \<le> num_bits st'" "same_out (add_byte inp st) st'"
        using less.hyps [OF _ a(1) True] by blast
      have "huff_fill inp tbl st = Some st'"
        using st'(1) True r(1) False by (subst huff_fill.simps) (simp add: Let_def)
      then show ?thesis using st' same_out_trans [OF a(3)] by blast
    next
      case full: False
      then show ?thesis
        using a r(1) False valid_sizesD [OF v(1) s(1)] by (subst huff_fill.simps) (simp add: Let_def)
    qed
  qed
qed

lemma add_two_bytes: "in_cur st + 2 \<le> length inp \<Longrightarrow> add_two inp st = add_byte inp (add_byte inp st)"
  by (rule tinfl_state.equality) (simp_all add: add_two_def add_byte_def tinfl_get_byte_def Let_def or.assoc)

lemma buffered_add_two:
  assumes b: "buffered inp bs st" and n: "num_bits st < 15" and i: "in_cur st + 2 \<le> length inp"
  shows "buffered inp bs (add_two inp st)" "15 \<le> num_bits (add_two inp st)" "same_out st (add_two inp st)"
    "in_cur (add_two inp st) = in_cur st + 2"
proof -
  have n1: "num_bits st < 24" using n by simp
  note one = buffered_add_byte [OF b n1]
  have n2: "num_bits (add_byte inp st) < 24" using one(2) n by simp
  note two = buffered_add_byte [OF one(1) n2]
  show "buffered inp bs (add_two inp st)" "15 \<le> num_bits (add_two inp st)" "same_out st (add_two inp st)"
    using two one same_out_trans [OF one(3) two(3)] by (simp_all add: add_two_bytes [OF i])
  show "in_cur (add_two inp st) = in_cur st + 2" by (simp add: add_two_def)
qed

lemma lookup_and_drop:
  assumes v: "valid_sizes sz" "length sz \<le> 288" and tbl: "table_for sz tbl"
    and s: "s < length sz" "0 < sz ! s" "take (sz ! s) bs = codeword sz s"
    and b: "buffered inp bs st" "sz ! s \<le> num_bits st"
  shows "huff_lookup tbl (bit_buf st) = Some (s, sz ! s)" "buffered inp (drop (sz ! s) bs) (drop_bits (sz ! s) st)"
    "same_out st (drop_bits (sz ! s) st)" "in_cur (drop_bits (sz ! s) st) = in_cur st"
proof -
  have len: "sz ! s \<le> length bs" using arg_cong [OF s(3), of length] by simp
  show "huff_lookup tbl (bit_buf st) = Some (s, sz ! s)"
    using huff_lookup_correct [OF v tbl s(1,2)] buffered_low_bits [OF b len] s(3) by simp
  show "buffered inp (drop (sz ! s) bs) (drop_bits (sz ! s) st)" "same_out st (drop_bits (sz ! s) st)"
    "in_cur (drop_bits (sz ! s) st) = in_cur st"
    using buffered_drop_bits [OF b(1) b(2) len] by simp_all
qed

lemma huff_decode_correct:
  assumes v: "valid_sizes sz" "length sz \<le> 288" and tbl: "table_for sz tbl"
    and b: "buffered inp bs st" and d: "decode_symbol sz bs = Some (s, bs')"
  shows "\<exists>st'. huff_decode inp tbl st = Some (s, st') \<and> buffered inp bs' st' \<and> same_out st st'"
proof -
  note s = decode_symbol_shrinks(2-4) [OF d] and bs' = decode_symbol_shrinks(5) [OF d]
  obtain st1 where st1: "(if num_bits st < 15
               then if length inp - in_cur st < 2 then huff_fill inp tbl st else Some (add_two inp st)
               else Some st) = Some st1" "buffered inp bs st1" "sz ! s \<le> num_bits st1" "same_out st st1"
  proof (cases "num_bits st < 15")
    case False
    then show ?thesis using that [of st] b valid_sizesD [OF v(1) s(1)] by simp
  next
    case small: True
    show ?thesis
    proof (cases "length inp - in_cur st < 2")
      case True
      obtain st' where "huff_fill inp tbl st = Some st'" "buffered inp bs st'" "sz ! s \<le> num_bits st'" "same_out st st'"
        using huff_fill_correct [OF v tbl s b small] by blast
      then show ?thesis using that [of st'] True small by simp
    next
      case False
      then have "in_cur st + 2 \<le> length inp" by linarith
      then show ?thesis
        using False that [of "add_two inp st"] small buffered_add_two [OF b small] valid_sizesD [OF v(1) s(1)] by simp
    qed
  qed
  note l = lookup_and_drop [OF v tbl s st1(2,3)]
  have "huff_decode inp tbl st = Some (s, drop_bits (sz ! s) st1)"
    unfolding huff_decode_def st1(1) by (simp add: l(1))
  then show ?thesis using l(2,3) same_out_trans [OF st1(4)] bs' by blast
qed

lemma fast_lookup_correct:
  assumes v: "valid_sizes sz" "length sz \<le> 288" and tbl: "table_for sz tbl"
    and b: "buffered inp bs st" "in_cur st + 2 \<le> length inp" and d: "decode_symbol sz bs = Some (s, bs')"
  shows "\<exists>st'. fast_lookup inp tbl st = Some (s, st') \<and> buffered inp bs' st' \<and> same_out st st'
    \<and> in_cur st' \<le> in_cur st + 2"
proof -
  note s = decode_symbol_shrinks(2-4) [OF d] and bs' = decode_symbol_shrinks(5) [OF d]
  let ?st = "if num_bits st < 15 then add_two inp st else st"
  have st1: "buffered inp bs ?st" "sz ! s \<le> num_bits ?st" "same_out st ?st" "in_cur ?st \<le> in_cur st + 2"
    using b buffered_add_two [OF b(1) _ b(2)] valid_sizesD [OF v(1) s(1)] by (auto split: if_splits)
  note l = lookup_and_drop [OF v tbl s st1(1,2)]
  have "fast_lookup inp tbl st = Some (s, drop_bits (sz ! s) ?st)"
    using l(1) by (simp add: fast_lookup_def Let_def)
  then show ?thesis using l(2-4) same_out_trans [OF st1(3)] st1(4) bs' by auto
qed

end
