(* ===== verification/Inflate_Correct.thy ===== *)
theory Inflate_Correct
  imports Inflate_Bits
begin

text \<open>
  The inflater computes the content of every stream that conforms to the format, when the output buffer
  has room for it. Each lemma relates a step of the reference decoder, on the bits that are left and
  the output so far, to the step of the inflater on a state that holds these bits (\<open>buffered\<close>) and this
  output (\<open>holds_output\<close>).
\<close>

section \<open>The output\<close>

definition holds_output :: "bytes \<Rightarrow> bytes \<Rightarrow> tinfl_state \<Rightarrow> bool" where
  "holds_output buf out st \<longleftrightarrow> length out \<le> length buf \<and> out_cur st = length out
     \<and> out_buf st = out @ drop (length out) buf"

lemma holds_output_same_out: "holds_output buf out st \<Longrightarrow> same_out st st' \<Longrightarrow> holds_output buf out st'"
  by (simp add: holds_output_def same_out_def)

lemma holds_outputD:
  assumes "holds_output buf out st"
  shows "out_cur st = length out" "length (out_buf st) = length buf" "length out \<le> length buf"
    "out_buf st = out @ drop (length out) buf"
  using assms by (simp_all add: holds_output_def)

lemma put_at_end: "length out < length buf \<Longrightarrow> (out @ drop (length out) buf)[length out := x] = (out @ [x]) @ drop (length (out @ [x])) buf"
  by (simp add: list_update_append Cons_nth_drop_Suc [symmetric])

lemma holds_output_put: "holds_output buf out st \<Longrightarrow> length out < length buf \<Longrightarrow> holds_output buf (out @ [x]) (put_byte x st)"
  using put_at_end [of out buf x] by (simp add: holds_output_def put_byte_def)

lemma buffered_cong:
  "in_cur st' = in_cur st \<Longrightarrow> bit_buf st' = bit_buf st \<Longrightarrow> num_bits st' = num_bits st \<Longrightarrow>
     buffered inp bs st' = buffered inp bs st"
  by (simp add: buffered_def)

section \<open>Stored blocks\<close>

lemma buffered_mod: "buffered inp bs st \<Longrightarrow> num_bits st mod 8 = length bs mod 8"
proof -
  assume "buffered inp bs st"
  then obtain pad where "8 * length inp + num_bits st = length bs + 8 * (in_cur st + pad)" by (auto simp: buffered_def)
  then have "(8 * length inp + num_bits st) mod 8 = (length bs + 8 * (in_cur st + pad)) mod 8" by simp
  then show ?thesis by (simp only: mod_mult_self2 mod_mult_self4)
qed

lemma raw_byte_correct:
  assumes b: "buffered inp bs st" and x: "take_number 8 bs = Some (x, bs')" and n: "num_bits st mod 8 = 0"
  shows "\<exists>st'. (if num_bits st \<noteq> 0 then tinfl_get_bits inp 8 st
      else let (c, st1) = tinfl_get_byte inp st in (unat c, st1)) = (x, st')
    \<and> buffered inp bs' st' \<and> same_out st st'"
proof (cases "num_bits st = 0")
  case False
  then show ?thesis using get_bits_correct [OF b x] by simp
next
  case True
  have x': "8 \<le> length bs" "x = number (take 8 bs)" "bs' = drop 8 bs"
    using x by (auto simp: take_number_def split: if_splits)
  obtain pad where pad: "8 * length inp + num_bits st = length bs + 8 * (in_cur st + pad)" "pad = 0 \<or> in_cur st = length inp"
    and f: "length bs \<le> 8 * length inp" "bs = drop (8 * length inp - length bs) (bits_of inp)"
    using bufferedE [OF b] .
  have i1: "in_cur st < length inp" using pad(1) [unfolded distrib_left] x'(1) True by linarith
  then have i: "in_cur st < length inp" "pad = 0" using pad(2) by simp_all
  have "unat (inp ! in_cur st) = number (take 8 bs)"
  proof (rule bit_eqI)
    fix j
    have "bit (inp ! in_cur st) j \<longleftrightarrow> j < length bs \<and> bs ! j" if "j < 8"
      using buffered_byte [OF b that] i(1) True by (simp add: tinfl_get_byte_def)
    then show "bit (unat (inp ! in_cur st)) j = bit (number (take 8 bs)) j"
      using byte_bit [of "inp ! in_cur st" j] by (auto simp: bit_number bit_unsigned_iff)
  qed
  moreover have "buffered inp bs' (st\<lparr>in_cur := in_cur st + 1\<rparr>)"
  proof (rule bufferedI [where pad = 0])
    have "bs' = drop 8 (drop (8 * length inp - length bs) (bits_of inp))" using f(2) x'(3) by simp
    then show "bs' = drop (8 * length inp - length bs') (bits_of inp)"
      using x'(1,3) f(1) by (simp add: Nat.diff_diff_right add.commute)
    show "bit (bit_buf (st\<lparr>in_cur := in_cur st + 1\<rparr>)) j
      \<longleftrightarrow> j < num_bits (st\<lparr>in_cur := in_cur st + 1\<rparr>) \<and> j < length bs' \<and> bs' ! j" for j
      using bufferedD(2) [OF b, of j] True by simp
  qed (use i pad x' True in auto)
  ultimately show ?thesis using True i(1) x'(2) by (simp add: tinfl_get_byte_def same_out_def)
qed

lemma number_append: "number (xs @ ys) = number xs + 2 ^ length xs * number ys"
  by (simp add: number_def horner_sum_append)

lemma combine_bytes: "a < 256 \<Longrightarrow> a OR push_bit 8 b = a + 256 * (b :: nat)"
proof -
  assume "a < 256"
  then have "take_bit 8 a = a" by (intro take_bit_nat_eq_self) simp
  then have "\<not> bit a n" if "8 \<le> n" for n using that by (metis bit_take_bit_iff linorder_not_less)
  then have "a OR push_bit 8 b = a + push_bit 8 b"
    by (intro disjunctive_add [symmetric]) (auto simp: bit_push_bit_iff)
  then show ?thesis by (simp add: push_bit_eq_mult)
qed

lemma take_number_bytes:
  assumes "take_number 16 bs = Some (x, bs')"
  obtains a c bs1 where "take_number 8 bs = Some (a, bs1)" "take_number 8 bs1 = Some (c, bs')"
    "x = a OR push_bit 8 c"
proof -
  have x: "16 \<le> length bs" "x = number (take 16 bs)" "bs' = drop 16 bs"
    using assms by (auto simp: take_number_def split: if_splits)
  have "take 16 bs = take 8 bs @ take 8 (drop 8 bs)" using take_add [of 8 8 bs] by simp
  then have "x = number (take 8 bs) + 256 * number (take 8 (drop 8 bs))"
    using x by (simp add: number_append)
  also have "\<dots> = number (take 8 bs) OR push_bit 8 (number (take 8 (drop 8 bs)))"
    using number_bound [of "take 8 bs"] x(1) by (subst combine_bytes) simp_all
  finally show ?thesis using that [of "number (take 8 bs)" "drop 8 bs" "number (take 8 (drop 8 bs))"] x
    by (simp add: take_number_def)
qed

lemma complement_number:
  assumes "ys = map Not xs" "length xs = 16"
  shows "0xFFFF XOR number ys = number xs"
proof (rule bit_eqI)
  fix i
  have "bit (0xFFFF :: nat) i \<longleftrightarrow> i < 16"
  proof -
    have "(0xFFFF :: nat) = mask 16" by (simp add: mask_eq_exp_minus_1)
    then show ?thesis by (simp only: bit_mask_iff) simp
  qed
  then show "bit (0xFFFF XOR number ys) i = bit (number xs) i"
    using assms by (auto simp: bit_xor_iff bit_number)
qed

lemma raw_from_bits_correct:
  "buffered inp bs st \<Longrightarrow> num_bits st mod 8 = 0 \<Longrightarrow> take_bytes n bs = Some (xs, bs') \<Longrightarrow> holds_output buf out st \<Longrightarrow>
   length out + length xs \<le> length buf \<Longrightarrow>
   \<exists>k ys zs bs1 st1. raw_from_bits inp n st = Go (k, st1) \<and> buffered inp bs1 st1 \<and> take_bytes k bs1 = Some (zs, bs')
     \<and> holds_output buf (out @ ys) st1 \<and> xs = ys @ zs \<and> (k = 0 \<or> num_bits st1 = 0)"
proof (induction n arbitrary: bs st xs out)
  case 0
  then show ?case by force
next
  case (Suc n)
  show ?case
  proof (cases "num_bits st = 0")
    case True
    then show ?thesis
      using Suc.prems
      by (intro exI [of _ "Suc n"] exI [of _ "[]"] exI [of _ xs] exI [of _ bs] exI [of _ st]) (simp del: take_bytes.simps)
  next
    case False
    obtain b bs1 xs' where x: "take_number 8 bs = Some (b, bs1)" "take_bytes n bs1 = Some (xs', bs')"
      "xs = of_nat b # xs'"
      using Suc.prems(3) by (auto simp: bind_eq_Some_conv)
    obtain st' where st': "tinfl_get_bits inp 8 st = (b, st')" "buffered inp bs1 st'" "same_out st st'"
      using get_bits_correct [OF Suc.prems(1) x(1)] by auto
    note w = holds_output_same_out [OF Suc.prems(4) st'(3)]
    have room: "length out < length buf" using Suc.prems(5) x(3) by simp
    have step: "raw_from_bits inp (Suc n) st = raw_from_bits inp n (put_byte (of_nat b) st')"
      using False st'(1) holds_outputD(1,2) [OF w] room by simp
    have "num_bits (put_byte (of_nat b) st') mod 8 = 0"
      using buffered_mod [OF st'(2)] buffered_mod [OF Suc.prems(1)] Suc.prems(2) x(1)
      by (auto simp: put_byte_def take_number_def le_mod_geq split: if_splits)
    moreover have "buffered inp bs1 (put_byte (of_nat b) st')"
      using st'(2) buffered_cong [of "put_byte (of_nat b) st'" st'] by (simp add: put_byte_def)
    ultimately obtain k ys zs bs2 st2 where "raw_from_bits inp n (put_byte (of_nat b) st') = Go (k, st2)"
      "buffered inp bs2 st2" "take_bytes k bs2 = Some (zs, bs')" "holds_output buf ((out @ [of_nat b]) @ ys) st2"
      "xs' = ys @ zs" "k = 0 \<or> num_bits st2 = 0"
      using Suc.IH [OF _ _ x(2) holds_output_put [OF w room, of "of_nat b"]] Suc.prems(5) x(3) by auto
    then show ?thesis
      using step x(3) by (intro exI [of _ k] exI [of _ "of_nat b # ys"] exI [of _ zs] exI [of _ bs2] exI [of _ st2]) simp
  qed
qed

lemma number_byte: "number (map (bit (y :: u8)) [0..<8]) = unat y"
proof (rule bit_eqI)
  fix n
  show "bit (number (map (bit y) [0..<8])) n = bit (unat y) n"
    using byte_bit [of y n] by (cases "n < 8") (auto simp: bit_number bit_unsigned_iff)
qed

lemma bits_of_simps: "bits_of [] = []" "bits_of (y # ys) = map (bit y) [0..<8] @ bits_of ys"
  by (simp_all add: bits_of_def del: upt_conv_Cons)

lemma drop_bits_of: "drop (8 * n) (bits_of xs) = bits_of (drop n xs)"
proof (induction n arbitrary: xs)
  case (Suc n)
  have "8 * Suc n = 8 * n + 8" by simp
  then show ?case using Suc by (cases xs) (simp_all only: bits_of_simps drop_append flip: drop_drop, simp_all add: bits_of_simps)
qed simp

lemma take_bytes_bits_of: "n \<le> length ys \<Longrightarrow> take_bytes n (bits_of ys) = Some (take n ys, bits_of (drop n ys))"
proof (induction n arbitrary: ys)
  case (Suc n)
  then obtain y ys' where y: "ys = y # ys'" by (cases ys) auto
  have "take_number 8 (bits_of ys) = Some (unat y, bits_of ys')"
    using number_byte [of y] by (simp add: y bits_of_simps take_number_def del: upt_conv_Cons)
  then show ?case using Suc y by simp
qed simp

lemma take_bytes_length: "take_bytes n bs = Some (xs, bs') \<Longrightarrow> length bs' + 8 * n = length bs \<and> length xs = n"
  by (induction n arbitrary: bs xs) (fastforce simp: bind_eq_Some_conv dest: take_number_shrinks)+

lemma buffered_empty:
  assumes b: "buffered inp bs st" and n: "num_bits st = 0"
  shows "bs = bits_of (drop (in_cur st) inp)"
proof -
  obtain pad where pad: "8 * length inp + num_bits st = length bs + 8 * (in_cur st + pad)"
    "pad = 0 \<or> in_cur st = length inp" "bs = drop (8 * length inp - length bs) (bits_of inp)"
    using bufferedE [OF b] .
  then have "8 * length inp - length bs = 8 * in_cur st" using n by auto
  then show ?thesis using pad(3) drop_bits_of [of "in_cur st" inp] by simp
qed

lemma raw_copy_correct:
  assumes b: "buffered inp bs st" and n: "k = 0 \<or> num_bits st = 0" and x: "take_bytes k bs = Some (zs, bs')"
    and w: "holds_output buf out st" "length out + length zs \<le> length buf"
  shows "\<exists>st'. raw_copy inp k st = Go st' \<and> buffered inp bs' st' \<and> holds_output buf (out @ zs) st'"
proof (cases "k = 0")
  case True
  then show ?thesis using assms by (subst raw_copy.simps) simp
next
  case False
  then have nb: "num_bits st = 0" using n by simp
  note bs = buffered_empty [OF b nb]
  have len: "length bs' + 8 * k = length bs" "length zs = k" using take_bytes_length [OF x] by simp_all
  have room: "k \<le> length inp - in_cur st" using len(1) bs by simp
  have zs: "zs = take k (drop (in_cur st) inp)" "bs' = bits_of (drop (in_cur st + k) inp)"
    using x take_bytes_bits_of [of k "drop (in_cur st) inp"] room bs by (simp_all add: add.commute)
  let ?st = "st\<lparr>out_buf := splice (out_buf st) (out_cur st) (slice inp (in_cur st) k),
                in_cur := in_cur st + k, out_cur := out_cur st + k\<rparr>"
  have k: "min (min (length (out_buf st) - out_cur st) (length inp - in_cur st)) k = k"
    and more_room: "\<not> length (out_buf st) \<le> out_cur st" "\<not> length inp \<le> in_cur st"
    using room w(2) len(2) False holds_outputD(1,2) [OF w(1)] by auto
  have "raw_copy inp 0 ?st = Go ?st" by (subst raw_copy.simps) simp
  then have "raw_copy inp k st = Go ?st"
    by (subst raw_copy.simps) (simp only: False more_room k Let_def diff_self_eq_0 if_False)
  moreover have "buffered inp bs' ?st"
  proof (rule bufferedI [where pad = 0])
    show "length bs' \<le> 8 * length inp" by (simp add: zs)
    show "bs' = drop (8 * length inp - length bs') (bits_of inp)"
      using drop_bits_of [of "in_cur st + k" inp] room False by (simp add: zs algebra_simps)
    show "bit (bit_buf ?st) j \<longleftrightarrow> j < num_bits ?st \<and> j < length bs' \<and> bs' ! j" for j
      using bufferedD(2) [OF b, of j] nb by simp
  qed (use room False zs nb in auto)
  moreover have "holds_output buf (out @ zs) ?st"
    using w len(2) zs(1) room holds_outputD [OF w(1)]
    by (simp add: holds_output_def splice_def slice_def add.commute)
  ultimately show ?thesis by blast
qed

lemma raw_header_step:
  assumes "buffered inp bs st" "length bs mod 8 = 0" "take_number 8 bs = Some (x, bs')"
  obtains st' where "raw_header inp (Suc k) st = (x # fst (raw_header inp k st'), snd (raw_header inp k st'))"
    "buffered inp bs' st'" "length bs' mod 8 = 0" "same_out st st'"
proof -
  have n: "num_bits st mod 8 = 0" using buffered_mod [OF assms(1)] assms(2) by simp
  obtain st' where st': "(if num_bits st \<noteq> 0 then tinfl_get_bits inp 8 st
      else let (c, st1) = tinfl_get_byte inp st in (unat c, st1)) = (x, st')" "buffered inp bs' st'" "same_out st st'"
    using raw_byte_correct [OF assms(1,3) n] by blast
  have "length bs' mod 8 = 0" using take_number_shrinks [OF assms(3)] assms(2) by presburger
  moreover have "raw_header inp (Suc k) st = (x # fst (raw_header inp k st'), snd (raw_header inp k st'))"
  proof -
    have "raw_header inp (Suc k) st = (let (c, st1) = (x, st'); (cs, st2) = raw_header inp k st1 in (c # cs, st2))"
      by (simp only: raw_header.simps st'(1))
    then show ?thesis by (simp add: split_beta)
  qed
  ultimately show ?thesis using that st'(2,3) by simp
qed

lemma stored_block_correct:
  assumes b: "buffered inp bs st" and w: "holds_output buf out st"
    and d: "decode_stored out bs = Some (out', bs')" and room: "length out' \<le> length buf"
  shows "\<exists>st'. stored_block inp st = Go st' \<and> buffered inp bs' st' \<and> holds_output buf out' st'"
proof -
  let ?bs = "drop (length bs mod 8) bs"
  obtain len bs1 nlen bs2 content where d': "take_number 16 ?bs = Some (len, bs1)"
    "take_number 16 bs1 = Some (nlen, bs2)" "take 16 bs1 = map Not (take 16 ?bs)"
    "take_bytes len bs2 = Some (content, bs')" "out' = out @ content"
    using d by (auto simp: decode_stored_def Let_def bind_eq_Some_conv split: if_splits)
  obtain a1 a2 c1 where a: "take_number 8 ?bs = Some (a1, c1)" "take_number 8 c1 = Some (a2, bs1)" "len = a1 OR push_bit 8 a2"
    using take_number_bytes [OF d'(1)] .
  obtain a3 a4 c2 where a': "take_number 8 bs1 = Some (a3, c2)" "take_number 8 c2 = Some (a4, bs2)" "nlen = a3 OR push_bit 8 a4"
    using take_number_bytes [OF d'(2)] .
  let ?st = "drop_bits (num_bits st mod 8) st"
  have st: "buffered inp ?bs ?st" "same_out st ?st"
    using buffered_drop_bits [OF b, of "num_bits st mod 8"] buffered_mod [OF b] by simp_all
  have aligned: "length ?bs mod 8 = 0" by (simp add: minus_mod_eq_div_mult)
  obtain st1 where h1: "raw_header inp (Suc (Suc (Suc (Suc 0)))) ?st = (a1 # fst (raw_header inp (Suc (Suc (Suc 0))) st1), snd (raw_header inp (Suc (Suc (Suc 0))) st1))"
    "buffered inp c1 st1" "length c1 mod 8 = 0" "same_out ?st st1"
    using raw_header_step [OF st(1) aligned a(1)] .
  obtain st2 where h2: "raw_header inp (Suc (Suc (Suc 0))) st1 = (a2 # fst (raw_header inp (Suc (Suc 0)) st2), snd (raw_header inp (Suc (Suc 0)) st2))"
    "buffered inp bs1 st2" "length bs1 mod 8 = 0" "same_out st1 st2"
    using raw_header_step [OF h1(2,3) a(2)] .
  obtain st3 where h3: "raw_header inp (Suc (Suc 0)) st2 = (a3 # fst (raw_header inp (Suc 0) st3), snd (raw_header inp (Suc 0) st3))"
    "buffered inp c2 st3" "length c2 mod 8 = 0" "same_out st2 st3"
    using raw_header_step [OF h2(2,3) a'(1)] .
  obtain st4 where h4: "raw_header inp (Suc 0) st3 = (a4 # fst (raw_header inp 0 st4), snd (raw_header inp 0 st4))"
    "buffered inp bs2 st4" "length bs2 mod 8 = 0" "same_out st3 st4"
    using raw_header_step [OF h3(2,3) a'(2)] .
  have four: "(4 :: nat) = Suc (Suc (Suc (Suc 0)))" by simp
  have header: "raw_header inp 4 ?st = ([a1, a2, a3, a4], st4)"
    by (simp only: four h1(1) h2(1) h3(1) h4(1) raw_header.simps(1) fst_conv snd_conv)
  have w4: "holds_output buf out st4"
    by (rule holds_output_same_out [OF w]) (use st(2) h1(4) h2(4) h3(4) h4(4) in \<open>simp add: same_out_def\<close>)
  have "0xFFFF XOR nlen = len"
  proof -
    have "16 \<le> length ?bs" "len = number (take 16 ?bs)" "nlen = number (take 16 bs1)"
      using d'(1,2) by (auto simp: take_number_def split: if_splits)
    then show ?thesis using complement_number [OF d'(3)] by simp
  qed
  then have block: "stored_block inp st = (case raw_from_bits inp len st4 of
      Stop s st2 \<Rightarrow> Stop s st2 | Go (counter', st2) \<Rightarrow> raw_copy inp counter' st2)"
    by (simp add: stored_block_def header a(3) a'(3))
  have n4: "num_bits st4 mod 8 = 0" using buffered_mod [OF h4(2)] h4(3) by simp
  have fits: "length out + length content \<le> length buf" using room d'(5) by simp
  obtain k ys zs bs5 st5 where r: "raw_from_bits inp len st4 = Go (k, st5)" "buffered inp bs5 st5"
    "take_bytes k bs5 = Some (zs, bs')" "holds_output buf (out @ ys) st5" "content = ys @ zs" "k = 0 \<or> num_bits st5 = 0"
    using raw_from_bits_correct [OF h4(2) n4 d'(4) w4 fits] by blast
  have "length (out @ ys) + length zs \<le> length buf" using room d'(5) r(5) by simp
  then show ?thesis
    using raw_copy_correct [OF r(2,6,3,4)] block r(1,5) d'(5) by auto
qed

section \<open>Code sizes\<close>

lemma take_number_less: "take_number n bs = Some (x, bs') \<Longrightarrow> x < 2 ^ n"
  using number_bound [of "take n bs"] by (auto simp: take_number_def min_def split: if_splits)

lemma size_code_sizes_correct:
  "take_sizes ns (map unat sizes) bs = Some (sz', bs') \<Longrightarrow> buffered inp bs st \<Longrightarrow>
   \<exists>sizes' st'. size_code_sizes inp ns sizes st = (sizes', st') \<and> map unat sizes' = sz'
     \<and> length sizes' = length sizes \<and> buffered inp bs' st' \<and> same_out st st'"
proof (induction ns arbitrary: sizes bs st)
  case (Cons i ns)
  obtain x bs1 where x: "take_number 3 bs = Some (x, bs1)" "take_sizes ns ((map unat sizes)[i := x]) bs1 = Some (sz', bs')"
    using Cons.prems(1) by (auto simp: bind_eq_Some_conv)
  obtain st1 where st1: "tinfl_get_bits inp 3 st = (x, st1)" "buffered inp bs1 st1" "same_out st st1"
    using get_bits_correct [OF Cons.prems(2) x(1)] by auto
  have "x < 8" using take_number_less [OF x(1)] by simp
  then have "(map unat sizes)[i := x] = map unat (sizes[i := of_nat x])"
    by (simp add: map_update unat_of_nat)
  then show ?case
    using Cons.IH [of "sizes[i := of_nat x]" bs1 st1] x(2) st1 same_out_trans [OF st1(3)] by auto
qed simp

lemma repeat_tables:
  assumes "16 \<le> d" "d < 19"
  shows "elem_at [2, 3, 7] (int d - 16) = Some (snd (repeat_count d))"
    "elem_at [3, 3, 11] (int d - 16) = Some (fst (repeat_count d))"
    "snd (repeat_count d) \<le> 7" "fst (repeat_count d) \<le> 11"
    "fst (repeat_count d) + 2 ^ snd (repeat_count d) \<le> 139"
proof -
  have "d = 16 \<or> d = 17 \<or> d = 18" using assms by auto
  then show "elem_at [2, 3, 7] (int d - 16) = Some (snd (repeat_count d))"
    "elem_at [3, 3, 11] (int d - 16) = Some (fst (repeat_count d))"
    "snd (repeat_count d) \<le> 7" "fst (repeat_count d) \<le> 11"
    "fst (repeat_count d) + 2 ^ snd (repeat_count d) \<le> 139"
    by (auto simp: elem_at_def repeat_count_def)
qed

lemma read_sizes_correct:
  assumes v: "valid_sizes sz" "length sz = 19" and tbl: "table_for sz tbl" and n: "n \<le> 320"
  shows "decode_sizes sz n (map unat codes) bs = Some (codes', bs') \<Longrightarrow> buffered inp bs st \<Longrightarrow>
   \<exists>cs st'. read_sizes inp tbl n codes st = Some (Go (cs, st')) \<and> map unat cs = codes'
     \<and> length cs = n \<and> buffered inp bs' st' \<and> same_out st st'"
proof (induction "length bs" arbitrary: bs codes st rule: less_induct)
  case less
  have v288: "length sz \<le> 288" using v(2) by simp
  show ?case
  proof (cases "n \<le> length codes")
    case True
    have "length codes = n \<and> codes' = map unat codes \<and> bs' = bs"
      using less.prems(1) True by (subst (asm) decode_sizes.simps) (auto split: if_splits)
    then show ?thesis using less.prems(2) True by (subst read_sizes.simps) simp
  next
    case False
    then obtain d bs1 where d: "decode_symbol sz bs = Some (d, bs1)"
      using less.prems(1) by (subst (asm) decode_sizes.simps) (auto split: option.splits if_splits)
    obtain st1 where st1: "huff_decode inp tbl st = Some (d, st1)" "buffered inp bs1 st1" "same_out st st1"
      using huff_decode_correct [OF v(1) v288 tbl less.prems(2) d] by blast
    note short1 = decode_symbol_shrinks(1) [OF d]
    have d19: "d < 19" using decode_symbol_shrinks(2) [OF d] v(2) by simp
    show ?thesis
    proof (cases "d < 16")
      case True
      have "decode_sizes sz n (map unat (codes @ [of_nat d])) bs1 = Some (codes', bs')"
        using less.prems(1) d False True by (subst (asm) decode_sizes.simps) (simp add: unat_of_nat)
      then obtain cs st' where "read_sizes inp tbl n (codes @ [of_nat d]) st1 = Some (Go (cs, st'))" "map unat cs = codes'"
        "length cs = n" "buffered inp bs' st'" "same_out st1 st'"
        using less.hyps [OF short1 _ st1(2)] by blast
      then show ?thesis
        using st1 False True same_out_trans [OF st1(3)] by (subst read_sizes.simps) auto
    next
      case big: False
      obtain x bs2 where x: "take_number (snd (repeat_count d)) bs1 = Some (x, bs2)"
        and ne: "\<not> (d = 16 \<and> codes = [])"
        and rest: "decode_sizes sz n (map unat codes @ replicate (fst (repeat_count d) + x)
          (if d = 16 then last (map unat codes) else 0)) bs2 = Some (codes', bs')"
        using less.prems(1) d False big by (subst (asm) decode_sizes.simps) (auto split: option.splits if_splits)
      note r = repeat_tables [of d, OF leI [OF big] d19]
      obtain st2 where st2: "tinfl_get_bits inp (snd (repeat_count d)) st1 = (x, st2)" "buffered inp bs2 st2" "same_out st1 st2"
        using get_bits_correct [OF st1(2) x] r(3) by auto
      let ?codes = "codes @ replicate (x + fst (repeat_count d)) (if d = 16 then last codes else 0)"
      have "map unat ?codes = map unat codes @ replicate (fst (repeat_count d) + x)
          (if d = 16 then last (map unat codes) else 0)"
        using ne by (auto simp: map_replicate last_map add.commute)
      then have "decode_sizes sz n (map unat ?codes) bs2 = Some (codes', bs')" using rest by (rule ssubst)
      moreover have "length bs2 < length bs" using take_number_shrinks [OF x] short1 by simp
      ultimately obtain cs st' where rs: "read_sizes inp tbl n ?codes st2 = Some (Go (cs, st'))" "map unat cs = codes'"
        "length cs = n" "buffered inp bs' st'" "same_out st2 st'"
        using less.hyps [OF _ _ st2(2)] by blast
      have fits: "\<not> 457 < length codes + (x + fst (repeat_count d))"
        using take_number_less [OF x] r(5) n False by simp
      have "read_sizes inp tbl n codes st = read_sizes inp tbl n ?codes st2"
        using st1(1) False big ne r(1,2) st2(1) fits by (subst read_sizes.simps) (simp add: Let_def, blast)
      then show ?thesis
        using rs same_out_trans [OF st1(3) same_out_trans [OF st2(3) rs(5)]] by auto
    qed
  qed
qed

lemma size_order_same: "s_length_dezigzag = size_order"
  by (simp add: s_length_dezigzag_def size_order_def)

lemma length_take_sizes: "take_sizes ns sz bs = Some (sz', bs') \<Longrightarrow> length sz' = length sz"
  by (induction ns sz bs arbitrary: sz' bs' rule: take_sizes.induct) (auto simp: bind_eq_Some_conv)

lemma dynamic_sizes_correct:
  assumes b: "buffered inp bs st" and d: "decode_dynamic bs = Some (lit, dist, bs')"
  shows "\<exists>ls ds st'. dynamic_sizes inp st = Some (Go (ls, ds, st')) \<and> map unat ls = lit \<and> map unat ds = dist
    \<and> length ls \<le> 288 \<and> length ds \<le> 32 \<and> buffered inp bs' st' \<and> same_out st st'"
proof -
  obtain hlit bs1 hdist bs2 hclen bs3 sz bs4 codes where r: "take_number 5 bs = Some (hlit, bs1)"
    "take_number 5 bs1 = Some (hdist, bs2)" "take_number 4 bs2 = Some (hclen, bs3)"
    "take_sizes (take (hclen + 4) size_order) (replicate 19 0) bs3 = Some (sz, bs4)" "valid_sizes sz"
    "decode_sizes sz (hlit + 257 + hdist + 1) [] bs4 = Some (codes, bs')"
    "lit = take (hlit + 257) codes" "dist = drop (hlit + 257) codes"
    using d by (auto simp: decode_dynamic_def bind_eq_Some_conv split: if_splits)
  obtain st1 where st1: "tinfl_get_bits inp 5 st = (hlit, st1)" "buffered inp bs1 st1" "same_out st st1"
    using get_bits_correct [OF b r(1)] by auto
  obtain st2 where st2: "tinfl_get_bits inp 5 st1 = (hdist, st2)" "buffered inp bs2 st2" "same_out st1 st2"
    using get_bits_correct [OF st1(2) r(2)] by auto
  obtain st3 where st3: "tinfl_get_bits inp 4 st2 = (hclen, st3)" "buffered inp bs3 st3" "same_out st2 st3"
    using get_bits_correct [OF st2(2) r(3)] by auto
  have "take_sizes (take (hclen + 4) size_order) (map unat (replicate 19 (0 :: u8))) bs3 = Some (sz, bs4)"
    using r(4) by (simp add: map_replicate)
  then obtain sizes st4 where st4: "size_code_sizes inp (take (hclen + 4) size_order) (replicate 19 0) st3 = (sizes, st4)"
    "map unat sizes = sz" "length sizes = 19" "buffered inp bs4 st4" "same_out st3 st4"
    using size_code_sizes_correct [OF _ st3(2)] by fastforce
  obtain tbl where tbl: "build_table sizes = Some (Some tbl)" "table_for sz tbl"
    using build_table_correct [of sizes] st4(2,3) r(5) by auto
  have small: "hlit < 32" "hdist < 32" using take_number_less [OF r(1)] take_number_less [OF r(2)] by simp_all
  obtain cs st5 where st5: "read_sizes inp tbl (hlit + 257 + hdist + 1) [] st4 = Some (Go (cs, st5))" "map unat cs = codes"
    "length cs = hlit + 257 + hdist + 1" "buffered inp bs' st5" "same_out st4 st5"
    using read_sizes_correct [OF r(5) _ tbl(2) _ _ st4(4), of "hlit + 257 + hdist + 1" "[]"] r(6) st4(2,3) small by auto
  have "dynamic_sizes inp st = Some (Go (take (hlit + 257) cs, drop (hlit + 257) cs, st5))"
    using st1(1) st2(1) st3(1) st4(1) tbl(1) st5(1,3)
    by (simp add: dynamic_sizes_def size_order_same Let_def add.assoc)
  moreover have "same_out st st5" using st1(3) st2(3) st3(3) st4(5) st5(5) by (simp add: same_out_def)
  ultimately show ?thesis
    using st5(2-4) r(7,8) small by (auto simp: take_map drop_map)
qed

section \<open>Matches\<close>

lemma length_tables:
  assumes "length_symbol s = Some (base, n)"
  shows "elem_at s_length_extra (int s - 257) = Some n" "elem_at s_length_base (int s - 257) = Some base"
    "3 \<le> base" "n \<le> 5"
proof -
  have all: "list_all (\<lambda>s. case length_symbol s of None \<Rightarrow> True | Some (base, n) \<Rightarrow>
      elem_at s_length_extra (int s - 257) = Some n \<and> elem_at s_length_base (int s - 257) = Some base
      \<and> 3 \<le> base \<and> n \<le> 5) [257..<286]"
    by code_simp
  have "257 \<le> s" "s < 286" using assms by (simp_all add: length_symbol_def Let_def split: if_splits)
  then have "s \<in> set [257..<286]" by (simp only: set_upt atLeastLessThan_iff)
  note here = bspec [OF all [unfolded list_all_iff] this]
  then show "elem_at s_length_extra (int s - 257) = Some n" "elem_at s_length_base (int s - 257) = Some base"
    "3 \<le> base" "n \<le> 5"
    using here assms by simp_all
qed

lemma dist_tables:
  assumes "dist_symbol d = Some (base, n)"
  shows "elem_at s_dist_extra (int d) = Some n" "elem_at s_dist_base (int d) = Some base" "0 < base" "n \<le> 13"
proof -
  have list: "[0..<30] = [0,1,2,3,4,5,6,7,8,9,10,11,12,13,14,15,16,17,18,19,20,21,22,23,24,25,26,27,28,29]" by (simp add: upt_rec)
  have all: "list_all (\<lambda>d. case dist_symbol d of None \<Rightarrow> True | Some (base, n) \<Rightarrow>
      elem_at s_dist_extra (int d) = Some n \<and> elem_at s_dist_base (int d) = Some base
      \<and> 0 < base \<and> n \<le> 13) [0..<30]"
    unfolding list by (simp add: dist_symbol_def s_dist_extra_def s_dist_base_def elem_at_def)
  have "d < 30" using assms by (simp add: dist_symbol_def split: if_splits)
  then have "d \<in> set [0..<30]" by (simp only: set_upt atLeastLessThan_iff le0 simp_thms)
  note here = bspec [OF all [unfolded list_all_iff] this]
  then show "elem_at s_dist_extra (int d) = Some n" "elem_at s_dist_base (int d) = Some base" "0 < base" "n \<le> 13"
    using here assms by simp_all
qed

lemma length_copies [simp]: "length ((copy_back d ^^ n) out) = length out + n"
  by (induction n) (simp_all add: copy_back_def)

lemma length_copy_back: "length (copy_back d out) = length out + 1"
  by (simp add: copy_back_def)

lemma copy_one_correct:
  assumes "0 < d" "d \<le> length o1" "length o1 < length buf"
  shows "copy_one (o1 @ drop (length o1) buf) (length o1) (length o1 - d)
    = Some (copy_back d o1 @ drop (length (copy_back d o1)) buf)"
proof -
  have "(o1 @ drop (length o1) buf) ! (length o1 - d) = o1 ! (length o1 - d)"
  proof -
    have "length o1 - d < length o1" using assms(1,2) by linarith
    then show ?thesis by (simp add: nth_append)
  qed
  then show ?thesis
    using assms put_at_end [of o1 buf "o1 ! (length o1 - d)"] by (simp add: copy_one_def copy_back_def)
qed

lemma copy_three_correct:
  assumes "0 < d" "d \<le> length o1" "length o1 + 3 \<le> length buf"
  shows "do { a \<leftarrow> copy_one (o1 @ drop (length o1) buf) (length o1) (length o1 - d);
       b \<leftarrow> copy_one a (length o1 + 1) (length o1 - d + 1); copy_one b (length o1 + 2) (length o1 - d + 2) }
    = Some ((copy_back d ^^ 3) o1 @ drop (length o1 + 3) buf)"
proof -
  let ?o2 = "copy_back d o1" and ?o3 = "copy_back d (copy_back d o1)"
  have len: "length ?o2 = length o1 + 1" "length ?o3 = length o1 + 2" "length (copy_back d ?o3) = length o1 + 3"
    by (simp_all add: copy_back_def)
  have src: "length o1 - d + 1 = length ?o2 - d" "length o1 - d + 2 = length ?o3 - d"
    using assms(2) len by simp_all
  have "copy_one (o1 @ drop (length o1) buf) (length o1) (length o1 - d) = Some (?o2 @ drop (length ?o2) buf)"
    using assms by (intro copy_one_correct) simp_all
  moreover have "copy_one (?o2 @ drop (length ?o2) buf) (length o1 + 1) (length o1 - d + 1) = Some (?o3 @ drop (length ?o3) buf)"
    using copy_one_correct [of d ?o2 buf] assms unfolding src len by simp
  moreover have "copy_one (?o3 @ drop (length ?o3) buf) (length o1 + 2) (length o1 - d + 2)
      = Some (copy_back d ?o3 @ drop (length (copy_back d ?o3)) buf)"
    using copy_one_correct [of d ?o3 buf] assms unfolding src len by simp
  moreover have "(copy_back d ^^ 3) o1 = copy_back d ?o3" by (simp add: numeral_3_eq_3)
  ultimately show ?thesis unfolding len by simp
qed

lemma copy_threes_correct:
  "0 < d \<Longrightarrow> d \<le> length o1 \<Longrightarrow> 3 \<le> n \<Longrightarrow> length o1 + n \<le> length buf \<Longrightarrow>
   copy_threes (o1 @ drop (length o1) buf) (length o1) (length o1 - d) (int n)
   = Some ((copy_back d ^^ (n - n mod 3)) o1 @ drop (length o1 + (n - n mod 3)) buf, length o1 + (n - n mod 3),
       length o1 + (n - n mod 3) - d, int (n mod 3))"
proof (induction n arbitrary: o1 rule: less_induct)
  case (less n)
  have three: "do { a \<leftarrow> copy_one (o1 @ drop (length o1) buf) (length o1) (length o1 - d);
       b \<leftarrow> copy_one a (length o1 + 1) (length o1 - d + 1); copy_one b (length o1 + 2) (length o1 - d + 2) }
    = Some ((copy_back d ^^ 3) o1 @ drop (length o1 + 3) buf)"
    using copy_three_correct less.prems by simp
  have left: "int n - 3 = int (n - 3)" using less.prems(3) by simp
  have step: "copy_threes (o1 @ drop (length o1) buf) (length o1) (length o1 - d) (int n)
    = (if 2 < int (n - 3) then copy_threes ((copy_back d ^^ 3) o1 @ drop (length o1 + 3) buf) (length o1 + 3) (length o1 - d + 3) (int (n - 3))
       else Some ((copy_back d ^^ 3) o1 @ drop (length o1 + 3) buf, length o1 + 3, length o1 - d + 3, int (n - 3)))"
    by (subst copy_threes.simps) (simp only: three option.case left)
  show ?case
  proof (cases "n < 6")
    case True
    then have "n mod 3 = n - 3" using less.prems(3) by (simp add: le_mod_geq)
    then show ?thesis using step True less.prems by simp
  next
    case False
    have m: "n mod 3 = (n - 3) mod 3" using less.prems(3) by (simp add: le_mod_geq)
    have le: "(n - 3) mod 3 \<le> n - 3" by simp
    have split: "n - n mod 3 = (n - 3 - (n - 3) mod 3) + 3" using m le less.prems(3) by linarith
    have "copy_threes ((copy_back d ^^ 3) o1 @ drop (length o1 + 3) buf) (length o1 + 3) (length o1 - d + 3) (int (n - 3))
      = Some ((copy_back d ^^ (n - 3 - (n - 3) mod 3)) ((copy_back d ^^ 3) o1) @ drop (length o1 + 3 + (n - 3 - (n - 3) mod 3)) buf,
          length o1 + 3 + (n - 3 - (n - 3) mod 3), length o1 + 3 + (n - 3 - (n - 3) mod 3) - d, int ((n - 3) mod 3))"
      using less.IH [of "n - 3" "(copy_back d ^^ 3) o1"] less.prems False by simp
    moreover have "(copy_back d ^^ (n - 3 - (n - 3) mod 3)) ((copy_back d ^^ 3) o1) = (copy_back d ^^ (n - n mod 3)) o1"
      by (simp only: split funpow_add o_apply)
    moreover have "length o1 + 3 + (n - 3 - (n - 3) mod 3) = length o1 + (n - n mod 3)" using split by linarith
    moreover have "2 < int (n - 3)" using False by simp
    ultimately show ?thesis using step by (simp only: if_True m)
  qed
qed

lemma copy_match_correct:
  assumes w: "holds_output buf out st" and d: "0 < d" "d \<le> length out" and n: "3 \<le> n" "length out + n \<le> length buf"
  shows "copy_match d n st = Some (Go (st\<lparr>out_buf := (copy_back d ^^ n) out @ drop (length out + n) buf, out_cur := length out + n\<rparr>))"
proof -
  let ?k = "n - n mod 3"
  let ?o1 = "(copy_back d ^^ ?k) out"
  have far: "\<not> length (out_buf st) < max (length out) (length out - d) + n"
    using holds_outputD(2) [OF w] n by simp
  have k: "?k + n mod 3 = n" by simp
  have threes: "copy_threes (out_buf st) (length out) (length out - d) (int n)
    = Some (?o1 @ drop (length ?o1) buf, length ?o1, length ?o1 - d, int (n mod 3))"
    using copy_threes_correct [OF d n] holds_outputD(4) [OF w] by simp
  have match: "copy_match d n st = (if 0 < int (n mod 3)
      then do {
             o2 \<leftarrow> copy_one (?o1 @ drop (length ?o1) buf) (length ?o1) (length ?o1 - d);
             o3 \<leftarrow> (if 1 < int (n mod 3) then copy_one o2 (length ?o1 + 1) (length ?o1 - d + 1) else Some o2);
             Some (Go (st\<lparr>out_buf := o3, out_cur := length ?o1 + nat (int (n mod 3))\<rparr>))
           }
      else Some (Go (st\<lparr>out_buf := ?o1 @ drop (length ?o1) buf, out_cur := length ?o1\<rparr>)))"
    using holds_outputD(1) [OF w] d(2) far threes by (simp add: copy_match_def Let_def del: length_copies)
  have plus: "(copy_back d ^^ (m + ?k)) out = (copy_back d ^^ m) ?o1" for m by (simp only: funpow_add o_apply)
  have len: "length ?o1 + n mod 3 = length out + n" by simp
  consider "n mod 3 = 0" | "n mod 3 = 1" | "n mod 3 = 2" by linarith
  then show ?thesis
  proof cases
    case 1
    then show ?thesis using match by simp
  next
    case 2
    have "copy_one (?o1 @ drop (length ?o1) buf) (length ?o1) (length ?o1 - d)
      = Some (copy_back d ?o1 @ drop (length (copy_back d ?o1)) buf)"
      using d n k 2 by (intro copy_one_correct) simp_all
    moreover have "copy_back d ?o1 = (copy_back d ^^ n) out" using plus [of 1] k 2 by (simp add: add.commute)
    ultimately show ?thesis using match 2 len by (simp del: length_copies) simp
  next
    case 3
    have one: "copy_one (?o1 @ drop (length ?o1) buf) (length ?o1) (length ?o1 - d)
      = Some (copy_back d ?o1 @ drop (length (copy_back d ?o1)) buf)"
      using d n k 3 by (intro copy_one_correct) simp_all
    have len2: "length (copy_back d ?o1) = length ?o1 + 1" by (simp add: copy_back_def)
    have src: "length ?o1 - d + 1 = length (copy_back d ?o1) - d" using d(2) by (simp add: len2)
    have two: "copy_one (copy_back d ?o1 @ drop (length (copy_back d ?o1)) buf) (length ?o1 + 1) (length ?o1 - d + 1)
      = Some (copy_back d (copy_back d ?o1) @ drop (length (copy_back d (copy_back d ?o1))) buf)"
      unfolding src len2 [symmetric] using d n k 3 by (intro copy_one_correct) (simp_all add: length_copy_back)
    have "copy_back d (copy_back d ?o1) = (copy_back d ^^ 2) ?o1" by (simp add: numeral_2_eq_2)
    also have "\<dots> = (copy_back d ^^ (2 + ?k)) out" by (simp only: plus)
    also have "2 + ?k = n" using k 3 by linarith
    finally have "copy_back d (copy_back d ?o1) = (copy_back d ^^ n) out" .
    then show ?thesis using match 3 len one two by (simp del: length_copies) simp
  qed
qed

lemma match_step_correct:
  assumes v: "valid_sizes dist_sz" "length dist_sz \<le> 288" "table_for dist_sz tbl"
    and b: "buffered inp bs st" and w: "holds_output buf out st"
    and m: "decode_match dist_sz s out bs = Some (out', bs')" and room: "length out' \<le> length buf"
  shows "\<exists>st'. match_step inp tbl s st = Some (Go st') \<and> buffered inp bs' st' \<and> holds_output buf out' st'"
proof -
  obtain base n extra bs1 d bs2 dbase dn dextra where r: "length_symbol s = Some (base, n)"
    "take_number n bs = Some (extra, bs1)" "decode_symbol dist_sz bs1 = Some (d, bs2)" "dist_symbol d = Some (dbase, dn)"
    "take_number dn bs2 = Some (dextra, bs')" "dbase + dextra \<le> length out"
    "out' = (copy_back (dbase + dextra) ^^ (base + extra)) out"
    using m by (auto simp: decode_match_def bind_eq_Some_conv split: if_splits)
  note lt = length_tables [OF r(1)] and dt = dist_tables [OF r(4)]
  obtain st1 where st1: "(if n \<noteq> 0 then tinfl_get_bits inp n st else (0, st)) = (extra, st1)" "buffered inp bs1 st1" "same_out st st1"
  proof (cases "n = 0")
    case True
    then show ?thesis using that [of st] r(2) b by (simp add: take_number_def number_def)
  next
    case False
    obtain st1 where "tinfl_get_bits inp n st = (extra, st1)" "buffered inp bs1 st1" "same_out st st1"
      using get_bits_correct [OF b r(2)] lt(4) by auto
    then show ?thesis using that [of st1] False by simp
  qed
  obtain st2 where st2: "huff_decode inp tbl st1 = Some (d, st2)" "buffered inp bs2 st2" "same_out st1 st2"
    using huff_decode_correct [OF v st1(2) r(3)] by blast
  obtain st3 where st3: "(if dn \<noteq> 0 then tinfl_get_bits inp dn st2 else (0, st2)) = (dextra, st3)" "buffered inp bs' st3" "same_out st2 st3"
  proof (cases "dn = 0")
    case True
    then show ?thesis using that [of st2] r(5) st2(2) by (simp add: take_number_def number_def)
  next
    case False
    obtain st3 where "tinfl_get_bits inp dn st2 = (dextra, st3)" "buffered inp bs' st3" "same_out st2 st3"
      using get_bits_correct [OF st2(2) r(5)] dt(4) by auto
    then show ?thesis using that [of st3] False by simp
  qed
  have w3: "holds_output buf out st3"
    by (rule holds_output_same_out [OF w]) (use st1(3) st2(3) st3(3) in \<open>simp add: same_out_def\<close>)
  let ?st = "st3\<lparr>out_buf := (copy_back (dbase + dextra) ^^ (base + extra)) out @ drop (length out + (base + extra)) buf,
    out_cur := length out + (base + extra)\<rparr>"
  have copy: "copy_match (dbase + dextra) (base + extra) st3 = Some (Go ?st)"
    using copy_match_correct [OF w3, of "dbase + dextra" "base + extra"] r(6,7) dt(3) lt(3) room by simp
  have "match_step inp tbl s st = Some (Go ?st)"
    unfolding match_step_def lt(1,2) bind.bind_lunit Let_def st1(1) case_prod_conv st2(1) dt(1,2) st3(1) by (rule copy)
  moreover have "buffered inp bs' ?st" using st3(2) buffered_cong [of ?st st3] by simp
  moreover have "holds_output buf out' ?st" using r(7) room by (simp add: holds_output_def)
  ultimately show ?thesis by blast
qed

section \<open>Compressed blocks\<close>

lemma bit_256: "s < 512 \<Longrightarrow> s AND 256 \<noteq> 0 \<longleftrightarrow> 256 \<le> (s :: nat)"
proof -
  assume "s < 512"
  then have "s div 256 < 2" by (simp add: less_mult_imp_div_less)
  then have "bit s 8 \<longleftrightarrow> s div 256 = 1" by (auto simp: bit_iff_odd elim: oddE)
  also have "\<dots> \<longleftrightarrow> 256 \<le> s" using \<open>s div 256 < 2\<close> by (auto simp: div_eq_0_iff less_2_cases_iff)
  finally show ?thesis using and_exp_eq_0_iff_not_bit [of s 8] by simp
qed

lemma decode_match_extends: "decode_match dist_sz s out bs = Some (out', bs') \<Longrightarrow> length out \<le> length out'"
  by (auto simp: decode_match_def bind_eq_Some_conv split: if_splits)

lemma decode_symbols_extends:
  "decode_symbols lit_sz dist_sz out bs = Some (out', bs') \<Longrightarrow> length out \<le> length out'"
proof (induction "length bs" arbitrary: out bs rule: less_induct)
  case less
  obtain s bs1 where s: "decode_symbol lit_sz bs = Some (s, bs1)"
    using less.prems by (subst (asm) decode_symbols.simps) (auto split: option.splits)
  note sh = decode_symbol_shrinks(1) [OF s]
  consider "s < 256" | "s = 256" | "256 < s" by linarith
  then show ?case
  proof cases
    case 1
    then have "decode_symbols lit_sz dist_sz (out @ [of_nat s]) bs1 = Some (out', bs')"
      using less.prems s by (subst (asm) decode_symbols.simps) simp
    then show ?thesis using less.hyps [OF sh, of "out @ [of_nat s]"] by simp
  next
    case 2
    then show ?thesis using less.prems s by (subst (asm) decode_symbols.simps) simp
  next
    case 3
    then obtain out2 bs2 where m: "decode_match dist_sz s out bs1 = Some (out2, bs2)"
      and r: "decode_symbols lit_sz dist_sz out2 bs2 = Some (out', bs')"
      using less.prems s by (subst (asm) decode_symbols.simps) (auto split: option.splits)
    show ?thesis
      using less.hyps [OF _ r] decode_match_extends [OF m] decode_match_shrinks [OF m] sh by simp
  qed
qed

text \<open>What the reference decoder has left to do after a symbol that is not a literal.\<close>

definition after_symbol ::
  "nat list \<Rightarrow> nat list \<Rightarrow> nat \<Rightarrow> bytes \<Rightarrow> bool list \<Rightarrow> (bytes \<times> bool list) option" where
  "after_symbol lit_sz dist_sz s out bs =
     (if s = 256 then Some (out, bs)
      else do { (out', bs') \<leftarrow> decode_match dist_sz s out bs; decode_symbols lit_sz dist_sz out' bs' })"

lemma decode_symbols_step:
  assumes "decode_symbol lit_sz bs = Some (s, bs1)"
  shows "decode_symbols lit_sz dist_sz out bs
    = (if s < 256 then decode_symbols lit_sz dist_sz (out @ [of_nat s]) bs1 else after_symbol lit_sz dist_sz s out bs1)"
  using assms by (subst decode_symbols.simps) (auto simp: after_symbol_def split: option.split prod.split)

lemma decode_symbols_first:
  assumes "decode_symbols lit_sz dist_sz out bs = Some r"
  obtains s bs1 where "decode_symbol lit_sz bs = Some (s, bs1)" "length bs1 < length bs"
proof -
  obtain s bs1 where "decode_symbol lit_sz bs = Some (s, bs1)"
    using assms by (subst (asm) decode_symbols.simps) (auto split: option.splits)
  then show ?thesis using that decode_symbol_shrinks(1) by blast
qed

lemma holds_output_literal:
  assumes "holds_output buf out st" "same_out st st'" "length out < length buf"
  shows "holds_output buf (out @ [x]) (st'\<lparr>out_buf := (out_buf st)[out_cur st := x], out_cur := out_cur st + 1\<rparr>)"
  using assms put_at_end [of out buf x] by (simp add: holds_output_def same_out_def)

lemma literals_correct:
  assumes v: "valid_sizes lit_sz" "length lit_sz \<le> 288" "table_for lit_sz tbl"
  shows "decode_symbols lit_sz dist_sz out bs = Some (out', bs') \<Longrightarrow> length out' \<le> length buf \<Longrightarrow>
    buffered inp bs st \<Longrightarrow> holds_output buf out st \<Longrightarrow>
    \<exists>s st1 out1 bs1. literals inp tbl st = Some (Go (s, st1)) \<and> buffered inp bs1 st1 \<and> holds_output buf out1 st1
      \<and> 256 \<le> s \<and> after_symbol lit_sz dist_sz s out1 bs1 = Some (out', bs') \<and> length bs1 < length bs"
proof (induction "length bs" arbitrary: bs out st rule: less_induct)
  case less
  note w = less.prems(4) and b = less.prems(3) and room = less.prems(2)
  obtain s bs1 where s: "decode_symbol lit_sz bs = Some (s, bs1)" "length bs1 < length bs"
    using decode_symbols_first [OF less.prems(1)] .
  have s512: "s < 512" using decode_symbol_shrinks(2) [OF s(1)] v(2) by simp
  note step = decode_symbols_step [OF s(1), of dist_sz out]
  have lit: "decode_symbols lit_sz dist_sz (out @ [of_nat s]) bs1 = Some (out', bs')" "length out < length buf" if "s < 256"
  proof -
    show d: "decode_symbols lit_sz dist_sz (out @ [of_nat s]) bs1 = Some (out', bs')"
      using step that less.prems(1) by simp
    show "length out < length buf" using decode_symbols_extends [OF d] room by simp
  qed
  show ?case
  proof (cases "length inp - in_cur st < 4 \<or> length (out_buf st) - out_cur st < 2")
    case True
    obtain st1 where st1: "huff_decode inp tbl st = Some (s, st1)" "buffered inp bs1 st1" "same_out st st1"
      using huff_decode_correct [OF v b s(1)] by blast
    show ?thesis
    proof (cases "s < 256")
      case False
      have "literals inp tbl st = Some (Go (s, st1))"
        using True st1(1) False by (subst literals.simps) simp
      moreover have "after_symbol lit_sz dist_sz s out bs1 = Some (out', bs')" using step False less.prems(1) by simp
      ultimately show ?thesis using st1(2) holds_output_same_out [OF w st1(3)] False s(2) by auto
    next
      case small: True
      let ?st = "st1\<lparr>out_buf := (out_buf st)[out_cur st := of_nat s], out_cur := out_cur st + 1\<rparr>"
      have eq: "literals inp tbl st = literals inp tbl ?st"
        using True st1(1) small lit(2) holds_outputD(1,2) [OF w] by (subst literals.simps) simp
      have "buffered inp bs1 ?st" using st1(2) buffered_cong [of ?st st1] by simp
      then show ?thesis
        using less.hyps [OF s(2) lit(1) [OF small] room _ holds_output_literal [OF w st1(3) lit(2) [OF small]]] s(2)
        unfolding eq by (meson less_trans)
    qed
  next
    case False
    then have in4: "in_cur st + 2 \<le> length inp" "in_cur st + 4 \<le> length inp"
      and out2: "length out + 2 \<le> length buf"
      using holds_outputD(1,2) [OF w] by auto
    obtain st1 where st1: "fast_lookup inp tbl st = Some (s, st1)" "buffered inp bs1 st1" "same_out st st1"
      "in_cur st1 \<le> in_cur st + 2"
      using fast_lookup_correct [OF v b in4(1) s(1)] by blast
    show ?thesis
    proof (cases "s < 256")
      case big: False
      have "literals inp tbl st = Some (Go (s, st1))"
        using False st1(1) big bit_256 [OF s512] by (subst literals.simps) simp
      moreover have "after_symbol lit_sz dist_sz s out bs1 = Some (out', bs')" using step big less.prems(1) by simp
      ultimately show ?thesis using st1(2) holds_output_same_out [OF w st1(3)] big s(2) by auto
    next
      case small: True
      obtain s2 bs2 where s2: "decode_symbol lit_sz bs1 = Some (s2, bs2)" "length bs2 < length bs1"
        using decode_symbols_first [OF lit(1) [OF small]] .
      have s512': "s2 < 512" using decode_symbol_shrinks(2) [OF s2(1)] v(2) by simp
      note step2 = decode_symbols_step [OF s2(1), of dist_sz "out @ [of_nat s]"]
      have "in_cur st1 + 2 \<le> length inp" using st1(4) in4(2) by simp
      then obtain st2 where st2: "fast_lookup inp tbl st1 = Some (s2, st2)" "buffered inp bs2 st2" "same_out st1 st2"
        using fast_lookup_correct [OF v st1(2) _ s2(1)] by blast
      note so = same_out_trans [OF st1(3) st2(3)]
      let ?st1 = "st2\<lparr>out_buf := (out_buf st)[out_cur st := of_nat s], out_cur := out_cur st + 1\<rparr>"
      note w1 = holds_output_literal [OF w so lit(2) [OF small], of "of_nat s"]
      have b1: "buffered inp bs2 ?st1" using st2(2) buffered_cong [of ?st1 st2] by simp
      show ?thesis
      proof (cases "s2 < 256")
        case big: False
        have "literals inp tbl st = Some (Go (s2, ?st1))"
          using False st1(1) small st2(1) big bit_256 [OF s512] bit_256 [OF s512'] by (subst literals.simps) simp
        moreover have "after_symbol lit_sz dist_sz s2 (out @ [of_nat s]) bs2 = Some (out', bs')"
          using step2 big lit(1) [OF small] by simp
        ultimately show ?thesis using b1 w1 big s(2) s2(2) by (meson less_trans not_less)
      next
        case small2: True
        have d2: "decode_symbols lit_sz dist_sz ((out @ [of_nat s]) @ [of_nat s2]) bs2 = Some (out', bs')"
          using step2 small2 lit(1) [OF small] by simp
        let ?st2 = "st2\<lparr>out_buf := ((out_buf st)[out_cur st := of_nat s])[out_cur st + 1 := of_nat s2],
                        out_cur := out_cur st + 2\<rparr>"
        have eq: "literals inp tbl st = literals inp tbl ?st2"
          using False st1(1) small st2(1) small2 bit_256 [OF s512] bit_256 [OF s512'] by (subst literals.simps) simp
        have "length (out @ [of_nat s]) < length buf" using out2 by simp
        then have w2: "holds_output buf ((out @ [of_nat s]) @ [of_nat s2]) ?st2"
          using holds_output_literal [OF w1 same_out_refl, of "of_nat s2"] by simp
        have b2: "buffered inp bs2 ?st2" using st2(2) buffered_cong [of ?st2 st2] by simp
        have "length bs2 < length bs" using s(2) s2(2) by simp
        then show ?thesis
          using less.hyps [OF _ d2 room b2 w2] unfolding eq by (meson less_trans)
      qed
    qed
  qed
qed

lemma symbols_correct:
  assumes v: "valid_sizes lit_sz" "length lit_sz \<le> 288" "table_for lit_sz lit_tbl"
    and vd: "valid_sizes dist_sz" "length dist_sz \<le> 288" "table_for dist_sz dist_tbl"
  shows "decode_symbols lit_sz dist_sz out bs = Some (out', bs') \<Longrightarrow> length out' \<le> length buf \<Longrightarrow>
    buffered inp bs st \<Longrightarrow> holds_output buf out st \<Longrightarrow>
    \<exists>st'. symbols inp lit_tbl dist_tbl st = Some (Go st') \<and> buffered inp bs' st' \<and> holds_output buf out' st'"
proof (induction "length bs" arbitrary: bs out st rule: less_induct)
  case less
  obtain s st1 out1 bs1 where l: "literals inp lit_tbl st = Some (Go (s, st1))" "buffered inp bs1 st1"
    "holds_output buf out1 st1" "256 \<le> s" "after_symbol lit_sz dist_sz s out1 bs1 = Some (out', bs')" "length bs1 < length bs"
    using literals_correct [OF v less.prems] by blast
  show ?case
  proof (cases "s = 256")
    case True
    then show ?thesis using l by (subst symbols.simps) (simp add: after_symbol_def)
  next
    case False
    then obtain out2 bs2 where m: "decode_match dist_sz s out1 bs1 = Some (out2, bs2)"
      and r: "decode_symbols lit_sz dist_sz out2 bs2 = Some (out', bs')"
      using l(5) by (auto simp: after_symbol_def bind_eq_Some_conv)
    have room: "length out2 \<le> length buf" using decode_symbols_extends [OF r] less.prems(2) by simp
    obtain st2 where st2: "match_step inp dist_tbl s st1 = Some (Go st2)" "buffered inp bs2 st2" "holds_output buf out2 st2"
      using match_step_correct [OF vd l(2,3) m room] by blast
    have "length bs2 < length bs" using decode_match_shrinks [OF m] l(6) by simp
    then obtain st' where "symbols inp lit_tbl dist_tbl st2 = Some (Go st')" "buffered inp bs' st'" "holds_output buf out' st'"
      using less.hyps [OF _ r less.prems(2) st2(2,3)] by blast
    then show ?thesis using l(1) False st2(1) by (subst symbols.simps) simp
  qed
qed

lemma compressed_block_correct:
  assumes v: "valid_sizes (map unat ls)" "length ls \<le> 288" and vd: "valid_sizes (map unat ds)" "length ds \<le> 288"
    and d: "decode_symbols (map unat ls) (map unat ds) out bs = Some (out', bs')" "length out' \<le> length buf"
    and b: "buffered inp bs st" "holds_output buf out st"
  shows "\<exists>st'. compressed_block inp ls ds st = Some (Go st') \<and> buffered inp bs' st' \<and> holds_output buf out' st'"
proof -
  obtain lt dt where t: "build_table ls = Some (Some lt)" "table_for (map unat ls) lt"
    "build_table ds = Some (Some dt)" "table_for (map unat ds) dt"
    using build_table_correct [OF v] build_table_correct [OF vd] by blast
  have len: "length (map unat ls) \<le> 288" "length (map unat ds) \<le> 288" using v(2) vd(2) by simp_all
  have "compressed_block inp ls ds st = symbols inp lt dt st"
    using t(1,3) by (simp add: compressed_block_def)
  then show ?thesis using symbols_correct [OF v(1) len(1) t(2) vd(1) len(2) t(4) d b] by simp
qed

lemma fixed_sizes_same: "map unat fixed_sizes = fixed_lit_sizes" "map unat (replicate 32 (5 :: u8)) = fixed_dist_sizes"
  by (simp_all only: fixed_sizes_def fixed_lit_sizes_def fixed_dist_sizes_def map_append map_replicate) simp_all

lemma first_code_numeral:
  "first_code sz (numeral k) = 2 * (first_code sz (pred_numeral k) + count_of sz (pred_numeral k))"
  by (simp add: numeral_eq_Suc)

lemma fixed_sizes_valid: "valid_sizes fixed_lit_sizes" "valid_sizes fixed_dist_sizes"
  by (simp_all add: valid_sizes_def fixed_lit_sizes_def fixed_dist_sizes_def first_code_numeral count_of_def
      list_all_iff)

section \<open>The stream\<close>

lemma inflate_block_correct:
  assumes d: "decode_block t out bs = Some (out', bs')" "length out' \<le> length buf"
    and b: "buffered inp bs st" "holds_output buf out st"
  shows "\<exists>st'. inflate_block inp t st = Some (Go st') \<and> buffered inp bs' st' \<and> holds_output buf out' st'"
proof -
  have "t = 0 \<or> t = 1 \<or> t = 2" using d(1) by (auto simp: decode_block_def split: if_splits)
  then consider "t = 0" | "t = 1" | "t = 2" by blast
  then show ?thesis
  proof cases
    case 1
    then have "decode_stored out bs = Some (out', bs')" using d(1) by (simp add: decode_block_def)
    then show ?thesis using stored_block_correct [OF b _ d(2)] 1 by (simp add: inflate_block_def)
  next
    case 2
    then have "decode_symbols (map unat fixed_sizes) (map unat (replicate 32 (5 :: u8))) out bs = Some (out', bs')"
      using d(1) fixed_sizes_same by (simp add: decode_block_def)
    then show ?thesis
      using compressed_block_correct [of fixed_sizes "replicate 32 5", OF _ _ _ _ _ d(2) b]
        fixed_sizes_valid fixed_sizes_same 2
      by (simp add: inflate_block_def fixed_sizes_def)
  next
    case 3
    then obtain lit dist bs1 where r: "decode_dynamic bs = Some (lit, dist, bs1)" "valid_sizes lit" "valid_sizes dist"
      "decode_symbols lit dist out bs1 = Some (out', bs')"
      using d(1) by (auto simp: decode_block_def bind_eq_Some_conv split: if_splits)
    obtain ls ds st1 where s: "dynamic_sizes inp st = Some (Go (ls, ds, st1))" "map unat ls = lit" "map unat ds = dist"
      "length ls \<le> 288" "length ds \<le> 32" "buffered inp bs1 st1" "same_out st st1"
      using dynamic_sizes_correct [OF b(1) r(1)] by blast
    show ?thesis
      using compressed_block_correct [of ls ds, OF _ s(4) _ _ _ d(2) s(6) holds_output_same_out [OF b(2) s(7)]] r(2-4) s(1-3,5) 3
      by (simp add: inflate_block_def)
  qed
qed

lemma decode_stored_extends: "decode_stored out bs = Some (out', bs') \<Longrightarrow> length out \<le> length out'"
  by (auto simp: decode_stored_def Let_def bind_eq_Some_conv split: if_splits)

lemma decode_block_extends: "decode_block t out bs = Some (out', bs') \<Longrightarrow> length out \<le> length out'"
  by (auto simp: decode_block_def bind_eq_Some_conv dest: decode_stored_extends decode_symbols_extends split: if_splits)

lemma decode_blocksE:
  assumes "decode_blocks out bs = Some (out', bs')"
  obtains final bs1 t bs2 out2 bs3 where "take_number 1 bs = Some (final, bs1)" "take_number 2 bs1 = Some (t, bs2)"
    "decode_block t out bs2 = Some (out2, bs3)"
    "if final = 1 then out' = out2 \<and> bs' = bs3 else decode_blocks out2 bs3 = Some (out', bs')"
    "length bs3 < length bs"
proof -
  obtain final bs1 t bs2 out2 bs3 where r: "take_number 1 bs = Some (final, bs1)" "take_number 2 bs1 = Some (t, bs2)"
    "decode_block t out bs2 = Some (out2, bs3)"
    "if final = 1 then out' = out2 \<and> bs' = bs3 else decode_blocks out2 bs3 = Some (out', bs')"
    using assms by (subst (asm) decode_blocks.simps) (auto split: option.splits if_splits)
  have "length bs3 < length bs"
    using take_number_shrinks [OF r(1)] take_number_shrinks [OF r(2)] decode_block_shrinks [OF r(3)] by simp
  then show ?thesis using that r by blast
qed

lemma decode_blocks_extends: "decode_blocks out bs = Some (out', bs') \<Longrightarrow> length out \<le> length out'"
proof (induction "length bs" arbitrary: out bs rule: less_induct)
  case less
  obtain final bs1 t bs2 out2 bs3 where r: "take_number 1 bs = Some (final, bs1)" "take_number 2 bs1 = Some (t, bs2)"
    "decode_block t out bs2 = Some (out2, bs3)"
    "if final = 1 then out' = out2 \<and> bs' = bs3 else decode_blocks out2 bs3 = Some (out', bs')"
    "length bs3 < length bs"
    using decode_blocksE [OF less.prems] .
  then show ?case
    using decode_block_extends [OF r(3)] less.hyps [OF r(5), of out2] by (auto split: if_splits)
qed

lemma take_header:
  assumes "take_number 1 bs = Some (final, bs1)" "take_number 2 bs1 = Some (t, bs2)"
  shows "take_number 3 bs = Some (final + 2 * t, bs2)" "final < 2"
proof -
  have r: "1 \<le> length bs" "final = number (take 1 bs)" "bs1 = drop 1 bs"
    "2 \<le> length bs1" "t = number (take 2 bs1)" "bs2 = drop 2 bs1"
    using assms by (auto simp: take_number_def split: if_splits)
  have "take 3 bs = take 1 bs @ take 2 (drop 1 bs)" using take_add [of 1 2 bs] by (simp add: numeral_3_eq_3)
  then show "take_number 3 bs = Some (final + 2 * t, bs2)"
    using r by (simp add: take_number_def number_append)
  show "final < 2" using take_number_less [OF assms(1)] by simp
qed

lemma inflate_blocks_correct:
  "decode_blocks out bs = Some (out', bs') \<Longrightarrow> length out' \<le> length buf \<Longrightarrow>
   buffered inp bs st \<Longrightarrow> holds_output buf out st \<Longrightarrow>
   \<exists>st'. inflate_blocks inp st = Some (TINFL_STATUS_DONE, st') \<and> buffered inp bs' st' \<and> holds_output buf out' st'"
proof (induction "length bs" arbitrary: out bs st rule: less_induct)
  case less
  obtain final bs1 t bs2 out2 bs3 where r: "take_number 1 bs = Some (final, bs1)" "take_number 2 bs1 = Some (t, bs2)"
    "decode_block t out bs2 = Some (out2, bs3)"
    "if final = 1 then out' = out2 \<and> bs' = bs3 else decode_blocks out2 bs3 = Some (out', bs')"
    "length bs3 < length bs"
    using decode_blocksE [OF less.prems(1)] .
  note h = take_header [OF r(1,2)]
  obtain st1 where st1: "tinfl_get_bits inp 3 st = (final + 2 * t, st1)" "buffered inp bs2 st1" "same_out st st1"
    using get_bits_correct [OF less.prems(3) h(1)] by auto
  have room: "length out2 \<le> length buf"
    using r(4) less.prems(2) decode_blocks_extends [of out2 bs3] by (fastforce split: if_splits)
  obtain st2 where st2: "inflate_block inp t st1 = Some (Go st2)" "buffered inp bs3 st2" "holds_output buf out2 st2"
    using inflate_block_correct [OF r(3) room st1(2) holds_output_same_out [OF less.prems(4) st1(3)]] by blast
  have t: "(final + 2 * t) div 2 = t" "odd (final + 2 * t) \<longleftrightarrow> final = 1" using h(2) by (auto simp: less_2_cases_iff)
  have step: "inflate_blocks inp st = (if final = 1 then Some (TINFL_STATUS_DONE, st2) else inflate_blocks inp st2)"
    using st1(1) st2(1) t by (subst inflate_blocks.simps) simp
  show ?case
  proof (cases "final = 1")
    case True
    then show ?thesis using step st2 r(4) by simp
  next
    case False
    then show ?thesis using step less.hyps [OF r(5) _ less.prems(2) st2(2,3)] r(4) by simp
  qed
qed

lemma inflates:
  assumes "inflated stream = Some content" "length content \<le> length buf"
  shows "\<exists>n \<le> length stream. tinfl_decompress stream buf
    = Some (TINFL_STATUS_DONE, n, content @ drop (length content) buf, length content)"
proof -
  obtain rest where r: "decode_blocks [] (bits_of stream) = Some (content, rest)"
    using assms(1) by (auto simp: inflated_def)
  let ?st = "\<lparr>in_cur = 0, bit_buf = 0, num_bits = 0, out_buf = buf, out_cur = 0\<rparr>"
  have "holds_output buf [] ?st" by (simp add: holds_output_def)
  then obtain st where st: "inflate_blocks stream ?st = Some (TINFL_STATUS_DONE, st)" "buffered stream rest st" "holds_output buf content st"
    using inflate_blocks_correct [OF r assms(2) buffered_start] by blast
  then show ?thesis
    using holds_outputD(1,4) [OF st(3)] by (intro exI [of _ "in_cur st"]) (auto simp: tinfl_decompress_def buffered_def)
qed

section \<open>Properties\<close>

text \<open>C22: The inflater decodes the deflate format: for every stream that conforms to RFC 1951, that is,
  which the reference decoder \<open>inflated\<close> reads bit by bit, with any mixture of stored blocks and blocks
  of fixed or dynamic codes (complete ones, or of one symbol), the call that the extraction of a
  file in memory makes (all of the input, an output buffer for the whole file) returns
  \<open>TINFL_STATUS_DONE\<close>, the buffer starts with the content of the stream, every byte behind it is as
  before, the number of bytes written is the length of the content, and no more bytes are read than
  the stream has. The only condition is that the content fits the buffer.\<close>

theorem inflate_conforms:
  assumes "inflated stream = Some content" and "length content \<le> length buf"
  shows "\<exists>n \<le> length stream. tinfl_decompress stream buf
    = Some (TINFL_STATUS_DONE, n, content @ drop (length content) buf, length content)"
  using assms by (rule inflates)

text \<open>A stream with a block of fixed codes: the letter a twice, a match of length 6 and distance 1, the
  end of the block.\<close>

lemma demo_codewords:
  "codeword fixed_lit_sizes 97 = [True, False, False, True, False, False, False, True]"
  "codeword fixed_lit_sizes 260 = [False, False, False, False, True, False, False]"
  "codeword fixed_lit_sizes 256 = [False, False, False, False, False, False, False]"
  "codeword fixed_dist_sizes 0 = [False, False, False, False, False]"
  by code_simp+

lemma demo_inflated: "inflated [75, 76, 132, 0, 0] = Some (replicate 8 97)"
proof -
  let ?L = "codeword fixed_lit_sizes" and ?D = "codeword fixed_dist_sizes"
  have sizes: "length fixed_lit_sizes = 288" "length fixed_dist_sizes = 32"
    "fixed_lit_sizes ! 97 = 8" "fixed_lit_sizes ! 260 = 7" "fixed_lit_sizes ! 256 = 7" "fixed_dist_sizes ! 0 = 5"
    by (simp_all add: fixed_lit_sizes_def fixed_dist_sizes_def nth_append)
  note dec = decode_symbol_codeword [OF fixed_sizes_valid(1)] decode_symbol_codeword [OF fixed_sizes_valid(2)]
  have bits: "bits_of [75, 76, 132, 0, 0]
      = [True, True, False] @ ?L 97 @ ?L 97 @ ?L 260 @ ?D 0 @ ?L 256 @ [False, False]"
    unfolding demo_codewords by code_simp
  let ?rest = "?L 256 @ [False, False]"
  have m: "decode_match fixed_dist_sizes 260 [97, 97] (?D 0 @ ?rest) = Some (replicate 8 97, ?rest)"
    using dec(2) [of 0 ?rest] sizes
    by (simp add: decode_match_def length_symbol_def dist_symbol_def take_number_def number_def
        copy_back_def numeral_eq_Suc)
  have "decode_symbols fixed_lit_sizes fixed_dist_sizes (replicate 8 97) ?rest
      = Some (replicate 8 97, [False, False])"
    using dec(1) [of 256 "[False, False]"] sizes by (subst decode_symbols.simps) simp
  then have "decode_symbols fixed_lit_sizes fixed_dist_sizes [97, 97] (?L 260 @ ?D 0 @ ?rest)
      = Some (replicate 8 97, [False, False])"
    using dec(1) [of 260 "?D 0 @ ?rest"] sizes m by (subst decode_symbols.simps) simp
  then have "decode_symbols fixed_lit_sizes fixed_dist_sizes [97] (?L 97 @ ?L 260 @ ?D 0 @ ?rest)
      = Some (replicate 8 97, [False, False])"
    using dec(1) [of 97 "?L 260 @ ?D 0 @ ?rest"] sizes by (subst decode_symbols.simps) simp
  then have "decode_symbols fixed_lit_sizes fixed_dist_sizes [] (?L 97 @ ?L 97 @ ?L 260 @ ?D 0 @ ?rest)
      = Some (replicate 8 97, [False, False])"
    using dec(1) [of 97 "?L 97 @ ?L 260 @ ?D 0 @ ?rest"] sizes by (subst decode_symbols.simps) simp
  then show ?thesis
    unfolding inflated_def bits
    by (subst decode_blocks.simps) (simp add: take_number_def number_def decode_block_def numeral_2_eq_2)
qed

theorem inflate_conforms_witness:
  "\<exists>n \<le> 5. tinfl_decompress [75, 76, 132, 0, 0] [1, 2, 3, 4, 5, 6, 7, 8, 9, 10]
    = Some (TINFL_STATUS_DONE, n, [97, 97, 97, 97, 97, 97, 97, 97, 9, 10], 8)"
proof -
  have "replicate 8 97 = [97, 97, 97, 97, 97, 97, 97, 97 :: u8]" by code_simp
  then show ?thesis
    using inflate_conforms [OF demo_inflated, of "[1, 2, 3, 4, 5, 6, 7, 8, 9, 10]"] by (simp add: eval_nat_numeral)
qed

end
