(* ===== verification/Spec2Isabelle.thy ===== *)
theory Spec2Isabelle
  imports Syscalls Ihex_Loader Mount Console Linenoise Kernel_Support Elf Dasm_Assemble Zip_Checksum Zip_Archive Inflate_Correct
begin

text \<open>
  A verification development of luajitpi, a bare-metal LuaJIT system for the Raspberry Pi.


  THE PROGRAM.  A serial boot loader (\<open>src/bootloader/\<close>) receives the kernel as an Intel hex file. The
  kernel is LuaJIT linked against newlib; everything below newlib's system calls is this repository.
  A call of the C library travels down one stack:

    newlib  \<rightarrow>  system calls (\<open>src/syscalls.c\<close>)  \<rightarrow>  virtual file system (\<open>src/rboot/vfs.c\<close>)
      \<rightarrow>  a file system (\<open>fat.c\<close>, \<open>ext2.c\<close>, \<open>nofs.c\<close>, sharing \<open>libfs.c\<close>)  \<rightarrow>  block layer (\<open>block.c\<close>)
      \<rightarrow>  partition driver (\<open>mbr.c\<close>)  \<rightarrow>  block cache (\<open>block_cache.c\<close>)  \<rightarrow>  block layer
      \<rightarrow>  SD card driver (\<open>emmc.c\<close>)  \<rightarrow>  registers and timer (\<open>mmio.c\<close>, \<open>timer.c\<close>), mailbox (\<open>mbox.c\<close>).

  \<open>libfs_init\<close> and \<open>register_fs\<close> build that stack at boot. Beside it stand the text console with its
  frame buffer and output switch, the serial port, the line editor of the Lua prompt, an emulation
  of \<open>dlopen\<close> over a table generated at link time, the page table, the exception table, the boot tags and
  an ELF loader, and the engine of an assembler for Lua programs (DynASM).


  THEORIES.  Each theory models the files it names; a definition has the name of the C function it
  models unless that name belongs to HOL. \<open>PROJECT.json\<close> gives the lines of each.

  \<^item> \<open>Prelude\<close>: the C types, \<open>bytes\<close> lists as memory, the option monad, the lemmas on lists and
    words that the components share.
  \<^item> \<open>Byte_Access\<close> (\<open>rboot/util.h\<close>): unaligned reads and writes, \<open>byte_swap\<close>.
  \<^item> \<open>Block_Layer\<close> (\<open>rboot/block.h\<close>, \<open>block.c\<close>): \<open>struct block_device\<close> as a record over the state of
    its driver; \<open>block_read\<close>, \<open>block_write\<close> with their splitting and retry loops.
  \<^item> \<open>Block_Cache\<close> (\<open>rboot/block_cache.c\<close>): \<open>cache_init\<close>, \<open>cache_read\<close>, \<open>cache_write\<close>; the state is
    the array of cached block numbers and the data area.
  \<^item> \<open>Mbr\<close> (\<open>rboot/mbr.c\<close>): \<open>read_mbr\<close> and the read and write functions of a partition.
  \<^item> \<open>Libfs\<close> (\<open>rboot/libfs.c\<close>, \<open>vfs.h\<close>, \<open>fs.h\<close>, \<open>multiboot.h\<close>): streams, \<open>fs_interpret_mode\<close>,
    \<open>fs_fread\<close>, \<open>fs_fwrite\<close>. \<open>File_Write\<close> proves what \<open>fs_fwrite\<close> does to a file's content.
  \<^item> \<open>Fat\<close>, \<open>Ext2\<close>, \<open>Nofs\<close> (\<open>rboot/fat.c\<close>, \<open>ext2.c\<close>, \<open>nofs.c\<close>): initialisation, the map from a
    file's block index to a block of the device, directories, the file operations.
  \<^item> \<open>Vfs\<close> (\<open>rboot/vfs.c\<close>, \<open>dirent.h\<close>): the list of mounted devices, the path parser, \<open>mb_fopen\<close> and the
    operations that dispatch through \<open>struct fs\<close>, here the record of a file system's operations.
  \<^item> \<open>Mount\<close> (\<open>libfs_init\<close>, \<open>register_fs\<close>): the wiring, and the theorem through the whole read path.
  \<^item> \<open>Syscalls\<close> (\<open>syscalls.c\<close>, \<open>mem.h\<close>): the descriptor table, the heap break, newlib's calls.
  \<^item> \<open>Mmio\<close> (\<open>rboot/mmio.c\<close>, \<open>timer.c\<close>): register access and waiting. \<open>Uart\<close> (\<open>rboot/uart.c\<close>,
    \<open>bootloader/periph.c\<close>), \<open>Mailbox\<close> (\<open>rboot/mbox.c\<close>, \<open>rboot/fb.c\<close>, \<open>src/valvers/\<close>): drivers above them.
  \<^item> \<open>Sd_Host\<close>, \<open>Emmc\<close> (\<open>rboot/emmc.c\<close>): clock, power, commands and interrupts; card
    initialisation, reading and writing, for the configuration the Makefile selects.
  \<^item> \<open>Console\<close> (\<open>rboot/console.c\<close>, \<open>font.c\<close>, \<open>output.c\<close>): characters drawn into the frame buffer.
  \<^item> \<open>Linenoise\<close> (\<open>linenoise/linenoise.c\<close>): the edited line, refresh, completion, history, key loop.
  \<^item> \<open>Kernel_Support\<close> (\<open>ldl.c\<close>, \<open>mmu.c\<close>, \<open>exception.c\<close>, \<open>rboot/atag.c\<close>) and \<open>Elf\<close> (\<open>rboot/elf.c\<close>).
  \<^item> \<open>Ihex_Loader\<close> (\<open>bootloader/bootloader07.c\<close>, \<open>ihex.c\<close>): the digit by digit state machine.
  \<^item> \<open>Dasm\<close> (\<open>dasm/csrc/dynasm/dasm_arm.h\<close>, \<open>dasm_proto.h\<close>): the ARM engine of DynASM, the assembler that Lua
    programs call: \<open>dasm_put\<close>, \<open>dasm_link\<close>, \<open>dasm_encode\<close> and the state they share. \<open>Dasm_Link\<close> holds the reference
    assembler and the invariant of the first pass, \<open>Dasm_Assemble\<close> the other passes and the refinement.
  \<^item> \<open>Zip_Checksum\<close>, \<open>Zip_Sort\<close>, \<open>Zip_Reader\<close>, \<open>Zip_Open\<close>, \<open>Zip_Archive\<close> (\<open>miniz/miniz.c\<close>): the zip library, from which
    \<open>ljuart.c\<close> takes the Lua programs packed beside the kernel. The checksums; the order of names and the heap
    sort; the records of an open archive, its directory and the look-up of names; the invariant \<open>opened\<close> of an
    archive that opened; the format of an archive and what is read back from it.
  \<^item> \<open>Inflate\<close> (\<open>miniz/miniz.c\<close>, \<open>tinfl_decompress\<close> with its macros): the decompressor of the zip library, in the mode in
    which a file of an archive in memory is extracted. \<open>Deflate_Format\<close> is the deflate format as a decoder on lists of
    bits, written from RFC 1951; \<open>Deflate_Codes\<close> holds the facts about its code words, \<open>Inflate_Tables\<close> the
    invariant of the decoding tables while symbols are inserted, \<open>Inflate_Bits\<close> the relation of the bit
    buffer to the bits that are left, \<open>Inflate_Correct\<close> the blocks and the whole stream.


  CONVENTIONS.  Fixed-width unsigned integers are words (\<open>u8\<close>, \<open>u16\<close>, \<open>u32\<close>) and wrap; C's
  \<open>int\<close> is a HOL integer with its conversions written out. A function that may not return a
  defined value returns an option: \<open>None\<close> is an endless loop, a call through a null pointer, a division
  by zero, an access out of bounds or after \<open>free\<close>, or a read of memory that nothing has set.
  Errors the code reports are ordinary results (0, -1, \<open>errno\<close>, error codes). Memory whose
  initial content C leaves open is the argument \<open>junk\<close>, over which the theorems quantify. Code that is not under
  \<open>src/\<close> is an argument too: the firmware behind the mailbox, the terminal of the line editor, the
  generated symbol table, the driver below a block device.
  A device register is read from the stream \<open>reads\<close> of the environment \<open>hw\<close>, arbitrary
  unless a theorem constrains it, and every access is recorded in \<open>trace\<close>, so that a theorem can speak
  of the order of register accesses. File systems run on a \<open>world\<close>: \<open>errno\<close> and the state of the devices.


  LOOPS.  There is no fuel. A loop bounded by its data is a structural or measured recursion with its
  termination proved; a loop that may not end (waiting for a register, following a cluster
  chain of a damaged disk, looking for the end mark of a file) is \<open>partial_function (option)\<close>, and the theorems
  say both when it returns and, where the code can hang, that it does not: the chain theorems state \<open>= Some\<close>
  outright, and \<open>fat12_subdirectory_loops\<close>, \<open>nofs_append_never_returns\<close> and
  \<open>usleep_wrapped_never_returns\<close> state \<open>= None\<close>.


  INTERFACES.  What one layer promises the next is a locale.

  \<^item> \<open>byte_cell\<close> (Byte_Access): a value of \<open>n\<close> bytes written is read back and nothing else changes;
    interpreted by the word, halfword and byte helpers.
  \<^item> \<open>block_store\<close> (Block_Layer): a device that behaves as an array of blocks. Its clients,
    \<open>block_read\<close> and \<open>block_write\<close>, are proved once against it. It is interpreted by a memory disk, by a partition
    whose parent is a store (Mbr) and by the cache whose disk is a store (Block_Cache), so that
    the layers stack.
  \<^item> \<open>block_map\<close>, extended by \<open>file_blocks\<close> (Libfs): the promise a file system makes to \<open>fs_fread\<close>, that each index of
    a file names a readable block. Interpreted by FAT, ext2 and nofs.
  \<^item> \<open>block_rw\<close> (File_Write): the same for writing. Interpreted by nofs, the one file system that writes.


  RESULTS.  In the order of the properties of the manifest:

  \<^item> reading. \<open>stack_reads_file\<close> composes the layers: a file of a FAT partition read by \<open>mb_fread\<close> through the
    partition driver, the cache and the block layer is the file's cluster chain on the
    raw disk. The properties after it are the statement of each layer.
  \<^item> storage. The cache refines an array of blocks, whatever is cached, and \<open>cache_init\<close> establishes its
    invariant; a partition refines the slice of its disk for the requests inside it, and a write stores
    in exactly the blocks it addresses (the code does not check that they are in the partition); the MBR
    parser registers the partitions its table describes; ext2's direct, indirect, doubly and triply
    indirect blocks are one tree; the nofs round trip writes a file and reads it back.
  \<^item> names and handles. The path parser and the mount list, short names, directories, seeking, the
    descriptor table, the heap break.
  \<^item> devices. Clock dividers; the commands that a read sends to the SD card and the blocks that it
    delivers; \<open>usleep\<close>, with its polls of the timer; the entries of the property buffer; the identity page table.
  \<^item> interaction. The console refines an abstract terminal and the line editor an abstract line;
    the history keeps the latest lines.
  \<^item> assembling. The three passes of the DynASM engine, which chain references through the buffer and
    estimate offsets first, refine a two-pass assembler that resolves each reference by its label's place
    in the program; every call on a well-formed list returns; immediates and branch distances are encoded as the
    processor reads them. The invariant \<open>pass1\<close> says what each cell and each label slot holds,
    and that the unresolved references of a label form one finite chain. The refinement is stated for
    programs in one section; the model has them all.
  \<^item> archives. Opening any bytes as an archive, and every query on it, returns and reads only inside them; a file is
    found exactly when a record has its name, whether by binary search over the sorted
    directory or by the linear search; what the format writes for a list of files is read
    back. The table-driven CRC is the bitwise one and the blocked Adler sum the plain one. The inflater
    returns the content of every stream of the deflate format that fits the buffer; its loops over the
    symbols of a block and over the blocks are \<open>partial_function (option)\<close>, and the theorem states \<open>= Some\<close>.
  \<^item> errors. Where the code goes wrong the theorem says so: an unterminated label, a directory
    of a FAT12 disk that is read for ever, a mark that is missed, a structure used after it is freed. Each is
    listed in the findings of the manifest with the line that is responsible.


  NOT MODELLED.  The assembly files (\<open>vectors.s\<close>, the start-up code of the boot
  loader); the Lua code, and the C files that only bind C libraries to Lua or stand in for a missing function
  (\<open>ljuart.c\<close>, \<open>tcc_wrap.c\<close>, \<open>linenoise_lua.c\<close>, \<open>sqlite_stubs.c\<close>); the placeholder symbol table
  (\<open>fmap_dummy.c\<close>); the engines of DynASM for other processors, which are not built. The C compiler in
  \<open>src/tcc\<close> is a copy of another project and most of the lines of the repository. Of the zip library, the reader of
  an archive in memory, the checksums and the inflater's call without zlib header, for all of the input at
  once, are modelled; the extraction functions around that call, the resumption of the inflater in the middle
  of a stream, the compressor, the writer, the \<open>zlib\<close> interface and the access to archives in files are not. Debugging output
  that only a disabled macro enables is left out, as is the freeing of memory at exit.
  Caches of the processor have no state here: \<open>enable_mmu\<close> is its table and its register writes.
\<close>

end
